(* ===== verification/Prelude.thy ===== *)
theory Prelude
  imports Main "HOL-Library.Word"
begin

unbundle bit_operations_syntax

text \<open>
  Shared vocabulary of the development: the names of the machine integer types the sources
  use, the collections of rewrite rules that the component theories fill, and the generic facts
  about masks, bounded words, lists updated by index and finite tables that several components
  need. Nothing in this theory models a particular source file.
\<close>

type_synonym u8 = "8 word"
type_synonym u16 = "16 word"
type_synonym u32 = "32 word"
type_synonym u64 = "64 word"

named_theorems mask_simps \<open>rewriting power-of-two masks to arithmetic\<close>
named_theorems wf_intros \<open>introduction rules for component invariants\<close>

section \<open>Masks on natural numbers and integers\<close>

lemma nat_and_mask [mask_simps]: "(x::nat) AND (2 ^ m - Suc 0) = x mod 2 ^ m"
  using take_bit_eq_mask [of m x] by (simp add: take_bit_eq_mod mask_eq_exp_minus_1)

lemma int_and_mask [mask_simps]: "(x::int) AND (2 ^ m - 1) = x mod 2 ^ m"
  by (simp add: take_bit_eq_mod flip: mask_eq_exp_minus_1 take_bit_eq_mask)

text \<open>
  The tables that grow downwards from an object header index with a negative mask: for
  \<open>M = NOT (2 ^ m - 1)\<close>, the expression \<open>x | M\<close> is a negative number between \<open>- (2 ^ m)\<close>
  and \<open>- 1\<close> whose low bits are those of \<open>x\<close>.
\<close>

lemma int_or_not_mask [mask_simps]:
  "(x::int) OR NOT (2 ^ m - 1) = x mod 2 ^ m - 2 ^ m"
proof -
  have "x OR NOT (mask m) = take_bit m x OR NOT (mask m)"
    by (rule bit_eqI) (auto simp: bit_simps)
  also have "\<dots> = take_bit m x + NOT (mask m)"
    by (rule disjunctive_add [symmetric]) (auto simp: bit_simps)
  also have "\<dots> = x mod 2 ^ m - 2 ^ m"
    by (simp add: take_bit_eq_mod not_eq_complement mask_eq_exp_minus_1)
  finally show ?thesis by (simp add: mask_eq_exp_minus_1)
qed

section \<open>Bits of bounded words\<close>

lemma bit_unat_iff: "bit (unat w) i \<longleftrightarrow> bit w i"
  by (simp add: bit_unsigned_iff)

lemma unat_mask:
  "m \<le> LENGTH('a) \<Longrightarrow> unat (mask m :: 'a::len word) = 2 ^ m - 1"
  unfolding mask_eq_exp_minus_1[symmetric]
  by (rule bit_eqI) (auto simp: bit_simps mask_eq_exp_minus_1 simp flip: mask_eq_exp_minus_1)

lemma unat_pow2: "k < LENGTH('a) \<Longrightarrow> unat (2 ^ k :: 'a::len word) = 2 ^ k"
  by (metis mod_less of_nat_numeral of_nat_power one_less_numeral_iff power_strict_increasing
      semiring_norm(76) unat_of_nat)

lemma bit_above_width:
  assumes "unat (v::'a::len word) < 2 ^ width" "width \<le> j"
  shows "\<not> bit v j"
proof -
  have "unat v < 2 ^ j"
    using assms by (meson less_le_trans one_le_numeral power_increasing)
  then show ?thesis unfolding bit_unat_iff[symmetric] bit_iff_odd by simp
qed

lemma word_highest_bit:
  assumes "2 ^ m \<le> unat (v::'a::len word)" "unat v < 2 ^ Suc m"
  shows "bit v m" "\<And>j. m < j \<Longrightarrow> \<not> bit v j"
proof -
  have "unat v div 2 ^ m = 1"
    using assms by (intro div_nat_eqI) auto
  then show "bit v m"
    unfolding bit_unat_iff[symmetric] bit_iff_odd by simp
next
  show "\<not> bit v j" if "m < j" for j
    using bit_above_width[OF assms(2)] that by simp
qed

lemma ex_power2_between:
  assumes "0 < (x::nat)" obtains m where "2 ^ m \<le> x" "x < 2 ^ Suc m"
  using ex_power_ivl1[of 2 x] assms by auto

lemma word_and_eq_iff: "(v::'a::len word) AND t = t \<longleftrightarrow> (\<forall>i. bit t i \<longrightarrow> bit v i)"
proof
  assume "v AND t = t"
  then have "bit (v AND t) i = bit t i" for i by simp
  then show "\<forall>i. bit t i \<longrightarrow> bit v i" by (auto simp: bit_simps)
qed (rule bit_word_eqI, auto simp: bit_simps)

lemma and_eq_imp_le: "(v::'a::len word) AND t = t \<Longrightarrow> t \<le> v"
  by (metis word_and_le2 word_and_le1)

lemma unat_ucast_u32: "unat (ucast (x::u32) :: u64) = unat x"
proof -
  have "unat x < 2 ^ 64" using unsigned_less[of x, where 'a=nat] by simp
  then show ?thesis by (simp add: unsigned_ucast_eq take_bit_nat_eq_self)
qed

section \<open>Lists updated by index\<close>

lemma nth_list_update_if:
  "i < length xs \<Longrightarrow> xs[i := x] ! j = (if j = i then x else xs ! j)"
  by (auto simp: nth_list_update)

lemma sint_cases:
  fixes w :: "'a::len word"
  shows "sint w = (if uint w < 2 ^ (LENGTH('a) - 1) then uint w else uint w - 2 ^ LENGTH('a))"
proof -
  define n where "n = LENGTH('a) - 1"
  have L: "LENGTH('a) = Suc n" by (simp add: n_def)
  have "uint w < 2 ^ Suc n" "0 \<le> uint w" using uint_lt2p[of w] by (simp_all add: L)
  then have "(uint w + 2 ^ n) mod 2 ^ Suc n =
     (if uint w < 2 ^ n then uint w + 2 ^ n else uint w + 2 ^ n - 2 ^ Suc n)"
    by (auto simp: mod_pos_geq intro!: mod_pos_pos_trivial)
  then show ?thesis unfolding sint_uint n_def[symmetric] signed_take_bit_eq_take_bit_shift
    by (auto simp: take_bit_eq_mod L)
qed

lemma sint_word_of_int_range:
  assumes "- (2 ^ (LENGTH('a) - 1)) \<le> k" "k < 2 ^ (LENGTH('a) - 1)"
  shows "sint (word_of_int k :: 'a::len word) = k"
  unfolding sint_sbintrunc' using assms by (rule signed_take_bit_int_eq_self)

lemma uint_scast_u32:
  "sint (x::32 word) \<ge> 0 \<Longrightarrow> uint (scast x :: 64 word) = sint x"
  using sint_lt[of x] unfolding scast_eq uint_word_of_int
  by (intro mod_pos_pos_trivial) auto

lemma unsigned_range_test:
  fixes idx rhs :: "64 word"
  assumes "uint rhs < 2 ^ 62"
  shows "idx - 1 < rhs \<longleftrightarrow> 1 \<le> sint idx \<and> sint idx < uint rhs + 1"
proof -
  have "uint (idx - 1) = (uint idx - 1) mod 2 ^ 64" by (simp add: uint_word_ariths)
  also have "\<dots> = (if uint idx = 0 then 2 ^ 64 - 1 else uint idx - 1)"
  proof (cases "uint idx = 0")
    case False
    then have "0 < uint idx" using uint_ge_0[of idx] by linarith
    then show ?thesis using uint_lt2p[of idx] by (simp add: mod_pos_pos_trivial)
  qed simp
  finally have "uint (idx - 1) = (if uint idx = 0 then 2 ^ 64 - 1 else uint idx - 1)" .
  moreover have "uint idx = 0 \<or> 1 \<le> uint idx" using uint_ge_0[of idx] by linarith
  ultimately show ?thesis using assms uint_lt2p[of idx]
    by (auto simp: word_less_def sint_cases split: if_splits)
qed

section \<open>Loops that may fail\<close>

text \<open>\<open>for (x in xs) s = f(x, s)\<close>, stopping at the first failure.\<close>

fun fold_opt :: "('a \<Rightarrow> 's \<Rightarrow> 's option) \<Rightarrow> 'a list \<Rightarrow> 's \<Rightarrow> 's option" where
  "fold_opt f [] s = Some s"
| "fold_opt f (x # xs) s = (case f x s of None \<Rightarrow> None | Some s' \<Rightarrow> fold_opt f xs s')"

lemma fold_opt_append:
  "fold_opt f (xs @ ys) s = (case fold_opt f xs s of None \<Rightarrow> None | Some s' \<Rightarrow> fold_opt f ys s')"
  by (induction xs arbitrary: s) (auto split: option.splits)

lemma fold_opt_map: "fold_opt f (map g xs) s = fold_opt (\<lambda>x. f (g x)) xs s"
  by (induction xs arbitrary: s) (auto split: option.splits)

lemma fold_opt_cong:
  assumes "xs = ys" "\<And>x s. x \<in> set ys \<Longrightarrow> f x s = g x s"
  shows "fold_opt f xs s = fold_opt g ys s"
  using assms(2) unfolding assms(1) by (induction ys arbitrary: s) (auto split: option.splits)

end
