(* ===== verification/Probing.thy ===== *)
theory Probing
  imports Prelude
begin

unbundle bit_operations_syntax

text \<open>
  Open addressing with a fixed step, the scheme of every hash table of the runtime: the structure
  transition table, the inline and anchor tables of a structure, the cacheable dictionary and the array sparse
  map. The loops are instances of one bounded loop, the contract of a table is stated once over the
  view from slots to keys, and the lemmas are proved once in the locale \<open>probing\<close>, for any
  step that visits every slot. The two probing orders of the code, upwards under a mask and downwards
  under a negative mask, are interpretations.
\<close>

section \<open>The probe loop\<close>

text \<open>
  \<open>while (true) { ... i = step(i); }\<close> where the body leaves the loop with a result or falls through. The
  fuel is the table size; running out of it is \<open>None\<close>.
\<close>

fun probe :: "(nat \<Rightarrow> 'r option) \<Rightarrow> (nat \<Rightarrow> nat) \<Rightarrow> nat \<Rightarrow> nat \<Rightarrow> 'r option" where
  "probe body step 0 i = None"
| "probe body step (Suc fuel) i =
     (case body i of Some r \<Rightarrow> Some r | None \<Rightarrow> probe body step fuel (step i))"

lemma probe_stops:
  assumes "d < fuel" "body ((step ^^ d) i) = Some r" "\<forall>d'<d. body ((step ^^ d') i) = None"
  shows "probe body step fuel i = Some r"
  using assms
proof (induction d arbitrary: i fuel)
  case 0
  then show ?case by (cases fuel) auto
next
  case (Suc d)
  from Suc.prems(1) obtain fuel' where f: "fuel = Suc fuel'" "d < fuel'" by (cases fuel) auto
  have "body i = None" using Suc.prems(3) by (metis funpow_0 zero_less_Suc)
  moreover have "probe body step fuel' (step i) = Some r"
  proof (rule Suc.IH[OF f(2)])
    show "body ((step ^^ d) (step i)) = Some r" using Suc.prems(2) by (simp add: funpow_swap1)
    show "\<forall>d'<d. body ((step ^^ d') (step i)) = None"
      using Suc.prems(3) by (metis Suc_mono funpow_swap1 funpow.simps(2) comp_apply)
  qed
  ultimately show ?case by (simp add: f)
qed

section \<open>The contract of a table\<close>

text \<open>
  \<open>t\<close> gives the key in each slot, \<open>None\<close> for an empty one. The table holds exactly the keys \<open>K\<close>, each
  in one slot, and every slot that precedes a key's slot on the key's probe path is occupied.
\<close>

definition table_ok ::
  "nat \<Rightarrow> ('k \<Rightarrow> nat) \<Rightarrow> (nat \<Rightarrow> nat) \<Rightarrow> (nat \<Rightarrow> 'k option) \<Rightarrow> 'k set \<Rightarrow> bool" where
  "table_ok cap start step t K \<longleftrightarrow>
     (\<forall>p < cap. \<forall>k. t p = Some k \<longrightarrow>
        k \<in> K \<and> (\<exists>d. (step ^^ d) (start k) = p \<and> (\<forall>d'<d. t ((step ^^ d') (start k)) \<noteq> None))) \<and>
     (\<forall>k\<in>K. \<exists>p < cap. t p = Some k) \<and>
     (\<forall>p < cap. \<forall>q < cap. t p \<noteq> None \<longrightarrow> t p = t q \<longrightarrow> p = q)"

lemma table_okD:
  assumes "table_ok cap start step t K"
  shows "\<And>p k. p < cap \<Longrightarrow> t p = Some k \<Longrightarrow> k \<in> K"
    and "\<And>p k. p < cap \<Longrightarrow> t p = Some k \<Longrightarrow>
      \<exists>d. (step ^^ d) (start k) = p \<and> (\<forall>d'<d. t ((step ^^ d') (start k)) \<noteq> None)"
    and "\<And>k. k \<in> K \<Longrightarrow> \<exists>p < cap. t p = Some k"
    and "\<And>p q. p < cap \<Longrightarrow> q < cap \<Longrightarrow> t p \<noteq> None \<Longrightarrow> t p = t q \<Longrightarrow> p = q"
  using assms unfolding table_ok_def by blast+

lemma table_ok_empty: "table_ok cap start step (\<lambda>_. None) {}"
  by (simp add: table_ok_def)

text \<open>The contract depends only on the slots below the size.\<close>

lemma table_ok_cong:
  assumes "\<And>p. p < cap \<Longrightarrow> t p = t' p" "\<And>k d. (step ^^ d) (start k) < cap"
  shows "table_ok cap start step t K \<longleftrightarrow> table_ok cap start step t' K"
  unfolding table_ok_def by (auto simp: assms) (metis assms(1))+

text \<open>A table that holds fewer keys than it has slots has an empty slot.\<close>

lemma table_ok_has_empty:
  assumes ok: "table_ok cap start step t K" and "finite K" "card K < cap"
  shows "\<exists>p < cap. t p = None"
proof (rule ccontr)
  assume "\<not> ?thesis"
  then have full: "\<And>p. p < cap \<Longrightarrow> t p \<noteq> None" by auto
  have "inj_on (the \<circ> t) {..< cap}"
    unfolding inj_on_def using full table_okD(4)[OF ok] by (metis comp_apply lessThan_iff option.expand)
  moreover have "(the \<circ> t) ` {..< cap} \<subseteq> K"
    using full table_okD(1)[OF ok] by force
  ultimately have "cap \<le> card K" using \<open>finite K\<close> card_inj_on_le[of _ "{..< cap}" K] by fastforce
  with assms(3) show False by simp
qed

section \<open>Tables as arrays of entries\<close>

text \<open>
  \<open>key_of\<close> reads the key of an entry, \<open>None\<close> when the slot is free. \<open>tbl\<close> states the contract for an array of
  entries that holds exactly the entries \<open>E\<close>.
\<close>

definition tbl_view :: "('e \<Rightarrow> 'k option) \<Rightarrow> 'e list \<Rightarrow> nat \<Rightarrow> 'k option" where
  "tbl_view key_of xs p = (if p < length xs then key_of (xs ! p) else None)"

definition tbl_entries :: "('e \<Rightarrow> 'k option) \<Rightarrow> 'e list \<Rightarrow> 'e set" where
  "tbl_entries key_of xs = {e \<in> set xs. key_of e \<noteq> None}"

definition tbl_keys :: "('e \<Rightarrow> 'k option) \<Rightarrow> 'e set \<Rightarrow> 'k set" where
  "tbl_keys key_of E = {k. \<exists>e\<in>E. key_of e = Some k}"

definition tbl ::
  "nat \<Rightarrow> ('k \<Rightarrow> nat) \<Rightarrow> (nat \<Rightarrow> nat) \<Rightarrow> ('e \<Rightarrow> 'k option) \<Rightarrow> 'e list \<Rightarrow> 'e set \<Rightarrow> bool" where
  "tbl cap start step key_of xs E \<longleftrightarrow>
     length xs = cap \<and> tbl_entries key_of xs = E \<and>
     table_ok cap start step (tbl_view key_of xs) (tbl_keys key_of E)"

text \<open>The insertion loop of the tables: \<open>while (slot occupied) slot = step(slot); ht[slot] = e\<close>.\<close>

definition tbl_put ::
  "('e \<Rightarrow> 'k option) \<Rightarrow> (nat \<Rightarrow> nat) \<Rightarrow> 'e list \<Rightarrow> nat \<Rightarrow> 'e \<Rightarrow> 'e list option" where
  "tbl_put key_of step xs slot e =
     (case probe (\<lambda>p. if key_of (xs ! p) = None then Some p else None) step (length xs) slot of
        None \<Rightarrow> None | Some p \<Rightarrow> Some (xs[p := e]))"

text \<open>The rehash loop: every occupied entry of the old table is put into the new one, in order.\<close>

fun tbl_reinsert ::
  "('e \<Rightarrow> 'k option) \<Rightarrow> ('k \<Rightarrow> nat) \<Rightarrow> (nat \<Rightarrow> nat) \<Rightarrow> 'e list \<Rightarrow> 'e list \<Rightarrow> 'e list option" where
  "tbl_reinsert key_of start step [] xs = Some xs"
| "tbl_reinsert key_of start step (e # es) xs =
     (case key_of e of
        None \<Rightarrow> tbl_reinsert key_of start step es xs
      | Some k \<Rightarrow> (case tbl_put key_of step xs (start k) e of
            None \<Rightarrow> None | Some xs' \<Rightarrow> tbl_reinsert key_of start step es xs'))"

lemma finite_tbl_entries [simp]: "finite (tbl_entries key_of xs)"
  by (simp add: tbl_entries_def)

lemma tbl_keys_image: "tbl_keys key_of (tbl_entries key_of xs) = (the \<circ> key_of) ` tbl_entries key_of xs"
  by (force simp: tbl_keys_def tbl_entries_def)

lemma tbl_D:
  assumes "tbl cap start step key_of xs E"
  shows "length xs = cap" "E = tbl_entries key_of xs" "finite E"
    "finite (tbl_keys key_of E)" "card (tbl_keys key_of E) \<le> card E"
    "table_ok cap start step (tbl_view key_of xs) (tbl_keys key_of E)"
  using assms tbl_keys_image[of key_of xs] card_image_le[of "tbl_entries key_of xs" "the \<circ> key_of"]
  by (auto simp: tbl_def)

lemma tbl_keys_insert: "key_of e = Some k \<Longrightarrow> tbl_keys key_of (insert e E) = insert k (tbl_keys key_of E)"
  by (auto simp: tbl_keys_def)

lemma tbl_empty:
  assumes "key_of e = None"
  shows "tbl cap start step key_of (replicate cap e) {}"
proof -
  have "tbl_view key_of (replicate cap e) = (\<lambda>_. None)" using assms by (auto simp: tbl_view_def)
  then show ?thesis using assms table_ok_empty
    by (auto simp: tbl_def tbl_entries_def tbl_keys_def)
qed

lemma tbl_unique:
  assumes "tbl cap start step key_of xs E" "e \<in> E" "e' \<in> E" "key_of e = key_of e'"
  shows "e = e'"
proof -
  note D = tbl_D[OF assms(1)]
  have "e \<in> set xs" "e' \<in> set xs" and ne: "key_of e \<noteq> None"
    using assms(2,3) unfolding D(2) by (simp_all add: tbl_entries_def)
  then obtain p q where pq: "p < cap" "q < cap" "xs ! p = e" "xs ! q = e'"
    using D(1) by (metis in_set_conv_nth)
  then have "tbl_view key_of xs p = key_of e" "tbl_view key_of xs q = key_of e'"
    using D(1) by (simp_all add: tbl_view_def)
  with ne assms(4) have "p = q" by (intro table_okD(4)[OF D(6) pq(1,2)]) simp_all
  with pq show ?thesis by simp
qed

lemma tbl_entries_update:
  assumes "p < length xs" "key_of (xs ! p) = None" "key_of e \<noteq> None"
  shows "tbl_entries key_of (xs[p := e]) = insert e (tbl_entries key_of xs)"
proof -
  have "x \<in> set (xs[p := e])" if "x \<in> set xs" "key_of x \<noteq> None" for x
    using that assms(1,2) by (metis in_set_conv_nth length_list_update nth_list_update_neq)
  then show ?thesis using assms set_update_subset_insert[of xs p e] set_update_memI[OF assms(1), of e]
    by (auto simp: tbl_entries_def)
qed

text \<open>Overwriting an occupied slot with an entry of the same key.\<close>

lemma tbl_overwrite:
  assumes T: "tbl cap start step key_of xs E" and p: "p < cap" "key_of (xs ! p) = Some k" "key_of e = Some k"
  shows "tbl cap start step key_of (xs[p := e]) (insert e (E - {xs ! p}))"
proof -
  have xs: "length xs = cap" "tbl_entries key_of xs = E" "table_ok cap start step (tbl_view key_of xs) (tbl_keys key_of E)"
    using T by (simp_all add: tbl_def)
  have pE: "xs ! p \<in> E" using p xs by (auto simp: tbl_entries_def)
  have other: "xs ! q \<noteq> xs ! p" if "q < cap" "q \<noteq> p" for q
    using table_okD(4)[OF xs(3), of q p] that p xs(1) by (auto simp: tbl_view_def)
  have view: "tbl_view key_of (xs[p := e]) = tbl_view key_of xs"
    using p xs(1) by (auto simp: tbl_view_def nth_list_update fun_eq_iff)
  have ent: "tbl_entries key_of (xs[p := e]) = insert e (E - {xs ! p})" (is "?L = ?R")
  proof (intro set_eqI iffI)
    fix x assume "x \<in> ?L"
    then obtain q where "q < cap" "xs[p := e] ! q = x" "key_of x \<noteq> None"
      using xs(1) by (auto simp: tbl_entries_def in_set_conv_nth)
    then show "x \<in> ?R" using other[of q] p xs by (cases "q = p") (auto simp: tbl_entries_def)
  next
    fix x assume "x \<in> ?R"
    then consider "x = e" | "x \<in> E" "x \<noteq> xs ! p" by blast
    then show "x \<in> ?L"
    proof cases
      case 1
      then show ?thesis using p xs(1) by (auto simp: tbl_entries_def set_update_memI)
    next
      case 2
      then obtain q where q: "q < cap" "xs ! q = x" "key_of x \<noteq> None"
        using xs by (auto simp: tbl_entries_def in_set_conv_nth)
      then have "p \<noteq> q" using 2 by auto
      then have "xs[p := e] ! q = x" "q < length (xs[p := e])" using q xs(1) by auto
      then show ?thesis using q(3) nth_mem by (fastforce simp: tbl_entries_def)
    qed
  qed
  have "tbl_keys key_of (insert e (E - {xs ! p})) = tbl_keys key_of E"
    using p pE by (auto simp: tbl_keys_def)
  then show ?thesis using xs view ent by (simp add: tbl_def)
qed

lemma distinct_occupied:
  assumes "\<And>p q. p < length xs \<Longrightarrow> q < length xs \<Longrightarrow> key_of (xs ! p) \<noteq> None \<Longrightarrow>
    key_of (xs ! p) = key_of (xs ! q) \<Longrightarrow> p = q"
  shows "distinct (map key_of (filter (\<lambda>e. key_of e \<noteq> None) xs))"
  using assms
proof (induction xs)
  case (Cons x xs)
  have "distinct (map key_of (filter (\<lambda>e. key_of e \<noteq> None) xs))"
  proof (rule Cons.IH)
    fix p q assume "p < length xs" "q < length xs" "key_of (xs ! p) \<noteq> None" "key_of (xs ! p) = key_of (xs ! q)"
    then show "p = q" using Cons.prems[of "Suc p" "Suc q"] by simp
  qed
  moreover have "key_of x \<noteq> key_of y" if "y \<in> set xs" "key_of x \<noteq> None" for y
  proof -
    obtain q where "q < length xs" "xs ! q = y" using \<open>y \<in> set xs\<close> by (auto simp: in_set_conv_nth)
    then show ?thesis using Cons.prems[of 0 "Suc q"] that(2) by auto
  qed
  ultimately show ?case by auto
qed simp

lemma tbl_occupied:
  assumes T: "tbl cap start step key_of xs E"
  shows "distinct (map key_of (filter (\<lambda>e. key_of e \<noteq> None) xs))"
    "length (filter (\<lambda>e. key_of e \<noteq> None) xs) = card E"
proof -
  note D = tbl_D[OF T]
  show d: "distinct (map key_of (filter (\<lambda>e. key_of e \<noteq> None) xs))"
    using table_okD(4)[OF D(6)] by (intro distinct_occupied) (simp add: tbl_view_def D(1))
  have "E = set (filter (\<lambda>e. key_of e \<noteq> None) xs)" unfolding D(2) tbl_entries_def by auto
  moreover have "distinct (filter (\<lambda>e. key_of e \<noteq> None) xs)" using d by (simp only: distinct_map)
  ultimately show "length (filter (\<lambda>e. key_of e \<noteq> None) xs) = card E" by (simp only: distinct_card)
qed

lemma tbl_put_cong:
  "(\<And>e. key_of e = None \<longleftrightarrow> key_of' e = None) \<Longrightarrow> tbl_put key_of step xs slot e = tbl_put key_of' step xs slot e"
  by (simp add: tbl_put_def)

text \<open>Only the keys of the entries that occur matter.\<close>

lemma tbl_key_cong:
  assumes "\<And>e. e \<in> set xs \<Longrightarrow> key_of e = key_of' e"
  shows "tbl cap start step key_of xs E = tbl cap start step key_of' xs E"
proof -
  have "tbl_view key_of xs = tbl_view key_of' xs" using assms by (auto simp: tbl_view_def fun_eq_iff)
  moreover have "tbl_entries key_of xs = tbl_entries key_of' xs" using assms by (auto simp: tbl_entries_def)
  moreover have "tbl_keys key_of E = tbl_keys key_of' E" if "E \<subseteq> set xs" using assms that unfolding tbl_keys_def by (metis (no_types, lifting) subsetD)
  ultimately show ?thesis by (auto simp: tbl_def tbl_entries_def)
qed

section \<open>Lookup and insertion for every full-cycle step\<close>

locale probing =
  fixes cap :: nat and start :: "'k \<Rightarrow> nat" and step :: "nat \<Rightarrow> nat"
  assumes start_less: "start k < cap"
    and step_less: "i < cap \<Longrightarrow> step i < cap"
    and full_cycle: "i < cap \<Longrightarrow> j < cap \<Longrightarrow> \<exists>d < cap. (step ^^ d) i = j"
begin

lemma path_less: "(step ^^ d) (start k) < cap"
  by (induction d) (auto simp: start_less step_less)

lemma path_to_key:
  assumes ok: "table_ok cap start step t K" and "k \<in> K"
  shows "\<exists>d < cap. t ((step ^^ d) (start k)) = Some k \<and>
    (\<forall>d'<d. \<exists>k'. t ((step ^^ d') (start k)) = Some k' \<and> k' \<noteq> k)"
proof -
  obtain p where p: "p < cap" "t p = Some k" using table_okD(3)[OF ok \<open>k \<in> K\<close>] by blast
  obtain e where e: "(step ^^ e) (start k) = p" "\<forall>d'<e. t ((step ^^ d') (start k)) \<noteq> None"
    using table_okD(2)[OF ok p] by blast
  define d where "d = (LEAST d. (step ^^ d) (start k) = p)"
  have d: "(step ^^ d) (start k) = p" unfolding d_def using e(1) by (rule LeastI)
  have le: "d \<le> e" unfolding d_def using e(1) by (rule Least_le)
  obtain c where c: "c < cap" "(step ^^ c) (start k) = p"
    using full_cycle[OF start_less p(1)] by blast
  have "d < cap" using c Least_le[of "\<lambda>d. (step ^^ d) (start k) = p" c] unfolding d_def by simp
  moreover have "\<exists>k'. t ((step ^^ d') (start k)) = Some k' \<and> k' \<noteq> k" if "d' < d" for d'
  proof -
    have "(step ^^ d') (start k) \<noteq> p" using not_less_Least that unfolding d_def by blast
    then have "t ((step ^^ d') (start k)) \<noteq> Some k"
      using table_okD(4)[OF ok path_less p(1)] p(2) by auto
    then show ?thesis using e(2) that le by (metis less_le_trans option.exhaust)
  qed
  ultimately show ?thesis using d p(2) by blast
qed

lemma path_to_empty:
  assumes ok: "table_ok cap start step t K" and "k \<notin> K" "p < cap" "t p = None"
  shows "\<exists>d < cap. t ((step ^^ d) (start k)) = None \<and>
    (\<forall>d'<d. \<exists>k'. t ((step ^^ d') (start k)) = Some k' \<and> k' \<noteq> k)"
proof -
  define d where "d = (LEAST d. t ((step ^^ d) (start k)) = None)"
  obtain c where c: "c < cap" "t ((step ^^ c) (start k)) = None"
    using full_cycle[OF start_less assms(3)] assms(4) by metis
  have d: "t ((step ^^ d) (start k)) = None" unfolding d_def using c(2) by (rule LeastI)
  have "d < cap" using c Least_le[of "\<lambda>d. t ((step ^^ d) (start k)) = None" c] unfolding d_def by simp
  moreover have "\<exists>k'. t ((step ^^ d') (start k)) = Some k' \<and> k' \<noteq> k" if "d' < d" for d'
  proof -
    have "t ((step ^^ d') (start k)) \<noteq> None" using not_less_Least that unfolding d_def by blast
    then show ?thesis using table_okD(1)[OF ok path_less] assms(2) by (metis option.exhaust)
  qed
  ultimately show ?thesis using d by blast
qed

lemma table_ok_insert:
  assumes ok: "table_ok cap start step t K" and "k \<notin> K"
    and q: "q = (step ^^ d) (start k)" "t q = None"
    and occ: "\<forall>d'<d. t ((step ^^ d') (start k)) \<noteq> None"
  shows "table_ok cap start step (t(q \<mapsto> k)) (insert k K)"
proof -
  have qs: "q < cap" unfolding q(1) by (rule path_less)
  have "k' \<in> insert k K \<and> (\<exists>e. (step ^^ e) (start k') = p \<and>
      (\<forall>d'<e. (t(q \<mapsto> k)) ((step ^^ d') (start k')) \<noteq> None))"
    if p: "p < cap" "(t(q \<mapsto> k)) p = Some k'" for p k'
  proof (cases "p = q")
    case True
    with p(2) have "k' = k" by simp
    with True q(1) occ show ?thesis by auto
  next
    case False
    then have "t p = Some k'" using p(2) by simp
    then have "k' \<in> K" "\<exists>e. (step ^^ e) (start k') = p \<and> (\<forall>d'<e. t ((step ^^ d') (start k')) \<noteq> None)"
      using table_okD(1,2)[OF ok p(1)] by blast+
    then show ?thesis by (simp, metis)
  qed
  moreover have "\<exists>p < cap. (t(q \<mapsto> k)) p = Some k'" if "k' \<in> insert k K" for k'
    using that qs table_okD(3)[OF ok, of k'] q(2) by (cases "k' = k") (auto, metis option.distinct(1))
  moreover have "p = p'" if "p < cap" "p' < cap" "(t(q \<mapsto> k)) p \<noteq> None" "(t(q \<mapsto> k)) p = (t(q \<mapsto> k)) p'"
    for p p'
    using that table_okD(1,4)[OF ok] \<open>k \<notin> K\<close> by (auto split: if_splits)
  ultimately show ?thesis unfolding table_ok_def by blast
qed

text \<open>
  The loop of every lookup and insertion: at an empty slot it returns \<open>miss\<close>, at the key's slot \<open>hit\<close>, at
  any other key it goes on.
\<close>

lemma probe_find:
  assumes ok: "table_ok cap start step t K" and room: "finite K" "card K < cap"
    and miss: "\<And>p. p < cap \<Longrightarrow> t p = None \<Longrightarrow> body p = Some (miss p)"
    and hit: "\<And>p. p < cap \<Longrightarrow> t p = Some k \<Longrightarrow> body p = Some (hit p)"
    and other: "\<And>p k'. p < cap \<Longrightarrow> t p = Some k' \<Longrightarrow> k' \<noteq> k \<Longrightarrow> body p = None"
  shows "if k \<in> K then \<exists>p < cap. t p = Some k \<and> probe body step cap (start k) = Some (hit p)
    else \<exists>p < cap. t p = None \<and> probe body step cap (start k) = Some (miss p) \<and>
      table_ok cap start step (t(p \<mapsto> k)) (insert k K)"
proof (cases "k \<in> K")
  case True
  obtain d where d: "d < cap" "t ((step ^^ d) (start k)) = Some k"
    "\<forall>d'<d. \<exists>k'. t ((step ^^ d') (start k)) = Some k' \<and> k' \<noteq> k"
    using path_to_key[OF ok True] by blast
  have "probe body step cap (start k) = Some (hit ((step ^^ d) (start k)))"
    using d hit[OF path_less] other[OF path_less] by (intro probe_stops[OF d(1)]) blast+
  with True d(2) path_less show ?thesis by auto
next
  case False
  obtain e where "e < cap" "t e = None" using table_ok_has_empty[OF ok room] by blast
  then obtain d where d: "d < cap" "t ((step ^^ d) (start k)) = None"
    "\<forall>d'<d. \<exists>k'. t ((step ^^ d') (start k)) = Some k' \<and> k' \<noteq> k"
    using path_to_empty[OF ok False] by blast
  have "probe body step cap (start k) = Some (miss ((step ^^ d) (start k)))"
    using d miss[OF path_less] other[OF path_less] by (intro probe_stops[OF d(1)]) blast+
  moreover have "table_ok cap start step (t((step ^^ d) (start k) \<mapsto> k)) (insert k K)"
    using d by (intro table_ok_insert[OF ok False refl]) auto
  ultimately show ?thesis using False d(2) path_less by auto
qed

text \<open>The same for an array of entries; the entry put at the slot a miss reports extends the table.\<close>

lemma tbl_find:
  assumes T: "tbl cap start step key_of xs E" and room: "card E < cap"
    and miss: "\<And>p. p < cap \<Longrightarrow> key_of (xs ! p) = None \<Longrightarrow> body p = Some (miss p)"
    and hit: "\<And>p. p < cap \<Longrightarrow> xs ! p \<in> E \<Longrightarrow> key_of (xs ! p) = Some k \<Longrightarrow> body p = Some (hit p)"
    and other: "\<And>p k'. p < cap \<Longrightarrow> xs ! p \<in> E \<Longrightarrow> key_of (xs ! p) = Some k' \<Longrightarrow> k' \<noteq> k \<Longrightarrow> body p = None"
  shows "if k \<in> tbl_keys key_of E
    then \<exists>p < cap. xs ! p \<in> E \<and> key_of (xs ! p) = Some k \<and> probe body step cap (start k) = Some (hit p)
    else \<exists>p < cap. key_of (xs ! p) = None \<and> probe body step cap (start k) = Some (miss p) \<and>
      (\<forall>e. key_of e = Some k \<longrightarrow> tbl cap start step key_of (xs[p := e]) (insert e E))"
proof -
  note D = tbl_D[OF T]
  have inE: "xs ! p \<in> E" if "p < cap" "key_of (xs ! p) \<noteq> None" for p
    using that D(1,2) by (simp add: tbl_entries_def)
  have v: "tbl_view key_of xs p = key_of (xs ! p)" if "p < cap" for p
    using that D(1) by (simp add: tbl_view_def)
  have upd: "tbl cap start step key_of (xs[p := e]) (insert e E)"
    if "p < cap" "key_of (xs ! p) = None" "key_of e = Some k"
      "table_ok cap start step ((tbl_view key_of xs)(p \<mapsto> k)) (insert k (tbl_keys key_of E))" for p e
  proof -
    have "tbl_view key_of (xs[p := e]) = (tbl_view key_of xs)(p \<mapsto> k)"
      using that(1,3) D(1) by (auto simp: tbl_view_def)
    then show ?thesis
      using that D(1,2) tbl_entries_update[of p xs key_of e] tbl_keys_insert[where key_of=key_of, OF that(3), of E]
      by (simp add: tbl_def)
  qed
  have "card (tbl_keys key_of E) < cap" using D(5) room by simp
  note pf = probe_find[OF D(6) D(4) this, of body miss k hit]
  show ?thesis
  proof (cases "k \<in> tbl_keys key_of E")
    case True
    with pf show ?thesis using miss hit other v inE by auto
  next
    case False
    with pf obtain p where "p < cap" "tbl_view key_of xs p = None"
      "probe body step cap (start k) = Some (miss p)"
      "table_ok cap start step ((tbl_view key_of xs)(p \<mapsto> k)) (insert k (tbl_keys key_of E))"
      using miss hit other v inE by auto
    with False upd v show ?thesis by auto
  qed
qed

lemma tbl_put_ok:
  assumes T: "tbl cap start step key_of xs E" and room: "card E < cap"
    and e: "key_of e = Some k" and new: "k \<notin> tbl_keys key_of E"
  shows "\<exists>xs'. tbl_put key_of step xs (start k) e = Some xs' \<and> tbl cap start step key_of xs' (insert e E)"
proof -
  let ?body = "\<lambda>p. if key_of (xs ! p) = None then Some p else None"
  have new': False if "xs ! p \<in> E" "key_of (xs ! p) = Some k" for p
    using that new by (auto simp: tbl_keys_def)
  from tbl_find[OF T room, of ?body "\<lambda>p. p" k] new new' obtain p where
    "probe ?body step cap (start k) = Some p"
    "\<forall>e. key_of e = Some k \<longrightarrow> tbl cap start step key_of (xs[p := e]) (insert e E)"
    by (auto split: if_splits)
  then show ?thesis using e tbl_D(1)[OF T] by (simp add: tbl_put_def)
qed

lemma tbl_reinsert_ok:
  assumes "tbl cap start step key_of xs E"
    and "card E + length (filter (\<lambda>e. key_of e \<noteq> None) es) \<le> cap"
    and "distinct (map key_of (filter (\<lambda>e. key_of e \<noteq> None) es))"
    and "\<forall>e\<in>set es. \<forall>k. key_of e = Some k \<longrightarrow> k \<notin> tbl_keys key_of E"
  shows "\<exists>xs'. tbl_reinsert key_of start step es xs = Some xs' \<and>
    tbl cap start step key_of xs' (E \<union> tbl_entries key_of es)"
  using assms
proof (induction es arbitrary: xs E)
  case Nil
  then show ?case by (simp add: tbl_entries_def)
next
  case (Cons e es)
  show ?case
  proof (cases "key_of e")
    case None
    then have "tbl_entries key_of (e # es) = tbl_entries key_of es" by (auto simp: tbl_entries_def)
    with None Cons show ?thesis by simp
  next
    case (Some k)
    have fin: "finite E" using tbl_D(3)[OF Cons.prems(1)] .
    have "k \<notin> tbl_keys key_of E" "card E < cap" using Cons.prems(2,4) Some by auto
    from tbl_put_ok[OF Cons.prems(1) this(2) Some this(1)] obtain ys where
      ys: "tbl_put key_of step xs (start k) e = Some ys" "tbl cap start step key_of ys (insert e E)" by blast
    have "\<exists>xs'. tbl_reinsert key_of start step es ys = Some xs' \<and>
        tbl cap start step key_of xs' (insert e E \<union> tbl_entries key_of es)"
    proof (rule Cons.IH[OF ys(2)])
      show "card (insert e E) + length (filter (\<lambda>e. key_of e \<noteq> None) es) \<le> cap"
        using Cons.prems(2) Some card_insert_le_m1[of "Suc (card E)" E e] by simp
      show "distinct (map key_of (filter (\<lambda>e. key_of e \<noteq> None) es))" using Cons.prems(3) Some by simp
      show "\<forall>e'\<in>set es. \<forall>k. key_of e' = Some k \<longrightarrow> k \<notin> tbl_keys key_of (insert e E)"
      proof (intro ballI allI impI)
        fix e' k' assume e': "e' \<in> set es" "key_of e' = Some k'"
        then have "key_of e' \<in> set (map key_of (filter (\<lambda>e. key_of e \<noteq> None) es))"
          unfolding set_map by (intro image_eqI[of _ key_of e']) simp_all
        then have "k' \<noteq> k" using Cons.prems(3) Some e'(2) by auto
        then show "k' \<notin> tbl_keys key_of (insert e E)"
          using Cons.prems(4) e' by (simp add: tbl_keys_insert[where key_of=key_of, OF Some])
      qed
    qed
    moreover have "insert e E \<union> tbl_entries key_of es = E \<union> tbl_entries key_of (e # es)"
      using Some by (auto simp: tbl_entries_def)
    ultimately show ?thesis using ys(1) Some by simp
  qed
qed

text \<open>
  A loop that puts the entries \<open>ent i\<close> for \<open>i\<close> in a list into a table that already holds those for \<open>i\<close> in a set;
  the loop's body may test the slots with any predicate that agrees with \<open>key_of\<close> on free slots.
\<close>

lemma fold_put_ok:
  assumes "tbl cap start step key_of xs (ent ` I)" "finite I"
    and "\<And>i. i \<in> I \<union> set is \<Longrightarrow> key_of (ent i) = Some (kf i)" "inj_on kf (I \<union> set is)"
    and "distinct is" "I \<inter> set is = {}" "card I + length is \<le> cap"
    and "\<And>i ys. i \<in> set is \<Longrightarrow> length ys = cap \<Longrightarrow> f i ys = tbl_put key_of step ys (start (kf i)) (ent i)"
  shows "\<exists>xs'. fold_opt f is xs = Some xs' \<and> tbl cap start step key_of xs' (ent ` (I \<union> set is))"
  using assms
proof (induction "is" arbitrary: xs I)
  case Nil
  then show ?case by simp
next
  case (Cons i "is")
  have "ent ` I = tbl_entries key_of xs" using tbl_D(2)[OF Cons.prems(1)] .
  have "card (ent ` I) < cap" using Cons.prems(7) card_image_le[OF Cons.prems(2), of ent] by simp
  moreover have "kf i \<notin> tbl_keys key_of (ent ` I)"
    using Cons.prems(3,4,6) by (fastforce simp: tbl_keys_def inj_on_def)
  ultimately obtain ys where ys: "tbl_put key_of step xs (start (kf i)) (ent i) = Some ys"
    "tbl cap start step key_of ys (insert (ent i) (ent ` I))"
    using tbl_put_ok[OF Cons.prems(1), of "ent i" "kf i"] Cons.prems(3)[of i] by auto
  have "f i xs = Some ys" using Cons.prems(8)[of i xs] ys(1) tbl_D(1)[OF Cons.prems(1)] by simp
  moreover have "\<exists>xs'. fold_opt f is ys = Some xs' \<and> tbl cap start step key_of xs' (ent ` (insert i I \<union> set is))"
  proof (rule Cons.IH)
    show "tbl cap start step key_of ys (ent ` insert i I)" using ys(2) by simp
    show "card (insert i I) + length is \<le> cap" using Cons.prems(2,6,7) by simp
    show "inj_on kf (insert i I \<union> set is)" using Cons.prems(4) by (simp add: Un_commute insert_commute)
  qed (use Cons.prems in auto)
  ultimately show ?case by simp
qed

end

section \<open>The two probing orders\<close>

text \<open>Upwards under a mask: \<open>slot = (slot + 1) & mask\<close>, with \<open>mask + 1\<close> a power of two.\<close>

definition fwd_step :: "nat \<Rightarrow> nat \<Rightarrow> nat" where
  "fwd_step hashMask slot = (slot + 1) AND hashMask"

definition fwd_start :: "('k \<Rightarrow> nat) \<Rightarrow> nat \<Rightarrow> 'k \<Rightarrow> nat" where
  "fwd_start hash hashMask k = hash k AND hashMask"

text \<open>
  Downwards under a negative mask: \<open>slot = (slot - 1) | mask\<close> with \<open>mask = ~(size - 1)\<close>; the slot
  indexes backwards from the end of the table, so slot \<open>s\<close> is element \<open>size + s\<close>.
\<close>

definition bwd_step :: "int \<Rightarrow> int \<Rightarrow> int" where
  "bwd_step hashMask hashSlot = (hashSlot - 1) OR hashMask"

definition bwd_elem :: "nat \<Rightarrow> int \<Rightarrow> nat" where
  "bwd_elem cap hashSlot = nat (int cap + hashSlot)"

definition bwd_elem_step :: "nat \<Rightarrow> nat \<Rightarrow> nat" where
  "bwd_elem_step cap p = bwd_elem cap (bwd_step (NOT (int cap - 1)) (int p - int cap))"

definition bwd_start :: "('k \<Rightarrow> nat) \<Rightarrow> nat \<Rightarrow> 'k \<Rightarrow> nat" where
  "bwd_start hash cap k = bwd_elem cap (int (hash k) OR NOT (int cap - 1))"

lemma fwd_step_eq: "fwd_step (2 ^ m - 1) slot = (slot + 1) mod 2 ^ m"
  using nat_and_mask[of "slot + 1" m] by (simp add: fwd_step_def)

lemmas fwd_step_eq' = fwd_step_eq[simplified]

lemma fwd_path: "i < 2 ^ m \<Longrightarrow> (fwd_step (2 ^ m - 1) ^^ d) i = (i + d) mod 2 ^ m"
  by (induction d) (auto simp: fwd_step_eq' mod_Suc_eq)

interpretation fwd: probing "2 ^ m" "fwd_start hash (2 ^ m - 1)" "fwd_step (2 ^ m - 1)" for m hash
proof
  fix k show "fwd_start hash (2 ^ m - 1) k < 2 ^ m"
    using nat_and_mask[of "hash k" m] by (simp add: fwd_start_def)
next
  fix i :: nat assume "i < 2 ^ m"
  show "fwd_step (2 ^ m - 1) i < 2 ^ m" by (simp only: fwd_step_eq) simp
next
  fix i j :: nat assume ij: "i < 2 ^ m" "j < 2 ^ m"
  let ?d = "(j + (2 ^ m - i)) mod 2 ^ m"
  have "(i + ?d) mod 2 ^ m = (i + (j + (2 ^ m - i))) mod 2 ^ m" by (simp add: mod_add_right_eq)
  also have "\<dots> = j" using ij by simp
  finally have "(fwd_step (2 ^ m - 1) ^^ ?d) i = j" using fwd_path[OF ij(1)] by simp
  then show "\<exists>d<2 ^ m. (fwd_step (2 ^ m - 1) ^^ d) i = j" by (intro exI[of _ ?d]) simp
qed

lemma bwd_elem_step_eq:
  assumes "p < 2 ^ m"
  shows "bwd_elem_step (2 ^ m) p = (if p = 0 then 2 ^ m - 1 else p - 1)"
proof -
  have "bwd_elem_step (2 ^ m) p = nat ((int p - 2 ^ m - 1) mod 2 ^ m)"
    by (simp add: bwd_elem_step_def bwd_elem_def bwd_step_def int_or_not_mask)
  also have "(int p - 2 ^ m - 1) mod 2 ^ m = (int p - 1) mod 2 ^ m"
    by (metis add_uminus_conv_diff diff_add_eq diff_right_commute minus_mod_self2)
  also have "nat \<dots> = (if p = 0 then 2 ^ m - 1 else p - 1)"
  proof (cases "p = 0")
    case True
    then show ?thesis by (simp add: zmod_minus1 nat_diff_distrib nat_power_eq)
  next
    case False
    moreover have "int p < 2 ^ m" using assms by (metis of_nat_less_iff of_nat_numeral of_nat_power)
    ultimately have "(int p - 1) mod 2 ^ m = int p - 1" by (intro mod_pos_pos_trivial) linarith+
    with False show ?thesis by simp
  qed
  finally show ?thesis .
qed

lemma bwd_path:
  "i < 2 ^ m \<Longrightarrow> d \<le> i \<Longrightarrow> (bwd_elem_step (2 ^ m) ^^ d) i = i - d"
  by (induction d) (auto simp: bwd_elem_step_eq)

lemma bwd_path_wrap:
  "i < 2 ^ m \<Longrightarrow> d < 2 ^ m - i \<Longrightarrow> (bwd_elem_step (2 ^ m) ^^ (Suc i + d)) i = 2 ^ m - 1 - d"
  by (induction d) (auto simp: bwd_elem_step_eq bwd_path)

interpretation bwd: probing "2 ^ m" "bwd_start hash (2 ^ m)" "bwd_elem_step (2 ^ m)" for m hash
proof
  fix k
  have "bwd_start hash (2 ^ m) k = nat (int (hash k) mod 2 ^ m)"
    by (simp add: bwd_start_def bwd_elem_def int_or_not_mask)
  then show "bwd_start hash (2 ^ m) k < 2 ^ m"
    by (simp add: nat_mod_distrib nat_power_eq)
next
  fix i :: nat assume "i < 2 ^ m"
  then show "bwd_elem_step (2 ^ m) i < 2 ^ m" by (auto simp: bwd_elem_step_eq)
next
  fix i j :: nat assume ij: "i < 2 ^ m" "j < 2 ^ m"
  show "\<exists>d<2 ^ m. (bwd_elem_step (2 ^ m) ^^ d) i = j"
  proof (cases "j \<le> i")
    case True
    then show ?thesis using ij bwd_path[of i m "i - j"] by (intro exI[of _ "i - j"]) auto
  next
    case False
    then show ?thesis using ij bwd_path_wrap[of i m "2 ^ m - 1 - j"]
      by (intro exI[of _ "Suc i + (2 ^ m - 1 - j)"]) auto
  qed
qed

end
