(* ===== verification/TransitionTable.thy ===== *)
theory TransitionTable
  imports Probing
begin

unbundle bit_operations_syntax

text \<open>
  \<^verbatim>\<open>StructureTransitionTable\<close> of \<^verbatim>\<open>runtime/structure.h\<close>: the outlined table from transition keys to child
  structures. Keys are \<^verbatim>\<open>int32_t\<close> values, children are system heap addresses. The table lives in the 4 GB
  system heap at eight bytes an entry, so its mask stays far below \<^verbatim>\<open>2^32\<close> and sizes are natural
  numbers. \<^verbatim>\<open>HashPrimitiveTypes\<close> calls the vendored xxHash and is the parameter \<open>hashPrim\<close>.
\<close>

type_synonym transition_key = int
type_synonym sys_ptr = nat

record tt_entry =
  te_key :: transition_key
  te_value :: sys_ptr

record transition_table =
  tt_hashTableMask :: nat
  tt_numElementsInHashTable :: nat
  tt_hashTable :: "tt_entry list"

definition x_key_invalid :: transition_key where "x_key_invalid = 0"
definition x_key_deleted :: transition_key where "x_key_deleted = 1"
definition x_key_add_or_to_poly_metatable :: transition_key where "x_key_add_or_to_poly_metatable = 2"
definition x_key_remove_metatable :: transition_key where "x_key_remove_metatable = 3"
definition x_key_change_array_type_tag :: transition_key where "x_key_change_array_type_tag = 256"
definition x_initialHashTableSize :: nat where "x_initialHashTableSize = 4"

lemmas tt_consts = x_key_invalid_def x_key_deleted_def x_initialHashTableSize_def

definition hash32 :: "(int \<Rightarrow> u64) \<Rightarrow> int \<Rightarrow> nat" where
  "hash32 hashPrim k = unat (ucast (hashPrim k) :: u32)"

text \<open>\<^verbatim>\<open>memset(..., 0, ...)\<close> of a table.\<close>

definition tt_zeroed :: "nat \<Rightarrow> tt_entry list" where
  "tt_zeroed n = replicate n \<lparr>te_key = x_key_invalid, te_value = 0\<rparr>"

definition tt_Find ::
  "(int \<Rightarrow> u64) \<Rightarrow> transition_table \<Rightarrow> transition_key \<Rightarrow> (bool \<times> nat) option" where
  "tt_Find hashPrim self key =
     (let hashMask = tt_hashTableMask self in
      probe (\<lambda>slot. let slotKey = te_key (tt_hashTable self ! slot) in
              if slotKey = key then Some (True, slot)
              else if slotKey = x_key_invalid \<or> slotKey = x_key_deleted then Some (False, slot)
              else None)
        (fwd_step hashMask) (hashMask + 1) (fwd_start (hash32 hashPrim) hashMask key))"

text \<open>The two writes the callers of \<^verbatim>\<open>Find\<close> make through the returned entry.\<close>

definition tt_write :: "nat \<Rightarrow> transition_key \<Rightarrow> sys_ptr \<Rightarrow> transition_table \<Rightarrow> transition_table" where
  "tt_write slot key v self =
     self\<lparr>tt_hashTable := (tt_hashTable self)[slot := \<lparr>te_key = key, te_value = v\<rparr>]\<rparr>"

definition AllocateInitialTable ::
  "(int \<Rightarrow> u64) \<Rightarrow> transition_key \<Rightarrow> sys_ptr \<Rightarrow> transition_table option" where
  "AllocateInitialTable hashPrim key v =
     (let r = \<lparr>tt_hashTableMask = x_initialHashTableSize - 1, tt_numElementsInHashTable = 1,
               tt_hashTable = tt_zeroed x_initialHashTableSize\<rparr>
      in case tt_Find hashPrim r key of
           None \<Rightarrow> None
         | Some (found, e) \<Rightarrow> Some (tt_write e key v r))"

definition ShouldResizeForThisInsertion :: "transition_table \<Rightarrow> bool" where
  "ShouldResizeForThisInsertion self \<longleftrightarrow>
     tt_numElementsInHashTable self \<ge> tt_hashTableMask self div 2 + 1"

text \<open>An entry is live when its key is neither of the two markers; the rehash loop copies the live ones.\<close>

definition tt_key_of :: "tt_entry \<Rightarrow> transition_key option" where
  "tt_key_of e = (if te_key e \<noteq> x_key_invalid \<and> te_key e \<noteq> x_key_deleted then Some (te_key e) else None)"

definition tt_Expand :: "(int \<Rightarrow> u64) \<Rightarrow> transition_table \<Rightarrow> transition_table option" where
  "tt_Expand hashPrim self =
     (let newHashMask = tt_hashTableMask self * 2 + 1 in
      case tbl_reinsert tt_key_of (fwd_start (hash32 hashPrim) newHashMask) (fwd_step newHashMask)
             (take (tt_hashTableMask self + 1) (tt_hashTable self)) (tt_zeroed (newHashMask + 1)) of
        None \<Rightarrow> None
      | Some ht \<Rightarrow> Some \<lparr>tt_hashTableMask = newHashMask,
                         tt_numElementsInHashTable = tt_numElementsInHashTable self,
                         tt_hashTable = ht\<rparr>)"

text \<open>
  The branch of \<^verbatim>\<open>QueryTransitionTableAndInsertOrUpsertImpl\<close> that fills the entry of a failed \<^verbatim>\<open>Find\<close>, counts it
  and resizes.
\<close>

definition tt_add_entry :: "nat \<Rightarrow> transition_key \<Rightarrow> sys_ptr \<Rightarrow> transition_table \<Rightarrow> transition_table" where
  "tt_add_entry e key v table =
     (let table = tt_write e key v table
      in table\<lparr>tt_numElementsInHashTable := tt_numElementsInHashTable table + 1\<rparr>)"

definition tt_insert_not_found ::
  "(int \<Rightarrow> u64) \<Rightarrow> nat \<Rightarrow> transition_key \<Rightarrow> sys_ptr \<Rightarrow> transition_table \<Rightarrow> transition_table option" where
  "tt_insert_not_found hashPrim e key v table =
     (let table = tt_add_entry e key v table
      in if ShouldResizeForThisInsertion table then tt_Expand hashPrim table else Some table)"

definition tt_ComputeAllocationSize :: "nat \<Rightarrow> nat" where
  "tt_ComputeAllocationSize hashTableSize = 8 + hashTableSize * 8"

section \<open>The table implements a finite map\<close>

definition tt_repr :: "(transition_key \<rightharpoonup> sys_ptr) \<Rightarrow> tt_entry set" where
  "tt_repr M = {e. \<exists>k v. M k = Some v \<and> e = \<lparr>te_key = k, te_value = v\<rparr>}"

definition tt_ok ::
  "(int \<Rightarrow> u64) \<Rightarrow> transition_table \<Rightarrow> (transition_key \<rightharpoonup> sys_ptr) \<Rightarrow> bool" where
  "tt_ok hashPrim T M \<longleftrightarrow>
     (\<exists>m\<ge>2. tt_hashTableMask T = 2 ^ m - 1) \<and>
     x_key_invalid \<notin> dom M \<and> x_key_deleted \<notin> dom M \<and>
     tt_numElementsInHashTable T = card (dom M) \<and> finite (dom M) \<and>
     tbl (tt_hashTableMask T + 1) (fwd_start (hash32 hashPrim) (tt_hashTableMask T))
       (fwd_step (tt_hashTableMask T)) tt_key_of (tt_hashTable T) (tt_repr M)"

text \<open>Between operations at most half of the slots are taken.\<close>

definition wf_tt ::
  "(int \<Rightarrow> u64) \<Rightarrow> transition_table \<Rightarrow> (transition_key \<rightharpoonup> sys_ptr) \<Rightarrow> bool" where
  "wf_tt hashPrim T M \<longleftrightarrow> tt_ok hashPrim T M \<and> card (dom M) \<le> (tt_hashTableMask T + 1) div 2"

lemma tt_repr_empty [simp]: "tt_repr (\<lambda>_. None) = {}"
  by (simp add: tt_repr_def)

lemma tt_repr_upd: "k \<notin> dom M \<Longrightarrow> tt_repr (M(k \<mapsto> v)) = insert \<lparr>te_key = k, te_value = v\<rparr> (tt_repr M)"
  by (auto simp: tt_repr_def dom_def)

lemma tt_repr_image: "tt_repr M = (\<lambda>k. \<lparr>te_key = k, te_value = the (M k)\<rparr>) ` dom M"
  by (force simp: tt_repr_def)

lemma card_tt_repr: "card (tt_repr M) = card (dom M)"
  unfolding tt_repr_image by (intro card_image) (auto simp: inj_on_def)

lemma tt_keys_repr:
  "x_key_invalid \<notin> dom M \<Longrightarrow> x_key_deleted \<notin> dom M \<Longrightarrow> tbl_keys tt_key_of (tt_repr M) = dom M"
  unfolding tt_repr_image tbl_keys_def tt_key_of_def by auto

lemma tt_key_of_zeroed: "tbl n start step tt_key_of (tt_zeroed n) {}"
  unfolding tt_zeroed_def by (rule tbl_empty) (simp add: tt_key_of_def)

lemma tt_Find_correct:
  assumes wf: "wf_tt hashPrim T M" and key: "key \<noteq> x_key_invalid" "key \<noteq> x_key_deleted"
  shows "case M key of
      Some v \<Rightarrow> \<exists>slot \<le> tt_hashTableMask T. tt_Find hashPrim T key = Some (True, slot) \<and>
        tt_hashTable T ! slot = \<lparr>te_key = key, te_value = v\<rparr>
    | None \<Rightarrow> \<exists>slot \<le> tt_hashTableMask T. tt_Find hashPrim T key = Some (False, slot) \<and>
        (\<forall>v. tbl (tt_hashTableMask T + 1) (fwd_start (hash32 hashPrim) (tt_hashTableMask T))
           (fwd_step (tt_hashTableMask T)) tt_key_of (tt_hashTable (tt_write slot key v T))
           (tt_repr (M(key \<mapsto> v))))"
proof -
  obtain m where m: "tt_hashTableMask T = 2 ^ m - 1" "2 \<le> m" using wf by (auto simp: wf_tt_def tt_ok_def)
  have cap: "tt_hashTableMask T + 1 = 2 ^ m" using m by simp
  have T: "tbl (2 ^ m) (fwd_start (hash32 hashPrim) (2 ^ m - 1)) (fwd_step (2 ^ m - 1)) tt_key_of
      (tt_hashTable T) (tt_repr M)"
    using wf unfolding wf_tt_def tt_ok_def cap m(1)[symmetric] by blast
  have room: "card (tt_repr M) < 2 ^ m"
  proof -
    have "card (dom M) \<le> 2 ^ m div 2" using wf unfolding wf_tt_def cap by blast
    also have "\<dots> < 2 ^ m" by simp
    finally show ?thesis by (simp only: card_tt_repr)
  qed
  have keys: "tbl_keys tt_key_of (tt_repr M) = dom M" using wf by (intro tt_keys_repr) (auto simp: wf_tt_def tt_ok_def)
  let ?body = "\<lambda>slot. let slotKey = te_key (tt_hashTable T ! slot) in
              if slotKey = key then Some (True, slot)
              else if slotKey = x_key_invalid \<or> slotKey = x_key_deleted then Some (False, slot)
              else None"
  have F: "tt_Find hashPrim T key =
      probe ?body (fwd_step (2 ^ m - 1)) (2 ^ m) (fwd_start (hash32 hashPrim) (2 ^ m - 1) key)"
    unfolding tt_Find_def Let_def cap by (simp only: m(1))
  note find = fwd.tbl_find[OF T room, of ?body "\<lambda>p. (False, p)" key "\<lambda>p. (True, p)"]
  have body: "tt_key_of (tt_hashTable T ! p) = None \<Longrightarrow> ?body p = Some (False, p)"
    "tt_key_of (tt_hashTable T ! p) = Some key \<Longrightarrow> ?body p = Some (True, p)"
    "tt_key_of (tt_hashTable T ! p) = Some k' \<Longrightarrow> k' \<noteq> key \<Longrightarrow> ?body p = None" for p k'
    using key by (auto simp: tt_key_of_def Let_def split: if_splits)
  show ?thesis
  proof (cases "M key")
    case None
    then have "key \<notin> tbl_keys tt_key_of (tt_repr M)" using keys by auto
    with find body obtain p where p: "p < 2 ^ m" "tt_Find hashPrim T key = Some (False, p)"
      "\<forall>e. tt_key_of e = Some key \<longrightarrow> tbl (2 ^ m) (fwd_start (hash32 hashPrim) (2 ^ m - 1))
         (fwd_step (2 ^ m - 1)) tt_key_of ((tt_hashTable T)[p := e]) (insert e (tt_repr M))"
      unfolding F by auto
    have "tt_repr (M(key \<mapsto> v)) = insert \<lparr>te_key = key, te_value = v\<rparr> (tt_repr M)" for v
      using None by (intro tt_repr_upd) auto
    then show ?thesis using None p m key by (auto simp: tt_write_def tt_key_of_def intro!: exI[of _ p])
  next
    case (Some v)
    then have "key \<in> tbl_keys tt_key_of (tt_repr M)" using keys by auto
    with find body obtain p where p: "p < 2 ^ m" "tt_hashTable T ! p \<in> tt_repr M"
      "tt_key_of (tt_hashTable T ! p) = Some key" "tt_Find hashPrim T key = Some (True, p)"
      unfolding F by auto
    then have "tt_hashTable T ! p = \<lparr>te_key = key, te_value = v\<rparr>"
      using Some by (auto simp: tt_repr_def tt_key_of_def split: if_splits)
    with Some p m show ?thesis by (auto intro!: exI[of _ p])
  qed
qed

lemma tt_Find_num [simp]: "tt_Find hashPrim (T\<lparr>tt_numElementsInHashTable := n\<rparr>) key = tt_Find hashPrim T key"
  by (simp add: tt_Find_def)

lemma tt_ok_insertI:
  assumes "tt_ok hashPrim T M" "key \<noteq> x_key_invalid" "key \<noteq> x_key_deleted" "key \<notin> dom M"
    and "tbl (tt_hashTableMask T + 1) (fwd_start (hash32 hashPrim) (tt_hashTableMask T))
       (fwd_step (tt_hashTableMask T)) tt_key_of (tt_hashTable (tt_write slot key v T)) (tt_repr (M(key \<mapsto> v)))"
  shows "tt_ok hashPrim ((tt_write slot key v T)\<lparr>tt_numElementsInHashTable := tt_numElementsInHashTable T + 1\<rparr>)
    (M(key \<mapsto> v))"
  using assms unfolding tt_ok_def by (auto simp: tt_write_def)

lemma AllocateInitialTable_correct:
  assumes key: "key \<noteq> x_key_invalid" "key \<noteq> x_key_deleted"
  shows "\<exists>T. AllocateInitialTable hashPrim key v = Some T \<and> wf_tt hashPrim T [key \<mapsto> v]"
proof -
  define r where "r = \<lparr>tt_hashTableMask = x_initialHashTableSize - 1, tt_numElementsInHashTable = 0,
               tt_hashTable = tt_zeroed x_initialHashTableSize\<rparr>"
  have wf: "wf_tt hashPrim r (\<lambda>_. None)"
    using tt_key_of_zeroed[of 4] unfolding wf_tt_def tt_ok_def r_def
    by (auto simp: tt_consts eval_nat_numeral intro!: exI[of _ 2])
  have mask: "tt_hashTableMask r = 3" by (simp add: r_def x_initialHashTableSize_def)
  from tt_Find_correct[OF wf key] obtain slot where s:
    "tt_Find hashPrim r key = Some (False, slot)"
    "tbl 4 (fwd_start (hash32 hashPrim) 3) (fwd_step 3) tt_key_of (tt_hashTable (tt_write slot key v r))
       (tt_repr [key \<mapsto> v])"
    unfolding mask by auto
  have "AllocateInitialTable hashPrim key v =
      Some ((tt_write slot key v r)\<lparr>tt_numElementsInHashTable := tt_numElementsInHashTable r + 1\<rparr>)"
    using s(1) tt_Find_num[of hashPrim 1 r key]
    by (simp add: AllocateInitialTable_def r_def tt_write_def)
  moreover have "wf_tt hashPrim
      ((tt_write slot key v r)\<lparr>tt_numElementsInHashTable := tt_numElementsInHashTable r + 1\<rparr>) [key \<mapsto> v]"
    using s(2) wf tt_ok_insertI[of hashPrim r "\<lambda>_. None" key slot v] key
    by (simp add: mask wf_tt_def tt_write_def)
  ultimately show ?thesis by blast
qed

lemma tt_Expand_correct:
  assumes wf: "tt_ok hashPrim T M" and le: "card (dom M) \<le> tt_hashTableMask T + 1"
  shows "\<exists>T'. tt_Expand hashPrim T = Some T' \<and> wf_tt hashPrim T' M \<and>
    tt_hashTableMask T' = 2 * tt_hashTableMask T + 1"
proof -
  obtain m where m: "tt_hashTableMask T = 2 ^ m - 1" "2 \<le> m" using wf by (auto simp: tt_ok_def)
  have m1: "tt_hashTableMask T + 1 = 2 ^ m" using m by simp
  then have nm: "tt_hashTableMask T * 2 + 1 = 2 ^ Suc m - 1" by simp
  have T: "tbl (tt_hashTableMask T + 1) (fwd_start (hash32 hashPrim) (tt_hashTableMask T))
       (fwd_step (tt_hashTableMask T)) tt_key_of (tt_hashTable T) (tt_repr M)"
    using wf by (simp add: tt_ok_def)
  have E: "tt_repr M = tbl_entries tt_key_of (tt_hashTable T)" using tbl_D(2)[OF T] .
  have "\<exists>ht. tbl_reinsert tt_key_of (fwd_start (hash32 hashPrim) (2 ^ Suc m - 1)) (fwd_step (2 ^ Suc m - 1))
      (tt_hashTable T) (tt_zeroed (2 ^ Suc m)) = Some ht \<and>
      tbl (2 ^ Suc m) (fwd_start (hash32 hashPrim) (2 ^ Suc m - 1)) (fwd_step (2 ^ Suc m - 1)) tt_key_of ht
        ({} \<union> tbl_entries tt_key_of (tt_hashTable T))"
  proof (rule fwd.tbl_reinsert_ok[OF tt_key_of_zeroed])
    show "distinct (map tt_key_of (filter (\<lambda>e. tt_key_of e \<noteq> None) (tt_hashTable T)))"
      by (rule tbl_occupied(1)[OF T])
    have "card (dom M) \<le> 2 ^ m" using le m1 by simp
    also have "\<dots> \<le> 2 ^ Suc m" by simp
    finally show "card {} + length (filter (\<lambda>e. tt_key_of e \<noteq> None) (tt_hashTable T)) \<le> 2 ^ Suc m"
      using tbl_occupied(2)[OF T] by (simp add: card_tt_repr)
    show "\<forall>e\<in>set (tt_hashTable T). \<forall>k. tt_key_of e = Some k \<longrightarrow> k \<notin> tbl_keys tt_key_of {}"
      by (simp add: tbl_keys_def)
  qed
  then obtain ht where ht: "tbl_reinsert tt_key_of (fwd_start (hash32 hashPrim) (2 ^ Suc m - 1))
      (fwd_step (2 ^ Suc m - 1)) (tt_hashTable T) (tt_zeroed (2 ^ Suc m)) = Some ht"
      "tbl (2 ^ Suc m) (fwd_start (hash32 hashPrim) (2 ^ Suc m - 1)) (fwd_step (2 ^ Suc m - 1)) tt_key_of ht
        (tt_repr M)" unfolding E by auto
  have len: "take (tt_hashTableMask T + 1) (tt_hashTable T) = tt_hashTable T" using tbl_D(1)[OF T] by simp
  have sz: "2 ^ Suc m - 1 + 1 = (2::nat) ^ Suc m" by simp
  have "tt_Expand hashPrim T = Some \<lparr>tt_hashTableMask = 2 ^ Suc m - 1,
      tt_numElementsInHashTable = tt_numElementsInHashTable T, tt_hashTable = ht\<rparr>"
    unfolding tt_Expand_def Let_def len nm sz ht(1) by simp
  moreover have "wf_tt hashPrim \<lparr>tt_hashTableMask = 2 ^ Suc m - 1,
      tt_numElementsInHashTable = tt_numElementsInHashTable T, tt_hashTable = ht\<rparr> M"
    using wf ht(2) le m m1 unfolding wf_tt_def tt_ok_def
    by (auto simp: sz intro!: exI[of _ "Suc m"] simp del: power_Suc) simp
  ultimately show ?thesis using nm by auto
qed

lemma tt_insert_not_found_correct:
  assumes wf: "wf_tt hashPrim T M" and key: "key \<noteq> x_key_invalid" "key \<noteq> x_key_deleted"
    and new: "M key = None" and find: "tt_Find hashPrim T key = Some (False, e)"
  shows "\<exists>T'. tt_insert_not_found hashPrim e key v T = Some T' \<and> wf_tt hashPrim T' (M(key \<mapsto> v)) \<and>
    \<not> ShouldResizeForThisInsertion T'"
proof -
  define T1 where "T1 = (tt_write e key v T)\<lparr>tt_numElementsInHashTable := tt_numElementsInHashTable T + 1\<rparr>"
  have ok: "tt_ok hashPrim T M" and half: "card (dom M) \<le> (tt_hashTableMask T + 1) div 2"
    using wf by (auto simp: wf_tt_def)
  obtain m where m: "tt_hashTableMask T + 1 = 2 ^ m" "2 \<le> m" using ok by (auto simp: tt_ok_def)
  have four: "(4::nat) \<le> 2 ^ m" using power_increasing[OF m(2), of "2::nat"] by simp
  have ok1: "tt_ok hashPrim T1 (M(key \<mapsto> v))" unfolding T1_def
    using tt_Find_correct[OF wf key] new find by (intro tt_ok_insertI[OF ok key]) auto
  have mask1: "tt_hashTableMask T1 = tt_hashTableMask T" by (simp add: T1_def tt_write_def)
  have num1: "tt_numElementsInHashTable T1 = card (dom (M(key \<mapsto> v)))" using ok1 by (simp add: tt_ok_def)
  have card1: "card (dom (M(key \<mapsto> v))) = Suc (card (dom M))" using ok new
    by (auto simp: tt_ok_def domIff)
  have ins: "tt_insert_not_found hashPrim e key v T =
      (if ShouldResizeForThisInsertion T1 then tt_Expand hashPrim T1 else Some T1)"
    by (simp add: tt_insert_not_found_def tt_add_entry_def T1_def tt_write_def)
  show ?thesis
  proof (cases "ShouldResizeForThisInsertion T1")
    case True
    have le: "card (dom (M(key \<mapsto> v))) < tt_hashTableMask T1 + 1"
      using card1 half four unfolding mask1 m(1) by linarith
    then obtain T' where T': "tt_Expand hashPrim T1 = Some T'" "wf_tt hashPrim T' (M(key \<mapsto> v))"
      "tt_hashTableMask T' = 2 * tt_hashTableMask T1 + 1"
      using tt_Expand_correct[OF ok1] by auto
    moreover have "\<not> ShouldResizeForThisInsertion T'"
    proof -
      have "tt_numElementsInHashTable T' = card (dom (M(key \<mapsto> v)))"
        using T'(2) unfolding wf_tt_def tt_ok_def by simp
      then show ?thesis using le T'(3) unfolding ShouldResizeForThisInsertion_def by linarith
    qed
    ultimately show ?thesis using True ins by simp
  next
    case False
    then have "card (dom (M(key \<mapsto> v))) \<le> (tt_hashTableMask T1 + 1) div 2"
      using num1 unfolding ShouldResizeForThisInsertion_def by linarith
    with ok1 False ins show ?thesis by (simp add: wf_tt_def)
  qed
qed

lemma tt_add_entry_wf:
  assumes wf: "wf_tt hashPrim T M" and key: "key \<noteq> x_key_invalid" "key \<noteq> x_key_deleted"
    and new: "M key = None" and find: "tt_Find hashPrim T key = Some (False, e)"
    and half: "card (dom M) < (tt_hashTableMask T + 1) div 2"
  shows "wf_tt hashPrim (tt_add_entry e key v T) (M(key \<mapsto> v))"
proof -
  have ok: "tt_ok hashPrim T M" using wf by (simp add: wf_tt_def)
  have "tt_ok hashPrim ((tt_write e key v T)\<lparr>tt_numElementsInHashTable := tt_numElementsInHashTable T + 1\<rparr>) (M(key \<mapsto> v))"
    using tt_Find_correct[OF wf key] new find by (intro tt_ok_insertI[OF ok key]) auto
  moreover have "tt_add_entry e key v T = (tt_write e key v T)\<lparr>tt_numElementsInHashTable := tt_numElementsInHashTable T + 1\<rparr>"
    by (simp add: tt_add_entry_def tt_write_def)
  moreover have "tt_hashTableMask (tt_add_entry e key v T) = tt_hashTableMask T"
    by (simp add: tt_add_entry_def tt_write_def)
  moreover have "finite (dom M)" "key \<notin> dom M" using ok new by (simp_all add: tt_ok_def domIff)
  then have "card (dom (M(key \<mapsto> v))) = Suc (card (dom M))" by simp
  ultimately show ?thesis using half unfolding wf_tt_def by simp
qed

lemma tt_repr_overwrite:
  "M key = Some c \<Longrightarrow> tt_repr (M(key \<mapsto> v)) = insert \<lparr>te_key = key, te_value = v\<rparr> (tt_repr M - {\<lparr>te_key = key, te_value = c\<rparr>})"
  by (auto simp: tt_repr_def split: if_splits)

lemma tt_overwrite_wf:
  assumes wf: "wf_tt hashPrim T M" and e: "e \<le> tt_hashTableMask T" "tt_hashTable T ! e = \<lparr>te_key = key, te_value = c\<rparr>"
    and old: "M key = Some c"
  shows "wf_tt hashPrim (tt_write e key v T) (M(key \<mapsto> v))"
proof -
  have ok: "tt_ok hashPrim T M" using wf by (simp add: wf_tt_def)
  have k: "key \<noteq> x_key_invalid" "key \<noteq> x_key_deleted" using ok old by (auto simp: tt_ok_def)
  then have "tbl (tt_hashTableMask T + 1) (fwd_start (hash32 hashPrim) (tt_hashTableMask T))
       (fwd_step (tt_hashTableMask T)) tt_key_of ((tt_hashTable T)[e := \<lparr>te_key = key, te_value = v\<rparr>])
       (insert \<lparr>te_key = key, te_value = v\<rparr> (tt_repr M - {tt_hashTable T ! e}))"
    using ok e by (intro tbl_overwrite) (auto simp: tt_ok_def tt_key_of_def)
  moreover have "dom (M(key \<mapsto> v)) = dom M" using old by auto
  ultimately show ?thesis using wf unfolding wf_tt_def tt_ok_def e(2) tt_repr_overwrite[of M key, OF old]
    by (simp add: tt_write_def)
qed
text \<open>
  C32. The outlined transition table is a finite map: whatever the hash function, \<^verbatim>\<open>Find\<close> returns on every table
  the operations build, it finds exactly the keys of the map with their child, and filling the entry of
  a failed \<^verbatim>\<open>Find\<close>, with the resize it may trigger, gives the map extended by that key.
\<close>

theorem transition_table_refines_map:
  assumes "wf_tt hashPrim T M" "key \<noteq> x_key_invalid" "key \<noteq> x_key_deleted"
  shows "case M key of
      Some v \<Rightarrow> \<exists>slot. tt_Find hashPrim T key = Some (True, slot) \<and>
        tt_hashTable T ! slot = \<lparr>te_key = key, te_value = v\<rparr>
    | None \<Rightarrow> \<exists>slot. tt_Find hashPrim T key = Some (False, slot) \<and>
        (\<forall>v. \<exists>T'. tt_insert_not_found hashPrim slot key v T = Some T' \<and> wf_tt hashPrim T' (M(key \<mapsto> v)))"
proof (cases "M key")
  case None
  with tt_Find_correct[OF assms] obtain slot where "tt_Find hashPrim T key = Some (False, slot)" by auto
  with None show ?thesis using tt_insert_not_found_correct[OF assms None] by auto
next
  case (Some v)
  with tt_Find_correct[OF assms] show ?thesis by auto
qed

theorem transition_table_refines_map_witness:
  "\<exists>T slot. AllocateInitialTable (\<lambda>_. 0) (- 8) 64 = Some T \<and>
     tt_Find (\<lambda>_. 0) T (- 8) = Some (True, slot) \<and>
     tt_hashTable T ! slot = \<lparr>te_key = - 8, te_value = 64\<rparr>"
proof -
  obtain T where T: "AllocateInitialTable (\<lambda>_. 0) (- 8) 64 = Some T" "wf_tt (\<lambda>_. 0) T [- 8 \<mapsto> 64]"
    using AllocateInitialTable_correct[of "- 8" "\<lambda>_. 0" 64] by (auto simp: tt_consts)
  from transition_table_refines_map[OF T(2), of "- 8"] T(1) show ?thesis by (auto simp: tt_consts)
qed

end
