(* ===== verification/MathHelper.thy ===== *)
theory MathHelper
  imports Prelude
begin

unbundle bit_operations_syntax

text \<open>
  The integer helpers of \<^verbatim>\<open>common_utils/misc_math_helper.h\<close>. A C++ integer type is described by
  its signedness and width where a helper is generic in it; where the helper is used at a
  fixed unsigned width the value is a word. An \<^verbatim>\<open>Assert\<close> on the arguments is a guard: the
  helper returns \<open>None\<close> where the assertion would fail.
\<close>

section \<open>Integer types and range checks\<close>

record int_ty =
  it_signed :: bool
  it_bits :: nat

definition int_min :: "int_ty \<Rightarrow> int" where
  "int_min t = (if it_signed t then - (2 ^ (it_bits t - 1)) else 0)"

definition int_max :: "int_ty \<Rightarrow> int" where
  "int_max t = (if it_signed t then 2 ^ (it_bits t - 1) - 1 else 2 ^ it_bits t - 1)"

definition int_fits :: "int_ty \<Rightarrow> int \<Rightarrow> bool" where
  "int_fits t x \<longleftrightarrow> int_min t \<le> x \<and> x \<le> int_max t"

definition valid_int_ty :: "int_ty \<Rightarrow> bool" where
  "valid_int_ty t \<longleftrightarrow> it_bits t \<in> {8, 16, 32, 64}"

text \<open>A C++ \<^verbatim>\<open>static_cast\<close> between integer types: reduction modulo the width of the target.\<close>

definition int_cast :: "int_ty \<Rightarrow> int \<Rightarrow> int" where
  "int_cast t x = (if it_signed t then signed_take_bit (it_bits t - 1) x else take_bit (it_bits t) x)"

definition IntegerCanBeRepresentedIn :: "int_ty \<Rightarrow> int_ty \<Rightarrow> int \<Rightarrow> bool" where
  "IntegerCanBeRepresentedIn dst src x =
     (if it_signed dst = it_signed src then
        (if it_bits dst < it_bits src
         then int_cast src (int_min dst) \<le> x \<and> x \<le> int_cast src (int_max dst)
         else True)
      else if it_signed src then
        (if x < 0 then False
         else if it_bits dst < it_bits src then x \<le> int_cast src (int_max dst)
         else True)
      else
        (if it_bits dst \<le> it_bits src then x \<le> int_cast src (int_max dst) else True))"

definition SafeIntegerCast :: "int_ty \<Rightarrow> int_ty \<Rightarrow> int \<Rightarrow> int option" where
  "SafeIntegerCast dst src x =
     (if IntegerCanBeRepresentedIn dst src x then Some (int_cast dst x) else None)"

section \<open>Shifts, extensions, truncation and rounding\<close>

definition SignExtendedShiftRight :: "'a::len word \<Rightarrow> nat \<Rightarrow> 'a word" where
  "SignExtendedShiftRight value shift = signed_drop_bit shift value"

definition SignExtendTo :: "'a::len word \<Rightarrow> 'b::len word" where
  "SignExtendTo src = scast src"

definition ZeroExtendTo :: "'a::len word \<Rightarrow> 'b::len word" where
  "ZeroExtendTo src = ucast src"

definition BitwiseTruncateTo :: "'a::len word \<Rightarrow> 'b::len word" where
  "BitwiseTruncateTo src = ucast src"

definition RoundUpToMultipleOf :: "int_ty \<Rightarrow> int \<Rightarrow> int \<Rightarrow> int option" where
  "RoundUpToMultipleOf t mult val =
     (if (it_signed t \<longrightarrow> 0 \<le> val) \<and> val \<le> int_max t - mult
      then Some ((val + mult - 1) div mult * mult) else None)"

definition RoundUpToPowerOfTwoMultipleOf :: "'a::len word \<Rightarrow> 'a word \<Rightarrow> 'a word" where
  "RoundUpToPowerOfTwoMultipleOf value mult =
     (let value = value + (mult - 1); mask = NOT (mult - 1) in value AND mask)"

text \<open>The helper asserts \<^verbatim>\<open>v <= (1U << 31)\<close>, then smears the highest bit downwards.\<close>

definition smear_right :: "nat \<Rightarrow> u32 \<Rightarrow> u32" where
  "smear_right s v = v OR drop_bit s v"

definition RoundUpToPowerOfTwo :: "u32 \<Rightarrow> u32" where
  "RoundUpToPowerOfTwo v =
     (let v = v - 1;
          v = smear_right 1 v;
          v = smear_right 2 v;
          v = smear_right 4 v;
          v = smear_right 8 v;
          v = smear_right 16 v
      in v + 1)"

section \<open>Arithmetic with overflow checks\<close>

text \<open>The pair is the wrapped result and whether the exact result was out of range.\<close>

definition overflow_result :: "int_ty \<Rightarrow> int \<Rightarrow> int \<times> bool" where
  "overflow_result t exact = (int_cast t exact, \<not> int_fits t exact)"

definition AddWithOverflowCheck :: "int_ty \<Rightarrow> int \<Rightarrow> int \<Rightarrow> int \<times> bool" where
  "AddWithOverflowCheck t a b = overflow_result t (a + b)"

definition SubWithOverflowCheck :: "int_ty \<Rightarrow> int \<Rightarrow> int \<Rightarrow> int \<times> bool" where
  "SubWithOverflowCheck t a b = overflow_result t (a - b)"

definition MulWithOverflowCheck :: "int_ty \<Rightarrow> int \<Rightarrow> int \<Rightarrow> int \<times> bool" where
  "MulWithOverflowCheck t a b = overflow_result t (a * b)"

section \<open>Bit counting\<close>

text \<open>
  The compiler builtins \<^verbatim>\<open>__builtin_ctz\<close>, \<^verbatim>\<open>__builtin_popcount\<close> and \<^verbatim>\<open>__builtin_clz\<close> as scans
  over the bit positions. The helpers assert a nonzero argument where the builtin needs it.
\<close>

definition word_bits_set :: "'a::len word \<Rightarrow> nat list" where
  "word_bits_set w = filter (bit w) [0..<LENGTH('a)]"

definition CountTrailingZeros :: "'a::len word \<Rightarrow> nat option" where
  "CountTrailingZeros w = (case word_bits_set w of [] \<Rightarrow> None | i # _ \<Rightarrow> Some i)"

definition CountNumberOfOnes :: "'a::len word \<Rightarrow> nat" where
  "CountNumberOfOnes w = length (word_bits_set w)"

definition FindHighestOneBit :: "'a::len word \<Rightarrow> nat option" where
  "FindHighestOneBit w = (if word_bits_set w = [] then None else Some (last (word_bits_set w)))"

definition SingletonBitmask :: "nat \<Rightarrow> 'a::len word" where
  "SingletonBitmask bitOrd = push_bit bitOrd 1"

definition GetMaskBitIsOneIfOrdinalBitKIsOne :: "nat \<Rightarrow> 'a::len word" where
  "GetMaskBitIsOneIfOrdinalBitKIsOne k =
     fold (\<lambda>i result. if i AND 2 ^ k \<noteq> 0 then result OR push_bit i 1 else result)
       [0..<LENGTH('a)] 0"

section \<open>Bit field members\<close>

text \<open>
  \<^verbatim>\<open>BitFieldMember<CarrierType, SelfType, start, width>\<close>: the field occupies the bits
  \<open>start ..< start + width\<close> of the carrier. The self type enters through its unsigned value.
\<close>

definition bfm_maskForGet :: "nat \<Rightarrow> nat \<Rightarrow> 'a::len word" where
  "bfm_maskForGet start width = push_bit start (push_bit width 1 - 1)"

definition bfm_maskForSet :: "nat \<Rightarrow> nat \<Rightarrow> 'a::len word" where
  "bfm_maskForSet start width = NOT (bfm_maskForGet start width)"

definition bfm_Set :: "nat \<Rightarrow> nat \<Rightarrow> 'a::len word \<Rightarrow> 'a word \<Rightarrow> 'a word" where
  "bfm_Set start width c v = (c AND bfm_maskForSet start width) OR push_bit start v"

definition bfm_Get :: "nat \<Rightarrow> nat \<Rightarrow> 'a::len word \<Rightarrow> 'a word" where
  "bfm_Get start width c = drop_bit start (c AND bfm_maskForGet start width)"

definition bfm_GetBool :: "nat \<Rightarrow> nat \<Rightarrow> 'a::len word \<Rightarrow> bool" where
  "bfm_GetBool start width c = (c AND bfm_maskForGet start width \<noteq> 0)"

text \<open>Proof vocabulary: \<open>w\<close> holds the bits of \<open>v\<close> copied to the \<open>k\<close> positions below.\<close>

definition smears :: "nat \<Rightarrow> u32 \<Rightarrow> u32 \<Rightarrow> bool" where
  "smears k w v \<longleftrightarrow> (\<forall>i. bit w i \<longleftrightarrow> (\<exists>d<k. bit v (i + d)))"

section \<open>Properties\<close>

lemma int_cast_fits:
  assumes "valid_int_ty t" "int_fits t x"
  shows "int_cast t x = x"
proof (cases "it_signed t")
  case True
  with assms show ?thesis
    by (auto simp: int_cast_def int_fits_def int_min_def int_max_def valid_int_ty_def
        intro!: signed_take_bit_int_eq_self)
next
  case False
  with assms show ?thesis
    by (auto simp: int_cast_def int_fits_def int_min_def int_max_def valid_int_ty_def
        intro!: take_bit_int_eq_self)
qed

lemma IntegerCanBeRepresentedIn_iff:
  assumes "valid_int_ty dst" "valid_int_ty src" "int_fits src x"
  shows "IntegerCanBeRepresentedIn dst src x \<longleftrightarrow> int_fits dst x"
  using assms
  by (cases "it_signed dst"; cases "it_signed src")
    (auto simp: IntegerCanBeRepresentedIn_def int_cast_def int_fits_def int_min_def int_max_def
      valid_int_ty_def)

lemma RoundUpToMultipleOf_least:
  assumes "0 < mult" "RoundUpToMultipleOf t mult val = Some r"
  shows "mult dvd r \<and> val \<le> r \<and> r < val + mult"
proof -
  have r: "r = (val + mult - 1) div mult * mult"
    using assms(2) by (auto simp: RoundUpToMultipleOf_def split: if_splits)
  define q where "q = (val + mult - 1) div mult"
  have "q * mult + (val + mult - 1) mod mult = val + mult - 1"
    unfolding q_def by simp
  moreover have "(val + mult - 1) mod mult < mult" "0 \<le> (val + mult - 1) mod mult"
    using assms(1) by simp_all
  ultimately have "val \<le> q * mult" "q * mult < val + mult" by linarith+
  then show ?thesis by (simp add: r flip: q_def)
qed


lemma RoundUpToPowerOfTwoMultipleOf_eq:
  fixes x :: "'a::len word"
  assumes "m < LENGTH('a)" "unat x + 2 ^ m - 1 < 2 ^ LENGTH('a)"
  shows "unat (RoundUpToPowerOfTwoMultipleOf x (2 ^ m)) = (unat x + 2 ^ m - 1) div 2 ^ m * 2 ^ m"
proof -
  let ?s = "x + (2 ^ m - 1)"
  have one: "unat ((2::'a word) ^ m - 1) = 2 ^ m - 1"
    using assms(1) unat_mask[of m, where 'a='a] by (simp add: mask_eq_exp_minus_1)
  have sum: "unat ?s = unat x + 2 ^ m - 1"
    using assms(2) by (simp add: unat_word_ariths one)
  have "?s AND NOT (2 ^ m - 1) = push_bit m (drop_bit m ?s)"
    by (rule bit_eqI) (auto simp: bit_simps simp flip: mask_eq_exp_minus_1)
  moreover have "unat (push_bit m (drop_bit m ?s)) = unat ?s div 2 ^ m * 2 ^ m"
  proof -
    have "unat (push_bit m (drop_bit m ?s)) = push_bit m (drop_bit m (unat ?s))"
      by (rule bit_eqI) (auto simp: bit_simps dest: bit_imp_le_length)
    then show ?thesis by (simp add: drop_bit_eq_div push_bit_eq_mult)
  qed
  ultimately show ?thesis
    by (simp add: RoundUpToPowerOfTwoMultipleOf_def sum)
qed

lemma smears_step:
  assumes "smears k w v"
  shows "smears (2 * k) (smear_right k w) v"
  unfolding smears_def
proof
  fix i
  have "(\<exists>d<2 * k. bit v (i + d)) \<longleftrightarrow> (\<exists>d<k. bit v (i + d)) \<or> (\<exists>d<k. bit v (i + k + d))"
  proof
    assume "\<exists>d<2 * k. bit v (i + d)"
    then obtain d where d: "d < 2 * k" "bit v (i + d)" by blast
    show "(\<exists>d<k. bit v (i + d)) \<or> (\<exists>d<k. bit v (i + k + d))"
    proof (cases "d < k")
      case False
      with d have "d - k < k" "bit v (i + k + (d - k))" by auto
      then show ?thesis by blast
    qed (use d in blast)
  next
    assume "(\<exists>d<k. bit v (i + d)) \<or> (\<exists>d<k. bit v (i + k + d))"
    then show "\<exists>d<2 * k. bit v (i + d)"
    proof
      assume "\<exists>d<k. bit v (i + k + d)"
      then obtain d where "d < k" "bit v (i + k + d)" by blast
      then show ?thesis by (intro exI[of _ "k + d"]) (simp add: add.assoc)
    next
      assume "\<exists>d<k. bit v (i + d)"
      then show ?thesis by (metis less_le_trans le_add1 mult_2)
    qed
  qed
  then show "bit (smear_right k w) i \<longleftrightarrow> (\<exists>d<2 * k. bit v (i + d))"
    using assms by (simp add: smears_def smear_right_def bit_simps add.commute)
qed

lemma smears_all:
  "smears 32 (smear_right 16 (smear_right 8 (smear_right 4 (smear_right 2 (smear_right 1 v))))) v"
proof -
  have "smears 1 v v" by (simp add: smears_def)
  from smears_step[OF smears_step[OF smears_step[OF smears_step[OF smears_step[OF this]]]]]
  show ?thesis by simp
qed

lemma smears_mask:
  assumes "smears 32 w v" "2 ^ m \<le> unat v" "unat v < 2 ^ Suc m"
  shows "w = mask (Suc m)"
proof (rule bit_word_eqI)
  fix i assume "i < LENGTH(32)"
  have m: "m < 32" using bit_imp_le_length[OF word_highest_bit(1)[OF assms(2,3)]] by simp
  have "(\<exists>d<32. bit v (i + d)) \<longleftrightarrow> i \<le> m"
  proof
    assume "i \<le> m"
    then show "\<exists>d<32. bit v (i + d)"
      using m word_highest_bit(1)[OF assms(2,3)] by (intro exI[of _ "m - i"]) auto
  qed (metis le_add1 le_trans not_le word_highest_bit(2)[OF assms(2,3)])
  then show "bit w i \<longleftrightarrow> bit (mask (Suc m) :: u32) i"
    using assms(1) \<open>i < LENGTH(32)\<close> by (auto simp: smears_def bit_simps)
qed

lemma RoundUpToPowerOfTwo_0: "RoundUpToPowerOfTwo 0 = 0"
  by (simp add: RoundUpToPowerOfTwo_def smear_right_def)

lemma RoundUpToPowerOfTwo_1: "RoundUpToPowerOfTwo 1 = 1"
  by (simp add: RoundUpToPowerOfTwo_def smear_right_def)

lemma RoundUpToPowerOfTwo_between:
  assumes "2 ^ m < unat v" "unat v \<le> 2 ^ Suc m" "m < 31"
  shows "unat (RoundUpToPowerOfTwo v) = 2 ^ Suc m"
proof -
  have v1: "unat (v - 1) = unat v - 1"
    using assms(1) by (subst unat_minus_one) (auto)
  have "2 ^ m \<le> unat (v - 1)" "unat (v - 1) < 2 ^ Suc m"
    using assms v1 by auto
  from smears_mask[OF smears_all this]
  have "RoundUpToPowerOfTwo v = mask (Suc m) + 1"
    by (simp add: RoundUpToPowerOfTwo_def Let_def)
  also have "\<dots> = 2 ^ Suc m" by (simp add: mask_eq_exp_minus_1)
  finally show ?thesis using assms(3) by (simp add: unat_pow2 del: power_Suc)
qed

lemma RoundUpToPowerOfTwo_correct:
  assumes "0 < unat v" "unat v \<le> 2 ^ 31"
  shows "\<exists>k. unat (RoundUpToPowerOfTwo v) = 2 ^ k \<and> unat v \<le> 2 ^ k \<and> 2 ^ k < 2 * unat v"
proof (cases "unat v = 1")
  case True
  then have "v = 1" by (simp add: word_unat_eq_iff)
  then show ?thesis by (intro exI[of _ 0]) (simp add: RoundUpToPowerOfTwo_1)
next
  case False
  then have "0 < unat v - 1" using assms(1) by simp
  then obtain m where m: "2 ^ m \<le> unat v - 1" "unat v - 1 < 2 ^ Suc m"
    by (rule ex_power2_between)
  have "(2::nat) ^ m < 2 ^ 31" using m(1) assms by linarith
  then have "m < 31" by (simp only: power_strict_increasing_iff)
  with m assms have "unat (RoundUpToPowerOfTwo v) = 2 ^ Suc m"
    by (intro RoundUpToPowerOfTwo_between) auto
  with m assms(1) show ?thesis by (intro exI[of _ "Suc m"]) auto
qed

lemma bfm_maskForGet_eq: "bfm_maskForGet start width = push_bit start (mask width)"
  by (simp add: bfm_maskForGet_def mask_eq_exp_minus_1)

lemma bit_bfm_Get:
  "bit (bfm_Get start width (c::'a::len word)) i \<longleftrightarrow> i < width \<and> bit c (start + i)"
  by (auto simp: bfm_Get_def bfm_maskForGet_eq bit_simps dest: bit_imp_le_length)

lemma bit_bfm_Set:
  assumes "start + width \<le> LENGTH('a)" "unat v < 2 ^ width"
  shows "bit (bfm_Set start width (c::'a::len word) v) i \<longleftrightarrow>
    (if start \<le> i \<and> i < start + width then bit v (i - start) else bit c i)"
  using assms(1) bit_above_width[OF assms(2)]
  by (auto simp: bfm_Set_def bfm_maskForSet_def bfm_maskForGet_eq bit_simps
      dest: bit_imp_le_length)

lemma bfm_Get_Set:
  assumes "start + width \<le> LENGTH('a)" "unat v < 2 ^ width"
  shows "bfm_Get start width (bfm_Set start width (c::'a::len word) v) = v"
  by (rule bit_word_eqI)
    (use bit_above_width[OF assms(2)] in \<open>auto simp: bit_bfm_Get bit_bfm_Set[OF assms]\<close>)

lemma bfm_Get_Set_other:
  assumes "start + width \<le> LENGTH('a)" "unat v < 2 ^ width"
    and "s' + w' \<le> start \<or> start + width \<le> s'"
  shows "bfm_Get s' w' (bfm_Set start width (c::'a::len word) v) = bfm_Get s' w' c"
  by (rule bit_word_eqI) (use assms(3) in \<open>auto simp: bit_bfm_Get bit_bfm_Set[OF assms(1,2)]\<close>)

section \<open>Properties of the helpers\<close>

text \<open>
  The bit trick of \<^verbatim>\<open>RoundUpToPowerOfTwo\<close> returns the least power of two that is not below its argument, for every positive
  argument up to \<open>2 ^ 31\<close>, the largest for which there is one.
\<close>

theorem RoundUpToPowerOfTwo_least:
  assumes "0 < unat v" "unat v \<le> 2 ^ 31"
  shows "\<exists>k. unat (RoundUpToPowerOfTwo v) = 2 ^ k \<and> unat v \<le> 2 ^ k \<and> (\<forall>j. unat v \<le> 2 ^ j \<longrightarrow> k \<le> j)"
proof -
  obtain k where k: "unat (RoundUpToPowerOfTwo v) = 2 ^ k" "unat v \<le> 2 ^ k" "2 ^ k < 2 * unat v"
    using RoundUpToPowerOfTwo_correct[OF assms] by blast
  have "k \<le> j" if "unat v \<le> 2 ^ j" for j
  proof -
    have "(2::nat) ^ k < 2 ^ Suc j" using k(3) that by simp
    then have "k < Suc j" by (rule power_less_imp_less_exp[rotated]) simp
    then show ?thesis by simp
  qed
  with k show ?thesis by blast
qed

theorem RoundUpToPowerOfTwo_least_witness:
  "\<exists>k. unat (RoundUpToPowerOfTwo 5) = 2 ^ k \<and> unat (5::u32) \<le> 2 ^ k \<and> (\<forall>j. unat (5::u32) \<le> 2 ^ j \<longrightarrow> k \<le> j)"
  by (rule RoundUpToPowerOfTwo_least) simp_all

text \<open>
  A bit field member reads back what was written to it, and writing it does not disturb a member that occupies other bits, for
  every start, width and carrier that the field fits in.
\<close>

theorem BitFieldMember_get_set:
  fixes c :: "'a::len word"
  assumes "start + width \<le> LENGTH('a)" "unat v < 2 ^ width" "s' + w' \<le> start \<or> start + width \<le> s'"
  shows "bfm_Get start width (bfm_Set start width c v) = v \<and> bfm_Get s' w' (bfm_Set start width c v) = bfm_Get s' w' c"
  using bfm_Get_Set[OF assms(1,2)] bfm_Get_Set_other[OF assms] by blast

theorem BitFieldMember_get_set_witness:
  "bfm_Get 2 3 (bfm_Set 2 3 (0xFF :: u8) 5) = 5 \<and> bfm_Get 0 2 (bfm_Set 2 3 (0xFF :: u8) 5) = bfm_Get 0 2 0xFF"
  by (rule BitFieldMember_get_set) simp_all

end
