(* ===== verification/ArrayType.thy ===== *)
theory ArrayType
  imports MathHelper
begin

unbundle bit_operations_syntax

text \<open>
  \<^verbatim>\<open>runtime/array_type.h\<close>: the policy constants of the array part and the \<^verbatim>\<open>ArrayType\<close> byte, a bit
  field over \<^verbatim>\<open>uint8_t\<close> whose members are \<^verbatim>\<open>BitFieldMember\<close> instances. The byte is kept as the 8-bit word
  the code stores and compares; the laws below say that each member is an independent field of it.
\<close>

section \<open>Growth policy\<close>

definition x_arrayBaseOrd :: int where "x_arrayBaseOrd = 1"
definition x_alwaysVectorCutoff :: int where "x_alwaysVectorCutoff = 1000"
definition x_sparseMapUnlessContinuousCutoff :: int where
  "x_sparseMapUnlessContinuousCutoff = 100000"
definition x_densityCutoff :: nat where "x_densityCutoff = 8"
definition x_unconditionallySparseMapCutoff :: int where
  "x_unconditionallySparseMapCutoff = 2 ^ 27"
definition x_initialVectorPartCapacity :: nat where "x_initialVectorPartCapacity = 4"
definition x_vectorGrowthFactor :: nat where "x_vectorGrowthFactor = 2"

lemmas array_policy = x_arrayBaseOrd_def x_alwaysVectorCutoff_def
  x_sparseMapUnlessContinuousCutoff_def x_densityCutoff_def x_unconditionallySparseMapCutoff_def
  x_initialVectorPartCapacity_def x_vectorGrowthFactor_def

section \<open>The array type byte\<close>

datatype Kind = NoButterflyArrayPart | KInt32 | KDouble | KAny

fun kind_to_word :: "Kind \<Rightarrow> u8" where
  "kind_to_word NoButterflyArrayPart = 0"
| "kind_to_word KInt32 = 1"
| "kind_to_word KDouble = 2"
| "kind_to_word KAny = 3"

definition word_to_kind :: "u8 \<Rightarrow> Kind" where
  "word_to_kind w = (if w = 0 then NoButterflyArrayPart else if w = 1 then KInt32
     else if w = 2 then KDouble else KAny)"

definition ArrayKind :: "u8 \<Rightarrow> Kind" where
  "ArrayKind a = word_to_kind (bfm_Get 0 2 a)"
definition SetArrayKind :: "Kind \<Rightarrow> u8 \<Rightarrow> u8" where
  "SetArrayKind v a = bfm_Set 0 2 a (kind_to_word v)"

definition HasSparseMap :: "u8 \<Rightarrow> bool" where
  "HasSparseMap a = bfm_GetBool 2 1 a"
definition SetHasSparseMap :: "bool \<Rightarrow> u8 \<Rightarrow> u8" where
  "SetHasSparseMap v a = bfm_Set 2 1 a (of_bool v)"

definition SparseMapContainsVectorIndex :: "u8 \<Rightarrow> bool" where
  "SparseMapContainsVectorIndex a = bfm_GetBool 3 1 a"
definition SetSparseMapContainsVectorIndex :: "bool \<Rightarrow> u8 \<Rightarrow> u8" where
  "SetSparseMapContainsVectorIndex v a = bfm_Set 3 1 a (of_bool v)"

definition IsContinuous :: "u8 \<Rightarrow> bool" where
  "IsContinuous a = bfm_GetBool 4 1 a"
definition SetIsContinuous :: "bool \<Rightarrow> u8 \<Rightarrow> u8" where
  "SetIsContinuous v a = bfm_Set 4 1 a (of_bool v)"

definition MayHaveMetatable :: "u8 \<Rightarrow> bool" where
  "MayHaveMetatable a = bfm_GetBool 5 1 a"
definition SetMayHaveMetatable :: "bool \<Rightarrow> u8 \<Rightarrow> u8" where
  "SetMayHaveMetatable v a = bfm_Set 5 1 a (of_bool v)"

definition GetInitialArrayType :: u8 where "GetInitialArrayType = 0"
definition x_usefulBitsMask :: u8 where "x_usefulBitsMask = 2 ^ 6 - 1"
definition x_coroutineTypeTag :: u8 where "x_coroutineTypeTag = 64"
definition x_invalidArrayType :: u8 where "x_invalidArrayType = 128"
definition x_impossibleArrayType :: u8 where "x_impossibleArrayType = 128 + 64"

text \<open>The array type of a table: bits 6 and 7 are clear.\<close>

definition valid_array_type :: "u8 \<Rightarrow> bool" where
  "valid_array_type a \<longleftrightarrow> a AND NOT x_usefulBitsMask = 0"

section \<open>The members are independent fields\<close>

lemma kind_to_word_lt [simp]: "unat (kind_to_word k) < 2 ^ 2" "unat (kind_to_word k) < 4"
  by (cases k; simp)+

lemma word_to_kind_to_word [simp]: "word_to_kind (kind_to_word k) = k"
  by (cases k) (simp_all add: word_to_kind_def)

lemma of_bool_lt [simp]: "unat (of_bool b :: u8) < 2 ^ 1"
  by simp

lemma bfm_GetBool_bit:
  assumes "start < 8"
  shows "bfm_GetBool start 1 (c::u8) \<longleftrightarrow> bit c start"
proof -
  have "bit (c AND bfm_maskForGet start 1) i \<longleftrightarrow> i = start \<and> bit c start" for i
    by (auto simp: bfm_maskForGet_eq bit_simps dest: bit_imp_le_length)
  then show ?thesis unfolding bfm_GetBool_def by (metis bit_0_eq bit_word_eqI bot_apply bot_bool_def)
qed

lemmas at_get_defs = HasSparseMap_def SparseMapContainsVectorIndex_def
  IsContinuous_def MayHaveMetatable_def

lemma bit_SetFlag:
  assumes "start < 8"
  shows "bit (bfm_Set start 1 (c::u8) (of_bool v)) i \<longleftrightarrow> (if i = start then v else bit c i)"
  using bit_bfm_Set[where start=start and width=1 and c=c and v="of_bool v" and i=i] assms
  by auto

lemma bit_SetArrayKind:
  "2 \<le> i \<Longrightarrow> bit (SetArrayKind k a) i = bit a i"
  unfolding SetArrayKind_def by (subst bit_bfm_Set) auto

lemma ArrayKind_bfm_Set:
  assumes "start \<in> {2, 3, 4, 5}"
  shows "ArrayKind (bfm_Set start 1 a (of_bool v)) = ArrayKind a"
  unfolding ArrayKind_def using assms by (subst bfm_Get_Set_other) auto

lemma at_get_set [simp]:
  "ArrayKind (SetArrayKind k a) = k"
  "HasSparseMap (SetHasSparseMap v a) = v"
  "SparseMapContainsVectorIndex (SetSparseMapContainsVectorIndex v a) = v"
  "IsContinuous (SetIsContinuous v a) = v"
  "MayHaveMetatable (SetMayHaveMetatable v a) = v"
  by (simp_all add: ArrayKind_def SetArrayKind_def bfm_Get_Set at_get_defs SetHasSparseMap_def
      SetSparseMapContainsVectorIndex_def SetIsContinuous_def SetMayHaveMetatable_def
      bfm_GetBool_bit[simplified] bit_SetFlag[simplified])

lemma at_kind_frame [simp]:
  "ArrayKind (SetHasSparseMap v a) = ArrayKind a"
  "ArrayKind (SetSparseMapContainsVectorIndex v a) = ArrayKind a"
  "ArrayKind (SetIsContinuous v a) = ArrayKind a"
  "ArrayKind (SetMayHaveMetatable v a) = ArrayKind a"
  unfolding SetHasSparseMap_def SetSparseMapContainsVectorIndex_def
    SetIsContinuous_def SetMayHaveMetatable_def
  by (rule ArrayKind_bfm_Set, simp)+

lemma at_set_kind_frame [simp]:
  "HasSparseMap (SetArrayKind k a) = HasSparseMap a"
  "SparseMapContainsVectorIndex (SetArrayKind k a) = SparseMapContainsVectorIndex a"
  "IsContinuous (SetArrayKind k a) = IsContinuous a"
  "MayHaveMetatable (SetArrayKind k a) = MayHaveMetatable a"
  by (simp_all add: at_get_defs bfm_GetBool_bit[simplified] bit_SetArrayKind)

lemma at_flag_frame [simp]:
  "HasSparseMap (SetSparseMapContainsVectorIndex v a) = HasSparseMap a"
  "HasSparseMap (SetIsContinuous v a) = HasSparseMap a"
  "HasSparseMap (SetMayHaveMetatable v a) = HasSparseMap a"
  "SparseMapContainsVectorIndex (SetHasSparseMap v a) = SparseMapContainsVectorIndex a"
  "SparseMapContainsVectorIndex (SetIsContinuous v a) = SparseMapContainsVectorIndex a"
  "SparseMapContainsVectorIndex (SetMayHaveMetatable v a) = SparseMapContainsVectorIndex a"
  "IsContinuous (SetHasSparseMap v a) = IsContinuous a"
  "IsContinuous (SetSparseMapContainsVectorIndex v a) = IsContinuous a"
  "IsContinuous (SetMayHaveMetatable v a) = IsContinuous a"
  "MayHaveMetatable (SetHasSparseMap v a) = MayHaveMetatable a"
  "MayHaveMetatable (SetSparseMapContainsVectorIndex v a) = MayHaveMetatable a"
  "MayHaveMetatable (SetIsContinuous v a) = MayHaveMetatable a"
  by (simp_all add: at_get_defs SetHasSparseMap_def SetSparseMapContainsVectorIndex_def
      SetIsContinuous_def SetMayHaveMetatable_def bfm_GetBool_bit[simplified] bit_SetFlag[simplified])

lemma bit_usefulBits: "bit (NOT x_usefulBitsMask) i \<longleftrightarrow> i = 6 \<or> i = 7"
proof -
  have "NOT x_usefulBitsMask = (0xC0 :: u8)" by (simp add: x_usefulBitsMask_def)
  moreover have "bit (0xC0::u8) i \<longleftrightarrow> i = 6 \<or> i = 7"
  proof (cases "i < 8")
    case True
    then have "i \<in> {0,1,2,3,4,5,6,7}" by auto
    then show ?thesis by auto
  qed (auto dest: bit_imp_le_length)
  ultimately show ?thesis by simp
qed

lemma valid_array_type_bits: "valid_array_type a \<longleftrightarrow> \<not> bit a 6 \<and> \<not> bit a 7"
proof
  assume "valid_array_type a"
  then show "\<not> bit a 6 \<and> \<not> bit a 7"
    unfolding valid_array_type_def using bit_usefulBits
    by (metis bit_and_iff bit_0_eq bot_apply bot_bool_def)
next
  assume "\<not> bit a 6 \<and> \<not> bit a 7"
  then show "valid_array_type a" unfolding valid_array_type_def
    by (intro bit_word_eqI) (auto simp: bit_and_iff bit_usefulBits)
qed

lemma valid_array_type_initial [simp]: "valid_array_type GetInitialArrayType"
  by (simp add: valid_array_type_def GetInitialArrayType_def)

lemma at_initial [simp]:
  "ArrayKind GetInitialArrayType = NoButterflyArrayPart" "\<not> HasSparseMap GetInitialArrayType"
  "\<not> SparseMapContainsVectorIndex GetInitialArrayType" "\<not> IsContinuous GetInitialArrayType"
  "\<not> MayHaveMetatable GetInitialArrayType"
  by (simp_all add: ArrayKind_def at_get_defs GetInitialArrayType_def bfm_Get_def bfm_GetBool_def
      word_to_kind_def)

lemma valid_array_type_set [simp]:
  "valid_array_type (SetArrayKind k a) = valid_array_type a"
  "valid_array_type (SetHasSparseMap v a) = valid_array_type a"
  "valid_array_type (SetSparseMapContainsVectorIndex v a) = valid_array_type a"
  "valid_array_type (SetIsContinuous v a) = valid_array_type a"
  "valid_array_type (SetMayHaveMetatable v a) = valid_array_type a"
  by (simp_all add: valid_array_type_bits bit_SetArrayKind SetHasSparseMap_def
      SetSparseMapContainsVectorIndex_def SetIsContinuous_def SetMayHaveMetatable_def
      bit_SetFlag[simplified])

lemma word_to_kind_bits:
  "bit (a::u8) 0 \<longleftrightarrow> ArrayKind a = KInt32 \<or> ArrayKind a = KAny"
  "bit a 1 \<longleftrightarrow> ArrayKind a = KDouble \<or> ArrayKind a = KAny"
proof -
  define w where "w = bfm_Get 0 2 a"
  have b: "bit w 0 = bit a 0" "bit w 1 = bit a 1"
    unfolding w_def by (simp_all add: bit_bfm_Get)
  have "w = take_bit 2 a" unfolding w_def
    by (rule bit_word_eqI) (auto simp: bit_bfm_Get bit_simps)
  then have "unat w < 4" by (simp add: take_bit_eq_mod unat_word_ariths)
  then have "unat w \<in> {0,1,2,3}" by auto
  then have "w = 0 \<or> w = 1 \<or> w = 2 \<or> w = 3" by (auto simp: word_unat_eq_iff)
  then show "bit a 0 \<longleftrightarrow> ArrayKind a = KInt32 \<or> ArrayKind a = KAny"
    "bit a 1 \<longleftrightarrow> ArrayKind a = KDouble \<or> ArrayKind a = KAny"
    unfolding ArrayKind_def w_def[symmetric] b[symmetric]
    by (auto simp: word_to_kind_def)
qed

text \<open>
  The byte of a table holds exactly its five members: two valid array types with the same kind, sparse
  map, vector index, continuity and metatable flags are the same byte, so the code may compare array types
  by comparing the byte.
\<close>

theorem array_type_ext:
  assumes "valid_array_type a" "valid_array_type b"
    and "ArrayKind a = ArrayKind b" "HasSparseMap a = HasSparseMap b"
      "SparseMapContainsVectorIndex a = SparseMapContainsVectorIndex b"
      "IsContinuous a = IsContinuous b" "MayHaveMetatable a = MayHaveMetatable b"
  shows "a = b"
proof (rule bit_word_eqI)
  fix i assume "i < LENGTH(8)"
  then have "i \<in> {0,1,2,3,4,5,6,7}" by auto
  moreover have "bit a 0 = bit b 0" "bit a 1 = bit b 1"
    unfolding word_to_kind_bits using assms(3) by simp_all
  moreover have "bit a 2 = bit b 2" "bit a 3 = bit b 3" "bit a 4 = bit b 4" "bit a 5 = bit b 5"
    using assms(4-7) by (simp_all add: at_get_defs bfm_GetBool_bit[simplified])
  moreover have "bit a 6 = bit b 6" "bit a 7 = bit b 7"
    using assms(1,2) by (simp_all add: valid_array_type_bits)
  ultimately show "bit a i = bit b i" by auto
qed

theorem array_type_ext_witness:
  "SetIsContinuous False (SetIsContinuous True GetInitialArrayType) = GetInitialArrayType"
  by (rule array_type_ext) simp_all

end
