(* ===== verification/Structure.thy ===== *)
theory Structure
  imports TransitionTable ArrayType MathHelper
begin

unbundle bit_operations_syntax

text \<open>
  The hidden classes of \<^verbatim>\<open>runtime/structure.h\<close>. Structures and anchor tables live at addresses of the system heap,
  a bump allocator whose next address is \<open>sh_next\<close>; a structure keeps the last block of its keys itself, reaches
  the preceding full block through a pointer into the structure that owns that block, and finds
  older keys through an anchor table shared along the transition tree. Block pointers are the byte addresses the
  code stores, so the code's arithmetic on them is kept. The tagged union \<^verbatim>\<open>m_transitionTable\<close> is a datatype whose
  outlined table is held by value, since no other object refers to it. An operation returns \<open>None\<close> when
  the system heap is exhausted (the code fails the VM).

  The virtual machine supplies what these operations ask of it: the type and cached hash of a key, the hash of
  primitive values, the metamethod ordinal of a string and the key reserved for the metatable slot.
\<close>

type_synonym gkey = int

record vm_env =
  env_isString :: "gkey \<Rightarrow> bool"
  env_hashLow :: "gkey \<Rightarrow> u32"
  env_hashPrim64 :: "int \<Rightarrow> u64"
  env_hashPrim32 :: "int \<Rightarrow> u64"
  env_metamethodOrd :: "gkey \<Rightarrow> nat option"
  env_specialKey :: gkey

definition x_shiftFromRawOffset :: nat where "x_shiftFromRawOffset = 3"

text \<open>
  \<^verbatim>\<open>StructureKeyHashHelper\<close>: a key is the 32-bit \<^verbatim>\<open>GeneralHeapPointer\<close>; \<^verbatim>\<open>key.m_value\<close> of the
  corresponding \<^verbatim>\<open>UserHeapPointer\<close> is that value shifted back.
\<close>

definition GetHashValueForStringKey :: "vm_env \<Rightarrow> gkey \<Rightarrow> u32" where
  "GetHashValueForStringKey env stringKey = env_hashLow env stringKey"

definition GetHashValueForMaybeNonStringKey :: "vm_env \<Rightarrow> gkey \<Rightarrow> u32" where
  "GetHashValueForMaybeNonStringKey env key =
     (if env_isString env key then GetHashValueForStringKey env key
      else ucast (env_hashPrim64 env (push_bit x_shiftFromRawOffset key)))"

section \<open>Data\<close>

definition x_log2_hiddenClassBlockSize :: nat where "x_log2_hiddenClassBlockSize = 4"
definition x_hiddenClassBlockSize :: nat where "x_hiddenClassBlockSize = 2 ^ x_log2_hiddenClassBlockSize"
definition x_maxNumSlots :: nat where "x_maxNumSlots = 253"

record anchor_entry =
  ae_ordinal :: nat
  ae_checkHash :: u8

definition x_hashTableEmptyValue :: nat where "x_hashTableEmptyValue = 0xff"

record anchor_table =
  a_numBlocks :: nat
  a_numTotalSlots :: nat
  a_hashTableMask :: int
  a_hashTable :: "anchor_entry list"
  a_blockPointers :: "sys_ptr list"

record inline_entry =
  ie_checkHash :: u8
  ie_ordinal :: int

definition x_inlineHashTableEmptyValue :: int where "x_inlineHashTableEmptyValue = 0x7f"

datatype TransitionKind =
    BadTransitionKind | AddProperty | AddPropertyAndGrowPropertyStorageCapacity
  | AddMetaTable | TransitToPolyMetaTable | TransitToPolyMetaTableAndGrowPropertyStorageCapacity
  | RemoveMetaTable | UpdateArrayTypeKind

datatype transition_ref = NoTransition | OnlyChild sys_ptr | Outlined transition_table

record struct =
  m_numSlots :: nat
  m_nonFullBlockLen :: nat
  m_anchorHashTable :: sys_ptr
  m_arrayType :: u8
  m_knownNonexistentMetamethods :: u16
  m_inlineHashTableMask :: nat
  m_inlineNamedStorageCapacity :: nat
  m_butterflyNamedStorageCapacity :: nat
  m_parentEdgeTransitionKind :: TransitionKind
  m_parent :: sys_ptr
  m_metatable :: int
  m_transitionTable :: transition_ref
  m_values :: "gkey list"
  m_finalFullBlockPointer :: sys_ptr
  m_inlineHashTable :: "inline_entry list"

record sheap =
  sh_next :: nat
  sh_structs :: "sys_ptr \<rightharpoonup> struct"
  sh_anchors :: "sys_ptr \<rightharpoonup> anchor_table"

definition struct_at :: "sheap \<Rightarrow> sys_ptr \<Rightarrow> struct" where
  "struct_at sh p = the (sh_structs sh p)"

definition anchor_at :: "sheap \<Rightarrow> sys_ptr \<Rightarrow> anchor_table" where
  "anchor_at sh p = the (sh_anchors sh p)"

definition set_struct :: "sys_ptr \<Rightarrow> struct \<Rightarrow> sheap \<Rightarrow> sheap" where
  "set_struct p s sh = sh\<lparr>sh_structs := (sh_structs sh)(p \<mapsto> s)\<rparr>"

definition set_anchor :: "sys_ptr \<Rightarrow> anchor_table \<Rightarrow> sheap \<Rightarrow> sheap" where
  "set_anchor p t sh = sh\<lparr>sh_anchors := (sh_anchors sh)(p \<mapsto> t)\<rparr>"

text \<open>\<^verbatim>\<open>VM::AllocFromSystemHeap\<close>.\<close>

definition AllocFromSystemHeap :: "sheap \<Rightarrow> nat \<Rightarrow> (sheap \<times> sys_ptr) option" where
  "AllocFromSystemHeap sh len =
     (if sh_next sh + len < 2 ^ 32 then Some (sh\<lparr>sh_next := sh_next sh + len\<rparr>, sh_next sh) else None)"

definition round8 :: "nat \<Rightarrow> nat" where
  "round8 n = (n + 7) div 8 * 8"

text \<open>Byte offsets and sizes of the two objects' trailing arrays.\<close>

definition OffsetOfTrailingVarLengthArray :: nat where "OffsetOfTrailingVarLengthArray = 32"
definition anchor_OffsetOfTrailingVarLengthArray :: nat where
  "anchor_OffsetOfTrailingVarLengthArray = 8"
definition sizeof_GeneralHeapPointer :: nat where "sizeof_GeneralHeapPointer = 4"
definition sizeof_SystemHeapPointer :: nat where "sizeof_SystemHeapPointer = 4"
definition sizeof_HashTableEntry :: nat where "sizeof_HashTableEntry = 2"

section \<open>Blocks\<close>

definition ComputeNonFullBlockLength :: "nat \<Rightarrow> nat" where
  "ComputeNonFullBlockLength numSlots =
     (if numSlots = 0 then 0 else ((numSlots - 1) AND (x_hiddenClassBlockSize - 1)) + 1)"

definition HasFinalFullBlockPointer :: "nat \<Rightarrow> bool" where
  "HasFinalFullBlockPointer numSlots \<longleftrightarrow>
     numSlots \<ge> x_hiddenClassBlockSize \<and> numSlots mod x_hiddenClassBlockSize \<noteq> 0"

definition ComputeTrailingVarLengthArrayLengthBytes :: "nat \<Rightarrow> nat" where
  "ComputeTrailingVarLengthArrayLengthBytes numSlots =
     ComputeNonFullBlockLength numSlots * sizeof_GeneralHeapPointer +
     (if HasFinalFullBlockPointer numSlots then sizeof_SystemHeapPointer else 0)"

definition GetFinalFullBlockPointer :: "struct \<Rightarrow> sys_ptr" where
  "GetFinalFullBlockPointer self = m_finalFullBlockPointer self"

definition GetHiddenClassOfFullBlockPointer :: "struct \<Rightarrow> sys_ptr" where
  "GetHiddenClassOfFullBlockPointer self =
     GetFinalFullBlockPointer self - sizeof_GeneralHeapPointer * x_hiddenClassBlockSize
       - OffsetOfTrailingVarLengthArray"

text \<open>
  Reading a key through a pointer to the beginning of a block, as the anchor table does, and through a pointer to
  the end of a block with a negative index, as a structure does.
\<close>

definition read_block :: "sheap \<Rightarrow> sys_ptr \<Rightarrow> nat \<Rightarrow> gkey" where
  "read_block sh p offset = m_values (struct_at sh (p - OffsetOfTrailingVarLengthArray)) ! offset"

definition read_block_end :: "sheap \<Rightarrow> sys_ptr \<Rightarrow> int \<Rightarrow> gkey" where
  "read_block_end sh u ord =
     read_block sh (u - sizeof_GeneralHeapPointer * x_hiddenClassBlockSize)
       (nat (int x_hiddenClassBlockSize + ord))"

section \<open>StructureAnchorHashTable\<close>

definition GetPropertyNameAtSlot :: "sheap \<Rightarrow> anchor_table \<Rightarrow> nat \<Rightarrow> gkey" where
  "GetPropertyNameAtSlot sh self ordinal =
     (let blockOrd = drop_bit x_log2_hiddenClassBlockSize ordinal;
          offset = ordinal AND (x_hiddenClassBlockSize - 1);
          p = a_blockPointers self ! blockOrd
      in read_block sh p offset)"

definition GetHashTableSizeFromHashTableMask :: "int \<Rightarrow> nat" where
  "GetHashTableSizeFromHashTableMask msk = nat (NOT msk + 1)"

definition anchor_GetSlotOrdinalFromPropertyNameAndHash ::
  "sheap \<Rightarrow> anchor_table \<Rightarrow> gkey \<Rightarrow> u32 \<Rightarrow> nat option option" where
  "anchor_GetSlotOrdinalFromPropertyNameAndHash sh self key hashValue =
     (let hashTableSize = GetHashTableSizeFromHashTableMask (a_hashTableMask self);
          checkHash = (ucast hashValue :: u8);
          hashSlot = int (unat (drop_bit 8 hashValue)) OR a_hashTableMask self
      in probe (\<lambda>p. let e = a_hashTable self ! p in
             if ae_ordinal e = x_hashTableEmptyValue then Some None
             else if ae_checkHash e = checkHash \<and> GetPropertyNameAtSlot sh self (ae_ordinal e) = key
               then Some (Some (ae_ordinal e))
             else None)
           (bwd_elem_step hashTableSize) hashTableSize (bwd_elem hashTableSize hashSlot))"

definition ae_occupied :: "anchor_entry \<Rightarrow> unit option" where
  "ae_occupied e = (if ae_ordinal e \<noteq> x_hashTableEmptyValue then Some () else None)"

text \<open>The insertion that both \<^verbatim>\<open>Create\<close> and \<^verbatim>\<open>CloneHashTableTo\<close> write out for one key.\<close>

definition anchor_insert :: "vm_env \<Rightarrow> nat \<Rightarrow> gkey \<Rightarrow> anchor_entry list \<Rightarrow> anchor_entry list option" where
  "anchor_insert env ordinal eu ht =
     (let hashValue = GetHashValueForMaybeNonStringKey env eu;
          hashTableMask = NOT (int (length ht) - 1);
          hashSlot = int (unat (drop_bit 8 hashValue)) OR hashTableMask
      in tbl_put ae_occupied (bwd_elem_step (length ht)) ht (bwd_elem (length ht) hashSlot)
           \<lparr>ae_ordinal = ordinal, ae_checkHash = ucast hashValue\<rparr>)"

definition anchor_memset :: "nat \<Rightarrow> anchor_entry list" where
  "anchor_memset n = replicate n \<lparr>ae_ordinal = x_hashTableEmptyValue, ae_checkHash = 0xff\<rparr>"

definition CloneHashTableTo :: "vm_env \<Rightarrow> sheap \<Rightarrow> anchor_table \<Rightarrow> nat \<Rightarrow> anchor_entry list option" where
  "CloneHashTableTo env sh self htSize =
     (let selfHtSize = GetHashTableSizeFromHashTableMask (a_hashTableMask self) in
      if htSize = selfHtSize then Some (a_hashTable self)
      else fold_opt (\<lambda>(blockOrd, offset).
               anchor_insert env (push_bit x_log2_hiddenClassBlockSize blockOrd OR offset)
                 (read_block sh (a_blockPointers self ! blockOrd) offset))
             [(b, off). b \<leftarrow> [0..<a_numBlocks self], off \<leftarrow> [0..<x_hiddenClassBlockSize]]
             (anchor_memset htSize))"

definition anchor_Create :: "vm_env \<Rightarrow> sheap \<Rightarrow> sys_ptr \<Rightarrow> (sheap \<times> sys_ptr) option" where
  "anchor_Create env sh shcp =
     (let shc = struct_at sh shcp;
          numElements = m_numSlots shc;
          numBlocks = drop_bit x_log2_hiddenClassBlockSize numElements;
          hashTableSize = unat (RoundUpToPowerOfTwo (of_nat numElements)) * 2;
          allocationSize = round8 (hashTableSize * sizeof_HashTableEntry +
            anchor_OffsetOfTrailingVarLengthArray + numBlocks * sizeof_SystemHeapPointer)
      in case AllocFromSystemHeap sh allocationSize of None \<Rightarrow> None
      | Some (sh, objectAddressStart) \<Rightarrow>
        (let r = objectAddressStart + hashTableSize * sizeof_HashTableEntry;
             oldAnchor = m_anchorHashTable shc
         in case (if oldAnchor \<noteq> 0 then CloneHashTableTo env sh (anchor_at sh oldAnchor) hashTableSize
                  else Some (anchor_memset hashTableSize)) of None \<Rightarrow> None
         | Some ht \<Rightarrow>
           (case fold_opt (\<lambda>i. anchor_insert env (numElements - x_hiddenClassBlockSize + i) (m_values shc ! i))
                   [0..<x_hiddenClassBlockSize] ht of None \<Rightarrow> None
            | Some ht \<Rightarrow>
              Some (set_anchor r
                \<lparr>a_numBlocks = numBlocks, a_numTotalSlots = numElements,
                 a_hashTableMask = NOT (int hashTableSize - 1), a_hashTable = ht,
                 a_blockPointers =
                   (if oldAnchor \<noteq> 0 then a_blockPointers (anchor_at sh oldAnchor) else [])
                     @ [shcp + OffsetOfTrailingVarLengthArray]\<rparr> sh, r))))"

section \<open>Lookup in a structure\<close>

definition IsAnchorTableContainsFinalBlock :: "sheap \<Rightarrow> struct \<Rightarrow> bool" where
  "IsAnchorTableContainsFinalBlock sh self =
     (let p = m_anchorHashTable self in
      if p = 0 then False
      else let lim = m_numSlots self - m_numSlots self mod x_hiddenClassBlockSize
           in a_numTotalSlots (anchor_at sh p) = lim)"

definition GetPropertyNameFromInlineHashTableOrdinal :: "sheap \<Rightarrow> struct \<Rightarrow> int \<Rightarrow> gkey" where
  "GetPropertyNameFromInlineHashTableOrdinal sh self ordinal =
     (if ordinal \<ge> 0 then m_values self ! nat ordinal
      else read_block_end sh (GetFinalFullBlockPointer self) ordinal)"

definition GetPropertySlotFromInlineHashTableOrdinal :: "struct \<Rightarrow> int \<Rightarrow> nat" where
  "GetPropertySlotFromInlineHashTableOrdinal self ordinal =
     nat (int (m_numSlots self - m_nonFullBlockLen self) + ordinal)"

definition QueryInlineHashTable :: "sheap \<Rightarrow> struct \<Rightarrow> gkey \<Rightarrow> u16 \<Rightarrow> nat option option" where
  "QueryInlineHashTable sh self key hashvalue =
     (let hashMask = NOT (int (m_inlineHashTableMask self));
          hashTableSize = m_inlineHashTableMask self + 1;
          hashSlot = int (unat (drop_bit 8 hashvalue)) OR hashMask;
          checkHash = (ucast hashvalue :: u8)
      in probe (\<lambda>p. let e = m_inlineHashTable self ! p in
             if ie_ordinal e = x_inlineHashTableEmptyValue then Some None
             else if ie_checkHash e = checkHash \<and>
                 GetPropertyNameFromInlineHashTableOrdinal sh self (ie_ordinal e) = key
               then Some (Some (GetPropertySlotFromInlineHashTableOrdinal self (ie_ordinal e)))
             else None)
           (bwd_elem_step hashTableSize) hashTableSize (bwd_elem hashTableSize hashSlot))"

definition GetSlotOrdinalFromPropertyNameAndHash ::
  "sheap \<Rightarrow> struct \<Rightarrow> gkey \<Rightarrow> u32 \<Rightarrow> nat option option" where
  "GetSlotOrdinalFromPropertyNameAndHash sh self key hashvalue =
     (case QueryInlineHashTable sh self key (ucast hashvalue) of
        None \<Rightarrow> None
      | Some (Some slot) \<Rightarrow> Some (Some slot)
      | Some None \<Rightarrow>
          (let anchorHt = m_anchorHashTable self in
           if anchorHt = 0 then Some None
           else anchor_GetSlotOrdinalFromPropertyNameAndHash sh (anchor_at sh anchorHt) key hashvalue))"

definition GetSlotOrdinalFromMaybeNonStringProperty ::
  "vm_env \<Rightarrow> sheap \<Rightarrow> struct \<Rightarrow> gkey \<Rightarrow> nat option option" where
  "GetSlotOrdinalFromMaybeNonStringProperty env sh self key =
     GetSlotOrdinalFromPropertyNameAndHash sh self key (GetHashValueForMaybeNonStringKey env key)"

definition GetSlotOrdinalFromStringProperty ::
  "vm_env \<Rightarrow> sheap \<Rightarrow> struct \<Rightarrow> gkey \<Rightarrow> nat option option" where
  "GetSlotOrdinalFromStringProperty env sh self stringKey =
     GetSlotOrdinalFromPropertyNameAndHash sh self stringKey (GetHashValueForStringKey env stringKey)"

definition GetLastAddedKey :: "struct \<Rightarrow> gkey" where
  "GetLastAddedKey self = m_values self ! (ComputeNonFullBlockLength (m_numSlots self) - 1)"

definition GetKeyForSlotOrdinal :: "sheap \<Rightarrow> struct \<Rightarrow> nat \<Rightarrow> gkey" where
  "GetKeyForSlotOrdinal sh self slotOrdinal =
     (let p = m_anchorHashTable self in
      if p \<noteq> 0 \<and> slotOrdinal < a_numTotalSlots (anchor_at sh p)
      then GetPropertyNameAtSlot sh (anchor_at sh p) slotOrdinal
      else let lim = m_numSlots self - m_nonFullBlockLen self in
           if slotOrdinal \<ge> lim then m_values self ! (slotOrdinal - lim)
           else read_block_end sh (GetFinalFullBlockPointer self) (int slotOrdinal - int lim))"

section \<open>ButterflyNamedStorageGrowthPolicy\<close>

definition x_initialMinimumButterflyCapacity :: nat where "x_initialMinimumButterflyCapacity = 4"
definition x_butterflyCapacityFromInlineCapacityFactor :: nat where
  "x_butterflyCapacityFromInlineCapacityFactor = 2"
definition x_butterflyNamedStorageCapacityGrowthFactor :: nat where
  "x_butterflyNamedStorageCapacityGrowthFactor = 2"

definition ComputeInitialButterflyCapacityForDictionary :: "nat \<Rightarrow> nat" where
  "ComputeInitialButterflyCapacityForDictionary inlineNamedStorageCapacity =
     max (inlineNamedStorageCapacity div x_butterflyCapacityFromInlineCapacityFactor)
       x_initialMinimumButterflyCapacity"

definition ComputeNextButterflyCapacityImpl :: "nat \<Rightarrow> nat" where
  "ComputeNextButterflyCapacityImpl curButterflyCapacity =
     curButterflyCapacity * x_butterflyNamedStorageCapacityGrowthFactor"

text \<open>\<open>None\<close> is the failure of the VM with "too many named properties".\<close>

definition ComputeNextButterflyCapacityForDictionaryOrFail :: "nat \<Rightarrow> nat \<Rightarrow> nat option" where
  "ComputeNextButterflyCapacityForDictionaryOrFail maxNamedStorageCapacity curButterflyCapacity =
     (let capacity = ComputeNextButterflyCapacityImpl curButterflyCapacity in
      if capacity > maxNamedStorageCapacity
      then if curButterflyCapacity \<ge> maxNamedStorageCapacity then None
           else Some maxNamedStorageCapacity
      else Some capacity)"

definition ClampCapacityForStructure :: "nat \<Rightarrow> nat \<Rightarrow> nat \<Rightarrow> nat" where
  "ClampCapacityForStructure capacity inlineNamedStorageCapacity maxPropertySlots =
     (let capacityLimit = maxPropertySlots + 1 - inlineNamedStorageCapacity in
      if capacity > capacityLimit then capacityLimit else capacity)"

definition ComputeInitialButterflyCapacityForStructure :: "nat \<Rightarrow> nat \<Rightarrow> nat" where
  "ComputeInitialButterflyCapacityForStructure inlineNamedStorageCapacity maxPropertySlots =
     ClampCapacityForStructure (ComputeInitialButterflyCapacityForDictionary inlineNamedStorageCapacity)
       inlineNamedStorageCapacity maxPropertySlots"

definition ComputeNextButterflyCapacityForStructure :: "nat \<Rightarrow> nat \<Rightarrow> nat \<Rightarrow> nat" where
  "ComputeNextButterflyCapacityForStructure inlineNamedStorageCapacity curButterflyCapacity maxPropertySlots =
     ClampCapacityForStructure (ComputeNextButterflyCapacityImpl curButterflyCapacity)
       inlineNamedStorageCapacity maxPropertySlots"

section \<open>Creating structures\<close>

definition inline_memset :: "nat \<Rightarrow> inline_entry list" where
  "inline_memset n = replicate n \<lparr>ie_checkHash = 0x7f, ie_ordinal = x_inlineHashTableEmptyValue\<rparr>"

definition BuildNewAnchorTableIfNecessary :: "vm_env \<Rightarrow> sheap \<Rightarrow> sys_ptr \<Rightarrow> (sheap \<times> sys_ptr) option" where
  "BuildNewAnchorTableIfNecessary env sh self =
     (if \<not> IsAnchorTableContainsFinalBlock sh (struct_at sh self) then
        (case anchor_Create env sh self of None \<Rightarrow> None
         | Some (sh, newAnchorTable) \<Rightarrow>
             (let s = struct_at sh self in
              Some (set_struct self
                (s\<lparr>m_anchorHashTable := newAnchorTable,
                   m_inlineHashTable := inline_memset (m_inlineHashTableMask s + 1)\<rparr>) sh, newAnchorTable)))
      else Some (sh, m_anchorHashTable (struct_at sh self)))"

datatype SlotAdditionKind = AddSlotForProperty | AddSlotForPolyMetatable | NoSlotAdded

text \<open>The locals that the first part of \<^verbatim>\<open>CreateStructureForTransitionImpl\<close> works out, up to \<^verbatim>\<open>end_setup\<close>.\<close>

record transition_setup =
  ts_anchor :: sys_ptr
  ts_copyLen :: nat
  ts_hasFinalBlockPointer :: bool
  ts_mayMemcpy :: bool
  ts_mustContainFinalBlock :: bool
  ts_finalBlockPointer :: sys_ptr

definition setup_fills_block :: "vm_env \<Rightarrow> sheap \<Rightarrow> sys_ptr \<Rightarrow> (sheap \<times> transition_setup) option" where
  "setup_fills_block env sh self =
     (let s = struct_at sh self in
      case (if m_numSlots s \<ge> x_hiddenClassBlockSize
            then BuildNewAnchorTableIfNecessary env sh (GetHiddenClassOfFullBlockPointer s)
            else Some (sh, 0)) of None \<Rightarrow> None
      | Some (sh, anchorTableForNewNode) \<Rightarrow>
          Some (sh, \<lparr>ts_anchor = anchorTableForNewNode,
                     ts_copyLen = x_hiddenClassBlockSize - 1,
                     ts_hasFinalBlockPointer = False,
                     ts_mayMemcpy = \<not> IsAnchorTableContainsFinalBlock sh (struct_at sh self),
                     ts_mustContainFinalBlock = False,
                     ts_finalBlockPointer = 0\<rparr>))"

definition setup_new_block :: "sheap \<Rightarrow> sys_ptr \<Rightarrow> transition_setup" where
  "setup_new_block sh self =
     (let s = struct_at sh self in
      \<lparr>ts_anchor = m_anchorHashTable s,
       ts_copyLen = 0,
       ts_hasFinalBlockPointer = True,
       ts_mayMemcpy = False,
       ts_mustContainFinalBlock = \<not> IsAnchorTableContainsFinalBlock sh s,
       ts_finalBlockPointer = self + OffsetOfTrailingVarLengthArray
         + x_hiddenClassBlockSize * sizeof_GeneralHeapPointer\<rparr>)"

definition setup_general :: "sheap \<Rightarrow> sys_ptr \<Rightarrow> transition_setup" where
  "setup_general sh self =
     (let s = struct_at sh self;
          hasFinalBlockPointer = HasFinalFullBlockPointer (m_numSlots s);
          base = \<lparr>ts_anchor = m_anchorHashTable s, ts_copyLen = m_nonFullBlockLen s,
                  ts_hasFinalBlockPointer = hasFinalBlockPointer, ts_mayMemcpy = True,
                  ts_mustContainFinalBlock = False,
                  ts_finalBlockPointer = (if hasFinalBlockPointer then GetFinalFullBlockPointer s else 0)\<rparr>
      in if IsAnchorTableContainsFinalBlock sh s then base
         else if hasFinalBlockPointer \<and>
             IsAnchorTableContainsFinalBlock sh (struct_at sh (GetHiddenClassOfFullBlockPointer s))
           then base\<lparr>ts_anchor := m_anchorHashTable (struct_at sh (GetHiddenClassOfFullBlockPointer s)),
                     ts_mayMemcpy := False\<rparr>
           else base\<lparr>ts_mustContainFinalBlock := hasFinalBlockPointer\<rparr>)"

definition transition_setup_for ::
  "vm_env \<Rightarrow> sheap \<Rightarrow> sys_ptr \<Rightarrow> bool \<Rightarrow> (sheap \<times> transition_setup) option" where
  "transition_setup_for env sh self shouldAddKey =
     (let len = m_nonFullBlockLen (struct_at sh self) in
      if shouldAddKey \<and> len = x_hiddenClassBlockSize - 1 then setup_fills_block env sh self
      else if shouldAddKey \<and> len = x_hiddenClassBlockSize then Some (sh, setup_new_block sh self)
      else Some (sh, setup_general sh self))"

text \<open>The butterfly space check: \<open>Some c\<close> when the butterfly expands to capacity \<open>c\<close>.\<close>

definition butterfly_expansion :: "struct \<Rightarrow> bool \<Rightarrow> nat option" where
  "butterfly_expansion s shouldAddKey =
     (if shouldAddKey then
        if m_butterflyNamedStorageCapacity s = 0 then
          if m_numSlots s = m_inlineNamedStorageCapacity s then
            Some (ComputeInitialButterflyCapacityForStructure (m_inlineNamedStorageCapacity s) x_maxNumSlots)
          else None
        else
          let usedLen = m_numSlots s - m_inlineNamedStorageCapacity s in
          if usedLen = m_butterflyNamedStorageCapacity s then
            Some (ComputeNextButterflyCapacityForStructure (m_inlineNamedStorageCapacity s)
              (m_butterflyNamedStorageCapacity s) x_maxNumSlots)
          else None
      else None)"

definition inline_element_count :: "sheap \<Rightarrow> struct \<Rightarrow> transition_setup \<Rightarrow> bool \<Rightarrow> nat" where
  "inline_element_count sh s ts shouldAddKey =
     (if ts_copyLen ts \<noteq> x_hiddenClassBlockSize then
        ts_copyLen ts + of_bool shouldAddKey +
        (if ts_hasFinalBlockPointer ts \<and> ts_mustContainFinalBlock ts then x_hiddenClassBlockSize else 0)
      else if \<not> IsAnchorTableContainsFinalBlock sh s then x_hiddenClassBlockSize else 0)"

definition inline_ht_size :: "nat \<Rightarrow> nat" where
  "inline_ht_size numElements =
     (let htSize = unat (RoundUpToPowerOfTwo (of_nat numElements)) * 2 in
      if htSize < 8 then 8 else htSize)"

definition ie_occupied :: "inline_entry \<Rightarrow> unit option" where
  "ie_occupied e = (if ie_ordinal e \<noteq> x_inlineHashTableEmptyValue then Some () else None)"

text \<open>The lambda \<^verbatim>\<open>insertNonExistentElementIntoInlineHashTable\<close>.\<close>

definition inline_insert :: "vm_env \<Rightarrow> gkey \<Rightarrow> int \<Rightarrow> inline_entry list \<Rightarrow> inline_entry list option" where
  "inline_insert env element ordinalOfElement ht =
     (let hashOfElement = (ucast (GetHashValueForMaybeNonStringKey env element) :: u16);
          htMask = NOT (int (length ht) - 1);
          hashSlot = int (unat (drop_bit 8 hashOfElement)) OR htMask
      in tbl_put ie_occupied (bwd_elem_step (length ht)) ht (bwd_elem (length ht) hashSlot)
           \<lparr>ie_checkHash = ucast hashOfElement, ie_ordinal = ordinalOfElement\<rparr>)"

definition populate_inline_hash_table ::
  "vm_env \<Rightarrow> sheap \<Rightarrow> struct \<Rightarrow> transition_setup \<Rightarrow> bool \<Rightarrow> gkey \<Rightarrow> nat \<Rightarrow> gkey list \<Rightarrow>
   inline_entry list option" where
  "populate_inline_hash_table env sh s ts shouldAddKey key htSize newValues =
     (if ts_mayMemcpy ts \<and> htSize - 1 = m_inlineHashTableMask s then
        (if shouldAddKey then inline_insert env key (int (ts_copyLen ts)) (m_inlineHashTable s)
         else Some (m_inlineHashTable s))
      else
        (case (if ts_mustContainFinalBlock ts
               then fold_opt (\<lambda>i. inline_insert env (read_block_end sh (ts_finalBlockPointer ts) i) i)
                      (map (\<lambda>j. int j - int x_hiddenClassBlockSize) [0..<x_hiddenClassBlockSize])
                      (inline_memset htSize)
               else Some (inline_memset htSize)) of None \<Rightarrow> None
         | Some ht \<Rightarrow>
             if ts_copyLen ts = x_hiddenClassBlockSize \<and> IsAnchorTableContainsFinalBlock sh s then Some ht
             else fold_opt (\<lambda>i. inline_insert env (newValues ! i) (int i)) [0..<length newValues] ht))"

definition transition_kind :: "SlotAdditionKind \<Rightarrow> bool \<Rightarrow> TransitionKind" where
  "transition_kind slotAdditionKind needButterflyExpansion =
     (if needButterflyExpansion then
        (if slotAdditionKind = AddSlotForProperty then AddPropertyAndGrowPropertyStorageCapacity
         else TransitToPolyMetaTableAndGrowPropertyStorageCapacity)
      else (case slotAdditionKind of
          NoSlotAdded \<Rightarrow> BadTransitionKind
        | AddSlotForProperty \<Rightarrow> AddProperty
        | AddSlotForPolyMetatable \<Rightarrow> TransitToPolyMetaTable))"

definition metamethods_after :: "vm_env \<Rightarrow> SlotAdditionKind \<Rightarrow> gkey \<Rightarrow> u16 \<Rightarrow> u16" where
  "metamethods_after env slotAdditionKind key known =
     (if slotAdditionKind = AddSlotForProperty \<and> env_isString env key then
        (case env_metamethodOrd env key of None \<Rightarrow> known
         | Some metamethodOrd \<Rightarrow> known AND NOT (push_bit metamethodOrd 1))
      else known)"

definition CreateStructureForTransitionImpl ::
  "vm_env \<Rightarrow> sheap \<Rightarrow> sys_ptr \<Rightarrow> SlotAdditionKind \<Rightarrow> gkey \<Rightarrow> (sheap \<times> sys_ptr) option" where
  "CreateStructureForTransitionImpl env sh self slotAdditionKind key =
     (let shouldAddKey = (slotAdditionKind \<noteq> NoSlotAdded) in
      case transition_setup_for env sh self shouldAddKey of None \<Rightarrow> None
      | Some (sh, ts) \<Rightarrow>
        (let s = struct_at sh self;
             expansion = butterfly_expansion s shouldAddKey;
             htSize = inline_ht_size (inline_element_count sh s ts shouldAddKey);
             newNumSlots = m_numSlots s + of_bool shouldAddKey;
             totalObjectLengthBytes = round8 (sizeof_HashTableEntry * htSize +
               OffsetOfTrailingVarLengthArray + ComputeTrailingVarLengthArrayLengthBytes newNumSlots)
         in case AllocFromSystemHeap sh totalObjectLengthBytes of None \<Rightarrow> None
         | Some (sh, objectAddressStart) \<Rightarrow>
           (let r = objectAddressStart + sizeof_HashTableEntry * htSize;
                newValues = take (ts_copyLen ts) (m_values s) @ (if shouldAddKey then [key] else [])
            in case populate_inline_hash_table env sh s ts shouldAddKey key htSize newValues of None \<Rightarrow> None
            | Some ht \<Rightarrow>
              Some (set_struct r
                \<lparr>m_numSlots = newNumSlots,
                 m_nonFullBlockLen = ts_copyLen ts + of_bool shouldAddKey,
                 m_anchorHashTable = ts_anchor ts,
                 m_arrayType = (if slotAdditionKind = AddSlotForPolyMetatable
                   then SetMayHaveMetatable True (m_arrayType s) else m_arrayType s),
                 m_knownNonexistentMetamethods =
                   metamethods_after env slotAdditionKind key (m_knownNonexistentMetamethods s),
                 m_inlineHashTableMask = htSize - 1,
                 m_inlineNamedStorageCapacity = m_inlineNamedStorageCapacity s,
                 m_butterflyNamedStorageCapacity =
                   (case expansion of Some c \<Rightarrow> c | None \<Rightarrow> m_butterflyNamedStorageCapacity s),
                 m_parentEdgeTransitionKind = transition_kind slotAdditionKind (expansion \<noteq> None),
                 m_parent = self,
                 m_metatable = (if slotAdditionKind = AddSlotForPolyMetatable then int newNumSlots
                   else m_metatable s),
                 m_transitionTable = NoTransition,
                 m_values = newValues,
                 m_finalFullBlockPointer =
                   (if ts_hasFinalBlockPointer ts then ts_finalBlockPointer ts else 0),
                 m_inlineHashTable = ht\<rparr> sh, r))))"

definition x_luaMetamethodBitVectorFullMask :: u16 where "x_luaMetamethodBitVectorFullMask = 0xFFFF"

definition CreateInitialStructure :: "sheap \<Rightarrow> nat \<Rightarrow> (sheap \<times> sys_ptr) option" where
  "CreateInitialStructure sh inlineCapacity =
     (let htSize = 8;
          totalObjectLengthBytes = round8 (sizeof_HashTableEntry * htSize +
            OffsetOfTrailingVarLengthArray + ComputeTrailingVarLengthArrayLengthBytes 0)
      in case AllocFromSystemHeap sh totalObjectLengthBytes of None \<Rightarrow> None
      | Some (sh, objectAddressStart) \<Rightarrow>
        (let r = objectAddressStart + sizeof_HashTableEntry * htSize in
         Some (set_struct r
           \<lparr>m_numSlots = 0, m_nonFullBlockLen = 0, m_anchorHashTable = 0,
            m_arrayType = GetInitialArrayType,
            m_knownNonexistentMetamethods = x_luaMetamethodBitVectorFullMask,
            m_inlineHashTableMask = htSize - 1,
            m_inlineNamedStorageCapacity = inlineCapacity,
            m_butterflyNamedStorageCapacity = 0,
            m_parentEdgeTransitionKind = BadTransitionKind,
            m_parent = 0, m_metatable = 0, m_transitionTable = NoTransition,
            m_values = [], m_finalFullBlockPointer = 0,
            m_inlineHashTable = inline_memset htSize\<rparr> sh, r)))"

end
