(* ===== verification/StructureInv.thy ===== *)
theory StructureInv
  imports Structure
begin

unbundle bit_operations_syntax

text \<open>
  The invariant of the structure heap and the correctness of lookup. The ghost function \<open>K\<close> gives the abstract
  value of every structure, the list of its keys in slot order: the path from the root of the
  transition tree that the opening comment of \<^verbatim>\<open>runtime/structure.h\<close> speaks of. The invariant says how the block,
  the final full block pointer, the anchor table and the inline table represent that list.
\<close>

abbreviation H :: "vm_env \<Rightarrow> gkey \<Rightarrow> u32" where "H \<equiv> GetHashValueForMaybeNonStringKey"

definition ihash :: "vm_env \<Rightarrow> gkey \<Rightarrow> nat" where
  "ihash env k = unat (drop_bit 8 (ucast (H env k) :: u16))"

definition ahash :: "vm_env \<Rightarrow> gkey \<Rightarrow> nat" where
  "ahash env k = unat (drop_bit 8 (H env k))"

definition ie_key :: "gkey list \<Rightarrow> nat \<Rightarrow> inline_entry \<Rightarrow> gkey option" where
  "ie_key ks base e = (if ie_ordinal e \<noteq> x_inlineHashTableEmptyValue
     then Some (ks ! nat (int base + ie_ordinal e)) else None)"

definition inline_entry_for :: "vm_env \<Rightarrow> gkey list \<Rightarrow> nat \<Rightarrow> nat \<Rightarrow> inline_entry" where
  "inline_entry_for env ks base i =
     \<lparr>ie_checkHash = ucast (ucast (H env (ks ! i)) :: u16), ie_ordinal = int i - int base\<rparr>"

definition ae_key :: "gkey list \<Rightarrow> anchor_entry \<Rightarrow> gkey option" where
  "ae_key ks e = (if ae_ordinal e \<noteq> x_hashTableEmptyValue then Some (ks ! ae_ordinal e) else None)"

definition anchor_entry_for :: "vm_env \<Rightarrow> gkey list \<Rightarrow> nat \<Rightarrow> anchor_entry" where
  "anchor_entry_for env ks i = \<lparr>ae_ordinal = i, ae_checkHash = ucast (H env (ks ! i))\<rparr>"

abbreviation itbl :: "vm_env \<Rightarrow> gkey list \<Rightarrow> nat \<Rightarrow> nat \<Rightarrow> inline_entry list \<Rightarrow> inline_entry set \<Rightarrow> bool" where
  "itbl env ks base m \<equiv> tbl (2 ^ m) (bwd_start (ihash env) (2 ^ m)) (bwd_elem_step (2 ^ m)) (ie_key ks base)"

abbreviation atbl :: "vm_env \<Rightarrow> gkey list \<Rightarrow> nat \<Rightarrow> anchor_entry list \<Rightarrow> anchor_entry set \<Rightarrow> bool" where
  "atbl env ks m \<equiv> tbl (2 ^ m) (bwd_start (ahash env) (2 ^ m)) (bwd_elem_step (2 ^ m)) (ae_key ks)"

definition block_at :: "sheap \<Rightarrow> sys_ptr \<Rightarrow> gkey list \<Rightarrow> bool" where
  "block_at sh p vs \<longleftrightarrow> (\<exists>a s. p = a + OffsetOfTrailingVarLengthArray \<and> sh_structs sh a = Some s \<and> m_values s = vs)"

definition wf_anchor :: "vm_env \<Rightarrow> sheap \<Rightarrow> anchor_table \<Rightarrow> gkey list \<Rightarrow> bool" where
  "wf_anchor env sh at ks \<longleftrightarrow>
     a_numTotalSlots at = length ks \<and> length ks = 16 * a_numBlocks at \<and> length ks \<le> 254 \<and>
     length (a_blockPointers at) = a_numBlocks at \<and>
     (\<forall>b<a_numBlocks at. block_at sh (a_blockPointers at ! b) (take 16 (drop (16 * b) ks))) \<and>
     (\<exists>m. a_hashTableMask at = NOT (2 ^ m - 1) \<and> 2 * length ks \<le> 2 ^ m \<and>
        atbl env ks m (a_hashTable at) (anchor_entry_for env ks ` {..<length ks}))"

definition anchor_total :: "sheap \<Rightarrow> struct \<Rightarrow> nat" where
  "anchor_total sh s = (if m_anchorHashTable s = 0 then 0 else a_numTotalSlots (anchor_at sh (m_anchorHashTable s)))"

definition inline_ok :: "vm_env \<Rightarrow> struct \<Rightarrow> gkey list \<Rightarrow> nat \<Rightarrow> bool" where
  "inline_ok env s ks tot \<longleftrightarrow>
     (\<exists>m\<ge>3. m_inlineHashTableMask s = 2 ^ m - 1 \<and> 2 * (length ks - tot) \<le> 2 ^ m \<and>
        itbl env ks (length ks - m_nonFullBlockLen s) m (m_inlineHashTable s)
          (inline_entry_for env ks (length ks - m_nonFullBlockLen s) ` {tot..<length ks}))"

definition wf_final :: "sheap \<Rightarrow> (sys_ptr \<Rightarrow> gkey list) \<Rightarrow> sys_ptr \<Rightarrow> gkey list \<Rightarrow> bool" where
  "wf_final sh K p ks \<longleftrightarrow> (\<exists>b sb. p = b + OffsetOfTrailingVarLengthArray + x_hiddenClassBlockSize * sizeof_GeneralHeapPointer \<and>
     sh_structs sh b = Some sb \<and> K b = ks)"

definition anchor_ok :: "vm_env \<Rightarrow> sheap \<Rightarrow> sys_ptr \<Rightarrow> gkey list \<Rightarrow> bool" where
  "anchor_ok env sh p ks \<longleftrightarrow> p \<noteq> 0 \<longrightarrow>
     (\<exists>at. sh_anchors sh p = Some at \<and> a_numTotalSlots at \<le> length ks \<and>
        0 < a_numTotalSlots at \<and> wf_anchor env sh at (take (a_numTotalSlots at) ks))"

definition wf_struct :: "vm_env \<Rightarrow> sheap \<Rightarrow> (sys_ptr \<Rightarrow> gkey list) \<Rightarrow> gkey list \<Rightarrow> struct \<Rightarrow> bool" where
  "wf_struct env sh K ks s \<longleftrightarrow>
     (let n = length ks; nf = ComputeNonFullBlockLength n; tot = anchor_total sh s in
      n \<le> 254 \<and> distinct ks \<and> m_numSlots s = n \<and> m_nonFullBlockLen s = nf \<and> m_values s = drop (n - nf) ks \<and>
      (HasFinalFullBlockPointer n \<longrightarrow> wf_final sh K (m_finalFullBlockPointer s) (take (n - nf) ks)) \<and>
      anchor_ok env sh (m_anchorHashTable s) ks \<and>
      (tot = n - n mod 16 \<or> tot + 16 = n - n mod 16) \<and>
      inline_ok env s ks tot)"

definition wf_sheap :: "vm_env \<Rightarrow> sheap \<Rightarrow> (sys_ptr \<Rightarrow> gkey list) \<Rightarrow> bool" where
  "wf_sheap env sh K \<longleftrightarrow>
     (\<forall>a s. sh_structs sh a = Some s \<longrightarrow> 0 < a \<and> a < sh_next sh \<and> wf_struct env sh K (K a) s) \<and>
     (\<forall>a at. sh_anchors sh a = Some at \<longrightarrow> 0 < a \<and> a < sh_next sh)"

lemmas block_consts = x_hiddenClassBlockSize_def x_log2_hiddenClassBlockSize_def
  OffsetOfTrailingVarLengthArray_def sizeof_GeneralHeapPointer_def sizeof_SystemHeapPointer_def
  sizeof_HashTableEntry_def anchor_OffsetOfTrailingVarLengthArray_def
  x_hashTableEmptyValue_def x_inlineHashTableEmptyValue_def

section \<open>The abstract lookup\<close>

text \<open>The slot of a key in a list of keys: the specification of every lookup.\<close>

fun slot_index :: "gkey list \<Rightarrow> gkey \<Rightarrow> nat option" where
  "slot_index [] key = None"
| "slot_index (k # ks) key = (if k = key then Some 0 else map_option Suc (slot_index ks key))"

lemma slot_index_None: "slot_index ks key = None \<longleftrightarrow> key \<notin> set ks"
  by (induction ks) auto

lemma slot_index_SomeD: "slot_index ks key = Some i \<Longrightarrow> i < length ks \<and> ks ! i = key"
  by (induction ks arbitrary: i) (auto split: if_splits)

lemma slot_index_nth:
  assumes "distinct ks" "i < length ks"
  shows "slot_index ks (ks ! i) = Some i"
proof (cases "slot_index ks (ks ! i)")
  case None
  with assms show ?thesis by (simp add: slot_index_None)
next
  case (Some j)
  with slot_index_SomeD[OF Some] assms show ?thesis using nth_eq_iff_index_eq[of ks j i] by auto
qed

lemma slot_index_append:
  "slot_index (xs @ ys) key = (case slot_index xs key of Some i \<Rightarrow> Some i
     | None \<Rightarrow> map_option (\<lambda>i. length xs + i) (slot_index ys key))"
  by (induction xs; cases "slot_index ys key") (auto split: option.splits)

lemma in_set_drop_nth: "x \<in> set (drop n xs) \<longleftrightarrow> (\<exists>i. n \<le> i \<and> i < length xs \<and> xs ! i = x)"
proof
  assume "x \<in> set (drop n xs)"
  then obtain j where "j < length xs - n" "xs ! (n + j) = x" by (auto simp: in_set_conv_nth)
  then show "\<exists>i. n \<le> i \<and> i < length xs \<and> xs ! i = x" by (intro exI[of _ "n + j"]) auto
next
  assume "\<exists>i. n \<le> i \<and> i < length xs \<and> xs ! i = x"
  then obtain i where "n \<le> i" "i < length xs" "xs ! i = x" by blast
  then show "x \<in> set (drop n xs)" by (auto simp: in_set_conv_nth intro!: exI[of _ "i - n"])
qed

section \<open>Block arithmetic\<close>

lemma nat_and_15: "(x::nat) AND 15 = x mod 16"
  using nat_and_mask[of x 4] by simp

lemma NonFullBlockLength_eq: "ComputeNonFullBlockLength n = (if n = 0 then 0 else (n - 1) mod 16 + 1)"
  by (simp add: ComputeNonFullBlockLength_def block_consts nat_and_15)

lemma NonFullBlockLength_cases:
  "n = 0 \<and> ComputeNonFullBlockLength n = 0 \<or>
   n > 0 \<and> n mod 16 = 0 \<and> ComputeNonFullBlockLength n = 16 \<or>
   n mod 16 \<noteq> 0 \<and> ComputeNonFullBlockLength n = n mod 16"
proof (cases n)
  case (Suc k)
  then have "ComputeNonFullBlockLength n = k mod 16 + 1" by (simp add: NonFullBlockLength_eq)
  moreover have "Suc k mod 16 = (if Suc (k mod 16) = 16 then 0 else Suc (k mod 16))" by (rule mod_Suc)
  ultimately show ?thesis using Suc by (auto split: if_splits)
qed (simp add: NonFullBlockLength_eq)

lemma HasFinal_iff: "HasFinalFullBlockPointer n \<longleftrightarrow> 16 \<le> n \<and> n mod 16 \<noteq> 0"
  by (simp add: HasFinalFullBlockPointer_def block_consts)

lemma NonFullBlockLength_le: "ComputeNonFullBlockLength n \<le> n" "ComputeNonFullBlockLength n \<le> 16"
  using NonFullBlockLength_cases[of n] mod_less_eq_dividend[of n 16] mod_less_divisor[of 16 n]
  by (auto dest: dvd_imp_le simp: mod_eq_0_iff_dvd)

lemma half_less: "2 * n \<le> 2 ^ m \<Longrightarrow> n < (2::nat) ^ m"
  using zero_less_power[of "2::nat" m] by linarith

lemma read_block_at: "block_at sh p vs \<Longrightarrow> read_block sh p i = vs ! i"
  by (auto simp: block_at_def read_block_def struct_at_def)

section \<open>Lookup\<close>

lemma wf_sheapD:
  assumes "wf_sheap env sh K" "sh_structs sh a = Some s"
  shows "0 < a" "a < sh_next sh" "wf_struct env sh K (K a) s"
  using assms by (auto simp: wf_sheap_def)

lemma wf_structD:
  assumes "wf_struct env sh K ks s"
  shows "length ks \<le> 254" "distinct ks" "m_numSlots s = length ks"
    "m_nonFullBlockLen s = ComputeNonFullBlockLength (length ks)"
    "m_values s = drop (length ks - m_nonFullBlockLen s) ks"
    "HasFinalFullBlockPointer (length ks) \<Longrightarrow>
      wf_final sh K (m_finalFullBlockPointer s) (take (length ks - m_nonFullBlockLen s) ks)"
    "anchor_ok env sh (m_anchorHashTable s) ks"
    "anchor_total sh s = length ks - length ks mod 16 \<or> anchor_total sh s + 16 = length ks - length ks mod 16"
    "inline_ok env s ks (anchor_total sh s)"
  using assms unfolding wf_struct_def Let_def by auto

lemma anchor_name:
  assumes "wf_anchor env sh at ks" "i < length ks"
  shows "GetPropertyNameAtSlot sh at i = ks ! i"
proof -
  have b: "i div 16 < a_numBlocks at" using assms by (auto simp: wf_anchor_def)
  then have "block_at sh (a_blockPointers at ! (i div 16)) (take 16 (drop (16 * (i div 16)) ks))"
    using assms(1) by (simp add: wf_anchor_def)
  from read_block_at[OF this, of "i mod 16"] show ?thesis using assms(2)
    by (simp add: GetPropertyNameAtSlot_def block_consts nat_and_15 drop_bit_eq_div)
qed

lemma anchor_size:
  "a_hashTableMask at = NOT (2 ^ m - 1) \<Longrightarrow> GetHashTableSizeFromHashTableMask (a_hashTableMask at) = 2 ^ m"
  by (simp add: GetHashTableSizeFromHashTableMask_def nat_power_eq)

lemma inj_anchor_entry: "inj (anchor_entry_for env ks)"
  by (auto simp: inj_def anchor_entry_for_def)

lemma inj_inline_entry: "inj (inline_entry_for env ks base)"
  by (auto simp: inj_def inline_entry_for_def)

lemma anchor_lookup:
  assumes wf: "wf_anchor env sh at ks" and d: "distinct ks"
  shows "anchor_GetSlotOrdinalFromPropertyNameAndHash sh at key (H env key) = Some (slot_index ks key)"
proof -
  obtain m where m: "a_hashTableMask at = NOT (2 ^ m - 1)" "2 * length ks \<le> 2 ^ m"
    and T: "atbl env ks m (a_hashTable at) (anchor_entry_for env ks ` {..<length ks})"
    using wf by (auto simp: wf_anchor_def)
  have le: "length ks \<le> 254" using wf by (simp add: wf_anchor_def)
  let ?E = "anchor_entry_for env ks ` {..<length ks}"
  have card: "card ?E = length ks" by (simp add: card_image inj_on_subset[OF inj_anchor_entry])
  have room: "card ?E < 2 ^ m" using half_less[OF m(2)] by (simp add: card)
  have keys: "key \<in> tbl_keys (ae_key ks) ?E \<longleftrightarrow> key \<in> set ks"
    using le by (auto simp: tbl_keys_def ae_key_def anchor_entry_for_def in_set_conv_nth block_consts)
  let ?body = "\<lambda>p. let e = a_hashTable at ! p in
             if ae_ordinal e = x_hashTableEmptyValue then Some None
             else if ae_checkHash e = ucast (H env key) \<and> GetPropertyNameAtSlot sh at (ae_ordinal e) = key
               then Some (Some (ae_ordinal e)) else None"
  have q: "anchor_GetSlotOrdinalFromPropertyNameAndHash sh at key (H env key) =
      probe ?body (bwd_elem_step (2 ^ m)) (2 ^ m) (bwd_start (ahash env) (2 ^ m) key)"
    unfolding anchor_GetSlotOrdinalFromPropertyNameAndHash_def Let_def anchor_size[OF m(1)]
    by (simp add: bwd_start_def ahash_def m(1))
  have body: "ae_key ks (a_hashTable at ! p) = None \<Longrightarrow> ?body p = Some None"
    "a_hashTable at ! p \<in> ?E \<Longrightarrow> ae_key ks (a_hashTable at ! p) = Some key \<Longrightarrow>
       ?body p = Some (Some (ae_ordinal (a_hashTable at ! p)))"
    "a_hashTable at ! p \<in> ?E \<Longrightarrow> ae_key ks (a_hashTable at ! p) = Some k' \<Longrightarrow> k' \<noteq> key \<Longrightarrow> ?body p = None"
    for p k'
    using anchor_name[OF wf] le by (auto simp: ae_key_def anchor_entry_for_def Let_def block_consts split: if_splits)
  note find = bwd.tbl_find[OF T room, of ?body "\<lambda>p. None" key "\<lambda>p. Some (ae_ordinal (a_hashTable at ! p))"]
  show ?thesis
  proof (cases "key \<in> set ks")
    case True
    with find body keys obtain p where p: "a_hashTable at ! p \<in> ?E" "ae_key ks (a_hashTable at ! p) = Some key"
      "probe ?body (bwd_elem_step (2 ^ m)) (2 ^ m) (bwd_start (ahash env) (2 ^ m) key)
        = Some (Some (ae_ordinal (a_hashTable at ! p)))"
      by auto
    then obtain i where "i < length ks" "ks ! i = key" "ae_ordinal (a_hashTable at ! p) = i"
      by (auto simp: ae_key_def anchor_entry_for_def split: if_splits)
    with p(3) show ?thesis unfolding q using slot_index_nth[OF d, of i] by simp
  next
    case False
    with find body keys show ?thesis unfolding q by (auto simp: slot_index_None[THEN iffD2])
  qed
qed

lemma final_block_nth:
  assumes sh: "wf_sheap env sh K" and fin: "wf_final sh K p ks" and len: "0 < length ks" "length ks mod 16 = 0"
    and ord: "- 16 \<le> ord" "ord < 0"
  shows "read_block_end sh p ord = ks ! nat (int (length ks) + ord)"
proof -
  obtain b sb where b: "p = b + 96" "sh_structs sh b = Some sb" "K b = ks"
    using fin by (auto simp: wf_final_def block_consts)
  have wf: "wf_struct env sh K ks sb" using wf_sheapD(3)[OF sh b(2)] b(3) by simp
  have nf: "m_nonFullBlockLen sb = 16" using wf_structD(4)[OF wf] len NonFullBlockLength_cases[of "length ks"] by auto
  have ge: "16 \<le> length ks" using len by (metis mod_less not_le not_less_zero gr0I)
  have "m_values sb = drop (length ks - 16) ks" using wf_structD(5)[OF wf] nf by simp
  then have "read_block_end sh p ord = drop (length ks - 16) ks ! nat (16 + ord)"
    using b by (simp add: read_block_end_def read_block_def struct_at_def block_consts)
  also have "\<dots> = ks ! (length ks - 16 + nat (16 + ord))" using ge ord by simp
  also have "length ks - 16 + nat (16 + ord) = nat (int (length ks) + ord)" using ge ord by linarith
  finally show ?thesis .
qed

lemma full_class:
  assumes "wf_final sh K (m_finalFullBlockPointer s) ks"
  shows "\<exists>sb. sh_structs sh (GetHiddenClassOfFullBlockPointer s) = Some sb \<and> K (GetHiddenClassOfFullBlockPointer s) = ks"
  using assms by (auto simp: wf_final_def GetHiddenClassOfFullBlockPointer_def GetFinalFullBlockPointer_def block_consts)

text \<open>The shape of the key list around the block boundary.\<close>

lemma wf_struct_shape:
  assumes wf: "wf_struct env sh K ks s"
  defines "base \<equiv> length ks - m_nonFullBlockLen s" and "tot \<equiv> anchor_total sh s"
  shows "base \<le> length ks" "base mod 16 = 0" "length ks - base \<le> 16"
    "tot = base \<or> tot + 16 = base \<or> tot = length ks"
    "tot = length ks \<Longrightarrow> length ks mod 16 = 0"
    "tot < base \<Longrightarrow> HasFinalFullBlockPointer (length ks)"
    "tot \<le> length ks"
proof -
  let ?n = "length ks"
  have nf: "m_nonFullBlockLen s = ComputeNonFullBlockLength ?n" using wf_structD(4)[OF wf] .
  note c = NonFullBlockLength_cases[of ?n]
  have t: "tot = ?n - ?n mod 16 \<or> tot + 16 = ?n - ?n mod 16" unfolding tot_def using wf_structD(8)[OF wf] .
  have md: "?n mod 16 \<le> ?n" "?n mod 16 < 16" by simp_all
  have "(?n - ?n mod 16) mod 16 = 0" by (simp add: minus_mod_eq_mult_div)
  moreover have "(?n - 16) mod 16 = 0" if "?n mod 16 = 0" "?n > 0"
    using that by (metis dvd_diff_nat dvd_refl mod_eq_0_iff_dvd)
  ultimately show "base mod 16 = 0" using c nf by (auto simp: base_def)
  show "base \<le> ?n" "?n - base \<le> 16" using c nf md by (auto simp: base_def)
  show "tot = base \<or> tot + 16 = base \<or> tot = ?n" using t c nf md by (auto simp: base_def)
  show "tot = ?n \<Longrightarrow> ?n mod 16 = 0" "tot \<le> ?n" using t c nf md by auto
  show "tot < base \<Longrightarrow> HasFinalFullBlockPointer ?n" using t c nf md by (auto simp: base_def HasFinal_iff)
qed

lemma inline_name:
  assumes sh: "wf_sheap env sh K" and wf: "wf_struct env sh K ks s"
    and i: "anchor_total sh s \<le> i" "i < length ks"
  shows "GetPropertyNameFromInlineHashTableOrdinal sh s (int i - int (length ks - m_nonFullBlockLen s)) = ks ! i"
proof -
  define base where "base = length ks - m_nonFullBlockLen s"
  note sp = wf_struct_shape[OF wf, folded base_def]
  show ?thesis
  proof (cases "base \<le> i")
    case True
    have "m_values s = drop base ks" using wf_structD(5)[OF wf] by (simp add: base_def)
    with True i(2) show ?thesis unfolding base_def[symmetric]
      by (simp add: GetPropertyNameFromInlineHashTableOrdinal_def nat_diff_distrib)
  next
    case False
    then have lt: "anchor_total sh s < base" using i by simp
    then have b16: "anchor_total sh s + 16 = base" using sp(1,4) by auto
    have fin: "wf_final sh K (m_finalFullBlockPointer s) (take base ks)"
      using wf_structD(6)[OF wf sp(6)[OF lt]] by (simp add: base_def)
    have "read_block_end sh (m_finalFullBlockPointer s) (int i - int base) =
        take base ks ! nat (int (length (take base ks)) + (int i - int base))"
      using sp(1,2) b16 i False by (intro final_block_nth[OF sh fin]) auto
    with False i sp(1) show ?thesis unfolding base_def[symmetric]
      by (simp add: GetPropertyNameFromInlineHashTableOrdinal_def GetFinalFullBlockPointer_def)
  qed
qed

lemma inline_lookup:
  assumes sh: "wf_sheap env sh K" and wf: "wf_struct env sh K ks s"
  shows "QueryInlineHashTable sh s key (ucast (H env key)) =
    Some (map_option (\<lambda>i. anchor_total sh s + i) (slot_index (drop (anchor_total sh s) ks) key))"
proof -
  define base where "base = length ks - m_nonFullBlockLen s"
  define tot where "tot = anchor_total sh s"
  note sp = wf_struct_shape[OF wf, folded base_def tot_def]
  let ?E = "inline_entry_for env ks base ` {tot..<length ks}"
  obtain m where m: "m_inlineHashTableMask s = 2 ^ m - 1" "2 * (length ks - tot) \<le> 2 ^ m"
    and T: "itbl env ks base m (m_inlineHashTable s) ?E"
    using wf_structD(9)[OF wf] by (auto simp: inline_ok_def base_def tot_def)
  have card: "card ?E = length ks - tot" by (simp add: card_image inj_on_subset[OF inj_inline_entry])
  have room: "card ?E < 2 ^ m" using half_less[OF m(2)] by (simp only: card)
  have ordinal: "int i - int base \<noteq> x_inlineHashTableEmptyValue" if "i < length ks" for i
    using that sp(1,3) by (simp add: block_consts)
  have keys: "key \<in> tbl_keys (ie_key ks base) ?E \<longleftrightarrow> key \<in> set (drop tot ks)"
    using ordinal by (auto simp: tbl_keys_def ie_key_def inline_entry_for_def in_set_drop_nth)
  let ?body = "\<lambda>p. let e = m_inlineHashTable s ! p in
             if ie_ordinal e = x_inlineHashTableEmptyValue then Some None
             else if ie_checkHash e = ucast (ucast (H env key) :: u16) \<and>
                 GetPropertyNameFromInlineHashTableOrdinal sh s (ie_ordinal e) = key
               then Some (Some (GetPropertySlotFromInlineHashTableOrdinal s (ie_ordinal e))) else None"
  have mask: "m_inlineHashTableMask s + 1 = 2 ^ m" "NOT (int (m_inlineHashTableMask s)) = NOT (2 ^ m - 1)"
    using m(1) by (simp_all add: of_nat_diff)
  have q: "QueryInlineHashTable sh s key (ucast (H env key)) =
      probe ?body (bwd_elem_step (2 ^ m)) (2 ^ m) (bwd_start (ihash env) (2 ^ m) key)"
    unfolding QueryInlineHashTable_def Let_def mask by (simp add: bwd_start_def ihash_def)
  have name: "GetPropertyNameFromInlineHashTableOrdinal sh s (int i - int base) = ks ! i"
    if "tot \<le> i" "i < length ks" for i
    using inline_name[OF sh wf, of i] that by (simp add: tot_def base_def)
  have body: "ie_key ks base (m_inlineHashTable s ! p) = None \<Longrightarrow> ?body p = Some None"
    "m_inlineHashTable s ! p \<in> ?E \<Longrightarrow> ie_key ks base (m_inlineHashTable s ! p) = Some key \<Longrightarrow>
       ?body p = Some (Some (GetPropertySlotFromInlineHashTableOrdinal s (ie_ordinal (m_inlineHashTable s ! p))))"
    "m_inlineHashTable s ! p \<in> ?E \<Longrightarrow> ie_key ks base (m_inlineHashTable s ! p) = Some k' \<Longrightarrow> k' \<noteq> key \<Longrightarrow>
       ?body p = None"
    for p k'
    using name by (auto simp: ie_key_def inline_entry_for_def Let_def split: if_splits)
  note find = bwd.tbl_find[OF T room, of ?body "\<lambda>p. None" key
      "\<lambda>p. Some (GetPropertySlotFromInlineHashTableOrdinal s (ie_ordinal (m_inlineHashTable s ! p)))"]
  show ?thesis unfolding tot_def[symmetric]
  proof (cases "key \<in> set (drop tot ks)")
    case True
    with find body keys obtain p where p: "m_inlineHashTable s ! p \<in> ?E"
      "ie_key ks base (m_inlineHashTable s ! p) = Some key"
      "probe ?body (bwd_elem_step (2 ^ m)) (2 ^ m) (bwd_start (ihash env) (2 ^ m) key)
        = Some (Some (GetPropertySlotFromInlineHashTableOrdinal s (ie_ordinal (m_inlineHashTable s ! p))))"
      by auto
    then obtain i where i: "tot \<le> i" "i < length ks" "ks ! i = key" "ie_ordinal (m_inlineHashTable s ! p) = int i - int base"
      by (auto simp: ie_key_def inline_entry_for_def split: if_splits)
    then have "GetPropertySlotFromInlineHashTableOrdinal s (ie_ordinal (m_inlineHashTable s ! p)) = i"
      using wf_structD(3)[OF wf] by (simp add: GetPropertySlotFromInlineHashTableOrdinal_def base_def)
    moreover have "slot_index (drop tot ks) (drop tot ks ! (i - tot)) = Some (i - tot)"
      using i wf_structD(2)[OF wf] by (intro slot_index_nth) auto
    ultimately show "QueryInlineHashTable sh s key (ucast (H env key)) =
        Some (map_option (\<lambda>i. tot + i) (slot_index (drop tot ks) key))"
      unfolding q using p(3) i by simp
  next
    case False
    with find body keys show "QueryInlineHashTable sh s key (ucast (H env key)) =
        Some (map_option (\<lambda>i. tot + i) (slot_index (drop tot ks) key))"
      unfolding q by (auto simp: slot_index_None[THEN iffD2])
  qed
qed

lemma lookup_correct:
  assumes sh: "wf_sheap env sh K" and wf: "wf_struct env sh K ks s"
  shows "GetSlotOrdinalFromMaybeNonStringProperty env sh s key = Some (slot_index ks key)"
proof -
  define tot where "tot = anchor_total sh s"
  have q: "QueryInlineHashTable sh s key (ucast (H env key)) =
      Some (map_option (\<lambda>i. tot + i) (slot_index (drop tot ks) key))"
    using inline_lookup[OF sh wf] by (simp add: tot_def)
  have le: "tot \<le> length ks" using wf_struct_shape(7)[OF wf] by (simp add: tot_def)
  have sp: "slot_index ks key = (case slot_index (take tot ks) key of Some i \<Rightarrow> Some i
      | None \<Rightarrow> map_option (\<lambda>i. tot + i) (slot_index (drop tot ks) key))"
    using slot_index_append[of "take tot ks" "drop tot ks" key] le
    by (cases "slot_index (take tot ks) key") (simp_all add: min_absorb2)
  have disj: "slot_index (take tot ks) key = None" if "slot_index (drop tot ks) key \<noteq> None"
    using that wf_structD(2)[OF wf] set_take_disj_set_drop_if_distinct[of ks tot tot]
    by (auto simp: slot_index_None)
  show ?thesis
  proof (cases "slot_index (drop tot ks) key")
    case (Some i)
    with disj q sp show ?thesis
      by (simp add: GetSlotOrdinalFromMaybeNonStringProperty_def GetSlotOrdinalFromPropertyNameAndHash_def)
  next
    case None
    show ?thesis
    proof (cases "m_anchorHashTable s = 0")
      case True
      then have "tot = 0" by (simp add: tot_def anchor_total_def)
      with None have "slot_index ks key = None" by simp
      with True None q show ?thesis
        by (simp add: GetSlotOrdinalFromMaybeNonStringProperty_def GetSlotOrdinalFromPropertyNameAndHash_def)
    next
      case False
      then obtain at where at: "sh_anchors sh (m_anchorHashTable s) = Some at"
        "wf_anchor env sh at (take (a_numTotalSlots at) ks)"
        using wf_structD(7)[OF wf] by (auto simp: anchor_ok_def)
      then have "wf_anchor env sh at (take tot ks)" using False by (simp add: tot_def anchor_total_def anchor_at_def)
      from anchor_lookup[OF this] wf_structD(2)[OF wf] False None q sp at(1) show ?thesis
        by (simp add: GetSlotOrdinalFromMaybeNonStringProperty_def GetSlotOrdinalFromPropertyNameAndHash_def
            anchor_at_def split: option.splits)
    qed
  qed
qed

lemma key_for_slot_correct:
  assumes sh: "wf_sheap env sh K" and wf: "wf_struct env sh K ks s" and i: "i < length ks"
  shows "GetKeyForSlotOrdinal sh s i = ks ! i"
proof (cases "m_anchorHashTable s \<noteq> 0 \<and> i < a_numTotalSlots (anchor_at sh (m_anchorHashTable s))")
  case True
  then obtain at where at: "sh_anchors sh (m_anchorHashTable s) = Some at"
    "wf_anchor env sh at (take (a_numTotalSlots at) ks)"
    using wf_structD(7)[OF wf] by (auto simp: anchor_ok_def)
  from anchor_name[OF this(2), of i] True at(1) i show ?thesis
    by (simp add: GetKeyForSlotOrdinal_def anchor_at_def)
next
  case False
  then have "anchor_total sh s \<le> i" by (auto simp: anchor_total_def)
  from inline_name[OF sh wf this i] False wf_structD(3)[OF wf] show ?thesis
    by (auto simp: GetKeyForSlotOrdinal_def GetPropertyNameFromInlineHashTableOrdinal_def Let_def
        nat_diff_distrib split: if_splits)
qed

end
