(* ===== verification/StructureAnchor.thy ===== *)
theory StructureAnchor
  imports StructureInv
begin

unbundle bit_operations_syntax

text \<open>
  Anchor tables: how the structure heap may be extended without changing the abstract value of a structure, and
  the correctness of \<^verbatim>\<open>StructureAnchorHashTable::Create\<close>, \<^verbatim>\<open>CloneHashTableTo\<close> and
  \<^verbatim>\<open>BuildNewAnchorTableIfNecessary\<close>.
\<close>

section \<open>Extending the heap\<close>

text \<open>Structures only ever change their anchor table pointer and their inline table.\<close>

definition struct_eqv :: "struct \<Rightarrow> struct \<Rightarrow> bool" where
  "struct_eqv s s' \<longleftrightarrow>
     (\<exists>anch ht. s' = s\<lparr>m_anchorHashTable := anch, m_inlineHashTable := ht\<rparr>)"

definition sh_ext :: "sheap \<Rightarrow> sheap \<Rightarrow> bool" where
  "sh_ext sh sh' \<longleftrightarrow>
     (\<forall>a s. sh_structs sh a = Some s \<longrightarrow> (\<exists>s'. sh_structs sh' a = Some s' \<and> struct_eqv s s')) \<and>
     (\<forall>a at. sh_anchors sh a = Some at \<longrightarrow> sh_anchors sh' a = Some at) \<and>
     sh_next sh \<le> sh_next sh'"

lemma struct_eqv_refl [simp]: "struct_eqv s s"
  unfolding struct_eqv_def by (intro exI[of _ "m_anchorHashTable s"] exI[of _ "m_inlineHashTable s"]) simp

lemma struct_eqv_trans: "struct_eqv s t \<Longrightarrow> struct_eqv t u \<Longrightarrow> struct_eqv s u"
  unfolding struct_eqv_def by (elim exE, hypsubst, intro exI) simp

lemma struct_eqv_fields:
  assumes "struct_eqv s s'"
  shows "m_values s' = m_values s" "m_numSlots s' = m_numSlots s" "m_nonFullBlockLen s' = m_nonFullBlockLen s"
    "m_finalFullBlockPointer s' = m_finalFullBlockPointer s" "m_transitionTable s' = m_transitionTable s"
    "m_metatable s' = m_metatable s" "m_parent s' = m_parent s" "m_arrayType s' = m_arrayType s"
    "m_parentEdgeTransitionKind s' = m_parentEdgeTransitionKind s"
    "m_inlineNamedStorageCapacity s' = m_inlineNamedStorageCapacity s"
    "m_butterflyNamedStorageCapacity s' = m_butterflyNamedStorageCapacity s"
    "m_knownNonexistentMetamethods s' = m_knownNonexistentMetamethods s"
    "m_inlineHashTableMask s' = m_inlineHashTableMask s"
  using assms by (auto simp: struct_eqv_def)

lemma sh_ext_refl [simp]: "sh_ext sh sh"
  by (auto simp: sh_ext_def)

lemma sh_ext_trans: "sh_ext a b \<Longrightarrow> sh_ext b c \<Longrightarrow> sh_ext a c"
  unfolding sh_ext_def by (meson struct_eqv_trans order_trans)

lemma sh_extD:
  assumes "sh_ext sh sh'" "sh_structs sh a = Some s"
  obtains s' where "sh_structs sh' a = Some s'" "struct_eqv s s'"
  using assms unfolding sh_ext_def by blast

text \<open>What the representation of keys depends on: the blocks of the structures and the anchor tables.\<close>

definition sh_le :: "sheap \<Rightarrow> sheap \<Rightarrow> bool" where
  "sh_le sh sh' \<longleftrightarrow>
     (\<forall>a s. sh_structs sh a = Some s \<longrightarrow> (\<exists>s'. sh_structs sh' a = Some s' \<and> m_values s' = m_values s)) \<and>
     (\<forall>a at. sh_anchors sh a = Some at \<longrightarrow> sh_anchors sh' a = Some at)"

lemma sh_ext_le: "sh_ext sh sh' \<Longrightarrow> sh_le sh sh'"
  unfolding sh_ext_def sh_le_def by (meson struct_eqv_fields(1))

lemma block_at_le: "sh_le sh sh' \<Longrightarrow> block_at sh p vs \<Longrightarrow> block_at sh' p vs"
  unfolding block_at_def sh_le_def by metis

lemma wf_anchor_le: "sh_le sh sh' \<Longrightarrow> wf_anchor env sh at ks \<Longrightarrow> wf_anchor env sh' at ks"
  unfolding wf_anchor_def by (meson block_at_le)

lemma anchor_ok_le: "sh_le sh sh' \<Longrightarrow> anchor_ok env sh p ks \<Longrightarrow> anchor_ok env sh' p ks"
  unfolding anchor_ok_def by (metis sh_le_def wf_anchor_le)

lemma wf_final_le:
  "sh_le sh sh' \<Longrightarrow> (\<And>a s. sh_structs sh a = Some s \<Longrightarrow> K' a = K a) \<Longrightarrow> wf_final sh K p ks \<Longrightarrow> wf_final sh' K' p ks"
  unfolding wf_final_def sh_le_def by metis

lemma anchor_total_le:
  assumes "sh_le sh sh'" "anchor_ok env sh (m_anchorHashTable s) ks"
  shows "anchor_total sh' s = anchor_total sh s"
  using assms by (auto simp: anchor_total_def anchor_ok_def sh_le_def anchor_at_def)

lemma wf_struct_le:
  assumes "sh_le sh sh'" "\<And>a s. sh_structs sh a = Some s \<Longrightarrow> K' a = K a" "wf_struct env sh K ks s"
  shows "wf_struct env sh' K' ks s"
  using assms(3) wf_final_le[OF assms(1,2)] anchor_ok_le[OF assms(1)]
    anchor_total_le[OF assms(1) wf_structD(7)[OF assms(3)]]
  unfolding wf_struct_def Let_def by auto

lemmas wf_anchor_ext = wf_anchor_le[OF sh_ext_le]
lemmas anchor_ok_ext = anchor_ok_le[OF sh_ext_le]
lemmas wf_final_ext = wf_final_le[OF sh_ext_le]
lemmas wf_struct_ext = wf_struct_le[OF sh_ext_le]

section \<open>Building an anchor table\<close>

lemma anchor_insert_eq:
  assumes "length ht = 2 ^ m"
  shows "anchor_insert env i (ks ! i) ht =
    tbl_put (ae_key ks) (bwd_elem_step (2 ^ m)) ht (bwd_start (ahash env) (2 ^ m) (ks ! i)) (anchor_entry_for env ks i)"
proof -
  have "tbl_put ae_occupied step xs slot e = tbl_put (ae_key ks) step xs slot e" for step xs slot e
    by (rule tbl_put_cong) (simp add: ae_occupied_def ae_key_def)
  then show ?thesis using assms
    by (simp add: anchor_insert_def Let_def bwd_start_def ahash_def anchor_entry_for_def)
qed

lemma ae_key_entry: "i < length ks \<Longrightarrow> length ks \<le> 254 \<Longrightarrow> ae_key ks (anchor_entry_for env ks i) = Some (ks ! i)"
  by (simp add: ae_key_def anchor_entry_for_def block_consts)

lemma inj_on_nth_ks: "distinct ks \<Longrightarrow> I \<subseteq> {..<length ks} \<Longrightarrow> inj_on ((!) ks) I"
  by (auto simp: inj_on_def nth_eq_iff_index_eq subset_iff)

text \<open>Inserting the keys of a run of slots.\<close>

lemma anchor_insert_run:
  assumes "atbl env ks m ht (anchor_entry_for env ks ` {..<a})"
    and "distinct ks" "length ks \<le> 254" "a \<le> b" "b \<le> length ks" "b \<le> 2 ^ m"
  shows "\<exists>ht'. fold_opt (\<lambda>i. anchor_insert env i (ks ! i)) [a..<b] ht = Some ht' \<and>
    atbl env ks m ht' (anchor_entry_for env ks ` {..<b})"
proof -
  have "{..<a} \<union> set [a..<b] = {..<b}" using assms(4) by auto
  moreover have "\<exists>ht'. fold_opt (\<lambda>i. anchor_insert env i (ks ! i)) [a..<b] ht = Some ht' \<and>
    atbl env ks m ht' (anchor_entry_for env ks ` ({..<a} \<union> set [a..<b]))"
  proof (rule bwd.fold_put_ok[where kf = "(!) ks", OF assms(1)])
    show "inj_on ((!) ks) ({..<a} \<union> set [a..<b])"
      using assms by (intro inj_on_nth_ks) auto
    show "ae_key ks (anchor_entry_for env ks i) = Some (ks ! i)" if "i \<in> {..<a} \<union> set [a..<b]" for i
      using that assms by (intro ae_key_entry) auto
  qed (use assms anchor_insert_eq in auto)
  ultimately show ?thesis by simp
qed

text \<open>A table for a prefix of the keys is one for the whole list.\<close>

lemma atbl_prefix:
  assumes T: "atbl env (take a ks) m ht (anchor_entry_for env (take a ks) ` {..<a})"
    and "a \<le> length ks" "length ks \<le> 254"
  shows "atbl env ks m ht (anchor_entry_for env ks ` {..<a})"
proof -
  have E: "anchor_entry_for env (take a ks) ` {..<a} = anchor_entry_for env ks ` {..<a}"
    by (auto simp: anchor_entry_for_def)
  have "ae_key (take a ks) e = ae_key ks e" if "e \<in> set ht" for e
  proof (cases "ae_ordinal e = x_hashTableEmptyValue")
    case False
    then have "e \<in> anchor_entry_for env ks ` {..<a}" using that tbl_D(2)[OF T]
      unfolding E by (auto simp: tbl_entries_def ae_key_def)
    then show ?thesis using assms(2) by (auto simp: ae_key_def anchor_entry_for_def)
  qed (simp add: ae_key_def)
  then show ?thesis using T unfolding E by (subst tbl_key_cong[of ht "ae_key ks" "ae_key (take a ks)"]) auto
qed

lemma RoundUp_block:
  assumes "0 < n" "n \<le> 254"
  shows "\<exists>m. unat (RoundUpToPowerOfTwo (of_nat n)) * 2 = 2 ^ m \<and> 2 * n \<le> 2 ^ m \<and> 2 ^ m < 4 * n"
proof -
  have n: "unat (of_nat n :: u32) = n" using assms by (simp add: unat_of_nat)
  obtain k where "unat (RoundUpToPowerOfTwo (of_nat n)) = 2 ^ k" "n \<le> 2 ^ k" "2 ^ k < 2 * n"
    using RoundUpToPowerOfTwo_correct[of "of_nat n"] assms unfolding n by auto
  then show ?thesis by (intro exI[of _ "Suc k"]) simp
qed

lemma push_or_add:
  assumes "off < (16::nat)"
  shows "push_bit 4 b OR off = 16 * b + off"
proof -
  have "take_bit 4 off = off" using assms by (simp add: take_bit_eq_mod)
  then have "\<not> bit off n" if "4 \<le> n" for n using that by (metis bit_take_bit_iff not_le)
  then have "push_bit 4 b + off = push_bit 4 b OR off"
    by (intro disjunctive_add) (auto simp: bit_push_bit_iff not_le)
  then show ?thesis by (simp add: push_bit_eq_mult mult.commute)
qed

lemma block_pairs:
  "map (\<lambda>(b, off). 16 * b + off) [(b, off). b \<leftarrow> [0..<nb], off \<leftarrow> [0..<16]] = [0..<16 * nb]"
proof (induction nb)
  case (Suc nb)
  have "[0..<16 * Suc nb] = [0..<16 * nb] @ map (\<lambda>i. i + 16 * nb) [0..<16]"
    using upt_add_eq_append[of 0 "16 * nb" 16] map_add_upt[of "16 * nb" 16] by (simp add: add.commute)
  with Suc.IH show ?case by (simp add: add.commute comp_def del: upt_rec_numeral upt_conv_Cons upt_Suc)
    (simp add: add.commute)
qed simp

lemma CloneHashTableTo_correct:
  assumes wf: "wf_anchor env sh at ks" and d: "distinct ks" and m: "2 * length ks \<le> 2 ^ m"
  shows "\<exists>ht. CloneHashTableTo env sh at (2 ^ m) = Some ht \<and>
    atbl env ks m ht (anchor_entry_for env ks ` {..<length ks})"
proof -
  obtain m0 where m0: "a_hashTableMask at = NOT (2 ^ m0 - 1)"
    and T: "atbl env ks m0 (a_hashTable at) (anchor_entry_for env ks ` {..<length ks})"
    using wf by (auto simp: wf_anchor_def)
  note sz = anchor_size[OF m0]
  show ?thesis
  proof (cases "m = m0")
    case True
    with T show ?thesis by (simp add: CloneHashTableTo_def Let_def sz)
  next
    case False
    define nb where "nb = a_numBlocks at"
    have len: "length ks = 16 * nb" "length ks \<le> 254" using wf by (auto simp: wf_anchor_def nb_def)
    let ?ps = "[(b, off). b \<leftarrow> [0..<nb], off \<leftarrow> [0..<(16::nat)]]"
    have rd: "(case x of (b, off) \<Rightarrow> anchor_insert env (push_bit 4 b OR off) (read_block sh (a_blockPointers at ! b) off)) s =
        anchor_insert env (case x of (b, off) \<Rightarrow> 16 * b + off) (ks ! (case x of (b, off) \<Rightarrow> 16 * b + off)) s"
      if "x \<in> set ?ps" for x s
    proof -
      from that obtain b off where x: "x = (b, off)" "b < nb" "off < 16" by auto
      then have "block_at sh (a_blockPointers at ! b) (take 16 (drop (16 * b) ks))"
        using wf by (simp add: wf_anchor_def nb_def)
      from read_block_at[OF this, of off] have "read_block sh (a_blockPointers at ! b) off = ks ! (16 * b + off)"
        using x len by simp
      moreover have "push_bit 4 b OR off = 16 * b + off" using push_or_add[OF x(3)] .
      ultimately show ?thesis by (simp add: x)
    qed
    have "CloneHashTableTo env sh at (2 ^ m) =
        fold_opt (\<lambda>(b, off). anchor_insert env (push_bit 4 b OR off) (read_block sh (a_blockPointers at ! b) off)) ?ps
          (anchor_memset (2 ^ m))"
      using False by (simp add: CloneHashTableTo_def Let_def sz block_consts nb_def)
    also have "\<dots> = fold_opt (\<lambda>x. anchor_insert env (case x of (b, off) \<Rightarrow> 16 * b + off)
        (ks ! (case x of (b, off) \<Rightarrow> 16 * b + off))) ?ps (anchor_memset (2 ^ m))"
      using rd by (intro fold_opt_cong) auto
    also have "\<dots> = fold_opt (\<lambda>i. anchor_insert env i (ks ! i)) [0..<16 * nb] (anchor_memset (2 ^ m))"
      unfolding block_pairs[symmetric] fold_opt_map by simp
    finally have c: "CloneHashTableTo env sh at (2 ^ m) =
        fold_opt (\<lambda>i. anchor_insert env i (ks ! i)) [0..<length ks] (anchor_memset (2 ^ m))"
      by (simp add: len)
    have "atbl env ks m (anchor_memset (2 ^ m)) (anchor_entry_for env ks ` {..<0})"
      unfolding anchor_memset_def by (simp add: tbl_empty ae_key_def)
    from anchor_insert_run[OF this d len(2), of "length ks"] m show ?thesis unfolding c by simp
  qed
qed

text \<open>\<^verbatim>\<open>StructureAnchorHashTable::Create\<close> on a structure whose anchor table lacks the final block.\<close>

lemma anchor_Create_correct:
  assumes sh: "wf_sheap env sh K" and c: "sh_structs sh c = Some sc"
    and n: "0 < m_numSlots sc" "m_numSlots sc mod 16 = 0"
    and old: "anchor_total sh sc + 16 = m_numSlots sc"
    and room: "sh_next sh + 1200 < 2 ^ 32"
  shows "\<exists>sh' p at. anchor_Create env sh c = Some (sh', p) \<and>
    sh_structs sh' = sh_structs sh \<and> sh_anchors sh' = (sh_anchors sh)(p \<mapsto> at) \<and>
    sh_next sh \<le> p \<and> 0 < p \<and> p < sh_next sh' \<and> sh_next sh' \<le> sh_next sh + 1200 \<and>
    a_numTotalSlots at = m_numSlots sc \<and> wf_anchor env sh at (K c)"
proof -
  define ks where "ks = K c"
  define len where "len = length ks"
  have wf: "wf_struct env sh K ks sc" using wf_sheapD(3)[OF sh c] by (simp add: ks_def)
  note D = wf_structD[OF wf]
  have ns: "m_numSlots sc = len" and le: "len \<le> 254" using D(1,3) by (simp_all add: len_def)
  have pos: "0 < len" "len mod 16 = 0" using n ns by simp_all
  have nf: "m_nonFullBlockLen sc = 16"
    using D(4) pos NonFullBlockLength_cases[of len] by (simp add: len_def)
  have ge: "16 \<le> len" using pos by (metis mod_less not_le not_less_zero gr0I)
  have vals: "m_values sc = drop (len - 16) ks" using D(5) nf by (simp add: len_def)
  obtain m where m: "unat (RoundUpToPowerOfTwo (of_nat len)) * 2 = 2 ^ m" "2 * len \<le> 2 ^ m" "2 ^ m < 4 * len"
    using RoundUp_block[OF pos(1) le] by blast
  define total where "total = round8 (2 ^ m * 2 + 8 + len div 16 * 4)"
  have total: "2 ^ m * 2 < total" "total \<le> 1200"
  proof -
    have "(2::nat) ^ m < 2 ^ 10" using m(3) le by simp
    then have "m \<le> 9" by (simp only: power_strict_increasing_iff)
    then have "(2::nat) ^ m \<le> 2 ^ 9" by (intro power_increasing) auto
    moreover have "len div 16 \<le> 15" using le by simp
    ultimately show "2 ^ m * 2 < total" "total \<le> 1200" unfolding total_def round8_def by auto
  qed
  let ?sh1 = "sh\<lparr>sh_next := sh_next sh + total\<rparr>"
  let ?old = "m_anchorHashTable sc"
  define tot where "tot = anchor_total sh sc"
  have tl: "tot + 16 = len" using old ns by (simp add: tot_def)
  define blocks where "blocks = (if ?old \<noteq> 0 then a_blockPointers (anchor_at ?sh1 ?old) else [])"
  have ext: "sh_ext sh ?sh1" by (auto simp: sh_ext_def)
  have "(\<exists>ht. (if ?old \<noteq> 0 then CloneHashTableTo env ?sh1 (anchor_at ?sh1 ?old) (2 ^ m)
        else Some (anchor_memset (2 ^ m))) = Some ht \<and> atbl env ks m ht (anchor_entry_for env ks ` {..<tot})) \<and>
      length blocks = tot div 16 \<and> (\<forall>b<tot div 16. block_at sh (blocks ! b) (take 16 (drop (16 * b) ks)))"
  proof (cases "?old = 0")
    case True
    then have "tot = 0" by (simp add: tot_def anchor_total_def)
    moreover have "atbl env ks m (anchor_memset (2 ^ m)) {}"
      unfolding anchor_memset_def by (rule tbl_empty) (simp add: ae_key_def)
    ultimately show ?thesis using True by (simp add: blocks_def)
  next
    case False
    then obtain at0 where at0: "sh_anchors sh ?old = Some at0" "wf_anchor env sh at0 (take tot ks)"
      using D(7) by (auto simp: anchor_ok_def tot_def anchor_total_def anchor_at_def)
    have w1: "wf_anchor env ?sh1 at0 (take tot ks)" using wf_anchor_ext[OF ext at0(2)] .
    have lt: "length (take tot ks) = tot" using tl by (simp add: len_def)
    have "2 * length (take tot ks) \<le> 2 ^ m" using m(2) tl lt by simp
    from CloneHashTableTo_correct[OF w1 _ this] D(2) lt obtain ht where
      ht: "CloneHashTableTo env ?sh1 at0 (2 ^ m) = Some ht"
      "atbl env (take tot ks) m ht (anchor_entry_for env (take tot ks) ` {..<tot})" by auto
    from atbl_prefix[OF ht(2)] tl le have "atbl env ks m ht (anchor_entry_for env ks ` {..<tot})"
      by (simp add: len_def)
    moreover have "length blocks = tot div 16"
      using False at0 lt by (simp add: blocks_def anchor_at_def wf_anchor_def)
    moreover have "block_at sh (blocks ! b) (take 16 (drop (16 * b) ks))" if "b < tot div 16" for b
    proof -
      have "block_at sh (blocks ! b) (take 16 (drop (16 * b) (take tot ks)))"
        using that False at0 lt by (simp add: blocks_def anchor_at_def wf_anchor_def)
      moreover have "take 16 (drop (16 * b) (take tot ks)) = take 16 (drop (16 * b) ks)"
        using that by (simp add: drop_take min_def)
      ultimately show ?thesis by simp
    qed
    ultimately show ?thesis using False at0(1) ht(1) by (simp add: anchor_at_def)
  qed
  then obtain ht where ht: "(if ?old \<noteq> 0 then CloneHashTableTo env ?sh1 (anchor_at ?sh1 ?old) (2 ^ m)
        else Some (anchor_memset (2 ^ m))) = Some ht" "atbl env ks m ht (anchor_entry_for env ks ` {..<tot})"
      and bl: "length blocks = tot div 16" "\<forall>b<tot div 16. block_at sh (blocks ! b) (take 16 (drop (16 * b) ks))"
    by blast
  obtain ht' where ht': "fold_opt (\<lambda>i. anchor_insert env i (ks ! i)) [tot..<len] ht = Some ht'"
    "atbl env ks m ht' (anchor_entry_for env ks ` {..<len})"
    using anchor_insert_run[OF ht(2) D(2), of len] tl le m(2) by (auto simp: len_def)
  have "[tot..<len] = map (\<lambda>i. i + tot) [0..<16]" using map_add_upt[of tot 16] tl by (simp add: add.commute)
  moreover have "tot \<le> length ks" "len - 16 = tot" using tl by (simp_all add: len_def)
  ultimately have run: "fold_opt (\<lambda>i. anchor_insert env (len - 16 + i) (m_values sc ! i)) [0..<16] ht = Some ht'"
    using ht'(1) unfolding vals
    by (simp only: fold_opt_map) (rule trans, rule fold_opt_cong, auto simp: add.commute)
  define at where "at = \<lparr>a_numBlocks = len div 16, a_numTotalSlots = len, a_hashTableMask = NOT (int (2 ^ m) - 1),
    a_hashTable = ht', a_blockPointers = blocks @ [c + OffsetOfTrailingVarLengthArray]\<rparr>"
  have cr: "anchor_Create env sh c = Some (set_anchor (sh_next sh + 2 ^ m * 2) at ?sh1, sh_next sh + 2 ^ m * 2)"
    using ht(1) run room total(2)
    unfolding anchor_Create_def Let_def struct_at_def c option.sel ns m(1) AllocFromSystemHeap_def block_consts
    by (simp add: drop_bit_eq_div total_def[symmetric] at_def blocks_def OffsetOfTrailingVarLengthArray_def
        split del: if_split)
  have "wf_anchor env sh at ks"
  proof -
    have nb: "len div 16 = Suc (tot div 16)" using tl by (metis add.commute div_add_self2 Suc_eq_plus1 zero_neq_numeral)
    have last: "block_at sh (c + OffsetOfTrailingVarLengthArray) (take 16 (drop (16 * (tot div 16)) ks))"
    proof -
      have "16 * (tot div 16) = tot" using tl pos(2) by (metis add_0 diff_add_inverse2 dvd_diff_nat dvd_mult_div_cancel
        dvd_refl mod_eq_0_iff_dvd)
      moreover have "len - 16 = tot" "length (drop tot ks) = 16" using tl by (simp_all add: len_def)
      ultimately show ?thesis using c vals by (auto simp: block_at_def)
    qed
    show ?thesis unfolding wf_anchor_def
      using pos(2) le bl last ht'(2) m(2) nb
      by (auto simp: at_def len_def nth_append less_Suc_eq intro!: exI[of _ m])
  qed
  then show ?thesis unfolding cr ks_def[symmetric] using total
    by (intro exI[of _ "set_anchor (sh_next sh + 2 ^ m * 2) at ?sh1"] exI[of _ "sh_next sh + 2 ^ m * 2"] exI[of _ at])
      (auto simp: set_anchor_def ns at_def)
qed

section \<open>Promoting a full block to an anchor\<close>

lemma inline_ok_emptied:
  assumes "inline_ok env s ks tot" "m_nonFullBlockLen s' = m_nonFullBlockLen s"
    "m_inlineHashTableMask s' = m_inlineHashTableMask s"
    "m_inlineHashTable s' = inline_memset (m_inlineHashTableMask s + 1)"
  shows "inline_ok env s' ks (length ks)"
proof -
  obtain m where m: "3 \<le> m" "m_inlineHashTableMask s = 2 ^ m - 1" using assms(1) by (auto simp: inline_ok_def)
  have "itbl env ks base m (inline_memset (2 ^ m)) {}" for base
    unfolding inline_memset_def by (rule tbl_empty) (simp add: ie_key_def)
  then show ?thesis using assms m unfolding inline_ok_def by (intro exI[of _ m]) simp
qed

lemma contains_final_iff:
  assumes "wf_struct env sh K ks s"
  shows "IsAnchorTableContainsFinalBlock sh s \<longleftrightarrow>
    m_anchorHashTable s \<noteq> 0 \<and> anchor_total sh s = length ks - length ks mod 16"
  using wf_structD(3)[OF assms]
  by (simp add: IsAnchorTableContainsFinalBlock_def anchor_total_def Let_def block_consts)

lemma BuildNewAnchorTable_correct:
  assumes sh: "wf_sheap env sh K" and c: "sh_structs sh c = Some sc"
    and n: "0 < m_numSlots sc" "m_numSlots sc mod 16 = 0"
    and room: "sh_next sh + 1200 < 2 ^ 32"
  shows "\<exists>sh' p at. BuildNewAnchorTableIfNecessary env sh c = Some (sh', p) \<and>
    wf_sheap env sh' K \<and> sh_ext sh sh' \<and> dom (sh_structs sh') = dom (sh_structs sh) \<and>
    sh_next sh' \<le> sh_next sh + 1200 \<and> (\<forall>a. a \<noteq> c \<longrightarrow> sh_structs sh' a = sh_structs sh a) \<and>
    0 < p \<and> sh_anchors sh' p = Some at \<and> a_numTotalSlots at = m_numSlots sc \<and> wf_anchor env sh' at (K c)"
proof -
  have wf: "wf_struct env sh K (K c) sc" using wf_sheapD(3)[OF sh c] .
  note D = wf_structD[OF wf]
  have len: "length (K c) mod 16 = 0" "0 < length (K c)" using n D(3) by simp_all
  note cf = contains_final_iff[OF wf, unfolded len(1)]
  show ?thesis
  proof (cases "IsAnchorTableContainsFinalBlock sh sc")
    case True
    then obtain at where "sh_anchors sh (m_anchorHashTable sc) = Some at" "m_anchorHashTable sc \<noteq> 0"
      "a_numTotalSlots at = length (K c)" "wf_anchor env sh at (K c)"
      using cf D(7) by (auto simp: anchor_ok_def anchor_total_def anchor_at_def)
    with True sh D(3) show ?thesis
      by (auto simp: BuildNewAnchorTableIfNecessary_def struct_at_def c)
  next
    case False
    have "anchor_total sh sc = 0" if "m_anchorHashTable sc = 0" using that by (simp add: anchor_total_def)
    then have tot: "anchor_total sh sc + 16 = m_numSlots sc" using False cf D(3,8) len by auto
    obtain sh1 p at where cr: "anchor_Create env sh c = Some (sh1, p)" "sh_structs sh1 = sh_structs sh"
      "sh_anchors sh1 = (sh_anchors sh)(p \<mapsto> at)" "sh_next sh \<le> p" "0 < p" "p < sh_next sh1"
      "sh_next sh1 \<le> sh_next sh + 1200" "a_numTotalSlots at = m_numSlots sc" "wf_anchor env sh at (K c)"
      using anchor_Create_correct[OF sh c n tot room] by blast
    define sc' where "sc' = sc\<lparr>m_anchorHashTable := p,
      m_inlineHashTable := inline_memset (m_inlineHashTableMask sc + 1)\<rparr>"
    define sh' where "sh' = set_struct c sc' sh1"
    have B: "BuildNewAnchorTableIfNecessary env sh c = Some (sh', p)"
      using False cr(1,2) c
      by (simp add: BuildNewAnchorTableIfNecessary_def struct_at_def sh'_def sc'_def Let_def)
    have st: "sh_structs sh' = (sh_structs sh)(c \<mapsto> sc')" "sh_anchors sh' = (sh_anchors sh)(p \<mapsto> at)"
      "sh_next sh' = sh_next sh1"
      using cr(2,3) by (simp_all add: sh'_def set_struct_def)
    have old: "sh_anchors sh p = None" using sh cr(4) unfolding wf_sheap_def by (metis leD not_None_eq)
    have ext: "sh_ext sh sh'"
    proof -
      have "struct_eqv sc sc'" unfolding struct_eqv_def sc'_def by blast
      then show ?thesis unfolding sh_ext_def st using c cr(4,6) old by auto
    qed
    have at': "wf_anchor env sh' at (K c)" using wf_anchor_ext[OF ext cr(9)] .
    have "wf_struct env sh' K (K c) sc'"
    proof -
      have t: "anchor_total sh' sc' = length (K c)"
        using cr(5,8) D(3) by (simp add: anchor_total_def anchor_at_def sc'_def st)
      have "inline_ok env sc' (K c) (length (K c))"
        using inline_ok_emptied[OF D(9)] by (simp add: sc'_def)
      moreover have "anchor_ok env sh' p (K c)"
        using at' cr(8) D(3) len(2) by (simp add: anchor_ok_def st)
      moreover have "\<not> HasFinalFullBlockPointer (length (K c))" using len by (simp add: HasFinal_iff)
      ultimately show ?thesis using D t len(1) unfolding wf_struct_def Let_def t by (auto simp: sc'_def)
    qed
    then have "wf_sheap env sh' K"
      using sh wf_struct_ext[OF ext, of K K] cr(4-6) c unfolding wf_sheap_def st
      by (auto split: if_splits) force+
    with B ext st at' cr(5,7,8) c show ?thesis by (auto simp: dom_def)
  qed
qed

end
