(* ===== verification/StructureSetup.thy ===== *)
theory StructureSetup
  imports StructureAnchor
begin

unbundle bit_operations_syntax

text \<open>
  The first half of \<^verbatim>\<open>CreateStructureForTransitionImpl\<close>: in each of its three cases the locals it works out
  describe the key list of the new structure, and the memory copy of the old inline table is requested only
  where the two tables hold the same slots or differ in size.
\<close>

section \<open>The set-up of a transition\<close>

lemma nfbl_Suc:
  shows "ComputeNonFullBlockLength n < 15 \<Longrightarrow> ComputeNonFullBlockLength (Suc n) = Suc (ComputeNonFullBlockLength n)
    \<and> Suc n - Suc n mod 16 = n - n mod 16 \<and> (16 \<le> Suc n \<and> Suc n mod 16 \<noteq> 0 \<longleftrightarrow> 16 \<le> n \<and> n mod 16 \<noteq> 0)"
  "ComputeNonFullBlockLength n = 15 \<Longrightarrow> ComputeNonFullBlockLength (Suc n) = 16 \<and> Suc n mod 16 = 0 \<and> n mod 16 = 15"
  "ComputeNonFullBlockLength n = 16 \<Longrightarrow> ComputeNonFullBlockLength (Suc n) = 1 \<and> Suc n mod 16 = 1 \<and> n mod 16 = 0 \<and> 16 \<le> n"
proof -
  let ?f = ComputeNonFullBlockLength
  note c = NonFullBlockLength_cases[of n] and c' = NonFullBlockLength_cases[of "Suc n"]
  have s: "Suc n mod 16 = (if Suc (n mod 16) = 16 then 0 else Suc (n mod 16))" by (rule mod_Suc)
  show "?f n = 15 \<Longrightarrow> ?f (Suc n) = 16 \<and> Suc n mod 16 = 0 \<and> n mod 16 = 15" using c c' s by auto
  show "?f n = 16 \<Longrightarrow> ?f (Suc n) = 1 \<and> Suc n mod 16 = 1 \<and> n mod 16 = 0 \<and> 16 \<le> n"
    using c c' s NonFullBlockLength_le(1)[of n] mod_less_divisor[of 16 n] by auto
  assume lt: "?f n < 15"
  then have n: "?f n = n mod 16" "Suc n mod 16 = Suc (n mod 16)" using c s by auto
  then have "16 \<le> Suc n \<longleftrightarrow> 16 \<le> n" using lt by (metis Suc_leI le_SucE mod_self nat.distinct(1) not_less_eq_eq le_Suc_eq)
  moreover have "n = 0 \<or> n mod 16 \<noteq> 0" using lt c by auto
  ultimately show "?f (Suc n) = Suc (?f n) \<and> Suc n - Suc n mod 16 = n - n mod 16 \<and>
      (16 \<le> Suc n \<and> Suc n mod 16 \<noteq> 0 \<longleftrightarrow> 16 \<le> n \<and> n mod 16 \<noteq> 0)"
    using n c' by auto
qed

definition tot_of :: "sheap \<Rightarrow> sys_ptr \<Rightarrow> nat" where
  "tot_of sh p = (if p = 0 then 0 else a_numTotalSlots (anchor_at sh p))"

lemma anchor_total_tot_of: "anchor_total sh s = tot_of sh (m_anchorHashTable s)"
  by (simp add: anchor_total_def tot_of_def)

text \<open>
  What the set-up owes the rest of the function, for a structure with keys \<open>ks\<close> that gains \<open>add\<close> keys: which keys
  the new block, the final block pointer, the anchor table and the inline table will account for.
\<close>

definition setup_ok ::
  "vm_env \<Rightarrow> sheap \<Rightarrow> (sys_ptr \<Rightarrow> gkey list) \<Rightarrow> gkey list \<Rightarrow> struct \<Rightarrow> bool \<Rightarrow> transition_setup \<Rightarrow> bool" where
  "setup_ok env sh K ks s add ts \<longleftrightarrow>
     (let n = length ks; n' = n + of_bool add; nf' = ComputeNonFullBlockLength n'; base' = n' - nf';
          tot' = tot_of sh (ts_anchor ts) in
      base' \<le> n \<and> ts_copyLen ts + of_bool add = nf' \<and> take (ts_copyLen ts) (m_values s) = drop base' ks \<and>
      (ts_hasFinalBlockPointer ts \<longleftrightarrow> HasFinalFullBlockPointer n') \<and>
      (ts_hasFinalBlockPointer ts \<longrightarrow> wf_final sh K (ts_finalBlockPointer ts) (take base' ks)) \<and>
      anchor_ok env sh (ts_anchor ts) ks \<and>
      (tot' = n' - n' mod 16 \<or> tot' + 16 = n' - n' mod 16) \<and>
      (ts_mustContainFinalBlock ts \<longleftrightarrow> tot' < base') \<and>
      inline_element_count sh s ts add = n' - tot' \<and>
      (if ts_copyLen ts = 16 \<and> IsAnchorTableContainsFinalBlock sh s then tot' = n' else tot' \<le> base') \<and>
      (ts_mayMemcpy ts \<longrightarrow> tot' = anchor_total sh s \<and> base' = n - m_nonFullBlockLen s \<or>
         n' - tot' = 16 \<and> n - anchor_total sh s = 31))"

lemma setup_okI:
  assumes "ComputeNonFullBlockLength (length ks + of_bool add) = ts_copyLen ts + of_bool add"
    and "length ks - ts_copyLen ts = b" "tot_of sh (ts_anchor ts) = t"
    and "take (ts_copyLen ts) (m_values s) = drop b ks"
    and "ts_hasFinalBlockPointer ts \<longleftrightarrow> HasFinalFullBlockPointer (length ks + of_bool add)"
    and "ts_hasFinalBlockPointer ts \<Longrightarrow> wf_final sh K (ts_finalBlockPointer ts) (take b ks)"
    and "anchor_ok env sh (ts_anchor ts) ks"
    and "t = length ks + of_bool add - (length ks + of_bool add) mod 16 \<or>
      t + 16 = length ks + of_bool add - (length ks + of_bool add) mod 16"
    and "ts_mustContainFinalBlock ts \<longleftrightarrow> t < b"
    and "inline_element_count sh s ts add = length ks + of_bool add - t"
    and "if ts_copyLen ts = 16 \<and> IsAnchorTableContainsFinalBlock sh s then t = length ks + of_bool add else t \<le> b"
    and "ts_mayMemcpy ts \<Longrightarrow> t = anchor_total sh s \<and> b = length ks - m_nonFullBlockLen s \<or>
         length ks + of_bool add - t = 16 \<and> length ks - anchor_total sh s = 31"
  shows "setup_ok env sh K ks s add ts"
  using assms diff_le_self[of "length ks" "ts_copyLen ts"] unfolding setup_ok_def Let_def by simp

lemma setup_new_block_ok:
  assumes sh: "wf_sheap env sh K" and a: "sh_structs sh a = Some s" and nf: "m_nonFullBlockLen s = 16"
  shows "setup_ok env sh K (K a) s True (setup_new_block sh a)"
proof -
  have wf: "wf_struct env sh K (K a) s" using wf_sheapD(3)[OF sh a] .
  note D = wf_structD[OF wf] and cf = contains_final_iff[OF wf]
  let ?n = "length (K a)"
  have n: "ComputeNonFullBlockLength (Suc ?n) = 1" "Suc ?n mod 16 = 1" "?n mod 16 = 0" "16 \<le> ?n"
    using nfbl_Suc(3)[of ?n] D(4) nf by auto
  have z: "m_anchorHashTable s = 0 \<Longrightarrow> anchor_total sh s = 0" by (simp add: anchor_total_def)
  have "wf_final sh K (a + OffsetOfTrailingVarLengthArray + x_hiddenClassBlockSize * sizeof_GeneralHeapPointer) (K a)"
    unfolding wf_final_def using a by auto
  then show ?thesis using n cf D(7,8) z
    by (auto simp: setup_ok_def Let_def setup_new_block_def struct_at_def a anchor_total_tot_of[symmetric]
        inline_element_count_def HasFinal_iff block_consts)
qed

lemma setup_general_ok:
  assumes sh: "wf_sheap env sh K" and a: "sh_structs sh a = Some s" and nf: "add \<longrightarrow> m_nonFullBlockLen s < 15"
  shows "setup_ok env sh K (K a) s add (setup_general sh a)"
proof -
  have wf: "wf_struct env sh K (K a) s" using wf_sheapD(3)[OF sh a] .
  note D = wf_structD[OF wf] and cf = contains_final_iff[OF wf] and sp = wf_struct_shape[OF wf]
  let ?n = "length (K a)" and ?n' = "length (K a) + of_bool add" and ?nf = "m_nonFullBlockLen s"
  define base where "base = ?n - ?nf"
  have n': "ComputeNonFullBlockLength ?n' = ?nf + of_bool add" "?n' - ?n' mod 16 = ?n - ?n mod 16"
    "HasFinalFullBlockPointer ?n' \<longleftrightarrow> HasFinalFullBlockPointer ?n"
    using nfbl_Suc(1)[of ?n] D(4) nf by (cases add; simp add: HasFinal_iff)+
  have le: "?nf \<le> ?n" "?nf \<le> 16" using NonFullBlockLength_le[of ?n] D(4) by simp_all
  have b': "?n' - ComputeNonFullBlockLength ?n' = base" using n'(1) by (simp add: base_def)
  have vals: "take ?nf (m_values s) = drop base (K a)" using D(5) le by (simp add: base_def)
  have z: "m_anchorHashTable s = 0 \<Longrightarrow> anchor_total sh s = 0" by (simp add: anchor_total_def)
  let ?c = "GetHiddenClassOfFullBlockPointer s"
  show ?thesis
  proof (cases "\<not> IsAnchorTableContainsFinalBlock sh s \<and> HasFinalFullBlockPointer ?n \<and>
      IsAnchorTableContainsFinalBlock sh (struct_at sh ?c)")
    case True
    then have "16 \<le> ?n" "?n mod 16 \<noteq> 0" by (simp_all add: HasFinal_iff)
    then have nfv: "?nf = ?n mod 16" "?nf < 16" using NonFullBlockLength_cases[of ?n] D(4) by auto
    have ne: "?n mod 16 \<noteq> 16" using mod_less_divisor[of 16 ?n] by linarith
    have fin: "wf_final sh K (m_finalFullBlockPointer s) (take base (K a))" using D(6) True by (simp add: base_def)
    from full_class[OF this] obtain sb where sb: "sh_structs sh ?c = Some sb" "K ?c = take base (K a)" by blast
    have wfb: "wf_struct env sh K (take base (K a)) sb" using wf_sheapD(3)[OF sh sb(1)] sb(2) by simp
    have bm: "base mod 16 = 0" "base \<le> ?n" using sp(2,1) by (simp_all add: base_def)
    have tb: "m_anchorHashTable sb \<noteq> 0" "anchor_total sh sb = base"
      using True contains_final_iff[OF wfb] sb(1) bm by (simp_all add: struct_at_def)
    have "anchor_ok env sh (m_anchorHashTable sb) (K a)"
      using wf_structD(7)[OF wfb] tb bm(2)
      by (auto simp: anchor_ok_def anchor_total_def anchor_at_def min_def)
    moreover have "base = ?n - ?n mod 16" using nfv by (simp add: base_def)
    moreover have ts: "setup_general sh a = \<lparr>ts_anchor = m_anchorHashTable sb, ts_copyLen = ?nf,
        ts_hasFinalBlockPointer = True, ts_mayMemcpy = False, ts_mustContainFinalBlock = False,
        ts_finalBlockPointer = m_finalFullBlockPointer s\<rparr>"
      using True sb(1) D(3) by (simp add: setup_general_def Let_def struct_at_def a GetFinalFullBlockPointer_def)
    ultimately show ?thesis unfolding ts
      using True n' vals fin tb(2) le nfv ne
      by (intro setup_okI[of _ _ _ base _ base])
        (simp_all add: anchor_total_tot_of inline_element_count_def block_consts base_def)
  next
    case False
    have fin: "HasFinalFullBlockPointer ?n \<Longrightarrow> wf_final sh K (m_finalFullBlockPointer s) (take base (K a))"
      using D(6) by (simp add: base_def)
    define t where "t = anchor_total sh s"
    have ts: "setup_general sh a = \<lparr>ts_anchor = m_anchorHashTable s, ts_copyLen = ?nf,
        ts_hasFinalBlockPointer = HasFinalFullBlockPointer ?n, ts_mayMemcpy = True,
        ts_mustContainFinalBlock = (\<not> IsAnchorTableContainsFinalBlock sh s \<and> HasFinalFullBlockPointer ?n),
        ts_finalBlockPointer = (if HasFinalFullBlockPointer ?n then m_finalFullBlockPointer s else 0)\<rparr>"
      using False D(3) by (auto simp: setup_general_def Let_def struct_at_def a GetFinalFullBlockPointer_def)
    have must: "\<not> IsAnchorTableContainsFinalBlock sh s \<and> HasFinalFullBlockPointer ?n \<longleftrightarrow> t < base"
    proof (cases "HasFinalFullBlockPointer ?n")
      case True
      then have "16 \<le> ?n" "?n mod 16 \<noteq> 0" by (simp_all add: HasFinal_iff)
      then have "base = ?n - ?n mod 16" "0 < base"
        using NonFullBlockLength_cases[of ?n] D(4) mod_less_divisor[of 16 ?n] by (auto simp: base_def)
      then show ?thesis using True cf z D(8) by (auto simp: t_def)
    next
      case False
      with sp(6) show ?thesis by (auto simp: base_def t_def)
    qed
    have skip: "if ?nf = 16 \<and> IsAnchorTableContainsFinalBlock sh s then t = ?n' else t \<le> base"
    proof (cases "?nf = 16")
      case True
      then have "?n mod 16 = 0" "0 < ?n" using NonFullBlockLength_cases[of ?n] D(4) mod_less_divisor[of 16 ?n] by auto
      then show ?thesis using True cf nf z sp(4) D(8) by (auto simp: t_def base_def)
    next
      case False
      then have "t = ?n \<Longrightarrow> ?n = 0" using sp(5) NonFullBlockLength_cases[of ?n] D(4) by (auto simp: t_def)
      then show ?thesis using False sp(4) by (auto simp: t_def base_def)
    qed
    have cnt: "inline_element_count sh s (setup_general sh a) add = ?n' - t"
    proof (cases "?nf = 16")
      case True
      then have m: "?n mod 16 = 0" "0 < ?n" "16 \<le> ?n" "\<not> HasFinalFullBlockPointer ?n"
        using NonFullBlockLength_cases[of ?n] D(4) mod_less_divisor[of 16 ?n] le by (auto simp: HasFinal_iff)
      have "\<not> IsAnchorTableContainsFinalBlock sh s \<Longrightarrow> t + 16 = ?n"
        using m(1,2) cf z D(8) by (auto simp: t_def)
      moreover have "\<not> add" using nf True by auto
      ultimately show ?thesis using True m cf unfolding ts
        by (cases "IsAnchorTableContainsFinalBlock sh s") (auto simp: inline_element_count_def block_consts t_def)
    next
      case False
      then have "?nf < 16" using le by simp
      have b: "base + ?nf = ?n" using le by (simp add: base_def)
      have "t < base \<Longrightarrow> t + 16 = base" using sp(4) le by (auto simp: t_def base_def)
      moreover have "\<not> t < base \<Longrightarrow> t = base" using skip False by auto
      ultimately show ?thesis using False must b unfolding ts
        by (auto simp: inline_element_count_def block_consts)
    qed
    show ?thesis unfolding ts
      using n' vals fin le D(7,8) must skip cnt
      by (intro setup_okI[of _ _ _ base _ t])
        (simp_all add: anchor_total_tot_of[symmetric] base_def t_def ts)
  qed
qed

lemma setup_fills_block_ok:
  assumes sh: "wf_sheap env sh K" and a: "sh_structs sh a = Some s" and nf: "m_nonFullBlockLen s = 15"
    and room: "sh_next sh + 1200 < 2 ^ 32"
  shows "\<exists>sh' ts. setup_fills_block env sh a = Some (sh', ts) \<and> wf_sheap env sh' K \<and> sh_ext sh sh' \<and>
    dom (sh_structs sh') = dom (sh_structs sh) \<and> sh_next sh' \<le> sh_next sh + 1200 \<and>
    sh_structs sh' a = Some s \<and> setup_ok env sh' K (K a) s True ts"
proof -
  have wf: "wf_struct env sh K (K a) s" using wf_sheapD(3)[OF sh a] .
  note D = wf_structD[OF wf]
  let ?n = "length (K a)"
  define base where "base = ?n - 15"
  have n: "ComputeNonFullBlockLength (Suc ?n) = 16" "Suc ?n mod 16 = 0" "?n mod 16 = 15"
    using nfbl_Suc(2)[of ?n] D(4) nf by auto
  have nb: "?n = base + 15" using mod_less_eq_dividend[of ?n 16] unfolding n(3) base_def by simp
  have bm: "base mod 16 = 0" using minus_mod_eq_mult_div[of ?n 16] unfolding n(3) base_def[symmetric] by simp
  have v: "m_values s = drop base (K a)" using D(5) unfolding nf base_def by simp
  with nb have vals: "m_values s = drop base (K a)" "length (m_values s) = 15" by simp_all
  let ?c = "GetHiddenClassOfFullBlockPointer s"
  have key: "\<exists>sh' p. (if m_numSlots s \<ge> x_hiddenClassBlockSize then BuildNewAnchorTableIfNecessary env sh ?c
        else Some (sh, 0)) = Some (sh', p) \<and> wf_sheap env sh' K \<and> sh_ext sh sh' \<and>
      dom (sh_structs sh') = dom (sh_structs sh) \<and> sh_next sh' \<le> sh_next sh + 1200 \<and>
      sh_structs sh' a = Some s \<and> anchor_ok env sh' p (K a) \<and> tot_of sh' p = base"
  proof (cases "16 \<le> ?n")
    case True
    then have hf: "HasFinalFullBlockPointer ?n" using n by (simp add: HasFinal_iff)
    have b16: "0 < base" using True nb by simp
    have "wf_final sh K (m_finalFullBlockPointer s) (take base (K a))" using D(6)[OF hf] nf by (simp add: base_def)
    from full_class[OF this] obtain sb where sb: "sh_structs sh ?c = Some sb" "K ?c = take base (K a)" by blast
    have ns: "m_numSlots sb = base" using wf_structD(3)[OF wf_sheapD(3)[OF sh sb(1)]] sb(2) nb by simp
    obtain sh' p at where B: "BuildNewAnchorTableIfNecessary env sh ?c = Some (sh', p)"
      "wf_sheap env sh' K" "sh_ext sh sh'" "dom (sh_structs sh') = dom (sh_structs sh)"
      "sh_next sh' \<le> sh_next sh + 1200" "\<forall>a. a \<noteq> ?c \<longrightarrow> sh_structs sh' a = sh_structs sh a"
      "0 < p" "sh_anchors sh' p = Some at" "a_numTotalSlots at = base" "wf_anchor env sh' at (take base (K a))"
      using BuildNewAnchorTable_correct[OF sh sb(1) _ _ room] b16 bm ns sb(2) by auto
    have "length (K ?c) = base" using sb(2) nb by simp
    then have "a \<noteq> ?c" using nb by auto
    then have "sh_structs sh' a = Some s" using B(6) a by simp
    moreover have "anchor_ok env sh' p (K a)" using B(7-10) b16 nb by (simp add: anchor_ok_def)
    ultimately show ?thesis using B True D(3) by (simp add: tot_of_def anchor_at_def block_consts)
  next
    case False
    then have "base = 0" using nb by simp
    with False sh a D(3) show ?thesis by (simp add: tot_of_def anchor_ok_def block_consts)
  qed
  then obtain sh' p where B: "(if m_numSlots s \<ge> x_hiddenClassBlockSize then BuildNewAnchorTableIfNecessary env sh ?c
        else Some (sh, 0)) = Some (sh', p)" "wf_sheap env sh' K" "sh_ext sh sh'"
      "dom (sh_structs sh') = dom (sh_structs sh)" "sh_next sh' \<le> sh_next sh + 1200"
      "sh_structs sh' a = Some s" "anchor_ok env sh' p (K a)" "tot_of sh' p = base" by blast
  define ts where "ts = \<lparr>ts_anchor = p, ts_copyLen = 15, ts_hasFinalBlockPointer = False,
    ts_mayMemcpy = (\<not> IsAnchorTableContainsFinalBlock sh' s), ts_mustContainFinalBlock = False, ts_finalBlockPointer = 0\<rparr>"
  have S: "setup_fills_block env sh a = Some (sh', ts)"
    using B(1,6) a by (simp add: setup_fills_block_def Let_def struct_at_def ts_def block_consts)
  have wf': "wf_struct env sh' K (K a) s" using wf_sheapD(3)[OF B(2,6)] .
  have memcpy: "\<not> IsAnchorTableContainsFinalBlock sh' s \<Longrightarrow>
      base = anchor_total sh' s \<and> base = ?n - m_nonFullBlockLen s \<or> ?n - anchor_total sh' s = 31"
  proof -
    assume "\<not> IsAnchorTableContainsFinalBlock sh' s"
    then have c: "m_anchorHashTable s = 0 \<or> anchor_total sh' s \<noteq> base" using contains_final_iff[OF wf'] n(3) nb by simp
    have "anchor_total sh' s = base \<or> anchor_total sh' s + 16 = base" using wf_structD(8)[OF wf'] n(3) nb by simp
    moreover have "m_anchorHashTable s = 0 \<Longrightarrow> anchor_total sh' s = 0" by (simp add: anchor_total_def)
    ultimately show ?thesis using c nb nf by auto
  qed
  have "setup_ok env sh' K (K a) s True ts"
    using n nb vals B(7,8) memcpy
    by (intro setup_okI[of _ _ _ base _ base]) (simp_all add: ts_def inline_element_count_def block_consts HasFinal_iff)
  with S B show ?thesis by blast
qed

end
