(* ===== verification/StructureCreate.thy ===== *)
theory StructureCreate
  imports StructureSetup
begin

unbundle bit_operations_syntax

text \<open>
  The second half of \<^verbatim>\<open>CreateStructureForTransitionImpl\<close>: the inline table, filled by copy or by insertion, and
  the structure that is returned. Creating a structure keeps the invariant, gives the new structure
  the keys of its parent and the added one, and changes no other structure's keys.
\<close>

section \<open>Populating the inline table\<close>

lemma inline_insert_eq:
  assumes "length ht = 2 ^ m"
  shows "inline_insert env (ks ! i) (int i - int base) ht =
    tbl_put (ie_key ks base) (bwd_elem_step (2 ^ m)) ht (bwd_start (ihash env) (2 ^ m) (ks ! i))
      (inline_entry_for env ks base i)"
proof -
  have "tbl_put ie_occupied step xs slot e = tbl_put (ie_key ks base) step xs slot e" for step xs slot e
    by (rule tbl_put_cong) (simp add: ie_occupied_def ie_key_def)
  then show ?thesis using assms
    by (simp add: inline_insert_def Let_def bwd_start_def ihash_def inline_entry_for_def)
qed

lemma ie_key_entry:
  "i < length ks \<Longrightarrow> length ks - base \<le> 16 \<Longrightarrow> ie_key ks base (inline_entry_for env ks base i) = Some (ks ! i)"
  by (simp add: ie_key_def inline_entry_for_def block_consts)

lemma inline_insert_run:
  assumes "itbl env ks base m ht (inline_entry_for env ks base ` {t..<a})"
    and "distinct ks" "length ks - base \<le> 16" "t \<le> a" "a \<le> b" "b \<le> length ks" "b - t \<le> 2 ^ m"
  shows "\<exists>ht'. fold_opt (\<lambda>i. inline_insert env (ks ! i) (int i - int base)) [a..<b] ht = Some ht' \<and>
    itbl env ks base m ht' (inline_entry_for env ks base ` {t..<b})"
proof -
  have "{t..<a} \<union> set [a..<b] = {t..<b}" using assms by auto
  moreover have "\<exists>ht'. fold_opt (\<lambda>i. inline_insert env (ks ! i) (int i - int base)) [a..<b] ht = Some ht' \<and>
    itbl env ks base m ht' (inline_entry_for env ks base ` ({t..<a} \<union> set [a..<b]))"
  proof (rule bwd.fold_put_ok[where kf = "(!) ks", OF assms(1)])
    show "inj_on ((!) ks) ({t..<a} \<union> set [a..<b])"
      using assms by (intro inj_on_nth_ks) auto
    show "ie_key ks base (inline_entry_for env ks base i) = Some (ks ! i)" if "i \<in> {t..<a} \<union> set [a..<b]" for i
      using that assms by (intro ie_key_entry) auto
  qed (use assms inline_insert_eq in auto)
  ultimately show ?thesis by simp
qed

lemma itbl_extend:
  assumes T: "itbl env ks base m ht (inline_entry_for env ks base ` {t..<length ks})"
  shows "itbl env (ks @ ys) base m ht (inline_entry_for env (ks @ ys) base ` {t..<length ks})"
proof -
  have E: "inline_entry_for env (ks @ ys) base ` {t..<length ks} = inline_entry_for env ks base ` {t..<length ks}"
    by (auto simp: inline_entry_for_def nth_append image_iff)
  have "ie_key (ks @ ys) base e = ie_key ks base e" if "e \<in> set ht" for e
  proof (cases "ie_ordinal e = x_inlineHashTableEmptyValue")
    case False
    then have "e \<in> inline_entry_for env ks base ` {t..<length ks}" using that tbl_D(2)[OF T]
      by (auto simp: tbl_entries_def ie_key_def)
    then show ?thesis by (auto simp: ie_key_def inline_entry_for_def nth_append)
  qed (simp add: ie_key_def)
  then show ?thesis using T unfolding E
    by (subst tbl_key_cong[of ht "ie_key (ks @ ys) base" "ie_key ks base"]) auto
qed

lemma inline_ht_size_ok:
  assumes "c \<le> 254"
  shows "\<exists>m\<ge>3. inline_ht_size c = 2 ^ m \<and> 2 * c \<le> 2 ^ m \<and> (2 ^ m \<le> (8::nat) \<or> 2 ^ m < 4 * c)"
proof (cases "c = 0")
  case True
  then show ?thesis by (intro exI[of _ 3]) (simp add: inline_ht_size_def RoundUpToPowerOfTwo_0)
next
  case False
  then obtain m where m: "unat (RoundUpToPowerOfTwo (of_nat c)) * 2 = 2 ^ m" "2 * c \<le> 2 ^ m" "2 ^ m < 4 * c"
    using RoundUp_block[of c] assms by auto
  show ?thesis
  proof (cases "(2::nat) ^ m < 8")
    case True
    then show ?thesis using m by (intro exI[of _ 3]) (simp add: inline_ht_size_def)
  next
    case False
    then have "(2::nat) ^ 3 \<le> 2 ^ m" by simp
    then have "3 \<le> m" by (rule power_le_imp_le_exp[rotated]) simp
    then show ?thesis using m False by (intro exI[of _ m]) (simp add: inline_ht_size_def)
  qed
qed

lemma final_ordinals:
  assumes "16 \<le> b"
  shows "map (\<lambda>j. int j - 16) [0..<16] = map (\<lambda>i. int i - int b) [b - 16..<b]"
proof -
  have "[b - 16..<b] = map (\<lambda>i. i + (b - 16)) [0..<16]"
    using map_add_upt[of "b - 16" 16] assms by (simp add: add.commute)
  then show ?thesis using assms by (simp add: comp_def of_nat_diff del: upt_rec_numeral)
qed

lemma setup_okD:
  assumes ok: "setup_ok env sh K ks s add ts" and n': "n' = length ks + of_bool add"
    and base: "base = n' - ComputeNonFullBlockLength n'" and t: "t = tot_of sh (ts_anchor ts)"
  shows "base \<le> length ks" "ts_copyLen ts + of_bool add = n' - base"
    "ts_hasFinalBlockPointer ts \<longleftrightarrow> HasFinalFullBlockPointer n'"
    "ts_hasFinalBlockPointer ts \<longrightarrow> wf_final sh K (ts_finalBlockPointer ts) (take base ks)"
    "t = n' - n' mod 16 \<or> t + 16 = n' - n' mod 16"
    "ts_mustContainFinalBlock ts \<longleftrightarrow> t < base"
    "if ts_copyLen ts = 16 \<and> IsAnchorTableContainsFinalBlock sh s then t = n' else t \<le> base"
    "ts_mayMemcpy ts \<longrightarrow> t = anchor_total sh s \<and> base = length ks - m_nonFullBlockLen s \<or>
         n' - t = 16 \<and> length ks - anchor_total sh s = 31"
    "inline_element_count sh s ts add = n' - t" "anchor_ok env sh (ts_anchor ts) ks"
    "take (ts_copyLen ts) (m_values s) = drop base ks"
    "ts_copyLen ts + of_bool add = ComputeNonFullBlockLength n'"
proof -
  have c: "n' - base = ComputeNonFullBlockLength n'"
    using NonFullBlockLength_le(1)[of n'] by (simp add: base)
  note ok' = ok[unfolded setup_ok_def Let_def, folded n', folded base, folded t]
  show "ts_copyLen ts + of_bool add = n' - base" using ok' c by simp
qed (use ok[unfolded setup_ok_def Let_def, folded n', folded base, folded t] in simp_all)

text \<open>The two ways of filling the inline table agree on what it holds.\<close>

lemma populate_correct:
  assumes sh: "wf_sheap env sh K" and wf: "wf_struct env sh K ks s" and ok: "setup_ok env sh K ks s add ts"
    and new: "add \<Longrightarrow> key \<notin> set ks" and n': "length ks + of_bool add \<le> 254"
  defines "ks' \<equiv> ks @ (if add then [key] else [])"
  defines "base \<equiv> length ks' - ComputeNonFullBlockLength (length ks')" and "t \<equiv> tot_of sh (ts_anchor ts)"
  shows "\<exists>m ht. 3 \<le> m \<and> inline_ht_size (length ks' - t) = 2 ^ m \<and> 2 * (length ks' - t) \<le> 2 ^ m \<and>
    (2 ^ m \<le> (8::nat) \<or> 2 ^ m < 4 * (length ks' - t)) \<and>
    populate_inline_hash_table env sh s ts add key (2 ^ m) (drop base ks') = Some ht \<and>
    itbl env ks' base m ht (inline_entry_for env ks' base ` {t..<length ks'})"
proof -
  have len: "length ks' = length ks + of_bool add" by (simp add: ks'_def)
  have d: "distinct ks'" using wf_structD(2)[OF wf] new by (auto simp: ks'_def)
  note O = setup_okD[OF ok len refl refl, folded base_def t_def]
  note cl = O(2)
  have b16: "length ks' - base \<le> 16" using NonFullBlockLength_le(2)[of "length ks'"] by (simp add: base_def)
  have tl: "t \<le> length ks'" using O(5) by linarith
  obtain m where m: "3 \<le> m" "inline_ht_size (length ks' - t) = 2 ^ m" "2 * (length ks' - t) \<le> 2 ^ m"
    "(2 ^ m \<le> (8::nat) \<or> 2 ^ m < 4 * (length ks' - t))"
    using inline_ht_size_ok[of "length ks' - t"] n' len by fastforce
  have "\<exists>ht. populate_inline_hash_table env sh s ts add key (2 ^ m) (drop base ks') = Some ht \<and>
    itbl env ks' base m ht (inline_entry_for env ks' base ` {t..<length ks'})"
  proof (cases "ts_mayMemcpy ts \<and> 2 ^ m - 1 = m_inlineHashTableMask s")
    case True
    obtain m0 where m0: "m_inlineHashTableMask s = 2 ^ m0 - 1" "2 * (length ks - anchor_total sh s) \<le> 2 ^ m0"
      and T: "itbl env ks (length ks - m_nonFullBlockLen s) m0 (m_inlineHashTable s)
          (inline_entry_for env ks (length ks - m_nonFullBlockLen s) ` {anchor_total sh s..<length ks})"
      using wf_structD(9)[OF wf] by (auto simp: inline_ok_def)
    have mm: "(2::nat) ^ m = 2 ^ m0" using True m0(1) zero_less_power[of "2::nat" m] zero_less_power[of "2::nat" m0] by linarith
    have "\<not> (length ks' - t = 16 \<and> length ks - anchor_total sh s = 31)"
    proof
      assume a: "length ks' - t = 16 \<and> length ks - anchor_total sh s = 31"
      then have "(2::nat) ^ m < 2 ^ 6" "62 \<le> (2::nat) ^ m" using m(4) m0(2) mm by auto
      then have "m \<le> 5" "62 \<le> (2::nat) ^ m" by (simp_all only: power_strict_increasing_iff)
      then show False using power_increasing[of m 5 "2::nat"] by simp
    qed
    then have tb: "t = anchor_total sh s" "base = length ks - m_nonFullBlockLen s" using O(8) True by auto
    have T': "itbl env ks' base m (m_inlineHashTable s) (inline_entry_for env ks' base ` {t..<length ks})"
      using itbl_extend[OF T] mm unfolding tb ks'_def by simp
    show ?thesis
    proof (cases add)
      case add: True
      have "t \<le> length ks" using wf_struct_shape(7)[OF wf] tb by simp
      then have "\<exists>ht'. fold_opt (\<lambda>i. inline_insert env (ks' ! i) (int i - int base)) [length ks..<length ks'] (m_inlineHashTable s) = Some ht' \<and>
          itbl env ks' base m ht' (inline_entry_for env ks' base ` {t..<length ks'})"
        using m(3) by (intro inline_insert_run[OF T' d b16]) (auto simp: len)
      moreover have "ks' ! length ks = key" "[length ks..<length ks'] = [length ks]" "int (ts_copyLen ts) = int (length ks) - int base"
        using add O(1) cl len by (simp_all add: ks'_def)
      ultimately show ?thesis using True add
        by (simp add: populate_inline_hash_table_def split: option.splits)
    next
      case False
      with True T' show ?thesis by (simp add: populate_inline_hash_table_def ks'_def)
    qed
  next
    case False
    have E0: "itbl env ks' base m (inline_memset (2 ^ m)) {}"
      unfolding inline_memset_def by (rule tbl_empty) (simp add: ie_key_def)
    let ?final = "if ts_mustContainFinalBlock ts
               then fold_opt (\<lambda>i. inline_insert env (read_block_end sh (ts_finalBlockPointer ts) i) i)
                      (map (\<lambda>j. int j - int x_hiddenClassBlockSize) [0..<x_hiddenClassBlockSize])
                      (inline_memset (2 ^ m))
               else Some (inline_memset (2 ^ m))"
    have fin: "\<exists>ht. ?final = Some ht \<and> itbl env ks' base m ht (inline_entry_for env ks' base ` {t..<base})" if "t \<le> base"
    proof (cases "ts_mustContainFinalBlock ts")
      case True
      then have lt: "t < base" using O(6) by simp
      have b': "base = length ks' - length ks' mod 16 \<or> length ks' mod 16 = 0"
        using NonFullBlockLength_cases[of "length ks'"] by (auto simp: base_def)
      have hf: "HasFinalFullBlockPointer (length ks')" and t16: "t + 16 = base"
        using lt O(5) b' NonFullBlockLength_cases[of "length ks'"] NonFullBlockLength_le[of "length ks'"]
        by (auto simp: HasFinal_iff base_def)
      have f: "wf_final sh K (ts_finalBlockPointer ts) (take base ks)" using O(3,4) hf by simp
      have bm: "base mod 16 = 0" using hf NonFullBlockLength_cases[of "length ks'"]
        by (auto simp: HasFinal_iff base_def minus_mod_eq_mult_div)
      have nth: "read_block_end sh (ts_finalBlockPointer ts) (int i - int base) = ks' ! i" if "t \<le> i" "i < base" for i
        using final_block_nth[OF sh f, of "int i - int base"] O(1) bm t16 that
        by (simp add: ks'_def nth_append)
      have "?final = fold_opt (\<lambda>i. inline_insert env (read_block_end sh (ts_finalBlockPointer ts) (int i - int base)) (int i - int base))
          [base - 16..<base] (inline_memset (2 ^ m))"
        using True final_ordinals[of base] t16 by (simp add: block_consts fold_opt_map del: upt_rec_numeral)
      also have "\<dots> = fold_opt (\<lambda>i. inline_insert env (ks' ! i) (int i - int base)) [t..<base] (inline_memset (2 ^ m))"
        using nth t16 by (intro fold_opt_cong) auto
      finally have e: "?final = \<dots>" .
      have "\<exists>ht'. fold_opt (\<lambda>i. inline_insert env (ks' ! i) (int i - int base)) [t..<base] (inline_memset (2 ^ m)) = Some ht' \<and>
          itbl env ks' base m ht' (inline_entry_for env ks' base ` {t..<base})"
        using m(3) lt E0 O(1) len by (intro inline_insert_run[OF _ d b16]) auto
      then show ?thesis unfolding e .
    next
      case False
      then have "t = base" using that O(6) by simp
      then show ?thesis using False E0 by simp
    qed
    show ?thesis
    proof (cases "ts_copyLen ts = 16 \<and> IsAnchorTableContainsFinalBlock sh s")
      case True
      then have "t = length ks'" using O(7) by simp
      moreover have "\<not> ts_mustContainFinalBlock ts" using O(1,6) len calculation by simp
      ultimately show ?thesis using False True E0 by (auto simp: populate_inline_hash_table_def block_consts)
    next
      case nskip: False
      then have tb: "t \<le> base" using O(7) by simp
      from fin[OF tb] obtain ht where ht: "?final = Some ht"
        "itbl env ks' base m ht (inline_entry_for env ks' base ` {t..<base})" by blast
      obtain ht' where ht': "fold_opt (\<lambda>i. inline_insert env (ks' ! i) (int i - int base)) [base..<length ks'] ht = Some ht'"
          "itbl env ks' base m ht' (inline_entry_for env ks' base ` {t..<length ks'})"
        using inline_insert_run[OF ht(2) d b16 tb, of "length ks'"] m(3) O(1) len by auto
      have "[base..<length ks'] = map (\<lambda>i. i + base) [0..<length (drop base ks')]"
        using map_add_upt[of base "length ks' - base"] O(1) len by (simp add: add.commute)
      then have "fold_opt (\<lambda>i. inline_insert env (drop base ks' ! i) (int i)) [0..<length (drop base ks')] ht = Some ht'"
        using ht'(1) by (simp only: fold_opt_map) (rule trans, rule fold_opt_cong, auto simp: add.commute)
      with ht(1) ht'(2) False nskip show ?thesis
        unfolding populate_inline_hash_table_def by (auto simp: block_consts)
    qed
  qed
  with m show ?thesis by blast
qed

section \<open>The created structure\<close>

lemma transition_setup_ok:
  assumes sh: "wf_sheap env sh K" and a: "sh_structs sh a = Some s"
    and room: "sh_next sh + 1200 < 2 ^ 32"
  shows "\<exists>sh' ts. transition_setup_for env sh a add = Some (sh', ts) \<and> wf_sheap env sh' K \<and> sh_ext sh sh' \<and>
    dom (sh_structs sh') = dom (sh_structs sh) \<and> sh_next sh' \<le> sh_next sh + 1200 \<and>
    sh_structs sh' a = Some s \<and> setup_ok env sh' K (K a) s add ts"
proof -
  have s: "struct_at sh a = s" using a by (simp add: struct_at_def)
  have "m_nonFullBlockLen s \<le> 16"
    using wf_structD(4)[OF wf_sheapD(3)[OF sh a]] NonFullBlockLength_le(2) by simp
  then consider "add" "m_nonFullBlockLen s = 15" | "add" "m_nonFullBlockLen s = 16" | "add \<longrightarrow> m_nonFullBlockLen s < 15"
    by linarith
  then show ?thesis
  proof cases
    case 1
    then show ?thesis using setup_fills_block_ok[OF sh a _ room]
      by (simp add: transition_setup_for_def s block_consts)
  next
    case 2
    then show ?thesis using setup_new_block_ok[OF sh a] sh a
      by (simp add: transition_setup_for_def s block_consts)
  next
    case 3
    then show ?thesis using setup_general_ok[OF sh a, of add] sh a
      by (auto simp: transition_setup_for_def s block_consts)
  qed
qed

lemma next_irrelevant [simp]:
  "read_block_end (sh\<lparr>sh_next := x\<rparr>) = read_block_end sh"
  "IsAnchorTableContainsFinalBlock (sh\<lparr>sh_next := x\<rparr>) = IsAnchorTableContainsFinalBlock sh"
  by (intro ext; simp add: read_block_end_def read_block_def struct_at_def IsAnchorTableContainsFinalBlock_def anchor_at_def)+

lemma populate_next [simp]: "populate_inline_hash_table env (sh\<lparr>sh_next := x\<rparr>) = populate_inline_hash_table env sh"
  by (intro ext) (simp only: populate_inline_hash_table_def next_irrelevant)

definition new_keys :: "SlotAdditionKind \<Rightarrow> gkey \<Rightarrow> gkey list" where
  "new_keys kind key = (if kind = NoSlotAdded then [] else [key])"

definition created_from :: "vm_env \<Rightarrow> sys_ptr \<Rightarrow> struct \<Rightarrow> SlotAdditionKind \<Rightarrow> gkey \<Rightarrow> struct \<Rightarrow> bool" where
  "created_from env self s kind key r \<longleftrightarrow>
     (let expansion = butterfly_expansion s (kind \<noteq> NoSlotAdded) in
      m_arrayType r = (if kind = AddSlotForPolyMetatable then SetMayHaveMetatable True (m_arrayType s)
        else m_arrayType s) \<and>
      m_knownNonexistentMetamethods r = metamethods_after env kind key (m_knownNonexistentMetamethods s) \<and>
      m_inlineNamedStorageCapacity r = m_inlineNamedStorageCapacity s \<and>
      m_butterflyNamedStorageCapacity r =
        (case expansion of Some c \<Rightarrow> c | None \<Rightarrow> m_butterflyNamedStorageCapacity s) \<and>
      m_parentEdgeTransitionKind r = transition_kind kind (expansion \<noteq> None) \<and>
      m_parent r = self \<and>
      m_metatable r = (if kind = AddSlotForPolyMetatable then int (m_numSlots s) + 1 else m_metatable s) \<and>
      m_transitionTable r = NoTransition)"

lemma CreateStructureForTransition_correct:
  assumes sh: "wf_sheap env sh K" and a: "sh_structs sh a = Some s"
    and new: "kind \<noteq> NoSlotAdded \<Longrightarrow> key \<notin> set (K a)" and n': "length (K a @ new_keys kind key) \<le> 254"
    and room: "sh_next sh + 2000 < 2 ^ 32"
  shows "\<exists>sh' r sr. CreateStructureForTransitionImpl env sh a kind key = Some (sh', r) \<and>
    wf_sheap env sh' (K(r := K a @ new_keys kind key)) \<and> sh_ext sh sh' \<and>
    sh_structs sh r = None \<and> dom (sh_structs sh') = insert r (dom (sh_structs sh)) \<and> 0 < r \<and>
    sh_next sh' \<le> sh_next sh + 2000 \<and> sh_structs sh' r = Some sr \<and> created_from env a s kind key sr"
proof -
  define add where "add = (kind \<noteq> NoSlotAdded)"
  define ks' where "ks' = K a @ new_keys kind key"
  have ks': "ks' = K a @ (if add then [key] else [])" by (simp add: ks'_def new_keys_def add_def)
  have len: "length ks' = length (K a) + of_bool add" "length ks' \<le> 254" using n' by (simp_all add: ks' flip: ks'_def)
  obtain sh1 ts where S: "transition_setup_for env sh a add = Some (sh1, ts)" "wf_sheap env sh1 K" "sh_ext sh sh1"
    "dom (sh_structs sh1) = dom (sh_structs sh)" "sh_next sh1 \<le> sh_next sh + 1200" "sh_structs sh1 a = Some s"
    "setup_ok env sh1 K (K a) s add ts"
    using transition_setup_ok[OF sh a, of add] room by auto
  have wf: "wf_struct env sh1 K (K a) s" using wf_sheapD(3)[OF S(2,6)] .
  define base where "base = length ks' - ComputeNonFullBlockLength (length ks')"
  define t where "t = tot_of sh1 (ts_anchor ts)"
  obtain m ht where P: "3 \<le> m" "inline_ht_size (length ks' - t) = 2 ^ m" "2 * (length ks' - t) \<le> 2 ^ m"
    "2 ^ m \<le> (8::nat) \<or> 2 ^ m < 4 * (length ks' - t)"
    "populate_inline_hash_table env sh1 s ts add key (2 ^ m) (drop base ks') = Some ht"
    "itbl env ks' base m ht (inline_entry_for env ks' base ` {t..<length ks'})"
    using populate_correct[OF S(2) wf S(7), of key] new len
    unfolding ks'[symmetric] base_def[symmetric] t_def[symmetric] by (auto simp: add_def)
  note O = setup_okD[OF S(7) len(1) refl refl, folded base_def t_def]
  define total where "total = round8 (2 * 2 ^ m + 32 + ComputeTrailingVarLengthArrayLengthBytes (length ks'))"
  have total: "2 * 2 ^ m < total" "total \<le> 800"
  proof -
    have "length ks' - t \<le> 32" using O(5) mod_less_divisor[of 16 "length ks'"] by linarith
    then have "2 ^ m \<le> (128::nat)" using P(4) by linarith
    moreover have "ComputeTrailingVarLengthArrayLengthBytes (length ks') \<le> 68"
      using NonFullBlockLength_le(2)[of "length ks'"]
      by (simp add: ComputeTrailingVarLengthArrayLengthBytes_def block_consts)
    ultimately show "2 * 2 ^ m < total" "total \<le> 800" unfolding total_def round8_def by auto
  qed
  define sh2 where "sh2 = sh1\<lparr>sh_next := sh_next sh1 + total\<rparr>"
  define r where "r = sh_next sh1 + 2 * 2 ^ m"
  have vals: "take (ts_copyLen ts) (m_values s) @ (if add then [key] else []) = drop base ks'"
    using O(1,11) by (simp add: ks')
  have pop: "populate_inline_hash_table env sh2 s ts add key (2 ^ m) (drop base ks') = Some ht"
    using P(5) by (simp add: sh2_def)
  define sr where "sr =
    \<lparr>m_numSlots = length ks', m_nonFullBlockLen = ts_copyLen ts + of_bool add, m_anchorHashTable = ts_anchor ts,
     m_arrayType = (if kind = AddSlotForPolyMetatable then SetMayHaveMetatable True (m_arrayType s) else m_arrayType s),
     m_knownNonexistentMetamethods = metamethods_after env kind key (m_knownNonexistentMetamethods s),
     m_inlineHashTableMask = 2 ^ m - 1, m_inlineNamedStorageCapacity = m_inlineNamedStorageCapacity s,
     m_butterflyNamedStorageCapacity =
       (case butterfly_expansion s add of Some c \<Rightarrow> c | None \<Rightarrow> m_butterflyNamedStorageCapacity s),
     m_parentEdgeTransitionKind = transition_kind kind (butterfly_expansion s add \<noteq> None),
     m_parent = a,
     m_metatable = (if kind = AddSlotForPolyMetatable then int (length ks') else m_metatable s),
     m_transitionTable = NoTransition, m_values = drop base ks',
     m_finalFullBlockPointer = (if ts_hasFinalBlockPointer ts then ts_finalBlockPointer ts else 0),
     m_inlineHashTable = ht\<rparr>"
  have ns: "m_numSlots s + of_bool add = length ks'" using wf_structD(3)[OF wf] len by simp
  have cr: "CreateStructureForTransitionImpl env sh a kind key = Some (set_struct r sr sh2, r)"
  proof -
    have st: "struct_at sh1 a = s" using S(6) by (simp add: struct_at_def)
    have al: "AllocFromSystemHeap sh1 total = Some (sh2, sh_next sh1)"
      using room S(5) total by (simp add: AllocFromSystemHeap_def sh2_def)
    show ?thesis
      unfolding CreateStructureForTransitionImpl_def Let_def add_def[symmetric] S(1) option.case prod.case st O(9) P(2)
        block_consts ns total_def[symmetric] al vals pop
      by (simp add: sr_def r_def)
  qed
  define sh' where "sh' = set_struct r sr sh2"
  have st': "sh_structs sh' = (sh_structs sh1)(r \<mapsto> sr)" "sh_anchors sh' = sh_anchors sh1" "sh_next sh' = sh_next sh1 + total"
    by (simp_all add: sh'_def set_struct_def sh2_def)
  have fresh1: "sh_structs sh1 r = None" using wf_sheapD(2)[OF S(2)] unfolding r_def by fastforce
  then have fresh: "sh_structs sh r = None" using S(4) by (metis domIff)
  have ext: "sh_ext sh1 sh'" unfolding sh_ext_def st' using fresh1 by auto
  have Keq: "(K(r := ks')) x = K x" if "sh_structs sh1 x = Some sx" for x sx using that fresh1 by auto
  have wfr: "wf_struct env sh' (K(r := ks')) ks' sr"
  proof -
    have tt: "anchor_total sh' sr = t"
      by (simp add: anchor_total_tot_of t_def sr_def tot_of_def anchor_at_def st')
    have "anchor_ok env sh1 (ts_anchor ts) ks'" using O(10) by (auto simp: anchor_ok_def ks')
    then have "anchor_ok env sh' (ts_anchor ts) ks'" by (rule anchor_ok_ext[OF ext])
    moreover have "wf_final sh' (K(r := ks')) (ts_finalBlockPointer ts) (take base ks')" if "HasFinalFullBlockPointer (length ks')"
    proof -
      have "wf_final sh1 K (ts_finalBlockPointer ts) (take base (K a))" using that O(3,4) by simp
      then have "wf_final sh' (K(r := ks')) (ts_finalBlockPointer ts) (take base (K a))"
        using Keq by (rule wf_final_ext[OF ext, rotated])
      moreover have "take base ks' = take base (K a)" using O(1) by (simp add: ks')
      ultimately show ?thesis by simp
    qed
    moreover have "inline_ok env sr ks' t"
      using P(1,3,6) O(12) by (auto simp: inline_ok_def sr_def base_def intro!: exI[of _ m])
    moreover have "distinct ks'" using wf_structD(2)[OF wf] new by (auto simp: ks' add_def)
    ultimately show ?thesis using len(2) O(3,5,12) unfolding wf_struct_def Let_def tt base_def[symmetric]
      by (simp add: sr_def)
  qed
  have "wf_sheap env sh' (K(r := ks'))"
    unfolding wf_sheap_def
  proof (intro conjI allI impI)
    fix x sx assume x: "sh_structs sh' x = Some sx"
    have "0 < x \<and> x < sh_next sh' \<and> wf_struct env sh' (K(r := ks')) ((K(r := ks')) x) sx"
    proof (cases "x = r")
      case True
      with x wfr total show ?thesis unfolding st' by (simp add: r_def)
    next
      case False
      with x have x1: "sh_structs sh1 x = Some sx" unfolding st' by simp
      have "wf_struct env sh' (K(r := ks')) (K x) sx"
        using Keq wf_sheapD(3)[OF S(2) x1] by (rule wf_struct_ext[OF ext])
      with wf_sheapD(1,2)[OF S(2) x1] False show ?thesis unfolding st' by simp
    qed
    then show "0 < x" "x < sh_next sh'" "wf_struct env sh' (K(r := ks')) ((K(r := ks')) x) sx" by auto
  next
    fix x at assume "sh_anchors sh' x = Some at"
    then show "0 < x" "x < sh_next sh'" using S(2) unfolding wf_sheap_def st' by fastforce+
  qed
  then show ?thesis
    using cr sh_ext_trans[OF S(3) ext] fresh S(4,5) st' total ns
    unfolding ks'_def[symmetric] sh'_def[symmetric]
    by (intro exI[of _ sh'] exI[of _ r] exI[of _ sr])
      (auto simp: created_from_def Let_def sr_def add_def r_def)
qed

end
