(* ===== verification/StructureTransition.thy ===== *)
theory StructureTransition
  imports StructureCreate
begin

unbundle bit_operations_syntax

text \<open>
  The transitions of \<^verbatim>\<open>runtime/structure.h\<close>: the query of a structure's transition table with insertion or
  replacement of the child, and the operations that the table object calls on a structure, adding a property,
  setting and removing a metatable and changing the array type.
\<close>

section \<open>The transition key of a structure\<close>

definition GetParentEdgeTransitionKey :: "struct \<Rightarrow> transition_key" where
  "GetParentEdgeTransitionKey self =
     (case m_parentEdgeTransitionKind self of
        AddProperty \<Rightarrow> GetLastAddedKey self
      | AddPropertyAndGrowPropertyStorageCapacity \<Rightarrow> GetLastAddedKey self
      | AddMetaTable \<Rightarrow> x_key_add_or_to_poly_metatable
      | TransitToPolyMetaTable \<Rightarrow> x_key_add_or_to_poly_metatable
      | TransitToPolyMetaTableAndGrowPropertyStorageCapacity \<Rightarrow> x_key_add_or_to_poly_metatable
      | RemoveMetaTable \<Rightarrow> x_key_remove_metatable
      | UpdateArrayTypeKind \<Rightarrow> x_key_change_array_type_tag OR uint (m_arrayType self)
      | BadTransitionKind \<Rightarrow> x_key_invalid)"

definition IsPolyMetatable :: "struct \<Rightarrow> bool" where "IsPolyMetatable self \<longleftrightarrow> m_metatable self > 0"
definition HasNoMetatable :: "struct \<Rightarrow> bool" where "HasNoMetatable self \<longleftrightarrow> m_metatable self = 0"
definition HasMonomorphicMetatable :: "struct \<Rightarrow> bool" where
  "HasMonomorphicMetatable self \<longleftrightarrow> m_metatable self < 0"
definition GetPolyMetatableSlot :: "struct \<Rightarrow> nat" where
  "GetPolyMetatableSlot self = nat (m_metatable self - 1)"
definition IsSlotUsedByPolyMetatable :: "struct \<Rightarrow> nat \<Rightarrow> bool" where
  "IsSlotUsedByPolyMetatable self slot \<longleftrightarrow> m_metatable self = int slot + 1"

section \<open>Querying the transition table\<close>

text \<open>
  The function argument of the query creates or chooses the child: it gets the current child, if any, and
  the heap.
\<close>

type_synonym upsert_func = "sys_ptr option \<Rightarrow> sheap \<Rightarrow> (sheap \<times> sys_ptr) option"

definition set_transition :: "sys_ptr \<Rightarrow> transition_ref \<Rightarrow> sheap \<Rightarrow> sheap" where
  "set_transition p x sh = set_struct p ((struct_at sh p)\<lparr>m_transitionTable := x\<rparr>) sh"

definition tt_alloc :: "sheap \<Rightarrow> nat \<Rightarrow> sheap option" where
  "tt_alloc sh hashTableSize = map_option fst (AllocFromSystemHeap sh (tt_ComputeAllocationSize hashTableSize))"

definition query_no_transition :: "sheap \<Rightarrow> sys_ptr \<Rightarrow> upsert_func \<Rightarrow> (sheap \<times> sys_ptr) option" where
  "query_no_transition sh self f =
     (case f None sh of None \<Rightarrow> None
      | Some (sh, newStructure) \<Rightarrow> Some (set_transition self (OnlyChild newStructure) sh, newStructure))"

definition query_only_child ::
  "bool \<Rightarrow> vm_env \<Rightarrow> sheap \<Rightarrow> sys_ptr \<Rightarrow> transition_key \<Rightarrow> sys_ptr \<Rightarrow> upsert_func \<Rightarrow> (sheap \<times> sys_ptr) option" where
  "query_only_child isInsert env sh self transitionKey onlyChild f =
     (let keyForOnlyChild = GetParentEdgeTransitionKey (struct_at sh onlyChild) in
      if keyForOnlyChild = transitionKey then
        if isInsert then Some (sh, onlyChild)
        else (case f (Some onlyChild) sh of None \<Rightarrow> None
              | Some (sh, newStructure) \<Rightarrow> Some (set_transition self (OnlyChild newStructure) sh, newStructure))
      else
        (case tt_alloc sh x_initialHashTableSize of None \<Rightarrow> None
         | Some sh \<Rightarrow>
           (case AllocateInitialTable (env_hashPrim32 env) keyForOnlyChild onlyChild of None \<Rightarrow> None
            | Some newTable \<Rightarrow>
              (case tt_Find (env_hashPrim32 env) newTable transitionKey of None \<Rightarrow> None
               | Some (found, e) \<Rightarrow>
                 (case f None (set_transition self (Outlined newTable) sh) of None \<Rightarrow> None
                  | Some (sh, newStructure) \<Rightarrow>
                    Some (set_transition self (Outlined (tt_add_entry e transitionKey newStructure newTable)) sh,
                      newStructure))))))"

definition query_outlined ::
  "bool \<Rightarrow> vm_env \<Rightarrow> sheap \<Rightarrow> sys_ptr \<Rightarrow> transition_key \<Rightarrow> transition_table \<Rightarrow> upsert_func \<Rightarrow>
   (sheap \<times> sys_ptr) option" where
  "query_outlined isInsert env sh self transitionKey table f =
     (case tt_Find (env_hashPrim32 env) table transitionKey of None \<Rightarrow> None
      | Some (found, e) \<Rightarrow>
        if \<not> found then
          (case f None sh of None \<Rightarrow> None
           | Some (sh, newStructure) \<Rightarrow>
             (let added = tt_add_entry e transitionKey newStructure table in
              case (if ShouldResizeForThisInsertion added then tt_alloc sh (tt_hashTableMask added * 2 + 2)
                    else Some sh) of None \<Rightarrow> None
              | Some sh \<Rightarrow>
                (case tt_insert_not_found (env_hashPrim32 env) e transitionKey newStructure table of None \<Rightarrow> None
                 | Some newTable \<Rightarrow> Some (set_transition self (Outlined newTable) sh, newStructure))))
        else
          (let curStructure = te_value (tt_hashTable table ! e) in
           if isInsert then Some (sh, curStructure)
           else (case f (Some curStructure) sh of None \<Rightarrow> None
                 | Some (sh, newStructure) \<Rightarrow>
                   Some (set_transition self (Outlined (tt_write e transitionKey newStructure table)) sh,
                     newStructure))))"

definition QueryTransitionTableAndInsertOrUpsertImpl ::
  "bool \<Rightarrow> vm_env \<Rightarrow> sheap \<Rightarrow> sys_ptr \<Rightarrow> transition_key \<Rightarrow> upsert_func \<Rightarrow> (sheap \<times> sys_ptr) option" where
  "QueryTransitionTableAndInsertOrUpsertImpl isInsert env sh self transitionKey f =
     (case m_transitionTable (struct_at sh self) of
        NoTransition \<Rightarrow> query_no_transition sh self f
      | OnlyChild onlyChild \<Rightarrow> query_only_child isInsert env sh self transitionKey onlyChild f
      | Outlined table \<Rightarrow> query_outlined isInsert env sh self transitionKey table f)"

definition QueryTransitionTableAndInsert ::
  "vm_env \<Rightarrow> sheap \<Rightarrow> sys_ptr \<Rightarrow> transition_key \<Rightarrow> (sheap \<Rightarrow> (sheap \<times> sys_ptr) option) \<Rightarrow>
   (sheap \<times> sys_ptr) option" where
  "QueryTransitionTableAndInsert env sh self transitionKey insertStructureFunc =
     QueryTransitionTableAndInsertOrUpsertImpl True env sh self transitionKey (\<lambda>_. insertStructureFunc)"

definition QueryTransitionTableAndUpsert ::
  "vm_env \<Rightarrow> sheap \<Rightarrow> sys_ptr \<Rightarrow> transition_key \<Rightarrow> upsert_func \<Rightarrow> (sheap \<times> sys_ptr) option" where
  "QueryTransitionTableAndUpsert env sh self transitionKey upsertStructureFunc =
     QueryTransitionTableAndInsertOrUpsertImpl False env sh self transitionKey upsertStructureFunc"

section \<open>Creating the child of each transition\<close>

definition CreateStructureForAddPropertyTransition ::
  "vm_env \<Rightarrow> sys_ptr \<Rightarrow> gkey \<Rightarrow> sheap \<Rightarrow> (sheap \<times> sys_ptr) option" where
  "CreateStructureForAddPropertyTransition env self key sh =
     CreateStructureForTransitionImpl env sh self AddSlotForProperty key"

definition CreateStructureForPolyMetatableTransition ::
  "vm_env \<Rightarrow> sys_ptr \<Rightarrow> sheap \<Rightarrow> (sheap \<times> sys_ptr) option" where
  "CreateStructureForPolyMetatableTransition env self sh =
     CreateStructureForTransitionImpl env sh self AddSlotForPolyMetatable (env_specialKey env)"

definition CloneStructure :: "vm_env \<Rightarrow> sys_ptr \<Rightarrow> sheap \<Rightarrow> (sheap \<times> sys_ptr) option" where
  "CloneStructure env self sh = CreateStructureForTransitionImpl env sh self NoSlotAdded 0"

text \<open>The callers of \<^verbatim>\<open>CloneStructure\<close> then write the fields in which the new structure differs.\<close>

definition update_struct :: "sys_ptr \<Rightarrow> (struct \<Rightarrow> struct) \<Rightarrow> sheap \<Rightarrow> sheap" where
  "update_struct p g sh = set_struct p (g (struct_at sh p)) sh"

definition CreateStructureForMonomorphicMetatableTransition ::
  "vm_env \<Rightarrow> sys_ptr \<Rightarrow> int \<Rightarrow> sheap \<Rightarrow> (sheap \<times> sys_ptr) option" where
  "CreateStructureForMonomorphicMetatableTransition env self metatable sh =
     (case CloneStructure env self sh of None \<Rightarrow> None
      | Some (sh, r) \<Rightarrow>
          Some (update_struct r (\<lambda>s. s\<lparr>m_parentEdgeTransitionKind := AddMetaTable, m_metatable := metatable,
            m_arrayType := SetMayHaveMetatable True (m_arrayType s)\<rparr>) sh, r))"

definition CreateStructureForRemoveMetatableTransition ::
  "vm_env \<Rightarrow> sys_ptr \<Rightarrow> sheap \<Rightarrow> (sheap \<times> sys_ptr) option" where
  "CreateStructureForRemoveMetatableTransition env self sh =
     (case CloneStructure env self sh of None \<Rightarrow> None
      | Some (sh, r) \<Rightarrow>
          Some (update_struct r (\<lambda>s. s\<lparr>m_parentEdgeTransitionKind := RemoveMetaTable, m_metatable := 0,
            m_arrayType := SetMayHaveMetatable False (m_arrayType s)\<rparr>) sh, r))"

definition CreateStructureForUpdateArrayType ::
  "vm_env \<Rightarrow> sys_ptr \<Rightarrow> u8 \<Rightarrow> sheap \<Rightarrow> (sheap \<times> sys_ptr) option" where
  "CreateStructureForUpdateArrayType env self newArrayType sh =
     (case CloneStructure env self sh of None \<Rightarrow> None
      | Some (sh, r) \<Rightarrow>
          Some (update_struct r (\<lambda>s. s\<lparr>m_parentEdgeTransitionKind := UpdateArrayTypeKind,
            m_arrayType := newArrayType\<rparr>) sh, r))"

section \<open>The operations\<close>

datatype AddNewPropertyResult =
    TransitionToDictionaryMode
  | AddedProperty (an_shouldGrowButterfly: bool) (an_slotOrdinal: nat) (an_newStructure: sys_ptr)

definition AddNonExistentProperty ::
  "vm_env \<Rightarrow> sheap \<Rightarrow> sys_ptr \<Rightarrow> gkey \<Rightarrow> (sheap \<times> AddNewPropertyResult) option" where
  "AddNonExistentProperty env sh self key =
     (let numSlots = m_numSlots (struct_at sh self) in
      if numSlots \<ge> x_maxNumSlots then Some (sh, TransitionToDictionaryMode)
      else
        (case QueryTransitionTableAndInsert env sh self key
                (CreateStructureForAddPropertyTransition env self key) of None \<Rightarrow> None
         | Some (sh, transitionStructure) \<Rightarrow>
           (let tkind = m_parentEdgeTransitionKind (struct_at sh transitionStructure) in
            Some (sh, AddedProperty (tkind = AddPropertyAndGrowPropertyStorageCapacity) numSlots
              transitionStructure))))"

record AddMetatableResult =
  am_shouldInsertMetatable :: bool
  am_shouldGrowButterfly :: bool
  am_slotOrdinal :: nat
  am_newStructure :: sys_ptr

text \<open>The upsert functions \<^verbatim>\<open>SetMetatable\<close> passes for a structure without and with a metatable of its own.\<close>

definition setmt_upsert_none :: "vm_env \<Rightarrow> sys_ptr \<Rightarrow> int \<Rightarrow> upsert_func" where
  "setmt_upsert_none env self metatable oldStructure sh =
     (case oldStructure of
        None \<Rightarrow> CreateStructureForMonomorphicMetatableTransition env self metatable sh
      | Some old \<Rightarrow>
          if HasMonomorphicMetatable (struct_at sh old) then
            if m_metatable (struct_at sh old) = metatable then Some (sh, old)
            else CreateStructureForPolyMetatableTransition env self sh
          else Some (sh, old))"

definition setmt_upsert_parent :: "vm_env \<Rightarrow> sys_ptr \<Rightarrow> sys_ptr \<Rightarrow> upsert_func" where
  "setmt_upsert_parent env base self oldStructure sh =
     (case oldStructure of
        None \<Rightarrow> None
      | Some old \<Rightarrow>
          if old = self then CreateStructureForPolyMetatableTransition env base sh else Some (sh, old))"

definition setmt_result :: "sheap \<Rightarrow> sys_ptr \<Rightarrow> AddMetatableResult" where
  "setmt_result sh transitionStructure =
     (let s = struct_at sh transitionStructure;
          transitionKind = m_parentEdgeTransitionKind s
      in if transitionKind = AddMetaTable
         then \<lparr>am_shouldInsertMetatable = False, am_shouldGrowButterfly = False, am_slotOrdinal = 0,
               am_newStructure = transitionStructure\<rparr>
         else \<lparr>am_shouldInsertMetatable = True,
               am_shouldGrowButterfly =
                 (transitionKind = TransitToPolyMetaTableAndGrowPropertyStorageCapacity),
               am_slotOrdinal = GetPolyMetatableSlot s, am_newStructure = transitionStructure\<rparr>)"

definition SetMetatable ::
  "vm_env \<Rightarrow> sheap \<Rightarrow> sys_ptr \<Rightarrow> int \<Rightarrow> (sheap \<times> AddMetatableResult) option" where
  "SetMetatable env sh self metatable =
     (let s = struct_at sh self;
          transitionKey = x_key_add_or_to_poly_metatable;
          finish = map_option (\<lambda>(sh, r). (sh, setmt_result sh r))
      in if m_metatable s = 0 then
           finish (QueryTransitionTableAndUpsert env sh self transitionKey (setmt_upsert_none env self metatable))
         else if IsPolyMetatable s then
           Some (sh, \<lparr>am_shouldInsertMetatable = True, am_shouldGrowButterfly = False,
                      am_slotOrdinal = GetPolyMetatableSlot s, am_newStructure = self\<rparr>)
         else if metatable = m_metatable s then
           Some (sh, \<lparr>am_shouldInsertMetatable = False, am_shouldGrowButterfly = False,
                      am_slotOrdinal = 0, am_newStructure = self\<rparr>)
         else if m_parentEdgeTransitionKind s = AddMetaTable then
           finish (QueryTransitionTableAndUpsert env sh (m_parent s) transitionKey
             (setmt_upsert_parent env (m_parent s) self))
         else
           finish (QueryTransitionTableAndInsert env sh self transitionKey
             (CreateStructureForPolyMetatableTransition env self)))"

record RemoveMetatableResult =
  rm_shouldInsertMetatable :: bool
  rm_slotOrdinal :: nat
  rm_newStructure :: sys_ptr

definition RemoveMetatable :: "vm_env \<Rightarrow> sheap \<Rightarrow> sys_ptr \<Rightarrow> (sheap \<times> RemoveMetatableResult) option" where
  "RemoveMetatable env sh self =
     (let s = struct_at sh self in
      if m_metatable s = 0 then
        Some (sh, \<lparr>rm_shouldInsertMetatable = False, rm_slotOrdinal = 0, rm_newStructure = self\<rparr>)
      else if m_parentEdgeTransitionKind s = AddMetaTable then
        Some (sh, \<lparr>rm_shouldInsertMetatable = False, rm_slotOrdinal = 0, rm_newStructure = m_parent s\<rparr>)
      else if IsPolyMetatable s then
        Some (sh, \<lparr>rm_shouldInsertMetatable = True, rm_slotOrdinal = GetPolyMetatableSlot s, rm_newStructure = self\<rparr>)
      else
        (case QueryTransitionTableAndInsert env sh self x_key_remove_metatable
                (CreateStructureForRemoveMetatableTransition env self) of None \<Rightarrow> None
         | Some (sh, transitionStructure) \<Rightarrow>
             Some (sh, \<lparr>rm_shouldInsertMetatable = False, rm_slotOrdinal = 0,
                        rm_newStructure = transitionStructure\<rparr>)))"

definition UpdateArrayType :: "vm_env \<Rightarrow> sheap \<Rightarrow> sys_ptr \<Rightarrow> u8 \<Rightarrow> (sheap \<times> sys_ptr) option" where
  "UpdateArrayType env sh self newArrayType =
     (let transitionKey = x_key_change_array_type_tag OR uint newArrayType in
      QueryTransitionTableAndInsert env sh self transitionKey
        (CreateStructureForUpdateArrayType env self newArrayType))"

end
