(* ===== verification/StructureTree.thy ===== *)
theory StructureTree
  imports StructureTransition
begin

unbundle bit_operations_syntax

text \<open>
  The invariant of the transition tree of \<^verbatim>\<open>runtime/structure.h\<close> and the contract of the transition query: \<open>C a\<close> maps each
  transition key of the structure at \<open>a\<close> to its child, every child differs from its parent as its transition kind
  says, and the query adds, keeps or replaces one child. The function a caller passes to the query is the
  interface \<open>child_creator\<close>.
\<close>

section \<open>What a transition does to a structure\<close>

text \<open>
  \<open>edge_ok\<close> relates the keys and fields of a parent structure to those of its child, for each kind of edge; \<open>sem_ok\<close>
  states the invariants of a structure's own fields.
\<close>

definition storage_ok :: "nat \<Rightarrow> struct \<Rightarrow> bool" where
  "storage_ok n s \<longleftrightarrow>
     n \<le> m_inlineNamedStorageCapacity s + m_butterflyNamedStorageCapacity s \<and>
     m_inlineNamedStorageCapacity s + m_butterflyNamedStorageCapacity s \<le> x_maxNumSlots + 1 \<and>
     m_inlineNamedStorageCapacity s \<le> x_maxNumSlots \<and>
     (m_butterflyNamedStorageCapacity s \<noteq> 0 \<longrightarrow> m_inlineNamedStorageCapacity s < n)"

definition sem_ok :: "vm_env \<Rightarrow> gkey list \<Rightarrow> struct \<Rightarrow> bool" where
  "sem_ok env ks s \<longleftrightarrow>
     storage_ok (length ks) s \<and> (\<forall>k\<in>set ks. k < 0 \<or> k = env_specialKey env) \<and> length ks \<le> x_maxNumSlots + of_bool (env_specialKey env \<in> set ks) \<and>
     valid_array_type (m_arrayType s) \<and>
     (MayHaveMetatable (m_arrayType s) \<longleftrightarrow> m_metatable s \<noteq> 0) \<and>
     (env_specialKey env \<in> set ks \<longleftrightarrow> 0 < m_metatable s) \<and>
     (0 < m_metatable s \<longrightarrow> nat (m_metatable s) \<le> length ks \<and> ks ! (nat (m_metatable s) - 1) = env_specialKey env)"

definition grows :: "struct \<Rightarrow> struct \<Rightarrow> bool \<Rightarrow> bool" where
  "grows sp s g \<longleftrightarrow> (if g then butterfly_expansion sp True = Some (m_butterflyNamedStorageCapacity s)
     else butterfly_expansion sp True = None \<and> m_butterflyNamedStorageCapacity s = m_butterflyNamedStorageCapacity sp)"

definition edge_ok :: "vm_env \<Rightarrow> gkey list \<Rightarrow> struct \<Rightarrow> gkey list \<Rightarrow> struct \<Rightarrow> bool" where
  "edge_ok env kp sp ks s \<longleftrightarrow>
     m_inlineNamedStorageCapacity s = m_inlineNamedStorageCapacity sp \<and>
     (let adds = (\<lambda>g. (\<exists>k. ks = kp @ [k] \<and> k < 0 \<and> k \<noteq> env_specialKey env) \<and> m_metatable s = m_metatable sp \<and>
              m_arrayType s = m_arrayType sp \<and> grows sp s g);
          poly = (\<lambda>g. ks = kp @ [env_specialKey env] \<and> m_metatable sp \<le> 0 \<and> m_metatable s = int (length ks) \<and>
              m_arrayType s = SetMayHaveMetatable True (m_arrayType sp) \<and> grows sp s g);
          same = (ks = kp \<and> m_butterflyNamedStorageCapacity s = m_butterflyNamedStorageCapacity sp)
      in case m_parentEdgeTransitionKind s of
           BadTransitionKind \<Rightarrow> False
         | AddProperty \<Rightarrow> adds False
         | AddPropertyAndGrowPropertyStorageCapacity \<Rightarrow> adds True
         | AddMetaTable \<Rightarrow> same \<and> m_metatable sp = 0 \<and> m_metatable s < 0 \<and>
             m_arrayType s = SetMayHaveMetatable True (m_arrayType sp)
         | TransitToPolyMetaTable \<Rightarrow> poly False
         | TransitToPolyMetaTableAndGrowPropertyStorageCapacity \<Rightarrow> poly True
         | RemoveMetaTable \<Rightarrow> same \<and> m_metatable sp < 0 \<and> m_metatable s = 0 \<and>
             m_arrayType s = SetMayHaveMetatable False (m_arrayType sp)
         | UpdateArrayTypeKind \<Rightarrow> same \<and> m_metatable s = m_metatable sp)"

text \<open>The representation of the children: \<open>M\<close> maps each transition key to the child structure.\<close>

definition trans_repr :: "vm_env \<Rightarrow> sheap \<Rightarrow> struct \<Rightarrow> (transition_key \<rightharpoonup> sys_ptr) \<Rightarrow> bool" where
  "trans_repr env sh s M \<longleftrightarrow> (case m_transitionTable s of
      NoTransition \<Rightarrow> M = Map.empty
    | OnlyChild c \<Rightarrow> M = [GetParentEdgeTransitionKey (struct_at sh c) \<mapsto> c]
    | Outlined T \<Rightarrow> wf_tt (env_hashPrim32 env) T M)"

definition children_ok :: "sheap \<Rightarrow> sys_ptr \<Rightarrow> (transition_key \<rightharpoonup> sys_ptr) \<Rightarrow> bool" where
  "children_ok sh a M \<longleftrightarrow> (\<forall>k c. M k = Some c \<longrightarrow>
     (\<exists>sc. sh_structs sh c = Some sc \<and> m_parent sc = a \<and> GetParentEdgeTransitionKey sc = k \<and>
        k \<noteq> x_key_invalid \<and> k \<noteq> x_key_deleted))"

text \<open>
  A structure reached by adding a metatable is still its parent's child for that key, or the key now leads to
  a structure in poly metatable mode.
\<close>

definition mono_link :: "sheap \<Rightarrow> (sys_ptr \<Rightarrow> transition_key \<rightharpoonup> sys_ptr) \<Rightarrow> sys_ptr \<Rightarrow> struct \<Rightarrow> bool" where
  "mono_link sh C a s \<longleftrightarrow> (m_parentEdgeTransitionKind s = AddMetaTable \<longrightarrow>
     (\<exists>c sc. C (m_parent s) x_key_add_or_to_poly_metatable = Some c \<and> sh_structs sh c = Some sc \<and>
        (c = a \<or> 0 < m_metatable sc)))"

definition wf_theap ::
  "vm_env \<Rightarrow> sheap \<Rightarrow> (sys_ptr \<Rightarrow> gkey list) \<Rightarrow> (sys_ptr \<Rightarrow> transition_key \<rightharpoonup> sys_ptr) \<Rightarrow> bool" where
  "wf_theap env sh K C \<longleftrightarrow> wf_sheap env sh K \<and>
     (\<forall>a s. sh_structs sh a = Some s \<longrightarrow>
        sem_ok env (K a) s \<and> trans_repr env sh s (C a) \<and> children_ok sh a (C a) \<and> mono_link sh C a s \<and>
        (m_parentEdgeTransitionKind s \<noteq> BadTransitionKind \<longrightarrow>
          (\<exists>sp. sh_structs sh (m_parent s) = Some sp \<and> edge_ok env (K (m_parent s)) sp (K a) s)))"

lemma wf_theapD:
  assumes "wf_theap env sh K C" "sh_structs sh a = Some s"
  shows "wf_sheap env sh K" "sem_ok env (K a) s" "trans_repr env sh s (C a)" "children_ok sh a (C a)"
    "mono_link sh C a s"
    "m_parentEdgeTransitionKind s \<noteq> BadTransitionKind \<Longrightarrow>
      \<exists>sp. sh_structs sh (m_parent s) = Some sp \<and> edge_ok env (K (m_parent s)) sp (K a) s"
  using assms by (auto simp: wf_theap_def)

section \<open>Frames\<close>

definition same_core :: "struct \<Rightarrow> struct \<Rightarrow> bool" where
  "same_core s s' \<longleftrightarrow> (\<exists>anch ht tr. s' = s\<lparr>m_anchorHashTable := anch, m_inlineHashTable := ht, m_transitionTable := tr\<rparr>)"

lemma same_core_eqv: "struct_eqv s s' \<Longrightarrow> same_core s s'"
  unfolding struct_eqv_def same_core_def by (elim exE, hypsubst, intro exI[of _ "m_anchorHashTable s'"]
    exI[of _ "m_inlineHashTable s'"] exI[of _ "m_transitionTable s'"]) simp

lemma same_core_transition: "same_core s (s\<lparr>m_transitionTable := x\<rparr>)"
  unfolding same_core_def by (intro exI[of _ "m_anchorHashTable s"] exI[of _ "m_inlineHashTable s"] exI[of _ x]) simp

lemma same_core_trans: "same_core s t \<Longrightarrow> same_core t u \<Longrightarrow> same_core s u"
  unfolding same_core_def by (elim exE, hypsubst, intro exI) simp

lemma same_core_fields:
  assumes "same_core s s'"
  shows "m_values s' = m_values s" "m_numSlots s' = m_numSlots s" "m_nonFullBlockLen s' = m_nonFullBlockLen s"
    "m_metatable s' = m_metatable s" "m_parent s' = m_parent s" "m_arrayType s' = m_arrayType s"
    "m_parentEdgeTransitionKind s' = m_parentEdgeTransitionKind s"
    "m_inlineNamedStorageCapacity s' = m_inlineNamedStorageCapacity s"
    "m_butterflyNamedStorageCapacity s' = m_butterflyNamedStorageCapacity s"
  using assms by (auto simp: same_core_def)

lemma same_core_preds:
  assumes "same_core s s'"
  shows "GetParentEdgeTransitionKey s' = GetParentEdgeTransitionKey s" "sem_ok env ks s' = sem_ok env ks s"
    "butterfly_expansion s' add = butterfly_expansion s add"
    "edge_ok env kp s' ks r = edge_ok env kp s ks r" "edge_ok env kp sp ks s' = edge_ok env kp sp ks s"
  unfolding GetParentEdgeTransitionKey_def GetLastAddedKey_def sem_ok_def storage_ok_def butterfly_expansion_def
    edge_ok_def grows_def Let_def same_core_fields[OF assms] by (rule refl)+

definition keeps_structs :: "sheap \<Rightarrow> sheap \<Rightarrow> bool" where
  "keeps_structs sh sh' \<longleftrightarrow> (\<forall>x sx. sh_structs sh x = Some sx \<longrightarrow> (\<exists>sx'. sh_structs sh' x = Some sx' \<and> same_core sx sx'))"

lemma keeps_structs_refl [simp]: "keeps_structs sh sh"
  unfolding keeps_structs_def using same_core_eqv[OF struct_eqv_refl] by blast

section \<open>Adding or replacing a child\<close>

lemma wf_theap_child:
  assumes W: "wf_theap env sh K C" and a: "sh_structs sh a = Some s"
    and wf3: "wf_sheap env sh3 (K(r := newks))" and fresh: "sh_structs sh r = None"
    and dom: "dom (sh_structs sh3) = insert r (dom (sh_structs sh))"
    and pres: "\<And>x sx. sh_structs sh x = Some sx \<Longrightarrow> \<exists>sx'. sh_structs sh3 x = Some sx' \<and> same_core sx sx' \<and>
       (x \<noteq> a \<longrightarrow> m_transitionTable sx' = m_transitionTable sx)"
    and r: "sh_structs sh3 r = Some sr" "m_parent sr = a" "m_transitionTable sr = NoTransition" "sem_ok env newks sr"
      "edge_ok env (K a) s newks sr" "GetParentEdgeTransitionKey sr = key" "key \<noteq> x_key_invalid" "key \<noteq> x_key_deleted"
    and T: "\<And>s3. sh_structs sh3 a = Some s3 \<Longrightarrow> trans_repr env sh3 s3 ((C a)(key \<mapsto> r))"
    and link: "key = x_key_add_or_to_poly_metatable \<Longrightarrow>
       m_parentEdgeTransitionKind sr = AddMetaTable \<and> C a key = None \<or> 0 < m_metatable sr"
  shows "wf_theap env sh3 (K(r := newks)) (C(a := (C a)(key \<mapsto> r), r := Map.empty))"
proof -
  let ?K = "K(r := newks)" and ?C = "C(a := (C a)(key \<mapsto> r), r := Map.empty)"
  have ar: "a \<noteq> r" using a fresh by auto
  have old: "\<exists>sx. sh_structs sh x = Some sx \<and> same_core sx sx' \<and> x \<noteq> r \<and>
      (x \<noteq> a \<longrightarrow> m_transitionTable sx' = m_transitionTable sx)"
    if "sh_structs sh3 x = Some sx'" "x \<noteq> r" for x sx'
  proof -
    have "x \<in> dom (sh_structs sh)" using that dom by blast
    then obtain sx where "sh_structs sh x = Some sx" by blast
    with pres[OF this] that show ?thesis by auto
  qed
  have kids: "children_ok sh3 x M" if k0: "children_ok sh x M" for x M
    unfolding children_ok_def
  proof (intro allI impI)
    fix k c assume "M k = Some c"
    then obtain sc where sc: "sh_structs sh c = Some sc" "m_parent sc = x" "GetParentEdgeTransitionKey sc = k"
      "k \<noteq> x_key_invalid" "k \<noteq> x_key_deleted" using k0 unfolding children_ok_def by blast
    obtain sc' where "sh_structs sh3 c = Some sc'" "same_core sc sc'" using pres[OF sc(1)] by blast
    then show "\<exists>sc. sh_structs sh3 c = Some sc \<and> m_parent sc = x \<and> GetParentEdgeTransitionKey sc = k \<and>
        k \<noteq> x_key_invalid \<and> k \<noteq> x_key_deleted"
      using sc same_core_fields(5) same_core_preds(1) by auto
  qed
  have kids_a: "children_ok sh3 a ((C a)(key \<mapsto> r))"
    using kids[OF wf_theapD(4)[OF W a]] r(1,2,6-8) unfolding children_ok_def by auto
  have "sem_ok env (?K x) sx' \<and> trans_repr env sh3 sx' (?C x) \<and> children_ok sh3 x (?C x) \<and> mono_link sh3 ?C x sx' \<and>
        (m_parentEdgeTransitionKind sx' \<noteq> BadTransitionKind \<longrightarrow>
          (\<exists>sp. sh_structs sh3 (m_parent sx') = Some sp \<and> edge_ok env (?K (m_parent sx')) sp (?K x) sx'))"
    if x: "sh_structs sh3 x = Some sx'" for x sx'
  proof (cases "x = r")
    case True
    then have sx: "sx' = sr" using x r(1) by simp
    obtain s3 where s3: "sh_structs sh3 a = Some s3" "same_core s s3" using pres[OF a] by blast
    have "mono_link sh3 ?C r sr" unfolding mono_link_def using r(1,2,5,6) ar
      by (auto simp: edge_ok_def GetParentEdgeTransitionKey_def)
    moreover have "edge_ok env (K a) s3 newks sr" using r(5) same_core_preds(4)[OF s3(2)] by simp
    ultimately show ?thesis using True sx r(2-4) s3(1) ar by (auto simp: trans_repr_def children_ok_def)
  next
    case False
    then obtain sx where sx: "sh_structs sh x = Some sx" "same_core sx sx'" "x \<noteq> a \<longrightarrow> m_transitionTable sx' = m_transitionTable sx"
      using old[OF x] by blast
    note D = wf_theapD[OF W sx(1)] and F = same_core_fields[OF sx(2)] and P = same_core_preds[OF sx(2)]
    have tr: "trans_repr env sh3 sx' (?C x)"
    proof (cases "x = a")
      case True
      with T x ar show ?thesis by simp
    next
      case na: False
      have "GetParentEdgeTransitionKey (struct_at sh3 c) = GetParentEdgeTransitionKey (struct_at sh c)"
        if "m_transitionTable sx = OnlyChild c" for c
      proof -
        have "(C x) (GetParentEdgeTransitionKey (struct_at sh c)) = Some c" using D(3) that by (simp add: trans_repr_def)
        then obtain sc where sc: "sh_structs sh c = Some sc" using D(4) unfolding children_ok_def by blast
        then show ?thesis using pres[OF sc] same_core_preds(1) by (auto simp: struct_at_def)
      qed
      then show ?thesis using D(3) sx(3) na False by (auto simp: trans_repr_def split: transition_ref.splits)
    qed
    have ch: "children_ok sh3 x (?C x)" using kids[OF D(4)] kids_a False by auto
    have ml: "mono_link sh3 ?C x sx'"
      unfolding mono_link_def F
    proof
      assume am: "m_parentEdgeTransitionKind sx = AddMetaTable"
      then obtain c sc where c: "C (m_parent sx) x_key_add_or_to_poly_metatable = Some c" "sh_structs sh c = Some sc"
        "c = x \<or> 0 < m_metatable sc" using D(5) by (auto simp: mono_link_def)
      obtain sp where sp: "sh_structs sh (m_parent sx) = Some sp" using D(6) am by auto
      then have pr: "m_parent sx \<noteq> r" using fresh by auto
      obtain sc' where sc': "sh_structs sh3 c = Some sc'" "m_metatable sc' = m_metatable sc"
        using pres[OF c(2)] same_core_fields(4) by blast
      show "\<exists>c sc. ?C (m_parent sx) x_key_add_or_to_poly_metatable = Some c \<and> sh_structs sh3 c = Some sc \<and>
          (c = x \<or> 0 < m_metatable sc)"
      proof (cases "m_parent sx = a \<and> key = x_key_add_or_to_poly_metatable")
        case True
        then have "0 < m_metatable sr" using link c(1) by auto
        with True r(1) ar show ?thesis by auto
      next
        case False
        then have "?C (m_parent sx) x_key_add_or_to_poly_metatable = Some c" using c(1) pr by auto
        with c(3) sc' show ?thesis by auto
      qed
    qed
    have "\<exists>sp. sh_structs sh3 (m_parent sx') = Some sp \<and> edge_ok env (?K (m_parent sx')) sp (?K x) sx'"
      if nb: "m_parentEdgeTransitionKind sx' \<noteq> BadTransitionKind"
    proof -
      obtain sp where sp: "sh_structs sh (m_parent sx) = Some sp" "edge_ok env (K (m_parent sx)) sp (K x) sx"
        using D(6) nb F by auto
      obtain sp' where sp': "sh_structs sh3 (m_parent sx) = Some sp'" "same_core sp sp'" using pres[OF sp(1)] by blast
      have "m_parent sx \<noteq> r" using sp(1) fresh by auto
      with sp sp' False show ?thesis using same_core_preds(4)[OF sp'(2)] P(5) F by auto
    qed
    with tr ch ml D(2) P(2) False show ?thesis by auto
  qed
  then show ?thesis using wf3 unfolding wf_theap_def by blast
qed

section \<open>Writes that do not touch the representation of keys\<close>

definition same_repr :: "struct \<Rightarrow> struct \<Rightarrow> bool" where
  "same_repr s s' \<longleftrightarrow>
     m_numSlots s' = m_numSlots s \<and> m_nonFullBlockLen s' = m_nonFullBlockLen s \<and> m_values s' = m_values s \<and>
     m_finalFullBlockPointer s' = m_finalFullBlockPointer s \<and> m_anchorHashTable s' = m_anchorHashTable s \<and>
     m_inlineHashTableMask s' = m_inlineHashTableMask s \<and> m_inlineHashTable s' = m_inlineHashTable s"

lemma wf_struct_same_repr:
  assumes "same_repr s s'" "wf_struct env sh K ks s"
  shows "wf_struct env sh K ks s'"
proof -
  have F: "m_numSlots s' = m_numSlots s" "m_nonFullBlockLen s' = m_nonFullBlockLen s" "m_values s' = m_values s"
     "m_finalFullBlockPointer s' = m_finalFullBlockPointer s" "m_anchorHashTable s' = m_anchorHashTable s"
     "m_inlineHashTableMask s' = m_inlineHashTableMask s" "m_inlineHashTable s' = m_inlineHashTable s"
    using assms(1) by (simp_all add: same_repr_def)
  show ?thesis using assms(2) unfolding wf_struct_def Let_def inline_ok_def anchor_total_def F by assumption
qed

lemma wf_sheap_update:
  assumes sh: "wf_sheap env sh K" and a: "sh_structs sh a = Some s" and rep: "same_repr s s'"
  shows "wf_sheap env (set_struct a s' sh) K"
proof -
  have le: "sh_le sh (set_struct a s' sh)"
    using a rep by (auto simp: sh_le_def set_struct_def same_repr_def)
  have "wf_struct env (set_struct a s' sh) K (K x) sx" if "sh_structs sh x = Some sx" for x sx
    using wf_struct_le[OF le refl wf_sheapD(3)[OF sh that]] .
  moreover have "wf_struct env (set_struct a s' sh) K (K a) s'"
    using wf_struct_same_repr[OF rep] calculation a by blast
  ultimately show ?thesis using sh a unfolding wf_sheap_def by (auto simp: set_struct_def split: if_splits)
qed

lemma wf_sheap_next:
  assumes sh: "wf_sheap env sh K" and "sh_next sh \<le> n"
  shows "wf_sheap env (sh\<lparr>sh_next := n\<rparr>) K"
proof -
  have le: "sh_le sh (sh\<lparr>sh_next := n\<rparr>)" by (auto simp: sh_le_def)
  show ?thesis using sh wf_struct_le[OF le refl] assms(2) unfolding wf_sheap_def by fastforce
qed

lemma wf_sheap_transition:
  "wf_sheap env sh K \<Longrightarrow> sh_structs sh a = Some s \<Longrightarrow> wf_sheap env (set_transition a x sh) K"
  unfolding set_transition_def by (rule wf_sheap_update) (auto simp: struct_at_def same_repr_def)

lemma set_transition_structs:
  "sh_structs sh a = Some s \<Longrightarrow>
    sh_structs (set_transition a x sh) = (sh_structs sh)(a \<mapsto> s\<lparr>m_transitionTable := x\<rparr>)"
  by (simp add: set_transition_def set_struct_def struct_at_def)

lemma set_transition_rest [simp]:
  "sh_next (set_transition a x sh) = sh_next sh" "sh_anchors (set_transition a x sh) = sh_anchors sh"
  by (simp_all add: set_transition_def set_struct_def)

section \<open>The contract of a function that creates a child\<close>

definition child_of :: "vm_env \<Rightarrow> sys_ptr \<Rightarrow> gkey list \<Rightarrow> struct \<Rightarrow> gkey list \<Rightarrow> transition_key \<Rightarrow> struct \<Rightarrow> bool" where
  "child_of env a kp sp ks key sr \<longleftrightarrow> m_parent sr = a \<and> m_transitionTable sr = NoTransition \<and> sem_ok env ks sr \<and>
     edge_ok env kp sp ks sr \<and> GetParentEdgeTransitionKey sr = key"

definition creates ::
  "vm_env \<Rightarrow> sheap \<Rightarrow> (sys_ptr \<Rightarrow> gkey list) \<Rightarrow> (sheap \<times> sys_ptr) option \<Rightarrow> gkey list \<Rightarrow> (struct \<Rightarrow> bool) \<Rightarrow> bool" where
  "creates env sh K res ks' P \<longleftrightarrow>
     (\<exists>sh' r sr. res = Some (sh', r) \<and> wf_sheap env sh' (K(r := ks')) \<and> sh_ext sh sh' \<and> sh_structs sh r = None \<and>
        dom (sh_structs sh') = insert r (dom (sh_structs sh)) \<and> sh_next sh' \<le> sh_next sh + 2000 \<and>
        sh_structs sh' r = Some sr \<and> P sr)"

text \<open>An upper bound for the next free address after a query, and a sufficient amount of free system heap.\<close>

definition query_room :: "sheap \<Rightarrow> sys_ptr \<Rightarrow> nat" where
  "query_room sh a = sh_next sh + 4096 +
     (case m_transitionTable (struct_at sh a) of Outlined T \<Rightarrow> 16 * (tt_hashTableMask T + 1) | _ \<Rightarrow> 0)"

locale child_creator =
  fixes env :: vm_env and a :: sys_ptr and f :: "sheap \<Rightarrow> (sheap \<times> sys_ptr) option"
    and pre :: "gkey list \<Rightarrow> struct \<Rightarrow> bool" and keys' :: "gkey list \<Rightarrow> gkey list" and key :: transition_key
    and post :: "struct \<Rightarrow> bool"
  assumes creates: "wf_sheap env sh K \<Longrightarrow> sh_structs sh a = Some s \<Longrightarrow> sem_ok env (K a) s \<Longrightarrow> pre (K a) s \<Longrightarrow>
      sh_next sh + 2000 < 2 ^ 32 \<Longrightarrow>
      creates env sh K (f sh) (keys' (K a)) (\<lambda>sr. child_of env a (K a) s (keys' (K a)) key sr \<and> post sr)"
    and pre_transition: "pre ks s \<Longrightarrow> pre ks (s\<lparr>m_transitionTable := x\<rparr>)"
    and pre_key: "pre ks s \<Longrightarrow> key \<noteq> x_key_invalid \<and> key \<noteq> x_key_deleted"
begin

text \<open>
  Running the function on a heap where the transition table of \<open>a\<close> has already been replaced, then storing the
  new child, adds the child to the transition tree.
\<close>

lemma store_child:
  assumes W: "wf_theap env sh K C" and a: "sh_structs sh a = Some s" and pre: "pre (K a) s"
    and n1: "sh_next sh \<le> n1" "n1 + 2000 < 2 ^ 32"
    and sh1: "sh1 = sh\<lparr>sh_next := n1\<rparr> \<or> sh1 = set_transition a x1 (sh\<lparr>sh_next := n1\<rparr>)"
    and store: "\<And>sh2 r sr. f sh1 = Some (sh2, r) \<Longrightarrow> sh_structs sh2 r = Some sr \<Longrightarrow>
       GetParentEdgeTransitionKey sr = key \<Longrightarrow> r \<noteq> a \<Longrightarrow> sh_next sh2 \<le> n1 + 2000 \<Longrightarrow>
       \<exists>x2 n2. res = Some (set_transition a x2 (sh2\<lparr>sh_next := n2\<rparr>), r) \<and> sh_next sh2 \<le> n2 \<and> n2 \<le> nmax \<and>
         (case x2 of NoTransition \<Rightarrow> False | OnlyChild c \<Rightarrow> c = r \<and> (C a)(key \<mapsto> r) = [key \<mapsto> r]
            | Outlined T \<Rightarrow> wf_tt (env_hashPrim32 env) T ((C a)(key \<mapsto> r)))"
    and link: "\<And>sr sh' K'. key = x_key_add_or_to_poly_metatable \<Longrightarrow> child_of env a (K a) s (keys' (K a)) key sr \<Longrightarrow>
       wf_struct env sh' K' (keys' (K a)) sr \<Longrightarrow>
       m_parentEdgeTransitionKind sr = AddMetaTable \<and> C a key = None \<or> 0 < m_metatable sr"
  shows "\<exists>sh' r. res = Some (sh', r) \<and> sh_structs sh r = None \<and>
    wf_theap env sh' (K(r := keys' (K a))) (C(a := (C a)(key \<mapsto> r), r := Map.empty)) \<and> sh_next sh' \<le> nmax \<and>
    dom (sh_structs sh') = insert r (dom (sh_structs sh)) \<and> keeps_structs sh sh' \<and>
    (\<exists>sr. sh_structs sh' r = Some sr \<and> child_of env a (K a) s (keys' (K a)) key sr \<and> post sr)"
proof -
  have key: "key \<noteq> x_key_invalid" "key \<noteq> x_key_deleted" using pre_key[OF pre] by auto
  have w1: "wf_sheap env sh1 K"
    using sh1 wf_sheap_next[OF wf_theapD(1)[OF W a] n1(1)] wf_sheap_transition[of env "sh\<lparr>sh_next := n1\<rparr>" K a s x1] a by auto
  obtain s1 where s1: "sh_structs sh1 a = Some s1" "s1 = s \<or> s1 = s\<lparr>m_transitionTable := x1\<rparr>"
    using sh1 a by (auto simp: set_transition_structs)
  have core1: "same_core s s1" using s1(2) same_core_transition same_core_eqv[OF struct_eqv_refl] by auto
  have "creates env sh1 K (f sh1) (keys' (K a)) (\<lambda>sr. child_of env a (K a) s1 (keys' (K a)) key sr \<and> post sr)"
  proof (rule creates[OF w1 s1(1)])
    show "sem_ok env (K a) s1" using wf_theapD(2)[OF W a] same_core_preds(2)[OF core1] by simp
    show "pre (K a) s1" using s1(2) pre pre_transition by auto
    show "sh_next sh1 + 2000 < 2 ^ 32" using sh1 n1(2) by auto
  qed
  then obtain sh2 r sr where c: "f sh1 = Some (sh2, r)" "wf_sheap env sh2 (K(r := keys' (K a)))" "sh_ext sh1 sh2"
    "sh_structs sh1 r = None" "dom (sh_structs sh2) = insert r (dom (sh_structs sh1))" "sh_next sh2 \<le> sh_next sh1 + 2000"
    "sh_structs sh2 r = Some sr" "child_of env a (K a) s1 (keys' (K a)) key sr" "post sr"
    by (auto simp: creates_def)
  have ch: "child_of env a (K a) s (keys' (K a)) key sr"
    using c(8) same_core_preds(4)[OF core1] by (simp add: child_of_def)
  have ra: "r \<noteq> a" using c(4) s1(1) by auto
  have nx: "sh_next sh1 = n1" using sh1 by auto
  have dom1: "dom (sh_structs sh1) = dom (sh_structs sh)"
    using sh1 a by (auto simp: set_transition_structs split: if_splits)
  from store[OF c(1,7) _ ra] ch c(6) nx obtain x2 n2 where
    res: "res = Some (set_transition a x2 (sh2\<lparr>sh_next := n2\<rparr>), r)" "sh_next sh2 \<le> n2" "n2 \<le> nmax"
    "(case x2 of NoTransition \<Rightarrow> False | OnlyChild c \<Rightarrow> c = r \<and> (C a)(key \<mapsto> r) = [key \<mapsto> r]
            | Outlined T \<Rightarrow> wf_tt (env_hashPrim32 env) T ((C a)(key \<mapsto> r)))"
    by (auto simp: child_of_def)
  obtain s2 where s2: "sh_structs sh2 a = Some s2" "struct_eqv s1 s2" using sh_extD[OF c(3) s1(1)] by blast
  define sh3 where "sh3 = set_transition a x2 (sh2\<lparr>sh_next := n2\<rparr>)"
  have st3: "sh_structs sh3 = (sh_structs sh2)(a \<mapsto> s2\<lparr>m_transitionTable := x2\<rparr>)"
    using s2(1) by (simp add: sh3_def set_transition_structs)
  have w3: "wf_sheap env sh3 (K(r := keys' (K a)))"
    unfolding sh3_def using wf_sheap_transition[OF wf_sheap_next[OF c(2) res(2)]] s2(1) by simp
  have fresh: "sh_structs sh r = None" using c(4) dom1 by (metis domIff)
  have dom3: "dom (sh_structs sh3) = insert r (dom (sh_structs sh))" using c(5) dom1 s2(1) a by (auto simp: st3 split: if_splits)
  have pres: "\<exists>sx'. sh_structs sh3 x = Some sx' \<and> same_core sx sx' \<and> (x \<noteq> a \<longrightarrow> m_transitionTable sx' = m_transitionTable sx)"
    if x: "sh_structs sh x = Some sx" for x sx
  proof (cases "x = a")
    case True
    then have "same_core sx (s2\<lparr>m_transitionTable := x2\<rparr>)"
      using x a core1 same_core_eqv[OF s2(2)] same_core_transition same_core_trans by (metis option.inject)
    with True show ?thesis by (simp add: st3)
  next
    case False
    then have "sh_structs sh1 x = Some sx" using sh1 x a by (auto simp: set_transition_structs)
    from sh_extD[OF c(3) this] obtain sx' where "sh_structs sh2 x = Some sx'" "struct_eqv sx sx'" by blast
    with False show ?thesis using same_core_eqv struct_eqv_fields(5) by (auto simp: st3)
  qed
  have r3: "sh_structs sh3 r = Some sr" using c(7) ra by (simp add: st3)
  have wr: "wf_struct env sh3 (K(r := keys' (K a))) (keys' (K a)) sr" using wf_sheapD(3)[OF w3 r3] by simp
  from pres have kp: "keeps_structs sh sh3" unfolding keeps_structs_def by blast
  have "wf_theap env sh3 (K(r := keys' (K a))) (C(a := (C a)(key \<mapsto> r), r := Map.empty))"
  proof (rule wf_theap_child[OF W a w3 fresh dom3 pres])
    show "sh_structs sh3 r = Some sr" by (rule r3)
    fix s3 assume "sh_structs sh3 a = Some s3"
    then have "m_transitionTable s3 = x2" by (auto simp: st3)
    with res(4) c(7) ra ch show "trans_repr env sh3 s3 ((C a)(key \<mapsto> r))"
      by (auto simp: trans_repr_def struct_at_def st3 child_of_def split: transition_ref.splits)
  qed (use ch key link[OF _ ch wr] in \<open>auto simp: child_of_def\<close>)
  with res fresh dom3 kp c(7,9) ra ch show ?thesis
    by (intro exI[of _ sh3] exI[of _ r]) (auto simp: sh3_def st3[unfolded sh3_def])
qed

text \<open>The query on a key with no child yet: the function is called and its structure becomes the child.\<close>

lemma query_creates:
  assumes W: "wf_theap env sh K C" and a: "sh_structs sh a = Some s" and pre: "pre (K a) s"
    and new: "C a key = None" and g: "g None = f" and room: "query_room sh a < 2 ^ 32"
    and link: "\<And>sr sh' K'. key = x_key_add_or_to_poly_metatable \<Longrightarrow> child_of env a (K a) s (keys' (K a)) key sr \<Longrightarrow>
       wf_struct env sh' K' (keys' (K a)) sr \<Longrightarrow>
       m_parentEdgeTransitionKind sr = AddMetaTable \<or> 0 < m_metatable sr"
  shows "\<exists>sh' r. QueryTransitionTableAndInsertOrUpsertImpl b env sh a key g = Some (sh', r) \<and> sh_structs sh r = None \<and>
    wf_theap env sh' (K(r := keys' (K a))) (C(a := (C a)(key \<mapsto> r), r := Map.empty)) \<and>
    sh_next sh' \<le> query_room sh a \<and> dom (sh_structs sh') = insert r (dom (sh_structs sh)) \<and> keeps_structs sh sh' \<and>
    (\<exists>sr. sh_structs sh' r = Some sr \<and> child_of env a (K a) s (keys' (K a)) key sr \<and> post sr)"
proof -
  have key: "key \<noteq> x_key_invalid" "key \<noteq> x_key_deleted" using pre_key[OF pre] by auto
  have sa: "struct_at sh a = s" using a by (simp add: struct_at_def)
  have rep: "trans_repr env sh s (C a)" and kids: "children_ok sh a (C a)" using wf_theapD[OF W a] by auto
  have big: "sh_next sh + 4096 \<le> query_room sh a" by (simp add: query_room_def)
  have link': "key = x_key_add_or_to_poly_metatable \<Longrightarrow> child_of env a (K a) s (keys' (K a)) key sr \<Longrightarrow>
       wf_struct env sh' K' (keys' (K a)) sr \<Longrightarrow>
       m_parentEdgeTransitionKind sr = AddMetaTable \<and> C a key = None \<or> 0 < m_metatable sr" for sr sh' K'
    using link new by blast
  show ?thesis
  proof (cases "m_transitionTable s")
    case NoTransition
    have "sh_next sh + 2000 < 2 ^ 32" using room big by linarith
    then show ?thesis
    proof (rule store_child[OF W a pre order.refl])
      show "sh = sh\<lparr>sh_next := sh_next sh\<rparr> \<or> sh = set_transition a x1 (sh\<lparr>sh_next := sh_next sh\<rparr>)" for x1 by simp
      fix sh2 r sr
      assume f: "f sh = Some (sh2, r)" "sh_next sh2 \<le> sh_next sh + 2000"
      have "QueryTransitionTableAndInsertOrUpsertImpl b env sh a key g =
          Some (set_transition a (OnlyChild r) (sh2\<lparr>sh_next := sh_next sh2\<rparr>), r)"
        using f(1) g NoTransition by (simp add: QueryTransitionTableAndInsertOrUpsertImpl_def sa query_no_transition_def)
      moreover have "C a = Map.empty" using rep NoTransition by (simp add: trans_repr_def)
      ultimately show "\<exists>x2 n2. QueryTransitionTableAndInsertOrUpsertImpl b env sh a key g =
          Some (set_transition a x2 (sh2\<lparr>sh_next := n2\<rparr>), r) \<and> sh_next sh2 \<le> n2 \<and> n2 \<le> query_room sh a \<and>
         (case x2 of NoTransition \<Rightarrow> False | OnlyChild c \<Rightarrow> c = r \<and> (C a)(key \<mapsto> r) = [key \<mapsto> r]
            | Outlined T \<Rightarrow> wf_tt (env_hashPrim32 env) T ((C a)(key \<mapsto> r)))"
        using f(2) big by (intro exI[of _ "OnlyChild r"] exI[of _ "sh_next sh2"]) simp
    qed (rule link')
  next
    case (OnlyChild c)
    define kc where "kc = GetParentEdgeTransitionKey (struct_at sh c)"
    have M: "C a = [kc \<mapsto> c]" using rep OnlyChild by (simp add: trans_repr_def kc_def)
    then have kc: "kc \<noteq> key" "kc \<noteq> x_key_invalid" "kc \<noteq> x_key_deleted"
      using new kids unfolding children_ok_def by (auto split: if_splits)
    obtain T where T: "AllocateInitialTable (env_hashPrim32 env) kc c = Some T" "wf_tt (env_hashPrim32 env) T [kc \<mapsto> c]"
      using AllocateInitialTable_correct[OF kc(2,3)] by blast
    obtain e where e: "tt_Find (env_hashPrim32 env) T key = Some (False, e)"
      "\<And>v. wf_tt (env_hashPrim32 env) (tt_add_entry e key v T) ([kc \<mapsto> c](key \<mapsto> v))"
    proof -
      obtain e where e: "tt_Find (env_hashPrim32 env) T key = Some (False, e)"
        using tt_Find_correct[OF T(2) key] kc(1) by auto
      obtain m where "2 \<le> m" "tt_hashTableMask T + 1 = 2 ^ m" using T(2) by (auto simp: wf_tt_def tt_ok_def)
      then have "4 \<le> tt_hashTableMask T + 1" using power_increasing[of 2 m "2::nat"] by simp
      then have "card (dom [kc \<mapsto> c]) < (tt_hashTableMask T + 1) div 2" by simp
      from tt_add_entry_wf[OF T(2) key _ e this] kc(1) e show ?thesis by (intro that) auto
    qed
    define n1 where "n1 = sh_next sh + 40"
    have al: "tt_alloc sh x_initialHashTableSize = Some (sh\<lparr>sh_next := n1\<rparr>)"
      using room big by (simp add: tt_alloc_def AllocFromSystemHeap_def tt_ComputeAllocationSize_def x_initialHashTableSize_def n1_def)
    have "sh_next sh \<le> n1" "n1 + 2000 < 2 ^ 32" using room big by (auto simp: n1_def)
    then show ?thesis
    proof (rule store_child[OF W a pre])
      show "set_transition a (Outlined T) (sh\<lparr>sh_next := n1\<rparr>) = sh\<lparr>sh_next := n1\<rparr> \<or>
        set_transition a (Outlined T) (sh\<lparr>sh_next := n1\<rparr>) = set_transition a (Outlined T) (sh\<lparr>sh_next := n1\<rparr>)" by simp
      fix sh2 r sr
      assume f: "f (set_transition a (Outlined T) (sh\<lparr>sh_next := n1\<rparr>)) = Some (sh2, r)" "sh_next sh2 \<le> n1 + 2000"
      have "QueryTransitionTableAndInsertOrUpsertImpl b env sh a key g =
          Some (set_transition a (Outlined (tt_add_entry e key r T)) (sh2\<lparr>sh_next := sh_next sh2\<rparr>), r)"
        using f(1) g OnlyChild kc(1) al T(1) e(1)
        by (simp add: QueryTransitionTableAndInsertOrUpsertImpl_def sa query_only_child_def kc_def Let_def)
      then show "\<exists>x2 n2. QueryTransitionTableAndInsertOrUpsertImpl b env sh a key g =
          Some (set_transition a x2 (sh2\<lparr>sh_next := n2\<rparr>), r) \<and> sh_next sh2 \<le> n2 \<and> n2 \<le> query_room sh a \<and>
         (case x2 of NoTransition \<Rightarrow> False | OnlyChild c \<Rightarrow> c = r \<and> (C a)(key \<mapsto> r) = [key \<mapsto> r]
            | Outlined T \<Rightarrow> wf_tt (env_hashPrim32 env) T ((C a)(key \<mapsto> r)))"
        using f(2) big e(2)[of r] by (intro exI[of _ "Outlined (tt_add_entry e key r T)"] exI[of _ "sh_next sh2"])
          (simp add: n1_def M)
    qed (rule link')
  next
    case (Outlined T)
    have wT: "wf_tt (env_hashPrim32 env) T (C a)" using rep Outlined by (simp add: trans_repr_def)
    obtain e where e: "tt_Find (env_hashPrim32 env) T key = Some (False, e)" using tt_Find_correct[OF wT key] new by auto
    have qr: "query_room sh a = sh_next sh + 4096 + 16 * (tt_hashTableMask T + 1)" using Outlined by (simp add: query_room_def sa)
    have "sh_next sh + 2000 < 2 ^ 32" using room big by linarith
    then show ?thesis
    proof (rule store_child[OF W a pre order.refl])
      show "sh = sh\<lparr>sh_next := sh_next sh\<rparr> \<or> sh = set_transition a x1 (sh\<lparr>sh_next := sh_next sh\<rparr>)" for x1 by simp
      fix sh2 r sr
      assume f: "f sh = Some (sh2, r)" "sh_next sh2 \<le> sh_next sh + 2000"
      obtain T' where T': "tt_insert_not_found (env_hashPrim32 env) e key r T = Some T'"
        "wf_tt (env_hashPrim32 env) T' ((C a)(key \<mapsto> r))" using tt_insert_not_found_correct[OF wT key new e] by blast
      let ?added = "tt_add_entry e key r T"
      define n2 where "n2 = (if ShouldResizeForThisInsertion ?added
        then sh_next sh2 + (8 + (tt_hashTableMask T * 2 + 2) * 8) else sh_next sh2)"
      have n2: "sh_next sh2 \<le> n2" "n2 \<le> query_room sh a" using f(2) qr by (auto simp: n2_def)
      have mk: "tt_hashTableMask ?added = tt_hashTableMask T" by (simp add: tt_add_entry_def tt_write_def)
      have al: "(if ShouldResizeForThisInsertion ?added then tt_alloc sh2 (tt_hashTableMask ?added * 2 + 2) else Some sh2)
          = Some (sh2\<lparr>sh_next := n2\<rparr>)"
        using n2(2) room by (auto simp: tt_alloc_def AllocFromSystemHeap_def tt_ComputeAllocationSize_def mk n2_def)
      have "QueryTransitionTableAndInsertOrUpsertImpl b env sh a key g =
          Some (set_transition a (Outlined T') (sh2\<lparr>sh_next := n2\<rparr>), r)"
        using f(1) g Outlined e T'(1)
        by (simp add: QueryTransitionTableAndInsertOrUpsertImpl_def sa query_outlined_def Let_def al)
      then show "\<exists>x2 n2. QueryTransitionTableAndInsertOrUpsertImpl b env sh a key g =
          Some (set_transition a x2 (sh2\<lparr>sh_next := n2\<rparr>), r) \<and> sh_next sh2 \<le> n2 \<and> n2 \<le> query_room sh a \<and>
         (case x2 of NoTransition \<Rightarrow> False | OnlyChild c \<Rightarrow> c = r \<and> (C a)(key \<mapsto> r) = [key \<mapsto> r]
            | Outlined T \<Rightarrow> wf_tt (env_hashPrim32 env) T ((C a)(key \<mapsto> r)))"
        using n2 T'(2) by (intro exI[of _ "Outlined T'"] exI[of _ n2]) simp
    qed (rule link')
  qed
qed

text \<open>The upsert on a key that has a child: the child is replaced.\<close>

lemma query_replaces:
  assumes W: "wf_theap env sh K C" and a: "sh_structs sh a = Some s" and pre: "pre (K a) s"
    and old: "C a key = Some c" and g: "g (Some c) sh = f sh" and room: "query_room sh a < 2 ^ 32"
    and link: "\<And>sr sh' K'. key = x_key_add_or_to_poly_metatable \<Longrightarrow> child_of env a (K a) s (keys' (K a)) key sr \<Longrightarrow>
       wf_struct env sh' K' (keys' (K a)) sr \<Longrightarrow> 0 < m_metatable sr"
  shows "\<exists>sh' r. QueryTransitionTableAndInsertOrUpsertImpl False env sh a key g = Some (sh', r) \<and> sh_structs sh r = None \<and>
    wf_theap env sh' (K(r := keys' (K a))) (C(a := (C a)(key \<mapsto> r), r := Map.empty)) \<and>
    sh_next sh' \<le> query_room sh a \<and> dom (sh_structs sh') = insert r (dom (sh_structs sh)) \<and> keeps_structs sh sh' \<and>
    (\<exists>sr. sh_structs sh' r = Some sr \<and> child_of env a (K a) s (keys' (K a)) key sr \<and> post sr)"
proof -
  have key: "key \<noteq> x_key_invalid" "key \<noteq> x_key_deleted" using pre_key[OF pre] by auto
  have sa: "struct_at sh a = s" using a by (simp add: struct_at_def)
  have rep: "trans_repr env sh s (C a)" using wf_theapD[OF W a] by auto
  have "sh_next sh + 4096 \<le> query_room sh a" by (simp add: query_room_def)
  then have n1: "sh_next sh + 2000 < 2 ^ 32" "sh_next sh + 2000 \<le> query_room sh a" using room by linarith+
  show ?thesis
  proof (rule store_child[OF W a pre order.refl n1(1)])
    show "sh = sh\<lparr>sh_next := sh_next sh\<rparr> \<or> sh = set_transition a x1 (sh\<lparr>sh_next := sh_next sh\<rparr>)" for x1 by simp
    show "key = x_key_add_or_to_poly_metatable \<Longrightarrow> child_of env a (K a) s (keys' (K a)) key sr \<Longrightarrow>
       wf_struct env sh' K' (keys' (K a)) sr \<Longrightarrow>
       m_parentEdgeTransitionKind sr = AddMetaTable \<and> C a key = None \<or> 0 < m_metatable sr" for sr sh' K' using link by blast
    fix sh2 r sr
    assume f: "f sh = Some (sh2, r)" "sh_next sh2 \<le> sh_next sh + 2000"
    have "\<exists>x2. QueryTransitionTableAndInsertOrUpsertImpl False env sh a key g = Some (set_transition a x2 sh2, r) \<and>
         (case x2 of NoTransition \<Rightarrow> False | OnlyChild c \<Rightarrow> c = r \<and> (C a)(key \<mapsto> r) = [key \<mapsto> r]
            | Outlined T \<Rightarrow> wf_tt (env_hashPrim32 env) T ((C a)(key \<mapsto> r)))"
    proof (cases "m_transitionTable s")
      case NoTransition
      then show ?thesis using rep old by (simp add: trans_repr_def)
    next
      case (OnlyChild c')
      then have M: "C a = [GetParentEdgeTransitionKey (struct_at sh c') \<mapsto> c']" using rep by (simp add: trans_repr_def)
      then have "GetParentEdgeTransitionKey (struct_at sh c') = key" "c' = c" using old by (auto split: if_splits)
      then show ?thesis using OnlyChild M f(1) g
        by (intro exI[of _ "OnlyChild r"])
          (simp add: QueryTransitionTableAndInsertOrUpsertImpl_def sa query_only_child_def)
    next
      case (Outlined T)
      then have wT: "wf_tt (env_hashPrim32 env) T (C a)" using rep by (simp add: trans_repr_def)
      obtain e where e: "e \<le> tt_hashTableMask T" "tt_Find (env_hashPrim32 env) T key = Some (True, e)"
        "tt_hashTable T ! e = \<lparr>te_key = key, te_value = c\<rparr>"
        using tt_Find_correct[OF wT key] old by auto
      have "wf_tt (env_hashPrim32 env) (tt_write e key r T) ((C a)(key \<mapsto> r))" by (rule tt_overwrite_wf[OF wT e(1,3) old])
      then show ?thesis using Outlined e f(1) g
        by (intro exI[of _ "Outlined (tt_write e key r T)"])
          (simp add: QueryTransitionTableAndInsertOrUpsertImpl_def sa query_outlined_def)
    qed
    then show "\<exists>x2 n2. QueryTransitionTableAndInsertOrUpsertImpl False env sh a key g =
          Some (set_transition a x2 (sh2\<lparr>sh_next := n2\<rparr>), r) \<and> sh_next sh2 \<le> n2 \<and> n2 \<le> query_room sh a \<and>
         (case x2 of NoTransition \<Rightarrow> False | OnlyChild c \<Rightarrow> c = r \<and> (C a)(key \<mapsto> r) = [key \<mapsto> r]
            | Outlined T \<Rightarrow> wf_tt (env_hashPrim32 env) T ((C a)(key \<mapsto> r)))"
      using f(2) n1(2) by (elim exE) (rule_tac x = x2 in exI, rule exI[of _ "sh_next sh2"], simp)
  qed
qed

end

text \<open>A query whose key has a child that is kept returns it and leaves the heap as it is.\<close>

lemma query_keeps:
  assumes W: "wf_theap env sh K C" and a: "sh_structs sh a = Some s"
    and old: "C a key = Some c" and g: "isInsert \<or> g (Some c) sh = Some (sh, c)"
  shows "QueryTransitionTableAndInsertOrUpsertImpl isInsert env sh a key g = Some (sh, c)"
proof -
  have sa: "struct_at sh a = s" using a by (simp add: struct_at_def)
  have rep: "trans_repr env sh s (C a)" and kids: "children_ok sh a (C a)" using wf_theapD[OF W a] by auto
  have key: "key \<noteq> x_key_invalid" "key \<noteq> x_key_deleted" using kids old by (auto simp: children_ok_def)
  have id: "set_transition a (m_transitionTable s) sh = sh"
    using a unfolding set_transition_def set_struct_def sa by (simp add: fun_upd_triv flip: a)
  show ?thesis
  proof (cases "m_transitionTable s")
    case NoTransition
    then show ?thesis using rep old by (simp add: trans_repr_def)
  next
    case (OnlyChild c')
    then have "C a = [GetParentEdgeTransitionKey (struct_at sh c') \<mapsto> c']" using rep by (simp add: trans_repr_def)
    then have "GetParentEdgeTransitionKey (struct_at sh c') = key" "c' = c" using old by (auto split: if_splits)
    then show ?thesis using OnlyChild g id
      by (auto simp: QueryTransitionTableAndInsertOrUpsertImpl_def sa query_only_child_def)
  next
    case (Outlined T)
    then have wT: "wf_tt (env_hashPrim32 env) T (C a)" using rep by (simp add: trans_repr_def)
    obtain e where e: "tt_Find (env_hashPrim32 env) T key = Some (True, e)" "tt_hashTable T ! e = \<lparr>te_key = key, te_value = c\<rparr>"
      using tt_Find_correct[OF wT key] old by auto
    have "tt_write e key c T = T" using e(2) by (cases T) (simp add: tt_write_def list_update_same_conv[symmetric] flip: e(2))
    then show ?thesis using Outlined e g id
      by (auto simp: QueryTransitionTableAndInsertOrUpsertImpl_def sa query_outlined_def)
  qed
qed

end
