(* ===== verification/StructureOps.thy ===== *)
theory StructureOps
  imports StructureTree
begin

unbundle bit_operations_syntax

text \<open>
  The functions that create the children of a structure meet the interface of the transition query, and the
  operations of \<^verbatim>\<open>runtime/structure.h\<close> built on the query, adding a property, setting and removing the metatable and changing the array type,
  lead to the structure their callers rely on.
\<close>

section \<open>The creators of children\<close>

lemmas capacity_defs = ComputeInitialButterflyCapacityForStructure_def ComputeNextButterflyCapacityForStructure_def
  ClampCapacityForStructure_def ComputeInitialButterflyCapacityForDictionary_def ComputeNextButterflyCapacityImpl_def
  x_maxNumSlots_def x_butterflyCapacityFromInlineCapacityFactor_def x_initialMinimumButterflyCapacity_def
  x_butterflyNamedStorageCapacityGrowthFactor_def

lemma storage_ok_add:
  assumes st: "storage_ok n s" and n: "m_numSlots s = n" "n \<le> 253"
    and c: "m_inlineNamedStorageCapacity r = m_inlineNamedStorageCapacity s"
      "m_butterflyNamedStorageCapacity r = (case butterfly_expansion s True of Some c \<Rightarrow> c | None \<Rightarrow> m_butterflyNamedStorageCapacity s)"
  shows "storage_ok (Suc n) r"
  using st n unfolding storage_ok_def c butterfly_expansion_def by (auto simp: capacity_defs Let_def)

lemma grows_expansion:
  assumes "m_butterflyNamedStorageCapacity r = (case butterfly_expansion s True of Some c \<Rightarrow> c | None \<Rightarrow> m_butterflyNamedStorageCapacity s)"
  shows "grows s r (butterfly_expansion s True \<noteq> None)"
  using assms by (auto simp: grows_def)

lemma last_added_key:
  assumes "wf_struct env sh K (ks @ [key]) s"
  shows "GetLastAddedKey s = key"
proof -
  let ?n = "Suc (length ks)"
  have nf: "0 < ComputeNonFullBlockLength ?n" "ComputeNonFullBlockLength ?n \<le> ?n"
    using NonFullBlockLength_le(1)[of ?n] by (auto simp: NonFullBlockLength_eq)
  have "m_values s = drop (?n - ComputeNonFullBlockLength ?n) (ks @ [key])" "m_numSlots s = ?n"
    using wf_structD(3,4,5)[OF assms] by auto
  then show ?thesis using nf by (simp add: GetLastAddedKey_def nth_append)
qed

section \<open>Adding a property\<close>

definition can_add_property :: "vm_env \<Rightarrow> gkey \<Rightarrow> gkey list \<Rightarrow> struct \<Rightarrow> bool" where
  "can_add_property env key ks s \<longleftrightarrow> key \<notin> set ks \<and> key < 0 \<and> key \<noteq> env_specialKey env \<and> length ks < x_maxNumSlots"

lemma created_from_child:
  assumes W: "wf_sheap env sh K" and a: "sh_structs sh a = Some s"
    and new: "kind \<noteq> NoSlotAdded \<Longrightarrow> key \<notin> set (K a)" and n: "length (K a @ new_keys kind key) \<le> 254"
    and room: "sh_next sh + 2000 < 2 ^ 32"
    and P: "\<And>sh' r sr. wf_struct env sh' (K(r := K a @ new_keys kind key)) (K a @ new_keys kind key) sr \<Longrightarrow>
       created_from env a s kind key sr \<Longrightarrow> P sr"
  shows "creates env sh K (CreateStructureForTransitionImpl env sh a kind key) (K a @ new_keys kind key) P"
proof -
  obtain sh' r sr where "CreateStructureForTransitionImpl env sh a kind key = Some (sh', r)"
    "wf_sheap env sh' (K(r := K a @ new_keys kind key))" "sh_ext sh sh'"
    "sh_structs sh r = None" "dom (sh_structs sh') = insert r (dom (sh_structs sh))"
    "sh_next sh' \<le> sh_next sh + 2000" "sh_structs sh' r = Some sr" "created_from env a s kind key sr"
    using CreateStructureForTransition_correct[OF W a new n room] by blast
  moreover from this have "wf_struct env sh' (K(r := K a @ new_keys kind key)) (K a @ new_keys kind key) sr"
    using wf_sheapD(3) by fastforce
  ultimately show ?thesis unfolding creates_def using P by blast
qed

lemma nth_append_poly:
  assumes "0 < m" "nat m \<le> length ks"
  shows "(ks @ xs) ! (nat m - Suc 0) = ks ! (nat m - Suc 0)"
  using assms nat_0_iff[of m] by (auto simp: nth_append)

lemma nat_int_add: "nat (1 + int n) - Suc 0 = n"
  by simp

interpretation add_prop: child_creator env a "CreateStructureForAddPropertyTransition env a key"
  "can_add_property env key" "\<lambda>ks. ks @ [key]" key "\<lambda>_. True" for env a key
proof
  fix sh K s
  assume W: "wf_sheap env sh K" and a: "sh_structs sh a = Some s" and sem: "sem_ok env (K a) s"
    and pre: "can_add_property env key (K a) s" and room: "sh_next sh + 2000 < 2 ^ 32"
  have ks: "K a @ new_keys AddSlotForProperty key = K a @ [key]" by (simp add: new_keys_def)
  have num: "m_numSlots s = length (K a)" using wf_structD(3)[OF wf_sheapD(3)[OF W a]] .
  have "child_of env a (K a) s (K a @ [key]) key sr"
    if wf: "wf_struct env sh' K' (K a @ [key]) sr" and cf: "created_from env a s AddSlotForProperty key sr" for sh' K' sr
  proof -
    have F: "m_arrayType sr = m_arrayType s" "m_inlineNamedStorageCapacity sr = m_inlineNamedStorageCapacity s"
      "m_butterflyNamedStorageCapacity sr = (case butterfly_expansion s True of Some c \<Rightarrow> c | None \<Rightarrow> m_butterflyNamedStorageCapacity s)"
      "m_parentEdgeTransitionKind sr = transition_kind AddSlotForProperty (butterfly_expansion s True \<noteq> None)"
      "m_parent sr = a" "m_metatable sr = m_metatable s" "m_transitionTable sr = NoTransition"
      using cf by (simp_all add: created_from_def Let_def)
    have st: "storage_ok (Suc (length (K a))) sr"
      using sem pre by (intro storage_ok_add[OF _ num _ F(2,3)]) (auto simp: sem_ok_def can_add_property_def x_maxNumSlots_def)
    have "sem_ok env (K a @ [key]) sr"
      using st sem pre by (auto simp: sem_ok_def F(1,6) can_add_property_def nth_append_poly)
    moreover have "edge_ok env (K a) s (K a @ [key]) sr"
      using grows_expansion[OF F(3)] pre F(1,2,6) unfolding edge_ok_def F(4) transition_kind_def Let_def can_add_property_def
      by auto
    moreover have "GetParentEdgeTransitionKey sr = key"
      using last_added_key[OF wf] unfolding GetParentEdgeTransitionKey_def F(4) transition_kind_def by auto
    ultimately show ?thesis unfolding child_of_def using F(5,7) by blast
  qed
  then show "creates env sh K (CreateStructureForAddPropertyTransition env a key sh) (K a @ [key])
      (\<lambda>sr. child_of env a (K a) s (K a @ [key]) key sr \<and> True)"
    unfolding CreateStructureForAddPropertyTransition_def
    using created_from_child[OF W a _ _ room, of AddSlotForProperty key] pre ks
    by (simp add: can_add_property_def x_maxNumSlots_def new_keys_def)
qed (auto simp: can_add_property_def x_key_invalid_def x_key_deleted_def)

section \<open>Changing the metatable\<close>

definition can_go_poly :: "vm_env \<Rightarrow> gkey list \<Rightarrow> struct \<Rightarrow> bool" where
  "can_go_poly env ks s \<longleftrightarrow> m_metatable s \<le> 0"

interpretation go_poly: child_creator env a "CreateStructureForPolyMetatableTransition env a"
  "can_go_poly env" "\<lambda>ks. ks @ [env_specialKey env]" x_key_add_or_to_poly_metatable "\<lambda>sr. 0 < m_metatable sr" for env a
proof
  fix sh K s
  let ?sp = "env_specialKey env"
  assume W: "wf_sheap env sh K" and a: "sh_structs sh a = Some s" and sem: "sem_ok env (K a) s"
    and pre: "can_go_poly env (K a) s" and room: "sh_next sh + 2000 < 2 ^ 32"
  have ks: "K a @ new_keys AddSlotForPolyMetatable ?sp = K a @ [?sp]" by (simp add: new_keys_def)
  have num: "m_numSlots s = length (K a)" using wf_structD(3)[OF wf_sheapD(3)[OF W a]] .
  have le: "length (K a) \<le> 253" "?sp \<notin> set (K a)" using sem pre by (auto simp: sem_ok_def can_go_poly_def x_maxNumSlots_def)
  have "child_of env a (K a) s (K a @ [?sp]) x_key_add_or_to_poly_metatable sr \<and> 0 < m_metatable sr"
    if cf: "created_from env a s AddSlotForPolyMetatable ?sp sr" for sr
  proof -
    have F: "m_arrayType sr = SetMayHaveMetatable True (m_arrayType s)" "m_inlineNamedStorageCapacity sr = m_inlineNamedStorageCapacity s"
      "m_butterflyNamedStorageCapacity sr = (case butterfly_expansion s True of Some c \<Rightarrow> c | None \<Rightarrow> m_butterflyNamedStorageCapacity s)"
      "m_parentEdgeTransitionKind sr = transition_kind AddSlotForPolyMetatable (butterfly_expansion s True \<noteq> None)"
      "m_parent sr = a" "m_metatable sr = int (Suc (length (K a)))" "m_transitionTable sr = NoTransition"
      using cf by (simp_all add: created_from_def Let_def num)
    have st: "storage_ok (Suc (length (K a))) sr"
      using sem le by (intro storage_ok_add[OF _ num _ F(2,3)]) (auto simp: sem_ok_def)
    have "sem_ok env (K a @ [?sp]) sr"
      using st sem le unfolding sem_ok_def F(1,6) by (auto simp: x_maxNumSlots_def nat_int_add)
    moreover have "edge_ok env (K a) s (K a @ [?sp]) sr"
      using grows_expansion[OF F(3)] pre F(1,2,6) unfolding edge_ok_def F(4) transition_kind_def Let_def can_go_poly_def
      by auto
    moreover have "GetParentEdgeTransitionKey sr = x_key_add_or_to_poly_metatable"
      unfolding GetParentEdgeTransitionKey_def F(4) transition_kind_def by auto
    ultimately show ?thesis unfolding child_of_def using F(5-7) by simp
  qed
  then show "creates env sh K (CreateStructureForPolyMetatableTransition env a sh) (K a @ [?sp])
      (\<lambda>sr. child_of env a (K a) s (K a @ [?sp]) x_key_add_or_to_poly_metatable sr \<and> 0 < m_metatable sr)"
    unfolding CreateStructureForPolyMetatableTransition_def
    using created_from_child[OF W a _ _ room, of AddSlotForPolyMetatable ?sp] le ks
    by (simp add: new_keys_def)
qed (auto simp: can_go_poly_def x_key_invalid_def x_key_deleted_def x_key_add_or_to_poly_metatable_def)

section \<open>Transitions on a clone\<close>

lemma clone_child:
  assumes W: "wf_sheap env sh K" and a: "sh_structs sh a = Some s"
    and room: "sh_next sh + 2000 < 2 ^ 32"
    and rep: "\<And>sr. same_repr sr (g sr)"
    and P: "\<And>sr. created_from env a s NoSlotAdded 0 sr \<Longrightarrow> P (g sr)"
  shows "creates env sh K (case CloneStructure env a sh of None \<Rightarrow> None | Some (sh, r) \<Rightarrow> Some (update_struct r g sh, r)) (K a) P"
proof -
  have "length (K a) \<le> 254" using wf_structD(1)[OF wf_sheapD(3)[OF W a]] .
  then have "creates env sh K (CreateStructureForTransitionImpl env sh a NoSlotAdded 0) (K a @ new_keys NoSlotAdded 0)
      (created_from env a s NoSlotAdded 0)"
    by (intro created_from_child[OF W a _ _ room]) (auto simp: new_keys_def)
  then obtain sh' r sr where c: "CloneStructure env a sh = Some (sh', r)" "wf_sheap env sh' (K(r := K a))" "sh_ext sh sh'"
    "sh_structs sh r = None" "dom (sh_structs sh') = insert r (dom (sh_structs sh))"
    "sh_next sh' \<le> sh_next sh + 2000" "sh_structs sh' r = Some sr" "created_from env a s NoSlotAdded 0 sr"
    by (auto simp: creates_def new_keys_def CloneStructure_def)
  let ?sh = "update_struct r g sh'"
  have st: "struct_at sh' r = sr" using c(7) by (simp add: struct_at_def)
  have "wf_sheap env ?sh (K(r := K a))"
    unfolding update_struct_def st by (rule wf_sheap_update[OF c(2,7) rep])
  moreover have "sh_ext sh ?sh" using c(3,4) unfolding sh_ext_def update_struct_def set_struct_def by auto
  ultimately show ?thesis using c P[OF c(8)] unfolding creates_def
    by (intro exI[of _ ?sh] exI[of _ r] exI[of _ "g sr"]) (auto simp: update_struct_def set_struct_def st)
qed


lemma created_clone:
  assumes "created_from env a s NoSlotAdded 0 sr"
  shows "m_arrayType sr = m_arrayType s" "m_inlineNamedStorageCapacity sr = m_inlineNamedStorageCapacity s"
    "m_butterflyNamedStorageCapacity sr = m_butterflyNamedStorageCapacity s" "m_parent sr = a"
    "m_metatable sr = m_metatable s" "m_transitionTable sr = NoTransition"
  using assms by (simp_all add: created_from_def butterfly_expansion_def Let_def)

definition can_add_metatable :: "int \<Rightarrow> gkey list \<Rightarrow> struct \<Rightarrow> bool" where
  "can_add_metatable metatable ks s \<longleftrightarrow> m_metatable s = 0 \<and> metatable < 0"

definition can_remove_metatable :: "gkey list \<Rightarrow> struct \<Rightarrow> bool" where
  "can_remove_metatable ks s \<longleftrightarrow> m_metatable s < 0"

definition can_change_array_type :: "u8 \<Rightarrow> gkey list \<Rightarrow> struct \<Rightarrow> bool" where
  "can_change_array_type at ks s \<longleftrightarrow> valid_array_type at \<and> MayHaveMetatable at = MayHaveMetatable (m_arrayType s)"

interpretation add_mt: child_creator env a "CreateStructureForMonomorphicMetatableTransition env a mt"
  "can_add_metatable mt" "\<lambda>ks. ks" x_key_add_or_to_poly_metatable "\<lambda>sr. m_metatable sr = mt" for env a mt
proof
  fix sh K s
  assume W: "wf_sheap env sh K" and a: "sh_structs sh a = Some s" and sem: "sem_ok env (K a) s"
    and pre: "can_add_metatable mt (K a) s" and room: "sh_next sh + 2000 < 2 ^ 32"
  show "creates env sh K (CreateStructureForMonomorphicMetatableTransition env a mt sh) (K a)
      (\<lambda>sr. child_of env a (K a) s (K a) x_key_add_or_to_poly_metatable sr \<and> m_metatable sr = mt)"
    unfolding CreateStructureForMonomorphicMetatableTransition_def
    using sem pre by (intro clone_child[OF W a room])
      (auto simp: same_repr_def child_of_def sem_ok_def storage_ok_def edge_ok_def Let_def can_add_metatable_def
        GetParentEdgeTransitionKey_def created_clone)
qed (auto simp: can_add_metatable_def x_key_invalid_def x_key_deleted_def x_key_add_or_to_poly_metatable_def)

interpretation remove_mt: child_creator env a "CreateStructureForRemoveMetatableTransition env a"
  can_remove_metatable "\<lambda>ks. ks" x_key_remove_metatable "\<lambda>_. True" for env a
proof
  fix sh K s
  assume W: "wf_sheap env sh K" and a: "sh_structs sh a = Some s" and sem: "sem_ok env (K a) s"
    and pre: "can_remove_metatable (K a) s" and room: "sh_next sh + 2000 < 2 ^ 32"
  show "creates env sh K (CreateStructureForRemoveMetatableTransition env a sh) (K a)
      (\<lambda>sr. child_of env a (K a) s (K a) x_key_remove_metatable sr \<and> True)"
    unfolding CreateStructureForRemoveMetatableTransition_def
    using sem pre by (intro clone_child[OF W a room])
      (auto simp: same_repr_def child_of_def sem_ok_def storage_ok_def edge_ok_def Let_def can_remove_metatable_def
        GetParentEdgeTransitionKey_def created_clone)
qed (auto simp: can_remove_metatable_def x_key_invalid_def x_key_deleted_def x_key_remove_metatable_def)

lemma array_type_key_ge: "256 \<le> x_key_change_array_type_tag OR uint (at :: u8)"
  unfolding x_key_change_array_type_tag_def using or_greater_eq[of "uint at" 256] by simp

interpretation change_at: child_creator env a "CreateStructureForUpdateArrayType env a at"
  "can_change_array_type at" "\<lambda>ks. ks" "x_key_change_array_type_tag OR uint at" "\<lambda>_. True" for env a at
proof
  fix sh K s
  assume W: "wf_sheap env sh K" and a: "sh_structs sh a = Some s" and sem: "sem_ok env (K a) s"
    and pre: "can_change_array_type at (K a) s" and room: "sh_next sh + 2000 < 2 ^ 32"
  show "creates env sh K (CreateStructureForUpdateArrayType env a at sh) (K a)
      (\<lambda>sr. child_of env a (K a) s (K a) (x_key_change_array_type_tag OR uint at) sr \<and> True)"
    unfolding CreateStructureForUpdateArrayType_def
    using sem pre by (intro clone_child[OF W a room])
      (auto simp: same_repr_def child_of_def sem_ok_def storage_ok_def edge_ok_def Let_def can_change_array_type_def
        GetParentEdgeTransitionKey_def created_clone)
next
  show "x_key_change_array_type_tag OR uint at \<noteq> x_key_invalid \<and> x_key_change_array_type_tag OR uint at \<noteq> x_key_deleted"
    for ks s using array_type_key_ge[of at] by (auto simp: x_key_invalid_def x_key_deleted_def)
qed (auto simp: can_change_array_type_def)

section \<open>Following a transition\<close>

text \<open>
  The outcome of a transition: the tree stays well formed, and the structures that were there keep their keys
  and every field but the transition table and the anchor table.
\<close>

definition transits ::
  "vm_env \<Rightarrow> sheap \<Rightarrow> (sys_ptr \<Rightarrow> gkey list) \<Rightarrow> sheap \<Rightarrow> (sys_ptr \<Rightarrow> gkey list) \<Rightarrow>
   (sys_ptr \<Rightarrow> transition_key \<rightharpoonup> sys_ptr) \<Rightarrow> bool" where
  "transits env sh K sh' K' C' \<longleftrightarrow> wf_theap env sh' K' C' \<and> keeps_structs sh sh' \<and>
     (\<forall>x. sh_structs sh x \<noteq> None \<longrightarrow> K' x = K x)"

lemma transits_refl: "wf_theap env sh K C \<Longrightarrow> transits env sh K sh K C"
  by (simp add: transits_def)

definition leads_to ::
  "vm_env \<Rightarrow> sheap \<Rightarrow> (sys_ptr \<Rightarrow> gkey list) \<Rightarrow> (sys_ptr \<Rightarrow> transition_key \<rightharpoonup> sys_ptr) \<Rightarrow> sys_ptr \<Rightarrow> transition_key \<Rightarrow>
   sheap \<Rightarrow> (sys_ptr \<Rightarrow> gkey list) \<Rightarrow> (sys_ptr \<Rightarrow> transition_key \<rightharpoonup> sys_ptr) \<Rightarrow> sys_ptr \<Rightarrow> struct \<Rightarrow> bool" where
  "leads_to env sh K C a key sh' K' C' r sr \<longleftrightarrow>
     transits env sh K sh' K' C' \<and> sh_next sh' \<le> query_room sh a \<and> C' a key = Some r \<and> sh_structs sh' r = Some sr \<and>
     m_parent sr = a \<and> GetParentEdgeTransitionKey sr = key \<and> edge_ok env (K a) (struct_at sh a) (K' r) sr"

lemma child_facts:
  assumes W: "wf_theap env sh K C" and a: "sh_structs sh a = Some s" and c: "C a key = Some c"
  obtains sc where "sh_structs sh c = Some sc" "leads_to env sh K C a key sh K C c sc"
proof -
  obtain sc where sc: "sh_structs sh c = Some sc" "m_parent sc = a" "GetParentEdgeTransitionKey sc = key"
    "key \<noteq> x_key_invalid"
    using wf_theapD(4)[OF W a] c unfolding children_ok_def by blast
  then have "m_parentEdgeTransitionKind sc \<noteq> BadTransitionKind" by (auto simp: GetParentEdgeTransitionKey_def)
  then have "edge_ok env (K a) s (K c) sc" using wf_theapD(6)[OF W sc(1)] sc(2) a by auto
  with sc a c W show ?thesis
    by (intro that[of sc]) (auto simp: leads_to_def transits_refl struct_at_def query_room_def)
qed

context child_creator
begin

lemma insert_leads:
  assumes W: "wf_theap env sh K C" and a: "sh_structs sh a = Some s"
    and pre: "C a key = None \<Longrightarrow> pre (K a) s" and room: "query_room sh a < 2 ^ 32"
    and link: "\<And>sr sh' K'. key = x_key_add_or_to_poly_metatable \<Longrightarrow> child_of env a (K a) s (keys' (K a)) key sr \<Longrightarrow>
       wf_struct env sh' K' (keys' (K a)) sr \<Longrightarrow>
       m_parentEdgeTransitionKind sr = AddMetaTable \<or> 0 < m_metatable sr"
  shows "\<exists>sh' r K' C' sr. QueryTransitionTableAndInsert env sh a key f = Some (sh', r) \<and>
    leads_to env sh K C a key sh' K' C' r sr \<and> (\<forall>c. C a key = Some c \<longrightarrow> sh' = sh \<and> r = c \<and> K' = K \<and> C' = C)"
proof (cases "C a key")
  case None
  obtain sh' r sr where q: "QueryTransitionTableAndInsertOrUpsertImpl True env sh a key (\<lambda>_. f) = Some (sh', r)"
    "sh_structs sh r = None" "wf_theap env sh' (K(r := keys' (K a))) (C(a := (C a)(key \<mapsto> r), r := Map.empty))"
    "sh_next sh' \<le> query_room sh a" "keeps_structs sh sh'" "sh_structs sh' r = Some sr"
    "child_of env a (K a) s (keys' (K a)) key sr" "post sr"
    using query_creates[where b = True and g = "\<lambda>_. f", OF W a pre[OF None] None refl room] link by blast
  have "a \<noteq> r" using a q(2) by auto
  then have "leads_to env sh K C a key sh' (K(r := keys' (K a))) (C(a := (C a)(key \<mapsto> r), r := Map.empty)) r sr"
    using q a by (auto simp: leads_to_def transits_def child_of_def struct_at_def)
  with q(1) None show ?thesis unfolding QueryTransitionTableAndInsert_def
    by (intro exI conjI) (assumption, assumption, simp)
next
  case (Some c)
  then obtain sc where sc: "sh_structs sh c = Some sc" "leads_to env sh K C a key sh K C c sc"
    by (rule child_facts[OF W a])
  from query_keeps[OF W a Some] have "QueryTransitionTableAndInsert env sh a key f = Some (sh, c)"
    by (simp add: QueryTransitionTableAndInsert_def)
  with sc(2) Some show ?thesis by (intro exI conjI) (assumption, assumption, simp)
qed

lemma upsert_replaces:
  assumes W: "wf_theap env sh K C" and a: "sh_structs sh a = Some s" and pre: "pre (K a) s" and room: "query_room sh a < 2 ^ 32"
    and g: "C a key = None \<Longrightarrow> g None = f" "\<And>c. C a key = Some c \<Longrightarrow> g (Some c) sh = f sh"
    and link: "\<And>sr sh' K'. key = x_key_add_or_to_poly_metatable \<Longrightarrow> child_of env a (K a) s (keys' (K a)) key sr \<Longrightarrow>
       wf_struct env sh' K' (keys' (K a)) sr \<Longrightarrow>
       m_parentEdgeTransitionKind sr = AddMetaTable \<and> C a key = None \<or> 0 < m_metatable sr"
  shows "\<exists>sh' r K' C' sr. QueryTransitionTableAndUpsert env sh a key g = Some (sh', r) \<and>
    leads_to env sh K C a key sh' K' C' r sr \<and> K' r = keys' (K a) \<and> post sr"
proof -
  have link': "m_parentEdgeTransitionKind sr = AddMetaTable \<or> 0 < m_metatable sr"
    if "key = x_key_add_or_to_poly_metatable" "child_of env a (K a) s (keys' (K a)) key sr"
      "wf_struct env sh' K' (keys' (K a)) sr" for sr sh' K' using link that by blast
  have "\<exists>sh' r. QueryTransitionTableAndInsertOrUpsertImpl False env sh a key g = Some (sh', r) \<and> sh_structs sh r = None \<and>
    wf_theap env sh' (K(r := keys' (K a))) (C(a := (C a)(key \<mapsto> r), r := Map.empty)) \<and>
    sh_next sh' \<le> query_room sh a \<and> dom (sh_structs sh') = insert r (dom (sh_structs sh)) \<and> keeps_structs sh sh' \<and>
    (\<exists>sr. sh_structs sh' r = Some sr \<and> child_of env a (K a) s (keys' (K a)) key sr \<and> post sr)"
  proof (cases "C a key")
    case None
    with g(1) have "g None = f" by simp
    from query_creates[where b = False and g = g, OF W a pre None this room] link' show ?thesis by blast
  next
    case (Some c)
    with g(2) have "g (Some c) sh = f sh" by simp
    moreover have "0 < m_metatable sr" if "key = x_key_add_or_to_poly_metatable" "child_of env a (K a) s (keys' (K a)) key sr"
      "wf_struct env sh' K' (keys' (K a)) sr" for sr sh' K'
      using link that Some by fastforce
    ultimately show ?thesis using query_replaces[where g = g, OF W a pre Some _ room] by blast
  qed
  then obtain sh' r sr where q: "QueryTransitionTableAndInsertOrUpsertImpl False env sh a key g = Some (sh', r)"
    "sh_structs sh r = None" "wf_theap env sh' (K(r := keys' (K a))) (C(a := (C a)(key \<mapsto> r), r := Map.empty))"
    "sh_next sh' \<le> query_room sh a" "keeps_structs sh sh'" "sh_structs sh' r = Some sr"
    "child_of env a (K a) s (keys' (K a)) key sr" "post sr" by blast
  have "a \<noteq> r" using a q(2) by auto
  then have "leads_to env sh K C a key sh' (K(r := keys' (K a))) (C(a := (C a)(key \<mapsto> r), r := Map.empty)) r sr"
    using q a by (auto simp: leads_to_def transits_def child_of_def struct_at_def)
  with q(1,8) show ?thesis unfolding QueryTransitionTableAndUpsert_def
    by (intro exI conjI) (assumption, assumption, simp, assumption)
qed

end

section \<open>What an edge says, by its transition key\<close>

lemma leads_to_wf:
  assumes "leads_to env sh K C a key sh' K' C' r sr"
  shows "wf_struct env sh' K' (K' r) sr" "sem_ok env (K' r) sr" "wf_sheap env sh' K'"
  using assms wf_theapD(1,2)[of env sh' K' C' r sr] wf_sheapD(3)[of env sh' K' r sr]
  unfolding leads_to_def transits_def by auto

lemma grows_iff:
  assumes g: "grows s sr g" and st: "storage_ok (Suc n) sr" "m_numSlots s = n"
    and i: "m_inlineNamedStorageCapacity sr = m_inlineNamedStorageCapacity s" and ss: "storage_ok n s"
  shows "g \<longleftrightarrow> m_butterflyNamedStorageCapacity sr \<noteq> m_butterflyNamedStorageCapacity s"
proof (cases g)
  case True
  then have e: "butterfly_expansion s True = Some (m_butterflyNamedStorageCapacity sr)" using g by (simp add: grows_def)
  have "n = m_inlineNamedStorageCapacity s + m_butterflyNamedStorageCapacity s"
    using e ss st(2) unfolding butterfly_expansion_def storage_ok_def by (auto simp: Let_def split: if_splits)
  with st(1) i True show ?thesis unfolding storage_ok_def by auto
qed (use g in \<open>simp add: grows_def\<close>)

text \<open>Along every edge of the transition tree the named storage of the butterfly stays or grows.\<close>

lemma leads_to_capacity:
  assumes W: "wf_theap env sh K C" and a: "sh_structs sh a = Some s" and L: "leads_to env sh K C a key sh' K' C' r sr"
  shows "m_butterflyNamedStorageCapacity s \<le> m_butterflyNamedStorageCapacity sr"
proof -
  have E: "edge_ok env (K a) s (K' r) sr" using L a by (auto simp: leads_to_def struct_at_def)
  have st: "storage_ok (length (K' r)) sr" "storage_ok (length (K a)) s"
    using leads_to_wf(2)[OF L] wf_theapD(2)[OF W a] by (simp_all add: sem_ok_def)
  have n: "m_numSlots s = length (K a)" using wf_structD(3) wf_sheapD(3) wf_theapD(1)[OF W a] a by blast
  have "m_butterflyNamedStorageCapacity s \<le> m_butterflyNamedStorageCapacity sr" if "grows s sr g" "length (K' r) = Suc (length (K a))" for g
  proof (cases g)
    case True
    then have "butterfly_expansion s True = Some (m_butterflyNamedStorageCapacity sr)" using that(1) by (simp add: grows_def)
    then have "length (K a) = m_inlineNamedStorageCapacity s + m_butterflyNamedStorageCapacity s"
      using st(2) n unfolding butterfly_expansion_def storage_ok_def by (auto simp: Let_def split: if_splits)
    then show ?thesis using st(1) E that(2) unfolding storage_ok_def edge_ok_def by auto
  qed (use that in \<open>simp add: grows_def\<close>)
  then show ?thesis using E unfolding edge_ok_def
    by (cases "m_parentEdgeTransitionKind sr") (auto simp: Let_def)
qed

lemma added_property:
  assumes W: "wf_theap env sh K C" and a: "sh_structs sh a = Some s"
    and L: "leads_to env sh K C a key sh' K' C' r sr" and key: "key < 0"
  shows "K' r = K a @ [key]" "m_metatable sr = m_metatable s" "m_arrayType sr = m_arrayType s"
    "m_parentEdgeTransitionKind sr = AddPropertyAndGrowPropertyStorageCapacity \<longleftrightarrow>
      m_butterflyNamedStorageCapacity sr \<noteq> m_butterflyNamedStorageCapacity s"
    "m_inlineNamedStorageCapacity sr = m_inlineNamedStorageCapacity s"
    "length (K a) < m_inlineNamedStorageCapacity sr + m_butterflyNamedStorageCapacity sr"
proof -
  note wf = leads_to_wf[OF L]
  have E: "edge_ok env (K a) s (K' r) sr" "GetParentEdgeTransitionKey sr = key"
    using L a by (auto simp: leads_to_def struct_at_def)
  have kind: "m_parentEdgeTransitionKind sr \<in> {AddProperty, AddPropertyAndGrowPropertyStorageCapacity}"
  proof -
    have "0 \<le> x_key_change_array_type_tag OR uint (m_arrayType sr)" using array_type_key_ge[of "m_arrayType sr"] by linarith
    then show ?thesis using E(2) key
      by (cases "m_parentEdgeTransitionKind sr")
        (auto simp: GetParentEdgeTransitionKey_def x_key_add_or_to_poly_metatable_def x_key_remove_metatable_def x_key_invalid_def)
  qed
  then obtain k where k: "K' r = K a @ [k]" using E(1) unfolding edge_ok_def by (auto simp: Let_def)
  then have "GetLastAddedKey sr = k" using last_added_key wf(1) by simp
  then have "k = key" using E(2) kind by (auto simp: GetParentEdgeTransitionKey_def)
  with k show kr: "K' r = K a @ [key]" by simp
  show "m_metatable sr = m_metatable s" "m_arrayType sr = m_arrayType s"
    and i: "m_inlineNamedStorageCapacity sr = m_inlineNamedStorageCapacity s"
    using E(1) kind unfolding edge_ok_def by (auto simp: Let_def)
  have g: "grows s sr (m_parentEdgeTransitionKind sr = AddPropertyAndGrowPropertyStorageCapacity)"
    using E(1) kind unfolding edge_ok_def by (auto simp: Let_def)
  have st: "storage_ok (Suc (length (K a))) sr" using wf(2) kr by (simp add: sem_ok_def)
  then show "length (K a) < m_inlineNamedStorageCapacity sr + m_butterflyNamedStorageCapacity sr"
    by (simp add: storage_ok_def)
  have "m_numSlots s = length (K a)" using wf_structD(3) wf_sheapD(3) wf_theapD(1)[OF W a] a by blast
  from grows_iff[OF g st this i] wf_theapD(2)[OF W a]
  show "m_parentEdgeTransitionKind sr = AddPropertyAndGrowPropertyStorageCapacity \<longleftrightarrow>
      m_butterflyNamedStorageCapacity sr \<noteq> m_butterflyNamedStorageCapacity s" by (simp add: sem_ok_def)
qed

lemma array_type_key_inj: "x_key_change_array_type_tag OR uint (x::u8) = x_key_change_array_type_tag OR uint y \<Longrightarrow> x = y"
proof -
  assume h: "x_key_change_array_type_tag OR uint x = x_key_change_array_type_tag OR uint y"
  have p: "256 OR uint w = 256 + uint w" for w :: u8
  proof -
    have "256 AND uint w = 0"
    proof (rule bit_eqI)
      fix n
      have "bit (256::int) n \<longleftrightarrow> n = 8" using bit_exp_iff[where 'a = int, of 8 n] by simp
      then show "bit (256 AND uint w) n = bit (0::int) n" by (auto simp: bit_and_iff bit_uint_iff)
    qed
    then show ?thesis by (simp add: disjunctive_add_eq_or)
  qed
  show "x = y" using h unfolding x_key_change_array_type_tag_def p by (simp add: word_uint_eq_iff)
qed

lemma SetMayHaveMetatable_same: "MayHaveMetatable a = v \<Longrightarrow> SetMayHaveMetatable v a = a"
  unfolding MayHaveMetatable_def SetMayHaveMetatable_def
  by (rule bit_word_eqI) (auto simp: bfm_GetBool_bit[simplified] bit_SetFlag[simplified])

lemma SetMayHaveMetatable_twice [simp]: "SetMayHaveMetatable v (SetMayHaveMetatable w a) = SetMayHaveMetatable v a"
  unfolding SetMayHaveMetatable_def by (rule bit_word_eqI) (auto simp: bit_SetFlag[simplified])

text \<open>The edges of the other transition keys.\<close>

lemma nonneg_last_key:
  assumes E: "edge_ok env ks s ks' sr" "GetParentEdgeTransitionKey sr = key" and wf: "wf_struct env sh K ks' sr" and key: "0 \<le> key"
  shows "m_parentEdgeTransitionKind sr \<notin> {AddProperty, AddPropertyAndGrowPropertyStorageCapacity}"
proof
  assume k: "m_parentEdgeTransitionKind sr \<in> {AddProperty, AddPropertyAndGrowPropertyStorageCapacity}"
  then obtain k' where "ks' = ks @ [k']" "k' < 0" using E(1) unfolding edge_ok_def by (auto simp: Let_def)
  moreover from this have "GetLastAddedKey sr = k'" using last_added_key wf by simp
  ultimately show False using E(2) k key by (auto simp: GetParentEdgeTransitionKey_def)
qed

lemma metatable_edge:
  assumes W: "wf_theap env sh K C" and a: "sh_structs sh a = Some s"
    and L: "leads_to env sh K C a x_key_add_or_to_poly_metatable sh' K' C' r sr"
  shows "(if m_parentEdgeTransitionKind sr = AddMetaTable
      then K' r = K a \<and> m_metatable s = 0 \<and> m_metatable sr < 0 \<and>
        m_butterflyNamedStorageCapacity sr = m_butterflyNamedStorageCapacity s
      else K' r = K a @ [env_specialKey env] \<and> m_metatable sr = int (length (K a)) + 1 \<and> m_metatable s \<le> 0 \<and>
        (m_parentEdgeTransitionKind sr = TransitToPolyMetaTableAndGrowPropertyStorageCapacity \<longleftrightarrow>
          m_butterflyNamedStorageCapacity sr \<noteq> m_butterflyNamedStorageCapacity s)) \<and>
    m_arrayType sr = SetMayHaveMetatable True (m_arrayType s) \<and>
    m_inlineNamedStorageCapacity sr = m_inlineNamedStorageCapacity s"
proof -
  note wf = leads_to_wf[OF L]
  have E: "edge_ok env (K a) s (K' r) sr" "GetParentEdgeTransitionKey sr = x_key_add_or_to_poly_metatable"
    using L a by (auto simp: leads_to_def struct_at_def)
  have kind: "m_parentEdgeTransitionKind sr \<in> {AddMetaTable, TransitToPolyMetaTable, TransitToPolyMetaTableAndGrowPropertyStorageCapacity}"
    using nonneg_last_key[OF E wf(1)] E(2) array_type_key_ge[of "m_arrayType sr"]
    by (cases "m_parentEdgeTransitionKind sr")
      (auto simp: GetParentEdgeTransitionKey_def x_key_add_or_to_poly_metatable_def x_key_remove_metatable_def x_key_invalid_def)
  have i: "m_inlineNamedStorageCapacity sr = m_inlineNamedStorageCapacity s" using E(1) unfolding edge_ok_def by simp
  have g: "m_parentEdgeTransitionKind sr = TransitToPolyMetaTableAndGrowPropertyStorageCapacity \<longleftrightarrow>
          m_butterflyNamedStorageCapacity sr \<noteq> m_butterflyNamedStorageCapacity s" if "m_parentEdgeTransitionKind sr \<noteq> AddMetaTable"
  proof (rule grows_iff[OF _ _ _ i])
    show "grows s sr (m_parentEdgeTransitionKind sr = TransitToPolyMetaTableAndGrowPropertyStorageCapacity)"
      using E(1) kind that unfolding edge_ok_def by (auto simp: Let_def)
    have "K' r = K a @ [env_specialKey env]" using E(1) kind that unfolding edge_ok_def by (auto simp: Let_def)
    then show "storage_ok (Suc (length (K a))) sr" using wf(2) by (simp add: sem_ok_def)
    show "m_numSlots s = length (K a)" using wf_structD(3) wf_sheapD(3) wf_theapD(1)[OF W a] a by blast
    show "storage_ok (length (K a)) s" using wf_theapD(2)[OF W a] by (simp add: sem_ok_def)
  qed
  show ?thesis using E(1) kind g i unfolding edge_ok_def by (auto simp: Let_def)
qed

lemma remove_edge:
  assumes W: "wf_theap env sh K C" and a: "sh_structs sh a = Some s"
    and L: "leads_to env sh K C a x_key_remove_metatable sh' K' C' r sr"
  shows "K' r = K a \<and> m_metatable sr = 0 \<and> m_arrayType sr = SetMayHaveMetatable False (m_arrayType s) \<and>
    m_butterflyNamedStorageCapacity sr = m_butterflyNamedStorageCapacity s \<and>
    m_inlineNamedStorageCapacity sr = m_inlineNamedStorageCapacity s"
proof -
  note wf = leads_to_wf[OF L]
  have E: "edge_ok env (K a) s (K' r) sr" "GetParentEdgeTransitionKey sr = x_key_remove_metatable"
    using L a by (auto simp: leads_to_def struct_at_def)
  have kind: "m_parentEdgeTransitionKind sr = RemoveMetaTable"
    using nonneg_last_key[OF E wf(1)] E(2) array_type_key_ge[of "m_arrayType sr"]
    by (cases "m_parentEdgeTransitionKind sr")
      (auto simp: GetParentEdgeTransitionKey_def x_key_add_or_to_poly_metatable_def x_key_remove_metatable_def x_key_invalid_def)
  then show ?thesis using E(1) unfolding edge_ok_def by (auto simp: Let_def)
qed

lemma array_type_edge:
  assumes W: "wf_theap env sh K C" and a: "sh_structs sh a = Some s"
    and L: "leads_to env sh K C a (x_key_change_array_type_tag OR uint at) sh' K' C' r sr"
  shows "K' r = K a \<and> m_metatable sr = m_metatable s \<and> m_arrayType sr = at \<and>
    m_butterflyNamedStorageCapacity sr = m_butterflyNamedStorageCapacity s \<and>
    m_inlineNamedStorageCapacity sr = m_inlineNamedStorageCapacity s"
proof -
  note wf = leads_to_wf[OF L]
  let ?key = "x_key_change_array_type_tag OR uint at"
  have E: "edge_ok env (K a) s (K' r) sr" "GetParentEdgeTransitionKey sr = ?key"
    using L a by (auto simp: leads_to_def struct_at_def)
  have "0 \<le> ?key" using array_type_key_ge[of at] by linarith
  then have kind: "m_parentEdgeTransitionKind sr = UpdateArrayTypeKind"
    using nonneg_last_key[OF E wf(1)] E(2) array_type_key_ge[of at]
    by (cases "m_parentEdgeTransitionKind sr")
      (auto simp: GetParentEdgeTransitionKey_def x_key_add_or_to_poly_metatable_def x_key_remove_metatable_def x_key_invalid_def)
  then have "m_arrayType sr = at" using E(2) array_type_key_inj by (auto simp: GetParentEdgeTransitionKey_def)
  then show ?thesis using E(1) kind unfolding edge_ok_def by (auto simp: Let_def)
qed

section \<open>The operations\<close>

lemma structure_numSlots:
  assumes "wf_theap env sh K C" "sh_structs sh a = Some s"
  shows "m_numSlots s = length (K a)" "struct_at sh a = s"
  using assms wf_structD(3) wf_sheapD(3) wf_theapD(1) by (blast, simp add: struct_at_def)

lemma AddNonExistentProperty_correct:
  assumes W: "wf_theap env sh K C" and a: "sh_structs sh a = Some s"
    and key: "key \<notin> set (K a)" "key < 0" "key \<noteq> env_specialKey env" and n: "length (K a) < x_maxNumSlots"
    and room: "query_room sh a < 2 ^ 32"
  shows "\<exists>sh' r K' C' sr.
    AddNonExistentProperty env sh a key = Some (sh', AddedProperty
      (m_butterflyNamedStorageCapacity sr \<noteq> m_butterflyNamedStorageCapacity s) (length (K a)) r) \<and>
    leads_to env sh K C a key sh' K' C' r sr \<and> (\<forall>c. C a key = Some c \<longrightarrow> sh' = sh \<and> r = c \<and> K' = K \<and> C' = C)"
proof -
  note st = structure_numSlots[OF W a]
  have pre: "can_add_property env key (K a) s" using key n by (simp add: can_add_property_def)
  obtain sh' r K' C' sr where q: "QueryTransitionTableAndInsert env sh a key (CreateStructureForAddPropertyTransition env a key) = Some (sh', r)"
    "leads_to env sh K C a key sh' K' C' r sr" "\<forall>c. C a key = Some c \<longrightarrow> sh' = sh \<and> r = c \<and> K' = K \<and> C' = C"
    using add_prop.insert_leads[OF W a pre room] key(2) unfolding x_key_add_or_to_poly_metatable_def by fastforce
  have "struct_at sh' r = sr" using q(2) by (simp add: leads_to_def struct_at_def)
  then have "AddNonExistentProperty env sh a key = Some (sh', AddedProperty
      (m_butterflyNamedStorageCapacity sr \<noteq> m_butterflyNamedStorageCapacity s) (length (K a)) r)"
    using n added_property(4)[OF W a q(2) key(2)] by (simp add: AddNonExistentProperty_def st q(1) Let_def)
  with q(2,3) show ?thesis by blast
qed

lemma UpdateArrayType_correct:
  assumes W: "wf_theap env sh K C" and a: "sh_structs sh a = Some s"
    and at: "valid_array_type at" "MayHaveMetatable at = MayHaveMetatable (m_arrayType s)"
    and room: "query_room sh a < 2 ^ 32"
  shows "\<exists>sh' r K' C' sr. UpdateArrayType env sh a at = Some (sh', r) \<and>
    leads_to env sh K C a (x_key_change_array_type_tag OR uint at) sh' K' C' r sr"
proof -
  have "x_key_change_array_type_tag OR uint at \<noteq> x_key_add_or_to_poly_metatable"
    using array_type_key_ge[of at] by (simp add: x_key_add_or_to_poly_metatable_def)
  then show ?thesis using change_at.insert_leads[OF W a _ room, of at] at
    unfolding UpdateArrayType_def Let_def by (simp add: can_change_array_type_def) blast
qed


text \<open>
  What a caller of \<^verbatim>\<open>SetMetatable\<close> relies on: either the new structure itself records the metatable and its keys are those of
  the old one, or it is in poly metatable mode and the result names the slot, held by the special key, where the caller
  stores the metatable.
\<close>

definition metatable_set ::
  "vm_env \<Rightarrow> gkey list \<Rightarrow> struct \<Rightarrow> int \<Rightarrow> AddMetatableResult \<Rightarrow> gkey list \<Rightarrow> struct \<Rightarrow> bool" where
  "metatable_set env ks s metatable res ks' s' \<longleftrightarrow>
     (if am_shouldInsertMetatable res
      then 0 < m_metatable s' \<and> am_slotOrdinal res = GetPolyMetatableSlot s' \<and>
        slot_index ks' (env_specialKey env) = Some (am_slotOrdinal res) \<and>
        ks' = (if env_specialKey env \<in> set ks then ks else ks @ [env_specialKey env])
      else m_metatable s' = metatable \<and> ks' = ks) \<and>
     (am_shouldGrowButterfly res \<longleftrightarrow> m_butterflyNamedStorageCapacity s' \<noteq> m_butterflyNamedStorageCapacity s) \<and>
     m_butterflyNamedStorageCapacity s \<le> m_butterflyNamedStorageCapacity s' \<and>
     m_inlineNamedStorageCapacity s' = m_inlineNamedStorageCapacity s \<and>
     m_arrayType s' = SetMayHaveMetatable True (m_arrayType s)"

lemma sem_ok_metatable_slot:
  assumes "sem_ok env ks s" "distinct ks" "0 < m_metatable s"
  shows "slot_index ks (env_specialKey env) = Some (GetPolyMetatableSlot s)" "env_specialKey env \<in> set ks"
    "MayHaveMetatable (m_arrayType s)"
proof -
  have "nat (m_metatable s) - 1 < length ks" "ks ! (nat (m_metatable s) - 1) = env_specialKey env"
    using assms by (auto simp: sem_ok_def) 
  moreover have "nat (m_metatable s) - 1 = nat (m_metatable s - 1)" using assms(3) by simp
  ultimately show "slot_index ks (env_specialKey env) = Some (GetPolyMetatableSlot s)"
    using slot_index_nth[OF assms(2)] unfolding GetPolyMetatableSlot_def by metis
qed (use assms in \<open>auto simp: sem_ok_def\<close>)

lemma metatable_set_edge:
  assumes W: "wf_theap env sh K C" and a: "sh_structs sh a = Some s" and m: "m_metatable s \<le> 0"
    and L: "leads_to env sh K C p x_key_add_or_to_poly_metatable sh' K' C' r sr"
    and p: "sh_structs sh p = Some sp" "K p = K a" "m_inlineNamedStorageCapacity s = m_inlineNamedStorageCapacity sp"
      "m_butterflyNamedStorageCapacity s = m_butterflyNamedStorageCapacity sp"
      "SetMayHaveMetatable True (m_arrayType s) = SetMayHaveMetatable True (m_arrayType sp)"
    and mono: "m_parentEdgeTransitionKind sr = AddMetaTable \<Longrightarrow> m_metatable sr = metatable"
  shows "metatable_set env (K a) s metatable (setmt_result sh' r) (K' r) sr"
proof -
  note wf = leads_to_wf[OF L] and E = metatable_edge[OF W p(1) L]
  have cap: "m_butterflyNamedStorageCapacity s \<le> m_butterflyNamedStorageCapacity sr" using leads_to_capacity[OF W p(1) L] p(4) by simp
  have sr: "struct_at sh' r = sr" using L by (simp add: leads_to_def struct_at_def)
  have no: "env_specialKey env \<notin> set (K a)" using wf_theapD(2)[OF W a] m by (simp add: sem_ok_def)
  show ?thesis
  proof (cases "m_parentEdgeTransitionKind sr = AddMetaTable")
    case True
    with E p mono cap show ?thesis by (simp add: metatable_set_def setmt_result_def sr)
  next
    case False
    then have "0 < m_metatable sr" "K' r = K a @ [env_specialKey env]" using E p(2) by auto
    moreover from sem_ok_metatable_slot[OF wf(2) wf_structD(2)[OF wf(1)] this(1)]
    have "slot_index (K' r) (env_specialKey env) = Some (GetPolyMetatableSlot sr)" by simp
    ultimately show ?thesis using E p False no cap by (simp add: metatable_set_def setmt_result_def sr)
  qed
qed

lemma mono_or_poly:
  assumes "child_of env a kp sp ks x_key_add_or_to_poly_metatable sr" "wf_struct env sh K ks sr"
  shows "m_parentEdgeTransitionKind sr = AddMetaTable \<or> 0 < m_metatable sr"
proof -
  have E: "edge_ok env kp sp ks sr" "GetParentEdgeTransitionKey sr = x_key_add_or_to_poly_metatable"
    using assms(1) by (auto simp: child_of_def)
  from nonneg_last_key[OF E assms(2)] E array_type_key_ge[of "m_arrayType sr"] show ?thesis
    by (cases "m_parentEdgeTransitionKind sr")
      (auto simp: GetParentEdgeTransitionKey_def x_key_add_or_to_poly_metatable_def x_key_remove_metatable_def x_key_invalid_def
        edge_ok_def Let_def)
qed

section \<open>Setting and removing the metatable\<close>

lemma upsert_keeps:
  assumes W: "wf_theap env sh K C" and a: "sh_structs sh a = Some s" and c: "C a key = Some c"
    and g: "g (Some c) sh = Some (sh, c)"
  shows "\<exists>sc. QueryTransitionTableAndUpsert env sh a key g = Some (sh, c) \<and> leads_to env sh K C a key sh K C c sc"
  using query_keeps[OF W a c] g child_facts[OF W a c] unfolding QueryTransitionTableAndUpsert_def by metis

lemma poly_upsert:
  assumes W: "wf_theap env sh K C" and a: "sh_structs sh a = Some s" and m: "m_metatable s \<le> 0"
    and room: "query_room sh a < 2 ^ 32"
    and g: "C a x_key_add_or_to_poly_metatable = None \<Longrightarrow> g None = CreateStructureForPolyMetatableTransition env a"
      "\<And>c. C a x_key_add_or_to_poly_metatable = Some c \<Longrightarrow> g (Some c) sh = CreateStructureForPolyMetatableTransition env a sh"
  shows "\<exists>sh' r K' C' sr. QueryTransitionTableAndUpsert env sh a x_key_add_or_to_poly_metatable g = Some (sh', r) \<and>
    leads_to env sh K C a x_key_add_or_to_poly_metatable sh' K' C' r sr \<and> 0 < m_metatable sr"
proof -
  have pre: "can_go_poly env (K a) s" using m by (simp add: can_go_poly_def)
  have link: "0 < m_metatable sr"
    if ch: "child_of env a (K a) s (K a @ [env_specialKey env]) x_key_add_or_to_poly_metatable sr"
      and wf: "wf_struct env sh' K' (K a @ [env_specialKey env]) sr" for sr sh' K'
    using mono_or_poly[OF ch wf] ch by (auto simp: child_of_def edge_ok_def Let_def)
  show ?thesis using go_poly.upsert_replaces[where g = g, OF W a pre room g] link by blast
qed

lemma SetMetatable_none:
  assumes W: "wf_theap env sh K C" and a: "sh_structs sh a = Some s" and mt: "metatable < 0" "m_metatable s = 0"
    and room: "query_room sh a < 2 ^ 32"
  shows "\<exists>sh' r K' C' sr.
    QueryTransitionTableAndUpsert env sh a x_key_add_or_to_poly_metatable (setmt_upsert_none env a metatable) = Some (sh', r) \<and>
    leads_to env sh K C a x_key_add_or_to_poly_metatable sh' K' C' r sr \<and>
    (m_parentEdgeTransitionKind sr = AddMetaTable \<longrightarrow> m_metatable sr = metatable)"
proof (cases "C a x_key_add_or_to_poly_metatable")
  case None
  have pre: "can_add_metatable metatable (K a) s" using mt by (simp add: can_add_metatable_def)
  have g: "setmt_upsert_none env a metatable None = CreateStructureForMonomorphicMetatableTransition env a metatable"
    by (simp add: setmt_upsert_none_def fun_eq_iff)
  have "\<exists>sh' r K' C' sr. QueryTransitionTableAndUpsert env sh a x_key_add_or_to_poly_metatable
      (setmt_upsert_none env a metatable) = Some (sh', r) \<and>
    leads_to env sh K C a x_key_add_or_to_poly_metatable sh' K' C' r sr \<and> K' r = K a \<and> m_metatable sr = metatable"
  proof (rule add_mt.upsert_replaces[OF W a pre room])
    show "m_parentEdgeTransitionKind sr = AddMetaTable \<and> C a x_key_add_or_to_poly_metatable = None \<or> 0 < m_metatable sr"
      if "child_of env a (K a) s (K a) x_key_add_or_to_poly_metatable sr" "wf_struct env sh' K' (K a) sr" for sr sh' K'
      using mono_or_poly[OF that] None by blast
  qed (use g None in simp_all)
  then show ?thesis by blast
next
  case (Some c)
  then obtain sc where sc: "sh_structs sh c = Some sc" and Lc: "leads_to env sh K C a x_key_add_or_to_poly_metatable sh K C c sc"
    by (rule child_facts[OF W a])
  have st: "struct_at sh c = sc" using sc by (simp add: struct_at_def)
  note E = metatable_edge[OF W a Lc]
  show ?thesis
  proof (cases "m_metatable sc < 0 \<and> m_metatable sc \<noteq> metatable")
    case True
    have "setmt_upsert_none env a metatable (Some c) sh = CreateStructureForPolyMetatableTransition env a sh" 
      using True st by (simp add: setmt_upsert_none_def HasMonomorphicMetatable_def)
    from poly_upsert[where g = "setmt_upsert_none env a metatable", OF W a _ room] mt(2) this Some
    show ?thesis using metatable_edge[OF W a] by (metis less_asym option.distinct(1) option.inject order_refl)
  next
    case False
    then have "setmt_upsert_none env a metatable (Some c) sh = Some (sh, c)"
      using st by (auto simp: setmt_upsert_none_def HasMonomorphicMetatable_def)
    from upsert_keeps[where g = "setmt_upsert_none env a metatable", OF W a Some this]
    have q: "QueryTransitionTableAndUpsert env sh a x_key_add_or_to_poly_metatable (setmt_upsert_none env a metatable) = Some (sh, c)"
      by blast
    have "m_parentEdgeTransitionKind sc = AddMetaTable \<longrightarrow> m_metatable sc = metatable" using E False by auto
    with q Lc show ?thesis by blast
  qed
qed


lemma SetMetatable_parent:
  assumes W: "wf_theap env sh K C" and a: "sh_structs sh a = Some s" and mt: "m_metatable s < 0"
    and kind: "m_parentEdgeTransitionKind s = AddMetaTable" and room: "query_room sh (m_parent s) < 2 ^ 32"
  shows "\<exists>sh' r K' C' sr.
    QueryTransitionTableAndUpsert env sh (m_parent s) x_key_add_or_to_poly_metatable (setmt_upsert_parent env (m_parent s) a) = Some (sh', r) \<and>
    leads_to env sh K C (m_parent s) x_key_add_or_to_poly_metatable sh' K' C' r sr \<and> 0 < m_metatable sr"
proof -
  let ?p = "m_parent s" and ?k = x_key_add_or_to_poly_metatable
  obtain sp where sp: "sh_structs sh ?p = Some sp" "edge_ok env (K ?p) sp (K a) s" using wf_theapD(6)[OF W a] kind by auto
  then have m0: "m_metatable sp = 0" using kind by (simp add: edge_ok_def)
  obtain c sc where c: "C ?p ?k = Some c" "sh_structs sh c = Some sc" "c = a \<or> 0 < m_metatable sc"
    using wf_theapD(5)[OF W a] kind by (auto simp: mono_link_def)
  show ?thesis
  proof (cases "c = a")
    case True
    then have "setmt_upsert_parent env ?p a (Some c) sh = CreateStructureForPolyMetatableTransition env ?p sh"
      by (simp add: setmt_upsert_parent_def)
    then show ?thesis using m0 c(1) by (intro poly_upsert[OF W sp(1) _ room]) auto
  next
    case False
    then have g: "setmt_upsert_parent env ?p a (Some c) sh = Some (sh, c)" by (simp add: setmt_upsert_parent_def)
    obtain sc' where "leads_to env sh K C ?p ?k sh K C c sc'"
      "QueryTransitionTableAndUpsert env sh ?p ?k (setmt_upsert_parent env ?p a) = Some (sh, c)"
      using upsert_keeps[where g = "setmt_upsert_parent env ?p a", OF W sp(1) c(1) g] by blast
    moreover from this have "sc' = sc" using c(2) by (simp add: leads_to_def)
    ultimately show ?thesis using c(3) False by blast
  qed
qed

lemma SetMetatable_correct:
  assumes W: "wf_theap env sh K C" and a: "sh_structs sh a = Some s" and mt: "metatable < 0"
    and room: "query_room sh a < 2 ^ 32"
      "m_parentEdgeTransitionKind s = AddMetaTable \<longrightarrow> query_room sh (m_parent s) < 2 ^ 32"
  shows "\<exists>sh' res K' C' sr. SetMetatable env sh a metatable = Some (sh', res) \<and> transits env sh K sh' K' C' \<and>
    sh_structs sh' (am_newStructure res) = Some sr \<and>
    metatable_set env (K a) s metatable res (K' (am_newStructure res)) sr"
proof -
  note st = structure_numSlots[OF W a] and sem = wf_theapD(2)[OF W a]
  have finish: ?thesis
    if "SetMetatable env sh a metatable = Some (sh', setmt_result sh' r)"
      "leads_to env sh K C p x_key_add_or_to_poly_metatable sh' K' C' r sr"
      "metatable_set env (K a) s metatable (setmt_result sh' r) (K' r) sr" for sh' r K' C' sr p
    using that by (intro exI[of _ sh'] exI[of _ "setmt_result sh' r"] exI[of _ K'] exI[of _ C'] exI[of _ sr])
      (auto simp: leads_to_def setmt_result_def Let_def)
  have stay: "?thesis" if "SetMetatable env sh a metatable = Some (sh, res)" "am_newStructure res = a"
    "metatable_set env (K a) s metatable res (K a) s" for res
    using that a transits_refl[OF W] by (intro exI[of _ sh] exI[of _ res] exI[of _ K] exI[of _ C] exI[of _ s]) auto
  consider "m_metatable s = 0" | "0 < m_metatable s" | "m_metatable s < 0" "metatable = m_metatable s"
    | "m_metatable s < 0" "metatable \<noteq> m_metatable s" "m_parentEdgeTransitionKind s = AddMetaTable"
    | "m_metatable s < 0" "metatable \<noteq> m_metatable s" "m_parentEdgeTransitionKind s \<noteq> AddMetaTable" by linarith
  then show ?thesis
  proof cases
    case 1
    from SetMetatable_none[OF W a mt 1 room(1)] obtain sh' r K' C' sr where
      q: "QueryTransitionTableAndUpsert env sh a x_key_add_or_to_poly_metatable (setmt_upsert_none env a metatable) = Some (sh', r)"
      "leads_to env sh K C a x_key_add_or_to_poly_metatable sh' K' C' r sr"
      "m_parentEdgeTransitionKind sr = AddMetaTable \<longrightarrow> m_metatable sr = metatable" by blast
    have "metatable_set env (K a) s metatable (setmt_result sh' r) (K' r) sr"
      using 1 q(3) by (intro metatable_set_edge[OF W a _ q(2) a]) auto
    moreover have "SetMetatable env sh a metatable = Some (sh', setmt_result sh' r)"
      using 1 q(1) by (simp add: SetMetatable_def st Let_def)
    ultimately show ?thesis using q(2) finish by blast
  next
    case 2
    have d: "distinct (K a)" using wf_structD(2) wf_sheapD(3) wf_theapD(1)[OF W a] a by blast
    from 2 sem_ok_metatable_slot[OF sem d 2] show ?thesis
      by (intro stay) (auto simp: SetMetatable_def st Let_def IsPolyMetatable_def metatable_set_def SetMayHaveMetatable_same)
  next
    case 3
    then have "MayHaveMetatable (m_arrayType s)" using sem by (simp add: sem_ok_def)
    with 3 show ?thesis
      by (intro stay) (auto simp: SetMetatable_def st Let_def IsPolyMetatable_def metatable_set_def SetMayHaveMetatable_same)
  next
    case 4
    let ?p = "m_parent s"
    obtain sp where sp: "sh_structs sh ?p = Some sp" "edge_ok env (K ?p) sp (K a) s" using wf_theapD(6)[OF W a] 4 by auto
    from SetMetatable_parent[OF W a 4(1,3)] room(2) 4(3) obtain sh' r K' C' sr where
      q: "QueryTransitionTableAndUpsert env sh ?p x_key_add_or_to_poly_metatable (setmt_upsert_parent env ?p a) = Some (sh', r)"
      "leads_to env sh K C ?p x_key_add_or_to_poly_metatable sh' K' C' r sr" "0 < m_metatable sr" by blast
    have "metatable_set env (K a) s metatable (setmt_result sh' r) (K' r) sr"
      using 4 q(3) sp metatable_edge[OF W sp(1) q(2)] by (intro metatable_set_edge[OF W a _ q(2) sp(1)]) (auto simp: edge_ok_def)
    moreover have "SetMetatable env sh a metatable = Some (sh', setmt_result sh' r)"
      using 4 q(1) by (simp add: SetMetatable_def st Let_def IsPolyMetatable_def)
    ultimately show ?thesis using q(2) finish by blast
  next
    case 5
    have pre: "can_go_poly env (K a) s" using 5 by (simp add: can_go_poly_def)
    have link: "0 < m_metatable sr" if "child_of env a (K a) s (K a @ [env_specialKey env]) x_key_add_or_to_poly_metatable sr"
      "wf_struct env sh' K' (K a @ [env_specialKey env]) sr" for sr sh' K'
      using mono_or_poly[OF that] that(1) by (auto simp: child_of_def edge_ok_def Let_def)
    obtain sh' r K' C' sr where
      q: "QueryTransitionTableAndInsert env sh a x_key_add_or_to_poly_metatable (CreateStructureForPolyMetatableTransition env a) = Some (sh', r)"
      "leads_to env sh K C a x_key_add_or_to_poly_metatable sh' K' C' r sr"
      using go_poly.insert_leads[OF W a pre room(1)] link by blast
    have "metatable_set env (K a) s metatable (setmt_result sh' r) (K' r) sr"
      using 5 metatable_edge[OF W a q(2)] by (intro metatable_set_edge[OF W a _ q(2) a]) auto
    moreover have "SetMetatable env sh a metatable = Some (sh', setmt_result sh' r)"
      using 5 q(1) by (simp add: SetMetatable_def st Let_def IsPolyMetatable_def)
    ultimately show ?thesis using q(2) finish by blast
  qed
qed

definition metatable_removed :: "vm_env \<Rightarrow> gkey list \<Rightarrow> struct \<Rightarrow> RemoveMetatableResult \<Rightarrow> gkey list \<Rightarrow> struct \<Rightarrow> bool" where
  "metatable_removed env ks s res ks' s' \<longleftrightarrow>
     ks' = ks \<and> m_butterflyNamedStorageCapacity s' = m_butterflyNamedStorageCapacity s \<and>
     m_inlineNamedStorageCapacity s' = m_inlineNamedStorageCapacity s \<and>
     (if rm_shouldInsertMetatable res
      then s' = s \<and> 0 < m_metatable s \<and> slot_index ks (env_specialKey env) = Some (rm_slotOrdinal res)
      else m_metatable s' = 0 \<and> SetMayHaveMetatable True (m_arrayType s') = SetMayHaveMetatable True (m_arrayType s))"

lemma RemoveMetatable_correct:
  assumes W: "wf_theap env sh K C" and a: "sh_structs sh a = Some s" and room: "query_room sh a < 2 ^ 32"
  shows "\<exists>sh' res K' C' sr. RemoveMetatable env sh a = Some (sh', res) \<and> transits env sh K sh' K' C' \<and>
    sh_structs sh' (rm_newStructure res) = Some sr \<and>
    metatable_removed env (K a) s res (K' (rm_newStructure res)) sr"
proof -
  note st = structure_numSlots[OF W a] and sem = wf_theapD(2)[OF W a]
  have stay: "?thesis" if "RemoveMetatable env sh a = Some (sh, res)" "sh_structs sh (rm_newStructure res) = Some sr"
    "metatable_removed env (K a) s res (K (rm_newStructure res)) sr" for res sr
    using that transits_refl[OF W] by (intro exI[of _ sh] exI[of _ res] exI[of _ K] exI[of _ C] exI[of _ sr]) auto
  consider "m_metatable s = 0" | "m_metatable s \<noteq> 0" "m_parentEdgeTransitionKind s = AddMetaTable"
    | "0 < m_metatable s" "m_parentEdgeTransitionKind s \<noteq> AddMetaTable"
    | "m_metatable s < 0" "m_parentEdgeTransitionKind s \<noteq> AddMetaTable" by linarith
  then show ?thesis
  proof cases
    case 1
    with a show ?thesis by (intro stay[of _ s]) (auto simp: RemoveMetatable_def st Let_def metatable_removed_def)
  next
    case 2
    obtain sp where sp: "sh_structs sh (m_parent s) = Some sp" "edge_ok env (K (m_parent s)) sp (K a) s"
      using wf_theapD(6)[OF W a] 2 by auto
    with 2 show ?thesis
      by (intro stay[of _ sp]) (auto simp: RemoveMetatable_def st Let_def metatable_removed_def edge_ok_def)
  next
    case 3
    have d: "distinct (K a)" using wf_structD(2) wf_sheapD(3) wf_theapD(1)[OF W a] a by blast
    from 3 a sem_ok_metatable_slot[OF sem d 3(1)] show ?thesis
      by (intro stay[of _ s]) (auto simp: RemoveMetatable_def st Let_def metatable_removed_def IsPolyMetatable_def)
  next
    case 4
    have pre: "can_remove_metatable (K a) s" using 4 by (simp add: can_remove_metatable_def)
    obtain sh' r K' C' sr where
      q: "QueryTransitionTableAndInsert env sh a x_key_remove_metatable (CreateStructureForRemoveMetatableTransition env a) = Some (sh', r)"
      "leads_to env sh K C a x_key_remove_metatable sh' K' C' r sr"
      using remove_mt.insert_leads[OF W a pre room] by (auto simp: x_key_add_or_to_poly_metatable_def x_key_remove_metatable_def)
    with 4 remove_edge[OF W a q(2)] show ?thesis
      by (auto simp: RemoveMetatable_def st Let_def IsPolyMetatable_def metatable_removed_def leads_to_def)
  qed
qed

end
