(* ===== verification/StructureReach.thy ===== *)
theory StructureReach
  imports StructureOps
begin

unbundle bit_operations_syntax

text \<open>
  The heaps of hidden classes that the operations can build from an empty system heap, as an inductive relation,
  the invariant of the reachable heaps, and the properties of the operations on them.
\<close>

section \<open>Initial structures and the reachable heaps\<close>

lemma wf_struct_initial:
  assumes "m_numSlots s = 0" "m_nonFullBlockLen s = 0" "m_anchorHashTable s = 0" "m_values s = []"
    "m_inlineHashTableMask s = 7" "m_inlineHashTable s = inline_memset 8"
  shows "wf_struct env sh K [] s"
proof -
  have "inline_ok env s [] 0"
    unfolding inline_ok_def using assms
    by (auto simp: inline_memset_def ie_key_def x_inlineHashTableEmptyValue_def intro!: exI[of _ 3] tbl_empty)
  then show ?thesis using assms
    by (simp add: wf_struct_def anchor_ok_def anchor_total_def HasFinal_iff NonFullBlockLength_eq)
qed

lemma wf_theap_root:
  assumes W: "wf_theap env sh K C" and fresh: "sh_structs sh r = None" and r: "0 < r" "r < n" "sh_next sh \<le> n"
    and sr: "wf_struct env (set_struct r sr (sh\<lparr>sh_next := n\<rparr>)) (K(r := [])) [] sr" "sem_ok env [] sr" 
      "m_transitionTable sr = NoTransition" "m_parentEdgeTransitionKind sr = BadTransitionKind"
  shows "wf_theap env (set_struct r sr (sh\<lparr>sh_next := n\<rparr>)) (K(r := [])) (C(r := Map.empty))"
proof -
  let ?sh = "set_struct r sr (sh\<lparr>sh_next := n\<rparr>)" and ?K = "K(r := [])" and ?C = "C(r := Map.empty)"
  have ext: "sh_ext sh ?sh" using fresh r(3) by (auto simp: sh_ext_def set_struct_def)
  have st: "sh_structs ?sh = (sh_structs sh)(r \<mapsto> sr)" by (simp add: set_struct_def)
  have wsh: "wf_sheap env sh K" using W by (simp add: wf_theap_def)
  have Keq: "?K x = K x" if "sh_structs sh x = Some sx" for x sx using that fresh by auto
  have "wf_sheap env ?sh ?K"
    unfolding wf_sheap_def
  proof (intro conjI allI impI)
    fix x sx assume x: "sh_structs ?sh x = Some sx"
    have "0 < x \<and> x < sh_next ?sh \<and> wf_struct env ?sh ?K (?K x) sx"
    proof (cases "x = r")
      case True
      with x r sr(1) show ?thesis by (simp add: set_struct_def)
    next
      case False
      with x have x1: "sh_structs sh x = Some sx" by (simp add: st)
      have "wf_struct env ?sh ?K (K x) sx" using Keq wf_sheapD(3)[OF wsh x1] by (rule wf_struct_ext[OF ext])
      with wf_sheapD(1,2)[OF wsh x1] False r(3) show ?thesis by (simp add: set_struct_def)
    qed
    then show "0 < x" "x < sh_next ?sh" "wf_struct env ?sh ?K (?K x) sx" by auto
  next
    fix x at assume "sh_anchors ?sh x = Some at"
    then show "0 < x" "x < sh_next ?sh" using wsh r(3) unfolding wf_sheap_def set_struct_def by fastforce+
  qed
  moreover have "sem_ok env (?K x) sx \<and> trans_repr env ?sh sx (?C x) \<and> children_ok ?sh x (?C x) \<and> mono_link ?sh ?C x sx \<and>
        (m_parentEdgeTransitionKind sx \<noteq> BadTransitionKind \<longrightarrow>
          (\<exists>sp. sh_structs ?sh (m_parent sx) = Some sp \<and> edge_ok env (?K (m_parent sx)) sp (?K x) sx))"
    if x: "sh_structs ?sh x = Some sx" for x sx
  proof (cases "x = r")
    case True
    with x sr(2-4) show ?thesis by (auto simp: st trans_repr_def children_ok_def mono_link_def)
  next
    case False
    with x have x1: "sh_structs sh x = Some sx" by (simp add: st)
    note D = wf_theapD[OF W x1]
    have ch: "children_ok ?sh x (C x)" using D(4) fresh unfolding children_ok_def st by fastforce
    have "c \<noteq> r" if "m_transitionTable sx = OnlyChild c" for c
    proof -
      have "(C x) (GetParentEdgeTransitionKey (struct_at sh c)) = Some c" using D(3) that by (simp add: trans_repr_def)
      then show ?thesis using D(4) fresh unfolding children_ok_def by force
    qed
    then have tr: "trans_repr env ?sh sx (C x)" using D(3)
      by (auto simp: trans_repr_def struct_at_def st split: transition_ref.splits)
    have par: "m_parent sx \<noteq> r \<and> (\<exists>sp. sh_structs sh (m_parent sx) = Some sp \<and> edge_ok env (K (m_parent sx)) sp (K x) sx)"
      if "m_parentEdgeTransitionKind sx \<noteq> BadTransitionKind" using D(6)[OF that] fresh by auto
    have "mono_link ?sh ?C x sx" unfolding mono_link_def
    proof
      assume k: "m_parentEdgeTransitionKind sx = AddMetaTable"
      then obtain c sc where "C (m_parent sx) x_key_add_or_to_poly_metatable = Some c" "sh_structs sh c = Some sc" "c = x \<or> 0 < m_metatable sc"
        using D(5) by (auto simp: mono_link_def)
      moreover from this have "c \<noteq> r" using fresh by auto
      ultimately show "\<exists>c sc. ?C (m_parent sx) x_key_add_or_to_poly_metatable = Some c \<and> sh_structs ?sh c = Some sc \<and> (c = x \<or> 0 < m_metatable sc)"
        using par k by (auto simp: st)
    qed
    with ch tr par D(2) False show ?thesis by (auto simp: st)
  qed
  ultimately show ?thesis unfolding wf_theap_def by blast
qed

lemma CreateInitialStructure_correct:
  assumes W: "wf_theap env sh K C" and cap: "inlineCapacity \<le> x_maxNumSlots" and room: "sh_next sh + 48 < 2 ^ 32"
  shows "\<exists>sh' r sr. CreateInitialStructure sh inlineCapacity = Some (sh', r) \<and> sh_structs sh r = None \<and>
    sh_structs sh' r = Some sr \<and> m_inlineNamedStorageCapacity sr = inlineCapacity \<and> m_metatable sr = 0 \<and>
    sh_next sh' = sh_next sh + 48 \<and>
    wf_theap env sh' (K(r := [])) (C(r := Map.empty)) \<and> keeps_structs sh sh'"
proof -
  define r where "r = sh_next sh + 16"
  define sr where "sr = \<lparr>m_numSlots = 0, m_nonFullBlockLen = 0, m_anchorHashTable = 0,
            m_arrayType = GetInitialArrayType,
            m_knownNonexistentMetamethods = x_luaMetamethodBitVectorFullMask,
            m_inlineHashTableMask = 7,
            m_inlineNamedStorageCapacity = inlineCapacity,
            m_butterflyNamedStorageCapacity = 0,
            m_parentEdgeTransitionKind = BadTransitionKind,
            m_parent = 0, m_metatable = 0, m_transitionTable = NoTransition,
            m_values = [], m_finalFullBlockPointer = 0,
            m_inlineHashTable = inline_memset 8\<rparr>"
  let ?sh = "set_struct r sr (sh\<lparr>sh_next := sh_next sh + 48\<rparr>)"
  have al: "AllocFromSystemHeap sh 48 = Some (sh\<lparr>sh_next := sh_next sh + 48\<rparr>, sh_next sh)"
    using room by (simp add: AllocFromSystemHeap_def)
  have cr: "CreateInitialStructure sh inlineCapacity = Some (?sh, r)"
    by (simp add: CreateInitialStructure_def Let_def block_consts round8_def ComputeTrailingVarLengthArrayLengthBytes_def
        NonFullBlockLength_eq HasFinal_iff al r_def sr_def)
  have fresh: "sh_structs sh r = None" using W wf_sheapD(2)[of env sh K r] by (fastforce simp: wf_theap_def r_def)
  have "wf_theap env ?sh (K(r := [])) (C(r := Map.empty))"
    using cap by (intro wf_theap_root[OF W fresh])
      (auto simp: r_def sr_def sem_ok_def storage_ok_def x_maxNumSlots_def intro!: wf_struct_initial)
  moreover have "keeps_structs sh ?sh"
    using fresh same_core_eqv[OF struct_eqv_refl] by (auto simp: keeps_structs_def set_struct_def)
  ultimately show ?thesis using cr fresh by (auto simp: set_struct_def sr_def)
qed

definition empty_sheap :: sheap where
  "empty_sheap = \<lparr>sh_next = 8, sh_structs = Map.empty, sh_anchors = Map.empty\<rparr>"

abbreviation slot_of :: "vm_env \<Rightarrow> sheap \<Rightarrow> struct \<Rightarrow> gkey \<Rightarrow> nat option option" where
  "slot_of \<equiv> GetSlotOrdinalFromMaybeNonStringProperty"

text \<open>
  The heaps the VM can build: initial structures, the transitions of the structures it has, and allocations of other
  objects, such as dictionaries, from the same heap.
\<close>

inductive struct_reach :: "vm_env \<Rightarrow> sheap \<Rightarrow> bool" for env where
  reach_empty: "struct_reach env empty_sheap"
| reach_initial: "struct_reach env sh \<Longrightarrow> inlineCapacity \<le> x_maxNumSlots \<Longrightarrow>
    CreateInitialStructure sh inlineCapacity = Some (sh', r) \<Longrightarrow> struct_reach env sh'"
| reach_add: "struct_reach env sh \<Longrightarrow> sh_structs sh a = Some s \<Longrightarrow> slot_of env sh s key = Some None \<Longrightarrow>
    key < 0 \<Longrightarrow> key \<noteq> env_specialKey env \<Longrightarrow> query_room sh a < 2 ^ 32 \<Longrightarrow>
    AddNonExistentProperty env sh a key = Some (sh', res) \<Longrightarrow> struct_reach env sh'"
| reach_setmt: "struct_reach env sh \<Longrightarrow> sh_structs sh a = Some s \<Longrightarrow> metatable < 0 \<Longrightarrow>
    query_room sh a < 2 ^ 32 \<Longrightarrow>
    (m_parentEdgeTransitionKind s = AddMetaTable \<longrightarrow> query_room sh (m_parent s) < 2 ^ 32) \<Longrightarrow>
    SetMetatable env sh a metatable = Some (sh', mres) \<Longrightarrow> struct_reach env sh'"
| reach_removemt: "struct_reach env sh \<Longrightarrow> sh_structs sh a = Some s \<Longrightarrow> query_room sh a < 2 ^ 32 \<Longrightarrow>
    RemoveMetatable env sh a = Some (sh', rres) \<Longrightarrow> struct_reach env sh'"
| reach_array: "struct_reach env sh \<Longrightarrow> sh_structs sh a = Some s \<Longrightarrow> valid_array_type at \<Longrightarrow>
    MayHaveMetatable at = MayHaveMetatable (m_arrayType s) \<Longrightarrow> query_room sh a < 2 ^ 32 \<Longrightarrow>
    UpdateArrayType env sh a at = Some (sh', r) \<Longrightarrow> struct_reach env sh'"
| reach_alloc: "struct_reach env sh \<Longrightarrow> AllocFromSystemHeap sh len = Some (sh', p) \<Longrightarrow> struct_reach env sh'"

lemma slot_index_new:
  "key \<notin> set ks \<Longrightarrow> slot_index (ks @ [key]) k = (if k = key then Some (length ks) else slot_index ks k)"
  by (induction ks) auto

lemma wf_lookup:
  assumes "wf_theap env sh K C" "sh_structs sh a = Some s"
  shows "slot_of env sh s key = Some (slot_index (K a) key)"
  using lookup_correct wf_theapD(1)[OF assms] wf_sheapD(3) assms(2) by blast

lemma CreateInitialStructure_next:
  "CreateInitialStructure sh c = Some (sh', r) \<Longrightarrow> sh_next sh + 48 < 2 ^ 32"
  by (auto simp: CreateInitialStructure_def Let_def block_consts round8_def ComputeTrailingVarLengthArrayLengthBytes_def
        NonFullBlockLength_eq HasFinal_iff AllocFromSystemHeap_def split: if_splits)

lemma wf_theap_empty: "wf_theap env empty_sheap K C"
  by (simp add: wf_theap_def wf_sheap_def empty_sheap_def)

lemma wf_theap_next:
  assumes "wf_theap env sh K C" "sh_next sh \<le> n"
  shows "wf_theap env (sh\<lparr>sh_next := n\<rparr>) K C"
proof -
  have st: "struct_at (sh\<lparr>sh_next := n\<rparr>) = struct_at sh" "sh_structs (sh\<lparr>sh_next := n\<rparr>) = sh_structs sh"
    by (simp_all add: struct_at_def fun_eq_iff)
  show ?thesis using assms wf_sheap_next[of env sh K n]
    unfolding wf_theap_def trans_repr_def children_ok_def mono_link_def st by blast
qed

lemma struct_reach_invariant: "struct_reach env sh \<Longrightarrow> \<exists>K C. wf_theap env sh K C"
proof (induction rule: struct_reach.induct)
  case reach_empty
  then show ?case using wf_theap_empty by blast
next
  case (reach_initial sh cap sh' r)
  then show ?case using CreateInitialStructure_correct[OF _ reach_initial(2) CreateInitialStructure_next[OF reach_initial(3)]]
    by fastforce
next
  case (reach_add sh a s key sh' res)
  then obtain K C where W: "wf_theap env sh K C" by blast
  have key: "key \<notin> set (K a)" using reach_add(3) wf_lookup[OF W reach_add(2)] by (simp add: slot_index_None)
  show ?case
  proof (cases "length (K a) < x_maxNumSlots")
    case True
    from AddNonExistentProperty_correct[OF W reach_add(2) key reach_add(4,5) True reach_add(6)] reach_add(7)
    show ?thesis by (auto simp: leads_to_def transits_def)
  next
    case False
    with structure_numSlots[OF W reach_add(2)] reach_add(7) W show ?thesis by (auto simp: AddNonExistentProperty_def)
  qed
next
  case (reach_setmt sh a s metatable sh' mres)
  then obtain K C where W: "wf_theap env sh K C" by blast
  from SetMetatable_correct[OF W reach_setmt(2,3,4,5)] reach_setmt(6) show ?case by (auto simp: transits_def)
next
  case (reach_removemt sh a s sh' rres)
  then obtain K C where W: "wf_theap env sh K C" by blast
  from RemoveMetatable_correct[OF W reach_removemt(2,3)] reach_removemt(4) show ?case by (auto simp: transits_def)
next
  case (reach_array sh a s at sh' r)
  then obtain K C where W: "wf_theap env sh K C" by blast
  from UpdateArrayType_correct[OF W reach_array(2-5)] reach_array(6) show ?case by (auto simp: transits_def leads_to_def)
next
  case (reach_alloc sh len sh' p)
  then have "sh' = sh\<lparr>sh_next := sh_next sh + len\<rparr>" by (auto simp: AllocFromSystemHeap_def split: if_splits)
  then show ?case using wf_theap_next[of env sh _ _ "sh_next sh + len"] reach_alloc(3) by auto
qed

definition example_env :: vm_env where
  "example_env = \<lparr>env_isString = (\<lambda>_. True), env_hashLow = (\<lambda>k. of_int k), env_hashPrim64 = (\<lambda>k. of_int k),
     env_hashPrim32 = (\<lambda>k. of_int k), env_metamethodOrd = (\<lambda>_. None), env_specialKey = - 1\<rparr>"

definition example_heap :: sheap where
  "example_heap = fst (the (CreateInitialStructure empty_sheap 4))"

lemma example_initial: "CreateInitialStructure empty_sheap 4 = Some (example_heap, 24)"
  by (simp add: example_heap_def empty_sheap_def CreateInitialStructure_def AllocFromSystemHeap_def block_consts round8_def
      ComputeTrailingVarLengthArrayLengthBytes_def NonFullBlockLength_eq HasFinal_iff Let_def)

lemma example_reach: "struct_reach example_env example_heap"
  by (rule reach_initial[OF reach_empty _ example_initial]) (simp add: x_maxNumSlots_def)

lemma example_struct:
  obtains s where "sh_structs example_heap 24 = Some s" "m_numSlots s = 0" "m_metatable s = 0" "m_parent s = 0"
    "m_arrayType s = 0" "m_transitionTable s = NoTransition" "m_parentEdgeTransitionKind s = BadTransitionKind"
  by (simp add: example_heap_def empty_sheap_def CreateInitialStructure_def AllocFromSystemHeap_def block_consts round8_def
      ComputeTrailingVarLengthArrayLengthBytes_def NonFullBlockLength_eq HasFinal_iff Let_def set_struct_def GetInitialArrayType_def)


lemma example_room: "query_room example_heap 24 < 2 ^ 32"
  by (simp add: query_room_def example_heap_def empty_sheap_def CreateInitialStructure_def AllocFromSystemHeap_def
      block_consts round8_def ComputeTrailingVarLengthArrayLengthBytes_def NonFullBlockLength_eq HasFinal_iff Let_def
      set_struct_def struct_at_def)

lemma example_lookup:
  assumes "sh_structs example_heap 24 = Some s" "m_numSlots s = 0"
  shows "slot_of example_env example_heap s key = Some None"
proof -
  obtain K C where W: "wf_theap example_env example_heap K C" using struct_reach_invariant[OF example_reach] by blast
  have "K 24 = []" using structure_numSlots[OF W assms(1)] assms(2) by simp
  with wf_lookup[OF W assms(1)] show ?thesis by simp
qed

section \<open>Properties of the hidden class system\<close>

text \<open>
  C4. In every heap that the operations can build, the lookup of any key in any structure terminates and agrees with the
  enumeration of the slots: it returns slot \<open>i\<close> exactly when \<open>i\<close> is a slot of the structure whose
  key is the one looked up, and reports absence exactly when no slot has the key.
\<close>

theorem structure_lookup:
  assumes "struct_reach env sh" "sh_structs sh a = Some s"
  shows "\<exists>r. GetSlotOrdinalFromMaybeNonStringProperty env sh s key = Some r \<and>
    (\<forall>i. r = Some i \<longleftrightarrow> i < m_numSlots s \<and> GetKeyForSlotOrdinal sh s i = key)"
proof -
  obtain K C where W: "wf_theap env sh K C" using struct_reach_invariant[OF assms(1)] by blast
  have wf: "wf_struct env sh K (K a) s" "wf_sheap env sh K" using wf_theapD(1)[OF W assms(2)] wf_sheapD(3) assms(2) by auto
  have "slot_index (K a) key = Some i \<longleftrightarrow> i < m_numSlots s \<and> GetKeyForSlotOrdinal sh s i = key" for i
    using key_for_slot_correct[OF wf(2,1)] wf_structD(2,3)[OF wf(1)] slot_index_nth[of "K a"] slot_index_SomeD[of "K a"] by metis
  with wf_lookup[OF W assms(2)] show ?thesis by auto
qed

theorem structure_lookup_witness:
  "\<exists>r. GetSlotOrdinalFromMaybeNonStringProperty example_env example_heap (struct_at example_heap 24) (- 5) = Some r \<and>
    (\<forall>i. r = Some i \<longleftrightarrow> i < m_numSlots (struct_at example_heap 24) \<and>
      GetKeyForSlotOrdinal example_heap (struct_at example_heap 24) i = - 5)"
proof (rule example_struct)
  fix s assume s: "sh_structs example_heap 24 = Some s"
  then have "struct_at example_heap 24 = s" by (simp add: struct_at_def)
  with structure_lookup[OF example_reach s, of "- 5"] show ?thesis by simp
qed

text \<open>
  C6. Adding a property to a structure below the slot limit succeeds, assigns the next slot, and leads to a structure in which
  the new key is at that slot and every other key is where it was; the storage of the new structure has room for
  the slot, and the flag tells the caller to grow the butterfly exactly when its capacity changed.
\<close>

theorem AddNonExistentProperty_lookup:
  assumes "struct_reach env sh" "sh_structs sh a = Some s"
    "GetSlotOrdinalFromMaybeNonStringProperty env sh s key = Some None" "key < 0" "key \<noteq> env_specialKey env"
    "m_numSlots s < x_maxNumSlots" "query_room sh a < 2 ^ 32"
  shows "\<exists>sh' grow r sr. AddNonExistentProperty env sh a key = Some (sh', AddedProperty grow (m_numSlots s) r) \<and>
    sh_structs sh' r = Some sr \<and> m_numSlots sr = m_numSlots s + 1 \<and>
    (\<forall>k. GetSlotOrdinalFromMaybeNonStringProperty env sh' sr k =
       (if k = key then Some (Some (m_numSlots s)) else GetSlotOrdinalFromMaybeNonStringProperty env sh s k)) \<and>
    m_numSlots s < m_inlineNamedStorageCapacity sr + m_butterflyNamedStorageCapacity sr \<and>
    (grow \<longleftrightarrow> m_butterflyNamedStorageCapacity sr \<noteq> m_butterflyNamedStorageCapacity s)"
proof -
  obtain K C where W: "wf_theap env sh K C" using struct_reach_invariant[OF assms(1)] by blast
  note n = structure_numSlots[OF W assms(2)]
  have key: "key \<notin> set (K a)" using assms(3) wf_lookup[OF W assms(2)] by (simp add: slot_index_None)
  have len: "length (K a) < x_maxNumSlots" using assms(6) n by simp
  obtain sh' r K' C' sr where q: "AddNonExistentProperty env sh a key = Some (sh', AddedProperty
      (m_butterflyNamedStorageCapacity sr \<noteq> m_butterflyNamedStorageCapacity s) (length (K a)) r)"
    "leads_to env sh K C a key sh' K' C' r sr"
    using AddNonExistentProperty_correct[OF W assms(2) key assms(4,5) len assms(7)] by blast
  note P = added_property[OF W assms(2) q(2) assms(4)]
  have W': "wf_theap env sh' K' C'" "sh_structs sh' r = Some sr" using q(2) by (auto simp: leads_to_def transits_def)
  have "slot_of env sh' sr k = (if k = key then Some (Some (m_numSlots s)) else slot_of env sh s k)" for k
    using wf_lookup[OF W'] wf_lookup[OF W assms(2)] slot_index_new[OF key] P(1) n by simp
  moreover have "m_numSlots sr = m_numSlots s + 1" using structure_numSlots[OF W'] P(1) n by simp
  ultimately show ?thesis using q(1) W'(2) P(6) n by auto
qed

theorem AddNonExistentProperty_lookup_witness:
  "\<exists>sh' grow r sr. AddNonExistentProperty example_env example_heap 24 (- 5) = Some (sh', AddedProperty grow 0 r) \<and>
    sh_structs sh' r = Some sr \<and> GetSlotOrdinalFromMaybeNonStringProperty example_env sh' sr (- 5) = Some (Some 0)"
proof (rule example_struct)
  fix s assume s: "sh_structs example_heap 24 = Some s" "m_numSlots s = 0"
  have "- 5 < (0::gkey)" "- 5 \<noteq> env_specialKey example_env" "m_numSlots s < x_maxNumSlots"
    using s(2) by (simp_all add: example_env_def x_maxNumSlots_def)
  from AddNonExistentProperty_lookup[OF example_reach s(1) example_lookup[OF s] this example_room] s(2) show ?thesis by fastforce
qed


text \<open>
  C25. The structures a heap already has are not disturbed by adding a property to one of them: they stay at their address with
  the same slots, metatable, array type and storage capacities, and every lookup in them gives the same answer.
\<close>

theorem AddNonExistentProperty_frame:
  assumes "struct_reach env sh" "sh_structs sh a = Some s"
    "GetSlotOrdinalFromMaybeNonStringProperty env sh s key = Some None" "key < 0" "key \<noteq> env_specialKey env"
    "query_room sh a < 2 ^ 32" "sh_structs sh b = Some sb"
  shows "\<exists>sh' res sb'. AddNonExistentProperty env sh a key = Some (sh', res) \<and> sh_structs sh' b = Some sb' \<and>
    (\<forall>k. GetSlotOrdinalFromMaybeNonStringProperty env sh' sb' k = GetSlotOrdinalFromMaybeNonStringProperty env sh sb k) \<and>
    m_numSlots sb' = m_numSlots sb \<and> m_metatable sb' = m_metatable sb \<and> m_arrayType sb' = m_arrayType sb \<and>
    m_inlineNamedStorageCapacity sb' = m_inlineNamedStorageCapacity sb \<and>
    m_butterflyNamedStorageCapacity sb' = m_butterflyNamedStorageCapacity sb"
proof -
  obtain K C where W: "wf_theap env sh K C" using struct_reach_invariant[OF assms(1)] by blast
  note n = structure_numSlots[OF W assms(2)]
  have key: "key \<notin> set (K a)" using assms(3) wf_lookup[OF W assms(2)] by (simp add: slot_index_None)
  obtain sh' res K' C' where q: "AddNonExistentProperty env sh a key = Some (sh', res)" "transits env sh K sh' K' C'"
  proof (cases "length (K a) < x_maxNumSlots")
    case True
    from AddNonExistentProperty_correct[OF W assms(2) key assms(4,5) True assms(6)] that show ?thesis
      by (auto simp: leads_to_def)
  next
    case False
    with n have "AddNonExistentProperty env sh a key = Some (sh, TransitionToDictionaryMode)"
      by (simp add: AddNonExistentProperty_def)
    with transits_refl[OF W] that show ?thesis by blast
  qed
  then obtain sb' where sb': "sh_structs sh' b = Some sb'" "same_core sb sb'" "K' b = K b" "wf_theap env sh' K' C'"
    using assms(7) unfolding transits_def keeps_structs_def by blast
  have "slot_of env sh' sb' k = slot_of env sh sb k" for k
    using wf_lookup[OF sb'(4,1)] wf_lookup[OF W assms(7)] sb'(3) by simp
  with q(1) sb'(1) same_core_fields[OF sb'(2)] show ?thesis by blast
qed

theorem AddNonExistentProperty_frame_witness:
  "\<exists>sh' res sb'. AddNonExistentProperty example_env example_heap 24 (- 5) = Some (sh', res) \<and> sh_structs sh' 24 = Some sb' \<and>
    m_numSlots sb' = 0"
proof (rule example_struct)
  fix s assume s: "sh_structs example_heap 24 = Some s" "m_numSlots s = 0"
  have "- 5 < (0::gkey)" "- 5 \<noteq> env_specialKey example_env" by (simp_all add: example_env_def)
  from AddNonExistentProperty_frame[OF example_reach s(1) example_lookup[OF s] this example_room s(1)] s(2) show ?thesis by fastforce
qed

text \<open>
  C26. Hidden classes are shared: once a key has been added to a structure, adding the same key to that structure again gives the same
  structure and leaves the heap as it is.
\<close>

theorem AddNonExistentProperty_shares:
  assumes "struct_reach env sh" "sh_structs sh a = Some s"
    "GetSlotOrdinalFromMaybeNonStringProperty env sh s key = Some None" "key < 0" "key \<noteq> env_specialKey env"
    "query_room sh a < 2 ^ 32" "AddNonExistentProperty env sh a key = Some (sh', res)"
  shows "AddNonExistentProperty env sh' a key = Some (sh', res)"
proof -
  obtain K C where W: "wf_theap env sh K C" using struct_reach_invariant[OF assms(1)] by blast
  note n = structure_numSlots[OF W assms(2)]
  have key: "key \<notin> set (K a)" using assms(3) wf_lookup[OF W assms(2)] by (simp add: slot_index_None)
  show ?thesis
  proof (cases "length (K a) < x_maxNumSlots")
    case True
    then obtain r K' C' sr where q: "res = AddedProperty
        (m_butterflyNamedStorageCapacity sr \<noteq> m_butterflyNamedStorageCapacity s) (length (K a)) r"
      "leads_to env sh K C a key sh' K' C' r sr"
      using AddNonExistentProperty_correct[OF W assms(2) key assms(4,5) True assms(6)] assms(7) by auto
    then obtain s' where s': "sh_structs sh' a = Some s'" "same_core s s'" "wf_theap env sh' K' C'" "C' a key = Some r"
      "sh_structs sh' r = Some sr"
      using assms(2) unfolding leads_to_def transits_def keeps_structs_def by blast
    have "QueryTransitionTableAndInsert env sh' a key (CreateStructureForAddPropertyTransition env a key) = Some (sh', r)"
      using query_keeps[OF s'(3,1,4)] by (simp add: QueryTransitionTableAndInsert_def)
    then show ?thesis using True n same_core_fields(2)[OF s'(2)] s'(1,5) q(1) added_property(4)[OF W assms(2) q(2) assms(4)]
      by (simp add: AddNonExistentProperty_def Let_def struct_at_def)
  next
    case False
    with n assms(7) show ?thesis by (auto simp: AddNonExistentProperty_def)
  qed
qed

theorem AddNonExistentProperty_shares_witness:
  "\<exists>sh' res. AddNonExistentProperty example_env example_heap 24 (- 5) = Some (sh', res) \<and>
    AddNonExistentProperty example_env sh' 24 (- 5) = Some (sh', res)"
proof (rule example_struct)
  fix s assume s: "sh_structs example_heap 24 = Some s" "m_numSlots s = 0"
  have k: "- 5 < (0::gkey)" "- 5 \<noteq> env_specialKey example_env" by (simp_all add: example_env_def)
  obtain K C where W: "wf_theap example_env example_heap K C" using struct_reach_invariant[OF example_reach] by blast
  have "K 24 = []" using structure_numSlots[OF W s(1)] s(2) by simp
  then obtain sh' res where q: "AddNonExistentProperty example_env example_heap 24 (- 5) = Some (sh', res)"
    using AddNonExistentProperty_correct[OF W s(1) _ k _ example_room] by (fastforce simp: x_maxNumSlots_def)
  from AddNonExistentProperty_shares[OF example_reach s(1) example_lookup[OF s] k example_room q] q show ?thesis by blast
qed


text \<open>
  C7. Setting a metatable always succeeds while the system heap has room. Either the structure the object moves to records this
  very metatable and has the same slots, or it is in poly metatable mode and the result names the slot of the special key,
  where the caller is told to store the metatable; in both cases every other key keeps its slot and the array type
  records that there may be a metatable.
\<close>

theorem SetMetatable_outcome:
  assumes "struct_reach env sh" "sh_structs sh a = Some s" "metatable < 0" "query_room sh a < 2 ^ 32"
    "m_parentEdgeTransitionKind s = AddMetaTable \<longrightarrow> query_room sh (m_parent s) < 2 ^ 32"
  shows "\<exists>sh' res sr. SetMetatable env sh a metatable = Some (sh', res) \<and> sh_structs sh' (am_newStructure res) = Some sr \<and>
    (if am_shouldInsertMetatable res
     then IsPolyMetatable sr \<and>
       GetSlotOrdinalFromMaybeNonStringProperty env sh' sr (env_specialKey env) = Some (Some (am_slotOrdinal res)) \<and>
       am_slotOrdinal res < m_inlineNamedStorageCapacity sr + m_butterflyNamedStorageCapacity sr
     else m_metatable sr = metatable \<and> m_numSlots sr = m_numSlots s) \<and>
    (\<forall>k. k \<noteq> env_specialKey env \<longrightarrow> GetSlotOrdinalFromMaybeNonStringProperty env sh' sr k =
       GetSlotOrdinalFromMaybeNonStringProperty env sh s k) \<and>
    (am_shouldGrowButterfly res \<longleftrightarrow> m_butterflyNamedStorageCapacity sr \<noteq> m_butterflyNamedStorageCapacity s) \<and>
    m_arrayType sr = SetMayHaveMetatable True (m_arrayType s)"
proof -
  obtain K C where W: "wf_theap env sh K C" using struct_reach_invariant[OF assms(1)] by blast
  from SetMetatable_correct[OF W assms(2-5)] obtain sh' res K' C' sr where
    q: "SetMetatable env sh a metatable = Some (sh', res)" "transits env sh K sh' K' C'"
    "sh_structs sh' (am_newStructure res) = Some sr"
    "metatable_set env (K a) s metatable res (K' (am_newStructure res)) sr" by blast
  let ?ks = "K' (am_newStructure res)"
  have W': "wf_theap env sh' K' C'" using q(2) by (simp add: transits_def)
  note L = wf_lookup[OF W assms(2)] and L' = wf_lookup[OF W' q(3)] and n = structure_numSlots[OF W assms(2)]
    structure_numSlots[OF W' q(3)]
  have other: "slot_index ?ks k = slot_index (K a) k" if "k \<noteq> env_specialKey env" for k
    using that q(4) slot_index_new[of "env_specialKey env" "K a" k] by (auto simp: metatable_set_def split: if_splits)
  have room: "length ?ks \<le> m_inlineNamedStorageCapacity sr + m_butterflyNamedStorageCapacity sr"
    using wf_theapD(2)[OF W' q(3)] by (simp add: sem_ok_def storage_ok_def)
  have "am_slotOrdinal res < length ?ks" if "am_shouldInsertMetatable res"
    using that q(4) slot_index_SomeD[of ?ks] by (auto simp: metatable_set_def)
  then show ?thesis using q(1,3,4) L L' other n room
    by (intro exI[of _ sh'] exI[of _ res] exI[of _ sr]) (auto simp: metatable_set_def IsPolyMetatable_def)
qed

theorem SetMetatable_outcome_witness:
  "\<exists>sh' res sr. SetMetatable example_env example_heap 24 (- 9) = Some (sh', res) \<and>
    sh_structs sh' (am_newStructure res) = Some sr \<and> m_arrayType sr = SetMayHaveMetatable True 0"
proof (rule example_struct)
  fix s assume s: "sh_structs example_heap 24 = Some s" "m_arrayType s = 0" "m_parentEdgeTransitionKind s = BadTransitionKind"
  from SetMetatable_outcome[OF example_reach s(1) _ example_room, of "- 9"] s show ?thesis by fastforce
qed

text \<open>
  Removing the metatable always succeeds while the system heap has room and keeps every slot and the storage
  capacities. Unless the result tells the caller to overwrite the metatable slot of a structure in poly
  metatable mode, the structure the object moves to has no metatable and its array type says so.
\<close>

theorem RemoveMetatable_outcome:
  assumes "struct_reach env sh" "sh_structs sh a = Some s" "query_room sh a < 2 ^ 32"
  shows "\<exists>sh' res sr. RemoveMetatable env sh a = Some (sh', res) \<and> sh_structs sh' (rm_newStructure res) = Some sr \<and>
    (\<forall>k. GetSlotOrdinalFromMaybeNonStringProperty env sh' sr k = GetSlotOrdinalFromMaybeNonStringProperty env sh s k) \<and>
    m_butterflyNamedStorageCapacity sr = m_butterflyNamedStorageCapacity s \<and>
    m_inlineNamedStorageCapacity sr = m_inlineNamedStorageCapacity s \<and>
    (if rm_shouldInsertMetatable res
     then IsPolyMetatable s \<and> rm_newStructure res = a \<and>
       GetSlotOrdinalFromMaybeNonStringProperty env sh s (env_specialKey env) = Some (Some (rm_slotOrdinal res))
     else HasNoMetatable sr \<and> \<not> MayHaveMetatable (m_arrayType sr))"
proof -
  obtain K C where W: "wf_theap env sh K C" using struct_reach_invariant[OF assms(1)] by blast
  from RemoveMetatable_correct[OF W assms(2,3)] obtain sh' res K' C' sr where
    q: "RemoveMetatable env sh a = Some (sh', res)" "transits env sh K sh' K' C'"
    "sh_structs sh' (rm_newStructure res) = Some sr"
    "metatable_removed env (K a) s res (K' (rm_newStructure res)) sr" by blast
  have W': "wf_theap env sh' K' C'" using q(2) by (simp add: transits_def)
  have "rm_newStructure res = a" if "rm_shouldInsertMetatable res"
    using that q(1) structure_numSlots(2)[OF W assms(2)]
    by (auto simp: RemoveMetatable_def Let_def split: if_splits option.splits)
  then show ?thesis using q(1,3,4) wf_lookup[OF W assms(2)] wf_lookup[OF W' q(3)] wf_theapD(2)[OF W' q(3)]
    by (intro exI[of _ sh'] exI[of _ res] exI[of _ sr])
      (auto simp: metatable_removed_def IsPolyMetatable_def HasNoMetatable_def sem_ok_def)
qed

theorem RemoveMetatable_outcome_witness:
  "\<exists>sh' res. RemoveMetatable example_env example_heap 24 = Some (sh', res)"
proof (rule example_struct)
  fix s assume s: "sh_structs example_heap 24 = Some s"
  from RemoveMetatable_outcome[OF example_reach s example_room] show ?thesis by fastforce
qed

text \<open>
  C8. Changing the array type to a valid one with the same metatable flag always succeeds while the system heap has room, and leads to
  a structure that has the new array type and is otherwise the same: every key keeps its slot, and
  metatable and capacities are unchanged.
\<close>

theorem UpdateArrayType_outcome:
  assumes "struct_reach env sh" "sh_structs sh a = Some s" "valid_array_type at"
    "MayHaveMetatable at = MayHaveMetatable (m_arrayType s)" "query_room sh a < 2 ^ 32"
  shows "\<exists>sh' r sr. UpdateArrayType env sh a at = Some (sh', r) \<and> sh_structs sh' r = Some sr \<and> m_arrayType sr = at \<and>
    (\<forall>k. GetSlotOrdinalFromMaybeNonStringProperty env sh' sr k = GetSlotOrdinalFromMaybeNonStringProperty env sh s k) \<and>
    m_metatable sr = m_metatable s \<and> m_butterflyNamedStorageCapacity sr = m_butterflyNamedStorageCapacity s \<and>
    m_inlineNamedStorageCapacity sr = m_inlineNamedStorageCapacity s"
proof -
  obtain K C where W: "wf_theap env sh K C" using struct_reach_invariant[OF assms(1)] by blast
  from UpdateArrayType_correct[OF W assms(2-5)] obtain sh' r K' C' sr where
    q: "UpdateArrayType env sh a at = Some (sh', r)"
      "leads_to env sh K C a (x_key_change_array_type_tag OR uint at) sh' K' C' r sr" by blast
  then have W': "wf_theap env sh' K' C'" "sh_structs sh' r = Some sr" by (auto simp: leads_to_def transits_def)
  show ?thesis using q(1) W'(2) array_type_edge[OF W assms(2) q(2)] wf_lookup[OF W assms(2)] wf_lookup[OF W']
    by (intro exI[of _ sh'] exI[of _ r] exI[of _ sr]) auto
qed

theorem UpdateArrayType_outcome_witness:
  "\<exists>sh' r sr. UpdateArrayType example_env example_heap 24 1 = Some (sh', r) \<and> sh_structs sh' r = Some sr \<and> m_arrayType sr = 1"
proof (rule example_struct)
  fix s assume s: "sh_structs example_heap 24 = Some s" "m_arrayType s = 0"
  have "valid_array_type 1" "MayHaveMetatable 1 = MayHaveMetatable (m_arrayType s)"
    by (simp_all add: s(2) valid_array_type_def x_usefulBitsMask_def MayHaveMetatable_def bfm_GetBool_bit[simplified])
  from UpdateArrayType_outcome[OF example_reach s(1) this example_room] show ?thesis by blast
qed

text \<open>
  C9. Every structure of a reachable heap satisfies the invariants its fields promise: at most 254 slots, which its
  inline and butterfly storage can hold together; a butterfly with named storage exists only when the
  inline storage is full; the special key has a slot exactly in poly metatable mode, the slot
  the metatable field names; and the array type says whether there may be a metatable.
\<close>

theorem structure_invariant:
  assumes "struct_reach env sh" "sh_structs sh a = Some s"
  shows "m_numSlots s \<le> x_maxNumSlots + 1 \<and>
    m_numSlots s \<le> m_inlineNamedStorageCapacity s + m_butterflyNamedStorageCapacity s \<and>
    m_inlineNamedStorageCapacity s + m_butterflyNamedStorageCapacity s \<le> x_maxNumSlots + 1 \<and>
    (m_butterflyNamedStorageCapacity s = 0 \<or> m_inlineNamedStorageCapacity s < m_numSlots s) \<and>
    GetSlotOrdinalFromMaybeNonStringProperty env sh s (env_specialKey env) =
      Some (if IsPolyMetatable s then Some (GetPolyMetatableSlot s) else None) \<and>
    MayHaveMetatable (m_arrayType s) = (\<not> HasNoMetatable s) \<and> valid_array_type (m_arrayType s)"
proof -
  obtain K C where W: "wf_theap env sh K C" using struct_reach_invariant[OF assms(1)] by blast
  note sem = wf_theapD(2)[OF W assms(2)] and n = structure_numSlots[OF W assms(2)]
  have d: "distinct (K a)" using wf_structD(2) wf_sheapD(3) wf_theapD(1)[OF W assms(2)] assms(2) by blast
  have "slot_index (K a) (env_specialKey env) = (if IsPolyMetatable s then Some (GetPolyMetatableSlot s) else None)"
    using sem_ok_metatable_slot(1)[OF sem d] sem by (auto simp: IsPolyMetatable_def slot_index_None sem_ok_def)
  with sem n wf_lookup[OF W assms(2)] show ?thesis
    by (auto simp: sem_ok_def storage_ok_def HasNoMetatable_def)
qed

theorem structure_invariant_witness:
  "m_numSlots (struct_at example_heap 24) \<le> x_maxNumSlots + 1 \<and> valid_array_type (m_arrayType (struct_at example_heap 24))"
proof (rule example_struct)
  fix s assume s: "sh_structs example_heap 24 = Some s"
  then have "struct_at example_heap 24 = s" by (simp add: struct_at_def)
  with structure_invariant[OF example_reach s] show ?thesis by simp
qed

end
