(* ===== verification/StructIter.thy ===== *)
theory StructIter
  imports StructureReach
begin

unbundle bit_operations_syntax

text \<open>
  \<^verbatim>\<open>StructureIterator\<close> of \<^verbatim>\<open>runtime/structure.h\<close>: the iterator walks the blocks of the anchor table, the final full block and the
  structure's own block, and visits every key once, in slot order.
\<close>

section \<open>The iterator\<close>

text \<open>A pointer to a key is a pointer to the beginning of a block and the number of keys it has moved past.\<close>

record struct_iterator =
  it_hiddenClass :: sys_ptr
  it_anchorTable :: sys_ptr
  it_curPtr :: "sys_ptr \<times> nat"
  it_ord :: nat
  it_maxOrd :: nat
  it_anchorTableMaxOrd :: nat

definition it_final_block :: "struct \<Rightarrow> sys_ptr \<times> nat" where
  "it_final_block s = (GetFinalFullBlockPointer s - sizeof_GeneralHeapPointer * x_hiddenClassBlockSize, 0)"

definition it_own_block :: "sys_ptr \<Rightarrow> sys_ptr \<times> nat" where
  "it_own_block hc = (hc + OffsetOfTrailingVarLengthArray, 0)"

definition StructureIterator :: "sheap \<Rightarrow> sys_ptr \<Rightarrow> struct_iterator" where
  "StructureIterator sh hc =
     (let hiddenClass = struct_at sh hc;
          aht = m_anchorHashTable hiddenClass
      in \<lparr>it_hiddenClass = hc, it_anchorTable = aht,
          it_curPtr =
            (if aht \<noteq> 0 then (a_blockPointers (anchor_at sh aht) ! 0, 0)
             else if HasFinalFullBlockPointer (m_numSlots hiddenClass) then it_final_block hiddenClass
             else it_own_block hc),
          it_ord = 0, it_maxOrd = m_numSlots hiddenClass,
          it_anchorTableMaxOrd = (if aht \<noteq> 0 then a_numTotalSlots (anchor_at sh aht) else 0)\<rparr>)"

definition it_HasMore :: "struct_iterator \<Rightarrow> bool" where
  "it_HasMore it \<longleftrightarrow> it_ord it < it_maxOrd it"

definition it_GetCurrentKey :: "sheap \<Rightarrow> struct_iterator \<Rightarrow> gkey" where
  "it_GetCurrentKey sh it = (case it_curPtr it of (p, i) \<Rightarrow> read_block sh p i)"

definition it_GetCurrentSlotOrdinal :: "struct_iterator \<Rightarrow> nat" where
  "it_GetCurrentSlotOrdinal it = it_ord it"

definition it_Advance :: "sheap \<Rightarrow> struct_iterator \<Rightarrow> struct_iterator" where
  "it_Advance sh it =
     (let ord = it_ord it + 1;
          it = it\<lparr>it_ord := ord\<rparr>;
          hiddenClass = struct_at sh (it_hiddenClass it)
      in if ord AND (x_hiddenClassBlockSize - 1) = 0 then
           if ord < it_maxOrd it then
             it\<lparr>it_curPtr :=
               (if ord = it_anchorTableMaxOrd it then
                  if HasFinalFullBlockPointer (it_maxOrd it) \<and> \<not> IsAnchorTableContainsFinalBlock sh hiddenClass
                  then it_final_block hiddenClass else it_own_block (it_hiddenClass it)
                else if ord > it_anchorTableMaxOrd it then it_own_block (it_hiddenClass it)
                else (a_blockPointers (anchor_at sh (it_anchorTable it)) ! drop_bit x_log2_hiddenClassBlockSize ord, 0))\<rparr>
           else it
         else it\<lparr>it_curPtr := (fst (it_curPtr it), snd (it_curPtr it) + 1)\<rparr>)"

lemma it_Advance_ord [simp]: "it_ord (it_Advance sh it) = it_ord it + 1" "it_maxOrd (it_Advance sh it) = it_maxOrd it"
  by (simp_all add: it_Advance_def Let_def)

text \<open>The loop in which every client of the iterator visits the keys: \<^verbatim>\<open>while (it.HasMore()) { ...; it.Advance(); }\<close>.\<close>

function it_visit :: "sheap \<Rightarrow> struct_iterator \<Rightarrow> (gkey \<times> nat) list" where
  "it_visit sh it =
     (if it_HasMore it then (it_GetCurrentKey sh it, it_GetCurrentSlotOrdinal it) # it_visit sh (it_Advance sh it) else [])"
  by pat_completeness auto
termination
  by (relation "measure (\<lambda>(sh, it). it_maxOrd it - it_ord it)") (auto simp: it_HasMore_def)

declare it_visit.simps [simp del]

section \<open>The iterator visits the keys in slot order\<close>

text \<open>The block that holds slot \<open>i\<close>, a multiple of the block size.\<close>

definition it_block :: "sheap \<Rightarrow> sys_ptr \<Rightarrow> struct \<Rightarrow> nat \<Rightarrow> sys_ptr \<times> nat" where
  "it_block sh a s i =
     (if i < anchor_total sh s then (a_blockPointers (anchor_at sh (m_anchorHashTable s)) ! (i div 16), 0)
      else if i < m_numSlots s - m_nonFullBlockLen s then it_final_block s
      else it_own_block a)"

lemma mod16D: "(x::nat) mod 16 = 0 \<Longrightarrow> \<exists>q. x = 16 * q"
  by (metis mod_0_imp_dvd dvdE)

lemma it_block_read:
  assumes sh: "wf_sheap env sh K" and a: "sh_structs sh a = Some s"
    and i: "i mod 16 = 0" "i + j < length (K a)" "j < 16"
  shows "read_block sh (fst (it_block sh a s i)) j = K a ! (i + j)"
proof -
  define ks where "ks = K a"
  define base where "base = length ks - m_nonFullBlockLen s"
  define tot where "tot = anchor_total sh s"
  have wf: "wf_struct env sh K ks s" using wf_sheapD(3)[OF sh a] by (simp add: ks_def)
  note S = wf_struct_shape[OF wf, folded base_def tot_def] and n = wf_structD(3)[OF wf]
  have ilt: "i + j < length ks" using i(2) by (simp add: ks_def)
  obtain q where q: "i = 16 * q" using mod16D[OF i(1)] by blast
  obtain b where b: "base = 16 * b" using mod16D[OF S(2)] by blast
  have cl: "i + j < m" if "i < m" "m mod 16 = 0" for m
    using that(1) i(3) q mod16D[OF that(2)] by auto
  show ?thesis
  proof (cases "i < tot")
    case True
    then have an: "m_anchorHashTable s \<noteq> 0" by (auto simp: tot_def anchor_total_def split: if_splits)
    then obtain at where at: "sh_anchors sh (m_anchorHashTable s) = Some at" "wf_anchor env sh at (take (a_numTotalSlots at) ks)"
      using wf_structD(7)[OF wf] by (auto simp: anchor_ok_def)
    have t: "a_numTotalSlots at = tot" using an at(1) by (simp add: tot_def anchor_total_def anchor_at_def)
    have "length (take tot ks) = 16 * a_numBlocks at" using at(2) unfolding wf_anchor_def t by (elim conjE)
    moreover have "length (take tot ks) = tot" using S(7) by (metis length_take min_absorb2)
    ultimately have "tot mod 16 = 0" by (metis mod_mult_self1_is_0)
    from cl[OF True this] have "i + j < tot" .
    moreover have "GetPropertyNameAtSlot sh at (i + j) = read_block sh (a_blockPointers at ! (i div 16)) j"
      using i(3) q by (simp add: GetPropertyNameAtSlot_def block_consts nat_and_15 drop_bit_eq_div)
    ultimately show ?thesis using anchor_name[OF at(2), of "i + j"] True S(7) an at(1)
      by (simp add: it_block_def t tot_def[symmetric] anchor_at_def ks_def)
  next
    case False
    show ?thesis
    proof (cases "i < base")
      case True
      then have t: "tot + 16 = base" using False S(4) S(1) by auto
      then have "HasFinalFullBlockPointer (length ks)" using S(6) by simp
      then have fin: "wf_final sh K (m_finalFullBlockPointer s) (take base ks)" using wf_structD(6)[OF wf] by (simp add: base_def)
      have ib: "i = tot" using True False t q b by auto
      have "read_block_end sh (m_finalFullBlockPointer s) (int j - 16) = take base ks ! nat (int (length (take base ks)) + (int j - 16))"
        using True S(1,2) i(3) t by (intro final_block_nth[OF sh fin]) (auto simp: min_absorb2)
      moreover have "nat (int (length (take base ks)) + (int j - 16)) = i + j" using S(1) t ib by (simp add: min_absorb2)
      moreover have "i + j < base" using cl[OF True S(2)] .
      ultimately show ?thesis using True True[unfolded base_def ks_def] False n
        by (simp add: it_block_def it_final_block_def read_block_end_def GetFinalFullBlockPointer_def block_consts
            base_def[symmetric] tot_def[symmetric] ks_def)
    next
      case nb: False
      have "length ks \<le> base + 16" using S(3) by linarith
      then have "i = base" using nb ilt q b by auto
      moreover have "m_values s = drop base ks" using wf_structD(5)[OF wf] by (simp add: base_def)
      ultimately show ?thesis using nb nb[unfolded base_def ks_def] False n a ilt
        by (simp add: it_block_def it_own_block_def read_block_def struct_at_def base_def[symmetric] tot_def[symmetric] ks_def)
    qed
  qed
qed


definition it_at :: "sheap \<Rightarrow> sys_ptr \<Rightarrow> struct \<Rightarrow> nat \<Rightarrow> struct_iterator \<Rightarrow> bool" where
  "it_at sh a s i it \<longleftrightarrow> it_hiddenClass it = a \<and> it_anchorTable it = m_anchorHashTable s \<and> it_ord it = i \<and>
     it_maxOrd it = m_numSlots s \<and> it_anchorTableMaxOrd it = anchor_total sh s \<and>
     (i < m_numSlots s \<longrightarrow> it_curPtr it = (fst (it_block sh a s (i - i mod 16)), i mod 16))"

lemma iterator_start:
  assumes sh: "wf_sheap env sh K" and a: "sh_structs sh a = Some s"
  shows "it_at sh a s 0 (StructureIterator sh a)"
proof -
  define n where "n = length (K a)"
  have wf: "wf_struct env sh K (K a) s" using wf_sheapD(3)[OF sh a] .
  note S = wf_struct_shape[OF wf, folded n_def] and c = NonFullBlockLength_cases[of n]
  have nf: "m_numSlots s = n" "m_nonFullBlockLen s = ComputeNonFullBlockLength n"
    using wf_structD(3,4)[OF wf] by (simp_all add: n_def)
  have st: "struct_at sh a = s" using a by (simp add: struct_at_def)
  show ?thesis
  proof (cases "m_anchorHashTable s = 0")
    case True
    then have t: "anchor_total sh s = 0" by (simp add: anchor_total_def)
    have "0 < n - m_nonFullBlockLen s \<longleftrightarrow> HasFinalFullBlockPointer n"
    proof
      show "HasFinalFullBlockPointer n" if "0 < n - m_nonFullBlockLen s" using S(6) t that by simp
      show "0 < n - m_nonFullBlockLen s" if "HasFinalFullBlockPointer n"
        using that c nf(2) mod_less_divisor[of 16 n] unfolding HasFinal_iff by auto
    qed
    then show ?thesis using True t nf(1)
      by (auto simp: it_at_def StructureIterator_def st Let_def it_block_def it_final_block_def it_own_block_def)
  next
    case False
    then have "0 < anchor_total sh s" using wf_structD(7)[OF wf] by (auto simp: anchor_total_def anchor_at_def anchor_ok_def)
    with False show ?thesis
      by (auto simp: it_at_def StructureIterator_def st Let_def it_block_def anchor_total_def)
  qed
qed

lemma iterator_advance:
  assumes sh: "wf_sheap env sh K" and a: "sh_structs sh a = Some s" and it: "it_at sh a s i it" and i: "i < m_numSlots s"
  shows "it_at sh a s (Suc i) (it_Advance sh it)"
proof -
  define n where "n = length (K a)"
  define tot where "tot = anchor_total sh s"
  have wf: "wf_struct env sh K (K a) s" using wf_sheapD(3)[OF sh a] .
  note S = wf_struct_shape[OF wf, folded n_def tot_def] and cf = contains_final_iff[OF wf, folded n_def tot_def]
  have nf: "m_numSlots s = n" "m_nonFullBlockLen s = ComputeNonFullBlockLength n"
    using wf_structD(3,4)[OF wf] by (simp_all add: n_def)
  have st: "struct_at sh a = s" using a by (simp add: struct_at_def)
  have I: "it_hiddenClass it = a" "it_anchorTable it = m_anchorHashTable s" "it_ord it = i" "it_maxOrd it = n"
    "it_anchorTableMaxOrd it = tot" "it_curPtr it = (fst (it_block sh a s (i - i mod 16)), i mod 16)"
    using it i by (auto simp: it_at_def nf tot_def)
  show ?thesis
  proof (cases "Suc i mod 16 = 0")
    case False
    then have "Suc i - Suc i mod 16 = i - i mod 16" "Suc i mod 16 = Suc (i mod 16)" by (auto simp: mod_Suc)
    with False show ?thesis using I
      by (simp add: it_at_def it_Advance_def Let_def block_consts nat_and_15 nf tot_def)
  next
    case True
    have "it_curPtr (it_Advance sh it) = (fst (it_block sh a s (Suc i)), 0)" if lt: "Suc i < n"
    proof -
      obtain q where q: "Suc i = 16 * q" using mod16D[OF True] by blast
      obtain b where b: "n - m_nonFullBlockLen s = 16 * b" using mod16D[OF S(2)] by blast
      have fin: "HasFinalFullBlockPointer n \<and> \<not> IsAnchorTableContainsFinalBlock sh s \<longleftrightarrow> tot < n - m_nonFullBlockLen s"
        if "Suc i = tot"
      proof -
        have "m_anchorHashTable s \<noteq> 0" using that by (auto simp: tot_def anchor_total_def split: if_splits)
        then have C: "IsAnchorTableContainsFinalBlock sh s \<longleftrightarrow> tot = n - n mod 16" using cf by simp
        have "n - n mod 16 = n - m_nonFullBlockLen s" if "n mod 16 \<noteq> 0"
          using NonFullBlockLength_cases[of n] nf that by auto
        moreover have "16 \<le> n" using lt q by (cases q) auto
        ultimately show ?thesis using C S(4,5,6) lt that unfolding HasFinal_iff by (cases "n mod 16 = 0") auto
      qed
      have own: "it_block sh a s (Suc i) = it_own_block a" if "tot < Suc i"
      proof -
        have "n - m_nonFullBlockLen s \<le> Suc i" using that S(4,7) lt q b by auto
        with that show ?thesis using nf by (simp add: it_block_def tot_def[symmetric])
      qed
      consider "Suc i = tot" | "tot < Suc i" | "Suc i < tot" by linarith
      then show ?thesis
      proof cases
        case 1
        then show ?thesis using True lt fin I st nf
          by (simp add: it_Advance_def Let_def block_consts nat_and_15 it_block_def tot_def[symmetric] it_final_block_def it_own_block_def)
      next
        case 2
        then show ?thesis using True lt I st own[OF 2]
          by (simp add: it_Advance_def Let_def block_consts nat_and_15 it_own_block_def)
      next
        case 3
        then show ?thesis using True lt I st
          by (simp add: it_Advance_def Let_def block_consts nat_and_15 it_block_def tot_def[symmetric] drop_bit_eq_div)
      qed
    qed
    with True show ?thesis using I
      by (auto simp: it_at_def nf tot_def it_Advance_def Let_def)
  qed
qed

lemma it_visit_at:
  assumes sh: "wf_sheap env sh K" and a: "sh_structs sh a = Some s"
  shows "it_at sh a s i it \<Longrightarrow> i \<le> length (K a) \<Longrightarrow> it_visit sh it = zip (drop i (K a)) [i..<length (K a)]"
proof (induction "length (K a) - i" arbitrary: i it)
  case 0
  then show ?case using wf_structD(3)[OF wf_sheapD(3)[OF sh a]]
    by (subst it_visit.simps) (simp add: it_HasMore_def it_at_def)
next
  case (Suc d)
  have n: "m_numSlots s = length (K a)" using wf_structD(3)[OF wf_sheapD(3)[OF sh a]] .
  have lt: "i < length (K a)" using Suc.hyps(2) by linarith
  have md: "(i - i mod 16) mod 16 = 0" "i - i mod 16 + i mod 16 = i" by (simp_all add: minus_mod_eq_mult_div)
  have key: "it_GetCurrentKey sh it = K a ! i"
    using it_block_read[OF sh a md(1), of "i mod 16"] lt md(2) Suc.prems(1) n
    by (simp add: it_GetCurrentKey_def it_at_def)
  have "it_visit sh (it_Advance sh it) = zip (drop (Suc i) (K a)) [Suc i..<length (K a)]"
    using iterator_advance[OF sh a Suc.prems(1)] lt n Suc.hyps by (intro Suc.hyps(1)) auto
  then show ?case using lt key Suc.prems(1) n
    by (subst it_visit.simps) (simp add: it_HasMore_def it_at_def it_GetCurrentSlotOrdinal_def Cons_nth_drop_Suc[symmetric] upt_conv_Cons)
qed

lemma it_visit_correct:
  assumes "wf_sheap env sh K" "sh_structs sh a = Some s"
  shows "it_visit sh (StructureIterator sh a) = zip (K a) [0..<length (K a)]"
  using it_visit_at[OF assms iterator_start[OF assms]] by simp

text \<open>
  C29. Iterating over a structure of a reachable heap visits every slot exactly once, in increasing order, with
  the key that the slot has, and then stops.
\<close>

theorem iterator_visits_slots:
  assumes "struct_reach env sh" "sh_structs sh a = Some s"
  shows "it_visit sh (StructureIterator sh a) = map (\<lambda>i. (GetKeyForSlotOrdinal sh s i, i)) [0..<m_numSlots s]"
proof -
  obtain K C where W: "wf_theap env sh K C" using struct_reach_invariant[OF assms(1)] by blast
  have sh: "wf_sheap env sh K" and wf: "wf_struct env sh K (K a) s"
    using wf_theapD(1)[OF W assms(2)] wf_sheapD(3) assms(2) by auto
  have "zip (K a) [0..<length (K a)] = map (\<lambda>i. (K a ! i, i)) [0..<length (K a)]"
    by (rule nth_equalityI) auto
  also have "\<dots> = map (\<lambda>i. (GetKeyForSlotOrdinal sh s i, i)) [0..<m_numSlots s]"
    using key_for_slot_correct[OF sh wf] wf_structD(3)[OF wf] by simp
  finally show ?thesis using it_visit_correct[OF sh assms(2)] by simp
qed

theorem iterator_visits_slots_witness:
  "it_visit example_heap (StructureIterator example_heap 24) =
    map (\<lambda>i. (GetKeyForSlotOrdinal example_heap (struct_at example_heap 24) i, i)) [0..<m_numSlots (struct_at example_heap 24)]"
proof (rule example_struct)
  fix s assume s: "sh_structs example_heap 24 = Some s"
  then have "struct_at example_heap 24 = s" by (simp add: struct_at_def)
  with iterator_visits_slots[OF example_reach s] show ?thesis by simp
qed

end
