(* ===== verification/TValue.thy ===== *)
theory TValue
  imports MathHelper
begin

unbundle bit_operations_syntax

text \<open>
  The boxed value of \<^verbatim>\<open>drt/tvalue.h\<close>: a 64-bit word under the NaN boxing scheme of that file.
  A double is its IEEE 754 bit pattern, so \<^verbatim>\<open>cxx2a_bit_cast\<close> is the identity. \<^verbatim>\<open>Assert\<close> is
  compiled out of release builds, so the decoders are total functions of the word; the
  asserted facts are proved below under the type test they follow.
\<close>

type_synonym tvalue = u64
type_synonym double = u64
type_synonym heap_ptr = u64

section \<open>IEEE 754 bit patterns\<close>

definition double_exponent :: "double \<Rightarrow> u64" where
  "double_exponent d = drop_bit 52 d AND 0x7FF"

definition double_mantissa :: "double \<Rightarrow> u64" where
  "double_mantissa d = d AND 0xFFFFFFFFFFFFF"

definition IsNaN :: "double \<Rightarrow> bool" where
  "IsNaN d \<longleftrightarrow> double_exponent d = 0x7FF \<and> double_mantissa d \<noteq> 0"

definition double_is_zero :: "double \<Rightarrow> bool" where
  "double_is_zero d \<longleftrightarrow> d AND 0x7FFFFFFFFFFFFFFF = 0"

definition UnsafeFloatEqual :: "double \<Rightarrow> double \<Rightarrow> bool" where
  "UnsafeFloatEqual a b \<longleftrightarrow>
     \<not> IsNaN a \<and> \<not> IsNaN b \<and> (a = b \<or> double_is_zero a \<and> double_is_zero b)"

definition quiet_NaN :: double where
  "quiet_NaN = 0x7FF8000000000000"

section \<open>Misc immediate values\<close>

type_synonym miv = u64

definition x_nil :: miv where "x_nil = 0"
definition x_false :: miv where "x_false = 2"
definition x_true :: miv where "x_true = 3"
definition x_impossible_value :: miv where "x_impossible_value = 4"

definition valid_miv :: "miv \<Rightarrow> bool" where
  "valid_miv m \<longleftrightarrow> m = x_nil \<or> m = x_true \<or> m = x_false \<or> m = x_impossible_value"

definition miv_IsNil :: "miv \<Rightarrow> bool" where "miv_IsNil m \<longleftrightarrow> m = 0"
definition miv_IsTrue :: "miv \<Rightarrow> bool" where "miv_IsTrue m \<longleftrightarrow> m = x_true"
definition miv_IsBoolean :: "miv \<Rightarrow> bool" where "miv_IsBoolean m \<longleftrightarrow> m \<noteq> 0"

definition miv_GetBooleanValue :: "miv \<Rightarrow> bool" where
  "miv_GetBooleanValue m \<longleftrightarrow> m AND 1 \<noteq> 0"

definition miv_FlipBooleanValue :: "miv \<Rightarrow> miv" where
  "miv_FlipBooleanValue m = m XOR 1"

definition miv_CreateNil :: miv where "miv_CreateNil = x_nil"

definition miv_CreateBoolean :: "bool \<Rightarrow> miv" where
  "miv_CreateBoolean v = (if v then x_true else x_false)"

definition miv_CreateImpossibleValue :: miv where
  "miv_CreateImpossibleValue = x_impossible_value"

section \<open>Boxing and type tests\<close>

definition x_int32Tag :: u64 where "x_int32Tag = 0xFFFBFFFF00000000"
definition x_mivTag :: u64 where "x_mivTag = 0xFFFCFFFF0000007F"

definition IsInt32 :: "tvalue \<Rightarrow> bool" where
  "IsInt32 v \<longleftrightarrow> v AND x_int32Tag = x_int32Tag"

definition IsMIV :: "tvalue \<Rightarrow> bool" where
  "IsMIV v \<longleftrightarrow> v AND (x_mivTag - 0x7F) = x_mivTag - 0x7F"

definition IsPointer :: "tvalue \<Rightarrow> bool" where
  "IsPointer v \<longleftrightarrow> v > x_mivTag"

definition IsDouble :: "tvalue \<Rightarrow> bool" where
  "IsDouble v \<longleftrightarrow> v < x_int32Tag"

definition IsDoubleNotNaN :: "tvalue \<Rightarrow> bool" where
  "IsDoubleNotNaN v \<longleftrightarrow> \<not> IsNaN v"

definition IsDoubleNaN :: "tvalue \<Rightarrow> bool" where
  "IsDoubleNaN v \<longleftrightarrow> v = 0x7FF8000000000000"

definition ViewAsDouble :: "tvalue \<Rightarrow> double" where "ViewAsDouble v = v"
definition AsDouble :: "tvalue \<Rightarrow> double" where "AsDouble v = v"

definition AsInt32 :: "tvalue \<Rightarrow> u32" where
  "AsInt32 v = BitwiseTruncateTo v"

definition IsTruthy :: "tvalue \<Rightarrow> bool" where
  "IsTruthy v \<longleftrightarrow> (v XOR x_mivTag) > 2"

definition AsPointer :: "tvalue \<Rightarrow> heap_ptr" where "AsPointer v = v"

definition AsMIV :: "tvalue \<Rightarrow> miv" where
  "AsMIV v = v XOR x_mivTag"

definition CreateInt32 :: "u32 \<Rightarrow> tvalue" where
  "CreateInt32 x = x_int32Tag OR ZeroExtendTo x"

definition CreateDouble :: "double \<Rightarrow> tvalue" where "CreateDouble d = d"
definition CreatePointer :: "heap_ptr \<Rightarrow> tvalue" where "CreatePointer p = p"

definition CreateMIV :: "miv \<Rightarrow> tvalue" where
  "CreateMIV m = m XOR x_mivTag"

definition CreateImpossibleValue :: tvalue where
  "CreateImpossibleValue = CreateMIV miv_CreateImpossibleValue"

definition CreateBoolean :: "bool \<Rightarrow> tvalue" where
  "CreateBoolean v = CreateMIV (miv_CreateBoolean v)"

definition Nil :: tvalue where "Nil = CreateMIV miv_CreateNil"

definition IsNil :: "tvalue \<Rightarrow> bool" where "IsNil v \<longleftrightarrow> v = Nil"

section \<open>The boxing scheme\<close>

text \<open>
  The scheme as the comment of \<^verbatim>\<open>struct TValue\<close> gives it: the range of words of each kind. A
  heap pointer's upper half is one of \<^verbatim>\<open>0xFFFFFFFC\<close> to \<^verbatim>\<open>0xFFFFFFFE\<close>.
\<close>

datatype box_kind = BoxDouble | BoxInt32 | BoxMiv | BoxPointer

fun in_box :: "box_kind \<Rightarrow> tvalue \<Rightarrow> bool" where
  "in_box BoxDouble v \<longleftrightarrow> v \<le> 0xFFFAFFFFFFFFFFFF"
| "in_box BoxInt32 v \<longleftrightarrow> 0xFFFBFFFF00000000 \<le> v \<and> v \<le> 0xFFFBFFFFFFFFFFFF"
| "in_box BoxMiv v \<longleftrightarrow> 0xFFFCFFFF00000000 \<le> v \<and> v \<le> 0xFFFCFFFF0000007F"
| "in_box BoxPointer v \<longleftrightarrow> 0xFFFFFFFC00000000 \<le> v \<and> v \<le> 0xFFFFFFFEFFFFFFFF"

definition boxed :: "tvalue \<Rightarrow> bool" where
  "boxed v \<longleftrightarrow> (\<exists>k \<in> {BoxDouble, BoxInt32, BoxMiv, BoxPointer}. in_box k v)"

definition type_test :: "box_kind \<Rightarrow> tvalue \<Rightarrow> bool" where
  "type_test k = (case k of BoxDouble \<Rightarrow> IsDouble | BoxInt32 \<Rightarrow> IsInt32 | BoxMiv \<Rightarrow> IsMIV
     | BoxPointer \<Rightarrow> IsPointer)"

lemmas tvalue_consts = x_nil_def x_false_def x_true_def x_impossible_value_def x_int32Tag_def
  x_mivTag_def Nil_def CreateMIV_def miv_CreateNil_def CreateBoolean_def miv_CreateBoolean_def
  CreateImpossibleValue_def miv_CreateImpossibleValue_def

section \<open>Properties of the boxing scheme\<close>

lemma and_tag_iff:
  fixes v t :: u64
  assumes "take_bit 32 t = 0"
  shows "v AND t = t \<longleftrightarrow> drop_bit 32 v AND drop_bit 32 t = drop_bit 32 t"
proof -
  have low: "\<not> bit t i" if "i < 32" for i
    using assms that by (metis bit_take_bit_iff bit_0_eq bot_apply bot_bool_def)
  have "(\<forall>i. bit t i \<longrightarrow> bit v i) \<longleftrightarrow> (\<forall>i. bit t (32 + i) \<longrightarrow> bit v (32 + i))"
    by (metis le_Suc_ex low not_le)
  then show ?thesis by (simp add: word_and_eq_iff bit_drop_bit_eq)
qed

lemma unat_high_half: "unat (drop_bit 32 (v::u64)) = unat v div 2 ^ 32"
  unfolding unat_drop_bit_eq by (rule drop_bit_eq_div)

lemma high_half:
  fixes v :: u64
  assumes "h * 2 ^ 32 \<le> unat v" "unat v < Suc h * 2 ^ 32"
  shows "drop_bit 32 v = of_nat h"
proof -
  have "unat v div 2 ^ 32 = h" using assms by (intro div_nat_eqI) (auto simp: mult.commute)
  then have "of_nat (unat (drop_bit 32 v)) = (of_nat h :: u64)" by (simp only: unat_high_half)
  then show ?thesis by simp
qed

lemma high_half_int32: "in_box BoxInt32 v \<Longrightarrow> drop_bit 32 v = 0xFFFBFFFF"
  using high_half[of "0xFFFBFFFF" v] by (simp add: word_le_nat_alt)
lemma high_half_miv: "in_box BoxMiv v \<Longrightarrow> drop_bit 32 v = 0xFFFCFFFF"
  using high_half[of "0xFFFCFFFF" v] by (simp add: word_le_nat_alt)
lemma high_half_pointer: "in_box BoxPointer v \<Longrightarrow>
  drop_bit 32 v = 0xFFFFFFFC \<or> drop_bit 32 v = 0xFFFFFFFD \<or> drop_bit 32 v = 0xFFFFFFFE"
  using high_half[of "0xFFFFFFFC" v] high_half[of "0xFFFFFFFD" v] high_half[of "0xFFFFFFFE" v]
  by (simp add: word_le_nat_alt) linarith

lemma high_half_double: "in_box BoxDouble v \<Longrightarrow> drop_bit 32 v \<le> 0xFFFAFFFF"
proof -
  assume "in_box BoxDouble v"
  then have "unat v \<le> 0xFFFAFFFFFFFFFFFF" by (simp add: word_le_nat_alt)
  then have "unat v div 2 ^ 32 \<le> 0xFFFAFFFF" by simp
  then show ?thesis unfolding word_le_nat_alt unat_high_half by simp
qed

lemma IsInt32_high: "IsInt32 v \<longleftrightarrow> drop_bit 32 v AND 0xFFFBFFFF = 0xFFFBFFFF"
  using and_tag_iff[of "0xFFFBFFFF00000000" v] by (simp add: IsInt32_def x_int32Tag_def)
lemma IsMIV_high: "IsMIV v \<longleftrightarrow> drop_bit 32 v AND 0xFFFCFFFF = 0xFFFCFFFF"
  using and_tag_iff[of "0xFFFCFFFF00000000" v] by (simp add: IsMIV_def x_mivTag_def)


lemma IsPointer_box: "in_box BoxPointer v \<Longrightarrow> IsPointer v"
  by (simp add: IsPointer_def x_mivTag_def word_le_nat_alt word_less_nat_alt)

lemma type_test_iff:
  assumes "boxed v"
  shows "type_test k v \<longleftrightarrow> in_box k v"
proof -
  consider "in_box BoxDouble v" | "in_box BoxInt32 v" | "in_box BoxMiv v" | "in_box BoxPointer v"
    using assms by (auto simp: boxed_def)
  then show ?thesis
  proof cases
    case 1
    then have "\<not> 0xFFFBFFFF \<le> drop_bit 32 v" "\<not> 0xFFFCFFFF \<le> drop_bit 32 v"
      using high_half_double[OF 1] by (simp_all add: word_le_nat_alt)
    then have "\<not> IsInt32 v" "\<not> IsMIV v"
      unfolding IsInt32_high IsMIV_high using and_eq_imp_le by blast+
    with 1 show ?thesis
      by (cases k) (simp_all add: type_test_def IsPointer_def IsDouble_def x_mivTag_def x_int32Tag_def
          word_le_nat_alt word_less_nat_alt)
  next
    case 2
    with high_half_int32[OF 2] show ?thesis
      by (cases k) (simp_all add: type_test_def IsInt32_high IsMIV_high IsPointer_def IsDouble_def
          x_mivTag_def x_int32Tag_def word_le_nat_alt word_less_nat_alt)
  next
    case 3
    with high_half_miv[OF 3] show ?thesis
      by (cases k) (simp_all add: type_test_def IsInt32_high IsMIV_high IsPointer_def IsDouble_def
          x_mivTag_def x_int32Tag_def word_le_nat_alt word_less_nat_alt)
  next
    case 4
    with high_half_pointer[OF 4] show ?thesis
      by (cases k) (auto simp: type_test_def IsInt32_high IsMIV_high IsPointer_def IsDouble_def
          x_mivTag_def x_int32Tag_def word_le_nat_alt word_less_nat_alt)
  qed
qed

lemma in_box_unique: "in_box k v \<Longrightarrow> in_box k' v \<Longrightarrow> k = k'"
  by (cases k; cases k') (auto simp: word_le_nat_alt)

lemma x_int32Tag_push: "x_int32Tag = push_bit 32 0xFFFBFFFF"
  by (simp add: x_int32Tag_def push_bit_eq_mult)

lemma bit_x_int32Tag: "bit x_int32Tag n \<longleftrightarrow> 32 \<le> n \<and> n < 64 \<and> bit (0xFFFBFFFF::u64) (n - 32)"
  unfolding x_int32Tag_push bit_push_bit_iff by (auto simp: possible_bit_def)

lemma CreateInt32_add: "CreateInt32 x = x_int32Tag + ucast x"
  unfolding CreateInt32_def ZeroExtendTo_def
  by (rule disjunctive_add [symmetric])
    (auto simp: bit_x_int32Tag bit_simps dest: bit_imp_le_length)

lemma unat_CreateInt32: "unat (CreateInt32 x) = 0xFFFBFFFF00000000 + unat x"
proof -
  have "unat x < 2 ^ 32" using unsigned_less[of x, where 'a=nat] by simp
  then show ?thesis
    by (simp add: CreateInt32_add unat_word_ariths unat_ucast_u32 x_int32Tag_def)
qed

lemma in_box_CreateInt32: "in_box BoxInt32 (CreateInt32 x)"
  using unsigned_less[of x, where 'a=nat] by (simp add: word_le_nat_alt unat_CreateInt32)

lemma AsInt32_CreateInt32: "AsInt32 (CreateInt32 x) = x"
  by (rule bit_word_eqI)
    (auto simp: AsInt32_def CreateInt32_def BitwiseTruncateTo_def ZeroExtendTo_def bit_simps
      bit_x_int32Tag)

lemma CreateInt32_AsInt32:
  assumes "in_box BoxInt32 v"
  shows "CreateInt32 (AsInt32 v) = v"
proof (rule bit_word_eqI)
  fix i assume "i < LENGTH(64)"
  have "bit (drop_bit 32 v) (i - 32) = bit (0xFFFBFFFF::u64) (i - 32)"
    by (simp only: high_half_int32[OF assms])
  then have "bit v i = bit (0xFFFBFFFF::u64) (i - 32)" if "32 \<le> i"
    using that by (simp add: bit_drop_bit_eq del: bit_numeral_simps)
  then show "bit (CreateInt32 (AsInt32 v)) i = bit v i"
    using \<open>i < LENGTH(64)\<close>
    by (cases "i < 32")
      (auto simp: CreateInt32_def AsInt32_def BitwiseTruncateTo_def ZeroExtendTo_def bit_x_int32Tag
        bit_ucast_iff bit_or_iff)
qed

lemma AsMIV_CreateMIV: "AsMIV (CreateMIV m) = m"
  by (simp add: AsMIV_def CreateMIV_def xor.assoc)

lemma CreateMIV_AsMIV: "CreateMIV (AsMIV m) = m"
  by (simp add: AsMIV_def CreateMIV_def xor.assoc)

lemma IsTruthy_iff:
  assumes "IsMIV v \<Longrightarrow> valid_miv (AsMIV v)"
  shows "IsTruthy v \<longleftrightarrow> v \<noteq> Nil \<and> v \<noteq> CreateBoolean False"
proof -
  define m where "m = AsMIV v"
  have v: "v = CreateMIV m" by (simp add: m_def CreateMIV_AsMIV)
  have "m \<noteq> 1"
  proof
    assume m1: "m = 1"
    then have "IsMIV v" by (simp add: v IsMIV_def CreateMIV_def x_mivTag_def)
    from assms[OF this] m1 show False by (simp add: valid_miv_def tvalue_consts flip: m_def)
  qed
  moreover have "m \<le> 2 \<longleftrightarrow> m = 0 \<or> m = 1 \<or> m = 2"
    by (simp add: word_le_nat_alt word_unat_eq_iff) linarith
  ultimately have "IsTruthy v \<longleftrightarrow> m \<noteq> 0 \<and> m \<noteq> 2"
    by (simp add: IsTruthy_def m_def AsMIV_def flip: linorder_not_le)
  also have "\<dots> \<longleftrightarrow> CreateMIV m \<noteq> CreateMIV 0 \<and> CreateMIV m \<noteq> CreateMIV 2"
    by (metis AsMIV_CreateMIV)
  finally show ?thesis by (simp add: v Nil_def miv_CreateNil_def x_nil_def CreateBoolean_def
        miv_CreateBoolean_def x_false_def)
qed

lemma in_box_CreateMIV: "valid_miv m \<Longrightarrow> in_box BoxMiv (CreateMIV m)"
  by (auto simp: valid_miv_def tvalue_consts word_le_nat_alt)

lemma IsNaN_unat:
  "IsNaN d \<longleftrightarrow> unat d div 2 ^ 52 mod 2 ^ 11 = 0x7FF \<and> unat d mod 2 ^ 52 \<noteq> 0"
proof -
  have e: "double_exponent d = take_bit 11 (drop_bit 52 d)"
    unfolding double_exponent_def take_bit_eq_mask by (simp add: mask_eq_exp_minus_1)
  have m: "double_mantissa d = take_bit 52 d"
    unfolding double_mantissa_def take_bit_eq_mask by (simp add: mask_eq_exp_minus_1)
  have "unat (double_exponent d) = unat d div 2 ^ 52 mod 2 ^ 11"
    unfolding e unsigned_take_bit_eq unat_drop_bit_eq by (simp only: take_bit_eq_mod drop_bit_eq_div)
  moreover have "unat (double_mantissa d) = unat d mod 2 ^ 52"
    unfolding m unsigned_take_bit_eq by (simp only: take_bit_eq_mod)
  ultimately show ?thesis
    unfolding IsNaN_def word_unat_eq_iff by simp
qed

lemma ViewAsDouble_non_double_NaN:
  assumes "\<not> IsDouble v"
  shows "IsNaN (ViewAsDouble v)"
proof -
  have lo: "0xFFFBFFFF00000000 \<le> unat v"
    using assms by (simp add: IsDouble_def x_int32Tag_def word_less_nat_alt)
  have hi: "unat v < 2 ^ 64" using unsigned_less[of v, where 'a=nat] by simp
  have d: "unat v div 2 ^ 52 = 0xFFF"
    using lo hi by (intro div_nat_eqI) auto
  have "unat v mod 2 ^ 52 = unat v - 2 ^ 52 * 0xFFF"
    using minus_div_mult_eq_mod[of "unat v" "2 ^ 52"] unfolding d by (simp add: mult.commute)
  with lo d show ?thesis unfolding IsNaN_unat ViewAsDouble_def by simp
qed

section \<open>Properties of the boxing scheme\<close>

text \<open>
  C40. On every word of the boxing scheme the four type tests decide the kind by their mask and comparison tricks: each
  test holds exactly on the range of words the scheme reserves for its kind, and exactly one of the kinds applies.
\<close>

theorem boxing_type_tests:
  assumes "boxed v"
  shows "(IsDouble v \<longleftrightarrow> in_box BoxDouble v) \<and> (IsInt32 v \<longleftrightarrow> in_box BoxInt32 v) \<and> (IsMIV v \<longleftrightarrow> in_box BoxMiv v) \<and>
    (IsPointer v \<longleftrightarrow> in_box BoxPointer v) \<and> (\<exists>!k. in_box k v)"
proof -
  have "\<exists>!k. in_box k v" using assms in_box_unique unfolding boxed_def by blast
  with type_test_iff[OF assms] show ?thesis unfolding type_test_def by (metis box_kind.simps)
qed

theorem boxing_type_tests_witness:
  "IsInt32 0xFFFBFFFF00000005 \<and> \<not> IsDouble 0xFFFBFFFF00000005 \<and> \<not> IsPointer 0xFFFBFFFF00000005"
proof -
  have "boxed 0xFFFBFFFF00000005" by (simp add: boxed_def word_le_nat_alt)
  from boxing_type_tests[OF this] show ?thesis by (simp add: word_le_nat_alt)
qed

text \<open>
  Boxing loses nothing: every 32-bit integer and every miscellaneous immediate value is recovered from its boxed form, which passes
  the test of its own type, and every word of the integer range is the boxed form of the integer it decodes to.
\<close>

theorem boxing_roundtrip:
  assumes "valid_miv m" "in_box BoxInt32 v"
  shows "AsInt32 (CreateInt32 i) = i \<and> IsInt32 (CreateInt32 i) \<and> AsMIV (CreateMIV m) = m \<and> IsMIV (CreateMIV m) \<and>
    CreateInt32 (AsInt32 v) = v"
proof -
  have "boxed (CreateInt32 i)" "boxed (CreateMIV m)"
    using in_box_CreateInt32 in_box_CreateMIV[OF assms(1)] unfolding boxed_def by blast+
  then have "IsInt32 (CreateInt32 i)" "IsMIV (CreateMIV m)"
    using type_test_iff[of _ BoxInt32] type_test_iff[of _ BoxMiv] in_box_CreateInt32 in_box_CreateMIV[OF assms(1)]
    by (simp_all add: type_test_def)
  then show ?thesis using AsInt32_CreateInt32 AsMIV_CreateMIV CreateInt32_AsInt32[OF assms(2)] by simp
qed

theorem boxing_roundtrip_witness:
  "AsInt32 (CreateInt32 7) = 7 \<and> AsMIV (CreateMIV 3) = 3 \<and> CreateInt32 (AsInt32 0xFFFBFFFF00000009) = 0xFFFBFFFF00000009"
proof -
  have "valid_miv 3" "in_box BoxInt32 0xFFFBFFFF00000009" by (simp_all add: valid_miv_def x_true_def word_le_nat_alt)
  from boxing_roundtrip[OF this, of 7] show ?thesis by simp
qed

text \<open>
  A value is truthy exactly when it is neither nil nor false, although \<^verbatim>\<open>IsTruthy\<close> is a single exclusive or and comparison, and every
  word that is not a double is a NaN when read as one, which lets arithmetic run on operands before checking them.
\<close>

theorem truthiness_and_nan:
  assumes "IsMIV v \<longrightarrow> valid_miv (AsMIV v)"
  shows "(IsTruthy v \<longleftrightarrow> v \<noteq> Nil \<and> v \<noteq> CreateBoolean False) \<and> (IsDouble v \<or> IsNaN (ViewAsDouble v))"
  using IsTruthy_iff[of v] ViewAsDouble_non_double_NaN[of v] assms by blast

theorem truthiness_and_nan_witness: "IsTruthy (CreateInt32 0) \<and> \<not> IsTruthy Nil \<and> IsNaN (ViewAsDouble Nil)"
proof -
  have n: "IsMIV Nil \<longrightarrow> valid_miv (AsMIV Nil)" by (simp add: Nil_def AsMIV_CreateMIV valid_miv_def miv_CreateNil_def)
  have i: "IsMIV (CreateInt32 0) \<longrightarrow> valid_miv (AsMIV (CreateInt32 0))"
    by (simp add: IsMIV_def CreateInt32_def ZeroExtendTo_def tvalue_consts)
  have "CreateInt32 0 \<noteq> Nil" "CreateInt32 0 \<noteq> CreateBoolean False" "\<not> IsDouble Nil"
    by (simp_all add: CreateInt32_def ZeroExtendTo_def tvalue_consts IsDouble_def)
  with truthiness_and_nan[OF n] truthiness_and_nan[OF i] show ?thesis by simp
qed

end
