(* ===== verification/Butterfly.thy ===== *)
theory Butterfly
  imports TValue ArrayType
begin

unbundle bit_operations_syntax

text \<open>
  \<^verbatim>\<open>runtime/butterfly.h\<close>. The header keeps a signed 32-bit length that doubles as the sparse map pointer, and
  an unsigned 32-bit capacity; indices are signed 64-bit. The storage around the header is modelled by the two
  arrays the code addresses from it: the array vector at positive offsets and the outlined named properties at
  negative ones.
\<close>

record butterfly_header =
  m_arrayLengthIfContinuous :: "32 word"
  m_arrayStorageCapacity :: u32

record butterfly =
  bf_header :: butterfly_header
  bf_vector :: "tvalue list"
  bf_named :: "tvalue list"

section \<open>ButterflyHeader\<close>

definition bh_IsContinuous :: "butterfly_header \<Rightarrow> bool" where
  "bh_IsContinuous h \<longleftrightarrow> sint (m_arrayLengthIfContinuous h) \<ge> 0"

definition CanUseFastPathGetForContinuousArray :: "butterfly_header \<Rightarrow> 64 word \<Rightarrow> bool" where
  "CanUseFastPathGetForContinuousArray h idx =
     (let lhs = idx - of_int x_arrayBaseOrd;
          rhs = (scast (m_arrayLengthIfContinuous h) :: u64)
      in lhs < rhs)"

definition IndexFitsInVectorCapacity :: "butterfly_header \<Rightarrow> 64 word \<Rightarrow> bool" where
  "IndexFitsInVectorCapacity h idx =
     (let lhs = idx - of_int x_arrayBaseOrd;
          rhs = (ucast (m_arrayStorageCapacity h) :: u64)
      in lhs < rhs)"

definition bh_HasSparseMap :: "butterfly_header \<Rightarrow> bool" where
  "bh_HasSparseMap h \<longleftrightarrow> sint (m_arrayLengthIfContinuous h) < - 1"

definition bh_GetSparseMap :: "butterfly_header \<Rightarrow> 32 word" where
  "bh_GetSparseMap h = m_arrayLengthIfContinuous h"

section \<open>Butterfly\<close>

definition x_maxNamedStorageCapacity :: int where "x_maxNamedStorageCapacity = 250000000"

text \<open>Array element \<open>index\<close> lies \<open>index\<close> slots after the header, so it is element \<open>index - 1\<close> of the vector.\<close>

definition bf_vec_pos :: "64 word \<Rightarrow> nat" where
  "bf_vec_pos index = nat (sint index - x_arrayBaseOrd)"

definition bf_GetInVectorIndex :: "butterfly \<Rightarrow> 64 word \<Rightarrow> tvalue" where
  "bf_GetInVectorIndex b index = bf_vector b ! bf_vec_pos index"

definition bf_SetInVectorIndex :: "butterfly \<Rightarrow> 64 word \<Rightarrow> tvalue \<Rightarrow> butterfly" where
  "bf_SetInVectorIndex b index v = b\<lparr>bf_vector := (bf_vector b)[bf_vec_pos index := v]\<rparr>"

definition GetOutlineStorageIndex :: "u32 \<Rightarrow> u32 \<Rightarrow> 32 word" where
  "GetOutlineStorageIndex slot inlineCapacity =
     inlineCapacity - slot - 1 - (1 - of_int x_arrayBaseOrd)"

definition x_namedPropOrdinalRangeMin :: int where
  "x_namedPropOrdinalRangeMin = - (x_maxNamedStorageCapacity + 1 - x_arrayBaseOrd)"
definition x_namedPropOrdinalRangeMax :: int where
  "x_namedPropOrdinalRangeMax = x_arrayBaseOrd - 2"

text \<open>A named property at ordinal \<open>ord < 0\<close> is element \<open>- ord - 1\<close> of the outlined storage.\<close>

definition bf_named_pos :: "32 word \<Rightarrow> nat" where
  "bf_named_pos ord = nat (- sint ord - 1)"

definition GetNamedProperty :: "butterfly \<Rightarrow> 32 word \<Rightarrow> tvalue" where
  "GetNamedProperty b ord = bf_named b ! bf_named_pos ord"

definition SetNamedProperty :: "butterfly \<Rightarrow> 32 word \<Rightarrow> tvalue \<Rightarrow> butterfly" where
  "SetNamedProperty b ord v = b\<lparr>bf_named := (bf_named b)[bf_named_pos ord := v]\<rparr>"

section \<open>The one-branch range tests\<close>

lemma fast_path_index_iff:
  assumes "bh_IsContinuous h"
  shows "CanUseFastPathGetForContinuousArray h idx \<longleftrightarrow>
    x_arrayBaseOrd \<le> sint idx \<and> sint idx < sint (m_arrayLengthIfContinuous h) + x_arrayBaseOrd"
proof -
  let ?n = "m_arrayLengthIfContinuous h"
  have n: "uint (scast ?n :: 64 word) = sint ?n"
    using assms by (intro uint_scast_u32) (simp add: bh_IsContinuous_def)
  with sint_lt[of ?n] have "uint (scast ?n :: 64 word) < 2 ^ 62" by simp
  from unsigned_range_test[OF this, of idx] n show ?thesis
    by (simp add: CanUseFastPathGetForContinuousArray_def x_arrayBaseOrd_def)
qed

text \<open>
  The unsigned comparison of \<^verbatim>\<open>CanUseFastPathGetForContinuousArray\<close> decides whether a signed 64-bit
  index lies in the range of a continuous array, for every index, the ones that underflow included.
\<close>

theorem CanUseFastPathGetForContinuousArray_iff:
  assumes "bh_IsContinuous h"
  shows "CanUseFastPathGetForContinuousArray h idx \<longleftrightarrow>
    x_arrayBaseOrd \<le> sint idx \<and> sint idx < sint (m_arrayLengthIfContinuous h) + x_arrayBaseOrd"
  using assms by (rule fast_path_index_iff)

theorem CanUseFastPathGetForContinuousArray_iff_witness:
  "\<not> CanUseFastPathGetForContinuousArray \<lparr>m_arrayLengthIfContinuous = 3, m_arrayStorageCapacity = 4\<rparr> (- 1)"
  by (subst CanUseFastPathGetForContinuousArray_iff) (simp_all add: bh_IsContinuous_def x_arrayBaseOrd_def)

lemma IndexFitsInVectorCapacity_iff:
  "IndexFitsInVectorCapacity h idx \<longleftrightarrow>
    x_arrayBaseOrd \<le> sint idx \<and> sint idx < uint (m_arrayStorageCapacity h) + x_arrayBaseOrd"
proof -
  let ?n = "m_arrayStorageCapacity h"
  have n: "uint (ucast ?n :: 64 word) = uint ?n"
    by (simp add: uint_up_ucast is_up)
  with uint_lt2p[of ?n] have "uint (ucast ?n :: 64 word) < 2 ^ 62" by simp
  from unsigned_range_test[OF this, of idx] n show ?thesis
    by (simp add: IndexFitsInVectorCapacity_def x_arrayBaseOrd_def)
qed

lemma GetOutlineStorageIndex_sint:
  assumes "unat inlineCapacity \<le> unat slot" "unat slot < 2 ^ 31"
  shows "sint (GetOutlineStorageIndex slot inlineCapacity) = int (unat inlineCapacity) - int (unat slot) - 1"
proof -
  define k where "k = int (unat inlineCapacity) - int (unat slot) - 1"
  have "GetOutlineStorageIndex slot inlineCapacity = word_of_int k"
    by (simp add: GetOutlineStorageIndex_def x_arrayBaseOrd_def k_def)
  moreover have "- (2 ^ 31) \<le> int a - int b - 1 \<and> int a - int b - 1 < 2 ^ 31" if "a \<le> b" "b < 2 ^ 31" for a b :: nat
    using that by simp
  then have "- (2 ^ 31) \<le> k \<and> k < 2 ^ 31" unfolding k_def using assms by blast
  ultimately have "sint (GetOutlineStorageIndex slot inlineCapacity) = k" by (simp add: sint_word_of_int_range)
  then show ?thesis by (simp only: k_def)
qed

end
