(* ===== verification/Dictionary.thy ===== *)
theory Dictionary
  imports StructIter Butterfly
begin

unbundle bit_operations_syntax

text \<open>
  \<^verbatim>\<open>CacheableDictionary\<close> of \<^verbatim>\<open>runtime/structure.h\<close>: the hidden class of an object that outgrew its structure. The
  dictionary owns an open-addressing hash table from keys to slot ordinals with linear probing; it is never more than
  half full and doubles when it would be. The invariant \<open>wf_dict\<close> says which list of keys (in slot order) the table represents;
  the operations are shown against that list, and \<^verbatim>\<open>CreateFromStructure\<close> against the list of keys of the structure it
  replaces.
\<close>

section \<open>Data and operations\<close>

record dict_entry =
  de_key :: gkey
  de_slot :: nat

record dictionary =
  d_shouldNeverTransitToUncacheableDictionary :: bool
  d_inlineNamedStorageCapacity :: nat
  d_butterflyNamedStorageCapacity :: nat
  d_hashTableMask :: nat
  d_slotCount :: nat
  d_hashTable :: "dict_entry list"
  d_metatable :: int

definition sizeof_CacheableDictionary :: nat where "sizeof_CacheableDictionary = 32"

definition d_zeroed :: "nat \<Rightarrow> dict_entry list" where
  "d_zeroed n = replicate n \<lparr>de_key = 0, de_slot = 0\<rparr>"

definition CreateEmptyDictionary ::
  "sheap \<Rightarrow> nat \<Rightarrow> nat \<Rightarrow> bool \<Rightarrow> (sheap \<times> sys_ptr \<times> dictionary) option" where
  "CreateEmptyDictionary sh anticipatedNumSlots inlineCapacity shouldNeverTransitToUncacheableDictionary =
     (case AllocFromSystemHeap sh sizeof_CacheableDictionary of None \<Rightarrow> None
      | Some (sh, r) \<Rightarrow>
        (let hashTableMask = unat (RoundUpToPowerOfTwo (of_nat anticipatedNumSlots) * 2 - 1);
             hashTableMask = max hashTableMask 127
         in Some (sh, r,
           \<lparr>d_shouldNeverTransitToUncacheableDictionary = shouldNeverTransitToUncacheableDictionary,
            d_inlineNamedStorageCapacity = inlineCapacity,
            d_butterflyNamedStorageCapacity = 0,
            d_hashTableMask = hashTableMask,
            d_slotCount = 0,
            d_hashTable = d_zeroed (hashTableMask + 1),
            d_metatable = 0\<rparr>)))"

text \<open>
  \<^verbatim>\<open>RelocateForAddingOrRemovingMetatable\<close> moves the dictionary to a new address; the old one loses its hash table
  and the caller fills in the metatable. \<^verbatim>\<open>Clone\<close> copies everything.
\<close>

definition RelocateForAddingOrRemovingMetatable ::
  "sheap \<Rightarrow> dictionary \<Rightarrow> int \<Rightarrow> (sheap \<times> sys_ptr \<times> dictionary \<times> dictionary) option" where
  "RelocateForAddingOrRemovingMetatable sh self metatable =
     (case AllocFromSystemHeap sh sizeof_CacheableDictionary of None \<Rightarrow> None
      | Some (sh, r) \<Rightarrow> Some (sh, r, self\<lparr>d_metatable := metatable\<rparr>, self\<lparr>d_hashTable := []\<rparr>))"

definition d_Clone :: "sheap \<Rightarrow> dictionary \<Rightarrow> (sheap \<times> sys_ptr \<times> dictionary) option" where
  "d_Clone sh self =
     (case AllocFromSystemHeap sh sizeof_CacheableDictionary of None \<Rightarrow> None
      | Some (sh, r) \<Rightarrow> Some (sh, r, self\<lparr>d_hashTable := take (d_hashTableMask self + 1) (d_hashTable self)\<rparr>))"

definition GetInitOrNextButterflyCapacity :: "dictionary \<Rightarrow> nat option" where
  "GetInitOrNextButterflyCapacity self =
     (if d_butterflyNamedStorageCapacity self = 0
      then Some (ComputeInitialButterflyCapacityForDictionary (d_inlineNamedStorageCapacity self))
      else ComputeNextButterflyCapacityForDictionaryOrFail (nat x_maxNamedStorageCapacity) (d_butterflyNamedStorageCapacity self))"

definition dhash :: "vm_env \<Rightarrow> gkey \<Rightarrow> nat" where
  "dhash env k = unat (GetHashValueForMaybeNonStringKey env k)"

definition de_key_of :: "dict_entry \<Rightarrow> gkey option" where
  "de_key_of e = (if de_key e \<noteq> 0 then Some (de_key e) else None)"

definition InsertNonExistentPropertyForInitOrResize ::
  "nat \<Rightarrow> gkey \<Rightarrow> nat \<Rightarrow> nat \<Rightarrow> dict_entry list \<Rightarrow> dict_entry list option" where
  "InsertNonExistentPropertyForInitOrResize htMask prop propHash slotOrdinal ht =
     tbl_put de_key_of (fwd_step htMask) ht (propHash AND htMask) \<lparr>de_key = prop, de_slot = slotOrdinal\<rparr>"

text \<open>\<^verbatim>\<open>ReleaseAssert(newMask < std::numeric_limits<uint32_t>::max())\<close> is the result \<open>None\<close>.\<close>

definition ResizeImpl :: "vm_env \<Rightarrow> dictionary \<Rightarrow> dictionary option" where
  "ResizeImpl env self =
     (let newMask = d_hashTableMask self * 2 + 1 in
      if newMask \<ge> 2 ^ 32 - 1 then None
      else case fold_opt (\<lambda>curEntry. InsertNonExistentPropertyForInitOrResize newMask (de_key curEntry)
               (dhash env (de_key curEntry)) (de_slot curEntry))
             (filter (\<lambda>e. de_key e \<noteq> 0) (take (d_hashTableMask self + 1) (d_hashTable self))) (d_zeroed (newMask + 1)) of
        None \<Rightarrow> None
      | Some ht \<Rightarrow> Some (self\<lparr>d_hashTableMask := newMask, d_hashTable := ht\<rparr>))"

definition ResizeIfNeeded :: "vm_env \<Rightarrow> dictionary \<Rightarrow> (dictionary \<times> bool) option" where
  "ResizeIfNeeded env self =
     (if d_slotCount self * 2 < d_hashTableMask self then Some (self, False)
      else map_option (\<lambda>d. (d, True)) (ResizeImpl env self))"

text \<open>The outcome of a query: the slot of the hash table to insert at, or the slot ordinal of the property.\<close>

definition d_GetSlotOrdinalFromPropertyImpl :: "dictionary \<Rightarrow> gkey \<Rightarrow> nat \<Rightarrow> (nat + nat) option" where
  "d_GetSlotOrdinalFromPropertyImpl self prop propHash =
     (let hashMask = d_hashTableMask self in
      probe (\<lambda>slot. let e = d_hashTable self ! slot in
              if de_key e = 0 then Some (Inl slot)
              else if de_key e = prop then Some (Inr (de_slot e))
              else None)
        (fwd_step hashMask) (hashMask + 1) (propHash AND hashMask))"

definition GetHashTableSlotNumberForProperty :: "vm_env \<Rightarrow> dictionary \<Rightarrow> gkey \<Rightarrow> nat option option" where
  "GetHashTableSlotNumberForProperty env self prop =
     (let hashMask = d_hashTableMask self in
      probe (\<lambda>slot. let e = d_hashTable self ! slot in
              if de_key e = 0 then Some None
              else if de_key e = prop then Some (Some slot)
              else None)
        (fwd_step hashMask) (hashMask + 1) (dhash env prop AND hashMask))"

definition d_GetSlotOrdinalFromMaybeNonStringProperty :: "vm_env \<Rightarrow> dictionary \<Rightarrow> gkey \<Rightarrow> nat option option" where
  "d_GetSlotOrdinalFromMaybeNonStringProperty env self prop =
     map_option (case_sum (\<lambda>_. None) Some) (d_GetSlotOrdinalFromPropertyImpl self prop (dhash env prop))"

definition d_GetSlotOrdinalFromStringProperty :: "vm_env \<Rightarrow> dictionary \<Rightarrow> gkey \<Rightarrow> nat option option" where
  "d_GetSlotOrdinalFromStringProperty env self prop =
     map_option (case_sum (\<lambda>_. None) Some)
       (d_GetSlotOrdinalFromPropertyImpl self prop (unat (GetHashValueForStringKey env prop)))"

record PutByIdResult =
  pb_slot :: nat
  pb_newButterflyCapacity :: nat
  pb_shouldGrowButterfly :: bool
  pb_shouldCheckForTransitionToUncacheableDictionary :: bool

definition PreparePutPropertyImpl ::
  "vm_env \<Rightarrow> dictionary \<Rightarrow> gkey \<Rightarrow> nat \<Rightarrow> (dictionary \<times> PutByIdResult) option" where
  "PreparePutPropertyImpl env self prop propHash =
     (case d_GetSlotOrdinalFromPropertyImpl self prop propHash of
        None \<Rightarrow> None
      | Some (Inr slot) \<Rightarrow>
          Some (self, \<lparr>pb_slot = slot, pb_newButterflyCapacity = 0, pb_shouldGrowButterfly = False,
                       pb_shouldCheckForTransitionToUncacheableDictionary = False\<rparr>)
      | Some (Inl slotForInsertion) \<Rightarrow>
          (let slot = d_slotCount self;
               shouldGrow = (d_slotCount self = d_inlineNamedStorageCapacity self + d_butterflyNamedStorageCapacity self)
           in case (if shouldGrow then GetInitOrNextButterflyCapacity self else Some 0) of None \<Rightarrow> None
           | Some newCapacity \<Rightarrow>
             (case ResizeIfNeeded env
                (self\<lparr>d_hashTable := (d_hashTable self)[slotForInsertion := \<lparr>de_key = prop, de_slot = slot\<rparr>],
                      d_slotCount := d_slotCount self + 1\<rparr>) of None \<Rightarrow> None
              | Some (self, resized) \<Rightarrow>
                  Some (self, \<lparr>pb_slot = slot, pb_newButterflyCapacity = newCapacity, pb_shouldGrowButterfly = shouldGrow,
                               pb_shouldCheckForTransitionToUncacheableDictionary = resized\<rparr>))))"

definition PreparePutByMaybeNonStringKey :: "vm_env \<Rightarrow> dictionary \<Rightarrow> gkey \<Rightarrow> (dictionary \<times> PutByIdResult) option" where
  "PreparePutByMaybeNonStringKey env self prop = PreparePutPropertyImpl env self prop (dhash env prop)"

definition PreparePutById :: "vm_env \<Rightarrow> dictionary \<Rightarrow> gkey \<Rightarrow> (dictionary \<times> PutByIdResult) option" where
  "PreparePutById env self prop = PreparePutPropertyImpl env self prop (unat (GetHashValueForStringKey env prop))"

record CreateFromStructureResult =
  cf_dictionary :: sys_ptr
  cf_slot :: nat
  cf_shouldGrowButterfly :: bool

text \<open>
  \<open>polyMetatable\<close> stands for \<^verbatim>\<open>GetPolyMetatableFromObjectWithStructureHiddenClass\<close> on the object: what it stores in the
  given slot.
\<close>

definition CreateFromStructure ::
  "vm_env \<Rightarrow> sheap \<Rightarrow> (nat \<Rightarrow> int) \<Rightarrow> sys_ptr \<Rightarrow> gkey \<Rightarrow> (sheap \<times> dictionary \<times> CreateFromStructureResult) option" where
  "CreateFromStructure env sh polyMetatable structurep newProp =
     (let structure = struct_at sh structurep;
          neededSlots = m_numSlots structure + 1 - of_bool (IsPolyMetatable structure)
      in case CreateEmptyDictionary sh neededSlots (m_inlineNamedStorageCapacity structure) False of None \<Rightarrow> None
      | Some (sh, rp, r) \<Rightarrow>
        (let r = r\<lparr>d_butterflyNamedStorageCapacity := m_butterflyNamedStorageCapacity structure,
                   d_metatable := (if IsPolyMetatable structure then polyMetatable (GetPolyMetatableSlot structure)
                     else m_metatable structure)\<rparr>;
             grow = (\<not> IsPolyMetatable structure \<and>
               m_inlineNamedStorageCapacity structure + m_butterflyNamedStorageCapacity structure = m_numSlots structure);
             slot = (if IsPolyMetatable structure then GetPolyMetatableSlot structure else m_numSlots structure)
         in case (if grow then GetInitOrNextButterflyCapacity r else Some (d_butterflyNamedStorageCapacity r)) of None \<Rightarrow> None
         | Some capacity \<Rightarrow>
           (case fold_opt (\<lambda>(key, keySlot). InsertNonExistentPropertyForInitOrResize (d_hashTableMask r) key (dhash env key) keySlot)
                  (filter (\<lambda>(key, keySlot). key \<noteq> env_specialKey env) (it_visit sh (StructureIterator sh structurep)))
                  (d_hashTable r) of None \<Rightarrow> None
            | Some ht \<Rightarrow>
              (case InsertNonExistentPropertyForInitOrResize (d_hashTableMask r) newProp (dhash env newProp) slot ht of None \<Rightarrow> None
               | Some ht \<Rightarrow>
                 Some (sh, r\<lparr>d_butterflyNamedStorageCapacity := capacity, d_hashTable := ht, d_slotCount := neededSlots\<rparr>,
                   \<lparr>cf_dictionary = rp, cf_slot = slot, cf_shouldGrowButterfly = grow\<rparr>)))))"

section \<open>The hash table implements the slot index\<close>

text \<open>A dictionary represents a list of keys: the key at position \<open>i\<close> has slot \<open>i\<close>.\<close>

definition dent :: "gkey list \<Rightarrow> nat \<Rightarrow> dict_entry" where
  "dent ks i = \<lparr>de_key = ks ! i, de_slot = i\<rparr>"

abbreviation dtbl :: "vm_env \<Rightarrow> nat \<Rightarrow> dict_entry list \<Rightarrow> dict_entry set \<Rightarrow> bool" where
  "dtbl env m \<equiv> tbl (2 ^ m) (fwd_start (dhash env) (2 ^ m - 1)) (fwd_step (2 ^ m - 1)) de_key_of"

definition dict_ok :: "vm_env \<Rightarrow> dictionary \<Rightarrow> nat \<Rightarrow> gkey list \<Rightarrow> bool" where
  "dict_ok env d m ks \<longleftrightarrow> d_hashTableMask d = 2 ^ m - 1 \<and> m < 32 \<and> distinct ks \<and> 0 \<notin> set ks \<and> d_slotCount d = length ks \<and>
     dtbl env m (d_hashTable d) (dent ks ` {..<length ks})"

definition wf_dict :: "vm_env \<Rightarrow> dictionary \<Rightarrow> gkey list \<Rightarrow> bool" where
  "wf_dict env d ks \<longleftrightarrow> (\<exists>m\<ge>7. dict_ok env d m ks \<and> 2 * length ks \<le> 2 ^ m)"

lemma card_dent: "card (dent ks ` {..<n}) = n"
  by (subst card_image) (auto simp: inj_on_def dent_def)

lemma dent_keys: "0 \<notin> set ks \<Longrightarrow> tbl_keys de_key_of (dent ks ` {..<length ks}) = set ks"
  by (auto simp: tbl_keys_def dent_def de_key_of_def in_set_conv_nth)

lemma dent_snoc: "dent (ks @ [k]) ` {..<Suc (length ks)} = insert \<lparr>de_key = k, de_slot = length ks\<rparr> (dent ks ` {..<length ks})"
  by (auto simp: dent_def lessThan_Suc nth_append image_iff)

lemma d_zeroed_tbl: "dtbl env m (d_zeroed (2 ^ m)) {}"
  unfolding d_zeroed_def by (rule tbl_empty) (simp add: de_key_of_def)

lemma dict_query:
  assumes ok: "dict_ok env d m ks" and room: "length ks < 2 ^ m" and key: "key \<noteq> 0"
  shows "case slot_index ks key of
      Some i \<Rightarrow> d_GetSlotOrdinalFromPropertyImpl d key (dhash env key) = Some (Inr i)
    | None \<Rightarrow> \<exists>p. d_GetSlotOrdinalFromPropertyImpl d key (dhash env key) = Some (Inl p) \<and>
        dtbl env m ((d_hashTable d)[p := \<lparr>de_key = key, de_slot = length ks\<rparr>]) (dent (ks @ [key]) ` {..<Suc (length ks)})"
proof -
  let ?E = "dent ks ` {..<length ks}"
  have m: "d_hashTableMask d = 2 ^ m - 1" "d_hashTableMask d + 1 = 2 ^ m" and d: "distinct ks" "0 \<notin> set ks"
    and T: "dtbl env m (d_hashTable d) ?E" using ok by (auto simp: dict_ok_def)
  have r: "card ?E < 2 ^ m" using room by (simp add: card_dent)
  let ?body = "\<lambda>slot. let e = d_hashTable d ! slot in
              if de_key e = 0 then Some (Inl slot) else if de_key e = key then Some (Inr (de_slot e)) else None"
  have F: "d_GetSlotOrdinalFromPropertyImpl d key (dhash env key) =
      probe ?body (fwd_step (2 ^ m - 1)) (2 ^ m) (fwd_start (dhash env) (2 ^ m - 1) key)"
    unfolding d_GetSlotOrdinalFromPropertyImpl_def Let_def m(2) by (simp only: m(1) fwd_start_def)
  have body: "de_key_of (d_hashTable d ! p) = None \<Longrightarrow> ?body p = Some (Inl p)"
    "de_key_of (d_hashTable d ! p) = Some key \<Longrightarrow> ?body p = Some (Inr (de_slot (d_hashTable d ! p)))"
    "de_key_of (d_hashTable d ! p) = Some k' \<Longrightarrow> k' \<noteq> key \<Longrightarrow> ?body p = None" for p k'
    by (auto simp: de_key_of_def Let_def split: if_splits)
  note find = fwd.tbl_find[OF T r, of ?body Inl key "\<lambda>p. Inr (de_slot (d_hashTable d ! p))"]
  show ?thesis
  proof (cases "slot_index ks key")
    case None
    then have "key \<notin> tbl_keys de_key_of ?E" using dent_keys[OF d(2)] by (simp add: slot_index_None)
    with find body obtain p where p: "d_GetSlotOrdinalFromPropertyImpl d key (dhash env key) = Some (Inl p)"
      "\<forall>e. de_key_of e = Some key \<longrightarrow> dtbl env m ((d_hashTable d)[p := e]) (insert e ?E)"
      unfolding F by auto
    from p(2)[rule_format, of "\<lparr>de_key = key, de_slot = length ks\<rparr>"] key
    have "dtbl env m ((d_hashTable d)[p := \<lparr>de_key = key, de_slot = length ks\<rparr>]) (dent (ks @ [key]) ` {..<Suc (length ks)})"
      unfolding dent_snoc by (simp add: de_key_of_def)
    then show ?thesis unfolding None option.case using p(1) by (intro exI[of _ p] conjI)
  next
    case (Some i)
    then have i: "i < length ks" "ks ! i = key" using slot_index_SomeD by auto
    then have "key \<in> tbl_keys de_key_of ?E" unfolding dent_keys[OF d(2)] using nth_mem by blast
    with find body obtain p where p: "d_hashTable d ! p \<in> ?E" "de_key_of (d_hashTable d ! p) = Some key"
      "d_GetSlotOrdinalFromPropertyImpl d key (dhash env key) = Some (Inr (de_slot (d_hashTable d ! p)))"
      unfolding F by auto
    then obtain j where "j < length ks" "ks ! j = key" "de_slot (d_hashTable d ! p) = j"
      by (auto simp: dent_def de_key_of_def split: if_splits)
    moreover from this have "j = i" using i d(1) nth_eq_iff_index_eq by metis
    ultimately show ?thesis using Some p(3) by simp
  qed
qed

lemma dict_lookup:
  assumes wf: "wf_dict env d ks" and key: "key \<noteq> 0"
  shows "d_GetSlotOrdinalFromMaybeNonStringProperty env d key = Some (slot_index ks key)"
proof -
  obtain m where m: "dict_ok env d m ks" "2 * length ks \<le> 2 ^ m" using wf by (auto simp: wf_dict_def)
  from dict_query[OF m(1) half_less[OF m(2)] key] show ?thesis
    by (auto simp: d_GetSlotOrdinalFromMaybeNonStringProperty_def split: option.splits)
qed

lemma insert_eq_put:
  "InsertNonExistentPropertyForInitOrResize (2 ^ m - 1) prop (dhash env prop) slot ht =
    tbl_put de_key_of (fwd_step (2 ^ m - 1)) ht (fwd_start (dhash env) (2 ^ m - 1) prop) \<lparr>de_key = prop, de_slot = slot\<rparr>"
  by (simp add: InsertNonExistentPropertyForInitOrResize_def fwd_start_def)

text \<open>Inserting a list of entries with distinct keys one after the other.\<close>

lemma insert_all:
  assumes T: "dtbl env m ht E" "finite E" and es: "distinct (map de_key es)" "\<And>e. e \<in> set es \<Longrightarrow> de_key e \<noteq> 0"
    "\<And>e. e \<in> set es \<Longrightarrow> de_key e \<notin> tbl_keys de_key_of E"
    and E: "\<And>e. e \<in> E \<Longrightarrow> de_key e \<noteq> 0" and room: "card E + length es \<le> 2 ^ m"
  shows "\<exists>ht'. fold_opt (\<lambda>e. InsertNonExistentPropertyForInitOrResize (2 ^ m - 1) (de_key e) (dhash env (de_key e)) (de_slot e)) es ht
      = Some ht' \<and> dtbl env m ht' (E \<union> set es)"
proof -
  have inj: "inj_on de_key (E \<union> set es)"
  proof (rule inj_onI)
    fix x y assume x: "x \<in> E \<union> set es" and y: "y \<in> E \<union> set es" and xy: "de_key x = de_key y"
    have in_keys: "de_key e \<in> tbl_keys de_key_of E" if "e \<in> E" for e using that E by (auto simp: tbl_keys_def de_key_of_def)
    consider "x \<in> E" "y \<in> E" | "x \<in> set es" "y \<in> set es" using x y xy es(3) in_keys by (metis UnE)
    then show "x = y"
    proof cases
      case 1
      then show ?thesis using tbl_unique[OF T(1)] xy E by (simp add: de_key_of_def)
    next
      case 2
      then show ?thesis using es(1) xy by (auto simp: distinct_map inj_on_def)
    qed
  qed
  have "\<exists>ht'. fold_opt (\<lambda>e. InsertNonExistentPropertyForInitOrResize (2 ^ m - 1) (de_key e) (dhash env (de_key e)) (de_slot e)) es ht
      = Some ht' \<and> dtbl env m ht' ((\<lambda>e. e) ` (E \<union> set es))"
  proof (rule fwd.fold_put_ok[where kf = de_key])
    show "distinct es" using es(1) by (simp add: distinct_map)
    show "E \<inter> set es = {}" using es(3) E by (auto simp: tbl_keys_def de_key_of_def)
    show "de_key_of e = Some (de_key e)" if "e \<in> E \<union> set es" for e using that es(2) E by (auto simp: de_key_of_def)
    show "InsertNonExistentPropertyForInitOrResize (2 ^ m - 1) (de_key e) (dhash env (de_key e)) (de_slot e) ys =
        tbl_put de_key_of (fwd_step (2 ^ m - 1)) ys (fwd_start (dhash env) (2 ^ m - 1) (de_key e)) e" for e ys
      unfolding insert_eq_put by (cases e) simp
  qed (use T inj room in simp_all)
  then show ?thesis by simp
qed

lemma ResizeImpl_correct:
  assumes ok: "dict_ok env d m ks" and room: "length ks \<le> 2 ^ m" and lim: "2 ^ (m + 1) < (2::nat) ^ 32"
  shows "\<exists>d'. ResizeImpl env d = Some d' \<and> dict_ok env d' (m + 1) ks \<and>
    d' = d\<lparr>d_hashTableMask := 2 ^ (m + 1) - 1, d_hashTable := d_hashTable d'\<rparr>"
proof -
  let ?E = "dent ks ` {..<length ks}" and ?es = "filter (\<lambda>e. de_key e \<noteq> 0) (d_hashTable d)"
  have m: "d_hashTableMask d = 2 ^ m - 1" "d_hashTableMask d + 1 = 2 ^ m" and d: "distinct ks" "0 \<notin> set ks"
    and T: "dtbl env m (d_hashTable d) ?E" using ok by (auto simp: dict_ok_def)
  have nm: "d_hashTableMask d * 2 + 1 = 2 ^ (m + 1) - 1" "d_hashTableMask d * 2 + 1 + 1 = 2 ^ (m + 1)"
    using m(2) power_Suc[of "2::nat" m] by (auto simp only: Suc_eq_plus1)
  have occ: "?es = filter (\<lambda>e. de_key_of e \<noteq> None) (d_hashTable d)" by (simp add: de_key_of_def)
  have len: "length ?es = length ks" using tbl_occupied(2)[OF T] by (simp add: occ card_dent)
  have dis: "distinct (map de_key ?es)"
  proof -
    have "map de_key_of ?es = map Some (map de_key ?es)" by (simp add: de_key_of_def)
    then show ?thesis using tbl_occupied(1)[OF T] unfolding occ[symmetric]
      by (auto simp: distinct_map inj_on_def de_key_of_def)
  qed
  have "\<exists>ht'. fold_opt (\<lambda>e. InsertNonExistentPropertyForInitOrResize (2 ^ (m + 1) - 1) (de_key e) (dhash env (de_key e)) (de_slot e))
      ?es (d_zeroed (2 ^ (m + 1))) = Some ht' \<and> dtbl env (m + 1) ht' ({} \<union> set ?es)"
  proof (rule insert_all[OF d_zeroed_tbl _ dis])
    show "card {} + length ?es \<le> 2 ^ (m + 1)" using len room by simp
  qed (auto simp: tbl_keys_def)
  moreover have "set ?es = ?E" using tbl_D(2)[OF T] by (auto simp: tbl_entries_def de_key_of_def)
  moreover have "take (2 ^ m) (d_hashTable d) = d_hashTable d" using tbl_D(1)[OF T] by simp
  ultimately obtain ht' where ht': "fold_opt (\<lambda>e. InsertNonExistentPropertyForInitOrResize (2 ^ (m + 1) - 1) (de_key e)
      (dhash env (de_key e)) (de_slot e)) (filter (\<lambda>e. de_key e \<noteq> 0) (take (2 ^ m) (d_hashTable d))) (d_zeroed (2 ^ (m + 1))) = Some ht'"
    "dtbl env (m + 1) ht' ?E" by auto
  have "ResizeImpl env d = Some (d\<lparr>d_hashTableMask := 2 ^ (m + 1) - 1, d_hashTable := ht'\<rparr>)"
    using lim ht'(1) unfolding ResizeImpl_def Let_def nm m(2) by simp
  moreover have "m + 1 < 32" using lim by (rule power_less_imp_less_exp[rotated]) simp
  then have "dict_ok env (d\<lparr>d_hashTableMask := 2 ^ (m + 1) - 1, d_hashTable := ht'\<rparr>) (m + 1) ks"
    using ok ht'(2) by (simp add: dict_ok_def)
  ultimately show ?thesis by auto
qed

lemma wf_dictD:
  assumes "wf_dict env d ks"
  shows "distinct ks" "0 \<notin> set ks" "d_slotCount d = length ks"
  using assms by (auto simp: wf_dict_def dict_ok_def)

lemma ResizeIfNeeded_correct:
  assumes ok: "dict_ok env d m ks" and m: "7 \<le> m" "length ks \<le> 2 ^ m"
  shows "case ResizeIfNeeded env d of
      None \<Rightarrow> d_hashTableMask d \<le> 2 * length ks \<and> 2 ^ 32 \<le> d_hashTableMask d * 2 + 2
    | Some (d', b) \<Rightarrow> \<not> (d_hashTableMask d \<le> 2 * length ks \<and> 2 ^ 32 \<le> d_hashTableMask d * 2 + 2) \<and> wf_dict env d' ks \<and>
        d' = d\<lparr>d_hashTableMask := d_hashTableMask d', d_hashTable := d_hashTable d'\<rparr>"
proof (cases "d_slotCount d * 2 < d_hashTableMask d")
  case True
  have "2 * length ks \<le> 2 ^ m" "d_slotCount d = length ks" using True ok by (auto simp: dict_ok_def)
  with True ok m(1) show ?thesis by (auto simp: ResizeIfNeeded_def wf_dict_def)
next
  case False
  have sc: "d_slotCount d = length ks" using ok by (simp add: dict_ok_def)
  have "d_hashTableMask d + 1 = 2 ^ m" using ok by (simp add: dict_ok_def)
  then have p: "2 ^ (m + 1) = d_hashTableMask d * 2 + 2" by simp
  show ?thesis
  proof (cases "d_hashTableMask d * 2 + 2 < 2 ^ 32")
    case True
    then have "2 ^ (m + 1) < (2::nat) ^ 32" by (simp only: p)
    then obtain d' where d': "ResizeImpl env d = Some d'" "dict_ok env d' (m + 1) ks"
        "d' = d\<lparr>d_hashTableMask := 2 ^ (m + 1) - 1, d_hashTable := d_hashTable d'\<rparr>"
      using ResizeImpl_correct[OF ok m(2)] by blast
    have "wf_dict env d' ks" unfolding wf_dict_def using d'(2) m by (intro exI[of _ "m + 1"]) auto
    moreover have "d' = d\<lparr>d_hashTableMask := d_hashTableMask d', d_hashTable := d_hashTable d'\<rparr>"
      using d'(3) by (metis dictionary.ext_inject dictionary.surjective dictionary.update_convs(4,6))
    ultimately show ?thesis using False d'(1) True by (auto simp: ResizeIfNeeded_def)
  next
    case lim: False
    then have "ResizeImpl env d = None" by (simp add: ResizeImpl_def)
    with False lim sc show ?thesis by (simp add: ResizeIfNeeded_def)
  qed
qed

lemma next_capacity:
  assumes "d_inlineNamedStorageCapacity d \<le> 255"
  shows "case GetInitOrNextButterflyCapacity d of
      None \<Rightarrow> 250000000 \<le> d_butterflyNamedStorageCapacity d
    | Some c \<Rightarrow> d_butterflyNamedStorageCapacity d < c \<and> c \<le> 250000000"
  using assms
  by (auto simp: GetInitOrNextButterflyCapacity_def ComputeInitialButterflyCapacityForDictionary_def
      ComputeNextButterflyCapacityForDictionaryOrFail_def ComputeNextButterflyCapacityImpl_def x_maxNamedStorageCapacity_def
      x_butterflyCapacityFromInlineCapacityFactor_def x_initialMinimumButterflyCapacity_def
      x_butterflyNamedStorageCapacityGrowthFactor_def Let_def)

lemma PreparePut_found:
  assumes wf: "wf_dict env d ks" and i: "slot_index ks key = Some i" and key: "key \<noteq> 0"
  shows "PreparePutByMaybeNonStringKey env d key = Some (d, \<lparr>pb_slot = i, pb_newButterflyCapacity = 0,
    pb_shouldGrowButterfly = False, pb_shouldCheckForTransitionToUncacheableDictionary = False\<rparr>)"
proof -
  obtain m where m: "dict_ok env d m ks" "2 * length ks \<le> 2 ^ m" using wf by (auto simp: wf_dict_def)
  from dict_query[OF m(1) half_less[OF m(2)] key] i show ?thesis
    by (simp add: PreparePutByMaybeNonStringKey_def PreparePutPropertyImpl_def)
qed

text \<open>
  The limits of a dictionary: the VM aborts when the named storage is full at its maximal capacity or the hash table would
  need more than $2^{31}$ entries.
\<close>

definition dict_full :: "dictionary \<Rightarrow> bool" where
  "dict_full d \<longleftrightarrow> d_slotCount d = d_inlineNamedStorageCapacity d + d_butterflyNamedStorageCapacity d"

definition dict_room :: "dictionary \<Rightarrow> bool" where
  "dict_room d \<longleftrightarrow> (dict_full d \<longrightarrow> d_butterflyNamedStorageCapacity d < 250000000) \<and>
     (d_hashTableMask d \<le> 2 * (d_slotCount d + 1) \<longrightarrow> d_hashTableMask d * 2 + 2 < 2 ^ 32)"

definition put_new_ok :: "vm_env \<Rightarrow> dictionary \<Rightarrow> gkey list \<Rightarrow> gkey \<Rightarrow> dictionary \<Rightarrow> PutByIdResult \<Rightarrow> bool" where
  "put_new_ok env d ks key d' r \<longleftrightarrow> pb_slot r = length ks \<and> pb_shouldGrowButterfly r = dict_full d \<and>
     (dict_full d \<longrightarrow> d_butterflyNamedStorageCapacity d < pb_newButterflyCapacity r \<and> pb_newButterflyCapacity r \<le> 250000000) \<and>
     wf_dict env d' (ks @ [key]) \<and> d_metatable d' = d_metatable d \<and>
     d_inlineNamedStorageCapacity d' = d_inlineNamedStorageCapacity d \<and>
     d_butterflyNamedStorageCapacity d' = d_butterflyNamedStorageCapacity d"

lemma PreparePut_new:
  assumes wf: "wf_dict env d ks" and new: "key \<notin> set ks" "key \<noteq> 0" and cap: "d_inlineNamedStorageCapacity d \<le> 255"
  shows "case PreparePutByMaybeNonStringKey env d key of
      None \<Rightarrow> \<not> dict_room d
    | Some (d', r) \<Rightarrow> dict_room d \<and> put_new_ok env d ks key d' r"
proof -
  obtain m where m: "7 \<le> m" "dict_ok env d m ks" "2 * length ks \<le> 2 ^ m" using wf by (auto simp: wf_dict_def)
  have none: "slot_index ks key = None" using new by (simp add: slot_index_None)
  obtain p where p: "d_GetSlotOrdinalFromPropertyImpl d key (dhash env key) = Some (Inl p)"
    "dtbl env m ((d_hashTable d)[p := \<lparr>de_key = key, de_slot = length ks\<rparr>]) (dent (ks @ [key]) ` {..<Suc (length ks)})"
    using dict_query[OF m(2) half_less[OF m(3)] new(2)] unfolding none option.case by blast
  define d1 where "d1 = d\<lparr>d_hashTable := (d_hashTable d)[p := \<lparr>de_key = key, de_slot = length ks\<rparr>], d_slotCount := length ks + 1\<rparr>"
  have sc: "d_slotCount d = length ks" using wf_dictD(3)[OF wf] .
  have ok1: "dict_ok env d1 m (ks @ [key])" using m(2) p(2) new by (auto simp: dict_ok_def d1_def)
  have "(2::nat) ^ 1 \<le> 2 ^ m" using m(1) by (intro power_increasing) auto
  then have "length (ks @ [key]) \<le> 2 ^ m" using m(3) by simp
  note R = ResizeIfNeeded_correct[OF ok1 m(1) this]
  note C = next_capacity[OF cap]
  have P: "PreparePutByMaybeNonStringKey env d key =
      (case (if dict_full d then GetInitOrNextButterflyCapacity d else Some 0) of None \<Rightarrow> None
       | Some c \<Rightarrow> case ResizeIfNeeded env d1 of None \<Rightarrow> None
         | Some (d', b) \<Rightarrow> Some (d', \<lparr>pb_slot = length ks, pb_newButterflyCapacity = c, pb_shouldGrowButterfly = dict_full d,
             pb_shouldCheckForTransitionToUncacheableDictionary = b\<rparr>))"
    unfolding PreparePutByMaybeNonStringKey_def PreparePutPropertyImpl_def p(1) option.case sum.case Let_def dict_full_def sc d1_def
    by (rule refl)
  show ?thesis
  proof (cases "if dict_full d then GetInitOrNextButterflyCapacity d else Some 0")
    case None
    then show ?thesis unfolding P using C by (auto simp: dict_room_def split: if_splits)
  next
    case (Some c)
    then have c: "dict_full d \<longrightarrow> d_butterflyNamedStorageCapacity d < c \<and> c \<le> 250000000" using C by auto
    show ?thesis
    proof (cases "ResizeIfNeeded env d1")
      case None
      with R have "\<not> dict_room d" by (simp add: dict_room_def d1_def sc)
      then show ?thesis unfolding P Some option.case None by simp
    next
      case r: (Some x)
      then obtain d' b where x: "ResizeIfNeeded env d1 = Some (d', b)" by (cases x) auto
      have "dict_room d" using R c unfolding x by (auto simp: dict_room_def d1_def sc)
      moreover have d': "wf_dict env d' (ks @ [key])" "d' = d1\<lparr>d_hashTableMask := d_hashTableMask d', d_hashTable := d_hashTable d'\<rparr>"
        using R unfolding x by auto
      moreover have "d_metatable d' = d_metatable d" "d_inlineNamedStorageCapacity d' = d_inlineNamedStorageCapacity d"
        "d_butterflyNamedStorageCapacity d' = d_butterflyNamedStorageCapacity d"
        by (subst d'(2), simp add: d1_def)+
      ultimately show ?thesis using c unfolding P Some option.case x by (simp add: put_new_ok_def)
    qed
  qed
qed

lemma dict_mask_size:
  assumes "0 < n" "n \<le> 2 ^ 30"
  shows "\<exists>m\<ge>7. m < 32 \<and> max (unat (RoundUpToPowerOfTwo (of_nat n) * 2 - 1)) 127 = 2 ^ m - 1 \<and> 2 * n \<le> 2 ^ m"
proof -
  have u: "unat (of_nat n :: u32) = n" using assms(2) by (simp add: unat_of_nat take_bit_nat_eq_self)
  obtain k where k: "unat (RoundUpToPowerOfTwo (of_nat n)) = 2 ^ k" "n \<le> 2 ^ k" "2 ^ k < 2 * n"
    using RoundUpToPowerOfTwo_correct[of "of_nat n"] assms unfolding u by auto
  have lt: "(2::nat) ^ k < 2 ^ 31" using k(3) assms(2) by simp
  then have k31: "k < 31" by (rule power_less_imp_less_exp[rotated]) simp
  define r where "r = RoundUpToPowerOfTwo (of_nat n)"
  have r2: "unat (r * 2) = 2 ^ Suc k" using k(1) lt by (simp add: r_def unat_word_ariths)
  then have "unat (r * 2 - 1) = 2 ^ Suc k - 1" by (subst unat_minus_one) auto
  then have e: "unat (RoundUpToPowerOfTwo (of_nat n) * 2 - 1) = 2 ^ Suc k - 1" by (simp add: r_def)
  show ?thesis
  proof (cases "Suc k \<le> 7")
    case True
    then have "(2::nat) ^ Suc k \<le> 2 ^ 7" by (intro power_increasing) auto
    then show ?thesis using e k(2) by (intro exI[of _ 7]) auto
  next
    case False
    then have "(2::nat) ^ 7 \<le> 2 ^ Suc k" by (intro power_increasing) auto
    then show ?thesis using e k(2) False k31 by (intro exI[of _ "Suc k"]) auto
  qed
qed

lemma CreateEmptyDictionary_correct:
  assumes n: "0 < n" "n \<le> 2 ^ 30" and room: "sh_next sh + 32 < 2 ^ 32"
  shows "\<exists>d m. CreateEmptyDictionary sh n cap flag = Some (sh\<lparr>sh_next := sh_next sh + 32\<rparr>, sh_next sh, d) \<and>
    dict_ok env d m [] \<and> 7 \<le> m \<and> 2 * n \<le> 2 ^ m \<and> d_inlineNamedStorageCapacity d = cap \<and> d_butterflyNamedStorageCapacity d = 0 \<and> d_metatable d = 0"
proof -
  obtain m where m: "7 \<le> m" "m < 32" "max (unat (RoundUpToPowerOfTwo (of_nat n) * 2 - 1)) 127 = 2 ^ m - 1" "2 * n \<le> 2 ^ m"
    using dict_mask_size[OF n] by blast
  have "2 ^ m - 1 + 1 = (2::nat) ^ m" by simp
  then show ?thesis using m(1,2,4) room d_zeroed_tbl[of m env]
    unfolding CreateEmptyDictionary_def Let_def m(3)
    by (intro exI) (auto simp: AllocFromSystemHeap_def sizeof_CacheableDictionary_def dict_ok_def)
qed

text \<open>The keys of the dictionary made from a structure: the new property takes over the slot of the metatable, if there is one.\<close>

definition dict_keys_from :: "struct \<Rightarrow> gkey list \<Rightarrow> gkey \<Rightarrow> gkey list" where
  "dict_keys_from s ks newProp = (if IsPolyMetatable s then ks[GetPolyMetatableSlot s := newProp] else ks @ [newProp])"

definition visited_entries :: "gkey \<Rightarrow> gkey list \<Rightarrow> dict_entry list" where
  "visited_entries sp ks = map (\<lambda>(k, i). \<lparr>de_key = k, de_slot = i\<rparr>) (filter (\<lambda>(k, i). k \<noteq> sp) (zip ks [0..<length ks]))"

lemma set_visited: "set (visited_entries sp ks) = dent ks ` {i. i < length ks \<and> ks ! i \<noteq> sp}"
  unfolding visited_entries_def by (fastforce simp: set_zip dent_def image_iff)

lemma visited_keys: "map de_key (visited_entries sp ks) = filter (\<lambda>k. k \<noteq> sp) ks"
proof -
  have "map fst (filter (\<lambda>(k, i). k \<noteq> sp) (zip ks is)) = filter (\<lambda>k. k \<noteq> sp) ks" if "length is = length ks" for "is" :: "nat list"
    using that by (induction ks "is" rule: list_induct2') auto
  from this[of "[0..<length ks]"] show ?thesis
    unfolding visited_entries_def by (simp add: comp_def case_prod_beta')
qed

lemma entries_from:
  assumes "distinct ks" "env_specialKey env \<in> set ks \<longleftrightarrow> IsPolyMetatable s"
    "IsPolyMetatable s \<Longrightarrow> slot_index ks (env_specialKey env) = Some (GetPolyMetatableSlot s)"
  defines "slot \<equiv> (if IsPolyMetatable s then GetPolyMetatableSlot s else length ks)"
  shows "insert \<lparr>de_key = newProp, de_slot = slot\<rparr> (set (visited_entries (env_specialKey env) ks)) =
    dent (dict_keys_from s ks newProp) ` {..<length (dict_keys_from s ks newProp)}"
proof (cases "IsPolyMetatable s")
  case False
  then have "{i. i < length ks \<and> ks ! i \<noteq> env_specialKey env} = {..<length ks}" using assms(2) nth_mem by fastforce
  then show ?thesis using False dent_snoc[of ks newProp] by (simp add: set_visited dict_keys_from_def slot_def)
next
  case True
  let ?p = "GetPolyMetatableSlot s"
  have p: "?p < length ks" "ks ! ?p = env_specialKey env" using slot_index_SomeD[OF assms(3)[OF True]] by auto
  have "{i. i < length ks \<and> ks ! i \<noteq> env_specialKey env} = {..<length ks} - {?p}"
    using p assms(1) nth_eq_iff_index_eq by fastforce
  moreover have "dent (ks[?p := newProp]) ` {..<length ks} = insert (dent (ks[?p := newProp]) ?p) (dent (ks[?p := newProp]) ` ({..<length ks} - {?p}))"
    using p(1) by (metis image_insert insert_Diff lessThan_iff)
  moreover have "dent (ks[?p := newProp]) ` ({..<length ks} - {?p}) = dent ks ` ({..<length ks} - {?p})"
    by (intro image_cong) (auto simp: dent_def)
  ultimately show ?thesis using True p(1) by (simp add: set_visited dict_keys_from_def slot_def dent_def)
qed

lemma CreateFromStructure_correct:
  assumes W: "wf_theap env sh K C" and a: "sh_structs sh a = Some s"
    and new: "newProp \<notin> set (K a)" "newProp < 0" "newProp \<noteq> env_specialKey env" and room: "sh_next sh + 32 < 2 ^ 32"
  shows "\<exists>d. CreateFromStructure env sh polyMetatable a newProp = Some (sh\<lparr>sh_next := sh_next sh + 32\<rparr>, d,
      \<lparr>cf_dictionary = sh_next sh,
       cf_slot = (if IsPolyMetatable s then GetPolyMetatableSlot s else length (K a)),
       cf_shouldGrowButterfly = (d_butterflyNamedStorageCapacity d \<noteq> m_butterflyNamedStorageCapacity s)\<rparr>) \<and>
    wf_dict env d (dict_keys_from s (K a) newProp) \<and>
    length (dict_keys_from s (K a) newProp) \<le> d_inlineNamedStorageCapacity d + d_butterflyNamedStorageCapacity d \<and>
    d_inlineNamedStorageCapacity d = m_inlineNamedStorageCapacity s \<and> d_butterflyNamedStorageCapacity d \<le> 250000000 \<and>
    d_metatable d = (if IsPolyMetatable s then polyMetatable (GetPolyMetatableSlot s) else m_metatable s)"
proof -
  define ks where "ks = K a"
  let ?sp = "env_specialKey env" and ?ks' = "dict_keys_from s ks newProp"
  define sh' where "sh' = sh\<lparr>sh_next := sh_next sh + 32\<rparr>"
  have sem: "sem_ok env ks s" using wf_theapD(2)[OF W a] by (simp add: ks_def)
  have wsh: "wf_sheap env sh K" using wf_theapD(1)[OF W a] .
  have wf: "wf_struct env sh K ks s" using wf_sheapD(3)[OF wsh a] by (simp add: ks_def)
  have dis: "distinct ks" and len: "length ks \<le> 254" and num: "m_numSlots s = length ks" using wf_structD(1-3)[OF wf] by blast+
  have sp: "?sp \<in> set ks \<longleftrightarrow> IsPolyMetatable s" using sem by (simp add: sem_ok_def IsPolyMetatable_def)
  have ps: "slot_index ks ?sp = Some (GetPolyMetatableSlot s)" if "IsPolyMetatable s"
    using sem_ok_metatable_slot(1)[OF sem dis] that by (simp add: IsPolyMetatable_def)
  have pl: "0 < length ks" if "IsPolyMetatable s" using sp that by (cases ks) auto
  define needed where "needed = length ks + 1 - of_bool (IsPolyMetatable s)"
  have needed: "needed = length ?ks'" "0 < needed" "needed \<le> 2 ^ 30" "length ks \<le> needed"
    using len pl by (auto simp: needed_def dict_keys_from_def)
  obtain d m where d: "CreateEmptyDictionary sh needed (m_inlineNamedStorageCapacity s) False = Some (sh', sh_next sh, d)"
    "dict_ok env d m []" "7 \<le> m" "2 * needed \<le> 2 ^ m" "d_inlineNamedStorageCapacity d = m_inlineNamedStorageCapacity s"
    unfolding sh'_def using CreateEmptyDictionary_correct[OF needed(2,3) room] by blast
  have mask: "d_hashTableMask d = 2 ^ m - 1" "m < 32" and T0: "dtbl env m (d_hashTable d) {}" using d(2) by (auto simp: dict_ok_def)
  have visit: "it_visit sh' (StructureIterator sh' a) = zip ks [0..<length ks]"
    using it_visit_correct[OF wf_sheap_next[OF wsh], of "sh_next sh + 32" a s] a by (simp add: sh'_def ks_def)
  let ?es = "visited_entries ?sp ks"
  have keys: "set (map de_key ?es) \<subseteq> set ks - {?sp}" "distinct (map de_key ?es)" using dis by (auto simp: visited_keys)
  have neg: "k < 0" if "k \<in> set ks - {?sp}" for k using that sem by (auto simp: sem_ok_def)
  have les: "length ?es \<le> length ks" using arg_cong[OF visited_keys, of length ?sp ks] length_filter_le[of _ ks] by (metis length_map)
  have "\<exists>ht'. fold_opt (\<lambda>e. InsertNonExistentPropertyForInitOrResize (2 ^ m - 1) (de_key e) (dhash env (de_key e)) (de_slot e)) ?es (d_hashTable d)
      = Some ht' \<and> dtbl env m ht' ({} \<union> set ?es)"
    using keys neg les needed(4) d(4) by (intro insert_all[OF T0]) (fastforce simp: tbl_keys_def)+
  then obtain ht1 where ht1: "fold_opt (\<lambda>(key, keySlot). InsertNonExistentPropertyForInitOrResize (2 ^ m - 1) key (dhash env key) keySlot)
      (filter (\<lambda>(key, keySlot). key \<noteq> ?sp) (zip ks [0..<length ks])) (d_hashTable d) = Some ht1" "dtbl env m ht1 (set ?es)"
    unfolding visited_entries_def fold_opt_map by (auto simp: case_prod_beta')
  define slot where "slot = (if IsPolyMetatable s then GetPolyMetatableSlot s else length ks)"
  have "tbl_keys de_key_of (set ?es) \<subseteq> set ks" using keys(1) by (auto simp: tbl_keys_def de_key_of_def split: if_splits)
  then have nk: "newProp \<notin> tbl_keys de_key_of (set ?es)" using new(1) by (auto simp: ks_def)
  have rm: "card (set ?es) < 2 ^ m" using card_length[of ?es] les needed(2,4) d(4) by linarith
  obtain ht2 where ht2: "InsertNonExistentPropertyForInitOrResize (2 ^ m - 1) newProp (dhash env newProp) slot ht1 = Some ht2"
    "dtbl env m ht2 (insert \<lparr>de_key = newProp, de_slot = slot\<rparr> (set ?es))"
  proof -
    have "de_key_of \<lparr>de_key = newProp, de_slot = slot\<rparr> = Some newProp" using new(2) by (simp add: de_key_of_def)
    from fwd.tbl_put_ok[OF ht1(2) rm this nk] show ?thesis unfolding insert_eq_put[symmetric] using that by blast
  qed
  have T2: "dtbl env m ht2 (dent ?ks' ` {..<length ?ks'})"
    using ht2(2) entries_from[OF dis sp ps] by (simp add: slot_def)
  define grow where "grow = (\<not> IsPolyMetatable s \<and> m_inlineNamedStorageCapacity s + m_butterflyNamedStorageCapacity s = length ks)"
  have st: "length ks \<le> m_inlineNamedStorageCapacity s + m_butterflyNamedStorageCapacity s"
    "m_inlineNamedStorageCapacity s + m_butterflyNamedStorageCapacity s \<le> 254"
    using sem by (auto simp: sem_ok_def storage_ok_def x_maxNumSlots_def)
  define mt where "mt = (if IsPolyMetatable s then polyMetatable (GetPolyMetatableSlot s) else m_metatable s)"
  define r where "r = d\<lparr>d_butterflyNamedStorageCapacity := m_butterflyNamedStorageCapacity s, d_metatable := mt\<rparr>"
  obtain c where c: "(if grow then GetInitOrNextButterflyCapacity r else Some (d_butterflyNamedStorageCapacity r)) = Some c"
    "grow \<longleftrightarrow> c \<noteq> m_butterflyNamedStorageCapacity s" "m_butterflyNamedStorageCapacity s \<le> c" "grow \<longrightarrow> m_butterflyNamedStorageCapacity s < c"
    "c \<le> 250000000"
    using next_capacity[of r] st d(5) by (cases grow) (auto simp: r_def split: option.splits)
  define d' where "d' = r\<lparr>d_butterflyNamedStorageCapacity := c, d_hashTable := ht2, d_slotCount := needed\<rparr>"
  have cr: "CreateFromStructure env sh polyMetatable a newProp = Some (sh', d',
      \<lparr>cf_dictionary = sh_next sh, cf_slot = slot, cf_shouldGrowButterfly = grow\<rparr>)"
  proof -
    have sa: "struct_at sh a = s" using a by (simp add: struct_at_def)
    have r': "d_hashTableMask r = 2 ^ m - 1" "d_hashTable r = d_hashTable d" by (simp_all add: r_def mask)
    show ?thesis
      unfolding CreateFromStructure_def Let_def sa num needed_def[symmetric] d(1) option.case prod.case mt_def[symmetric] r_def[symmetric]
        grow_def[symmetric] c(1) visit r' ht1(1) slot_def[symmetric] ht2(1) d'_def by (rule refl)
  qed
  have "wf_dict env d' ?ks'"
  proof -
    have "set ?ks' = insert newProp (set ks - {?sp})"
    proof (cases "IsPolyMetatable s")
      case True
      then show ?thesis using slot_index_SomeD[OF ps[OF True]] dis
        by (simp add: dict_keys_from_def set_update_distinct)
    next
      case False
      then show ?thesis using sp by (auto simp: dict_keys_from_def)
    qed
    then have "0 \<notin> set ?ks'" using new(2) neg[of 0] by auto
    moreover have "distinct ?ks'" using dis new(1) by (auto simp: dict_keys_from_def ks_def distinct_list_update)
    ultimately show ?thesis unfolding wf_dict_def dict_ok_def using T2 d(3,4) needed(1) mask
      by (intro exI[of _ m]) (auto simp: d'_def r_def)
  qed
  moreover have "length ?ks' \<le> d_inlineNamedStorageCapacity d' + d_butterflyNamedStorageCapacity d'"
    using st c(3,4) d(5) unfolding needed(1)[symmetric] needed_def d'_def r_def grow_def by (cases "IsPolyMetatable s") auto
  ultimately show ?thesis using cr d(5) c(2,5) unfolding sh'_def slot_def ks_def[symmetric]
    by (intro exI[of _ d']) (auto simp: d'_def r_def mt_def)
qed

section \<open>Reachable dictionaries\<close>

text \<open>
  The dictionaries the VM can have: created empty for the global object or from the structure that overflowed, extended by puts, after
  which the caller grows the butterfly as the result says and records the new capacity, relocated and cloned. Keys are
  pointers to the user heap, which are negative.
\<close>

definition d_grown :: "dictionary \<Rightarrow> PutByIdResult \<Rightarrow> dictionary" where
  "d_grown d r = (if pb_shouldGrowButterfly r then d\<lparr>d_butterflyNamedStorageCapacity := pb_newButterflyCapacity r\<rparr> else d)"

inductive dict_reach :: "vm_env \<Rightarrow> dictionary \<Rightarrow> bool" for env where
  dreach_empty: "CreateEmptyDictionary sh n cap flag = Some (sh', r, d) \<Longrightarrow> 0 < n \<Longrightarrow> n \<le> 2 ^ 30 \<Longrightarrow> cap \<le> 255 \<Longrightarrow> dict_reach env d"
| dreach_structure: "struct_reach env sh \<Longrightarrow> sh_structs sh a = Some s \<Longrightarrow>
    GetSlotOrdinalFromMaybeNonStringProperty env sh s key = Some None \<Longrightarrow> key < 0 \<Longrightarrow> key \<noteq> env_specialKey env \<Longrightarrow>
    CreateFromStructure env sh polyMetatable a key = Some (sh', d, res) \<Longrightarrow> dict_reach env d"
| dreach_put: "dict_reach env d \<Longrightarrow> key < 0 \<Longrightarrow> PreparePutByMaybeNonStringKey env d key = Some (d', r) \<Longrightarrow> dict_reach env (d_grown d' r)"
| dreach_relocate: "dict_reach env d \<Longrightarrow> RelocateForAddingOrRemovingMetatable sh d mt = Some (sh', r, d', old) \<Longrightarrow> dict_reach env d'"
| dreach_clone: "dict_reach env d \<Longrightarrow> d_Clone sh d = Some (sh', r, d') \<Longrightarrow> dict_reach env d'"

definition dict_inv :: "vm_env \<Rightarrow> dictionary \<Rightarrow> gkey list \<Rightarrow> bool" where
  "dict_inv env d ks \<longleftrightarrow> wf_dict env d ks \<and> length ks \<le> d_inlineNamedStorageCapacity d + d_butterflyNamedStorageCapacity d \<and>
     d_inlineNamedStorageCapacity d \<le> 255 \<and> d_butterflyNamedStorageCapacity d \<le> 250000000"

lemma wf_dict_cong:
  assumes "wf_dict env d ks" "d_hashTableMask d' = d_hashTableMask d" "d_slotCount d' = d_slotCount d" "d_hashTable d' = d_hashTable d"
  shows "wf_dict env d' ks"
  using assms by (simp add: wf_dict_def dict_ok_def)

lemma wf_dict_table: "wf_dict env d ks \<Longrightarrow> length (d_hashTable d) = d_hashTableMask d + 1"
  using tbl_D(1) by (auto simp: wf_dict_def dict_ok_def)

text \<open>A put, found or not, leaves a dictionary that represents the old keys and the new one.\<close>

lemma dict_put:
  assumes inv: "dict_inv env d ks" and key: "key < 0"
    and put: "PreparePutByMaybeNonStringKey env d key = Some (d', r)"
  defines "ks' \<equiv> (if key \<in> set ks then ks else ks @ [key])"
  shows "dict_inv env (d_grown d' r) ks'" "slot_index ks' key = Some (pb_slot r)" "wf_dict env d' ks'" "d_metatable d' = d_metatable d"
proof -
  have wf: "wf_dict env d ks" and b: "length ks \<le> d_inlineNamedStorageCapacity d + d_butterflyNamedStorageCapacity d"
    "d_inlineNamedStorageCapacity d \<le> 255" "d_butterflyNamedStorageCapacity d \<le> 250000000" using inv by (auto simp: dict_inv_def)
  have "dict_inv env (d_grown d' r) ks' \<and> slot_index ks' key = Some (pb_slot r) \<and> wf_dict env d' ks' \<and> d_metatable d' = d_metatable d"
  proof (cases "key \<in> set ks")
    case True
    then obtain i where i: "slot_index ks key = Some i" by (cases "slot_index ks key") (auto simp: slot_index_None)
    then show ?thesis using PreparePut_found[OF wf i] put key inv wf True by (auto simp: ks'_def d_grown_def)
  next
    case False
    then have P: "put_new_ok env d ks key d' r" using PreparePut_new[OF wf False _ b(2)] put key by auto
    then have wf': "wf_dict env d' (ks @ [key])" by (simp add: put_new_ok_def)
    then have "wf_dict env (d_grown d' r) (ks @ [key])" by (rule wf_dict_cong) (simp_all add: d_grown_def)
    moreover have "slot_index (ks @ [key]) key = Some (length ks)" using slot_index_new[OF False, of key] by simp
    ultimately show ?thesis using P b False wf' wf_dictD(3)[OF wf]
      by (auto simp: put_new_ok_def dict_inv_def ks'_def d_grown_def dict_full_def)
  qed
  then show "dict_inv env (d_grown d' r) ks'" "slot_index ks' key = Some (pb_slot r)" "wf_dict env d' ks'" "d_metatable d' = d_metatable d"
    by blast+
qed

lemma alloc_room: "AllocFromSystemHeap sh n = Some (sh', p) \<Longrightarrow> sh_next sh + n < 2 ^ 32"
  by (auto simp: AllocFromSystemHeap_def split: if_splits)

theorem dict_reach_inv: "dict_reach env d \<Longrightarrow> \<exists>ks. dict_inv env d ks"
proof (induction rule: dict_reach.induct)
  case (dreach_empty sh n cap flag sh' r d)
  have room: "sh_next sh + 32 < 2 ^ 32"
    using dreach_empty(1) alloc_room[of sh 32] by (auto simp: CreateEmptyDictionary_def sizeof_CacheableDictionary_def split: option.splits)
  from CreateEmptyDictionary_correct[OF dreach_empty(2,3) room, of cap flag env] dreach_empty(1,4) show ?case
    by (auto simp: dict_inv_def wf_dict_def intro!: exI[of _ "[]"])
next
  case (dreach_structure sh a s key pm sh' d res)
  obtain K C where W: "wf_theap env sh K C" using struct_reach_invariant[OF dreach_structure(1)] by blast
  have key: "key \<notin> set (K a)" using dreach_structure(3) wf_lookup[OF W dreach_structure(2)] by (simp add: slot_index_None)
  have room: "sh_next sh + 32 < 2 ^ 32"
    using dreach_structure(6) alloc_room[of sh 32]
    by (auto simp: CreateFromStructure_def CreateEmptyDictionary_def sizeof_CacheableDictionary_def Let_def split: option.splits)
  from CreateFromStructure_correct[OF W dreach_structure(2) key dreach_structure(4,5) room, of pm] dreach_structure(6)
    wf_theapD(2)[OF W dreach_structure(2)]
  show ?case by (fastforce simp: dict_inv_def sem_ok_def storage_ok_def x_maxNumSlots_def)
next
  case (dreach_put d key d' r)
  then show ?case using dict_put(1) by blast
next
  case (dreach_relocate d sh mt sh' r d' old)
  then obtain ks where ks: "dict_inv env d ks" by blast
  have d': "d' = d\<lparr>d_metatable := mt\<rparr>"
    using dreach_relocate(2) by (auto simp: RelocateForAddingOrRemovingMetatable_def split: option.splits)
  have "wf_dict env d ks" using ks by (simp add: dict_inv_def)
  then have "wf_dict env d' ks" by (rule wf_dict_cong) (simp_all add: d')
  then show ?case using ks by (intro exI[of _ ks]) (simp add: dict_inv_def d')
next
  case (dreach_clone d sh sh' r d')
  then obtain ks where ks: "dict_inv env d ks" by blast
  have "take (d_hashTableMask d + 1) (d_hashTable d) = d_hashTable d" using ks wf_dict_table[of env d ks] by (simp add: dict_inv_def)
  then have "d' = d" using dreach_clone(2) by (auto simp: d_Clone_def split: option.splits)
  then show ?case using ks by blast
qed

lemma dict_reach_lookup:
  assumes "dict_inv env d ks" "k < 0"
  shows "d_GetSlotOrdinalFromMaybeNonStringProperty env d k = Some (slot_index ks k)"
  using assms dict_lookup[of env d ks k] by (simp add: dict_inv_def)

lemma slot_index_put:
  "slot_index (if key \<in> set ks then ks else ks @ [key]) k = (if k = key then slot_index (if key \<in> set ks then ks else ks @ [key]) key else slot_index ks k)"
  using slot_index_new[of key ks k] by auto

lemma slot_index_replace:
  assumes "distinct ks" "p < length ks" "key \<notin> set ks"
  shows "slot_index (ks[p := key]) k = (if k = key then Some p else if k = ks ! p then None else slot_index ks k)"
proof -
  have dis: "distinct (ks[p := key])" using assms by (simp add: distinct_list_update)
  consider "k = key" | "k \<noteq> key" "k = ks ! p" | "k \<noteq> key" "k \<noteq> ks ! p" by blast
  then show ?thesis
  proof cases
    case 1
    then show ?thesis using slot_index_nth[OF dis, of p] assms(2) by simp
  next
    case 2
    then have "k \<notin> set (ks[p := key])" using assms by (simp add: set_update_distinct)
    then show ?thesis using 2 by (simp add: slot_index_None)
  next
    case 3
    show ?thesis
    proof (cases "slot_index ks k")
      case None
      then have "k \<notin> set (ks[p := key])" using 3 assms by (simp add: set_update_distinct slot_index_None)
      then have "slot_index (ks[p := key]) k = None" by (simp only: slot_index_None simp_thms)
      then show ?thesis using 3 None by simp
    next
      case (Some i)
      then have "i < length ks" "ks ! i = k" using slot_index_SomeD by auto
      moreover from this have "i \<noteq> p" using 3 by auto
      ultimately show ?thesis using slot_index_nth[OF dis, of i] 3 Some by simp
    qed
  qed
qed

lemma dict_keys_from_index:
  assumes W: "wf_theap env sh K C" and a: "sh_structs sh a = Some s" and new: "key \<notin> set (K a)" "key \<noteq> env_specialKey env"
  shows "slot_index (dict_keys_from s (K a) key) k =
    (if k = key then Some (if IsPolyMetatable s then GetPolyMetatableSlot s else length (K a))
     else if k = env_specialKey env then None else slot_index (K a) k)"
proof -
  let ?ks = "K a" and ?sp = "env_specialKey env"
  have sem: "sem_ok env ?ks s" and dis: "distinct ?ks"
    using wf_theapD(2)[OF W a] wf_structD(2)[OF wf_sheapD(3)[OF wf_theapD(1)[OF W a] a]] by auto
  show ?thesis
  proof (cases "IsPolyMetatable s")
    case False
    then have "?sp \<notin> set ?ks" using sem by (simp add: sem_ok_def IsPolyMetatable_def)
    then show ?thesis using False slot_index_new[OF new(1), of k] by (auto simp: dict_keys_from_def slot_index_None)
  next
    case True
    let ?p = "GetPolyMetatableSlot s"
    have "slot_index ?ks ?sp = Some ?p" using sem_ok_metatable_slot(1)[OF sem dis] True by (simp add: IsPolyMetatable_def)
    from slot_index_SomeD[OF this] have p: "?p < length ?ks" "?ks ! ?p = ?sp" by auto
    then show ?thesis using True slot_index_replace[OF dis p(1) new(1), of k] by (simp add: dict_keys_from_def)
  qed
qed

lemma slot_index_less: "slot_index ks k = Some i \<Longrightarrow> i < length ks"
  using slot_index_SomeD by blast

section \<open>Properties of dictionaries\<close>

text \<open>
  C27. Putting a key into a reachable dictionary succeeds when the key is present or the limits leave room: the result is the slot of the
  key from then on, every other key keeps its slot, and the slot lies within the named storage once the caller has grown the
  butterfly as told.
\<close>

theorem dictionary_put_get:
  assumes "dict_reach env d" "key < 0"
    "d_GetSlotOrdinalFromMaybeNonStringProperty env d key \<noteq> Some None \<or> dict_room d"
  shows "\<exists>d' r. PreparePutByMaybeNonStringKey env d key = Some (d', r) \<and>
    (\<forall>k<0. d_GetSlotOrdinalFromMaybeNonStringProperty env d' k =
      (if k = key then Some (Some (pb_slot r)) else d_GetSlotOrdinalFromMaybeNonStringProperty env d k)) \<and>
    pb_slot r < d_inlineNamedStorageCapacity (d_grown d' r) + d_butterflyNamedStorageCapacity (d_grown d' r) \<and>
    d_metatable d' = d_metatable d"
proof -
  obtain ks where inv: "dict_inv env d ks" using dict_reach_inv[OF assms(1)] by blast
  then have wf: "wf_dict env d ks" "d_inlineNamedStorageCapacity d \<le> 255" by (auto simp: dict_inv_def)
  have "\<exists>d' r. PreparePutByMaybeNonStringKey env d key = Some (d', r)"
  proof (cases "slot_index ks key")
    case None
    then have "dict_room d" using assms(3) dict_reach_lookup[OF inv assms(2)] by simp
    then show ?thesis using PreparePut_new[OF wf(1) _ _ wf(2), of key] None assms(2)
      by (auto simp: slot_index_None split: option.splits)
  next
    case (Some i)
    then show ?thesis using PreparePut_found[OF wf(1) Some] assms(2) by auto
  qed
  then obtain d' r where put: "PreparePutByMaybeNonStringKey env d key = Some (d', r)" by blast
  note P = dict_put[OF inv assms(2) put]
  have "d_GetSlotOrdinalFromMaybeNonStringProperty env d' k =
      (if k = key then Some (Some (pb_slot r)) else d_GetSlotOrdinalFromMaybeNonStringProperty env d k)" if "k < 0" for k
    using dict_lookup[OF P(3), of k] dict_reach_lookup[OF inv that] slot_index_put[of key ks k] P(2) that by simp
  moreover have "pb_slot r < d_inlineNamedStorageCapacity (d_grown d' r) + d_butterflyNamedStorageCapacity (d_grown d' r)"
    using slot_index_less[OF P(2)] P(1) unfolding dict_inv_def by linarith
  ultimately show ?thesis using put P(4) by blast
qed

definition example_dict :: dictionary where
  "example_dict = snd (snd (the (CreateEmptyDictionary example_heap 100 4 False)))"

lemma example_next: "sh_next example_heap + 32 < 2 ^ 32"
  using example_room by (simp add: query_room_def)

lemma example_dict: "CreateEmptyDictionary example_heap 100 4 False = Some (example_heap\<lparr>sh_next := sh_next example_heap + 32\<rparr>,
    sh_next example_heap, example_dict)"
  and example_dict_ok: "wf_dict example_env example_dict []" "d_inlineNamedStorageCapacity example_dict = 4" "d_butterflyNamedStorageCapacity example_dict = 0"
proof -
  obtain d m where d: "CreateEmptyDictionary example_heap 100 4 False = Some (example_heap\<lparr>sh_next := sh_next example_heap + 32\<rparr>,
      sh_next example_heap, d)" "dict_ok example_env d m []" "7 \<le> m" "d_inlineNamedStorageCapacity d = 4" "d_butterflyNamedStorageCapacity d = 0"
    using CreateEmptyDictionary_correct[of 100 example_heap 4 False example_env] example_next by auto
  then have "example_dict = d" by (simp add: example_dict_def)
  with d show "CreateEmptyDictionary example_heap 100 4 False = Some (example_heap\<lparr>sh_next := sh_next example_heap + 32\<rparr>,
      sh_next example_heap, example_dict)" "wf_dict example_env example_dict []"
    "d_inlineNamedStorageCapacity example_dict = 4" "d_butterflyNamedStorageCapacity example_dict = 0"
    by (auto simp: wf_dict_def)
qed

lemma example_dict_reach: "dict_reach example_env example_dict"
  by (rule dreach_empty[OF example_dict]) simp_all

lemma example_dict_room: "dict_room example_dict"
proof -
  obtain m where "7 \<le> m" "d_hashTableMask example_dict = 2 ^ m - 1" "d_slotCount example_dict = 0"
    using example_dict_ok(1) by (auto simp: wf_dict_def dict_ok_def)
  moreover from this(1) have "(2::nat) ^ 7 \<le> 2 ^ m" by (intro power_increasing) auto
  ultimately show ?thesis using example_dict_ok(2,3) by (simp add: dict_room_def dict_full_def)
qed

theorem dictionary_put_get_witness:
  "\<exists>d' r. PreparePutByMaybeNonStringKey example_env example_dict (- 64) = Some (d', r) \<and>
    d_GetSlotOrdinalFromMaybeNonStringProperty example_env d' (- 64) = Some (Some (pb_slot r))"
  using dictionary_put_get[OF example_dict_reach, of "- 64"] example_dict_room by fastforce

text \<open>
  C31. Putting a key that a reachable dictionary does not have aborts the VM exactly when the limits are reached: the named storage is
  full at its maximal capacity, or the hash table would have to grow beyond $2^{31}$ entries.
\<close>

theorem dictionary_put_aborts_iff:
  assumes "dict_reach env d" "key < 0" "d_GetSlotOrdinalFromMaybeNonStringProperty env d key = Some None"
  shows "PreparePutByMaybeNonStringKey env d key = None \<longleftrightarrow>
    d_slotCount d = d_inlineNamedStorageCapacity d + d_butterflyNamedStorageCapacity d \<and> d_butterflyNamedStorageCapacity d = 250000000 \<or>
    d_hashTableMask d \<le> 2 * (d_slotCount d + 1) \<and> 2 ^ 32 \<le> d_hashTableMask d * 2 + 2"
proof -
  obtain ks where inv: "dict_inv env d ks" using dict_reach_inv[OF assms(1)] by blast
  then have wf: "wf_dict env d ks" "d_inlineNamedStorageCapacity d \<le> 255" "d_butterflyNamedStorageCapacity d \<le> 250000000"
    by (auto simp: dict_inv_def)
  have "key \<notin> set ks" using dict_reach_lookup[OF inv assms(2)] assms(3) slot_index_None[of ks key] by simp
  then have "PreparePutByMaybeNonStringKey env d key = None \<longleftrightarrow> \<not> dict_room d"
    using PreparePut_new[OF wf(1) _ _ wf(2), of key] assms(2) by (auto split: option.splits)
  then show ?thesis using wf(3) by (auto simp: dict_room_def dict_full_def)
qed

theorem dictionary_put_aborts_iff_witness:
  "PreparePutByMaybeNonStringKey example_env example_dict (- 64) \<noteq> None"
proof -
  have "d_GetSlotOrdinalFromMaybeNonStringProperty example_env example_dict (- 64) = Some None"
    using dict_lookup[OF example_dict_ok(1), of "- 64"] by (simp add: slot_index_None)
  from dictionary_put_aborts_iff[OF example_dict_reach _ this] example_dict_room show ?thesis
    by (auto simp: dict_room_def dict_full_def)
qed

text \<open>
  C30. The bounds of every reachable dictionary: the size of the hash table is a power of two and at least 128, the table
  has that many entries and is at most half full, and the slots fit into the named storage, which never exceeds its limit.
\<close>

theorem dictionary_bounds:
  assumes "dict_reach env d"
  shows "(\<exists>m\<ge>7. d_hashTableMask d + 1 = 2 ^ m) \<and> length (d_hashTable d) = d_hashTableMask d + 1 \<and>
    2 * d_slotCount d \<le> d_hashTableMask d + 1 \<and>
    d_slotCount d \<le> d_inlineNamedStorageCapacity d + d_butterflyNamedStorageCapacity d \<and>
    d_inlineNamedStorageCapacity d \<le> 255 \<and> d_butterflyNamedStorageCapacity d \<le> 250000000"
proof -
  obtain ks where inv: "dict_inv env d ks" using dict_reach_inv[OF assms] by blast
  then obtain m where m: "7 \<le> m" "dict_ok env d m ks" "2 * length ks \<le> 2 ^ m" by (auto simp: dict_inv_def wf_dict_def)
  moreover have "d_hashTableMask d + 1 = 2 ^ m" "d_slotCount d = length ks" using m(2) by (auto simp: dict_ok_def)
  moreover have "length (d_hashTable d) = d_hashTableMask d + 1" using inv wf_dict_table[of env d ks] by (simp only: dict_inv_def)
  ultimately show ?thesis using inv by (auto simp: dict_inv_def)
qed

theorem dictionary_bounds_witness: "2 * d_slotCount example_dict \<le> d_hashTableMask example_dict + 1"
  using dictionary_bounds[OF example_dict_reach] by blast

text \<open>
  C28. When a structure is full, the dictionary that replaces it answers every lookup the way the structure did, except for the
  new property, which gets the slot the result names, and the special key of the metatable slot, which is gone: the metatable itself is
  carried over into the dictionary. The slot lies in the named storage of the dictionary, and the
  caller is told to grow the butterfly exactly when its capacity changed.
\<close>

theorem CreateFromStructure_lookup:
  assumes "struct_reach env sh" "sh_structs sh a = Some s" "GetSlotOrdinalFromMaybeNonStringProperty env sh s key = Some None"
    "key < 0" "key \<noteq> env_specialKey env" "sh_next sh + 32 < 2 ^ 32"
  shows "\<exists>sh' d res. CreateFromStructure env sh polyMetatable a key = Some (sh', d, res) \<and>
    (\<forall>k<0. d_GetSlotOrdinalFromMaybeNonStringProperty env d k =
      (if k = key then Some (Some (cf_slot res)) else if k = env_specialKey env then Some None
       else GetSlotOrdinalFromMaybeNonStringProperty env sh s k)) \<and>
    cf_slot res < d_inlineNamedStorageCapacity d + d_butterflyNamedStorageCapacity d \<and>
    d_metatable d = (if IsPolyMetatable s then polyMetatable (GetPolyMetatableSlot s) else m_metatable s) \<and>
    (cf_shouldGrowButterfly res \<longleftrightarrow> d_butterflyNamedStorageCapacity d \<noteq> m_butterflyNamedStorageCapacity s)"
proof -
  obtain K C where W: "wf_theap env sh K C" using struct_reach_invariant[OF assms(1)] by blast
  let ?ks = "K a" and ?ks' = "dict_keys_from s (K a) key" and ?sp = "env_specialKey env"
  have key: "key \<notin> set ?ks" using assms(3) wf_lookup[OF W assms(2)] by (simp add: slot_index_None)
  obtain d sh' res where d: "CreateFromStructure env sh polyMetatable a key = Some (sh', d, res)" "wf_dict env d ?ks'"
      "cf_slot res = (if IsPolyMetatable s then GetPolyMetatableSlot s else length ?ks)"
      "length ?ks' \<le> d_inlineNamedStorageCapacity d + d_butterflyNamedStorageCapacity d"
      "d_metatable d = (if IsPolyMetatable s then polyMetatable (GetPolyMetatableSlot s) else m_metatable s)"
      "cf_shouldGrowButterfly res \<longleftrightarrow> d_butterflyNamedStorageCapacity d \<noteq> m_butterflyNamedStorageCapacity s"
    using CreateFromStructure_correct[OF W assms(2) key assms(4-6), of polyMetatable] by fastforce
  note I = dict_keys_from_index[OF W assms(2) key assms(5)]
  have "d_GetSlotOrdinalFromMaybeNonStringProperty env d k =
      (if k = key then Some (Some (cf_slot res)) else if k = ?sp then Some None
       else GetSlotOrdinalFromMaybeNonStringProperty env sh s k)" if "k < 0" for k
    using dict_lookup[OF d(2), of k] that I[of k] wf_lookup[OF W assms(2), of k] d(3) by simp
  moreover have "cf_slot res < length ?ks'" using slot_index_less[of ?ks' key] I[of key] d(3) by simp
  ultimately show ?thesis using d by fastforce
qed

theorem CreateFromStructure_lookup_witness:
  "\<exists>sh' d res. CreateFromStructure example_env example_heap (\<lambda>_. 0) 24 (- 5) = Some (sh', d, res) \<and>
    d_GetSlotOrdinalFromMaybeNonStringProperty example_env d (- 5) = Some (Some (cf_slot res))"
proof (rule example_struct)
  fix s assume s: "sh_structs example_heap 24 = Some s" "m_numSlots s = 0"
  have "- 5 < (0::gkey)" "- 5 \<noteq> env_specialKey example_env" by (simp_all add: example_env_def)
  from CreateFromStructure_lookup[OF example_reach s(1) example_lookup[OF s] this example_next] show ?thesis by fastforce
qed

end
