(* ===== verification/KeyedStore.thy ===== *)
theory KeyedStore
  imports Prelude
begin

text \<open>
  The contract that the property stores of the runtime share: a store represents a total function from keys to values (absent keys have
  the value nil), reading a key returns the value of the function and writing a key updates the function at that key.
  Keys that the language treats as equal have the same normal form. A write may abort when a resource limit is
  reached. Sparse maps, the array part and the named part of a table are instances.
\<close>

locale keyed_store =
  fixes repr :: "'s \<Rightarrow> ('n \<Rightarrow> 'v) \<Rightarrow> bool"
    and get :: "'s \<Rightarrow> 'k \<Rightarrow> 'v option"
    and put :: "'s \<Rightarrow> 'k \<Rightarrow> 'v \<Rightarrow> 's option"
    and valid :: "'k \<Rightarrow> bool"
    and norm :: "'k \<Rightarrow> 'n"
  assumes get_repr: "repr s f \<Longrightarrow> valid k \<Longrightarrow> get s k = Some (f (norm k))"
    and put_repr: "repr s f \<Longrightarrow> valid k \<Longrightarrow> put s k v = Some s' \<Longrightarrow> repr s' (f(norm k := v))"
begin

lemma get_put:
  assumes "repr s f" "valid k" "valid k'" "put s k v = Some s'"
  shows "get s' k' = (if norm k' = norm k then Some v else get s k')"
  using get_repr[OF put_repr[OF assms(1,2,4)] assms(3)] get_repr[OF assms(1,3)] by simp

lemma repr_unique:
  assumes "repr s f" "repr s g" "valid k"
  shows "f (norm k) = g (norm k)"
  using get_repr[OF assms(1,3)] get_repr[OF assms(2,3)] by simp

text \<open>A sequence of writes; reading then yields the last value written to the key, or the old one.\<close>

fun puts :: "('k \<times> 'v) list \<Rightarrow> 's \<Rightarrow> 's option" where
  "puts [] s = Some s"
| "puts ((k, v) # kvs) s = (case put s k v of None \<Rightarrow> None | Some s' \<Rightarrow> puts kvs s')"

lemma puts_repr:
  assumes "repr s f" "\<forall>(k, v) \<in> set kvs. valid k" "puts kvs s = Some s'"
  shows "repr s' (fold (\<lambda>(k, v) g. g(norm k := v)) kvs f)"
  using assms
proof (induction kvs s arbitrary: f rule: puts.induct)
  case (2 k v kvs s)
  then obtain s1 where s1: "put s k v = Some s1" "puts kvs s1 = Some s'" by (auto split: option.splits)
  have "repr s1 (f(norm k := v))" using put_repr[OF 2(2) _ s1(1)] 2(3) by simp
  from "2.IH"[OF s1(1) this _ s1(2)] 2(3) show ?case by (simp del: fun_upd_apply)
qed simp

end

end
