(* ===== verification/SparseMap.thy ===== *)
theory SparseMap
  imports KeyedStore Structure TValue
begin

unbundle bit_operations_syntax

text \<open>
  \<^verbatim>\<open>ArraySparseMap\<close> of \<^verbatim>\<open>runtime/table_object.h\<close>: the open-addressing hash table from doubles to values that holds the array
  elements outside of the vector storage. A free entry has the key NaN. Growing drops the entries whose value is nil. The map
  represents a function from doubles to values in which absent keys are nil; the two zeros are one key.
\<close>

section \<open>Data and operations\<close>

record sm_entry =
  sm_key :: double
  sm_value :: tvalue

record sparse_map =
  sm_hashMask :: nat
  sm_elementCount :: nat
  sm_hashTable :: "sm_entry list"

definition sm_free :: sm_entry where
  "sm_free = \<lparr>sm_key = quiet_NaN, sm_value = 0\<rparr>"

definition float_norm :: "double \<Rightarrow> double" where
  "float_norm d = (if double_is_zero d then 0 else d)"

text \<open>\<^verbatim>\<open>HashPrimitiveTypes\<close> on a double: minus zero is hashed as zero, then the eight bytes are hashed.\<close>

definition HashPrimitiveTypes :: "vm_env \<Rightarrow> double \<Rightarrow> nat" where
  "HashPrimitiveTypes env value = unat (env_hashPrim64 env (sint (float_norm value)))"

definition AllocateEmptyArraySparseMap :: sparse_map where
  "AllocateEmptyArraySparseMap = \<lparr>sm_hashMask = 1, sm_elementCount = 0, sm_hashTable = [sm_free, sm_free]\<rparr>"

definition sm_Clone :: "sparse_map \<Rightarrow> sparse_map" where
  "sm_Clone self = self\<lparr>sm_hashTable := take (sm_hashMask self + 1) (sm_hashTable self)\<rparr>"

definition sm_key_of :: "sm_entry \<Rightarrow> double option" where
  "sm_key_of e = (if IsNaN (sm_key e) then None else Some (float_norm (sm_key e)))"

text \<open>The release assertion on the new mask is the result \<open>None\<close>.\<close>

definition sm_ResizeImpl :: "vm_env \<Rightarrow> sparse_map \<Rightarrow> sparse_map option" where
  "sm_ResizeImpl env self =
     (let oldMask = sm_hashMask self;
          newMask = oldMask * 2 + 1
      in if newMask \<ge> 2 ^ 32 - 1 then None
         else let live = filter (\<lambda>e. \<not> IsNaN (sm_key e) \<and> \<not> IsNil (sm_value e)) (take (oldMask + 1) (sm_hashTable self))
              in case fold_opt (\<lambda>e ht. tbl_put sm_key_of (fwd_step newMask) ht (HashPrimitiveTypes env (sm_key e) AND newMask) e)
                     live (replicate (newMask + 1) sm_free) of
                   None \<Rightarrow> None
                 | Some ht \<Rightarrow> Some \<lparr>sm_hashMask = newMask, sm_elementCount = length live, sm_hashTable = ht\<rparr>)"

definition sm_ResizeIfNeeded :: "vm_env \<Rightarrow> sparse_map \<Rightarrow> sparse_map option" where
  "sm_ResizeIfNeeded env self =
     (if sm_elementCount self * 2 \<le> sm_hashMask self + 1 then Some self else sm_ResizeImpl env self)"

definition GetByVal :: "vm_env \<Rightarrow> sparse_map \<Rightarrow> double \<Rightarrow> tvalue option" where
  "GetByVal env self key =
     (let hashMask = sm_hashMask self in
      probe (\<lambda>slot. let entry = sm_hashTable self ! slot in
              if UnsafeFloatEqual (sm_key entry) key then Some (sm_value entry)
              else if IsNaN (sm_key entry) then Some Nil
              else None)
        (fwd_step hashMask) (hashMask + 1) (HashPrimitiveTypes env key AND hashMask))"

definition GetHashSlotOrdinal :: "vm_env \<Rightarrow> sparse_map \<Rightarrow> double \<Rightarrow> nat option option" where
  "GetHashSlotOrdinal env self key =
     (let hashMask = sm_hashMask self in
      probe (\<lambda>slot. let entry = sm_hashTable self ! slot in
              if UnsafeFloatEqual (sm_key entry) key then Some (Some slot)
              else if IsNaN (sm_key entry) then Some None
              else None)
        (fwd_step hashMask) (hashMask + 1) (HashPrimitiveTypes env key AND hashMask))"

definition sm_Insert :: "vm_env \<Rightarrow> sparse_map \<Rightarrow> double \<Rightarrow> tvalue \<Rightarrow> sparse_map option" where
  "sm_Insert env self key value =
     (let hashMask = sm_hashMask self in
      case probe (\<lambda>slot. let entry = sm_hashTable self ! slot in
              if UnsafeFloatEqual (sm_key entry) key then Some (Inr slot)
              else if IsNaN (sm_key entry) then Some (Inl slot)
              else None)
        (fwd_step hashMask) (hashMask + 1) (HashPrimitiveTypes env key AND hashMask) of
        None \<Rightarrow> None
      | Some (Inr slot) \<Rightarrow>
          Some (self\<lparr>sm_hashTable := (sm_hashTable self)[slot := (sm_hashTable self ! slot)\<lparr>sm_value := value\<rparr>]\<rparr>)
      | Some (Inl slot) \<Rightarrow>
          sm_ResizeIfNeeded env (self\<lparr>sm_hashTable := (sm_hashTable self)[slot := \<lparr>sm_key = key, sm_value = value\<rparr>],
            sm_elementCount := sm_elementCount self + 1\<rparr>))"

section \<open>Keys up to the sign of zero\<close>

lemma not_NaN_zero: "double_is_zero d \<Longrightarrow> \<not> IsNaN d"
proof -
  assume "double_is_zero d"
  then have z: "d AND 0x7FFFFFFFFFFFFFFF = 0" by (simp add: double_is_zero_def)
  have "d AND 0xFFFFFFFFFFFFF = (d AND 0x7FFFFFFFFFFFFFFF) AND 0xFFFFFFFFFFFFF" by (simp add: and.assoc)
  then have "double_mantissa d = 0" unfolding double_mantissa_def z by simp
  then show ?thesis by (simp add: IsNaN_def)
qed

lemma double_is_zero_0 [simp]: "double_is_zero 0"
  by (simp add: double_is_zero_def)

lemma float_norm_idem [simp]: "float_norm (float_norm d) = float_norm d"
  by (simp add: float_norm_def)

lemma float_norm_NaN [simp]: "IsNaN (float_norm d) = IsNaN d"
  using not_NaN_zero[of d] not_NaN_zero[of 0] by (auto simp: float_norm_def)

lemma UnsafeFloatEqual_norm:
  "UnsafeFloatEqual a b \<longleftrightarrow> \<not> IsNaN a \<and> \<not> IsNaN b \<and> float_norm a = float_norm b"
  by (auto simp: UnsafeFloatEqual_def float_norm_def)

lemma UnsafeFloatEqual_key: "\<not> IsNaN k \<Longrightarrow> UnsafeFloatEqual (sm_key e) k \<longleftrightarrow> sm_key_of e = Some (float_norm k)"
  by (simp add: UnsafeFloatEqual_norm sm_key_of_def)

lemma HashPrimitiveTypes_norm [simp]: "HashPrimitiveTypes env (float_norm k) = HashPrimitiveTypes env k"
  by (simp add: HashPrimitiveTypes_def)

lemma quiet_NaN_NaN [simp]: "IsNaN quiet_NaN"
  by (simp add: IsNaN_def quiet_NaN_def double_exponent_def double_mantissa_def)

lemma sm_free_key [simp]: "sm_key_of sm_free = None"
  by (simp add: sm_key_of_def sm_free_def)

section \<open>The table implements a function\<close>

abbreviation stbl :: "vm_env \<Rightarrow> nat \<Rightarrow> sm_entry list \<Rightarrow> sm_entry set \<Rightarrow> bool" where
  "stbl env n \<equiv> tbl (2 ^ n) (fwd_start (HashPrimitiveTypes env) (2 ^ n - 1)) (fwd_step (2 ^ n - 1)) sm_key_of"

text \<open>The function that a set of entries represents.\<close>

definition sm_fun :: "sm_entry set \<Rightarrow> (double \<Rightarrow> tvalue) \<Rightarrow> bool" where
  "sm_fun E f \<longleftrightarrow> (\<forall>e\<in>E. \<forall>k. sm_key_of e = Some k \<longrightarrow> f k = sm_value e) \<and> (\<forall>k. k \<notin> tbl_keys sm_key_of E \<longrightarrow> f k = Nil)"

definition sm_ok :: "vm_env \<Rightarrow> nat \<Rightarrow> sm_entry set \<Rightarrow> sparse_map \<Rightarrow> bool" where
  "sm_ok env n E m \<longleftrightarrow> sm_hashMask m = 2 ^ n - 1 \<and> 1 \<le> n \<and> n < 32 \<and> stbl env n (sm_hashTable m) E \<and> sm_elementCount m = card E"

definition sm_repr :: "vm_env \<Rightarrow> sparse_map \<Rightarrow> (double \<Rightarrow> tvalue) \<Rightarrow> bool" where
  "sm_repr env m f \<longleftrightarrow> (\<exists>n E. sm_ok env n E m \<and> 2 * card E \<le> 2 ^ n \<and> sm_fun E f)"

lemma sm_start: "HashPrimitiveTypes env k AND (2 ^ n - 1) = fwd_start (HashPrimitiveTypes env) (2 ^ n - 1) (float_norm k)"
  by (simp add: fwd_start_def)

lemma sm_ok_room:
  assumes "sm_ok env n E m" "2 * card E \<le> 2 ^ n"
  shows "card E < 2 ^ n" "sm_hashMask m + 1 = 2 ^ n" "stbl env n (sm_hashTable m) E"
proof -
  have "1 \<le> n" using assms(1) by (simp add: sm_ok_def)
  then have "(2::nat) ^ 1 \<le> 2 ^ n" by (intro power_increasing) auto
  then show "card E < 2 ^ n" using assms(2) by simp
qed (use assms in \<open>auto simp: sm_ok_def\<close>)

text \<open>All loops over the probe sequence of a key: what they do at the entry of the key and at a free entry.\<close>

lemma sm_probe:
  fixes hit miss :: "nat \<Rightarrow> 'r"
  assumes ok: "sm_ok env n E m" "2 * card E \<le> 2 ^ n" and k: "\<not> IsNaN k"
  defines "body \<equiv> \<lambda>slot. let entry = sm_hashTable m ! slot in
              if UnsafeFloatEqual (sm_key entry) k then Some (hit slot)
              else if IsNaN (sm_key entry) then Some (miss slot) else None"
  shows "if float_norm k \<in> tbl_keys sm_key_of E
    then \<exists>p < 2 ^ n. sm_hashTable m ! p \<in> E \<and> sm_key_of (sm_hashTable m ! p) = Some (float_norm k) \<and>
      probe body (fwd_step (sm_hashMask m)) (sm_hashMask m + 1) (HashPrimitiveTypes env k AND sm_hashMask m) = Some (hit p)
    else \<exists>p < 2 ^ n. probe body (fwd_step (sm_hashMask m)) (sm_hashMask m + 1) (HashPrimitiveTypes env k AND sm_hashMask m) = Some (miss p) \<and>
      (\<forall>e. sm_key_of e = Some (float_norm k) \<longrightarrow> stbl env n ((sm_hashTable m)[p := e]) (insert e E))"
proof -
  have mask: "sm_hashMask m = 2 ^ n - 1" using ok(1) by (simp add: sm_ok_def)
  have P: "probe body (fwd_step (sm_hashMask m)) (sm_hashMask m + 1) (HashPrimitiveTypes env k AND sm_hashMask m) =
      probe body (fwd_step (2 ^ n - 1)) (2 ^ n) (fwd_start (HashPrimitiveTypes env) (2 ^ n - 1) (float_norm k))"
    unfolding sm_ok_room(2)[OF ok] by (simp only: mask sm_start)
  have body: "sm_key_of (sm_hashTable m ! p) = None \<Longrightarrow> body p = Some (miss p)"
    "sm_key_of (sm_hashTable m ! p) = Some (float_norm k) \<Longrightarrow> body p = Some (hit p)"
    "sm_key_of (sm_hashTable m ! p) = Some k' \<Longrightarrow> k' \<noteq> float_norm k \<Longrightarrow> body p = None" for p k'
    unfolding body_def Let_def UnsafeFloatEqual_key[OF k] by (auto simp: sm_key_of_def split: if_splits)
  have "if float_norm k \<in> tbl_keys sm_key_of E
    then \<exists>p < 2 ^ n. sm_hashTable m ! p \<in> E \<and> sm_key_of (sm_hashTable m ! p) = Some (float_norm k) \<and>
      probe body (fwd_step (2 ^ n - 1)) (2 ^ n) (fwd_start (HashPrimitiveTypes env) (2 ^ n - 1) (float_norm k)) = Some (hit p)
    else \<exists>p < 2 ^ n. sm_key_of (sm_hashTable m ! p) = None \<and>
      probe body (fwd_step (2 ^ n - 1)) (2 ^ n) (fwd_start (HashPrimitiveTypes env) (2 ^ n - 1) (float_norm k)) = Some (miss p) \<and>
      (\<forall>e. sm_key_of e = Some (float_norm k) \<longrightarrow> stbl env n ((sm_hashTable m)[p := e]) (insert e E))"
    by (rule fwd.tbl_find[OF sm_ok_room(3,1)[OF ok]]) (use body in auto)
  then show ?thesis unfolding P by (auto split: if_splits)
qed

lemma sm_fun_in: "sm_fun E f \<Longrightarrow> e \<in> E \<Longrightarrow> sm_key_of e = Some k \<Longrightarrow> f k = sm_value e"
  and sm_fun_out: "sm_fun E f \<Longrightarrow> k \<notin> tbl_keys sm_key_of E \<Longrightarrow> f k = Nil"
  by (auto simp: sm_fun_def)

lemma GetByVal_correct:
  assumes "sm_repr env m f" "\<not> IsNaN k"
  shows "GetByVal env m k = Some (f (float_norm k))"
proof -
  obtain n E where ok: "sm_ok env n E m" "2 * card E \<le> 2 ^ n" and f: "sm_fun E f" using assms(1) by (auto simp: sm_repr_def)
  from sm_probe[OF ok assms(2), of "\<lambda>p. sm_value (sm_hashTable m ! p)" "\<lambda>_. Nil"] show ?thesis
    unfolding GetByVal_def Let_def using sm_fun_in[OF f] sm_fun_out[OF f]
    by (cases "float_norm k \<in> tbl_keys sm_key_of E") auto
qed

lemma sm_fun_insert:
  assumes "sm_fun E f" "k \<notin> tbl_keys sm_key_of E" "sm_key_of e = Some k"
  shows "sm_fun (insert e E) (f(k := sm_value e))"
  using assms by (auto simp: sm_fun_def tbl_keys_def)

lemma sm_fun_overwrite:
  assumes "sm_fun E f" "e0 \<in> E" "sm_key_of e0 = Some k" "sm_key_of e = Some k" "\<And>e'. e' \<in> E \<Longrightarrow> sm_key_of e' = Some k \<Longrightarrow> e' = e0"
  shows "sm_fun (insert e (E - {e0})) (f(k := sm_value e))"
proof -
  have "tbl_keys sm_key_of (insert e (E - {e0})) = tbl_keys sm_key_of E"
  proof (intro set_eqI iffI)
    fix x assume "x \<in> tbl_keys sm_key_of (insert e (E - {e0}))"
    then show "x \<in> tbl_keys sm_key_of E" using assms(2-4) by (auto simp: tbl_keys_def)
  next
    fix x assume "x \<in> tbl_keys sm_key_of E"
    then obtain e' where "e' \<in> E" "sm_key_of e' = Some x" by (auto simp: tbl_keys_def)
    then show "x \<in> tbl_keys sm_key_of (insert e (E - {e0}))" using assms(3,4) by (cases "e' = e0") (auto simp: tbl_keys_def)
  qed
  moreover have "e' \<in> E - {e0} \<Longrightarrow> sm_key_of e' \<noteq> Some k" for e' using assms(5) by blast
  ultimately show ?thesis using assms(1,2,3,4) unfolding sm_fun_def by (auto simp: tbl_keys_def)
qed

text \<open>Growing drops the entries with value nil, which does not change the function.\<close>

lemma sm_fun_live:
  assumes "sm_fun E f"
  shows "sm_fun {e \<in> E. \<not> IsNil (sm_value e)} f"
proof -
  have "f k = Nil" if "k \<notin> tbl_keys sm_key_of {e \<in> E. \<not> IsNil (sm_value e)}" for k
  proof (cases "k \<in> tbl_keys sm_key_of E")
    case True
    then obtain e where "e \<in> E" "sm_key_of e = Some k" by (auto simp: tbl_keys_def)
    moreover from this have "IsNil (sm_value e)" using that by (auto simp: tbl_keys_def)
    ultimately show ?thesis using sm_fun_in[OF assms] by (simp add: IsNil_def)
  qed (rule sm_fun_out[OF assms])
  then show ?thesis using assms by (auto simp: sm_fun_def)
qed

lemma sm_ResizeImpl_correct:
  assumes ok: "sm_ok env n E m" "card E \<le> 2 ^ n" and f: "sm_fun E f"
  shows "case sm_ResizeImpl env m of None \<Rightarrow> 2 ^ 31 \<le> sm_hashMask m + 1 | Some m' \<Rightarrow> sm_repr env m' f"
proof (cases "sm_hashMask m * 2 + 1 \<ge> 2 ^ 32 - 1")
  case True
  then show ?thesis by (simp add: sm_ResizeImpl_def)
next
  case False
  let ?live = "filter (\<lambda>e. \<not> IsNaN (sm_key e) \<and> \<not> IsNil (sm_value e)) (sm_hashTable m)"
  let ?E = "{e \<in> E. \<not> IsNil (sm_value e)}"
  have T: "stbl env n (sm_hashTable m) E" and m0: "sm_hashMask m = 2 ^ n - 1" using ok by (auto simp: sm_ok_def)
  have mask2: "sm_hashMask m + 1 = 2 ^ n" by (simp add: m0)
  then have mask4: "sm_hashMask m * 2 + 1 + 1 = 2 ^ (n + 1)" by simp
  then have mask3: "sm_hashMask m * 2 + 1 = 2 ^ (n + 1) - 1" by (metis add_diff_cancel_right')
  note mask = m0 mask2 mask3 mask4
  have E: "E = tbl_entries sm_key_of (sm_hashTable m)" using tbl_D(2)[OF T] .
  have live: "?live = filter (\<lambda>e. \<not> IsNil (sm_value e)) (filter (\<lambda>e. sm_key_of e \<noteq> None) (sm_hashTable m))"
    by (auto simp: sm_key_of_def intro!: filter_cong)
  have set_live: "set ?live = ?E" unfolding E by (auto simp: tbl_entries_def sm_key_of_def)
  have occ: "distinct (map sm_key_of (filter (\<lambda>e. sm_key_of e \<noteq> None) (sm_hashTable m)))" using tbl_occupied(1)[OF T] .
  have dis: "distinct ?live" using conjunct1[OF occ[unfolded distinct_map]] unfolding live by (rule distinct_filter)
  have inj: "inj_on sm_key_of (set ?live)" using occ unfolding live by (auto simp: distinct_map inj_on_def)
  have len: "length ?live = card ?E" using distinct_card[OF dis] set_live by simp
  have le: "card ?E \<le> card E" using tbl_D(3)[OF T] by (intro card_mono) auto
  have "\<exists>ht. fold_opt (\<lambda>e ht. tbl_put sm_key_of (fwd_step (2 ^ (n + 1) - 1)) ht (HashPrimitiveTypes env (sm_key e) AND (2 ^ (n + 1) - 1)) e)
      ?live (replicate (2 ^ (n + 1)) sm_free) = Some ht \<and> stbl env (n + 1) ht ((\<lambda>e. e) ` ({} \<union> set ?live))"
  proof (rule fwd.fold_put_ok[where kf = "\<lambda>e. float_norm (sm_key e)"])
    show "stbl env (n + 1) (replicate (2 ^ (n + 1)) sm_free) ((\<lambda>e. e) ` {})" by (simp add: tbl_empty)
    show "inj_on (\<lambda>e. float_norm (sm_key e)) ({} \<union> set ?live)"
      using inj by (auto simp: inj_on_def sm_key_of_def)
    show "card ({} :: sm_entry set) + length ?live \<le> 2 ^ (n + 1)" using len le ok(2) by simp
    show "tbl_put sm_key_of (fwd_step (2 ^ (n + 1) - 1)) ys (HashPrimitiveTypes env (sm_key e) AND 2 ^ (n + 1) - 1) e =
        tbl_put sm_key_of (fwd_step (2 ^ (n + 1) - 1)) ys
          (fwd_start (HashPrimitiveTypes env) (2 ^ (n + 1) - 1) (float_norm (sm_key e))) e" for e ys
      by (simp only: sm_start)
  qed (use dis in \<open>auto simp: sm_key_of_def\<close>)
  then obtain ht where ht: "fold_opt (\<lambda>e ht. tbl_put sm_key_of (fwd_step (2 ^ (n + 1) - 1)) ht
      (HashPrimitiveTypes env (sm_key e) AND (2 ^ (n + 1) - 1)) e) ?live (replicate (2 ^ (n + 1)) sm_free) = Some ht"
    "stbl env (n + 1) ht ?E" unfolding set_live by auto
  define m' where "m' = \<lparr>sm_hashMask = 2 ^ (n + 1) - 1, sm_elementCount = card ?E, sm_hashTable = ht\<rparr>"
  have tk: "take (2 ^ n) (sm_hashTable m) = sm_hashTable m" using tbl_D(1)[OF T] by simp
  have lim: "\<not> 2 ^ 32 - 1 \<le> (2::nat) ^ (n + 1) - 1" using False mask(3) by simp
  have p1: "(2::nat) ^ (n + 1) - 1 + 1 = 2 ^ (n + 1)" by simp
  have "sm_ResizeImpl env m = Some m'"
    unfolding sm_ResizeImpl_def Let_def mask(3) p1 mask(2) tk ht(1) m'_def len option.case if_not_P[OF lim] by (rule refl)
  moreover have "sm_hashMask m * 2 + 1 + 1 < 2 ^ 32" using False by linarith
  then have "n + 1 < 32" unfolding mask4 by (rule power_less_imp_less_exp[rotated]) simp
  then have "sm_ok env (n + 1) ?E m'" using ht(2) by (simp add: sm_ok_def m'_def)
  moreover have "2 * card ?E \<le> 2 ^ (n + 1)" using le ok(2) by simp
  ultimately have "sm_repr env m' f" unfolding sm_repr_def using sm_fun_live[OF f] by blast
  with \<open>sm_ResizeImpl env m = Some m'\<close> show ?thesis by simp
qed

lemma sm_Insert_correct:
  assumes m: "sm_repr env m f" and k: "\<not> IsNaN k"
  shows "case sm_Insert env m k v of None \<Rightarrow> 2 ^ 31 \<le> sm_hashMask m + 1 | Some m' \<Rightarrow> sm_repr env m' (f(float_norm k := v))"
proof -
  obtain n E where ok: "sm_ok env n E m" "2 * card E \<le> 2 ^ n" and f: "sm_fun E f" using m by (auto simp: sm_repr_def)
  note room = sm_ok_room[OF ok]
  note P = sm_probe[OF ok k, of Inr Inl]
  let ?probe = "probe (\<lambda>slot. let entry = sm_hashTable m ! slot in
              if UnsafeFloatEqual (sm_key entry) k then Some (Inr slot) else if IsNaN (sm_key entry) then Some (Inl slot) else None)
        (fwd_step (sm_hashMask m)) (sm_hashMask m + 1) (HashPrimitiveTypes env k AND sm_hashMask m)"
  show ?thesis
  proof (cases "float_norm k \<in> tbl_keys sm_key_of E")
    case True
    with P obtain p where p: "p < 2 ^ n" "sm_hashTable m ! p \<in> E" "sm_key_of (sm_hashTable m ! p) = Some (float_norm k)"
      "?probe = Some (Inr p)" by auto
    define e where "e = (sm_hashTable m ! p)\<lparr>sm_value := v\<rparr>"
    have ek: "sm_key_of e = Some (float_norm k)" using p(3) by (simp add: e_def sm_key_of_def split: if_splits)
    let ?E = "insert e (E - {sm_hashTable m ! p})"
    have T: "stbl env n ((sm_hashTable m)[p := e]) ?E" by (rule tbl_overwrite[OF room(3) p(1,3) ek])
    have uniq: "e' = sm_hashTable m ! p" if "e' \<in> E" "sm_key_of e' = Some (float_norm k)" for e'
      using tbl_unique[OF room(3) that(1) p(2)] that(2) p(3) by simp
    have "sm_fun ?E (f(float_norm k := sm_value e))" by (rule sm_fun_overwrite[OF f p(2,3) ek uniq])
    then have fn: "sm_fun ?E (f(float_norm k := v))" by (simp add: e_def)
    have "card ?E = card E"
    proof -
      have "e \<notin> E - {sm_hashTable m ! p}" using uniq[of e] ek by auto
      then show ?thesis using tbl_D(3)[OF room(3)] p(2) by (metis card.remove card_insert_disjoint finite_Diff)
    qed
    then have "sm_repr env (m\<lparr>sm_hashTable := (sm_hashTable m)[p := e]\<rparr>) (f(float_norm k := v))"
      unfolding sm_repr_def using ok T fn by (intro exI[of _ n] exI[of _ ?E]) (simp add: sm_ok_def)
    moreover have "sm_Insert env m k v = Some (m\<lparr>sm_hashTable := (sm_hashTable m)[p := e]\<rparr>)"
      unfolding sm_Insert_def Let_def p(4)[unfolded Let_def] option.case sum.case e_def by (rule refl)
    ultimately show ?thesis by simp
  next
    case False
    with P obtain p where p: "?probe = Some (Inl p)"
      "\<And>e. sm_key_of e = Some (float_norm k) \<Longrightarrow> stbl env n ((sm_hashTable m)[p := e]) (insert e E)" by auto
    define e where "e = \<lparr>sm_key = k, sm_value = v\<rparr>"
    define m1 where "m1 = m\<lparr>sm_hashTable := (sm_hashTable m)[p := e], sm_elementCount := sm_elementCount m + 1\<rparr>"
    have ek: "sm_key_of e = Some (float_norm k)" using k by (simp add: e_def sm_key_of_def)
    have "e \<notin> E" using False ek by (auto simp: tbl_keys_def)
    then have c: "card (insert e E) = card E + 1" using tbl_D(3)[OF room(3)] by simp
    have ok1: "sm_ok env n (insert e E) m1" using ok(1) p(2)[OF ek] c by (simp add: sm_ok_def m1_def)
    have f1: "sm_fun (insert e E) (f(float_norm k := v))" using sm_fun_insert[OF f False ek] by (simp add: e_def)
    have ins: "sm_Insert env m k v = sm_ResizeIfNeeded env m1"
      unfolding sm_Insert_def Let_def p(1)[unfolded Let_def] option.case sum.case m1_def e_def by (rule refl)
    show ?thesis
    proof (cases "sm_elementCount m1 * 2 \<le> sm_hashMask m1 + 1")
      case True
      then have "2 * card (insert e E) \<le> 2 ^ n" using ok1 by (simp add: sm_ok_def)
      then have "sm_repr env m1 (f(float_norm k := v))" using ok1 f1 by (auto simp: sm_repr_def)
      then show ?thesis using True by (simp add: ins sm_ResizeIfNeeded_def)
    next
      case False
      then have "sm_Insert env m k v = sm_ResizeImpl env m1" by (simp add: ins sm_ResizeIfNeeded_def)
      moreover have "card (insert e E) \<le> 2 ^ n" using c room(1) by simp
      from sm_ResizeImpl_correct[OF ok1 this f1] have "case sm_ResizeImpl env m1 of None \<Rightarrow> 2 ^ 31 \<le> sm_hashMask m + 1
          | Some m' \<Rightarrow> sm_repr env m' (f(float_norm k := v))"
        by (cases "sm_ResizeImpl env m1") (auto simp: m1_def)
      ultimately show ?thesis by simp
    qed
  qed
qed

lemma sm_empty_repr: "sm_repr env AllocateEmptyArraySparseMap (\<lambda>_. Nil)"
proof -
  have "stbl env 1 [sm_free, sm_free] {}" using tbl_empty[of sm_key_of sm_free "2 ^ 1"] by (simp add: numeral_2_eq_2)
  then show ?thesis unfolding sm_repr_def
    by (intro exI[of _ 1] exI[of _ "{}"]) (simp add: sm_ok_def AllocateEmptyArraySparseMap_def sm_fun_def)
qed

lemma sm_Clone_repr:
  assumes "sm_repr env m f"
  shows "sm_Clone m = m"
proof -
  obtain n E where "sm_ok env n E m" using assms by (auto simp: sm_repr_def)
  then have "length (sm_hashTable m) = sm_hashMask m + 1" using tbl_D(1) by (fastforce simp: sm_ok_def)
  then show ?thesis by (simp add: sm_Clone_def)
qed

interpretation sm: keyed_store "sm_repr env" "GetByVal env" "sm_Insert env" "\<lambda>k. \<not> IsNaN k" float_norm for env
proof
  fix s f k v s'
  assume "sm_repr env s f" "\<not> IsNaN k" "sm_Insert env s k v = Some s'"
  then show "sm_repr env s' (f(float_norm k := v))" using sm_Insert_correct[of env s f k v] by simp
qed (rule GetByVal_correct)

section \<open>Reachable maps\<close>

inductive sm_reach :: "vm_env \<Rightarrow> sparse_map \<Rightarrow> bool" for env where
  smr_empty: "sm_reach env AllocateEmptyArraySparseMap"
| smr_insert: "sm_reach env m \<Longrightarrow> \<not> IsNaN k \<Longrightarrow> sm_Insert env m k v = Some m' \<Longrightarrow> sm_reach env m'"
| smr_clone: "sm_reach env m \<Longrightarrow> sm_reach env (sm_Clone m)"

lemma sm_reach_repr: "sm_reach env m \<Longrightarrow> \<exists>f. sm_repr env m f"
proof (induction rule: sm_reach.induct)
  case (smr_insert m k v m')
  then show ?case using sm.put_repr by blast
next
  case (smr_clone m)
  then show ?case using sm_Clone_repr by fastforce
qed (use sm_empty_repr in blast)

text \<open>
  C24. In every sparse map that the operations can build, an insertion below the size limit succeeds, even when it
  makes the table grow and drop its nil entries; afterwards reading terminates and gives the inserted value for every key
  that compares equal as a floating point number, and what it gave before for every other key.
\<close>

theorem sparse_map_get_insert:
  assumes "sm_reach env m" "\<not> IsNaN k" "\<not> IsNaN k'" "sm_hashMask m + 1 < 2 ^ 31"
  shows "\<exists>m' r. sm_Insert env m k v = Some m' \<and> GetByVal env m k' = Some r \<and>
    GetByVal env m' k' = Some (if UnsafeFloatEqual k k' then v else r)"
proof -
  obtain f where f: "sm_repr env m f" using sm_reach_repr[OF assms(1)] by blast
  obtain m' where m': "sm_Insert env m k v = Some m'" "sm_repr env m' (f(float_norm k := v))"
    using sm_Insert_correct[OF f assms(2), of v] assms(4) by (auto split: option.splits)
  then show ?thesis using sm.get_put[OF f assms(2,3) m'(1)] sm.get_repr[OF f assms(3)] assms(2,3)
    by (auto simp: UnsafeFloatEqual_norm)
qed

definition example_hash_env :: vm_env where
  "example_hash_env = \<lparr>env_isString = (\<lambda>_. True), env_hashLow = (\<lambda>k. of_int k), env_hashPrim64 = (\<lambda>k. of_int k),
     env_hashPrim32 = (\<lambda>k. of_int k), env_metamethodOrd = (\<lambda>_. None), env_specialKey = - 1\<rparr>"

theorem sparse_map_get_insert_witness:
  "\<exists>m'. sm_Insert example_hash_env AllocateEmptyArraySparseMap 0x8000000000000000 7 = Some m' \<and>
    GetByVal example_hash_env m' 0 = Some 7"
proof -
  have "\<not> IsNaN 0x8000000000000000" "\<not> IsNaN 0"
    by (simp_all add: IsNaN_def double_exponent_def double_mantissa_def)
  from sparse_map_get_insert[OF smr_empty this, of example_hash_env 7] show ?thesis
    by (auto simp: AllocateEmptyArraySparseMap_def UnsafeFloatEqual_def IsNaN_def double_exponent_def double_mantissa_def double_is_zero_def)
qed

end
