(* ===== verification/NumConv.thy ===== *)
theory NumConv
  imports SparseMap
begin

unbundle bit_operations_syntax

text \<open>
  The conversions between \<^verbatim>\<open>int64_t\<close> and \<^verbatim>\<open>double\<close> that the array part of a table uses, on IEEE 754 bit patterns, and
  \<^verbatim>\<open>TableObject::IsInt64Index\<close>. The cast to an integer truncates; out of range it is what the x86-64 instruction gives, on
  which the code relies. The cast to a double rounds to nearest, ties to even.
\<close>

section \<open>Conversions\<close>

fun ilog2 :: "nat \<Rightarrow> nat" where
  "ilog2 n = (if n < 2 then 0 else ilog2 (n div 2) + 1)"

declare ilog2.simps [simp del]

definition double_to_int64 :: "double \<Rightarrow> 64 word" where
  "double_to_int64 d =
     (let e = unat (double_exponent d);
          m = 2 ^ 52 + unat (double_mantissa d);
          a = (if e = 0 then 0 else if e \<ge> 1075 then m * 2 ^ (e - 1075) else m div 2 ^ (1075 - e));
          v = (if bit d 63 then - int a else int a)
      in if e = 2047 \<or> v < - (2 ^ 63) \<or> v \<ge> 2 ^ 63 then 0x8000000000000000 else word_of_int v)"

definition round_significand :: "nat \<Rightarrow> nat \<Rightarrow> nat" where
  "round_significand a k =
     (if k \<le> 52 then a * 2 ^ (52 - k)
      else let s = k - 52; q = a div 2 ^ s; r = a mod 2 ^ s; half = 2 ^ (s - 1)
           in if r > half \<or> r = half \<and> odd q then q + 1 else q)"

definition int64_magnitude_bits :: "nat \<Rightarrow> nat" where
  "int64_magnitude_bits a = (if a = 0 then 0 else (ilog2 a + 1022) * 2 ^ 52 + round_significand a (ilog2 a))"

definition int64_to_double :: "64 word \<Rightarrow> double" where
  "int64_to_double w =
     (let i = sint w in word_of_nat (int64_magnitude_bits (nat \<bar>i\<bar>) + (if i < 0 then 2 ^ 63 else 0)))"

text \<open>\<^verbatim>\<open>IsInt64Index\<close> returns the index when the conversion is lossless.\<close>

definition IsInt64Index :: "double \<Rightarrow> 64 word option" where
  "IsInt64Index vidx =
     (let idx = double_to_int64 vidx in if UnsafeFloatEqual (int64_to_double idx) vidx then Some idx else None)"

section \<open>Bit patterns of converted integers\<close>

lemma ilog2_bounds: "0 < n \<Longrightarrow> 2 ^ ilog2 n \<le> n \<and> n < 2 ^ (ilog2 n + 1)"
proof (induction n rule: ilog2.induct)
  case (1 n)
  show ?case
  proof (cases "n < 2")
    case True
    then have "n = 1" using 1(2) by simp
    then show ?thesis by (simp add: ilog2.simps)
  next
    case False
    then have "2 ^ ilog2 (n div 2) \<le> n div 2 \<and> n div 2 < 2 ^ (ilog2 (n div 2) + 1)" using 1(1) by simp
    moreover have "ilog2 n = ilog2 (n div 2) + 1" using False by (subst ilog2.simps) simp
    moreover have "2 * (n div 2) \<le> n" "n < 2 * (n div 2) + 2" by simp_all
    ultimately show ?thesis by simp linarith
  qed
qed

lemma ilog2_le: "0 < n \<Longrightarrow> n < 2 ^ Suc k \<Longrightarrow> ilog2 n \<le> k"
  using ilog2_bounds[of n] by (metis le_less_trans less_Suc_eq_le power_less_imp_less_exp one_less_numeral_iff semiring_norm(76))

lemma round_significand_bounds:
  assumes "2 ^ k \<le> a" "a < 2 ^ (k + 1)"
  shows "2 ^ 52 \<le> round_significand a k" "round_significand a k \<le> 2 ^ 53"
    "k \<le> 52 \<Longrightarrow> round_significand a k < 2 ^ 53"
proof -
  have small: "2 ^ 52 \<le> round_significand a k \<and> round_significand a k < 2 ^ 53" if "k \<le> 52"
  proof -
    have e: "(2::nat) ^ k * 2 ^ (52 - k) = 2 ^ 52" "(2::nat) ^ (k + 1) * 2 ^ (52 - k) = 2 ^ 53"
      using that by (simp_all add: power_add[symmetric] del: power_Suc)
    have "2 ^ k * 2 ^ (52 - k) \<le> a * 2 ^ (52 - k)" using assms(1) by simp
    moreover have "a * 2 ^ (52 - k) < 2 ^ (k + 1) * 2 ^ (52 - k)" using assms(2) by simp
    ultimately have "2 ^ 52 \<le> a * 2 ^ (52 - k)" "a * 2 ^ (52 - k) < 2 ^ 53" unfolding e by simp_all
    then show ?thesis using that by (simp only: round_significand_def if_True)
  qed
  have big: "2 ^ 52 \<le> round_significand a k \<and> round_significand a k \<le> 2 ^ 53" if "\<not> k \<le> 52"
  proof -
    define s where "s = k - 52"
    have k: "k = 52 + s" using that by (simp add: s_def)
    have "(2::nat) ^ 52 * 2 ^ s \<le> a" "a < 2 ^ 53 * 2 ^ s" using assms by (simp_all add: k power_add)
    then have "2 ^ 52 \<le> a div 2 ^ s" "a div 2 ^ s < 2 ^ 53"
      by (simp_all add: less_eq_div_iff_mult_less_eq div_less_iff_less_mult)
    then show ?thesis using that unfolding round_significand_def s_def[symmetric] Let_def by simp
  qed
  show "2 ^ 52 \<le> round_significand a k" "round_significand a k \<le> 2 ^ 53" "k \<le> 52 \<Longrightarrow> round_significand a k < 2 ^ 53"
    using small big by (cases "k \<le> 52"; simp)+
qed

lemma magnitude_bounds:
  assumes "0 < a" "a \<le> 2 ^ 63"
  shows "2 ^ 52 \<le> int64_magnitude_bits a" "int64_magnitude_bits a < 1088 * 2 ^ 52"
proof -
  have k: "ilog2 a \<le> 63" using assms by (intro ilog2_le) auto
  note b = round_significand_bounds[OF conjunct1[OF ilog2_bounds[OF assms(1)]] conjunct2[OF ilog2_bounds[OF assms(1)]]]
  show "2 ^ 52 \<le> int64_magnitude_bits a" using assms(1) b(1) by (simp add: int64_magnitude_bits_def)
  have "int64_magnitude_bits a \<le> (63 + 1022) * 2 ^ 52 + 2 ^ 53"
    using assms(1) b(2) k unfolding int64_magnitude_bits_def by (simp add: add_mono)
  then show "int64_magnitude_bits a < 1088 * 2 ^ 52" by simp
qed

lemma sint_zero_iff: "sint (w :: 64 word) = 0 \<longleftrightarrow> w = 0"
proof
  assume "sint w = 0"
  then have "word_of_int (sint w) = (0 :: 64 word)" by simp
  then show "w = 0" by simp
qed simp

lemma sint_range64: "- (2 ^ 63) \<le> sint (w :: 64 word)" "sint w < 2 ^ 63"
  using sint_range_size[of w] by (simp_all add: word_size)

lemma int64_to_double_unat:
  "unat (int64_to_double w) = int64_magnitude_bits (nat \<bar>sint w\<bar>) + (if sint w < 0 then 2 ^ 63 else 0)"
  "int64_magnitude_bits (nat \<bar>sint w\<bar>) < 1088 * 2 ^ 52"
proof -
  have "nat \<bar>sint w\<bar> \<le> 2 ^ 63" using sint_range64[of w] by auto
  then show m: "int64_magnitude_bits (nat \<bar>sint w\<bar>) < 1088 * 2 ^ 52"
    using magnitude_bounds(2)[of "nat \<bar>sint w\<bar>"] by (cases "nat \<bar>sint w\<bar> = 0") (auto simp: int64_magnitude_bits_def)
  show "unat (int64_to_double w) = int64_magnitude_bits (nat \<bar>sint w\<bar>) + (if sint w < 0 then 2 ^ 63 else 0)"
  proof -
    have "int64_magnitude_bits (nat \<bar>sint w\<bar>) + (if sint w < 0 then 2 ^ 63 else 0) < 2 ^ LENGTH(64)"
      by (cases "sint w < 0") (use m in \<open>simp_all del: abs_of_neg abs_of_nonneg zabs_less_one_iff\<close>)
    then show ?thesis unfolding int64_to_double_def Let_def unsigned_of_nat by (simp only: take_bit_nat_eq_self of_nat_id)
  qed
qed

lemma double_exponent_unat: "unat (double_exponent d) = unat d div 2 ^ 52 mod 2 ^ 11"
proof -
  have "double_exponent d = take_bit 11 (drop_bit 52 d)"
    unfolding double_exponent_def by (simp add: take_bit_eq_mask mask_eq_exp_minus_1)
  then show ?thesis by (metis drop_bit_eq_div take_bit_eq_mod unsigned_take_bit_eq unat_drop_bit_eq)
qed

lemma double_mantissa_unat: "unat (double_mantissa d) = unat d mod 2 ^ 52"
proof -
  have "double_mantissa d = take_bit 52 d"
    unfolding double_mantissa_def by (simp add: take_bit_eq_mask mask_eq_exp_minus_1)
  then show ?thesis by (metis take_bit_eq_mod unsigned_take_bit_eq)
qed

lemma double_is_zero_unat: "double_is_zero d \<longleftrightarrow> unat d mod 2 ^ 63 = 0"
proof -
  have "d AND 0x7FFFFFFFFFFFFFFF = take_bit 63 d" by (simp add: take_bit_eq_mask mask_eq_exp_minus_1)
  then have "double_is_zero d \<longleftrightarrow> unat (take_bit 63 d) = 0" by (simp add: double_is_zero_def unat_eq_zero)
  then show ?thesis by (metis take_bit_eq_mod unsigned_take_bit_eq)
qed

lemma int64_to_double_fields:
  defines "n \<equiv> \<lambda>w. int64_magnitude_bits (nat \<bar>sint w\<bar>)"
  shows "unat (double_exponent (int64_to_double w)) = n w div 2 ^ 52"
    "unat (double_mantissa (int64_to_double w)) = n w mod 2 ^ 52" "n w div 2 ^ 52 < 1088"
    "bit (int64_to_double w) 63 \<longleftrightarrow> sint w < 0"
proof -
  have lt: "n w < 1088 * 2 ^ 52" using int64_to_double_unat(2)[of w] by (simp add: n_def)
  then show e: "n w div 2 ^ 52 < 1088" by (simp add: div_less_iff_less_mult)
  have u: "unat (int64_to_double w) = n w + (if sint w < 0 then 2 ^ 63 else 0)"
    using int64_to_double_unat(1)[of w] by (simp add: n_def)
  have hi: "(n w + (if sint w < 0 then 2 ^ 63 else 0)) div 2 ^ 52 = n w div 2 ^ 52 + (if sint w < 0 then 2 ^ 11 else 0)"
    using div_mult_self2[of "2 ^ 52" "n w" "2 ^ 11 :: nat"] by simp
  show "unat (double_exponent (int64_to_double w)) = n w div 2 ^ 52"
    unfolding double_exponent_unat u hi using e by simp
  show "unat (double_mantissa (int64_to_double w)) = n w mod 2 ^ 52"
    unfolding double_mantissa_unat u using mod_mult_self2[of "n w" "2 ^ 52" "2 ^ 11 :: nat"] by simp
  have "bit (int64_to_double w) 63 \<longleftrightarrow> odd (unat (int64_to_double w) div 2 ^ 63)"
  proof -
    have "bit (unat (int64_to_double w)) 63 \<longleftrightarrow> bit (int64_to_double w) 63" by (simp add: bit_unsigned_iff)
    then show ?thesis by (simp only: bit_iff_odd)
  qed
  moreover have "n w < 2 ^ 63" using lt by simp
  then have "(n w + (if sint w < 0 then 2 ^ 63 else 0)) div 2 ^ 63 = of_bool (sint w < 0)"
    using div_add_self2[of "2 ^ 63" "n w"] by simp
  ultimately show "bit (int64_to_double w) 63 \<longleftrightarrow> sint w < 0" unfolding u by simp
qed

lemma int64_to_double_not_NaN [simp]: "\<not> IsNaN (int64_to_double w)"
  using int64_to_double_fields(1,3)[of w] by (auto simp: IsNaN_def word_unat_eq_iff)

lemma int64_to_double_zero: "double_is_zero (int64_to_double w) \<longleftrightarrow> w = 0"
proof
  assume "w = 0"
  then show "double_is_zero (int64_to_double w)" by (simp add: int64_to_double_def int64_magnitude_bits_def)
next
  assume z: "double_is_zero (int64_to_double w)"
  obtain n where n: "n = int64_magnitude_bits (nat \<bar>sint w\<bar>)" by blast
  have lt: "n < 2 ^ 63" using int64_to_double_unat(2)[of w] unfolding n[symmetric] by simp
  have "(n + (if sint w < 0 then 2 ^ 63 else 0)) mod 2 ^ 63 = n" using lt by simp
  then have "n = 0" using z unfolding double_is_zero_unat int64_to_double_unat(1) n[symmetric] by simp
  moreover have "2 ^ 52 \<le> n" if "sint w \<noteq> 0" using that sint_range64[of w] unfolding n by (intro magnitude_bounds(1)) auto
  ultimately have "sint w = 0" by fastforce
  then show "w = 0" by (simp add: sint_zero_iff)
qed

lemma int64_to_double_0 [simp]: "int64_to_double 0 = 0"
  by (simp add: int64_to_double_def int64_magnitude_bits_def)

lemma int64_to_double_norm [simp]: "float_norm (int64_to_double w) = int64_to_double w"
  using int64_to_double_zero[of w] by (auto simp: float_norm_def)

text \<open>Integers below $2^{53}$ survive the round trip.\<close>

lemma int64_round_trip:
  assumes "\<bar>sint w\<bar> < 2 ^ 53"
  shows "double_to_int64 (int64_to_double w) = w"
proof (cases "sint w = 0")
  case True
  then show ?thesis by (simp add: sint_zero_iff double_to_int64_def double_exponent_def double_mantissa_def)
next
  case False
  define a where "a = nat \<bar>sint w\<bar>"
  define k where "k = ilog2 a"
  have a: "0 < a" "a < 2 ^ 53" using False assms by (auto simp: a_def)
  have k: "k \<le> 52" using a by (simp add: k_def ilog2_le)
  let ?r = "round_significand a k"
  have r: "2 ^ 52 \<le> ?r" "?r < 2 ^ 53" "?r = a * 2 ^ (52 - k)"
    using round_significand_bounds(1,3)[of k a] ilog2_bounds[OF a(1)] k by (auto simp: k_def round_significand_def)
  define f where "f = ?r - 2 ^ 52"
  have f: "?r = 2 ^ 52 + f" "f < 2 ^ 52" using r(1,2) by (simp_all add: f_def)
  have n: "int64_magnitude_bits a = (k + 1023) * 2 ^ 52 + f"
    using a(1) f(1) by (simp add: int64_magnitude_bits_def k_def add_mult_distrib)
  have nd: "((k + 1023) * 2 ^ 52 + f) div 2 ^ 52 = k + 1023" "((k + 1023) * 2 ^ 52 + f) mod 2 ^ 52 = f"
    using f(2) div_mult_self3[of "2 ^ 52" "k + 1023" f] mod_mult_self3[of "k + 1023" "2 ^ 52" f] by simp_all
  note F = int64_to_double_fields[of w, folded a_def, unfolded n nd]
  have "(if 1075 \<le> k + 1023 then (2 ^ 52 + f) * 2 ^ (k + 1023 - 1075) else (2 ^ 52 + f) div 2 ^ (1075 - (k + 1023))) = a"
  proof (cases "k = 52")
    case True
    then show ?thesis using r(3) f(1) by simp
  next
    case False
    then have "1075 - (k + 1023) = 52 - k" "\<not> 1075 \<le> k + 1023" using k by auto
    then show ?thesis using r(3) f(1) by simp
  qed
  then have mag: "(if k + 1023 = 0 then 0 else if 1075 \<le> k + 1023 then (2 ^ 52 + f) * 2 ^ (k + 1023 - 1075)
      else (2 ^ 52 + f) div 2 ^ (1075 - (k + 1023))) = a" by simp
  have v: "(if sint w < 0 then - int a else int a) = sint w" by (simp add: a_def)
  have "\<not> (k + 1023 = 2047 \<or> sint w < - (2 ^ 63) \<or> sint w \<ge> 2 ^ 63)" using k sint_range64[of w] by auto
  then show ?thesis unfolding double_to_int64_def F(1,2,4) Let_def mag v by simp
qed

section \<open>Array indices\<close>

lemma IsInt64Index_SomeD:
  assumes "IsInt64Index d = Some w"
  shows "int64_to_double w = float_norm d" "\<not> IsNaN d" "double_to_int64 d = w"
  using assms by (auto simp: IsInt64Index_def Let_def UnsafeFloatEqual_norm split: if_splits)

lemma double_zero_cases: "double_is_zero d \<Longrightarrow> double_to_int64 d = 0"
proof -
  assume "double_is_zero d"
  then have "unat d mod 2 ^ 63 = 0" by (simp only: double_is_zero_unat)
  then have "2 ^ 63 dvd unat d" by presburger
  then obtain q where q: "unat d = 2 ^ 63 * q" by blast
  have "unat d div 2 ^ 52 = 2 ^ 11 * q" unfolding q by simp
  then have "unat (double_exponent d) = 0" unfolding double_exponent_unat by simp
  then show ?thesis by (simp add: double_to_int64_def Let_def)
qed

lemma IsInt64Index_zero: "double_is_zero d \<Longrightarrow> IsInt64Index d = Some 0"
  using double_zero_cases[of d] not_NaN_zero[of d] not_NaN_zero[of 0]
  by (simp add: IsInt64Index_def UnsafeFloatEqual_def)

lemma IsInt64Index_NoneD: "IsInt64Index d = None \<Longrightarrow> float_norm d = d"
  using IsInt64Index_zero[of d] by (auto simp: float_norm_def)

lemma IsInt64Index_int:
  assumes "\<bar>sint w\<bar> < 2 ^ 53"
  shows "IsInt64Index (int64_to_double w) = Some w"
  using int64_round_trip[OF assms] by (simp add: IsInt64Index_def UnsafeFloatEqual_norm)

text \<open>An index is exact when the conversion to a double does not lose it; only such indices reach a table.\<close>

definition exact_index :: "64 word \<Rightarrow> bool" where
  "exact_index w \<longleftrightarrow> double_to_int64 (int64_to_double w) = w"

lemma exact_index_IsInt64Index: "exact_index w \<Longrightarrow> IsInt64Index (int64_to_double w) = Some w"
  by (simp add: exact_index_def IsInt64Index_def UnsafeFloatEqual_norm)

lemma exact_index_small: "\<bar>sint w\<bar> < 2 ^ 53 \<Longrightarrow> exact_index w"
  by (simp add: exact_index_def int64_round_trip)

lemma exact_index_inj: "exact_index v \<Longrightarrow> exact_index w \<Longrightarrow> int64_to_double v = int64_to_double w \<longleftrightarrow> v = w"
  by (metis exact_index_def)

lemma IsInt64Index_exact:
  assumes "IsInt64Index d = Some w"
  shows "exact_index w"
proof (cases "double_is_zero d")
  case True
  then have "w = 0" using IsInt64Index_zero[of d] assms by simp
  then show ?thesis by (simp add: exact_index_small)
next
  case False
  then show ?thesis using IsInt64Index_SomeD[OF assms] by (simp add: float_norm_def exact_index_def)
qed

end
