(* ===== verification/Table.thy ===== *)
theory Table
  imports Dictionary NumConv
begin

unbundle bit_operations_syntax

text \<open>
  The data of \<^verbatim>\<open>TableObject\<close> in \<^verbatim>\<open>runtime/table_object.h\<close> and the growth of its butterfly. A table owns its dictionary and its
  sparse map (both are created for one table and cloned with it), so they are stored in the table next to the address that the
  hidden class word and the butterfly header hold. Structures are shared and live in the system heap.
\<close>

section \<open>Data\<close>

text \<open>The hidden class pointer together with the type that the object it points to has in its header.\<close>

datatype hclass = HStructure sys_ptr | HDictionary sys_ptr dictionary

record table_object =
  t_hiddenClass :: hclass
  t_arrayType :: u8
  t_butterfly :: "butterfly option"
  t_inlineStorage :: "tvalue list"
  t_sparseMap :: "sparse_map option"

record vm_state =
  vm_sh :: sheap
  vm_userHeapCurPtr :: int

definition x_vmBaseOffset :: int where "x_vmBaseOffset = 16 * 2 ^ 30"
definition x_vmUserHeapSize :: int where "x_vmUserHeapSize = 12 * 2 ^ 30"

text \<open>The bump allocator of the user heap; \<open>None\<close> is the failure of \<^verbatim>\<open>BumpUserHeap\<close>.\<close>

definition AllocFromUserHeap :: "vm_state \<Rightarrow> nat \<Rightarrow> (vm_state \<times> int) option" where
  "AllocFromUserHeap vm len =
     (let p = vm_userHeapCurPtr vm - int len
      in if p < - x_vmBaseOffset then None else Some (vm\<lparr>vm_userHeapCurPtr := p\<rparr>, p))"

definition GeneralHeapPointer :: "int \<Rightarrow> 32 word" where
  "GeneralHeapPointer p = word_of_int (p div 2 ^ x_shiftFromRawOffset)"

section \<open>Butterfly growth\<close>

definition GrowButterflyFromNull :: "bool \<Rightarrow> nat \<Rightarrow> butterfly" where
  "GrowButterflyFromNull isGrowNamedStorage newCapacity =
     (if isGrowNamedStorage
      then \<lparr>bf_header = \<lparr>m_arrayLengthIfContinuous = 0, m_arrayStorageCapacity = 0\<rparr>,
            bf_vector = [], bf_named = replicate newCapacity Nil\<rparr>
      else \<lparr>bf_header = \<lparr>m_arrayLengthIfContinuous = 0, m_arrayStorageCapacity = of_nat newCapacity\<rparr>,
            bf_vector = replicate newCapacity Nil, bf_named = []\<rparr>)"

text \<open>
  The new block holds the old one, at its end when the named storage grows and at its beginning when the array storage
  grows, and nil elsewhere; the header moves along and keeps the length.
\<close>

definition GrowButterflyKnowingNamedStorageCapacity ::
  "bool \<Rightarrow> table_object \<Rightarrow> nat \<Rightarrow> nat \<Rightarrow> table_object" where
  "GrowButterflyKnowingNamedStorageCapacity isGrowNamedStorage t oldNamedStorageCapacity newCapacity =
     (case t_butterfly t of
        None \<Rightarrow> t\<lparr>t_butterfly := Some (GrowButterflyFromNull isGrowNamedStorage newCapacity)\<rparr>
      | Some b \<Rightarrow>
        (let oldArrayStorageCapacity = unat (m_arrayStorageCapacity (bf_header b));
             vec = take oldArrayStorageCapacity (bf_vector b);
             named = take oldNamedStorageCapacity (bf_named b)
         in t\<lparr>t_butterfly := Some
               (if isGrowNamedStorage
                then b\<lparr>bf_vector := vec, bf_named := named @ replicate (newCapacity - oldNamedStorageCapacity) Nil\<rparr>
                else b\<lparr>bf_vector := vec @ replicate (newCapacity - oldArrayStorageCapacity) Nil, bf_named := named,
                       bf_header := (bf_header b)\<lparr>m_arrayStorageCapacity := of_nat newCapacity\<rparr>\<rparr>)\<rparr>))"

definition hc_butterflyNamedStorageCapacity :: "sheap \<Rightarrow> hclass \<Rightarrow> nat" where
  "hc_butterflyNamedStorageCapacity sh hc =
     (case hc of HStructure p \<Rightarrow> m_butterflyNamedStorageCapacity (struct_at sh p)
      | HDictionary p d \<Rightarrow> d_butterflyNamedStorageCapacity d)"

definition hc_inlineNamedStorageCapacity :: "sheap \<Rightarrow> hclass \<Rightarrow> nat" where
  "hc_inlineNamedStorageCapacity sh hc =
     (case hc of HStructure p \<Rightarrow> m_inlineNamedStorageCapacity (struct_at sh p)
      | HDictionary p d \<Rightarrow> d_inlineNamedStorageCapacity d)"

definition GrowButterfly :: "bool \<Rightarrow> sheap \<Rightarrow> table_object \<Rightarrow> nat \<Rightarrow> table_object" where
  "GrowButterfly isGrowNamedStorage sh t newCapacity =
     GrowButterflyKnowingNamedStorageCapacity isGrowNamedStorage t
       (hc_butterflyNamedStorageCapacity sh (t_hiddenClass t)) newCapacity"

section \<open>Access to the butterfly\<close>

definition t_header :: "table_object \<Rightarrow> butterfly_header" where
  "t_header t = bf_header (the (t_butterfly t))"

definition set_arrayLength :: "32 word \<Rightarrow> table_object \<Rightarrow> table_object" where
  "set_arrayLength n t =
     t\<lparr>t_butterfly := map_option (\<lambda>b. b\<lparr>bf_header := (bf_header b)\<lparr>m_arrayLengthIfContinuous := n\<rparr>\<rparr>) (t_butterfly t)\<rparr>"

definition set_index :: "64 word \<Rightarrow> tvalue \<Rightarrow> table_object \<Rightarrow> table_object" where
  "set_index index v t = t\<lparr>t_butterfly := map_option (\<lambda>b. bf_SetInVectorIndex b index v) (t_butterfly t)\<rparr>"

end
