(* ===== verification/TableArray.thy ===== *)
theory TableArray
  imports Table
begin

unbundle bit_operations_syntax

text \<open>
  The array part of \<^verbatim>\<open>TableObject\<close>: reading and writing by integer and double index, with the fast paths, the slow path that
  grows the vector storage or falls back to the sparse map, and the array type that the fast paths rely on.
\<close>

section \<open>Reading\<close>

datatype GetIdxKind = VectorStorage | NoArrayPart | VectorStorageXorSparseMap | VectorStorageOrSparseMap

record GetByIntegerIndexICInfo =
  gi_icKind :: GetIdxKind
  gi_mayHaveMetatable :: bool
  gi_isContinuous :: bool

definition NaiveComputeGetByIntegerIndexIcKindFromArrayType :: "u8 \<Rightarrow> GetIdxKind" where
  "NaiveComputeGetByIntegerIndexIcKindFromArrayType arrType =
     (if IsContinuous arrType then VectorStorage
      else if ArrayKind arrType = NoButterflyArrayPart then NoArrayPart
      else if SparseMapContainsVectorIndex arrType then VectorStorageOrSparseMap
      else if HasSparseMap arrType then VectorStorageXorSparseMap
      else VectorStorage)"

fun GetIdxKind_to_word :: "GetIdxKind \<Rightarrow> u64" where
  "GetIdxKind_to_word VectorStorage = 0"
| "GetIdxKind_to_word NoArrayPart = 1"
| "GetIdxKind_to_word VectorStorageXorSparseMap = 2"
| "GetIdxKind_to_word VectorStorageOrSparseMap = 3"

definition word_to_GetIdxKind :: "u64 \<Rightarrow> GetIdxKind" where
  "word_to_GetIdxKind w = (if w = 0 then VectorStorage else if w = 1 then NoArrayPart
     else if w = 2 then VectorStorageXorSparseMap else VectorStorageOrSparseMap)"

text \<open>The kinds of all array types without the metatable bit, two bits each, in one 64-bit word.\<close>

definition ComputeGetByIntegerIndexIcBitVectorForNonContinuousArray :: u64 where
  "ComputeGetByIntegerIndexIcBitVectorForNonContinuousArray =
     fold (\<lambda>mask result. result OR push_bit (mask * 2)
         (GetIdxKind_to_word (NaiveComputeGetByIntegerIndexIcKindFromArrayType (of_nat mask)))) [0..<32] 0"

definition ComputeGetByIntegerIndexIcKindFromArrayType :: "u8 \<Rightarrow> GetIdxKind" where
  "ComputeGetByIntegerIndexIcKindFromArrayType arrType =
     word_to_GetIdxKind (drop_bit (unat arrType * 2 mod 64) ComputeGetByIntegerIndexIcBitVectorForNonContinuousArray AND 3)"

definition PrepareGetByIntegerIndex :: "table_object \<Rightarrow> GetByIntegerIndexICInfo" where
  "PrepareGetByIntegerIndex t =
     \<lparr>gi_icKind = ComputeGetByIntegerIndexIcKindFromArrayType (t_arrayType t),
      gi_mayHaveMetatable = MayHaveMetatable (t_arrayType t), gi_isContinuous = IsContinuous (t_arrayType t)\<rparr>"

definition TryAccessIndexInVectorStorage :: "table_object \<Rightarrow> 64 word \<Rightarrow> tvalue option" where
  "TryAccessIndexInVectorStorage t idx =
     (if IndexFitsInVectorCapacity (t_header t) idx then Some (bf_GetInVectorIndex (the (t_butterfly t)) idx) else None)"

definition CheckIndexFitsInContinuousArray :: "table_object \<Rightarrow> 64 word \<Rightarrow> bool" where
  "CheckIndexFitsInContinuousArray t idx = CanUseFastPathGetForContinuousArray (t_header t) idx"

definition QueryArraySparseMap :: "vm_env \<Rightarrow> table_object \<Rightarrow> double \<Rightarrow> tvalue option" where
  "QueryArraySparseMap env t idx = GetByVal env (the (t_sparseMap t)) idx"

definition GetByIntegerIndex :: "vm_env \<Rightarrow> table_object \<Rightarrow> 64 word \<Rightarrow> GetByIntegerIndexICInfo \<Rightarrow> tvalue option" where
  "GetByIntegerIndex env t idx icInfo =
     (if gi_icKind icInfo = NoArrayPart then Some Nil
      else case TryAccessIndexInVectorStorage t idx of
        Some res \<Rightarrow> Some res
      | None \<Rightarrow> (case gi_icKind icInfo of
          VectorStorageXorSparseMap \<Rightarrow>
            if sint idx < x_arrayBaseOrd \<or> sint idx > x_unconditionallySparseMapCutoff
            then QueryArraySparseMap env t (int64_to_double idx) else Some Nil
        | VectorStorageOrSparseMap \<Rightarrow> QueryArraySparseMap env t (int64_to_double idx)
        | _ \<Rightarrow> Some Nil))"

definition GetByInt32Val :: "vm_env \<Rightarrow> table_object \<Rightarrow> 32 word \<Rightarrow> GetByIntegerIndexICInfo \<Rightarrow> tvalue option" where
  "GetByInt32Val env t idx icInfo = GetByIntegerIndex env t (scast idx) icInfo"

definition GetByDoubleVal :: "vm_env \<Rightarrow> table_object \<Rightarrow> double \<Rightarrow> GetByIntegerIndexICInfo \<Rightarrow> tvalue option" where
  "GetByDoubleVal env t idx icInfo =
     (case IsInt64Index idx of
        Some idx64 \<Rightarrow> GetByIntegerIndex env t idx64 icInfo
      | None \<Rightarrow> if gi_icKind icInfo = VectorStorageOrSparseMap \<or> gi_icKind icInfo = VectorStorageXorSparseMap
                then QueryArraySparseMap env t idx else Some Nil)"

section \<open>Writing\<close>

datatype IndexCheckKind = ForceSlowPath | ICNoArrayPart | InBound | Continuous
datatype ValueCheckKind = VInt32 | VInt32OrNil | VDouble | VDoubleOrNil | VNotNil | VNoCheck

fun CheckValueMeetsPreconditionForPutByIntegerIndexFastPath :: "tvalue \<Rightarrow> ValueCheckKind \<Rightarrow> bool" where
  "CheckValueMeetsPreconditionForPutByIntegerIndexFastPath v VInt32 = IsInt32 v"
| "CheckValueMeetsPreconditionForPutByIntegerIndexFastPath v VInt32OrNil = (IsInt32 v \<or> IsNil v)"
| "CheckValueMeetsPreconditionForPutByIntegerIndexFastPath v VDouble = IsDouble v"
| "CheckValueMeetsPreconditionForPutByIntegerIndexFastPath v VDoubleOrNil = (IsDouble v \<or> IsNil v)"
| "CheckValueMeetsPreconditionForPutByIntegerIndexFastPath v VNotNil = (\<not> IsNil v)"
| "CheckValueMeetsPreconditionForPutByIntegerIndexFastPath v VNoCheck = True"

text \<open>\<open>None\<close>: the fast path does not apply.\<close>

definition TryPutByIntegerIndexFastPath_ContinuousArray :: "table_object \<Rightarrow> 64 word \<Rightarrow> tvalue \<Rightarrow> table_object option" where
  "TryPutByIntegerIndexFastPath_ContinuousArray t index v =
     (let h = t_header t in
      if CanUseFastPathGetForContinuousArray h index then Some (set_index index v t)
      else if sint index = sint (m_arrayLengthIfContinuous h) + x_arrayBaseOrd then
        if sint index = int (unat (m_arrayStorageCapacity h)) + x_arrayBaseOrd then None
        else Some (set_arrayLength (word_of_int (sint index + 1 - x_arrayBaseOrd)) (set_index index v t))
      else None)"

definition TryPutByIntegerIndexFastPath_InBoundPut :: "table_object \<Rightarrow> 64 word \<Rightarrow> tvalue \<Rightarrow> table_object option" where
  "TryPutByIntegerIndexFastPath_InBoundPut t index v =
     (if IndexFitsInVectorCapacity (t_header t) index then Some (set_index index v t) else None)"

definition continuous_check :: "Kind \<Rightarrow> ValueCheckKind" where
  "continuous_check k = (case k of KInt32 \<Rightarrow> VInt32 | KDouble \<Rightarrow> VDouble | _ \<Rightarrow> VNotNil)"

definition in_bound_check :: "Kind \<Rightarrow> ValueCheckKind" where
  "in_bound_check k = (case k of KInt32 \<Rightarrow> VInt32OrNil | KDouble \<Rightarrow> VDoubleOrNil | _ \<Rightarrow> VNoCheck)"

definition TryPutByValIntegerIndexFastNoIC :: "table_object \<Rightarrow> 64 word \<Rightarrow> tvalue \<Rightarrow> table_object option" where
  "TryPutByValIntegerIndexFastNoIC t index v =
     (let arrType = t_arrayType t in
      if IsContinuous arrType then
        if CheckValueMeetsPreconditionForPutByIntegerIndexFastPath v (continuous_check (ArrayKind arrType))
        then TryPutByIntegerIndexFastPath_ContinuousArray t index v else None
      else if ArrayKind arrType = NoButterflyArrayPart then None
      else if CheckValueMeetsPreconditionForPutByIntegerIndexFastPath v (in_bound_check (ArrayKind arrType))
        then TryPutByIntegerIndexFastPath_InBoundPut t index v else None)"

text \<open>
  When the array type changes, the object moves to the structure with the new array type; an object with a
  dictionary only records the new type.
\<close>

definition update_array_type :: "vm_env \<Rightarrow> vm_state \<Rightarrow> table_object \<Rightarrow> u8 \<Rightarrow> (vm_state \<times> table_object) option" where
  "update_array_type env vm t newArrayType =
     (if t_arrayType t = newArrayType then Some (vm, t)
      else case t_hiddenClass t of
        HStructure p \<Rightarrow>
          (case UpdateArrayType env (vm_sh vm) p newArrayType of None \<Rightarrow> None
           | Some (sh, r) \<Rightarrow> Some (vm\<lparr>vm_sh := sh\<rparr>, t\<lparr>t_hiddenClass := HStructure r, t_arrayType := newArrayType\<rparr>))
      | HDictionary p d \<Rightarrow> Some (vm, t\<lparr>t_arrayType := newArrayType\<rparr>))"

definition sizeof_ArraySparseMap :: nat where "sizeof_ArraySparseMap = 24"

definition AllocateNewArraySparseMap :: "vm_state \<Rightarrow> table_object \<Rightarrow> (vm_state \<times> table_object) option" where
  "AllocateNewArraySparseMap vm t =
     (case AllocFromUserHeap vm sizeof_ArraySparseMap of None \<Rightarrow> None
      | Some (vm, p) \<Rightarrow> Some (vm, set_arrayLength (GeneralHeapPointer p) (t\<lparr>t_sparseMap := Some AllocateEmptyArraySparseMap\<rparr>)))"

definition GetOrAllocateSparseMap :: "vm_state \<Rightarrow> table_object \<Rightarrow> (vm_state \<times> table_object) option" where
  "GetOrAllocateSparseMap vm t =
     (case t_butterfly t of
        None \<Rightarrow> AllocateNewArraySparseMap vm (t\<lparr>t_butterfly := Some (GrowButterflyFromNull False 0)\<rparr>)
      | Some b \<Rightarrow> if bh_HasSparseMap (bf_header b) then Some (vm, t) else AllocateNewArraySparseMap vm t)"

definition IsVectorQualifyingIndex :: "double \<Rightarrow> bool" where
  "IsVectorQualifyingIndex index =
     (case IsInt64Index index of
        Some idx64 \<Rightarrow> x_arrayBaseOrd \<le> sint idx64 \<and> sint idx64 \<le> x_unconditionallySparseMapCutoff
      | None \<Rightarrow> False)"

definition PutIndexIntoSparseMap ::
  "vm_env \<Rightarrow> vm_state \<Rightarrow> table_object \<Rightarrow> bool \<Rightarrow> double \<Rightarrow> tvalue \<Rightarrow> (vm_state \<times> table_object) option" where
  "PutIndexIntoSparseMap env vm t isVectorQualifyingIndex index v =
     (let newArrayType = SetHasSparseMap True (t_arrayType t);
          newArrayType = (if isVectorQualifyingIndex then SetSparseMapContainsVectorIndex True newArrayType else newArrayType);
          newArrayType = SetArrayKind KAny (SetIsContinuous False newArrayType)
      in case GetOrAllocateSparseMap vm t of None \<Rightarrow> None
      | Some (vm, t) \<Rightarrow>
        (case sm_Insert env (the (t_sparseMap t)) index v of None \<Rightarrow> None
         | Some m \<Rightarrow> update_array_type env vm (t\<lparr>t_sparseMap := Some m\<rparr>) newArrayType))"

text \<open>
  The case distinction of \<^verbatim>\<open>PutByIntegerIndexSlow\<close> ends in a return without effect, in the sparse map, or in a write with
  the table prepared for it and the new array type.
\<close>

datatype slow_step = SlowReturn | SlowSparseMap | SlowWrite table_object u8

definition new_kind :: "tvalue \<Rightarrow> Kind" where
  "new_kind v = (if IsInt32 v then KInt32 else if IsDouble v then KDouble else KAny)"

definition slow_no_array_part :: "sheap \<Rightarrow> table_object \<Rightarrow> int \<Rightarrow> tvalue \<Rightarrow> slow_step" where
  "slow_no_array_part sh t index v =
     (if IsNil v then SlowReturn
      else if index > x_alwaysVectorCutoff then SlowSparseMap
      else let needToGrowOrCreateButterfly =
                 (case t_butterfly t of None \<Rightarrow> True
                  | Some b \<Rightarrow> index \<ge> int (unat (m_arrayStorageCapacity (bf_header b))) + x_arrayBaseOrd);
               t1 = (if needToGrowOrCreateButterfly
                     then GrowButterfly False sh t (max x_initialVectorPartCapacity (nat (index + 1 - x_arrayBaseOrd))) else t);
               isContinuous = (index = x_arrayBaseOrd);
               t2 = set_arrayLength (if isContinuous then 1 else - 1) t1
           in SlowWrite t2 (SetArrayKind (new_kind v) (SetIsContinuous isContinuous (t_arrayType t))))"

definition updated_kind :: "u8 \<Rightarrow> tvalue \<Rightarrow> u8 \<Rightarrow> u8" where
  "updated_kind arrType v newArrayType =
     (if ArrayKind arrType = KInt32 then
        if \<not> IsInt32 v \<and> \<not> IsNil v then SetArrayKind KAny newArrayType else newArrayType
      else if ArrayKind arrType = KDouble then
        if \<not> IsDouble v \<and> \<not> IsNil v then SetArrayKind KAny newArrayType else newArrayType
      else newArrayType)"

definition slow_new_capacity :: "nat \<Rightarrow> int \<Rightarrow> nat" where
  "slow_new_capacity currentCapacity index =
     max (min (currentCapacity * x_vectorGrowthFactor mod 2 ^ 32) (nat x_unconditionallySparseMapCutoff))
       (nat (index + 1 - x_arrayBaseOrd))"

definition slow_out_of_bound :: "sheap \<Rightarrow> table_object \<Rightarrow> int \<Rightarrow> tvalue \<Rightarrow> slow_step" where
  "slow_out_of_bound sh t index v =
     (let arrType = t_arrayType t; b = the (t_butterfly t);
          currentCapacity = unat (m_arrayStorageCapacity (bf_header b))
      in if SparseMapContainsVectorIndex arrType then SlowSparseMap
         else if IsNil v then SlowReturn
         else let newCapacity = slow_new_capacity currentCapacity index;
                  isContinuous = (IsContinuous arrType \<and> index = sint (m_arrayLengthIfContinuous (bf_header b)) + x_arrayBaseOrd);
                  shouldPutToSparseMap =
                    (if index > x_sparseMapUnlessContinuousCutoff then \<not> isContinuous
                     else if index > x_alwaysVectorCutoff then
                       let nonNilCount = 1 + length (filter (\<lambda>x. \<not> IsNil x) (take currentCapacity (bf_vector b)))
                       in newCapacity > nonNilCount * x_densityCutoff
                     else False)
              in if shouldPutToSparseMap then SlowSparseMap
                 else let t1 = GrowButterfly False sh t newCapacity;
                          t2 = (if isContinuous then set_arrayLength (m_arrayLengthIfContinuous (t_header t1) + 1) t1
                                else if IsContinuous arrType then set_arrayLength (- 1) t1 else t1)
                      in SlowWrite t2 (updated_kind arrType v (SetIsContinuous isContinuous arrType)))"

definition slow_in_bound :: "table_object \<Rightarrow> int \<Rightarrow> tvalue \<Rightarrow> slow_step" where
  "slow_in_bound t index v =
     (let arrType = t_arrayType t;
          continuousLength = sint (m_arrayLengthIfContinuous (t_header t)) + x_arrayBaseOrd
      in if \<not> IsContinuous arrType then SlowWrite t (updated_kind arrType v (SetIsContinuous False arrType))
         else if IsNil v then
           if index \<ge> continuousLength then SlowReturn
           else if index = continuousLength - 1
             then SlowWrite (set_arrayLength (word_of_int (continuousLength - 1 - x_arrayBaseOrd)) t)
                    (updated_kind arrType v (SetIsContinuous True arrType))
             else SlowWrite (set_arrayLength (- 1) t) (updated_kind arrType v (SetIsContinuous False arrType))
         else if index > continuousLength
           then SlowWrite (set_arrayLength (- 1) t) (updated_kind arrType v (SetIsContinuous False arrType))
         else if index = continuousLength
           then SlowWrite (set_arrayLength (word_of_int (continuousLength + 1 - x_arrayBaseOrd)) t)
                  (updated_kind arrType v (SetIsContinuous True arrType))
         else SlowWrite t (updated_kind arrType v (SetIsContinuous True arrType)))"

definition PutByIntegerIndexSlow ::
  "vm_env \<Rightarrow> vm_state \<Rightarrow> table_object \<Rightarrow> 64 word \<Rightarrow> tvalue \<Rightarrow> (vm_state \<times> table_object) option" where
  "PutByIntegerIndexSlow env vm t index64 v =
     (let index = sint index64 in
      if index < x_arrayBaseOrd \<or> index > x_unconditionallySparseMapCutoff
      then PutIndexIntoSparseMap env vm t False (int64_to_double index64) v
      else case (if ArrayKind (t_arrayType t) = NoButterflyArrayPart then slow_no_array_part (vm_sh vm) t index v
                 else if index \<ge> int (unat (m_arrayStorageCapacity (t_header t))) + x_arrayBaseOrd
                   then slow_out_of_bound (vm_sh vm) t index v
                 else slow_in_bound t index v) of
        SlowReturn \<Rightarrow> Some (vm, t)
      | SlowSparseMap \<Rightarrow> PutIndexIntoSparseMap env vm t True (int64_to_double index64) v
      | SlowWrite t' newArrayType \<Rightarrow> update_array_type env vm (set_index index64 v t') newArrayType)"

definition RawPutByValIntegerIndex ::
  "vm_env \<Rightarrow> vm_state \<Rightarrow> table_object \<Rightarrow> 64 word \<Rightarrow> tvalue \<Rightarrow> (vm_state \<times> table_object) option" where
  "RawPutByValIntegerIndex env vm t index v =
     (case TryPutByValIntegerIndexFastNoIC t index v of
        Some t' \<Rightarrow> Some (vm, t')
      | None \<Rightarrow> PutByIntegerIndexSlow env vm t index v)"

definition RawPutByValDoubleIndex ::
  "vm_env \<Rightarrow> vm_state \<Rightarrow> table_object \<Rightarrow> double \<Rightarrow> tvalue \<Rightarrow> (vm_state \<times> table_object) option" where
  "RawPutByValDoubleIndex env vm t index v =
     (case IsInt64Index index of
        Some idx64 \<Rightarrow> RawPutByValIntegerIndex env vm t idx64 v
      | None \<Rightarrow> PutIndexIntoSparseMap env vm t False index v)"

text \<open>The inline-cached path: the information computed for the array type, and the write it guards.\<close>

record PutByIntegerIndexICInfo =
  pi_indexCheckKind :: IndexCheckKind
  pi_valueCheckKind :: ValueCheckKind
  pi_mayHaveMetatable :: bool
  pi_hiddenClass :: hclass
  pi_newArrayType :: u8
  pi_newHiddenClass :: hclass

definition PreparePutByIntegerIndex ::
  "vm_env \<Rightarrow> vm_state \<Rightarrow> table_object \<Rightarrow> 64 word \<Rightarrow> tvalue \<Rightarrow> (vm_state \<times> PutByIntegerIndexICInfo) option" where
  "PreparePutByIntegerIndex env vm t index v =
     (let arrType = t_arrayType t;
          info = \<lparr>pi_indexCheckKind = ForceSlowPath, pi_valueCheckKind = VNoCheck, pi_mayHaveMetatable = MayHaveMetatable arrType,
                  pi_hiddenClass = t_hiddenClass t, pi_newArrayType = arrType, pi_newHiddenClass = t_hiddenClass t\<rparr>
      in if sint index < x_arrayBaseOrd then Some (vm, info)
         else if ArrayKind arrType = NoButterflyArrayPart then
           if sint index \<noteq> x_arrayBaseOrd \<or> IsNil v then Some (vm, info)
           else let newArrType = SetIsContinuous True (SetArrayKind (new_kind v) arrType);
                    info = info\<lparr>pi_indexCheckKind := ICNoArrayPart,
                      pi_valueCheckKind := (if IsInt32 v then VInt32 else if IsDouble v then VDouble else VNotNil),
                      pi_newArrayType := newArrType\<rparr>
                in (case t_hiddenClass t of
                      HStructure p \<Rightarrow>
                        (case UpdateArrayType env (vm_sh vm) p newArrType of None \<Rightarrow> None
                         | Some (sh, r) \<Rightarrow> Some (vm\<lparr>vm_sh := sh\<rparr>, info\<lparr>pi_newHiddenClass := HStructure r\<rparr>))
                    | HDictionary p d \<Rightarrow> Some (vm, info))
         else if IsContinuous arrType
           then Some (vm, info\<lparr>pi_indexCheckKind := Continuous, pi_valueCheckKind := continuous_check (ArrayKind arrType)\<rparr>)
         else Some (vm, info\<lparr>pi_indexCheckKind := InBound, pi_valueCheckKind := in_bound_check (ArrayKind arrType)\<rparr>))"

definition TryPutByIntegerIndexFast :: "table_object \<Rightarrow> 64 word \<Rightarrow> tvalue \<Rightarrow> PutByIntegerIndexICInfo \<Rightarrow> table_object option" where
  "TryPutByIntegerIndexFast t index v icInfo =
     (if \<not> CheckValueMeetsPreconditionForPutByIntegerIndexFastPath v (pi_valueCheckKind icInfo) then None
      else case pi_indexCheckKind icInfo of
        Continuous \<Rightarrow> TryPutByIntegerIndexFastPath_ContinuousArray t index v
      | InBound \<Rightarrow> TryPutByIntegerIndexFastPath_InBoundPut t index v
      | ICNoArrayPart \<Rightarrow>
          if t_butterfly t = None \<or> sint index \<noteq> x_arrayBaseOrd then None
          else if 0 < m_arrayStorageCapacity (t_header t)
            then Some ((set_arrayLength 1 (set_index index v t))
              \<lparr>t_arrayType := pi_newArrayType icInfo, t_hiddenClass := pi_newHiddenClass icInfo\<rparr>)
          else None
      | ForceSlowPath \<Rightarrow> None)"

end
