(* ===== verification/TableArrayInv.thy ===== *)
theory TableArrayInv
  imports TableArray
begin

unbundle bit_operations_syntax

text \<open>
  The invariant of the array part and the function from keys to values that it represents: the vector holds the keys it covers, the
  sparse map the rest, and the array type tells the readers which of the two to look at. Reading returns the
  represented value; \<open>arr_written\<close> is what a write has to achieve.
\<close>

section \<open>The precomputed table of kinds\<close>

lemma small_bits:
  assumes "(x::u64) < 4" "2 \<le> k"
  shows "\<not> bit x k"
proof -
  have "(2::nat) ^ 2 \<le> 2 ^ k" using assms(2) by (intro power_increasing) auto
  moreover have "unat x < 4" using assms(1) by (simp add: word_less_nat_alt)
  ultimately have "unat x div 2 ^ k = 0" by simp
  then have "\<not> bit (unat x) k" by (simp add: bit_iff_odd)
  then show ?thesis by (auto simp: bit_unsigned_iff dest: bit_imp_le_length)
qed

lemma bit_packed:
  assumes "\<And>i. f i < (4::u64)" "n \<le> 32"
  shows "bit (fold (\<lambda>m r. r OR push_bit (m * 2) (f m)) [0..<n] (0::u64)) j \<longleftrightarrow> j div 2 < n \<and> bit (f (j div 2)) (j mod 2)"
  using assms(2)
proof (induction n)
  case (Suc n)
  have hi: "\<not> bit (f n) k" if "2 \<le> k" for k using small_bits[OF assms(1) that] .
  have "bit (push_bit (n * 2) (f n)) j \<longleftrightarrow> j div 2 = n \<and> bit (f n) (j mod 2)"
  proof (cases "n * 2 \<le> j \<and> j < n * 2 + 2")
    case True
    then have "j div 2 = n" by auto
    moreover from this have "j mod 2 = j - n * 2" by (metis minus_div_mult_eq_mod)
    ultimately have "j div 2 = n" "j mod 2 = j - n * 2" by simp_all
    then show ?thesis using True Suc.prems by (auto simp: bit_push_bit_iff)
  next
    case False
    then have "j div 2 \<noteq> n" by auto
    moreover have "\<not> bit (push_bit (n * 2) (f n)) j" using False hi[of "j - n * 2"] by (cases "n * 2 \<le> j") (auto simp: bit_push_bit_iff)
    ultimately show ?thesis by simp
  qed
  with Suc show ?case by (auto simp: bit_or_iff less_Suc_eq)
qed simp

lemma packed_field:
  assumes "\<And>i. f i < (4::u64)" "i < 32"
  shows "drop_bit (i * 2) (fold (\<lambda>m r. r OR push_bit (m * 2) (f m)) [0..<32] (0::u64)) AND 3 = f i"
proof (rule bit_word_eqI)
  fix k assume "k < LENGTH(64)"
  have three: "(3::u64) = mask 2" by (simp add: mask_eq_exp_minus_1)
  have hi: "\<not> bit (f i) k" if "2 \<le> k" using small_bits[OF assms(1) that] .
  have "(i * 2 + k) div 2 = i \<and> (i * 2 + k) mod 2 = k" if "k < 2" using that by auto
  then show "bit (drop_bit (i * 2) (fold (\<lambda>m r. r OR push_bit (m * 2) (f m)) [0..<32] (0::u64)) AND 3) k = bit (f i) k"
    using bit_packed[of f 32 "i * 2 + k", OF assms(1)] assms(2) hi
    by (cases "k < 2") (auto simp: bit_and_iff bit_drop_bit_eq three bit_mask_iff)
qed

lemma GetIdxKind_word: "GetIdxKind_to_word k < 4" "word_to_GetIdxKind (GetIdxKind_to_word k) = k"
  by (cases k; simp add: word_to_GetIdxKind_def)+

text \<open>The kind does not depend on the metatable bit and the bits above it.\<close>

lemma Naive_mod: "NaiveComputeGetByIntegerIndexIcKindFromArrayType (of_nat (unat a mod 32)) = NaiveComputeGetByIntegerIndexIcKindFromArrayType a"
proof -
  let ?b = "of_nat (unat a mod 32) :: u8"
  have "?b = take_bit 5 a"
  proof (rule word_unat_eq_iff[THEN iffD2])
    have "unat (take_bit 5 a) = unat a mod 32" unfolding unsigned_take_bit_eq by (simp only: take_bit_eq_mod) simp
    then show "unat ?b = unat (take_bit 5 a)" by (simp add: unat_of_nat take_bit_nat_eq_self)
  qed
  then have bits: "bit ?b i = bit a i" if "i < 5" for i using that by (simp add: bit_take_bit_iff)
  have kind: "ArrayKind x = (if bit x 0 then if bit x 1 then KAny else KInt32 else if bit x 1 then KDouble else NoButterflyArrayPart)" for x
    using word_to_kind_bits[of x] by (cases "ArrayKind x") auto
  show ?thesis
    unfolding NaiveComputeGetByIntegerIndexIcKindFromArrayType_def kind at_get_defs
    by (simp add: bfm_GetBool_bit[simplified] bits)
qed

lemma icKind_eq_naive:
  "ComputeGetByIntegerIndexIcKindFromArrayType a = NaiveComputeGetByIntegerIndexIcKindFromArrayType a"
proof -
  have "unat a * 2 mod 64 = unat a mod 32 * 2" using mod_mult_mult2[of "unat a" 2 32] by simp
  then show ?thesis
    using packed_field[of "\<lambda>m. GetIdxKind_to_word (NaiveComputeGetByIntegerIndexIcKindFromArrayType (of_nat m))" "unat a mod 32"]
    by (simp add: ComputeGetByIntegerIndexIcKindFromArrayType_def ComputeGetByIntegerIndexIcBitVectorForNonContinuousArray_def
        GetIdxKind_word Naive_mod)
qed

section \<open>Contents\<close>

lemma IsInt64Index_norm: "IsInt64Index (float_norm d) = IsInt64Index d"
  using IsInt64Index_zero[of d] IsInt64Index_zero[of 0] by (auto simp: float_norm_def)

definition vec_at :: "tvalue list \<Rightarrow> int \<Rightarrow> tvalue option" where
  "vec_at xs i = (if 1 \<le> i \<and> i \<le> int (length xs) then Some (xs ! nat (i - 1)) else None)"

text \<open>The value at a key, given the vector and the function that the sparse map represents.\<close>

definition arr_fun :: "tvalue list \<Rightarrow> (double \<Rightarrow> tvalue) \<Rightarrow> double \<Rightarrow> tvalue" where
  "arr_fun xs g d = (case IsInt64Index d of
      Some w \<Rightarrow> (case vec_at xs (sint w) of Some v \<Rightarrow> v | None \<Rightarrow> g (float_norm d))
    | None \<Rightarrow> g (float_norm d))"

lemma arr_fun_norm: "arr_fun xs g (float_norm d) = arr_fun xs g d"
  unfolding arr_fun_def IsInt64Index_norm float_norm_idem by (rule refl)

lemma norm_eq_index:
  assumes "exact_index w" "\<not> IsNaN d"
  shows "float_norm d = int64_to_double w \<longleftrightarrow> IsInt64Index d = Some w"
  using exact_index_IsInt64Index[OF assms(1)] IsInt64Index_norm[of d] IsInt64Index_SomeD(1)[of d w] by metis

lemma vec_at_update:
  assumes "1 \<le> i" "i \<le> int (length xs)"
  shows "vec_at (xs[nat (i - 1) := v]) j = (if j = i then Some v else vec_at xs j)"
  using assms by (auto simp: vec_at_def nth_list_update)

lemma arr_fun_write:
  assumes "exact_index w" "1 \<le> sint w" "sint w \<le> int (length xs)" "\<not> IsNaN d"
  shows "arr_fun (xs[nat (sint w - 1) := v]) g d = (if float_norm d = int64_to_double w then v else arr_fun xs g d)"
proof (cases "IsInt64Index d")
  case None
  then show ?thesis using norm_eq_index[OF assms(1,4)] by (simp add: arr_fun_def)
next
  case (Some w')
  have "sint w' = sint w \<longleftrightarrow> w' = w" by (metis signed_word_eqI)
  then show ?thesis using Some norm_eq_index[OF assms(1,4)] by (simp add: arr_fun_def vec_at_update[OF assms(2,3)])
qed

lemma arr_fun_pad:
  assumes "\<And>w. int (length xs) < sint w \<Longrightarrow> sint w \<le> int (length xs + n) \<Longrightarrow> g (int64_to_double w) = Nil"
  shows "arr_fun (xs @ replicate n Nil) g d = arr_fun xs g d"
proof (cases "IsInt64Index d")
  case (Some w)
  then show ?thesis using assms[of w] IsInt64Index_SomeD(1)[OF Some] by (auto simp: arr_fun_def vec_at_def nth_append)
qed (simp add: arr_fun_def)

lemma arr_fun_sparse:
  assumes "\<And>w. IsInt64Index k = Some w \<Longrightarrow> vec_at xs (sint w) = None"
  shows "arr_fun xs (g(float_norm k := v)) d = (if float_norm d = float_norm k then v else arr_fun xs g d)"
proof (cases "float_norm d = float_norm k")
  case True
  then have "IsInt64Index d = IsInt64Index k" by (metis IsInt64Index_norm)
  then show ?thesis using True assms by (auto simp: arr_fun_def split: option.splits)
qed (auto simp: arr_fun_def split: option.splits)

section \<open>The invariant\<close>

definition kind_ok :: "Kind \<Rightarrow> tvalue \<Rightarrow> bool" where
  "kind_ok k v \<longleftrightarrow> IsNil v \<or> (case k of NoButterflyArrayPart \<Rightarrow> False | KInt32 \<Rightarrow> IsInt32 v | KDouble \<Rightarrow> IsDouble v | KAny \<Rightarrow> True)"

definition vec_ok :: "u8 \<Rightarrow> tvalue list \<Rightarrow> int \<Rightarrow> bool" where
  "vec_ok at xs len \<longleftrightarrow> (\<forall>x\<in>set xs. kind_ok (ArrayKind at) x) \<and>
     (if ArrayKind at = NoButterflyArrayPart then len = 0 \<and> \<not> IsContinuous at \<and> int (length xs) \<le> x_alwaysVectorCutoff
      else (IsContinuous at \<longleftrightarrow> 0 \<le> len) \<and> (HasSparseMap at \<longleftrightarrow> len < - 1)) \<and>
     (IsContinuous at \<longrightarrow> len \<le> int (length xs) \<and> (\<forall>i<length xs. \<not> IsNil (xs ! i) \<longleftrightarrow> int i < len))"

definition at_ok :: "u8 \<Rightarrow> bool" where
  "at_ok at \<longleftrightarrow> valid_array_type at \<and> (SparseMapContainsVectorIndex at \<longrightarrow> HasSparseMap at) \<and>
     (HasSparseMap at \<longrightarrow> ArrayKind at = KAny)"

definition bf_ok :: "u8 \<Rightarrow> butterfly option \<Rightarrow> bool" where
  "bf_ok at bo \<longleftrightarrow> (case bo of
      None \<Rightarrow> ArrayKind at = NoButterflyArrayPart \<and> \<not> IsContinuous at
    | Some b \<Rightarrow> unat (m_arrayStorageCapacity (bf_header b)) = length (bf_vector b) \<and> length (bf_vector b) \<le> 2 ^ 27 \<and>
        vec_ok at (bf_vector b) (sint (m_arrayLengthIfContinuous (bf_header b))))"

definition sparse_ok :: "vm_env \<Rightarrow> u8 \<Rightarrow> sparse_map option \<Rightarrow> (double \<Rightarrow> tvalue) \<Rightarrow> bool" where
  "sparse_ok env at mo g \<longleftrightarrow> (HasSparseMap at \<longleftrightarrow> mo \<noteq> None) \<and>
     (case mo of None \<Rightarrow> g = (\<lambda>_. Nil) | Some m \<Rightarrow> sm_repr env m g) \<and>
     (\<not> SparseMapContainsVectorIndex at \<longrightarrow> (\<forall>w. 1 \<le> sint w \<and> sint w \<le> x_unconditionallySparseMapCutoff \<longrightarrow> g (int64_to_double w) = Nil))"

definition t_vec :: "table_object \<Rightarrow> tvalue list" where
  "t_vec t = (case t_butterfly t of None \<Rightarrow> [] | Some b \<Rightarrow> bf_vector b)"

text \<open>No index of the vector has a value in the sparse map, so that the two parts never disagree.\<close>

definition apart :: "tvalue list \<Rightarrow> (double \<Rightarrow> tvalue) \<Rightarrow> bool" where
  "apart xs g \<longleftrightarrow> (\<forall>w. 1 \<le> sint w \<and> sint w \<le> int (length xs) \<longrightarrow> g (int64_to_double w) = Nil)"

definition arr_ok :: "vm_env \<Rightarrow> table_object \<Rightarrow> (double \<Rightarrow> tvalue) \<Rightarrow> bool" where
  "arr_ok env t g \<longleftrightarrow> at_ok (t_arrayType t) \<and> bf_ok (t_arrayType t) (t_butterfly t) \<and> sparse_ok env (t_arrayType t) (t_sparseMap t) g \<and>
     apart (t_vec t) g"

lemma arr_okD:
  assumes "arr_ok env t g"
  shows "at_ok (t_arrayType t)" "bf_ok (t_arrayType t) (t_butterfly t)" "sparse_ok env (t_arrayType t) (t_sparseMap t) g"
    "apart (t_vec t) g"
  using assms by (simp_all add: arr_ok_def)

lemma bf_okD:
  assumes "bf_ok at (Some b)"
  shows "unat (m_arrayStorageCapacity (bf_header b)) = length (bf_vector b)" "length (bf_vector b) \<le> 2 ^ 27"
    "vec_ok at (bf_vector b) (sint (m_arrayLengthIfContinuous (bf_header b)))"
  using assms by (simp_all add: bf_ok_def)

lemma sparse_none: "sparse_ok env at mo g \<Longrightarrow> \<not> HasSparseMap at \<Longrightarrow> g = (\<lambda>_. Nil)"
  by (auto simp: sparse_ok_def split: option.splits)

lemma sparse_some: "sparse_ok env at mo g \<Longrightarrow> HasSparseMap at \<Longrightarrow> \<exists>m. mo = Some m \<and> sm_repr env m g"
  by (auto simp: sparse_ok_def split: option.splits)

lemma fits_iff:
  assumes "bf_ok at (Some b)"
  shows "IndexFitsInVectorCapacity (bf_header b) w \<longleftrightarrow> 1 \<le> sint w \<and> sint w \<le> int (length (bf_vector b))"
proof -
  have "uint (m_arrayStorageCapacity (bf_header b)) = int (length (bf_vector b))"
    using bf_okD(1)[OF assms] by (metis uint_nat)
  then show ?thesis unfolding IndexFitsInVectorCapacity_iff by (auto simp: x_arrayBaseOrd_def)
qed

lemma TryAccess_vec_at:
  assumes "arr_ok env t g" "t_butterfly t = Some b"
  shows "TryAccessIndexInVectorStorage t w = vec_at (t_vec t) (sint w)"
  using fits_iff[of "t_arrayType t" b w] arr_okD(2)[OF assms(1)] assms(2)
  by (simp add: TryAccessIndexInVectorStorage_def vec_at_def t_vec_def t_header_def bf_GetInVectorIndex_def bf_vec_pos_def x_arrayBaseOrd_def)

lemma no_array_nil:
  assumes "arr_ok env t g" "ArrayKind (t_arrayType t) = NoButterflyArrayPart"
  shows "arr_fun (t_vec t) g d = Nil" "g = (\<lambda>_. Nil)" "\<forall>x\<in>set (t_vec t). x = Nil"
proof -
  have "\<not> HasSparseMap (t_arrayType t)" using arr_okD(1)[OF assms(1)] assms(2) by (auto simp: at_ok_def)
  then show g: "g = (\<lambda>_. Nil)" using sparse_none arr_okD(3)[OF assms(1)] by blast
  show v: "\<forall>x\<in>set (t_vec t). x = Nil"
    using arr_okD(2)[OF assms(1)] assms(2) by (auto simp: bf_ok_def vec_ok_def kind_ok_def IsNil_def t_vec_def split: option.splits)
  have "vec_at (t_vec t) i = Some x \<Longrightarrow> x = Nil" for i x using v by (auto simp: vec_at_def split: if_splits)
  then show "arr_fun (t_vec t) g d = Nil" using g by (auto simp: arr_fun_def split: option.splits)
qed

lemma GetByIntegerIndex_correct:
  assumes ok: "arr_ok env t g" and w: "IsInt64Index d = Some w"
  shows "GetByIntegerIndex env t w (PrepareGetByIntegerIndex t) = Some (arr_fun (t_vec t) g d)"
proof -
  let ?at = "t_arrayType t"
  have k: "gi_icKind (PrepareGetByIntegerIndex t) = NaiveComputeGetByIntegerIndexIcKindFromArrayType ?at"
    by (simp add: PrepareGetByIntegerIndex_def icKind_eq_naive)
  have n: "int64_to_double w = float_norm d" using IsInt64Index_SomeD(1)[OF w] .
  have q: "QueryArraySparseMap env t (int64_to_double w) = Some (g (float_norm d))" if HS: "HasSparseMap ?at"
  proof -
    obtain m where "t_sparseMap t = Some m" "sm_repr env m g"
      using sparse_some[OF arr_okD(3)[OF ok] HS] by blast
    then show ?thesis using GetByVal_correct[of env m g "int64_to_double w"] n IsInt64Index_SomeD(2)[OF w] by (simp add: QueryArraySparseMap_def)
  qed
  show ?thesis
  proof (cases "ArrayKind ?at = NoButterflyArrayPart")
    case True
    then have "\<not> IsContinuous ?at" using arr_okD(2)[OF ok] by (auto simp: bf_ok_def vec_ok_def split: option.splits)
    then show ?thesis using True no_array_nil(1)[OF ok True]
      by (simp add: GetByIntegerIndex_def k NaiveComputeGetByIntegerIndexIcKindFromArrayType_def)
  next
    case False
    then obtain b where b: "t_butterfly t = Some b" using arr_okD(2)[OF ok] by (auto simp: bf_ok_def split: option.splits)
    note T = TryAccess_vec_at[OF ok b, of w]
    have cont: "\<not> HasSparseMap ?at" if "IsContinuous ?at"
      using arr_okD(2)[OF ok] b that False by (auto simp: bf_ok_def vec_ok_def)
    have imp: "HasSparseMap ?at" if "SparseMapContainsVectorIndex ?at" using arr_okD(1)[OF ok] that by (simp add: at_ok_def)
    have none: "g x = Nil" if "\<not> HasSparseMap ?at" for x using sparse_none[OF arr_okD(3)[OF ok] that] by simp
    have lo: "g (float_norm d) = Nil" if "\<not> SparseMapContainsVectorIndex ?at" "1 \<le> sint w" "sint w \<le> x_unconditionallySparseMapCutoff"
      using arr_okD(3)[OF ok] that n by (auto simp: sparse_ok_def)
    show ?thesis
    proof (cases "vec_at (t_vec t) (sint w)")
      case None
      then show ?thesis using False T q cont imp none lo w
        by (auto simp: GetByIntegerIndex_def k NaiveComputeGetByIntegerIndexIcKindFromArrayType_def arr_fun_def x_arrayBaseOrd_def)
    next
      case (Some v)
      then show ?thesis using False T w
        by (auto simp: GetByIntegerIndex_def k NaiveComputeGetByIntegerIndexIcKindFromArrayType_def arr_fun_def)
    qed
  qed
qed

lemma GetByDoubleVal_correct:
  assumes ok: "arr_ok env t g" and d: "\<not> IsNaN d"
  shows "GetByDoubleVal env t d (PrepareGetByIntegerIndex t) = Some (arr_fun (t_vec t) g d)"
proof (cases "IsInt64Index d")
  case (Some w)
  then show ?thesis using GetByIntegerIndex_correct[OF ok Some] by (simp add: GetByDoubleVal_def)
next
  case None
  let ?at = "t_arrayType t"
  have k: "gi_icKind (PrepareGetByIntegerIndex t) = NaiveComputeGetByIntegerIndexIcKindFromArrayType ?at"
    by (simp add: PrepareGetByIntegerIndex_def icKind_eq_naive)
  have q: "QueryArraySparseMap env t d = Some (g (float_norm d))" if HS: "HasSparseMap ?at"
  proof -
    obtain m where "t_sparseMap t = Some m" "sm_repr env m g"
      using sparse_some[OF arr_okD(3)[OF ok] HS] by blast
    then show ?thesis using GetByVal_correct[of env m g d] d by (simp add: QueryArraySparseMap_def)
  qed
  have none: "g x = Nil" if "\<not> HasSparseMap ?at" for x using sparse_none[OF arr_okD(3)[OF ok] that] by simp
  have sp: "ArrayKind ?at = KAny \<and> \<not> IsContinuous ?at" if "HasSparseMap ?at"
    using that arr_okD(1,2)[OF ok] by (auto simp: at_ok_def bf_ok_def vec_ok_def split: option.splits)
  have imp: "HasSparseMap ?at" if "SparseMapContainsVectorIndex ?at" using arr_okD(1)[OF ok] that by (simp add: at_ok_def)
  show ?thesis using None q none sp imp
    by (cases "HasSparseMap ?at") (auto simp: GetByDoubleVal_def k NaiveComputeGetByIntegerIndexIcKindFromArrayType_def arr_fun_def)
qed

section \<open>Writing into the vector\<close>

definition t_len :: "table_object \<Rightarrow> int" where
  "t_len t = (case t_butterfly t of None \<Rightarrow> 0 | Some b \<Rightarrow> sint (m_arrayLengthIfContinuous (bf_header b)))"

definition t_named :: "table_object \<Rightarrow> tvalue list" where
  "t_named t = (case t_butterfly t of None \<Rightarrow> [] | Some b \<Rightarrow> bf_named b)"

lemma t_butterfly_Some [simp]:
  assumes "t_butterfly t = Some b"
  shows "t_vec t = bf_vector b" "t_len t = sint (m_arrayLengthIfContinuous (bf_header b))" "t_named t = bf_named b" "t_header t = bf_header b"
  using assms by (simp_all add: t_vec_def t_len_def t_named_def t_header_def)

lemma t_butterfly_None [simp]:
  assumes "t_butterfly t = None"
  shows "t_vec t = []" "t_len t = 0" "t_named t = []"
  using assms by (simp_all add: t_vec_def t_len_def t_named_def)

lemma bf_ok_vec: "bf_ok at (t_butterfly t) \<Longrightarrow> vec_ok at (t_vec t) (t_len t) \<and> length (t_vec t) \<le> 2 ^ 27"
  by (cases "t_butterfly t") (auto simp: bf_ok_def vec_ok_def x_alwaysVectorCutoff_def)

lemma bf_ok_cap: "bf_ok at (Some b) \<Longrightarrow> int (unat (m_arrayStorageCapacity (bf_header b))) = int (length (bf_vector b))"
  by (simp add: bf_okD(1))

lemma vec_okD:
  assumes "vec_ok at xs len"
  shows "x \<in> set xs \<Longrightarrow> kind_ok (ArrayKind at) x"
    "ArrayKind at = NoButterflyArrayPart \<Longrightarrow> len = 0 \<and> \<not> IsContinuous at \<and> int (length xs) \<le> x_alwaysVectorCutoff"
    "ArrayKind at \<noteq> NoButterflyArrayPart \<Longrightarrow> (IsContinuous at \<longleftrightarrow> 0 \<le> len) \<and> (HasSparseMap at \<longleftrightarrow> len < - 1)"
    "IsContinuous at \<Longrightarrow> len \<le> int (length xs)"
    "IsContinuous at \<Longrightarrow> i < length xs \<Longrightarrow> \<not> IsNil (xs ! i) \<longleftrightarrow> int i < len"
    "IsContinuous at \<Longrightarrow> 0 \<le> len"
  using assms by (auto simp: vec_ok_def split: if_splits)

lemma vec_ok_sparse_write:
  assumes "\<And>x. x \<in> set xs \<Longrightarrow> kind_ok (ArrayKind at) x" "kind_ok (ArrayKind at) v"
    "ArrayKind at \<noteq> NoButterflyArrayPart" "\<not> IsContinuous at" "len < 0" "HasSparseMap at \<longleftrightarrow> len < - 1"
  shows "vec_ok at (xs[p := v]) len"
  using assms set_update_subset_insert[of xs p v] by (auto simp: vec_ok_def)

lemma vec_ok_continuous_write:
  assumes "\<And>x. x \<in> set xs \<Longrightarrow> kind_ok (ArrayKind at) x" "kind_ok (ArrayKind at) v"
    "ArrayKind at \<noteq> NoButterflyArrayPart" "IsContinuous at" "0 \<le> len" "len \<le> int (length xs)" "\<not> HasSparseMap at"
    "\<And>i. i < length xs \<Longrightarrow> \<not> IsNil ((xs[p := v]) ! i) \<longleftrightarrow> int i < len"
  shows "vec_ok at (xs[p := v]) len"
  using assms set_update_subset_insert[of xs p v] by (auto simp: vec_ok_def)

text \<open>
  A table prepared for a write: the vector has been padded with nil if that is allowed and contains the index, and the array type is the one
  after the write.
\<close>

definition write_ready :: "table_object \<Rightarrow> 64 word \<Rightarrow> tvalue \<Rightarrow> table_object \<Rightarrow> u8 \<Rightarrow> bool" where
  "write_ready t w v t2 at' \<longleftrightarrow> (\<exists>b n. t2 = t\<lparr>t_butterfly := Some b\<rparr> \<and> bf_vector b = t_vec t @ replicate n Nil \<and>
     unat (m_arrayStorageCapacity (bf_header b)) = length (bf_vector b) \<and> length (bf_vector b) \<le> 2 ^ 27 \<and>
     1 \<le> sint w \<and> sint w \<le> int (length (bf_vector b)) \<and>
     (0 < n \<longrightarrow> \<not> SparseMapContainsVectorIndex (t_arrayType t)) \<and> bf_named b = t_named t \<and>
     at_ok at' \<and> HasSparseMap at' = HasSparseMap (t_arrayType t) \<and>
     SparseMapContainsVectorIndex at' = SparseMapContainsVectorIndex (t_arrayType t) \<and>
     MayHaveMetatable at' = MayHaveMetatable (t_arrayType t) \<and>
     vec_ok at' ((bf_vector b)[nat (sint w - 1) := v]) (sint (m_arrayLengthIfContinuous (bf_header b))))"

text \<open>What a write to the key \<open>k\<close> achieves, and what it leaves alone.\<close>

definition arr_written :: "vm_env \<Rightarrow> table_object \<Rightarrow> (double \<Rightarrow> tvalue) \<Rightarrow> double \<Rightarrow> tvalue \<Rightarrow> table_object \<Rightarrow> (double \<Rightarrow> tvalue) \<Rightarrow> bool" where
  "arr_written env t g k v t' g' \<longleftrightarrow> arr_ok env t' g' \<and>
     (\<forall>d. \<not> IsNaN d \<longrightarrow> arr_fun (t_vec t') g' d = (if float_norm d = float_norm k then v else arr_fun (t_vec t) g d)) \<and>
     MayHaveMetatable (t_arrayType t') = MayHaveMetatable (t_arrayType t) \<and>
     t_inlineStorage t' = t_inlineStorage t \<and> t_named t' = t_named t"

lemma exact_vector_index: "1 \<le> sint w \<Longrightarrow> sint w \<le> 2 ^ 27 \<Longrightarrow> exact_index w"
  by (rule exact_index_small) simp

lemma arr_ok_hidden: "arr_ok env (t\<lparr>t_hiddenClass := hc\<rparr>) g = arr_ok env t g"
  by (simp add: arr_ok_def t_vec_def)

lemma arr_written_hidden: "arr_written env t g k v (t'\<lparr>t_hiddenClass := hc\<rparr>) g' = arr_written env t g k v t' g'"
  by (simp add: arr_written_def arr_ok_hidden t_vec_def t_named_def)

lemma write_ready_written:
  assumes ok: "arr_ok env t g" and R: "write_ready t w v t2 at'"
  shows "arr_written env t g (int64_to_double w) v ((set_index w v t2)\<lparr>t_arrayType := at'\<rparr>) g"
proof -
  let ?at = "t_arrayType t" and ?t' = "(set_index w v t2)\<lparr>t_arrayType := at'\<rparr>"
  obtain b n where b: "t2 = t\<lparr>t_butterfly := Some b\<rparr>" "bf_vector b = t_vec t @ replicate n Nil"
    "unat (m_arrayStorageCapacity (bf_header b)) = length (bf_vector b)" "length (bf_vector b) \<le> 2 ^ 27"
    "1 \<le> sint w" "sint w \<le> int (length (bf_vector b))" "0 < n \<longrightarrow> \<not> SparseMapContainsVectorIndex ?at" "bf_named b = t_named t"
    "at_ok at'" "HasSparseMap at' = HasSparseMap ?at" "SparseMapContainsVectorIndex at' = SparseMapContainsVectorIndex ?at"
    "MayHaveMetatable at' = MayHaveMetatable ?at"
    "vec_ok at' ((bf_vector b)[nat (sint w - 1) := v]) (sint (m_arrayLengthIfContinuous (bf_header b)))"
    using R unfolding write_ready_def by blast
  define b' where "b' = b\<lparr>bf_vector := (bf_vector b)[nat (sint w - 1) := v]\<rparr>"
  have t': "t_butterfly ?t' = Some b'" "t_arrayType ?t' = at'" "t_sparseMap ?t' = t_sparseMap t" "t_inlineStorage ?t' = t_inlineStorage t"
    by (simp_all add: set_index_def b(1) b'_def bf_SetInVectorIndex_def bf_vec_pos_def x_arrayBaseOrd_def)
  have ex: "exact_index w" using b(4-6) by (intro exact_vector_index) auto
  have grown: "g (int64_to_double u) = Nil" if u: "int (length (t_vec t)) < sint u" "sint u \<le> int (length (t_vec t) + n)" for u
  proof -
    have "0 < n" using u by auto
    moreover have "sint u \<le> x_unconditionallySparseMapCutoff" using u b(2,4) by (simp add: x_unconditionallySparseMapCutoff_def)
    ultimately show ?thesis using arr_okD(3)[OF ok] b(7) u by (auto simp: sparse_ok_def)
  qed
  have pad: "arr_fun (bf_vector b) g d = arr_fun (t_vec t) g d" for d
    unfolding b(2) using grown by (intro arr_fun_pad)
  have "arr_fun (bf_vector b') g d = (if float_norm d = int64_to_double w then v else arr_fun (t_vec t) g d)" if "\<not> IsNaN d" for d
    using arr_fun_write[OF ex b(5,6) that, of v g] pad by (simp add: b'_def)
  moreover have "bf_ok at' (Some b')" using b(3,4,13) by (simp add: bf_ok_def b'_def)
  moreover have "sparse_ok env at' (t_sparseMap t) g" using arr_okD(3)[OF ok] b(10,11) by (simp add: sparse_ok_def)
  moreover have "apart (bf_vector b') g"
    unfolding apart_def
  proof (intro allI impI)
    fix u :: "64 word" assume u: "1 \<le> sint u \<and> sint u \<le> int (length (bf_vector b'))"
    show "g (int64_to_double u) = Nil"
    proof (cases "sint u \<le> int (length (t_vec t))")
      case True
      then show ?thesis using arr_okD(4)[OF ok] u by (simp add: apart_def)
    next
      case False
      then show ?thesis using grown u by (simp add: b'_def b(2))
    qed
  qed
  ultimately show ?thesis unfolding arr_written_def arr_ok_def t' t_butterfly_Some[OF t'(1)]
    using b(8,9,12) by (simp add: b'_def)
qed

section \<open>The kinds of values\<close>

lemma kind_ok_nil [simp]: "kind_ok k Nil"
  by (simp add: kind_ok_def IsNil_def)

lemma new_kind_ok: "kind_ok (new_kind v) v" "new_kind v \<noteq> NoButterflyArrayPart"
  unfolding kind_ok_def new_kind_def by (auto split: if_splits)

lemma kind_check:
  "CheckValueMeetsPreconditionForPutByIntegerIndexFastPath v (continuous_check k) \<Longrightarrow> k \<noteq> NoButterflyArrayPart \<Longrightarrow> kind_ok k v"
  "CheckValueMeetsPreconditionForPutByIntegerIndexFastPath v (in_bound_check k) \<Longrightarrow> k \<noteq> NoButterflyArrayPart \<Longrightarrow> kind_ok k v"
  unfolding kind_ok_def continuous_check_def in_bound_check_def by (cases k; force)+

lemma Nil_not_number: "\<not> IsInt32 Nil" "\<not> IsDouble Nil"
  by (simp_all add: Nil_def CreateMIV_def miv_CreateNil_def x_nil_def x_mivTag_def IsInt32_def IsDouble_def x_int32Tag_def)

lemma continuous_check_not_nil:
  "CheckValueMeetsPreconditionForPutByIntegerIndexFastPath v (continuous_check k) \<Longrightarrow> \<not> IsNil v"
  using Nil_not_number by (cases k) (auto simp: continuous_check_def IsNil_def)

lemma updated_kind_kind:
  assumes "ArrayKind at \<noteq> NoButterflyArrayPart" "ArrayKind at' = ArrayKind at"
  shows "kind_ok (ArrayKind at) x \<Longrightarrow> kind_ok (ArrayKind (updated_kind at v at')) x"
    "kind_ok (ArrayKind (updated_kind at v at')) v" "ArrayKind (updated_kind at v at') \<noteq> NoButterflyArrayPart"
  using assms by (cases "ArrayKind at"; auto simp: updated_kind_def kind_ok_def)+

lemma updated_kind_frame [simp]:
  "HasSparseMap (updated_kind at v at') = HasSparseMap at'"
  "SparseMapContainsVectorIndex (updated_kind at v at') = SparseMapContainsVectorIndex at'"
  "IsContinuous (updated_kind at v at') = IsContinuous at'" "MayHaveMetatable (updated_kind at v at') = MayHaveMetatable at'"
  "valid_array_type (updated_kind at v at') = valid_array_type at'"
  by (simp_all add: updated_kind_def)

lemma updated_kind_any: "ArrayKind at = KAny \<Longrightarrow> updated_kind at v at' = at'"
  by (simp add: updated_kind_def)

lemma at_ok_updated:
  assumes "at_ok at"
  shows "at_ok (updated_kind at v (SetIsContinuous c at))"
proof -
  have "ArrayKind (updated_kind at v (SetIsContinuous c at)) = KAny" if "HasSparseMap at"
    using assms that by (simp add: at_ok_def updated_kind_any)
  then show ?thesis using assms by (simp add: at_ok_def)
qed

lemmas at_simps = at_get_set at_kind_frame at_set_kind_frame at_flag_frame valid_array_type_set

end
