(* ===== verification/TableArrayPut.thy ===== *)
theory TableArrayPut
  imports TableArrayInv
begin

unbundle bit_operations_syntax

text \<open>
  Writes to the array part: each step of the slow path prepares the vector or moves to the sparse map so that the
  write keeps the invariant and changes the represented function at the written key only, and the
  fast path performs the write that the slow path would.
\<close>

section \<open>The steps of the slow path\<close>

definition named_sized :: "sheap \<Rightarrow> table_object \<Rightarrow> bool" where
  "named_sized sh t \<longleftrightarrow> hc_butterflyNamedStorageCapacity sh (t_hiddenClass t) = length (t_named t)"

lemma grow_array:
  assumes "bf_ok at (t_butterfly t)" "named_sized sh t" "length (t_vec t) \<le> n" "n \<le> 2 ^ 27"
  obtains b where "GrowButterfly False sh t n = t\<lparr>t_butterfly := Some b\<rparr>" "bf_vector b = t_vec t @ replicate (n - length (t_vec t)) Nil"
    "unat (m_arrayStorageCapacity (bf_header b)) = n" "bf_named b = t_named t" "sint (m_arrayLengthIfContinuous (bf_header b)) = t_len t"
    "t_butterfly t = Some b0 \<Longrightarrow> m_arrayLengthIfContinuous (bf_header b) = m_arrayLengthIfContinuous (bf_header b0)"
proof -
  have n: "unat (of_nat n :: u32) = n" using assms(4) by (simp add: unat_of_nat take_bit_nat_eq_self)
  have g: "GrowButterfly False sh t n = GrowButterflyKnowingNamedStorageCapacity False t (length (t_named t)) n"
    using assms(2) by (simp add: GrowButterfly_def named_sized_def)
  show ?thesis
  proof (cases "t_butterfly t")
    case None
    then show ?thesis using that[of "GrowButterflyFromNull False n"] g n
      by (simp add: GrowButterflyKnowingNamedStorageCapacity_def GrowButterflyFromNull_def)
  next
    case (Some b1)
    define b where "b = b1\<lparr>bf_vector := bf_vector b1 @ replicate (n - length (bf_vector b1)) Nil,
        bf_header := (bf_header b1)\<lparr>m_arrayStorageCapacity := of_nat n\<rparr>\<rparr>"
    have "GrowButterfly False sh t n = t\<lparr>t_butterfly := Some b\<rparr>"
      using Some bf_okD(1)[of at b1] assms(1) unfolding g by (simp add: GrowButterflyKnowingNamedStorageCapacity_def b_def)
    then show ?thesis using that[of b] Some n by (simp add: b_def)
  qed
qed

lemma set_arrayLength_Some: "set_arrayLength w (t\<lparr>t_butterfly := Some b\<rparr>) =
    t\<lparr>t_butterfly := Some (b\<lparr>bf_header := (bf_header b)\<lparr>m_arrayLengthIfContinuous := w\<rparr>\<rparr>)\<rparr>"
  by (simp add: set_arrayLength_def)

definition slow_ok :: "table_object \<Rightarrow> (double \<Rightarrow> tvalue) \<Rightarrow> 64 word \<Rightarrow> tvalue \<Rightarrow> slow_step \<Rightarrow> bool" where
  "slow_ok t g w v st \<longleftrightarrow> (case st of
      SlowReturn \<Rightarrow> IsNil v \<and> (\<forall>d. IsInt64Index d = Some w \<longrightarrow> arr_fun (t_vec t) g d = Nil)
    | SlowSparseMap \<Rightarrow> vec_at (t_vec t) (sint w) = None
    | SlowWrite t2 at' \<Rightarrow> write_ready t w v t2 at')"

lemma IsNil_replicate_nth: "i < length xs + n \<Longrightarrow> \<not> IsNil ((xs @ replicate n Nil) ! i) \<longleftrightarrow> i < length xs \<and> \<not> IsNil (xs ! i)"
  by (auto simp: nth_append IsNil_def)

text \<open>Growing the vector, if needed, so that it contains the index.\<close>

lemma grow_ready:
  assumes ok: "bf_ok at (t_butterfly t)" "named_sized sh t"
    and n: "length (t_vec t) \<le> n" "n \<le> 2 ^ 27" "1 \<le> sint w" "sint w \<le> int n"
    and b: "GrowButterfly False sh t n = t\<lparr>t_butterfly := Some b\<rparr>" "bf_vector b = t_vec t @ replicate (n - length (t_vec t)) Nil"
    "unat (m_arrayStorageCapacity (bf_header b)) = n" "bf_named b = t_named t"
    and at: "\<not> SparseMapContainsVectorIndex (t_arrayType t)" "at_ok at'" "HasSparseMap at' = HasSparseMap (t_arrayType t)"
     "SparseMapContainsVectorIndex at' = SparseMapContainsVectorIndex (t_arrayType t)" "MayHaveMetatable at' = MayHaveMetatable (t_arrayType t)"
    and vec: "vec_ok at' ((bf_vector b)[nat (sint w - 1) := v]) (sint l)"
  shows "write_ready t w v (set_arrayLength l (GrowButterfly False sh t n)) at'"
  unfolding write_ready_def b(1) set_arrayLength_Some
  using n b at vec by (intro exI[of _ "b\<lparr>bf_header := (bf_header b)\<lparr>m_arrayLengthIfContinuous := l\<rparr>\<rparr>"]
      exI[of _ "n - length (t_vec t)"]) auto

lemma stay_ready:
  assumes "bf_ok at (Some b)" "t_butterfly t = Some b" "1 \<le> sint w" "sint w \<le> int (length (bf_vector b))"
    and at: "at_ok at'" "HasSparseMap at' = HasSparseMap (t_arrayType t)"
     "SparseMapContainsVectorIndex at' = SparseMapContainsVectorIndex (t_arrayType t)" "MayHaveMetatable at' = MayHaveMetatable (t_arrayType t)"
    and vec: "vec_ok at' ((bf_vector b)[nat (sint w - 1) := v]) (sint l)"
  shows "write_ready t w v (set_arrayLength l t) at'"
  unfolding write_ready_def set_arrayLength_def
  using assms bf_okD[OF assms(1)] by (intro exI[of _ "b\<lparr>bf_header := (bf_header b)\<lparr>m_arrayLengthIfContinuous := l\<rparr>\<rparr>"] exI[of _ 0]) simp

lemma set_arrayLength_same: "t_butterfly t = Some b \<Longrightarrow> set_arrayLength (m_arrayLengthIfContinuous (bf_header b)) t = t"
  by (simp add: set_arrayLength_def)

text \<open>The first write into an array part that is all nil.\<close>

lemma vec_ok_first:
  assumes "\<forall>x\<in>set xs. x = Nil" "\<not> IsNil v" "1 \<le> i" "i \<le> int (length xs)" "\<not> HasSparseMap at"
  shows "vec_ok (SetArrayKind (new_kind v) (SetIsContinuous (i = 1) at)) (xs[nat (i - 1) := v]) (if i = 1 then 1 else - 1)"
proof (cases "i = 1")
  case True
  have "\<not> IsNil (xs[0 := v] ! j) \<longleftrightarrow> j = 0" if "j < length xs" for j
    using that assms(1,2) by (cases j) (auto simp: IsNil_def)
  then show ?thesis using True assms new_kind_ok by (intro vec_ok_continuous_write) auto
next
  case False
  then show ?thesis using assms new_kind_ok by (intro vec_ok_sparse_write) auto
qed

lemma slow_no_array_part_ok:
  assumes ok: "arr_ok env t g" and nm: "named_sized sh t" and k: "ArrayKind (t_arrayType t) = NoButterflyArrayPart"
    and w: "1 \<le> sint w"
  shows "slow_ok t g w v (slow_no_array_part sh t (sint w) v)"
proof -
  let ?at = "t_arrayType t" and ?i = "sint w"
  note nil = no_array_nil[OF ok k]
  have at: "at_ok ?at" "\<not> HasSparseMap ?at" "\<not> SparseMapContainsVectorIndex ?at" "valid_array_type ?at"
    using arr_okD(1)[OF ok] k by (auto simp: at_ok_def)
  have len: "int (length (t_vec t)) \<le> x_alwaysVectorCutoff"
    using bf_ok_vec[OF arr_okD(2)[OF ok]] vec_okD(2)[OF _ k] by auto
  consider "IsNil v" | "\<not> IsNil v" "?i > x_alwaysVectorCutoff" | "\<not> IsNil v" "?i \<le> x_alwaysVectorCutoff" by linarith
  then show ?thesis
  proof cases
    case 1
    then show ?thesis using nil(1) by (simp add: slow_no_array_part_def slow_ok_def)
  next
    case 2
    then show ?thesis using len by (simp add: slow_no_array_part_def slow_ok_def vec_at_def)
  next
    case 3
    let ?at' = "SetArrayKind (new_kind v) (SetIsContinuous (?i = 1) ?at)"
    let ?l = "if ?i = 1 then 1 else - 1 :: 32 word"
    have l: "sint ?l = (if ?i = 1 then 1 else - 1)" by simp
    have at': "at_ok ?at'" "HasSparseMap ?at' = HasSparseMap ?at" "SparseMapContainsVectorIndex ?at' = SparseMapContainsVectorIndex ?at"
      "MayHaveMetatable ?at' = MayHaveMetatable ?at" using at by (simp_all add: at_ok_def)
    show ?thesis
    proof (cases "?i \<le> int (length (t_vec t))")
      case True
      then obtain b where b: "t_butterfly t = Some b" using w by (cases "t_butterfly t") auto
      have bo: "bf_ok ?at (Some b)" using arr_okD(2)[OF ok] b by simp
      have "slow_no_array_part sh t ?i v = SlowWrite (set_arrayLength ?l t) ?at'"
        using 3 True b bf_ok_cap[OF bo] by (simp add: slow_no_array_part_def Let_def x_arrayBaseOrd_def)
      moreover have "write_ready t w v (set_arrayLength ?l t) ?at'"
        using vec_ok_first[of "bf_vector b" v ?i ?at] nil(3) 3 w True b at(2) unfolding l[symmetric]
        by (intro stay_ready[OF bo b _ _ at']) auto
      ultimately show ?thesis by (simp add: slow_ok_def)
    next
      case False
      let ?n = "max 4 (nat ?i)"
      have n: "length (t_vec t) \<le> ?n" "?n \<le> 2 ^ 27" "?i \<le> int ?n"
        using False 3(2) by (auto simp: x_alwaysVectorCutoff_def)
      obtain b where b: "GrowButterfly False sh t ?n = t\<lparr>t_butterfly := Some b\<rparr>"
          "bf_vector b = t_vec t @ replicate (?n - length (t_vec t)) Nil"
          "unat (m_arrayStorageCapacity (bf_header b)) = ?n" "bf_named b = t_named t"
        using grow_array[OF arr_okD(2)[OF ok] nm n(1,2)] by blast
      have need: "case t_butterfly t of None \<Rightarrow> True | Some b \<Rightarrow> ?i \<ge> int (unat (m_arrayStorageCapacity (bf_header b))) + x_arrayBaseOrd"
        using False arr_okD(2)[OF ok] bf_ok_cap by (auto simp: x_arrayBaseOrd_def split: option.splits)
      have "slow_no_array_part sh t ?i v = SlowWrite (set_arrayLength ?l (GrowButterfly False sh t ?n)) ?at'"
        using 3 need by (simp add: slow_no_array_part_def Let_def x_arrayBaseOrd_def x_initialVectorPartCapacity_def)
      moreover have "\<forall>x\<in>set (bf_vector b). x = Nil" "?i \<le> int (length (bf_vector b))" using nil(3) n by (auto simp: b(2))
      then have "vec_ok ?at' ((bf_vector b)[nat (?i - 1) := v]) (sint ?l)"
        unfolding l using vec_ok_first[of "bf_vector b" v ?i ?at] 3(1) w at(2) by blast
      then have "write_ready t w v (set_arrayLength ?l (GrowButterfly False sh t ?n)) ?at'"
        by (intro grow_ready[OF arr_okD(2)[OF ok] nm n(1,2) w n(3) b at(3) at'])
      ultimately show ?thesis by (simp add: slow_ok_def)
    qed
  qed
qed

section \<open>Writes outside of and inside the vector\<close>

lemma sint_of_small: "- (2 ^ 31) \<le> i \<Longrightarrow> i < 2 ^ 31 \<Longrightarrow> sint (word_of_int i :: 32 word) = i"
  by (rule sint_word_of_int_range) simp_all

lemma sint_succ:
  assumes "0 \<le> sint l" "sint l < 2 ^ 30"
  shows "sint (l + 1 :: 32 word) = sint l + 1"
proof -
  have "l + 1 = word_of_int (sint l + 1)" by simp
  then show ?thesis using sint_of_small[of "sint l + 1"] assms by simp
qed

text \<open>The array type and the length stay consistent when a value is appended, overwritten or removed at the end.\<close>

lemma vec_ok_updated:
  assumes vec: "vec_ok at xs len" and k: "ArrayKind at \<noteq> NoButterflyArrayPart" and at: "HasSparseMap at \<longrightarrow> \<not> c"
    and xs': "\<And>x. x \<in> set xs' \<Longrightarrow> x \<in> set xs \<or> x = Nil"
    and c: "c \<Longrightarrow> 0 \<le> len' \<and> len' \<le> int (length xs') \<and> (\<forall>i<length xs'. \<not> IsNil ((xs'[p := v]) ! i) \<longleftrightarrow> int i < len')"
    and nc: "\<not> c \<Longrightarrow> len' < 0 \<and> (HasSparseMap at \<longleftrightarrow> len' < - 1)"
  shows "vec_ok (updated_kind at v (SetIsContinuous c at)) (xs'[p := v]) len'"
proof -
  let ?at' = "updated_kind at v (SetIsContinuous c at)"
  have ko: "kind_ok (ArrayKind ?at') x" if "x \<in> set xs'" for x
    using xs'[OF that] updated_kind_kind(1)[OF k, of "SetIsContinuous c at"] vec_okD(1)[OF vec] by auto
  note kv = updated_kind_kind(2,3)[OF k, of "SetIsContinuous c at" v]
  show ?thesis
  proof (cases c)
    case True
    then show ?thesis using ko kv c at by (intro vec_ok_continuous_write) auto
  next
    case False
    then show ?thesis using ko kv nc by (intro vec_ok_sparse_write) auto
  qed
qed

lemma slow_out_of_bound_ok:
  assumes ok: "arr_ok env t g" and nm: "named_sized sh t" and k: "ArrayKind (t_arrayType t) \<noteq> NoButterflyArrayPart"
    and w: "int (length (t_vec t)) < sint w" "sint w \<le> x_unconditionallySparseMapCutoff"
  shows "slow_ok t g w v (slow_out_of_bound sh t (sint w) v)"
proof -
  let ?at = "t_arrayType t" and ?i = "sint w"
  obtain b where b: "t_butterfly t = Some b" using arr_okD(2)[OF ok] k by (auto simp: bf_ok_def split: option.splits)
  have bo: "bf_ok ?at (Some b)" using arr_okD(2)[OF ok] b by simp
  note vec = bf_okD(3)[OF bo] and cap = bf_okD(1)[OF bo] and at = arr_okD(1)[OF ok]
  let ?xs = "bf_vector b" and ?len = "sint (m_arrayLengthIfContinuous (bf_header b))"
  have tv: "t_vec t = ?xs" using b by simp
  consider "SparseMapContainsVectorIndex ?at" | "\<not> SparseMapContainsVectorIndex ?at" "IsNil v"
    | "\<not> SparseMapContainsVectorIndex ?at" "\<not> IsNil v" by blast
  then show ?thesis
  proof cases
    case 1
    then show ?thesis using w b by (simp add: slow_out_of_bound_def Let_def slow_ok_def vec_at_def)
  next
    case 2
    have "arr_fun (t_vec t) g d = Nil" if "IsInt64Index d = Some w" for d
    proof -
      have "g (int64_to_double w) = Nil" using arr_okD(3)[OF ok] 2(1) w by (auto simp: sparse_ok_def)
      then show ?thesis using that w(1) IsInt64Index_SomeD(1)[OF that] by (simp add: arr_fun_def vec_at_def)
    qed
    then show ?thesis using 2 b by (simp add: slow_out_of_bound_def Let_def slow_ok_def)
  next
    case 3
    let ?n = "slow_new_capacity (length ?xs) ?i"
    define c where "c \<longleftrightarrow> IsContinuous ?at \<and> ?i = ?len + 1"
    let ?at' = "updated_kind ?at v (SetIsContinuous c ?at)"
    have n: "length (t_vec t) \<le> ?n" "?n \<le> 2 ^ 27" "?i \<le> int ?n"
      using w bf_okD(2)[OF bo] by (auto simp: slow_new_capacity_def tv x_arrayBaseOrd_def x_unconditionallySparseMapCutoff_def)
    obtain b' where b': "GrowButterfly False sh t ?n = t\<lparr>t_butterfly := Some b'\<rparr>"
        "bf_vector b' = t_vec t @ replicate (?n - length (t_vec t)) Nil"
        "unat (m_arrayStorageCapacity (bf_header b')) = ?n" "bf_named b' = t_named t"
        "m_arrayLengthIfContinuous (bf_header b') = m_arrayLengthIfContinuous (bf_header b)"
      using grow_array[OF arr_okD(2)[OF ok] nm n(1,2)] b by metis
    have lb': "length (bf_vector b') = ?n" using b'(2) n(1) by simp
    define l where "l = (if c then m_arrayLengthIfContinuous (bf_header b) + 1 else if IsContinuous ?at then - 1
        else m_arrayLengthIfContinuous (bf_header b))"
    have lenc: "0 \<le> ?len" "?len \<le> int (length ?xs)" if "IsContinuous ?at" using vec_okD(4,6)[OF vec that] by auto
    have l: "sint l = (if c then ?len + 1 else if IsContinuous ?at then - 1 else ?len)"
      using sint_succ[of "m_arrayLengthIfContinuous (bf_header b)"] lenc bf_okD(2)[OF bo] by (auto simp: l_def c_def)
    have hs: "HasSparseMap ?at \<longrightarrow> \<not> IsContinuous ?at" using vec_okD(3)[OF vec k] by auto
    have v': "vec_ok ?at' ((bf_vector b')[nat (?i - 1) := v]) (sint l)"
    proof (rule vec_ok_updated[OF vec k])
      show "HasSparseMap ?at \<longrightarrow> \<not> c" using hs by (auto simp: c_def)
      show "x \<in> set (bf_vector b') \<Longrightarrow> x \<in> set ?xs \<or> x = Nil" for x using b'(2) tv by (auto split: if_splits)
      show "\<not> c \<Longrightarrow> sint l < 0 \<and> (HasSparseMap ?at \<longleftrightarrow> sint l < - 1)"
        using l hs vec_okD(3)[OF vec k] by auto
      assume c: "c"
      then have ct: "IsContinuous ?at" "?i = ?len + 1" by (auto simp: c_def)
      then have e: "?len = int (length ?xs)" using lenc w(1) tv by simp
      show "0 \<le> sint l \<and> sint l \<le> int (length (bf_vector b')) \<and>
          (\<forall>i<length (bf_vector b'). \<not> IsNil ((bf_vector b')[nat (?i - 1) := v] ! i) \<longleftrightarrow> int i < sint l)"
      proof (intro conjI allI impI)
        show "0 \<le> sint l" "sint l \<le> int (length (bf_vector b'))" using l c ct e n(3) lb' by auto
        fix i assume i: "i < length (bf_vector b')"
        have "\<not> IsNil (bf_vector b' ! i) \<longleftrightarrow> i < length ?xs"
          using i vec_okD(5)[OF vec ct(1), of i] e IsNil_replicate_nth[of i ?xs "?n - length ?xs"] n(1)
          unfolding b'(2) tv by auto
        moreover have "nat (?i - 1) = length ?xs" using ct(2) e by simp
        ultimately show "\<not> IsNil ((bf_vector b')[nat (?i - 1) := v] ! i) \<longleftrightarrow> int i < sint l"
          using i 3(2) l c e by (auto simp: nth_list_update split: if_splits)
      qed
    qed
    have w1: "1 \<le> ?i" using w(1) by linarith
    have R: "write_ready t w v (set_arrayLength l (GrowButterfly False sh t ?n)) ?at'"
      by (rule grow_ready[OF arr_okD(2)[OF ok] nm n(1,2) w1 n(3) b'(1-4) 3(1) at_ok_updated[OF at] _ _ _ v']) simp_all
    have t1: "t_header (GrowButterfly False sh t ?n) = bf_header b'" by (simp add: b'(1))
    have t2: "(if c then set_arrayLength (m_arrayLengthIfContinuous (t_header (GrowButterfly False sh t ?n)) + 1) (GrowButterfly False sh t ?n)
        else if IsContinuous ?at then set_arrayLength (- 1) (GrowButterfly False sh t ?n) else GrowButterfly False sh t ?n) =
        set_arrayLength l (GrowButterfly False sh t ?n)"
      unfolding t1 b'(5) l_def using set_arrayLength_same[of "GrowButterfly False sh t ?n" b'] by (auto simp: b'(1,5))
    have "slow_out_of_bound sh t ?i v \<in> {SlowSparseMap, SlowWrite (set_arrayLength l (GrowButterfly False sh t ?n)) ?at'}"
      unfolding slow_out_of_bound_def Let_def b option.sel cap x_arrayBaseOrd_def c_def[symmetric] t2 using 3 by simp
    then show ?thesis using R w by (auto simp: slow_ok_def vec_at_def)
  qed
qed

lemma slow_in_bound_ok:
  assumes ok: "arr_ok env t g" and k: "ArrayKind (t_arrayType t) \<noteq> NoButterflyArrayPart"
    and w: "1 \<le> sint w" "sint w \<le> int (length (t_vec t))"
  shows "slow_ok t g w v (slow_in_bound t (sint w) v)"
proof -
  let ?at = "t_arrayType t" and ?i = "sint w"
  obtain b where b: "t_butterfly t = Some b" using arr_okD(2)[OF ok] k by (auto simp: bf_ok_def split: option.splits)
  have bo: "bf_ok ?at (Some b)" using arr_okD(2)[OF ok] b by simp
  note vec = bf_okD(3)[OF bo] and at = arr_okD(1)[OF ok]
  let ?xs = "bf_vector b" and ?len = "sint (m_arrayLengthIfContinuous (bf_header b))"
  have tv: "t_vec t = ?xs" and th: "t_header t = bf_header b" using b by simp_all
  have i: "?i \<le> int (length ?xs)" "nat (?i - 1) < length ?xs" using w tv by auto
  have hs: "HasSparseMap ?at \<longrightarrow> \<not> IsContinuous ?at" using vec_okD(3)[OF vec k] by auto
  have R: "write_ready t w v (set_arrayLength l t) (updated_kind ?at v (SetIsContinuous c ?at))"
    if "HasSparseMap ?at \<longrightarrow> \<not> c" "c \<Longrightarrow> 0 \<le> sint l \<and> sint l \<le> int (length ?xs) \<and> (\<forall>j<length ?xs. \<not> IsNil (?xs[nat (?i - 1) := v] ! j) \<longleftrightarrow> int j < sint l)"
      "\<not> c \<Longrightarrow> sint l < 0 \<and> (HasSparseMap ?at \<longleftrightarrow> sint l < - 1)" for l c
    by (rule stay_ready[OF bo b w(1) i(1) at_ok_updated[OF at]])
      (use vec_ok_updated[OF vec k that(1), of ?xs "sint l" "nat (?i - 1)" v] that(2,3) in simp_all)
  show ?thesis
  proof (cases "IsContinuous ?at")
    case False
    have "write_ready t w v t (updated_kind ?at v (SetIsContinuous False ?at))"
      using R[of False "m_arrayLengthIfContinuous (bf_header b)"] vec_okD(3)[OF vec k] False
      by (simp add: set_arrayLength_same[OF b])
    then show ?thesis using False by (simp add: slow_in_bound_def Let_def slow_ok_def)
  next
    case True
    have len: "0 \<le> ?len" "?len \<le> int (length ?xs)" "?len \<le> 2 ^ 27" using vec_okD(4,6)[OF vec True] bf_okD(2)[OF bo] by auto
    note nn = vec_okD(5)[OF vec True]
    have ns: "\<not> HasSparseMap ?at" using hs True by blast
    have m1: "write_ready t w v (set_arrayLength (- 1) t) (updated_kind ?at v (SetIsContinuous False ?at))"
      using R[of False "- 1"] ns by simp
    consider (past) "IsNil v" "?i \<ge> ?len + 1" | (pop) "IsNil v" "?i = ?len" | (hole) "IsNil v" "?i < ?len"
      | (far) "\<not> IsNil v" "?i > ?len + 1" | (push) "\<not> IsNil v" "?i = ?len + 1" | (over) "\<not> IsNil v" "?i \<le> ?len" by linarith
    then show ?thesis
    proof cases
      case past
      have "arr_fun (t_vec t) g d = Nil" if "IsInt64Index d = Some w" for d
        using that nn[OF i(2)] past w by (simp add: arr_fun_def vec_at_def tv IsNil_def)
      then show ?thesis using past True by (simp add: slow_in_bound_def Let_def slow_ok_def th x_arrayBaseOrd_def)
    next
      case pop
      have l: "sint (word_of_int (?len + 1 - 1 - 1) :: 32 word) = ?len - 1" using len by (subst sint_of_small) auto
      have "write_ready t w v (set_arrayLength (word_of_int (?len + 1 - 1 - 1)) t) (updated_kind ?at v (SetIsContinuous True ?at))"
      proof (rule R)
        show "0 \<le> sint (word_of_int (?len + 1 - 1 - 1) :: 32 word) \<and> sint (word_of_int (?len + 1 - 1 - 1) :: 32 word) \<le> int (length ?xs) \<and>
            (\<forall>j<length ?xs. \<not> IsNil (?xs[nat (?i - 1) := v] ! j) \<longleftrightarrow> int j < sint (word_of_int (?len + 1 - 1 - 1) :: 32 word))"
          unfolding l using nn pop w(1) i len by (auto simp: nth_list_update split: if_splits)
      qed (use ns in auto)
      then show ?thesis using pop True by (simp add: slow_in_bound_def Let_def slow_ok_def th x_arrayBaseOrd_def)
    next
      case hole
      then show ?thesis using m1 True by (simp add: slow_in_bound_def Let_def slow_ok_def th x_arrayBaseOrd_def)
    next
      case far
      then show ?thesis using m1 True by (simp add: slow_in_bound_def Let_def slow_ok_def th x_arrayBaseOrd_def)
    next
      case push
      have l: "sint (word_of_int (?len + 1 + 1 - 1) :: 32 word) = ?len + 1" using len by (subst sint_of_small) auto
      have "write_ready t w v (set_arrayLength (word_of_int (?len + 1 + 1 - 1)) t) (updated_kind ?at v (SetIsContinuous True ?at))"
      proof (rule R)
        show "0 \<le> sint (word_of_int (?len + 1 + 1 - 1) :: 32 word) \<and> sint (word_of_int (?len + 1 + 1 - 1) :: 32 word) \<le> int (length ?xs) \<and>
            (\<forall>j<length ?xs. \<not> IsNil (?xs[nat (?i - 1) := v] ! j) \<longleftrightarrow> int j < sint (word_of_int (?len + 1 + 1 - 1) :: 32 word))"
          unfolding l using nn push w(1) i len by (auto simp: nth_list_update)
      qed (use ns in auto)
      then show ?thesis using push True by (simp add: slow_in_bound_def Let_def slow_ok_def th x_arrayBaseOrd_def)
    next
      case over
      have "write_ready t w v (set_arrayLength (m_arrayLengthIfContinuous (bf_header b)) t) (updated_kind ?at v (SetIsContinuous True ?at))"
        by (rule R) (use ns len nn over w(1) i in \<open>auto simp: nth_list_update\<close>)
      then show ?thesis using over True
        by (simp add: slow_in_bound_def Let_def slow_ok_def th x_arrayBaseOrd_def set_arrayLength_same[OF b])
    qed
  qed
qed

section \<open>The fast paths\<close>

lemma SetIsContinuous_same: "SetIsContinuous (IsContinuous a) a = a"
  by (rule bit_word_eqI) (auto simp: SetIsContinuous_def IsContinuous_def bit_SetFlag[simplified] bfm_GetBool_bit[simplified])

lemma same_array_type:
  assumes "kind_ok (ArrayKind at) v"
  shows "updated_kind at v (SetIsContinuous (IsContinuous at) at) = at"
  using assms unfolding SetIsContinuous_same by (cases "ArrayKind at") (auto simp: updated_kind_def kind_ok_def)

text \<open>A fast path writes what the in-bound branch of the slow path would have written.\<close>

lemma fast_path_slow:
  assumes ok: "arr_ok env t g" and f: "TryPutByValIntegerIndexFastNoIC t w v = Some t'"
  shows "ArrayKind (t_arrayType t) \<noteq> NoButterflyArrayPart \<and> 1 \<le> sint w \<and> sint w \<le> int (length (t_vec t)) \<and>
    (\<exists>t2. slow_in_bound t (sint w) v = SlowWrite t2 (t_arrayType t) \<and> t' = set_index w v t2)"
proof -
  let ?at = "t_arrayType t" and ?i = "sint w"
  have k: "ArrayKind ?at \<noteq> NoButterflyArrayPart"
    using f bf_ok_vec[OF arr_okD(2)[OF ok]] vec_okD(2) by (auto simp: TryPutByValIntegerIndexFastNoIC_def Let_def split: if_splits)
  obtain b where b: "t_butterfly t = Some b" using arr_okD(2)[OF ok] k by (auto simp: bf_ok_def split: option.splits)
  have bo: "bf_ok ?at (Some b)" using arr_okD(2)[OF ok] b by simp
  note vec = bf_okD(3)[OF bo] and cap = bf_ok_cap[OF bo]
  let ?xs = "bf_vector b" and ?len = "sint (m_arrayLengthIfContinuous (bf_header b))"
  have tv: "t_vec t = ?xs" and th: "t_header t = bf_header b" using b by simp_all
  show ?thesis
  proof (cases "IsContinuous ?at")
    case True
    then have chk: "CheckValueMeetsPreconditionForPutByIntegerIndexFastPath v (continuous_check (ArrayKind ?at))"
      and p: "TryPutByIntegerIndexFastPath_ContinuousArray t w v = Some t'"
      using f by (auto simp: TryPutByValIntegerIndexFastNoIC_def Let_def split: if_splits)
    note ko = kind_check(1)[OF chk k] and nv = continuous_check_not_nil[OF chk]
    have st: "updated_kind ?at v (SetIsContinuous True ?at) = ?at" using same_array_type[OF ko] True by simp
    have len: "0 \<le> ?len" "?len \<le> int (length ?xs)" using vec_okD(4,6)[OF vec True] by auto
    have fp: "CanUseFastPathGetForContinuousArray (bf_header b) w \<longleftrightarrow> 1 \<le> ?i \<and> ?i < ?len + 1"
      using fast_path_index_iff[of "bf_header b" w] len(1) by (simp add: bh_IsContinuous_def x_arrayBaseOrd_def)
    show ?thesis
    proof (cases "CanUseFastPathGetForContinuousArray (bf_header b) w")
      case in_range: True
      then have "t' = set_index w v t" using p by (simp add: TryPutByIntegerIndexFastPath_ContinuousArray_def th)
      moreover have "slow_in_bound t ?i v = SlowWrite t ?at"
        using in_range fp True nv st by (simp add: slow_in_bound_def Let_def th x_arrayBaseOrd_def)
      ultimately show ?thesis using k in_range fp len tv by auto
    next
      case False
      let ?l = "m_arrayLengthIfContinuous (bf_header b) + 1"
      from False have i: "?i = ?len + 1" "?i \<noteq> int (length ?xs) + 1" and t': "t' = set_arrayLength ?l (set_index w v t)"
        using p cap by (auto simp: TryPutByIntegerIndexFastPath_ContinuousArray_def th Let_def x_arrayBaseOrd_def add.commute split: if_splits)
      have "slow_in_bound t ?i v = SlowWrite (set_arrayLength ?l t) ?at"
        using i(1) True nv st by (simp add: slow_in_bound_def Let_def th x_arrayBaseOrd_def add.commute)
      moreover have "t' = set_index w v (set_arrayLength ?l t)"
        unfolding t' by (simp add: set_arrayLength_def set_index_def b bf_SetInVectorIndex_def)
      ultimately show ?thesis using k i len tv by auto
    qed
  next
    case False
    then have chk: "CheckValueMeetsPreconditionForPutByIntegerIndexFastPath v (in_bound_check (ArrayKind ?at))"
      and p: "TryPutByIntegerIndexFastPath_InBoundPut t w v = Some t'"
      using f by (auto simp: TryPutByValIntegerIndexFastNoIC_def Let_def split: if_splits)
    have st: "updated_kind ?at v (SetIsContinuous False ?at) = ?at" using same_array_type[OF kind_check(2)[OF chk k]] False by simp
    have "1 \<le> ?i \<and> ?i \<le> int (length ?xs)" "t' = set_index w v t"
      using p fits_iff[OF bo, of w] by (auto simp: TryPutByIntegerIndexFastPath_InBoundPut_def th split: if_splits)
    moreover have "slow_in_bound t ?i v = SlowWrite t ?at" using False st by (simp add: slow_in_bound_def Let_def)
    ultimately show ?thesis using k tv by auto
  qed
qed

lemma fast_path_written:
  assumes ok: "arr_ok env t g" and f: "TryPutByValIntegerIndexFastNoIC t w v = Some t'"
  shows "arr_written env t g (int64_to_double w) v t' g" "t_hiddenClass t' = t_hiddenClass t" "t_arrayType t' = t_arrayType t"
proof -
  obtain t2 where k: "ArrayKind (t_arrayType t) \<noteq> NoButterflyArrayPart" "1 \<le> sint w" "sint w \<le> int (length (t_vec t))"
    and t2: "slow_in_bound t (sint w) v = SlowWrite t2 (t_arrayType t)" "t' = set_index w v t2"
    using fast_path_slow[OF ok f] by blast
  have R: "write_ready t w v t2 (t_arrayType t)" using slow_in_bound_ok[OF ok k, of v] t2(1) by (simp add: slow_ok_def)
  then have "t_arrayType t2 = t_arrayType t" "t_hiddenClass t2 = t_hiddenClass t" by (auto simp: write_ready_def)
  then show "t_hiddenClass t' = t_hiddenClass t" "t_arrayType t' = t_arrayType t" by (simp_all add: t2(2) set_index_def)
  then have "(set_index w v t2)\<lparr>t_arrayType := t_arrayType t\<rparr> = t'" by (simp add: t2(2))
  then show "arr_written env t g (int64_to_double w) v t' g" using write_ready_written[OF ok R] by simp
qed

section \<open>Writing into the sparse map\<close>

text \<open>The user heap lies below $-2^{32}$, so the address of a sparse map is never taken for a length.\<close>

definition user_heap_ok :: "vm_state \<Rightarrow> bool" where
  "user_heap_ok vm \<longleftrightarrow> vm_userHeapCurPtr vm \<le> - (x_vmBaseOffset - x_vmUserHeapSize)"

lemma AllocFromUserHeap_ok:
  assumes "AllocFromUserHeap vm n = Some (vm', p)" "user_heap_ok vm"
  shows "user_heap_ok vm'" "vm_sh vm' = vm_sh vm" "- x_vmBaseOffset \<le> p" "p \<le> - (x_vmBaseOffset - x_vmUserHeapSize)"
  using assms by (auto simp: AllocFromUserHeap_def user_heap_ok_def Let_def split: if_splits)

lemma GeneralHeapPointer_sint:
  assumes "- x_vmBaseOffset \<le> p" "p \<le> - (x_vmBaseOffset - x_vmUserHeapSize)"
  shows "sint (GeneralHeapPointer p) < - 1"
proof -
  have p: "- 17179869184 \<le> p" "p \<le> - 4294967296" using assms by (simp_all add: x_vmBaseOffset_def x_vmUserHeapSize_def)
  have "- 17179869184 div 8 \<le> p div 8" "p div 8 \<le> - 4294967296 div 8" using zdiv_mono1[OF p(1), of 8] zdiv_mono1[OF p(2), of 8] by simp_all
  then have d: "- (2 ^ 31) \<le> p div 2 ^ 3" "p div 2 ^ 3 \<le> - (2 ^ 29)" by simp_all
  then have "sint (word_of_int (p div 2 ^ 3) :: 32 word) = p div 2 ^ 3" by (intro sint_of_small) auto
  then show ?thesis using d(2) by (simp add: GeneralHeapPointer_def x_shiftFromRawOffset_def)
qed

definition sparse_type :: "bool \<Rightarrow> u8 \<Rightarrow> u8" where
  "sparse_type vq at = SetArrayKind KAny (SetIsContinuous False
     (if vq then SetSparseMapContainsVectorIndex True (SetHasSparseMap True at) else SetHasSparseMap True at))"

lemma sparse_type_simps [simp]:
  "ArrayKind (sparse_type vq at) = KAny" "HasSparseMap (sparse_type vq at)" "\<not> IsContinuous (sparse_type vq at)"
  "SparseMapContainsVectorIndex (sparse_type vq at) = (vq \<or> SparseMapContainsVectorIndex at)"
  "MayHaveMetatable (sparse_type vq at) = MayHaveMetatable at" "valid_array_type (sparse_type vq at) = valid_array_type at"
  by (auto simp: sparse_type_def)

lemma at_ok_sparse_type: "at_ok at \<Longrightarrow> at_ok (sparse_type vq at)"
  by (auto simp: at_ok_def)

lemma kind_ok_any: "kind_ok KAny v"
  by (simp add: kind_ok_def)

text \<open>Getting the sparse map, which is allocated when the table has none.\<close>

lemma GetOrAllocateSparseMap_ok:
  assumes ok: "arr_ok env t g" and vm: "user_heap_ok vm" and a: "GetOrAllocateSparseMap vm t = Some (vm', t')"
  shows "\<exists>b m. t' = t\<lparr>t_butterfly := Some b, t_sparseMap := Some m\<rparr> \<and> sm_repr env m g \<and> bf_vector b = t_vec t \<and> bf_named b = t_named t \<and>
    bf_ok (sparse_type vq (t_arrayType t)) (Some b)" "vm_sh vm' = vm_sh vm" "user_heap_ok vm'"
proof -
  let ?at = "t_arrayType t" and ?at' = "sparse_type vq (t_arrayType t)"
  have V: "vec_ok ?at' xs l" if "l < - 1" for xs l using that by (auto simp: vec_ok_def kind_ok_any)
  have A: "(\<exists>b m. t' = t1\<lparr>t_butterfly := Some b, t_sparseMap := Some m\<rparr> \<and> sm_repr env m (\<lambda>_. Nil) \<and> bf_vector b = t_vec t1 \<and> bf_named b = t_named t1 \<and>
      bf_ok ?at' (Some b)) \<and> vm_sh vm' = vm_sh vm \<and> user_heap_ok vm'"
    if al: "AllocateNewArraySparseMap vm t1 = Some (vm', t')" and b1: "t_butterfly t1 = Some b1"
      "unat (m_arrayStorageCapacity (bf_header b1)) = length (bf_vector b1)" "length (bf_vector b1) \<le> 2 ^ 27" for t1 b1
  proof -
    obtain p where p: "AllocFromUserHeap vm sizeof_ArraySparseMap = Some (vm', p)"
      "t' = set_arrayLength (GeneralHeapPointer p) (t1\<lparr>t_sparseMap := Some AllocateEmptyArraySparseMap\<rparr>)"
      using al by (auto simp: AllocateNewArraySparseMap_def split: option.splits)
    note P = AllocFromUserHeap_ok[OF p(1) vm]
    define b where "b = b1\<lparr>bf_header := (bf_header b1)\<lparr>m_arrayLengthIfContinuous := GeneralHeapPointer p\<rparr>\<rparr>"
    have "bf_ok ?at' (Some b)" using V GeneralHeapPointer_sint[OF P(3,4)] b1 by (simp add: bf_ok_def b_def)
    moreover have "t' = t1\<lparr>t_butterfly := Some b, t_sparseMap := Some AllocateEmptyArraySparseMap\<rparr>"
      by (simp add: p(2) set_arrayLength_def b1 b_def)
    ultimately show ?thesis using P(1,2) sm_empty_repr[of env] b1(1)
      by (intro conjI exI[of _ b] exI[of _ AllocateEmptyArraySparseMap]) (simp_all add: b_def)
  qed
  have "(\<exists>b m. t' = t\<lparr>t_butterfly := Some b, t_sparseMap := Some m\<rparr> \<and> sm_repr env m g \<and> bf_vector b = t_vec t \<and> bf_named b = t_named t \<and>
    bf_ok ?at' (Some b)) \<and> vm_sh vm' = vm_sh vm \<and> user_heap_ok vm'"
  proof (cases "t_butterfly t")
    case None
    then have "ArrayKind ?at = NoButterflyArrayPart" using arr_okD(2)[OF ok] by (simp add: bf_ok_def)
    then have g: "g = (\<lambda>_. Nil)" using no_array_nil(2)[OF ok] by blast
    have "AllocateNewArraySparseMap vm (t\<lparr>t_butterfly := Some (GrowButterflyFromNull False 0)\<rparr>) = Some (vm', t')"
      using a None by (simp add: GetOrAllocateSparseMap_def)
    from A[OF this] show ?thesis using None g by (simp add: GrowButterflyFromNull_def)
  next
    case (Some b)
    have bo: "bf_ok ?at (Some b)" using arr_okD(2)[OF ok] Some by simp
    have hs: "bh_HasSparseMap (bf_header b) \<longleftrightarrow> HasSparseMap ?at"
      using bf_okD(3)[OF bo] arr_okD(1)[OF ok] by (auto simp: bh_HasSparseMap_def vec_ok_def at_ok_def split: if_splits)
    show ?thesis
    proof (cases "HasSparseMap ?at")
      case True
      then obtain m where m: "t_sparseMap t = Some m" "sm_repr env m g" using sparse_some[OF arr_okD(3)[OF ok]] by blast
      have "sint (m_arrayLengthIfContinuous (bf_header b)) < - 1" using hs True by (simp add: bh_HasSparseMap_def)
      then have "bf_ok ?at' (Some b)" using V bf_okD(1,2)[OF bo] by (simp add: bf_ok_def)
      moreover have "t' = t" "vm' = vm" using a Some True hs by (simp_all add: GetOrAllocateSparseMap_def)
      ultimately show ?thesis using Some m vm by (intro conjI exI[of _ b] exI[of _ m]) simp_all
    next
      case False
      then have g: "g = (\<lambda>_. Nil)" using sparse_none arr_okD(3)[OF ok] by blast
      have "AllocateNewArraySparseMap vm t = Some (vm', t')" using a Some False hs by (simp add: GetOrAllocateSparseMap_def)
      from A[OF this Some bf_okD(1,2)[OF bo]] show ?thesis using g by simp
    qed
  qed
  then show "\<exists>b m. t' = t\<lparr>t_butterfly := Some b, t_sparseMap := Some m\<rparr> \<and> sm_repr env m g \<and> bf_vector b = t_vec t \<and> bf_named b = t_named t \<and>
    bf_ok ?at' (Some b)" "vm_sh vm' = vm_sh vm" "user_heap_ok vm'" by blast+
qed

lemma sparse_written:
  assumes ok: "arr_ok env t g" and k: "\<not> IsNaN k" and vq: "IsVectorQualifyingIndex k \<longrightarrow> vq"
    and out: "\<And>w. IsInt64Index k = Some w \<Longrightarrow> vec_at (t_vec t) (sint w) = None"
    and b: "bf_vector b = t_vec t" "bf_named b = t_named t" "bf_ok (sparse_type vq (t_arrayType t)) (Some b)"
    and m: "sm_repr env m (g(float_norm k := v))"
  shows "arr_written env t g k v (t\<lparr>t_butterfly := Some b, t_sparseMap := Some m, t_arrayType := sparse_type vq (t_arrayType t)\<rparr>) (g(float_norm k := v))"
proof -
  let ?at = "t_arrayType t" and ?at' = "sparse_type vq (t_arrayType t)" and ?g = "g(float_norm k := v)"
  have "?g (int64_to_double w) = Nil" if "\<not> vq" "\<not> SparseMapContainsVectorIndex ?at" "1 \<le> sint w" "sint w \<le> x_unconditionallySparseMapCutoff" for w
  proof -
    have "exact_index w" using that by (intro exact_vector_index) (auto simp: x_unconditionallySparseMapCutoff_def)
    moreover have "IsInt64Index k \<noteq> Some w" using that vq by (auto simp: IsVectorQualifyingIndex_def x_arrayBaseOrd_def)
    ultimately have "int64_to_double w \<noteq> float_norm k" using norm_eq_index[OF _ k] by metis
    then show ?thesis using that arr_okD(3)[OF ok] by (auto simp: sparse_ok_def)
  qed
  then have "sparse_ok env ?at' (Some m) ?g" using m by (auto simp: sparse_ok_def)
  moreover have ap: "apart (t_vec t) ?g"
    unfolding apart_def
  proof (intro allI impI)
    fix w :: "64 word" assume w: "1 \<le> sint w \<and> sint w \<le> int (length (t_vec t))"
    have "length (t_vec t) \<le> 2 ^ 27" using bf_okD(2)[OF b(3)] b(1) by simp
    then have "exact_index w" using w by (intro exact_vector_index) auto
    moreover have "IsInt64Index k \<noteq> Some w" using out[of w] w by (auto simp: vec_at_def)
    ultimately have "int64_to_double w \<noteq> float_norm k" using norm_eq_index[OF _ k] by metis
    then show "?g (int64_to_double w) = Nil" using arr_okD(4)[OF ok] w by (simp add: apart_def)
  qed
  ultimately have "arr_ok env (t\<lparr>t_butterfly := Some b, t_sparseMap := Some m, t_arrayType := ?at'\<rparr>) ?g"
    using b at_ok_sparse_type[OF arr_okD(1)[OF ok]] ap by (simp add: arr_ok_def t_vec_def)
  then show ?thesis using arr_fun_sparse[of k "t_vec t" g v, OF out] b(1,2) unfolding arr_written_def by simp
qed

section \<open>The change of the array type\<close>

text \<open>The hidden class agrees with the array type that the table records.\<close>

definition hc_type_ok :: "sheap \<Rightarrow> table_object \<Rightarrow> bool" where
  "hc_type_ok sh t \<longleftrightarrow> (case t_hiddenClass t of
      HStructure p \<Rightarrow> (\<exists>s. sh_structs sh p = Some s \<and> m_arrayType s = t_arrayType t)
    | HDictionary p d \<Rightarrow> True)"

definition hc_room :: "sheap \<Rightarrow> table_object \<Rightarrow> bool" where
  "hc_room sh t \<longleftrightarrow> (case t_hiddenClass t of HStructure p \<Rightarrow> query_room sh p < 2 ^ 32 | HDictionary p d \<Rightarrow> True)"

text \<open>The named properties of an object do not move when its array type changes.\<close>

definition same_layout :: "sheap \<Rightarrow> (sys_ptr \<Rightarrow> gkey list) \<Rightarrow> hclass \<Rightarrow> sheap \<Rightarrow> (sys_ptr \<Rightarrow> gkey list) \<Rightarrow> hclass \<Rightarrow> bool" where
  "same_layout sh K hc sh' K' hc' \<longleftrightarrow> (case hc of
      HStructure p \<Rightarrow> (\<exists>q s s'. hc' = HStructure q \<and> sh_structs sh p = Some s \<and> sh_structs sh' q = Some s' \<and> K' q = K p \<and>
        m_metatable s' = m_metatable s \<and> m_butterflyNamedStorageCapacity s' = m_butterflyNamedStorageCapacity s \<and>
        m_inlineNamedStorageCapacity s' = m_inlineNamedStorageCapacity s)
    | HDictionary p d \<Rightarrow> hc' = hc)"

lemma update_array_type_ok:
  assumes W: "wf_theap env (vm_sh vm) K C" and hc: "hc_type_ok (vm_sh vm) t" and room: "hc_room (vm_sh vm) t"
    and at: "valid_array_type at" "MayHaveMetatable at = MayHaveMetatable (t_arrayType t)"
  shows "\<exists>vm' hc' K' C'. update_array_type env vm t at = Some (vm', t\<lparr>t_hiddenClass := hc', t_arrayType := at\<rparr>) \<and>
    vm_userHeapCurPtr vm' = vm_userHeapCurPtr vm \<and> hc_type_ok (vm_sh vm') (t\<lparr>t_hiddenClass := hc', t_arrayType := at\<rparr>) \<and>
    transits env (vm_sh vm) K (vm_sh vm') K' C' \<and> same_layout (vm_sh vm) K (t_hiddenClass t) (vm_sh vm') K' hc'"
proof (cases "t_hiddenClass t")
  case (HDictionary p d)
  then show ?thesis using transits_refl[OF W]
    by (intro exI[of _ vm] exI[of _ "HDictionary p d"] exI[of _ K] exI[of _ C])
      (auto simp: update_array_type_def hc_type_ok_def same_layout_def)
next
  case (HStructure p)
  then obtain s where s: "sh_structs (vm_sh vm) p = Some s" "m_arrayType s = t_arrayType t"
    using hc by (auto simp: hc_type_ok_def)
  show ?thesis
  proof (cases "t_arrayType t = at")
    case True
    have t: "t\<lparr>t_hiddenClass := HStructure p, t_arrayType := at\<rparr> = t" using True HStructure by simp
    show ?thesis using True HStructure hc s(1) transits_refl[OF W] unfolding same_layout_def
      by (intro exI[of _ vm] exI[of _ "HStructure p"] exI[of _ K] exI[of _ C], unfold t) (auto simp: update_array_type_def)
  next
    case False
    have rm: "query_room (vm_sh vm) p < 2 ^ 32" using room HStructure by (simp add: hc_room_def)
    have mm: "MayHaveMetatable at = MayHaveMetatable (m_arrayType s)" using at(2) s(2) by simp
    obtain sh' r' K' C' sr where q: "UpdateArrayType env (vm_sh vm) p at = Some (sh', r')"
        "leads_to env (vm_sh vm) K C p (x_key_change_array_type_tag OR uint at) sh' K' C' r' sr"
      using UpdateArrayType_correct[OF W s(1) at(1) mm rm] by blast
    have W': "transits env (vm_sh vm) K sh' K' C'" "sh_structs sh' r' = Some sr" using q(2) by (auto simp: leads_to_def)
    note E = array_type_edge[OF W s(1) q(2)]
    then have "same_layout (vm_sh vm) K (t_hiddenClass t) sh' K' (HStructure r')"
      unfolding same_layout_def HStructure using s(1) W'(2) by auto
    then show ?thesis using False HStructure q(1) W' E
      by (intro exI[of _ "vm\<lparr>vm_sh := sh'\<rparr>"] exI[of _ "HStructure r'"] exI[of _ K'] exI[of _ C'])
        (auto simp: update_array_type_def hc_type_ok_def)
  qed
qed

section \<open>The whole write\<close>

definition arr_inv :: "vm_env \<Rightarrow> vm_state \<Rightarrow> table_object \<Rightarrow> (double \<Rightarrow> tvalue) \<Rightarrow> bool" where
  "arr_inv env vm t g \<longleftrightarrow> arr_ok env t g \<and> hc_type_ok (vm_sh vm) t \<and> named_sized (vm_sh vm) t \<and> user_heap_ok vm"

lemma arr_invD:
  assumes "arr_inv env vm t g"
  shows "arr_ok env t g" "hc_type_ok (vm_sh vm) t" "named_sized (vm_sh vm) t" "user_heap_ok vm"
  using assms by (simp_all add: arr_inv_def)

text \<open>The two limits at which a write aborts: the user heap is exhausted, or the sparse map cannot double.\<close>

definition arr_limit :: "vm_state \<Rightarrow> table_object \<Rightarrow> bool" where
  "arr_limit vm t \<longleftrightarrow> vm_userHeapCurPtr vm - int sizeof_ArraySparseMap < - x_vmBaseOffset \<or>
     (\<exists>m. t_sparseMap t = Some m \<and> 2 ^ 31 \<le> sm_hashMask m + 1)"

definition put_result :: "vm_env \<Rightarrow> vm_state \<Rightarrow> (sys_ptr \<Rightarrow> gkey list) \<Rightarrow> table_object \<Rightarrow> (double \<Rightarrow> tvalue) \<Rightarrow> double \<Rightarrow> tvalue \<Rightarrow>
    (vm_state \<times> table_object) option \<Rightarrow> bool" where
  "put_result env vm K t g k v r \<longleftrightarrow> (case r of None \<Rightarrow> arr_limit vm t
    | Some (vm', t') \<Rightarrow> (\<exists>g'. arr_inv env vm' t' g' \<and> arr_written env t g k v t' g') \<and>
        (\<exists>K' C'. transits env (vm_sh vm) K (vm_sh vm') K' C' \<and> same_layout (vm_sh vm) K (t_hiddenClass t) (vm_sh vm') K' (t_hiddenClass t')))"

lemma same_layout_refl:
  assumes "hc_type_ok sh t"
  shows "same_layout sh K (t_hiddenClass t) sh K (t_hiddenClass t)"
  using assms by (cases "t_hiddenClass t") (auto simp: same_layout_def hc_type_ok_def)

lemma hc_cong:
  assumes "t_hiddenClass t1 = t_hiddenClass t" "t_arrayType t1 = t_arrayType t"
  shows "hc_type_ok sh t1 = hc_type_ok sh t" "hc_room sh t1 = hc_room sh t"
  unfolding hc_type_ok_def hc_room_def assms by (rule refl)+

lemma named_sized_layout:
  assumes "named_sized sh t" "hc_type_ok sh t" "same_layout sh K (t_hiddenClass t) sh' K' (t_hiddenClass t')" "t_named t' = t_named t"
  shows "named_sized sh' t'"
  using assms by (cases "t_hiddenClass t")
    (auto simp: named_sized_def same_layout_def hc_butterflyNamedStorageCapacity_def hc_type_ok_def struct_at_def)

text \<open>Every write ends with the change of the array type.\<close>

lemma finish_write:
  assumes W: "wf_theap env (vm_sh vm) K C" and I: "arr_inv env vm t g" and room: "hc_room (vm_sh vm) t"
    and t1: "t_hiddenClass t1 = t_hiddenClass t" "t_arrayType t1 = t_arrayType t"
    and vm1: "vm_sh vm1 = vm_sh vm" "user_heap_ok vm1"
    and w: "arr_written env t g k v (t1\<lparr>t_arrayType := at\<rparr>) g'"
  shows "put_result env vm K t g k v (update_array_type env vm1 t1 at)"
proof -
  have ok: "arr_ok env (t1\<lparr>t_arrayType := at\<rparr>) g'" and mt: "MayHaveMetatable at = MayHaveMetatable (t_arrayType t)"
    using w by (simp_all add: arr_written_def)
  have va: "valid_array_type at" using arr_okD(1)[OF ok] by (simp add: at_ok_def)
  have hc: "hc_type_ok (vm_sh vm1) t1" "hc_room (vm_sh vm1) t1"
    using arr_invD(2)[OF I] room by (simp_all add: hc_cong[OF t1] vm1)
  have W1: "wf_theap env (vm_sh vm1) K C" using W vm1(1) by simp
  obtain vm' hc' K' C' where u: "update_array_type env vm1 t1 at = Some (vm', t1\<lparr>t_hiddenClass := hc', t_arrayType := at\<rparr>)"
     "vm_userHeapCurPtr vm' = vm_userHeapCurPtr vm1" "hc_type_ok (vm_sh vm') (t1\<lparr>t_hiddenClass := hc', t_arrayType := at\<rparr>)"
     "same_layout (vm_sh vm1) K (t_hiddenClass t1) (vm_sh vm') K' hc'" "transits env (vm_sh vm1) K (vm_sh vm') K' C'"
    using update_array_type_ok[OF W1 hc va] mt t1(2) by metis
  let ?t = "t1\<lparr>t_hiddenClass := hc', t_arrayType := at\<rparr>"
  have eq: "?t = (t1\<lparr>t_arrayType := at\<rparr>)\<lparr>t_hiddenClass := hc'\<rparr>" by simp
  have w': "arr_written env t g k v ?t g'" using w unfolding eq arr_written_hidden .
  have ly: "same_layout (vm_sh vm) K (t_hiddenClass t) (vm_sh vm') K' (t_hiddenClass ?t)" using u(4) t1(1) vm1(1) by simp
  have "named_sized (vm_sh vm') ?t"
    using named_sized_layout[OF arr_invD(3,2)[OF I] ly] w' by (simp add: arr_written_def)
  moreover have "user_heap_ok vm'" using vm1(2) u(2) by (simp add: user_heap_ok_def)
  moreover have "arr_ok env ?t g'" using w' by (simp add: arr_written_def)
  ultimately have "arr_inv env vm' ?t g'" using u(3) by (simp add: arr_inv_def)
  then show ?thesis using w' ly u(5) vm1(1) unfolding put_result_def u(1) by auto
qed

lemma same_write:
  assumes W: "wf_theap env (vm_sh vm) K C" and I: "arr_inv env vm t g" and w: "arr_written env t g k v t' g'"
    and t': "t_hiddenClass t' = t_hiddenClass t" "t_arrayType t' = t_arrayType t"
  shows "put_result env vm K t g k v (Some (vm, t'))"
proof -
  have ly: "same_layout (vm_sh vm) K (t_hiddenClass t) (vm_sh vm) K (t_hiddenClass t')"
    using same_layout_refl[OF arr_invD(2)[OF I], of K] t'(1) by simp
  have "named_sized (vm_sh vm) t'" using named_sized_layout[OF arr_invD(3,2)[OF I] ly] w by (simp add: arr_written_def)
  then have "arr_inv env vm t' g'" using arr_invD(2,4)[OF I] w by (simp add: arr_inv_def hc_cong[OF t'] arr_written_def)
  then show ?thesis using w ly transits_refl[OF W] unfolding put_result_def by auto
qed

lemma PutIndexIntoSparseMap_ok:
  assumes W: "wf_theap env (vm_sh vm) K C" and I: "arr_inv env vm t g" and room: "hc_room (vm_sh vm) t" and k: "\<not> IsNaN k" and vq: "IsVectorQualifyingIndex k \<longrightarrow> vq"
    and out: "\<And>w. IsInt64Index k = Some w \<Longrightarrow> vec_at (t_vec t) (sint w) = None"
  shows "put_result env vm K t g k v (PutIndexIntoSparseMap env vm t vq k v)"
proof -
  note ok = arr_invD(1)[OF I]
  have P: "PutIndexIntoSparseMap env vm t vq k v = (case GetOrAllocateSparseMap vm t of None \<Rightarrow> None
      | Some (vm, t') \<Rightarrow> (case sm_Insert env (the (t_sparseMap t')) k v of None \<Rightarrow> None
         | Some m \<Rightarrow> update_array_type env vm (t'\<lparr>t_sparseMap := Some m\<rparr>) (sparse_type vq (t_arrayType t))))"
    unfolding PutIndexIntoSparseMap_def sparse_type_def Let_def by (rule refl)
  show ?thesis
  proof (cases "GetOrAllocateSparseMap vm t")
    case None
    then have "vm_userHeapCurPtr vm - int sizeof_ArraySparseMap < - x_vmBaseOffset"
      by (auto simp: GetOrAllocateSparseMap_def AllocateNewArraySparseMap_def AllocFromUserHeap_def Let_def split: option.splits if_splits)
    then show ?thesis by (simp add: P None put_result_def arr_limit_def)
  next
    case (Some r)
    then obtain vm1 t1 where r: "GetOrAllocateSparseMap vm t = Some (vm1, t1)" by (cases r) auto
    obtain b m where t1: "t1 = t\<lparr>t_butterfly := Some b, t_sparseMap := Some m\<rparr>" "sm_repr env m g" "bf_vector b = t_vec t" "bf_named b = t_named t"
        "bf_ok (sparse_type vq (t_arrayType t)) (Some b)"
      using GetOrAllocateSparseMap_ok(1)[OF ok arr_invD(4)[OF I] r] by blast
    note vm1 = GetOrAllocateSparseMap_ok(2,3)[OF ok arr_invD(4)[OF I] r]
    have "t_sparseMap t1 = t_sparseMap t \<or> t_sparseMap t1 = Some AllocateEmptyArraySparseMap"
      using r by (auto simp: GetOrAllocateSparseMap_def AllocateNewArraySparseMap_def set_arrayLength_def split: option.splits if_splits)
    then have small: "t_sparseMap t = Some m \<or> sm_hashMask m = 1" by (auto simp: t1(1) AllocateEmptyArraySparseMap_def)
    show ?thesis
    proof (cases "sm_Insert env m k v")
      case None
      then have "2 ^ 31 \<le> sm_hashMask m + 1" using sm_Insert_correct[OF t1(2) k, of v] by simp
      then have "arr_limit vm t" using small by (auto simp: arr_limit_def)
      then show ?thesis by (simp add: P r t1(1) None put_result_def)
    next
      case (Some m')
      then have m': "sm_repr env m' (g(float_norm k := v))" using sm_Insert_correct[OF t1(2) k, of v] by simp
      let ?t2 = "t1\<lparr>t_sparseMap := Some m'\<rparr>"
      have "?t2\<lparr>t_arrayType := sparse_type vq (t_arrayType t)\<rparr> = t\<lparr>t_butterfly := Some b, t_sparseMap := Some m', t_arrayType := sparse_type vq (t_arrayType t)\<rparr>"
        by (simp add: t1(1))
      then have "arr_written env t g k v (?t2\<lparr>t_arrayType := sparse_type vq (t_arrayType t)\<rparr>) (g(float_norm k := v))"
        using sparse_written[OF ok k vq out t1(3-5) m'] by simp
      then have "put_result env vm K t g k v (update_array_type env vm1 ?t2 (sparse_type vq (t_arrayType t)))"
        using vm1 by (intro finish_write[OF W I room]) (simp_all add: t1(1))
      then show ?thesis by (simp add: P r t1(1) Some)
    qed
  qed
qed

lemma arr_written_key: "float_norm k = float_norm k' \<Longrightarrow> arr_written env t g k v t' g' = arr_written env t g k' v t' g'"
  by (simp add: arr_written_def)

lemma PutByIntegerIndexSlow_ok:
  assumes W: "wf_theap env (vm_sh vm) K C" and I: "arr_inv env vm t g" and room: "hc_room (vm_sh vm) t" and d: "IsInt64Index d = Some w"
  shows "put_result env vm K t g d v (PutByIntegerIndexSlow env vm t w v)"
proof -
  note ok = arr_invD(1)[OF I] and n = IsInt64Index_SomeD[OF d]
  have nrm: "float_norm (int64_to_double w) = float_norm d" using n(1) by (simp add: float_norm_idem)
  have w': "IsInt64Index (int64_to_double w) = Some w" using d IsInt64Index_norm[of d] n(1) by simp
  have nn: "\<not> IsNaN (int64_to_double w)" using IsInt64Index_SomeD(2)[OF w'] .
  have sp: "put_result env vm K t g d v (PutIndexIntoSparseMap env vm t vq (int64_to_double w) v)"
    if "IsVectorQualifyingIndex (int64_to_double w) \<longrightarrow> vq" "vec_at (t_vec t) (sint w) = None" for vq
    using PutIndexIntoSparseMap_ok[OF W I room nn that(1)] that(2) w' unfolding put_result_def arr_written_key[OF nrm] by simp
  have vl: "length (t_vec t) \<le> 2 ^ 27" using bf_ok_vec[OF arr_okD(2)[OF ok]] by blast
  show ?thesis
  proof (cases "sint w < x_arrayBaseOrd \<or> sint w > x_unconditionallySparseMapCutoff")
    case True
    have "put_result env vm K t g d v (PutIndexIntoSparseMap env vm t False (int64_to_double w) v)"
    proof (rule sp)
      show "IsVectorQualifyingIndex (int64_to_double w) \<longrightarrow> False" using True w' by (auto simp: IsVectorQualifyingIndex_def)
      show "vec_at (t_vec t) (sint w) = None" using True vl by (auto simp: vec_at_def x_arrayBaseOrd_def x_unconditionallySparseMapCutoff_def)
    qed
    then show ?thesis using True by (simp add: PutByIntegerIndexSlow_def Let_def)
  next
    case False
    define st where "st = (if ArrayKind (t_arrayType t) = NoButterflyArrayPart then slow_no_array_part (vm_sh vm) t (sint w) v
                 else if sint w \<ge> int (unat (m_arrayStorageCapacity (t_header t))) + x_arrayBaseOrd
                   then slow_out_of_bound (vm_sh vm) t (sint w) v
                 else slow_in_bound t (sint w) v)"
    have rng: "1 \<le> sint w" "sint w \<le> x_unconditionallySparseMapCutoff" using False by (auto simp: x_arrayBaseOrd_def)
    have cap: "int (unat (m_arrayStorageCapacity (t_header t))) = int (length (t_vec t))" if "ArrayKind (t_arrayType t) \<noteq> NoButterflyArrayPart"
      using that arr_okD(2)[OF ok] bf_okD(1) by (cases "t_butterfly t") (auto simp: bf_ok_def)
    have S: "slow_ok t g w v st"
      unfolding st_def using slow_no_array_part_ok[OF ok arr_invD(3)[OF I] _ rng(1)] slow_out_of_bound_ok[OF ok arr_invD(3)[OF I] _ _ rng(2)]
        slow_in_bound_ok[OF ok _ rng(1)] cap by (auto simp: x_arrayBaseOrd_def)
    have E: "PutByIntegerIndexSlow env vm t w v = (case st of SlowReturn \<Rightarrow> Some (vm, t)
      | SlowSparseMap \<Rightarrow> PutIndexIntoSparseMap env vm t True (int64_to_double w) v
      | SlowWrite t' newArrayType \<Rightarrow> update_array_type env vm (set_index w v t') newArrayType)"
      unfolding st_def using False by (simp add: PutByIntegerIndexSlow_def Let_def)
    show ?thesis
    proof (cases st)
      case SlowReturn
      have "arr_fun (t_vec t) g x = v" if "float_norm x = float_norm d" "\<not> IsNaN x" for x
      proof -
        have "IsInt64Index x = Some w" using that d by (metis IsInt64Index_norm)
        then show ?thesis using S SlowReturn by (simp add: slow_ok_def IsNil_def)
      qed
      then have "arr_written env t g d v t g" using ok by (simp add: arr_written_def)
      then show ?thesis using same_write[OF W I] SlowReturn E by simp
    next
      case SlowSparseMap
      then show ?thesis using sp[of True] S E by (simp add: slow_ok_def)
    next
      case (SlowWrite t2 at)
      then have R: "write_ready t w v t2 at" using S by (simp add: slow_ok_def)
      then have "t_hiddenClass (set_index w v t2) = t_hiddenClass t" "t_arrayType (set_index w v t2) = t_arrayType t"
        by (auto simp: write_ready_def set_index_def)
      moreover have "arr_written env t g d v ((set_index w v t2)\<lparr>t_arrayType := at\<rparr>) g"
        using write_ready_written[OF ok R] arr_written_key[OF nrm] by simp
      ultimately show ?thesis using finish_write[OF W I room _ _ refl arr_invD(4)[OF I]] SlowWrite E by simp
    qed
  qed
qed

lemma RawPutByValIntegerIndex_ok:
  assumes W: "wf_theap env (vm_sh vm) K C" and I: "arr_inv env vm t g" and room: "hc_room (vm_sh vm) t" and d: "IsInt64Index d = Some w"
  shows "put_result env vm K t g d v (RawPutByValIntegerIndex env vm t w v)"
proof (cases "TryPutByValIntegerIndexFastNoIC t w v")
  case None
  then show ?thesis using PutByIntegerIndexSlow_ok[OF assms] by (simp add: RawPutByValIntegerIndex_def)
next
  case (Some t')
  have "float_norm (int64_to_double w) = float_norm d" using IsInt64Index_SomeD(1)[OF d] by (simp add: float_norm_idem)
  then have "arr_written env t g d v t' g" using fast_path_written(1)[OF arr_invD(1)[OF I] Some] arr_written_key by blast
  then show ?thesis using same_write[OF W I _ fast_path_written(2,3)[OF arr_invD(1)[OF I] Some]] Some
    by (simp add: RawPutByValIntegerIndex_def)
qed

lemma RawPutByValDoubleIndex_ok:
  assumes W: "wf_theap env (vm_sh vm) K C" and I: "arr_inv env vm t g" and room: "hc_room (vm_sh vm) t" and d: "\<not> IsNaN d"
  shows "put_result env vm K t g d v (RawPutByValDoubleIndex env vm t d v)"
proof (cases "IsInt64Index d")
  case None
  then show ?thesis using PutIndexIntoSparseMap_ok[OF W I room d] by (simp add: RawPutByValDoubleIndex_def IsVectorQualifyingIndex_def)
next
  case (Some w)
  then show ?thesis using RawPutByValIntegerIndex_ok[OF W I room Some] by (simp add: RawPutByValDoubleIndex_def)
qed

end
