(* ===== verification/TableNamed.thy ===== *)
theory TableNamed
  imports TableArray
begin

unbundle bit_operations_syntax

text \<open>
  The named part of \<^verbatim>\<open>TableObject\<close>: inline-cached reads and writes of named properties through the hidden class, the move from a
  structure to a dictionary, metatables, and the creation and cloning of tables. Where the code instantiates a
  template for string keys and for arbitrary keys, the flag \<open>isString\<close> selects the instance.
\<close>

section \<open>Slots\<close>

text \<open>The inline-cache information stores a slot of the inline storage or an index of the outlined one.\<close>

definition slot_in_ic :: "nat \<Rightarrow> nat \<Rightarrow> 32 word" where
  "slot_in_ic slotOrd inlineStorageCapacity =
     (if slotOrd < inlineStorageCapacity then of_nat slotOrd
      else GetOutlineStorageIndex (of_nat slotOrd) (of_nat inlineStorageCapacity))"

definition GetValueForSlot :: "table_object \<Rightarrow> nat \<Rightarrow> nat \<Rightarrow> tvalue" where
  "GetValueForSlot self slotOrd inlineStorageCapacity =
     (if slotOrd < inlineStorageCapacity then t_inlineStorage self ! slotOrd
      else GetNamedProperty (the (t_butterfly self)) (GetOutlineStorageIndex (of_nat slotOrd) (of_nat inlineStorageCapacity)))"

definition set_inline :: "nat \<Rightarrow> tvalue \<Rightarrow> table_object \<Rightarrow> table_object" where
  "set_inline slot v t = t\<lparr>t_inlineStorage := (t_inlineStorage t)[slot := v]\<rparr>"

definition set_outlined :: "32 word \<Rightarrow> tvalue \<Rightarrow> table_object \<Rightarrow> table_object" where
  "set_outlined slot v t = t\<lparr>t_butterfly := map_option (\<lambda>b. SetNamedProperty b slot v) (t_butterfly t)\<rparr>"

definition set_slot :: "nat \<Rightarrow> nat \<Rightarrow> tvalue \<Rightarrow> table_object \<Rightarrow> table_object" where
  "set_slot slotOrd inlineStorageCapacity v t =
     (if slotOrd < inlineStorageCapacity then set_inline slotOrd v t
      else set_outlined (GetOutlineStorageIndex (of_nat slotOrd) (of_nat inlineStorageCapacity)) v t)"

section \<open>Reading a named property\<close>

datatype GetByIdKind = UncachableDictionary | MustBeNil | MustBeNilButUncacheable | InlinedStorage | OutlinedStorage

record GetByIdICInfo =
  gb_icKind :: GetByIdKind
  gb_mayHaveMetatable :: bool
  gb_slot :: "32 word"

definition get_ic_found :: "bool \<Rightarrow> nat \<Rightarrow> nat \<Rightarrow> GetByIdICInfo" where
  "get_ic_found mayHaveMetatable slotOrd inlineStorageCapacity =
     \<lparr>gb_icKind = (if slotOrd < inlineStorageCapacity then InlinedStorage else OutlinedStorage),
      gb_mayHaveMetatable = mayHaveMetatable, gb_slot = slot_in_ic slotOrd inlineStorageCapacity\<rparr>"

definition PrepareGetByIdImplForStructure :: "vm_env \<Rightarrow> sheap \<Rightarrow> bool \<Rightarrow> sys_ptr \<Rightarrow> gkey \<Rightarrow> GetByIdICInfo option" where
  "PrepareGetByIdImplForStructure env sh isString structurep propertyName =
     (let structure = struct_at sh structurep;
          mayHaveMetatable = (m_metatable structure \<noteq> 0);
          found = (if isString then GetSlotOrdinalFromStringProperty env sh structure propertyName
                   else GetSlotOrdinalFromMaybeNonStringProperty env sh structure propertyName)
      in case found of None \<Rightarrow> None
      | Some (Some slotOrd) \<Rightarrow> Some (get_ic_found mayHaveMetatable slotOrd (m_inlineNamedStorageCapacity structure))
      | Some None \<Rightarrow> Some \<lparr>gb_icKind = MustBeNil, gb_mayHaveMetatable = mayHaveMetatable, gb_slot = 0\<rparr>)"

definition PrepareGetByIdImplForCacheableDictionary :: "vm_env \<Rightarrow> bool \<Rightarrow> dictionary \<Rightarrow> gkey \<Rightarrow> GetByIdICInfo option" where
  "PrepareGetByIdImplForCacheableDictionary env isString dict propertyName =
     (let mayHaveMetatable = (d_metatable dict \<noteq> 0);
          found = (if isString then d_GetSlotOrdinalFromStringProperty env dict propertyName
                   else d_GetSlotOrdinalFromMaybeNonStringProperty env dict propertyName)
      in case found of None \<Rightarrow> None
      | Some (Some slotOrd) \<Rightarrow> Some (get_ic_found mayHaveMetatable slotOrd (d_inlineNamedStorageCapacity dict))
      | Some None \<Rightarrow> Some \<lparr>gb_icKind = MustBeNilButUncacheable, gb_mayHaveMetatable = mayHaveMetatable, gb_slot = 0\<rparr>)"

definition PrepareGetById :: "vm_env \<Rightarrow> sheap \<Rightarrow> bool \<Rightarrow> table_object \<Rightarrow> gkey \<Rightarrow> GetByIdICInfo option" where
  "PrepareGetById env sh isString self propertyName =
     (case t_hiddenClass self of
        HStructure p \<Rightarrow> PrepareGetByIdImplForStructure env sh isString p propertyName
      | HDictionary p d \<Rightarrow> PrepareGetByIdImplForCacheableDictionary env isString d propertyName)"

text \<open>\<open>None\<close>: the unimplemented kind.\<close>

definition GetById :: "table_object \<Rightarrow> GetByIdICInfo \<Rightarrow> tvalue option" where
  "GetById self icInfo =
     (case gb_icKind icInfo of
        MustBeNil \<Rightarrow> Some Nil
      | MustBeNilButUncacheable \<Rightarrow> Some Nil
      | InlinedStorage \<Rightarrow> Some (t_inlineStorage self ! unat (gb_slot icInfo))
      | OutlinedStorage \<Rightarrow> Some (GetNamedProperty (the (t_butterfly self)) (gb_slot icInfo))
      | UncachableDictionary \<Rightarrow> None)"

section \<open>Metatables\<close>

text \<open>
  A metatable is named by its \<^verbatim>\<open>GeneralHeapPointer\<close>, as in structures and dictionaries; 0 is no metatable. A slot stores the boxed
  \<^verbatim>\<open>UserHeapPointer\<close>, which is that value shifted left.
\<close>

definition boxed_metatable :: "int \<Rightarrow> tvalue" where
  "boxed_metatable m = CreatePointer (word_of_int (push_bit x_shiftFromRawOffset m))"

definition GetPolyMetatableFromObjectWithStructureHiddenClass :: "table_object \<Rightarrow> nat \<Rightarrow> nat \<Rightarrow> int" where
  "GetPolyMetatableFromObjectWithStructureHiddenClass obj slot inlineCapacity =
     (let res = GetValueForSlot obj slot inlineCapacity
      in if IsNil res then 0 else drop_bit x_shiftFromRawOffset (sint (AsPointer res)))"

record GetMetatableResult =
  gm_result :: int
  gm_isCacheable :: bool

definition GetMetatable :: "sheap \<Rightarrow> table_object \<Rightarrow> GetMetatableResult" where
  "GetMetatable sh self =
     (case t_hiddenClass self of
        HStructure p \<Rightarrow>
          (let structure = struct_at sh p in
           if HasNoMetatable structure then \<lparr>gm_result = 0, gm_isCacheable = True\<rparr>
           else if HasMonomorphicMetatable structure then \<lparr>gm_result = m_metatable structure, gm_isCacheable = True\<rparr>
           else \<lparr>gm_result = GetPolyMetatableFromObjectWithStructureHiddenClass self (GetPolyMetatableSlot structure)
                   (m_inlineNamedStorageCapacity structure), gm_isCacheable = False\<rparr>)
      | HDictionary p d \<Rightarrow> \<lparr>gm_result = d_metatable d, gm_isCacheable = True\<rparr>)"

definition t_SetMetatable :: "vm_env \<Rightarrow> vm_state \<Rightarrow> table_object \<Rightarrow> int \<Rightarrow> (vm_state \<times> table_object) option" where
  "t_SetMetatable env vm self newMetatable =
     (case t_hiddenClass self of
        HStructure p \<Rightarrow>
          (let structure = struct_at (vm_sh vm) p in
           case SetMetatable env (vm_sh vm) p newMetatable of None \<Rightarrow> None
           | Some (sh, result) \<Rightarrow>
             (let newStructure = struct_at sh (am_newStructure result);
                  t1 = (if am_shouldInsertMetatable result \<and> am_shouldGrowButterfly result
                        then GrowButterflyKnowingNamedStorageCapacity True self (m_butterflyNamedStorageCapacity structure)
                               (m_butterflyNamedStorageCapacity newStructure) else self);
                  t2 = (if am_shouldInsertMetatable result
                        then set_slot (am_slotOrdinal result) (m_inlineNamedStorageCapacity structure) (boxed_metatable newMetatable) t1
                        else t1)
              in Some (vm\<lparr>vm_sh := sh\<rparr>, t2\<lparr>t_hiddenClass := HStructure (am_newStructure result), t_arrayType := m_arrayType newStructure\<rparr>)))
      | HDictionary p d \<Rightarrow>
          if d_metatable d = newMetatable then Some (vm, self)
          else (case RelocateForAddingOrRemovingMetatable (vm_sh vm) d newMetatable of None \<Rightarrow> None
            | Some (sh, r, newCd, old) \<Rightarrow>
                Some (vm\<lparr>vm_sh := sh\<rparr>, self\<lparr>t_hiddenClass := HDictionary r newCd, t_arrayType := SetMayHaveMetatable True (t_arrayType self)\<rparr>)))"

definition t_RemoveMetatable :: "vm_env \<Rightarrow> vm_state \<Rightarrow> table_object \<Rightarrow> (vm_state \<times> table_object) option" where
  "t_RemoveMetatable env vm self =
     (case t_hiddenClass self of
        HStructure p \<Rightarrow>
          (let structure = struct_at (vm_sh vm) p in
           case RemoveMetatable env (vm_sh vm) p of None \<Rightarrow> None
           | Some (sh, result) \<Rightarrow>
             (let t1 = (if rm_shouldInsertMetatable result
                        then set_slot (rm_slotOrdinal result) (m_inlineNamedStorageCapacity structure) Nil self else self)
              in Some (vm\<lparr>vm_sh := sh\<rparr>, t1\<lparr>t_hiddenClass := HStructure (rm_newStructure result),
                         t_arrayType := m_arrayType (struct_at sh (rm_newStructure result))\<rparr>)))
      | HDictionary p d \<Rightarrow>
          if d_metatable d = 0 then Some (vm, self)
          else (case RelocateForAddingOrRemovingMetatable (vm_sh vm) d 0 of None \<Rightarrow> None
            | Some (sh, r, newCd, old) \<Rightarrow>
                Some (vm\<lparr>vm_sh := sh\<rparr>, self\<lparr>t_hiddenClass := HDictionary r newCd, t_arrayType := SetMayHaveMetatable False (t_arrayType self)\<rparr>)))"

text \<open>True guarantees that the metamethod with ordinal \<open>mtKind\<close> does not exist.\<close>

definition TryQuicklyRuleOutMetamethod :: "sheap \<Rightarrow> table_object \<Rightarrow> nat \<Rightarrow> bool" where
  "TryQuicklyRuleOutMetamethod sh self mtKind =
     (case t_hiddenClass self of
        HStructure p \<Rightarrow> m_knownNonexistentMetamethods (struct_at sh p) AND push_bit mtKind 1 \<noteq> 0
      | HDictionary p d \<Rightarrow> False)"

section \<open>Writing a named property\<close>

datatype PutByIdKind = TransitionedToDictionaryMode | PutInlinedStorage | PutOutlinedStorage

record PutByIdICInfo =
  pu_icKind :: PutByIdKind
  pu_propertyExists :: bool
  pu_shouldGrowButterfly :: bool
  pu_mayHaveMetatable :: bool
  pu_isInlineCacheable :: bool
  pu_slot :: "32 word"
  pu_newStructure :: sys_ptr

definition put_ic :: "bool \<Rightarrow> bool \<Rightarrow> bool \<Rightarrow> nat \<Rightarrow> nat \<Rightarrow> sys_ptr \<Rightarrow> PutByIdICInfo" where
  "put_ic propertyExists shouldGrowButterfly mayHaveMetatable slotOrd inlineStorageCapacity newStructure =
     \<lparr>pu_icKind = (if slotOrd < inlineStorageCapacity then PutInlinedStorage else PutOutlinedStorage),
      pu_propertyExists = propertyExists, pu_shouldGrowButterfly = shouldGrowButterfly, pu_mayHaveMetatable = mayHaveMetatable,
      pu_isInlineCacheable = True, pu_slot = slot_in_ic slotOrd inlineStorageCapacity, pu_newStructure = newStructure\<rparr>"

definition PreparePutByIdForCacheableDictionary ::
  "vm_env \<Rightarrow> bool \<Rightarrow> table_object \<Rightarrow> sys_ptr \<Rightarrow> dictionary \<Rightarrow> gkey \<Rightarrow> (table_object \<times> PutByIdICInfo) option" where
  "PreparePutByIdForCacheableDictionary env isString self p dict propertyName =
     (case (if isString then PreparePutById env dict propertyName else PreparePutByMaybeNonStringKey env dict propertyName) of None \<Rightarrow> None
      | Some (dict, res) \<Rightarrow>
        (let t1 = (if pb_shouldGrowButterfly res
                   then GrowButterflyKnowingNamedStorageCapacity True self (d_butterflyNamedStorageCapacity dict) (pb_newButterflyCapacity res)
                   else self);
             dict = (if pb_shouldGrowButterfly res then dict\<lparr>d_butterflyNamedStorageCapacity := pb_newButterflyCapacity res\<rparr> else dict)
         in Some (t1\<lparr>t_hiddenClass := HDictionary p dict\<rparr>,
              put_ic True False (d_metatable dict \<noteq> 0) (pb_slot res) (d_inlineNamedStorageCapacity dict) 0)))"

definition PreparePutByIdForStructure ::
  "vm_env \<Rightarrow> sheap \<Rightarrow> bool \<Rightarrow> sys_ptr \<Rightarrow> gkey \<Rightarrow> (sheap \<times> PutByIdICInfo) option" where
  "PreparePutByIdForStructure env sh isString structurep propertyName =
     (let structure = struct_at sh structurep;
          mayHaveMetatable = (m_metatable structure \<noteq> 0);
          inlineStorageCapacity = m_inlineNamedStorageCapacity structure;
          found = (if isString then GetSlotOrdinalFromStringProperty env sh structure propertyName
                   else GetSlotOrdinalFromMaybeNonStringProperty env sh structure propertyName)
      in case found of None \<Rightarrow> None
      | Some (Some slotOrd) \<Rightarrow> Some (sh, put_ic True False mayHaveMetatable slotOrd inlineStorageCapacity 0)
      | Some None \<Rightarrow>
        (case AddNonExistentProperty env sh structurep propertyName of None \<Rightarrow> None
         | Some (sh, TransitionToDictionaryMode) \<Rightarrow>
             Some (sh, \<lparr>pu_icKind = TransitionedToDictionaryMode, pu_propertyExists = False, pu_shouldGrowButterfly = False,
                        pu_mayHaveMetatable = mayHaveMetatable, pu_isInlineCacheable = False, pu_slot = 0, pu_newStructure = 0\<rparr>)
         | Some (sh, AddedProperty grow slotOrd newStructure) \<Rightarrow>
             Some (sh, put_ic False grow mayHaveMetatable slotOrd inlineStorageCapacity newStructure)))"

definition t_PreparePutById ::
  "vm_env \<Rightarrow> vm_state \<Rightarrow> bool \<Rightarrow> table_object \<Rightarrow> gkey \<Rightarrow> (vm_state \<times> table_object \<times> PutByIdICInfo) option" where
  "t_PreparePutById env vm isString self propertyName =
     (case t_hiddenClass self of
        HStructure p \<Rightarrow>
          (case PreparePutByIdForStructure env (vm_sh vm) isString p propertyName of None \<Rightarrow> None
           | Some (sh, info) \<Rightarrow> Some (vm\<lparr>vm_sh := sh\<rparr>, self, info))
      | HDictionary p d \<Rightarrow>
          (case PreparePutByIdForCacheableDictionary env isString self p d propertyName of None \<Rightarrow> None
           | Some (t, info) \<Rightarrow> Some (vm, t, info)))"

definition PutByIdNeedToCheckMetatable :: "table_object \<Rightarrow> PutByIdICInfo \<Rightarrow> bool" where
  "PutByIdNeedToCheckMetatable self icInfo =
     (if \<not> pu_mayHaveMetatable icInfo then False
      else if \<not> pu_propertyExists icInfo then True
      else if pu_icKind icInfo = PutInlinedStorage then IsNil (t_inlineStorage self ! unat (pu_slot icInfo))
      else IsNil (GetNamedProperty (the (t_butterfly self)) (pu_slot icInfo)))"

definition PutByIdTransitionToDictionary ::
  "vm_env \<Rightarrow> vm_state \<Rightarrow> table_object \<Rightarrow> sys_ptr \<Rightarrow> gkey \<Rightarrow> tvalue \<Rightarrow> (vm_state \<times> table_object) option" where
  "PutByIdTransitionToDictionary env vm self p prop newValue =
     (let structure = struct_at (vm_sh vm) p in
      case CreateFromStructure env (vm_sh vm)
             (\<lambda>slot. GetPolyMetatableFromObjectWithStructureHiddenClass self slot (m_inlineNamedStorageCapacity structure)) p prop of None \<Rightarrow> None
      | Some (sh, dictionary, res) \<Rightarrow>
        (let t1 = (if cf_shouldGrowButterfly res
                   then GrowButterflyKnowingNamedStorageCapacity True self (m_butterflyNamedStorageCapacity structure)
                          (d_butterflyNamedStorageCapacity dictionary) else self);
             t2 = set_slot (cf_slot res) (d_inlineNamedStorageCapacity dictionary) newValue t1
         in Some (vm\<lparr>vm_sh := sh\<rparr>, t2\<lparr>t_hiddenClass := HDictionary (cf_dictionary res) dictionary,
                     t_arrayType := SetMayHaveMetatable (d_metatable dictionary \<noteq> 0) (t_arrayType self)\<rparr>)))"

definition PutById :: "vm_env \<Rightarrow> vm_state \<Rightarrow> table_object \<Rightarrow> gkey \<Rightarrow> tvalue \<Rightarrow> PutByIdICInfo \<Rightarrow> (vm_state \<times> table_object) option" where
  "PutById env vm self propertyName newValue icInfo =
     (case pu_icKind icInfo of
        TransitionedToDictionaryMode \<Rightarrow>
          (case t_hiddenClass self of
             HStructure p \<Rightarrow> PutByIdTransitionToDictionary env vm self p propertyName newValue
           | HDictionary p d \<Rightarrow> None)
      | kind \<Rightarrow>
          (let t1 = (if \<not> pu_propertyExists icInfo \<and> pu_shouldGrowButterfly icInfo
                     then GrowButterfly True (vm_sh vm) self (m_butterflyNamedStorageCapacity (struct_at (vm_sh vm) (pu_newStructure icInfo)))
                     else self);
               t2 = (if \<not> pu_propertyExists icInfo then t1\<lparr>t_hiddenClass := HStructure (pu_newStructure icInfo)\<rparr> else t1)
           in Some (vm, if kind = PutInlinedStorage then set_inline (unat (pu_slot icInfo)) newValue t2
                        else set_outlined (pu_slot icInfo) newValue t2)))"

text \<open>Reading and writing a property outside of the inline caches.\<close>

definition RawGetPropertyFromTableObject :: "vm_env \<Rightarrow> sheap \<Rightarrow> bool \<Rightarrow> table_object \<Rightarrow> gkey \<Rightarrow> tvalue option" where
  "RawGetPropertyFromTableObject env sh isString object prop =
     (case PrepareGetById env sh isString object prop of None \<Rightarrow> None | Some icInfo \<Rightarrow> GetById object icInfo)"

definition InsertField :: "vm_env \<Rightarrow> vm_state \<Rightarrow> bool \<Rightarrow> table_object \<Rightarrow> gkey \<Rightarrow> tvalue \<Rightarrow> (vm_state \<times> table_object) option" where
  "InsertField env vm isString r prop value =
     (case t_PreparePutById env vm isString r prop of None \<Rightarrow> None
      | Some (vm, r, icInfo) \<Rightarrow> PutById env vm r prop value icInfo)"

section \<open>Creating and cloning tables\<close>

definition ComputeObjectAllocationSize :: "nat \<Rightarrow> nat" where
  "ComputeObjectAllocationSize inlineCapacity = 16 + inlineCapacity * 8"

definition CreateEmptyTableObjectImpl :: "vm_state \<Rightarrow> sys_ptr \<Rightarrow> nat \<Rightarrow> nat \<Rightarrow> (vm_state \<times> table_object) option" where
  "CreateEmptyTableObjectImpl vm emptyStructure inlineCapacity initialButterflyArrayPartCapacity =
     (case AllocFromUserHeap vm (ComputeObjectAllocationSize inlineCapacity) of None \<Rightarrow> None
      | Some (vm, r) \<Rightarrow>
          Some (vm, \<lparr>t_hiddenClass = HStructure emptyStructure, t_arrayType = GetInitialArrayType,
            t_butterfly = (if initialButterflyArrayPartCapacity > 0
                           then Some (GrowButterflyFromNull False initialButterflyArrayPartCapacity) else None),
            t_inlineStorage = replicate inlineCapacity Nil, t_sparseMap = None\<rparr>))"

definition CreateEmptyTableObject :: "vm_state \<Rightarrow> sys_ptr \<Rightarrow> nat \<Rightarrow> (vm_state \<times> table_object) option" where
  "CreateEmptyTableObject vm emptyStructure initialButterflyArrayPartCapacity =
     CreateEmptyTableObjectImpl vm emptyStructure (m_inlineNamedStorageCapacity (struct_at (vm_sh vm) emptyStructure))
       initialButterflyArrayPartCapacity"

definition CreateEmptyGlobalObject :: "vm_state \<Rightarrow> (vm_state \<times> table_object) option" where
  "CreateEmptyGlobalObject vm =
     (let inlineCapacity = x_maxNumSlots in
      case CreateEmptyDictionary (vm_sh vm) 128 inlineCapacity True of None \<Rightarrow> None
      | Some (sh, hp, hc) \<Rightarrow>
        (case AllocFromUserHeap (vm\<lparr>vm_sh := sh\<rparr>) (ComputeObjectAllocationSize inlineCapacity) of None \<Rightarrow> None
         | Some (vm, r) \<Rightarrow>
             Some (vm, \<lparr>t_hiddenClass = HDictionary hp hc, t_arrayType = GetInitialArrayType, t_butterfly = None,
               t_inlineStorage = replicate inlineCapacity Nil, t_sparseMap = None\<rparr>)))"

text \<open>The copy of the butterfly refers to a copy of the sparse map, if there is one.\<close>

definition CloneButterfly ::
  "vm_state \<Rightarrow> table_object \<Rightarrow> nat \<Rightarrow> (vm_state \<times> butterfly \<times> sparse_map option) option" where
  "CloneButterfly vm self butterflyNamedStorageCapacity =
     (let b = the (t_butterfly self);
          copy = b\<lparr>bf_vector := take (unat (m_arrayStorageCapacity (bf_header b))) (bf_vector b),
                   bf_named := take butterflyNamedStorageCapacity (bf_named b)\<rparr>
      in if bh_HasSparseMap (bf_header b) then
           (case AllocFromUserHeap vm sizeof_ArraySparseMap of None \<Rightarrow> None
            | Some (vm, p) \<Rightarrow>
                Some (vm, copy\<lparr>bf_header := (bf_header b)\<lparr>m_arrayLengthIfContinuous := GeneralHeapPointer p\<rparr>\<rparr>,
                  Some (sm_Clone (the (t_sparseMap self)))))
         else Some (vm, copy, None))"

definition ShallowCloneTableObject :: "vm_state \<Rightarrow> table_object \<Rightarrow> (vm_state \<times> table_object) option" where
  "ShallowCloneTableObject vm self =
     (let hc = t_hiddenClass self;
          inlineCapacity = hc_inlineNamedStorageCapacity (vm_sh vm) hc;
          butterflyNamedStorageCapacity = hc_butterflyNamedStorageCapacity (vm_sh vm) hc
      in case (case hc of HStructure p \<Rightarrow> Some (vm, hc)
               | HDictionary p d \<Rightarrow> map_option (\<lambda>(sh, r, d). (vm\<lparr>vm_sh := sh\<rparr>, HDictionary r d)) (d_Clone (vm_sh vm) d)) of None \<Rightarrow> None
      | Some (vm, newHiddenClass) \<Rightarrow>
        (case AllocFromUserHeap vm (ComputeObjectAllocationSize inlineCapacity) of None \<Rightarrow> None
         | Some (vm, r) \<Rightarrow>
           (let t = \<lparr>t_hiddenClass = newHiddenClass, t_arrayType = t_arrayType self, t_butterfly = None,
                     t_inlineStorage = take inlineCapacity (t_inlineStorage self), t_sparseMap = None\<rparr>
            in if t_butterfly self = None then Some (vm, t)
               else map_option (\<lambda>(vm, b, m). (vm, t\<lparr>t_butterfly := Some b, t_sparseMap := m\<rparr>))
                      (CloneButterfly vm self butterflyNamedStorageCapacity))))"

text \<open>
  The variants for \<^verbatim>\<open>TableDup\<close> assume a structure without outlined named storage and no sparse map;
  \<open>inlineCapacity\<close> is the entry of \<^verbatim>\<open>x_inlineStorageSizeForSteppingArray\<close> for the stepping.
\<close>

definition CloneButterflyForTableDup :: "table_object \<Rightarrow> butterfly" where
  "CloneButterflyForTableDup self =
     (let b = the (t_butterfly self)
      in b\<lparr>bf_vector := take (unat (m_arrayStorageCapacity (bf_header b))) (bf_vector b), bf_named := []\<rparr>)"

definition ShallowCloneTableObjectForTableDup ::
  "vm_state \<Rightarrow> table_object \<Rightarrow> nat \<Rightarrow> bool \<Rightarrow> (vm_state \<times> table_object) option" where
  "ShallowCloneTableObjectForTableDup vm self inlineCapacity hasButterfly =
     (case AllocFromUserHeap vm (ComputeObjectAllocationSize inlineCapacity) of None \<Rightarrow> None
      | Some (vm, r) \<Rightarrow>
          Some (vm, (self\<lparr>t_inlineStorage := take inlineCapacity (t_inlineStorage self)\<rparr>)
            \<lparr>t_butterfly := (if hasButterfly then Some (CloneButterflyForTableDup self) else t_butterfly self)\<rparr>))"

end
