(* ===== verification/TableInv.thy ===== *)
theory TableInv
  imports TableArrayPut TableNamed
begin

unbundle bit_operations_syntax

text \<open>
  The invariant of a table: inline and outlined storage form one list of slots, laid out by the hidden class; the slots without a
  key are nil; the array part satisfies its own invariant, and the array type of the table is the one the hidden class
  records. Reading a named property returns the value that the invariant assigns to the key. A step of
  the shared system heap keeps the invariant of every table.
\<close>

section \<open>The slots of a table\<close>

text \<open>Inline and outlined storage together; slot \<open>i\<close> is element \<open>i\<close>.\<close>

definition t_slots :: "table_object \<Rightarrow> tvalue list" where
  "t_slots t = t_inlineStorage t @ t_named t"

lemma outline_pos:
  assumes "cap \<le> i" "i < 2 ^ 31"
  shows "bf_named_pos (GetOutlineStorageIndex (of_nat i) (of_nat cap)) = i - cap"
proof -
  have u: "unat (of_nat i :: u32) = i" "unat (of_nat cap :: u32) = cap"
    using assms by (simp_all add: unat_of_nat take_bit_nat_eq_self)
  have "sint (GetOutlineStorageIndex (of_nat i) (of_nat cap)) = int cap - int i - 1"
    using GetOutlineStorageIndex_sint[of "of_nat cap" "of_nat i"] assms by (simp add: u)
  then show ?thesis using assms by (simp add: bf_named_pos_def)
qed

lemma slot_outlined:
  assumes "i < length (t_slots t)" "length (t_inlineStorage t) \<le> i"
  obtains b where "t_butterfly t = Some b" "t_named t = bf_named b" "i - length (t_inlineStorage t) < length (bf_named b)"
  using assms by (cases "t_butterfly t") (auto simp: t_slots_def t_named_def)

lemma GetValueForSlot_nth:
  assumes "i < length (t_slots t)" "length (t_slots t) \<le> 2 ^ 31" "length (t_inlineStorage t) = cap"
  shows "GetValueForSlot t i cap = t_slots t ! i"
proof (cases "i < cap")
  case True
  then show ?thesis using assms(3) by (simp add: GetValueForSlot_def t_slots_def nth_append)
next
  case False
  obtain b where "t_butterfly t = Some b" "t_named t = bf_named b" using slot_outlined[OF assms(1)] False assms(3) by auto
  then show ?thesis using False assms outline_pos[of cap i]
    by (simp add: GetValueForSlot_def t_slots_def nth_append GetNamedProperty_def)
qed

text \<open>Nothing but the named storage differs.\<close>

definition same_array :: "table_object \<Rightarrow> table_object \<Rightarrow> bool" where
  "same_array t t' \<longleftrightarrow> t_arrayType t' = t_arrayType t \<and> t_sparseMap t' = t_sparseMap t \<and>
     map_option (\<lambda>b. (bf_header b, bf_vector b)) (t_butterfly t') = map_option (\<lambda>b. (bf_header b, bf_vector b)) (t_butterfly t)"

lemma same_array_vec: "same_array t t' \<Longrightarrow> t_vec t' = t_vec t"
  by (auto simp: same_array_def t_vec_def map_option_case split: option.splits)

lemma same_array_ok:
  assumes "same_array t t'"
  shows "arr_ok env t' g = arr_ok env t g"
proof -
  have "bf_ok at (t_butterfly t') = bf_ok at (t_butterfly t)" for at
    using assms by (auto simp: same_array_def bf_ok_def map_option_case split: option.splits)
  then show ?thesis using assms same_array_vec[OF assms] by (simp add: arr_ok_def same_array_def)
qed

lemma set_slot_simps [simp]:
  "t_hiddenClass (set_slot i cap v t) = t_hiddenClass t" "t_arrayType (set_slot i cap v t) = t_arrayType t"
  "length (t_inlineStorage (set_slot i cap v t)) = length (t_inlineStorage t)"
  "length (t_named (set_slot i cap v t)) = length (t_named t)"
  by (auto simp: set_slot_def set_inline_def set_outlined_def t_named_def SetNamedProperty_def split: option.splits)

lemma set_slot_array: "same_array t (set_slot i cap v t)"
  by (cases "t_butterfly t") (auto simp: same_array_def set_slot_def set_inline_def set_outlined_def SetNamedProperty_def)

lemma set_slot_slots:
  assumes "i < length (t_slots t)" "length (t_slots t) \<le> 2 ^ 31" "length (t_inlineStorage t) = cap"
  shows "t_slots (set_slot i cap v t) = (t_slots t)[i := v]"
proof (cases "i < cap")
  case True
  then show ?thesis using assms(3) by (simp add: set_slot_def set_inline_def t_slots_def list_update_append t_named_def)
next
  case False
  obtain b where "t_butterfly t = Some b" using slot_outlined[OF assms(1)] False assms(3) by auto
  then show ?thesis using False assms outline_pos[of cap i]
    by (simp add: set_slot_def set_outlined_def t_slots_def list_update_append SetNamedProperty_def t_named_def)
qed

text \<open>The inline-cache slots address the same storage.\<close>

lemma ic_set:
  assumes "i < length (t_slots t)" "length (t_slots t) \<le> 2 ^ 31" "cap < 2 ^ 31"
  shows "(if i < cap then set_inline (unat (slot_in_ic i cap)) v t else set_outlined (slot_in_ic i cap) v t) = set_slot i cap v t"
  using assms by (auto simp: slot_in_ic_def set_slot_def unat_of_nat take_bit_nat_eq_self)

lemma ic_get:
  assumes "i < length (t_slots t)" "length (t_slots t) \<le> 2 ^ 31" "length (t_inlineStorage t) = cap"
  shows "GetById t (get_ic_found m i cap) = Some (t_slots t ! i)"
proof -
  have "i < cap \<Longrightarrow> unat (of_nat i :: u32) = i" using assms by (auto simp: unat_of_nat take_bit_nat_eq_self t_slots_def)
  then show ?thesis using GetValueForSlot_nth[OF assms]
    by (auto simp: GetById_def get_ic_found_def slot_in_ic_def GetValueForSlot_def split: if_splits)
qed

section \<open>Growing the named storage\<close>

lemma grow_named:
  assumes ok: "bf_ok at (t_butterfly t)" and old: "old = length (t_named t)" and n: "old \<le> n"
  defines "t' \<equiv> GrowButterflyKnowingNamedStorageCapacity True t old n"
  shows "t_slots t' = t_slots t @ replicate (n - old) Nil" "length (t_named t') = n" "t_hiddenClass t' = t_hiddenClass t"
    "t_inlineStorage t' = t_inlineStorage t" "t_arrayType t' = t_arrayType t" "t_sparseMap t' = t_sparseMap t"
    "t_vec t' = t_vec t" "t_len t' = t_len t" "bf_ok at (t_butterfly t')"
proof -
  have "t_slots t' = t_slots t @ replicate (n - old) Nil \<and> length (t_named t') = n \<and> t_hiddenClass t' = t_hiddenClass t \<and>
    t_inlineStorage t' = t_inlineStorage t \<and> t_arrayType t' = t_arrayType t \<and> t_sparseMap t' = t_sparseMap t \<and>
    t_vec t' = t_vec t \<and> t_len t' = t_len t \<and> bf_ok at (t_butterfly t')"
  proof (cases "t_butterfly t")
    case None
    then have "t_named t = []" by simp
    then show ?thesis using None ok old n
      by (auto simp: t'_def GrowButterflyKnowingNamedStorageCapacity_def GrowButterflyFromNull_def t_slots_def t_named_def t_vec_def
          t_len_def bf_ok_def vec_ok_def x_alwaysVectorCutoff_def)
  next
    case (Some b)
    then have cap: "unat (m_arrayStorageCapacity (bf_header b)) = length (bf_vector b)" using ok bf_okD(1) by auto
    define b' where "b' = b\<lparr>bf_named := bf_named b @ replicate (n - old) Nil\<rparr>"
    have t': "t' = t\<lparr>t_butterfly := Some b'\<rparr>" using Some cap old
      by (simp add: t'_def GrowButterflyKnowingNamedStorageCapacity_def b'_def)
    have "bf_ok at (Some b')" using ok Some by (simp add: bf_ok_def b'_def)
    then show ?thesis using Some old n
      by (simp add: t' t_slots_def t_named_def t_vec_def t_len_def b'_def)
  qed
  then show "t_slots t' = t_slots t @ replicate (n - old) Nil" "length (t_named t') = n" "t_hiddenClass t' = t_hiddenClass t"
    "t_inlineStorage t' = t_inlineStorage t" "t_arrayType t' = t_arrayType t" "t_sparseMap t' = t_sparseMap t"
    "t_vec t' = t_vec t" "t_len t' = t_len t" "bf_ok at (t_butterfly t')" by blast+
qed

lemma grow_named_arr:
  assumes "arr_ok env t g" "old = length (t_named t)" "old \<le> n"
  shows "arr_ok env (GrowButterflyKnowingNamedStorageCapacity True t old n) g"
  using grow_named(5,6,7,9)[OF arr_okD(2)[OF assms(1)] assms(2,3)] assms(1) by (simp add: arr_ok_def)

section \<open>The invariant of a table\<close>

type_synonym keys_of = "sys_ptr \<Rightarrow> gkey list"

text \<open>
  A pointer into the user heap, as a \<^verbatim>\<open>GeneralHeapPointer\<close>. The keys of a hidden class are such pointers; only a structure has the
  key of the metatable slot.
\<close>

definition user_ptr :: "int \<Rightarrow> bool" where
  "user_ptr m \<longleftrightarrow> - (2 ^ 31) \<le> m \<and> m < - (2 ^ 29)"

fun keys_ok :: "vm_env \<Rightarrow> hclass \<Rightarrow> gkey list \<Rightarrow> bool" where
  "keys_ok env (HStructure p) ks \<longleftrightarrow> (\<forall>k\<in>set ks. k = env_specialKey env \<or> user_ptr k)"
| "keys_ok env (HDictionary p d) ks \<longleftrightarrow> (\<forall>k\<in>set ks. k \<noteq> env_specialKey env \<and> user_ptr k)"

text \<open>The keys of a hidden class in slot order.\<close>

definition hc_keys :: "vm_env \<Rightarrow> sheap \<Rightarrow> keys_of \<Rightarrow> hclass \<Rightarrow> gkey list \<Rightarrow> bool" where
  "hc_keys env sh K hc ks \<longleftrightarrow> keys_ok env hc ks \<and> (case hc of
      HStructure p \<Rightarrow> sh_structs sh p \<noteq> None \<and> ks = K p
    | HDictionary p d \<Rightarrow> dict_inv env d ks)"

definition named_ok :: "vm_env \<Rightarrow> sheap \<Rightarrow> keys_of \<Rightarrow> table_object \<Rightarrow> gkey list \<Rightarrow> bool" where
  "named_ok env sh K t ks \<longleftrightarrow> hc_keys env sh K (t_hiddenClass t) ks \<and>
     length (t_inlineStorage t) = hc_inlineNamedStorageCapacity sh (t_hiddenClass t) \<and> named_sized sh t \<and>
     (\<forall>i<length (t_slots t). length ks \<le> i \<longrightarrow> t_slots t ! i = Nil)"

definition named_fun :: "gkey list \<Rightarrow> tvalue list \<Rightarrow> gkey \<Rightarrow> tvalue" where
  "named_fun ks xs k = (case slot_index ks k of Some i \<Rightarrow> xs ! i | None \<Rightarrow> Nil)"

definition mt_flag_ok :: "table_object \<Rightarrow> bool" where
  "mt_flag_ok t \<longleftrightarrow> (case t_hiddenClass t of HStructure p \<Rightarrow> True
     | HDictionary p d \<Rightarrow> MayHaveMetatable (t_arrayType t) \<longleftrightarrow> d_metatable d \<noteq> 0)"

definition table_inv :: "vm_env \<Rightarrow> vm_state \<Rightarrow> keys_of \<Rightarrow> table_object \<Rightarrow> gkey list \<Rightarrow> (double \<Rightarrow> tvalue) \<Rightarrow> bool" where
  "table_inv env vm K t ks g \<longleftrightarrow> arr_inv env vm t g \<and> named_ok env (vm_sh vm) K t ks \<and> mt_flag_ok t"

lemma table_invD:
  assumes "table_inv env vm K t ks g"
  shows "arr_inv env vm t g" "named_ok env (vm_sh vm) K t ks" "mt_flag_ok t"
  using assms by (simp_all add: table_inv_def)

lemma named_okD:
  assumes "named_ok env sh K t ks"
  shows "hc_keys env sh K (t_hiddenClass t) ks" "length (t_inlineStorage t) = hc_inlineNamedStorageCapacity sh (t_hiddenClass t)"
    "length (t_named t) = hc_butterflyNamedStorageCapacity sh (t_hiddenClass t)"
    "i < length (t_slots t) \<Longrightarrow> length ks \<le> i \<Longrightarrow> t_slots t ! i = Nil" "named_sized sh t"
  using assms by (auto simp: named_ok_def named_sized_def)

lemma struct_fields:
  assumes "wf_theap env sh K C" "sh_structs sh p = Some s"
  shows "distinct (K p)" "length (K p) \<le> m_inlineNamedStorageCapacity s + m_butterflyNamedStorageCapacity s"
    "m_inlineNamedStorageCapacity s + m_butterflyNamedStorageCapacity s \<le> 254" "m_inlineNamedStorageCapacity s \<le> 253"
    "sem_ok env (K p) s" "struct_at sh p = s"
proof -
  have sem: "sem_ok env (K p) s" using wf_theapD(2)[OF assms] .
  then show "length (K p) \<le> m_inlineNamedStorageCapacity s + m_butterflyNamedStorageCapacity s"
    "m_inlineNamedStorageCapacity s + m_butterflyNamedStorageCapacity s \<le> 254" "m_inlineNamedStorageCapacity s \<le> 253" "sem_ok env (K p) s"
    by (auto simp: sem_ok_def storage_ok_def x_maxNumSlots_def)
  show "distinct (K p)" using wf_structD(2) wf_sheapD(3) wf_theapD(1)[OF assms] assms(2) by blast
  show "struct_at sh p = s" using assms(2) by (simp add: struct_at_def)
qed

lemma t_slots_length:
  assumes W: "wf_theap env sh K C" and ok: "named_ok env sh K t ks"
  shows "length ks \<le> length (t_slots t)" "length (t_slots t) \<le> 250000255" "length (t_inlineStorage t) \<le> 255" "distinct ks"
proof -
  have "length ks \<le> length (t_slots t) \<and> length (t_slots t) \<le> 250000255 \<and> length (t_inlineStorage t) \<le> 255 \<and> distinct ks"
  proof (cases "t_hiddenClass t")
    case (HStructure p)
    then obtain s where s: "sh_structs sh p = Some s" "ks = K p" using named_okD(1)[OF ok] by (auto simp: hc_keys_def)
    note F = struct_fields[OF W s(1)]
    show ?thesis using F s(2) named_okD(2,3)[OF ok]
      by (simp add: HStructure t_slots_def hc_inlineNamedStorageCapacity_def hc_butterflyNamedStorageCapacity_def)
  next
    case (HDictionary p d)
    then have "dict_inv env d ks" using named_okD(1)[OF ok] by (simp add: hc_keys_def)
    then show ?thesis using named_okD(2,3)[OF ok] wf_dictD[of env d ks]
      by (simp add: HDictionary t_slots_def hc_inlineNamedStorageCapacity_def hc_butterflyNamedStorageCapacity_def dict_inv_def)
  qed
  then show "length ks \<le> length (t_slots t)" "length (t_slots t) \<le> 250000255" "length (t_inlineStorage t) \<le> 255" "distinct ks" by blast+
qed

section \<open>String keys and other keys\<close>

lemma string_key:
  assumes "env_isString env key"
  shows "GetSlotOrdinalFromStringProperty env sh s key = GetSlotOrdinalFromMaybeNonStringProperty env sh s key"
    "d_GetSlotOrdinalFromStringProperty env d key = d_GetSlotOrdinalFromMaybeNonStringProperty env d key"
    "PreparePutById env d key = PreparePutByMaybeNonStringKey env d key"
  using assms by (simp_all add: GetSlotOrdinalFromStringProperty_def GetSlotOrdinalFromMaybeNonStringProperty_def
      d_GetSlotOrdinalFromStringProperty_def d_GetSlotOrdinalFromMaybeNonStringProperty_def PreparePutById_def
      PreparePutByMaybeNonStringKey_def dhash_def GetHashValueForMaybeNonStringKey_def)

definition good_key :: "vm_env \<Rightarrow> bool \<Rightarrow> gkey \<Rightarrow> bool" where
  "good_key env isString key \<longleftrightarrow> user_ptr key \<and> key \<noteq> env_specialKey env \<and> (isString \<longrightarrow> env_isString env key)"

lemma good_key_negative: "good_key env str key \<Longrightarrow> key < 0"
  by (simp add: good_key_def user_ptr_def)

section \<open>Reading\<close>

lemma GetById_ok:
  assumes W: "wf_theap env sh K C" and ok: "named_ok env sh K t ks" and key: "good_key env str key"
  shows "\<exists>info. PrepareGetById env sh str t key = Some info \<and> GetById t info = Some (named_fun ks (t_slots t) key)"
proof -
  note L = t_slots_length[OF W ok]
  have len: "length (t_slots t) \<le> 2 ^ 31" using L(2) by simp
  have G: "GetById t (get_ic_found m i (length (t_inlineStorage t))) = Some (named_fun ks (t_slots t) key)" if "slot_index ks key = Some i" for i m
    using ic_get[OF _ len refl, of i m] slot_index_less[OF that] L(1) that by (simp add: named_fun_def)
  have N: "GetById t \<lparr>gb_icKind = k, gb_mayHaveMetatable = m, gb_slot = 0\<rparr> = Some (named_fun ks (t_slots t) key)"
    if "slot_index ks key = None" "k = MustBeNil \<or> k = MustBeNilButUncacheable" for k m
    using that by (auto simp: GetById_def named_fun_def)
  show ?thesis
  proof (cases "t_hiddenClass t")
    case (HStructure p)
    then obtain s where s: "sh_structs sh p = Some s" "ks = K p" using named_okD(1)[OF ok] by (auto simp: hc_keys_def)
    have c: "m_inlineNamedStorageCapacity s = length (t_inlineStorage t)" "struct_at sh p = s"
      using named_okD(2)[OF ok] s(1) by (simp_all add: HStructure hc_inlineNamedStorageCapacity_def struct_at_def)
    have "PrepareGetById env sh str t key = Some (case slot_index ks key of
        Some i \<Rightarrow> get_ic_found (m_metatable s \<noteq> 0) i (length (t_inlineStorage t))
      | None \<Rightarrow> \<lparr>gb_icKind = MustBeNil, gb_mayHaveMetatable = (m_metatable s \<noteq> 0), gb_slot = 0\<rparr>)"
      using key wf_lookup[OF W s(1), of key] s(2) string_key(1)[of env key sh s]
      by (auto simp: PrepareGetById_def HStructure PrepareGetByIdImplForStructure_def c Let_def good_key_def split: option.splits)
    then show ?thesis using G N by (auto split: option.splits)
  next
    case (HDictionary p d)
    then have d: "dict_inv env d ks" using named_okD(1)[OF ok] by (simp add: hc_keys_def)
    have c: "d_inlineNamedStorageCapacity d = length (t_inlineStorage t)"
      using named_okD(2)[OF ok] by (simp add: HDictionary hc_inlineNamedStorageCapacity_def)
    have "PrepareGetById env sh str t key = Some (case slot_index ks key of
        Some i \<Rightarrow> get_ic_found (d_metatable d \<noteq> 0) i (length (t_inlineStorage t))
      | None \<Rightarrow> \<lparr>gb_icKind = MustBeNilButUncacheable, gb_mayHaveMetatable = (d_metatable d \<noteq> 0), gb_slot = 0\<rparr>)"
      using key dict_reach_lookup[OF d good_key_negative[OF key]] string_key(2)[of env key d]
      by (auto simp: PrepareGetById_def HDictionary PrepareGetByIdImplForCacheableDictionary_def c Let_def good_key_def split: option.splits)
    then show ?thesis using G N by (auto split: option.splits)
  qed
qed

section \<open>Other tables\<close>

lemma transits_struct:
  assumes "transits env sh K sh' K' C'" "sh_structs sh p = Some s"
  obtains s' where "sh_structs sh' p = Some s'" "m_metatable s' = m_metatable s" "m_arrayType s' = m_arrayType s"
    "m_inlineNamedStorageCapacity s' = m_inlineNamedStorageCapacity s"
    "m_butterflyNamedStorageCapacity s' = m_butterflyNamedStorageCapacity s" "K' p = K p"
proof -
  obtain s' where s': "sh_structs sh' p = Some s'" "same_core s s'"
    using assms unfolding transits_def keeps_structs_def by blast
  have "K' p = K p" using assms unfolding transits_def by simp
  then show ?thesis using that[OF s'(1)] same_core_fields[OF s'(2)] by blast
qed

text \<open>A step of the system heap keeps the invariant of every table and its metatable.\<close>

lemma table_inv_frame:
  assumes ok: "table_inv env vm K t ks g" and T: "transits env (vm_sh vm) K (vm_sh vm') K' C'" and u: "user_heap_ok vm'"
  shows "table_inv env vm' K' t ks g" "GetMetatable (vm_sh vm') t = GetMetatable (vm_sh vm) t"
proof -
  note A = table_invD[OF ok] and I = arr_invD[OF table_invD(1)[OF ok]] and N = named_okD[OF table_invD(2)[OF ok]]
  have "hc_type_ok (vm_sh vm') t \<and> named_ok env (vm_sh vm') K' t ks \<and> GetMetatable (vm_sh vm') t = GetMetatable (vm_sh vm) t"
  proof (cases "t_hiddenClass t")
    case (HStructure p)
    then obtain s where s: "sh_structs (vm_sh vm) p = Some s" "ks = K p" "m_arrayType s = t_arrayType t"
      using I(2) N(1) by (auto simp: hc_type_ok_def hc_keys_def)
    obtain s' where s': "sh_structs (vm_sh vm') p = Some s'" "m_metatable s' = m_metatable s" "m_arrayType s' = m_arrayType s"
      "m_inlineNamedStorageCapacity s' = m_inlineNamedStorageCapacity s"
      "m_butterflyNamedStorageCapacity s' = m_butterflyNamedStorageCapacity s" "K' p = K p"
      by (rule transits_struct[OF T s(1)])
    have st: "struct_at (vm_sh vm) p = s" "struct_at (vm_sh vm') p = s'" using s s' by (simp_all add: struct_at_def)
    show ?thesis using N s s' st
      by (auto simp: HStructure hc_type_ok_def named_ok_def hc_keys_def hc_inlineNamedStorageCapacity_def named_sized_def
          hc_butterflyNamedStorageCapacity_def GetMetatable_def HasNoMetatable_def HasMonomorphicMetatable_def GetPolyMetatableSlot_def Let_def)
  next
    case (HDictionary p d)
    then show ?thesis using A(2) by (simp add: hc_type_ok_def named_ok_def hc_keys_def hc_inlineNamedStorageCapacity_def named_sized_def
          hc_butterflyNamedStorageCapacity_def GetMetatable_def)
  qed
  then show "table_inv env vm' K' t ks g" "GetMetatable (vm_sh vm') t = GetMetatable (vm_sh vm) t"
    using A I u by (auto simp: table_inv_def arr_inv_def named_ok_def)
qed

section \<open>Moving a table to another hidden class\<close>

lemma named_fun_write:
  assumes "distinct ks" "slot_index ks key = Some i" "length ks \<le> length xs"
  shows "named_fun ks (xs[i := v]) k = (if k = key then v else named_fun ks xs k)"
proof -
  have i: "i < length ks" "ks ! i = key" using slot_index_SomeD[OF assms(2)] by auto
  have "j \<noteq> i" if "slot_index ks k = Some j" "k \<noteq> key" for j using slot_index_SomeD[OF that(1)] i that(2) by auto
  then show ?thesis using assms(2,3) i(1) by (auto simp: named_fun_def nth_list_update split: option.splits)
qed

lemma named_fun_append:
  assumes "\<And>j. slot_index ks k = Some j \<Longrightarrow> j < length xs"
  shows "named_fun ks (xs @ ys) k = named_fun ks xs k"
  using assms by (auto simp: named_fun_def nth_append split: option.splits)

lemma named_fun_cong: "slot_index ks k = slot_index ks' k \<Longrightarrow> named_fun ks xs k = named_fun ks' xs k"
  by (simp add: named_fun_def)

text \<open>Two array types that differ at most in the metatable flag.\<close>

definition same_but_mt :: "u8 \<Rightarrow> u8 \<Rightarrow> bool" where
  "same_but_mt at at' \<longleftrightarrow> SetMayHaveMetatable True at' = SetMayHaveMetatable True at"

lemma same_but_mt_simps:
  assumes "same_but_mt at at'"
  shows "ArrayKind at' = ArrayKind at" "HasSparseMap at' = HasSparseMap at" "IsContinuous at' = IsContinuous at"
    "SparseMapContainsVectorIndex at' = SparseMapContainsVectorIndex at" "valid_array_type at' = valid_array_type at"
  using assms[unfolded same_but_mt_def, THEN arg_cong, of ArrayKind] assms[unfolded same_but_mt_def, THEN arg_cong, of HasSparseMap]
    assms[unfolded same_but_mt_def, THEN arg_cong, of IsContinuous] assms[unfolded same_but_mt_def, THEN arg_cong, of valid_array_type]
    assms[unfolded same_but_mt_def, THEN arg_cong, of SparseMapContainsVectorIndex]
  by simp_all

lemma same_but_mt_refl [simp]: "same_but_mt at at" "same_but_mt at (SetMayHaveMetatable b at)"
  by (simp_all add: same_but_mt_def)

lemma arr_ok_move:
  assumes "arr_ok env t g" "same_but_mt (t_arrayType t) at'"
  shows "arr_ok env (t\<lparr>t_hiddenClass := hc, t_arrayType := at'\<rparr>) g"
proof -
  note E = same_but_mt_simps[OF assms(2)]
  have "at_ok at' = at_ok (t_arrayType t)" unfolding at_ok_def E by (rule refl)
  moreover have "bf_ok at' = bf_ok (t_arrayType t)" unfolding bf_ok_def vec_ok_def E by (rule refl)
  moreover have "sparse_ok env at' = sparse_ok env (t_arrayType t)" unfolding sparse_ok_def E by (rule refl)
  ultimately show ?thesis using assms(1) by (simp add: arr_ok_def t_vec_def)
qed

text \<open>What is needed for a table to satisfy the invariant after it moved to the hidden class \<open>hc\<close>.\<close>

definition fits :: "vm_env \<Rightarrow> sheap \<Rightarrow> keys_of \<Rightarrow> table_object \<Rightarrow> hclass \<Rightarrow> u8 \<Rightarrow> gkey list \<Rightarrow> bool" where
  "fits env sh K t hc at ks \<longleftrightarrow> hc_keys env sh K hc ks \<and> length (t_inlineStorage t) = hc_inlineNamedStorageCapacity sh hc \<and>
     length (t_named t) = hc_butterflyNamedStorageCapacity sh hc \<and> same_but_mt (t_arrayType t) at \<and>
     (case hc of HStructure p \<Rightarrow> m_arrayType (struct_at sh p) = at
      | HDictionary p d \<Rightarrow> MayHaveMetatable at \<longleftrightarrow> d_metatable d \<noteq> 0)"

lemma move_ok:
  assumes arr: "arr_ok env t g" and f: "fits env (vm_sh vm) K t hc at ks" and u: "user_heap_ok vm"
    and nil: "\<And>i. i < length (t_slots t) \<Longrightarrow> length ks \<le> i \<Longrightarrow> t_slots t ! i = Nil"
  shows "table_inv env vm K (t\<lparr>t_hiddenClass := hc, t_arrayType := at\<rparr>) ks g"
proof -
  let ?t = "t\<lparr>t_hiddenClass := hc, t_arrayType := at\<rparr>"
  have s: "t_slots ?t = t_slots t" "t_named ?t = t_named t" by (simp_all add: t_slots_def t_named_def)
  have "arr_ok env ?t g" using arr_ok_move[OF arr] f by (simp add: fits_def)
  moreover have "hc_type_ok (vm_sh vm) ?t" "mt_flag_ok ?t" using f
    by (cases hc; auto simp: fits_def hc_type_ok_def mt_flag_ok_def hc_keys_def struct_at_def)+
  moreover have "named_ok env (vm_sh vm) K ?t ks" using f nil by (auto simp: named_ok_def named_sized_def fits_def s)
  ultimately show ?thesis using u by (simp add: table_inv_def arr_inv_def named_ok_def)
qed

lemma fits_set_slot: "fits env sh K (set_slot i cap v t) hc at ks = fits env sh K t hc at ks"
  by (simp add: fits_def)

text \<open>Storing into a slot of the new hidden class.\<close>

lemma store_ok:
  fixes v :: tvalue
  assumes W: "wf_theap env (vm_sh vm) K C" and arr: "arr_ok env t g" and f: "fits env (vm_sh vm) K t hc at ks" and u: "user_heap_ok vm"
    and nil: "\<And>j. j < length (t_slots t) \<Longrightarrow> length ks \<le> j \<Longrightarrow> t_slots t ! j = Nil"
    and i: "slot_index ks key = Some i" and cap: "cap = length (t_inlineStorage t)"
  defines "t' \<equiv> (set_slot i cap v t)\<lparr>t_hiddenClass := hc, t_arrayType := at\<rparr>"
  shows "table_inv env vm K t' ks g" "named_fun ks (t_slots t') k = (if k = key then v else named_fun ks (t_slots t) k)"
    "t_vec t' = t_vec t" "t_slots t' = (t_slots t)[i := v]"
proof -
  note L = t_slots_length[OF W table_invD(2)[OF move_ok[OF arr f u nil]]]
  have sl: "t_slots (t\<lparr>t_hiddenClass := hc, t_arrayType := at\<rparr>) = t_slots t" by (simp add: t_slots_def t_named_def)
  have len: "length ks \<le> length (t_slots t)" "length (t_slots t) \<le> 2 ^ 31" "distinct ks" using L sl by auto
  have ii: "i < length ks" using slot_index_less[OF i] .
  have S: "t_slots (set_slot i cap v t) = (t_slots t)[i := v]" using set_slot_slots[of i t cap v] ii len cap by simp
  have "table_inv env vm K ((set_slot i cap v t)\<lparr>t_hiddenClass := hc, t_arrayType := at\<rparr>) ks g"
  proof (rule move_ok)
    show "arr_ok env (set_slot i cap v t) g" using same_array_ok[OF set_slot_array] arr by blast
    show "fits env (vm_sh vm) K (set_slot i cap v t) hc at ks" using f by (simp only: fits_set_slot)
    show "user_heap_ok vm" by (rule u)
    show "t_slots (set_slot i cap v t) ! j = Nil" if "j < length (t_slots (set_slot i cap v t))" "length ks \<le> j" for j
      using that nil[of j] ii S by simp
  qed
  then show "table_inv env vm K t' ks g" by (simp only: t'_def)
  have S': "t_slots t' = (t_slots t)[i := v]" using S by (simp add: t'_def t_slots_def t_named_def)
  then show "t_slots t' = (t_slots t)[i := v]" .
  show "named_fun ks (t_slots t') k = (if k = key then v else named_fun ks (t_slots t) k)"
    unfolding S' using named_fun_write[OF len(3) i len(1)] .
  show "t_vec t' = t_vec t" using same_array_vec[OF set_slot_array] by (simp add: t'_def t_vec_def)
qed

section \<open>The metatable of a table\<close>

definition unbox_metatable :: "tvalue \<Rightarrow> int" where
  "unbox_metatable v = (if IsNil v then 0 else drop_bit x_shiftFromRawOffset (sint (AsPointer v)))"

definition mt_of :: "sheap \<Rightarrow> table_object \<Rightarrow> int" where
  "mt_of sh t = gm_result (GetMetatable sh t)"

lemma mt_of_structure:
  assumes W: "wf_theap env sh K C" and ok: "named_ok env sh K t ks" and hc: "t_hiddenClass t = HStructure p" and s: "sh_structs sh p = Some s"
  shows "mt_of sh t = (if m_metatable s \<le> 0 then m_metatable s else unbox_metatable (t_slots t ! GetPolyMetatableSlot s))"
    "0 < m_metatable s \<Longrightarrow> slot_index ks (env_specialKey env) = Some (GetPolyMetatableSlot s)"
    "0 < m_metatable s \<Longrightarrow> GetPolyMetatableFromObjectWithStructureHiddenClass t (GetPolyMetatableSlot s) (m_inlineNamedStorageCapacity s) =
      unbox_metatable (t_slots t ! GetPolyMetatableSlot s)"
proof -
  note L = t_slots_length[OF W ok] and F = struct_fields[OF W s]
  have ks: "ks = K p" using named_okD(1)[OF ok] hc by (simp add: hc_keys_def)
  show P: "slot_index ks (env_specialKey env) = Some (GetPolyMetatableSlot s)" if "0 < m_metatable s"
    using sem_ok_metatable_slot(1)[OF F(5,1) that] ks by simp
  have c: "length (t_inlineStorage t) = m_inlineNamedStorageCapacity s"
    using named_okD(2)[OF ok] F(6) by (simp add: hc hc_inlineNamedStorageCapacity_def)
  have "GetValueForSlot t (GetPolyMetatableSlot s) (m_inlineNamedStorageCapacity s) = t_slots t ! GetPolyMetatableSlot s" if "0 < m_metatable s"
    using GetValueForSlot_nth[OF _ _ c, of "GetPolyMetatableSlot s"] slot_index_less[OF P[OF that]] L(1,2) by simp
  then show U: "GetPolyMetatableFromObjectWithStructureHiddenClass t (GetPolyMetatableSlot s) (m_inlineNamedStorageCapacity s) =
      unbox_metatable (t_slots t ! GetPolyMetatableSlot s)" if "0 < m_metatable s"
    using that by (simp add: GetPolyMetatableFromObjectWithStructureHiddenClass_def unbox_metatable_def)
  show "mt_of sh t = (if m_metatable s \<le> 0 then m_metatable s else unbox_metatable (t_slots t ! GetPolyMetatableSlot s))"
    using U by (auto simp: mt_of_def GetMetatable_def hc F(6) Let_def HasNoMetatable_def HasMonomorphicMetatable_def)
qed

text \<open>User heap pointers survive the boxing.\<close>


lemma unbox_boxed:
  assumes "user_ptr m"
  shows "unbox_metatable (boxed_metatable m) = m"
proof -
  have m: "- 2147483648 \<le> m" "m < - 536870912" using assms by (simp_all add: user_ptr_def)
  have s: "sint (word_of_int (m * 8) :: 64 word) = m * 8" using m by (intro sint_word_of_int_range) simp_all
  have "boxed_metatable m \<noteq> Nil"
  proof
    assume "boxed_metatable m = Nil"
    then have "sint (boxed_metatable m) = sint Nil" by simp
    moreover have "sint (boxed_metatable m) = m * 8" using s by (simp add: boxed_metatable_def CreatePointer_def push_bit_eq_mult x_shiftFromRawOffset_def)
    moreover have "sint Nil < - 17179869184"
      by (simp add: Nil_def CreateMIV_def miv_CreateNil_def x_nil_def x_mivTag_def)
    ultimately show False using m by simp
  qed
  then show ?thesis using s
    by (simp add: unbox_metatable_def IsNil_def boxed_metatable_def CreatePointer_def AsPointer_def push_bit_eq_mult
        x_shiftFromRawOffset_def drop_bit_eq_div)
qed

lemma unbox_nil [simp]: "unbox_metatable Nil = 0"
  by (simp add: unbox_metatable_def IsNil_def)

section \<open>Writing a named property\<close>

text \<open>
  The outcome of an operation on the named part: the table reads as \<open>F\<close>, its metatable is \<open>m\<close>, the array part is untouched,
  and the step of the system heap keeps every structure.
\<close>

definition named_result :: "vm_env \<Rightarrow> vm_state \<Rightarrow> keys_of \<Rightarrow> table_object \<Rightarrow> (double \<Rightarrow> tvalue) \<Rightarrow> (gkey \<Rightarrow> tvalue) \<Rightarrow> int \<Rightarrow>
    vm_state \<Rightarrow> table_object \<Rightarrow> bool" where
  "named_result env vm K t g F m vm' t' \<longleftrightarrow> (\<exists>K' C' ks'. transits env (vm_sh vm) K (vm_sh vm') K' C' \<and> table_inv env vm' K' t' ks' g \<and>
     (\<forall>k. k \<noteq> env_specialKey env \<longrightarrow> named_fun ks' (t_slots t') k = F k)) \<and> t_vec t' = t_vec t \<and> mt_of (vm_sh vm') t' = m"

lemma named_resultI:
  assumes "transits env (vm_sh vm) K (vm_sh vm') K' C'" "table_inv env vm' K' t' ks' g"
    "\<And>k. k \<noteq> env_specialKey env \<Longrightarrow> named_fun ks' (t_slots t') k = F k" "t_vec t' = t_vec t" "mt_of (vm_sh vm') t' = m"
  shows "named_result env vm K t g F m vm' t'"
  unfolding named_result_def using assms by blast

lemma fits_self:
  assumes ok: "table_inv env vm K t ks g"
  shows "fits env (vm_sh vm) K t (t_hiddenClass t) (t_arrayType t) ks"
  using named_okD[OF table_invD(2)[OF ok]] table_invD(3)[OF ok] arr_invD(2)[OF table_invD(1)[OF ok]]
  by (cases "t_hiddenClass t") (auto simp: fits_def mt_flag_ok_def hc_type_ok_def struct_at_def)

lemma mt_of_write:
  assumes W: "wf_theap env sh K C" and ok: "named_ok env sh K t ks" and key: "slot_index ks key = Some i" "key \<noteq> env_specialKey env"
    and ok': "named_ok env sh K t' ks" and t': "t_hiddenClass t' = t_hiddenClass t" "t_slots t' = (t_slots t)[i := v]"
  shows "mt_of sh t' = mt_of sh t"
proof (cases "t_hiddenClass t")
  case (HStructure p)
  then obtain s where s: "sh_structs sh p = Some s" using named_okD(1)[OF ok] by (auto simp: hc_keys_def)
  note M = mt_of_structure[OF W ok HStructure s] and M' = mt_of_structure[OF W ok' _ s]
  have "i \<noteq> GetPolyMetatableSlot s" if "0 < m_metatable s"
    using slot_index_SomeD[OF M(2)[OF that]] slot_index_SomeD[OF key(1)] key(2) by auto
  then show ?thesis using M(1) M'(1) t' HStructure by simp
next
  case (HDictionary p d)
  then show ?thesis using t'(1) by (simp add: mt_of_def GetMetatable_def)
qed

text \<open>A write to a key that the hidden class already has.\<close>

lemma write_existing:
  assumes W: "wf_theap env (vm_sh vm) K C" and ok: "table_inv env vm K t ks g" and i: "slot_index ks key = Some i"
    and key: "key \<noteq> env_specialKey env" and cap: "cap = length (t_inlineStorage t)"
  shows "named_result env vm K t g ((named_fun ks (t_slots t))(key := v)) (mt_of (vm_sh vm) t) vm (set_slot i cap v t)"
proof -
  note A = table_invD[OF ok]
  have eq: "(set_slot i cap v t)\<lparr>t_hiddenClass := t_hiddenClass t, t_arrayType := t_arrayType t\<rparr> = set_slot i cap v t"
    by (metis set_slot_simps(1,2) table_object.surjective table_object.update_convs(1,2))
  note S = store_ok[OF W arr_invD(1)[OF A(1)] fits_self[OF ok] arr_invD(4)[OF A(1)] named_okD(4)[OF A(2)] i cap, of v, unfolded eq]
  have "mt_of (vm_sh vm) (set_slot i cap v t) = mt_of (vm_sh vm) t"
    by (rule mt_of_write[OF W A(2) i key table_invD(2)[OF S(1)] set_slot_simps(1) S(4)])
  then show ?thesis using S by (intro named_resultI[OF transits_refl[OF W] S(1)]) simp_all
qed

text \<open>The write after the inline cache has been set up.\<close>

lemma PutById_existing:
  assumes "i < length (t_slots t)" "length (t_slots t) \<le> 2 ^ 31" "cap < 2 ^ 31"
  shows "PutById env vm t key v (put_ic True False m i cap r) = Some (vm, set_slot i cap v t)"
  using ic_set[OF assms, of v] by (auto simp: PutById_def put_ic_def split: if_splits)

lemma PutById_new:
  assumes "i < length (t_slots t1)" "length (t_slots t1) \<le> 2 ^ 31" "cap < 2 ^ 31"
    and t1: "t1 = (if grow then GrowButterfly True (vm_sh vm) t (m_butterflyNamedStorageCapacity (struct_at (vm_sh vm) r)) else t)"
  shows "PutById env vm t key v (put_ic False grow m i cap r) = Some (vm, (set_slot i cap v t1)\<lparr>t_hiddenClass := HStructure r\<rparr>)"
proof -
  have "(if i < cap then set_inline (unat (slot_in_ic i cap)) v (t1\<lparr>t_hiddenClass := HStructure r\<rparr>)
      else set_outlined (slot_in_ic i cap) v (t1\<lparr>t_hiddenClass := HStructure r\<rparr>)) = (set_slot i cap v t1)\<lparr>t_hiddenClass := HStructure r\<rparr>"
    using ic_set[of i "t1\<lparr>t_hiddenClass := HStructure r\<rparr>" cap v] assms(1-3)
    by (simp add: t_slots_def t_named_def set_slot_def set_inline_def set_outlined_def)
  then show ?thesis unfolding t1 by (auto simp: PutById_def put_ic_def split: if_splits)
qed

text \<open>A grown table and the keys of the structure after an addition.\<close>

lemma grown_slots:
  assumes arr: "arr_ok env t g" and n: "length (t_named t) \<le> n" "grow \<longleftrightarrow> n \<noteq> length (t_named t)"
  defines "t1 \<equiv> (if grow then GrowButterflyKnowingNamedStorageCapacity True t (length (t_named t)) n else t)"
  shows "t_slots t1 = t_slots t @ replicate (n - length (t_named t)) Nil" "length (t_named t1) = n" "t_hiddenClass t1 = t_hiddenClass t"
    "t_inlineStorage t1 = t_inlineStorage t" "t_arrayType t1 = t_arrayType t" "t_vec t1 = t_vec t" "arr_ok env t1 g"
  using grow_named[OF arr_okD(2)[OF arr] refl n(1)] grow_named_arr[OF arr refl n(1)] arr n unfolding t1_def by auto

lemma nil_beyond:
  assumes "\<And>i. i < length xs \<Longrightarrow> length ks \<le> i \<Longrightarrow> xs ! i = Nil" "length ks \<le> length ks'"
    "j < length (xs @ replicate m Nil)" "length ks' \<le> j"
  shows "(xs @ replicate m Nil) ! j = Nil"
  using assms by (auto simp: nth_append)

end
