(* ===== verification/TablePut.thy ===== *)
theory TablePut
  imports TableInv
begin

unbundle bit_operations_syntax

text \<open>
  Writing a named property: to a slot the hidden class has, with a transition to a new structure, with the move from a full
  structure to a dictionary, and into a dictionary. In every case the write changes the value of its key only.
\<close>

lemma same_arrayType: "t_arrayType t = at \<Longrightarrow> t\<lparr>t_hiddenClass := hc, t_arrayType := at\<rparr> = t\<lparr>t_hiddenClass := hc\<rparr>"
  by (cases t) simp

lemma put_structure_existing:
  assumes W: "wf_theap env (vm_sh vm) K C" and ok: "table_inv env vm K t ks g" and key: "good_key env str key"
    and hc: "t_hiddenClass t = HStructure p" and i: "slot_index ks key = Some i"
  shows "\<exists>vm' t'. InsertField env vm str t key v = Some (vm', t') \<and>
    named_result env vm K t g ((named_fun ks (t_slots t))(key := v)) (mt_of (vm_sh vm) t) vm' t'"
proof -
  note N = table_invD(2)[OF ok]
  obtain s where s: "sh_structs (vm_sh vm) p = Some s" "ks = K p" using named_okD(1)[OF N] hc by (auto simp: hc_keys_def)
  note F = struct_fields[OF W s(1)] and L = t_slots_length[OF W N]
  have cap: "m_inlineNamedStorageCapacity s = length (t_inlineStorage t)"
    using named_okD(2)[OF N] F(6) by (simp add: hc hc_inlineNamedStorageCapacity_def)
  have "PreparePutByIdForStructure env (vm_sh vm) str p key =
      Some (vm_sh vm, put_ic True False (m_metatable s \<noteq> 0) i (length (t_inlineStorage t)) 0)"
    using key wf_lookup[OF W s(1), of key] i s(2) string_key(1)[of env key "vm_sh vm" s]
    by (auto simp: PreparePutByIdForStructure_def F(6) Let_def good_key_def cap)
  then have "InsertField env vm str t key v = Some (vm, set_slot i (length (t_inlineStorage t)) v t)"
    using PutById_existing[of i t "length (t_inlineStorage t)"] slot_index_less[OF i] L
    by (simp add: InsertField_def t_PreparePutById_def hc)
  moreover have "key \<noteq> env_specialKey env" using key by (simp add: good_key_def)
  ultimately show ?thesis using write_existing[OF W ok i _ refl] by blast
qed

text \<open>Growing the named storage if needed, storing into a slot of the new hidden class, and moving there.\<close>

definition grown :: "table_object \<Rightarrow> nat \<Rightarrow> table_object" where
  "grown t n = (if n \<noteq> length (t_named t) then GrowButterflyKnowingNamedStorageCapacity True t (length (t_named t)) n else t)"

lemma grow_store:
  fixes v :: tvalue
  assumes W: "wf_theap env (vm_sh vm) K C" and ok: "table_inv env vm K t ks g" and W': "wf_theap env (vm_sh vm') K' C'"
    and u: "user_heap_ok vm'"
    and hc: "hc_keys env (vm_sh vm') K' hc ks'" "length (t_inlineStorage t) = hc_inlineNamedStorageCapacity (vm_sh vm') hc"
      "hc_butterflyNamedStorageCapacity (vm_sh vm') hc = n" "length (t_named t) \<le> n"
    and at: "same_but_mt (t_arrayType t) at" "case hc of HStructure p \<Rightarrow> m_arrayType (struct_at (vm_sh vm') p) = at
      | HDictionary p d \<Rightarrow> MayHaveMetatable at \<longleftrightarrow> d_metatable d \<noteq> 0"
    and i: "slot_index ks' key = Some i" and len: "length ks \<le> length ks'"
    and keep: "\<And>k. k \<noteq> key \<Longrightarrow> k \<noteq> env_specialKey env \<Longrightarrow> slot_index ks' k = slot_index ks k"
  defines "t' \<equiv> (set_slot i (length (t_inlineStorage t)) v (grown t n))\<lparr>t_hiddenClass := hc, t_arrayType := at\<rparr>"
  shows "table_inv env vm' K' t' ks' g" "t_vec t' = t_vec t" "t_slots t' = (t_slots t @ replicate (n - length (t_named t)) Nil)[i := v]"
    "k \<noteq> env_specialKey env \<Longrightarrow> named_fun ks' (t_slots t') k = ((named_fun ks (t_slots t))(key := v)) k"
    "i < length (t_slots (grown t n))" "length (t_slots (grown t n)) \<le> 2 ^ 31" "t_arrayType (grown t n) = t_arrayType t"
proof -
  note A = table_invD[OF ok]
  note G = grown_slots[OF arr_invD(1)[OF A(1)] hc(4) refl, folded grown_def] and L = t_slots_length[OF W A(2)]
  have f: "fits env (vm_sh vm') K' (grown t n) hc at ks'"
    unfolding fits_def G(2,4,5) using hc at by (simp add: G(5))
  have nil: "t_slots (grown t n) ! j = Nil" if "j < length (t_slots (grown t n))" "length ks' \<le> j" for j
    using nil_beyond[of "t_slots t" ks ks' j "n - length (t_named t)"] named_okD(4)[OF A(2)] that len unfolding G(1) by auto
  have c: "length (t_inlineStorage t) = length (t_inlineStorage (grown t n))" using G(4) by simp
  note S = store_ok[OF W' G(7) f u nil i c, of v, folded t'_def]
  show "table_inv env vm' K' t' ks' g" "t_vec t' = t_vec t" "t_slots t' = (t_slots t @ replicate (n - length (t_named t)) Nil)[i := v]"
    "t_arrayType (grown t n) = t_arrayType t"
    using S(1,3,4) G(1,5,6) by simp_all
  note L' = t_slots_length[OF W' table_invD(2)[OF S(1)]]
  show "length (t_slots (grown t n)) \<le> 2 ^ 31" "i < length (t_slots (grown t n))"
    using L'(1,2) slot_index_less[OF i] S(4) by simp_all
  assume k: "k \<noteq> env_specialKey env"
  show "named_fun ks' (t_slots t') k = ((named_fun ks (t_slots t))(key := v)) k"
  proof (cases "k = key")
    case False
    have "named_fun ks' (t_slots (grown t n)) k = named_fun ks (t_slots (grown t n)) k" by (rule named_fun_cong[OF keep[OF False k]])
    also have "\<dots> = named_fun ks (t_slots t) k"
      unfolding G(1) using slot_index_less[of ks k] L(1) by (intro named_fun_append) fastforce
    finally show ?thesis using S(2)[of k] False by simp
  qed (use S(2)[of k] in simp)
qed

text \<open>The metatable slot of a structure keeps its value under such a store.\<close>

lemma poly_slot_kept:
  assumes W: "wf_theap env sh K C" and ok: "named_ok env sh K t ks" and hc: "t_hiddenClass t = HStructure p" and s: "sh_structs sh p = Some s"
    and m: "0 < m_metatable s" and i: "i \<noteq> GetPolyMetatableSlot s"
  shows "(t_slots t @ ys)[i := v] ! GetPolyMetatableSlot s = t_slots t ! GetPolyMetatableSlot s"
  using slot_index_less[OF mt_of_structure(2)[OF W ok hc s m]] t_slots_length(1)[OF W ok] i by (simp add: nth_append)

lemma put_structure_new:
  assumes W: "wf_theap env (vm_sh vm) K C" and ok: "table_inv env vm K t ks g" and key: "good_key env str key"
    and hc: "t_hiddenClass t = HStructure p" and new: "key \<notin> set ks" and n: "length ks < x_maxNumSlots"
    and room: "query_room (vm_sh vm) p < 2 ^ 32"
  shows "\<exists>vm' t'. InsertField env vm str t key v = Some (vm', t') \<and>
    named_result env vm K t g ((named_fun ks (t_slots t))(key := v)) (mt_of (vm_sh vm) t) vm' t'"
proof -
  note A = table_invD[OF ok]
  note N = A(2)
  obtain s where s: "sh_structs (vm_sh vm) p = Some s" "ks = K p" using named_okD(1)[OF N] hc by (auto simp: hc_keys_def)
  have at: "m_arrayType s = t_arrayType t" using arr_invD(2)[OF A(1)] hc s(1) by (auto simp: hc_type_ok_def)
  note F = struct_fields[OF W s(1)] and L = t_slots_length[OF W N]
  have caps: "m_inlineNamedStorageCapacity s = length (t_inlineStorage t)" "m_butterflyNamedStorageCapacity s = length (t_named t)"
    using named_okD(2,3)[OF N] F(6) by (simp_all add: hc hc_inlineNamedStorageCapacity_def hc_butterflyNamedStorageCapacity_def)
  have k: "key < 0" "key \<noteq> env_specialKey env" using key by (auto simp: good_key_def user_ptr_def)
  obtain sh' r K' C' sr where q: "AddNonExistentProperty env (vm_sh vm) p key = Some (sh', AddedProperty
      (m_butterflyNamedStorageCapacity sr \<noteq> m_butterflyNamedStorageCapacity s) (length ks) r)"
    "leads_to env (vm_sh vm) K C p key sh' K' C' r sr"
    using AddNonExistentProperty_correct[OF W s(1) _ k _ room] new n s(2) by blast
  have hks: "keys_ok env (HStructure p) ks" using named_okD(1)[OF N] hc by (simp add: hc_keys_def)
  note P = added_property[OF W s(1) q(2) k(1)]
  have T: "transits env (vm_sh vm) K sh' K' C'" and sr: "sh_structs sh' r = Some sr" using q(2) by (auto simp: leads_to_def)
  then have sra: "struct_at sh' r = sr" by (auto simp: struct_at_def)
  let ?vm = "vm\<lparr>vm_sh := sh'\<rparr>" and ?n = "m_butterflyNamedStorageCapacity sr" and ?cap = "length (t_inlineStorage t)"
  have W': "wf_theap env (vm_sh ?vm) K' C'" using T by (simp add: transits_def)
  have u: "user_heap_ok ?vm" using arr_invD(4)[OF A(1)] by (simp add: user_heap_ok_def)
  have nn: "length (t_named t) \<le> ?n" using leads_to_capacity[OF W s(1) q(2)] caps(2) by simp
  have hk: "hc_keys env (vm_sh ?vm) K' (HStructure r) (ks @ [key])" "?cap = hc_inlineNamedStorageCapacity (vm_sh ?vm) (HStructure r)"
      "hc_butterflyNamedStorageCapacity (vm_sh ?vm) (HStructure r) = ?n"
      "case HStructure r of HStructure p \<Rightarrow> m_arrayType (struct_at (vm_sh ?vm) p) = t_arrayType t
      | HDictionary p d \<Rightarrow> MayHaveMetatable (t_arrayType t) \<longleftrightarrow> d_metatable d \<noteq> 0"
    using P(1,3,5) s(2) sr sra caps(1) at hks key by (simp_all add: hc_keys_def good_key_def hc_inlineNamedStorageCapacity_def hc_butterflyNamedStorageCapacity_def)
  have i: "slot_index (ks @ [key]) key = Some (length ks)" using slot_index_new[OF new, of key] by simp
  have keep: "slot_index (ks @ [key]) x = slot_index ks x" if "x \<noteq> key" for x using slot_index_new[OF new, of x] that by simp
  let ?t' = "(set_slot (length ks) ?cap v (grown t ?n))\<lparr>t_hiddenClass := HStructure r, t_arrayType := t_arrayType t\<rparr>"
  note S = grow_store(1-4)[OF W ok W' u hk(1-3) nn same_but_mt_refl(1) hk(4) i _ keep, where v = v, simplified]
    and S' = grow_store(5-7)[OF W ok W' u hk(1-3) nn same_but_mt_refl(1) hk(4) i _ keep, simplified]
  have eq: "?t' = (set_slot (length ks) ?cap v (grown t ?n))\<lparr>t_hiddenClass := HStructure r\<rparr>"
    using S'(3) by (intro same_arrayType) (simp only: set_slot_simps)
  obtain s' where s': "sh_structs sh' p = Some s'" "m_butterflyNamedStorageCapacity s' = m_butterflyNamedStorageCapacity s"
    by (rule transits_struct[OF T s(1)])
  have gb: "grown t ?n = (if ?n \<noteq> length (t_named t) then GrowButterfly True (vm_sh ?vm) t (m_butterflyNamedStorageCapacity (struct_at (vm_sh ?vm) r)) else t)"
    using s' caps(2) sra by (simp add: grown_def GrowButterfly_def hc hc_butterflyNamedStorageCapacity_def struct_at_def)
  have "PreparePutByIdForStructure env (vm_sh vm) str p key = Some (sh', put_ic False (?n \<noteq> length (t_named t)) (m_metatable s \<noteq> 0) (length ks) ?cap r)"
    using key wf_lookup[OF W s(1), of key] new s(2) string_key(1)[of env key "vm_sh vm" s] q(1) caps
    by (auto simp: PreparePutByIdForStructure_def F(6) Let_def good_key_def slot_index_None[THEN iffD2])
  moreover have "?cap < 2 ^ 31" using L(3) by simp
  ultimately have put: "InsertField env vm str t key v = Some (?vm, ?t')"
    using PutById_new[OF _ _ _ gb, of "length ks" ?cap] S'(1,2) unfolding eq by (simp add: InsertField_def t_PreparePutById_def hc)
  have "mt_of (vm_sh ?vm) ?t' = mt_of (vm_sh vm) t"
    using mt_of_structure(1)[OF W N hc s(1)] mt_of_structure(1)[OF W' table_invD(2)[OF S(1)], of r sr] sr P(2)
      poly_slot_kept[OF W N hc s(1), of "length ks"] S(3) slot_index_less[OF mt_of_structure(2)[OF W N hc s(1)]]
    by (auto simp: GetPolyMetatableSlot_def)
  then have "named_result env vm K t g ((named_fun ks (t_slots t))(key := v)) (mt_of (vm_sh vm) t) ?vm ?t'"
    using S(1,2,4) T by (intro named_resultI[of env vm K ?vm K' C' ?t' "ks @ [key]"]) simp_all
  then show ?thesis using put by blast
qed

text \<open>The structure is full: the table gets a dictionary.\<close>

lemma CreateFromStructure_grow:
  assumes "CreateFromStructure env sh pm p key = Some (sh', d, res)"
  shows "cf_shouldGrowButterfly res = (\<not> IsPolyMetatable (struct_at sh p) \<and>
      m_inlineNamedStorageCapacity (struct_at sh p) + m_butterflyNamedStorageCapacity (struct_at sh p) = m_numSlots (struct_at sh p))"
  using assms by (auto simp: CreateFromStructure_def Let_def split: option.splits)

lemma transits_next: "wf_theap env sh K C \<Longrightarrow> sh_next sh \<le> n \<Longrightarrow> transits env sh K (sh\<lparr>sh_next := n\<rparr>) K C"
  using wf_theap_next[of env sh K C n] by (simp add: transits_def keeps_structs_def same_core_eqv[OF struct_eqv_refl])

lemma put_structure_to_dictionary:
  assumes W: "wf_theap env (vm_sh vm) K C" and ok: "table_inv env vm K t ks g" and key: "good_key env str key"
    and hc: "t_hiddenClass t = HStructure p" and new: "key \<notin> set ks" and n: "\<not> length ks < x_maxNumSlots"
    and room: "query_room (vm_sh vm) p < 2 ^ 32"
  shows "\<exists>vm' t'. InsertField env vm str t key v = Some (vm', t') \<and>
    named_result env vm K t g ((named_fun ks (t_slots t))(key := v)) (mt_of (vm_sh vm) t) vm' t'"
proof -
  note A = table_invD[OF ok]
  note N = A(2)
  obtain s where s: "sh_structs (vm_sh vm) p = Some s" "ks = K p" using named_okD(1)[OF N] hc by (auto simp: hc_keys_def)
  have at: "m_arrayType s = t_arrayType t" using arr_invD(2)[OF A(1)] hc s(1) by (auto simp: hc_type_ok_def)
  note F = struct_fields[OF W s(1)] and L = t_slots_length[OF W N] and M = mt_of_structure[OF W N hc s(1)]
  have caps: "m_inlineNamedStorageCapacity s = length (t_inlineStorage t)" "m_butterflyNamedStorageCapacity s = length (t_named t)"
    using named_okD(2,3)[OF N] F(6) by (simp_all add: hc hc_inlineNamedStorageCapacity_def hc_butterflyNamedStorageCapacity_def)
  have k: "key < 0" "key \<noteq> env_specialKey env" using key by (auto simp: good_key_def user_ptr_def)
  have rm: "sh_next (vm_sh vm) + 32 < 2 ^ 32" using room by (simp add: query_room_def)
  let ?pm = "\<lambda>slot. GetPolyMetatableFromObjectWithStructureHiddenClass t slot (m_inlineNamedStorageCapacity s)"
  let ?ks' = "dict_keys_from s ks key" and ?i = "if IsPolyMetatable s then GetPolyMetatableSlot s else length ks"
  let ?sh = "(vm_sh vm)\<lparr>sh_next := sh_next (vm_sh vm) + 32\<rparr>" and ?dp = "sh_next (vm_sh vm)" and ?cap = "length (t_inlineStorage t)"
  let ?vm = "vm\<lparr>vm_sh := ?sh\<rparr>"
  obtain d where d: "CreateFromStructure env (vm_sh vm) ?pm p key = Some (?sh, d,
      \<lparr>cf_dictionary = ?dp, cf_slot = ?i, cf_shouldGrowButterfly = (d_butterflyNamedStorageCapacity d \<noteq> m_butterflyNamedStorageCapacity s)\<rparr>)"
    "wf_dict env d ?ks'" "length ?ks' \<le> d_inlineNamedStorageCapacity d + d_butterflyNamedStorageCapacity d"
    "d_inlineNamedStorageCapacity d = m_inlineNamedStorageCapacity s" "d_butterflyNamedStorageCapacity d \<le> 250000000"
    "d_metatable d = (if IsPolyMetatable s then ?pm (GetPolyMetatableSlot s) else m_metatable s)"
    using CreateFromStructure_correct[OF W s(1) _ k rm, of ?pm] new s(2) by blast
  let ?n = "d_butterflyNamedStorageCapacity d" and ?at = "SetMayHaveMetatable (d_metatable d \<noteq> 0) (t_arrayType t)"
  have nn: "length (t_named t) \<le> ?n"
    using CreateFromStructure_grow[OF d(1)] d(3,4) caps F(6) structure_numSlots(1)[OF W s(1)] s(2)
    by (auto simp: dict_keys_from_def)
  have hks: "keys_ok env (HStructure p) ks" using named_okD(1)[OF N] hc by (simp add: hc_keys_def)
  have sp: "x \<noteq> env_specialKey env" if "x \<in> set ?ks'" for x
  proof
    assume x: "x = env_specialKey env"
    then have "slot_index ?ks' x \<noteq> None" using that slot_index_None by metis
    then show False using x dict_keys_from_index[OF W s(1) _ k(2), folded s(2), OF new, of x] k(2) by simp
  qed
  have "set ?ks' \<subseteq> insert key (set ks)" by (auto simp: dict_keys_from_def dest: set_update_subset_insert[THEN subsetD])
  then have kd: "keys_ok env (HDictionary dp dd) ?ks'" for dp dd using hks sp key by (auto simp: good_key_def)
  have I: "dict_inv env d ?ks'" using d(2-5) F(4) by (simp add: dict_inv_def)
  have T: "transits env (vm_sh vm) K (vm_sh ?vm) K C" using transits_next[OF W] by simp
  then have W': "wf_theap env (vm_sh ?vm) K C" by (simp add: transits_def)
  have u: "user_heap_ok ?vm" using arr_invD(4)[OF A(1)] by (simp add: user_heap_ok_def)
  have hk: "hc_keys env (vm_sh ?vm) K (HDictionary ?dp d) ?ks'" "?cap = hc_inlineNamedStorageCapacity (vm_sh ?vm) (HDictionary ?dp d)"
      "hc_butterflyNamedStorageCapacity (vm_sh ?vm) (HDictionary ?dp d) = ?n"
      "case HDictionary ?dp d of HStructure p \<Rightarrow> m_arrayType (struct_at (vm_sh ?vm) p) = ?at
      | HDictionary p d \<Rightarrow> MayHaveMetatable ?at \<longleftrightarrow> d_metatable d \<noteq> 0"
    using I d(4) caps(1) kd by (simp_all add: hc_keys_def hc_inlineNamedStorageCapacity_def hc_butterflyNamedStorageCapacity_def)
  note X = dict_keys_from_index[OF W s(1) _ k(2), folded s(2), OF new]
  have i: "slot_index ?ks' key = Some ?i" using X[of key] by simp
  have keep: "slot_index ?ks' x = slot_index ks x" if "x \<noteq> key" "x \<noteq> env_specialKey env" for x using X[of x] that by simp
  have le: "length ks \<le> length ?ks'" by (simp add: dict_keys_from_def)
  let ?t' = "(set_slot ?i ?cap v (grown t ?n))\<lparr>t_hiddenClass := HDictionary ?dp d, t_arrayType := ?at\<rparr>"
  note S = grow_store(1,2,4)[OF W ok W' u hk(1-3) nn same_but_mt_refl(2) hk(4) i le keep, where v = v]
  have "AddNonExistentProperty env (vm_sh vm) p key = Some (vm_sh vm, TransitionToDictionaryMode)"
    using n s structure_numSlots[OF W s(1)] by (simp add: AddNonExistentProperty_def Let_def)
  then have "PreparePutByIdForStructure env (vm_sh vm) str p key = Some (vm_sh vm, \<lparr>pu_icKind = TransitionedToDictionaryMode,
       pu_propertyExists = False, pu_shouldGrowButterfly = False, pu_mayHaveMetatable = (m_metatable s \<noteq> 0), pu_isInlineCacheable = False,
       pu_slot = 0, pu_newStructure = 0\<rparr>)"
    using key wf_lookup[OF W s(1), of key] new s(2) string_key(1)[of env key "vm_sh vm" s]
    by (auto simp: PreparePutByIdForStructure_def F(6) Let_def good_key_def slot_index_None[THEN iffD2])
  moreover have "PutByIdTransitionToDictionary env vm t p key v = Some (?vm, ?t')"
    using d(1,4) caps by (simp add: PutByIdTransitionToDictionary_def Let_def F(6) grown_def)
  ultimately have put: "InsertField env vm str t key v = Some (?vm, ?t')"
    by (simp add: InsertField_def t_PreparePutById_def hc PutById_def)
  have "mt_of (vm_sh ?vm) ?t' = d_metatable d" by (simp add: mt_of_def GetMetatable_def)
  also have "\<dots> = mt_of (vm_sh vm) t" using M(1,3) d(6) by (auto simp: IsPolyMetatable_def)
  finally have "named_result env vm K t g ((named_fun ks (t_slots t))(key := v)) (mt_of (vm_sh vm) t) ?vm ?t'"
    using S T by (intro named_resultI[of env vm K ?vm K C ?t' ?ks']) simp_all
  then show ?thesis using put by blast
qed

section \<open>Writing to a dictionary\<close>

lemma ResizeIfNeeded_fields:
  assumes "ResizeIfNeeded env d = Some (d', b)"
  shows "d_inlineNamedStorageCapacity d' = d_inlineNamedStorageCapacity d \<and> d_butterflyNamedStorageCapacity d' = d_butterflyNamedStorageCapacity d"
  using assms by (auto simp: ResizeIfNeeded_def ResizeImpl_def Let_def split: if_splits option.splits)

lemma PreparePut_fields:
  assumes "PreparePutByMaybeNonStringKey env d key = Some (d', r)"
  shows "d_inlineNamedStorageCapacity d' = d_inlineNamedStorageCapacity d" "d_butterflyNamedStorageCapacity d' = d_butterflyNamedStorageCapacity d"
    "pb_shouldGrowButterfly r \<Longrightarrow> GetInitOrNextButterflyCapacity d = Some (pb_newButterflyCapacity r)"
  using assms unfolding PreparePutByMaybeNonStringKey_def PreparePutPropertyImpl_def Let_def
  by (auto dest!: ResizeIfNeeded_fields split: option.splits sum.splits if_splits)

lemma put_dictionary:
  assumes W: "wf_theap env (vm_sh vm) K C" and ok: "table_inv env vm K t ks g" and key: "good_key env str key"
    and hc: "t_hiddenClass t = HDictionary p d" and put: "PreparePutByMaybeNonStringKey env d key = Some (d', r)"
  shows "\<exists>vm' t'. InsertField env vm str t key v = Some (vm', t') \<and>
    named_result env vm K t g ((named_fun ks (t_slots t))(key := v)) (mt_of (vm_sh vm) t) vm' t'"
proof -
  note A = table_invD[OF ok]
  note N = A(2)
  have d: "dict_inv env d ks" using named_okD(1)[OF N] hc by (simp add: hc_keys_def)
  have caps: "d_inlineNamedStorageCapacity d = length (t_inlineStorage t)" "d_butterflyNamedStorageCapacity d = length (t_named t)"
    using named_okD(2,3)[OF N] by (simp_all add: hc hc_inlineNamedStorageCapacity_def hc_butterflyNamedStorageCapacity_def)
  have k: "key < 0" "key \<noteq> env_specialKey env" using key by (auto simp: good_key_def user_ptr_def)
  let ?ks' = "if key \<in> set ks then ks else ks @ [key]" and ?d = "d_grown d' r" and ?i = "pb_slot r" and ?cap = "length (t_inlineStorage t)"
  have hks: "keys_ok env (HDictionary p d) ks" using named_okD(1)[OF N] hc by (simp add: hc_keys_def)
  note P = dict_put[OF d k(1) put] and fl = PreparePut_fields[OF put]
  let ?n = "d_butterflyNamedStorageCapacity ?d"
  have grow: "pb_shouldGrowButterfly r \<Longrightarrow> length (t_named t) < pb_newButterflyCapacity r"
    using next_capacity[of d] fl(3) d caps(2) by (auto simp: dict_inv_def)
  then have nn: "length (t_named t) \<le> ?n" and gr: "?n \<noteq> length (t_named t) \<longleftrightarrow> pb_shouldGrowButterfly r"
    using fl(2) caps(2) by (auto simp: d_grown_def)
  have dm: "d_metatable ?d = d_metatable d" "d_inlineNamedStorageCapacity ?d = ?cap" using P(4) fl(1) caps(1) by (auto simp: d_grown_def)
  have hk: "hc_keys env (vm_sh vm) K (HDictionary p ?d) ?ks'" "?cap = hc_inlineNamedStorageCapacity (vm_sh vm) (HDictionary p ?d)"
      "hc_butterflyNamedStorageCapacity (vm_sh vm) (HDictionary p ?d) = ?n"
      "case HDictionary p ?d of HStructure p \<Rightarrow> m_arrayType (struct_at (vm_sh vm) p) = t_arrayType t
      | HDictionary p d \<Rightarrow> MayHaveMetatable (t_arrayType t) \<longleftrightarrow> d_metatable d \<noteq> 0"
    using P(1) dm A(3) hc hks key by (simp_all add: hc_keys_def good_key_def hc_inlineNamedStorageCapacity_def hc_butterflyNamedStorageCapacity_def mt_flag_ok_def)
  have keep: "slot_index ?ks' x = slot_index ks x" if "x \<noteq> key" "x \<noteq> env_specialKey env" for x using slot_index_put[of key ks x] that by simp
  have le: "length ks \<le> length ?ks'" by simp
  let ?t1 = "(grown t ?n)\<lparr>t_hiddenClass := HDictionary p ?d\<rparr>"
  let ?t' = "(set_slot ?i ?cap v (grown t ?n))\<lparr>t_hiddenClass := HDictionary p ?d, t_arrayType := t_arrayType t\<rparr>"
  note S = grow_store(1,2,4)[OF W ok W arr_invD(4)[OF A(1)] hk(1-3) nn same_but_mt_refl(1) hk(4) P(2) le keep, where v = v]
  have S': "?i < length (t_slots (grown t ?n))" "length (t_slots (grown t ?n)) \<le> 2 ^ 31" "t_arrayType (grown t ?n) = t_arrayType t"
    by (rule grow_store(5-7)[OF W ok W arr_invD(4)[OF A(1)] hk(1-3) nn same_but_mt_refl(1) hk(4) P(2) le], erule (1) keep)+
  have "set_slot ?i ?cap v ?t1 = (set_slot ?i ?cap v (grown t ?n))\<lparr>t_hiddenClass := HDictionary p ?d\<rparr>"
    by (simp add: set_slot_def set_inline_def set_outlined_def)
  also have "\<dots> = ?t'"
    using S'(3) by (intro same_arrayType[symmetric]) (simp only: set_slot_simps)
  finally have eq: "set_slot ?i ?cap v ?t1 = ?t'" .
  have "PreparePutByIdForCacheableDictionary env str t p d key = Some (?t1, put_ic True False (d_metatable ?d \<noteq> 0) ?i ?cap 0)"
  proof -
    have g: "grown t ?n = (if pb_shouldGrowButterfly r then GrowButterflyKnowingNamedStorageCapacity True t (d_butterflyNamedStorageCapacity d')
        (pb_newButterflyCapacity r) else t)"
      unfolding grown_def gr using fl(2) caps(2) by (simp add: d_grown_def)
    have "(if str then PreparePutById env d key else PreparePutByMaybeNonStringKey env d key) = Some (d', r)"
      using put key string_key(3)[of env key d] by (auto simp: good_key_def)
    then show ?thesis using dm unfolding PreparePutByIdForCacheableDictionary_def g by (simp add: d_grown_def Let_def)
  qed
  moreover have "PutById env vm ?t1 key v (put_ic True False (d_metatable ?d \<noteq> 0) ?i ?cap 0) = Some (vm, ?t')"
  proof -
    have sl: "t_slots ?t1 = t_slots (grown t ?n)" by (simp add: t_slots_def t_named_def)
    have "?cap < 2 ^ 31" using t_slots_length(3)[OF W N] by simp
    then show ?thesis using PutById_existing[of ?i ?t1 ?cap env vm key v] S'(1,2) unfolding eq sl by blast
  qed
  ultimately have P': "InsertField env vm str t key v = Some (vm, ?t')" by (simp add: InsertField_def t_PreparePutById_def hc)
  have "mt_of (vm_sh vm) ?t' = mt_of (vm_sh vm) t" using dm(1) hc by (simp add: mt_of_def GetMetatable_def)
  then have "named_result env vm K t g ((named_fun ks (t_slots t))(key := v)) (mt_of (vm_sh vm) t) vm ?t'"
    using S transits_refl[OF W] by (intro named_resultI[of env vm K vm K C ?t' ?ks']) simp_all
  then show ?thesis using P' by blast
qed

text \<open>All cases of a put; it aborts only when a limit is reached.\<close>

definition put_room :: "vm_env \<Rightarrow> sheap \<Rightarrow> table_object \<Rightarrow> gkey \<Rightarrow> bool" where
  "put_room env sh t key \<longleftrightarrow> (case t_hiddenClass t of HStructure p \<Rightarrow> query_room sh p < 2 ^ 32
     | HDictionary p d \<Rightarrow> d_GetSlotOrdinalFromMaybeNonStringProperty env d key \<noteq> Some None \<or> dict_room d)"

lemma InsertField_ok:
  assumes W: "wf_theap env (vm_sh vm) K C" and ok: "table_inv env vm K t ks g" and key: "good_key env str key"
    and room: "put_room env (vm_sh vm) t key"
  shows "\<exists>vm' t'. InsertField env vm str t key v = Some (vm', t') \<and>
    named_result env vm K t g ((named_fun ks (t_slots t))(key := v)) (mt_of (vm_sh vm) t) vm' t'"
proof (cases "t_hiddenClass t")
  case (HStructure p)
  have rm: "query_room (vm_sh vm) p < 2 ^ 32" using room HStructure by (simp add: put_room_def)
  show ?thesis
  proof (cases "slot_index ks key")
    case None
    then have "key \<notin> set ks" by (simp add: slot_index_None)
    then show ?thesis using put_structure_new[OF W ok key HStructure _ _ rm] put_structure_to_dictionary[OF W ok key HStructure _ _ rm] by blast
  next
    case (Some i)
    then show ?thesis using put_structure_existing[OF W ok key HStructure] by blast
  qed
next
  case (HDictionary p d)
  then have d: "dict_inv env d ks" using named_okD(1)[OF table_invD(2)[OF ok]] by (simp add: hc_keys_def)
  then have wf: "wf_dict env d ks" "d_inlineNamedStorageCapacity d \<le> 255" by (auto simp: dict_inv_def)
  have k: "key < 0" by (rule good_key_negative[OF key])
  have "\<exists>d' r. PreparePutByMaybeNonStringKey env d key = Some (d', r)"
  proof (cases "slot_index ks key")
    case None
    then have "dict_room d" using room HDictionary dict_reach_lookup[OF d k] by (simp add: put_room_def)
    then show ?thesis using PreparePut_new[OF wf(1) _ _ wf(2), of key] None k by (auto simp: slot_index_None split: option.splits)
  next
    case (Some i)
    then show ?thesis using PreparePut_found[OF wf(1) Some] k by auto
  qed
  then show ?thesis using put_dictionary[OF W ok key HDictionary] by blast
qed

end
