(* ===== verification/TableOps.thy ===== *)
theory TableOps
  imports TablePut
begin

unbundle bit_operations_syntax

text \<open>
  The other operations on tables against the invariant: setting and removing metatables, writes to the array part, creation
  and cloning.
\<close>

section \<open>Metatables\<close>

lemma SetMetatable_no_grow:
  "SetMetatable env sh p m = Some (sh', res) \<Longrightarrow> \<not> am_shouldInsertMetatable res \<Longrightarrow> \<not> am_shouldGrowButterfly res"
  by (auto simp: SetMetatable_def setmt_result_def Let_def split: if_splits option.splits)

definition setmt_room :: "sheap \<Rightarrow> table_object \<Rightarrow> bool" where
  "setmt_room sh t \<longleftrightarrow> (case t_hiddenClass t of
      HStructure p \<Rightarrow> query_room sh p < 2 ^ 32 \<and>
        (m_parentEdgeTransitionKind (struct_at sh p) = AddMetaTable \<longrightarrow> query_room sh (m_parent (struct_at sh p)) < 2 ^ 32)
    | HDictionary p d \<Rightarrow> sh_next sh + 32 < 2 ^ 32)"

text \<open>Moving to a hidden class with the same keys.\<close>

lemma move_same_keys:
  assumes W: "wf_theap env (vm_sh vm) K C" and ok: "table_inv env vm K t ks g" and T: "transits env (vm_sh vm) K (vm_sh vm') K' C'"
    and u: "vm_userHeapCurPtr vm' = vm_userHeapCurPtr vm" and f: "fits env (vm_sh vm') K' t hc at ks"
    and m: "mt_of (vm_sh vm') (t\<lparr>t_hiddenClass := hc, t_arrayType := at\<rparr>) = m"
  shows "named_result env vm K t g (named_fun ks (t_slots t)) m vm' (t\<lparr>t_hiddenClass := hc, t_arrayType := at\<rparr>)"
proof -
  note A = table_invD[OF ok]
  have u': "user_heap_ok vm'" using arr_invD(4)[OF A(1)] u by (simp add: user_heap_ok_def)
  have "table_inv env vm' K' (t\<lparr>t_hiddenClass := hc, t_arrayType := at\<rparr>) ks g"
    by (rule move_ok[OF arr_invD(1)[OF A(1)] f u' named_okD(4)[OF A(2)]])
  then show ?thesis using T m by (intro named_resultI[of env vm K vm' K' C' _ ks]) (simp_all add: t_slots_def t_named_def t_vec_def)
qed

lemma relocate_ok:
  assumes W: "wf_theap env (vm_sh vm) K C" and ok: "table_inv env vm K t ks g" and hc: "t_hiddenClass t = HDictionary p d"
    and room: "sh_next (vm_sh vm) + 32 < 2 ^ 32" and at: "at = SetMayHaveMetatable (m \<noteq> 0) (t_arrayType t)"
  shows "\<exists>sh' r d' old. RelocateForAddingOrRemovingMetatable (vm_sh vm) d m = Some (sh', r, d', old) \<and>
    named_result env vm K t g (named_fun ks (t_slots t)) m (vm\<lparr>vm_sh := sh'\<rparr>) (t\<lparr>t_hiddenClass := HDictionary r d', t_arrayType := at\<rparr>)"
proof -
  note N = table_invD(2)[OF ok]
  let ?sh = "(vm_sh vm)\<lparr>sh_next := sh_next (vm_sh vm) + 32\<rparr>" and ?d = "d\<lparr>d_metatable := m\<rparr>" and ?r = "sh_next (vm_sh vm)"
  have r: "RelocateForAddingOrRemovingMetatable (vm_sh vm) d m = Some (?sh, ?r, ?d, d\<lparr>d_hashTable := []\<rparr>)"
    using room by (simp add: RelocateForAddingOrRemovingMetatable_def AllocFromSystemHeap_def sizeof_CacheableDictionary_def)
  have d: "dict_inv env d ks" and hks: "keys_ok env (HDictionary p d) ks" using named_okD(1)[OF N] hc by (simp_all add: hc_keys_def)
  then have "wf_dict env ?d ks" using wf_dict_cong[of env d ks ?d] by (simp add: dict_inv_def)
  then have "fits env ?sh K t (HDictionary ?r ?d) at ks"
    using d hks named_okD(2,3)[OF N] at hc
    by (simp add: fits_def hc_keys_def dict_inv_def hc_inlineNamedStorageCapacity_def hc_butterflyNamedStorageCapacity_def)
  then have "named_result env vm K t g (named_fun ks (t_slots t)) m (vm\<lparr>vm_sh := ?sh\<rparr>) (t\<lparr>t_hiddenClass := HDictionary ?r ?d, t_arrayType := at\<rparr>)"
    using transits_next[OF W] by (intro move_same_keys[OF W ok, of _ K C]) (simp_all add: mt_of_def GetMetatable_def)
  then show ?thesis using r by blast
qed

lemma t_SetMetatable_ok:
  assumes W: "wf_theap env (vm_sh vm) K C" and ok: "table_inv env vm K t ks g" and m: "user_ptr m" and room: "setmt_room (vm_sh vm) t"
  shows "\<exists>vm' t'. t_SetMetatable env vm t m = Some (vm', t') \<and> named_result env vm K t g (named_fun ks (t_slots t)) m vm' t'"
proof (cases "t_hiddenClass t")
  case (HDictionary p d)
  have m0: "m < 0" using m by (simp add: user_ptr_def)
  show ?thesis
  proof (cases "d_metatable d = m")
    case True
    have "mt_of (vm_sh vm) t = m" using True HDictionary by (simp add: mt_of_def GetMetatable_def)
    then have "named_result env vm K t g (named_fun ks (t_slots t)) m vm t"
      using ok transits_refl[OF W] by (intro named_resultI[of env vm K vm K C t ks]) simp_all
    then show ?thesis using True HDictionary by (simp add: t_SetMetatable_def)
  next
    case False
    have "sh_next (vm_sh vm) + 32 < 2 ^ 32" using room HDictionary by (simp add: setmt_room_def)
    from relocate_ok[OF W ok HDictionary this, of "SetMayHaveMetatable True (t_arrayType t)" m] m0
    show ?thesis using False HDictionary by (auto simp: t_SetMetatable_def)
  qed
next
  case (HStructure p)
  note A = table_invD[OF ok]
  note N = A(2) and hc = HStructure
  obtain s where s: "sh_structs (vm_sh vm) p = Some s" "ks = K p" using named_okD(1)[OF N] hc by (auto simp: hc_keys_def)
  have at: "m_arrayType s = t_arrayType t" using arr_invD(2)[OF A(1)] hc s(1) by (auto simp: hc_type_ok_def)
  note F = struct_fields[OF W s(1)] and L = t_slots_length[OF W N]
  have caps: "m_inlineNamedStorageCapacity s = length (t_inlineStorage t)" "m_butterflyNamedStorageCapacity s = length (t_named t)"
    using named_okD(2,3)[OF N] F(6) by (simp_all add: hc hc_inlineNamedStorageCapacity_def hc_butterflyNamedStorageCapacity_def)
  have m0: "m < 0" using m by (simp add: user_ptr_def)
  have rm: "query_room (vm_sh vm) p < 2 ^ 32" "m_parentEdgeTransitionKind s = AddMetaTable \<longrightarrow> query_room (vm_sh vm) (m_parent s) < 2 ^ 32"
    using room hc F(6) by (simp_all add: setmt_room_def)
  obtain sh' res K' C' sr where q: "SetMetatable env (vm_sh vm) p m = Some (sh', res)" "transits env (vm_sh vm) K sh' K' C'"
    "sh_structs sh' (am_newStructure res) = Some sr" "metatable_set env ks s m res (K' (am_newStructure res)) sr"
    using SetMetatable_correct[OF W s(1) m0 rm] s(2) by blast
  let ?r = "am_newStructure res" and ?vm = "vm\<lparr>vm_sh := sh'\<rparr>" and ?n = "m_butterflyNamedStorageCapacity sr" and ?cap = "length (t_inlineStorage t)"
  have sra: "struct_at sh' ?r = sr" using q(3) by (simp add: struct_at_def)
  have Q: "am_shouldGrowButterfly res \<longleftrightarrow> ?n \<noteq> length (t_named t)" "length (t_named t) \<le> ?n"
    "m_inlineNamedStorageCapacity sr = ?cap" "m_arrayType sr = SetMayHaveMetatable True (t_arrayType t)"
    using q(4) caps at by (auto simp: metatable_set_def)
  have T: "transits env (vm_sh vm) K (vm_sh ?vm) K' C'" using q(2) by simp
  then have W': "wf_theap env (vm_sh ?vm) K' C'" by (simp add: transits_def)
  have u: "user_heap_ok ?vm" using arr_invD(4)[OF A(1)] by (simp add: user_heap_ok_def)
  have smt: "same_but_mt (t_arrayType t) (m_arrayType sr)" using Q(4) by simp
  have "set (K' ?r) \<subseteq> insert (env_specialKey env) (set ks)" using q(4) by (auto simp: metatable_set_def split: if_splits)
  then have hks: "keys_ok env (HStructure ?r) (K' ?r)" using named_okD(1)[OF N] hc by (auto simp: hc_keys_def)
  have hk: "hc_keys env (vm_sh ?vm) K' (HStructure ?r) (K' ?r)" "?cap = hc_inlineNamedStorageCapacity (vm_sh ?vm) (HStructure ?r)"
      "hc_butterflyNamedStorageCapacity (vm_sh ?vm) (HStructure ?r) = ?n"
      "case HStructure ?r of HStructure p \<Rightarrow> m_arrayType (struct_at (vm_sh ?vm) p) = m_arrayType sr
      | HDictionary p d \<Rightarrow> MayHaveMetatable (m_arrayType sr) \<longleftrightarrow> d_metatable d \<noteq> 0"
    using q(3) sra Q(3) hks by (simp_all add: hc_keys_def hc_inlineNamedStorageCapacity_def hc_butterflyNamedStorageCapacity_def)
  show ?thesis
  proof (cases "am_shouldInsertMetatable res")
    case True
    let ?i = "am_slotOrdinal res" and ?v = "boxed_metatable m"
    let ?t' = "(set_slot ?i ?cap ?v (grown t ?n))\<lparr>t_hiddenClass := HStructure ?r, t_arrayType := m_arrayType sr\<rparr>"
    have I: "0 < m_metatable sr" "?i = GetPolyMetatableSlot sr" "slot_index (K' ?r) (env_specialKey env) = Some ?i"
      "K' ?r = (if env_specialKey env \<in> set ks then ks else ks @ [env_specialKey env])" using q(4) True by (auto simp: metatable_set_def)
    have le: "length ks \<le> length (K' ?r)" by (simp add: I(4))
    have keep: "slot_index (K' ?r) x = slot_index ks x" if "x \<noteq> env_specialKey env" "x \<noteq> env_specialKey env" for x
      using slot_index_put[of "env_specialKey env" ks x] that unfolding I(4) by simp
    note S = grow_store(1-4)[OF W ok W' u hk(1-3) Q(2) smt hk(4) I(3) le keep, where v = ?v]
    have len: "?i < length (t_slots (grown t ?n))"
      by (rule grow_store(5)[OF W ok W' u hk(1-3) Q(2) smt hk(4) I(3) le], erule (1) keep)
    have L': "length (t_slots ?t') = length (t_slots (grown t ?n))" by (simp add: t_slots_def t_named_def)
      (metis set_slot_simps(4) t_named_def)
    have tk: "table_inv env ?vm K' ?t' (K' ?r) g" using S(1) by blast
    have "t_slots ?t' ! ?i = ?v" using S(3) len L' by (metis length_list_update nth_list_update_eq)
    then have "mt_of (vm_sh ?vm) ?t' = m"
      using mt_of_structure(1)[OF W' table_invD(2)[OF tk], of ?r sr] q(3) I(1,2) unbox_boxed[OF m] by simp
    then have "named_result env vm K t g (named_fun ks (t_slots t)) m ?vm ?t'"
      using S T by (intro named_resultI[of env vm K ?vm K' C' ?t' "K' ?r"]) simp_all
    moreover have "t_SetMetatable env vm t m = Some (?vm, ?t')"
      using q(1) True Q(1) caps by (simp add: t_SetMetatable_def hc Let_def F(6) sra grown_def)
    ultimately show ?thesis by blast
  next
    case False
    have g: "?n = length (t_named t)" using SetMetatable_no_grow[OF q(1) False] Q(1) by simp
    have I: "m_metatable sr = m" "K' ?r = ks" using q(4) False by (auto simp: metatable_set_def)
    let ?t' = "t\<lparr>t_hiddenClass := HStructure ?r, t_arrayType := m_arrayType sr\<rparr>"
    have f: "fits env (vm_sh ?vm) K' t (HStructure ?r) (m_arrayType sr) ks" using hk smt g I(2) by (simp add: fits_def)
    have "mt_of (vm_sh ?vm) ?t' = m"
      using m0 I(1) sra by (simp add: mt_of_def GetMetatable_def Let_def HasNoMetatable_def HasMonomorphicMetatable_def)
    then have "named_result env vm K t g (named_fun ks (t_slots t)) m ?vm ?t'" by (intro move_same_keys[OF W ok T _ f]) simp_all
    moreover have "t_SetMetatable env vm t m = Some (?vm, ?t')"
      using q(1) False by (simp add: t_SetMetatable_def hc Let_def sra)
    ultimately show ?thesis by blast
  qed
qed

definition removemt_room :: "sheap \<Rightarrow> table_object \<Rightarrow> bool" where
  "removemt_room sh t \<longleftrightarrow> (case t_hiddenClass t of HStructure p \<Rightarrow> query_room sh p < 2 ^ 32 | HDictionary p d \<Rightarrow> sh_next sh + 32 < 2 ^ 32)"

lemma t_RemoveMetatable_ok:
  assumes W: "wf_theap env (vm_sh vm) K C" and ok: "table_inv env vm K t ks g" and room: "removemt_room (vm_sh vm) t"
  shows "\<exists>vm' t'. t_RemoveMetatable env vm t = Some (vm', t') \<and> named_result env vm K t g (named_fun ks (t_slots t)) 0 vm' t'"
proof (cases "t_hiddenClass t")
  case (HDictionary p d)
  show ?thesis
  proof (cases "d_metatable d = 0")
    case True
    have "mt_of (vm_sh vm) t = 0" using True HDictionary by (simp add: mt_of_def GetMetatable_def)
    then have "named_result env vm K t g (named_fun ks (t_slots t)) 0 vm t"
      using ok transits_refl[OF W] by (intro named_resultI[of env vm K vm K C t ks]) simp_all
    then show ?thesis using True HDictionary by (simp add: t_RemoveMetatable_def)
  next
    case False
    have "sh_next (vm_sh vm) + 32 < 2 ^ 32" using room HDictionary by (simp add: removemt_room_def)
    from relocate_ok[OF W ok HDictionary this, of "SetMayHaveMetatable False (t_arrayType t)" 0]
    show ?thesis using False HDictionary by (auto simp: t_RemoveMetatable_def)
  qed
next
  case (HStructure p)
  note A = table_invD[OF ok]
  note N = A(2) and hc = HStructure
  obtain s where s: "sh_structs (vm_sh vm) p = Some s" "ks = K p" using named_okD(1)[OF N] hc by (auto simp: hc_keys_def)
  have at: "m_arrayType s = t_arrayType t" using arr_invD(2)[OF A(1)] hc s(1) by (auto simp: hc_type_ok_def)
  note F = struct_fields[OF W s(1)] and L = t_slots_length[OF W N]
  have caps: "m_inlineNamedStorageCapacity s = length (t_inlineStorage t)" "m_butterflyNamedStorageCapacity s = length (t_named t)"
    using named_okD(2,3)[OF N] F(6) by (simp_all add: hc hc_inlineNamedStorageCapacity_def hc_butterflyNamedStorageCapacity_def)
  have rm: "query_room (vm_sh vm) p < 2 ^ 32" using room hc by (simp add: removemt_room_def)
  obtain sh' res K' C' sr where q: "RemoveMetatable env (vm_sh vm) p = Some (sh', res)" "transits env (vm_sh vm) K sh' K' C'"
    "sh_structs sh' (rm_newStructure res) = Some sr" "metatable_removed env ks s res (K' (rm_newStructure res)) sr"
    using RemoveMetatable_correct[OF W s(1) rm] s(2) by blast
  let ?r = "rm_newStructure res" and ?vm = "vm\<lparr>vm_sh := sh'\<rparr>" and ?cap = "length (t_inlineStorage t)"
  have sra: "struct_at sh' ?r = sr" using q(3) by (simp add: struct_at_def)
  have Q: "K' ?r = ks" "m_butterflyNamedStorageCapacity sr = length (t_named t)" "m_inlineNamedStorageCapacity sr = ?cap"
    using q(4) caps by (auto simp: metatable_removed_def)
  have T: "transits env (vm_sh vm) K (vm_sh ?vm) K' C'" using q(2) by simp
  then have W': "wf_theap env (vm_sh ?vm) K' C'" by (simp add: transits_def)
  have u: "user_heap_ok ?vm" using arr_invD(4)[OF A(1)] by (simp add: user_heap_ok_def)
  have smt: "same_but_mt (t_arrayType t) (m_arrayType sr)" using q(4) at by (auto simp: metatable_removed_def same_but_mt_def split: if_splits)
  have f: "fits env (vm_sh ?vm) K' t (HStructure ?r) (m_arrayType sr) ks"
    using q(3) sra Q smt named_okD(1)[OF N] hc by (simp add: fits_def hc_keys_def hc_inlineNamedStorageCapacity_def hc_butterflyNamedStorageCapacity_def)
  show ?thesis
  proof (cases "rm_shouldInsertMetatable res")
    case True
    let ?i = "rm_slotOrdinal res"
    let ?t' = "(set_slot ?i ?cap Nil t)\<lparr>t_hiddenClass := HStructure ?r, t_arrayType := m_arrayType sr\<rparr>"
    have I: "sr = s" "0 < m_metatable s" "slot_index ks (env_specialKey env) = Some ?i" using q(4) True by (auto simp: metatable_removed_def)
    have i: "?i = GetPolyMetatableSlot s" using mt_of_structure(2)[OF W N hc s(1) I(2)] I(3) by simp
    note S = store_ok[OF W' arr_invD(1)[OF A(1)] f u named_okD(4)[OF N] I(3) refl, of Nil]
    have "t_slots ?t' ! ?i = Nil" using S(4) slot_index_less[OF I(3)] L(1) by simp
    then have "mt_of (vm_sh ?vm) ?t' = 0"
      using mt_of_structure(1)[OF W' table_invD(2)[OF S(1)], of ?r sr] q(3) I(1,2) i by simp
    then have "named_result env vm K t g (named_fun ks (t_slots t)) 0 ?vm ?t'"
      using S(1-3) T by (intro named_resultI[of env vm K ?vm K' C' ?t' ks]) simp_all
    moreover have "t_RemoveMetatable env vm t = Some (?vm, ?t')"
      using q(1) True caps by (simp add: t_RemoveMetatable_def hc Let_def F(6) sra)
    ultimately show ?thesis by blast
  next
    case False
    have I: "m_metatable sr = 0" using q(4) False by (auto simp: metatable_removed_def)
    let ?t' = "t\<lparr>t_hiddenClass := HStructure ?r, t_arrayType := m_arrayType sr\<rparr>"
    have "mt_of (vm_sh ?vm) ?t' = 0" using I sra by (simp add: mt_of_def GetMetatable_def Let_def HasNoMetatable_def)
    then have "named_result env vm K t g (named_fun ks (t_slots t)) 0 ?vm ?t'" by (intro move_same_keys[OF W ok T _ f]) simp_all
    moreover have "t_RemoveMetatable env vm t = Some (?vm, ?t')"
      using q(1) False by (simp add: t_RemoveMetatable_def hc Let_def sra)
    ultimately show ?thesis by blast
  qed
qed

section \<open>Writing to the array part\<close>

definition array_result :: "vm_env \<Rightarrow> vm_state \<Rightarrow> keys_of \<Rightarrow> table_object \<Rightarrow> gkey list \<Rightarrow> (double \<Rightarrow> tvalue) \<Rightarrow> double \<Rightarrow> tvalue \<Rightarrow>
    vm_state \<Rightarrow> table_object \<Rightarrow> bool" where
  "array_result env vm K t ks g d v vm' t' \<longleftrightarrow> (\<exists>K' C' g'. transits env (vm_sh vm) K (vm_sh vm') K' C' \<and> table_inv env vm' K' t' ks g' \<and>
     (\<forall>x. \<not> IsNaN x \<longrightarrow> arr_fun (t_vec t') g' x = (if float_norm x = float_norm d then v else arr_fun (t_vec t) g x))) \<and>
     t_slots t' = t_slots t \<and> mt_of (vm_sh vm') t' = mt_of (vm_sh vm) t"

lemma lift_array_put:
  assumes W: "wf_theap env (vm_sh vm) K C" and ok: "table_inv env vm K t ks g"
    and I: "arr_inv env vm' t' g'" and w: "arr_written env t g d v t' g'"
    and T: "transits env (vm_sh vm) K (vm_sh vm') K' C'" and ly: "same_layout (vm_sh vm) K (t_hiddenClass t) (vm_sh vm') K' (t_hiddenClass t')"
  shows "array_result env vm K t ks g d v vm' t'"
proof -
  note A = table_invD[OF ok]
  note N = named_okD[OF A(2)]
  have sl: "t_slots t' = t_slots t" "t_inlineStorage t' = t_inlineStorage t" "t_named t' = t_named t"
    using w by (simp_all add: arr_written_def t_slots_def)
  have mm: "MayHaveMetatable (t_arrayType t') = MayHaveMetatable (t_arrayType t)" using w by (simp add: arr_written_def)
  have W': "wf_theap env (vm_sh vm') K' C'" using T by (simp add: transits_def)
  have "named_ok env (vm_sh vm') K' t' ks \<and> mt_flag_ok t' \<and> mt_of (vm_sh vm') t' = mt_of (vm_sh vm) t"
  proof (cases "t_hiddenClass t")
    case (HStructure p)
    obtain q s s' where q: "t_hiddenClass t' = HStructure q" "sh_structs (vm_sh vm) p = Some s" "sh_structs (vm_sh vm') q = Some s'" "K' q = K p"
        "m_metatable s' = m_metatable s" "m_butterflyNamedStorageCapacity s' = m_butterflyNamedStorageCapacity s"
        "m_inlineNamedStorageCapacity s' = m_inlineNamedStorageCapacity s"
      using ly HStructure by (auto simp: same_layout_def)
    have st: "struct_at (vm_sh vm) p = s" "struct_at (vm_sh vm') q = s'" using q(2,3) by (simp_all add: struct_at_def)
    have n: "named_ok env (vm_sh vm') K' t' ks"
      using N q HStructure sl arr_invD(3)[OF I] st by (simp add: named_ok_def hc_keys_def hc_inlineNamedStorageCapacity_def)
    have "mt_of (vm_sh vm') t' = mt_of (vm_sh vm) t"
      using mt_of_structure(1)[OF W A(2) HStructure q(2)] mt_of_structure(1)[OF W' n q(1,3)] q(5) sl(1) by (simp add: GetPolyMetatableSlot_def)
    then show ?thesis using n q(1) by (simp add: mt_flag_ok_def)
  next
    case (HDictionary p d)
    then have h: "t_hiddenClass t' = HDictionary p d" using ly by (simp add: same_layout_def)
    then show ?thesis using HDictionary N sl arr_invD(3)[OF I] A(3) mm
      by (simp add: named_ok_def hc_keys_def hc_inlineNamedStorageCapacity_def mt_flag_ok_def mt_of_def GetMetatable_def)
  qed
  then show ?thesis using I w T sl(1) unfolding array_result_def table_inv_def arr_written_def by blast
qed

lemma array_put_ok:
  assumes W: "wf_theap env (vm_sh vm) K C" and ok: "table_inv env vm K t ks g" and room: "hc_room (vm_sh vm) t" and d: "\<not> IsNaN d"
  shows "case RawPutByValDoubleIndex env vm t d v of None \<Rightarrow> arr_limit vm t
    | Some (vm', t') \<Rightarrow> array_result env vm K t ks g d v vm' t'"
proof (cases "RawPutByValDoubleIndex env vm t d v")
  case None
  then show ?thesis using RawPutByValDoubleIndex_ok[OF W table_invD(1)[OF ok] room d, of v] by (simp add: put_result_def)
next
  case (Some r)
  obtain vm' t' where r: "r = (vm', t')" by (cases r)
  then show ?thesis using RawPutByValDoubleIndex_ok[OF W table_invD(1)[OF ok] room d, of v] Some lift_array_put[OF W ok, of vm' t']
    by (auto simp: put_result_def)
qed

section \<open>Creating tables\<close>

definition empty_structure :: "sheap \<Rightarrow> sys_ptr \<Rightarrow> bool" where
  "empty_structure sh p \<longleftrightarrow> (\<exists>s. sh_structs sh p = Some s \<and> m_numSlots s = 0 \<and> m_metatable s = 0 \<and> m_arrayType s = GetInitialArrayType \<and>
     m_butterflyNamedStorageCapacity s = 0)"

text \<open>A table without properties.\<close>

definition blank :: "hclass \<Rightarrow> nat \<Rightarrow> nat \<Rightarrow> table_object" where
  "blank hc inlineCapacity n = \<lparr>t_hiddenClass = hc, t_arrayType = GetInitialArrayType,
     t_butterfly = (if n > 0 then Some (GrowButterflyFromNull False n) else None), t_inlineStorage = replicate inlineCapacity Nil, t_sparseMap = None\<rparr>"

lemma initial_array_type: "ArrayKind GetInitialArrayType = NoButterflyArrayPart" "\<not> IsContinuous GetInitialArrayType"
  "\<not> HasSparseMap GetInitialArrayType" "\<not> SparseMapContainsVectorIndex GetInitialArrayType" "\<not> MayHaveMetatable GetInitialArrayType"
  "valid_array_type GetInitialArrayType"
  using word_to_kind_bits[of "0::u8"]
  by (simp_all add: GetInitialArrayType_def at_get_defs bfm_GetBool_bit[simplified] valid_array_type_bits)
    (cases "ArrayKind (0::u8)"; simp)

lemma blank_arr_ok:
  assumes "n \<le> 1000"
  shows "arr_ok env (blank hc c n) (\<lambda>_. Nil)"
proof -
  have "unat (of_nat n :: u32) = n" using assms by (simp add: unat_of_nat take_bit_nat_eq_self)
  then show ?thesis using assms initial_array_type
    by (simp add: arr_ok_def at_ok_def bf_ok_def sparse_ok_def vec_ok_def apart_def blank_def GrowButterflyFromNull_def x_alwaysVectorCutoff_def)
qed

lemma blank_slots [simp]: "t_slots (blank hc c n) = replicate c Nil" "t_named (blank hc c n) = []" "t_hiddenClass (blank hc c n) = hc"
  "t_inlineStorage (blank hc c n) = replicate c Nil" "t_arrayType (blank hc c n) = GetInitialArrayType"
  "t_vec (blank hc c n) = replicate n Nil"
  by (simp_all add: t_slots_def t_named_def t_vec_def blank_def GrowButterflyFromNull_def)

lemma blank_ok:
  assumes W: "wf_theap env (vm_sh vm) K C" and u: "user_heap_ok vm" and n: "n \<le> 1000"
    and hc: "hc_keys env (vm_sh vm) K hc []" "hc_inlineNamedStorageCapacity (vm_sh vm) hc = c" "hc_butterflyNamedStorageCapacity (vm_sh vm) hc = 0"
      "case hc of HStructure p \<Rightarrow> m_arrayType (struct_at (vm_sh vm) p) = GetInitialArrayType | HDictionary p d \<Rightarrow> d_metatable d = 0"
  shows "table_inv env vm K (blank hc c n) [] (\<lambda>_. Nil)"
proof -
  have f: "fits env (vm_sh vm) K (blank hc c n) hc GetInitialArrayType []"
    using hc initial_array_type(5) by (cases hc) (simp_all add: fits_def)
  have eq: "(blank hc c n)\<lparr>t_hiddenClass := hc, t_arrayType := GetInitialArrayType\<rparr> = blank hc c n" by (simp add: blank_def)
  show ?thesis by (rule move_ok[OF blank_arr_ok[OF n] f u, unfolded eq]) simp
qed

lemma CreateEmptyTableObject_ok:
  assumes W: "wf_theap env (vm_sh vm) K C" and u: "user_heap_ok vm" and n: "n \<le> 1000" and p: "empty_structure (vm_sh vm) p"
    and c: "CreateEmptyTableObject vm p n = Some (vm', t)"
  shows "table_inv env vm' K t [] (\<lambda>_. Nil)" "vm_sh vm' = vm_sh vm" "user_heap_ok vm'" "mt_of (vm_sh vm') t = 0"
proof -
  obtain s where s: "sh_structs (vm_sh vm) p = Some s" "m_numSlots s = 0" "m_metatable s = 0" "m_arrayType s = GetInitialArrayType"
    "m_butterflyNamedStorageCapacity s = 0" using p by (auto simp: empty_structure_def)
  have st: "struct_at (vm_sh vm) p = s" "K p = []" using structure_numSlots[OF W s(1)] s(2) by simp_all
  obtain a where a: "AllocFromUserHeap vm (ComputeObjectAllocationSize (m_inlineNamedStorageCapacity s)) = Some (vm', a)"
    and t: "t = blank (HStructure p) (m_inlineNamedStorageCapacity s) n"
    using c st by (auto simp: CreateEmptyTableObject_def CreateEmptyTableObjectImpl_def blank_def split: option.splits)
  note V = AllocFromUserHeap_ok[OF a u]
  show "vm_sh vm' = vm_sh vm" "user_heap_ok vm'" using V by simp_all
  have W': "wf_theap env (vm_sh vm') K C" using W V(2) by simp
  show "table_inv env vm' K t [] (\<lambda>_. Nil)" unfolding t
    using s st V(2) by (intro blank_ok[OF W' V(1) n]) (simp_all add: hc_keys_def hc_inlineNamedStorageCapacity_def hc_butterflyNamedStorageCapacity_def)
  show "mt_of (vm_sh vm') t = 0" using s(3) st V(2) by (simp add: t mt_of_def GetMetatable_def HasNoMetatable_def Let_def)
qed

lemma CreateEmptyGlobalObject_ok:
  assumes W: "wf_theap env (vm_sh vm) K C" and u: "user_heap_ok vm" and c: "CreateEmptyGlobalObject vm = Some (vm', t)"
  shows "table_inv env vm' K t [] (\<lambda>_. Nil)" "transits env (vm_sh vm) K (vm_sh vm') K C" "user_heap_ok vm'" "mt_of (vm_sh vm') t = 0"
proof -
  have room: "sh_next (vm_sh vm) + 32 < 2 ^ 32"
    using c alloc_room[of "vm_sh vm" 32]
    by (auto simp: CreateEmptyGlobalObject_def CreateEmptyDictionary_def sizeof_CacheableDictionary_def Let_def split: option.splits)
  let ?sh = "(vm_sh vm)\<lparr>sh_next := sh_next (vm_sh vm) + 32\<rparr>"
  have pos: "(0::nat) < 128" "(128::nat) \<le> 2 ^ 30" by simp_all
  obtain d m where d: "CreateEmptyDictionary (vm_sh vm) 128 x_maxNumSlots True = Some (?sh, sh_next (vm_sh vm), d)"
    "dict_ok env d m []" "7 \<le> m" "d_inlineNamedStorageCapacity d = x_maxNumSlots" "d_butterflyNamedStorageCapacity d = 0" "d_metatable d = 0"
    using CreateEmptyDictionary_correct[OF pos room, of x_maxNumSlots True env] by blast
  obtain a where a: "AllocFromUserHeap (vm\<lparr>vm_sh := ?sh\<rparr>) (ComputeObjectAllocationSize x_maxNumSlots) = Some (vm', a)"
    and t: "t = blank (HDictionary (sh_next (vm_sh vm)) d) x_maxNumSlots 0"
    using c d(1) by (auto simp: CreateEmptyGlobalObject_def blank_def split: option.splits)
  have u1: "user_heap_ok (vm\<lparr>vm_sh := ?sh\<rparr>)" using u by (simp add: user_heap_ok_def)
  note V = AllocFromUserHeap_ok[OF a u1]
  show "user_heap_ok vm'" by (rule V(1))
  have "vm_sh vm' = ?sh" using V(2) by simp
  then show T: "transits env (vm_sh vm) K (vm_sh vm') K C" using transits_next[OF W] by simp
  then have W': "wf_theap env (vm_sh vm') K C" by (simp add: transits_def)
  have "dict_inv env d []" using d by (auto simp: dict_inv_def wf_dict_def x_maxNumSlots_def)
  then show "table_inv env vm' K t [] (\<lambda>_. Nil)" unfolding t
    using d by (intro blank_ok[OF W' V(1)]) (simp_all add: hc_keys_def hc_inlineNamedStorageCapacity_def hc_butterflyNamedStorageCapacity_def)
  show "mt_of (vm_sh vm') t = 0" using d(6) by (simp add: t mt_of_def GetMetatable_def)
qed

section \<open>Cloning tables\<close>

lemma CloneButterfly_ok:
  assumes ok: "arr_ok env t g" and u: "user_heap_ok vm" and b: "t_butterfly t = Some b" and n: "n = length (t_named t)"
    and c: "CloneButterfly vm t n = Some (vm', b', m')"
  shows "vm_sh vm' = vm_sh vm" "user_heap_ok vm'" "bf_named b' = bf_named b" "bf_vector b' = bf_vector b"
    "bf_ok (t_arrayType t) (Some b')" "sparse_ok env (t_arrayType t) m' g"
proof -
  let ?at = "t_arrayType t"
  have bo: "bf_ok ?at (Some b)" using arr_okD(2)[OF ok] b by simp
  note vec = bf_okD(3)[OF bo] and cap = bf_okD(1)[OF bo]
  have copy: "b\<lparr>bf_vector := take (unat (m_arrayStorageCapacity (bf_header b))) (bf_vector b), bf_named := take n (bf_named b)\<rparr> = b"
    using cap n b by simp
  have hs: "bh_HasSparseMap (bf_header b) \<longleftrightarrow> HasSparseMap ?at"
    using vec arr_okD(1)[OF ok] by (auto simp: bh_HasSparseMap_def vec_ok_def at_ok_def split: if_splits)
  have "vm_sh vm' = vm_sh vm \<and> user_heap_ok vm' \<and> bf_named b' = bf_named b \<and> bf_vector b' = bf_vector b \<and> bf_ok ?at (Some b') \<and> sparse_ok env ?at m' g"
  proof (cases "HasSparseMap ?at")
    case True
    then obtain m where m: "t_sparseMap t = Some m" "sm_repr env m g" using sparse_some[OF arr_okD(3)[OF ok]] by blast
    obtain p where p: "AllocFromUserHeap vm sizeof_ArraySparseMap = Some (vm', p)"
      "b' = b\<lparr>bf_header := (bf_header b)\<lparr>m_arrayLengthIfContinuous := GeneralHeapPointer p\<rparr>\<rparr>" "m' = Some (sm_Clone m)"
      using c True hs m(1) copy by (auto simp: CloneButterfly_def Let_def b split: option.splits)
    note P = AllocFromUserHeap_ok[OF p(1) u]
    have "bf_ok ?at (Some b')" using bo True GeneralHeapPointer_sint[OF P(3,4)] hs unfolding bf_ok_def vec_ok_def p(2)
      by (auto simp: bh_HasSparseMap_def split: if_splits)
    moreover have "sparse_ok env ?at m' g" using arr_okD(3)[OF ok] m sm_Clone_repr[OF m(2)] by (simp add: p(3))
    ultimately show ?thesis using P p(2) by simp
  next
    case False
    then have "b' = b" "m' = None" "vm' = vm" using c hs copy by (auto simp: CloneButterfly_def Let_def b)
    moreover have "t_sparseMap t = None" using arr_okD(3)[OF ok] False by (simp add: sparse_ok_def)
    ultimately show ?thesis using bo u arr_okD(3)[OF ok] by simp
  qed
  then show "vm_sh vm' = vm_sh vm" "user_heap_ok vm'" "bf_named b' = bf_named b" "bf_vector b' = bf_vector b"
    "bf_ok (t_arrayType t) (Some b')" "sparse_ok env (t_arrayType t) m' g" by blast+
qed

text \<open>The hidden class of the clone: a dictionary is copied.\<close>

lemma clone_hidden_class:
  assumes W: "wf_theap env sh K C" and ok: "named_ok env sh K t ks"
    and c: "(case t_hiddenClass t of HStructure p \<Rightarrow> Some (vm, t_hiddenClass t)
       | HDictionary p d \<Rightarrow> map_option (\<lambda>(sh, r, d). (vm\<lparr>vm_sh := sh\<rparr>, HDictionary r d)) (d_Clone sh d)) = Some (vm1, hc)" and sh: "sh = vm_sh vm"
  shows "transits env sh K (vm_sh vm1) K C" "vm_userHeapCurPtr vm1 = vm_userHeapCurPtr vm" "hc_keys env (vm_sh vm1) K hc ks"
    "hc_inlineNamedStorageCapacity (vm_sh vm1) hc = hc_inlineNamedStorageCapacity sh (t_hiddenClass t)"
    "hc_butterflyNamedStorageCapacity (vm_sh vm1) hc = hc_butterflyNamedStorageCapacity sh (t_hiddenClass t)"
    "case t_hiddenClass t of HStructure p \<Rightarrow> vm1 = vm \<and> hc = HStructure p | HDictionary p d \<Rightarrow> \<exists>r. hc = HDictionary r d"
proof -
  note N = named_okD[OF ok]
  have "transits env sh K (vm_sh vm1) K C \<and> vm_userHeapCurPtr vm1 = vm_userHeapCurPtr vm \<and> hc_keys env (vm_sh vm1) K hc ks \<and>
    hc_inlineNamedStorageCapacity (vm_sh vm1) hc = hc_inlineNamedStorageCapacity sh (t_hiddenClass t) \<and>
    hc_butterflyNamedStorageCapacity (vm_sh vm1) hc = hc_butterflyNamedStorageCapacity sh (t_hiddenClass t) \<and>
    (case t_hiddenClass t of HStructure p \<Rightarrow> vm1 = vm \<and> hc = HStructure p | HDictionary p d \<Rightarrow> \<exists>r. hc = HDictionary r d)"
  proof (cases "t_hiddenClass t")
    case (HStructure p)
    then have "hc = t_hiddenClass t" "vm1 = vm" using c by simp_all
    then show ?thesis using HStructure N(1) transits_refl[OF W] sh by simp
  next
    case (HDictionary p d)
    then have d: "dict_inv env d ks" and hks: "keys_ok env (HDictionary p d) ks" using N(1) by (simp_all add: hc_keys_def)
    then have "length (d_hashTable d) = d_hashTableMask d + 1" using wf_dict_table[of env d ks] by (simp add: dict_inv_def)
    then have "d\<lparr>d_hashTable := take (d_hashTableMask d + 1) (d_hashTable d)\<rparr> = d" by simp
    then have "vm1 = vm\<lparr>vm_sh := sh\<lparr>sh_next := sh_next sh + 32\<rparr>\<rparr>" "hc = HDictionary (sh_next sh) d"
      using c HDictionary by (auto simp: d_Clone_def AllocFromSystemHeap_def sizeof_CacheableDictionary_def split: option.splits if_splits)
    then show ?thesis using HDictionary d hks transits_next[OF W, of "sh_next sh + 32"]
      by (simp add: hc_keys_def hc_inlineNamedStorageCapacity_def hc_butterflyNamedStorageCapacity_def)
  qed
  then show "transits env sh K (vm_sh vm1) K C" "vm_userHeapCurPtr vm1 = vm_userHeapCurPtr vm" "hc_keys env (vm_sh vm1) K hc ks"
    "hc_inlineNamedStorageCapacity (vm_sh vm1) hc = hc_inlineNamedStorageCapacity sh (t_hiddenClass t)"
    "hc_butterflyNamedStorageCapacity (vm_sh vm1) hc = hc_butterflyNamedStorageCapacity sh (t_hiddenClass t)"
    "case t_hiddenClass t of HStructure p \<Rightarrow> vm1 = vm \<and> hc = HStructure p | HDictionary p d \<Rightarrow> \<exists>r. hc = HDictionary r d" by blast+
qed

lemma ShallowClone_ok:
  assumes W: "wf_theap env (vm_sh vm) K C" and ok: "table_inv env vm K t ks g" and c: "ShallowCloneTableObject vm t = Some (vm', t')"
  shows "transits env (vm_sh vm) K (vm_sh vm') K C" "table_inv env vm' K t' ks g" "user_heap_ok vm'"
    "t_slots t' = t_slots t" "t_vec t' = t_vec t" "mt_of (vm_sh vm') t' = mt_of (vm_sh vm) t"
proof -
  note A = table_invD[OF ok]
  note N = named_okD[OF A(2)] and arr = arr_invD(1)[OF A(1)]
  let ?at = "t_arrayType t"
  let ?e = "case t_hiddenClass t of HStructure p \<Rightarrow> Some (vm, t_hiddenClass t)
       | HDictionary p d \<Rightarrow> map_option (\<lambda>(sh, r, d). (vm\<lparr>vm_sh := sh\<rparr>, HDictionary r d)) (d_Clone (vm_sh vm) d)"
  obtain vm1 hc where h: "?e = Some (vm1, hc)" using c by (auto simp: ShallowCloneTableObject_def Let_def split: option.splits)
  note H = clone_hidden_class[OF W A(2) h refl]
  let ?cap = "hc_inlineNamedStorageCapacity (vm_sh vm) (t_hiddenClass t)" and ?n = "hc_butterflyNamedStorageCapacity (vm_sh vm) (t_hiddenClass t)"
  let ?t0 = "\<lparr>t_hiddenClass = hc, t_arrayType = ?at, t_butterfly = None, t_inlineStorage = t_inlineStorage t, t_sparseMap = None\<rparr>"
  obtain vm2 r where a: "AllocFromUserHeap vm1 (ComputeObjectAllocationSize ?cap) = Some (vm2, r)"
    using c h by (auto simp: ShallowCloneTableObject_def Let_def split: option.splits)
  have u1: "user_heap_ok vm1" using arr_invD(4)[OF A(1)] H(2) by (simp add: user_heap_ok_def)
  note V = AllocFromUserHeap_ok[OF a u1]
  have inl: "take ?cap (t_inlineStorage t) = t_inlineStorage t" using N(2) by simp
  have R: "(if t_butterfly t = None then Some (vm2, ?t0)
      else map_option (\<lambda>(vm, b, m). (vm, ?t0\<lparr>t_butterfly := Some b, t_sparseMap := m\<rparr>)) (CloneButterfly vm2 t ?n)) = Some (vm', t')"
    using c h a inl by (simp add: ShallowCloneTableObject_def Let_def)
  have F: "vm_sh vm' = vm_sh vm1 \<and> user_heap_ok vm' \<and> t_hiddenClass t' = hc \<and> t_arrayType t' = ?at \<and> t_inlineStorage t' = t_inlineStorage t \<and>
    t_named t' = t_named t \<and> t_vec t' = t_vec t \<and> arr_ok env t' g"
  proof (cases "t_butterfly t")
    case None
    then have t': "t' = ?t0" "vm' = vm2" using R by auto
    have "ArrayKind ?at = NoButterflyArrayPart" using arr_okD(2)[OF arr] None by (simp add: bf_ok_def)
    then have "\<not> HasSparseMap ?at" using arr_okD(1)[OF arr] by (auto simp: at_ok_def)
    then have "t_sparseMap t = None" using arr_okD(3)[OF arr] by (simp add: sparse_ok_def)
    then have "arr_ok env t' g" using arr None by (simp add: t' arr_ok_def t_vec_def)
    then show ?thesis using None V by (simp add: t' t_named_def t_vec_def)
  next
    case (Some b)
    obtain b' m' where cl: "CloneButterfly vm2 t ?n = Some (vm', b', m')" and t': "t' = ?t0\<lparr>t_butterfly := Some b', t_sparseMap := m'\<rparr>"
      using R Some by auto
    note B = CloneButterfly_ok[OF arr V(1) Some N(3)[symmetric] cl]
    have "arr_ok env t' g" using arr_okD(1,4)[OF arr] B Some by (simp add: t' arr_ok_def t_vec_def)
    then show ?thesis using B V(2) Some by (simp add: t' t_named_def t_vec_def)
  qed
  then have sl: "t_slots t' = t_slots t" by (simp add: t_slots_def)
  show T: "transits env (vm_sh vm) K (vm_sh vm') K C" using H(1) F by simp
  have W': "wf_theap env (vm_sh vm') K C" using T by (simp add: transits_def)
  show "user_heap_ok vm'" "t_slots t' = t_slots t" "t_vec t' = t_vec t" using F sl by simp_all
  have N': "named_ok env (vm_sh vm') K t' ks" using F H N sl by (simp add: named_ok_def named_sized_def)
  have "hc_type_ok (vm_sh vm') t' \<and> mt_flag_ok t' \<and> mt_of (vm_sh vm') t' = mt_of (vm_sh vm) t"
  proof (cases "t_hiddenClass t")
    case (HStructure p)
    then have e: "vm_sh vm' = vm_sh vm" "t_hiddenClass t' = HStructure p" using H(6) F by simp_all
    obtain s where s: "sh_structs (vm_sh vm) p = Some s" using N(1) HStructure by (auto simp: hc_keys_def)
    then have "mt_of (vm_sh vm') t' = mt_of (vm_sh vm) t"
      using mt_of_structure(1)[OF W A(2) HStructure s] mt_of_structure(1)[OF W' N' e(2), of s] e(1) sl by simp
    then show ?thesis using e F arr_invD(2)[OF A(1)] HStructure by (simp add: hc_type_ok_def mt_flag_ok_def)
  next
    case (HDictionary p d)
    then obtain r where "t_hiddenClass t' = HDictionary r d" using H(6) F by auto
    then show ?thesis using HDictionary F A(3) by (simp add: hc_type_ok_def mt_flag_ok_def mt_of_def GetMetatable_def)
  qed
  then show "table_inv env vm' K t' ks g" "mt_of (vm_sh vm') t' = mt_of (vm_sh vm) t"
    using F N' by (simp_all add: table_inv_def arr_inv_def named_ok_def)
qed

text \<open>The specialised clone for \<^verbatim>\<open>TableDup\<close> does the same where its assumptions hold.\<close>

lemma TableDup_clone:
  assumes ok: "arr_ok env t g" and nm: "named_ok env (vm_sh vm) K t ks" and hc: "t_hiddenClass t = HStructure p"
    and nc: "m_butterflyNamedStorageCapacity (struct_at (vm_sh vm) p) = 0" and cap: "cap = m_inlineNamedStorageCapacity (struct_at (vm_sh vm) p)"
    and sp: "\<not> HasSparseMap (t_arrayType t)" and b: "hasButterfly \<longleftrightarrow> t_butterfly t \<noteq> None"
  shows "ShallowCloneTableObjectForTableDup vm t cap hasButterfly = ShallowCloneTableObject vm t"
proof -
  have hcap: "hc_inlineNamedStorageCapacity (vm_sh vm) (t_hiddenClass t) = cap" "hc_butterflyNamedStorageCapacity (vm_sh vm) (t_hiddenClass t) = 0"
    using cap nc by (simp_all add: hc hc_inlineNamedStorageCapacity_def hc_butterflyNamedStorageCapacity_def)
  have sm: "t_sparseMap t = None" using arr_okD(3)[OF ok] sp by (simp add: sparse_ok_def)
  show ?thesis
  proof (cases "t_butterfly t")
    case None
    then show ?thesis using b sm hcap hc by (simp add: ShallowCloneTableObjectForTableDup_def ShallowCloneTableObject_def Let_def split: option.split)
  next
    case (Some bf)
    have "bf_ok (t_arrayType t) (Some bf)" using arr_okD(2)[OF ok] Some by simp
    from bf_okD(3)[OF this] have hs: "\<not> bh_HasSparseMap (bf_header bf)"
      using sp by (auto simp: bh_HasSparseMap_def vec_ok_def split: if_splits)
    have "CloneButterfly vm' t 0 = Some (vm', CloneButterflyForTableDup t, None)" for vm'
      using hs Some by (simp add: CloneButterfly_def CloneButterflyForTableDup_def Let_def)
    then show ?thesis using b sm hcap hc Some
      by (simp add: ShallowCloneTableObjectForTableDup_def ShallowCloneTableObject_def Let_def split: option.split)
  qed
qed

end
