(* ===== verification/TableWorld.thy ===== *)
theory TableWorld
  imports TableOps
begin

unbundle bit_operations_syntax

text \<open>
  All the tables of one virtual machine: they share the structures, the transition tables and the two heaps. A step is one
  table operation with the assertions of the code as its guards; every reachable state satisfies the invariants of all tables, and a
  step on one table leaves the others as they were. The two stores of a table, by number and by name, are interpretations of
  the interface \<open>keyed_store\<close>.
\<close>

section \<open>The tables of a virtual machine\<close>

record world =
  w_vm :: vm_state
  w_tables :: "table_object list"

definition initial_world :: world where
  "initial_world = \<lparr>w_vm = \<lparr>vm_sh = empty_sheap, vm_userHeapCurPtr = - (x_vmBaseOffset - x_vmUserHeapSize)\<rparr>, w_tables = []\<rparr>"

definition new_table :: "world \<Rightarrow> vm_state \<Rightarrow> table_object \<Rightarrow> world" where
  "new_table w vm t = \<lparr>w_vm = vm, w_tables = w_tables w @ [t]\<rparr>"

definition set_table :: "world \<Rightarrow> nat \<Rightarrow> vm_state \<Rightarrow> table_object \<Rightarrow> world" where
  "set_table w i vm t = \<lparr>w_vm = vm, w_tables = (w_tables w)[i := t]\<rparr>"

text \<open>
  One operation of the program. The guards are the assertions of the code and the room left in the system heap; a table is created
  with at most as many preallocated array slots as the slow path handles.
\<close>

inductive world_step :: "vm_env \<Rightarrow> world \<Rightarrow> world \<Rightarrow> bool" for env where
  ws_structure: "CreateInitialStructure (vm_sh (w_vm w)) c = Some (sh', r) \<Longrightarrow> c \<le> x_maxNumSlots \<Longrightarrow>
    world_step env w (w\<lparr>w_vm := (w_vm w)\<lparr>vm_sh := sh'\<rparr>\<rparr>)"
| ws_create: "empty_structure (vm_sh (w_vm w)) p \<Longrightarrow> n \<le> 1000 \<Longrightarrow> CreateEmptyTableObject (w_vm w) p n = Some (vm', t) \<Longrightarrow>
    world_step env w (new_table w vm' t)"
| ws_global: "CreateEmptyGlobalObject (w_vm w) = Some (vm', t) \<Longrightarrow> world_step env w (new_table w vm' t)"
| ws_clone: "i < length (w_tables w) \<Longrightarrow> ShallowCloneTableObject (w_vm w) (w_tables w ! i) = Some (vm', t) \<Longrightarrow>
    world_step env w (new_table w vm' t)"
| ws_put_index: "i < length (w_tables w) \<Longrightarrow> hc_room (vm_sh (w_vm w)) (w_tables w ! i) \<Longrightarrow> \<not> IsNaN d \<Longrightarrow>
    RawPutByValDoubleIndex env (w_vm w) (w_tables w ! i) d v = Some (vm', t) \<Longrightarrow> world_step env w (set_table w i vm' t)"
| ws_put_named: "i < length (w_tables w) \<Longrightarrow> put_room env (vm_sh (w_vm w)) (w_tables w ! i) key \<Longrightarrow> good_key env str key \<Longrightarrow>
    InsertField env (w_vm w) str (w_tables w ! i) key v = Some (vm', t) \<Longrightarrow> world_step env w (set_table w i vm' t)"
| ws_set_metatable: "i < length (w_tables w) \<Longrightarrow> setmt_room (vm_sh (w_vm w)) (w_tables w ! i) \<Longrightarrow> user_ptr m \<Longrightarrow>
    t_SetMetatable env (w_vm w) (w_tables w ! i) m = Some (vm', t) \<Longrightarrow> world_step env w (set_table w i vm' t)"
| ws_remove_metatable: "i < length (w_tables w) \<Longrightarrow> removemt_room (vm_sh (w_vm w)) (w_tables w ! i) \<Longrightarrow>
    t_RemoveMetatable env (w_vm w) (w_tables w ! i) = Some (vm', t) \<Longrightarrow> world_step env w (set_table w i vm' t)"

inductive world_reach :: "vm_env \<Rightarrow> world \<Rightarrow> bool" for env where
  wr_initial: "world_reach env initial_world"
| wr_step: "world_reach env w \<Longrightarrow> world_step env w w' \<Longrightarrow> world_reach env w'"

definition world_ok :: "vm_env \<Rightarrow> keys_of \<Rightarrow> (sys_ptr \<Rightarrow> transition_key \<rightharpoonup> sys_ptr) \<Rightarrow> world \<Rightarrow> bool" where
  "world_ok env K C w \<longleftrightarrow> wf_theap env (vm_sh (w_vm w)) K C \<and> user_heap_ok (w_vm w) \<and>
     (\<forall>t\<in>set (w_tables w). \<exists>ks g. table_inv env (w_vm w) K t ks g)"

lemma world_okD:
  assumes "world_ok env K C w"
  shows "wf_theap env (vm_sh (w_vm w)) K C" "user_heap_ok (w_vm w)" "t \<in> set (w_tables w) \<Longrightarrow> \<exists>ks g. table_inv env (w_vm w) K t ks g"
  using assms by (auto simp: world_ok_def)

text \<open>What every step does: it keeps the structures, leaves the heap in order and puts tables that satisfy the invariant in place.\<close>

lemma world_ok_frame:
  assumes ok: "world_ok env K C w" and T: "transits env (vm_sh (w_vm w)) K (vm_sh vm') K' C'" and u: "user_heap_ok vm'"
    and ts: "\<And>t. t \<in> set (w_tables w') \<Longrightarrow> t \<in> set (w_tables w) \<or> (\<exists>ks g. table_inv env vm' K' t ks g)" and w': "w_vm w' = vm'"
  shows "world_ok env K' C' w'"
  unfolding world_ok_def w'
proof (intro conjI ballI)
  show "wf_theap env (vm_sh vm') K' C'" using T by (simp add: transits_def)
  show "user_heap_ok vm'" by (rule u)
  fix t assume "t \<in> set (w_tables w')"
  then show "\<exists>ks g. table_inv env vm' K' t ks g" using ts world_okD(3)[OF ok] table_inv_frame(1)[OF _ T u] by blast
qed

lemma step_frame:
  assumes "world_step env w w'" "world_ok env K C w"
  shows "\<exists>K' C'. transits env (vm_sh (w_vm w)) K (vm_sh (w_vm w')) K' C' \<and> world_ok env K' C' w'"
proof -
  note W = world_okD(1)[OF assms(2)] and U = world_okD(2)[OF assms(2)]
  have T: "\<exists>ks g. table_inv env (w_vm w) K (w_tables w ! i) ks g" if "i < length (w_tables w)" for i
    using world_okD(3)[OF assms(2)] that by simp
  have S: "\<exists>K' C'. transits env (vm_sh (w_vm w)) K (vm_sh (w_vm (set_table w i vm' t))) K' C' \<and> world_ok env K' C' (set_table w i vm' t)"
    if "transits env (vm_sh (w_vm w)) K (vm_sh vm') K' C'" "table_inv env vm' K' t ks g" for i vm' t K' C' ks g
  proof (intro exI conjI)
    have "set ((w_tables w)[i := t]) \<subseteq> insert t (set (w_tables w))" by (rule set_update_subset_insert)
    then show "world_ok env K' C' (set_table w i vm' t)"
      using that arr_invD(4)[OF table_invD(1)[OF that(2)]] by (intro world_ok_frame[OF assms(2) that(1)]) (auto simp: set_table_def)
  qed (use that in \<open>simp add: set_table_def\<close>)
  have N: "\<exists>K' C'. transits env (vm_sh (w_vm w)) K (vm_sh (w_vm (new_table w vm' t))) K' C' \<and> world_ok env K' C' (new_table w vm' t)"
    if "transits env (vm_sh (w_vm w)) K (vm_sh vm') K' C'" "table_inv env vm' K' t ks g" for vm' t K' C' ks g
    using that arr_invD(4)[OF table_invD(1)[OF that(2)]]
    by (intro exI[of _ K'] exI[of _ C'] conjI world_ok_frame[OF assms(2) that(1)]) (auto simp: new_table_def)
  from assms(1) show ?thesis
  proof cases
    case (ws_structure c sh' r)
    let ?vm = "(w_vm w)\<lparr>vm_sh := sh'\<rparr>"
    obtain sr where "wf_theap env sh' (K(r := [])) (C(r := Map.empty))" "keeps_structs (vm_sh (w_vm w)) sh'" "sh_structs (vm_sh (w_vm w)) r = None"
      using CreateInitialStructure_correct[OF W ws_structure(3) CreateInitialStructure_next[OF ws_structure(2)]] ws_structure(2) by auto
    then have "transits env (vm_sh (w_vm w)) K (vm_sh ?vm) (K(r := [])) (C(r := Map.empty))" by (auto simp: transits_def)
    moreover have "user_heap_ok ?vm" using U by (simp add: user_heap_ok_def)
    ultimately show ?thesis unfolding ws_structure(1)
      by (intro exI[of _ "K(r := [])"] exI[of _ "C(r := Map.empty)"] conjI world_ok_frame[OF assms(2)]) auto
  next
    case (ws_create p n vm' t)
    note P = CreateEmptyTableObject_ok[OF W U ws_create(3,2,4)]
    show ?thesis unfolding ws_create(1) using transits_refl[OF W] P(1,2) by (intro N) simp_all
  next
    case (ws_global vm' t)
    note P = CreateEmptyGlobalObject_ok[OF W U ws_global(2)]
    show ?thesis unfolding ws_global(1) by (rule N[OF P(2,1)])
  next
    case (ws_clone i vm' t)
    obtain ks g where ok: "table_inv env (w_vm w) K (w_tables w ! i) ks g" using T[OF ws_clone(2)] by blast
    note P = ShallowClone_ok[OF W ok ws_clone(3)]
    show ?thesis unfolding ws_clone(1) by (rule N[OF P(1,2)])
  next
    case (ws_put_index i d v vm' t)
    obtain ks g where ok: "table_inv env (w_vm w) K (w_tables w ! i) ks g" using T[OF ws_put_index(2)] by blast
    from array_put_ok[OF W ok ws_put_index(3,4), of v] ws_put_index(5) show ?thesis
      unfolding ws_put_index(1) using S by (auto simp: array_result_def)
  next
    case (ws_put_named i key str v vm' t)
    obtain ks g where ok: "table_inv env (w_vm w) K (w_tables w ! i) ks g" using T[OF ws_put_named(2)] by blast
    from InsertField_ok[OF W ok ws_put_named(4,3), of v] ws_put_named(5) show ?thesis
      unfolding ws_put_named(1) using S by (auto simp: named_result_def)
  next
    case (ws_set_metatable i m vm' t)
    obtain ks g where ok: "table_inv env (w_vm w) K (w_tables w ! i) ks g" using T[OF ws_set_metatable(2)] by blast
    from t_SetMetatable_ok[OF W ok ws_set_metatable(4,3)] ws_set_metatable(5) show ?thesis
      unfolding ws_set_metatable(1) using S by (auto simp: named_result_def)
  next
    case (ws_remove_metatable i vm' t)
    obtain ks g where ok: "table_inv env (w_vm w) K (w_tables w ! i) ks g" using T[OF ws_remove_metatable(2)] by blast
    from t_RemoveMetatable_ok[OF W ok ws_remove_metatable(3)] ws_remove_metatable(4) show ?thesis
      unfolding ws_remove_metatable(1) using S by (auto simp: named_result_def)
  qed
qed

lemma world_reach_ok: "world_reach env w \<Longrightarrow> \<exists>K C. world_ok env K C w"
proof (induction rule: world_reach.induct)
  case wr_initial
  then show ?case using wf_theap_empty[of env] by (auto simp: world_ok_def initial_world_def user_heap_ok_def)
next
  case (wr_step w w')
  then show ?case using step_frame by blast
qed

lemma reach_table:
  assumes "world_reach env w" "t \<in> set (w_tables w)"
  obtains K C ks g where "wf_theap env (vm_sh (w_vm w)) K C" "table_inv env (w_vm w) K t ks g"
  using world_reach_ok[OF assms(1)] world_okD[of env _ _ w] assms(2) by blast

section \<open>The stores\<close>

definition array_get :: "vm_env \<Rightarrow> vm_state \<times> table_object \<Rightarrow> double \<Rightarrow> tvalue option" where
  "array_get env s d = GetByDoubleVal env (snd s) d (PrepareGetByIntegerIndex (snd s))"

definition array_put :: "vm_env \<Rightarrow> vm_state \<times> table_object \<Rightarrow> double \<Rightarrow> tvalue \<Rightarrow> (vm_state \<times> table_object) option" where
  "array_put env s d v = (if hc_room (vm_sh (fst s)) (snd s) then RawPutByValDoubleIndex env (fst s) (snd s) d v else None)"

definition array_repr :: "vm_env \<Rightarrow> vm_state \<times> table_object \<Rightarrow> (double \<Rightarrow> tvalue) \<Rightarrow> bool" where
  "array_repr env s f \<longleftrightarrow> (\<exists>K C ks g. wf_theap env (vm_sh (fst s)) K C \<and> table_inv env (fst s) K (snd s) ks g \<and>
     (\<forall>d. \<not> IsNaN d \<longrightarrow> arr_fun (t_vec (snd s)) g d = f (float_norm d)))"

interpretation arr: keyed_store "array_repr env" "array_get env" "array_put env" "\<lambda>d. \<not> IsNaN d" float_norm for env
proof
  fix s f d
  assume "array_repr env s f" "\<not> IsNaN d"
  then show "array_get env s d = Some (f (float_norm d))"
    using GetByDoubleVal_correct[OF arr_invD(1)[OF table_invD(1)]] by (auto simp: array_repr_def array_get_def)
next
  fix s f d v s'
  assume R: "array_repr env s f" and d: "\<not> IsNaN d" and p: "array_put env s d v = Some s'"
  obtain K C ks g where W: "wf_theap env (vm_sh (fst s)) K C" and ok: "table_inv env (fst s) K (snd s) ks g"
    and f: "\<And>d. \<not> IsNaN d \<Longrightarrow> arr_fun (t_vec (snd s)) g d = f (float_norm d)" using R by (auto simp: array_repr_def)
  have room: "hc_room (vm_sh (fst s)) (snd s)" and q: "RawPutByValDoubleIndex env (fst s) (snd s) d v = Some (fst s', snd s')"
    using p by (auto simp: array_put_def split: if_splits)
  have "array_result env (fst s) K (snd s) ks g d v (fst s') (snd s')" using array_put_ok[OF W ok room d, of v] q by (cases s') simp
  then obtain K' C' g' where "wf_theap env (vm_sh (fst s')) K' C'" "table_inv env (fst s') K' (snd s') ks g'"
    "\<And>x. \<not> IsNaN x \<Longrightarrow> arr_fun (t_vec (snd s')) g' x = (if float_norm x = float_norm d then v else arr_fun (t_vec (snd s)) g x)"
    unfolding array_result_def transits_def by blast
  then show "array_repr env s' (f(float_norm d := v))" using f unfolding array_repr_def
    by (intro exI[of _ K'] exI[of _ C'] exI[of _ ks] exI[of _ g']) simp
qed

definition named_get :: "vm_env \<Rightarrow> bool \<Rightarrow> vm_state \<times> table_object \<Rightarrow> gkey \<Rightarrow> tvalue option" where
  "named_get env str s key = RawGetPropertyFromTableObject env (vm_sh (fst s)) str (snd s) key"

definition guarded_put :: "vm_env \<Rightarrow> bool \<Rightarrow> vm_state \<times> table_object \<Rightarrow> gkey \<Rightarrow> tvalue \<Rightarrow> (vm_state \<times> table_object) option" where
  "guarded_put env str s key v = (if put_room env (vm_sh (fst s)) (snd s) key then InsertField env (fst s) str (snd s) key v else None)"

definition named_repr :: "vm_env \<Rightarrow> vm_state \<times> table_object \<Rightarrow> (gkey \<Rightarrow> tvalue) \<Rightarrow> bool" where
  "named_repr env s F \<longleftrightarrow> (\<exists>K C ks g. wf_theap env (vm_sh (fst s)) K C \<and> table_inv env (fst s) K (snd s) ks g \<and>
     (\<forall>k. k \<noteq> env_specialKey env \<longrightarrow> named_fun ks (t_slots (snd s)) k = F k))"

lemma named_get_repr:
  assumes "named_repr env s F" "good_key env str k"
  shows "named_get env str s k = Some (F k)"
proof -
  obtain K C ks g where W: "wf_theap env (vm_sh (fst s)) K C" and ok: "table_inv env (fst s) K (snd s) ks g"
    and F: "\<And>k. k \<noteq> env_specialKey env \<Longrightarrow> named_fun ks (t_slots (snd s)) k = F k" using assms(1) by (auto simp: named_repr_def)
  have "k \<noteq> env_specialKey env" using assms(2) by (simp add: good_key_def)
  then show ?thesis using GetById_ok[OF W table_invD(2)[OF ok] assms(2)] F[of k] by (auto simp: named_get_def RawGetPropertyFromTableObject_def)
qed

interpretation nam: keyed_store "named_repr env" "named_get env str" "guarded_put env str" "good_key env str" "\<lambda>k. k" for env str
proof
  fix s F k v s'
  assume R: "named_repr env s F" and k: "good_key env str k" and p: "guarded_put env str s k v = Some s'"
  obtain K C ks g where W: "wf_theap env (vm_sh (fst s)) K C" and ok: "table_inv env (fst s) K (snd s) ks g"
    and F: "\<And>k. k \<noteq> env_specialKey env \<Longrightarrow> named_fun ks (t_slots (snd s)) k = F k" using R by (auto simp: named_repr_def)
  have room: "put_room env (vm_sh (fst s)) (snd s) k" and q: "InsertField env (fst s) str (snd s) k v = Some (fst s', snd s')"
    using p by (auto simp: guarded_put_def split: if_splits)
  have "named_result env (fst s) K (snd s) g ((named_fun ks (t_slots (snd s)))(k := v)) (mt_of (vm_sh (fst s)) (snd s)) (fst s') (snd s')"
    using InsertField_ok[OF W ok k room, of v] q by auto
  then obtain K' C' ks' where "wf_theap env (vm_sh (fst s')) K' C'" "table_inv env (fst s') K' (snd s') ks' g"
    "\<And>x. x \<noteq> env_specialKey env \<Longrightarrow> named_fun ks' (t_slots (snd s')) x = ((named_fun ks (t_slots (snd s)))(k := v)) x"
    unfolding named_result_def transits_def by blast
  then show "named_repr env s' (F(k := v))" using F unfolding named_repr_def
    by (intro exI[of _ K'] exI[of _ C'] exI[of _ ks'] exI[of _ g]) simp
qed (rule named_get_repr)

section \<open>Sequences of steps\<close>

lemma transits_trans:
  assumes "transits env sh K sh' K' C'" "transits env sh' K' sh'' K'' C''"
  shows "transits env sh K sh'' K'' C''"
proof -
  have "K'' x = K x" if "sh_structs sh x \<noteq> None" for x
    using that assms unfolding transits_def keeps_structs_def by (metis not_None_eq)
  moreover have "keeps_structs sh sh''"
    using assms same_core_trans unfolding transits_def keeps_structs_def by meson
  ultimately show ?thesis using assms(2) by (simp add: transits_def)
qed

lemma steps_frame:
  assumes "(world_step env)\<^sup>*\<^sup>* w w'" "world_ok env K C w"
  shows "\<exists>K' C'. transits env (vm_sh (w_vm w)) K (vm_sh (w_vm w')) K' C' \<and> world_ok env K' C' w'"
  using assms
proof (induction rule: rtranclp_induct)
  case base
  then show ?case using transits_refl[OF world_okD(1)] by blast
next
  case (step y z)
  then obtain K1 C1 where "transits env (vm_sh (w_vm w)) K (vm_sh (w_vm y)) K1 C1" "world_ok env K1 C1 y" by blast
  then show ?case using step_frame[OF step(2)] transits_trans by blast
qed

text \<open>What a structure tells a reader does not change.\<close>

lemma PrepareGet_stable:
  assumes W: "wf_theap env sh K C" and T: "transits env sh K sh' K' C'" and p: "sh_structs sh p = Some s" and key: "good_key env str key"
  shows "PrepareGetByIdImplForStructure env sh' str p key = PrepareGetByIdImplForStructure env sh str p key"
proof -
  obtain s' where s': "sh_structs sh' p = Some s'" "m_metatable s' = m_metatable s"
    "m_inlineNamedStorageCapacity s' = m_inlineNamedStorageCapacity s" "K' p = K p" by (rule transits_struct[OF T p])
  have W': "wf_theap env sh' K' C'" using T by (simp add: transits_def)
  have st: "struct_at sh p = s" "struct_at sh' p = s'" using p s'(1) by (simp_all add: struct_at_def)
  have look: "slot_of env sh' s' key = slot_of env sh s key" using wf_lookup[OF W p] wf_lookup[OF W' s'(1)] s'(4) by simp
  have str: "GetSlotOrdinalFromStringProperty env sh' s' key = slot_of env sh' s' key" "GetSlotOrdinalFromStringProperty env sh s key = slot_of env sh s key" if str
    using that key string_key(1) by (simp_all add: good_key_def)
  show ?thesis unfolding PrepareGetByIdImplForStructure_def Let_def st s'(2,3) look using str look by (cases str) simp_all
qed

section \<open>Reading back\<close>

lemma named_result_get:
  assumes W: "wf_theap env (vm_sh vm) K C" and R: "named_result env vm K t g F m vm' t'" and key: "good_key env str k"
  shows "RawGetPropertyFromTableObject env (vm_sh vm') str t' k = Some (F k)"
proof -
  obtain K' C' ks' where W': "wf_theap env (vm_sh vm') K' C'" and ok: "table_inv env vm' K' t' ks' g"
    and F: "\<And>k. k \<noteq> env_specialKey env \<Longrightarrow> named_fun ks' (t_slots t') k = F k"
    using R unfolding named_result_def transits_def by blast
  have "k \<noteq> env_specialKey env" using key by (simp add: good_key_def)
  then show ?thesis using GetById_ok[OF W' table_invD(2)[OF ok] key] F[of k] by (auto simp: RawGetPropertyFromTableObject_def)
qed

lemma named_get_inv:
  assumes "wf_theap env (vm_sh vm) K C" "table_inv env vm K t ks g" "good_key env str k"
  shows "RawGetPropertyFromTableObject env (vm_sh vm) str t k = Some (named_fun ks (t_slots t) k)"
  using GetById_ok[OF assms(1) table_invD(2)[OF assms(2)] assms(3)] by (auto simp: RawGetPropertyFromTableObject_def)

lemma array_get_inv:
  assumes "table_inv env vm K t ks g" "\<not> IsNaN d"
  shows "GetByDoubleVal env t d (PrepareGetByIntegerIndex t) = Some (arr_fun (t_vec t) g d)"
  using GetByDoubleVal_correct[OF arr_invD(1)[OF table_invD(1)[OF assms(1)]] assms(2)] .

lemma named_result_array:
  assumes ok: "table_inv env vm K t ks g" and R: "named_result env vm K t g F m vm' t'" and d: "\<not> IsNaN d"
  shows "GetByDoubleVal env t' d (PrepareGetByIntegerIndex t') = GetByDoubleVal env t d (PrepareGetByIntegerIndex t)"
  using R array_get_inv[OF ok d] array_get_inv[OF _ d] unfolding named_result_def by auto

lemma array_result_reads:
  assumes W: "wf_theap env (vm_sh vm) K C" and ok: "table_inv env vm K t ks g" and R: "array_result env vm K t ks g d v vm' t'"
  shows "\<not> IsNaN d \<Longrightarrow> \<not> IsNaN x \<Longrightarrow> GetByDoubleVal env t' x (PrepareGetByIntegerIndex t') =
      (if UnsafeFloatEqual d x then Some v else GetByDoubleVal env t x (PrepareGetByIntegerIndex t))"
    "good_key env str k \<Longrightarrow> RawGetPropertyFromTableObject env (vm_sh vm') str t' k = RawGetPropertyFromTableObject env (vm_sh vm) str t k"
proof -
  obtain K' C' g' where T: "transits env (vm_sh vm) K (vm_sh vm') K' C'" and ok': "table_inv env vm' K' t' ks g'"
    and F: "\<And>x. \<not> IsNaN x \<Longrightarrow> arr_fun (t_vec t') g' x = (if float_norm x = float_norm d then v else arr_fun (t_vec t) g x)"
    and sl: "t_slots t' = t_slots t" using R unfolding array_result_def by blast
  show "GetByDoubleVal env t' x (PrepareGetByIntegerIndex t') =
      (if UnsafeFloatEqual d x then Some v else GetByDoubleVal env t x (PrepareGetByIntegerIndex t))" if "\<not> IsNaN d" "\<not> IsNaN x"
    using array_get_inv[OF ok that(2)] array_get_inv[OF ok' that(2)] F[OF that(2)] that by (auto simp: UnsafeFloatEqual_norm)
  have W': "wf_theap env (vm_sh vm') K' C'" using T by (simp add: transits_def)
  show "RawGetPropertyFromTableObject env (vm_sh vm') str t' k = RawGetPropertyFromTableObject env (vm_sh vm) str t k" if "good_key env str k"
    using named_get_inv[OF W ok that] named_get_inv[OF W' ok' that] sl by simp
qed

section \<open>An example\<close>

definition example_vm :: vm_state where
  "example_vm = \<lparr>vm_sh = example_heap, vm_userHeapCurPtr = - (x_vmBaseOffset - x_vmUserHeapSize) - 48\<rparr>"

definition example_table :: table_object where
  "example_table = blank (HStructure 24) 4 3"

definition example_world :: world where
  "example_world = \<lparr>w_vm = example_vm, w_tables = [example_table]\<rparr>"

lemma example_inline: "m_inlineNamedStorageCapacity (struct_at example_heap 24) = 4" "m_butterflyNamedStorageCapacity (struct_at example_heap 24) = 0"
  by (simp_all add: example_heap_def empty_sheap_def CreateInitialStructure_def AllocFromSystemHeap_def block_consts round8_def
      ComputeTrailingVarLengthArrayLengthBytes_def NonFullBlockLength_eq HasFinal_iff Let_def set_struct_def struct_at_def)

lemma example_empty: "empty_structure example_heap 24"
proof (rule example_struct)
  fix s assume "sh_structs example_heap 24 = Some s" "m_numSlots s = 0" "m_metatable s = 0" "m_arrayType s = 0"
  then show ?thesis using example_inline(2) by (simp add: empty_structure_def struct_at_def GetInitialArrayType_def)
qed

lemma example_world_reach: "world_reach example_env example_world"
proof -
  let ?w = "initial_world\<lparr>w_vm := (w_vm initial_world)\<lparr>vm_sh := example_heap\<rparr>\<rparr>"
  have 1: "world_step example_env initial_world ?w"
    by (rule ws_structure[of _ 4 _ 24]) (simp_all add: initial_world_def example_initial x_maxNumSlots_def)
  have "CreateEmptyTableObject (w_vm ?w) 24 3 = Some (example_vm, example_table)"
    by (simp add: CreateEmptyTableObject_def CreateEmptyTableObjectImpl_def AllocFromUserHeap_def initial_world_def example_inline Let_def
        ComputeObjectAllocationSize_def x_vmBaseOffset_def x_vmUserHeapSize_def example_vm_def example_table_def blank_def)
  then have "world_step example_env ?w (new_table ?w example_vm example_table)"
    by (intro ws_create[of _ 24 3]) (simp_all add: initial_world_def example_empty)
  moreover have "new_table ?w example_vm example_table = example_world" by (simp add: new_table_def initial_world_def example_world_def)
  ultimately show ?thesis using wr_step[OF wr_step[OF wr_initial 1]] by simp
qed

lemma example_table_in: "example_table \<in> set (w_tables example_world)" "vm_sh example_vm = example_heap" "w_vm example_world = example_vm"
  by (simp_all add: example_world_def example_vm_def)

lemma example_table_room: "hc_room example_heap example_table" "put_room example_env example_heap example_table k" "setmt_room example_heap example_table"
  "removemt_room example_heap example_table" "\<not> arr_limit example_vm example_table"
proof -
  show "hc_room example_heap example_table" "put_room example_env example_heap example_table k" "removemt_room example_heap example_table"
    using example_room by (simp_all add: hc_room_def put_room_def removemt_room_def example_table_def)
  show "setmt_room example_heap example_table"
  proof (rule example_struct)
    fix s assume "sh_structs example_heap 24 = Some s" "m_parentEdgeTransitionKind s = BadTransitionKind"
    then show ?thesis using example_room by (simp add: setmt_room_def example_table_def struct_at_def)
  qed
  show "\<not> arr_limit example_vm example_table"
    by (simp add: arr_limit_def example_vm_def x_vmBaseOffset_def x_vmUserHeapSize_def sizeof_ArraySparseMap_def example_table_def blank_def)
qed

lemma example_key: "good_key example_env True (- 1073741824)"
  by (simp add: good_key_def example_env_def user_ptr_def)

end
