(* ===== verification/TableLength.thy ===== *)
theory TableLength
  imports TableArrayPut
begin

unbundle bit_operations_syntax

text \<open>
  The length operator of \<open>src/runtime/table_object.h\<close>: the fast path that reads the array type, the binary search in the
  vector, and the search that goes on in the sparse map. The loops are partial functions; \<open>length_ok\<close> shows that on every
  table whose array part satisfies its invariant the operator returns, and that what it returns is a border.
\<close>

section \<open>The length operator\<close>

text \<open>A 32-bit index converted to a double, as a key of the sparse map.\<close>

definition index_key :: "nat \<Rightarrow> double" where
  "index_key n = int64_to_double (word_of_int (int n))"

text \<open>
  The two binary searches differ in how they compute the middle; \<open>rd\<close> reads a slot. The recursion has no
  termination proof of its own: a search that does not return has the value \<open>None\<close>.
\<close>

partial_function (option) border_search :: "(nat \<Rightarrow> nat \<Rightarrow> nat) \<Rightarrow> (nat \<Rightarrow> tvalue option) \<Rightarrow> nat \<Rightarrow> nat \<Rightarrow> nat option" where
  "border_search midpoint rd lb ub =
     (if lb + 1 < ub then
        (let mid = midpoint lb ub in
         case rd mid of None \<Rightarrow> None
         | Some v \<Rightarrow> if IsNil v then border_search midpoint rd lb mid else border_search midpoint rd mid ub)
      else Some lb)"

definition uint32_max :: nat where "uint32_max = 2 ^ 32 - 1"

partial_function (option) linear_search :: "(nat \<Rightarrow> tvalue option) \<Rightarrow> nat \<Rightarrow> nat option" where
  "linear_search rd cur =
     (if cur < uint32_max then
        (case rd (cur + 1) of None \<Rightarrow> None | Some v \<Rightarrow> if IsNil v then Some cur else linear_search rd (cur + 1))
      else Some cur)"

text \<open>The search for an upper bound: \<open>Inl\<close> is the result of the linear fallback, \<open>Inr\<close> the bound.\<close>

partial_function (option) gallop :: "(nat \<Rightarrow> tvalue option) \<Rightarrow> nat \<Rightarrow> nat \<Rightarrow> (nat + nat) option" where
  "gallop rd existentLb ub =
     (if ub \<ge> uint32_max div 2 then (case linear_search rd existentLb of None \<Rightarrow> None | Some cur \<Rightarrow> Some (Inl cur))
      else let ub = (ub + 1) div 2 * 3 in
           case rd ub of None \<Rightarrow> None | Some v \<Rightarrow> if IsNil v then Some (Inr ub) else gallop rd existentLb ub)"

definition GetTableLengthWithLuaSemanticsSlowPathSlowPath :: "vm_env \<Rightarrow> sparse_map \<Rightarrow> nat \<Rightarrow> nat option" where
  "GetTableLengthWithLuaSemanticsSlowPathSlowPath env sparseMap existentLb =
     (let rd = (\<lambda>i. GetByVal env sparseMap (index_key i)) in
      case gallop rd existentLb existentLb of None \<Rightarrow> None
      | Some (Inl cur) \<Rightarrow> Some cur
      | Some (Inr ub) \<Rightarrow> border_search (\<lambda>lb ub. (lb + ub) mod 2 ^ 64 div 2) rd existentLb ub)"

definition GetTableLengthWithLuaSemanticsSlowPath :: "vm_env \<Rightarrow> table_object \<Rightarrow> nat option" where
  "GetTableLengthWithLuaSemanticsSlowPath env self =
     (let arrType = t_arrayType self;
          tv = (\<lambda>i. bf_GetInVectorIndex (the (t_butterfly self)) (word_of_int (int i)));
          arrayStorageCap = unat (m_arrayStorageCapacity (t_header self))
      in if arrayStorageCap > 0 then
           if IsNil (tv 1) then Some 0
           else if IsNil (tv arrayStorageCap)
             then border_search (\<lambda>lb ub. (lb + ub) mod 2 ^ 32 div 2) (\<lambda>i. Some (tv i)) 1 arrayStorageCap
           else if HasSparseMap arrType
             then GetTableLengthWithLuaSemanticsSlowPathSlowPath env (the (t_sparseMap self)) arrayStorageCap
           else Some arrayStorageCap
         else if \<not> HasSparseMap arrType then Some 0
         else case GetByVal env (the (t_sparseMap self)) (index_key 1) of None \<Rightarrow> None
           | Some val \<Rightarrow> if IsNil val then Some 0
                        else GetTableLengthWithLuaSemanticsSlowPathSlowPath env (the (t_sparseMap self)) 1)"

definition TryGetTableLengthWithLuaSemanticsFastPath :: "table_object \<Rightarrow> nat option" where
  "TryGetTableLengthWithLuaSemanticsFastPath self =
     (let arrType = t_arrayType self in
      if IsContinuous arrType then Some (unat (m_arrayLengthIfContinuous (t_header self) - 1 + of_int x_arrayBaseOrd))
      else if ArrayKind arrType = NoButterflyArrayPart then Some 0
      else None)"

definition GetTableLengthWithLuaSemantics :: "vm_env \<Rightarrow> table_object \<Rightarrow> nat option" where
  "GetTableLengthWithLuaSemantics env self =
     (case TryGetTableLengthWithLuaSemanticsFastPath self of
        Some len \<Rightarrow> Some len
      | None \<Rightarrow> GetTableLengthWithLuaSemanticsSlowPath env self)"

section \<open>The searches find a border\<close>

lemma border_search_ok:
  assumes "lb < ub" "\<And>l u. l < u \<Longrightarrow> u \<le> ub \<Longrightarrow> midpoint l u = (l + u) div 2" "\<And>i. lb < i \<Longrightarrow> i < ub \<Longrightarrow> rd i = Some (f i)"
  shows "\<exists>n. border_search midpoint rd lb ub = Some n \<and> lb \<le> n \<and> n < ub \<and> (n = lb \<or> \<not> IsNil (f n)) \<and> (n + 1 = ub \<or> IsNil (f (n + 1)))"
  using assms
proof (induction "ub - lb" arbitrary: lb ub rule: less_induct)
  case less
  show ?case
  proof (cases "lb + 1 < ub")
    case False
    then have "border_search midpoint rd lb ub = Some lb" "ub = lb + 1" using less(2) by (simp_all add: border_search.simps)
    then show ?thesis by auto
  next
    case True
    let ?m = "(lb + ub) div 2"
    have m: "lb < ?m" "?m < ub" using True by auto
    have rd: "rd ?m = Some (f ?m)" using less(4) m by blast
    have step: "border_search midpoint rd lb ub = (if IsNil (f ?m) then border_search midpoint rd lb ?m else border_search midpoint rd ?m ub)"
      using True rd less(3)[of lb ub] less(2) by (simp add: border_search.simps[of _ _ lb ub] Let_def)
    show ?thesis
    proof (cases "IsNil (f ?m)")
      case T: True
      have "\<exists>n. border_search midpoint rd lb ?m = Some n \<and> lb \<le> n \<and> n < ?m \<and> (n = lb \<or> \<not> IsNil (f n)) \<and> (n + 1 = ?m \<or> IsNil (f (n + 1)))"
        using m less(3,4) by (intro less(1)) auto
      then show ?thesis using step T m by auto
    next
      case F: False
      have "\<exists>n. border_search midpoint rd ?m ub = Some n \<and> ?m \<le> n \<and> n < ub \<and> (n = ?m \<or> \<not> IsNil (f n)) \<and> (n + 1 = ub \<or> IsNil (f (n + 1)))"
        using m less(3,4) by (intro less(1)) auto
      then show ?thesis using step F m by auto
    qed
  qed
qed

lemma linear_search_ok:
  assumes "cur \<le> uint32_max" "\<And>i. cur < i \<Longrightarrow> i \<le> uint32_max \<Longrightarrow> rd i = Some (f i)"
  shows "\<exists>n. linear_search rd cur = Some n \<and> cur \<le> n \<and> n \<le> uint32_max \<and> (n = cur \<or> \<not> IsNil (f n)) \<and> (n = uint32_max \<or> IsNil (f (n + 1)))"
  using assms
proof (induction "uint32_max - cur" arbitrary: cur rule: less_induct)
  case less
  show ?case
  proof (cases "cur < uint32_max")
    case False
    then have "cur = uint32_max" using less(2) by simp
    moreover have "linear_search rd cur = Some cur" using False by (simp add: linear_search.simps[of rd cur])
    ultimately show ?thesis by auto
  next
    case True
    have rd: "rd (cur + 1) = Some (f (cur + 1))" using less(3) True by simp
    show ?thesis
    proof (cases "IsNil (f (cur + 1))")
      case T: True
      then show ?thesis using rd True by (simp add: linear_search.simps[of rd cur])
    next
      case F: False
      have "\<exists>n. linear_search rd (cur + 1) = Some n \<and> cur + 1 \<le> n \<and> n \<le> uint32_max \<and> (n = cur + 1 \<or> \<not> IsNil (f n)) \<and> (n = uint32_max \<or> IsNil (f (n + 1)))"
        using True less(3) by (intro less(1)) auto
      moreover have "linear_search rd cur = linear_search rd (cur + 1)" using rd True F by (simp add: linear_search.simps[of rd cur])
      ultimately show ?thesis using F by auto
    qed
  qed
qed

lemma gallop_ok:
  assumes "0 < lb" "lb \<le> ub" "ub \<le> uint32_max" "\<And>i. lb < i \<Longrightarrow> i \<le> uint32_max \<Longrightarrow> rd i = Some (f i)"
  shows "(\<exists>n. gallop rd lb ub = Some (Inl n) \<and> lb \<le> n \<and> n \<le> uint32_max \<and> (n = lb \<or> \<not> IsNil (f n)) \<and> (n = uint32_max \<or> IsNil (f (n + 1)))) \<or>
    (\<exists>u. gallop rd lb ub = Some (Inr u) \<and> lb < u \<and> u \<le> uint32_max \<and> IsNil (f u))"
  using assms(2,3)
proof (induction "uint32_max - ub" arbitrary: ub rule: less_induct)
  case less
  show ?case
  proof (cases "ub \<ge> uint32_max div 2")
    case True
    have "lb \<le> uint32_max" using less by simp
    then show ?thesis using linear_search_ok[of lb rd f] assms(4) True by (auto simp: gallop.simps[of rd lb ub])
  next
    case False
    let ?u = "(ub + 1) div 2 * 3"
    have u: "ub < ?u" "?u \<le> uint32_max" "lb < ?u" using False assms(1) less(2) by (auto simp: uint32_max_def)
    have rd: "rd ?u = Some (f ?u)" using assms(4) u by blast
    show ?thesis
    proof (cases "IsNil (f ?u)")
      case T: True
      then show ?thesis using rd False u by (simp add: gallop.simps[of rd lb ub] Let_def)
    next
      case F: False
      then have "gallop rd lb ub = gallop rd lb ?u" using rd False by (simp add: gallop.simps[of rd lb ub] Let_def)
      then show ?thesis using less(1)[of ?u] u by simp
    qed
  qed
qed

lemma sparse_length_ok:
  assumes "0 < lb" "lb \<le> 2 ^ 27" "\<And>i. lb < i \<Longrightarrow> i \<le> uint32_max \<Longrightarrow> GetByVal env m (index_key i) = Some (f i)"
  shows "\<exists>n. GetTableLengthWithLuaSemanticsSlowPathSlowPath env m lb = Some n \<and> lb \<le> n \<and> n \<le> uint32_max \<and>
    (n = lb \<or> \<not> IsNil (f n)) \<and> (n = uint32_max \<or> IsNil (f (n + 1)))"
proof -
  let ?rd = "\<lambda>i. GetByVal env m (index_key i)"
  have le: "lb \<le> uint32_max" using assms(2) by (simp add: uint32_max_def)
  have "(\<exists>n. gallop ?rd lb lb = Some (Inl n) \<and> lb \<le> n \<and> n \<le> uint32_max \<and> (n = lb \<or> \<not> IsNil (f n)) \<and> (n = uint32_max \<or> IsNil (f (n + 1)))) \<or>
    (\<exists>u. gallop ?rd lb lb = Some (Inr u) \<and> lb < u \<and> u \<le> uint32_max \<and> IsNil (f u))"
    by (rule gallop_ok[OF assms(1) order_refl le]) (use assms(3) in blast)
  then show ?thesis
  proof
    assume "\<exists>n. gallop ?rd lb lb = Some (Inl n) \<and> lb \<le> n \<and> n \<le> uint32_max \<and> (n = lb \<or> \<not> IsNil (f n)) \<and> (n = uint32_max \<or> IsNil (f (n + 1)))"
    then show ?thesis by (auto simp: GetTableLengthWithLuaSemanticsSlowPathSlowPath_def Let_def)
  next
    assume "\<exists>u. gallop ?rd lb lb = Some (Inr u) \<and> lb < u \<and> u \<le> uint32_max \<and> IsNil (f u)"
    then obtain u where g: "gallop ?rd lb lb = Some (Inr u)" and u: "lb < u" "u \<le> uint32_max" "IsNil (f u)" by blast
    have "\<exists>n. border_search (\<lambda>lb ub. (lb + ub) mod 2 ^ 64 div 2) ?rd lb u = Some n \<and> lb \<le> n \<and> n < u \<and> (n = lb \<or> \<not> IsNil (f n)) \<and>
        (n + 1 = u \<or> IsNil (f (n + 1)))"
      using u assms(3) by (intro border_search_ok) (auto simp: uint32_max_def)
    then show ?thesis using g u by (auto simp: GetTableLengthWithLuaSemanticsSlowPathSlowPath_def Let_def)
  qed
qed

section \<open>The length of a table is a border\<close>

lemma index_key_index:
  assumes "n \<le> 2 ^ 32"
  shows "IsInt64Index (index_key n) = Some (word_of_int (int n))" "sint (word_of_int (int n) :: 64 word) = int n"
    "float_norm (index_key n) = index_key n" "\<not> IsNaN (index_key n)"
proof -
  have n: "int n \<le> 4294967296" using assms by simp
  show s: "sint (word_of_int (int n) :: 64 word) = int n" using n by (intro sint_word_of_int_range) simp_all
  have "exact_index (word_of_int (int n))" by (rule exact_index_small) (use s n in simp)
  then show i: "IsInt64Index (index_key n) = Some (word_of_int (int n))" unfolding index_key_def by (rule exact_index_IsInt64Index)
  show "float_norm (index_key n) = index_key n" using IsInt64Index_SomeD(1)[OF i] by (simp add: index_key_def)
  show "\<not> IsNaN (index_key n)" by (rule IsInt64Index_SomeD(2)[OF i])
qed

lemma arr_fun_index:
  assumes "0 < n" "n \<le> 2 ^ 32"
  shows "arr_fun xs g (index_key n) = (if n \<le> length xs then xs ! (n - 1) else g (index_key n))"
  using assms index_key_index[OF assms(2)] by (simp add: arr_fun_def vec_at_def nat_diff_distrib)

definition is_border :: "(nat \<Rightarrow> tvalue) \<Rightarrow> nat \<Rightarrow> bool" where
  "is_border f n \<longleftrightarrow> (n = 0 \<or> \<not> IsNil (f n)) \<and> (n = uint32_max \<or> IsNil (f (n + 1)))"

lemma sparse_get:
  assumes "sm_repr env m g" "n \<le> 2 ^ 32"
  shows "GetByVal env m (index_key n) = Some (g (index_key n))"
  using GetByVal_correct[OF assms(1) index_key_index(4)[OF assms(2)]] index_key_index(3)[OF assms(2)] by simp

lemma slow_length_ok:
  assumes ok: "arr_ok env t g" and k: "ArrayKind (t_arrayType t) \<noteq> NoButterflyArrayPart"
  shows "\<exists>n. GetTableLengthWithLuaSemanticsSlowPath env t = Some n \<and> n \<le> uint32_max \<and> is_border (\<lambda>i. arr_fun (t_vec t) g (index_key i)) n"
proof -
  let ?at = "t_arrayType t" and ?F = "\<lambda>i. arr_fun (t_vec t) g (index_key i)"
  obtain b where b: "t_butterfly t = Some b" using arr_okD(2)[OF ok] k by (auto simp: bf_ok_def split: option.splits)
  have bo: "bf_ok ?at (Some b)" using arr_okD(2)[OF ok] b by simp
  define cap where "cap = length (bf_vector b)"
  have cap: "unat (m_arrayStorageCapacity (t_header t)) = cap" "t_vec t = bf_vector b" "cap \<le> 2 ^ 27"
    using bf_okD(1,2)[OF bo] b by (simp_all add: cap_def)
  have tv: "bf_GetInVectorIndex (the (t_butterfly t)) (word_of_int (int i)) = ?F i" if "0 < i" "i \<le> cap" for i
    using arr_fun_index[of i "t_vec t" g] index_key_index(2)[of i] that cap
    by (simp add: bf_GetInVectorIndex_def bf_vec_pos_def b x_arrayBaseOrd_def cap_def nat_diff_distrib)
  have out: "?F i = g (index_key i)" if "cap < i" "i \<le> 2 ^ 32" for i using arr_fun_index[of i "t_vec t" g] that cap by (simp add: cap_def)
  have none: "g x = Nil" if "\<not> HasSparseMap ?at" for x using sparse_none[OF arr_okD(3)[OF ok] that] by simp
  have mx: "uint32_max < 2 ^ 32" "cap < uint32_max" "0 < uint32_max" using cap(3) by (simp_all add: uint32_max_def)
  have sparse: "\<exists>n. GetTableLengthWithLuaSemanticsSlowPathSlowPath env (the (t_sparseMap t)) lb = Some n \<and> n \<le> uint32_max \<and> is_border ?F n"
    if hs: "HasSparseMap ?at" and lb: "0 < lb" "cap \<le> lb" "lb \<le> 2 ^ 27" "\<not> IsNil (?F lb)" for lb
  proof -
    obtain m where m: "t_sparseMap t = Some m" "sm_repr env m g" using sparse_some[OF arr_okD(3)[OF ok] hs] by blast
    have "GetByVal env m (index_key i) = Some (?F i)" if "lb < i" "i \<le> uint32_max" for i
      using sparse_get[OF m(2), of i] out[of i] that lb(2) mx by simp
    from sparse_length_ok[OF lb(1,3) this] obtain n where n: "GetTableLengthWithLuaSemanticsSlowPathSlowPath env m lb = Some n" "lb \<le> n" "n \<le> uint32_max"
      "n = lb \<or> \<not> IsNil (?F n)" "n = uint32_max \<or> IsNil (?F (n + 1))" by blast
    then show ?thesis using m(1) lb(4) unfolding is_border_def by auto
  qed
  consider (empty) "cap = 0" | (first) "0 < cap" "IsNil (?F 1)" | (search) "0 < cap" "\<not> IsNil (?F 1)" "IsNil (?F cap)"
    | (full) "0 < cap" "\<not> IsNil (?F 1)" "\<not> IsNil (?F cap)" by linarith
  then show ?thesis
  proof cases
    case first
    then show ?thesis using tv[of 1] by (simp add: GetTableLengthWithLuaSemanticsSlowPath_def Let_def cap is_border_def)
  next
    case search
    then have "1 < cap" by (cases "cap = 1") auto
    then have "\<exists>n. border_search (\<lambda>lb ub. (lb + ub) mod 2 ^ 32 div 2) (\<lambda>i. Some (bf_GetInVectorIndex (the (t_butterfly t)) (word_of_int (int i)))) 1 cap = Some n \<and>
        1 \<le> n \<and> n < cap \<and> (n = 1 \<or> \<not> IsNil (?F n)) \<and> (n + 1 = cap \<or> IsNil (?F (n + 1)))"
      using cap(3) tv by (intro border_search_ok) auto
    then show ?thesis using search tv[of 1] tv[of cap] mx
      by (auto simp: GetTableLengthWithLuaSemanticsSlowPath_def Let_def cap is_border_def)
  next
    case full
    show ?thesis
    proof (cases "HasSparseMap ?at")
      case True
      then show ?thesis using sparse[OF True full(1) order_refl cap(3) full(3)] full tv[of 1] tv[of cap]
        by (simp add: GetTableLengthWithLuaSemanticsSlowPath_def Let_def cap)
    next
      case False
      have "?F (cap + 1) = Nil" using out[of "cap + 1"] none[OF False] mx by simp
      then show ?thesis using False full tv[of 1] tv[of cap] mx
        by (simp add: GetTableLengthWithLuaSemanticsSlowPath_def Let_def cap is_border_def IsNil_def)
    qed
  next
    case empty
    show ?thesis
    proof (cases "HasSparseMap ?at")
      case True
      obtain m where m: "t_sparseMap t = Some m" "sm_repr env m g" using sparse_some[OF arr_okD(3)[OF ok] True] by blast
      have g1: "GetByVal env m (index_key 1) = Some (?F 1)" using sparse_get[OF m(2), of 1] out[of 1] empty by simp
      show ?thesis
      proof (cases "IsNil (?F 1)")
        case T: True
        then show ?thesis using True empty m g1 by (simp add: GetTableLengthWithLuaSemanticsSlowPath_def Let_def cap is_border_def)
      next
        case F: False
        then show ?thesis using sparse[OF True, of 1] True empty m g1 by (simp add: GetTableLengthWithLuaSemanticsSlowPath_def Let_def cap)
      qed
    next
      case False
      have "?F 1 = Nil" using out[of 1] none[OF False] empty by simp
      then show ?thesis using False empty by (simp add: GetTableLengthWithLuaSemanticsSlowPath_def Let_def cap is_border_def IsNil_def)
    qed
  qed
qed

lemma length_ok:
  assumes ok: "arr_ok env t g"
  shows "\<exists>n. GetTableLengthWithLuaSemantics env t = Some n \<and> n \<le> uint32_max \<and> is_border (\<lambda>i. arr_fun (t_vec t) g (index_key i)) n"
proof -
  let ?at = "t_arrayType t" and ?F = "\<lambda>i. arr_fun (t_vec t) g (index_key i)"
  consider (cont) "IsContinuous ?at" | (none) "\<not> IsContinuous ?at" "ArrayKind ?at = NoButterflyArrayPart"
    | (slow) "\<not> IsContinuous ?at" "ArrayKind ?at \<noteq> NoButterflyArrayPart" by blast
  then show ?thesis
  proof cases
    case slow
    then show ?thesis using slow_length_ok[OF ok]
      by (simp add: GetTableLengthWithLuaSemantics_def TryGetTableLengthWithLuaSemanticsFastPath_def Let_def)
  next
    case none
    then show ?thesis using no_array_nil(1)[OF ok none(2)]
      by (simp add: GetTableLengthWithLuaSemantics_def TryGetTableLengthWithLuaSemanticsFastPath_def Let_def is_border_def IsNil_def)
  next
    case cont
    obtain b where b: "t_butterfly t = Some b" using arr_okD(2)[OF ok] cont by (auto simp: bf_ok_def split: option.splits)
    have bo: "bf_ok ?at (Some b)" using arr_okD(2)[OF ok] b by simp
    note v = bf_okD(3)[OF bo]
    let ?l = "m_arrayLengthIfContinuous (bf_header b)"
    have k: "ArrayKind ?at \<noteq> NoButterflyArrayPart" using vec_okD(2)[OF v] cont by blast
    have l: "0 \<le> sint ?l" "sint ?l \<le> int (length (bf_vector b))" using vec_okD(4,6)[OF v cont] by auto
    have u: "int (unat ?l) = sint ?l" using l(1) uint_lt2p[of ?l] by (simp add: sint_cases split: if_splits)
    have nz: "\<not> IsNil (bf_vector b ! i) \<longleftrightarrow> i < unat ?l" if "i < length (bf_vector b)" for i
      using vec_okD(5)[OF v cont that] u by linarith
    have le: "unat ?l \<le> length (bf_vector b)" "length (bf_vector b) \<le> 2 ^ 27" using l(2) u bf_okD(2)[OF bo] by linarith+
    have hs: "\<not> HasSparseMap ?at" using vec_okD(3)[OF v k] l(1) by auto
    have "IsNil (?F (unat ?l + 1))"
    proof (cases "unat ?l < length (bf_vector b)")
      case True
      then show ?thesis using arr_fun_index[of "unat ?l + 1" "t_vec t" g] nz[OF True] le b by simp
    next
      case False
      then show ?thesis using arr_fun_index[of "unat ?l + 1" "t_vec t" g] le b sparse_none[OF arr_okD(3)[OF ok] hs] by (simp add: IsNil_def)
    qed
    moreover have "unat ?l = 0 \<or> \<not> IsNil (?F (unat ?l))"
      using arr_fun_index[of "unat ?l" "t_vec t" g] nz[of "unat ?l - 1"] le b by (cases "unat ?l = 0") simp_all
    moreover have "unat ?l \<le> uint32_max" using le by (simp add: uint32_max_def)
    ultimately show ?thesis using cont b
      by (simp add: GetTableLengthWithLuaSemantics_def TryGetTableLengthWithLuaSemanticsFastPath_def Let_def is_border_def x_arrayBaseOrd_def)
  qed
qed

end
