(* ===== verification/TableProps.thy ===== *)
theory TableProps
  imports TableWorld TableLength
begin

unbundle bit_operations_syntax

text \<open>
  The properties of tables, stated over the operations of the code in the reachable states of a virtual machine.
\<close>

section \<open>Properties of tables\<close>

text \<open>
  C1. In every state that the operations can reach, writing a value at a number key succeeds unless a resource limit is reached, whatever
  the array part looks like: in the vector, past its end, into the sparse map, with a change of the array type. Reading any number key
  afterwards gives the new value if the key compares equal to the written one and the old value otherwise; the named properties
  and the metatable stay the same.
\<close>

theorem array_get_put:
  assumes "world_reach env w" "t \<in> set (w_tables w)" "hc_room (vm_sh (w_vm w)) t" "\<not> arr_limit (w_vm w) t" "\<not> IsNaN d"
  shows "\<exists>vm' t'. RawPutByValDoubleIndex env (w_vm w) t d v = Some (vm', t') \<and>
    (\<forall>x. \<not> IsNaN x \<longrightarrow> GetByDoubleVal env t' x (PrepareGetByIntegerIndex t') =
       (if UnsafeFloatEqual d x then Some v else GetByDoubleVal env t x (PrepareGetByIntegerIndex t))) \<and>
    (\<forall>str k. good_key env str k \<longrightarrow>
       RawGetPropertyFromTableObject env (vm_sh vm') str t' k = RawGetPropertyFromTableObject env (vm_sh (w_vm w)) str t k) \<and>
    gm_result (GetMetatable (vm_sh vm') t') = gm_result (GetMetatable (vm_sh (w_vm w)) t)"
proof -
  obtain K C ks g where W: "wf_theap env (vm_sh (w_vm w)) K C" and ok: "table_inv env (w_vm w) K t ks g"
    by (rule reach_table[OF assms(1,2)])
  obtain vm' t' where p: "RawPutByValDoubleIndex env (w_vm w) t d v = Some (vm', t')" and R: "array_result env (w_vm w) K t ks g d v vm' t'"
    using array_put_ok[OF W ok assms(3,5), of v] assms(4) by (auto split: option.splits)
  then have "mt_of (vm_sh vm') t' = mt_of (vm_sh (w_vm w)) t" unfolding array_result_def by blast
  then show ?thesis using p array_result_reads[OF W ok R] assms(5) unfolding mt_of_def by blast
qed

theorem array_get_put_witness:
  "\<exists>vm' t'. RawPutByValDoubleIndex example_env example_vm example_table 0x3FF0000000000000 7 = Some (vm', t') \<and>
    GetByDoubleVal example_env t' 0x3FF0000000000000 (PrepareGetByIntegerIndex t') = Some 7"
proof -
  have n: "\<not> IsNaN 0x3FF0000000000000" by code_simp
  then show ?thesis
    using array_get_put[OF example_world_reach example_table_in(1), unfolded example_table_in(2,3), OF example_table_room(1,5) n, of 7]
    by (auto simp: UnsafeFloatEqual_norm)
qed

text \<open>
  C2. In every state that the operations can reach, writing a named property succeeds unless a limit of the heap is reached, be the key
  in the hidden class already, be it added by a transition to another structure, by the move to a dictionary or to a dictionary. Reading a
  named property afterwards gives the new value for this key and the old value for every other key; the array part and the metatable
  stay the same.
\<close>

theorem named_get_put:
  assumes "world_reach env w" "t \<in> set (w_tables w)" "put_room env (vm_sh (w_vm w)) t key" "good_key env str key"
  shows "\<exists>vm' t'. InsertField env (w_vm w) str t key v = Some (vm', t') \<and>
    (\<forall>str' k. good_key env str' k \<longrightarrow> RawGetPropertyFromTableObject env (vm_sh vm') str' t' k =
       (if k = key then Some v else RawGetPropertyFromTableObject env (vm_sh (w_vm w)) str' t k)) \<and>
    (\<forall>x. \<not> IsNaN x \<longrightarrow> GetByDoubleVal env t' x (PrepareGetByIntegerIndex t') = GetByDoubleVal env t x (PrepareGetByIntegerIndex t)) \<and>
    gm_result (GetMetatable (vm_sh vm') t') = gm_result (GetMetatable (vm_sh (w_vm w)) t)"
proof -
  obtain K C ks g where W: "wf_theap env (vm_sh (w_vm w)) K C" and ok: "table_inv env (w_vm w) K t ks g"
    by (rule reach_table[OF assms(1,2)])
  obtain vm' t' where p: "InsertField env (w_vm w) str t key v = Some (vm', t')"
    and R: "named_result env (w_vm w) K t g ((named_fun ks (t_slots t))(key := v)) (mt_of (vm_sh (w_vm w)) t) vm' t'"
    using InsertField_ok[OF W ok assms(4,3), of v] by blast
  have "mt_of (vm_sh vm') t' = mt_of (vm_sh (w_vm w)) t" using R unfolding named_result_def by blast
  then show ?thesis using p named_result_get[OF W R] named_result_array[OF ok R] named_get_inv[OF W ok]
    by (intro exI[of _ vm'] exI[of _ t']) (auto simp: mt_of_def)
qed

theorem named_get_put_witness:
  "\<exists>vm' t'. InsertField example_env example_vm True example_table (- 1073741824) 7 = Some (vm', t') \<and>
    RawGetPropertyFromTableObject example_env (vm_sh vm') True t' (- 1073741824) = Some 7"
  using named_get_put[OF example_world_reach example_table_in(1), unfolded example_table_in(2,3), OF example_table_room(2) example_key, of 7]
    example_key by fastforce

text \<open>
  C3. Setting a metatable in a reachable state succeeds while the system heap has room; the table then has this metatable, be
  it recorded in the structure, in the metatable slot or in the dictionary, and every property of the table is as before.
\<close>

theorem metatable_set_get:
  assumes "world_reach env w" "t \<in> set (w_tables w)" "setmt_room (vm_sh (w_vm w)) t" "user_ptr m"
  shows "\<exists>vm' t'. t_SetMetatable env (w_vm w) t m = Some (vm', t') \<and> gm_result (GetMetatable (vm_sh vm') t') = m \<and>
    (\<forall>str k. good_key env str k \<longrightarrow>
       RawGetPropertyFromTableObject env (vm_sh vm') str t' k = RawGetPropertyFromTableObject env (vm_sh (w_vm w)) str t k) \<and>
    (\<forall>x. \<not> IsNaN x \<longrightarrow> GetByDoubleVal env t' x (PrepareGetByIntegerIndex t') = GetByDoubleVal env t x (PrepareGetByIntegerIndex t))"
proof -
  obtain K C ks g where W: "wf_theap env (vm_sh (w_vm w)) K C" and ok: "table_inv env (w_vm w) K t ks g"
    by (rule reach_table[OF assms(1,2)])
  obtain vm' t' where p: "t_SetMetatable env (w_vm w) t m = Some (vm', t')"
    and R: "named_result env (w_vm w) K t g (named_fun ks (t_slots t)) m vm' t'"
    using t_SetMetatable_ok[OF W ok assms(4,3)] by blast
  have "mt_of (vm_sh vm') t' = m" using R unfolding named_result_def by blast
  then show ?thesis using p named_result_get[OF W R] named_result_array[OF ok R] named_get_inv[OF W ok]
    by (intro exI[of _ vm'] exI[of _ t']) (auto simp: mt_of_def)
qed

theorem metatable_set_get_witness:
  "\<exists>vm' t'. t_SetMetatable example_env example_vm example_table (- 600000000) = Some (vm', t') \<and>
    gm_result (GetMetatable (vm_sh vm') t') = - 600000000"
proof -
  have "user_ptr (- 600000000)" by (simp add: user_ptr_def)
  then show ?thesis
    using metatable_set_get[OF example_world_reach example_table_in(1), unfolded example_table_in(2,3), OF example_table_room(3)] by blast
qed

text \<open>
  C10. Removing the metatable in a reachable state succeeds while the system heap has room; the table then has no metatable and
  every property of the table is as before.
\<close>

theorem metatable_remove_get:
  assumes "world_reach env w" "t \<in> set (w_tables w)" "removemt_room (vm_sh (w_vm w)) t"
  shows "\<exists>vm' t'. t_RemoveMetatable env (w_vm w) t = Some (vm', t') \<and> gm_result (GetMetatable (vm_sh vm') t') = 0 \<and>
    (\<forall>str k. good_key env str k \<longrightarrow>
       RawGetPropertyFromTableObject env (vm_sh vm') str t' k = RawGetPropertyFromTableObject env (vm_sh (w_vm w)) str t k) \<and>
    (\<forall>x. \<not> IsNaN x \<longrightarrow> GetByDoubleVal env t' x (PrepareGetByIntegerIndex t') = GetByDoubleVal env t x (PrepareGetByIntegerIndex t))"
proof -
  obtain K C ks g where W: "wf_theap env (vm_sh (w_vm w)) K C" and ok: "table_inv env (w_vm w) K t ks g"
    by (rule reach_table[OF assms(1,2)])
  obtain vm' t' where p: "t_RemoveMetatable env (w_vm w) t = Some (vm', t')"
    and R: "named_result env (w_vm w) K t g (named_fun ks (t_slots t)) 0 vm' t'"
    using t_RemoveMetatable_ok[OF W ok assms(3)] by blast
  have "mt_of (vm_sh vm') t' = 0" using R unfolding named_result_def by blast
  then show ?thesis using p named_result_get[OF W R] named_result_array[OF ok R] named_get_inv[OF W ok]
    by (intro exI[of _ vm'] exI[of _ t']) (auto simp: mt_of_def)
qed

theorem metatable_remove_get_witness:
  "\<exists>vm' t'. t_RemoveMetatable example_env example_vm example_table = Some (vm', t') \<and> gm_result (GetMetatable (vm_sh vm') t') = 0"
  using metatable_remove_get[OF example_world_reach example_table_in(1), unfolded example_table_in(2,3), OF example_table_room(4)] by blast


lemma example_step:
  "world_step example_env example_world (example_world\<lparr>w_vm := (w_vm example_world)\<lparr>vm_sh := fst (the (CreateInitialStructure example_heap 2))\<rparr>\<rparr>)"
proof -
  obtain K C where W: "wf_theap example_env example_heap K C" using struct_reach_invariant[OF example_reach] by blast
  have "sh_next example_heap + 48 < 2 ^ 32" using example_room by (simp add: query_room_def)
  moreover have "2 \<le> x_maxNumSlots" by (simp add: x_maxNumSlots_def)
  ultimately obtain sh' r where "CreateInitialStructure example_heap 2 = Some (sh', r)"
    using CreateInitialStructure_correct[OF W] by blast
  then show ?thesis by (intro ws_structure[of _ 2 _ r]) (simp_all add: example_table_in x_maxNumSlots_def)
qed


text \<open>
  C13. Inline caching of reads is sound: the information computed once for a structure is the information that would be
  computed in any later state of the program, and used on any table that has this structure then, it reads the property.
\<close>

theorem get_ic_stays_valid:
  assumes "world_reach env w" "t \<in> set (w_tables w)" "t_hiddenClass t = HStructure p" "good_key env str key"
    "PrepareGetById env (vm_sh (w_vm w)) str t key = Some info"
    "(world_step env)\<^sup>*\<^sup>* w w'" "t' \<in> set (w_tables w')" "t_hiddenClass t' = HStructure p"
  shows "PrepareGetById env (vm_sh (w_vm w')) str t' key = Some info \<and>
    (\<exists>v. GetById t' info = Some v \<and> RawGetPropertyFromTableObject env (vm_sh (w_vm w')) str t' key = Some v)"
proof -
  obtain K C where ok: "world_ok env K C w" using world_reach_ok[OF assms(1)] by blast
  obtain ks g where t: "table_inv env (w_vm w) K t ks g" using world_okD(3)[OF ok assms(2)] by blast
  obtain K' C' where s: "transits env (vm_sh (w_vm w)) K (vm_sh (w_vm w')) K' C'" "world_ok env K' C' w'"
    using steps_frame[OF assms(6) ok] by blast
  obtain ks' g' where t': "table_inv env (w_vm w') K' t' ks' g'" using world_okD(3)[OF s(2) assms(7)] by blast
  obtain sp where "sh_structs (vm_sh (w_vm w)) p = Some sp"
    using named_okD(1)[OF table_invD(2)[OF t]] assms(3) by (auto simp: hc_keys_def)
  from PrepareGet_stable[OF world_okD(1)[OF ok] s(1) this assms(4)] have "PrepareGetById env (vm_sh (w_vm w')) str t' key = Some info"
    using assms(3,5,8) by (simp add: PrepareGetById_def)
  then show ?thesis using GetById_ok[OF world_okD(1)[OF s(2)] table_invD(2)[OF t'] assms(4)] by (auto simp: RawGetPropertyFromTableObject_def)
qed

theorem get_ic_stays_valid_witness:
  "\<exists>info. PrepareGetById example_env example_heap True example_table (- 1073741824) = Some info \<and>
    PrepareGetById example_env (fst (the (CreateInitialStructure example_heap 2))) True example_table (- 1073741824) = Some info"
proof -
  obtain K C ks g where W: "wf_theap example_env (vm_sh (w_vm example_world)) K C" and ok: "table_inv example_env (w_vm example_world) K example_table ks g"
    by (rule reach_table[OF example_world_reach example_table_in(1)])
  obtain info where info: "PrepareGetById example_env (vm_sh (w_vm example_world)) True example_table (- 1073741824) = Some info"
    using GetById_ok[OF W table_invD(2)[OF ok] example_key] by blast
  have h: "t_hiddenClass example_table = HStructure 24" by (simp add: example_table_def)
  show ?thesis
    using get_ic_stays_valid[OF example_world_reach example_table_in(1) h example_key info r_into_rtranclp[of "world_step example_env", OF example_step] _ h] info
    by (auto simp: example_table_in example_world_def)
qed



text \<open>
  The metatable flag of the array type is conservative: a reachable table whose flag is off has no metatable, so an access
  that finds the flag off may skip the metatable.
\<close>

theorem MayHaveMetatable_sound:
  assumes "world_reach env w" "t \<in> set (w_tables w)" "\<not> MayHaveMetatable (t_arrayType t)"
  shows "gm_result (GetMetatable (vm_sh (w_vm w)) t) = 0"
proof -
  obtain K C ks g where W: "wf_theap env (vm_sh (w_vm w)) K C" and ok: "table_inv env (w_vm w) K t ks g"
    by (rule reach_table[OF assms(1,2)])
  show ?thesis
  proof (cases "t_hiddenClass t")
    case (HStructure p)
    obtain s where s: "sh_structs (vm_sh (w_vm w)) p = Some s" "m_arrayType s = t_arrayType t"
      using arr_invD(2)[OF table_invD(1)[OF ok]] HStructure by (auto simp: hc_type_ok_def)
    then have "m_metatable s = 0" using struct_fields(5)[OF W s(1)] assms(3) by (auto simp: sem_ok_def)
    then show ?thesis using s(1) by (simp add: GetMetatable_def HStructure struct_at_def HasNoMetatable_def)
  next
    case (HDictionary p d)
    then show ?thesis using table_invD(3)[OF ok] assms(3) by (simp add: mt_flag_ok_def GetMetatable_def)
  qed
qed

theorem MayHaveMetatable_sound_witness: "gm_result (GetMetatable example_heap example_table) = 0"
proof -
  have "\<not> MayHaveMetatable (t_arrayType example_table)" using initial_array_type(5) by (simp add: example_table_def)
  from MayHaveMetatable_sound[OF example_world_reach example_table_in(1) this] show ?thesis by (simp add: example_table_in)
qed

text \<open>
  C23. A shallow clone of a reachable table has the same value as the original at every named and every number key and the same metatable.
\<close>

theorem ShallowClone_reads:
  assumes "world_reach env w" "t \<in> set (w_tables w)" "ShallowCloneTableObject (w_vm w) t = Some (vm', t')"
  shows "(\<forall>str k. good_key env str k \<longrightarrow>
       RawGetPropertyFromTableObject env (vm_sh vm') str t' k = RawGetPropertyFromTableObject env (vm_sh (w_vm w)) str t k) \<and>
    (\<forall>x. \<not> IsNaN x \<longrightarrow> GetByDoubleVal env t' x (PrepareGetByIntegerIndex t') = GetByDoubleVal env t x (PrepareGetByIntegerIndex t)) \<and>
    gm_result (GetMetatable (vm_sh vm') t') = gm_result (GetMetatable (vm_sh (w_vm w)) t)"
proof -
  obtain K C ks g where W: "wf_theap env (vm_sh (w_vm w)) K C" and ok: "table_inv env (w_vm w) K t ks g"
    by (rule reach_table[OF assms(1,2)])
  note S = ShallowClone_ok[OF W ok assms(3)]
  have W': "wf_theap env (vm_sh vm') K C" using S(1) by (simp add: transits_def)
  show ?thesis using named_get_inv[OF W ok] named_get_inv[OF W' S(2)] array_get_inv[OF ok] array_get_inv[OF S(2)] S(4,5,6)
    by (simp add: mt_of_def)
qed

lemma example_clone: "\<exists>vm' t'. ShallowCloneTableObject example_vm example_table = Some (vm', t')"
  by (simp add: ShallowCloneTableObject_def example_table_def blank_def CloneButterfly_def GrowButterflyFromNull_def bh_HasSparseMap_def AllocFromUserHeap_def example_vm_def Let_def hc_inlineNamedStorageCapacity_def
      example_inline ComputeObjectAllocationSize_def x_vmBaseOffset_def x_vmUserHeapSize_def)

theorem ShallowClone_reads_witness:
  "\<exists>vm' t'. ShallowCloneTableObject example_vm example_table = Some (vm', t') \<and>
    gm_result (GetMetatable (vm_sh vm') t') = gm_result (GetMetatable example_heap example_table)"
  using ShallowClone_reads[OF example_world_reach example_table_in(1), unfolded example_table_in(2,3)] example_clone by blast

text \<open>
  Under the assumptions it documents (a structure without outlined named storage, no sparse map, and arguments that describe the
  table), the specialised clone of the \<^verbatim>\<open>TableDup\<close> instructions does exactly what the general clone does, allocation failure included.
\<close>

theorem TableDup_clone_equiv:
  assumes "world_reach env w" "t \<in> set (w_tables w)" "t_hiddenClass t = HStructure p"
    "m_butterflyNamedStorageCapacity (struct_at (vm_sh (w_vm w)) p) = 0" "\<not> HasSparseMap (t_arrayType t)"
  shows "ShallowCloneTableObjectForTableDup (w_vm w) t (m_inlineNamedStorageCapacity (struct_at (vm_sh (w_vm w)) p)) (t_butterfly t \<noteq> None) =
    ShallowCloneTableObject (w_vm w) t"
proof -
  obtain K C ks g where W: "wf_theap env (vm_sh (w_vm w)) K C" and ok: "table_inv env (w_vm w) K t ks g"
    by (rule reach_table[OF assms(1,2)])
  show ?thesis
    by (rule TableDup_clone[OF arr_invD(1)[OF table_invD(1)[OF ok]] table_invD(2)[OF ok] assms(3,4) refl assms(5) refl])
qed

theorem TableDup_clone_equiv_witness:
  "ShallowCloneTableObjectForTableDup example_vm example_table 4 True = ShallowCloneTableObject example_vm example_table"
  using TableDup_clone_equiv[OF example_world_reach example_table_in(1), unfolded example_table_in(2,3), of 24] example_inline initial_array_type(3)
  by (simp add: example_table_def blank_def)

section \<open>The inline-cached array write\<close>








section \<open>Length\<close>

lemma GetByDoubleVal_index:
  assumes "arr_ok env t g" "n \<le> 2 ^ 32"
  shows "GetByDoubleVal env t (index_key n) (PrepareGetByIntegerIndex t) = Some (arr_fun (t_vec t) g (index_key n))"
  using GetByDoubleVal_correct[OF assms(1) index_key_index(4)[OF assms(2)]] .

text \<open>
  C15. The length operator returns on every reachable table, the loops of its slow paths included, and what it returns is a border: \<open>n\<close>
  is zero or \<open>t[n]\<close> is not nil, and \<open>t[n + 1]\<close> is nil unless \<open>n\<close> is the largest 32-bit number.
\<close>

theorem table_length_border:
  assumes "world_reach env w" "t \<in> set (w_tables w)"
  shows "\<exists>n. GetTableLengthWithLuaSemantics env t = Some n \<and> n \<le> uint32_max \<and>
    (n = 0 \<or> (\<exists>v. GetByDoubleVal env t (index_key n) (PrepareGetByIntegerIndex t) = Some v \<and> \<not> IsNil v)) \<and>
    (n = uint32_max \<or> GetByDoubleVal env t (index_key (n + 1)) (PrepareGetByIntegerIndex t) = Some Nil)"
proof -
  obtain K C ks g where W: "wf_theap env (vm_sh (w_vm w)) K C" and ok: "table_inv env (w_vm w) K t ks g"
    by (rule reach_table[OF assms])
  note a = arr_invD(1)[OF table_invD(1)[OF ok]]
  obtain n where n: "GetTableLengthWithLuaSemantics env t = Some n" "n \<le> uint32_max"
    "is_border (\<lambda>i. arr_fun (t_vec t) g (index_key i)) n" using length_ok[OF a] by blast
  have "n \<le> 2 ^ 32" "n + 1 \<le> 2 ^ 32" using n(2) by (simp_all add: uint32_max_def)
  then show ?thesis using n GetByDoubleVal_index[OF a, of n] GetByDoubleVal_index[OF a, of "n + 1"]
    by (simp add: is_border_def IsNil_def)
qed

theorem table_length_border_witness: "\<exists>n. GetTableLengthWithLuaSemantics example_env example_table = Some n \<and> n \<le> uint32_max"
  using table_length_border[OF example_world_reach example_table_in(1)] by blast

text \<open>
  The kind of access for an array type, read from the table of two-bit fields packed into one 64-bit constant, is the kind that the
  case distinction of the reference function computes, for all 256 values of the byte.
\<close>

theorem icKind_table_correct:
  "ComputeGetByIntegerIndexIcKindFromArrayType a = NaiveComputeGetByIntegerIndexIcKindFromArrayType a"
  by (rule icKind_eq_naive)

section \<open>Preallocated array storage\<close>

lemma update_array_type_result:
  assumes "update_array_type env vm t a = Some (vm', t')"
  shows "t_arrayType t' = a" "t_butterfly t' = t_butterfly t"
  using assms by (auto simp: update_array_type_def split: option.splits hclass.splits if_splits)

lemma CreateEmptyTableObject_blank:
  assumes "CreateEmptyTableObject vm p n = Some (vm1, t)"
  shows "t = blank (HStructure p) (m_inlineNamedStorageCapacity (struct_at (vm_sh vm) p)) n" "vm_sh vm1 = vm_sh vm"
  using assms by (auto simp: CreateEmptyTableObject_def CreateEmptyTableObjectImpl_def AllocFromUserHeap_def blank_def Let_def
      split: option.splits if_splits)

lemma blank_sparse_put:
  assumes W: "wf_theap env (vm_sh vm) K C" and p: "empty_structure (vm_sh vm) p" and n: "0 < n"
    and room: "hc_room (vm_sh vm) (blank (HStructure p) c n)" and lim: "\<not> arr_limit vm (blank (HStructure p) c n)" and k: "\<not> IsNaN k"
  shows "\<exists>vm' l t'. PutIndexIntoSparseMap env vm (blank (HStructure p) c n) True k v = Some (vm', t') \<and>
    t_butterfly t' = t_butterfly (set_arrayLength l (blank (HStructure p) c n)) \<and> ArrayKind (t_arrayType t') = KAny"
proof -
  let ?t = "blank (HStructure p) c n"
  obtain q where q: "AllocFromUserHeap vm sizeof_ArraySparseMap = Some (vm\<lparr>vm_userHeapCurPtr := q\<rparr>, q)"
    using lim by (auto simp: arr_limit_def AllocFromUserHeap_def Let_def)
  let ?vm = "vm\<lparr>vm_userHeapCurPtr := q\<rparr>"
  obtain m where m: "sm_Insert env AllocateEmptyArraySparseMap k v = Some m"
    using sm_Insert_correct[OF sm_empty_repr k, of env v] by (auto simp: AllocateEmptyArraySparseMap_def split: option.splits)
  define t1 where "t1 = (set_arrayLength (GeneralHeapPointer q) (?t\<lparr>t_sparseMap := Some AllocateEmptyArraySparseMap\<rparr>))\<lparr>t_sparseMap := Some m\<rparr>"
  have t1: "t_hiddenClass t1 = HStructure p" "t_arrayType t1 = GetInitialArrayType"
    by (simp_all add: t1_def set_arrayLength_def blank_def)
  have hc: "hc_type_ok (vm_sh ?vm) t1" using p by (auto simp: hc_type_ok_def t1 empty_structure_def)
  have rm: "hc_room (vm_sh ?vm) t1" using room by (simp add: hc_room_def t1)
  obtain vm' t' where u: "update_array_type env ?vm t1 (sparse_type True GetInitialArrayType) = Some (vm', t')"
    using update_array_type_ok[of env ?vm K C t1 "sparse_type True GetInitialArrayType"] W hc rm initial_array_type(6) t1(2) by auto
  have "PutIndexIntoSparseMap env vm ?t True k v = Some (vm', t')"
    using n q m u by (simp add: PutIndexIntoSparseMap_def GetOrAllocateSparseMap_def AllocateNewArraySparseMap_def Let_def sparse_type_def t1_def
        blank_def GrowButterflyFromNull_def bh_HasSparseMap_def set_arrayLength_def)
  moreover have "t_butterfly t' = t_butterfly (set_arrayLength (GeneralHeapPointer q) ?t)"
    unfolding update_array_type_result(2)[OF u] by (simp add: t1_def set_arrayLength_def)
  ultimately show ?thesis using update_array_type_result(1)[OF u] by auto
qed

text \<open>
  C35. A table may be created with more than \<open>x_alwaysVectorCutoff\<close> preallocated slots. A first write past that cutoff goes to the sparse
  map and succeeds, but a read of an index inside the capacity looks only at the vector, where the slot is still nil: the value
  that was written is not found again.
\<close>

theorem preallocated_write_lost:
  assumes "world_reach env w" "empty_structure (vm_sh (w_vm w)) p" "CreateEmptyTableObject (w_vm w) p n = Some (vm1, t)"
    "x_alwaysVectorCutoff < sint idx" "sint idx \<le> int n" "n \<le> 2047" "\<not> IsNil v" "hc_room (vm_sh vm1) t" "\<not> arr_limit vm1 t"
  shows "\<exists>vm2 t'. RawPutByValIntegerIndex env vm1 t idx v = Some (vm2, t') \<and>
    GetByIntegerIndex env t' idx (PrepareGetByIntegerIndex t') = Some Nil"
proof -
  obtain K C where W: "wf_theap env (vm_sh vm1) K C"
    using world_reach_ok[OF assms(1)] CreateEmptyTableObject_blank(2)[OF assms(3)] by (auto simp: world_ok_def)
  let ?c = "m_inlineNamedStorageCapacity (struct_at (vm_sh (w_vm w)) p)"
  have t: "t = blank (HStructure p) ?c n" by (rule CreateEmptyTableObject_blank(1)[OF assms(3)])
  have pos: "0 < n" "1 < sint idx" "sint idx \<le> 2047" using assms(4,5,6) by (simp_all add: x_alwaysVectorCutoff_def)
  have e: "empty_structure (vm_sh vm1) p" using assms(2) CreateEmptyTableObject_blank(2)[OF assms(3)] by simp
  obtain vm2 l t' where put: "PutIndexIntoSparseMap env vm1 t True (int64_to_double idx) v = Some (vm2, t')"
    "t_butterfly t' = t_butterfly (set_arrayLength l t)" "ArrayKind (t_arrayType t') = KAny"
    using blank_sparse_put[OF W e pos(1), of ?c "int64_to_double idx" v] assms(8,9) unfolding t by auto
  have "RawPutByValIntegerIndex env vm1 t idx v = Some (vm2, t')"
    using put(1) pos assms(4,7) by (simp add: RawPutByValIntegerIndex_def TryPutByValIntegerIndexFastNoIC_def initial_array_type Let_def t
        PutByIntegerIndexSlow_def slow_no_array_part_def x_arrayBaseOrd_def x_unconditionallySparseMapCutoff_def)
  moreover have "uint (of_nat n :: u32) = int n" using assms(6) by (simp add: uint_nat unat_of_nat take_bit_nat_eq_self)
  then have "TryAccessIndexInVectorStorage t' idx = Some Nil"
    using pos assms(5) by (simp add: TryAccessIndexInVectorStorage_def t_header_def put(2) t blank_def set_arrayLength_def
        IndexFitsInVectorCapacity_iff GrowButterflyFromNull_def x_arrayBaseOrd_def bf_GetInVectorIndex_def bf_vec_pos_def)
  then have "GetByIntegerIndex env t' idx (PrepareGetByIntegerIndex t') = Some Nil"
    using put(3) by (simp add: GetByIntegerIndex_def PrepareGetByIntegerIndex_def icKind_eq_naive NaiveComputeGetByIntegerIndexIcKindFromArrayType_def)
  ultimately show ?thesis by blast
qed

theorem preallocated_write_lost_witness:
  "\<exists>vm1 t vm2 t'. CreateEmptyTableObject (w_vm example_world) 24 2047 = Some (vm1, t) \<and>
    RawPutByValIntegerIndex example_env vm1 t 1500 7 = Some (vm2, t') \<and>
    GetByIntegerIndex example_env t' 1500 (PrepareGetByIntegerIndex t') = Some Nil"
proof -
  obtain vm1 t where c: "CreateEmptyTableObject (w_vm example_world) 24 2047 = Some (vm1, t)"
    "vm_userHeapCurPtr vm1 = - (x_vmBaseOffset - x_vmUserHeapSize) - 96"
    by (simp add: CreateEmptyTableObject_def CreateEmptyTableObjectImpl_def AllocFromUserHeap_def example_table_in example_inline Let_def
        ComputeObjectAllocationSize_def x_vmBaseOffset_def x_vmUserHeapSize_def example_vm_def)
  note B = CreateEmptyTableObject_blank[OF c(1)]
  have "hc_room (vm_sh vm1) t" using example_room by (simp add: B example_table_in hc_room_def)
  moreover have "\<not> arr_limit vm1 t"
    unfolding arr_limit_def c(2) by (simp add: x_vmBaseOffset_def x_vmUserHeapSize_def sizeof_ArraySparseMap_def B blank_def)
  moreover have "\<not> IsNil 7" by code_simp
  ultimately show ?thesis
    using preallocated_write_lost[OF example_world_reach _ c(1), of 1500 7] example_empty c(1)
    by (auto simp: example_table_in x_alwaysVectorCutoff_def)
qed

end
