(* ===== verification/TableIter.thy ===== *)
theory TableIter
  imports TableWorld TableLength
begin

unbundle bit_operations_syntax

text \<open>
  \<^verbatim>\<open>TableObjectIterator\<close> of \<^verbatim>\<open>runtime/table_object.h\<close>: a cursor that walks over the named properties, the vector storage and the
  sparse map of a table, and \<^verbatim>\<open>GetNextFromKey\<close>, the function behind Lua's \<^verbatim>\<open>next\<close>, which finds the cursor of a key first. \<open>trace\<close> lists all
  pairs that remain from a cursor on, with the cursor that each of them leaves; an advance takes the head of this list, so that a loop of
  advances ends and visits the list.
\<close>

section \<open>The iterator\<close>

datatype IteratorState = Uninitialized | NamedProperty | InVectorStorage | InSparseMap | Terminated

record KeyValuePair =
  kv_key :: tvalue
  kv_value :: tvalue

text \<open>The union of the three ordinals is one number.\<close>

record table_iterator =
  ti_ord :: nat
  ti_state :: IteratorState

definition TableObjectIterator :: table_iterator where
  "TableObjectIterator = \<lparr>ti_ord = 0, ti_state = Uninitialized\<rparr>"

definition no_pair :: KeyValuePair where
  "no_pair = \<lparr>kv_key = Nil, kv_value = Nil\<rparr>"

text \<open>The loops of \<^verbatim>\<open>Advance\<close>: from \<open>ord\<close> on, the first ordinal below \<open>n\<close> with a result; the ordinal where the loop ended.\<close>

function scan :: "(nat \<Rightarrow> 'r option) \<Rightarrow> nat \<Rightarrow> nat \<Rightarrow> nat \<times> 'r option" where
  "scan body n ord =
     (if ord < n then case body ord of Some r \<Rightarrow> (ord, Some r) | None \<Rightarrow> scan body n (ord + 1) else (ord, None))"
  by pat_completeness auto
termination by (relation "measure (\<lambda>(body, n, ord). n - ord)") auto

declare scan.simps [simp del]

text \<open>
  The keys of the two booleans (\<^verbatim>\<open>VM_GetSpecialKeyForBoolean\<close>) are the parameter \<open>bk\<close>; a key of a hidden class is boxed as the pointer to it.
\<close>

definition boxed_key :: "gkey \<Rightarrow> tvalue" where
  "boxed_key key = CreatePointer (word_of_int (push_bit x_shiftFromRawOffset key))"

definition structure_prop :: "(bool \<Rightarrow> gkey) \<Rightarrow> sheap \<Rightarrow> table_object \<Rightarrow> struct \<Rightarrow> nat \<Rightarrow> KeyValuePair option" where
  "structure_prop bk sh obj structure ord =
     (if IsSlotUsedByPolyMetatable structure ord then None
      else let value = GetValueForSlot obj ord (m_inlineNamedStorageCapacity structure) in
           if IsNil value then None
           else let key = GetKeyForSlotOrdinal sh structure (ord mod 2 ^ 8) in
                if key = bk False then Some \<lparr>kv_key = CreateBoolean False, kv_value = value\<rparr>
                else if key = bk True then Some \<lparr>kv_key = CreateBoolean True, kv_value = value\<rparr>
                else Some \<lparr>kv_key = boxed_key key, kv_value = value\<rparr>)"

definition dictionary_prop :: "table_object \<Rightarrow> dictionary \<Rightarrow> nat \<Rightarrow> KeyValuePair option" where
  "dictionary_prop obj cacheableDict ord =
     (let entry = d_hashTable cacheableDict ! ord in
      if de_key entry \<noteq> 0 then
        let value = GetValueForSlot obj (de_slot entry) (d_inlineNamedStorageCapacity cacheableDict) in
        if IsNil value then None else Some \<lparr>kv_key = boxed_key (de_key entry), kv_value = value\<rparr>
      else None)"

definition vector_entry :: "butterfly \<Rightarrow> nat \<Rightarrow> KeyValuePair option" where
  "vector_entry butterfly ord =
     (let value = bf_GetInVectorIndex butterfly (word_of_int (int (ord + 1))) in
      if IsNil value then None else Some \<lparr>kv_key = CreateDouble (index_key (ord + 1)), kv_value = value\<rparr>)"

definition sparse_map_entry :: "sparse_map \<Rightarrow> nat \<Rightarrow> KeyValuePair option" where
  "sparse_map_entry sparseMap ord =
     (let entry = sm_hashTable sparseMap ! ord; key = sm_key entry in
      if \<not> IsNaN key then
        let value = sm_value entry in
        if IsNil value then None else Some \<lparr>kv_key = CreateDouble key, kv_value = value\<rparr>
      else None)"

text \<open>The labels of \<^verbatim>\<open>Advance\<close>, from its end to its beginning.\<close>

definition finished_iteration :: "nat \<Rightarrow> table_iterator \<times> KeyValuePair" where
  "finished_iteration ord = (\<lparr>ti_ord = ord, ti_state = Terminated\<rparr>, no_pair)"

definition try_find_next_sparse_map_entry :: "table_object \<Rightarrow> nat \<Rightarrow> table_iterator \<times> KeyValuePair" where
  "try_find_next_sparse_map_entry obj ord =
     (let sparseMap = the (t_sparseMap obj) in
      case scan (sparse_map_entry sparseMap) (sm_hashMask sparseMap + 1) ord of
        (ord, Some kv) \<Rightarrow> (\<lparr>ti_ord = ord, ti_state = InSparseMap\<rparr>, kv)
      | (ord, None) \<Rightarrow> finished_iteration ord)"

definition try_find_next_vector_entry :: "table_object \<Rightarrow> nat \<Rightarrow> table_iterator \<times> KeyValuePair" where
  "try_find_next_vector_entry obj ord =
     (let butterfly = the (t_butterfly obj) in
      case scan (vector_entry butterfly) (unat (m_arrayStorageCapacity (bf_header butterfly))) ord of
        (ord, Some kv) \<Rightarrow> (\<lparr>ti_ord = ord + 1, ti_state = InVectorStorage\<rparr>, kv)
      | (ord, None) \<Rightarrow> if bh_HasSparseMap (bf_header butterfly) then try_find_next_sparse_map_entry obj 0
                       else finished_iteration ord)"

definition try_start_iterating_vector_storage :: "table_object \<Rightarrow> nat \<Rightarrow> table_iterator \<times> KeyValuePair" where
  "try_start_iterating_vector_storage obj ord =
     (if t_butterfly obj = None then finished_iteration ord else try_find_next_vector_entry obj 0)"

definition try_get_next_structure_prop ::
  "(bool \<Rightarrow> gkey) \<Rightarrow> sheap \<Rightarrow> table_object \<Rightarrow> struct \<Rightarrow> nat \<Rightarrow> table_iterator \<times> KeyValuePair" where
  "try_get_next_structure_prop bk sh obj structure ord =
     (case scan (structure_prop bk sh obj structure) (m_numSlots structure) ((ord + 1) mod 2 ^ 32) of
        (ord, Some kv) \<Rightarrow> (\<lparr>ti_ord = ord, ti_state = NamedProperty\<rparr>, kv)
      | (ord, None) \<Rightarrow> try_start_iterating_vector_storage obj ord)"

definition try_find_and_get_cd_prop :: "table_object \<Rightarrow> dictionary \<Rightarrow> nat \<Rightarrow> table_iterator \<times> KeyValuePair" where
  "try_find_and_get_cd_prop obj cacheableDict ord =
     (case scan (dictionary_prop obj cacheableDict) (d_hashTableMask cacheableDict + 1) ord of
        (ord, Some kv) \<Rightarrow> (\<lparr>ti_ord = ord, ti_state = NamedProperty\<rparr>, kv)
      | (ord, None) \<Rightarrow> try_start_iterating_vector_storage obj ord)"

text \<open>Calling \<^verbatim>\<open>Advance\<close> on a terminated iterator is excluded by an assertion.\<close>

definition ti_Advance :: "(bool \<Rightarrow> gkey) \<Rightarrow> sheap \<Rightarrow> table_object \<Rightarrow> table_iterator \<Rightarrow> table_iterator \<times> KeyValuePair" where
  "ti_Advance bk sh obj self =
     (case ti_state self of
        Uninitialized \<Rightarrow>
          (case t_hiddenClass obj of
             HStructure p \<Rightarrow>
               if m_numSlots (struct_at sh p) = 0 then try_start_iterating_vector_storage obj (ti_ord self)
               else try_get_next_structure_prop bk sh obj (struct_at sh p) (2 ^ 32 - 1)
           | HDictionary p cacheableDict \<Rightarrow> try_find_and_get_cd_prop obj cacheableDict 0)
      | NamedProperty \<Rightarrow>
          (case t_hiddenClass obj of
             HStructure p \<Rightarrow> try_get_next_structure_prop bk sh obj (struct_at sh p) (ti_ord self)
           | HDictionary p cacheableDict \<Rightarrow> try_find_and_get_cd_prop obj cacheableDict ((ti_ord self + 1) mod 2 ^ 32))
      | InVectorStorage \<Rightarrow> try_find_next_vector_entry obj (ti_ord self)
      | _ \<Rightarrow> try_find_next_sparse_map_entry obj ((ti_ord self + 1) mod 2 ^ 32))"

text \<open>
  The next pair after a key. \<open>None\<close>: an aborted check or a lookup that does not return; \<open>Some None\<close>: the function returns false.
\<close>

definition next_in_sparse_map :: "(bool \<Rightarrow> gkey) \<Rightarrow> vm_env \<Rightarrow> sheap \<Rightarrow> table_object \<Rightarrow> double \<Rightarrow> KeyValuePair option option" where
  "next_in_sparse_map bk env sh obj idx =
     (if \<not> bh_HasSparseMap (t_header obj) then Some (Some no_pair)
      else case GetHashSlotOrdinal env (the (t_sparseMap obj)) idx of
        None \<Rightarrow> None
      | Some None \<Rightarrow> Some None
      | Some (Some slot) \<Rightarrow> Some (Some (snd (ti_Advance bk sh obj \<lparr>ti_ord = slot, ti_state = InSparseMap\<rparr>))))"

definition next_named :: "(bool \<Rightarrow> gkey) \<Rightarrow> vm_env \<Rightarrow> sheap \<Rightarrow> table_object \<Rightarrow> gkey \<Rightarrow> KeyValuePair option option" where
  "next_named bk env sh obj prop =
     (case (case t_hiddenClass obj of
              HStructure p \<Rightarrow> GetSlotOrdinalFromMaybeNonStringProperty env sh (struct_at sh p) prop
            | HDictionary p cacheableDict \<Rightarrow> GetHashTableSlotNumberForProperty env cacheableDict prop) of
        None \<Rightarrow> None
      | Some None \<Rightarrow> Some None
      | Some (Some ord) \<Rightarrow> Some (Some (snd (ti_Advance bk sh obj \<lparr>ti_ord = ord, ti_state = NamedProperty\<rparr>))))"

definition GetNextFromKey :: "(bool \<Rightarrow> gkey) \<Rightarrow> vm_env \<Rightarrow> sheap \<Rightarrow> table_object \<Rightarrow> tvalue \<Rightarrow> KeyValuePair option option" where
  "GetNextFromKey bk env sh obj key =
     (if IsNil key then Some (Some (snd (ti_Advance bk sh obj TableObjectIterator)))
      else if IsMIV key \<and> miv_IsNil (AsMIV key) then Some None
      else let key = (if IsMIV key then boxed_key (bk (miv_GetBooleanValue (AsMIV key))) else key) in
           if IsPointer key then next_named bk env sh obj (drop_bit x_shiftFromRawOffset (sint (AsPointer key)))
           else if IsInt32 key then None
           else let idx = AsDouble key in
                if IsNaN idx then Some None
                else if t_butterfly obj = None then Some None
                else case IsInt64Index idx of
                  None \<Rightarrow> next_in_sparse_map bk env sh obj idx
                | Some idx64 \<Rightarrow>
                    if \<not> IndexFitsInVectorCapacity (t_header obj) idx64 then next_in_sparse_map bk env sh obj idx
                    else Some (Some (snd (ti_Advance bk sh obj \<lparr>ti_ord = unat idx64, ti_state = InVectorStorage\<rparr>))))"

text \<open>The loop of a client: advance until the iterator terminates.\<close>

partial_function (option) iterate :: "(bool \<Rightarrow> gkey) \<Rightarrow> sheap \<Rightarrow> table_object \<Rightarrow> table_iterator \<Rightarrow> KeyValuePair list option" where
  "iterate bk sh obj iter =
     (let (iter', kv) = ti_Advance bk sh obj iter in
      if ti_state iter' = Terminated then Some []
      else Option.bind (iterate bk sh obj iter') (\<lambda>kvs. Some (kv # kvs)))"

section \<open>The pairs that remain\<close>

text \<open>All ordinals from \<open>ord\<close> on at which a scan finds something.\<close>

definition hits :: "(nat \<Rightarrow> 'r option) \<Rightarrow> nat \<Rightarrow> nat \<Rightarrow> (nat \<times> 'r) list" where
  "hits body n ord = List.map_filter (\<lambda>i. map_option (Pair i) (body i)) [ord..<n]"

lemma hits_step:
  "hits body n ord = (if ord < n then (case body ord of Some r \<Rightarrow> [(ord, r)] | None \<Rightarrow> []) @ hits body n (ord + 1) else [])"
  by (auto simp: hits_def map_filter_simps upt_rec[of ord n] split: option.splits)

lemma scan_hits:
  "\<exists>e. scan body n ord = (case hits body n ord of [] \<Rightarrow> (e, None) | (i, r) # _ \<Rightarrow> (i, Some r))"
proof (induction body n ord rule: scan.induct)
  case (1 body n ord)
  then show ?case by (auto simp: scan.simps[of body n ord] hits_step[of body n ord] split: option.splits)
qed

lemma hits_tail: "hits body n ord = (i, r) # h \<Longrightarrow> h = hits body n (i + 1) \<and> ord \<le> i \<and> i < n"
proof (induction body n ord rule: scan.induct)
  case (1 body n ord)
  show ?case
  proof (cases "ord < n \<and> body ord = None")
    case True
    then have "hits body n (ord + 1) = (i, r) # h" using 1(2) by (simp add: hits_step[of body n ord])
    then show ?thesis using 1(1) True by fastforce
  next
    case False
    then show ?thesis using 1(2) by (auto simp: hits_step[of body n ord] split: if_splits option.splits)
  qed
qed

lemma set_hits: "set (hits body n ord) = {(i, r). ord \<le> i \<and> i < n \<and> body i = Some r}"
  by (force simp: hits_def map_filter_def)

lemma map_fst_hits: "map fst (hits body n ord) = filter (\<lambda>i. body i \<noteq> None) [ord..<n]"
proof -
  have "map fst (List.map_filter (\<lambda>i. map_option (Pair i) (body i)) xs) = filter (\<lambda>i. body i \<noteq> None) xs" for xs
    by (induction xs) (auto simp: map_filter_simps split: option.splits)
  then show ?thesis by (simp add: hits_def)
qed

text \<open>With the iterator that each hit leaves: at its ordinal, \<open>k\<close> further on.\<close>

definition states :: "nat \<Rightarrow> IteratorState \<Rightarrow> (nat \<times> KeyValuePair) list \<Rightarrow> (table_iterator \<times> KeyValuePair) list" where
  "states k s h = map (\<lambda>(i, kv). (\<lparr>ti_ord = i + k, ti_state = s\<rparr>, kv)) h"

lemma states_simps [simp]:
  "states k s [] = []" "states k s ((i, kv) # h) = (\<lparr>ti_ord = i + k, ti_state = s\<rparr>, kv) # states k s h"
  by (simp_all add: states_def)

definition sparse_trace :: "table_object \<Rightarrow> nat \<Rightarrow> (table_iterator \<times> KeyValuePair) list" where
  "sparse_trace t ord = (let m = the (t_sparseMap t) in states 0 InSparseMap (hits (sparse_map_entry m) (sm_hashMask m + 1) ord))"

definition vector_trace :: "table_object \<Rightarrow> nat \<Rightarrow> (table_iterator \<times> KeyValuePair) list" where
  "vector_trace t ord = (let b = the (t_butterfly t) in
     states 1 InVectorStorage (hits (vector_entry b) (unat (m_arrayStorageCapacity (bf_header b))) ord) @
     (if bh_HasSparseMap (bf_header b) then sparse_trace t 0 else []))"

definition array_trace :: "table_object \<Rightarrow> (table_iterator \<times> KeyValuePair) list" where
  "array_trace t = (if t_butterfly t = None then [] else vector_trace t 0)"

definition named_trace :: "(bool \<Rightarrow> gkey) \<Rightarrow> sheap \<Rightarrow> table_object \<Rightarrow> nat \<Rightarrow> (table_iterator \<times> KeyValuePair) list" where
  "named_trace bk sh t ord = states 0 NamedProperty (case t_hiddenClass t of
      HStructure p \<Rightarrow> hits (structure_prop bk sh t (struct_at sh p)) (m_numSlots (struct_at sh p)) ord
    | HDictionary p d \<Rightarrow> hits (dictionary_prop t d) (d_hashTableMask d + 1) ord) @ array_trace t"

definition trace :: "(bool \<Rightarrow> gkey) \<Rightarrow> sheap \<Rightarrow> table_object \<Rightarrow> table_iterator \<Rightarrow> (table_iterator \<times> KeyValuePair) list" where
  "trace bk sh t it = (case ti_state it of Uninitialized \<Rightarrow> named_trace bk sh t 0 | NamedProperty \<Rightarrow> named_trace bk sh t (ti_ord it + 1)
     | InVectorStorage \<Rightarrow> vector_trace t (ti_ord it) | InSparseMap \<Rightarrow> sparse_trace t (ti_ord it + 1) | Terminated \<Rightarrow> [])"

text \<open>The result of an advance is the head of what remains.\<close>

definition advances :: "table_iterator \<times> KeyValuePair \<Rightarrow> (table_iterator \<times> KeyValuePair) list \<Rightarrow> bool" where
  "advances r l \<longleftrightarrow> (case l of [] \<Rightarrow> ti_state (fst r) = Terminated \<and> snd r = no_pair | x # _ \<Rightarrow> r = x)"

lemma advances_append:
  assumes "\<And>ord. advances (f ord) l"
  shows "advances (case scan body n ord of (ord, Some kv) \<Rightarrow> (\<lparr>ti_ord = ord + k, ti_state = s\<rparr>, kv) | (ord, None) \<Rightarrow> f ord)
    (states k s (hits body n ord) @ l)"
proof -
  obtain e where "scan body n ord = (case hits body n ord of [] \<Rightarrow> (e, None) | (i, r) # _ \<Rightarrow> (i, Some r))" using scan_hits by blast
  then show ?thesis using assms by (cases "hits body n ord") (auto simp: advances_def)
qed

lemma finished_advances: "advances (finished_iteration ord) []"
  by (simp add: advances_def finished_iteration_def)

lemma sparse_advances: "advances (try_find_next_sparse_map_entry t ord) (sparse_trace t ord)"
  unfolding try_find_next_sparse_map_entry_def sparse_trace_def Let_def
  using advances_append[where f = finished_iteration and l = "[]" and k = 0] finished_advances by simp

lemma vector_advances: "advances (try_find_next_vector_entry t ord) (vector_trace t ord)"
proof -
  let ?b = "the (t_butterfly t)"
  let ?f = "\<lambda>ord. if bh_HasSparseMap (bf_header ?b) then try_find_next_sparse_map_entry t 0 else finished_iteration ord"
    and ?l = "if bh_HasSparseMap (bf_header ?b) then sparse_trace t 0 else []"
  have "advances (?f ord) ?l" for ord using sparse_advances finished_advances by simp
  then show ?thesis unfolding try_find_next_vector_entry_def vector_trace_def Let_def by (rule advances_append)
qed

lemma array_advances: "advances (try_start_iterating_vector_storage t ord) (array_trace t)"
  using vector_advances[of t 0] finished_advances by (simp add: try_start_iterating_vector_storage_def array_trace_def)

lemma structure_advances:
  assumes "t_hiddenClass t = HStructure p"
  shows "advances (try_get_next_structure_prop bk sh t (struct_at sh p) ord) (named_trace bk sh t ((ord + 1) mod 2 ^ 32))"
  unfolding try_get_next_structure_prop_def named_trace_def
  using advances_append[where f = "try_start_iterating_vector_storage t" and l = "array_trace t" and k = 0] array_advances assms by simp

lemma dictionary_advances:
  assumes "t_hiddenClass t = HDictionary p d"
  shows "advances (try_find_and_get_cd_prop t d ord) (named_trace bk sh t ord)"
  unfolding try_find_and_get_cd_prop_def named_trace_def
  using advances_append[where f = "try_start_iterating_vector_storage t" and l = "array_trace t" and k = 0] array_advances assms by simp

text \<open>Ordinals that do not wrap around.\<close>

definition it_ok :: "sheap \<Rightarrow> table_object \<Rightarrow> table_iterator \<Rightarrow> bool" where
  "it_ok sh t it \<longleftrightarrow> (case ti_state it of
      NamedProperty \<Rightarrow> ti_ord it + 1 < 2 ^ 32
    | InSparseMap \<Rightarrow> ti_ord it + 1 < 2 ^ 32 \<and> t_sparseMap t \<noteq> None
    | InVectorStorage \<Rightarrow> t_butterfly t \<noteq> None
    | Terminated \<Rightarrow> False
    | _ \<Rightarrow> True)"

lemma Advance_trace:
  assumes "it_ok sh t it"
  shows "advances (ti_Advance bk sh t it) (trace bk sh t it)"
proof -
  have z: "named_trace bk sh t 0 = array_trace t" if "t_hiddenClass t = HStructure p" "m_numSlots (struct_at sh p) = 0" for p
    using that by (simp add: named_trace_def hits_def)
  have n: "advances (try_get_next_structure_prop bk sh t (struct_at sh p) ord) (named_trace bk sh t (Suc ord))"
    if "t_hiddenClass t = HStructure p" "ord < 4294967295" for p ord
    using structure_advances[OF that(1), of bk sh ord] that(2) by simp
  show ?thesis using assms n dictionary_advances array_advances vector_advances sparse_advances z
    by (cases "ti_state it"; cases "t_hiddenClass t")
      (auto simp: ti_Advance_def trace_def it_ok_def intro: structure_advances[of t _ bk sh "2 ^ 32 - 1", simplified])
qed

lemma states_tail:
  assumes "states k s (hits body n ord) @ l = (it, kv) # r"
  shows "(\<exists>i<n. it = \<lparr>ti_ord = i + k, ti_state = s\<rparr> \<and> r = states k s (hits body n (i + 1)) @ l) \<or> l = (it, kv) # r"
proof (cases "hits body n ord")
  case (Cons a h)
  then obtain i x where "a = (i, x)" by (cases a)
  then show ?thesis using Cons assms hits_tail[of body n ord i x h] by auto
qed (use assms in simp)

text \<open>The tables are small enough for 32-bit ordinals.\<close>

definition it_sized :: "sheap \<Rightarrow> table_object \<Rightarrow> bool" where
  "it_sized sh t \<longleftrightarrow> (case t_hiddenClass t of HStructure p \<Rightarrow> m_numSlots (struct_at sh p) < 2 ^ 32 | HDictionary p d \<Rightarrow> d_hashTableMask d + 1 < 2 ^ 32) \<and>
     (case t_sparseMap t of None \<Rightarrow> True | Some m \<Rightarrow> sm_hashMask m + 1 < 2 ^ 32) \<and>
     (case t_butterfly t of None \<Rightarrow> True | Some b \<Rightarrow> bh_HasSparseMap (bf_header b) \<longrightarrow> t_sparseMap t \<noteq> None)"

lemma sparse_tail:
  assumes "sparse_trace t ord = (it, kv) # r" "t_sparseMap t = Some m" "sm_hashMask m + 1 < 2 ^ 32"
  shows "trace bk sh t it = r \<and> it_ok sh t it"
proof -
  from assms(1,2) have "states 0 InSparseMap (hits (sparse_map_entry m) (sm_hashMask m + 1) ord) @ [] = (it, kv) # r"
    by (simp add: sparse_trace_def Let_def)
  from states_tail[OF this] show ?thesis using assms(2,3) by (auto simp: trace_def it_ok_def sparse_trace_def Let_def)
qed

lemma vector_tail:
  assumes "vector_trace t ord = (it, kv) # r" "it_sized sh t" "t_butterfly t = Some b"
  shows "trace bk sh t it = r \<and> it_ok sh t it"
proof -
  from assms(1,3) have "states 1 InVectorStorage (hits (vector_entry b) (unat (m_arrayStorageCapacity (bf_header b))) ord) @
      (if bh_HasSparseMap (bf_header b) then sparse_trace t 0 else []) = (it, kv) # r" by (simp only: vector_trace_def Let_def option.sel)
  from states_tail[OF this] show ?thesis
  proof
    assume "\<exists>i<unat (m_arrayStorageCapacity (bf_header b)). it = \<lparr>ti_ord = i + 1, ti_state = InVectorStorage\<rparr> \<and>
      r = states 1 InVectorStorage (hits (vector_entry b) (unat (m_arrayStorageCapacity (bf_header b))) (i + 1)) @
        (if bh_HasSparseMap (bf_header b) then sparse_trace t 0 else [])"
    then show ?thesis using assms(3) by (auto simp: trace_def it_ok_def vector_trace_def Let_def)
  next
    assume "(if bh_HasSparseMap (bf_header b) then sparse_trace t 0 else []) = (it, kv) # r"
    then show ?thesis using sparse_tail[of t 0 it kv r] assms(2,3) by (auto simp: it_sized_def split: if_splits option.splits)
  qed
qed

lemma array_tail:
  assumes "array_trace t = (it, kv) # r" "it_sized sh t"
  shows "trace bk sh t it = r \<and> it_ok sh t it"
  using vector_tail[of t 0 it kv r] assms by (auto simp: array_trace_def split: if_splits)

lemma named_tail:
  assumes "named_trace bk sh t ord = (it, kv) # r" "it_sized sh t"
  shows "trace bk sh t it = r \<and> it_ok sh t it"
proof (cases "t_hiddenClass t")
  case (HStructure p)
  with assms(1) have "states 0 NamedProperty (hits (structure_prop bk sh t (struct_at sh p)) (m_numSlots (struct_at sh p)) ord) @ array_trace t = (it, kv) # r"
    by (simp add: named_trace_def)
  from states_tail[OF this] show ?thesis using array_tail[of t it kv r] assms(2) HStructure
    by (auto simp: trace_def it_ok_def it_sized_def named_trace_def)
next
  case (HDictionary p d)
  with assms(1) have "states 0 NamedProperty (hits (dictionary_prop t d) (d_hashTableMask d + 1) ord) @ array_trace t = (it, kv) # r"
    by (simp add: named_trace_def)
  from states_tail[OF this] show ?thesis using array_tail[of t it kv r] assms(2) HDictionary
    by (auto simp: trace_def it_ok_def it_sized_def named_trace_def)
qed

lemma trace_tail:
  assumes "trace bk sh t it = (it', kv) # r" "it_sized sh t" "it_ok sh t it"
  shows "trace bk sh t it' = r \<and> it_ok sh t it'"
  using assms named_tail[of bk sh t _ it' kv r] vector_tail[of t _ it' kv r] sparse_tail[of t _ it' kv r]
  by (cases "ti_state it") (auto simp: trace_def it_sized_def it_ok_def split: option.splits)

lemma iterate_trace:
  assumes "it_sized sh t" "it_ok sh t it"
  shows "iterate bk sh t it = Some (map snd (trace bk sh t it))"
  using assms(2)
proof (induction "trace bk sh t it" arbitrary: it)
  case Nil
  then have "advances (ti_Advance bk sh t it) []" using Advance_trace[OF Nil(2), of bk] by simp
  then show ?case using Nil by (subst iterate.simps) (auto simp: advances_def split: prod.splits)
next
  case (Cons x l)
  obtain it' kv where x: "x = (it', kv)" by (cases x)
  then have t: "trace bk sh t it = (it', kv) # l" using Cons(2) by simp
  note T = trace_tail[OF t assms(1) Cons(3)]
  have "ti_Advance bk sh t it = (it', kv)" using Advance_trace[OF Cons(3), of bk] t by (simp add: advances_def)
  moreover have "ti_state it' \<noteq> Terminated" using T by (auto simp: it_ok_def)
  moreover have "iterate bk sh t it' = Some (map snd l)" using Cons(1)[of it'] T by simp
  ultimately show ?case unfolding t by (subst iterate.simps) simp
qed

end
