(* ===== verification/TableIterProps.thy ===== *)
theory TableIterProps
  imports TableIter
begin

unbundle bit_operations_syntax

text \<open>
  What an iteration visits, for a table that satisfies its invariant: each named slot with a value, whichever ordinal a structure or the hash
  table of a dictionary gives it, each element of the vector and each entry of the sparse map that is not nil; the keys are distinct
  because vector and sparse map do not overlap. Looking the key of a visited pair up again gives the ordinal at which it was found.
\<close>

section \<open>Boxed keys\<close>

lemma boxed_key_sint:
  assumes "user_ptr k"
  shows "sint (boxed_key k) = k * 8"
proof -
  have k: "- 2147483648 \<le> k" "k < - 536870912" using assms by (simp_all add: user_ptr_def)
  then have "sint (word_of_int (k * 8) :: 64 word) = k * 8" by (intro sint_word_of_int_range) simp_all
  then show ?thesis by (simp add: boxed_key_def CreatePointer_def push_bit_eq_mult x_shiftFromRawOffset_def)
qed

lemma boxed_key_box:
  assumes "user_ptr k"
  shows "in_box BoxPointer (boxed_key k)"
proof -
  have k: "- 2147483648 \<le> k" "k < - 536870912" using assms by (simp_all add: user_ptr_def)
  have "boxed_key k = word_of_int (k * 8)" by (simp add: boxed_key_def CreatePointer_def push_bit_eq_mult x_shiftFromRawOffset_def)
  then have "uint (boxed_key k) = (k * 8) mod 2 ^ 64" by (simp only: uint_word_of_int) simp
  also have "\<dots> = (k * 8 + 2 ^ 64) mod 2 ^ 64" by simp
  also have "\<dots> = k * 8 + 2 ^ 64" using k by (intro mod_pos_pos_trivial) simp_all
  finally show ?thesis using k by (simp add: word_le_def)
qed

lemma boxed_key_unbox:
  assumes "user_ptr k"
  shows "drop_bit x_shiftFromRawOffset (sint (AsPointer (boxed_key k))) = k"
  using boxed_key_sint[OF assms] by (simp add: AsPointer_def x_shiftFromRawOffset_def drop_bit_eq_div)

lemma boxed_key_inj: "user_ptr k \<Longrightarrow> user_ptr k' \<Longrightarrow> boxed_key k = boxed_key k' \<longleftrightarrow> k = k'"
  using boxed_key_unbox by metis

lemma boolean_box: "in_box BoxMiv (CreateBoolean b)"
  unfolding CreateBoolean_def by (rule in_box_CreateMIV) (simp add: valid_miv_def miv_CreateBoolean_def)

lemma boolean_inj: "CreateBoolean b = CreateBoolean c \<longleftrightarrow> b = c"
  by (cases b; cases c) (simp_all add: CreateBoolean_def CreateMIV_def miv_CreateBoolean_def tvalue_consts)

lemma double_not_box:
  assumes "\<not> IsNaN d"
  shows "\<not> in_box BoxPointer d" "\<not> in_box BoxMiv d"
proof -
  have "IsDouble d" using ViewAsDouble_non_double_NaN[of d] assms by (auto simp: ViewAsDouble_def)
  then show "\<not> in_box BoxPointer d" "\<not> in_box BoxMiv d"
    by (auto simp: IsDouble_def x_int32Tag_def word_less_nat_alt word_le_nat_alt)
qed

text \<open>The key under which the iterator reports a named property: a structure gives the booleans back, a dictionary does not.\<close>

definition iter_key :: "(bool \<Rightarrow> gkey) \<Rightarrow> table_object \<Rightarrow> gkey \<Rightarrow> tvalue" where
  "iter_key bk t key = (case t_hiddenClass t of
      HStructure p \<Rightarrow> if key = bk False then CreateBoolean False else if key = bk True then CreateBoolean True else boxed_key key
    | HDictionary p d \<Rightarrow> boxed_key key)"

lemma iter_key_inj:
  assumes "user_ptr k" "user_ptr k'" "iter_key bk t k = iter_key bk t k'"
  shows "k = k'"
proof -
  have "boxed_key a \<noteq> CreateBoolean b \<and> CreateBoolean b \<noteq> boxed_key a" if "user_ptr a" for a b
    using in_box_unique[of BoxPointer "boxed_key a" BoxMiv] boxed_key_box[OF that] boolean_box[of b] by auto
  then show ?thesis using assms boxed_key_inj[OF assms(1,2)]
    by (cases "t_hiddenClass t") (auto simp: iter_key_def boolean_inj split: if_splits)
qed

lemma iter_key_not_double:
  assumes "user_ptr k" "\<not> IsNaN d"
  shows "iter_key bk t k \<noteq> d"
  using boxed_key_box[OF assms(1)] boolean_box double_not_box[OF assms(2)]
  by (cases "t_hiddenClass t") (auto simp only: iter_key_def hclass.case split: if_splits)

section \<open>Layouts\<close>

text \<open>The ordinals of a scan enumerate the named slots of a table: \<open>f\<close> gives the slot that an ordinal visits.\<close>

definition named_hit :: "(gkey \<Rightarrow> tvalue) \<Rightarrow> gkey list \<Rightarrow> tvalue list \<Rightarrow> nat \<Rightarrow> KeyValuePair option" where
  "named_hit b ks xs j = (if IsNil (xs ! j) then None else Some \<lparr>kv_key = b (ks ! j), kv_value = xs ! j\<rparr>)"

definition layout :: "gkey \<Rightarrow> gkey list \<Rightarrow> nat \<Rightarrow> (nat \<Rightarrow> nat option) \<Rightarrow> bool" where
  "layout sp ks n f \<longleftrightarrow> (\<forall>i j. f i = Some j \<longrightarrow> j < length ks \<and> ks ! j \<noteq> sp) \<and> (\<forall>i i' j. i < n \<longrightarrow> i' < n \<longrightarrow> f i = Some j \<longrightarrow> f i' = Some j \<longrightarrow> i = i') \<and>
     (\<forall>j<length ks. ks ! j \<noteq> sp \<longrightarrow> (\<exists>i<n. f i = Some j))"

lemma layoutD:
  assumes "layout sp ks n f"
  shows "f i = Some j \<Longrightarrow> j < length ks" "f i = Some j \<Longrightarrow> ks ! j \<noteq> sp"
    "i < n \<Longrightarrow> i' < n \<Longrightarrow> f i = Some j \<Longrightarrow> f i' = Some j \<Longrightarrow> i = i'"
    "j < length ks \<Longrightarrow> ks ! j \<noteq> sp \<Longrightarrow> \<exists>i<n. f i = Some j"
  using assms unfolding layout_def by blast+

definition named_pairs :: "(bool \<Rightarrow> gkey) \<Rightarrow> sheap \<Rightarrow> table_object \<Rightarrow> KeyValuePair list" where
  "named_pairs bk sh t = map snd (case t_hiddenClass t of
      HStructure p \<Rightarrow> hits (structure_prop bk sh t (struct_at sh p)) (m_numSlots (struct_at sh p)) 0
    | HDictionary p d \<Rightarrow> hits (dictionary_prop t d) (d_hashTableMask d + 1) 0)"

lemma struct_slots:
  assumes W: "wf_theap env sh K C" and s: "sh_structs sh p = Some s"
  shows "m_numSlots s = length (K p)" "length (K p) \<le> 254" "i < length (K p) \<Longrightarrow> GetKeyForSlotOrdinal sh s i = K p ! i"
    "i < length (K p) \<Longrightarrow> IsSlotUsedByPolyMetatable s i \<longleftrightarrow> K p ! i = env_specialKey env"
proof -
  have wf: "wf_struct env sh K (K p) s" using wf_sheapD(3) wf_theapD(1)[OF W s] s by blast
  show "m_numSlots s = length (K p)" "length (K p) \<le> 254" using wf_structD(1-3)[OF wf] by blast+
  show "GetKeyForSlotOrdinal sh s i = K p ! i" if "i < length (K p)" using key_for_slot_correct[OF wf_theapD(1)[OF W s] wf that] .
  note F = struct_fields[OF W s]
  show "IsSlotUsedByPolyMetatable s i \<longleftrightarrow> K p ! i = env_specialKey env" if i: "i < length (K p)"
  proof (cases "0 < m_metatable s")
    case True
    have "slot_index (K p) (env_specialKey env) = Some (GetPolyMetatableSlot s)" using sem_ok_metatable_slot(1)[OF F(5,1) True] .
    moreover have "K p ! i = env_specialKey env \<longleftrightarrow> slot_index (K p) (env_specialKey env) = Some i"
      using slot_index_nth[OF F(1) i] slot_index_SomeD by metis
    ultimately show ?thesis using True by (auto simp: IsSlotUsedByPolyMetatable_def GetPolyMetatableSlot_def)
  next
    case False
    then have "env_specialKey env \<notin> set (K p)" using F(5) by (simp add: sem_ok_def)
    then have "K p ! i \<noteq> env_specialKey env" using nth_mem[OF i] by metis
    then show ?thesis using False by (auto simp: IsSlotUsedByPolyMetatable_def)
  qed
qed

lemma structure_layout:
  assumes W: "wf_theap env sh K C" and ok: "named_ok env sh K t ks" and hc: "t_hiddenClass t = HStructure p"
  defines "f \<equiv> \<lambda>i. if i < length ks \<and> ks ! i \<noteq> env_specialKey env then Some i else None"
  shows "layout (env_specialKey env) ks (m_numSlots (struct_at sh p)) f"
    "i < m_numSlots (struct_at sh p) \<Longrightarrow>
      structure_prop bk sh t (struct_at sh p) i = Option.bind (f i) (named_hit (iter_key bk t) ks (t_slots t))"
proof -
  obtain s where s: "sh_structs sh p = Some s" "ks = K p" using named_okD(1)[OF ok] hc by (auto simp: hc_keys_def)
  note S = struct_slots[OF W s(1), folded s(2)] and L = t_slots_length[OF W ok]
  have st: "struct_at sh p = s" using s(1) by (simp add: struct_at_def)
  show "layout (env_specialKey env) ks (m_numSlots (struct_at sh p)) f" by (auto simp: layout_def f_def st S(1))
  assume "i < m_numSlots (struct_at sh p)"
  then have i: "i < length ks" by (simp add: st S(1))
  then have m: "i mod 2 ^ 8 = i" using S(2) by simp
  have c: "length (t_inlineStorage t) = m_inlineNamedStorageCapacity s"
    using named_okD(2)[OF ok] by (simp add: hc hc_inlineNamedStorageCapacity_def st)
  have v: "GetValueForSlot t i (m_inlineNamedStorageCapacity s) = t_slots t ! i" using GetValueForSlot_nth[OF _ _ c] i L(1,2) by simp
  show "structure_prop bk sh t (struct_at sh p) i = Option.bind (f i) (named_hit (iter_key bk t) ks (t_slots t))"
    unfolding structure_prop_def st Let_def v m S(3)[OF i] S(4)[OF i] f_def using i by (simp add: named_hit_def iter_key_def hc)
qed

lemma dict_entries:
  assumes "dict_ok env d m ks" "i < d_hashTableMask d + 1" "de_key (d_hashTable d ! i) \<noteq> 0"
  obtains j where "j < length ks" "d_hashTable d ! i = dent ks j"
proof -
  have T: "dtbl env m (d_hashTable d) (dent ks ` {..<length ks})" and mk: "d_hashTableMask d + 1 = 2 ^ m" using assms(1) by (auto simp: dict_ok_def)
  have "d_hashTable d ! i \<in> set (d_hashTable d)" using tbl_D(1)[OF T] assms(2) mk by simp
  then have "d_hashTable d ! i \<in> dent ks ` {..<length ks}"
    using tbl_D(2)[OF T] assms(3) by (simp add: tbl_entries_def de_key_of_def)
  then show ?thesis using that by blast
qed

lemma dict_position:
  assumes "dict_ok env d m ks" "j < length ks"
  shows "\<exists>i < d_hashTableMask d + 1. d_hashTable d ! i = dent ks j"
proof -
  have T: "dtbl env m (d_hashTable d) (dent ks ` {..<length ks})" and mk: "d_hashTableMask d + 1 = 2 ^ m" using assms(1) by (auto simp: dict_ok_def)
  have "dent ks j \<in> set (d_hashTable d)" using tbl_D(2)[OF T] assms(2) by (auto simp: tbl_entries_def)
  then show ?thesis using tbl_D(1)[OF T] mk by (metis in_set_conv_nth)
qed

lemma dict_position_unique:
  assumes "dict_ok env d m ks" "i < d_hashTableMask d + 1" "i' < d_hashTableMask d + 1" "d_hashTable d ! i = d_hashTable d ! i'" "de_key (d_hashTable d ! i) \<noteq> 0"
  shows "i = i'"
proof -
  have T: "dtbl env m (d_hashTable d) (dent ks ` {..<length ks})" and mk: "d_hashTableMask d + 1 = 2 ^ m" using assms(1) by (auto simp: dict_ok_def)
  show ?thesis using table_okD(4)[OF tbl_D(6)[OF T], of i i'] assms(2-5) mk tbl_D(1)[OF T] by (simp add: tbl_view_def de_key_of_def)
qed

definition dict_layout :: "dictionary \<Rightarrow> nat \<Rightarrow> nat option" where
  "dict_layout d i = (if i < d_hashTableMask d + 1 \<and> de_key (d_hashTable d ! i) \<noteq> 0 then Some (de_slot (d_hashTable d ! i)) else None)"

lemma dictionary_layout:
  assumes W: "wf_theap env sh K C" and ok: "named_ok env sh K t ks" and hc: "t_hiddenClass t = HDictionary p d"
  shows "layout (env_specialKey env) ks (d_hashTableMask d + 1) (dict_layout d)"
    "i < d_hashTableMask d + 1 \<Longrightarrow> dictionary_prop t d i = Option.bind (dict_layout d i) (named_hit (iter_key bk t) ks (t_slots t))"
proof -
  have inv: "dict_inv env d ks" and kok: "\<forall>k\<in>set ks. k \<noteq> env_specialKey env" using named_okD(1)[OF ok] hc by (auto simp: hc_keys_def)
  then obtain m where m: "dict_ok env d m ks" by (auto simp: dict_inv_def wf_dict_def)
  have nz: "0 \<notin> set ks" using m by (simp add: dict_ok_def)
  have D: "\<exists>j<length ks. d_hashTable d ! i = \<lparr>de_key = ks ! j, de_slot = j\<rparr>" if "i < d_hashTableMask d + 1" "de_key (d_hashTable d ! i) \<noteq> 0" for i
    by (rule dict_entries[OF m that]) (auto simp: dent_def)
  note L = t_slots_length[OF W ok]
  show "layout (env_specialKey env) ks (d_hashTableMask d + 1) (dict_layout d)"
    unfolding layout_def
  proof (intro conjI allI impI)
    fix i j assume "dict_layout d i = Some j"
    then have "j < length ks" using D[of i] by (auto simp: dict_layout_def split: if_splits)
    then show "j < length ks" "ks ! j \<noteq> env_specialKey env" using kok by auto
  next
    fix i i' j assume a: "i < d_hashTableMask d + 1" "i' < d_hashTableMask d + 1" "dict_layout d i = Some j" "dict_layout d i' = Some j"
    then have "d_hashTable d ! i = d_hashTable d ! i'" using D[of i] D[of i'] by (auto simp: dict_layout_def split: if_splits)
    moreover have "de_key (d_hashTable d ! i) \<noteq> 0" using a(3) by (auto simp: dict_layout_def split: if_splits)
    ultimately show "i = i'" using dict_position_unique[OF m a(1,2)] by blast
  next
    fix j assume j: "j < length ks" "ks ! j \<noteq> env_specialKey env"
    then obtain i where i: "i < d_hashTableMask d + 1" "d_hashTable d ! i = dent ks j" using dict_position[OF m] by blast
    moreover have "ks ! j \<noteq> 0" using nz j(1) nth_mem by metis
    ultimately show "\<exists>i<d_hashTableMask d + 1. dict_layout d i = Some j" by (intro exI[of _ i]) (simp add: dict_layout_def dent_def)
  qed
  assume i: "i < d_hashTableMask d + 1"
  have c: "length (t_inlineStorage t) = d_inlineNamedStorageCapacity d"
    using named_okD(2)[OF ok] by (simp add: hc hc_inlineNamedStorageCapacity_def)
  have v: "GetValueForSlot t j (d_inlineNamedStorageCapacity d) = t_slots t ! j" if "j < length ks" for j
    using GetValueForSlot_nth[OF _ _ c] that L(1,2) by simp
  show "dictionary_prop t d i = Option.bind (dict_layout d i) (named_hit (iter_key bk t) ks (t_slots t))"
  proof (cases "de_key (d_hashTable d ! i) = 0")
    case False
    then obtain j where j: "j < length ks" "d_hashTable d ! i = \<lparr>de_key = ks ! j, de_slot = j\<rparr>" using D[OF i] by blast
    then show ?thesis using i False v[OF j(1)] by (simp add: dictionary_prop_def dict_layout_def named_hit_def iter_key_def hc Let_def)
  qed (simp add: dictionary_prop_def dict_layout_def)
qed

section \<open>The pairs of a scan\<close>

lemma set_pairs: "set (map snd (hits body n 0)) = {kv. \<exists>i<n. body i = Some kv}"
  by (force simp: set_hits)

lemma distinct_pairs:
  assumes "\<And>i j a b. i < n \<Longrightarrow> j < n \<Longrightarrow> body i = Some a \<Longrightarrow> body j = Some b \<Longrightarrow> f a = f b \<Longrightarrow> i = j"
  shows "distinct (map f (map snd (hits body n 0)))"
proof -
  have "distinct (map fst (hits body n 0))" by (simp add: map_fst_hits)
  then have "distinct (hits body n 0)" by (simp add: distinct_map)
  moreover have "inj_on (f \<circ> snd) (set (hits body n 0))"
  proof (rule inj_onI)
    fix x y assume xy: "x \<in> set (hits body n 0)" "y \<in> set (hits body n 0)" "(f \<circ> snd) x = (f \<circ> snd) y"
    obtain i a where x: "x = (i, a)" by (cases x)
    obtain j b where y: "y = (j, b)" by (cases y)
    have "i < n" "j < n" "body i = Some a" "body j = Some b" "f a = f b" using xy x y by (auto simp: set_hits)
    moreover from this have "i = j" by (rule assms)
    ultimately show "x = y" using x y by simp
  qed
  ultimately show ?thesis by (simp add: distinct_map)
qed

text \<open>The key of a pair, with one representation of zero.\<close>

definition norm_key :: "KeyValuePair \<Rightarrow> tvalue" where
  "norm_key kv = (if IsDouble (kv_key kv) then CreateDouble (float_norm (AsDouble (kv_key kv))) else kv_key kv)"

definition normal :: "KeyValuePair \<Rightarrow> tvalue \<times> tvalue" where
  "normal kv = (norm_key kv, kv_value kv)"

lemma IsDouble_number: "\<not> IsNaN d \<Longrightarrow> IsDouble d"
  using ViewAsDouble_non_double_NaN[of d] by (auto simp: ViewAsDouble_def)

lemma norm_key_double [simp]: "\<not> IsNaN d \<Longrightarrow> norm_key \<lparr>kv_key = CreateDouble d, kv_value = v\<rparr> = float_norm d"
  by (simp add: norm_key_def CreateDouble_def AsDouble_def IsDouble_number)

lemma norm_key_named [simp]:
  assumes "user_ptr k"
  shows "norm_key \<lparr>kv_key = iter_key bk t k, kv_value = v\<rparr> = iter_key bk t k"
proof -
  have "\<not> IsDouble w" if "in_box BoxPointer w \<or> in_box BoxMiv w" for w
    using that by (auto simp: IsDouble_def x_int32Tag_def word_less_nat_alt word_le_nat_alt)
  then have "\<not> IsDouble (iter_key bk t k)" using boxed_key_box[OF assms] boolean_box
    by (cases "t_hiddenClass t") (simp_all only: iter_key_def hclass.case split: if_split, blast+)
  then show ?thesis by (simp add: norm_key_def)
qed

section \<open>Named pairs\<close>

lemma named_scan:
  assumes W: "wf_theap env sh K C" and ok: "named_ok env sh K t ks"
  obtains body n f where "named_pairs bk sh t = map snd (hits body n 0)" "layout (env_specialKey env) ks n f"
    "\<And>i. i < n \<Longrightarrow> body i = Option.bind (f i) (named_hit (iter_key bk t) ks (t_slots t))"
proof (cases "t_hiddenClass t")
  case (HStructure p)
  from structure_layout[OF W ok HStructure] show ?thesis
    by (intro that[of "structure_prop bk sh t (struct_at sh p)"]) (auto simp: named_pairs_def HStructure)
next
  case (HDictionary p d)
  from dictionary_layout[OF W ok HDictionary] show ?thesis
    by (intro that[of "dictionary_prop t d"]) (auto simp: named_pairs_def HDictionary)
qed

lemma named_key_ok:
  assumes "named_ok env sh K t ks" "k \<in> set ks" "k \<noteq> env_specialKey env"
  shows "user_ptr k" "good_key env False k"
proof -
  show "user_ptr k" using named_okD(1)[OF assms(1)] assms(2,3) by (cases "t_hiddenClass t") (auto simp: hc_keys_def)
  then show "good_key env False k" using assms(3) by (simp add: good_key_def)
qed

lemma named_pairs_set:
  assumes W: "wf_theap env sh K C" and ok: "named_ok env sh K t ks"
  shows "set (named_pairs bk sh t) = {\<lparr>kv_key = iter_key bk t k, kv_value = v\<rparr> | k v.
    good_key env False k \<and> v \<noteq> Nil \<and> named_fun ks (t_slots t) k = v}" (is "?l = ?r")
proof -
  obtain body n f where P: "named_pairs bk sh t = map snd (hits body n 0)" and L: "layout (env_specialKey env) ks n f"
    and B: "\<And>i. i < n \<Longrightarrow> body i = Option.bind (f i) (named_hit (iter_key bk t) ks (t_slots t))" using named_scan[OF W ok, of bk] by blast
  have dis: "distinct ks" using t_slots_length(4)[OF W ok] .
  show ?thesis
  proof (intro set_eqI iffI)
    fix kv assume "kv \<in> ?l"
    then obtain i j where i: "i < n" "f i = Some j" "named_hit (iter_key bk t) ks (t_slots t) j = Some kv"
      unfolding P set_pairs using B by (auto simp: bind_eq_Some_conv)
    note j = layoutD(1,2)[OF L i(2)]
    have "named_fun ks (t_slots t) (ks ! j) = t_slots t ! j" using slot_index_nth[OF dis j(1)] by (simp add: named_fun_def)
    then show "kv \<in> ?r" using i(3) named_key_ok(2)[OF ok nth_mem[OF j(1)] j(2)]
      by (auto simp: named_hit_def IsNil_def split: if_splits)
  next
    fix kv assume "kv \<in> ?r"
    then obtain k v where k: "good_key env False k" "v \<noteq> Nil" "named_fun ks (t_slots t) k = v" "kv = \<lparr>kv_key = iter_key bk t k, kv_value = v\<rparr>" by blast
    then obtain j where "slot_index ks k = Some j" by (auto simp: named_fun_def split: option.splits)
    then have j: "j < length ks" "ks ! j = k" "t_slots t ! j = v" using slot_index_SomeD k(3) by (auto simp: named_fun_def)
    then obtain i where "i < n" "f i = Some j" using layoutD(4)[OF L j(1)] k(1) by (auto simp: good_key_def)
    then show "kv \<in> ?l" unfolding P set_pairs using B j k(2,4) by (auto simp: named_hit_def IsNil_def)
  qed
qed

lemma named_pairs_distinct:
  assumes W: "wf_theap env sh K C" and ok: "named_ok env sh K t ks"
  shows "distinct (map norm_key (named_pairs bk sh t))"
proof -
  obtain body n f where P: "named_pairs bk sh t = map snd (hits body n 0)" and L: "layout (env_specialKey env) ks n f"
    and B: "\<And>i. i < n \<Longrightarrow> body i = Option.bind (f i) (named_hit (iter_key bk t) ks (t_slots t))" using named_scan[OF W ok, of bk] by blast
  have dis: "distinct ks" using t_slots_length(4)[OF W ok] .
  show ?thesis unfolding P
  proof (rule distinct_pairs)
    fix i j a b assume a: "i < n" "j < n" "body i = Some a" "body j = Some b" "norm_key a = norm_key b"
    obtain i' where i: "f i = Some i'" "a = \<lparr>kv_key = iter_key bk t (ks ! i'), kv_value = t_slots t ! i'\<rparr>"
      using a(3) unfolding B[OF a(1)] by (auto simp: bind_eq_Some_conv named_hit_def split: if_splits)
    obtain j' where j: "f j = Some j'" "b = \<lparr>kv_key = iter_key bk t (ks ! j'), kv_value = t_slots t ! j'\<rparr>"
      using a(4) unfolding B[OF a(2)] by (auto simp: bind_eq_Some_conv named_hit_def split: if_splits)
    note li = layoutD(1,2)[OF L i(1)] and lj = layoutD(1,2)[OF L j(1)]
    note u = named_key_ok(1)[OF ok nth_mem[OF li(1)] li(2)] named_key_ok(1)[OF ok nth_mem[OF lj(1)] lj(2)]
    have "ks ! i' = ks ! j'" using iter_key_inj[OF u] a(5) u by (simp add: i(2) j(2))
    then have "i' = j'" using dis li(1) lj(1) nth_eq_iff_index_eq by blast
    then show "i = j" using layoutD(3)[OF L a(1,2) i(1)] j(1) by simp
  qed
qed

section \<open>Array pairs\<close>

definition vector_pairs :: "table_object \<Rightarrow> KeyValuePair list" where
  "vector_pairs t = (case t_butterfly t of None \<Rightarrow> []
     | Some b \<Rightarrow> map snd (hits (vector_entry b) (unat (m_arrayStorageCapacity (bf_header b))) 0))"

definition sparse_pairs :: "table_object \<Rightarrow> KeyValuePair list" where
  "sparse_pairs t = (case t_sparseMap t of None \<Rightarrow> [] | Some m \<Rightarrow> map snd (hits (sparse_map_entry m) (sm_hashMask m + 1) 0))"

lemma bh_HasSparseMap_iff:
  assumes "arr_ok env t g" "t_butterfly t = Some b"
  shows "bh_HasSparseMap (bf_header b) \<longleftrightarrow> HasSparseMap (t_arrayType t)"
  using arr_okD(1,2)[OF assms(1)] assms(2) by (auto simp: bh_HasSparseMap_def bf_ok_def vec_ok_def at_ok_def split: if_splits)

lemma sparse_map_iff:
  assumes "arr_ok env t g"
  shows "t_sparseMap t \<noteq> None \<longleftrightarrow> HasSparseMap (t_arrayType t)" "HasSparseMap (t_arrayType t) \<Longrightarrow> t_butterfly t \<noteq> None"
    "t_sparseMap t = Some m \<Longrightarrow> sm_repr env m g" "t_sparseMap t = None \<Longrightarrow> g = (\<lambda>_. Nil)"
proof -
  show "t_sparseMap t \<noteq> None \<longleftrightarrow> HasSparseMap (t_arrayType t)" using arr_okD(3)[OF assms] by (auto simp: sparse_ok_def)
  show "t_butterfly t \<noteq> None" if "HasSparseMap (t_arrayType t)"
  proof
    assume "t_butterfly t = None"
    then have "ArrayKind (t_arrayType t) = NoButterflyArrayPart" using arr_okD(2)[OF assms] by (simp add: bf_ok_def)
    then show False using that arr_okD(1)[OF assms] by (simp add: at_ok_def)
  qed
  show "sm_repr env m g" if "t_sparseMap t = Some m" using that arr_okD(3)[OF assms] by (simp add: sparse_ok_def)
  show "g = (\<lambda>_. Nil)" if "t_sparseMap t = None" using that arr_okD(3)[OF assms] by (simp add: sparse_ok_def)
qed

lemma trace_pairs:
  assumes "arr_ok env t g"
  shows "map snd (trace bk sh t TableObjectIterator) = named_pairs bk sh t @ vector_pairs t @ sparse_pairs t"
proof -
  have st: "map snd (states k s h) = map snd h" for k s h by (induction h) auto
  have "map snd (array_trace t) = vector_pairs t @ sparse_pairs t"
  proof (cases "t_butterfly t")
    case None
    then have "t_sparseMap t = None" using sparse_map_iff(1,2)[OF assms] by blast
    then show ?thesis using None by (simp add: array_trace_def vector_pairs_def sparse_pairs_def)
  next
    case (Some b)
    then show ?thesis using sparse_map_iff(1)[OF assms] bh_HasSparseMap_iff[OF assms Some]
      by (auto simp: array_trace_def vector_pairs_def sparse_pairs_def vector_trace_def sparse_trace_def Let_def st split: option.splits)
  qed
  then show ?thesis by (simp add: trace_def TableObjectIterator_def named_trace_def st named_pairs_def)
qed

lemma vector_entry_nth:
  assumes "arr_ok env t g" "t_butterfly t = Some b" "i < length (t_vec t)"
  shows "vector_entry b i = (if t_vec t ! i = Nil then None else Some \<lparr>kv_key = CreateDouble (index_key (i + 1)), kv_value = t_vec t ! i\<rparr>)"
proof -
  have "length (t_vec t) \<le> 2 ^ 27" using arr_okD(2)[OF assms(1)] bf_okD(2) assms(2) by (auto simp: t_vec_def)
  then have "sint (word_of_int (int (i + 1)) :: 64 word) = int (i + 1)" using index_key_index(2)[of "i + 1"] assms(3) by simp
  then have "bf_GetInVectorIndex b (word_of_int (int (i + 1))) = t_vec t ! i"
    using assms(2) by (simp add: bf_GetInVectorIndex_def bf_vec_pos_def x_arrayBaseOrd_def t_vec_def)
  then show ?thesis by (simp add: vector_entry_def IsNil_def Let_def)
qed

lemma vector_pairs_set:
  assumes "arr_ok env t g"
  shows "set (vector_pairs t) = {\<lparr>kv_key = CreateDouble (index_key (i + 1)), kv_value = t_vec t ! i\<rparr> | i. i < length (t_vec t) \<and> t_vec t ! i \<noteq> Nil}"
    "distinct (map norm_key (vector_pairs t))"
proof -
  have "set (vector_pairs t) = {\<lparr>kv_key = CreateDouble (index_key (i + 1)), kv_value = t_vec t ! i\<rparr> | i. i < length (t_vec t) \<and> t_vec t ! i \<noteq> Nil} \<and>
    distinct (map norm_key (vector_pairs t))"
  proof (cases "t_butterfly t")
    case None
    then show ?thesis by (simp add: vector_pairs_def t_vec_def)
  next
    case (Some b)
    note V = vector_entry_nth[OF assms Some]
    have n: "unat (m_arrayStorageCapacity (bf_header b)) = length (t_vec t)" "length (t_vec t) \<le> 2 ^ 27"
      using arr_okD(2)[OF assms] Some bf_okD(1,2) by (auto simp: t_vec_def)
    have P: "vector_pairs t = map snd (hits (vector_entry b) (length (t_vec t)) 0)" by (simp add: vector_pairs_def Some n(1))
    have "set (vector_pairs t) = {\<lparr>kv_key = CreateDouble (index_key (i + 1)), kv_value = t_vec t ! i\<rparr> | i. i < length (t_vec t) \<and> t_vec t ! i \<noteq> Nil}"
      unfolding P set_pairs using V by (auto split: if_splits)
    moreover have "distinct (map norm_key (vector_pairs t))" unfolding P
    proof (rule distinct_pairs)
      fix i j a b' assume a: "i < length (t_vec t)" "j < length (t_vec t)" "vector_entry b i = Some a" "vector_entry b j = Some b'" "norm_key a = norm_key b'"
      have k: "i + 1 \<le> 2 ^ 32" "j + 1 \<le> 2 ^ 32" using a(1,2) n(2) by simp_all
      have "index_key (i + 1) = index_key (j + 1)"
        using a V[OF a(1)] V[OF a(2)] index_key_index(3,4)[OF k(1)] index_key_index(3,4)[OF k(2)] by (auto split: if_splits)
      then show "i = j" using index_key_index(1,2)[OF k(1)] index_key_index(1,2)[OF k(2)] by auto
    qed
    ultimately show ?thesis by blast
  qed
  then show "set (vector_pairs t) = {\<lparr>kv_key = CreateDouble (index_key (i + 1)), kv_value = t_vec t ! i\<rparr> | i. i < length (t_vec t) \<and> t_vec t ! i \<noteq> Nil}"
    "distinct (map norm_key (vector_pairs t))" by blast+
qed

lemma sparse_pairs_set:
  assumes "arr_ok env t g"
  shows "normal ` set (sparse_pairs t) = {(k, v) | k v. \<not> IsNaN k \<and> float_norm k = k \<and> v \<noteq> Nil \<and> g k = v}" (is "_ = ?r")
    "distinct (map norm_key (sparse_pairs t))" "kv \<in> set (sparse_pairs t) \<Longrightarrow> \<exists>d. \<not> IsNaN d \<and> kv_key kv = CreateDouble d"
proof -
  have "normal ` set (sparse_pairs t) = ?r \<and> distinct (map norm_key (sparse_pairs t)) \<and>
    (\<forall>kv\<in>set (sparse_pairs t). \<exists>d. \<not> IsNaN d \<and> kv_key kv = CreateDouble d)"
  proof (cases "t_sparseMap t")
    case None
    then show ?thesis using sparse_map_iff(4)[OF assms] by (auto simp: sparse_pairs_def)
  next
    case (Some m)
    then have "sm_repr env m g" using sparse_map_iff(3)[OF assms] by blast
    then obtain n E where ok: "sm_ok env n E m" "2 * card E \<le> 2 ^ n" and F: "sm_fun E g" by (auto simp: sm_repr_def)
    note R = sm_ok_room[OF ok]
    have e: "sparse_map_entry m i = (if sm_key_of (sm_hashTable m ! i) = None \<or> sm_value (sm_hashTable m ! i) = Nil then None
      else Some \<lparr>kv_key = CreateDouble (sm_key (sm_hashTable m ! i)), kv_value = sm_value (sm_hashTable m ! i)\<rparr>)" for i
      by (simp add: sparse_map_entry_def sm_key_of_def IsNil_def Let_def)
    have P: "sparse_pairs t = map snd (hits (sparse_map_entry m) (2 ^ n) 0)" by (simp only: sparse_pairs_def Some option.case R(2))
    have mem: "sm_hashTable m ! i \<in> E \<longleftrightarrow> sm_key_of (sm_hashTable m ! i) \<noteq> None" if "i < 2 ^ n" for i
      using that tbl_D(1,2)[OF R(3)] by (auto simp: tbl_entries_def)
    have S: "set (sparse_pairs t) = {\<lparr>kv_key = CreateDouble (sm_key e), kv_value = sm_value e\<rparr> | e. e \<in> E \<and> sm_value e \<noteq> Nil}"
    proof (intro set_eqI iffI)
      fix kv assume "kv \<in> set (sparse_pairs t)"
      then show "kv \<in> {\<lparr>kv_key = CreateDouble (sm_key e), kv_value = sm_value e\<rparr> | e. e \<in> E \<and> sm_value e \<noteq> Nil}"
        unfolding P set_pairs using e mem by (fastforce split: if_splits)
    next
      fix kv assume "kv \<in> {\<lparr>kv_key = CreateDouble (sm_key e), kv_value = sm_value e\<rparr> | e. e \<in> E \<and> sm_value e \<noteq> Nil}"
      then obtain x where x: "x \<in> E" "sm_value x \<noteq> Nil" "kv = \<lparr>kv_key = CreateDouble (sm_key x), kv_value = sm_value x\<rparr>" by blast
      then have "x \<in> set (sm_hashTable m)" using tbl_D(2)[OF R(3)] by (simp add: tbl_entries_def)
      then obtain i where "i < 2 ^ n" "sm_hashTable m ! i = x" using tbl_D(1)[OF R(3)] by (metis in_set_conv_nth)
      then show "kv \<in> set (sparse_pairs t)" unfolding P set_pairs using e[of i] mem[of i] x by auto
    qed
    have nn: "\<not> IsNaN (sm_key x)" "sm_key_of x = Some (float_norm (sm_key x))" if "x \<in> E" for x
      using that tbl_D(2)[OF R(3)] by (auto simp: tbl_entries_def sm_key_of_def split: if_splits)
    have "normal ` set (sparse_pairs t) = ?r"
    proof (intro set_eqI iffI)
      fix p assume "p \<in> normal ` set (sparse_pairs t)"
      then obtain x where x: "x \<in> E" "sm_value x \<noteq> Nil" "p = normal \<lparr>kv_key = CreateDouble (sm_key x), kv_value = sm_value x\<rparr>" unfolding S by blast
      then show "p \<in> ?r" using nn[OF x(1)] sm_fun_in[OF F x(1)] by (auto simp: normal_def)
    next
      fix p assume "p \<in> ?r"
      then obtain k v where k: "\<not> IsNaN k" "float_norm k = k" "v \<noteq> Nil" "g k = v" "p = (k, v)" by blast
      then have "k \<in> tbl_keys sm_key_of E" using sm_fun_out[OF F, of k] by auto
      then obtain x where x: "x \<in> E" "sm_key_of x = Some k" by (auto simp: tbl_keys_def)
      have "normal \<lparr>kv_key = CreateDouble (sm_key x), kv_value = sm_value x\<rparr> = p"
        using nn[OF x(1)] x(2) k(4,5) sm_fun_in[OF F x] by (simp add: normal_def)
      moreover have "sm_value x \<noteq> Nil" using sm_fun_in[OF F x] k(3,4) by simp
      ultimately show "p \<in> normal ` set (sparse_pairs t)" unfolding S using x(1) by blast
    qed
    moreover have "distinct (map norm_key (sparse_pairs t))" unfolding P
    proof (rule distinct_pairs)
      fix i j a b assume a: "i < 2 ^ n" "j < 2 ^ n" "sparse_map_entry m i = Some a" "sparse_map_entry m j = Some b" "norm_key a = norm_key b"
      have i: "sm_hashTable m ! i \<in> E" "sm_hashTable m ! j \<in> E" using mem a e[of i] e[of j] by (auto split: if_splits)
      have "sm_key_of (sm_hashTable m ! i) = sm_key_of (sm_hashTable m ! j)"
        using nn[OF i(1)] nn[OF i(2)] a(3-5) e[of i] e[of j] by (auto split: if_splits)
      then have "tbl_view sm_key_of (sm_hashTable m) i \<noteq> None" "tbl_view sm_key_of (sm_hashTable m) i = tbl_view sm_key_of (sm_hashTable m) j"
        using nn(2)[OF i(2)] tbl_D(1)[OF R(3)] a(1,2) by (simp_all add: tbl_view_def)
      then show "i = j" by (rule table_okD(4)[OF tbl_D(6)[OF R(3)] a(1,2)])
    qed
    moreover have "\<forall>kv\<in>set (sparse_pairs t). \<exists>d. \<not> IsNaN d \<and> kv_key kv = CreateDouble d" unfolding S using nn(1) by fastforce
    ultimately show ?thesis by blast
  qed
  then show "normal ` set (sparse_pairs t) = ?r" "distinct (map norm_key (sparse_pairs t))"
    "kv \<in> set (sparse_pairs t) \<Longrightarrow> \<exists>d. \<not> IsNaN d \<and> kv_key kv = CreateDouble d" by blast+
qed

section \<open>Iterating over a table\<close>

lemma table_it_sized:
  assumes W: "wf_theap env (vm_sh vm) K C" and ok: "table_inv env vm K t ks g"
  shows "it_sized (vm_sh vm) t"
proof -
  note N = table_invD(2)[OF ok] and A = arr_invD(1)[OF table_invD(1)[OF ok]]
  have p: "(2::nat) ^ n < 2 ^ 32" if "n < 32" for n using that by (intro power_strict_increasing) auto
  have "case t_hiddenClass t of HStructure p \<Rightarrow> m_numSlots (struct_at (vm_sh vm) p) < 2 ^ 32 | HDictionary p d \<Rightarrow> d_hashTableMask d + 1 < 2 ^ 32"
  proof (cases "t_hiddenClass t")
    case (HStructure q)
    then obtain s where s: "sh_structs (vm_sh vm) q = Some s" using named_okD(1)[OF N] by (auto simp: hc_keys_def)
    show ?thesis using struct_slots(1,2)[OF W s] s by (simp add: HStructure struct_at_def)
  next
    case (HDictionary q d)
    then have "dict_inv env d ks" using named_okD(1)[OF N] by (simp add: hc_keys_def)
    then obtain m where "dict_ok env d m ks" by (auto simp: dict_inv_def wf_dict_def)
    then have "d_hashTableMask d + 1 = 2 ^ m" "m < 32" by (auto simp: dict_ok_def)
    then show ?thesis using p[of m] by (simp only: HDictionary hclass.case)
  qed
  moreover have "sm_hashMask m + 1 < 2 ^ 32" if m: "t_sparseMap t = Some m" for m
  proof -
    obtain n E where "sm_ok env n E m" using sparse_map_iff(3)[OF A m] by (auto simp: sm_repr_def)
    then have "sm_hashMask m + 1 = 2 ^ n" "n < 32" by (auto simp: sm_ok_def)
    then show ?thesis using p[of n] by (simp only:)
  qed
  moreover have "t_sparseMap t \<noteq> None" if "t_butterfly t = Some b" "bh_HasSparseMap (bf_header b)" for b
    using that bh_HasSparseMap_iff[OF A that(1)] sparse_map_iff(1)[OF A] by blast
  ultimately show ?thesis unfolding it_sized_def by (auto split: option.splits)
qed

lemma iterate_pairs:
  assumes W: "wf_theap env (vm_sh vm) K C" and ok: "table_inv env vm K t ks g"
  shows "iterate bk (vm_sh vm) t TableObjectIterator = Some (named_pairs bk (vm_sh vm) t @ vector_pairs t @ sparse_pairs t)"
  using iterate_trace[OF table_it_sized[OF W ok], of TableObjectIterator bk] trace_pairs[OF arr_invD(1)[OF table_invD(1)[OF ok]]]
  by (simp add: it_ok_def TableObjectIterator_def)

lemma array_pairs_set:
  assumes ok: "arr_ok env t g"
  shows "normal ` set (vector_pairs t @ sparse_pairs t) = {(float_norm d, v) | d v. \<not> IsNaN d \<and> v \<noteq> Nil \<and> arr_fun (t_vec t) g d = v}" (is "?l = ?r")
    "distinct (map norm_key (vector_pairs t @ sparse_pairs t))"
proof -
  note V = vector_pairs_set[OF ok] and S = sparse_pairs_set[OF ok]
  have len: "length (t_vec t) \<le> 2 ^ 27" using arr_okD(2)[OF ok] by (auto simp: t_vec_def bf_ok_def split: option.splits)
  have ik: "i + 1 \<le> 2 ^ 32" if "i < length (t_vec t)" for i using that len by simp
  have vn: "normal \<lparr>kv_key = CreateDouble (index_key (i + 1)), kv_value = v\<rparr> = (index_key (i + 1), v)" if "i < length (t_vec t)" for i v
    using index_key_index(3,4)[OF ik[OF that]] by (simp add: normal_def)
  have apart: "g (index_key (i + 1)) = Nil" if "i < length (t_vec t)" for i
    using arr_okD(4)[OF ok] index_key_index(2)[OF ik[OF that]] that unfolding apart_def index_key_def by simp
  have arr: "arr_fun (t_vec t) g (index_key (i + 1)) = t_vec t ! i" if "i < length (t_vec t)" for i
    using arr_fun_index[of "i + 1" "t_vec t" g] ik[OF that] that by simp
  have in_vec: "\<exists>i<length (t_vec t). float_norm d = index_key (i + 1)" if "IsInt64Index d = Some w" "vec_at (t_vec t) (sint w) = Some v" for d w v
  proof -
    have w: "1 \<le> sint w" "sint w \<le> int (length (t_vec t))" using that(2) by (auto simp: vec_at_def split: if_splits)
    then have "word_of_int (int (nat (sint w - 1) + 1)) = w" by simp
    then show ?thesis using IsInt64Index_SomeD(1)[OF that(1)] w by (intro exI[of _ "nat (sint w - 1)"]) (auto simp: index_key_def)
  qed
  have "p \<in> ?r" if "p \<in> ?l" for p
  proof -
    consider i where "i < length (t_vec t)" "t_vec t ! i \<noteq> Nil" "p = (index_key (i + 1), t_vec t ! i)"
      | k v where "\<not> IsNaN k" "float_norm k = k" "v \<noteq> Nil" "g k = v" "p = (k, v)"
      using \<open>p \<in> ?l\<close> vn unfolding set_append image_Un S(1) V(1) by blast
    then show ?thesis
    proof cases
      case 1
      then show ?thesis using index_key_index(3,4)[OF ik[OF 1(1)]] arr[OF 1(1)] 
        by (intro CollectI exI[of _ "index_key (i + 1)"] exI[of _ "t_vec t ! i"]) simp
    next
      case 2
      have "arr_fun (t_vec t) g k = v"
        using in_vec[of k] 2 apart by (fastforce simp: arr_fun_def split: option.splits)
      then show ?thesis using 2 by (intro CollectI exI[of _ k] exI[of _ v]) simp
    qed
  qed
  moreover have "p \<in> ?l" if "p \<in> ?r" for p
  proof -
    obtain d v where d: "\<not> IsNaN d" "v \<noteq> Nil" "arr_fun (t_vec t) g d = v" "p = (float_norm d, v)" using \<open>p \<in> ?r\<close> by blast
    show ?thesis
    proof (cases "\<exists>w x. IsInt64Index d = Some w \<and> vec_at (t_vec t) (sint w) = Some x")
      case True
      then obtain i where i: "i < length (t_vec t)" "float_norm d = index_key (i + 1)" using in_vec by blast
      have "arr_fun (t_vec t) g d = arr_fun (t_vec t) g (float_norm d)" unfolding arr_fun_def IsInt64Index_norm float_norm_idem by (rule refl)
      then have "t_vec t ! i = v" using arr[OF i(1)] d(3) i(2) by simp
      then have "\<lparr>kv_key = CreateDouble (index_key (i + 1)), kv_value = v\<rparr> \<in> set (vector_pairs t)" using V(1) i(1) d(2) by auto
      then show ?thesis using vn[OF i(1), of v] i(2) d(4) by (metis Un_iff imageI set_append)
    next
      case False
      then have "g (float_norm d) = v" using d(3) by (auto simp: arr_fun_def split: option.splits)
      then have "p \<in> normal ` set (sparse_pairs t)" unfolding S(1) using d by auto
      then show ?thesis by auto
    qed
  qed
  ultimately show "?l = ?r" by blast
  have "norm_key ` set (vector_pairs t) \<inter> norm_key ` set (sparse_pairs t) = {}"
  proof (rule ccontr)
    assume "\<not> ?thesis"
    then obtain x y where xy: "x \<in> set (vector_pairs t)" "y \<in> set (sparse_pairs t)" "norm_key x = norm_key y" by blast
    obtain i where i: "i < length (t_vec t)" "normal x = (index_key (i + 1), kv_value x)" using xy(1) vn unfolding V(1) by (auto simp: normal_def)
    have "normal y \<in> {(k, v) | k v. \<not> IsNaN k \<and> float_norm k = k \<and> v \<noteq> Nil \<and> g k = v}" using xy(2) S(1) by blast
    then show False using i xy(3) apart[OF i(1)] by (simp add: normal_def)
  qed
  then show "distinct (map norm_key (vector_pairs t @ sparse_pairs t))" using V(2) S(2) by simp
qed

text \<open>All the pairs: the named and the numbered ones.\<close>

lemma iterate_set:
  fixes bk :: "bool \<Rightarrow> gkey"
  assumes W: "wf_theap env (vm_sh vm) K C" and ok: "table_inv env vm K t ks g"
  defines "kvs \<equiv> named_pairs bk (vm_sh vm) t @ vector_pairs t @ sparse_pairs t"
  shows "distinct (map norm_key kvs)"
    "normal ` set kvs = {(iter_key bk t k, v) | k v. good_key env False k \<and> v \<noteq> Nil \<and> named_fun ks (t_slots t) k = v} \<union>
      {(float_norm d, v) | d v. \<not> IsNaN d \<and> v \<noteq> Nil \<and> arr_fun (t_vec t) g d = v}"
proof -
  note N = table_invD(2)[OF ok] and A = arr_invD(1)[OF table_invD(1)[OF ok]]
  let ?n = "named_pairs bk (vm_sh vm) t" and ?a = "vector_pairs t @ sparse_pairs t"
  have n: "normal \<lparr>kv_key = iter_key bk t k, kv_value = v\<rparr> = (iter_key bk t k, v)" if "good_key env False k" for k v
    using norm_key_named[of k] that by (simp add: normal_def good_key_def)
  have ni: "normal ` set ?n = {(iter_key bk t k, v) | k v. good_key env False k \<and> v \<noteq> Nil \<and> named_fun ks (t_slots t) k = v}"
    unfolding named_pairs_set[OF W N] using n by (force simp: image_def)
  then show "normal ` set kvs = {(iter_key bk t k, v) | k v. good_key env False k \<and> v \<noteq> Nil \<and> named_fun ks (t_slots t) k = v} \<union>
      {(float_norm d, v) | d v. \<not> IsNaN d \<and> v \<noteq> Nil \<and> arr_fun (t_vec t) g d = v}"
    using array_pairs_set(1)[OF A] unfolding kvs_def by (simp only: set_append[of ?n] image_Un)
  have "norm_key ` set ?n \<inter> norm_key ` set ?a = {}"
  proof (rule ccontr)
    assume "\<not> ?thesis"
    then obtain x y where xy: "x \<in> set ?n" "y \<in> set ?a" "norm_key x = norm_key y" by blast
    have "normal x \<in> {(iter_key bk t k, v) | k v. good_key env False k \<and> v \<noteq> Nil \<and> named_fun ks (t_slots t) k = v}" using xy(1) ni by blast
    moreover have "normal y \<in> {(float_norm d, v) | d v. \<not> IsNaN d \<and> v \<noteq> Nil \<and> arr_fun (t_vec t) g d = v}" using xy(2) array_pairs_set(1)[OF A] by blast
    ultimately obtain k d where "good_key env False k" "\<not> IsNaN d" "iter_key bk t k = float_norm d" using xy(3) by (auto simp: normal_def)
    then show False using iter_key_not_double[of k "float_norm d" bk t] by (simp add: good_key_def)
  qed
  then show "distinct (map norm_key kvs)"
    using named_pairs_distinct[OF W N, of bk] array_pairs_set(2)[OF A] unfolding kvs_def map_append[of norm_key ?n] distinct_append set_map by blast
qed

section \<open>Continuing from a key\<close>

lemma number_box:
  assumes "\<not> IsNaN d"
  shows "in_box BoxDouble d"
proof (rule ccontr)
  assume "\<not> in_box BoxDouble d"
  then have lo: "0xFFFB000000000000 \<le> unat d" by (simp add: word_le_nat_alt)
  have hi: "unat d < 2 ^ 64" using unsigned_less[of d, where 'a=nat] by simp
  have q: "unat d div 2 ^ 52 = 0xFFF" using lo hi by (intro div_nat_eqI) auto
  have "unat d mod 2 ^ 52 = unat d - 2 ^ 52 * 0xFFF"
    using minus_div_mult_eq_mod[of "unat d" "2 ^ 52"] unfolding q by (simp add: mult.commute)
  then show False using lo q assms unfolding IsNaN_unat by simp
qed

lemma box_tests:
  assumes "in_box k v"
  shows "IsInt32 v \<longleftrightarrow> k = BoxInt32" "IsMIV v \<longleftrightarrow> k = BoxMiv" "IsPointer v \<longleftrightarrow> k = BoxPointer"
proof -
  have "boxed v" using assms by (cases k) (auto simp: boxed_def)
  note T = type_test_iff[OF this]
  have U: "in_box k' v \<longleftrightarrow> k = k'" for k' using assms in_box_unique by blast
  show "IsInt32 v \<longleftrightarrow> k = BoxInt32" "IsMIV v \<longleftrightarrow> k = BoxMiv" "IsPointer v \<longleftrightarrow> k = BoxPointer"
    using T[of BoxInt32] T[of BoxMiv] T[of BoxPointer] U by (simp_all add: type_test_def)
qed

lemma Nil_box: "in_box BoxMiv Nil"
  unfolding Nil_def by (rule in_box_CreateMIV) (simp add: valid_miv_def miv_CreateNil_def)

lemma not_Nil: "in_box k v \<Longrightarrow> k \<noteq> BoxMiv \<Longrightarrow> \<not> IsNil v"
  using Nil_box in_box_unique unfolding IsNil_def by blast

lemma next_pointer:
  assumes "user_ptr k"
  shows "GetNextFromKey bk env sh t (boxed_key k) = next_named bk env sh t k"
  using box_tests[OF boxed_key_box[OF assms]] not_Nil[OF boxed_key_box[OF assms]] boxed_key_unbox[OF assms]
  by (simp add: GetNextFromKey_def)

lemma boolean_tests: "\<not> IsNil (CreateBoolean b)" "IsMIV (CreateBoolean b)" "\<not> miv_IsNil (AsMIV (CreateBoolean b))"
  "miv_GetBooleanValue (AsMIV (CreateBoolean b)) = b"
proof -
  show "IsMIV (CreateBoolean b)" using box_tests(2)[OF boolean_box[of b]] by simp
  show "\<not> IsNil (CreateBoolean b)" "\<not> miv_IsNil (AsMIV (CreateBoolean b))" "miv_GetBooleanValue (AsMIV (CreateBoolean b)) = b"
    unfolding IsNil_def CreateBoolean_def AsMIV_CreateMIV
    by (cases b; simp add: Nil_def CreateMIV_def miv_IsNil_def miv_GetBooleanValue_def miv_CreateBoolean_def miv_CreateNil_def tvalue_consts)+
qed

lemma next_boolean:
  assumes "user_ptr (bk b)"
  shows "GetNextFromKey bk env sh t (CreateBoolean b) = next_named bk env sh t (bk b)"
  using box_tests[OF boxed_key_box[OF assms]] boxed_key_unbox[OF assms]
  by (simp add: GetNextFromKey_def boolean_tests Let_def)

lemma next_iter_key:
  assumes "user_ptr k"
  shows "GetNextFromKey bk env sh t (iter_key bk t k) = next_named bk env sh t k"
  using next_pointer[OF assms] next_boolean[of bk] assms by (cases "t_hiddenClass t") (auto simp: iter_key_def)

lemma dict_slot_number:
  assumes wf: "wf_dict env d ks" and j: "j < length ks"
  shows "\<exists>p < d_hashTableMask d + 1. GetHashTableSlotNumberForProperty env d (ks ! j) = Some (Some p) \<and> d_hashTable d ! p = dent ks j"
proof -
  obtain m where ok: "dict_ok env d m ks" "2 * length ks \<le> 2 ^ m" using wf by (auto simp: wf_dict_def)
  let ?E = "dent ks ` {..<length ks}" and ?k = "ks ! j"
  have m: "d_hashTableMask d = 2 ^ m - 1" "d_hashTableMask d + 1 = 2 ^ m" and d: "distinct ks" "0 \<notin> set ks"
    and T: "dtbl env m (d_hashTable d) ?E" using ok by (auto simp: dict_ok_def)
  have r: "card ?E < 2 ^ m" using half_less[OF ok(2)] by (simp add: card_dent)
  let ?body = "\<lambda>slot. let e = d_hashTable d ! slot in
              if de_key e = 0 then Some None else if de_key e = ?k then Some (Some slot) else None"
  have F: "GetHashTableSlotNumberForProperty env d ?k = probe ?body (fwd_step (2 ^ m - 1)) (2 ^ m) (fwd_start (dhash env) (2 ^ m - 1) ?k)"
    unfolding GetHashTableSlotNumberForProperty_def Let_def m(2) by (simp only: m(1) fwd_start_def)
  have body: "de_key_of (d_hashTable d ! p) = None \<Longrightarrow> ?body p = Some None"
    "de_key_of (d_hashTable d ! p) = Some ?k \<Longrightarrow> ?body p = Some (Some p)"
    "de_key_of (d_hashTable d ! p) = Some k' \<Longrightarrow> k' \<noteq> ?k \<Longrightarrow> ?body p = None" for p k'
    by (auto simp: de_key_of_def Let_def split: if_splits)
  have "?k \<in> tbl_keys de_key_of ?E" unfolding dent_keys[OF d(2)] using j by simp
  with fwd.tbl_find[OF T r, of ?body "\<lambda>_. None" ?k Some] body obtain p where p: "p < 2 ^ m" "d_hashTable d ! p \<in> ?E"
    "de_key_of (d_hashTable d ! p) = Some ?k" "GetHashTableSlotNumberForProperty env d ?k = Some (Some p)" unfolding F by auto
  then obtain i where i: "i < length ks" "d_hashTable d ! p = dent ks i" by blast
  then have "ks ! i = ks ! j" using p(3) by (auto simp: dent_def de_key_of_def split: if_splits)
  then have "i = j" using d(1) i(1) j nth_eq_iff_index_eq by blast
  then show ?thesis using p i(2) unfolding m(2) by blast
qed

lemma next_named_position:
  assumes W: "wf_theap env sh K C" and ok: "named_ok env sh K t ks" and
    it: "(it, kv) \<in> set (states 0 NamedProperty (case t_hiddenClass t of
      HStructure p \<Rightarrow> hits (structure_prop bk sh t (struct_at sh p)) (m_numSlots (struct_at sh p)) 0
    | HDictionary p d \<Rightarrow> hits (dictionary_prop t d) (d_hashTableMask d + 1) 0))"
  shows "GetNextFromKey bk env sh t (kv_key kv) = Some (Some (snd (ti_Advance bk sh t it)))"
proof (cases "t_hiddenClass t")
  case (HStructure p)
  obtain s where s: "sh_structs sh p = Some s" "ks = K p" using named_okD(1)[OF ok] HStructure by (auto simp: hc_keys_def)
  have st: "struct_at sh p = s" using s(1) by (simp add: struct_at_def)
  obtain i where i: "i < m_numSlots s" "structure_prop bk sh t s i = Some kv" "it = \<lparr>ti_ord = i, ti_state = NamedProperty\<rparr>"
    using it by (auto simp: HStructure states_def set_hits st)
  then have j: "i < length ks" "ks ! i \<noteq> env_specialKey env" "kv_key kv = iter_key bk t (ks ! i)"
    using structure_layout(2)[OF W ok HStructure, of i bk] by (auto simp: st named_hit_def split: if_splits)
  have look: "GetSlotOrdinalFromMaybeNonStringProperty env sh s (ks ! i) = Some (Some i)"
    using wf_lookup[OF W s(1), of "ks ! i"] slot_index_nth[OF t_slots_length(4)[OF W ok] j(1)] s(2) by simp
  show ?thesis unfolding j(3) next_iter_key[OF named_key_ok(1)[OF ok nth_mem[OF j(1)] j(2)]] next_named_def HStructure hclass.case st look i(3)
    by simp
next
  case (HDictionary p d)
  obtain i where i: "i < d_hashTableMask d + 1" "dictionary_prop t d i = Some kv" "it = \<lparr>ti_ord = i, ti_state = NamedProperty\<rparr>"
    using it by (auto simp: HDictionary states_def set_hits simp del: Suc_eq_plus1)
  have inv: "wf_dict env d ks" using named_okD(1)[OF ok] HDictionary by (simp add: hc_keys_def dict_inv_def)
  obtain j where j: "dict_layout d i = Some j" "kv_key kv = iter_key bk t (ks ! j)"
    using i(2) unfolding dictionary_layout(2)[OF W ok HDictionary i(1), of bk] by (auto simp: named_hit_def bind_eq_Some_conv split: if_splits)
  note L = dictionary_layout(1)[OF W ok HDictionary]
  note lj = layoutD(1,2)[OF L j(1)]
  obtain q where q: "q < d_hashTableMask d + 1" "GetHashTableSlotNumberForProperty env d (ks ! j) = Some (Some q)" "d_hashTable d ! q = dent ks j"
    using dict_slot_number[OF inv lj(1)] by blast
  have "ks ! j \<noteq> 0" using wf_dictD(2)[OF inv] nth_mem[OF lj(1)] by metis
  then have "dict_layout d q = Some j" using q by (simp add: dict_layout_def dent_def)
  then have "q = i" using layoutD(3)[OF L q(1) i(1)] j(1) by blast
  then show ?thesis unfolding j(2) next_iter_key[OF named_key_ok(1)[OF ok nth_mem[OF lj(1)] lj(2)]] next_named_def HDictionary hclass.case i(3)
    using q(2) by simp
qed

lemma next_number:
  assumes "\<not> IsNaN d" "t_butterfly t = Some b"
  shows "GetNextFromKey bk env sh t (CreateDouble d) = (case IsInt64Index d of
      None \<Rightarrow> next_in_sparse_map bk env sh t d
    | Some idx64 \<Rightarrow> if \<not> IndexFitsInVectorCapacity (bf_header b) idx64 then next_in_sparse_map bk env sh t d
                    else Some (Some (snd (ti_Advance bk sh t \<lparr>ti_ord = unat idx64, ti_state = InVectorStorage\<rparr>))))"
  using box_tests[OF number_box[OF assms(1)]] not_Nil[OF number_box[OF assms(1)]] assms
  by (simp add: GetNextFromKey_def CreateDouble_def AsDouble_def Let_def t_header_def split: option.splits)

lemma next_vector_position:
  assumes ok: "arr_ok env t g" and b: "t_butterfly t = Some b" and
    it: "(it, kv) \<in> set (states 1 InVectorStorage (hits (vector_entry b) (unat (m_arrayStorageCapacity (bf_header b))) 0))"
  shows "GetNextFromKey bk env sh t (kv_key kv) = Some (Some (snd (ti_Advance bk sh t it)))"
proof -
  have bo: "bf_ok (t_arrayType t) (Some b)" using arr_okD(2)[OF ok] b by simp
  have v: "t_vec t = bf_vector b" using b by (simp add: t_vec_def)
  obtain i where i: "i < length (t_vec t)" "vector_entry b i = Some kv" "it = \<lparr>ti_ord = i + 1, ti_state = InVectorStorage\<rparr>"
    using it bf_okD(1)[OF bo] by (auto simp: states_def set_hits v)
  have k: "kv_key kv = CreateDouble (index_key (i + 1))" using vector_entry_nth[OF ok b i(1)] i(2) by (auto split: if_splits)
  have le: "i + 1 \<le> 2 ^ 32" using i(1) bf_okD(2)[OF bo] by (simp add: v)
  note I = index_key_index[OF le]
  have "IndexFitsInVectorCapacity (bf_header b) (word_of_int (int (i + 1)))" unfolding fits_iff[OF bo] I(2) using i(1) by (simp add: v)
  moreover have "unat (word_of_int (int (i + 1)) :: 64 word) = i + 1"
    using le by (simp add: unat_of_nat take_bit_nat_eq_self del: of_nat_Suc of_nat_add)
  ultimately show ?thesis unfolding k next_number[OF I(4) b] I(1) i(3) by simp
qed

lemma next_sparse_position:
  assumes ok: "arr_ok env t g" and b: "t_butterfly t = Some b" and m: "t_sparseMap t = Some m" and
    it: "(it, kv) \<in> set (states 0 InSparseMap (hits (sparse_map_entry m) (sm_hashMask m + 1) 0))"
  shows "GetNextFromKey bk env sh t (kv_key kv) = Some (Some (snd (ti_Advance bk sh t it)))"
proof -
  obtain n E where R: "sm_ok env n E m" "2 * card E \<le> 2 ^ n" and F: "sm_fun E g" using sparse_map_iff(3)[OF ok m] by (auto simp: sm_repr_def)
  note T = sm_ok_room[OF R]
  obtain i where i: "i < 2 ^ n" "sparse_map_entry m i = Some kv" "it = \<lparr>ti_ord = i, ti_state = InSparseMap\<rparr>"
    using it unfolding T(2) by (auto simp: states_def set_hits)
  let ?e = "sm_hashTable m ! i" let ?k = "sm_key ?e"
  have e: "\<not> IsNaN ?k" "kv_key kv = CreateDouble ?k" "sm_value ?e \<noteq> Nil"
    using i(2) by (auto simp: sparse_map_entry_def Let_def IsNil_def split: if_splits)
  have ko: "sm_key_of ?e = Some (float_norm ?k)" using e(1) by (simp add: sm_key_of_def)
  have mem: "?e \<in> E" using i(1) tbl_D(1,2)[OF T(3)] ko by (auto simp: tbl_entries_def)
  have gv: "g (float_norm ?k) \<noteq> Nil" using sm_fun_in[OF F mem ko] e(3) by simp
  have "float_norm ?k \<in> tbl_keys sm_key_of E" using mem ko by (auto simp: tbl_keys_def)
  with sm_probe[OF R e(1), of Some "\<lambda>_. None"] obtain p where p: "p < 2 ^ n" "sm_key_of (sm_hashTable m ! p) = Some (float_norm ?k)"
    "GetHashSlotOrdinal env m ?k = Some (Some p)" unfolding GetHashSlotOrdinal_def Let_def by auto
  have "tbl_view sm_key_of (sm_hashTable m) p \<noteq> None" "tbl_view sm_key_of (sm_hashTable m) p = tbl_view sm_key_of (sm_hashTable m) i"
    using p(1,2) i(1) ko tbl_D(1)[OF T(3)] by (simp_all add: tbl_view_def)
  then have "p = i" by (rule table_okD(4)[OF tbl_D(6)[OF T(3)] p(1) i(1)])
  moreover have "bh_HasSparseMap (t_header t)" using bh_HasSparseMap_iff[OF ok b] sparse_map_iff(1)[OF ok] m b by (simp add: t_header_def)
  ultimately have S: "next_in_sparse_map bk env sh t ?k = Some (Some (snd (ti_Advance bk sh t it)))"
    using p(3) by (simp add: next_in_sparse_map_def m i(3))
  have bo: "bf_ok (t_arrayType t) (Some b)" using arr_okD(2)[OF ok] b by simp
  have "\<not> IndexFitsInVectorCapacity (bf_header b) w" if w: "IsInt64Index ?k = Some w" for w
    using arr_okD(4)[OF ok] fits_iff[OF bo, of w] gv IsInt64Index_SomeD(1)[OF w] b by (auto simp: apart_def t_vec_def)
  then show ?thesis unfolding e(2) next_number[OF e(1) b] using S by (auto split: option.splits)
qed

lemma next_position:
  assumes W: "wf_theap env (vm_sh vm) K C" and ok: "table_inv env vm K t ks g"
    and it: "(it, kv) \<in> set (trace bk (vm_sh vm) t TableObjectIterator)"
  shows "GetNextFromKey bk env (vm_sh vm) t (kv_key kv) = Some (Some (snd (ti_Advance bk (vm_sh vm) t it)))"
proof -
  note N = table_invD(2)[OF ok] and A = arr_invD(1)[OF table_invD(1)[OF ok]]
  let ?n = "states 0 NamedProperty (case t_hiddenClass t of
      HStructure p \<Rightarrow> hits (structure_prop bk (vm_sh vm) t (struct_at (vm_sh vm) p)) (m_numSlots (struct_at (vm_sh vm) p)) 0
    | HDictionary p d \<Rightarrow> hits (dictionary_prop t d) (d_hashTableMask d + 1) 0)"
  have "trace bk (vm_sh vm) t TableObjectIterator = ?n @ array_trace t" by (simp add: trace_def TableObjectIterator_def named_trace_def)
  then consider "(it, kv) \<in> set ?n" | "(it, kv) \<in> set (array_trace t)" using it by auto
  then show ?thesis
  proof cases
    case 1
    then show ?thesis by (rule next_named_position[OF W N])
  next
    case 2
    then obtain b where b: "t_butterfly t = Some b" by (cases "t_butterfly t") (auto simp: array_trace_def)
    have "(it, kv) \<in> set (states 1 InVectorStorage (hits (vector_entry b) (unat (m_arrayStorageCapacity (bf_header b))) 0)) \<or>
      bh_HasSparseMap (bf_header b) \<and> (it, kv) \<in> set (sparse_trace t 0)"
      using 2 by (auto simp: array_trace_def b vector_trace_def Let_def split: if_splits)
    then show ?thesis
    proof
      assume "(it, kv) \<in> set (states 1 InVectorStorage (hits (vector_entry b) (unat (m_arrayStorageCapacity (bf_header b))) 0))"
      then show ?thesis by (rule next_vector_position[OF A b])
    next
      assume s: "bh_HasSparseMap (bf_header b) \<and> (it, kv) \<in> set (sparse_trace t 0)"
      then obtain m where m: "t_sparseMap t = Some m" using bh_HasSparseMap_iff[OF A b] sparse_map_iff(1)[OF A] by auto
      then show ?thesis using s next_sparse_position[OF A b m, of it kv bk "vm_sh vm"] by (simp add: sparse_trace_def Let_def)
    qed
  qed
qed

lemma pair_key_not_Nil:
  assumes W: "wf_theap env (vm_sh vm) K C" and ok: "table_inv env vm K t ks g"
    and kv: "kv \<in> set (named_pairs bk (vm_sh vm) t @ vector_pairs t @ sparse_pairs t)"
  shows "kv_key kv \<noteq> Nil"
proof
  assume n: "kv_key kv = Nil"
  have "\<not> IsDouble Nil" using Nil_box by (auto simp: IsDouble_def x_int32Tag_def word_less_nat_alt word_le_nat_alt)
  then have nk: "fst (normal kv) = Nil" using n by (simp add: normal_def norm_key_def)
  have "normal kv \<in> {(iter_key bk t k, v) | k v. good_key env False k \<and> v \<noteq> Nil \<and> named_fun ks (t_slots t) k = v} \<union>
      {(float_norm d, v) | d v. \<not> IsNaN d \<and> v \<noteq> Nil \<and> arr_fun (t_vec t) g d = v}"
    using iterate_set(2)[OF W ok, of bk] kv by blast
  then consider k where "good_key env False k" "iter_key bk t k = Nil" | d where "\<not> IsNaN d" "float_norm d = Nil" using nk by auto
  then show False
  proof cases
    case 1
    then have "user_ptr k" by (simp add: good_key_def)
    then show False using 1(2) not_Nil[OF boxed_key_box] boolean_tests(1)
      by (cases "t_hiddenClass t") (auto simp: iter_key_def IsNil_def split: if_splits)
  next
    case 2
    then have "in_box BoxDouble Nil" using number_box[of "float_norm d"] by (metis float_norm_NaN)
    then show False using Nil_box in_box_unique by blast
  qed
qed

text \<open>The loop of a client of the Lua function \<^verbatim>\<open>next\<close>.\<close>

partial_function (option) next_loop :: "(bool \<Rightarrow> gkey) \<Rightarrow> vm_env \<Rightarrow> sheap \<Rightarrow> table_object \<Rightarrow> tvalue \<Rightarrow> KeyValuePair list option" where
  "next_loop bk env sh obj key = Option.bind (GetNextFromKey bk env sh obj key) (\<lambda>r. Option.bind r (\<lambda>kv.
     if IsNil (kv_key kv) then Some [] else Option.bind (next_loop bk env sh obj (kv_key kv)) (\<lambda>kvs. Some (kv # kvs))))"

lemma next_loop_suffix:
  assumes W: "wf_theap env (vm_sh vm) K C" and ok: "table_inv env vm K t ks g"
    and key: "GetNextFromKey bk env (vm_sh vm) t key = Some (Some (snd (ti_Advance bk (vm_sh vm) t it)))" and it: "it_ok (vm_sh vm) t it"
    and sub: "trace bk (vm_sh vm) t it = l" "set l \<subseteq> set (trace bk (vm_sh vm) t TableObjectIterator)"
  shows "next_loop bk env (vm_sh vm) t key = Some (map snd l)"
  using key it sub
proof (induction l arbitrary: key it)
  case Nil
  have "advances (ti_Advance bk (vm_sh vm) t it) []" using Advance_trace[OF Nil(2), of bk] Nil(3) by simp
  then show ?case using Nil by (subst next_loop.simps) (simp add: advances_def no_pair_def IsNil_def)
next
  case (Cons x l)
  obtain it' kv where x: "x = (it', kv)" by (cases x)
  then have tr: "trace bk (vm_sh vm) t it = (it', kv) # l" using Cons(4) by simp
  have adv: "ti_Advance bk (vm_sh vm) t it = (it', kv)" using Advance_trace[OF Cons(3), of bk] tr by (simp add: advances_def)
  have mem: "(it', kv) \<in> set (trace bk (vm_sh vm) t TableObjectIterator)" using Cons(5) x by simp
  note T = trace_tail[OF tr table_it_sized[OF W ok] Cons(3)]
  have nl: "next_loop bk env (vm_sh vm) t (kv_key kv) = Some (map snd l)"
    using Cons(1)[OF next_position[OF W ok mem]] T Cons(5) by auto
  have "kv \<in> set (map snd (trace bk (vm_sh vm) t TableObjectIterator))" using mem by force
  then have "kv_key kv \<noteq> Nil" using pair_key_not_Nil[OF W ok] unfolding trace_pairs[OF arr_invD(1)[OF table_invD(1)[OF ok]]] by blast
  then show ?case using Cons(2) nl x by (subst next_loop.simps) (simp add: adv IsNil_def)
qed

section \<open>Properties of the iterator\<close>

text \<open>
  C16. Iterating over a table that the operations can reach ends, and visits every key with a value exactly once and no other key: the named
  properties, reported under their keys, and the numbers, where the two zeros are one key. The values are the ones that
  reading the table gives.
\<close>

theorem iterate_correct:
  assumes "world_reach env w" "t \<in> set (w_tables w)"
  shows "\<exists>kvs. iterate bk (vm_sh (w_vm w)) t TableObjectIterator = Some kvs \<and> distinct (map norm_key kvs) \<and>
    normal ` set kvs =
      {(iter_key bk t k, v) | k v. good_key env False k \<and> v \<noteq> Nil \<and> RawGetPropertyFromTableObject env (vm_sh (w_vm w)) False t k = Some v} \<union>
      {(CreateDouble (float_norm d), v) | d v. \<not> IsNaN d \<and> v \<noteq> Nil \<and> GetByDoubleVal env t d (PrepareGetByIntegerIndex t) = Some v}"
proof -
  obtain K C ks g where W: "wf_theap env (vm_sh (w_vm w)) K C" and ok: "table_inv env (w_vm w) K t ks g"
    by (rule reach_table[OF assms])
  have n: "{(iter_key bk t k, v) | k v. good_key env False k \<and> v \<noteq> Nil \<and> RawGetPropertyFromTableObject env (vm_sh (w_vm w)) False t k = Some v} =
      {(iter_key bk t k, v) | k v. good_key env False k \<and> v \<noteq> Nil \<and> named_fun ks (t_slots t) k = v}"
    using named_get_inv[OF W ok, of False] by auto
  have a: "{(CreateDouble (float_norm d), v) | d v. \<not> IsNaN d \<and> v \<noteq> Nil \<and> GetByDoubleVal env t d (PrepareGetByIntegerIndex t) = Some v} =
      {(float_norm d, v) | d v. \<not> IsNaN d \<and> v \<noteq> Nil \<and> arr_fun (t_vec t) g d = v}"
    using array_get_inv[OF ok] by (auto simp: CreateDouble_def)
  show ?thesis using iterate_pairs[OF W ok] iterate_set[OF W ok, of bk] unfolding n a by blast
qed

definition example_bk :: "bool \<Rightarrow> gkey" where
  "example_bk b = (if b then - 1073741830 else - 1073741831)"

theorem iterate_correct_witness:
  "\<exists>kvs. iterate example_bk example_heap example_table TableObjectIterator = Some kvs \<and> distinct (map norm_key kvs)"
proof -
  obtain kvs where "iterate example_bk example_heap example_table TableObjectIterator = Some kvs" "distinct (map norm_key kvs)"
    using iterate_correct[OF example_world_reach example_table_in(1), of example_bk] unfolding example_table_in(2,3) by (elim exE conjE) (rule that)
  then show ?thesis by blast
qed

text \<open>
  C17. Walking over a table with the function behind Lua's \<^verbatim>\<open>next\<close>, from nil and then from the key of each returned pair, ends and gives
  the same pairs in the same order as the iterator.
\<close>

theorem next_loop_iterate:
  assumes "world_reach env w" "t \<in> set (w_tables w)"
  shows "\<exists>kvs. next_loop bk env (vm_sh (w_vm w)) t Nil = Some kvs \<and> iterate bk (vm_sh (w_vm w)) t TableObjectIterator = Some kvs"
proof -
  obtain K C ks g where W: "wf_theap env (vm_sh (w_vm w)) K C" and ok: "table_inv env (w_vm w) K t ks g"
    by (rule reach_table[OF assms])
  let ?tr = "trace bk (vm_sh (w_vm w)) t TableObjectIterator"
  have i: "it_ok (vm_sh (w_vm w)) t TableObjectIterator" by (simp add: it_ok_def TableObjectIterator_def)
  have "next_loop bk env (vm_sh (w_vm w)) t Nil = Some (map snd ?tr)"
    by (rule next_loop_suffix[OF W ok _ i refl]) (simp_all add: GetNextFromKey_def IsNil_def)
  then show ?thesis using iterate_trace[OF table_it_sized[OF W ok] i, of bk] by simp
qed

theorem next_loop_iterate_witness:
  "\<exists>kvs. next_loop example_bk example_env example_heap example_table Nil = Some kvs \<and>
    iterate example_bk example_heap example_table TableObjectIterator = Some kvs"
  using next_loop_iterate[OF example_world_reach example_table_in(1), of example_bk] unfolding example_table_in(2,3) .

text \<open>
  C39. A table whose hidden class is a dictionary reports a boolean key as the pointer to the string that stands for the boolean, and never as
  the boolean.
\<close>

theorem dictionary_boolean_key:
  assumes "world_reach env w" "t \<in> set (w_tables w)" "t_hiddenClass t = HDictionary p d" "good_key env False (bk b)"
    "RawGetPropertyFromTableObject env (vm_sh (w_vm w)) False t (bk b) = Some v" "v \<noteq> Nil"
  shows "\<exists>kvs. iterate bk (vm_sh (w_vm w)) t TableObjectIterator = Some kvs \<and>
    (boxed_key (bk b), v) \<in> normal ` set kvs \<and> CreateBoolean b \<notin> norm_key ` set kvs"
proof -
  obtain K C ks g where W: "wf_theap env (vm_sh (w_vm w)) K C" and ok: "table_inv env (w_vm w) K t ks g"
    by (rule reach_table[OF assms(1,2)])
  let ?kvs = "named_pairs bk (vm_sh (w_vm w)) t @ vector_pairs t @ sparse_pairs t"
  note S = iterate_set(2)[OF W ok, of bk]
  have k: "iter_key bk t k = boxed_key k" for k by (simp add: iter_key_def assms(3))
  have "named_fun ks (t_slots t) (bk b) = v" using named_get_inv[OF W ok assms(4)] assms(5) by simp
  then have "(boxed_key (bk b), v) \<in> normal ` set ?kvs" unfolding S k using assms(4,6) by blast
  moreover have "CreateBoolean b \<notin> norm_key ` set ?kvs"
  proof
    assume "CreateBoolean b \<in> norm_key ` set ?kvs"
    then obtain kv where kv: "kv \<in> set ?kvs" "norm_key kv = CreateBoolean b" unfolding image_iff by metis
    then have "normal kv \<in> normal ` set ?kvs" by blast
    then consider k where "good_key env False k" "CreateBoolean b = boxed_key k" | x where "\<not> IsNaN x" "CreateBoolean b = float_norm x"
      unfolding S k normal_def kv(2) by blast
    then show False
    proof cases
      case 1
      then show False using boxed_key_box[of k] boolean_box[of b] in_box_unique[of BoxPointer _ BoxMiv] by (auto simp: good_key_def)
    next
      case 2
      then show False using number_box[of "float_norm x"] boolean_box[of b] in_box_unique[of BoxDouble "float_norm x" BoxMiv] by simp
    qed
  qed
  ultimately show ?thesis using iterate_pairs[OF W ok] by blast
qed


lemma InsertField_dictionary:
  assumes "t_hiddenClass t = HDictionary p d" "InsertField env vm str t key v = Some (vm', t')"
  shows "\<exists>d'. t_hiddenClass t' = HDictionary p d'"
  using assms
  by (auto simp: InsertField_def t_PreparePutById_def PreparePutByIdForCacheableDictionary_def PutById_def put_ic_def Let_def
      set_inline_def set_outlined_def split: option.splits if_splits)

lemma example_global:
  "\<exists>vm t p d. CreateEmptyGlobalObject (w_vm initial_world) = Some (vm, t) \<and> t_hiddenClass t = HDictionary p d \<and> dict_room d"
  by (auto simp: CreateEmptyGlobalObject_def CreateEmptyDictionary_def AllocFromSystemHeap_def AllocFromUserHeap_def initial_world_def
      empty_sheap_def sizeof_CacheableDictionary_def ComputeObjectAllocationSize_def x_maxNumSlots_def x_vmBaseOffset_def x_vmUserHeapSize_def
      dict_room_def dict_full_def Let_def)

lemma example_global_world:
  "\<exists>w t p d. world_reach example_env w \<and> t \<in> set (w_tables w) \<and> t_hiddenClass t = HDictionary p d \<and>
    RawGetPropertyFromTableObject example_env (vm_sh (w_vm w)) False t (example_bk b) = Some 7"
proof -
  obtain vm t p d where c: "CreateEmptyGlobalObject (w_vm initial_world) = Some (vm, t)" "t_hiddenClass t = HDictionary p d" "dict_room d"
    using example_global by blast
  let ?w = "new_table initial_world vm t"
  have r: "world_reach example_env ?w" by (rule wr_step[OF wr_initial ws_global[OF c(1)]])
  have w: "w_vm ?w = vm" "w_tables ?w = [t]" by (simp_all add: new_table_def initial_world_def)
  then obtain K C ks g where W: "wf_theap example_env (vm_sh vm) K C" and ok: "table_inv example_env vm K t ks g"
    using reach_table[OF r, of t] by (metis list.set_intros(1))
  have k: "good_key example_env False (example_bk b)" by (simp add: good_key_def user_ptr_def example_bk_def example_env_def)
  have room: "put_room example_env (vm_sh vm) t (example_bk b)" using c(2,3) by (simp add: put_room_def)
  obtain vm' t' where p: "InsertField example_env vm False t (example_bk b) 7 = Some (vm', t')"
    "named_result example_env vm K t g ((named_fun ks (t_slots t))(example_bk b := 7)) (mt_of (vm_sh vm) t) vm' t'"
    using InsertField_ok[OF W ok k room, of 7] by blast
  have "world_step example_env ?w (set_table ?w 0 vm' t')" using room k p(1) w by (intro ws_put_named[of 0 ?w]) simp_all
  then have "world_reach example_env (set_table ?w 0 vm' t')" by (rule wr_step[OF r])
  moreover have "RawGetPropertyFromTableObject example_env (vm_sh vm') False t' (example_bk b) = Some 7"
    using named_result_get[OF W p(2) k] by simp
  ultimately show ?thesis using InsertField_dictionary[OF c(2) p(1)]
    by (intro exI[of _ "set_table ?w 0 vm' t'"] exI[of _ t']) (auto simp: set_table_def w)
qed

theorem dictionary_boolean_key_witness:
  "\<exists>w t kvs. world_reach example_env w \<and> t \<in> set (w_tables w) \<and> iterate example_bk (vm_sh (w_vm w)) t TableObjectIterator = Some kvs \<and>
    (boxed_key (example_bk True), 7) \<in> normal ` set kvs \<and> CreateBoolean True \<notin> norm_key ` set kvs"
proof -
  obtain w t p d where w: "world_reach example_env w" "t \<in> set (w_tables w)" "t_hiddenClass t = HDictionary p d"
    "RawGetPropertyFromTableObject example_env (vm_sh (w_vm w)) False t (example_bk True) = Some 7" using example_global_world by blast
  have "good_key example_env False (example_bk True)" by (simp add: good_key_def user_ptr_def example_bk_def example_env_def)
  moreover have "(7 :: tvalue) \<noteq> Nil" by (simp add: Nil_def CreateMIV_def miv_CreateNil_def x_nil_def x_mivTag_def)
  ultimately show ?thesis using dictionary_boolean_key[OF w(1,2,3), where bk = example_bk and b = True and v = 7] w(1,2,4) by blast
qed

end
