(* ===== verification/TypeMask.thy ===== *)
theory TypeMask
  imports TValue
begin

unbundle bit_operations_syntax

text \<open>
  The type lattice of \<^verbatim>\<open>drt/tvalue.h\<close>: the type specializations with their \<^verbatim>\<open>check\<close> functions,
  the bit masks that the \<^verbatim>\<open>constexpr\<close> code computes for them, the mask of a boxed value, and the
  \<^verbatim>\<open>TypeMask\<close> wrapper. The type byte of a heap object is read through a function from pointers
  to entity types, the snapshot of the heap that \<^verbatim>\<open>DeegenImpl_TValueGetPointerType\<close> dereferences.
\<close>

section \<open>Heap entity types\<close>

text \<open>The enum in the order of \<^verbatim>\<open>HEAP_OBJECT_INFO_LIST\<close>; the first five are language exposed.\<close>

datatype HeapEntityType =
    HString | HFunction | HUserdata | HThread | HTable
  | HArraySparseMap | HUpvalue | HUnlinkedCodeBlock | HExecutableCode | HStructure
  | HStructureAnchorHashTable | HCacheableDictionary | HUncacheableDictionary

definition HeapEntityTypes :: "HeapEntityType list" where
  "HeapEntityTypes = [HString, HFunction, HUserdata, HThread, HTable, HArraySparseMap, HUpvalue,
     HUnlinkedCodeBlock, HExecutableCode, HStructure, HStructureAnchorHashTable,
     HCacheableDictionary, HUncacheableDictionary]"

fun TypeMayLiveInSystemHeap :: "HeapEntityType \<Rightarrow> bool" where
  "TypeMayLiveInSystemHeap t =
     (t \<in> {HUnlinkedCodeBlock, HExecutableCode, HStructure, HStructureAnchorHashTable,
            HCacheableDictionary, HUncacheableDictionary})"

fun TypeMayLiveInUserHeap :: "HeapEntityType \<Rightarrow> bool" where
  "TypeMayLiveInUserHeap t =
     (t \<in> {HString, HFunction, HUserdata, HThread, HTable, HArraySparseMap, HUpvalue})"

definition LanguageExposed :: "HeapEntityType list" where
  "LanguageExposed = [HString, HFunction, HUserdata, HThread, HTable]"

section \<open>Type specializations\<close>

datatype tspec =
    tNil | tBool | tMIV | tDoubleNotNaN | tDoubleNaN | tInt32 | tDouble
  | tString | tFunction | tUserdata | tThread | tTable | tHeapEntity
  | tBottom | tGarbage | tOpaque | tBoxedValueTop | tFullTop

definition TypeSpecializationList :: "tspec list" where
  "TypeSpecializationList = [tNil, tBool, tMIV, tDoubleNotNaN, tDoubleNaN, tInt32, tDouble,
     tString, tFunction, tUserdata, tThread, tTable, tHeapEntity,
     tBottom, tGarbage, tOpaque, tBoxedValueTop, tFullTop]"

text \<open>The specialization the macro generates for each language exposed heap object.\<close>

fun tspec_of_heap :: "HeapEntityType \<Rightarrow> tspec option" where
  "tspec_of_heap HString = Some tString"
| "tspec_of_heap HFunction = Some tFunction"
| "tspec_of_heap HUserdata = Some tUserdata"
| "tspec_of_heap HThread = Some tThread"
| "tspec_of_heap HTable = Some tTable"
| "tspec_of_heap _ = None"

text \<open>
  The \<^verbatim>\<open>check\<close> member of each specialization. \<^verbatim>\<open>tGarbage\<close> and \<^verbatim>\<open>tOpaque\<close> abort, which is the
  result \<open>None\<close>.
\<close>

fun tcheck :: "(heap_ptr \<Rightarrow> HeapEntityType) \<Rightarrow> tspec \<Rightarrow> tvalue \<Rightarrow> bool option" where
  "tcheck hp tNil v = Some (IsNil v)"
| "tcheck hp tBool v = Some (IsMIV v \<and> \<not> IsNil v)"
| "tcheck hp tMIV v = Some (IsMIV v)"
| "tcheck hp tDoubleNotNaN v = Some (IsDoubleNotNaN v)"
| "tcheck hp tDoubleNaN v = Some (IsDoubleNaN v)"
| "tcheck hp tInt32 v = Some (IsInt32 v)"
| "tcheck hp tDouble v = Some (IsDouble v)"
| "tcheck hp tString v = Some (IsPointer v \<and> hp (AsPointer v) = HString)"
| "tcheck hp tFunction v = Some (IsPointer v \<and> hp (AsPointer v) = HFunction)"
| "tcheck hp tUserdata v = Some (IsPointer v \<and> hp (AsPointer v) = HUserdata)"
| "tcheck hp tThread v = Some (IsPointer v \<and> hp (AsPointer v) = HThread)"
| "tcheck hp tTable v = Some (IsPointer v \<and> hp (AsPointer v) = HTable)"
| "tcheck hp tHeapEntity v = Some (IsPointer v)"
| "tcheck hp tBottom v = Some False"
| "tcheck hp tGarbage v = None"
| "tcheck hp tOpaque v = None"
| "tcheck hp tBoxedValueTop v = Some True"
| "tcheck hp tFullTop v = Some True"

text \<open>
  The \<^verbatim>\<open>encode\<close> and \<^verbatim>\<open>decode\<close> members. The native value a specialization boxes is a sum over the C++ types; \<open>None\<close> where the
  specialization has no such member, and where an assertion on the argument fails.
\<close>

datatype native =
  NUnit | NBool bool | NMiv miv | NDouble double | NInt32 u32 | NPtr heap_ptr | NBoxed tvalue

definition ptr_arg :: "native \<Rightarrow> tvalue option" where
  "ptr_arg x = (case x of NPtr p \<Rightarrow> Some (CreatePointer p) | _ \<Rightarrow> None)"

definition tencode :: "tspec \<Rightarrow> native \<Rightarrow> tvalue option" where
  "tencode T x = (case T of
      tNil \<Rightarrow> (case x of NUnit \<Rightarrow> Some Nil | _ \<Rightarrow> None)
    | tBool \<Rightarrow> (case x of NBool b \<Rightarrow> Some (CreateBoolean b) | _ \<Rightarrow> None)
    | tMIV \<Rightarrow> (case x of NMiv m \<Rightarrow> Some (CreateMIV m) | _ \<Rightarrow> None)
    | tDoubleNotNaN \<Rightarrow> (case x of NDouble d \<Rightarrow> if IsNaN d then None else Some (CreateDouble d) | _ \<Rightarrow> None)
    | tDoubleNaN \<Rightarrow> (case x of NUnit \<Rightarrow> Some (CreateDouble quiet_NaN) | _ \<Rightarrow> None)
    | tDouble \<Rightarrow> (case x of NDouble d \<Rightarrow> Some (CreateDouble d) | _ \<Rightarrow> None)
    | tInt32 \<Rightarrow> (case x of NInt32 i \<Rightarrow> Some (CreateInt32 i) | _ \<Rightarrow> None)
    | tString \<Rightarrow> ptr_arg x | tFunction \<Rightarrow> ptr_arg x | tUserdata \<Rightarrow> ptr_arg x | tThread \<Rightarrow> ptr_arg x
    | tTable \<Rightarrow> ptr_arg x | tHeapEntity \<Rightarrow> ptr_arg x
    | tBottom \<Rightarrow> None | tGarbage \<Rightarrow> None | tOpaque \<Rightarrow> None
    | tBoxedValueTop \<Rightarrow> (case x of NBoxed v \<Rightarrow> Some v | _ \<Rightarrow> None)
    | tFullTop \<Rightarrow> (case x of NBoxed v \<Rightarrow> Some v | _ \<Rightarrow> None))"

fun tdecode :: "tspec \<Rightarrow> tvalue \<Rightarrow> native option" where
  "tdecode tBool v = Some (NBool (miv_GetBooleanValue (AsMIV v)))"
| "tdecode tMIV v = Some (NMiv (AsMIV v))"
| "tdecode tDoubleNotNaN v = Some (NDouble (AsDouble v))"
| "tdecode tDoubleNaN v = Some (NDouble quiet_NaN)"
| "tdecode tDouble v = Some (NDouble (AsDouble v))"
| "tdecode tInt32 v = Some (NInt32 (AsInt32 v))"
| "tdecode tString v = Some (NPtr (AsPointer v))"
| "tdecode tFunction v = Some (NPtr (AsPointer v))"
| "tdecode tUserdata v = Some (NPtr (AsPointer v))"
| "tdecode tThread v = Some (NPtr (AsPointer v))"
| "tdecode tTable v = Some (NPtr (AsPointer v))"
| "tdecode tHeapEntity v = Some (NPtr (AsPointer v))"
| "tdecode tBoxedValueTop v = Some (NBoxed v)"
| "tdecode tFullTop v = Some (NBoxed v)"
| "tdecode _ _ = None"

fun x_estimatedCheckCost :: "tspec \<Rightarrow> nat" where
  "x_estimatedCheckCost tNil = 10"
| "x_estimatedCheckCost tBool = 60"
| "x_estimatedCheckCost tMIV = 30"
| "x_estimatedCheckCost tDoubleNotNaN = 10"
| "x_estimatedCheckCost tDoubleNaN = 30"
| "x_estimatedCheckCost tDouble = 20"
| "x_estimatedCheckCost tInt32 = 10"
| "x_estimatedCheckCost tHeapEntity = 10"
| "x_estimatedCheckCost T = (if T \<in> {tString, tFunction, tUserdata, tThread, tTable} then 100 else 0)"

text \<open>\<^verbatim>\<open>TSMDef\<close>: a leaf, or an expression over other specializations.\<close>

datatype tsm = TsmTy tspec | TsmOr "tsm list" | TsmNot tsm

fun TSMDef :: "tspec \<Rightarrow> tsm option" where
  "TSMDef tMIV = Some (TsmOr [TsmTy tNil, TsmTy tBool])"
| "TSMDef tDouble = Some (TsmOr [TsmTy tDoubleNotNaN, TsmTy tDoubleNaN])"
| "TSMDef tHeapEntity = Some (TsmOr [TsmOr [], TsmTy tString, TsmTy tFunction, TsmTy tUserdata,
     TsmTy tThread, TsmTy tTable])"
| "TSMDef _ = None"

definition is_type_speculation_leaf :: "tspec \<Rightarrow> bool" where
  "is_type_speculation_leaf T =
     (if T = tFullTop \<or> T = tBoxedValueTop \<or> T = tBottom then False
      else if T = tGarbage \<or> T = tOpaque then True
      else TSMDef T = None)"

definition x_numLatticeLeavesOutsideBoxedValueLattice :: nat where
  "x_numLatticeLeavesOutsideBoxedValueLattice = 2"

fun count_leaves :: "tspec list \<Rightarrow> nat" where
  "count_leaves [] = 0"
| "count_leaves (T # Ts) = (if is_type_speculation_leaf T then 1 else 0) + count_leaves Ts"

definition x_numUsefulBitsInFullTypeMask :: nat where
  "x_numUsefulBitsInFullTypeMask = count_leaves TypeSpecializationList"

definition x_numUsefulBitsInBytecodeTypeMask :: nat where
  "x_numUsefulBitsInBytecodeTypeMask =
     x_numUsefulBitsInFullTypeMask - x_numLatticeLeavesOutsideBoxedValueLattice"

fun leaf_ordinal :: "tspec \<Rightarrow> tspec list \<Rightarrow> nat" where
  "leaf_ordinal T [] = 0"
| "leaf_ordinal T (First # Remaining) =
     (if T = First then 0
      else (if is_type_speculation_leaf First then 1 else 0) + leaf_ordinal T Remaining)"

definition ComputeTypeMaskForTop :: u32 where
  "ComputeTypeMaskForTop = drop_bit (32 - x_numUsefulBitsInBytecodeTypeMask) (- 1)"

text \<open>
  \<^verbatim>\<open>compute_type_speculation_mask\<close>: the compile-time evaluator, a mutual recursion between the
  mask of a specialization and the value of a defining expression.
\<close>

fun tsm_weight :: "tsm \<Rightarrow> nat" where
  "tsm_weight (TsmTy T) = (if TSMDef T = None then 1 else 101)"
| "tsm_weight (TsmOr es) = Suc (sum_list (map (\<lambda>e. Suc (tsm_weight e)) es))"
| "tsm_weight (TsmNot e) = Suc (tsm_weight e)"

function compute_mask :: "tspec \<Rightarrow> u32" and eval_operator :: "tsm \<Rightarrow> u32"
  and eval_or :: "tsm list \<Rightarrow> u32" where
  "compute_mask T =
     (if T = tBottom then 0
      else if T = tBoxedValueTop then ComputeTypeMaskForTop
      else if T = tGarbage then push_bit x_numUsefulBitsInBytecodeTypeMask 1
      else if T = tOpaque then push_bit (x_numUsefulBitsInBytecodeTypeMask + 1) 1
      else if T = tFullTop then
        ComputeTypeMaskForTop OR push_bit x_numUsefulBitsInBytecodeTypeMask 1
          OR push_bit (x_numUsefulBitsInBytecodeTypeMask + 1) 1
      else if is_type_speculation_leaf T then push_bit (leaf_ordinal T TypeSpecializationList) 1
      else (case TSMDef T of None \<Rightarrow> 0 | Some Def \<Rightarrow> eval_operator Def))"
| "eval_operator (TsmTy T) = compute_mask T"
| "eval_operator (TsmOr Args) = eval_or Args"
| "eval_operator (TsmNot Arg) = ComputeTypeMaskForTop XOR eval_operator Arg"
| "eval_or [] = 0"
| "eval_or (First # Remaining) = eval_operator First OR eval_or Remaining"
  by pat_completeness auto
termination
proof (relation "measure (\<lambda>x. case x of
    Inl T \<Rightarrow> (if TSMDef T = None then 0 else 100)
  | Inr (Inl e) \<Rightarrow> tsm_weight e
  | Inr (Inr es) \<Rightarrow> sum_list (map (\<lambda>e. Suc (tsm_weight e)) es))", goal_cases)
  case (2 T Def)
  then show ?case by (cases T) auto
qed auto

definition x_typeMaskFor :: "tspec \<Rightarrow> u32" where
  "x_typeMaskFor T = compute_mask T"

definition x_heapEntityTypeMaskMap :: "HeapEntityType \<Rightarrow> u32" where
  "x_heapEntityTypeMaskMap ty =
     (case tspec_of_heap ty of None \<Rightarrow> 0 | Some T \<Rightarrow> x_typeMaskFor T)"

definition GetTypeForBoxedValue :: "(heap_ptr \<Rightarrow> HeapEntityType) \<Rightarrow> tvalue \<Rightarrow> u32" where
  "GetTypeForBoxedValue hp v =
     (if IsDouble v then
        (if IsDoubleNotNaN v then x_typeMaskFor tDoubleNotNaN else x_typeMaskFor tDoubleNaN)
      else if IsPointer v then x_heapEntityTypeMaskMap (hp (AsPointer v))
      else if IsMIV v then
        (if IsNil v then x_typeMaskFor tNil else x_typeMaskFor tBool)
      else x_typeMaskFor tInt32)"

text \<open>The mask lists the compiler uses, in decreasing order of the mask.\<close>

definition isBoxedValueLatticeElement :: "tspec \<Rightarrow> bool" where
  "isBoxedValueLatticeElement T \<longleftrightarrow>
     x_typeMaskFor tBoxedValueTop AND x_typeMaskFor T = x_typeMaskFor T"

definition x_list_of_type_speculation_masks :: "u32 list" where
  "x_list_of_type_speculation_masks =
     rev (sort (map x_typeMaskFor (filter isBoxedValueLatticeElement TypeSpecializationList)))"

text \<open>The strength reduction rule generated for each heap type: skip the pointer test.\<close>

definition strength_reduced_check ::
  "(heap_ptr \<Rightarrow> HeapEntityType) \<Rightarrow> HeapEntityType \<Rightarrow> tvalue \<Rightarrow> bool" where
  "strength_reduced_check hp ty v \<longleftrightarrow> hp (AsPointer v) = ty"

section \<open>The TypeMask wrapper\<close>

type_synonym type_mask = u32

definition tm_Empty :: "type_mask \<Rightarrow> bool" where "tm_Empty m \<longleftrightarrow> m = 0"
definition tm_SubsetOf :: "type_mask \<Rightarrow> type_mask \<Rightarrow> bool" where
  "tm_SubsetOf m other \<longleftrightarrow> m AND other = m"
definition tm_StrictSubsetOf :: "type_mask \<Rightarrow> type_mask \<Rightarrow> bool" where
  "tm_StrictSubsetOf m other \<longleftrightarrow> tm_SubsetOf m other \<and> m \<noteq> other"
definition tm_SupersetOf :: "type_mask \<Rightarrow> type_mask \<Rightarrow> bool" where
  "tm_SupersetOf m other \<longleftrightarrow> m AND other = other"
definition tm_StrictSupersetOf :: "type_mask \<Rightarrow> type_mask \<Rightarrow> bool" where
  "tm_StrictSupersetOf m other \<longleftrightarrow> tm_SupersetOf m other \<and> m \<noteq> other"
definition tm_DisjointFrom :: "type_mask \<Rightarrow> type_mask \<Rightarrow> bool" where
  "tm_DisjointFrom m other \<longleftrightarrow> m AND other = 0"
definition tm_OverlapsWith :: "type_mask \<Rightarrow> type_mask \<Rightarrow> bool" where
  "tm_OverlapsWith m other \<longleftrightarrow> m AND other \<noteq> 0"
definition tm_Cap :: "type_mask \<Rightarrow> type_mask \<Rightarrow> type_mask" where
  "tm_Cap m other = m AND other"
definition tm_Cup :: "type_mask \<Rightarrow> type_mask \<Rightarrow> type_mask" where
  "tm_Cup m other = m OR other"
definition tm_Subtract :: "type_mask \<Rightarrow> type_mask \<Rightarrow> type_mask" where
  "tm_Subtract m other = m AND NOT other"

section \<open>The masks and the checks agree\<close>

lemma type_mask_values:
  "x_typeMaskFor tNil = 0x1" "x_typeMaskFor tBool = 0x2" "x_typeMaskFor tMIV = 0x3"
  "x_typeMaskFor tDoubleNotNaN = 0x4" "x_typeMaskFor tDoubleNaN = 0x8"
  "x_typeMaskFor tInt32 = 0x10" "x_typeMaskFor tDouble = 0xC"
  "x_typeMaskFor tString = 0x20" "x_typeMaskFor tFunction = 0x40"
  "x_typeMaskFor tUserdata = 0x80" "x_typeMaskFor tThread = 0x100" "x_typeMaskFor tTable = 0x200"
  "x_typeMaskFor tHeapEntity = 0x3E0" "x_typeMaskFor tBottom = 0"
  "x_typeMaskFor tGarbage = 0x400" "x_typeMaskFor tOpaque = 0x800"
  "x_typeMaskFor tBoxedValueTop = 0x3FF" "x_typeMaskFor tFullTop = 0xFFF"
  by (simp_all add: x_typeMaskFor_def x_numUsefulBitsInBytecodeTypeMask_def
      x_numUsefulBitsInFullTypeMask_def TypeSpecializationList_def is_type_speculation_leaf_def
      x_numLatticeLeavesOutsideBoxedValueLattice_def ComputeTypeMaskForTop_def drop_bit_eq_div push_bit_eq_mult)

text \<open>
  The values the checks are specified for: words of the boxing scheme whose immediate is one of the
  four named ones, whose pointer refers to a language exposed object, and whose NaN, if it is one,
  is \<^verbatim>\<open>x_pure_nan\<close>'s bit pattern.
\<close>

definition well_typed :: "(heap_ptr \<Rightarrow> HeapEntityType) \<Rightarrow> tvalue \<Rightarrow> bool" where
  "well_typed hp v \<longleftrightarrow> boxed v \<and>
     (IsMIV v \<longrightarrow> valid_miv (AsMIV v)) \<and>
     (IsPointer v \<longrightarrow> hp (AsPointer v) \<in> set LanguageExposed) \<and>
     (IsDouble v \<and> IsNaN v \<longrightarrow> v = quiet_NaN)"

lemma kind_test_iff:
  assumes "boxed v" "in_box k v"
  shows "type_test k' v \<longleftrightarrow> k = k'"
  unfolding type_test_iff[OF assms(1)] using assms(2) in_box_unique by blast

lemma kind_tests:
  assumes "boxed v" "in_box k v"
  shows "IsDouble v \<longleftrightarrow> k = BoxDouble" "IsInt32 v \<longleftrightarrow> k = BoxInt32" "IsMIV v \<longleftrightarrow> k = BoxMiv"
    "IsPointer v \<longleftrightarrow> k = BoxPointer"
  using kind_test_iff[OF assms, of BoxDouble] kind_test_iff[OF assms, of BoxInt32]
    kind_test_iff[OF assms, of BoxMiv] kind_test_iff[OF assms, of BoxPointer]
  by (simp_all add: type_test_def del: in_box.simps)




lemma check_iff_heap_entity:
  assumes "well_typed hp v"
  shows "IsPointer v \<longleftrightarrow> tm_SubsetOf (GetTypeForBoxedValue hp v) (x_typeMaskFor tHeapEntity)"
proof -
  obtain k where k: "in_box k v" using assms unfolding well_typed_def boxed_def by blast
  have b: "boxed v" using assms by (simp add: well_typed_def)
  show ?thesis using kind_tests[OF b k] assms unfolding well_typed_def
    by (cases k) (auto simp: GetTypeForBoxedValue_def type_mask_values tm_SubsetOf_def
          x_heapEntityTypeMaskMap_def LanguageExposed_def simp del: in_box.simps)
qed



text \<open>
  The rule the macro of \<^verbatim>\<open>x_list_of_strength_reduction_rules\<close> generates for each heap type: once the
  value is known to be a heap entity, the check needs no pointer test.
\<close>

lemma strength_reduced_check_sound:
  assumes "well_typed hp v" "tspec_of_heap ty = Some T"
    and "tm_SubsetOf (GetTypeForBoxedValue hp v) (x_typeMaskFor tHeapEntity)"
  shows "tcheck hp T v = Some (strength_reduced_check hp ty v)"
proof -
  have "IsPointer v" using check_iff_heap_entity[OF assms(1)] assms(3) by simp
  with assms(2) show ?thesis by (cases ty) (auto simp: strength_reduced_check_def)
qed


section \<open>TypeMask denotes a set of lattice leaves\<close>

definition mask_leaves :: "type_mask \<Rightarrow> nat set" where
  "mask_leaves m = {n. bit m n}"

lemma mask_leaves_inject: "mask_leaves a = mask_leaves b \<longleftrightarrow> a = b"
  unfolding mask_leaves_def by (metis bit_word_eqI mem_Collect_eq)

lemma mask_leaves_ops:
  "mask_leaves (a AND b) = mask_leaves a \<inter> mask_leaves b"
  "mask_leaves (a OR b) = mask_leaves a \<union> mask_leaves b"
  "mask_leaves a \<inter> mask_leaves (NOT b) = mask_leaves a - mask_leaves b"
  "mask_leaves 0 = {}"
  by (auto simp: mask_leaves_def bit_simps dest: bit_imp_le_length)

text \<open>
  C36. \<^verbatim>\<open>TypeMask\<close> implements finite sets of lattice leaves: every operation and every comparison of
  the wrapper is the set operation or comparison of its name.
\<close>

theorem TypeMask_refines_sets:
  "mask_leaves (tm_Cap a b) = mask_leaves a \<inter> mask_leaves b \<and>
   mask_leaves (tm_Cup a b) = mask_leaves a \<union> mask_leaves b \<and>
   mask_leaves (tm_Subtract a b) = mask_leaves a - mask_leaves b \<and>
   (tm_Empty a \<longleftrightarrow> mask_leaves a = {}) \<and>
   (tm_SubsetOf a b \<longleftrightarrow> mask_leaves a \<subseteq> mask_leaves b) \<and>
   (tm_StrictSubsetOf a b \<longleftrightarrow> mask_leaves a \<subset> mask_leaves b) \<and>
   (tm_SupersetOf a b \<longleftrightarrow> mask_leaves b \<subseteq> mask_leaves a) \<and>
   (tm_StrictSupersetOf a b \<longleftrightarrow> mask_leaves b \<subset> mask_leaves a) \<and>
   (tm_DisjointFrom a b \<longleftrightarrow> mask_leaves a \<inter> mask_leaves b = {}) \<and>
   (tm_OverlapsWith a b \<longleftrightarrow> mask_leaves a \<inter> mask_leaves b \<noteq> {})"
  unfolding tm_Cap_def tm_Cup_def tm_Subtract_def tm_Empty_def tm_SubsetOf_def tm_StrictSubsetOf_def
    tm_SupersetOf_def tm_StrictSupersetOf_def tm_DisjointFrom_def tm_OverlapsWith_def
    mask_leaves_inject[symmetric] mask_leaves_ops
  by (intro conjI) blast+

text \<open>
  The list of masks the compiler searches for the smallest enclosing specialization is sorted from the
  largest mask down, starts at \<^verbatim>\<open>tBoxedValueTop\<close> and ends at \<^verbatim>\<open>tBottom\<close>.
\<close>

lemma x_list_of_type_speculation_masks_sorted:
  "x_list_of_type_speculation_masks =
     [0x3FF, 0x3E0, 0x200, 0x100, 0x80, 0x40, 0x20, 0x10, 0xC, 0x8, 0x4, 0x3, 0x2, 0x1, 0]"
  by (simp add: x_list_of_type_speculation_masks_def isBoxedValueLatticeElement_def
      TypeSpecializationList_def type_mask_values insort_key.simps word_le_nat_alt)

section \<open>Encoding and decoding\<close>

text \<open>The native values a specialization may be asked to box.\<close>

definition encodable :: "(heap_ptr \<Rightarrow> HeapEntityType) \<Rightarrow> tspec \<Rightarrow> native \<Rightarrow> bool" where
  "encodable hp T x = (case x of
      NUnit \<Rightarrow> False
    | NBool b \<Rightarrow> T = tBool
    | NMiv m \<Rightarrow> T = tMIV \<and> valid_miv m
    | NDouble d \<Rightarrow> T = tDoubleNotNaN \<and> \<not> IsNaN d \<or> T = tDouble \<and> in_box BoxDouble d
    | NInt32 i \<Rightarrow> T = tInt32
    | NPtr p \<Rightarrow> in_box BoxPointer p \<and> (T = tHeapEntity \<or> tspec_of_heap (hp p) = Some T)
    | NBoxed v \<Rightarrow> T = tBoxedValueTop \<or> T = tFullTop)"

lemma CreateBoolean_facts:
  "IsMIV (CreateBoolean b)" "\<not> IsNil (CreateBoolean b)" "miv_GetBooleanValue (AsMIV (CreateBoolean b)) = b"
  by (cases b; simp add: IsNil_def IsMIV_def AsMIV_def miv_GetBooleanValue_def tvalue_consts)+

lemma create_kind_tests:
  "IsInt32 (CreateInt32 i)" "valid_miv m \<Longrightarrow> IsMIV (CreateMIV m)" "in_box BoxDouble v \<Longrightarrow> IsDouble v"
  using type_test_iff[of "CreateInt32 i" BoxInt32] type_test_iff[of "CreateMIV m" BoxMiv] type_test_iff[of v BoxDouble]
    in_box_CreateInt32[of i] in_box_CreateMIV[of m]
  unfolding boxed_def type_test_def by auto

text \<open>
  C37. Every type specialization with a \<^verbatim>\<open>decode\<close> recovers the native value its \<^verbatim>\<open>encode\<close> boxed, and the boxed value passes the
  specialization's own check.
\<close>

theorem encode_decode:
  assumes "encodable hp T x"
  shows "\<exists>v. tencode T x = Some v \<and> tcheck hp T v = Some True \<and> tdecode T v = Some x"
proof (cases x)
  case (NPtr p)
  with assms have p: "IsPointer p" "T = tHeapEntity \<or> tspec_of_heap (hp p) = Some T"
    using IsPointer_box by (auto simp: encodable_def simp del: in_box.simps)
  then consider "T = tHeapEntity" | "T = tString" "hp p = HString" | "T = tFunction" "hp p = HFunction"
    | "T = tUserdata" "hp p = HUserdata" | "T = tThread" "hp p = HThread" | "T = tTable" "hp p = HTable"
    by (cases "hp p") auto
  then show ?thesis using p(1) NPtr
    by cases (simp_all add: tencode_def ptr_arg_def CreatePointer_def AsPointer_def)
next
  case (NDouble d)
  with assms show ?thesis using create_kind_tests(3)[of d]
    by (auto simp: encodable_def tencode_def CreateDouble_def AsDouble_def IsDoubleNotNaN_def simp del: in_box.simps)
next
  case (NMiv m)
  with assms show ?thesis using create_kind_tests(2) by (auto simp: encodable_def tencode_def AsMIV_CreateMIV)
qed (use assms create_kind_tests(1) CreateBoolean_facts in \<open>auto simp: encodable_def tencode_def AsInt32_CreateInt32\<close>)

theorem encode_decode_witness:
  "\<exists>v. tencode tTable (NPtr 0xFFFFFFFE00000040) = Some v \<and> tcheck (\<lambda>_. HTable) tTable v = Some True \<and>
    tdecode tTable v = Some (NPtr 0xFFFFFFFE00000040)"
  by (rule encode_decode) (simp add: encodable_def word_le_nat_alt)

end
