(* ===== verification/BitVector.thy ===== *)
theory BitVector
  imports MathHelper
begin

text \<open>
  \<^verbatim>\<open>BitVectorImpl\<close>, \<^verbatim>\<open>BitVector\<close>, \<^verbatim>\<open>TempBitVector\<close> and \<^verbatim>\<open>BitVectorView\<close> of \<^verbatim>\<open>drt/bit_vector_utils.h\<close>: words of 64 bits and a length,
  and the set of ordinals that a bit vector stands for.
\<close>

unbundle bit_operations_syntax

section \<open>Data and operations\<close>

record bit_vector =
  bv_data :: "u64 list"
  bv_length :: nat

definition bv_alloc :: "nat \<Rightarrow> nat" where
  "bv_alloc len = ((len + 63) div 64 * 64) div 64"

definition bv_GetAllocLength :: "bit_vector \<Rightarrow> nat" where
  "bv_GetAllocLength self = bv_alloc (bv_length self)"

definition bv_Clear :: "bit_vector \<Rightarrow> bit_vector" where
  "bv_Clear self = self\<lparr>bv_data := replicate (bv_GetAllocLength self) 0 @ drop (bv_GetAllocLength self) (bv_data self)\<rparr>"

text \<open>\<^verbatim>\<open>Reset\<close> of the three owning classes: they differ in the allocator only.\<close>

definition bv_Reset :: "nat \<Rightarrow> u64 list \<Rightarrow> bit_vector" where
  "bv_Reset len fresh = bv_Clear \<lparr>bv_data = fresh, bv_length = len\<rparr>"

definition bv_SetAllOne :: "bit_vector \<Rightarrow> bit_vector" where
  "bv_SetAllOne self =
     (let arrLen = bv_GetAllocLength self;
          data = map (\<lambda>i. if i + 1 < arrLen then - 1 else bv_data self ! i) [0..<length (bv_data self)]
      in if arrLen > 0 then
           let numUsefulBits = (bv_length self + 63) mod 64 + 1;
               mask = drop_bit (64 - numUsefulBits) (- 1)
           in self\<lparr>bv_data := data[arrLen - 1 := mask]\<rparr>
         else self\<lparr>bv_data := data\<rparr>)"

definition bv_SetBit :: "bit_vector \<Rightarrow> nat \<Rightarrow> bit_vector" where
  "bv_SetBit self loc = self\<lparr>bv_data := (bv_data self)[loc div 64 := bv_data self ! (loc div 64) OR push_bit (loc mod 64) 1]\<rparr>"

definition bv_ClearBit :: "bit_vector \<Rightarrow> nat \<Rightarrow> bit_vector" where
  "bv_ClearBit self loc = self\<lparr>bv_data := (bv_data self)[loc div 64 := bv_data self ! (loc div 64) AND NOT (push_bit (loc mod 64) 1)]\<rparr>"

definition bv_SetBitTo :: "bit_vector \<Rightarrow> nat \<Rightarrow> bool \<Rightarrow> bit_vector" where
  "bv_SetBitTo self loc value = (if value then bv_SetBit self loc else bv_ClearBit self loc)"

definition bv_IsSet :: "bit_vector \<Rightarrow> nat \<Rightarrow> bool" where
  "bv_IsSet self loc \<longleftrightarrow> bv_data self ! (loc div 64) AND push_bit (loc mod 64) 1 \<noteq> 0"

definition bv_CopyFromEqualLengthBitVector :: "bit_vector \<Rightarrow> bit_vector \<Rightarrow> bit_vector" where
  "bv_CopyFromEqualLengthBitVector self other =
     self\<lparr>bv_data := take (bv_GetAllocLength self) (bv_data other) @ drop (bv_GetAllocLength self) (bv_data self)\<rparr>"

text \<open>The ordinals for which the action is called, in order.\<close>

function word_ordinals :: "nat \<Rightarrow> u64 \<Rightarrow> nat list" where
  "word_ordinals baseOrd exprVal =
     (if exprVal = 0 then []
      else let lowestSetBit = the (CountTrailingZeros exprVal)
           in (lowestSetBit + baseOrd) # word_ordinals baseOrd (exprVal XOR push_bit lowestSetBit 1))"
  by pat_completeness auto

lemma CountTrailingZeros_Some:
  assumes "(w :: 'a::len word) \<noteq> 0"
  obtains i where "CountTrailingZeros w = Some i" "bit w i" "i < LENGTH('a)" "\<And>j. j < i \<Longrightarrow> \<not> bit w j"
proof -
  obtain k where k: "bit w k" using assms by (metis bit_eqI bit_0_eq bot_apply bot_bool_def)
  then have "k < LENGTH('a)" using bit_imp_le_length by blast
  then have "k \<in> set (word_bits_set w)" using k by (simp add: word_bits_set_def)
  then obtain i r where r: "word_bits_set w = i # r" by (cases "word_bits_set w") auto
  then have "i \<in> set (word_bits_set w)" by simp
  then have i: "bit w i" "i < LENGTH('a)" by (auto simp: word_bits_set_def)
  have "\<not> bit w j" if "j < i" for j
  proof
    assume "bit w j"
    then have "j \<in> set (word_bits_set w)" using that i(2) by (simp add: word_bits_set_def)
    moreover have "sorted_wrt (<) (word_bits_set w)" unfolding word_bits_set_def by (intro sorted_wrt_filter) simp
    ultimately show False using r that by auto
  qed
  then show ?thesis using that[of i] i r by (simp add: CountTrailingZeros_def)
qed

lemma bit_single: "k < LENGTH('a) \<Longrightarrow> bit (push_bit i (1 :: 'a::len word)) k \<longleftrightarrow> k = i"
  by (auto simp: bit_push_bit_iff bit_1_iff simp del: push_bit_of_1)

lemma word_bits_clear:
  assumes "CountTrailingZeros (w :: 'a::len word) = Some i" "w \<noteq> 0"
  shows "word_bits_set w = i # word_bits_set (w XOR push_bit i 1)"
proof -
  obtain j where j: "CountTrailingZeros w = Some j" "bit w j" "j < LENGTH('a)" "\<And>k. k < j \<Longrightarrow> \<not> bit w k"
    using CountTrailingZeros_Some[OF assms(2)] by blast
  then have i: "bit w i" "i < LENGTH('a)" "\<And>k. k < i \<Longrightarrow> \<not> bit w k" using assms(1) by auto
  have b: "bit (w XOR push_bit i 1) k \<longleftrightarrow> bit w k \<and> k \<noteq> i" if "k < LENGTH('a)" for k
    using i(1) that bit_single[OF that, of i] by (auto simp: bit_xor_iff simp del: push_bit_of_1)
  have up: "[0..<LENGTH('a)] = [0..<i] @ i # [Suc i..<LENGTH('a)]" 
    using i(2) upt_add_eq_append[of 0 i "LENGTH('a) - i"] upt_conv_Cons[OF i(2)] by simp
  have "filter (bit w) [0..<i] = []" "filter (bit (w XOR push_bit i 1)) [0..<i] = []"
    using i(2,3) b by (auto simp: filter_empty_conv)
  moreover have "\<not> bit (w XOR push_bit i 1) i" using b i(2) by blast
  moreover have "filter (bit (w XOR push_bit i 1)) [Suc i..<LENGTH('a)] = filter (bit w) [Suc i..<LENGTH('a)]"
    using b by (intro filter_cong) auto
  ultimately show ?thesis unfolding word_bits_set_def up using i(1) by simp
qed

termination word_ordinals
proof (relation "measure (\<lambda>(b, w). length (word_bits_set w))")
  fix b w x assume a: "w \<noteq> 0" "x = the (CountTrailingZeros w)"
  then obtain i where "CountTrailingZeros w = Some i" using CountTrailingZeros_Some[OF a(1)] by blast
  then show "((b, w XOR push_bit x 1), b, w) \<in> measure (\<lambda>(b, w). length (word_bits_set w))"
    using word_bits_clear[of w i] a by simp
qed simp

declare word_ordinals.simps [simp del]

definition bv_ForEachSetBitInExpression :: "bit_vector \<Rightarrow> (nat \<Rightarrow> u64) \<Rightarrow> nat list" where
  "bv_ForEachSetBitInExpression self expr = concat (map (\<lambda>i. word_ordinals (i * 64) (expr i)) [0..<bv_GetAllocLength self])"

definition bv_ForEachSetBit :: "bit_vector \<Rightarrow> nat list" where
  "bv_ForEachSetBit self = bv_ForEachSetBitInExpression self (\<lambda>i. bv_data self ! i)"

definition bv_ForEachSetBitThatIsClearInOther :: "bit_vector \<Rightarrow> bit_vector \<Rightarrow> nat list" where
  "bv_ForEachSetBitThatIsClearInOther self other = bv_ForEachSetBitInExpression self (\<lambda>i. bv_data self ! i AND NOT (bv_data other ! i))"

section \<open>A bit vector is a set\<close>

definition bv_bit :: "u64 list \<Rightarrow> nat \<Rightarrow> bool" where
  "bv_bit data i \<longleftrightarrow> bit (data ! (i div 64)) (i mod 64)"

text \<open>The words are there and the bits past the length are clear.\<close>

definition bv_ok :: "bit_vector \<Rightarrow> bool" where
  "bv_ok self \<longleftrightarrow> length (bv_data self) = bv_GetAllocLength self \<and>
     (\<forall>i. bv_length self \<le> i \<and> i < 64 * bv_GetAllocLength self \<longrightarrow> \<not> bv_bit (bv_data self) i)"

definition bv_set :: "bit_vector \<Rightarrow> nat set" where
  "bv_set self = {i. i < bv_length self \<and> bv_bit (bv_data self) i}"

lemma alloc_bounds: "len \<le> 64 * bv_alloc len" "64 * bv_alloc len < len + 64" "i < len \<Longrightarrow> i div 64 < bv_alloc len"
  by (simp_all add: bv_alloc_def less_mult_imp_div_less)

lemma bv_bit_update:
  assumes "loc div 64 < length data"
  shows "bv_bit (data[loc div 64 := w]) i \<longleftrightarrow> (if i div 64 = loc div 64 then bit w (i mod 64) else bv_bit data i)"
  using assms by (simp add: bv_bit_def nth_list_update)

lemma div_mod_eq64: "i div 64 = j div 64 \<and> i mod 64 = j mod 64 \<longleftrightarrow> i = (j::nat)"
  by (metis div_mult_mod_eq)

lemma IsSet_iff: "bv_IsSet self loc \<longleftrightarrow> bv_bit (bv_data self) loc"
proof -
  have "w AND push_bit k 1 \<noteq> 0 \<longleftrightarrow> bit w k" if "k < 64" for w :: u64 and k
    using that by (metis and_eq_not_not_or bit_iff_and_push_bit_not_eq_0)
  then show ?thesis by (simp add: bv_IsSet_def bv_bit_def)
qed

lemma SetBit_bit:
  assumes "loc div 64 < length (bv_data self)"
  shows "bv_bit (bv_data (bv_SetBit self loc)) i \<longleftrightarrow> i = loc \<or> bv_bit (bv_data self) i"
proof -
  have "bv_bit (bv_data (bv_SetBit self loc)) i \<longleftrightarrow>
    (if i div 64 = loc div 64 then bit (bv_data self ! (loc div 64) OR push_bit (loc mod 64) 1) (i mod 64) else bv_bit (bv_data self) i)"
    by (simp add: bv_SetBit_def bv_bit_update[OF assms] del: push_bit_of_1)
  then show ?thesis using div_mod_eq64[of i loc] bit_single[of "i mod 64" "loc mod 64", where 'a = 64]
    by (auto simp: bit_or_iff bit_and_iff bit_not_iff bv_bit_def simp del: push_bit_of_1)
qed

lemma ClearBit_bit:
  assumes "loc div 64 < length (bv_data self)"
  shows "bv_bit (bv_data (bv_ClearBit self loc)) i \<longleftrightarrow> i \<noteq> loc \<and> bv_bit (bv_data self) i"
proof -
  have "bv_bit (bv_data (bv_ClearBit self loc)) i \<longleftrightarrow>
    (if i div 64 = loc div 64 then bit (bv_data self ! (loc div 64) AND NOT (push_bit (loc mod 64) 1)) (i mod 64) else bv_bit (bv_data self) i)"
    by (simp add: bv_ClearBit_def bv_bit_update[OF assms] del: push_bit_of_1)
  then show ?thesis using div_mod_eq64[of i loc] bit_single[of "i mod 64" "loc mod 64", where 'a = 64]
    by (auto simp: bit_or_iff bit_and_iff bit_not_iff bv_bit_def simp del: push_bit_of_1)
qed

lemma word_ordinals_eq: "word_ordinals base w = map (\<lambda>i. i + base) (word_bits_set w)"
proof (induction base w rule: word_ordinals.induct)
  case (1 base w)
  show ?case
  proof (cases "w = 0")
    case True
    then show ?thesis by (simp add: word_ordinals.simps[of base 0] word_bits_set_def)
  next
    case False
    then obtain i where i: "CountTrailingZeros w = Some i" using CountTrailingZeros_Some by blast
    then show ?thesis using 1[OF False] False word_bits_clear[OF i False]
      by (simp add: word_ordinals.simps[of base w])
  qed
qed

text \<open>Going through the words and the bits in each is going through all bits in order.\<close>

lemma concat_ordinals:
  fixes expr :: "nat \<Rightarrow> u64"
  shows "concat (map (\<lambda>i. word_ordinals (i * 64) (expr i)) [0..<n]) = filter (\<lambda>i. bit (expr (i div 64)) (i mod 64)) [0..<64 * n]"
proof (induction n)
  case (Suc n)
  have up: "[0..<64 * Suc n] = [0..<64 * n] @ map (\<lambda>i. i + n * 64) [0..<64]"
    using upt_add_eq_append[of 0 "64 * n" 64] map_add_upt[of "64 * n" 64] by (simp add: mult.commute add.commute)
  have "filter (\<lambda>i. bit (expr (i div 64)) (i mod 64)) (map (\<lambda>i. i + n * 64) [0..<64]) = map (\<lambda>i. i + n * 64) (word_bits_set (expr n))"
    unfolding filter_map word_bits_set_def comp_def by (intro arg_cong[where f = "map _"] filter_cong) auto
  then show ?case using Suc unfolding up by (simp add: word_ordinals_eq)
qed simp

lemma ForEach_eq:
  assumes "\<And>i. bv_length self \<le> i \<Longrightarrow> i < 64 * bv_GetAllocLength self \<Longrightarrow> \<not> bit (expr (i div 64)) (i mod 64)"
  shows "bv_ForEachSetBitInExpression self expr = filter (\<lambda>i. bit (expr (i div 64)) (i mod 64)) [0..<bv_length self]"
proof -
  let ?n = "64 * bv_GetAllocLength self"
  have "bv_length self \<le> ?n" using alloc_bounds(1) by (simp add: bv_GetAllocLength_def)
  then have "[0..<?n] = [0..<bv_length self] @ [bv_length self..<?n]" using upt_add_eq_append[of 0 "bv_length self" "?n - bv_length self"] by simp
  moreover have "filter (\<lambda>i. bit (expr (i div 64)) (i mod 64)) [bv_length self..<?n] = []"
    using assms by (auto simp: filter_empty_conv)
  ultimately show ?thesis unfolding bv_ForEachSetBitInExpression_def concat_ordinals by simp
qed

lemma bv_okD:
  assumes "bv_ok self"
  shows "length (bv_data self) = bv_GetAllocLength self" "bv_length self \<le> i \<Longrightarrow> i < 64 * bv_GetAllocLength self \<Longrightarrow> \<not> bv_bit (bv_data self) i"
    "i < bv_length self \<Longrightarrow> i div 64 < length (bv_data self)"
  using assms alloc_bounds(3)[of i "bv_length self"] by (auto simp: bv_ok_def bv_GetAllocLength_def)

lemma SetBit_ok:
  assumes "bv_ok self" "loc < bv_length self"
  shows "bv_ok (bv_SetBit self loc)" "bv_set (bv_SetBit self loc) = insert loc (bv_set self)" "bv_length (bv_SetBit self loc) = bv_length self"
proof -
  note B = SetBit_bit[OF bv_okD(3)[OF assms]]
  show l: "bv_length (bv_SetBit self loc) = bv_length self" by (simp add: bv_SetBit_def)
  show "bv_ok (bv_SetBit self loc)" using assms bv_okD(1,2)[OF assms(1)] B unfolding bv_ok_def l bv_GetAllocLength_def
    by (auto simp: bv_SetBit_def)
  show "bv_set (bv_SetBit self loc) = insert loc (bv_set self)" using assms(2) unfolding bv_set_def l B by auto
qed

lemma ClearBit_ok:
  assumes "bv_ok self" "loc < bv_length self"
  shows "bv_ok (bv_ClearBit self loc)" "bv_set (bv_ClearBit self loc) = bv_set self - {loc}" "bv_length (bv_ClearBit self loc) = bv_length self"
proof -
  note B = ClearBit_bit[OF bv_okD(3)[OF assms]]
  show l: "bv_length (bv_ClearBit self loc) = bv_length self" by (simp add: bv_ClearBit_def)
  show "bv_ok (bv_ClearBit self loc)" using assms bv_okD(1,2)[OF assms(1)] B unfolding bv_ok_def l bv_GetAllocLength_def
    by (auto simp: bv_ClearBit_def)
  show "bv_set (bv_ClearBit self loc) = bv_set self - {loc}" using assms(2) unfolding bv_set_def l B by auto
qed

lemma Reset_ok:
  assumes "length fresh = bv_alloc len"
  shows "bv_ok (bv_Reset len fresh)" "bv_set (bv_Reset len fresh) = {}" "bv_length (bv_Reset len fresh) = len"
proof -
  have d: "bv_data (bv_Reset len fresh) = replicate (bv_alloc len) 0" "bv_length (bv_Reset len fresh) = len"
    using assms by (simp_all add: bv_Reset_def bv_Clear_def bv_GetAllocLength_def)
  have b: "\<not> bv_bit (replicate (bv_alloc len) 0) i" if "i div 64 < bv_alloc len" for i using that by (simp add: bv_bit_def)
  have lt: "i div 64 < bv_alloc len" if "i < 64 * bv_alloc len" for i using that by (simp add: less_mult_imp_div_less mult.commute)
  show "bv_ok (bv_Reset len fresh)" unfolding bv_ok_def bv_GetAllocLength_def d using b lt by simp
  show "bv_set (bv_Reset len fresh) = {}" unfolding bv_set_def d using b alloc_bounds(3) by auto
  show "bv_length (bv_Reset len fresh) = len" by (rule d(2))
qed

lemma SetAllOne_ok:
  assumes "bv_ok self"
  shows "bv_ok (bv_SetAllOne self)" "bv_set (bv_SetAllOne self) = {..<bv_length self}" "bv_length (bv_SetAllOne self) = bv_length self"
proof -
  let ?n = "bv_alloc (bv_length self)" and ?m = "drop_bit (64 - ((bv_length self + 63) mod 64 + 1)) (- 1 :: u64)"
  have len: "length (bv_data self) = ?n" using bv_okD(1)[OF assms] by (simp add: bv_GetAllocLength_def)
  show l: "bv_length (bv_SetAllOne self) = bv_length self" by (simp add: bv_SetAllOne_def Let_def)
  have dl: "length (bv_data (bv_SetAllOne self)) = ?n" using len by (simp add: bv_SetAllOne_def Let_def)
  have d: "bv_data (bv_SetAllOne self) ! j = (if j + 1 = ?n then ?m else - 1)" if "j < ?n" for j
    using that len by (auto simp: bv_SetAllOne_def Let_def bv_GetAllocLength_def nth_list_update)
  have b: "bv_bit (bv_data (bv_SetAllOne self)) i \<longleftrightarrow> i < bv_length self" if i: "i < 64 * ?n" for i
  proof -
    have q: "i div 64 < ?n" using i by (simp add: less_mult_imp_div_less mult.commute)
    have i64: "i mod 64 < 64" by simp
    have mb: "bit ?m (i mod 64) \<longleftrightarrow> i mod 64 \<le> (bv_length self + 63) mod 64"
      using i64 by (auto simp: bit_drop_bit_eq bit_minus_1_iff bit_mask_iff)
    show ?thesis
    proof (cases "i div 64 + 1 = ?n")
      case True
      have "bv_bit (bv_data (bv_SetAllOne self)) i \<longleftrightarrow> i mod 64 \<le> (bv_length self + 63) mod 64" using d[OF q] True mb by (simp add: bv_bit_def)
      moreover have "bv_length self + 63 = 64 * ?n + (bv_length self + 63) mod 64" unfolding bv_alloc_def by simp
      moreover have "i = 64 * (i div 64) + i mod 64" by simp
      ultimately show ?thesis using True by linarith
    next
      case False
      then have "i div 64 + 2 \<le> ?n" using q by simp
      moreover have "i = 64 * (i div 64) + i mod 64" "i mod 64 < 64" by simp_all
      ultimately have "i < bv_length self" using alloc_bounds(2)[of "bv_length self"] by linarith
      then show ?thesis using d[OF q] False by (simp add: bv_bit_def bit_minus_1_iff)
    qed
  qed
  show "bv_ok (bv_SetAllOne self)" unfolding bv_ok_def bv_GetAllocLength_def l dl using b by simp
  have "i < 64 * ?n" if "i < bv_length self" for i using that alloc_bounds(1)[of "bv_length self"] by simp
  then show "bv_set (bv_SetAllOne self) = {..<bv_length self}" unfolding bv_set_def l using b by auto
qed

lemma Copy_ok:
  assumes "bv_ok self" "bv_ok other" "bv_length other = bv_length self"
  shows "bv_CopyFromEqualLengthBitVector self other = other"
  using bv_okD(1)[OF assms(1)] bv_okD(1)[OF assms(2)] assms(3)
  by (simp add: bv_CopyFromEqualLengthBitVector_def bv_GetAllocLength_def)

lemma ForEachSetBit_eq:
  assumes "bv_ok self"
  shows "bv_ForEachSetBit self = filter (\<lambda>i. i \<in> bv_set self) [0..<bv_length self]"
proof -
  have "bv_ForEachSetBit self = filter (\<lambda>i. bv_bit (bv_data self) i) [0..<bv_length self]"
    unfolding bv_ForEachSetBit_def bv_bit_def using bv_okD(2)[OF assms] by (intro ForEach_eq) (simp add: bv_bit_def)
  then show ?thesis by (auto simp: bv_set_def intro: filter_cong)
qed

lemma ForEachSetBitThatIsClearInOther_eq:
  assumes "bv_ok self" "bv_length other = bv_length self"
  shows "bv_ForEachSetBitThatIsClearInOther self other = filter (\<lambda>i. i \<in> bv_set self - bv_set other) [0..<bv_length self]"
proof -
  have "bv_ForEachSetBitThatIsClearInOther self other =
      filter (\<lambda>i. bit (bv_data self ! (i div 64) AND NOT (bv_data other ! (i div 64))) (i mod 64)) [0..<bv_length self]"
    unfolding bv_ForEachSetBitThatIsClearInOther_def using bv_okD(2)[OF assms(1)] by (intro ForEach_eq) (simp add: bv_bit_def bit_simps)
  then show ?thesis using assms(2) by (auto simp: bv_set_def bv_bit_def bit_simps intro!: filter_cong)
qed

text \<open>
  C33. \<^bold>\<open>Bit vectors are sets.\<close> On a well-formed bit vector the operations are those of a set of ordinals, and the loop over the set
  bits visits the members in ascending order.
\<close>

theorem bit_vector_refines_set:
  assumes "bv_ok self" "loc < bv_length self" "bv_length other = bv_length self"
  shows "(bv_IsSet self loc \<longleftrightarrow> loc \<in> bv_set self) \<and>
    bv_ok (bv_SetBitTo self loc b) \<and> bv_set (bv_SetBitTo self loc b) = (if b then insert loc (bv_set self) else bv_set self - {loc}) \<and>
    bv_ok (bv_SetAllOne self) \<and> bv_set (bv_SetAllOne self) = {..<bv_length self} \<and>
    sorted_wrt (<) (bv_ForEachSetBit self) \<and> set (bv_ForEachSetBit self) = bv_set self \<and>
    sorted_wrt (<) (bv_ForEachSetBitThatIsClearInOther self other) \<and>
    set (bv_ForEachSetBitThatIsClearInOther self other) = bv_set self - bv_set other"
proof (intro conjI)
  show "bv_IsSet self loc \<longleftrightarrow> loc \<in> bv_set self" using assms(2) by (simp add: IsSet_iff bv_set_def)
  show "bv_ok (bv_SetBitTo self loc b)" "bv_set (bv_SetBitTo self loc b) = (if b then insert loc (bv_set self) else bv_set self - {loc})"
    using SetBit_ok[OF assms(1,2)] ClearBit_ok[OF assms(1,2)] by (simp_all add: bv_SetBitTo_def)
  show "bv_ok (bv_SetAllOne self)" "bv_set (bv_SetAllOne self) = {..<bv_length self}" using SetAllOne_ok[OF assms(1)] by simp_all
  show "sorted_wrt (<) (bv_ForEachSetBit self)" "set (bv_ForEachSetBit self) = bv_set self"
    unfolding ForEachSetBit_eq[OF assms(1)] by (auto simp: bv_set_def intro!: sorted_wrt_filter)
  show "sorted_wrt (<) (bv_ForEachSetBitThatIsClearInOther self other)"
    "set (bv_ForEachSetBitThatIsClearInOther self other) = bv_set self - bv_set other"
    unfolding ForEachSetBitThatIsClearInOther_eq[OF assms(1,3)] by (auto simp: bv_set_def intro!: sorted_wrt_filter)
qed

theorem bit_vector_refines_set_witness:
  "bv_ok (bv_Reset 70 [5, 6]) \<and> 69 < bv_length (bv_Reset 70 [5, 6]) \<and>
   bv_set (bv_SetBitTo (bv_Reset 70 [5, 6]) 69 True) = {69} \<and> \<not> bv_IsSet (bv_Reset 70 [5, 6]) 69 \<and>
   set (bv_ForEachSetBit (bv_Reset 70 [5, 6])) = {}"
proof -
  have R: "bv_ok (bv_Reset 70 [5, 6])" "bv_set (bv_Reset 70 [5, 6]) = {}" "bv_length (bv_Reset 70 [5, 6]) = 70"
    using Reset_ok[of "[5, 6]" 70] by (simp_all add: bv_alloc_def)
  show ?thesis using bit_vector_refines_set[of "bv_Reset 70 [5, 6]" 69 "bv_Reset 70 [5, 6]" True] R by simp
qed

end
