(* ===== verification/SccFinder.thy ===== *)
theory SccFinder
  imports Prelude
begin

text \<open>
  \<^verbatim>\<open>StronglyConnectedComponentsFinder\<close> of \<^verbatim>\<open>drt/strongly_connected_components_util.h\<close>: the iterative form of Pearce's
  algorithm, its labels (\<^verbatim>\<open>visit_new_node\<close>, \<^verbatim>\<open>continue_iterate_edges\<close>, \<^verbatim>\<open>finished_visiting_edges\<close>) as values and one step
  function per label. The two stacks that share a buffer are two lists, their tops first. The template parameter for edge
  iterators is the locale \<open>edge_iterator\<close>; the invariant of the search is defined in it.
\<close>

unbundle bit_operations_syntax

section \<open>Edge iterators\<close>

text \<open>The operations of the template parameter \<^verbatim>\<open>EdgeIteratorImpl\<close>, for one graph.\<close>

record 'it edge_ops =
  eo_Construct :: "nat \<Rightarrow> 'it"
  eo_GetSourceNode :: "'it \<Rightarrow> nat"
  eo_IsValid :: "'it \<Rightarrow> bool"
  eo_GetDestNode :: "'it \<Rightarrow> nat"
  eo_Advance :: "'it \<Rightarrow> 'it \<times> bool"

section \<open>The finder\<close>

record 'it scc_finder =
  sf_vf :: "'it list"
  sf_vb :: "nat list"
  sf_rindexComposite :: "nat list"
  sf_index :: nat
  sf_componentIndex :: nat
  sf_numNodes :: nat

definition sf_new :: "nat \<Rightarrow> 'it scc_finder" where
  "sf_new numNodes = \<lparr>sf_vf = [], sf_vb = [], sf_rindexComposite = replicate numNodes 0, sf_index = 2,
     sf_componentIndex = 4 * numNodes - 1, sf_numNodes = numNodes\<rparr>"

datatype scc_label = visit_new_node nat | continue_iterate_edges nat nat | finished_visiting_edges nat

definition IsRoot :: "nat list \<Rightarrow> nat \<Rightarrow> bool" where
  "IsRoot rindexComposite nodeOrd \<longleftrightarrow> rindexComposite ! nodeOrd AND 1 = 0"

definition after_edge :: "'it edge_ops \<Rightarrow> nat \<Rightarrow> 'it \<Rightarrow> 'it scc_finder \<Rightarrow> scc_label" where
  "after_edge ops nodeOrd it s =
     (let neighborOrd = eo_GetDestNode ops it in
      if sf_rindexComposite s ! neighborOrd = 0 then visit_new_node neighborOrd
      else continue_iterate_edges nodeOrd neighborOrd)"

definition sf_visit :: "'it edge_ops \<Rightarrow> nat \<Rightarrow> 'it scc_finder \<Rightarrow> scc_label \<times> 'it scc_finder" where
  "sf_visit ops nodeOrd s =
     (let it = eo_Construct ops nodeOrd;
          s = s\<lparr>sf_vf := it # sf_vf s, sf_rindexComposite := (sf_rindexComposite s)[nodeOrd := sf_index s], sf_index := sf_index s + 2\<rparr>
      in (if eo_IsValid ops it then after_edge ops nodeOrd it s else finished_visiting_edges nodeOrd, s))"

definition sf_continue :: "'it edge_ops \<Rightarrow> nat \<Rightarrow> nat \<Rightarrow> 'it scc_finder \<Rightarrow> scc_label \<times> 'it scc_finder" where
  "sf_continue ops nodeOrd neighborOrd s =
     (let rindex_w_1 = sf_rindexComposite s ! neighborOrd OR 1;
          s = (if rindex_w_1 < sf_rindexComposite s ! nodeOrd
               then s\<lparr>sf_rindexComposite := (sf_rindexComposite s)[nodeOrd := rindex_w_1]\<rparr> else s);
          (it, more) = eo_Advance ops (hd (sf_vf s));
          s = s\<lparr>sf_vf := it # tl (sf_vf s)\<rparr>
      in (if more then after_edge ops nodeOrd it s else finished_visiting_edges nodeOrd, s))"

text \<open>
  The loop that assigns the component. The sentry below the bottom of the stack is the node itself; popping the sentry is the
  result \<open>None\<close>.
\<close>

fun pop_component :: "nat \<Rightarrow> nat \<Rightarrow> nat \<Rightarrow> nat list \<Rightarrow> nat list \<Rightarrow> (nat list \<times> nat list) option" where
  "pop_component nodeOrd rindex_nodeOrd_0 componentIndex [] rindexComposite =
     (if rindex_nodeOrd_0 \<ge> rindexComposite ! nodeOrd then Some ([], rindexComposite) else None)"
| "pop_component nodeOrd rindex_nodeOrd_0 componentIndex (w # vb) rindexComposite =
     (if rindex_nodeOrd_0 \<ge> rindexComposite ! w then Some (w # vb, rindexComposite)
      else pop_component nodeOrd rindex_nodeOrd_0 componentIndex vb (rindexComposite[w := componentIndex]))"

definition sf_finish_node :: "nat \<Rightarrow> 'it scc_finder \<Rightarrow> 'it scc_finder option" where
  "sf_finish_node nodeOrd s =
     (if IsRoot (sf_rindexComposite s) nodeOrd then
        case pop_component nodeOrd (sf_rindexComposite s ! nodeOrd) (sf_componentIndex s) (sf_vb s) (sf_rindexComposite s) of
          None \<Rightarrow> None
        | Some (vb, rindexComposite) \<Rightarrow>
            Some (s\<lparr>sf_vb := vb, sf_rindexComposite := rindexComposite[nodeOrd := sf_componentIndex s],
              sf_componentIndex := sf_componentIndex s - 2\<rparr>)
      else Some (s\<lparr>sf_vb := nodeOrd # sf_vb s\<rparr>))"

definition sf_finished :: "'it edge_ops \<Rightarrow> nat \<Rightarrow> 'it scc_finder \<Rightarrow> (scc_label option \<times> 'it scc_finder) option" where
  "sf_finished ops nodeOrd s =
     (case sf_finish_node nodeOrd (s\<lparr>sf_vf := tl (sf_vf s)\<rparr>) of None \<Rightarrow> None
      | Some s \<Rightarrow> Some (case sf_vf s of
            [] \<Rightarrow> None
          | it # _ \<Rightarrow> Some (continue_iterate_edges (eo_GetSourceNode ops it) (eo_GetDestNode ops it)), s))"

definition sf_step :: "'it edge_ops \<Rightarrow> scc_label \<Rightarrow> 'it scc_finder \<Rightarrow> (scc_label option \<times> 'it scc_finder) option" where
  "sf_step ops l s = (case l of
      visit_new_node v \<Rightarrow> Some (apfst Some (sf_visit ops v s))
    | continue_iterate_edges v w \<Rightarrow> Some (apfst Some (sf_continue ops v w s))
    | finished_visiting_edges v \<Rightarrow> sf_finished ops v s)"

partial_function (option) sf_run :: "'it edge_ops \<Rightarrow> scc_label \<Rightarrow> 'it scc_finder \<Rightarrow> 'it scc_finder option" where
  "sf_run ops l s = (case sf_step ops l s of None \<Rightarrow> None
     | Some (None, s') \<Rightarrow> Some s'
     | Some (Some l', s') \<Rightarrow> sf_run ops l' s')"

definition FindSccFromNode :: "'it edge_ops \<Rightarrow> nat \<Rightarrow> 'it scc_finder \<Rightarrow> 'it scc_finder option" where
  "FindSccFromNode ops nodeOrd s = sf_run ops (visit_new_node nodeOrd) s"

definition FinishComputation :: "'it scc_finder \<Rightarrow> nat \<times> nat list" where
  "FinishComputation s =
     ((4 * sf_numNodes s - sf_componentIndex s) div 2,
      map (\<lambda>r. (4 * sf_numNodes s - r) div 2) (sf_rindexComposite s))"

text \<open>The next unvisited node after \<open>entryNode\<close>.\<close>

function next_entry :: "nat list \<Rightarrow> nat \<Rightarrow> nat \<Rightarrow> nat" where
  "next_entry rindexComposite numNodes entryNode =
     (if entryNode + 1 \<ge> numNodes \<or> rindexComposite ! (entryNode + 1) = 0 then entryNode + 1
      else next_entry rindexComposite numNodes (entryNode + 1))"
  by pat_completeness auto
termination by (relation "measure (\<lambda>(r, n, e). n - e)") auto

declare next_entry.simps [simp del]

partial_function (option) sf_entries :: "'it edge_ops \<Rightarrow> nat \<Rightarrow> bool \<Rightarrow> 'it scc_finder \<Rightarrow> 'it scc_finder option" where
  "sf_entries ops entryNode entryNodeOnly s =
     Option.bind (FindSccFromNode ops entryNode s) (\<lambda>s.
       if entryNodeOnly then Some s
       else let entryNode = next_entry (sf_rindexComposite s) (sf_numNodes s) entryNode in
            if entryNode = sf_numNodes s then Some s else sf_entries ops entryNode entryNodeOnly s)"

definition RunImpl :: "'it edge_ops \<Rightarrow> nat \<Rightarrow> nat \<Rightarrow> bool \<Rightarrow> (nat \<times> nat list) option" where
  "RunImpl ops numNodes entryNode entryNodeOnly =
     map_option FinishComputation (sf_entries ops entryNode entryNodeOnly (sf_new numNodes))"

definition ComputeForGenericGraph :: "'it edge_ops \<Rightarrow> nat \<Rightarrow> (nat \<times> nat list) option" where
  "ComputeForGenericGraph ops numNodes = RunImpl ops numNodes 0 False"

definition ComputeForCFG :: "'it edge_ops \<Rightarrow> nat \<Rightarrow> nat \<Rightarrow> (nat \<times> nat list) option" where
  "ComputeForCFG ops numNodes entryNode = RunImpl ops numNodes entryNode True"

section \<open>The contract of an edge iterator\<close>

text \<open>A graph on the nodes below \<open>n\<close>, by its adjacency lists.\<close>

definition graph_edge :: "nat \<Rightarrow> (nat \<Rightarrow> nat list) \<Rightarrow> nat \<Rightarrow> nat \<Rightarrow> bool" where
  "graph_edge n adj u v \<longleftrightarrow> u < n \<and> v \<in> set (adj u)"

text \<open>The result: two nodes have the same number iff each reaches the other; numbers descend along edges.\<close>

definition scc_numbering :: "nat \<Rightarrow> (nat \<Rightarrow> nat list) \<Rightarrow> nat \<Rightarrow> nat list \<Rightarrow> bool" where
  "scc_numbering n adj numSCCs result \<longleftrightarrow> length result = n \<and> set result = {..<numSCCs} \<and> numSCCs \<le> n \<and>
     (\<forall>u<n. \<forall>v<n. result ! u = result ! v \<longleftrightarrow> (graph_edge n adj)\<^sup>*\<^sup>* u v \<and> (graph_edge n adj)\<^sup>*\<^sup>* v u) \<and>
     (\<forall>u v. graph_edge n adj u v \<longrightarrow> result ! v \<le> result ! u)"

locale edge_iterator =
  fixes ops :: "'it edge_ops" and n :: nat and adj :: "nat \<Rightarrow> nat list" and rem :: "'it \<Rightarrow> nat list" and ok :: "'it \<Rightarrow> bool"
  assumes construct: "v < n \<Longrightarrow> ok (eo_Construct ops v) \<and> eo_GetSourceNode ops (eo_Construct ops v) = v \<and> rem (eo_Construct ops v) = adj v"
    and valid: "ok it \<Longrightarrow> eo_IsValid ops it \<longleftrightarrow> rem it \<noteq> []"
    and dest: "ok it \<Longrightarrow> rem it = x # xs \<Longrightarrow> eo_GetDestNode ops it = x"
    and advance: "ok it \<Longrightarrow> rem it = x # xs \<Longrightarrow>
      ok (fst (eo_Advance ops it)) \<and> snd (eo_Advance ops it) = (xs \<noteq> []) \<and> rem (fst (eo_Advance ops it)) = xs \<and>
      eo_GetSourceNode ops (fst (eo_Advance ops it)) = eo_GetSourceNode ops it"
    and adj_range: "v < n \<Longrightarrow> set (adj v) \<subseteq> {..<n}"
begin

abbreviation src :: "'it \<Rightarrow> nat" where
  "src \<equiv> eo_GetSourceNode ops"

abbreviation srcs :: "'it scc_finder \<Rightarrow> nat list" where
  "srcs s \<equiv> map src (sf_vf s)"

abbreviation R :: "'it scc_finder \<Rightarrow> nat \<Rightarrow> nat" where
  "R s v \<equiv> sf_rindexComposite s ! v"

abbreviation edge :: "nat \<Rightarrow> nat \<Rightarrow> bool" where
  "edge \<equiv> graph_edge n adj"

lemmas edge_def = graph_edge_def

lemma edge_range: "edge u v \<Longrightarrow> u < n \<and> v < n"
  using adj_range by (auto simp: edge_def)

abbreviation reaches :: "nat \<Rightarrow> nat \<Rightarrow> bool" where
  "reaches \<equiv> edge\<^sup>*\<^sup>*"

section \<open>The invariant\<close>

text \<open>Nodes that are visited and have no component yet, and nodes that have one.\<close>

definition act :: "'it scc_finder \<Rightarrow> nat set" where
  "act s = {v. v < n \<and> 0 < R s v \<and> R s v \<le> 2 * n}"

definition fin :: "'it scc_finder \<Rightarrow> nat set" where
  "fin s = {v. v < n \<and> 2 * n < R s v}"

definition seen :: "'it scc_finder \<Rightarrow> nat set" where
  "seen s = {v. v < n \<and> R s v \<noteq> 0}"

lemma seen_eq: "seen s = act s \<union> fin s"
  by (auto simp: seen_def act_def fin_def)

text \<open>Each node of the stack is the current destination of the iterator below it.\<close>

fun chain :: "'it list \<Rightarrow> bool" where
  "chain (a # b # its) \<longleftrightarrow> (\<exists>xs. rem b = src a # xs) \<and> chain (b # its)"
| "chain _ \<longleftrightarrow> True"

text \<open>The stacks; \<open>idx\<close> gives the number a node got when it was visited.\<close>

definition stacks :: "(nat \<Rightarrow> nat) \<Rightarrow> 'it scc_finder \<Rightarrow> bool" where
  "stacks idx s \<longleftrightarrow> length (sf_rindexComposite s) = n \<and> sf_numNodes s = n \<and>
     distinct (srcs s @ sf_vb s) \<and> set (srcs s) \<union> set (sf_vb s) = act s \<and> (\<forall>it\<in>set (sf_vf s). ok it) \<and> chain (sf_vf s) \<and>
     (\<forall>v\<in>seen s. even (idx v) \<and> 0 < idx v \<and> idx v < sf_index s) \<and> inj_on idx (seen s) \<and> sf_index s = 2 + 2 * card (seen s)"

definition order :: "(nat \<Rightarrow> nat) \<Rightarrow> 'it scc_finder \<Rightarrow> bool" where
  "order idx s \<longleftrightarrow> sorted_wrt (\<lambda>a b. idx b < idx a) (srcs s) \<and>
     sorted_wrt (\<lambda>a b. \<forall>v\<in>set (srcs s). idx v < idx b \<longrightarrow> idx v < idx a) (sf_vb s) \<and>
     (\<forall>w\<in>set (sf_vb s). \<exists>v\<in>set (srcs s). idx v < idx w)"

text \<open>A node of the stack reaches everything visited after it; a node whose entry is odd reaches the older node that the entry names.\<close>

definition paths :: "(nat \<Rightarrow> nat) \<Rightarrow> 'it scc_finder \<Rightarrow> bool" where
  "paths idx s \<longleftrightarrow> (\<forall>v\<in>set (srcs s). \<forall>w\<in>act s. idx v \<le> idx w \<longrightarrow> reaches v w) \<and>
     (\<forall>w\<in>act s. R s w = idx w \<or> odd (R s w) \<and> (\<exists>u\<in>act s. idx u + 1 = R s w \<and> idx u < idx w \<and> reaches w u)) \<and>
     (\<forall>w\<in>set (sf_vb s). odd (R s w))"

text \<open>An edge that has been looked at.\<close>

definition looked :: "(nat \<Rightarrow> nat) \<Rightarrow> 'it scc_finder \<Rightarrow> nat \<Rightarrow> nat \<Rightarrow> bool" where
  "looked idx s w x \<longleftrightarrow> x \<in> seen s \<and> (x \<in> act s \<longrightarrow> R s w \<le> idx x + 1)"

definition edges :: "(nat \<Rightarrow> nat) \<Rightarrow> 'it scc_finder \<Rightarrow> bool" where
  "edges idx s \<longleftrightarrow> (\<forall>w\<in>set (sf_vb s). \<forall>x\<in>set (adj w). looked idx s w x) \<and>
     (\<forall>it\<in>set (sf_vf s). \<exists>pre. adj (src it) = pre @ rem it \<and> (\<forall>x\<in>set pre. looked idx s (src it) x))"

text \<open>The entry of a stack node bounds the entries of the nodes of the backlog that were visited from it.\<close>

definition owns :: "(nat \<Rightarrow> nat) \<Rightarrow> 'it scc_finder \<Rightarrow> nat \<Rightarrow> nat \<Rightarrow> bool" where
  "owns idx s v w \<longleftrightarrow> v \<in> set (srcs s) \<and> w \<in> set (sf_vb s) \<and> idx v < idx w \<and> (\<forall>v'\<in>set (srcs s). idx v' < idx w \<longrightarrow> idx v' \<le> idx v)"

definition bounds :: "nat option \<Rightarrow> (nat \<Rightarrow> nat) \<Rightarrow> 'it scc_finder \<Rightarrow> bool" where
  "bounds pend idx s \<longleftrightarrow> (\<forall>v w. owns idx s v w \<longrightarrow> R s v \<le> R s w \<or> (\<exists>x. pend = Some x \<and> v = hd (srcs s) \<and> R s x \<le> R s w))"

text \<open>The finished components: numbered from above, closed under edges, in reverse topological order.\<close>

definition comps :: "'it scc_finder \<Rightarrow> bool" where
  "comps s \<longleftrightarrow> (\<forall>u\<in>fin s. \<forall>x\<in>set (adj u). x \<in> fin s \<and> R s u \<le> R s x) \<and>
     (\<forall>u\<in>fin s. \<forall>v\<in>fin s. R s u = R s v \<longleftrightarrow> reaches u v \<and> reaches v u) \<and>
     (\<exists>k. sf_componentIndex s + 2 * k + 1 = 4 * n \<and> R s ` fin s = (\<lambda>j. 4 * n - 1 - 2 * j) ` {..<k} \<and> k \<le> card (fin s))"

definition inv :: "nat option \<Rightarrow> (nat \<Rightarrow> nat) \<Rightarrow> 'it scc_finder \<Rightarrow> bool" where
  "inv pend idx s \<longleftrightarrow> stacks idx s \<and> order idx s \<and> paths idx s \<and> edges idx s \<and> bounds pend idx s \<and> comps s"

definition at_label :: "scc_label \<Rightarrow> (nat \<Rightarrow> nat) \<Rightarrow> 'it scc_finder \<Rightarrow> bool" where
  "at_label l idx s \<longleftrightarrow> (case l of
      visit_new_node v \<Rightarrow> inv None idx s \<and> v < n \<and> R s v = 0 \<and> (sf_vf s \<noteq> [] \<longrightarrow> (\<exists>xs. rem (hd (sf_vf s)) = v # xs))
    | continue_iterate_edges v w \<Rightarrow> inv (Some w) idx s \<and> w \<in> seen s \<and> (\<exists>it its xs. sf_vf s = it # its \<and> src it = v \<and> rem it = w # xs)
    | finished_visiting_edges v \<Rightarrow> inv None idx s \<and> (\<exists>it its. sf_vf s = it # its \<and> src it = v \<and> rem it = []))"

end

end
