(* ===== verification/SccSteps.thy ===== *)
theory SccSteps
  imports SccFinder
begin

text \<open>
  Each step of the component finder keeps the invariant of \<open>SccFinder\<close>: visiting a node, going on to the next edge, and leaving a
  node that is not the root of its component.
\<close>

unbundle bit_operations_syntax

context edge_iterator
begin

lemma stacksD:
  assumes "stacks idx s"
  shows "length (sf_rindexComposite s) = n" "sf_numNodes s = n" "distinct (srcs s @ sf_vb s)" "set (srcs s) \<union> set (sf_vb s) = act s"
    "it \<in> set (sf_vf s) \<Longrightarrow> ok it" "chain (sf_vf s)" "v \<in> seen s \<Longrightarrow> even (idx v)" "v \<in> seen s \<Longrightarrow> 0 < idx v"
    "v \<in> seen s \<Longrightarrow> idx v < sf_index s" "inj_on idx (seen s)" "sf_index s = 2 + 2 * card (seen s)"
  using assms unfolding stacks_def by blast+

lemma orderD:
  assumes "order idx s"
  shows "sorted_wrt (\<lambda>a b. idx b < idx a) (srcs s)"
    "sorted_wrt (\<lambda>a b. \<forall>v\<in>set (srcs s). idx v < idx b \<longrightarrow> idx v < idx a) (sf_vb s)"
    "w \<in> set (sf_vb s) \<Longrightarrow> \<exists>v\<in>set (srcs s). idx v < idx w"
proof -
  show "sorted_wrt (\<lambda>a b. idx b < idx a) (srcs s)" using assms unfolding order_def by (elim conjE)
  show "sorted_wrt (\<lambda>a b. \<forall>v\<in>set (srcs s). idx v < idx b \<longrightarrow> idx v < idx a) (sf_vb s)" using assms unfolding order_def by (elim conjE)
  have "\<forall>w\<in>set (sf_vb s). \<exists>v\<in>set (srcs s). idx v < idx w" using assms unfolding order_def by (elim conjE)
  then show "\<exists>v\<in>set (srcs s). idx v < idx w" if "w \<in> set (sf_vb s)" using that by (rule bspec)
qed

lemma pathsD:
  assumes "paths idx s"
  shows "v \<in> set (srcs s) \<Longrightarrow> w \<in> act s \<Longrightarrow> idx v \<le> idx w \<Longrightarrow> reaches v w"
    "w \<in> act s \<Longrightarrow> R s w = idx w \<or> odd (R s w) \<and> (\<exists>u\<in>act s. idx u + 1 = R s w \<and> idx u < idx w \<and> reaches w u)"
    "w \<in> set (sf_vb s) \<Longrightarrow> odd (R s w)"
  using assms unfolding paths_def by blast+

lemma edgesD:
  assumes "edges idx s"
  shows "w \<in> set (sf_vb s) \<Longrightarrow> x \<in> set (adj w) \<Longrightarrow> looked idx s w x"
    "it \<in> set (sf_vf s) \<Longrightarrow> \<exists>pre. adj (src it) = pre @ rem it \<and> (\<forall>x\<in>set pre. looked idx s (src it) x)"
  using assms unfolding edges_def by blast+

lemma seen_sub: "seen s \<subseteq> {..<n}" "finite (seen s)" "act s \<subseteq> seen s"
proof -
  show "seen s \<subseteq> {..<n}" by (auto simp: seen_def)
  then show "finite (seen s)" by (rule finite_subset) simp
  show "act s \<subseteq> seen s" by (auto simp: seen_def act_def)
qed

lemma index_bound:
  assumes "stacks idx s" "v < n" "R s v = 0"
  shows "sf_index s \<le> 2 * n" "even (sf_index s)" "0 < sf_index s"
proof -
  have "v \<notin> seen s" using assms(3) by (simp add: seen_def)
  then have "seen s \<subset> {..<n}" using assms(2) seen_sub(1)[of s] by blast
  then have "card (seen s) < n" using psubset_card_mono[of "{..<n}" "seen s"] by simp
  then show "sf_index s \<le> 2 * n" "even (sf_index s)" "0 < sf_index s" using stacksD(11)[OF assms(1)] by auto
qed

subsection \<open>Visiting a node\<close>

definition visited :: "'it scc_finder \<Rightarrow> nat \<Rightarrow> 'it scc_finder" where
  "visited s v = s\<lparr>sf_vf := eo_Construct ops v # sf_vf s, sf_rindexComposite := (sf_rindexComposite s)[v := sf_index s], sf_index := sf_index s + 2\<rparr>"

lemma visit_sets:
  assumes S: "stacks idx s" and v: "v < n" "R s v = 0"
  shows "R (visited s v) x = (if x = v then sf_index s else R s x)" "act (visited s v) = insert v (act s)" "fin (visited s v) = fin s"
    "seen (visited s v) = insert v (seen s)" "v \<notin> act s" "v \<notin> seen s" "srcs (visited s v) = v # srcs s" "sf_vb (visited s v) = sf_vb s"
proof -
  note B = index_bound[OF S v]
  show Rv: "R (visited s v) x = (if x = v then sf_index s else R s x)" for x
    using v(1) stacksD(1)[OF S] by (simp add: visited_def)
  show "act (visited s v) = insert v (act s)" using B v by (auto simp: act_def Rv)
  show "fin (visited s v) = fin s" using B v by (auto simp: fin_def Rv)
  show "seen (visited s v) = insert v (seen s)" using B v by (auto simp: seen_def Rv)
  show "v \<notin> act s" "v \<notin> seen s" using v by (auto simp: act_def seen_def)
  show "srcs (visited s v) = v # srcs s" "sf_vb (visited s v) = sf_vb s" using construct[OF v(1)] by (simp_all add: visited_def)
qed

lemma visit_stacks:
  assumes S: "stacks idx s" and v: "v < n" "R s v = 0" and top: "sf_vf s \<noteq> [] \<longrightarrow> (\<exists>xs. rem (hd (sf_vf s)) = v # xs)"
  shows "stacks (idx(v := sf_index s)) (visited s v)"
  unfolding stacks_def
proof (intro conjI)
  note D = stacksD[OF S] and V = visit_sets[OF S v] and B = index_bound[OF S v]
  show "length (sf_rindexComposite (visited s v)) = n" "sf_numNodes (visited s v) = n" using D(1,2) by (simp_all add: visited_def)
  show "distinct (srcs (visited s v) @ sf_vb (visited s v))" using D(3,4) V(5) unfolding V(7,8) by auto
  show "set (srcs (visited s v)) \<union> set (sf_vb (visited s v)) = act (visited s v)" using D(4) unfolding V(2,7,8) by auto
  show "\<forall>it\<in>set (sf_vf (visited s v)). ok it" using D(5) construct[OF v(1)] by (simp add: visited_def)
  show "chain (sf_vf (visited s v))" using D(6) top construct[OF v(1)] by (cases "sf_vf s") (auto simp: visited_def)
  have idx': "sf_index (visited s v) = sf_index s + 2" by (simp add: visited_def)
  show "\<forall>w\<in>seen (visited s v). even ((idx(v := sf_index s)) w) \<and> 0 < (idx(v := sf_index s)) w \<and> (idx(v := sf_index s)) w < sf_index (visited s v)"
    unfolding V(4) idx' using D(7-9) B by fastforce
  show "inj_on (idx(v := sf_index s)) (seen (visited s v))"
  proof -
    have "inj_on (idx(v := sf_index s)) (seen s)" 
      using D(10) V(6) by (subst inj_on_cong[where g = idx]) auto
    moreover have "(idx(v := sf_index s)) x \<noteq> sf_index s" if "x \<in> seen s" for x using D(9)[OF that] V(6) that by auto
    then have "sf_index s \<notin> (idx(v := sf_index s)) ` seen s" by (metis imageE)
    ultimately show ?thesis unfolding V(4) using V(6) by simp
  qed
  show "sf_index (visited s v) = 2 + 2 * card (seen (visited s v))"
    unfolding V(4) idx' using D(11) seen_sub(2) V(6) by simp
qed

lemma visit_frame:
  assumes S: "stacks idx s" and v: "v < n" "R s v = 0"
  shows "x \<in> seen s \<Longrightarrow> (idx(v := sf_index s)) x = idx x" "x \<in> seen s \<Longrightarrow> R (visited s v) x = R s x" "x \<in> seen s \<Longrightarrow> idx x < sf_index s"
    "x \<in> set (srcs s) \<Longrightarrow> x \<in> seen s" "x \<in> set (sf_vb s) \<Longrightarrow> x \<in> seen s" "x \<in> act s \<Longrightarrow> x \<in> seen s"
  using visit_sets(1,6)[OF S v] stacksD(4,9)[OF S] seen_sub(3)[of s] by auto

lemma visit_order:
  assumes S: "stacks idx s" and v: "v < n" "R s v = 0" and O: "order idx s"
  shows "order (idx(v := sf_index s)) (visited s v)"
proof -
  note V = visit_sets[OF S v] and F = visit_frame[OF S v]
  let ?i = "idx(v := sf_index s)"
  have a: "sorted_wrt (\<lambda>a b. ?i b < ?i a) (srcs s)"
  proof (rule sorted_wrt_mono_rel[rotated])
    show "sorted_wrt (\<lambda>a b. idx b < idx a) (srcs s)" by (rule orderD(1)[OF O])
    fix x y assume "x \<in> set (srcs s)" "y \<in> set (srcs s)" "idx y < idx x"
    then show "?i y < ?i x" using F(1)[OF F(4)] by metis
  qed
  have b: "sorted_wrt (\<lambda>a b. \<forall>x\<in>set (v # srcs s). ?i x < ?i b \<longrightarrow> ?i x < ?i a) (sf_vb s)"
  proof (rule sorted_wrt_mono_rel[rotated])
    show "sorted_wrt (\<lambda>a b. \<forall>v\<in>set (srcs s). idx v < idx b \<longrightarrow> idx v < idx a) (sf_vb s)" by (rule orderD(2)[OF O])
    fix x y assume "x \<in> set (sf_vb s)" "y \<in> set (sf_vb s)" "\<forall>v\<in>set (srcs s). idx v < idx y \<longrightarrow> idx v < idx x"
    moreover from this have "?i x = idx x" "?i y = idx y" "idx y < ?i v" using F(1)[OF F(5)] F(3)[OF F(5)] by auto
    moreover have "\<And>z. z \<in> set (srcs s) \<Longrightarrow> ?i z = idx z" using F(1)[OF F(4)] .
    ultimately show "\<forall>z\<in>set (v # srcs s). ?i z < ?i y \<longrightarrow> ?i z < ?i x" by (metis not_less_iff_gr_or_eq set_ConsD)
  qed
  have c: "\<exists>x\<in>set (v # srcs s). ?i x < ?i w" if w: "w \<in> set (sf_vb s)" for w
  proof -
    obtain x where x: "x \<in> set (srcs s)" "idx x < idx w" using orderD(3)[OF O w] by blast
    then have "?i x < ?i w" using F(1)[OF F(4)[OF x(1)]] F(1)[OF F(5)[OF w]] by simp
    then show ?thesis using x(1) by (metis list.set_intros(2))
  qed
  have "?i x < ?i v" if "x \<in> set (srcs s)" for x using F(1)[OF F(4)[OF that]] F(3)[OF F(4)[OF that]] by simp
  then have "sorted_wrt (\<lambda>a b. ?i b < ?i a) (v # srcs s)" using a by (simp only: sorted_wrt.simps) blast
  then show ?thesis unfolding order_def V(7,8) using b c by blast
qed

lemma visit_paths:
  assumes S: "stacks idx s" and v: "v < n" "R s v = 0" and P: "paths idx s"
    and top: "sf_vf s \<noteq> [] \<longrightarrow> (\<exists>xs. rem (hd (sf_vf s)) = v # xs)" and E: "edges idx s" and O: "order idx s"
  shows "paths (idx(v := sf_index s)) (visited s v)"
  unfolding paths_def
proof (intro conjI ballI impI)
  note V = visit_sets[OF S v] and F = visit_frame[OF S v]
  let ?i = "idx(v := sf_index s)"
  fix x w assume x: "x \<in> set (srcs (visited s v))" "w \<in> act (visited s v)" "?i x \<le> ?i w"
  consider "w = v" "x = v" | "w = v" "x \<in> set (srcs s)" | "w \<in> act s" "x \<in> set (srcs s)" | "w \<in> act s" "x = v"
    using x unfolding V(2,7) by auto
  then show "reaches x w"
  proof cases
    case 2
    then obtain it its where vf: "sf_vf s = it # its" by (cases "sf_vf s") auto
    then obtain xs where r: "rem it = v # xs" using top by auto
    have itn: "src it \<in> act s" using stacksD(4)[OF S] vf by auto
    obtain pre where "adj (src it) = pre @ rem it" using E vf unfolding edges_def by auto
    then have "edge (src it) v" using r itn by (auto simp: edge_def act_def)
    moreover have "idx x \<le> idx (src it)" using orderD(1)[OF O] 2(2) vf by auto
    then have "reaches x (src it)" using P 2(2) itn unfolding paths_def by blast
    ultimately show ?thesis using 2 by simp
  next
    case 3
    then have "idx x \<le> idx w" using x(3) F(1)[OF F(4)] F(1)[OF F(6)] by simp
    then show ?thesis using P 3 unfolding paths_def by blast
  next
    case 4
    then show ?thesis using x(3) F(1)[OF F(6)] F(3)[OF F(6)] V(6) by fastforce
  qed simp
next
  note V = visit_sets[OF S v] and F = visit_frame[OF S v]
  let ?i = "idx(v := sf_index s)"
  fix w assume w: "w \<in> act (visited s v)"
  show "R (visited s v) w = ?i w \<or> odd (R (visited s v) w) \<and>
    (\<exists>u\<in>act (visited s v). ?i u + 1 = R (visited s v) w \<and> ?i u < ?i w \<and> reaches w u)"
  proof (cases "w = v")
    case True
    then show ?thesis using V(1) by simp
  next
    case False
    then have w: "w \<in> act s" using w unfolding V(2) by simp
    have "R s w = idx w \<or> odd (R s w) \<and> (\<exists>u\<in>act s. idx u + 1 = R s w \<and> idx u < idx w \<and> reaches w u)"
      using P w unfolding paths_def by blast
    then show ?thesis unfolding V(2) F(1)[OF F(6)[OF w]] F(2)[OF F(6)[OF w]] using F(1)[OF F(6)] by auto
  qed
next
  note V = visit_sets[OF S v] and F = visit_frame[OF S v]
  fix w assume "w \<in> set (sf_vb (visited s v))"
  then show "odd (R (visited s v) w)" using P F(2)[OF F(5)] unfolding V(8) paths_def by simp
qed

lemma visit_edges:
  assumes S: "stacks idx s" and v: "v < n" "R s v = 0" and E: "edges idx s"
  shows "edges (idx(v := sf_index s)) (visited s v)"
proof -
  note V = visit_sets[OF S v] and F = visit_frame[OF S v]
  let ?i = "idx(v := sf_index s)"
  have L: "looked ?i (visited s v) w x" if "looked idx s w x" "w \<in> seen s" for w x
    using that F(1,2) V(6) unfolding looked_def V(2,4) by auto
  have vb: "\<forall>w\<in>set (sf_vb (visited s v)). \<forall>x\<in>set (adj w). looked ?i (visited s v) w x"
    unfolding V(8) using E L F(5) unfolding edges_def by blast
  have "\<exists>pre. adj (src it) = pre @ rem it \<and> (\<forall>x\<in>set pre. looked ?i (visited s v) (src it) x)" if "it \<in> set (sf_vf s)" for it
  proof -
    obtain pre where "adj (src it) = pre @ rem it" "\<forall>x\<in>set pre. looked idx s (src it) x" using E \<open>it \<in> set (sf_vf s)\<close> unfolding edges_def by blast
    moreover have "src it \<in> seen s" using F(4) that by simp
    ultimately show ?thesis using L by blast
  qed
  moreover have "sf_vf (visited s v) = eo_Construct ops v # sf_vf s" by (simp add: visited_def)
  ultimately show ?thesis unfolding edges_def using vb construct[OF v(1)] by auto
qed

lemma visit_bounds:
  assumes S: "stacks idx s" and v: "v < n" "R s v = 0" and B: "bounds None idx s"
  shows "bounds None (idx(v := sf_index s)) (visited s v)"
  unfolding bounds_def
proof (intro allI impI disjI1)
  note V = visit_sets[OF S v] and F = visit_frame[OF S v]
  let ?i = "idx(v := sf_index s)"
  fix x w assume o: "owns ?i (visited s v) x w"
  then have w: "w \<in> set (sf_vb s)" "?i x < ?i w" "x = v \<or> x \<in> set (srcs s)" unfolding owns_def V(7,8) by auto
  have "x \<noteq> v" using w(2) F(1)[OF F(5)[OF w(1)]] F(3)[OF F(5)[OF w(1)]] by auto
  then have x: "x \<in> set (srcs s)" using w(3) by simp
  have "idx v' \<le> idx x" if "v' \<in> set (srcs s)" "idx v' < idx w" for v'
  proof -
    have "\<forall>v'\<in>set (v # srcs s). ?i v' < ?i w \<longrightarrow> ?i v' \<le> ?i x" using o unfolding owns_def V(7,8) by blast
    then show ?thesis using that F(1)[OF F(4)[OF that(1)]] F(1)[OF F(4)[OF x]] F(1)[OF F(5)[OF w(1)]] by (metis list.set_intros(2))
  qed
  then have "owns idx s x w" using w x F(1)[OF F(4)[OF x]] F(1)[OF F(5)[OF w(1)]] unfolding owns_def by simp
  then have "R s x \<le> R s w" using B unfolding bounds_def by auto
  then show "R (visited s v) x \<le> R (visited s v) w" using F(2)[OF F(4)[OF x]] F(2)[OF F(5)[OF w(1)]] by simp
qed

lemma visit_comps:
  assumes S: "stacks idx s" and v: "v < n" "R s v = 0" and C: "comps s"
  shows "comps (visited s v)"
proof -
  note V = visit_sets[OF S v]
  have f: "R (visited s v) x = R s x" if "x \<in> fin s" for x using that v by (auto simp: V(1) fin_def)
  then have "R (visited s v) ` fin s = R s ` fin s" by (rule image_cong[OF refl])
  moreover have "sf_componentIndex (visited s v) = sf_componentIndex s" by (simp add: visited_def)
  moreover have "\<forall>u\<in>fin s. \<forall>x\<in>set (adj u). x \<in> fin s \<and> R (visited s v) u \<le> R (visited s v) x"
    using C f unfolding comps_def by metis
  moreover have "\<forall>u\<in>fin s. \<forall>x\<in>fin s. R (visited s v) u = R (visited s v) x \<longleftrightarrow> reaches u x \<and> reaches x u"
    using C f unfolding comps_def by metis
  ultimately show ?thesis using C unfolding comps_def V(3) by (simp only:)
qed

lemma visit_inv:
  assumes "at_label (visit_new_node v) idx s"
  shows "inv None (idx(v := sf_index s)) (visited s v)" "stacks idx s" "v < n" "R s v = 0"
proof -
  have I: "inv None idx s" and v: "v < n" "R s v = 0" and top: "sf_vf s \<noteq> [] \<longrightarrow> (\<exists>xs. rem (hd (sf_vf s)) = v # xs)"
    using assms by (auto simp: at_label_def)
  then show "stacks idx s" "v < n" "R s v = 0" by (auto simp: inv_def)
  from I show "inv None (idx(v := sf_index s)) (visited s v)" unfolding inv_def
    using visit_stacks[OF _ v top] visit_order[OF _ v] visit_paths[OF _ v _ top] visit_edges[OF _ v] visit_bounds[OF _ v] visit_comps[OF _ v]
    by blast
qed

end

context edge_iterator
begin

subsection \<open>Looking at an edge\<close>

lemma or_one: "(m::nat) OR Suc 0 = (if even m then m + 1 else m)"
  by (simp add: or_Suc_0_eq)

definition lowered :: "'it scc_finder \<Rightarrow> nat \<Rightarrow> nat \<Rightarrow> nat" where
  "lowered s v w = (if R s w OR 1 < R s v then R s w OR 1 else R s v)"

definition scanned :: "'it scc_finder \<Rightarrow> nat \<Rightarrow> nat \<Rightarrow> 'it scc_finder" where
  "scanned s v w = s\<lparr>sf_rindexComposite := (sf_rindexComposite s)[v := lowered s v w], sf_vf := fst (eo_Advance ops (hd (sf_vf s))) # tl (sf_vf s)\<rparr>"

lemma R_le_idx: "paths idx s \<Longrightarrow> w \<in> act s \<Longrightarrow> R s w \<le> idx w"
  using pathsD(2)[of idx s w] by auto

lemma lowered_le: "lowered s v w \<le> R s v" "lowered s v w \<le> R s w OR 1" "0 < R s v \<Longrightarrow> 0 < lowered s v w"
  by (auto simp: lowered_def or_one odd_pos)

lemma scan_sets:
  assumes S: "stacks idx s" and vf: "sf_vf s = it # its" "src it = v" "rem it = w # xs" and E: "edges idx s"
  shows "R (scanned s v w) x = (if x = v then lowered s v w else R s x)" "act (scanned s v w) = act s" "fin (scanned s v w) = fin s"
    "seen (scanned s v w) = seen s" "srcs (scanned s v w) = srcs s" "sf_vb (scanned s v w) = sf_vb s" "v \<in> act s" "v \<notin> fin s"
    "ok (fst (eo_Advance ops it))" "rem (fst (eo_Advance ops it)) = xs" "src (fst (eo_Advance ops it)) = v" "snd (eo_Advance ops it) = (xs \<noteq> [])"
    "sf_vf (scanned s v w) = fst (eo_Advance ops it) # its" "w < n" "edge v w"
proof -
  show va: "v \<in> act s" using stacksD(4)[OF S] vf by auto
  then have v: "v < n" "0 < R s v" "R s v \<le> 2 * n" by (simp_all add: act_def)
  show Rv: "R (scanned s v w) x = (if x = v then lowered s v w else R s x)" for x using v(1) stacksD(1)[OF S] by (simp add: scanned_def)
  note L = lowered_le(1)[of s v w] lowered_le(3)[OF v(2), of w]
  show "act (scanned s v w) = act s" "fin (scanned s v w) = fin s" "seen (scanned s v w) = seen s"
    using L v by (auto simp: act_def fin_def seen_def Rv)
  show "v \<notin> fin s" using v by (simp add: fin_def)
  have "ok it" using stacksD(5)[OF S] vf(1) by simp
  note A = advance[OF this vf(3)]
  show "ok (fst (eo_Advance ops it))" "rem (fst (eo_Advance ops it)) = xs" "src (fst (eo_Advance ops it)) = v" "snd (eo_Advance ops it) = (xs \<noteq> [])"
    using A vf(2) by auto
  show "srcs (scanned s v w) = srcs s" "sf_vb (scanned s v w) = sf_vb s" "sf_vf (scanned s v w) = fst (eo_Advance ops it) # its"
    using A vf by (simp_all add: scanned_def)
  obtain pre where "adj v = pre @ rem it" using edgesD(2)[OF E, of it] vf by auto
  then have "w \<in> set (adj v)" using vf(3) by simp
  then show "w < n" "edge v w" using v(1) adj_range by (auto simp: edge_def)
qed

lemma scan_paths:
  assumes S: "stacks idx s" and P: "paths idx s" and E: "edges idx s" and vf: "sf_vf s = it # its" "src it = v" "rem it = w # xs" and w: "w \<in> seen s"
  shows "paths idx (scanned s v w)"
  unfolding paths_def
proof (intro conjI ballI impI)
  note V = scan_sets[OF S vf E]
  show "reaches a b" if "a \<in> set (srcs (scanned s v w))" "b \<in> act (scanned s v w)" "idx a \<le> idx b" for a b
    using pathsD(1)[OF P] that unfolding V(2,5) by blast
  have vn: "v \<notin> set (sf_vb s)" using stacksD(3)[OF S] vf by auto
  show "odd (R (scanned s v w) a)" if "a \<in> set (sf_vb (scanned s v w))" for a
    using that pathsD(3)[OF P, of a] vn unfolding V(1,6) by auto
  fix a assume "a \<in> act (scanned s v w)"
  then have a: "a \<in> act s" unfolding V(2) .
  show "R (scanned s v w) a = idx a \<or> odd (R (scanned s v w) a) \<and>
    (\<exists>u\<in>act (scanned s v w). idx u + 1 = R (scanned s v w) a \<and> idx u < idx a \<and> reaches a u)"
  proof (cases "a = v \<and> R s w OR 1 < R s v")
    case False
    then have "R (scanned s v w) a = R s a" by (auto simp: V(1) lowered_def)
    then show ?thesis using pathsD(2)[OF P a] unfolding V(2) by simp
  next
    case True
    then have r: "a = v" "R (scanned s v w) v = R s w OR 1" by (auto simp: V(1) lowered_def)
    have wa: "w \<in> act s" using True w V(7) by (auto simp: act_def seen_def or_one split: if_splits)
    have lt: "R s w OR 1 < idx v" using True R_le_idx[OF P V(7)] by simp
    have "odd (R s w OR 1)" by (simp add: or_one)
    moreover have "\<exists>u\<in>act s. idx u + 1 = R s w OR 1 \<and> idx u < idx v \<and> reaches v u"
    proof (cases "R s w = idx w")
      case True
      then have "R s w OR 1 = idx w + 1" using stacksD(7)[OF S w] by (simp add: or_one)
      then show ?thesis using wa lt V(15) by (intro bexI[of _ w]) auto
    next
      case False
      then obtain u where u: "odd (R s w)" "u \<in> act s" "idx u + 1 = R s w" "reaches w u" using pathsD(2)[OF P wa] by blast
      then have "R s w OR 1 = idx u + 1" by (simp add: or_one)
      then show ?thesis using u lt converse_rtranclp_into_rtranclp[of edge, OF V(15) u(4)] by (intro bexI[of _ u]) auto
    qed
    ultimately show ?thesis unfolding r V(2) by blast
  qed
qed

lemma scan_edges:
  assumes S: "stacks idx s" and P: "paths idx s" and E: "edges idx s" and vf: "sf_vf s = it # its" "src it = v" "rem it = w # xs" and w: "w \<in> seen s"
  shows "edges idx (scanned s v w)"
proof -
  note V = scan_sets[OF S vf E]
  have L: "looked idx (scanned s v w) a x" if "looked idx s a x" for a x
    using that lowered_le(1)[of s v w] unfolding looked_def V(1,2,4) by auto
  have "looked idx (scanned s v w) v w"
  proof -
    have "lowered s v w \<le> idx w + 1" if "w \<in> act s"
      using lowered_le(2)[of s v w] R_le_idx[OF P that] stacksD(7)[OF S w] by (auto simp: or_one split: if_splits)
    then show ?thesis using w unfolding looked_def V(1,2,4) by simp
  qed
  moreover obtain pre where pre: "adj v = pre @ w # xs" "\<forall>x\<in>set pre. looked idx s v x" using edgesD(2)[OF E, of it] vf by auto
  ultimately have "adj v = (pre @ [w]) @ xs \<and> (\<forall>x\<in>set (pre @ [w]). looked idx (scanned s v w) v x)" using L by auto
  then have top: "\<exists>pre. adj v = pre @ xs \<and> (\<forall>x\<in>set pre. looked idx (scanned s v w) v x)" by blast
  have "\<exists>pre. adj (src i) = pre @ rem i \<and> (\<forall>x\<in>set pre. looked idx (scanned s v w) (src i) x)" if "i \<in> set its" for i
    using edgesD(2)[OF E, of i] that vf(1) L by force
  then show ?thesis unfolding edges_def V(6,13) using top V(10,11) edgesD(1)[OF E] L by auto
qed

lemma scan_bounds:
  assumes S: "stacks idx s" and P: "paths idx s" and E: "edges idx s" and vf: "sf_vf s = it # its" "src it = v" "rem it = w # xs"
    and B: "bounds (Some w) idx s"
  shows "bounds None idx (scanned s v w)"
  unfolding bounds_def
proof (intro allI impI disjI1)
  note V = scan_sets[OF S vf E]
  fix a b assume "owns idx (scanned s v w) a b"
  then have o: "owns idx s a b" unfolding owns_def V(5,6) .
  then have b: "b \<in> set (sf_vb s)" by (simp add: owns_def)
  have bv: "b \<noteq> v" using b stacksD(3)[OF S] vf by auto
  have "R s a \<le> R s b \<or> a = v \<and> R s w \<le> R s b" using B o vf unfolding bounds_def by fastforce
  moreover have "R s w OR 1 \<le> R s b" if "R s w \<le> R s b" using that pathsD(3)[OF P b] by (auto simp: or_one le_eq_less_or_eq)
  ultimately show "R (scanned s v w) a \<le> R (scanned s v w) b"
    using lowered_le(1,2)[of s v w] bv unfolding V(1) by (auto intro: order_trans)
qed

lemma scan_comps:
  assumes S: "stacks idx s" and C: "comps s" and vf: "sf_vf s = it # its" "src it = v" "rem it = w # xs" and E: "edges idx s"
  shows "comps (scanned s v w)"
proof -
  note V = scan_sets[OF S vf E]
  have f: "R (scanned s v w) x = R s x" if "x \<in> fin s" for x using that V(8) by (auto simp: V(1))
  then have "R (scanned s v w) ` fin s = R s ` fin s" by (rule image_cong[OF refl])
  moreover have "sf_componentIndex (scanned s v w) = sf_componentIndex s" by (simp add: scanned_def)
  moreover have "\<forall>u\<in>fin s. \<forall>x\<in>set (adj u). x \<in> fin s \<and> R (scanned s v w) u \<le> R (scanned s v w) x"
    using C f unfolding comps_def by metis
  moreover have "\<forall>u\<in>fin s. \<forall>x\<in>fin s. R (scanned s v w) u = R (scanned s v w) x \<longleftrightarrow> reaches u x \<and> reaches x u"
    using C f unfolding comps_def by metis
  ultimately show ?thesis using C unfolding comps_def V(3) by (simp only:)
qed

lemma scan_inv:
  assumes "at_label (continue_iterate_edges v w) idx s"
  shows "inv None idx (scanned s v w)"
proof -
  from assms obtain it its xs where I: "inv (Some w) idx s" and w: "w \<in> seen s" and vf: "sf_vf s = it # its" "src it = v" "rem it = w # xs"
    by (auto simp: at_label_def)
  then have S: "stacks idx s" and P: "paths idx s" and E: "edges idx s" and O: "order idx s" and B: "bounds (Some w) idx s" and C: "comps s"
    unfolding inv_def by blast+
  note V = scan_sets[OF S vf E] and D = stacksD[OF S]
  have "chain (sf_vf (scanned s v w))" using D(6) vf V(11) unfolding V(13) by (cases its) auto
  moreover have "\<forall>i\<in>set (sf_vf (scanned s v w)). ok i" using D(5) vf(1) V(9) unfolding V(13) by auto
  moreover have "length (sf_rindexComposite (scanned s v w)) = n" "sf_numNodes (scanned s v w) = n" "sf_index (scanned s v w) = sf_index s"
    using D(1,2) by (simp_all add: scanned_def)
  ultimately have "stacks idx (scanned s v w)" using D unfolding stacks_def V(2,4,5,6) by (intro conjI) (assumption | simp)+
  moreover have "order idx (scanned s v w)" using O unfolding order_def V(5,6) .
  ultimately show ?thesis unfolding inv_def
    using scan_paths[OF S P E vf w] scan_edges[OF S P E vf w] scan_bounds[OF S P E vf B] scan_comps[OF S C vf E] by blast
qed

end

context edge_iterator
begin

subsection \<open>Leaving a node that is not a root\<close>

lemma invD:
  assumes "inv pend idx s"
  shows "stacks idx s" "order idx s" "paths idx s" "edges idx s" "bounds pend idx s" "comps s"
  using assms unfolding inv_def by blast+

lemma boundsD: "bounds pend idx s \<Longrightarrow> owns idx s v w \<Longrightarrow> R s v \<le> R s w \<or> (\<exists>x. pend = Some x \<and> v = hd (srcs s) \<and> R s x \<le> R s w)"
  unfolding bounds_def by blast

lemma top_max:
  assumes "order idx s" "sf_vf s = it # its" "x \<in> set (map src its)"
  shows "idx x < idx (src it)"
  using orderD(1)[OF assms(1)] assms(2,3) by auto

definition backlogged :: "'it scc_finder \<Rightarrow> nat \<Rightarrow> 'it scc_finder" where
  "backlogged s v = s\<lparr>sf_vf := tl (sf_vf s), sf_vb := v # sf_vb s\<rparr>"

lemma backlog_below:
  assumes I: "inv None idx s" and vf: "sf_vf s = it # its" "src it = v" and odd: "odd (R s v)"
  shows "\<exists>x\<in>set (map src its). idx x < idx v"
proof -
  note S = invD(1)[OF I] and O = invD(2)[OF I] and P = invD(3)[OF I]
  have va: "v \<in> act s" using stacksD(4)[OF S] vf by auto
  then have "even (idx v)" using stacksD(7)[OF S] seen_sub(3) by blast
  then obtain u where u: "u \<in> act s" "idx u < idx v" using pathsD(2)[OF P va] odd by auto
  consider "u \<in> set (srcs s)" | "u \<in> set (sf_vb s)" using u(1) stacksD(4)[OF S] by blast
  then show ?thesis
  proof cases
    case 1
    then have "u \<in> set (map src its)" using u(2) vf by auto
    then show ?thesis using u(2) by blast
  next
    case 2
    then obtain x where x: "x \<in> set (srcs s)" "idx x < idx u" using orderD(3)[OF O 2] by blast
    then have "x \<in> set (map src its)" "idx x < idx v" using u(2) vf by auto
    then show ?thesis by blast
  qed
qed

lemma backlog_inv:
  assumes I: "inv None idx s" and vf: "sf_vf s = it # its" "src it = v" "rem it = []" and odd: "odd (R s v)"
  shows "inv (Some v) idx (backlogged s v)"
proof -
  let ?s = "backlogged s v"
  note S = invD(1)[OF I] and O = invD(2)[OF I] and P = invD(3)[OF I] and E = invD(4)[OF I] and B = invD(5)[OF I] and C = invD(6)[OF I]
  note D = stacksD[OF S]
  have f: "sf_vf ?s = its" "sf_vb ?s = v # sf_vb s" "sf_rindexComposite ?s = sf_rindexComposite s" "sf_index ?s = sf_index s"
    "sf_numNodes ?s = sf_numNodes s" "sf_componentIndex ?s = sf_componentIndex s" using vf(1) by (simp_all add: backlogged_def)
  have ss: "srcs s = v # map src its" using vf by simp
  have sets: "act ?s = act s" "fin ?s = fin s" "seen ?s = seen s" by (simp_all add: act_def fin_def seen_def f)
  have lt: "idx x < idx v" if "x \<in> set (map src its)" for x using top_max[OF O vf(1) that] vf(2) by simp
  have "stacks idx ?s"
    unfolding stacks_def sets f
  proof (intro conjI)
    show "distinct (map src its @ v # sf_vb s)" using D(3) unfolding ss by auto
    show "set (map src its) \<union> set (v # sf_vb s) = act s" using D(4) unfolding ss by auto
    show "\<forall>it\<in>set its. ok it" using D(5) vf(1) by simp
    show "chain its" using D(6) vf(1) by (cases its) auto
  qed (use D in auto)
  moreover have "order idx ?s"
    unfolding order_def f
  proof (intro conjI ballI)
    show "sorted_wrt (\<lambda>a b. idx b < idx a) (map src its)" using orderD(1)[OF O] unfolding ss by simp
    have "sorted_wrt (\<lambda>a b. \<forall>x\<in>set (map src its). idx x < idx b \<longrightarrow> idx x < idx a) (sf_vb s)"
      by (rule sorted_wrt_mono_rel[OF _ orderD(2)[OF O]]) (simp add: ss)
    then show "sorted_wrt (\<lambda>a b. \<forall>x\<in>set (map src its). idx x < idx b \<longrightarrow> idx x < idx a) (v # sf_vb s)" using lt by simp
    obtain y where y: "y \<in> set (map src its)" "idx y < idx v" using backlog_below[OF I vf(1,2) odd] by blast
    fix w assume "w \<in> set (v # sf_vb s)"
    then consider "w = v" | "w \<in> set (sf_vb s)" by auto
    then show "\<exists>x\<in>set (map src its). idx x < idx w"
    proof cases
      case 1
      then show ?thesis using y by blast
    next
      case 2
      then obtain x where x: "x \<in> set (srcs s)" "idx x < idx w" using orderD(3)[OF O 2] by blast
      show ?thesis
      proof (cases "x = v")
        case True
        then have "idx y < idx w" using y(2) x(2) by simp
        then show ?thesis using y(1) by blast
      next
        case False
        then have "x \<in> set (map src its)" using x(1) ss by simp
        then show ?thesis using x(2) by blast
      qed
    qed
  qed
  moreover have "paths idx ?s"
    unfolding paths_def sets f
    using pathsD(1)[OF P] pathsD(2)[OF P] pathsD(3)[OF P] odd ss by auto
  moreover have "edges idx ?s"
  proof -
    have l: "looked idx ?s a x = looked idx s a x" for a x by (simp add: looked_def sets f)
    have "looked idx s v x" if "x \<in> set (adj v)" for x using edgesD(2)[OF E, of it] vf that by auto
    then show ?thesis unfolding edges_def f l using edgesD(1)[OF E] edgesD(2)[OF E] vf(1) by auto
  qed
  moreover have "bounds (Some v) idx ?s"
    unfolding bounds_def f
  proof (intro allI impI)
    fix a b assume "owns idx ?s a b"
    then have o: "a \<in> set (map src its)" "b = v \<or> b \<in> set (sf_vb s)" "idx a < idx b" "\<And>x. x \<in> set (map src its) \<Longrightarrow> idx x < idx b \<Longrightarrow> idx x \<le> idx a"
      unfolding owns_def f by auto
    have top: "a = hd (map src its)" if "idx v \<le> idx b"
    proof -
      obtain h r where h: "map src its = h # r" using o(1) by (cases "map src its") auto
      have "idx h < idx b" using lt[of h] h that by simp
      then have "idx h \<le> idx a" using o(4)[of h] h by simp
      moreover have "sorted_wrt (\<lambda>a b. idx b < idx a) (h # r)" using orderD(1)[OF O] unfolding ss h by simp
      ultimately show ?thesis using o(1) h by auto
    qed
    show "R s a \<le> R s b \<or> (\<exists>x. Some v = Some x \<and> a = hd (map src its) \<and> R s x \<le> R s b)"
    proof (cases "b = v")
      case True
      then show ?thesis using top by simp
    next
      case False
      then have b: "b \<in> set (sf_vb s)" using o(2) by simp
      then have "b \<noteq> v" "b \<in> seen s" "v \<in> seen s" using False D(4) seen_sub(3)[of s] ss by auto
      then have ne: "idx b \<noteq> idx v" using D(10) by (auto simp: inj_on_def)
      show ?thesis
      proof (cases "idx v < idx b")
        case True
        then have "owns idx s v b" using b lt unfolding owns_def ss by fastforce
        then have "R s v \<le> R s b" using boundsD[OF B] by blast
        then show ?thesis using top True by simp
      next
        case False
        then have "idx b < idx v" using ne by simp
        then have "owns idx s a b" using b o unfolding owns_def ss by auto
        then show ?thesis using boundsD[OF B] by blast
      qed
    qed
  qed
  moreover have "comps ?s" using C unfolding comps_def sets f .
  ultimately show ?thesis unfolding inv_def by blast
qed

subsection \<open>Leaving a root\<close>

lemma pop_component_eq:
  assumes "distinct ys" "\<And>y. y \<in> set ys \<Longrightarrow> r0 < r ! y" "v \<notin> set ys" "set zs \<inter> set ys = {}" "r ! v \<le> r0" "zs \<noteq> [] \<Longrightarrow> r ! hd zs \<le> r0"
  shows "pop_component v r0 c (ys @ zs) r = Some (zs, fold (\<lambda>w r. r[w := c]) ys r)"
  using assms
proof (induction ys arbitrary: r)
  case Nil
  then show ?case by (cases zs) auto
next
  case (Cons y ys)
  have "r0 < r[y := c] ! x" if "x \<in> set ys" for x
  proof -
    have "x \<noteq> y" "r0 < r ! x" using Cons(2) Cons(3)[of x] that by auto
    then show ?thesis by simp
  qed
  moreover have "r[y := c] ! v \<le> r0" "zs \<noteq> [] \<Longrightarrow> r[y := c] ! hd zs \<le> r0" using Cons(4-7) by (cases zs; auto)+
  ultimately have "pop_component v r0 c (ys @ zs) (r[y := c]) = Some (zs, fold (\<lambda>w r. r[w := c]) ys (r[y := c]))"
    using Cons(1)[of "r[y := c]"] Cons(2,4,5) by simp
  moreover have "\<not> r ! y \<le> r0" using Cons(3)[of y] by simp
  ultimately show ?case by simp
qed

lemma fold_assign:
  "length (fold (\<lambda>w r. r[w := c]) ys r) = length r"
  "\<forall>y\<in>set ys. y < length r \<Longrightarrow> fold (\<lambda>w r. r[w := c]) ys r ! x = (if x \<in> set ys then c else r ! x)"
  by (induction ys arbitrary: r) auto

definition popped :: "'it scc_finder \<Rightarrow> nat \<Rightarrow> nat list \<Rightarrow> nat list \<Rightarrow> 'it scc_finder" where
  "popped s v ys zs = s\<lparr>sf_vf := tl (sf_vf s), sf_vb := zs,
     sf_rindexComposite := (fold (\<lambda>w r. r[w := sf_componentIndex s]) ys (sf_rindexComposite s))[v := sf_componentIndex s],
     sf_componentIndex := sf_componentIndex s - 2\<rparr>"

lemma compsD:
  assumes "comps s"
  shows "u \<in> fin s \<Longrightarrow> x \<in> set (adj u) \<Longrightarrow> x \<in> fin s \<and> R s u \<le> R s x"
    "u \<in> fin s \<Longrightarrow> v \<in> fin s \<Longrightarrow> R s u = R s v \<longleftrightarrow> reaches u v \<and> reaches v u"
    "\<exists>k. sf_componentIndex s + 2 * k + 1 = 4 * n \<and> R s ` fin s = (\<lambda>j. 4 * n - 1 - 2 * j) ` {..<k} \<and> k \<le> card (fin s)"
proof -
  note A = assms[unfolded comps_def]
  show "x \<in> fin s \<and> R s u \<le> R s x" if "u \<in> fin s" "x \<in> set (adj u)" using conjunct1[OF A] that by blast
  show "R s u = R s v \<longleftrightarrow> reaches u v \<and> reaches v u" if "u \<in> fin s" "v \<in> fin s" using conjunct1[OF conjunct2[OF A]] that by blast
  show "\<exists>k. sf_componentIndex s + 2 * k + 1 = 4 * n \<and> R s ` fin s = (\<lambda>j. 4 * n - 1 - 2 * j) ` {..<k} \<and> k \<le> card (fin s)"
    by (rule conjunct2[OF conjunct2[OF A]])
qed

lemma fin_closed:
  assumes "comps s" "reaches u x" "u \<in> fin s"
  shows "x \<in> fin s"
  using assms(2,3)
proof (induction rule: rtranclp_induct)
  case (step y z)
  then show ?case using compsD(1)[OF assms(1)] unfolding edge_def by blast
qed

lemma component_bound:
  assumes "comps s" "v \<in> act s"
  shows "2 * n < sf_componentIndex s" "\<And>x. x \<in> fin s \<Longrightarrow> sf_componentIndex s < R s x"
proof -
  obtain k where k: "sf_componentIndex s + 2 * k + 1 = 4 * n" "R s ` fin s = (\<lambda>j. 4 * n - 1 - 2 * j) ` {..<k}" "k \<le> card (fin s)"
    using compsD(3)[OF assms(1)] by (elim exE conjE) (rule that)
  have "fin s \<subseteq> {..<n}" "v \<notin> fin s" "v < n" using assms(2) by (auto simp: fin_def act_def)
  then have "fin s \<subset> {..<n}" by blast
  then have "card (fin s) < n" using psubset_card_mono[of "{..<n}" "fin s"] by simp
  then show "2 * n < sf_componentIndex s" using k by linarith
  show "sf_componentIndex s < R s x" if "x \<in> fin s" for x
  proof -
    have "R s x \<in> (\<lambda>j. 4 * n - 1 - 2 * j) ` {..<k}" unfolding k(2)[symmetric] using that by (rule imageI)
    then obtain j where "j < k" "R s x = 4 * n - 1 - 2 * j" by blast
    then show ?thesis using k(1) by linarith
  qed
qed

text \<open>At a root: the backlog splits into the component and the rest, and the component is one.\<close>

lemma root_split:
  assumes I: "inv None idx s" and vf: "sf_vf s = it # its" "src it = v" "rem it = []" and even: "even (R s v)"
  obtains ys zs where "sf_vb s = ys @ zs" "\<And>y. y \<in> set ys \<Longrightarrow> idx v < idx y" "\<And>z. z \<in> set zs \<Longrightarrow> idx z < idx v"
    "R s v = idx v" "\<And>y. y \<in> set ys \<Longrightarrow> idx v < R s y" "\<And>z. z \<in> set zs \<Longrightarrow> R s z < idx v" "insert v (set ys) = {w \<in> act s. idx v \<le> idx w}"
proof -
  note S = invD(1)[OF I] and O = invD(2)[OF I] and P = invD(3)[OF I] and B = invD(5)[OF I]
  note D = stacksD[OF S]
  have va: "v \<in> act s" using D(4) vf by auto
  have Rv: "R s v = idx v" using pathsD(2)[OF P va] even by blast
  have ss: "srcs s = v # map src its" using vf by simp
  define Q where "Q = (\<lambda>w. idx v < idx w)"
  define ys where "ys = takeWhile Q (sf_vb s)"
  define zs where "zs = dropWhile Q (sf_vb s)"
  have vb: "sf_vb s = ys @ zs" by (simp add: ys_def zs_def)
  have y: "idx v < idx y" if "y \<in> set ys" for y using set_takeWhileD[of y Q] that by (auto simp: ys_def Q_def)
  have ne: "idx w \<noteq> idx v" if "w \<in> set (sf_vb s)" for w
  proof -
    have "w \<noteq> v" using that D(3) unfolding ss by auto
    moreover have "w \<in> seen s" "v \<in> seen s" using that va D(4) seen_sub(3)[of s] by auto
    ultimately show ?thesis using D(10) by (auto simp: inj_on_def)
  qed
  have z: "idx z < idx v" if "z \<in> set zs" for z
  proof -
    obtain h r where h: "zs = h # r" using \<open>z \<in> set zs\<close> by (cases zs) auto
    have "\<not> Q h" using h hd_dropWhile[of Q "sf_vb s"] unfolding zs_def by force
    then have hv: "idx h < idx v" using ne[of h] vb h by (auto simp: Q_def)
    have "sorted_wrt (\<lambda>a b. \<forall>v\<in>set (srcs s). idx v < idx b \<longrightarrow> idx v < idx a) (h # r)"
      using orderD(2)[OF O] unfolding vb h sorted_wrt_append by blast
    then have "z = h \<or> (idx v < idx z \<longrightarrow> idx v < idx h)" using that h ss by auto
    then show ?thesis using hv ne[of z] that vb by fastforce
  qed
  have ry: "idx v < R s y" if "y \<in> set ys" for y
  proof -
    have yb: "y \<in> set (sf_vb s)" using that vb by simp
    have "owns idx s v y" using yb y[OF that] top_max[OF O vf(1)] vf(2) unfolding owns_def ss by fastforce
    then have "R s v \<le> R s y" using boundsD[OF B] by blast
    moreover have "R s v \<noteq> R s y" using even pathsD(3)[OF P yb] by metis
    ultimately show ?thesis using Rv by simp
  qed
  have rz: "R s z < idx v" if "z \<in> set zs" for z
    using R_le_idx[OF P, of z] z[OF that] that vb D(4) by fastforce
  have "insert v (set ys) = {w \<in> act s. idx v \<le> idx w}"
  proof (intro set_eqI iffI)
    fix w assume "w \<in> insert v (set ys)"
    then show "w \<in> {w \<in> act s. idx v \<le> idx w}" using va y[of w] D(4) vb by auto
  next
    fix w assume w: "w \<in> {w \<in> act s. idx v \<le> idx w}"
    then consider "w = v" | "w \<in> set (map src its)" | "w \<in> set ys" | "w \<in> set zs" using D(4) unfolding ss vb by auto
    then show "w \<in> insert v (set ys)"
    proof cases
      case 2
      then show ?thesis using top_max[OF O vf(1) 2] vf(2) w by simp
    next
      case 4
      then show ?thesis using z[OF 4] w by simp
    qed simp_all
  qed
  then show ?thesis using that[OF vb y z Rv ry rz] by blast
qed

lemma root_component:
  assumes I: "inv None idx s" and vf: "sf_vf s = it # its" "src it = v" "rem it = []" and even: "even (R s v)"
  defines "S \<equiv> {w \<in> act s. idx v \<le> idx w}"
  shows "w \<in> S \<Longrightarrow> reaches v w" "w \<in> S \<Longrightarrow> reaches w v" "w \<in> S \<Longrightarrow> x \<in> set (adj w) \<Longrightarrow> x \<in> S \<union> fin s"
proof -
  note St = invD(1)[OF I] and P = invD(3)[OF I] and E = invD(4)[OF I]
  obtain ys zs where sp: "sf_vb s = ys @ zs" "R s v = idx v" "\<And>y. y \<in> set ys \<Longrightarrow> idx v < R s y" "insert v (set ys) = S"
    unfolding S_def by (rule root_split[OF I vf even]) blast
  have vs: "v \<in> set (srcs s)" using vf by simp
  show "reaches v w" if "w \<in> S" using pathsD(1)[OF P vs] that by (simp add: S_def)
  show "reaches w v" if "w \<in> S" using that
  proof (induction "idx w" arbitrary: w rule: less_induct)
    case less
    show ?case
    proof (cases "w = v")
      case False
      then have "idx v < R s w" using sp(3,4) less(2) by auto
      moreover have wa: "w \<in> act s" using less(2) by (simp add: S_def)
      moreover have "odd (R s w)" using False less(2) sp(1,4) pathsD(3)[OF P, of w] by auto
      ultimately obtain u where u: "u \<in> act s" "idx u + 1 = R s w" "idx u < idx w" "reaches w u"
        using pathsD(2)[OF P wa] stacksD(7)[OF St] seen_sub(3) by (metis subsetD)
      then have "u \<in> S" using \<open>idx v < R s w\<close> by (simp add: S_def)
      then show ?thesis using less(1)[OF u(3)] u(4) by simp
    qed simp
  qed
  show "x \<in> S \<union> fin s" if w: "w \<in> S" and x: "x \<in> set (adj w)"
  proof -
    have l: "looked idx s w x"
    proof (cases "w = v")
      case True
      then show ?thesis using edgesD(2)[OF E, of it] vf x by auto
    next
      case False
      then have "w \<in> set (sf_vb s)" using w sp(1,4) by auto
      then show ?thesis using edgesD(1)[OF E] x by blast
    qed
    have rw: "idx v \<le> R s w" using w sp(2,3,4) by (cases "w = v") (auto intro: less_imp_le)
    show ?thesis
    proof (cases "x \<in> act s")
      case True
      then have "idx v \<le> idx x + 1" using l rw by (simp add: looked_def)
      moreover have "even (idx v)" "even (idx x)" using stacksD(7)[OF St] seen_sub(3)[of s] True w vs stacksD(4)[OF St] by auto
      ultimately have "idx v \<le> idx x" by presburger
      then show ?thesis using True by (simp add: S_def)
    next
      case False
      then show ?thesis using l seen_eq by (simp add: looked_def)
    qed
  qed
qed

end

end
