(* ===== verification/SccCorrect.thy ===== *)
theory SccCorrect
  imports SccSteps
begin

text \<open>
  Leaving the root of a component, termination of the search, and the numbers that the finder returns.
\<close>

unbundle bit_operations_syntax

context edge_iterator
begin

lemma pop_sets:
  assumes I: "inv None idx s" and vf: "sf_vf s = it # its" "src it = v" and vb: "sf_vb s = ys @ zs"
    and S: "insert v (set ys) = {w \<in> act s. idx v \<le> idx w}"
  defines "c \<equiv> insert v (set ys)"
  shows "R (popped s v ys zs) x = (if x \<in> c then sf_componentIndex s else R s x)" "act (popped s v ys zs) = act s - c"
    "fin (popped s v ys zs) = fin s \<union> c" "seen (popped s v ys zs) = seen s" "c \<inter> fin s = {}" "v \<in> act s" "c \<subseteq> act s"
    "sf_vf (popped s v ys zs) = its" "sf_vb (popped s v ys zs) = zs" "finite c" "length (sf_rindexComposite (popped s v ys zs)) = n"
proof -
  note D = stacksD[OF invD(1)[OF I]]
  show va: "v \<in> act s" using D(4) vf by auto
  show sub: "c \<subseteq> act s" unfolding c_def S by blast
  have lt: "x < n" if "x \<in> c" for x using sub that by (auto simp: act_def)
  then have ys: "\<forall>y\<in>set ys. y < length (sf_rindexComposite s)" using D(1) by (simp add: c_def)
  show Rp: "R (popped s v ys zs) x = (if x \<in> c then sf_componentIndex s else R s x)" for x
    using fold_assign(2)[OF ys, of "sf_componentIndex s"] lt[of v] D(1)
    by (simp add: popped_def c_def nth_list_update fold_assign(1))
  note B = component_bound[OF invD(6)[OF I] va]
  show "act (popped s v ys zs) = act s - c" "fin (popped s v ys zs) = fin s \<union> c"
    using B(1) lt unfolding act_def fin_def Rp by auto
  show "seen (popped s v ys zs) = seen s" using B(1) sub unfolding seen_def Rp by (auto simp: act_def)
  show "c \<inter> fin s = {}" using sub by (auto simp: act_def fin_def)
  show "sf_vf (popped s v ys zs) = its" "sf_vb (popped s v ys zs) = zs" using vf(1) by (simp_all add: popped_def)
  show "finite c" by (simp add: c_def)
  show "length (sf_rindexComposite (popped s v ys zs)) = n" using D(1) by (simp add: popped_def fold_assign(1))
qed

lemma pop_comps:
  assumes I: "inv None idx s" and vf: "sf_vf s = it # its" "src it = v" "rem it = []" and even: "even (R s v)" and vb: "sf_vb s = ys @ zs"
    and S: "insert v (set ys) = {w \<in> act s. idx v \<le> idx w}"
  shows "comps (popped s v ys zs)"
proof -
  let ?s = "popped s v ys zs" and ?c = "{w \<in> act s. idx v \<le> idx w}"
  note P = pop_sets[OF I vf(1,2) vb S, unfolded S]
  note C = invD(6)[OF I] and K = root_component[OF I vf even]
  note B = component_bound[OF C P(6)]
  have o: "R ?s x = R s x" if "x \<in> fin s" for x using that P(5) unfolding P(1) by auto
  have n: "R ?s x = sf_componentIndex s" if "x \<in> ?c" for x using that unfolding P(1) by simp
  have 1: "x \<in> fin ?s \<and> R ?s u \<le> R ?s x" if "u \<in> fin ?s" "x \<in> set (adj u)" for u x
  proof (cases "u \<in> ?c")
    case True
    then have "x \<in> ?c \<union> fin s" using K(3) that(2) by blast
    then show ?thesis using n[OF True] n[of x] o[of x] B(2)[of x] unfolding P(3) by fastforce
  next
    case False
    then have u: "u \<in> fin s" using that(1) unfolding P(3) by blast
    then show ?thesis using compsD(1)[OF C u that(2)] o[OF u] o[of x] unfolding P(3) by simp
  qed
  have m: "reaches a b" if "a \<in> ?c" "b \<in> ?c" for a b using K(1)[of b] K(2)[of a] that by (meson rtranclp_trans)
  have d: "R ?s u \<noteq> R ?s w \<and> \<not> reaches u w" if "u \<in> fin s" "w \<in> ?c" for u w
    using fin_closed[OF C _ that(1)] that P(5) o[OF that(1)] n[OF that(2)] B(2)[OF that(1)] by auto
  have 2: "R ?s u = R ?s w \<longleftrightarrow> reaches u w \<and> reaches w u" if uw: "u \<in> fin ?s" "w \<in> fin ?s" for u w
  proof -
    consider "u \<in> fin s" "w \<in> fin s" | "u \<in> ?c" "w \<in> ?c" | "u \<in> fin s" "w \<in> ?c" | "w \<in> fin s" "u \<in> ?c"
      using uw unfolding P(3) by blast
    then show ?thesis
    proof cases
      case 1
      then show ?thesis using compsD(2)[OF C 1] o by simp
    next
      case 2
      then show ?thesis using m n by simp
    next
      case 3
      then show ?thesis using d by blast
    next
      case 4
      then show ?thesis using d[of w u] by metis
    qed
  qed
  obtain k where k: "sf_componentIndex s + 2 * k + 1 = 4 * n" "R s ` fin s = (\<lambda>j. 4 * n - 1 - 2 * j) ` {..<k}" "k \<le> card (fin s)"
    using compsD(3)[OF C] by (elim exE conjE) (rule that)
  have "sf_componentIndex ?s + 2 * (k + 1) + 1 = 4 * n" using k(1) B(1) by (simp add: popped_def)
  moreover have "R ?s ` fin ?s = (\<lambda>j. 4 * n - 1 - 2 * j) ` {..<k + 1}"
  proof -
    have vc: "v \<in> ?c" using P(6) by simp
    have "R ?s ` fin s = R s ` fin s" using o by (rule image_cong[OF refl])
    moreover have "R ?s ` ?c = {sf_componentIndex s}" using n vc by auto
    moreover have "sf_componentIndex s = 4 * n - 1 - 2 * k" using k(1) by linarith
    ultimately show ?thesis unfolding P(3) image_Un k(2) by (auto simp: lessThan_Suc)
  qed
  moreover have "k + 1 \<le> card (fin ?s)"
  proof -
    have f: "finite (fin s)" by (simp add: fin_def)
    have "finite ?c" using P(10) .
    moreover have "?c \<noteq> {}" using P(6) by auto
    ultimately have "card ?c > 0" by (simp only: card_gt_0_iff) simp
    moreover have "card (fin s \<union> ?c) = card (fin s) + card ?c" using f P(5,10) by (intro card_Un_disjoint) auto
    ultimately show ?thesis using k(3) unfolding P(3) by linarith
  qed
  ultimately have 3: "\<exists>k. sf_componentIndex ?s + 2 * k + 1 = 4 * n \<and> R ?s ` fin ?s = (\<lambda>j. 4 * n - 1 - 2 * j) ` {..<k} \<and> k \<le> card (fin ?s)"
    by (intro exI[of _ "k + 1"] conjI)
  show ?thesis unfolding comps_def by (intro conjI ballI) (use 1 2 3 in \<open>simp_all only:\<close>)
qed

lemma pop_inv:
  assumes I: "inv None idx s" and vf: "sf_vf s = it # its" "src it = v" "rem it = []" and even: "even (R s v)" and vb: "sf_vb s = ys @ zs"
    and S: "insert v (set ys) = {w \<in> act s. idx v \<le> idx w}" and z: "\<And>z. z \<in> set zs \<Longrightarrow> idx z < idx v"
  shows "inv None idx (popped s v ys zs)"
proof -
  let ?s = "popped s v ys zs" and ?c = "{w \<in> act s. idx v \<le> idx w}"
  note P = pop_sets[OF I vf(1,2) vb S, unfolded S]
  note St = invD(1)[OF I] and O = invD(2)[OF I] and Pa = invD(3)[OF I] and E = invD(4)[OF I] and Bo = invD(5)[OF I]
  note D = stacksD[OF St]
  have ss: "srcs s = v # map src its" using vf by simp
  have lt: "idx x < idx v" if "x \<in> set (map src its)" for x using top_max[OF O vf(1) that] vf(2) by simp
  have keep: "x \<in> act ?s \<longleftrightarrow> x \<in> act s \<and> idx x < idx v" for x unfolding P(2) by auto
  have act': "set (map src its) \<union> set zs = act ?s"
    using D(4) lt z P(6) S unfolding P(2) ss vb by (auto simp: not_le[symmetric])
  have Rk: "R ?s x = R s x" if "x \<in> act ?s" for x using that keep[of x] unfolding P(1) by simp
  have in_act: "x \<in> act ?s" if "x \<in> set (map src its) \<or> x \<in> set zs" for x using that act' by blast
  have "stacks idx ?s"
    unfolding stacks_def P(4,8,9,11)
  proof (intro conjI)
    show "sf_numNodes ?s = n" "sf_index ?s = 2 + 2 * card (seen s)" using D(2,11) by (simp_all add: popped_def)
    show "distinct (map src its @ zs)" using D(3) unfolding ss vb by auto
    show "set (map src its) \<union> set zs = act ?s" by (rule act')
    show "\<forall>it\<in>set its. ok it" using D(5) vf(1) by simp
    show "chain its" using D(6) vf(1) by (cases its) auto
    have "sf_index ?s = sf_index s" by (simp add: popped_def)
    then show "\<forall>v\<in>seen s. Parity.even (idx v) \<and> 0 < idx v \<and> idx v < sf_index ?s" using D(7-9) by simp
    show "inj_on idx (seen s)" by (rule D(10))
  qed simp
  moreover have "order idx ?s"
    unfolding order_def P(8,9)
  proof (intro conjI ballI)
    show "sorted_wrt (\<lambda>a b. idx b < idx a) (map src its)" using orderD(1)[OF O] unfolding ss by simp
    have "sorted_wrt (\<lambda>a b. \<forall>x\<in>set (srcs s). idx x < idx b \<longrightarrow> idx x < idx a) zs"
      using orderD(2)[OF O] unfolding vb sorted_wrt_append by blast
    then show "sorted_wrt (\<lambda>a b. \<forall>x\<in>set (map src its). idx x < idx b \<longrightarrow> idx x < idx a) zs"
      by (rule sorted_wrt_mono_rel[rotated]) (simp add: ss)
    fix w assume w: "w \<in> set zs"
    then obtain x where x: "x \<in> set (srcs s)" "idx x < idx w" using orderD(3)[OF O, of w] vb by auto
    then have "x \<noteq> v" using z[OF w] by auto
    then have "x \<in> set (map src its)" using x(1) ss by simp
    then show "\<exists>x\<in>set (map src its). idx x < idx w" using x(2) by blast
  qed
  moreover have "paths idx ?s"
    unfolding paths_def P(8,9)
  proof (intro conjI ballI impI)
    fix a b assume "a \<in> set (map src its)" "b \<in> act ?s" "idx a \<le> idx b"
    then show "reaches a b" using pathsD(1)[OF Pa, of a b] keep ss by simp
  next
    fix w assume w: "w \<in> act ?s"
    then have wa: "w \<in> act s" "idx w < idx v" using keep by auto
    have "R s w = idx w \<or> odd (R s w) \<and> (\<exists>u\<in>act s. idx u + 1 = R s w \<and> idx u < idx w \<and> reaches w u)" by (rule pathsD(2)[OF Pa wa(1)])
    then show "R ?s w = idx w \<or> odd (R ?s w) \<and> (\<exists>u\<in>act ?s. idx u + 1 = R ?s w \<and> idx u < idx w \<and> reaches w u)"
      unfolding Rk[OF w] using wa(2) keep by (meson order.strict_trans)
  next
    fix w assume "w \<in> set zs"
    then show "odd (R ?s w)" using pathsD(3)[OF Pa, of w] Rk[OF in_act] vb by simp
  qed
  moreover have "edges idx ?s"
  proof -
    have L: "looked idx ?s a x" if "looked idx s a x" "a \<in> act ?s" for a x
      using that keep Rk[OF that(2)] unfolding looked_def P(4) by simp
    have "\<forall>w\<in>set zs. \<forall>x\<in>set (adj w). looked idx ?s w x" using edgesD(1)[OF E] L in_act vb by simp
    moreover have "\<exists>pre. adj (src i) = pre @ rem i \<and> (\<forall>x\<in>set pre. looked idx ?s (src i) x)" if i: "i \<in> set its" for i
    proof -
      obtain pre where "adj (src i) = pre @ rem i" "\<forall>x\<in>set pre. looked idx s (src i) x" using edgesD(2)[OF E, of i] vf(1) i by auto
      then show ?thesis using L[OF _ in_act, of "src i"] i by auto
    qed
    ultimately show ?thesis unfolding edges_def P(8,9) by blast
  qed
  moreover have "bounds None idx ?s"
    unfolding bounds_def
  proof (intro allI impI disjI1)
    fix a b assume "owns idx ?s a b"
    then have o: "a \<in> set (map src its)" "b \<in> set zs" "idx a < idx b" "\<And>x. x \<in> set (map src its) \<Longrightarrow> idx x < idx b \<Longrightarrow> idx x \<le> idx a"
      unfolding owns_def P(8,9) by blast+
    have "owns idx s a b" using o z[OF o(2)] unfolding owns_def ss vb by auto
    then have "R s a \<le> R s b" using boundsD[OF Bo] by blast
    then show "R ?s a \<le> R ?s b" using Rk[OF in_act] o(1,2) by simp
  qed
  ultimately show ?thesis unfolding inv_def using pop_comps[OF I vf even vb S] by blast
qed

end

context edge_iterator
begin

subsection \<open>A step keeps the invariant and makes progress\<close>

lemma inv_pend: "inv None idx s \<Longrightarrow> inv (Some w) idx s"
  unfolding inv_def bounds_def by auto

definition left :: "'it scc_finder \<Rightarrow> nat" where
  "left s = n - card (seen s)"

definition todo :: "'it scc_finder \<Rightarrow> nat" where
  "todo s = sum_list (map (\<lambda>it. length (rem it) + 1) (sf_vf s))"

definition less_work :: "'it scc_finder \<Rightarrow> 'it scc_finder \<Rightarrow> bool" where
  "less_work s' s \<longleftrightarrow> (s', s) \<in> measures [left, todo]"

lemma less_workI: "seen s' = seen s \<Longrightarrow> todo s' < todo s \<Longrightarrow> less_work s' s"
  by (simp add: less_work_def left_def)

lemma after_edge_label:
  assumes I: "inv None idx s" and vf: "sf_vf s = it # its" "src it = v" and x: "rem it \<noteq> []"
  shows "at_label (after_edge ops v it s) idx s"
proof -
  obtain w xs where r: "rem it = w # xs" using x by (cases "rem it") auto
  note D = stacksD[OF invD(1)[OF I]]
  have "ok it" using D(5) vf(1) by simp
  then have d: "eo_GetDestNode ops it = w" using dest r by blast
  have "v < n" using D(4) vf by (auto simp: act_def)
  moreover obtain pre where "adj v = pre @ rem it" using edgesD(2)[OF invD(4)[OF I], of it] vf by auto
  ultimately have "w < n" using r adj_range by fastforce
  then show ?thesis using I inv_pend[OF I] vf r by (auto simp: after_edge_def d Let_def at_label_def seen_def)
qed

lemma visit_step:
  assumes A: "at_label (visit_new_node v) idx s"
  shows "\<exists>l idx'. sf_visit ops v s = (l, visited s v) \<and> at_label l idx' (visited s v)" "less_work (visited s v) s"
    "insert v (seen s) = seen (visited s v)"
proof -
  note V = visit_inv[OF A]
  note T = visit_sets[OF V(2-4)] and K = construct[OF V(3)]
  let ?it = "eo_Construct ops v" and ?i = "idx(v := sf_index s)"
  have vf: "sf_vf (visited s v) = ?it # sf_vf s" by (simp add: visited_def)
  have "sf_visit ops v s = (if eo_IsValid ops ?it then after_edge ops v ?it (visited s v) else finished_visiting_edges v, visited s v)"
    by (simp add: sf_visit_def visited_def Let_def)
  moreover have "at_label (if eo_IsValid ops ?it then after_edge ops v ?it (visited s v) else finished_visiting_edges v) ?i (visited s v)"
    using after_edge_label[OF V(1) vf] K V(1) vf valid[of ?it] by (auto simp: at_label_def)
  ultimately show "\<exists>l idx'. sf_visit ops v s = (l, visited s v) \<and> at_label l idx' (visited s v)" by blast
  show "insert v (seen s) = seen (visited s v)" using T(4) by simp
  have "card (seen (visited s v)) = card (seen s) + 1" using T(4,6) seen_sub(2) by simp
  moreover have "card (seen (visited s v)) \<le> n" using card_mono[OF _ seen_sub(1)[of "visited s v"]] by simp
  ultimately have "left (visited s v) < left s" unfolding left_def by linarith
  then show "less_work (visited s v) s" by (simp add: less_work_def)
qed

lemma continue_step:
  assumes A: "at_label (continue_iterate_edges v w) idx s"
  shows "\<exists>l. sf_continue ops v w s = (l, scanned s v w) \<and> at_label l idx (scanned s v w)" "less_work (scanned s v w) s"
    "seen (scanned s v w) = seen s"
proof -
  obtain it its xs where I: "inv (Some w) idx s" and vf: "sf_vf s = it # its" "src it = v" "rem it = w # xs" using A by (auto simp: at_label_def)
  note V = scan_sets[OF invD(1)[OF I] vf invD(4)[OF I]] and N = scan_inv[OF A]
  let ?it = "fst (eo_Advance ops it)"
  show "seen (scanned s v w) = seen s" by (rule V(4))
  show "less_work (scanned s v w) s" by (rule less_workI[OF V(4)]) (simp add: todo_def V(13) V(10) vf(1,3))
  have "sf_continue ops v w s = (if snd (eo_Advance ops it) then after_edge ops v ?it (scanned s v w) else finished_visiting_edges v, scanned s v w)"
    by (auto simp: sf_continue_def scanned_def lowered_def Let_def vf(1) case_prod_beta)
  moreover have "at_label (if snd (eo_Advance ops it) then after_edge ops v ?it (scanned s v w) else finished_visiting_edges v) idx (scanned s v w)"
    using after_edge_label[OF N V(13) V(11)] N V(10-13) by (auto simp: at_label_def)
  ultimately show "\<exists>l. sf_continue ops v w s = (l, scanned s v w) \<and> at_label l idx (scanned s v w)" by blast
qed

text \<open>After the last edge of a node: on with the node below, or the end.\<close>

lemma below_label:
  assumes I: "inv pend idx s" and c: "chain (it # its)" "src it = v" and vf: "sf_vf s = its" and p: "pend = None \<or> pend = Some v" and v: "v \<in> seen s"
  shows "case its of [] \<Rightarrow> True
    | i # _ \<Rightarrow> at_label (continue_iterate_edges (src i) (eo_GetDestNode ops i)) idx s"
proof (cases its)
  case (Cons i r)
  then obtain xs where r: "rem i = v # xs" using c by auto
  have "ok i" using stacksD(5)[OF invD(1)[OF I]] vf Cons by simp
  then have "eo_GetDestNode ops i = v" using dest r by blast
  moreover have "inv (Some v) idx s" using I p inv_pend by auto
  ultimately show ?thesis using Cons vf r v by (simp add: at_label_def)
qed simp

lemma finished_step:
  assumes A: "at_label (finished_visiting_edges v) idx s"
  obtains s' l where "sf_finished ops v s = Some (l, s')" "less_work s' s" "seen s' = seen s"
    "case l of None \<Rightarrow> inv None idx s' \<and> sf_vf s' = [] \<and> sf_vb s' = [] | Some l \<Rightarrow> at_label l idx s'"
proof -
  obtain it its where I: "inv None idx s" and vf: "sf_vf s = it # its" "src it = v" "rem it = []" using A by (auto simp: at_label_def)
  note D = stacksD[OF invD(1)[OF I]]
  have va: "v \<in> act s" using D(4) vf by auto
  then have vs: "v \<in> seen s" using seen_sub(3) by blast
  have ch: "chain (it # its)" using D(6) vf(1) by simp
  have td: "todo s' < todo s" if "sf_vf s' = its" for s' using that by (simp add: todo_def vf(1))
  have root: "IsRoot (sf_rindexComposite s) v \<longleftrightarrow> even (R s v)" by (simp add: IsRoot_def and_one_eq even_iff_mod_2_eq_zero)
  show ?thesis
  proof (cases "even (R s v)")
    case False
    let ?s = "backlogged s v"
    have f: "sf_vf ?s = its" "seen ?s = seen s" using vf(1) by (simp_all add: backlogged_def seen_def)
    have J: "inv (Some v) idx ?s" by (rule backlog_inv[OF I vf False])
    obtain i r where i: "its = i # r" using backlog_below[OF I vf(1,2) False] by (cases its) auto
    have "sf_finished ops v s = Some (Some (continue_iterate_edges (src i) (eo_GetDestNode ops i)), ?s)"
      using False root i by (simp add: sf_finished_def sf_finish_node_def backlogged_def vf(1))
    moreover have "at_label (continue_iterate_edges (src i) (eo_GetDestNode ops i)) idx ?s"
      using below_label[OF J ch vf(2) f(1)] vs f(2) i by simp
    ultimately show ?thesis using that less_workI[OF f(2) td[OF f(1)]] f(2) by fastforce
  next
    case True
    obtain ys zs where sp: "sf_vb s = ys @ zs" "\<And>z. z \<in> set zs \<Longrightarrow> idx z < idx v" "R s v = idx v" "\<And>y. y \<in> set ys \<Longrightarrow> idx v < R s y"
      "\<And>z. z \<in> set zs \<Longrightarrow> R s z < idx v" "insert v (set ys) = {w \<in> act s. idx v \<le> idx w}" by (rule root_split[OF I vf True]) blast
    let ?s = "popped s v ys zs"
    note P = pop_sets[OF I vf(1,2) sp(1,6)]
    have J: "inv None idx ?s" by (rule pop_inv[OF I vf True sp(1,6,2)])
    have dis: "distinct ys" "v \<notin> set ys" "set zs \<inter> set ys = {}" using D(3) sp(1) vf by auto
    have "pop_component v (R s v) (sf_componentIndex s) (sf_vb s) (sf_rindexComposite s) =
        Some (zs, fold (\<lambda>w r. r[w := sf_componentIndex s]) ys (sf_rindexComposite s))"
      unfolding sp(1) using dis sp(3-5) by (intro pop_component_eq) (auto intro: less_imp_le)
    then have fn: "sf_finish_node v (s\<lparr>sf_vf := tl (sf_vf s)\<rparr>) = Some ?s"
      using True root by (simp add: sf_finish_node_def popped_def)
    have e: "sf_finished ops v s = Some (case its of [] \<Rightarrow> None | i # _ \<Rightarrow> Some (continue_iterate_edges (src i) (eo_GetDestNode ops i)), ?s)"
      unfolding sf_finished_def fn by (simp add: P(8))
    have lw: "less_work ?s s" by (rule less_workI[OF P(4) td[OF P(8)]])
    show ?thesis
    proof (cases its)
      case Nil
      then have "sf_vf ?s = []" using P(8) by simp
      moreover from this have "sf_vb ?s = []" using orderD(3)[OF invD(2)[OF J]] by (cases "sf_vb ?s") auto
      ultimately show ?thesis using that[OF e lw P(4)] J Nil by simp
    next
      case (Cons i r)
      then have "at_label (continue_iterate_edges (src i) (eo_GetDestNode ops i)) idx ?s"
        using below_label[OF J ch vf(2) P(8)] vs P(4) by simp
      then show ?thesis using that[OF e lw P(4)] Cons by simp
    qed
  qed
qed

lemma step_progress:
  assumes A: "at_label l idx s"
  obtains s' l' idx' where "sf_step ops l s = Some (l', s')" "less_work s' s" "seen s \<subseteq> seen s'"
    "case l' of None \<Rightarrow> inv None idx' s' \<and> sf_vf s' = [] \<and> sf_vb s' = [] | Some l'' \<Rightarrow> at_label l'' idx' s'"
    "\<forall>v. l = visit_new_node v \<longrightarrow> v \<in> seen s'"
proof (cases l)
  case (visit_new_node v)
  note V = visit_step[OF A[unfolded visit_new_node]]
  obtain l' idx' where "sf_visit ops v s = (l', visited s v)" "at_label l' idx' (visited s v)" using V(1) by blast
  then show ?thesis using that[of "Some l'" "visited s v" idx'] V(2,3) visit_new_node by (auto simp: sf_step_def)
next
  case (continue_iterate_edges v w)
  note V = continue_step[OF A[unfolded continue_iterate_edges]]
  obtain l' where "sf_continue ops v w s = (l', scanned s v w)" "at_label l' idx (scanned s v w)" using V(1) by blast
  then show ?thesis using that[of "Some l'" "scanned s v w" idx] V(2,3) continue_iterate_edges by (simp add: sf_step_def)
next
  case (finished_visiting_edges v)
  obtain s' l' where F: "sf_finished ops v s = Some (l', s')" "less_work s' s" "seen s' = seen s"
    "case l' of None \<Rightarrow> inv None idx s' \<and> sf_vf s' = [] \<and> sf_vb s' = [] | Some l \<Rightarrow> at_label l idx s'"
    by (rule finished_step[OF A[unfolded finished_visiting_edges]])
  then show ?thesis using that[of l' s' idx] finished_visiting_edges by (simp add: sf_step_def)
qed

lemma run_total:
  assumes "at_label l idx s"
  shows "\<exists>s' idx'. sf_run ops l s = Some s' \<and> inv None idx' s' \<and> sf_vf s' = [] \<and> sf_vb s' = [] \<and> seen s \<subseteq> seen s' \<and>
    (\<forall>v. l = visit_new_node v \<longrightarrow> v \<in> seen s')"
  using assms
proof (induction s arbitrary: l idx rule: wf_induct_rule[OF wf_measures[of "[left, todo]"]])
  case (1 s)
  obtain s' l' idx' where st: "sf_step ops l s = Some (l', s')" "less_work s' s" "seen s \<subseteq> seen s'"
    "case l' of None \<Rightarrow> inv None idx' s' \<and> sf_vf s' = [] \<and> sf_vb s' = [] | Some l'' \<Rightarrow> at_label l'' idx' s'"
    "\<forall>v. l = visit_new_node v \<longrightarrow> v \<in> seen s'" by (rule step_progress[OF 1(2)])
  show ?case
  proof (cases l')
    case None
    then show ?thesis using st by (subst sf_run.simps) auto
  next
    case (Some l'')
    then have "at_label l'' idx' s'" using st(4) by simp
    from 1(1)[OF st(2)[unfolded less_work_def] this] obtain t idx'' where
      t: "sf_run ops l'' s' = Some t" "inv None idx'' t" "sf_vf t = []" "sf_vb t = []" "seen s' \<subseteq> seen t" by blast
    moreover have "sf_run ops l s = Some t" using Some st(1) t(1) by (subst sf_run.simps) simp
    ultimately show ?thesis using st(3,5) by (meson subset_iff)
  qed
qed

end

lemma next_entry_spec:
  assumes "e < n"
  shows "e < next_entry r n e" "next_entry r n e \<le> n" "e < u \<Longrightarrow> u < next_entry r n e \<Longrightarrow> r ! u \<noteq> 0" "next_entry r n e < n \<Longrightarrow> r ! next_entry r n e = 0"
proof -
  have "e < next_entry r n e \<and> next_entry r n e \<le> n \<and> (\<forall>u. e < u \<longrightarrow> u < next_entry r n e \<longrightarrow> r ! u \<noteq> 0) \<and> (next_entry r n e < n \<longrightarrow> r ! next_entry r n e = 0)"
    using assms
  proof (induction r n e rule: next_entry.induct)
    case (1 r n e)
    show ?case
    proof (cases "e + 1 \<ge> n \<or> r ! (e + 1) = 0")
      case True
      then have "next_entry r n e = e + 1" by (subst next_entry.simps) simp
      then show ?thesis using True 1(2) by auto
    next
      case False
      then have s: "next_entry r n e = next_entry r n (e + 1)" by (subst next_entry.simps) simp
      have "e + 1 < n" using False by simp
      from 1(1)[OF False this] False show ?thesis unfolding s by (metis Suc_eq_plus1 Suc_leI Suc_lessD le_neq_implies_less)
    qed
  qed
  then show "e < next_entry r n e" "next_entry r n e \<le> n" "e < u \<Longrightarrow> u < next_entry r n e \<Longrightarrow> r ! u \<noteq> 0" "next_entry r n e < n \<Longrightarrow> r ! next_entry r n e = 0"
    by blast+
qed

context edge_iterator
begin

subsection \<open>All entry nodes\<close>

definition idle :: "'it scc_finder \<Rightarrow> bool" where
  "idle s \<longleftrightarrow> (\<exists>idx. inv None idx s) \<and> sf_vf s = [] \<and> sf_vb s = []"

lemma idle_new:
  assumes "0 < n"
  shows "idle (sf_new n)"
proof -
  have r: "R (sf_new n) v = 0" if "v < n" for v using that by (simp add: sf_new_def)
  then have "act (sf_new n) = {}" "fin (sf_new n) = {}" "seen (sf_new n) = {}" by (auto simp: act_def fin_def seen_def)
  then have "inv None (\<lambda>_. 0) (sf_new n)"
    using assms by (simp add: inv_def stacks_def order_def paths_def edges_def bounds_def owns_def comps_def sf_new_def)
  then show ?thesis by (auto simp: idle_def sf_new_def)
qed

lemma idle_fields: "idle s \<Longrightarrow> length (sf_rindexComposite s) = n" "idle s \<Longrightarrow> sf_numNodes s = n"
  using stacksD(1,2)[OF invD(1)] by (auto simp: idle_def)

lemma find_total:
  assumes "idle s" "v < n" "R s v = 0"
  shows "\<exists>s'. FindSccFromNode ops v s = Some s' \<and> idle s' \<and> insert v (seen s) \<subseteq> seen s'"
proof -
  obtain idx where "inv None idx s" "sf_vf s = []" using assms(1) by (auto simp: idle_def)
  then have "at_label (visit_new_node v) idx s" using assms(2,3) by (simp add: at_label_def)
  from run_total[OF this] show ?thesis unfolding FindSccFromNode_def idle_def by (metis insert_subset)
qed

lemma entries_total:
  assumes "idle s" "v < n" "R s v = 0" "{..<v} \<subseteq> seen s"
  shows "\<exists>s'. sf_entries ops v False s = Some s' \<and> idle s' \<and> seen s' = {..<n}"
  using assms
proof (induction "n - v" arbitrary: v s rule: less_induct)
  case less
  obtain s' where f: "FindSccFromNode ops v s = Some s'" "idle s'" "insert v (seen s) \<subseteq> seen s'" using find_total[OF less(2-4)] by blast
  let ?e = "next_entry (sf_rindexComposite s') n v"
  note N = next_entry_spec[OF less(3), where r = "sf_rindexComposite s'"]
  have nn: "sf_numNodes s' = n" using idle_fields(2)[OF f(2)] .
  have sub: "{..<?e} \<subseteq> seen s'"
  proof
    fix u assume "u \<in> {..<?e}"
    then have "u < ?e" by simp
    then consider "u < v" | "u = v" | "v < u" "R s' u \<noteq> 0" "u < n" using N(2) N(3)[where u = u] by linarith
    then show "u \<in> seen s'" using less(5) f(3) by cases (auto simp: seen_def)
  qed
  show ?case
  proof (cases "?e = n")
    case True
    then have "sf_entries ops v False s = Some s'" using f(1) nn by (subst sf_entries.simps) (simp add: Let_def)
    moreover have "seen s' = {..<n}" using sub True seen_sub(1)[of s'] by auto
    ultimately show ?thesis using f(2) by blast
  next
    case False
    then have e: "?e < n" "R s' ?e = 0" "n - ?e < n - v" using N(1,2,4) less(3) by auto
    obtain t where "sf_entries ops ?e False s' = Some t" "idle t" "seen t = {..<n}" using less(1)[OF e(3) f(2) e(1,2) sub] by blast
    moreover have "sf_entries ops v False s = sf_entries ops ?e False s'" using f(1) nn False by (subst sf_entries.simps) (simp add: Let_def)
    ultimately show ?thesis by simp
  qed
qed

lemma entry_only_total:
  assumes "0 < n" "v < n" "\<forall>u<n. reaches v u"
  shows "\<exists>s'. sf_entries ops v True (sf_new n) = Some s' \<and> idle s' \<and> seen s' = {..<n}"
proof -
  have "R (sf_new n) v = 0" using assms(2) by (simp add: sf_new_def)
  then obtain s' where f: "FindSccFromNode ops v (sf_new n) = Some s'" "idle s'" "v \<in> seen s'"
    using find_total[OF idle_new[OF assms(1)] assms(2)] by blast
  obtain idx where I: "inv None idx s'" "sf_vf s' = []" "sf_vb s' = []" using f(2) by (auto simp: idle_def)
  then have "act s' = {}" using stacksD(4)[OF invD(1)[OF I(1)]] by simp
  then have "v \<in> fin s'" using f(3) seen_eq[of s'] by blast
  then have "u \<in> fin s'" if "u < n" for u using fin_closed[OF invD(6)[OF I(1)], of v u] assms(3) that by blast
  then have "{..<n} \<subseteq> seen s'" using seen_eq[of s'] by blast
  then have "seen s' = {..<n}" using seen_sub(1)[of s'] by (rule antisym[rotated])
  moreover have "sf_entries ops v True (sf_new n) = Some s'" using f(1) by (subst sf_entries.simps) simp
  ultimately show ?thesis using f(2) by blast
qed

text \<open>The numbers of the components.\<close>

lemma finish_correct:
  assumes "idle s" "seen s = {..<n}"
  shows "\<exists>k res. FinishComputation s = (k, res) \<and> scc_numbering n adj k res"
proof -
  obtain idx where I: "inv None idx s" "sf_vf s = []" "sf_vb s = []" using assms(1) by (auto simp: idle_def)
  have "act s = {}" using stacksD(4)[OF invD(1)[OF I(1)]] I(2,3) by simp
  then have fin: "fin s = {..<n}" using assms(2) seen_eq[of s] by simp
  note C = invD(6)[OF I(1)]
  obtain k where k: "sf_componentIndex s + 2 * k + 1 = 4 * n" "R s ` fin s = (\<lambda>j. 4 * n - 1 - 2 * j) ` {..<k}" "k \<le> card (fin s)"
    using compsD(3)[OF C] by (elim exE conjE) (rule that)
  let ?f = "\<lambda>r. (4 * n - r) div 2"
  let ?res = "map ?f (sf_rindexComposite s)"
  note L = idle_fields[OF assms(1)]
  have kn: "k \<le> n" using k(3) fin by simp
  have fj: "?f (4 * n - 1 - 2 * j) = j" if "j < k" for j using that kn by (simp add: div_nat_eqI)
  have R: "\<exists>j<k. R s u = 4 * n - 1 - 2 * j" if "u < n" for u
  proof -
    have "R s u \<in> (\<lambda>j. 4 * n - 1 - 2 * j) ` {..<k}" unfolding k(2)[symmetric] using that fin by blast
    then show ?thesis by blast
  qed
  have res: "?res ! u = ?f (R s u)" if "u < n" for u using that L(1) by simp
  have eq: "?res ! u = ?res ! v \<longleftrightarrow> R s u = R s v" if "u < n" "v < n" for u v
    using R[OF that(1)] R[OF that(2)] fj unfolding res[OF that(1)] res[OF that(2)] by metis
  have ran: "set ?res = {..<k}"
  proof -
    have "set (sf_rindexComposite s) = R s ` {..<n}" using L(1) by (auto simp: set_conv_nth)
    then have "set ?res = ?f ` (\<lambda>j. 4 * n - 1 - 2 * j) ` {..<k}" using k(2) fin by simp
    also have "\<dots> = {..<k}" using fj by (force simp: image_image)
    finally show ?thesis .
  qed
  have "?res ! v \<le> ?res ! u" if "graph_edge n adj u v" for u v
  proof -
    have uv: "u < n" "v < n" using edge_range[OF that] by auto
    then have "R s u \<le> R s v" using compsD(1)[OF C, of u v] fin that by (simp add: graph_edge_def)
    then show ?thesis unfolding res[OF uv(1)] res[OF uv(2)] by (intro div_le_mono diff_le_mono2)
  qed
  moreover have "?res ! u = ?res ! v \<longleftrightarrow> reaches u v \<and> reaches v u" if "u < n" "v < n" for u v
    unfolding eq[OF that] using compsD(2)[OF C] fin that by simp
  ultimately have "scc_numbering n adj k ?res" unfolding scc_numbering_def using L(1) ran kn by simp
  moreover have "FinishComputation s = (k, ?res)" using k(1) by (simp add: FinishComputation_def L(2))
  ultimately show ?thesis by blast
qed

lemma ComputeForGenericGraph_correct:
  assumes "0 < n"
  shows "\<exists>k res. ComputeForGenericGraph ops n = Some (k, res) \<and> scc_numbering n adj k res"
proof -
  have "R (sf_new n) 0 = 0" using assms by (simp add: sf_new_def)
  then obtain s where "sf_entries ops 0 False (sf_new n) = Some s" "idle s" "seen s = {..<n}"
    using entries_total[OF idle_new[OF assms] assms] by auto
  then show ?thesis using finish_correct by (auto simp: ComputeForGenericGraph_def RunImpl_def)
qed

lemma ComputeForCFG_correct:
  assumes "v < n" "\<forall>u<n. reaches v u"
  shows "\<exists>k res. ComputeForCFG ops n v = Some (k, res) \<and> scc_numbering n adj k res"
proof -
  obtain s where "sf_entries ops v True (sf_new n) = Some s" "idle s" "seen s = {..<n}"
    using entry_only_total[of v] assms by auto
  then show ?thesis using finish_correct by (auto simp: ComputeForCFG_def RunImpl_def)
qed

end

end
