(* ===== verification/AdjGraph.thy ===== *)
theory AdjGraph
  imports BitVector SccCorrect
begin

text \<open>
  \<^verbatim>\<open>BitmapAdjacencyGraph\<close> of \<^verbatim>\<open>drt/bitmap_adjacency_graph.h\<close>: one row of bits per node, the iterator over the set bits of a row, and
  its interpretation as an edge iterator of the component finder.
\<close>

unbundle bit_operations_syntax

section \<open>Data and operations\<close>

record bitmap_graph =
  bg_numNodes :: nat
  bg_numWordsInEachBV :: nat
  bg_bv :: bit_vector

definition bg_AllocateMemory :: "nat \<Rightarrow> u64 list \<Rightarrow> bool \<Rightarrow> bitmap_graph" where
  "bg_AllocateMemory numNodes fresh initializeToZero =
     (let numWordsInEachBV = (numNodes + 63) div 64 * 64 div 64;
          bv = bv_Reset (numWordsInEachBV * numNodes * 64) fresh;
          bv = (if initializeToZero then bv_Clear bv else bv)
      in \<lparr>bg_numNodes = numNodes, bg_numWordsInEachBV = numWordsInEachBV, bg_bv = bv\<rparr>)"

text \<open>
  The bits of one node are a view into the words of the graph: reading takes the slice, and what is done to the view is
  done to the slice.
\<close>

definition GetEdgeBV :: "bitmap_graph \<Rightarrow> nat \<Rightarrow> bit_vector" where
  "GetEdgeBV g nodeOrd =
     \<lparr>bv_data = take (bg_numWordsInEachBV g) (drop (nodeOrd * bg_numWordsInEachBV g) (bv_data (bg_bv g))), bv_length = bg_numNodes g\<rparr>"

definition on_EdgeBV :: "bitmap_graph \<Rightarrow> nat \<Rightarrow> (bit_vector \<Rightarrow> bit_vector) \<Rightarrow> bitmap_graph" where
  "on_EdgeBV g nodeOrd f =
     (let off = nodeOrd * bg_numWordsInEachBV g; data = bv_data (bg_bv g)
      in g\<lparr>bg_bv := (bg_bv g)\<lparr>bv_data := take off data @ bv_data (f (GetEdgeBV g nodeOrd)) @ drop (off + bg_numWordsInEachBV g) data\<rparr>\<rparr>)"

record edge_iter =
  ei_sourceNode :: nat
  ei_curDestNode :: nat
  ei_curBvWord :: u64
  ei_curBvWordPtr :: nat

function ei_find_word :: "bitmap_graph \<Rightarrow> edge_iter \<Rightarrow> edge_iter \<times> bool" where
  "ei_find_word g it =
     (if ei_curBvWord it \<noteq> 0 then (it, True)
      else let it = it\<lparr>ei_curDestNode := ei_curDestNode it + 64\<rparr> in
           if ei_curDestNode it \<ge> bg_numNodes g then (it, False)
           else ei_find_word g (it\<lparr>ei_curBvWordPtr := ei_curBvWordPtr it + 1, ei_curBvWord := bv_data (bg_bv g) ! (ei_curBvWordPtr it + 1)\<rparr>))"
  by pat_completeness auto
termination by (relation "measure (\<lambda>(g, it). bg_numNodes g - ei_curDestNode it)") auto

declare ei_find_word.simps [simp del]

definition ei_Advance :: "bitmap_graph \<Rightarrow> edge_iter \<Rightarrow> edge_iter \<times> bool" where
  "ei_Advance g it =
     (let it = it\<lparr>ei_curDestNode := ei_curDestNode it div 64 * 64\<rparr>;
          (it, found) = ei_find_word g it
      in if \<not> found then (it, False)
         else let ctz = the (CountTrailingZeros (ei_curBvWord it))
              in (it\<lparr>ei_curBvWord := ei_curBvWord it XOR push_bit ctz 1, ei_curDestNode := ei_curDestNode it + ctz\<rparr>, True))"

definition EdgeIter :: "bitmap_graph \<Rightarrow> nat \<Rightarrow> edge_iter" where
  "EdgeIter g nodeOrd =
     (let p = nodeOrd * bg_numWordsInEachBV g
      in fst (ei_Advance g \<lparr>ei_sourceNode = nodeOrd, ei_curDestNode = 0, ei_curBvWord = bv_data (bg_bv g) ! p, ei_curBvWordPtr = p\<rparr>))"

definition ei_IsValid :: "bitmap_graph \<Rightarrow> edge_iter \<Rightarrow> bool" where
  "ei_IsValid g it \<longleftrightarrow> ei_curDestNode it < bg_numNodes g"

definition bg_edge_ops :: "bitmap_graph \<Rightarrow> edge_iter edge_ops" where
  "bg_edge_ops g = \<lparr>eo_Construct = EdgeIter g, eo_GetSourceNode = ei_sourceNode, eo_IsValid = ei_IsValid g,
     eo_GetDestNode = ei_curDestNode, eo_Advance = ei_Advance g\<rparr>"

definition ComputeSCC :: "bitmap_graph \<Rightarrow> (nat \<times> nat list) option" where
  "ComputeSCC g = ComputeForGenericGraph (bg_edge_ops g) (bg_numNodes g)"

definition ComputeSCCForCFG :: "bitmap_graph \<Rightarrow> nat \<Rightarrow> (nat \<times> nat list) option" where
  "ComputeSCCForCFG g entryNode = ComputeForCFG (bg_edge_ops g) (bg_numNodes g) entryNode"

section \<open>Rows\<close>

text \<open>All words are there, and each row is a bit vector.\<close>

definition bg_ok :: "bitmap_graph \<Rightarrow> bool" where
  "bg_ok g \<longleftrightarrow> bg_numWordsInEachBV g = bv_alloc (bg_numNodes g) \<and> length (bv_data (bg_bv g)) = bg_numNodes g * bv_alloc (bg_numNodes g) \<and>
     (\<forall>v<bg_numNodes g. bv_ok (GetEdgeBV g v))"

definition succs :: "bitmap_graph \<Rightarrow> nat \<Rightarrow> nat list" where
  "succs g v = filter (\<lambda>w. w \<in> bv_set (GetEdgeBV g v)) [0..<bg_numNodes g]"

lemma row_nth:
  assumes "bg_ok g" "v < bg_numNodes g" "j < bg_numWordsInEachBV g"
  shows "bv_data (GetEdgeBV g v) ! j = bv_data (bg_bv g) ! (v * bg_numWordsInEachBV g + j)"
proof -
  let ?W = "bg_numWordsInEachBV g"
  have "Suc v * ?W \<le> bg_numNodes g * ?W" using assms(2) by (intro mult_le_mono1) simp
  then have "v * ?W + ?W \<le> length (bv_data (bg_bv g))" using assms(1) by (simp add: bg_ok_def)
  then show ?thesis using assms(3) by (simp add: GetEdgeBV_def)
qed

lemma row_bit:
  assumes "bg_ok g" "v < bg_numNodes g" "w < bg_numNodes g"
  shows "w \<in> bv_set (GetEdgeBV g v) \<longleftrightarrow> bit (bv_data (bg_bv g) ! (v * bg_numWordsInEachBV g + w div 64)) (w mod 64)"
proof -
  have "w div 64 < bg_numWordsInEachBV g" using alloc_bounds(3)[OF assms(3)] assms(1) by (simp add: bg_ok_def)
  then show ?thesis using row_nth[OF assms(1,2)] assms(3) by (simp add: bv_set_def bv_bit_def GetEdgeBV_def)
qed

lemma row_clear:
  assumes "bg_ok g" "v < bg_numNodes g" "bg_numNodes g \<le> w" "w div 64 < bg_numWordsInEachBV g"
  shows "\<not> bit (bv_data (bg_bv g) ! (v * bg_numWordsInEachBV g + w div 64)) (w mod 64)"
proof -
  have ok: "bv_ok (GetEdgeBV g v)" using assms(1,2) by (simp add: bg_ok_def)
  have "bv_GetAllocLength (GetEdgeBV g v) = bg_numWordsInEachBV g" "bv_length (GetEdgeBV g v) = bg_numNodes g"
    using assms(1) by (simp_all add: bv_GetAllocLength_def GetEdgeBV_def bg_ok_def)
  then have "\<not> bv_bit (bv_data (GetEdgeBV g v)) w" using bv_okD(2)[OF ok, of w] assms(3,4) by (simp add: div_less_iff_less_mult mult.commute)
  then show ?thesis using row_nth[OF assms(1,2,4)] by (simp add: bv_bit_def)
qed

section \<open>The iterator enumerates a row\<close>

text \<open>A cursor that still has to look at the bits of its word from \<open>lo\<close> on.\<close>

definition ei_at :: "bitmap_graph \<Rightarrow> nat \<Rightarrow> nat \<Rightarrow> edge_iter \<Rightarrow> bool" where
  "ei_at g lo b it \<longleftrightarrow> lo \<le> 64 \<and> ei_sourceNode it < bg_numNodes g \<and> ei_curDestNode it = b * 64 \<and> b * 64 < bg_numNodes g \<and>
     ei_curBvWordPtr it = ei_sourceNode it * bg_numWordsInEachBV g + b \<and>
     (\<forall>i<64. bit (ei_curBvWord it) i \<longleftrightarrow> lo \<le> i \<and> bit (bv_data (bg_bv g) ! ei_curBvWordPtr it) i)"

definition ei_ok :: "bitmap_graph \<Rightarrow> edge_iter \<Rightarrow> bool" where
  "ei_ok g it \<longleftrightarrow> ei_sourceNode it < bg_numNodes g \<and> (ei_curDestNode it < bg_numNodes g \<longrightarrow>
     ei_curDestNode it \<in> bv_set (GetEdgeBV g (ei_sourceNode it)) \<and>
     ei_at g (ei_curDestNode it mod 64 + 1) (ei_curDestNode it div 64) (it\<lparr>ei_curDestNode := ei_curDestNode it div 64 * 64\<rparr>))"

definition ei_rem :: "bitmap_graph \<Rightarrow> edge_iter \<Rightarrow> nat list" where
  "ei_rem g it = filter (\<lambda>w. w \<in> bv_set (GetEdgeBV g (ei_sourceNode it))) [ei_curDestNode it..<bg_numNodes g]"

lemma upt_split: "a \<le> b \<Longrightarrow> b \<le> c \<Longrightarrow> [a..<c] = [a..<b] @ [b..<(c::nat)]"
  using upt_add_eq_append[of a b "c - b"] by simp

lemma filter_skip: "a \<le> b \<Longrightarrow> (\<And>x. a \<le> x \<Longrightarrow> x < b \<Longrightarrow> x < c \<Longrightarrow> \<not> P x) \<Longrightarrow> filter P [a..<c] = filter P [b..<(c::nat)]"
proof (cases "b \<le> c")
  case True
  assume "a \<le> b" "\<And>x. a \<le> x \<Longrightarrow> x < b \<Longrightarrow> x < c \<Longrightarrow> \<not> P x"
  moreover from this have "filter P [a..<b] = []" using True by (auto simp: filter_empty_conv)
  ultimately show ?thesis using upt_split[of a b c] True by simp
next
  case False
  assume "\<And>x. a \<le> x \<Longrightarrow> x < b \<Longrightarrow> x < c \<Longrightarrow> \<not> P x"
  then have "filter P [a..<c] = []" using False by (auto simp: filter_empty_conv)
  then show ?thesis using False by simp
qed

lemma find_word:
  assumes g: "bg_ok g" and a: "ei_at g lo b it"
  shows "case ei_find_word g it of
      (it', True) \<Rightarrow> \<exists>lo' b'. ei_at g lo' b' it' \<and> ei_curBvWord it' \<noteq> 0 \<and> ei_sourceNode it' = ei_sourceNode it \<and> b * 64 + lo \<le> b' * 64 + lo' \<and>
        (\<forall>w<bg_numNodes g. b * 64 + lo \<le> w \<longrightarrow> w < b' * 64 + lo' \<longrightarrow> w \<notin> bv_set (GetEdgeBV g (ei_sourceNode it)))
    | (it', False) \<Rightarrow> ei_sourceNode it' = ei_sourceNode it \<and> bg_numNodes g \<le> ei_curDestNode it' \<and>
        (\<forall>w<bg_numNodes g. b * 64 + lo \<le> w \<longrightarrow> w \<notin> bv_set (GetEdgeBV g (ei_sourceNode it)))"
  using a
proof (induction "bg_numNodes g - ei_curDestNode it" arbitrary: it lo b rule: less_induct)
  case less
  show ?case
  proof (cases "ei_curBvWord it = 0")
    case False
    then have "ei_find_word g it = (it, True)" by (simp add: ei_find_word.simps[of g it])
    then show ?thesis using less(2) False by (simp, intro exI[of _ lo] exI[of _ b]) simp
  next
    case z: True
    let ?s = "ei_sourceNode it" and ?n = "bg_numNodes g" and ?W = "bg_numWordsInEachBV g"
    have lo: "lo \<le> 64" using less(2) by (simp add: ei_at_def)
    have at: "?s < ?n" "ei_curDestNode it = b * 64" "b * 64 < ?n" "ei_curBvWordPtr it = ?s * ?W + b"
      "\<And>i. i < 64 \<Longrightarrow> lo \<le> i \<Longrightarrow> \<not> bit (bv_data (bg_bv g) ! (?s * ?W + b)) i"
      using less(2) z by (auto simp: ei_at_def)
    have skip: "w \<notin> bv_set (GetEdgeBV g ?s)" if "w < ?n" "b * 64 + lo \<le> w" "w < (b + 1) * 64" for w
    proof -
      have "w div 64 = b" using that by (intro div_nat_eqI) auto
      moreover have "lo \<le> w mod 64" using that \<open>w div 64 = b\<close> by (metis add_le_cancel_left div_mult_mod_eq)
      ultimately show ?thesis using row_bit[OF g at(1) that(1)] at(5)[of "w mod 64"] by simp
    qed
    show ?thesis
    proof (cases "?n \<le> (b + 1) * 64")
      case True
      then have "ei_find_word g it = (it\<lparr>ei_curDestNode := (b + 1) * 64\<rparr>, False)"
        using z at(2) by (simp add: ei_find_word.simps[of g it] Let_def)
      then show ?thesis using True skip by auto
    next
      case False
      let ?it = "it\<lparr>ei_curDestNode := (b + 1) * 64, ei_curBvWordPtr := ei_curBvWordPtr it + 1, ei_curBvWord := bv_data (bg_bv g) ! (ei_curBvWordPtr it + 1)\<rparr>"
      have e: "ei_find_word g it = ei_find_word g ?it" using z False at(2) by (simp add: ei_find_word.simps[of g it] Let_def add.commute)
      have a': "ei_at g 0 (b + 1) ?it" using False at by (simp add: ei_at_def)
      have lt: "?n - ei_curDestNode ?it < ?n - ei_curDestNode it" using False at(2,3) by simp
      note IH = less(1)[OF lt a']
      show ?thesis
      proof (cases "ei_find_word g ?it")
        case (Pair it' f)
        show ?thesis
        proof (cases f)
          case True
          with IH Pair obtain lo' b' where i: "ei_at g lo' b' it'" "ei_curBvWord it' \<noteq> 0" "ei_sourceNode it' = ?s" "(b + 1) * 64 \<le> b' * 64 + lo'"
            "\<And>w. w < ?n \<Longrightarrow> (b + 1) * 64 \<le> w \<Longrightarrow> w < b' * 64 + lo' \<Longrightarrow> w \<notin> bv_set (GetEdgeBV g ?s)" by auto
          have "w \<notin> bv_set (GetEdgeBV g ?s)" if "w < ?n" "b * 64 + lo \<le> w" "w < b' * 64 + lo'" for w
            using skip[OF that(1,2)] i(5)[OF that(1) _ that(3)] by (cases "w < (b + 1) * 64") auto
          moreover have "b * 64 + lo \<le> b' * 64 + lo'" using i(4) lo by simp
          ultimately show ?thesis unfolding e Pair using i(1-3) \<open>f\<close> by auto
        next
          case False
          with IH Pair have i: "ei_sourceNode it' = ?s" "?n \<le> ei_curDestNode it'"
            "\<And>w. w < ?n \<Longrightarrow> (b + 1) * 64 \<le> w \<Longrightarrow> w \<notin> bv_set (GetEdgeBV g ?s)" by auto
          have "w \<notin> bv_set (GetEdgeBV g ?s)" if "w < ?n" "b * 64 + lo \<le> w" for w
            using skip[OF that] i(3)[OF that(1)] by (cases "w < (b + 1) * 64") auto
          then show ?thesis unfolding e Pair using i(1,2) False by auto
        qed
      qed
    qed
  qed
qed


lemma advance_from:
  assumes g: "bg_ok g" and a: "ei_at g lo b it"
  defines "nx \<equiv> filter (\<lambda>w. w \<in> bv_set (GetEdgeBV g (ei_sourceNode it))) [b * 64 + lo..<bg_numNodes g]"
  shows "case (case ei_find_word g it of (it', found) \<Rightarrow> if \<not> found then (it', False)
         else let ctz = the (CountTrailingZeros (ei_curBvWord it'))
              in (it'\<lparr>ei_curBvWord := ei_curBvWord it' XOR push_bit ctz 1, ei_curDestNode := ei_curDestNode it' + ctz\<rparr>, True)) of
    (it', found) \<Rightarrow> ei_ok g it' \<and> ei_sourceNode it' = ei_sourceNode it \<and> ei_rem g it' = nx \<and> found = (nx \<noteq> [])"
proof -
  let ?s = "ei_sourceNode it" and ?n = "bg_numNodes g" and ?W = "bg_numWordsInEachBV g"
  let ?P = "\<lambda>w. w \<in> bv_set (GetEdgeBV g ?s)"
  have s: "?s < ?n" using a by (simp add: ei_at_def)
  obtain it' f where F: "ei_find_word g it = (it', f)" by (cases "ei_find_word g it")
  show ?thesis
  proof (cases f)
    case False
    then have i: "ei_sourceNode it' = ?s" "?n \<le> ei_curDestNode it'" "\<forall>w<?n. b * 64 + lo \<le> w \<longrightarrow> \<not> ?P w" using find_word[OF g a] F by auto
    then have "nx = []" by (auto simp: nx_def filter_empty_conv)
    then show ?thesis using i s False unfolding F by (simp add: ei_ok_def ei_rem_def)
  next
    case True
    with find_word[OF g a] F obtain lo' b' where i: "ei_at g lo' b' it'" "ei_curBvWord it' \<noteq> 0" "ei_sourceNode it' = ?s" "b * 64 + lo \<le> b' * 64 + lo'"
      "\<And>w. w < ?n \<Longrightarrow> b * 64 + lo \<le> w \<Longrightarrow> w < b' * 64 + lo' \<Longrightarrow> \<not> ?P w" by auto
    obtain c where c0: "CountTrailingZeros (ei_curBvWord it') = Some c" "bit (ei_curBvWord it') c" "c < LENGTH(64)" "\<And>j. j < c \<Longrightarrow> \<not> bit (ei_curBvWord it') j"
      using CountTrailingZeros_Some[OF i(2)] by blast
    then have c: "CountTrailingZeros (ei_curBvWord it') = Some c" "bit (ei_curBvWord it') c" "c < 64" "\<And>j. j < c \<Longrightarrow> \<not> bit (ei_curBvWord it') j" by simp_all
    have at: "ei_curDestNode it' = b' * 64" "b' * 64 < ?n" "ei_curBvWordPtr it' = ?s * ?W + b'"
      "\<And>j. j < 64 \<Longrightarrow> bit (ei_curBvWord it') j \<longleftrightarrow> lo' \<le> j \<and> bit (bv_data (bg_bv g) ! (?s * ?W + b')) j"
      using i(1,3) by (auto simp: ei_at_def)
    have lc: "lo' \<le> c" "bit (bv_data (bg_bv g) ! (?s * ?W + b')) c" using at(4)[OF c(3)] c(2) by auto
    let ?d = "b' * 64 + c"
    have dm: "?d div 64 = b'" "?d mod 64 = c" using c(3) by simp_all
    have bW: "b' < ?W" using at(2) alloc_bounds(1)[of ?n] g by (simp add: bg_ok_def)
    have dn: "?d < ?n"
    proof (rule ccontr)
      assume "\<not> ?d < ?n"
      then show False using row_clear[OF g s, of ?d] dm bW lc(2) by simp
    qed
    have pd: "?P ?d" using row_bit[OF g s dn] dm lc(2) by simp
    have sk: "\<not> ?P w" if "w < ?n" "b * 64 + lo \<le> w" "w < ?d" for w
    proof (cases "w < b' * 64 + lo'")
      case False
      then have "w div 64 = b'" using that c(3) by (intro div_nat_eqI) auto
      moreover from this have m: "lo' \<le> w mod 64" "w mod 64 < c" using that(3) False div_mult_mod_eq[of w 64] by linarith+
      ultimately show ?thesis using row_bit[OF g s that(1)] at(4)[of "w mod 64"] c(4)[OF m(2)] c(3) by auto
    qed (use i(5) that in blast)
    have nx: "nx = filter ?P [?d..<?n]" unfolding nx_def using sk i(4) lc(1) by (intro filter_skip) auto
    let ?it = "it'\<lparr>ei_curBvWord := ei_curBvWord it' XOR push_bit c 1, ei_curDestNode := ei_curDestNode it' + c\<rparr>"
    have "bit (ei_curBvWord it' XOR push_bit c 1) j \<longleftrightarrow> c + 1 \<le> j \<and> bit (bv_data (bg_bv g) ! (?s * ?W + b')) j" if j: "j < 64" for j
      using bit_single[of j c, where 'a = 64] at(4)[OF j] c(2,4) lc(1) j by (cases j c rule: linorder_cases) (auto simp: bit_xor_iff simp del: push_bit_of_1)
    then have "ei_ok g ?it" using s pd dm at c(3) i(3) by (simp add: ei_ok_def ei_at_def)
    moreover have "ei_rem g ?it = nx" using i(3) at(1) nx by (simp add: ei_rem_def)
    moreover have "nx \<noteq> []" using nx dn pd by (auto simp: filter_empty_conv)
    ultimately show ?thesis using True i(3) unfolding F by (simp add: c(1) Let_def)
  qed
qed

lemma ei_Advance_next:
  assumes g: "bg_ok g" and ok: "ei_ok g it" and r: "ei_rem g it = x # xs"
  shows "ei_ok g (fst (ei_Advance g it))" "snd (ei_Advance g it) = (xs \<noteq> [])" "ei_rem g (fst (ei_Advance g it)) = xs"
    "ei_sourceNode (fst (ei_Advance g it)) = ei_sourceNode it" "ei_curDestNode it = x"
proof -
  let ?d = "ei_curDestNode it" and ?n = "bg_numNodes g" and ?P = "\<lambda>w. w \<in> bv_set (GetEdgeBV g (ei_sourceNode it))"
  let ?it = "it\<lparr>ei_curDestNode := ?d div 64 * 64\<rparr>"
  have d: "?d < ?n" using r by (cases "?d < ?n") (auto simp: ei_rem_def)
  then have a: "?P ?d" "ei_at g (?d mod 64 + 1) (?d div 64) ?it" using ok by (auto simp: ei_ok_def)
  have "ei_rem g it = ?d # filter ?P [Suc ?d..<?n]" using a(1) upt_conv_Cons[OF d] by (simp add: ei_rem_def)
  then show x: "?d = x" using r by simp
  have xs: "xs = filter ?P [Suc ?d..<?n]" using r \<open>ei_rem g it = ?d # filter ?P [Suc ?d..<?n]\<close> by (metis list.inject)
  have e: "?d div 64 * 64 + (?d mod 64 + 1) = Suc ?d" by simp
  from advance_from[OF g a(2), unfolded e]
  show "ei_ok g (fst (ei_Advance g it))" "snd (ei_Advance g it) = (xs \<noteq> [])" "ei_rem g (fst (ei_Advance g it)) = xs"
    "ei_sourceNode (fst (ei_Advance g it)) = ei_sourceNode it"
    using xs by (auto simp: ei_Advance_def Let_def split: prod.splits)
qed

lemma EdgeIter_all:
  assumes g: "bg_ok g" and v: "v < bg_numNodes g"
  shows "ei_ok g (EdgeIter g v)" "ei_rem g (EdgeIter g v) = succs g v" "ei_sourceNode (EdgeIter g v) = v"
proof -
  let ?p = "v * bg_numWordsInEachBV g"
  let ?it = "\<lparr>ei_sourceNode = v, ei_curDestNode = 0, ei_curBvWord = bv_data (bg_bv g) ! ?p, ei_curBvWordPtr = ?p\<rparr>"
  have "ei_at g 0 0 ?it" using v by (simp add: ei_at_def)
  note A = advance_from[OF g this]
  show "ei_ok g (EdgeIter g v)" "ei_rem g (EdgeIter g v) = succs g v" "ei_sourceNode (EdgeIter g v) = v"
    using A by (auto simp: EdgeIter_def ei_Advance_def succs_def Let_def split: prod.splits)
qed

lemma ei_IsValid_iff: "ei_ok g it \<Longrightarrow> ei_IsValid g it \<longleftrightarrow> ei_rem g it \<noteq> []"
  by (auto simp: ei_IsValid_def ei_ok_def ei_rem_def filter_empty_conv)

text \<open>The nodes of a well-formed graph; there are none otherwise.\<close>

definition bg_nodes :: "bitmap_graph \<Rightarrow> nat" where
  "bg_nodes g = (if bg_ok g then bg_numNodes g else 0)"

interpretation bg: edge_iterator "bg_edge_ops g" "bg_nodes g" "succs g" "ei_rem g" "\<lambda>it. bg_ok g \<and> ei_ok g it" for g
proof
  fix v assume "v < bg_nodes g"
  then have v: "bg_ok g" "v < bg_numNodes g" by (auto simp: bg_nodes_def split: if_splits)
  show "(bg_ok g \<and> ei_ok g (eo_Construct (bg_edge_ops g) v)) \<and>
      eo_GetSourceNode (bg_edge_ops g) (eo_Construct (bg_edge_ops g) v) = v \<and> ei_rem g (eo_Construct (bg_edge_ops g) v) = succs g v"
    using EdgeIter_all[OF v] v(1) by (simp add: bg_edge_ops_def)
  show "set (succs g v) \<subseteq> {..<bg_nodes g}" using v by (auto simp: succs_def bg_nodes_def)
next
  fix it assume "bg_ok g \<and> ei_ok g it"
  then show "eo_IsValid (bg_edge_ops g) it \<longleftrightarrow> ei_rem g it \<noteq> []" using ei_IsValid_iff by (simp add: bg_edge_ops_def)
next
  fix it x xs assume "bg_ok g \<and> ei_ok g it" "ei_rem g it = x # xs"
  then show "eo_GetDestNode (bg_edge_ops g) it = x"
    "(bg_ok g \<and> ei_ok g (fst (eo_Advance (bg_edge_ops g) it))) \<and> snd (eo_Advance (bg_edge_ops g) it) = (xs \<noteq> []) \<and>
     ei_rem g (fst (eo_Advance (bg_edge_ops g) it)) = xs \<and>
     eo_GetSourceNode (bg_edge_ops g) (fst (eo_Advance (bg_edge_ops g) it)) = eo_GetSourceNode (bg_edge_ops g) it"
    using ei_Advance_next[of g it x xs] by (simp_all add: bg_edge_ops_def)
qed

section \<open>Building a graph\<close>

lemma slice_append: "p + w \<le> length xs \<Longrightarrow> take w (drop p (xs @ ys)) = take w (drop p xs)"
  by simp

lemma slice_take: "p + w \<le> q \<Longrightarrow> take w (drop p (take q xs)) = take w (drop p xs)"
  by (simp add: drop_take min_def)

lemma bg_AllocateMemory_ok:
  assumes "length fresh = n * bv_alloc n"
  shows "bg_ok (bg_AllocateMemory n fresh True)" "bg_numNodes (bg_AllocateMemory n fresh True) = n"
    "v < n \<Longrightarrow> bv_set (GetEdgeBV (bg_AllocateMemory n fresh True) v) = {}"
proof -
  let ?g = "bg_AllocateMemory n fresh True" and ?W = "bv_alloc n"
  have al: "bv_alloc (?W * n * 64) = n * ?W" by (simp add: bv_alloc_def mult.commute)
  have W: "bg_numWordsInEachBV ?g = ?W" by (simp add: bg_AllocateMemory_def bv_alloc_def Let_def)
  have d: "bv_data (bg_bv ?g) = replicate (n * ?W) 0"
    using assms al by (simp add: bg_AllocateMemory_def bv_Reset_def bv_Clear_def bv_GetAllocLength_def Let_def bv_alloc_def[of n, symmetric])
  show n: "bg_numNodes ?g = n" by (simp add: bg_AllocateMemory_def Let_def)
  have row: "GetEdgeBV ?g v = \<lparr>bv_data = replicate ?W 0, bv_length = n\<rparr>" if "v < n" for v
  proof -
    have "Suc v * ?W \<le> n * ?W" using that by (intro mult_le_mono1) simp
    then have "n * ?W - v * ?W \<ge> ?W" by simp
    then show ?thesis by (simp add: GetEdgeBV_def W d n min_def)
  qed
  have row_reset: "GetEdgeBV ?g v = bv_Reset n (replicate ?W 0)" if "v < n" for v
    unfolding row[OF that] by (simp add: bv_Reset_def bv_Clear_def bv_GetAllocLength_def)
  note R = Reset_ok[of "replicate ?W 0" n]
  show "bg_ok ?g" unfolding bg_ok_def n W d using row_reset R(1) by simp
  show "bv_set (GetEdgeBV ?g v) = {}" if "v < n" using row_reset[OF that] R(2) by simp
qed

text \<open>Setting a bit through the view of a row adds one edge and leaves the other rows.\<close>

lemma on_EdgeBV_SetBit:
  assumes g: "bg_ok g" and v: "v < bg_numNodes g" and w: "w < bg_numNodes g"
  defines "g' \<equiv> on_EdgeBV g v (\<lambda>bv. bv_SetBit bv w)"
  shows "bg_ok g'" "bg_numNodes g' = bg_numNodes g"
    "u < bg_numNodes g \<Longrightarrow> bv_set (GetEdgeBV g' u) = (if u = v then insert w (bv_set (GetEdgeBV g v)) else bv_set (GetEdgeBV g u))"
proof -
  let ?n = "bg_numNodes g" and ?W = "bg_numWordsInEachBV g" and ?r = "GetEdgeBV g v"
  let ?A = "take (v * ?W) (bv_data (bg_bv g))" and ?C = "drop (v * ?W + ?W) (bv_data (bg_bv g))"
  have ok: "bv_ok ?r" "bv_length ?r = ?n" using g v by (auto simp: bg_ok_def GetEdgeBV_def)
  note S = SetBit_ok[OF ok(1) w[folded ok(2)]]
  have WA: "?W = bv_alloc ?n" and L: "length (bv_data (bg_bv g)) = ?n * ?W" using g by (simp_all add: bg_ok_def)
  have row_end: "u * ?W + ?W \<le> ?n * ?W" if "u < ?n" for u
  proof -
    have "Suc u * ?W \<le> ?n * ?W" using that by (intro mult_le_mono1) simp
    then show ?thesis by simp
  qed
  have len: "length (bv_data (bv_SetBit ?r w)) = ?W" using bv_okD(1)[OF ok(1)] ok(2) WA by (simp add: bv_SetBit_def bv_GetAllocLength_def)
  have lA: "length ?A = v * ?W" using row_end[OF v] L by simp
  have d: "bv_data (bg_bv g') = ?A @ bv_data (bv_SetBit ?r w) @ ?C" by (simp add: g'_def on_EdgeBV_def Let_def)
  have n': "bg_numNodes g' = ?n" "bg_numWordsInEachBV g' = ?W" by (simp_all add: g'_def on_EdgeBV_def Let_def)
  have L': "length (bv_data (bg_bv g')) = ?n * ?W" unfolding d using lA len L row_end[OF v] by simp
  have row: "GetEdgeBV g' u = (if u = v then bv_SetBit ?r w else GetEdgeBV g u)" if u: "u < ?n" for u
  proof (cases u v rule: linorder_cases)
    case equal
    then have "GetEdgeBV g' u = \<lparr>bv_data = bv_data (bv_SetBit ?r w), bv_length = ?n\<rparr>"
      using lA len by (simp add: GetEdgeBV_def[of g'] n' d)
    then show ?thesis using equal S(3) ok(2) by simp
  next
    case less
    then have "Suc u * ?W \<le> v * ?W" by (intro mult_le_mono1) simp
    then have "u * ?W + ?W \<le> v * ?W" by simp
    then have "take ?W (drop (u * ?W) (bv_data (bg_bv g'))) = take ?W (drop (u * ?W) (bv_data (bg_bv g)))"
      unfolding d using slice_append[of "u * ?W" ?W ?A] slice_take[of "u * ?W" ?W "v * ?W"] lA by simp
    then show ?thesis using less by (simp add: GetEdgeBV_def n')
  next
    case greater
    then have "Suc v * ?W \<le> u * ?W" by (intro mult_le_mono1) simp
    then have le: "v * ?W + ?W \<le> u * ?W" by simp
    then have "drop (u * ?W) (bv_data (bg_bv g')) = drop (u * ?W) (bv_data (bg_bv g))"
      unfolding d using lA len greater by simp
    then show ?thesis using greater by (simp add: GetEdgeBV_def n')
  qed
  show "bg_numNodes g' = ?n" by (rule n')
  have "bv_ok (GetEdgeBV g' u)" if "u < ?n" for u using row[OF that] S(1) g that by (simp add: bg_ok_def)
  then show "bg_ok g'" unfolding bg_ok_def n' L' WA by simp
  show "bv_set (GetEdgeBV g' u) = (if u = v then insert w (bv_set ?r) else bv_set (GetEdgeBV g u))" if "u < ?n"
    using row[OF that] S(2) by simp
qed

lemma row_IsSet: "bg_ok g \<Longrightarrow> v < bg_numNodes g \<Longrightarrow> w < bg_numNodes g \<Longrightarrow> bv_IsSet (GetEdgeBV g v) w \<longleftrightarrow> w \<in> bv_set (GetEdgeBV g v)"
  by (simp add: IsSet_iff bv_set_def GetEdgeBV_def)

lemma row_ForEachSetBit: "bg_ok g \<Longrightarrow> v < bg_numNodes g \<Longrightarrow> bv_ForEachSetBit (GetEdgeBV g v) = succs g v"
proof -
  assume "bg_ok g" "v < bg_numNodes g"
  then have "bv_ok (GetEdgeBV g v)" by (simp add: bg_ok_def)
  moreover have "bv_length (GetEdgeBV g v) = bg_numNodes g" by (simp add: GetEdgeBV_def)
  ultimately show ?thesis using ForEachSetBit_eq[of "GetEdgeBV g v"] by (simp add: succs_def)
qed

text \<open>
  C18. \<^bold>\<open>Strongly connected components.\<close> On a well-formed graph with a node, the finder returns; the component numbers it stores are
  those below the returned count, two nodes have the same number iff each reaches the other, and numbers never ascend along an edge.
\<close>

theorem ComputeSCC_correct:
  assumes "bg_ok g" "0 < bg_numNodes g"
  shows "\<exists>numSCCs result. ComputeSCC g = Some (numSCCs, result) \<and> scc_numbering (bg_numNodes g) (succs g) numSCCs result"
  using bg.ComputeForGenericGraph_correct[of g] assms by (simp add: ComputeSCC_def bg_nodes_def)

text \<open>A graph of three nodes with the edges \<open>0 \<rightarrow> 1\<close>, \<open>1 \<rightarrow> 0\<close> and \<open>1 \<rightarrow> 2\<close>.\<close>

definition sample_graph :: bitmap_graph where
  "sample_graph = fold (\<lambda>(u, v) g. on_EdgeBV g u (\<lambda>bv. bv_SetBit bv v)) [(0, 1), (1, 0), (1, 2)] (bg_AllocateMemory 3 [7, 7, 7] True)"

lemma sample_graph_ok: "bg_ok sample_graph" "bg_numNodes sample_graph = 3"
proof -
  let ?g0 = "bg_AllocateMemory 3 [7, 7, 7] True"
  let ?e = "\<lambda>u v g. on_EdgeBV g u (\<lambda>bv. bv_SetBit bv v)"
  have 0: "bg_ok ?g0" "bg_numNodes ?g0 = 3" using bg_AllocateMemory_ok[of "[7, 7, 7]" 3] by (simp_all add: bv_alloc_def)
  have 1: "bg_ok (?e 0 1 ?g0)" "bg_numNodes (?e 0 1 ?g0) = 3" using on_EdgeBV_SetBit[OF 0(1), of 0 1] 0(2) by simp_all
  have 2: "bg_ok (?e 1 0 (?e 0 1 ?g0))" "bg_numNodes (?e 1 0 (?e 0 1 ?g0)) = 3" using on_EdgeBV_SetBit[OF 1(1), of 1 0] 1(2) by simp_all
  show "bg_ok sample_graph" "bg_numNodes sample_graph = 3" using on_EdgeBV_SetBit[OF 2(1), of 1 2] 2(2) by (simp_all add: sample_graph_def)
qed

theorem ComputeSCC_correct_witness:
  "bg_ok sample_graph \<and> bg_numNodes sample_graph = 3 \<and>
   (\<exists>numSCCs result. ComputeSCC sample_graph = Some (numSCCs, result) \<and> scc_numbering 3 (succs sample_graph) numSCCs result)"
  using ComputeSCC_correct[of sample_graph] sample_graph_ok by simp

text \<open>The states that a search passes through, for any sequence of entry nodes that are not visited yet.\<close>

inductive sf_reach :: "'it edge_ops \<Rightarrow> nat \<Rightarrow> scc_label option \<Rightarrow> 'it scc_finder \<Rightarrow> bool" for ops numNodes where
  sf_reach_new: "sf_reach ops numNodes None (sf_new numNodes)"
| sf_reach_entry: "sf_reach ops numNodes None s \<Longrightarrow> entryNode < numNodes \<Longrightarrow> sf_rindexComposite s ! entryNode = 0 \<Longrightarrow>
    sf_reach ops numNodes (Some (visit_new_node entryNode)) s"
| sf_reach_step: "sf_reach ops numNodes (Some l) s \<Longrightarrow> sf_step ops l s = Some (l', s') \<Longrightarrow> sf_reach ops numNodes l' s'"

context edge_iterator
begin

lemma reach_inv:
  assumes "sf_reach ops n l s" "0 < n"
  shows "case l of None \<Rightarrow> idle s | Some l \<Rightarrow> \<exists>idx. at_label l idx s"
  using assms(1)
proof induction
  case sf_reach_new
  then show ?case using idle_new[OF assms(2)] by simp
next
  case (sf_reach_entry s e)
  then show ?case by (auto simp: idle_def at_label_def)
next
  case (sf_reach_step l s l' s')
  then obtain idx where "at_label l idx s" by auto
  from step_progress[OF this] obtain s1 l1 idx' where "sf_step ops l s = Some (l1, s1)"
    "case l1 of None \<Rightarrow> inv None idx' s1 \<and> sf_vf s1 = [] \<and> sf_vb s1 = [] | Some l'' \<Rightarrow> at_label l'' idx' s1" by metis
  then show ?case using sf_reach_step(2) by (auto simp: idle_def split: option.splits)
qed

text \<open>The two stacks never meet, and every number stays below four times the number of nodes.\<close>

lemma inv_bounds:
  assumes I: "inv p idx s"
  shows "length (sf_vf s) + length (sf_vb s) \<le> n" "sf_index s \<le> 2 * n + 2" "2 * n \<le> sf_componentIndex s + 1" "sf_componentIndex s < 4 * n"
    "v < n \<Longrightarrow> R s v < 4 * n"
proof -
  note S = stacksD[OF invD(1)[OF I]]
  have "set (srcs s @ sf_vb s) \<subseteq> {..<n}" using S(4) by (auto simp: act_def)
  then have "length (srcs s @ sf_vb s) \<le> n" using distinct_card[OF S(3)] card_mono[of "{..<n}" "set (srcs s @ sf_vb s)"] by simp
  then show "length (sf_vf s) + length (sf_vb s) \<le> n" by simp
  have "card (seen s) \<le> n" using card_mono[of "{..<n}" "seen s"] by (auto simp: seen_def)
  moreover have "sf_index s = 2 + 2 * card (seen s)" using invD(1)[OF I] by (simp add: stacks_def)
  ultimately show "sf_index s \<le> 2 * n + 2" by simp
  obtain k where k: "sf_componentIndex s + 2 * k + 1 = 4 * n" "R s ` fin s = (\<lambda>j. 4 * n - 1 - 2 * j) ` {..<k}" "k \<le> card (fin s)"
    using compsD(3)[OF invD(6)[OF I]] by (elim exE conjE)
  have "card (fin s) \<le> n" using card_mono[of "{..<n}" "fin s"] by (auto simp: fin_def)
  then show "2 * n \<le> sf_componentIndex s + 1" "sf_componentIndex s < 4 * n" using k(1,3) by simp_all
  show "R s v < 4 * n" if v: "v < n"
  proof (cases "v \<in> fin s")
    case True
    then have "R s v \<in> (\<lambda>j. 4 * n - 1 - 2 * j) ` {..<k}" using k(2) by blast
    then show ?thesis using v by auto
  next
    case False
    then show ?thesis using v by (simp add: fin_def)
  qed
qed

lemma reach_bounds:
  assumes "sf_reach ops n l s" "0 < n"
  shows "length (sf_vf s) + length (sf_vb s) \<le> n \<and> sf_index s \<le> 2 * n + 2 \<and> 2 * n \<le> sf_componentIndex s + 1 \<and> sf_componentIndex s < 4 * n \<and>
    (\<forall>v<n. R s v < 4 * n)"
proof -
  obtain p idx where "inv p idx s" using reach_inv[OF assms]
    by (cases l; cases "the l") (auto simp: idle_def at_label_def)
  from inv_bounds[OF this] show ?thesis by blast
qed

end

text \<open>
  C22. \<^bold>\<open>The finder stays within its buffers.\<close> In every state of a search over a graph of at most \<open>2^30 - 1\<close> nodes, the stack of iterators
  and the stack of waiting nodes, which grow towards each other in one buffer, hold at most as many entries as there are nodes, and
  none of the 32-bit counters and indices wraps around.
\<close>

theorem finder_within_bounds:
  assumes "bg_ok g" "0 < bg_numNodes g" "bg_numNodes g < 2 ^ 30" "sf_reach (bg_edge_ops g) (bg_numNodes g) l s"
  shows "length (sf_vf s) + length (sf_vb s) \<le> bg_numNodes g \<and> sf_index s < 2 ^ 32 \<and> 0 < sf_componentIndex s \<and> sf_componentIndex s < 2 ^ 32 \<and>
    (\<forall>v<bg_numNodes g. sf_rindexComposite s ! v < 2 ^ 32)"
proof -
  let ?n = "bg_numNodes g"
  have n: "bg_nodes g = ?n" using assms(1) by (simp add: bg_nodes_def)
  have B: "length (sf_vf s) + length (sf_vb s) \<le> ?n" "sf_index s \<le> 2 * ?n + 2" "2 * ?n \<le> sf_componentIndex s + 1" "sf_componentIndex s < 4 * ?n"
    "\<And>v. v < ?n \<Longrightarrow> sf_rindexComposite s ! v < 4 * ?n"
    using bg.reach_bounds[of g l s] assms(2,4) unfolding n by blast+
  have "sf_rindexComposite s ! v < 2 ^ 32" if "v < ?n" for v using B(5)[OF that] assms(3) by simp
  moreover have "0 < sf_componentIndex s" using B(3) assms(2) by linarith
  ultimately show ?thesis using B(1,2,4) assms(3) by simp
qed

theorem finder_within_bounds_witness:
  "sf_reach (bg_edge_ops sample_graph) 3 (Some (visit_new_node 2)) (sf_new 3) \<and>
   length (sf_vf (sf_new 3 :: edge_iter scc_finder)) + length (sf_vb (sf_new 3 :: edge_iter scc_finder)) \<le> 3 \<and>
   sf_componentIndex (sf_new 3 :: edge_iter scc_finder) < 2 ^ 32"
proof -
  have r: "sf_reach (bg_edge_ops sample_graph) 3 (Some (visit_new_node 2)) (sf_new 3)"
    by (rule sf_reach_entry[OF sf_reach_new]) (simp_all add: sf_new_def eval_nat_numeral)
  then show ?thesis using finder_within_bounds[of sample_graph "Some (visit_new_node 2)" "sf_new 3"] sample_graph_ok by simp
qed

end
