(* ===== verification/TopoSort.thy ===== *)
theory TopoSort
  imports AdjGraph
begin

text \<open>
  \<^verbatim>\<open>TopologicallySortedCondensationGraphBuilder\<close> of \<^verbatim>\<open>drt/topologically_sorted_scc_util.h\<close>: grouping the nodes by component with a
  counting sort, the condensation (a bitmap graph for at most 256 components, in-degrees with multiplicity otherwise), and the
  removal of sources in turn.
\<close>

unbundle bit_operations_syntax

section \<open>Edges of the graph\<close>

text \<open>The loop over the edges of a node: the destinations in the order of the iterator.\<close>

partial_function (option) iter_rest :: "'it edge_ops \<Rightarrow> 'it \<Rightarrow> nat list option" where
  "iter_rest ops it =
     (let d = eo_GetDestNode ops it; (it', more) = eo_Advance ops it
      in if more then Option.bind (iter_rest ops it') (\<lambda>ds. Some (d # ds)) else Some [d])"

definition iter_dests :: "'it edge_ops \<Rightarrow> nat \<Rightarrow> nat list option" where
  "iter_dests ops nodeOrd = (let it = eo_Construct ops nodeOrd in if eo_IsValid ops it then iter_rest ops it else Some [])"

section \<open>Operations\<close>

record SccInfo =
  si_offset :: nat
  si_size :: nat

record TopologicallySortedSccInfo =
  ts_numSCCs :: nat
  ts_numNodes :: nat
  ts_sccList :: "SccInfo list"
  ts_nodeList :: "nat list"

definition scc_sizes :: "nat list \<Rightarrow> nat \<Rightarrow> nat \<Rightarrow> nat list" where
  "scc_sizes sccInfo numNodes numSCCs = fold (\<lambda>i m. m[sccInfo ! i := m ! (sccInfo ! i) + 1]) [0..<numNodes] (replicate numSCCs 0)"

fun scc_offsets :: "nat \<Rightarrow> nat list \<Rightarrow> nat list" where
  "scc_offsets off [] = []"
| "scc_offsets off (s # sizes) = off # scc_offsets (off + s) sizes"

definition scc_fill :: "nat list \<Rightarrow> nat \<Rightarrow> nat list \<Rightarrow> nat list \<times> nat list" where
  "scc_fill sccInfo numNodes offsets =
     fold (\<lambda>i (off, sccList). let idx = sccInfo ! i in (off[idx := off ! idx + 1], sccList[off ! idx := i])) [0..<numNodes]
       (offsets, replicate numNodes 0)"

definition scc_map :: "nat list \<Rightarrow> nat \<Rightarrow> nat \<Rightarrow> SccInfo list \<times> nat list" where
  "scc_map sccInfo numNodes numSCCs =
     (let sizes = scc_sizes sccInfo numNodes numSCCs;
          (off, sccList) = scc_fill sccInfo numNodes (scc_offsets 0 sizes)
      in (map (\<lambda>(o', s). \<lparr>si_offset = o' - s, si_size = s\<rparr>) (zip off sizes), sccList))"

definition scc_segment :: "SccInfo list \<Rightarrow> nat list \<Rightarrow> nat \<Rightarrow> nat list" where
  "scc_segment sccMap sccList sccOrd = take (si_size (sccMap ! sccOrd)) (drop (si_offset (sccMap ! sccOrd)) sccList)"

text \<open>The condensation: an edge between different components counts once with the bitmap and as often as it occurs without.\<close>

definition cdg_add :: "bool \<Rightarrow> nat list \<Rightarrow> nat \<Rightarrow> nat \<Rightarrow> bitmap_graph \<times> nat list \<Rightarrow> bitmap_graph \<times> nat list" where
  "cdg_add useBitMap sccInfo cdgSrcOrd dstNodeOrd s =
     (let (cdg, inDeg) = s; cdgDstOrd = sccInfo ! dstNodeOrd in
      if cdgSrcOrd \<noteq> cdgDstOrd then
        if useBitMap then
          if \<not> bv_IsSet (GetEdgeBV cdg cdgSrcOrd) cdgDstOrd
          then (on_EdgeBV cdg cdgSrcOrd (\<lambda>bv. bv_SetBit bv cdgDstOrd), inDeg[cdgDstOrd := inDeg ! cdgDstOrd + 1])
          else (cdg, inDeg)
        else (cdg, inDeg[cdgDstOrd := inDeg ! cdgDstOrd + 1])
      else (cdg, inDeg))"

definition cdg_build :: "bool \<Rightarrow> 'it edge_ops \<Rightarrow> nat list \<Rightarrow> nat \<Rightarrow> nat \<Rightarrow> (bitmap_graph \<times> nat list) option" where
  "cdg_build useBitMap ops sccInfo numNodes numSCCs =
     fold_opt (\<lambda>nodeOrd s. map_option (\<lambda>ds. fold (cdg_add useBitMap sccInfo (sccInfo ! nodeOrd)) ds s) (iter_dests ops nodeOrd))
       [0..<numNodes] (bg_AllocateMemory numSCCs (replicate (bv_alloc numSCCs * numSCCs) 0) True, replicate numSCCs 0)"

definition kahn_drop :: "nat \<Rightarrow> nat list \<times> nat list \<Rightarrow> nat list \<times> nat list" where
  "kahn_drop dst s =
     (let (inDeg, workList) = s; inDeg = inDeg[dst := inDeg ! dst - 1]
      in (inDeg, if inDeg ! dst = 0 then dst # workList else workList))"

definition cdg_dests :: "bool \<Rightarrow> 'it edge_ops \<Rightarrow> nat list \<Rightarrow> bitmap_graph \<Rightarrow> SccInfo list \<Rightarrow> nat list \<Rightarrow> nat \<Rightarrow> nat list option" where
  "cdg_dests useBitMap ops sccInfo cdg sccMap sccList sccOrd =
     (if useBitMap then Some (bv_ForEachSetBit (GetEdgeBV cdg sccOrd))
      else fold_opt (\<lambda>nodeOrd acc. map_option (\<lambda>ds. acc @ filter (\<lambda>d. sccOrd \<noteq> d) (map ((!) sccInfo) ds)) (iter_dests ops nodeOrd))
             (scc_segment sccMap sccList sccOrd) [])"

text \<open>The work list is a stack, its top first; the order of the components comes out reversed.\<close>

partial_function (option) kahn :: "(nat \<Rightarrow> nat list option) \<Rightarrow> nat list \<Rightarrow> nat list \<Rightarrow> nat list \<Rightarrow> nat list option" where
  "kahn dests inDeg workList sccOrder =
     (case workList of [] \<Rightarrow> Some (rev sccOrder)
      | sccOrd # workList \<Rightarrow> Option.bind (dests sccOrd) (\<lambda>ds.
          let (inDeg, workList) = fold kahn_drop ds (inDeg, workList)
          in kahn dests inDeg workList (sccOrd # sccOrder)))"

definition ts_assemble :: "nat \<Rightarrow> nat \<Rightarrow> SccInfo list \<Rightarrow> nat list \<Rightarrow> nat list \<Rightarrow> TopologicallySortedSccInfo" where
  "ts_assemble numNodes numSCCs sccMap sccList sccOrder =
     (let sizes = map (\<lambda>c. si_size (sccMap ! c)) sccOrder
      in \<lparr>ts_numSCCs = numSCCs, ts_numNodes = numNodes,
          ts_sccList = map (\<lambda>(o', s). \<lparr>si_offset = o', si_size = s\<rparr>) (zip (scc_offsets 0 sizes) sizes),
          ts_nodeList = concat (map (scc_segment sccMap sccList) sccOrder)\<rparr>)"

definition ts_ComputeImpl :: "bool \<Rightarrow> 'it edge_ops \<Rightarrow> nat \<Rightarrow> nat \<Rightarrow> nat list \<Rightarrow> TopologicallySortedSccInfo option" where
  "ts_ComputeImpl useBitMap ops numNodes numSCCs sccInfo =
     (if numSCCs = 0 then Some \<lparr>ts_numSCCs = numSCCs, ts_numNodes = numNodes, ts_sccList = [], ts_nodeList = []\<rparr>
      else let (sccMap, sccList) = scc_map sccInfo numNodes numSCCs in
        Option.bind (cdg_build useBitMap ops sccInfo numNodes numSCCs) (\<lambda>(cdg, inDeg).
          let workList = rev (filter (\<lambda>c. inDeg ! c = 0) [0..<numSCCs])
          in map_option (ts_assemble numNodes numSCCs sccMap sccList)
               (kahn (cdg_dests useBitMap ops sccInfo cdg sccMap sccList) inDeg workList [])))"

definition ts_Compute :: "'it edge_ops \<Rightarrow> nat \<Rightarrow> nat \<Rightarrow> nat list \<Rightarrow> bool \<Rightarrow> TopologicallySortedSccInfo option" where
  "ts_Compute ops numNodes numSCCs sccInfo neverUseBitmap =
     (if numSCCs \<le> 256 \<and> \<not> neverUseBitmap then ts_ComputeImpl True ops numNodes numSCCs sccInfo
      else ts_ComputeImpl False ops numNodes numSCCs sccInfo)"

section \<open>Grouping the nodes\<close>

abbreviation members :: "nat list \<Rightarrow> nat \<Rightarrow> nat \<Rightarrow> nat list" where
  "members f m c \<equiv> filter (\<lambda>i. f ! i = c) [0..<m]"

lemma scc_sizes_nth:
  assumes "\<forall>i<m. f ! i < k"
  shows "length (scc_sizes f m k) = k" "c < k \<Longrightarrow> scc_sizes f m k ! c = length (members f m c)"
proof -
  have "length (scc_sizes f m k) = k \<and> (\<forall>c<k. scc_sizes f m k ! c = length (members f m c))" using assms
  proof (induction m)
    case (Suc m)
    then have IH: "length (scc_sizes f m k) = k" "\<forall>c<k. scc_sizes f m k ! c = length (members f m c)" by auto
    have "scc_sizes f (Suc m) k = (scc_sizes f m k)[f ! m := scc_sizes f m k ! (f ! m) + 1]" by (simp add: scc_sizes_def)
    then show ?case using IH Suc(2) by (auto simp: nth_list_update)
  qed (simp add: scc_sizes_def)
  then show "length (scc_sizes f m k) = k" "c < k \<Longrightarrow> scc_sizes f m k ! c = length (members f m c)" by blast+
qed

lemma scc_offsets_nth:
  "length (scc_offsets off ss) = length ss" "c < length ss \<Longrightarrow> scc_offsets off ss ! c = off + sum_list (take c ss)"
proof -
  show "length (scc_offsets off ss) = length ss" by (induction ss arbitrary: off) auto
  show "c < length ss \<Longrightarrow> scc_offsets off ss ! c = off + sum_list (take c ss)"
  proof (induction ss arbitrary: off c)
    case (Cons s ss)
    then show ?case by (cases c) auto
  qed simp
qed

lemma sum_members:
  assumes "\<forall>i<m. f ! i < k"
  shows "(\<Sum>c<k. length (members f m c)) = m"
  using assms
proof (induction m)
  case (Suc m)
  have "(\<Sum>c<k. length (members f (Suc m) c)) = (\<Sum>c<k. length (members f m c)) + (\<Sum>c<k. if f ! m = c then 1 else 0)"
    unfolding sum.distrib[symmetric] by (intro sum.cong) auto
  also have "(\<Sum>c<k. if f ! m = c then 1 else 0) = (1::nat)" using Suc(2) by (simp add: sum.delta')
  finally show ?case using Suc by simp
qed simp

text \<open>Where the members of a component begin.\<close>

definition seg_base :: "nat list \<Rightarrow> nat \<Rightarrow> nat \<Rightarrow> nat" where
  "seg_base f m c = (\<Sum>c'<c. length (members f m c'))"

lemma seg_base_mono: "c < c' \<Longrightarrow> seg_base f m c + length (members f m c) \<le> seg_base f m c'"
proof -
  assume "c < c'"
  then have "(\<Sum>c'<Suc c. length (members f m c')) \<le> seg_base f m c'" unfolding seg_base_def by (intro sum_mono2) auto
  then show ?thesis by (simp add: seg_base_def)
qed

lemma seg_disjoint:
  assumes "j < length (members f m c)" "j' < length (members f m c')" "seg_base f m c + j = seg_base f m c' + j'"
  shows "c = c' \<and> j = j'"
  using assms seg_base_mono[of c c' f m] seg_base_mono[of c' c f m] by (cases c c' rule: linorder_cases) auto

lemma seg_end:
  assumes "\<forall>i<m. f ! i < k" "c < k"
  shows "seg_base f m c + length (members f m c) \<le> m"
  using seg_base_mono[OF assms(2), of f m] sum_members[OF assms(1)] by (simp add: seg_base_def)

lemma offsets_base:
  assumes "\<forall>i<m. f ! i < k" "c < k"
  shows "scc_offsets 0 (scc_sizes f m k) ! c = seg_base f m c"
proof -
  note S = scc_sizes_nth[OF assms(1)]
  have "take c (scc_sizes f m k) = map (\<lambda>c. length (members f m c)) [0..<c]"
    using S assms(2) by (intro nth_equalityI) auto
  then show ?thesis using assms(2) S(1) scc_offsets_nth(2)[of c "scc_sizes f m k" 0]
    by (simp add: seg_base_def interv_sum_list_conv_sum_set_nat atLeast0LessThan)
qed

lemma members_mono: "p \<le> m \<Longrightarrow> length (members f p c) \<le> length (members f m c)"
proof -
  assume "p \<le> m"
  then have "[0..<m] = [0..<p] @ [p..<m]" using upt_split[of 0 p m] by simp
  then show ?thesis by simp
qed

lemma fill_correct:
  assumes f: "\<forall>i<m. f ! i < k" and p: "p \<le> m"
  defines "st \<equiv> fold (\<lambda>i (off, sccList). let idx = f ! i in (off[idx := off ! idx + 1], sccList[off ! idx := i])) [0..<p]
       (scc_offsets 0 (scc_sizes f m k), replicate m 0)"
  shows "length (fst st) = k" "length (snd st) = m" "c < k \<Longrightarrow> fst st ! c = seg_base f m c + length (members f p c)"
    "c < k \<Longrightarrow> j < length (members f p c) \<Longrightarrow> snd st ! (seg_base f m c + j) = members f p c ! j"
proof -
  have "length (fst st) = k \<and> length (snd st) = m \<and> (\<forall>c<k. fst st ! c = seg_base f m c + length (members f p c)) \<and>
    (\<forall>c<k. \<forall>j<length (members f p c). snd st ! (seg_base f m c + j) = members f p c ! j)"
    using p unfolding st_def
  proof (induction p)
    case 0
    then show ?case using scc_sizes_nth(1)[OF f] scc_offsets_nth(1) offsets_base[OF f] by simp
  next
    case (Suc p)
    let ?s = "fold (\<lambda>i (off, sccList). let idx = f ! i in (off[idx := off ! idx + 1], sccList[off ! idx := i])) [0..<p]
       (scc_offsets 0 (scc_sizes f m k), replicate m 0)"
    obtain off lst where s: "?s = (off, lst)" by (cases ?s)
    have IH: "length off = k" "length lst = m" "\<And>c. c < k \<Longrightarrow> off ! c = seg_base f m c + length (members f p c)"
      "\<And>c j. c < k \<Longrightarrow> j < length (members f p c) \<Longrightarrow> lst ! (seg_base f m c + j) = members f p c ! j"
      using Suc s by auto
    let ?i = "f ! p"
    have ik: "?i < k" using f Suc(2) by simp
    let ?pos = "seg_base f m ?i + length (members f p ?i)"
    have ml: "length (members f p ?i) < length (members f m ?i)" using members_mono[of "Suc p" m f ?i] Suc(2) by simp
    then have pos: "?pos < m" using seg_end[OF f ik] by simp
    have st: "fold (\<lambda>i (off, sccList). let idx = f ! i in (off[idx := off ! idx + 1], sccList[off ! idx := i])) [0..<Suc p]
       (scc_offsets 0 (scc_sizes f m k), replicate m 0) = (off[?i := ?pos + 1], lst[?pos := p])"
      using s IH(3)[OF ik] by (simp add: Let_def)
    have nth: "lst[?pos := p] ! (seg_base f m c + j) = members f (Suc p) c ! j" if "c < k" "j < length (members f (Suc p) c)" for c j
    proof (cases "c = ?i \<and> j = length (members f p c)")
      case True
      then show ?thesis using pos IH(2) by (simp add: nth_append)
    next
      case False
      then have j: "j < length (members f p c)" using that(2) by (cases "f ! p = c") auto
      have "j < length (members f m c)" using j members_mono[of p m f c] Suc(2) by simp
      then have "seg_base f m c + j \<noteq> ?pos" using seg_disjoint[where j = j and c = c and j' = "length (members f p ?i)" and c' = ?i and f = f and m = m] ml False j by auto
      then show ?thesis using IH(4)[OF that(1) j] j by (simp add: nth_append)
    qed
    show ?case unfolding st using IH(1-3) ik nth by (auto simp: nth_list_update)
  qed
  then show "length (fst st) = k" "length (snd st) = m" "c < k \<Longrightarrow> fst st ! c = seg_base f m c + length (members f p c)"
    "c < k \<Longrightarrow> j < length (members f p c) \<Longrightarrow> snd st ! (seg_base f m c + j) = members f p c ! j" by blast+
qed

lemma scc_map_correct:
  assumes f: "\<forall>i<m. f ! i < k" and s: "scc_map f m k = (sccMap, sccList)" and c: "c < k"
  shows "si_size (sccMap ! c) = length (members f m c)" "scc_segment sccMap sccList c = members f m c"
proof -
  note F = fill_correct[OF f order_refl]
  note S = scc_sizes_nth[OF f]
  obtain off lst where ol: "scc_fill f m (scc_offsets 0 (scc_sizes f m k)) = (off, lst)" by (cases "scc_fill f m (scc_offsets 0 (scc_sizes f m k))")
  have off: "length off = k" "off ! c = seg_base f m c + length (members f m c)" "length lst = m"
    "\<And>j. j < length (members f m c) \<Longrightarrow> lst ! (seg_base f m c + j) = members f m c ! j"
    using F c ol by (simp_all add: scc_fill_def)
  have "sccMap = map (\<lambda>(o', s). \<lparr>si_offset = o' - s, si_size = s\<rparr>) (zip off (scc_sizes f m k))" "sccList = lst"
    using s ol by (simp_all add: scc_map_def Let_def)
  then have m: "sccMap ! c = \<lparr>si_offset = seg_base f m c, si_size = length (members f m c)\<rparr>" "sccList = lst"
    using c off(1,2) S by simp_all
  then show "si_size (sccMap ! c) = length (members f m c)" by simp
  show "scc_segment sccMap sccList c = members f m c"
    using m off(3,4) seg_end[OF f c] by (intro nth_equalityI) (auto simp: scc_segment_def)
qed

section \<open>Removing sources\<close>

lemma kahn_drop_all:
  assumes "\<forall>d\<in>set ds. d < length deg" "\<forall>d. count_list ds d \<le> deg ! d"
  shows "\<exists>deg' new. fold kahn_drop ds (deg, wl) = (deg', new @ wl) \<and> length deg' = length deg \<and> (\<forall>d<length deg. deg' ! d = deg ! d - count_list ds d) \<and>
    distinct new \<and> set new = {d \<in> set ds. deg ! d = count_list ds d}"
  using assms
proof (induction ds arbitrary: deg wl)
  case (Cons d ds)
  let ?deg = "deg[d := deg ! d - 1]"
  have d: "d < length deg" "0 < deg ! d" using Cons(2) Cons(3)[rule_format, of d] by auto
  have c: "count_list ds x \<le> ?deg ! x" for x using Cons(3)[rule_format, of x] d by (cases "x = d") auto
  let ?wl = "if ?deg ! d = 0 then d # wl else wl"
  obtain deg' new where IH: "fold kahn_drop ds (?deg, ?wl) = (deg', new @ ?wl)" "length deg' = length deg"
    "\<forall>x<length deg. deg' ! x = ?deg ! x - count_list ds x" "distinct new" "set new = {x \<in> set ds. ?deg ! x = count_list ds x}"
  proof -
    have l: "\<forall>x\<in>set ds. x < length ?deg" using Cons(2) by simp
    have le: "\<forall>x. count_list ds x \<le> ?deg ! x" using c by blast
    from Cons(1)[OF l le, of ?wl] show thesis unfolding length_list_update by (elim exE conjE) (rule that)
  qed
  let ?new = "if ?deg ! d = 0 then new @ [d] else new"
  have "fold kahn_drop (d # ds) (deg, wl) = (deg', ?new @ wl)" using IH(1) by (simp add: kahn_drop_def Let_def)
  moreover have "\<forall>x<length deg. deg' ! x = deg ! x - count_list (d # ds) x" using IH(3) d by (auto simp: nth_list_update)
  moreover have "?deg ! d = 0 \<Longrightarrow> d \<notin> set ds" using c[of d] by (auto simp: count_list_0_iff)
  then have "distinct ?new" using IH(4,5) by auto
  moreover have "set ?new = {x \<in> set (d # ds). deg ! x = count_list (d # ds) x}"
  proof -
    have z: "?deg ! d = 0 \<longleftrightarrow> deg ! d = 1" using d by auto
    have "x \<in> set ?new \<longleftrightarrow> x \<in> set (d # ds) \<and> deg ! x = count_list (d # ds) x" for x
    proof (cases "x = d")
      case True
      have nd: "d \<notin> set ds \<longleftrightarrow> count_list ds d = 0" by (simp add: count_list_0_iff)
      have le: "count_list ds d \<le> deg ! d - 1" using c[of d] d by simp
      have mem: "d \<in> set new \<longleftrightarrow> d \<in> set ds \<and> deg ! d - 1 = count_list ds d" using IH(5) d by simp
      show ?thesis
      proof (cases "deg ! d = 1")
        case one: True
        then have "count_list ds d = 0" using le by simp
        then show ?thesis using True one z by simp
      next
        case False
        then have "d \<in> set ?new \<longleftrightarrow> d \<in> set ds \<and> deg ! d - 1 = count_list ds d" using z mem by simp
        also have "\<dots> \<longleftrightarrow> deg ! d = count_list (d # ds) d" using False d nd by auto
        finally show ?thesis using True by simp
      qed
    next
      case False
      then show ?thesis using IH(5) by auto
    qed
    then show ?thesis by blast
  qed
  ultimately show ?case using IH(2) by blast
qed simp

text \<open>
  \<open>D c\<close> lists the components to which \<open>c\<close> has an edge; \<open>P\<close> are the components already removed, the latest first.
\<close>

definition kahn_inv :: "nat \<Rightarrow> (nat \<Rightarrow> nat list) \<Rightarrow> nat list \<Rightarrow> nat list \<Rightarrow> nat list \<Rightarrow> bool" where
  "kahn_inv k D deg wl P \<longleftrightarrow> length deg = k \<and> (\<forall>d<k. deg ! d = (\<Sum>c\<in>{..<k} - set P. count_list (D c) d)) \<and>
     distinct (wl @ P) \<and> set (wl @ P) = {d. d < k \<and> deg ! d = 0} \<and> sorted_wrt (\<lambda>a b. b \<notin> set (D a)) P"

lemma kahn_total:
  assumes inv: "kahn_inv k D deg wl P" and D: "\<And>c. c < k \<Longrightarrow> dests c = Some (D c)" "\<And>c d. c < k \<Longrightarrow> d \<in> set (D c) \<Longrightarrow> d < c"
  shows "\<exists>order. kahn dests deg wl P = Some order \<and> distinct order \<and> set order = {..<k} \<and> sorted_wrt (\<lambda>a b. a \<notin> set (D b)) order"
  using inv
proof (induction "k - length P" arbitrary: deg wl P rule: less_induct)
  case less
  note I = less(2)[unfolded kahn_inv_def]
  have len: "length deg = k" and deg: "\<And>d. d < k \<Longrightarrow> deg ! d = (\<Sum>c\<in>{..<k} - set P. count_list (D c) d)" and dis: "distinct (wl @ P)"
    and set: "set (wl @ P) = {d. d < k \<and> deg ! d = 0}" and srt: "sorted_wrt (\<lambda>a b. b \<notin> set (D a)) P" using I by blast+
  show ?case
  proof (cases wl)
    case Nil
    have "set P = {..<k}"
    proof (rule ccontr)
      assume "set P \<noteq> {..<k}"
      moreover have "set P \<subseteq> {..<k}" using set Nil by auto
      ultimately have ne: "{..<k} - set P \<noteq> {}" by blast
      define m where "m = Max ({..<k} - set P)"
      have m: "m < k" "m \<notin> set P" "\<And>c. c \<in> {..<k} - set P \<Longrightarrow> c \<le> m" using Max_in[OF _ ne] by (auto simp: m_def)
      have "count_list (D c) m = 0" if "c \<in> {..<k} - set P" for c using D(2)[of c m] m(3)[OF that] that by (auto simp: count_list_0_iff)
      then have "deg ! m = 0" using deg[OF m(1)] by simp
      then show False using set Nil m(1,2) by auto
    qed
    moreover have "kahn dests deg wl P = Some (rev P)" using Nil by (subst kahn.simps) simp
    ultimately show ?thesis using dis srt Nil by (simp add: sorted_wrt_rev)
  next
    case (Cons c wl')
    have c: "c < k" "c \<notin> set P" "deg ! c = 0" using set dis Cons by auto
    have "count_list (D c) d \<le> deg ! d" if "d < k" for d
      unfolding deg[OF that] using c by (intro member_le_sum) auto
    moreover have lt: "d < k" if "d \<in> set (D c)" for d using D(2)[OF c(1) that] c(1) by simp
    ultimately have cnt: "\<forall>d. count_list (D c) d \<le> deg ! d" by (metis count_list_0_iff le0)
    obtain deg' new where F: "fold kahn_drop (D c) (deg, wl') = (deg', new @ wl')" "length deg' = length deg"
      "\<forall>d<length deg. deg' ! d = deg ! d - count_list (D c) d" "distinct new" "set new = {d \<in> set (D c). deg ! d = count_list (D c) d}"
      using kahn_drop_all[of "D c" deg wl'] lt len cnt by auto
    have step: "kahn dests deg wl P = kahn dests deg' (new @ wl') (c # P)"
      unfolding Cons by (subst kahn.simps) (simp add: D(1)[OF c(1)] F(1))
    have "kahn_inv k D deg' (new @ wl') (c # P)"
      unfolding kahn_inv_def
    proof (intro conjI allI impI)
      show "length deg' = k" using F(2) len by simp
      have sub: "{..<k} - set P = insert c ({..<k} - set (c # P))" using c by auto
      fix d assume d: "d < k"
      have "deg ! d = count_list (D c) d + (\<Sum>x\<in>{..<k} - set (c # P). count_list (D x) d)"
        unfolding deg[OF d] sub by (subst sum.insert) auto
      then show "deg' ! d = (\<Sum>x\<in>{..<k} - set (c # P). count_list (D x) d)" using F(3) len d by simp
    next
      have new0: "deg ! d \<noteq> 0" if "d \<in> set new" for d using that F(5) by (auto simp: count_list_0_iff)
      have old0: "deg ! d = 0" if "d \<in> set (wl @ P)" for d using that set by auto
      have "set new \<inter> set (wl @ P) = {}" using new0 old0 by blast
      then show "distinct ((new @ wl') @ c # P)" using dis F(4) unfolding Cons by auto
      have "deg ! d = 0 \<Longrightarrow> deg' ! d = 0" if "d < k" for d using F(3) len that by simp
      moreover have "deg' ! d = 0 \<Longrightarrow> deg ! d \<noteq> 0 \<Longrightarrow> d \<in> set new" if "d < k" for d
        using F(3,5) len that cnt[rule_format, of d] count_list_0_iff[of "D c" d] by fastforce
      moreover have "deg' ! d = 0" if "d \<in> set new" for d using F(3,5) len that lt by auto
      moreover have "d < k" if "d \<in> set new" for d using that F(5) lt by blast
      ultimately show "set ((new @ wl') @ c # P) = {d. d < k \<and> deg' ! d = 0}" using set Cons by auto
      have "b \<notin> set (D c)" if "b \<in> set P" for b
      proof -
        have "deg ! b = 0" using set that by auto
        then have "count_list (D c) b = 0" using cnt[rule_format, of b] by simp
        then show ?thesis by (simp add: count_list_0_iff)
      qed
      then show "sorted_wrt (\<lambda>a b. b \<notin> set (D a)) (c # P)" using srt by simp
    qed
    moreover have "k - length (c # P) < k - length P"
    proof -
      have "length P = card (set P)" using dis distinct_card[of P] by simp
      also have "\<dots> < k" using psubset_card_mono[of "{..<k}" "set P"] set c by auto
      finally show ?thesis by simp
    qed
    ultimately show ?thesis using less(1) step by metis
  qed
qed

end
