(* ===== verification/TopoSortProps.thy ===== *)
theory TopoSortProps
  imports TopoSort
begin

text \<open>
  The builder of \<open>TopoSort\<close> lists the components in a topological order.
\<close>

unbundle bit_operations_syntax

section \<open>The condensation\<close>

text \<open>One node's edges, each counted.\<close>

lemma cdg_add_counts:
  assumes "\<forall>v\<in>set ds. f ! v < k" "length deg = k"
  shows "\<exists>deg'. fold (cdg_add False f a) ds (g, deg) = (g, deg') \<and> length deg' = k \<and>
    (\<forall>d<k. deg' ! d = deg ! d + count_list (filter (\<lambda>d. a \<noteq> d) (map ((!) f) ds)) d)"
  using assms
proof (induction ds arbitrary: deg)
  case (Cons v ds)
  let ?deg = "if a \<noteq> f ! v then deg[f ! v := deg ! (f ! v) + 1] else deg"
  have s: "cdg_add False f a v (g, deg) = (g, ?deg)" by (simp add: cdg_add_def Let_def)
  have l: "length ?deg = k" using Cons(3) by simp
  obtain deg' where d: "fold (cdg_add False f a) ds (g, ?deg) = (g, deg')" "length deg' = k"
    "\<forall>d<k. deg' ! d = ?deg ! d + count_list (filter (\<lambda>d. a \<noteq> d) (map ((!) f) ds)) d"
    using Cons(1)[OF _ l] Cons(2) by (elim meta_impE) auto
  have "\<forall>d<k. deg' ! d = deg ! d + count_list (filter (\<lambda>d. a \<noteq> d) (map ((!) f) (v # ds))) d"
    using d(3) Cons(2,3) by (auto simp: nth_list_update)
  then show ?case using d(1,2) s by auto
qed simp

text \<open>One node's edges, each recorded once in the row; the counters are the numbers of rows that have the column.\<close>

definition cdg_ok :: "nat \<Rightarrow> bitmap_graph \<Rightarrow> nat list \<Rightarrow> bool" where
  "cdg_ok k g deg \<longleftrightarrow> bg_ok g \<and> bg_numNodes g = k \<and> length deg = k \<and> (\<forall>d<k. deg ! d = card {c. c < k \<and> d \<in> bv_set (GetEdgeBV g c)})"

lemma cdg_add_row:
  assumes ok: "cdg_ok k g deg" and a: "a < k" and b: "f ! v < k"
  shows "\<exists>g' deg'. cdg_add True f a v (g, deg) = (g', deg') \<and> cdg_ok k g' deg' \<and>
    (\<forall>c<k. bv_set (GetEdgeBV g' c) = bv_set (GetEdgeBV g c) \<union> (if c = a \<and> f ! v \<noteq> a then {f ! v} else {}))"
proof -
  let ?b = "f ! v"
  have g: "bg_ok g" "bg_numNodes g = k" "length deg = k" and deg: "\<And>d. d < k \<Longrightarrow> deg ! d = card {c. c < k \<and> d \<in> bv_set (GetEdgeBV g c)}"
    using ok by (auto simp: cdg_ok_def)
  have mem: "bv_IsSet (GetEdgeBV g a) ?b \<longleftrightarrow> ?b \<in> bv_set (GetEdgeBV g a)" using row_IsSet[OF g(1)] a b g(2) by simp
  show ?thesis
  proof (cases "a \<noteq> ?b \<and> ?b \<notin> bv_set (GetEdgeBV g a)")
    case False
    then have "cdg_add True f a v (g, deg) = (g, deg)" using mem by (auto simp: cdg_add_def Let_def)
    moreover have "\<forall>c<k. bv_set (GetEdgeBV g c) = bv_set (GetEdgeBV g c) \<union> (if c = a \<and> ?b \<noteq> a then {?b} else {})" using False by auto
    ultimately show ?thesis using ok by blast
  next
    case True
    let ?g = "on_EdgeBV g a (\<lambda>bv. bv_SetBit bv ?b)" and ?deg = "deg[?b := deg ! ?b + 1]"
    have s: "cdg_add True f a v (g, deg) = (?g, ?deg)" using True mem by (simp add: cdg_add_def Let_def)
    note S = on_EdgeBV_SetBit[OF g(1), of a ?b, unfolded g(2), OF a b]
    have rows: "bv_set (GetEdgeBV ?g c) = bv_set (GetEdgeBV g c) \<union> (if c = a \<and> ?b \<noteq> a then {?b} else {})" if "c < k" for c
      using S(3)[OF that] True by auto
    have "?deg ! d = card {c. c < k \<and> d \<in> bv_set (GetEdgeBV ?g c)}" if d: "d < k" for d
    proof (cases "d = ?b")
      case False
      then have "{c. c < k \<and> d \<in> bv_set (GetEdgeBV ?g c)} = {c. c < k \<and> d \<in> bv_set (GetEdgeBV g c)}" using rows by (auto split: if_splits)
      then show ?thesis using deg[OF d] False by simp
    next
      case bd: True
      let ?A = "{c. c < k \<and> d \<in> bv_set (GetEdgeBV g c)}"
      have "{c. c < k \<and> d \<in> bv_set (GetEdgeBV ?g c)} = insert a ?A" using rows bd True a by auto
      moreover have "a \<notin> ?A" using True bd by simp
      ultimately have "card {c. c < k \<and> d \<in> bv_set (GetEdgeBV ?g c)} = card ?A + 1" by simp
      then show ?thesis using deg[OF d] bd b g(3) by simp
    qed
    then have "cdg_ok k ?g ?deg" using S(1,2) g(3) by (simp add: cdg_ok_def)
    then show ?thesis using s rows by blast
  qed
qed

lemma cdg_add_rows:
  assumes "\<forall>v\<in>set ds. f ! v < k" "cdg_ok k g deg" "a < k"
  shows "\<exists>g' deg'. fold (cdg_add True f a) ds (g, deg) = (g', deg') \<and> cdg_ok k g' deg' \<and>
    (\<forall>c<k. bv_set (GetEdgeBV g' c) = bv_set (GetEdgeBV g c) \<union> {b. c = a \<and> b \<noteq> a \<and> b \<in> (!) f ` set ds})"
  using assms(1,2)
proof (induction ds arbitrary: g deg)
  case (Cons v ds)
  have v: "f ! v < k" and ds: "\<forall>v\<in>set ds. f ! v < k" using Cons(2) by auto
  obtain g1 deg1 where 1: "cdg_add True f a v (g, deg) = (g1, deg1)" "cdg_ok k g1 deg1"
    "\<forall>c<k. bv_set (GetEdgeBV g1 c) = bv_set (GetEdgeBV g c) \<union> (if c = a \<and> f ! v \<noteq> a then {f ! v} else {})"
    using cdg_add_row[where g = g and deg = deg and v = v, OF Cons(3) assms(3) v] by (elim exE conjE) (rule that)
  obtain g2 deg2 where 2: "fold (cdg_add True f a) ds (g1, deg1) = (g2, deg2)" "cdg_ok k g2 deg2"
    "\<forall>c<k. bv_set (GetEdgeBV g2 c) = bv_set (GetEdgeBV g1 c) \<union> {b. c = a \<and> b \<noteq> a \<and> b \<in> (!) f ` set ds}"
    using Cons(1)[OF ds 1(2)] by (elim exE conjE) (rule that)
  have "bv_set (GetEdgeBV g2 c) = bv_set (GetEdgeBV g c) \<union> {b. c = a \<and> b \<noteq> a \<and> b \<in> (!) f ` set (v # ds)}" if "c < k" for c
    using 1(3) 2(3) that by auto
  moreover have "fold (cdg_add True f a) (v # ds) (g, deg) = (g2, deg2)" using 1(1) 2(1) by simp
  ultimately show ?case using 2(2) by blast
qed auto

text \<open>The component in position \<open>i\<close> of the result.\<close>

definition ts_scc :: "TopologicallySortedSccInfo \<Rightarrow> nat \<Rightarrow> nat list" where
  "ts_scc r i = take (si_size (ts_sccList r ! i)) (drop (si_offset (ts_sccList r ! i)) (ts_nodeList r))"

text \<open>
  The nodes are listed once each, the components one after the other; a component is a class of nodes that reach each other;
  no edge goes from a component to an earlier one.
\<close>

definition topo_sorted :: "nat \<Rightarrow> (nat \<Rightarrow> nat list) \<Rightarrow> TopologicallySortedSccInfo \<Rightarrow> bool" where
  "topo_sorted n adj r \<longleftrightarrow> ts_numNodes r = n \<and> length (ts_sccList r) = ts_numSCCs r \<and>
     distinct (ts_nodeList r) \<and> set (ts_nodeList r) = {..<n} \<and> concat (map (ts_scc r) [0..<ts_numSCCs r]) = ts_nodeList r \<and>
     (\<forall>i<ts_numSCCs r. ts_scc r i \<noteq> [] \<and> (\<forall>u\<in>set (ts_scc r i). \<forall>v<n.
        v \<in> set (ts_scc r i) \<longleftrightarrow> (graph_edge n adj)\<^sup>*\<^sup>* u v \<and> (graph_edge n adj)\<^sup>*\<^sup>* v u)) \<and>
     (\<forall>i<ts_numSCCs r. \<forall>j<i. \<forall>u\<in>set (ts_scc r i). \<forall>v\<in>set (ts_scc r j). \<not> graph_edge n adj u v)"

lemma assemble_nth:
  fixes n :: nat
  assumes "\<forall>c\<in>set ord. si_size (sccMap ! c) = length (scc_segment sccMap sccList c)" "k = length ord"
  defines "r \<equiv> ts_assemble n k sccMap sccList ord"
  shows "length (ts_sccList r) = k" "ts_nodeList r = concat (map (scc_segment sccMap sccList) ord)" "ts_numSCCs r = k" "ts_numNodes r = n"
    "i < k \<Longrightarrow> ts_scc r i = scc_segment sccMap sccList (ord ! i)"
proof -
  let ?seg = "scc_segment sccMap sccList"
  let ?ss = "map (\<lambda>c. si_size (sccMap ! c)) ord"
  show "length (ts_sccList r) = k" using assms(2) by (simp add: r_def ts_assemble_def Let_def scc_offsets_nth)
  show nl: "ts_nodeList r = concat (map ?seg ord)" and "ts_numSCCs r = k" "ts_numNodes r = n" by (simp_all add: r_def ts_assemble_def Let_def)
  assume i: "i < k"
  have sz: "si_size (ts_sccList r ! i) = length (?seg (ord ! i))"
    using i assms(1) assms(2) by (simp add: r_def ts_assemble_def Let_def scc_offsets_nth)
  have "si_offset (ts_sccList r ! i) = sum_list (take i ?ss)"
    using i assms(2) by (simp add: r_def ts_assemble_def Let_def scc_offsets_nth)
  also have "take i ?ss = map (length \<circ> ?seg) (take i ord)" using assms(1) by (simp add: take_map) (meson in_set_takeD)
  also have "sum_list \<dots> = length (concat (map ?seg (take i ord)))" by (simp add: length_concat)
  finally have of: "si_offset (ts_sccList r ! i) = length (concat (map ?seg (take i ord)))" .
  have "ord = take i ord @ ord ! i # drop (Suc i) ord" using i assms(2) by (simp add: id_take_nth_drop[symmetric])
  then have "concat (map ?seg ord) = concat (map ?seg (take i ord)) @ ?seg (ord ! i) @ concat (map ?seg (drop (Suc i) ord))"
    by (metis concat.simps(2) concat_append list.simps(9) map_append)
  then show "ts_scc r i = ?seg (ord ! i)" unfolding ts_scc_def nl sz of by simp
qed

text \<open>What the two ways of counting agree on.\<close>

definition cdg_view :: "nat \<Rightarrow> nat \<Rightarrow> (nat \<Rightarrow> nat list) \<Rightarrow> nat list \<Rightarrow> nat list \<Rightarrow> (nat \<Rightarrow> nat list) \<Rightarrow> bool" where
  "cdg_view n k adj f deg D \<longleftrightarrow> length deg = k \<and> (\<forall>d<k. deg ! d = (\<Sum>c<k. count_list (D c) d)) \<and>
     (\<forall>c<k. set (D c) = {d. d \<noteq> c \<and> (\<exists>u<n. f ! u = c \<and> d \<in> (!) f ` set (adj u))})"

context edge_iterator
begin

lemma iter_rest_eq: "ok it \<Longrightarrow> rem it = x # xs \<Longrightarrow> iter_rest ops it = Some (x # xs)"
proof (induction xs arbitrary: it x)
  case Nil
  then show ?case using dest[of it x "[]"] advance[of it x "[]"] by (subst iter_rest.simps) (auto simp: Let_def split: prod.splits)
next
  case (Cons y ys)
  have "iter_rest ops (fst (eo_Advance ops it)) = Some (y # ys)" using Cons(1) advance[OF Cons(2,3)] by blast
  then show ?case using dest[OF Cons(2,3)] advance[OF Cons(2,3)] by (subst iter_rest.simps) (auto simp: Let_def split: prod.splits)
qed

lemma iter_dests_eq: "v < n \<Longrightarrow> iter_dests ops v = Some (adj v)"
  using construct[of v] valid[of "eo_Construct ops v"] iter_rest_eq[of "eo_Construct ops v"]
  by (cases "adj v") (auto simp: iter_dests_def Let_def)

lemma build_counts:
  assumes f: "\<forall>v<n. f ! v < k"
  shows "\<exists>g deg. cdg_build False ops f n k = Some (g, deg) \<and> length deg = k \<and>
    (\<forall>d<k. deg ! d = (\<Sum>u<n. count_list (filter (\<lambda>d. f ! u \<noteq> d) (map ((!) f) (adj u))) d))"
proof -
  let ?step = "\<lambda>nodeOrd s. map_option (\<lambda>ds. fold (cdg_add False f (f ! nodeOrd)) ds s) (iter_dests ops nodeOrd)"
  have "\<exists>deg. fold_opt ?step [0..<p] (g, replicate k 0) = Some (g, deg) \<and> length deg = k \<and>
    (\<forall>d<k. deg ! d = (\<Sum>u<p. count_list (filter (\<lambda>d. f ! u \<noteq> d) (map ((!) f) (adj u))) d))" if "p \<le> n" for p g
    using that
  proof (induction p)
    case (Suc p)
    then obtain deg where IH: "fold_opt ?step [0..<p] (g, replicate k 0) = Some (g, deg)" "length deg = k"
      "\<forall>d<k. deg ! d = (\<Sum>u<p. count_list (filter (\<lambda>d. f ! u \<noteq> d) (map ((!) f) (adj u))) d)" by auto
    have "\<forall>v\<in>set (adj p). f ! v < k" using f adj_range[of p] Suc(2) by auto
    from cdg_add_counts[OF this IH(2), of "f ! p" g] obtain deg' where d: "fold (cdg_add False f (f ! p)) (adj p) (g, deg) = (g, deg')" "length deg' = k"
      "\<forall>d<k. deg' ! d = deg ! d + count_list (filter (\<lambda>d. f ! p \<noteq> d) (map ((!) f) (adj p))) d" by (elim exE conjE)
    have "fold_opt ?step [0..<Suc p] (g, replicate k 0) = Some (g, deg')"
      using IH(1) d(1) iter_dests_eq[of p] Suc(2) by (simp add: fold_opt_append)
    moreover have "\<forall>d<k. deg' ! d = (\<Sum>u<Suc p. count_list (filter (\<lambda>d. f ! u \<noteq> d) (map ((!) f) (adj u))) d)" using d(3) IH(3) by simp
    ultimately show ?case using d(2) by blast
  qed simp
  from this[OF order_refl] show ?thesis unfolding cdg_build_def by blast
qed

lemma build_rows:
  assumes f: "\<forall>v<n. f ! v < k"
  shows "\<exists>g deg. cdg_build True ops f n k = Some (g, deg) \<and> cdg_ok k g deg \<and>
    (\<forall>c<k. bv_set (GetEdgeBV g c) = {d. d \<noteq> c \<and> (\<exists>u<n. f ! u = c \<and> d \<in> (!) f ` set (adj u))})"
proof -
  let ?step = "\<lambda>nodeOrd s. map_option (\<lambda>ds. fold (cdg_add True f (f ! nodeOrd)) ds s) (iter_dests ops nodeOrd)"
  let ?g = "bg_AllocateMemory k (replicate (bv_alloc k * k) 0) True"
  note A = bg_AllocateMemory_ok[of "replicate (bv_alloc k * k) 0" k]
  have z: "cdg_ok k ?g (replicate k 0)" using A by (simp add: cdg_ok_def mult.commute)
  have "\<exists>g deg. fold_opt ?step [0..<p] (?g, replicate k 0) = Some (g, deg) \<and> cdg_ok k g deg \<and>
    (\<forall>c<k. bv_set (GetEdgeBV g c) = {d. d \<noteq> c \<and> (\<exists>u<p. f ! u = c \<and> d \<in> (!) f ` set (adj u))})" if "p \<le> n" for p
    using that
  proof (induction p)
    case 0
    then show ?case using z A(3) by (simp add: mult.commute)
  next
    case (Suc p)
    then obtain g deg where IH: "fold_opt ?step [0..<p] (?g, replicate k 0) = Some (g, deg)" "cdg_ok k g deg"
      "\<forall>c<k. bv_set (GetEdgeBV g c) = {d. d \<noteq> c \<and> (\<exists>u<p. f ! u = c \<and> d \<in> (!) f ` set (adj u))}" by auto
    have r: "\<forall>v\<in>set (adj p). f ! v < k" "f ! p < k" using f adj_range[of p] Suc(2) by auto
    from cdg_add_rows[OF r(1) IH(2) r(2)] obtain g' deg' where d: "fold (cdg_add True f (f ! p)) (adj p) (g, deg) = (g', deg')" "cdg_ok k g' deg'"
      "\<forall>c<k. bv_set (GetEdgeBV g' c) = bv_set (GetEdgeBV g c) \<union> {b. c = f ! p \<and> b \<noteq> f ! p \<and> b \<in> (!) f ` set (adj p)}" by (elim exE conjE)
    have "fold_opt ?step [0..<Suc p] (?g, replicate k 0) = Some (g', deg')"
      using IH(1) d(1) iter_dests_eq[of p] Suc(2) by (simp add: fold_opt_append)
    moreover have "\<forall>c<k. bv_set (GetEdgeBV g' c) = {d. d \<noteq> c \<and> (\<exists>u<Suc p. f ! u = c \<and> d \<in> (!) f ` set (adj u))}"
      using d(3) IH(3) by (auto simp: less_Suc_eq)
    ultimately show ?case using d(2) by blast
  qed
  from this[OF order_refl] show ?thesis unfolding cdg_build_def .
qed

end

lemma count_concat: "count_list (concat xss) d = (\<Sum>xs\<leftarrow>xss. count_list xs d)"
  by (induction xss) auto

lemma count_distinct: "distinct xs \<Longrightarrow> d \<in> set xs \<Longrightarrow> count_list xs d = 1"
  by (induction xs) (auto simp: count_list_0_iff)

lemma sum_list_members: "(\<Sum>u\<leftarrow>members f m c. g u) = (\<Sum>u\<in>{u. u < m \<and> f ! u = c}. g u)" for g :: "nat \<Rightarrow> nat"
proof -
  have "(\<Sum>u\<leftarrow>members f m c. g u) = (\<Sum>u\<in>set (members f m c). g u)" by (intro sum_list_distinct_conv_sum_set) simp
  moreover have "set (members f m c) = {u. u < m \<and> f ! u = c}" by auto
  ultimately show ?thesis by simp
qed

lemma fold_opt_collect:
  assumes "\<forall>x\<in>set xs. h x = Some (g x)"
  shows "fold_opt (\<lambda>x acc. map_option (\<lambda>ds. acc @ F ds) (h x)) xs acc = Some (acc @ concat (map (\<lambda>x. F (g x)) xs))"
  using assms by (induction xs arbitrary: acc) simp_all

context edge_iterator
begin

lemma condensation:
  assumes f: "\<forall>v<n. f ! v < k" and sm: "scc_map f n k = (sccMap, sccList)"
  shows "\<exists>g deg D. cdg_build useBitMap ops f n k = Some (g, deg) \<and> cdg_view n k adj f deg D \<and>
    (\<forall>c<k. cdg_dests useBitMap ops f g sccMap sccList c = Some (D c))"
proof (cases useBitMap)
  case True
  obtain g deg where B: "cdg_build True ops f n k = Some (g, deg)" "cdg_ok k g deg"
    "\<forall>c<k. bv_set (GetEdgeBV g c) = {d. d \<noteq> c \<and> (\<exists>u<n. f ! u = c \<and> d \<in> (!) f ` set (adj u))}" using build_rows[OF f] by (elim exE conjE)
  have g: "bg_ok g" "bg_numNodes g = k" "length deg = k" "\<forall>d<k. deg ! d = card {c. c < k \<and> d \<in> bv_set (GetEdgeBV g c)}"
    using B(2) by (auto simp: cdg_ok_def)
  have rows: "set (succs g c) = bv_set (GetEdgeBV g c)" for c using g(2) by (auto simp: succs_def bv_set_def GetEdgeBV_def)
  have cnt: "count_list (succs g c) d = (if d \<in> bv_set (GetEdgeBV g c) then 1 else 0)" for c d
    using rows[of c] count_list_0_iff[of "succs g c" d] count_distinct[of "succs g c" d] by (simp add: succs_def)
  have "deg ! d = (\<Sum>c<k. count_list (succs g c) d)" if "d < k" for d
  proof -
    have "(\<Sum>c<k. count_list (succs g c) d) = card {c. c < k \<and> d \<in> bv_set (GetEdgeBV g c)}"
      unfolding cnt by (simp add: sum.If_cases lessThan_def Collect_conj_eq)
    then show ?thesis using g(4) that by simp
  qed
  then have "cdg_view n k adj f deg (succs g)" using g(3) B(3) rows by (simp add: cdg_view_def)
  moreover have "\<forall>c<k. cdg_dests True ops f g sccMap sccList c = Some (succs g c)"
    using row_ForEachSetBit[OF g(1)] g(2) by (simp add: cdg_dests_def)
  ultimately show ?thesis using B(1) True by (intro exI[of _ g] exI[of _ deg] exI[of _ "succs g"]) simp
next
  case False
  let ?D = "\<lambda>c. concat (map (\<lambda>u. filter (\<lambda>d. c \<noteq> d) (map ((!) f) (adj u))) (members f n c))"
  obtain g deg where B: "cdg_build False ops f n k = Some (g, deg)" "length deg = k"
    "\<forall>d<k. deg ! d = (\<Sum>u<n. count_list (filter (\<lambda>d. f ! u \<noteq> d) (map ((!) f) (adj u))) d)" using build_counts[OF f] by (elim exE conjE)
  have "deg ! d = (\<Sum>c<k. count_list (?D c) d)" if d: "d < k" for d
  proof -
    have "(\<Sum>u<n. count_list (filter (\<lambda>d. f ! u \<noteq> d) (map ((!) f) (adj u))) d) =
        (\<Sum>c<k. \<Sum>u\<in>{u \<in> {..<n}. f ! u = c}. count_list (filter (\<lambda>d. f ! u \<noteq> d) (map ((!) f) (adj u))) d)"
      by (rule sum.group[symmetric]) (use f in auto)
    also have "\<dots> = (\<Sum>c<k. count_list (?D c) d)"
      unfolding count_concat map_map comp_def sum_list_members by (intro sum.cong) auto
    finally show ?thesis using B(3) d by simp
  qed
  moreover have "set (?D c) = {d. d \<noteq> c \<and> (\<exists>u<n. f ! u = c \<and> d \<in> (!) f ` set (adj u))}" for c by auto
  ultimately have "cdg_view n k adj f deg ?D" using B(2) unfolding cdg_view_def by blast
  moreover have "cdg_dests False ops f g sccMap sccList c = Some (?D c)" if "c < k" for c
  proof -
    have "\<forall>u\<in>set (members f n c). iter_dests ops u = Some (adj u)" using iter_dests_eq by simp
    from fold_opt_collect[where F = "\<lambda>ds. filter (\<lambda>d. c \<noteq> d) (map ((!) f) ds)" and acc = "[]", OF this]
    show ?thesis unfolding cdg_dests_def scc_map_correct(2)[OF f sm that] by simp
  qed
  ultimately show ?thesis using B(1) False by (intro exI[of _ g] exI[of _ deg] exI[of _ ?D]) simp
qed

lemma order_exists:
  assumes view: "cdg_view n k adj f deg D" and dests: "\<forall>c<k. dests c = Some (D c)" and num: "scc_numbering n adj k f"
  shows "\<exists>ord. kahn dests deg (rev (filter (\<lambda>c. deg ! c = 0) [0..<k])) [] = Some ord \<and> distinct ord \<and> set ord = {..<k} \<and>
    sorted_wrt (\<lambda>a b. \<forall>u v. f ! u = b \<longrightarrow> f ! v = a \<longrightarrow> \<not> edge u v) ord"
proof -
  have lt: "d < c" if ck: "c < k" and dc: "d \<in> set (D c)" for c d
  proof -
    obtain u v where "u < n" "f ! u = c" "v \<in> set (adj u)" "d = f ! v" "d \<noteq> c"
    proof -
      have "set (D c) = {d. d \<noteq> c \<and> (\<exists>u<n. f ! u = c \<and> d \<in> (!) f ` set (adj u))}" using view ck by (simp add: cdg_view_def)
      then have "d \<noteq> c" "\<exists>u<n. f ! u = c \<and> d \<in> (!) f ` set (adj u)" using dc by simp_all
      then show thesis using that by blast
    qed
    moreover from this have "f ! v \<le> f ! u" using num unfolding scc_numbering_def graph_edge_def by blast
    ultimately show ?thesis by simp
  qed
  have "kahn_inv k D deg (rev (filter (\<lambda>c. deg ! c = 0) [0..<k])) []" using view by (auto simp: kahn_inv_def cdg_view_def)
  from kahn_total[OF this] obtain ord where o1: "kahn dests deg (rev (filter (\<lambda>c. deg ! c = 0) [0..<k])) [] = Some ord" "distinct ord" "set ord = {..<k}"
    "sorted_wrt (\<lambda>a b. a \<notin> set (D b)) ord" using dests lt by blast
  have "\<not> edge u v" if "a \<in> set ord" "b \<in> set ord" "a \<noteq> b" "a \<notin> set (D b)" "f ! u = b" "f ! v = a" for a b u v
    using that view o1(3) by (auto simp: cdg_view_def graph_edge_def)
  moreover have "sorted_wrt (\<lambda>a b. a \<noteq> b \<and> a \<notin> set (D b)) ord"
    using o1(2,4) unfolding distinct_conv_nth sorted_wrt_iff_nth_less by simp
  ultimately have "sorted_wrt (\<lambda>a b. \<forall>u v. f ! u = b \<longrightarrow> f ! v = a \<longrightarrow> \<not> edge u v) ord" by (elim sorted_wrt_mono_rel[rotated]) blast
  then show ?thesis using o1(1-3) by blast
qed

lemma ComputeImpl_sorted:
  assumes num: "scc_numbering n adj k f"
  shows "\<exists>r. ts_ComputeImpl useBitMap ops n k f = Some r \<and> topo_sorted n adj r \<and> ts_numSCCs r = k"
proof (cases "k = 0")
  case True
  then have "n = 0" using num by (auto simp: scc_numbering_def)
  then show ?thesis using True by (simp add: ts_ComputeImpl_def topo_sorted_def)
next
  case False
  have f: "\<forall>v<n. f ! v < k" and len: "length f = n" and onto: "set f = {..<k}" using num by (auto simp: scc_numbering_def)
  obtain sccMap sccList where sm: "scc_map f n k = (sccMap, sccList)" by (cases "scc_map f n k")
  note M = scc_map_correct[OF f sm]
  obtain g deg D where C: "cdg_build useBitMap ops f n k = Some (g, deg)" "cdg_view n k adj f deg D"
    "\<forall>c<k. cdg_dests useBitMap ops f g sccMap sccList c = Some (D c)" using condensation[OF f sm, of useBitMap] by (elim exE conjE)
  obtain ord where o1: "kahn (cdg_dests useBitMap ops f g sccMap sccList) deg (rev (filter (\<lambda>c. deg ! c = 0) [0..<k])) [] = Some ord"
    "distinct ord" "set ord = {..<k}" "sorted_wrt (\<lambda>a b. \<forall>u v. f ! u = b \<longrightarrow> f ! v = a \<longrightarrow> \<not> edge u v) ord"
    using order_exists[OF C(2,3) num] by (elim exE conjE)
  let ?r = "ts_assemble n k sccMap sccList ord"
  have res: "ts_ComputeImpl useBitMap ops n k f = Some ?r" using False sm C(1) o1(1) by (simp add: ts_ComputeImpl_def Let_def)
  have lk: "k = length ord" using distinct_card[OF o1(2)] o1(3) by simp
  have sz: "\<forall>c\<in>set ord. si_size (sccMap ! c) = length (scc_segment sccMap sccList c)" using M o1(3) by simp
  note A = assemble_nth[where n = n, OF sz lk]
  have on: "ord ! i < k" if "i < k" for i using that lk o1(3) nth_mem[of i ord] by auto
  have seg: "ts_scc ?r i = members f n (ord ! i)" if "i < k" for i using A(5)[OF that] M(2)[OF on[OF that]] by simp
  have "map (scc_segment sccMap sccList) ord = map (members f n) ord" using M(2) o1(3) by simp
  then have nl: "ts_nodeList ?r = concat (map (members f n) ord)" using A(2) by (rule subst)
  have "map (ts_scc ?r) [0..<k] = map (members f n) ord" using seg lk by (intro nth_equalityI) simp_all
  then have cc: "concat (map (ts_scc ?r) [0..<k]) = ts_nodeList ?r" using nl by simp
  have "distinct (concat (map (members f n) ord))" using o1(2) by (induction ord) auto
  then have dis: "distinct (ts_nodeList ?r)" using nl by simp
  have set: "set (ts_nodeList ?r) = {..<n}" using nl o1(3) f by auto
  have ne: "ts_scc ?r i \<noteq> []" if "i < k" for i
  proof -
    have "ord ! i \<in> set f" using on[OF that] onto by simp
    then show ?thesis unfolding seg[OF that] using len by (auto simp: filter_empty_conv in_set_conv_nth)
  qed
  have cls: "v \<in> set (ts_scc ?r i) \<longleftrightarrow> reaches u v \<and> reaches v u" if "i < k" "u \<in> set (ts_scc ?r i)" "v < n" for i u v
  proof -
    have u: "u < n" "f ! u = ord ! i" using that(2) unfolding seg[OF that(1)] by auto
    have "f ! u = f ! v \<longleftrightarrow> reaches u v \<and> reaches v u" using num u(1) that(3) unfolding scc_numbering_def by blast
    then show ?thesis unfolding seg[OF that(1)] using u(2) that(3) by auto
  qed
  have ord: "\<not> edge u v" if "i < k" "j < i" "u \<in> set (ts_scc ?r i)" "v \<in> set (ts_scc ?r j)" for i j u v
    using sorted_wrt_nth_less[OF o1(4) that(2)] that lk seg by simp
  have "topo_sorted n adj ?r" unfolding topo_sorted_def A(3,4) using A(1) dis set cc ne cls ord by simp
  then show ?thesis using res A(3) by blast
qed

lemma Compute_sorted:
  assumes "scc_numbering n adj k f"
  shows "\<exists>r. ts_Compute ops n k f neverUseBitmap = Some r \<and> topo_sorted n adj r \<and> ts_numSCCs r = k"
  using ComputeImpl_sorted[OF assms] unfolding ts_Compute_def by simp

end

text \<open>
  C19. \<^bold>\<open>Topological order of the components.\<close> The condensation builder, given the numbers that the finder computed, returns a list of
  the components, each a class of nodes that reach each other, such that no edge leads from a component to an earlier one; with the
  bitmap and without.
\<close>

theorem topological_sort_correct:
  assumes "bg_ok g" "0 < bg_numNodes g"
  shows "\<exists>numSCCs sccInfo r. ComputeSCC g = Some (numSCCs, sccInfo) \<and>
    ts_Compute (bg_edge_ops g) (bg_numNodes g) numSCCs sccInfo neverUseBitmap = Some r \<and>
    topo_sorted (bg_numNodes g) (succs g) r \<and> ts_numSCCs r = numSCCs"
proof -
  have n: "bg_nodes g = bg_numNodes g" using assms(1) by (simp add: bg_nodes_def)
  obtain k f where k: "ComputeSCC g = Some (k, f)" "scc_numbering (bg_numNodes g) (succs g) k f"
    using bg.ComputeForGenericGraph_correct[of g] assms(2) unfolding n ComputeSCC_def by blast
  then show ?thesis using bg.Compute_sorted[of g k f neverUseBitmap] unfolding n by blast
qed

theorem topological_sort_correct_witness:
  "bg_ok sample_graph \<and> bg_numNodes sample_graph = 3 \<and>
   (\<exists>numSCCs sccInfo r. ComputeSCC sample_graph = Some (numSCCs, sccInfo) \<and>
     ts_Compute (bg_edge_ops sample_graph) 3 numSCCs sccInfo False = Some r \<and> topo_sorted 3 (succs sample_graph) r \<and> ts_numSCCs r = numSCCs)"
  using topological_sort_correct[of sample_graph False] sample_graph_ok by simp

end
