(* ===== verification/PropOrder.thy ===== *)
theory PropOrder
  imports TopoSortProps TypeMask
begin

text \<open>
  \<^verbatim>\<open>PropagationOrderFinder\<close> of \<^verbatim>\<open>drt/dfg_prediction_propagation.cpp\<close>: the graph of basic blocks and variables, its edges in packs of six
  that are linked through the last two words, the iterator over them, and the plan that the order of the components gives.
\<close>

unbundle bit_operations_syntax

section \<open>Edges in packs\<close>

text \<open>
  The memory of the edge packs is addressed by bytes and read in words of 32 bits; the last two words of a full pack hold the
  address of the next. The address of the \<open>i\<close>-th allocated pack is given by \<open>fresh\<close>.
\<close>

record prop_finder =
  pf_numNodes :: nat
  pf_numBBs :: nat
  pf_cvNodeOffset :: nat
  pf_edgeHead :: "u64 list"
  pf_edgeTail :: "u64 list"
  pf_mem :: "u64 \<Rightarrow> u32"
  pf_numPacks :: nat

definition UnalignedStore64 :: "(u64 \<Rightarrow> u32) \<Rightarrow> u64 \<Rightarrow> u64 \<Rightarrow> (u64 \<Rightarrow> u32)" where
  "UnalignedStore64 mem a p = mem(a := ucast p, a + 4 := ucast (drop_bit 32 p))"

definition UnalignedLoad64 :: "(u64 \<Rightarrow> u32) \<Rightarrow> u64 \<Rightarrow> u64" where
  "UnalignedLoad64 mem a = push_bit 32 (ucast (mem (a + 4))) OR ucast (mem a)"

definition pf_Initialize :: "(nat \<Rightarrow> u64) \<Rightarrow> (u64 \<Rightarrow> u32) \<Rightarrow> nat \<Rightarrow> nat \<Rightarrow> nat \<Rightarrow> prop_finder" where
  "pf_Initialize fresh mem numBBs numLogicalVars numCapturedVarLogicalVars =
     (let numNodes = numBBs + numLogicalVars + numCapturedVarLogicalVars
      in \<lparr>pf_numNodes = numNodes, pf_numBBs = numBBs, pf_cvNodeOffset = numBBs + numLogicalVars,
          pf_edgeHead = map fresh [0..<numNodes], pf_edgeTail = map fresh [0..<numNodes], pf_mem = mem, pf_numPacks = numNodes\<rparr>)"

definition IsAtLastEdgeInPack :: "u64 \<Rightarrow> bool" where
  "IsAtLastEdgeInPack tail \<longleftrightarrow> tail AND 31 = 24"

definition AddEdge :: "(nat \<Rightarrow> u64) \<Rightarrow> nat \<Rightarrow> nat \<Rightarrow> prop_finder \<Rightarrow> prop_finder" where
  "AddEdge fresh source dest s =
     (let tail = pf_edgeTail s ! source in
      if IsAtLastEdgeInPack tail then
        let next = fresh (pf_numPacks s);
            mem = UnalignedStore64 ((pf_mem s)(next := word_of_nat dest)) tail next
        in s\<lparr>pf_mem := mem, pf_edgeTail := (pf_edgeTail s)[source := next + 4], pf_numPacks := pf_numPacks s + 1\<rparr>
      else s\<lparr>pf_mem := (pf_mem s)(tail := word_of_nat dest), pf_edgeTail := (pf_edgeTail s)[source := tail + 4]\<rparr>)"

definition NotifySetLocal :: "(nat \<Rightarrow> u64) \<Rightarrow> nat \<Rightarrow> nat \<Rightarrow> prop_finder \<Rightarrow> prop_finder" where
  "NotifySetLocal fresh bbOrd logicalVarOrd s = AddEdge fresh bbOrd (pf_numBBs s + logicalVarOrd) s"

definition NotifyCreateOrSetCapturedVar :: "(nat \<Rightarrow> u64) \<Rightarrow> nat \<Rightarrow> nat \<Rightarrow> prop_finder \<Rightarrow> prop_finder" where
  "NotifyCreateOrSetCapturedVar fresh bbOrd capturedVarLogicalOrd s = AddEdge fresh bbOrd (pf_cvNodeOffset s + capturedVarLogicalOrd) s"

definition NotifyGetLocal :: "(nat \<Rightarrow> u64) \<Rightarrow> nat \<Rightarrow> nat \<Rightarrow> prop_finder \<Rightarrow> prop_finder" where
  "NotifyGetLocal fresh bbOrd logicalVarOrd s = AddEdge fresh (pf_numBBs s + logicalVarOrd) bbOrd s"

definition NotifyGetCapturedVar :: "(nat \<Rightarrow> u64) \<Rightarrow> nat \<Rightarrow> nat \<Rightarrow> prop_finder \<Rightarrow> prop_finder" where
  "NotifyGetCapturedVar fresh bbOrd capturedVarLogicalOrd s = AddEdge fresh (pf_cvNodeOffset s + capturedVarLogicalOrd) bbOrd s"

definition FinalizeGraph :: "prop_finder \<Rightarrow> prop_finder" where
  "FinalizeGraph s = s\<lparr>pf_mem := fold (\<lambda>i mem. mem(pf_edgeTail s ! i := - 1)) [0..<pf_numNodes s] (pf_mem s)\<rparr>"

record pack_iter =
  pi_sourceNode :: nat
  pi_destNode :: u32
  pi_nextPtr :: u64

definition PackIter :: "prop_finder \<Rightarrow> nat \<Rightarrow> pack_iter" where
  "PackIter graph nodeOrd =
     (let head = pf_edgeHead graph ! nodeOrd in \<lparr>pi_sourceNode = nodeOrd, pi_destNode = pf_mem graph head, pi_nextPtr = head + 4\<rparr>)"

definition pi_IsValid :: "pack_iter \<Rightarrow> bool" where
  "pi_IsValid it \<longleftrightarrow> pi_destNode it \<noteq> - 1"

definition pi_Advance :: "prop_finder \<Rightarrow> pack_iter \<Rightarrow> pack_iter \<times> bool" where
  "pi_Advance graph it =
     (if pf_mem graph (pi_nextPtr it) = - 1 then (it\<lparr>pi_destNode := - 1\<rparr>, False)
      else let nextPtr = (if IsAtLastEdgeInPack (pi_nextPtr it) then UnalignedLoad64 (pf_mem graph) (pi_nextPtr it) else pi_nextPtr it)
           in (it\<lparr>pi_destNode := pf_mem graph nextPtr, pi_nextPtr := nextPtr + 4\<rparr>, True))"

definition pf_edge_ops :: "prop_finder \<Rightarrow> pack_iter edge_ops" where
  "pf_edge_ops graph = \<lparr>eo_Construct = PackIter graph, eo_GetSourceNode = pi_sourceNode, eo_IsValid = pi_IsValid,
     eo_GetDestNode = (\<lambda>it. unat (pi_destNode it)), eo_Advance = pi_Advance graph\<rparr>"

section \<open>The plan\<close>

record plan_item =
  pl_range :: "nat list"
  pl_runOnceIsEnough :: bool

definition plan_items :: "nat \<Rightarrow> TopologicallySortedSccInfo \<Rightarrow> plan_item list" where
  "plan_items numBBs info =
     concat (map (\<lambda>item.
       let span = take (si_size item) (drop (si_offset item) (ts_nodeList info));
           data = filter (\<lambda>nodeIdx. nodeIdx < numBBs) span;
           cnt = length data
       in if cnt > 0 then [\<lparr>pl_range = data, pl_runOnceIsEnough = (cnt = 1 \<and> si_size item = 1)\<rparr>] else [])
     (ts_sccList info))"

definition ComputePlan :: "prop_finder \<Rightarrow> plan_item list option" where
  "ComputePlan s =
     (let s = FinalizeGraph s in
      Option.bind (ComputeForGenericGraph (pf_edge_ops s) (pf_numNodes s)) (\<lambda>(numSCCs, sccInfo).
        map_option (plan_items (pf_numBBs s)) (ts_Compute (pf_edge_ops s) (pf_numNodes s) numSCCs sccInfo False)))"

section \<open>Addresses\<close>

text \<open>The packs lie at distinct addresses that are multiples of their size.\<close>

definition packs_ok :: "(nat \<Rightarrow> u64) \<Rightarrow> nat \<Rightarrow> bool" where
  "packs_ok fresh k \<longleftrightarrow> inj_on fresh {..<k} \<and> (\<forall>i<k. fresh i AND 31 = 0)"

definition slot :: "(nat \<Rightarrow> u64) \<Rightarrow> nat \<Rightarrow> nat \<Rightarrow> u64" where
  "slot fresh p i = fresh p + word_of_nat (4 * i)"

lemma and_31: "(w :: u64) AND 31 = take_bit 5 w"
  by (simp add: take_bit_eq_mask mask_eq_exp_minus_1)

lemma offset_unat: "i < 8 \<Longrightarrow> unat (word_of_nat (4 * i) :: u64) = 4 * i"
  by (simp add: unat_of_nat del: of_nat_mult)

lemma offset_inject: "i < 8 \<Longrightarrow> j < 8 \<Longrightarrow> (word_of_nat (4 * i) :: u64) = word_of_nat (4 * j) \<longleftrightarrow> i = j"
  using offset_unat[of i] offset_unat[of j] by (metis mult_cancel1 zero_neq_numeral)

lemma slot_offset:
  assumes "packs_ok fresh k" "p < k" "i < 8"
  shows "slot fresh p i AND 31 = word_of_nat (4 * i)"
proof -
  have m: "unat (take_bit 5 w) = unat w mod 32" for w :: u64
    unfolding unsigned_take_bit_eq by (simp add: take_bit_eq_mod)
  have "take_bit 5 (fresh p) = 0" using assms(1,2) by (simp add: packs_ok_def and_31)
  then have f: "unat (fresh p) mod 32 = 0" using m[of "fresh p"] by simp
  have "unat (slot fresh p i) mod 32 = (unat (fresh p) + 4 * i) mod 32"
    unfolding slot_def unat_word_ariths offset_unat[OF assms(3)] by (simp add: mod_mod_cancel)
  also have "\<dots> = 4 * i" using f assms(3) mod_add_left_eq[of "unat (fresh p)" 32 "4 * i"] by simp
  finally have "unat (take_bit 5 (slot fresh p i)) = unat (word_of_nat (4 * i) :: u64)" using m offset_unat[OF assms(3)] by simp
  then show ?thesis unfolding and_31 by (simp only: word_unat_eq_iff)
qed

lemma slot_inject:
  assumes "packs_ok fresh k" "p < k" "q < k" "i < 8" "j < 8"
  shows "slot fresh p i = slot fresh q j \<longleftrightarrow> p = q \<and> i = j"
proof
  assume e: "slot fresh p i = slot fresh q j"
  then have "(word_of_nat (4 * i) :: u64) = word_of_nat (4 * j)" using slot_offset[OF assms(1,2,4)] slot_offset[OF assms(1,3,5)] by simp
  then have ij: "i = j" using offset_inject[OF assms(4,5)] by blast
  then have "fresh p = fresh q" using e by (simp add: slot_def)
  then show "p = q \<and> i = j" using assms(1-3) ij by (auto simp: packs_ok_def inj_on_def)
qed simp

lemma slot_last: "packs_ok fresh k \<Longrightarrow> p < k \<Longrightarrow> i < 8 \<Longrightarrow> IsAtLastEdgeInPack (slot fresh p i) \<longleftrightarrow> i = 6"
  using offset_inject[of i 6] by (simp add: IsAtLastEdgeInPack_def slot_offset del: of_nat_mult)

lemma slot_next: "slot fresh p i + 4 = slot fresh p (i + 1)" "slot fresh p 0 = fresh p" "slot fresh p 1 = fresh p + 4"
  by (simp_all add: slot_def)

lemma load_store: "UnalignedLoad64 (UnalignedStore64 mem a p) a = p"
proof -
  have "a \<noteq> a + 4" by simp
  then have "UnalignedLoad64 (UnalignedStore64 mem a p) a = push_bit 32 (ucast (ucast (drop_bit 32 p) :: u32)) OR ucast (ucast p :: u32)"
    by (simp add: UnalignedLoad64_def UnalignedStore64_def)
  also have "\<dots> = p" by (rule bit_word_eqI) (auto simp: bit_simps)
  finally show ?thesis .
qed

lemma low_half: "packs_ok fresh k \<Longrightarrow> p < k \<Longrightarrow> (ucast (fresh p) :: u32) \<noteq> - 1"
proof
  assume a: "packs_ok fresh k" "p < k" "(ucast (fresh p) :: u32) = - 1"
  then have "bit (ucast (fresh p) :: u32) 0" by simp
  then have "bit (fresh p) 0" by (simp add: bit_simps)
  moreover have "bit (take_bit 5 (fresh p)) 0 \<longleftrightarrow> False" using a(1,2) by (simp add: packs_ok_def and_31)
  ultimately show False by (simp add: bit_take_bit_iff)
qed

end
