(* ===== verification/PredProp.thy ===== *)
theory PredProp
  imports PropOrder
begin

text \<open>
  \<^verbatim>\<open>PredictionPropagationPass\<close> of \<^verbatim>\<open>drt/dfg_prediction_propagation.cpp\<close>: the rules by which predictions flow from variables to nodes and
  between nodes, their collection from the nodes of the graph, and the loops that run them along the plan.
\<close>

unbundle bit_operations_syntax

section \<open>Predictions and rules\<close>

text \<open>
  The fields that hold predictions: of logical variables, of captured variables, of the outputs of nodes, and the private copies
  that the rules for captured variables of a basic block keep.
\<close>

datatype pred_addr = VarPred nat | CapturedVarPred nat | NodePred nat nat | GvPred nat nat

type_synonym pred_mem = "pred_addr \<Rightarrow> type_mask"

definition UpdatePrediction :: "pred_addr \<Rightarrow> type_mask \<Rightarrow> pred_mem \<Rightarrow> pred_mem \<times> bool" where
  "UpdatePrediction dst msk m =
     (let oldMask = m dst; newMask = oldMask OR msk in (m(dst := newMask), newMask \<noteq> oldMask))"

record gv_rule =
  gv_variablePrediction :: pred_addr
  gv_prediction :: pred_addr

definition gv_Run :: "gv_rule \<Rightarrow> pred_mem \<Rightarrow> pred_mem \<times> bool" where
  "gv_Run rule m = UpdatePrediction (gv_prediction rule) (m (gv_variablePrediction rule)) m"

text \<open>
  The propagation function of a rule is either \<^verbatim>\<open>SssdPropagationFn\<close> or one that is generated for a bytecode. A generated function
  reads the predictions of its inputs and adds to each output the mask that a deduction function computes from them; the masks are
  a parameter, the update is the snippet \<^verbatim>\<open>UpdateTypeMaskForPredictionPropagation\<close>.
\<close>

datatype node_rule =
  Sssd pred_addr pred_addr
| Generated "type_mask option list \<Rightarrow> type_mask list" "pred_addr option list" "pred_addr list"

definition UpdateTypeMaskForPredictionPropagation :: "pred_addr \<Rightarrow> type_mask \<Rightarrow> pred_mem \<times> bool \<Rightarrow> pred_mem \<times> bool" where
  "UpdateTypeMaskForPredictionPropagation dst val s =
     (let (m, changed) = s; oldVal = m dst; newVal = oldVal OR val in (m(dst := newVal), changed \<or> oldVal \<noteq> newVal))"

fun rule_Run :: "node_rule \<Rightarrow> pred_mem \<Rightarrow> pred_mem \<times> bool" where
  "rule_Run (Sssd dst src) m = UpdatePrediction dst (m src) m"
| "rule_Run (Generated deduce inputs outputs) m =
     fold (\<lambda>(dst, val). UpdateTypeMaskForPredictionPropagation dst val) (zip outputs (deduce (map (map_option m) inputs))) (m, False)"

record bb_rules =
  br_gvRules :: "gv_rule list"
  br_nodeRules :: "node_rule list"

text \<open>Running rules in order; the flag is the disjunction of their results.\<close>

fun run_all :: "('r \<Rightarrow> 'm \<Rightarrow> 'm \<times> bool) \<Rightarrow> 'r list \<Rightarrow> 'm \<Rightarrow> 'm \<times> bool" where
  "run_all run [] m = (m, False)"
| "run_all run (r # rs) m = (let (m, c) = run r m; (m, c') = run_all run rs m in (m, c \<or> c'))"

definition bb_Run :: "bb_rules \<Rightarrow> bool \<Rightarrow> pred_mem \<Rightarrow> pred_mem \<times> bool" where
  "bb_Run bb isFirst m =
     (let (m, changed) = run_all gv_Run (br_gvRules bb) m in
      if \<not> changed \<and> \<not> isFirst then (m, False)
      else let (m, c) = run_all rule_Run (br_nodeRules bb) m in (m, changed \<or> c))"

text \<open>The loop over the basic blocks of a component.\<close>

definition run_round :: "bb_rules list \<Rightarrow> nat list \<Rightarrow> bool \<Rightarrow> pred_mem \<Rightarrow> pred_mem \<times> bool" where
  "run_round bbs blocks isFirst m = run_all (\<lambda>b. bb_Run (bbs ! b) isFirst) blocks m"

partial_function (option) run_component :: "bb_rules list \<Rightarrow> nat list \<Rightarrow> bool \<Rightarrow> pred_mem \<Rightarrow> pred_mem option" where
  "run_component bbs blocks isFirst m =
     (let (m, changed) = run_round bbs blocks isFirst m
      in if \<not> changed then Some m else run_component bbs blocks False m)"

definition run_item :: "bb_rules list \<Rightarrow> plan_item \<Rightarrow> pred_mem \<Rightarrow> pred_mem option" where
  "run_item bbs item m =
     (if pl_runOnceIsEnough item then Some (fst (bb_Run (bbs ! hd (pl_range item)) True m))
      else run_component bbs (pl_range item) True m)"

definition run_plan :: "bb_rules list \<Rightarrow> plan_item list \<Rightarrow> pred_mem \<Rightarrow> pred_mem option" where
  "run_plan bbs plan m = fold_opt (run_item bbs) plan m"

section \<open>Nodes\<close>

datatype node_kind =
    Constant tvalue | UnboxedConstant | UndefValue | Argument | GetNumVariadicArgs | GetKthVariadicArg | GetFunctionObject
  | Phi | Nop | ShadowStore | ShadowStoreUndefToRange | PhantomNode | CreateVariadicRes | PrependVariadicRes | CheckU64InBound
  | SetUpvalue | Return
  | GetLocal nat | SetLocal nat
  | CreateCapturedVar nat bool | GetCapturedVar nat | SetCapturedVar nat
  | GetKthVariadicRes | GetNumVariadicRes | I64SubSaturateToZero | CreateFunctionObject | GetUpvalueImmutable | GetUpvalueMutable
  | GuestLanguageNode nat nat

text \<open>An input of a node is an output of another: the ordinal of the node and of the output.\<close>

record dfg_node =
  dn_kind :: node_kind
  dn_inputs :: "(nat \<times> nat) list"
  dn_hasDirectOutput :: bool
  dn_numExtraOutputs :: nat

record dfg_graph =
  dg_node :: "nat \<Rightarrow> dfg_node"
  dg_constants :: "nat list"
  dg_blocks :: "nat list list"
  dg_numLogicalVars :: nat
  dg_numCapturedVars :: nat

text \<open>
  What is generated for a bytecode kind and the data of a node: the inputs that matter (\<open>None\<close> for an unused position of a range),
  the initial predictions of the outputs, the outputs that are value-profiled, and the deduction functions, if there are any.
\<close>

record pp_setup =
  st_inputOrds :: "nat option list"
  st_predictions :: "type_mask list"
  st_valueProfileOrds :: "nat list"

record bc_traits =
  bt_setup :: "nat \<Rightarrow> nat \<Rightarrow> pp_setup"
  bt_deduce :: "nat \<Rightarrow> (nat \<Rightarrow> type_mask option list \<Rightarrow> type_mask list) option"

record prop_pass =
  pp_mem :: pred_mem
  pp_referenced :: "nat \<Rightarrow> bool"
  pp_gvRuleBuffer :: "gv_rule list"
  pp_nodeRuleBuffer :: "node_rule list"
  pp_cvLogicalOrdSeen :: "nat list"
  pp_cvLogicalOrdSeenColor :: nat
  pp_numNodesAssignedPredictions :: nat
  pp_bbPropagators :: "bb_rules list"
  pp_planFinder :: prop_finder
  pp_extraRules :: "node_rule list"

record pp_env =
  pe_graph :: dfg_graph
  pe_bc :: bc_traits
  pe_fresh :: "nat \<Rightarrow> u64"
  pe_heapType :: "heap_ptr \<Rightarrow> HeapEntityType"
  pe_noValueProfile :: bool

definition pp_new :: "pp_env \<Rightarrow> pred_mem \<Rightarrow> (nat \<Rightarrow> bool) \<Rightarrow> (u64 \<Rightarrow> u32) \<Rightarrow> prop_pass" where
  "pp_new env mem referenced packMem =
     (let graph = pe_graph env; numCVLVs = dg_numCapturedVars graph; numLVs = dg_numLogicalVars graph; numBBs = length (dg_blocks graph)
      in \<lparr>pp_mem = (\<lambda>a. case a of VarPred i \<Rightarrow> x_typeMaskFor tBottom | CapturedVarPred i \<Rightarrow> x_typeMaskFor tBottom | _ \<Rightarrow> mem a),
          pp_referenced = referenced, pp_gvRuleBuffer = [], pp_nodeRuleBuffer = [],
          pp_cvLogicalOrdSeen = replicate numCVLVs 0, pp_cvLogicalOrdSeenColor = 0, pp_numNodesAssignedPredictions = 0,
          pp_bbPropagators = replicate numBBs \<lparr>br_gvRules = [], br_nodeRules = []\<rparr>,
          pp_planFinder = pf_Initialize (pe_fresh env) packMem numBBs numLVs numCVLVs, pp_extraRules = []\<rparr>)"

definition HasSeenCapturedVar :: "nat \<Rightarrow> prop_pass \<Rightarrow> bool" where
  "HasSeenCapturedVar ord s \<longleftrightarrow> pp_cvLogicalOrdSeen s ! ord = pp_cvLogicalOrdSeenColor s"

definition SetSeenCapturedVar :: "nat \<Rightarrow> prop_pass \<Rightarrow> prop_pass" where
  "SetSeenCapturedVar ord s = s\<lparr>pp_cvLogicalOrdSeen := (pp_cvLogicalOrdSeen s)[ord := pp_cvLogicalOrdSeenColor s]\<rparr>"

definition ClearSeenCapturedVars :: "prop_pass \<Rightarrow> prop_pass" where
  "ClearSeenCapturedVars s = s\<lparr>pp_cvLogicalOrdSeenColor := pp_cvLogicalOrdSeenColor s + 1\<rparr>"

text \<open>Allocating the prediction of a node with one output and storing its first value.\<close>

definition OneOutputPrediction :: "nat \<Rightarrow> type_mask \<Rightarrow> prop_pass \<Rightarrow> prop_pass" where
  "OneOutputPrediction node prediction s =
     s\<lparr>pp_numNodesAssignedPredictions := pp_numNodesAssignedPredictions s + 1, pp_mem := (pp_mem s)(NodePred node 0 := prediction)\<rparr>"

definition GetPredictionAddressForInputOperand :: "nat \<times> nat \<Rightarrow> pred_addr" where
  "GetPredictionAddressForInputOperand input = NodePred (fst input) (snd input)"

definition AddOrRunRule :: "nat \<Rightarrow> bool \<Rightarrow> node_rule \<Rightarrow> prop_pass \<Rightarrow> prop_pass" where
  "AddOrRunRule node mustAdd rule s =
     (if mustAdd then s\<lparr>pp_referenced := (pp_referenced s)(node := True), pp_nodeRuleBuffer := pp_nodeRuleBuffer s @ [rule]\<rparr>
      else s\<lparr>pp_mem := fst (rule_Run rule (pp_mem s)), pp_extraRules := pp_extraRules s @ [rule]\<rparr>)"

definition ProcessGetLocal :: "pp_env \<Rightarrow> nat \<Rightarrow> nat \<Rightarrow> nat \<Rightarrow> prop_pass \<Rightarrow> prop_pass" where
  "ProcessGetLocal env bbOrd node lvOrd s =
     (let s = OneOutputPrediction node (x_typeMaskFor tBottom) s;
          s = s\<lparr>pp_referenced := (pp_referenced s)(node := True),
                pp_gvRuleBuffer := pp_gvRuleBuffer s @ [\<lparr>gv_variablePrediction = VarPred lvOrd, gv_prediction = NodePred node 0\<rparr>]\<rparr>
      in s\<lparr>pp_planFinder := NotifyGetLocal (pe_fresh env) bbOrd lvOrd (pp_planFinder s)\<rparr>)"

definition ProcessSetLocal :: "pp_env \<Rightarrow> nat \<Rightarrow> nat \<Rightarrow> nat \<Rightarrow> prop_pass \<Rightarrow> prop_pass" where
  "ProcessSetLocal env bbOrd node lvOrd s =
     (let operand = dn_inputs (dg_node (pe_graph env) node) ! 0;
          inputAddr = GetPredictionAddressForInputOperand operand;
          s = AddOrRunRule node (pp_referenced s (fst operand)) (Sssd (VarPred lvOrd) inputAddr) s
      in s\<lparr>pp_planFinder := NotifySetLocal (pe_fresh env) bbOrd lvOrd (pp_planFinder s)\<rparr>)"

definition ProcessCreateCapturedVar :: "pp_env \<Rightarrow> nat \<Rightarrow> nat \<Rightarrow> nat \<Rightarrow> bool \<Rightarrow> prop_pass \<Rightarrow> prop_pass" where
  "ProcessCreateCapturedVar env bbOrd node ord isMutableSelfReference s =
     (let s = (if isMutableSelfReference
               then s\<lparr>pp_mem := (pp_mem s)(CapturedVarPred ord := pp_mem s (CapturedVarPred ord) OR x_typeMaskFor tFunction)\<rparr>
               else let operand = dn_inputs (dg_node (pe_graph env) node) ! 0;
                        inputAddr = GetPredictionAddressForInputOperand operand
                    in AddOrRunRule node (pp_referenced s (fst operand)) (Sssd (CapturedVarPred ord) inputAddr) s);
          s = OneOutputPrediction node (x_typeMaskFor tOpaque) s
      in s\<lparr>pp_planFinder := NotifyCreateOrSetCapturedVar (pe_fresh env) bbOrd ord (pp_planFinder s)\<rparr>)"

definition ProcessGetCapturedVar :: "pp_env \<Rightarrow> nat \<Rightarrow> nat \<Rightarrow> nat \<Rightarrow> prop_pass \<Rightarrow> prop_pass" where
  "ProcessGetCapturedVar env bbOrd node ord s =
     (let s = (if \<not> HasSeenCapturedVar ord s then
                 let s = SetSeenCapturedVar ord s;
                     s = s\<lparr>pp_mem := (pp_mem s)(GvPred bbOrd ord := x_typeMaskFor tBottom),
                           pp_gvRuleBuffer := pp_gvRuleBuffer s @ [\<lparr>gv_variablePrediction = CapturedVarPred ord, gv_prediction = GvPred bbOrd ord\<rparr>]\<rparr>
                 in s\<lparr>pp_planFinder := NotifyGetCapturedVar (pe_fresh env) bbOrd ord (pp_planFinder s)\<rparr>
               else s);
          s = OneOutputPrediction node (x_typeMaskFor tBottom) s
      in AddOrRunRule node True (Sssd (NodePred node 0) (CapturedVarPred ord)) s)"

definition ProcessSetCapturedVar :: "pp_env \<Rightarrow> nat \<Rightarrow> nat \<Rightarrow> nat \<Rightarrow> prop_pass \<Rightarrow> prop_pass" where
  "ProcessSetCapturedVar env bbOrd node ord s =
     (let operand = dn_inputs (dg_node (pe_graph env) node) ! 1;
          inputAddr = GetPredictionAddressForInputOperand operand;
          s = AddOrRunRule node (pp_referenced s (fst operand)) (Sssd (CapturedVarPred ord) inputAddr) s
      in s\<lparr>pp_planFinder := NotifyCreateOrSetCapturedVar (pe_fresh env) bbOrd ord (pp_planFinder s)\<rparr>)"

text \<open>Nodes whose prediction does not depend on any other.\<close>

definition ProcessGetKthVariadicRes :: "nat \<Rightarrow> prop_pass \<Rightarrow> prop_pass" where
  "ProcessGetKthVariadicRes node s = OneOutputPrediction node (x_typeMaskFor tBoxedValueTop) s"

definition ProcessGetNumVariadicRes :: "nat \<Rightarrow> prop_pass \<Rightarrow> prop_pass" where
  "ProcessGetNumVariadicRes node s = OneOutputPrediction node (x_typeMaskFor tOpaque) s"

definition ProcessI64SubSaturateToZero :: "nat \<Rightarrow> prop_pass \<Rightarrow> prop_pass" where
  "ProcessI64SubSaturateToZero node s = OneOutputPrediction node (x_typeMaskFor tOpaque) s"

definition ProcessCreateFunctionObject :: "nat \<Rightarrow> prop_pass \<Rightarrow> prop_pass" where
  "ProcessCreateFunctionObject node s = OneOutputPrediction node (x_typeMaskFor tFunction) s"

definition ProcessGetUpvalueImmutableOrMutable :: "nat \<Rightarrow> prop_pass \<Rightarrow> prop_pass" where
  "ProcessGetUpvalueImmutableOrMutable node s = OneOutputPrediction node (x_typeMaskFor tBoxedValueTop) s"

lemmas one_output_handlers [simp] = ProcessGetKthVariadicRes_def ProcessGetNumVariadicRes_def ProcessI64SubSaturateToZero_def ProcessCreateFunctionObject_def ProcessGetUpvalueImmutableOrMutable_def

text \<open>The prediction array of a node starts at output ordinal 0 or 1, depending on whether the node has a direct output.\<close>

definition output_addr :: "dfg_node \<Rightarrow> nat \<Rightarrow> nat \<Rightarrow> pred_addr" where
  "output_addr n node k = NodePred node (k + (if dn_hasDirectOutput n then 0 else 1))"

definition SetupPredictionArrayForNode :: "dfg_node \<Rightarrow> nat \<Rightarrow> type_mask list \<Rightarrow> prop_pass \<Rightarrow> prop_pass" where
  "SetupPredictionArrayForNode n node predictions s =
     s\<lparr>pp_numNodesAssignedPredictions := pp_numNodesAssignedPredictions s + 1,
       pp_mem := fold (\<lambda>k m. m(output_addr n node k := predictions ! k)) [0..<length predictions] (pp_mem s)\<rparr>"

definition ProcessGuestLanguageNode :: "pp_env \<Rightarrow> nat \<Rightarrow> nat \<Rightarrow> nat \<Rightarrow> prop_pass \<Rightarrow> prop_pass option" where
  "ProcessGuestLanguageNode env node bcKind nsd s =
     (let n = dg_node (pe_graph env) node in
      if \<not> dn_hasDirectOutput n \<and> dn_numExtraOutputs n = 0 then Some s
      else
        let setup = bt_setup (pe_bc env) bcKind nsd;
            s = SetupPredictionArrayForNode n node (st_predictions setup) s;
            inputs = map (map_option (\<lambda>value. dn_inputs n ! value)) (st_inputOrds setup);
            addrs = map (map_option GetPredictionAddressForInputOperand) inputs;
            mustFixpoint = (\<exists>inputVal\<in>set inputs. case inputVal of None \<Rightarrow> False | Some v \<Rightarrow> pp_referenced s (fst v))
        in if st_valueProfileOrds setup \<noteq> [] \<and> \<not> pe_noValueProfile env then None
           else
             let s = s\<lparr>pp_mem := fold (\<lambda>ord m. m(output_addr n node ord := x_typeMaskFor tBoxedValueTop)) (st_valueProfileOrds setup) (pp_mem s)\<rparr>
             in case bt_deduce (pe_bc env) bcKind of
                  None \<Rightarrow> Some s
                | Some deduce \<Rightarrow>
                    Some (AddOrRunRule node mustFixpoint
                      (Generated (deduce nsd) addrs (map (output_addr n node) [0..<length (st_predictions setup)])) s))"

definition constant_prediction :: "pp_env \<Rightarrow> node_kind \<Rightarrow> type_mask option" where
  "constant_prediction env kind = (case kind of
      Constant v \<Rightarrow> Some (GetTypeForBoxedValue (pe_heapType env) v)
    | UnboxedConstant \<Rightarrow> Some (x_typeMaskFor tOpaque)
    | UndefValue \<Rightarrow> Some (x_typeMaskFor tGarbage)
    | Argument \<Rightarrow> Some (x_typeMaskFor tBoxedValueTop)
    | GetNumVariadicArgs \<Rightarrow> Some (x_typeMaskFor tOpaque)
    | GetKthVariadicArg \<Rightarrow> Some (x_typeMaskFor tBoxedValueTop)
    | GetFunctionObject \<Rightarrow> Some (x_typeMaskFor tOpaque)
    | _ \<Rightarrow> None)"

definition ProcessConstantLikeNode :: "pp_env \<Rightarrow> nat \<Rightarrow> prop_pass \<Rightarrow> prop_pass option" where
  "ProcessConstantLikeNode env node s =
     (let s = s\<lparr>pp_referenced := (pp_referenced s)(node := False)\<rparr> in
      case constant_prediction env (dn_kind (dg_node (pe_graph env) node)) of None \<Rightarrow> None
      | Some p \<Rightarrow> Some (OneOutputPrediction node p s))"

definition ProcessAllConstantLikeNodes :: "pp_env \<Rightarrow> prop_pass \<Rightarrow> prop_pass option" where
  "ProcessAllConstantLikeNodes env s = fold_opt (ProcessConstantLikeNode env) (dg_constants (pe_graph env)) s"

definition ProcessNode :: "pp_env \<Rightarrow> nat \<Rightarrow> nat \<Rightarrow> prop_pass \<Rightarrow> prop_pass option" where
  "ProcessNode env bbOrd node s =
     (let s = s\<lparr>pp_referenced := (pp_referenced s)(node := False)\<rparr> in
      case dn_kind (dg_node (pe_graph env) node) of
        GuestLanguageNode bcKind nsd \<Rightarrow> ProcessGuestLanguageNode env node bcKind nsd s
      | Constant v \<Rightarrow> None | UnboxedConstant \<Rightarrow> None | UndefValue \<Rightarrow> None | Argument \<Rightarrow> None | GetNumVariadicArgs \<Rightarrow> None
      | GetKthVariadicArg \<Rightarrow> None | GetFunctionObject \<Rightarrow> None | Phi \<Rightarrow> None
      | Nop \<Rightarrow> Some s | ShadowStore \<Rightarrow> Some s | ShadowStoreUndefToRange \<Rightarrow> Some s | PhantomNode \<Rightarrow> Some s | CreateVariadicRes \<Rightarrow> Some s
      | PrependVariadicRes \<Rightarrow> Some s | CheckU64InBound \<Rightarrow> Some s | SetUpvalue \<Rightarrow> Some s | Return \<Rightarrow> Some s
      | GetLocal lvOrd \<Rightarrow> Some (ProcessGetLocal env bbOrd node lvOrd s)
      | SetLocal lvOrd \<Rightarrow> Some (ProcessSetLocal env bbOrd node lvOrd s)
      | CreateCapturedVar ord selfRef \<Rightarrow> Some (ProcessCreateCapturedVar env bbOrd node ord selfRef s)
      | GetCapturedVar ord \<Rightarrow> Some (ProcessGetCapturedVar env bbOrd node ord s)
      | SetCapturedVar ord \<Rightarrow> Some (ProcessSetCapturedVar env bbOrd node ord s)
      | GetKthVariadicRes \<Rightarrow> Some (ProcessGetKthVariadicRes node s)
      | GetNumVariadicRes \<Rightarrow> Some (ProcessGetNumVariadicRes node s)
      | I64SubSaturateToZero \<Rightarrow> Some (ProcessI64SubSaturateToZero node s)
      | CreateFunctionObject \<Rightarrow> Some (ProcessCreateFunctionObject node s)
      | GetUpvalueImmutable \<Rightarrow> Some (ProcessGetUpvalueImmutableOrMutable node s)
      | GetUpvalueMutable \<Rightarrow> Some (ProcessGetUpvalueImmutableOrMutable node s))"

definition ProcessBasicBlock :: "pp_env \<Rightarrow> nat \<Rightarrow> prop_pass \<Rightarrow> prop_pass option" where
  "ProcessBasicBlock env bbOrd s =
     (let s = ClearSeenCapturedVars (s\<lparr>pp_gvRuleBuffer := [], pp_nodeRuleBuffer := []\<rparr>) in
      case fold_opt (ProcessNode env bbOrd) (dg_blocks (pe_graph env) ! bbOrd) s of None \<Rightarrow> None
      | Some s \<Rightarrow> Some (s\<lparr>pp_bbPropagators :=
          (pp_bbPropagators s)[bbOrd := \<lparr>br_gvRules = pp_gvRuleBuffer s, br_nodeRules = pp_nodeRuleBuffer s\<rparr>]\<rparr>))"

definition SetupPropagation :: "pp_env \<Rightarrow> prop_pass \<Rightarrow> prop_pass option" where
  "SetupPropagation env s =
     (case ProcessAllConstantLikeNodes env s of None \<Rightarrow> None
      | Some s \<Rightarrow> fold_opt (ProcessBasicBlock env) [0..<length (dg_blocks (pe_graph env))] s)"

definition RunPropagation :: "pp_env \<Rightarrow> prop_pass \<Rightarrow> prop_pass option" where
  "RunPropagation env s =
     Option.bind (SetupPropagation env s) (\<lambda>s.
       Option.bind (ComputePlan (pp_planFinder s)) (\<lambda>plan.
         map_option (\<lambda>m. s\<lparr>pp_mem := m\<rparr>) (run_plan (pp_bbPropagators s) plan (pp_mem s))))"

text \<open>The check that a test build makes in the end: running any rule again changes nothing.\<close>

definition AssertFixpointIsReached :: "prop_pass \<Rightarrow> bool" where
  "AssertFixpointIsReached s \<longleftrightarrow>
     (\<forall>bb\<in>set (pp_bbPropagators s). (\<forall>rule\<in>set (br_gvRules bb). gv_Run rule (pp_mem s) = (pp_mem s, False)) \<and>
        (\<forall>rule\<in>set (br_nodeRules bb). rule_Run rule (pp_mem s) = (pp_mem s, False))) \<and>
     (\<forall>rule\<in>set (pp_extraRules s). rule_Run rule (pp_mem s) = (pp_mem s, False))"

text \<open>What the caller gets: the predictions of all variables and the number of nodes that have predictions.\<close>

record PredictionPropagationResult =
  ppr_varPredictions :: "type_mask list"
  ppr_capturedVarPredictions :: "type_mask list"
  ppr_totalNodesWithPredictions :: nat

definition RunPass :: "pp_env \<Rightarrow> pred_mem \<Rightarrow> (nat \<Rightarrow> bool) \<Rightarrow> (u64 \<Rightarrow> u32) \<Rightarrow> PredictionPropagationResult option" where
  "RunPass env mem referenced packMem =
     map_option (\<lambda>s. \<lparr>ppr_varPredictions = map (\<lambda>i. pp_mem s (VarPred i)) [0..<dg_numLogicalVars (pe_graph env)],
         ppr_capturedVarPredictions = map (\<lambda>i. pp_mem s (CapturedVarPred i)) [0..<dg_numCapturedVars (pe_graph env)],
         ppr_totalNodesWithPredictions = pp_numNodesAssignedPredictions s\<rparr>)
       (RunPropagation env (pp_new env mem referenced packMem))"

definition RunPredictionPropagation :: "pp_env \<Rightarrow> pred_mem \<Rightarrow> (nat \<Rightarrow> bool) \<Rightarrow> (u64 \<Rightarrow> u32) \<Rightarrow> PredictionPropagationResult option" where
  "RunPredictionPropagation env = RunPass (env\<lparr>pe_noValueProfile := False\<rparr>)"

definition RunPredictionPropagationWithoutValueProfile :: "pp_env \<Rightarrow> pred_mem \<Rightarrow> (nat \<Rightarrow> bool) \<Rightarrow> (u64 \<Rightarrow> u32) \<Rightarrow> PredictionPropagationResult option" where
  "RunPredictionPropagationWithoutValueProfile env = RunPass (env\<lparr>pe_noValueProfile := True\<rparr>)"

end
