(* ===== verification/PropOrderInv.thy ===== *)
theory PropOrderInv
  imports PropOrder
begin

text \<open>
  The packs of a node hold its edges in the order in which they were added, the iterator enumerates them, and the plan respects the
  edges of the graph. The iterator is an edge iterator of the component finder, as the one of the bitmap graph is.
\<close>

unbundle bit_operations_syntax

section \<open>What the packs of a node hold\<close>

text \<open>The packs \<open>ps\<close> hold the edges \<open>es\<close>, six in each; the next edge goes to the word \<open>pack_used es ps\<close> of the last pack.\<close>

definition pack_used :: "nat list \<Rightarrow> nat list \<Rightarrow> nat" where
  "pack_used es ps = length es - 6 * (length ps - 1)"

definition packed :: "(nat \<Rightarrow> u64) \<Rightarrow> (u64 \<Rightarrow> u32) \<Rightarrow> nat list \<Rightarrow> nat list \<Rightarrow> bool" where
  "packed fresh mem es ps \<longleftrightarrow> (\<forall>k<length es. mem (slot fresh (ps ! (k div 6)) (k mod 6)) = word_of_nat (es ! k)) \<and>
     (\<forall>j. j + 1 < length ps \<longrightarrow> UnalignedLoad64 mem (slot fresh (ps ! j) 6) = fresh (ps ! (j + 1)))"

definition pack_shape :: "nat \<Rightarrow> nat list \<Rightarrow> nat list \<Rightarrow> bool" where
  "pack_shape numPacks es ps \<longleftrightarrow> ps \<noteq> [] \<and> distinct ps \<and> set ps \<subseteq> {..<numPacks} \<and>
     length es \<le> 6 * length ps \<and> (length ps = 1 \<or> 6 * (length ps - 1) < length es)"

definition pf_repr :: "(nat \<Rightarrow> u64) \<Rightarrow> prop_finder \<Rightarrow> (nat \<Rightarrow> nat list) \<Rightarrow> (nat \<Rightarrow> nat list) \<Rightarrow> bool" where
  "pf_repr fresh s E P \<longleftrightarrow> length (pf_edgeHead s) = pf_numNodes s \<and> length (pf_edgeTail s) = pf_numNodes s \<and>
     (\<forall>v<pf_numNodes s. pack_shape (pf_numPacks s) (E v) (P v) \<and> packed fresh (pf_mem s) (E v) (P v) \<and>
        pf_edgeHead s ! v = fresh (hd (P v)) \<and> pf_edgeTail s ! v = slot fresh (last (P v)) (pack_used (E v) (P v)) \<and>
        set (E v) \<subseteq> {..<pf_numNodes s}) \<and>
     (\<forall>u<pf_numNodes s. \<forall>v<pf_numNodes s. u \<noteq> v \<longrightarrow> set (P u) \<inter> set (P v) = {})"

lemma pack_used_le: "pack_shape n es ps \<Longrightarrow> pack_used es ps \<le> 6"
  by (cases ps) (auto simp: pack_shape_def pack_used_def)

lemma pack_index:
  assumes "pack_shape n es ps" "k < length es"
  shows "k div 6 < length ps" "ps ! (k div 6) < n" "ps ! (k div 6) \<in> set ps"
proof -
  show l: "k div 6 < length ps" using assms by (simp add: pack_shape_def less_mult_imp_div_less mult.commute)
  then show "ps ! (k div 6) \<in> set ps" by simp
  then show "ps ! (k div 6) < n" using assms(1) by (auto simp: pack_shape_def)
qed

text \<open>What a node's packs hold depends only on their words that are in use.\<close>

lemma packed_frame:
  assumes "packed fresh mem es ps"
    and "\<And>k. k < length es \<Longrightarrow> mem' (slot fresh (ps ! (k div 6)) (k mod 6)) = mem (slot fresh (ps ! (k div 6)) (k mod 6))"
    and "\<And>j. j + 1 < length ps \<Longrightarrow> mem' (slot fresh (ps ! j) 6) = mem (slot fresh (ps ! j) 6) \<and> mem' (slot fresh (ps ! j) 7) = mem (slot fresh (ps ! j) 7)"
  shows "packed fresh mem' es ps"
  using assms slot_next(1)[of fresh _ 6] by (simp add: packed_def UnalignedLoad64_def)

lemma pf_reprD:
  assumes "pf_repr fresh s E P" "v < pf_numNodes s"
  shows "pack_shape (pf_numPacks s) (E v) (P v)" "packed fresh (pf_mem s) (E v) (P v)" "pf_edgeHead s ! v = fresh (hd (P v))"
    "pf_edgeTail s ! v = slot fresh (last (P v)) (pack_used (E v) (P v))" "set (E v) \<subseteq> {..<pf_numNodes s}"
    "P v \<noteq> []" "last (P v) < pf_numPacks s" "hd (P v) < pf_numPacks s"
proof -
  show sh: "pack_shape (pf_numPacks s) (E v) (P v)" and "packed fresh (pf_mem s) (E v) (P v)" "pf_edgeHead s ! v = fresh (hd (P v))"
    "pf_edgeTail s ! v = slot fresh (last (P v)) (pack_used (E v) (P v))" "set (E v) \<subseteq> {..<pf_numNodes s}"
    using assms unfolding pf_repr_def by blast+
  show ne: "P v \<noteq> []" using sh unfolding pack_shape_def by blast
  have "set (P v) \<subseteq> {..<pf_numPacks s}" using sh unfolding pack_shape_def by blast
  then show "last (P v) < pf_numPacks s" "hd (P v) < pf_numPacks s" using last_in_set[OF ne] hd_in_set[OF ne] by blast+
qed

lemma pf_repr_disjoint: "pf_repr fresh s E P \<Longrightarrow> u < pf_numNodes s \<Longrightarrow> v < pf_numNodes s \<Longrightarrow> u \<noteq> v \<Longrightarrow> p \<in> set (P u) \<Longrightarrow> p \<notin> set (P v)"
  unfolding pf_repr_def by blast

lemma pf_Initialize_repr:
  fixes fresh mem a b c
  defines "s \<equiv> pf_Initialize fresh mem a b c"
  shows "pf_repr fresh s (\<lambda>v. []) (\<lambda>v. [v])" "pf_numNodes s = a + b + c" "pf_numBBs s = a" "pf_cvNodeOffset s = a + b" "pf_numPacks s = a + b + c"
  by (auto simp: s_def pf_Initialize_def pf_repr_def pack_shape_def packed_def pack_used_def slot_def Let_def)

text \<open>The position after the last edge, which the tail points to, is not among the words in use of any node.\<close>

lemma tail_apart:
  assumes K: "packs_ok fresh (pf_numPacks s)" and R: "pf_repr fresh s E P" and u: "u < pf_numNodes s" and v: "v < pf_numNodes s"
  shows "k < length (E v) \<Longrightarrow> slot fresh (P v ! (k div 6)) (k mod 6) \<noteq> pf_edgeTail s ! u"
    and "j + 1 < length (P v) \<Longrightarrow> i \<in> {6, 7} \<Longrightarrow> slot fresh (P v ! j) i \<noteq> pf_edgeTail s ! u"
proof -
  note U = pf_reprD[OF R u] note W = pf_reprD[OF R v]
  have le: "pack_used (E u) (P u) \<le> 6" using pack_used_le[OF U(1)] .
  show "slot fresh (P v ! (k div 6)) (k mod 6) \<noteq> pf_edgeTail s ! u" if k: "k < length (E v)"
  proof
    assume "slot fresh (P v ! (k div 6)) (k mod 6) = pf_edgeTail s ! u"
    then have e: "P v ! (k div 6) = last (P u)" "k mod 6 = pack_used (E u) (P u)"
      using slot_inject[OF K pack_index(2)[OF W(1) k] U(7), of "k mod 6" "pack_used (E u) (P u)"] U(4) le by simp_all
    have uv: "u = v" using pf_repr_disjoint[OF R v u, of "P v ! (k div 6)"] pack_index(3)[OF W(1) k] e(1) U(6) by (metis last_in_set)
    have "k div 6 = length (P v) - 1"
      using e(1) U(1) pack_index(1)[OF W(1) k] uv unfolding pack_shape_def by (simp add: last_conv_nth nth_eq_iff_index_eq)
    then have "k = 6 * (length (P v) - 1) + pack_used (E v) (P v)" using e(2) uv mult_div_mod_eq[of 6 k] by simp
    then show False using k by (simp add: pack_used_def)
  qed
  show "slot fresh (P v ! j) i \<noteq> pf_edgeTail s ! u" if j: "j + 1 < length (P v)" "i \<in> {6, 7}"
  proof
    assume "slot fresh (P v ! j) i = pf_edgeTail s ! u"
    moreover have jn: "P v ! j \<in> set (P v)" "P v ! j < pf_numPacks s" using j W(1) by (auto simp: pack_shape_def dest!: subsetD)
    ultimately have e: "P v ! j = last (P u)" using slot_inject[OF K jn(2) U(7), of i "pack_used (E u) (P u)"] U(4) le j(2) by auto
    have uv: "u = v" using pf_repr_disjoint[OF R v u _ jn(1)] e U(6) by (metis last_in_set)
    then show False using e U(1) j(1) unfolding pack_shape_def by (simp add: last_conv_nth nth_eq_iff_index_eq)
  qed
qed

section \<open>Adding edges\<close>

lemma packs_ok_less: "packs_ok fresh k \<Longrightarrow> j \<le> k \<Longrightarrow> packs_ok fresh j"
  unfolding packs_ok_def using inj_on_subset[of fresh "{..<k}" "{..<j}"] by auto

lemma pack_shape_more: "pack_shape n es ps \<Longrightarrow> n \<le> m \<Longrightarrow> pack_shape m es ps"
  by (auto simp: pack_shape_def dest!: subsetD)

lemma pack_full: "pack_shape n es ps \<Longrightarrow> pack_used es ps = 6 \<Longrightarrow> length es = 6 * length ps"
  by (cases ps) (auto simp: pack_shape_def pack_used_def)

lemma pack_position:
  assumes "pack_shape n es ps" "pack_used es ps < 6"
  shows "length es div 6 = length ps - 1" "length es mod 6 = pack_used es ps"
proof -
  have l: "length es = 6 * (length ps - 1) + pack_used es ps" using assms(1) by (auto simp: pack_shape_def pack_used_def)
  show "length es div 6 = length ps - 1" using assms(2) unfolding l by simp
  show "length es mod 6 = pack_used es ps" using assms(2) by (subst l) simp
qed

lemma add_in_pack:
  assumes K: "packs_ok fresh (pf_numPacks s)" and R: "pf_repr fresh s E P" and u: "u < pf_numNodes s" and d: "d < pf_numNodes s"
    and room: "pack_used (E u) (P u) < 6"
  shows "pf_repr fresh (AddEdge fresh u d s) (E(u := E u @ [d])) P" "pf_numPacks (AddEdge fresh u d s) = pf_numPacks s"
proof -
  note U = pf_reprD[OF R u]
  let ?t = "slot fresh (last (P u)) (pack_used (E u) (P u))"
  let ?mem = "(pf_mem s)(?t := word_of_nat d)"
  have "\<not> IsAtLastEdgeInPack ?t" using slot_last[OF K U(7)] room by simp
  then have S: "AddEdge fresh u d s = s\<lparr>pf_mem := ?mem, pf_edgeTail := (pf_edgeTail s)[u := slot fresh (last (P u)) (pack_used (E u) (P u) + 1)]\<rparr>"
    by (simp add: AddEdge_def Let_def U(4) slot_next(1))
  then show "pf_numPacks (AddEdge fresh u d s) = pf_numPacks s" by simp
  note T = tail_apart[OF K R u, unfolded U(4)]
  have fr: "packed fresh ?mem (E v) (P v)" if "v < pf_numNodes s" for v
    using packed_frame[where fresh = fresh and es = "E v" and ps = "P v", OF pf_reprD(2)[OF R that], of ?mem] T[OF that] by auto
  note pos = pack_position[OF U(1) room]
  have shape: "pack_shape (pf_numPacks s) (E u @ [d]) (P u)" using U(1) room by (auto simp: pack_shape_def pack_used_def)
  have used: "pack_used (E u @ [d]) (P u) = pack_used (E u) (P u) + 1" using U(1) by (auto simp: pack_shape_def pack_used_def)
  have "packed fresh ?mem (E u @ [d]) (P u)"
  proof -
    have "?mem (slot fresh (P u ! (k div 6)) (k mod 6)) = word_of_nat ((E u @ [d]) ! k)" if "k < length (E u @ [d])" for k
    proof (cases "k = length (E u)")
      case True
      then show ?thesis using pos U(6) by (simp add: last_conv_nth)
    next
      case False
      then show ?thesis using fr[OF u] that by (simp add: packed_def nth_append)
    qed
    then show ?thesis using fr[OF u] by (simp add: packed_def)
  qed
  then show "pf_repr fresh (AddEdge fresh u d s) (E(u := E u @ [d])) P"
    using R shape used d fr unfolding S pf_repr_def by (simp add: nth_list_update)
qed

lemma add_new_pack:
  assumes K: "packs_ok fresh (pf_numPacks s + 1)" and R: "pf_repr fresh s E P" and u: "u < pf_numNodes s" and d: "d < pf_numNodes s"
    and full: "pack_used (E u) (P u) = 6"
  defines "q \<equiv> pf_numPacks s"
  shows "pf_repr fresh (AddEdge fresh u d s) (E(u := E u @ [d])) (P(u := P u @ [q]))" "pf_numPacks (AddEdge fresh u d s) = q + 1"
proof -
  have K0: "packs_ok fresh (pf_numPacks s)" using packs_ok_less[OF K] by simp
  note U = pf_reprD[OF R u]
  let ?t = "slot fresh (last (P u)) 6"
  let ?mem = "UnalignedStore64 ((pf_mem s)(fresh q := word_of_nat d)) ?t (fresh q)"
  have last: "IsAtLastEdgeInPack ?t" using slot_last[OF K0 U(7)] by simp
  have S: "AddEdge fresh u d s = s\<lparr>pf_mem := ?mem, pf_edgeTail := (pf_edgeTail s)[u := slot fresh q 1], pf_numPacks := q + 1\<rparr>"
    using last by (simp add: AddEdge_def Let_def U(4) full slot_next(3)[folded One_nat_def] slot_next(3)[unfolded One_nat_def] q_def)
  then show "pf_numPacks (AddEdge fresh u d s) = q + 1" by simp
  have lq: "last (P u) < q" using U(7) by (simp add: q_def)
  have in1: "slot fresh p i = slot fresh (last (P u)) j \<longleftrightarrow> p = last (P u) \<and> i = j" "slot fresh p i = slot fresh q j \<longleftrightarrow> p = q \<and> i = j"
    if "p < q + 1" "i < 8" "j < 8" for p i j
    using slot_inject[OF K, of p _ i j] that lq by (simp_all add: q_def)
  have mem: "?mem (slot fresh p i) = (if p = q \<and> i = 0 then word_of_nat d else if p = last (P u) \<and> i = 6 then ucast (fresh q)
      else if p = last (P u) \<and> i = 7 then ucast (drop_bit 32 (fresh q)) else pf_mem s (slot fresh p i))" if "p < q + 1" "i < 8" for p i
    using that in1(1)[OF that, of 6] in1(1)[OF that, of 7] in1(2)[OF that, of 0] lq slot_next(1)[of fresh "last (P u)" 6] slot_next(2)[of fresh q]
    by (auto simp: UnalignedStore64_def)
  have lt: "p < q" if "v < pf_numNodes s" "p \<in> set (P v)" for v p using pf_reprD(1)[OF R that(1)] that(2) by (auto simp: pack_shape_def q_def)
  have fr: "packed fresh ?mem (E v) (P v)" if v: "v < pf_numNodes s" for v
  proof (rule packed_frame[OF pf_reprD(2)[OF R v]])
    fix k assume k: "k < length (E v)"
    have "P v ! (k div 6) < q" using pack_index(2)[OF pf_reprD(1)[OF R v] k] by (simp add: q_def)
    moreover have "k mod 6 < 6" by simp
    ultimately show "?mem (slot fresh (P v ! (k div 6)) (k mod 6)) = pf_mem s (slot fresh (P v ! (k div 6)) (k mod 6))"
      using mem[of "P v ! (k div 6)" "k mod 6"] by auto
  next
    fix j assume j: "j + 1 < length (P v)"
    have pj: "P v ! j < q" using lt[OF v, of "P v ! j"] j by simp
    have "P v ! j \<noteq> last (P u)"
    proof (cases "u = v")
      case True
      then show ?thesis using U(1) j unfolding pack_shape_def by (simp add: last_conv_nth nth_eq_iff_index_eq)
    next
      case False
      then show ?thesis using pf_repr_disjoint[OF R v u, of "P v ! j"] j U(6) by (metis last_in_set nth_mem add_lessD1)
    qed
    then show "?mem (slot fresh (P v ! j) 6) = pf_mem s (slot fresh (P v ! j) 6) \<and> ?mem (slot fresh (P v ! j) 7) = pf_mem s (slot fresh (P v ! j) 7)"
      using mem[of "P v ! j" 6] mem[of "P v ! j" 7] pj by simp
  qed
  note fl = pack_full[OF U(1) full]
  have shape: "pack_shape (q + 1) (E u @ [d]) (P u @ [q])" using U(1) fl lt[OF u] unfolding pack_shape_def q_def by (auto simp: less_SucI)
  have "packed fresh ?mem (E u @ [d]) (P u @ [q])"
    unfolding packed_def
  proof (intro conjI allI impI)
    fix k assume k: "k < length (E u @ [d])"
    show "?mem (slot fresh ((P u @ [q]) ! (k div 6)) (k mod 6)) = word_of_nat ((E u @ [d]) ! k)"
    proof (cases "k = length (E u)")
      case True
      then show ?thesis using mem[of q 0] fl by (simp add: nth_append)
    next
      case False
      then show ?thesis using fr[OF u] k pack_index(1)[OF U(1), of k] by (simp add: packed_def nth_append)
    qed
  next
    fix j assume j: "j + 1 < length (P u @ [q])"
    show "UnalignedLoad64 ?mem (slot fresh ((P u @ [q]) ! j) 6) = fresh ((P u @ [q]) ! (j + 1))"
    proof (cases "j + 1 = length (P u)")
      case True
      then have "j = length (P u) - 1" "j < length (P u)" by simp_all
      then have "(P u @ [q]) ! j = last (P u)" "(P u @ [q]) ! (j + 1) = q" using U(6) by (simp_all add: last_conv_nth nth_append)
      then show ?thesis using load_store by simp
    next
      case False
      then show ?thesis using fr[OF u] j by (simp add: packed_def nth_append)
    qed
  qed
  moreover have "pack_used (E u @ [d]) (P u @ [q]) = 1" using fl by (simp add: pack_used_def)
  moreover have "pack_shape (q + 1) (E v) (P v)" if "v < pf_numNodes s" for v using pack_shape_more[OF pf_reprD(1)[OF R that]] by (simp add: q_def)
  moreover have "q \<notin> set (P v)" if "v < pf_numNodes s" for v using lt[OF that] by blast
  ultimately show "pf_repr fresh (AddEdge fresh u d s) (E(u := E u @ [d])) (P(u := P u @ [q]))"
    using R shape d fr U(3,6) u unfolding S pf_repr_def by (auto simp: nth_list_update hd_append)
qed

lemma AddEdge_repr:
  assumes K: "packs_ok fresh (pf_numPacks (AddEdge fresh u d s))" and R: "pf_repr fresh s E P" and "u < pf_numNodes s" "d < pf_numNodes s"
  shows "\<exists>P'. pf_repr fresh (AddEdge fresh u d s) (E(u := E u @ [d])) P'"
proof (cases "pack_used (E u) (P u) = 6")
  case True
  have "pf_numPacks (AddEdge fresh u d s) = pf_numPacks s + 1"
  proof (rule ccontr)
    assume n: "pf_numPacks (AddEdge fresh u d s) \<noteq> pf_numPacks s + 1"
    then have "\<not> IsAtLastEdgeInPack (pf_edgeTail s ! u)" "pf_numPacks (AddEdge fresh u d s) = pf_numPacks s" by (auto simp: AddEdge_def Let_def split: if_splits)
    then show False using K slot_last[of fresh "pf_numPacks s" "last (P u)" 6] pf_reprD(4,7)[OF R assms(3)] True by simp
  qed
  then show ?thesis using add_new_pack(1)[OF _ R assms(3,4) True] K by auto
next
  case False
  then have "pack_used (E u) (P u) < 6" using pack_used_le[OF pf_reprD(1)[OF R assms(3)]] by simp
  moreover have "pf_numPacks s \<le> pf_numPacks (AddEdge fresh u d s)" by (simp add: AddEdge_def Let_def)
  ultimately show ?thesis using add_in_pack(1)[OF packs_ok_less[OF K] R assms(3,4)] by blast
qed

lemma AddEdge_fields [simp]:
  "pf_numNodes (AddEdge fresh u d s) = pf_numNodes s" "pf_numBBs (AddEdge fresh u d s) = pf_numBBs s"
  "pf_cvNodeOffset (AddEdge fresh u d s) = pf_cvNodeOffset s" "pf_numPacks s \<le> pf_numPacks (AddEdge fresh u d s)"
  by (simp_all add: AddEdge_def Let_def)

section \<open>The finished graph\<close>

definition pf_final :: "(nat \<Rightarrow> u64) \<Rightarrow> prop_finder \<Rightarrow> (nat \<Rightarrow> nat list) \<Rightarrow> (nat \<Rightarrow> nat list) \<Rightarrow> bool" where
  "pf_final fresh s E P \<longleftrightarrow> packs_ok fresh (pf_numPacks s) \<and> pf_numNodes s < 2 ^ 32 \<and> pf_repr fresh s E P \<and>
     (\<forall>v<pf_numNodes s. pf_mem s (pf_edgeTail s ! v) = - 1)"

lemma FinalizeGraph_mem: "pf_mem (FinalizeGraph s) a = (if a \<in> (!) (pf_edgeTail s) ` {..<pf_numNodes s} then - 1 else pf_mem s a)"
proof -
  have "fold (\<lambda>i mem. mem(pf_edgeTail s ! i := - 1)) [0..<n] m a = (if a \<in> (!) (pf_edgeTail s) ` {..<n} then - 1 else m a)" for n and m :: "u64 \<Rightarrow> u32"
    by (induction n) (auto simp: less_Suc_eq)
  then show ?thesis by (simp add: FinalizeGraph_def)
qed

lemma FinalizeGraph_fields [simp]:
  "pf_numNodes (FinalizeGraph s) = pf_numNodes s" "pf_numBBs (FinalizeGraph s) = pf_numBBs s" "pf_edgeHead (FinalizeGraph s) = pf_edgeHead s"
  "pf_edgeTail (FinalizeGraph s) = pf_edgeTail s" "pf_numPacks (FinalizeGraph s) = pf_numPacks s"
  by (simp_all add: FinalizeGraph_def)

lemma FinalizeGraph_final:
  assumes K: "packs_ok fresh (pf_numPacks s)" and R: "pf_repr fresh s E P" and n: "pf_numNodes s < 2 ^ 32"
  shows "pf_final fresh (FinalizeGraph s) E P"
proof -
  have "packed fresh (pf_mem (FinalizeGraph s)) (E v) (P v)" if v: "v < pf_numNodes s" for v
  proof (rule packed_frame[OF pf_reprD(2)[OF R v]])
    fix k assume "k < length (E v)"
    then show "pf_mem (FinalizeGraph s) (slot fresh (P v ! (k div 6)) (k mod 6)) = pf_mem s (slot fresh (P v ! (k div 6)) (k mod 6))"
      unfolding FinalizeGraph_mem using tail_apart(1)[OF K R _ v] by auto
  next
    fix j assume "j + 1 < length (P v)"
    then show "pf_mem (FinalizeGraph s) (slot fresh (P v ! j) 6) = pf_mem s (slot fresh (P v ! j) 6) \<and>
      pf_mem (FinalizeGraph s) (slot fresh (P v ! j) 7) = pf_mem s (slot fresh (P v ! j) 7)"
      unfolding FinalizeGraph_mem using tail_apart(2)[OF K R _ v, of _ j 6] tail_apart(2)[OF K R _ v, of _ j 7] by auto
  qed
  then have "pf_repr fresh (FinalizeGraph s) E P" using R unfolding pf_repr_def by simp
  then show ?thesis using K n unfolding pf_final_def by (simp add: FinalizeGraph_mem)
qed

text \<open>A cursor that stands on the \<open>k\<close>-th edge of its node.\<close>

definition pi_at :: "(nat \<Rightarrow> u64) \<Rightarrow> prop_finder \<Rightarrow> (nat \<Rightarrow> nat list) \<Rightarrow> (nat \<Rightarrow> nat list) \<Rightarrow> nat \<Rightarrow> pack_iter \<Rightarrow> bool" where
  "pi_at fresh s E P k it \<longleftrightarrow> k < length (E (pi_sourceNode it)) \<and> pi_destNode it = word_of_nat (E (pi_sourceNode it) ! k) \<and>
     pi_nextPtr it = slot fresh (P (pi_sourceNode it) ! (k div 6)) (k mod 6 + 1)"

definition pi_rest :: "(nat \<Rightarrow> u64) \<Rightarrow> prop_finder \<Rightarrow> (nat \<Rightarrow> nat list) \<Rightarrow> (nat \<Rightarrow> nat list) \<Rightarrow> pack_iter \<Rightarrow> nat list \<Rightarrow> bool" where
  "pi_rest fresh s E P it es \<longleftrightarrow> pi_sourceNode it < pf_numNodes s \<and>
     (if es = [] then pi_destNode it = - 1 else \<exists>k. pi_at fresh s E P k it \<and> es = drop k (E (pi_sourceNode it)))"

lemma node_not_minus_1: "x < n \<Longrightarrow> n < 2 ^ 32 \<Longrightarrow> (word_of_nat x :: u32) \<noteq> - 1 \<and> unat (word_of_nat x :: u32) = x"
proof -
  assume a: "x < n" "n < 2 ^ 32"
  then have u: "unat (word_of_nat x :: u32) = x" by (simp add: unat_of_nat)
  have m: "unat (- 1 :: u32) = 2 ^ 32 - 1" by (simp add: unsigned_minus_1_eq_mask mask_eq_exp_minus_1)
  have "(word_of_nat x :: u32) \<noteq> - 1"
  proof
    assume "(word_of_nat x :: u32) = - 1"
    then have "x = 2 ^ 32 - 1" using u m by metis
    then show False using a by simp
  qed
  then show ?thesis using u by blast
qed

lemma pack_read:
  assumes F: "pf_final fresh s E P" and v: "v < pf_numNodes s" and k: "k < length (E v)"
  shows "pf_mem s (slot fresh (P v ! (k div 6)) (k mod 6)) = word_of_nat (E v ! k)"
    "(word_of_nat (E v ! k) :: u32) \<noteq> - 1" "unat (word_of_nat (E v ! k) :: u32) = E v ! k"
proof -
  have R: "pf_repr fresh s E P" and n: "pf_numNodes s < 2 ^ 32" using F by (auto simp: pf_final_def)
  show "pf_mem s (slot fresh (P v ! (k div 6)) (k mod 6)) = word_of_nat (E v ! k)" using pf_reprD(2)[OF R v] k by (simp add: packed_def)
  have "E v ! k < pf_numNodes s" using pf_reprD(5)[OF R v] k nth_mem[OF k] by blast
  from node_not_minus_1[OF this n]
  show "(word_of_nat (E v ! k) :: u32) \<noteq> - 1" "unat (word_of_nat (E v ! k) :: u32) = E v ! k" by blast+
qed

lemma PackIter_all:
  assumes F: "pf_final fresh s E P" and v: "v < pf_numNodes s"
  shows "pi_rest fresh s E P (PackIter s v) (E v)"
proof -
  have R: "pf_repr fresh s E P" using F by (simp add: pf_final_def)
  note V = pf_reprD[OF R v]
  have hd: "pf_edgeHead s ! v = slot fresh (P v ! 0) 0" using V(3,6) by (simp add: hd_conv_nth slot_next(2))
  show ?thesis
  proof (cases "E v = []")
    case True
    then have "length (P v) = 1" "pack_used (E v) (P v) = 0" using V(1) by (auto simp: pack_shape_def pack_used_def)
    then have "pf_edgeTail s ! v = slot fresh (P v ! 0) 0" using V(4,6) by (simp add: last_conv_nth)
    moreover have "pf_mem s (pf_edgeTail s ! v) = - 1" using F v by (simp add: pf_final_def)
    ultimately show ?thesis using v True hd by (simp add: pi_rest_def PackIter_def Let_def)
  next
    case False
    then have "pi_at fresh s E P 0 (PackIter s v)"
      using pack_read(1)[OF F v, of 0] hd slot_next(1)[of fresh "P v ! 0" 0] by (simp add: pi_at_def PackIter_def Let_def)
    moreover have "pi_sourceNode (PackIter s v) = v" by (simp add: PackIter_def Let_def)
    ultimately show ?thesis using False v unfolding pi_rest_def by auto
  qed
qed

lemma pi_Advance_next:
  assumes F: "pf_final fresh s E P" and r: "pi_rest fresh s E P it (x # xs)"
  shows "pi_rest fresh s E P (fst (pi_Advance s it)) xs" "snd (pi_Advance s it) = (xs \<noteq> [])" "unat (pi_destNode it) = x"
    "pi_sourceNode (fst (pi_Advance s it)) = pi_sourceNode it"
proof -
  let ?v = "pi_sourceNode it"
  have R: "pf_repr fresh s E P" and K: "packs_ok fresh (pf_numPacks s)" using F by (auto simp: pf_final_def)
  obtain k where v: "?v < pf_numNodes s" and k: "k < length (E ?v)" "pi_destNode it = word_of_nat (E ?v ! k)"
    "pi_nextPtr it = slot fresh (P ?v ! (k div 6)) (k mod 6 + 1)" and xs: "x # xs = drop k (E ?v)"
    using r by (auto simp: pi_rest_def pi_at_def split: if_splits)
  note V = pf_reprD[OF R v]
  have x: "x = E ?v ! k" "xs = drop (k + 1) (E ?v)" using xs k(1) by (simp_all add: Cons_nth_drop_Suc[symmetric])
  show "unat (pi_destNode it) = x" using k(2) x(1) pack_read(3)[OF F v k(1)] by simp
  show "pi_sourceNode (fst (pi_Advance s it)) = ?v" by (simp add: pi_Advance_def Let_def)
  have "pi_rest fresh s E P (fst (pi_Advance s it)) xs \<and> snd (pi_Advance s it) = (xs \<noteq> [])"
  proof (cases "k + 1 < length (E ?v)")
    case False
    then have e: "xs = []" "length (E ?v) = k + 1" using x(2) k(1) by simp_all
    have "pi_nextPtr it = pf_edgeTail s ! ?v"
    proof -
      have "k div 6 = length (P ?v) - 1" using V(1) e(2) by (auto simp: pack_shape_def intro!: div_nat_eqI)
      moreover from this have "pack_used (E ?v) (P ?v) = k mod 6 + 1" using e(2) mult_div_mod_eq[of 6 k] by (simp add: pack_used_def)
      ultimately show ?thesis using k(3) V(4,6) by (simp add: last_conv_nth)
    qed
    then have "pi_Advance s it = (it\<lparr>pi_destNode := - 1\<rparr>, False)" using F v by (simp add: pi_Advance_def pf_final_def)
    then show ?thesis using e(1) v by (simp add: pi_rest_def)
  next
    case True
    let ?it = "it\<lparr>pi_destNode := word_of_nat (E ?v ! (k + 1)), pi_nextPtr := slot fresh (P ?v ! ((k + 1) div 6)) ((k + 1) mod 6 + 1)\<rparr>"
    note rd = pack_read[OF F v True]
    have pk: "P ?v ! (k div 6) < pf_numPacks s" using pack_index(2)[OF V(1) k(1)] .
    have "pi_Advance s it = (?it, True)"
    proof (cases "k mod 6 = 5")
      case False
      then have d: "(k + 1) div 6 = k div 6" "(k + 1) mod 6 = k mod 6 + 1" by (simp_all add: div_Suc mod_Suc)
      have "\<not> IsAtLastEdgeInPack (pi_nextPtr it)" using slot_last[OF K pk, of "k mod 6 + 1"] False k(3) by simp
      then show ?thesis using rd k(3) d slot_next(1)[of fresh _ "k mod 6 + 1"] by (simp add: pi_Advance_def Let_def)
    next
      case five: True
      then have d: "(k + 1) div 6 = k div 6 + 1" "(k + 1) mod 6 = 0" by (simp_all add: div_Suc mod_Suc)
      have np: "pi_nextPtr it = slot fresh (P ?v ! (k div 6)) 6" using k(3) five by simp
      have j: "k div 6 + 1 < length (P ?v)" using pack_index(1)[OF V(1) True] d(1) by simp
      have ld: "UnalignedLoad64 (pf_mem s) (slot fresh (P ?v ! (k div 6)) 6) = fresh (P ?v ! (k div 6 + 1))" using V(2) j by (simp add: packed_def)
      have "P ?v ! (k div 6 + 1) < pf_numPacks s" using pack_index(2)[OF V(1) True] d(1) by simp
      note lh = low_half[OF K this]
      have "(ucast (UnalignedLoad64 (pf_mem s) (slot fresh (P ?v ! (k div 6)) 6)) :: u32) = pf_mem s (slot fresh (P ?v ! (k div 6)) 6)"
        unfolding UnalignedLoad64_def by (rule bit_word_eqI) (auto simp: bit_simps)
      then have ne: "pf_mem s (pi_nextPtr it) \<noteq> - 1" using lh ld np by simp
      have "IsAtLastEdgeInPack (pi_nextPtr it)" using slot_last[OF K pk, of 6] np by simp
      moreover have "pf_mem s (fresh (P ?v ! (k div 6 + 1))) = word_of_nat (E ?v ! (k + 1))" using rd(1) d by (simp add: slot_next(2))
      ultimately show ?thesis using ne ld np d by (simp add: pi_Advance_def Let_def slot_next(3)[unfolded One_nat_def])
    qed
    moreover have "pi_at fresh s E P (k + 1) ?it" using True by (simp add: pi_at_def)
    moreover have "xs \<noteq> []" using x(2) True by simp
    ultimately show ?thesis using v x(2) unfolding pi_rest_def by auto
  qed
  then show "pi_rest fresh s E P (fst (pi_Advance s it)) xs" "snd (pi_Advance s it) = (xs \<noteq> [])" by blast+
qed

lemma pi_rest_unique:
  assumes F: "pf_final fresh s E P" and a: "pi_rest fresh s E P it es" and b: "pi_rest fresh s E P it es'"
  shows "es = es'"
proof -
  let ?v = "pi_sourceNode it"
  have R: "pf_repr fresh s E P" and K: "packs_ok fresh (pf_numPacks s)" and v: "?v < pf_numNodes s" using F a by (auto simp: pf_final_def pi_rest_def)
  have ne: "pi_destNode it \<noteq> - 1" if "pi_at fresh s E P k it" for k using that pack_read(2)[OF F v] by (simp add: pi_at_def)
  have "k = k'" if "pi_at fresh s E P k it" "pi_at fresh s E P k' it" for k k'
  proof -
    note V = pf_reprD[OF R v]
    have k: "k < length (E ?v)" "k' < length (E ?v)" and e: "slot fresh (P ?v ! (k div 6)) (k mod 6 + 1) = slot fresh (P ?v ! (k' div 6)) (k' mod 6 + 1)"
      using that by (simp_all add: pi_at_def)
    have m: "k mod 6 + 1 < 8" "k' mod 6 + 1 < 8" by (simp_all add: less_Suc_eq_le le_SucI order.trans[OF less_imp_le[OF mod_less_divisor]])
    have "P ?v ! (k div 6) = P ?v ! (k' div 6)" "k mod 6 = k' mod 6"
      using e slot_inject[OF K pack_index(2)[OF V(1) k(1)] pack_index(2)[OF V(1) k(2)] m] by simp_all
    moreover have "distinct (P ?v)" using V(1) by (simp add: pack_shape_def)
    ultimately have "k div 6 = k' div 6" using pack_index(1)[OF V(1) k(1)] pack_index(1)[OF V(1) k(2)] by (simp add: nth_eq_iff_index_eq)
    then show ?thesis using \<open>k mod 6 = k' mod 6\<close> by (metis div_mult_mod_eq)
  qed
  then show ?thesis using a b ne unfolding pi_rest_def by (metis (full_types))
qed

definition pi_rem :: "(nat \<Rightarrow> u64) \<Rightarrow> prop_finder \<Rightarrow> (nat \<Rightarrow> nat list) \<Rightarrow> (nat \<Rightarrow> nat list) \<Rightarrow> pack_iter \<Rightarrow> nat list" where
  "pi_rem fresh s E P it = (THE es. pi_rest fresh s E P it es)"

lemma pi_rem_eq: "pf_final fresh s E P \<Longrightarrow> pi_rest fresh s E P it es \<Longrightarrow> pi_rem fresh s E P it = es"
  unfolding pi_rem_def using pi_rest_unique by blast

text \<open>The nodes of a finished graph; there are none otherwise.\<close>

definition pf_nodes :: "(nat \<Rightarrow> u64) \<Rightarrow> prop_finder \<Rightarrow> (nat \<Rightarrow> nat list) \<Rightarrow> (nat \<Rightarrow> nat list) \<Rightarrow> nat" where
  "pf_nodes fresh s E P = (if pf_final fresh s E P then pf_numNodes s else 0)"

interpretation pf: edge_iterator "pf_edge_ops s" "pf_nodes fresh s E P" E "pi_rem fresh s E P"
  "\<lambda>it. pf_final fresh s E P \<and> (\<exists>es. pi_rest fresh s E P it es)" for s fresh E P
proof
  fix v assume "v < pf_nodes fresh s E P"
  then have v: "pf_final fresh s E P" "v < pf_numNodes s" by (auto simp: pf_nodes_def split: if_splits)
  have r: "pi_rest fresh s E P (PackIter s v) (E v)" by (rule PackIter_all[OF v])
  show "(pf_final fresh s E P \<and> (\<exists>es. pi_rest fresh s E P (eo_Construct (pf_edge_ops s) v) es)) \<and>
      eo_GetSourceNode (pf_edge_ops s) (eo_Construct (pf_edge_ops s) v) = v \<and> pi_rem fresh s E P (eo_Construct (pf_edge_ops s) v) = E v"
    using r pi_rem_eq[OF v(1) r] v(1) by (auto simp: pf_edge_ops_def) (simp add: PackIter_def Let_def)
  have "pf_repr fresh s E P" using v(1) by (simp add: pf_final_def)
  then show "set (E v) \<subseteq> {..<pf_nodes fresh s E P}" using pf_reprD(5)[OF _ v(2)] v(1) by (simp add: pf_nodes_def)
next
  fix it assume a: "pf_final fresh s E P \<and> (\<exists>es. pi_rest fresh s E P it es)"
  then obtain es where es: "pf_final fresh s E P" "pi_rest fresh s E P it es" by blast
  have v: "pi_sourceNode it < pf_numNodes s" using es(2) by (simp add: pi_rest_def)
  have "pi_IsValid it \<longleftrightarrow> es \<noteq> []"
  proof (cases "es = []")
    case False
    then obtain k where "k < length (E (pi_sourceNode it))" "pi_destNode it = word_of_nat (E (pi_sourceNode it) ! k)"
      using es(2) by (auto simp: pi_rest_def pi_at_def)
    then show ?thesis using pack_read(2)[OF es(1) v] False by (metis pi_IsValid_def)
  qed (use es(2) in \<open>simp add: pi_IsValid_def pi_rest_def\<close>)
  then show "eo_IsValid (pf_edge_ops s) it \<longleftrightarrow> pi_rem fresh s E P it \<noteq> []" using pi_rem_eq[OF es] by (simp add: pf_edge_ops_def)
next
  fix it x xs assume a: "pf_final fresh s E P \<and> (\<exists>es. pi_rest fresh s E P it es)" "pi_rem fresh s E P it = x # xs"
  then obtain es0 where e0: "pf_final fresh s E P" "pi_rest fresh s E P it es0" by blast
  then have es: "pf_final fresh s E P" "pi_rest fresh s E P it (x # xs)" using pi_rem_eq[OF e0] a(2) by simp_all
  note A = pi_Advance_next[OF es]
  show "eo_GetDestNode (pf_edge_ops s) it = x" using A(3) by (simp add: pf_edge_ops_def)
  show "(pf_final fresh s E P \<and> (\<exists>es. pi_rest fresh s E P (fst (eo_Advance (pf_edge_ops s) it)) es)) \<and>
     snd (eo_Advance (pf_edge_ops s) it) = (xs \<noteq> []) \<and> pi_rem fresh s E P (fst (eo_Advance (pf_edge_ops s) it)) = xs \<and>
     eo_GetSourceNode (pf_edge_ops s) (fst (eo_Advance (pf_edge_ops s) it)) = eo_GetSourceNode (pf_edge_ops s) it"
    using A pi_rem_eq[OF es(1) A(1)] es(1) by (auto simp: pf_edge_ops_def)
qed

section \<open>The plan follows the edges\<close>

text \<open>
  The items list every basic block once; the blocks of an item that runs once have no way back to themselves, and whatever a block
  reaches lies in its own item or a later one.
\<close>

definition plan_ok :: "nat \<Rightarrow> nat \<Rightarrow> (nat \<Rightarrow> nat list) \<Rightarrow> plan_item list \<Rightarrow> bool" where
  "plan_ok numNodes numBBs E plan \<longleftrightarrow> distinct (concat (map pl_range plan)) \<and> set (concat (map pl_range plan)) = {..<numBBs} \<and>
     sorted_wrt (\<lambda>a b. \<forall>u\<in>set (pl_range b). \<forall>v\<in>set (pl_range a). \<not> (graph_edge numNodes E)\<^sup>*\<^sup>* u v) plan \<and>
     (\<forall>item\<in>set plan. pl_range item \<noteq> [] \<and> (pl_runOnceIsEnough item \<longrightarrow>
       (\<exists>b. pl_range item = [b] \<and> (\<forall>v. v \<noteq> b \<longrightarrow> graph_edge numNodes E b v \<longrightarrow> \<not> graph_edge numNodes E v b))))"


lemma topo_reach:
  assumes T: "topo_sorted n E r" and "i < ts_numSCCs r" "u \<in> set (ts_scc r i)" "(graph_edge n E)\<^sup>*\<^sup>* u v"
    and closed: "\<And>u v. graph_edge n E u v \<Longrightarrow> v < n"
  shows "\<exists>j<ts_numSCCs r. i \<le> j \<and> v \<in> set (ts_scc r j)"
  using assms(4)
proof induction
  case base
  then show ?case using assms(2,3) by blast
next
  case (step v w)
  then obtain j where j: "j < ts_numSCCs r" "i \<le> j" "v \<in> set (ts_scc r j)" by blast
  have "w \<in> set (ts_nodeList r)" using T closed[OF step(2)] unfolding topo_sorted_def by blast
  moreover have "concat (map (ts_scc r) [0..<ts_numSCCs r]) = ts_nodeList r" using T unfolding topo_sorted_def by blast
  ultimately have "w \<in> set (concat (map (ts_scc r) [0..<ts_numSCCs r]))" by simp
  then obtain j' where j': "j' < ts_numSCCs r" "w \<in> set (ts_scc r j')" by auto
  have "\<not> j' < j"
  proof
    assume "j' < j"
    then have "\<not> graph_edge n E v w" using T j(1,3) j'(2) unfolding topo_sorted_def by blast
    then show False using step(2) by blast
  qed
  then have "i \<le> j'" using j(2) by simp
  then show ?case using j' by blast
qed

lemma map_by_nth: "map f xs = map (\<lambda>i. f (xs ! i)) [0..<length xs]"
  by (rule nth_equalityI) simp_all

lemma concat_if: "concat (map (\<lambda>i. if Q i then [g i] else []) xs) = map g (filter Q xs)"
  by (induction xs) simp_all

lemma plan_items_eq:
  fixes numBBs :: nat
  assumes "length (ts_sccList r) = ts_numSCCs r"
  shows "plan_items numBBs r =
    map (\<lambda>i. let data = filter (\<lambda>v. v < numBBs) (ts_scc r i) in \<lparr>pl_range = data, pl_runOnceIsEnough = (length data = 1 \<and> si_size (ts_sccList r ! i) = 1)\<rparr>)
      (filter (\<lambda>i. filter (\<lambda>v. v < numBBs) (ts_scc r i) \<noteq> []) [0..<ts_numSCCs r])"
proof -
  let ?f = "\<lambda>item. let span = take (si_size item) (drop (si_offset item) (ts_nodeList r));
           data = filter (\<lambda>nodeIdx. nodeIdx < numBBs) span; cnt = length data
       in if cnt > 0 then [\<lparr>pl_range = data, pl_runOnceIsEnough = (cnt = 1 \<and> si_size item = 1)\<rparr>] else []"
  let ?g = "\<lambda>i. let data = filter (\<lambda>v. v < numBBs) (ts_scc r i) in \<lparr>pl_range = data, pl_runOnceIsEnough = (length data = 1 \<and> si_size (ts_sccList r ! i) = 1)\<rparr>"
  have "concat (map ?f (ts_sccList r)) = concat (map (\<lambda>i. ?f (ts_sccList r ! i)) [0..<ts_numSCCs r])"
    unfolding map_by_nth[of ?f "ts_sccList r"] assms ..
  also have "\<dots> = concat (map (\<lambda>i. if filter (\<lambda>v. v < numBBs) (ts_scc r i) \<noteq> [] then [?g i] else []) [0..<ts_numSCCs r])"
    by (simp add: ts_scc_def[of r] Let_def cong: if_cong)
  also have "\<dots> = map ?g (filter (\<lambda>i. filter (\<lambda>v. v < numBBs) (ts_scc r i) \<noteq> []) [0..<ts_numSCCs r])" by (rule concat_if)
  finally show ?thesis unfolding plan_items_def .
qed


lemma distinct_concat_parts:
  assumes "distinct (concat (map f [0..<k]))" "i < k" "j < k" "x \<in> set (f i)" "x \<in> set (f j)"
  shows "i = j"
proof -
  have "set (f i) \<inter> set (f j) = {}" if "i < j" "j < k" for i j
  proof -
    have "[0..<k] = [0..<j] @ [j..<k]" using upt_split[of 0 j k] that by simp
    then have "set (concat (map f [0..<j])) \<inter> set (concat (map f [j..<k])) = {}" using assms(1) by simp
    then show ?thesis using that by force
  qed
  then show ?thesis using assms(2-5) by (metis IntI empty_iff linorder_neqE_nat)
qed

lemma plan_items_ok:
  assumes T: "topo_sorted n E r" and b: "numBBs \<le> n" and closed: "\<And>u v. graph_edge n E u v \<Longrightarrow> u < n \<and> v < n"
  shows "plan_ok n numBBs E (plan_items numBBs r)"
proof -
  let ?k = "ts_numSCCs r"
  let ?d = "\<lambda>i. filter (\<lambda>v. v < numBBs) (ts_scc r i)"
  let ?item = "\<lambda>i. \<lparr>pl_range = ?d i, pl_runOnceIsEnough = (length (?d i) = 1 \<and> si_size (ts_sccList r ! i) = 1)\<rparr>"
  let ?is = "filter (\<lambda>i. ?d i \<noteq> []) [0..<?k]"
  have t: "length (ts_sccList r) = ?k" "distinct (ts_nodeList r)" "set (ts_nodeList r) = {..<n}" "concat (map (ts_scc r) [0..<?k]) = ts_nodeList r"
    using T unfolding topo_sorted_def by blast+
  have cls: "v \<in> set (ts_scc r i) \<longleftrightarrow> (graph_edge n E)\<^sup>*\<^sup>* u v \<and> (graph_edge n E)\<^sup>*\<^sup>* v u" if "i < ?k" "u \<in> set (ts_scc r i)" "v < n" for i u v
    using T that unfolding topo_sorted_def by blast
  have plan: "plan_items numBBs r = map ?item ?is" using plan_items_eq[OF t(1), of numBBs] by (simp add: Let_def)
  have skip: "concat (map f (filter (\<lambda>i. f i \<noteq> []) xs)) = concat (map f xs)" for f :: "nat \<Rightarrow> nat list" and xs by (induction xs) simp_all
  have "concat (map ?d ?is) = concat (map ?d [0..<?k])" by (rule skip)
  also have "\<dots> = filter (\<lambda>v. v < numBBs) (concat (map (ts_scc r) [0..<?k]))" unfolding filter_concat map_map comp_def ..
  finally have cc: "concat (map pl_range (map ?item ?is)) = filter (\<lambda>v. v < numBBs) (ts_nodeList r)" unfolding t(4) map_map comp_def by simp
  have "distinct (filter (\<lambda>v. v < numBBs) (ts_nodeList r))" by (rule distinct_filter[OF t(2)])
  moreover have "set (filter (\<lambda>v. v < numBBs) (ts_nodeList r)) = {..<numBBs}" unfolding set_filter t(3) using order.strict_trans2[OF _ b] by blast
  moreover have "sorted_wrt (\<lambda>a b. \<forall>u\<in>set (pl_range b). \<forall>v\<in>set (pl_range a). \<not> (graph_edge n E)\<^sup>*\<^sup>* u v) (map ?item ?is)"
    unfolding sorted_wrt_map
  proof (rule sorted_wrt_mono_rel)
    show "sorted_wrt (<) ?is" by (intro sorted_wrt_filter) simp
    fix i j assume ij: "i \<in> set ?is" "j \<in> set ?is" "i < j"
    have "\<not> (graph_edge n E)\<^sup>*\<^sup>* u v" if u: "u \<in> set (ts_scc r j)" and v: "v \<in> set (ts_scc r i)" for u v
    proof
      assume e: "(graph_edge n E)\<^sup>*\<^sup>* u v"
      have jk: "j < ?k" "i < ?k" using ij(1,2) by simp_all
      obtain j' where j': "j' < ?k" "j \<le> j'" "v \<in> set (ts_scc r j')" using topo_reach[OF T jk(1) u e] closed by blast
      have "distinct (concat (map (ts_scc r) [0..<?k]))" using t(2,4) by simp
      from distinct_concat_parts[OF this jk(2) j'(1) v j'(3)] show False using ij(3) j'(2) by simp
    qed
    then show "\<forall>u\<in>set (pl_range (?item j)). \<forall>v\<in>set (pl_range (?item i)). \<not> (graph_edge n E)\<^sup>*\<^sup>* u v" by simp
  qed
  moreover have "\<exists>b. ?d i = [b] \<and> (\<forall>v. v \<noteq> b \<longrightarrow> graph_edge n E b v \<longrightarrow> \<not> graph_edge n E v b)"
    if i: "i < ?k" "length (?d i) = 1" "si_size (ts_sccList r ! i) = 1" for i
  proof -
    have "length (ts_scc r i) \<le> 1" using i(3) by (simp add: ts_scc_def)
    moreover have "length (?d i) \<le> length (ts_scc r i)" by simp
    ultimately have "length (ts_scc r i) = 1" using i(2) by linarith
    then obtain b where s: "ts_scc r i = [b]" by (auto simp: length_Suc_conv)
    then have d: "?d i = [b]" using i(2) by (auto split: if_splits)
    have "\<not> graph_edge n E v b" if v: "v \<noteq> b" "graph_edge n E b v" for v
    proof
      assume "graph_edge n E v b"
      then have "v \<in> set (ts_scc r i)" using cls[OF i(1), of b v] s v(2) closed[OF v(2)] by auto
      then show False using s v(1) by simp
    qed
    then show ?thesis using d by blast
  qed
  ultimately show ?thesis unfolding plan_ok_def plan cc by auto
qed

lemma ComputePlan_ok:
  assumes R: "pf_repr fresh s E P" and K: "packs_ok fresh (pf_numPacks s)" and n: "pf_numNodes s < 2 ^ 32" "0 < pf_numNodes s" "pf_numBBs s \<le> pf_numNodes s"
  shows "\<exists>plan. ComputePlan s = Some plan \<and> plan_ok (pf_numNodes s) (pf_numBBs s) E plan"
proof -
  let ?s = "FinalizeGraph s"
  have F: "pf_final fresh ?s E P" using FinalizeGraph_final[OF K R n(1)] .
  then have N: "pf_nodes fresh ?s E P = pf_numNodes s" by (simp add: pf_nodes_def)
  obtain k res where k: "ComputeForGenericGraph (pf_edge_ops ?s) (pf_numNodes s) = Some (k, res)" "scc_numbering (pf_numNodes s) E k res"
    using pf.ComputeForGenericGraph_correct[of fresh ?s E P] n(2) unfolding N by blast
  obtain r where r: "ts_Compute (pf_edge_ops ?s) (pf_numNodes s) k res False = Some r" "topo_sorted (pf_numNodes s) E r"
    using pf.Compute_sorted[of fresh ?s E P k res False] k(2) unfolding N by blast
  have "graph_edge (pf_numNodes s) E u v \<Longrightarrow> u < pf_numNodes s \<and> v < pf_numNodes s" for u v
    using pf_reprD(5)[OF R, of u] unfolding graph_edge_def by auto
  then have "plan_ok (pf_numNodes s) (pf_numBBs s) E (plan_items (pf_numBBs s) r)" using plan_items_ok[OF r(2) n(3)] by blast
  then show ?thesis using k(1) r(1) by (simp add: ComputePlan_def)
qed

text \<open>Edges added one after the other.\<close>

lemma AddEdges_fields [simp]:
  "pf_numNodes (fold (\<lambda>(u, d). AddEdge fresh u d) L s) = pf_numNodes s" "pf_numBBs (fold (\<lambda>(u, d). AddEdge fresh u d) L s) = pf_numBBs s"
  "pf_cvNodeOffset (fold (\<lambda>(u, d). AddEdge fresh u d) L s) = pf_cvNodeOffset s"
  by (induction L arbitrary: s) (auto simp: split_beta)

lemma AddEdge_packs: "pf_numPacks (AddEdge fresh u d s) \<le> pf_numPacks s + 1"
  by (simp add: AddEdge_def Let_def)

lemma AddEdges_packs: "pf_numPacks (fold (\<lambda>(u, d). AddEdge fresh u d) L s) \<le> pf_numPacks s + length L"
proof (induction L arbitrary: s)
  case (Cons e L)
  show ?case using Cons[of "AddEdge fresh (fst e) (snd e) s"] AddEdge_packs[of fresh "fst e" "snd e" s] by (simp add: split_beta)
qed simp

lemma AddEdges_repr:
  assumes "pf_repr fresh s E P" "packs_ok fresh (pf_numPacks s + length L)" "\<forall>(u, d)\<in>set L. u < pf_numNodes s \<and> d < pf_numNodes s"
  shows "\<exists>E' P'. pf_repr fresh (fold (\<lambda>(u, d). AddEdge fresh u d) L s) E' P' \<and> (\<forall>u d. d \<in> set (E' u) \<longleftrightarrow> d \<in> set (E u) \<or> (u, d) \<in> set L)"
  using assms
proof (induction L arbitrary: s E P)
  case (Cons e L)
  obtain u d where e: "e = (u, d)" by (cases e)
  let ?s = "AddEdge fresh u d s"
  have le: "pf_numPacks ?s + length L \<le> pf_numPacks s + length (e # L)" using AddEdge_packs[of fresh u d s] by simp
  have "packs_ok fresh (pf_numPacks ?s)" using packs_ok_less[OF Cons(3)] le by simp
  then obtain P1 where R: "pf_repr fresh ?s (E(u := E u @ [d])) P1" using AddEdge_repr[OF _ Cons(2), of u d] Cons(4) e by auto
  obtain E' P' where IH: "pf_repr fresh (fold (\<lambda>(u, d). AddEdge fresh u d) L ?s) E' P'"
    "\<forall>v c. c \<in> set (E' v) \<longleftrightarrow> c \<in> set ((E(u := E u @ [d])) v) \<or> (v, c) \<in> set L"
    using Cons(1)[OF R packs_ok_less[OF Cons(3) le]] Cons(4) by auto
  have "c \<in> set (E' v) \<longleftrightarrow> c \<in> set (E v) \<or> (v, c) \<in> set (e # L)" for v c using IH(2) e by auto
  then show ?case using IH(1) e by auto
qed auto

text \<open>An allocator that hands out consecutive packs.\<close>

lemma consecutive_packs:
  assumes "k < 2 ^ 32"
  shows "packs_ok (\<lambda>i. word_of_nat (32 * i)) k"
proof -
  have u: "unat (word_of_nat (32 * i) :: u64) = 32 * i" if "i < k" for i using that assms by (simp add: unat_of_nat del: of_nat_mult)
  have "inj_on (\<lambda>i. word_of_nat (32 * i) :: u64) {..<k}" by (rule inj_onI) (metis lessThan_iff u mult_cancel1 zero_neq_numeral)
  moreover have "(word_of_nat (32 * i) :: u64) AND 31 = 0" if "i < k" for i
  proof -
    have "unat (take_bit 5 (word_of_nat (32 * i) :: u64)) = 32 * i mod 32" unfolding unsigned_take_bit_eq u[OF that] by (simp add: take_bit_eq_mod)
    then show ?thesis unfolding and_31 by (simp add: unat_eq_zero)
  qed
  ultimately show ?thesis unfolding packs_ok_def by blast
qed

lemma plan_ok_edges: "(\<And>u. set (E u) = set (E' u)) \<Longrightarrow> plan_ok n k E plan = plan_ok n k E' plan"
proof -
  assume "\<And>u. set (E u) = set (E' u)"
  then have "graph_edge n E = graph_edge n E'" by (intro ext) (simp add: graph_edge_def)
  then show ?thesis unfolding plan_ok_def by simp
qed

text \<open>
  C21. \<^bold>\<open>The plan follows the edges.\<close> For any sequence of edges between basic blocks and variables, \<^verbatim>\<open>ComputePlan\<close> returns a plan that lists every basic
  block once, in groups such that no block of a group reaches one of an earlier group, and that marks as to be run once only a group
  of one block that is not on a cycle with a variable.
\<close>

theorem plan_follows_edges:
  assumes "0 < numBBs" "numBBs + numLVs + numCVs < 2 ^ 32" "packs_ok fresh (numBBs + numLVs + numCVs + length edges)"
    and "\<forall>(u, d)\<in>set edges. u < numBBs + numLVs + numCVs \<and> d < numBBs + numLVs + numCVs"
  shows "\<exists>plan. ComputePlan (fold (\<lambda>(u, d). AddEdge fresh u d) edges (pf_Initialize fresh mem numBBs numLVs numCVs)) = Some plan \<and>
    plan_ok (numBBs + numLVs + numCVs) numBBs (\<lambda>u. map snd (filter (\<lambda>e. fst e = u) edges)) plan"
proof -
  let ?s = "fold (\<lambda>(u, d). AddEdge fresh u d) edges (pf_Initialize fresh mem numBBs numLVs numCVs)" and ?n = "numBBs + numLVs + numCVs"
  note I = pf_Initialize_repr[of fresh mem numBBs numLVs numCVs]
  obtain E P where R: "pf_repr fresh ?s E P" "\<forall>u d. d \<in> set (E u) \<longleftrightarrow> d \<in> set [] \<or> (u, d) \<in> set edges"
    using AddEdges_repr[OF I(1), of edges] assms(3,4) unfolding I(2,5) by blast
  have K: "packs_ok fresh (pf_numPacks ?s)" by (rule packs_ok_less[OF assms(3)]) (use AddEdges_packs[of fresh edges] I(5) in metis)
  obtain plan where p: "ComputePlan ?s = Some plan" "plan_ok ?n numBBs E plan" using ComputePlan_ok[OF R(1) K] assms(1,2) by (auto simp: I)
  have "set (E u) = set (map snd (filter (\<lambda>e. fst e = u) edges))" for u using R(2) by force
  then have "plan_ok ?n numBBs E plan = plan_ok ?n numBBs (\<lambda>u. map snd (filter (\<lambda>e. fst e = u) edges)) plan" by (intro plan_ok_edges)
  then show ?thesis using p by blast
qed

theorem plan_follows_edges_witness:
  "packs_ok (\<lambda>i. word_of_nat (32 * i)) 11 \<and>
   (\<exists>plan. ComputePlan (fold (\<lambda>(u, d). AddEdge (\<lambda>i. word_of_nat (32 * i)) u d) (replicate 7 (0, 2) @ [(2, 1)])
       (pf_Initialize (\<lambda>i. word_of_nat (32 * i)) (\<lambda>a. 9) 2 1 0)) = Some plan \<and>
     plan_ok 3 2 (\<lambda>u. map snd (filter (\<lambda>e. fst e = u) (replicate 7 (0, 2) @ [(2, 1)]))) plan)"
  using plan_follows_edges[of 2 1 0 "\<lambda>i. word_of_nat (32 * i)" "replicate 7 (0, 2) @ [(2, 1)]" "\<lambda>a. 9"] consecutive_packs[of 11] by simp

end
