(* ===== verification/PredRules.thy ===== *)
theory PredRules
  imports PredProp PropOrderInv
begin

text \<open>
  The order of predictions; the laws that a rule of the propagation obeys, as a locale with the two kinds of rules as instances; and
  what running the rules of one basic block achieves.
\<close>

unbundle bit_operations_syntax

section \<open>The order of predictions\<close>

lemma mask_eq_iff: "(a :: type_mask) = b \<longleftrightarrow> (\<forall>i<32. bit a i \<longleftrightarrow> bit b i)"
  by (auto intro!: bit_word_eqI)

lemma sub_iff: "tm_SubsetOf a b \<longleftrightarrow> (\<forall>i<32. bit a i \<longrightarrow> bit b i)"
  unfolding tm_SubsetOf_def mask_eq_iff by (auto simp: bit_and_iff)

lemma sub_refl [simp]: "tm_SubsetOf a a"
  by (simp add: sub_iff)

lemma sub_trans: "tm_SubsetOf a b \<Longrightarrow> tm_SubsetOf b c \<Longrightarrow> tm_SubsetOf a c"
  by (simp add: sub_iff)

lemma sub_antisym: "tm_SubsetOf a b \<Longrightarrow> tm_SubsetOf b a \<Longrightarrow> a = b"
  unfolding sub_iff by (intro bit_word_eqI) auto

lemma sub_or [simp]: "tm_SubsetOf a (a OR b)" "tm_SubsetOf b (a OR b)"
  by (simp_all add: sub_iff bit_or_iff)

lemma or_sub: "tm_SubsetOf a c \<Longrightarrow> tm_SubsetOf b c \<Longrightarrow> tm_SubsetOf (a OR b) c"
  by (auto simp: sub_iff bit_or_iff)

lemma or_absorb: "a OR b = a \<longleftrightarrow> tm_SubsetOf b a"
  by (auto simp: sub_iff mask_eq_iff bit_or_iff)

lemma sub_le: "tm_SubsetOf a b \<Longrightarrow> a \<le> b"
  unfolding tm_SubsetOf_def by (metis word_and_le1)

definition mem_le :: "pred_mem \<Rightarrow> pred_mem \<Rightarrow> bool" where
  "mem_le m m' \<longleftrightarrow> (\<forall>a. tm_SubsetOf (m a) (m' a))"

lemma mem_leD: "mem_le m m' \<Longrightarrow> tm_SubsetOf (m a) (m' a)"
  by (simp add: mem_le_def)

lemma mem_le_refl [simp]: "mem_le m m"
  by (simp add: mem_le_def)

lemma mem_le_trans: "mem_le m m' \<Longrightarrow> mem_le m' m'' \<Longrightarrow> mem_le m m''"
  unfolding mem_le_def using sub_trans by blast

lemma mem_le_antisym: "mem_le m m' \<Longrightarrow> mem_le m' m \<Longrightarrow> m = m'"
  unfolding mem_le_def using sub_antisym by blast

lemma mem_squeeze: "mem_le m m' \<Longrightarrow> mem_le m' m'' \<Longrightarrow> m'' a = m a \<Longrightarrow> m' a = m a"
  using sub_antisym mem_leD by metis

section \<open>Rules\<close>

text \<open>
  What a rule promises: it changes only what it writes, predictions only grow, its result tells whether anything changed, and
  running it again after its inputs stayed the same changes nothing.
\<close>

locale rule_system =
  fixes run :: "'r \<Rightarrow> pred_mem \<Rightarrow> pred_mem \<times> bool" and reads writes :: "'r \<Rightarrow> pred_addr set"
  assumes frame: "a \<notin> writes r \<Longrightarrow> fst (run r m) a = m a"
    and grows: "mem_le m (fst (run r m))"
    and flag: "snd (run r m) \<longleftrightarrow> fst (run r m) \<noteq> m"
    and settles: "(\<forall>a\<in>reads r. m' a = m a) \<Longrightarrow> (\<forall>a\<in>writes r. tm_SubsetOf (fst (run r m) a) (m' a)) \<Longrightarrow> run r m' = (m', False)"
begin

lemma all_frame: "\<forall>r\<in>set rs. a \<notin> writes r \<Longrightarrow> fst (run_all run rs m) a = m a"
proof (induction rs arbitrary: m)
  case (Cons r rs)
  then show ?case using frame[of a r m] by (auto simp: split_beta Let_def)
qed simp

lemma all_grows: "mem_le m (fst (run_all run rs m))"
proof (induction rs arbitrary: m)
  case (Cons r rs)
  then show ?case using mem_le_trans[OF grows[of m r]] by (simp add: split_beta Let_def)
qed simp

lemma all_flag: "snd (run_all run rs m) \<longleftrightarrow> fst (run_all run rs m) \<noteq> m"
proof (induction rs arbitrary: m)
  case (Cons r rs)
  let ?m = "fst (run r m)"
  have "fst (run_all run rs ?m) = m \<Longrightarrow> ?m = m" using mem_le_antisym[OF grows[of m r]] all_grows[of ?m rs] by simp
  then show ?case using flag[of r m] Cons[of ?m] by (auto simp: split_beta Let_def)
qed simp

lemma all_quiet: "fst (run_all run rs m) = m \<Longrightarrow> r \<in> set rs \<Longrightarrow> run r m = (m, False)"
proof (induction rs)
  case (Cons x rs)
  let ?m = "fst (run x m)"
  have "?m = m" using Cons(2) mem_le_antisym[OF grows[of m x]] all_grows[of ?m rs] by (simp add: split_beta Let_def)
  then have "run x m = (m, False)" using flag[of x m] by (metis prod.collapse)
  then show ?case using Cons by (auto simp: split_beta Let_def)
qed simp

text \<open>
  Each input of a rule kept its value from the start, or nothing wrote it from the rule on: then all rules are settled.
\<close>

lemma all_settled:
  assumes "mem_le (fst (run_all run rs m)) M"
    and "\<forall>i<length rs. \<forall>a\<in>reads (rs ! i). M a = m a \<or> M a = fst (run_all run rs m) a \<and> (\<forall>j<length rs. i \<le> j \<longrightarrow> a \<notin> writes (rs ! j))"
  shows "\<forall>r\<in>set rs. run r M = (M, False)"
  using assms
proof (induction rs arbitrary: m)
  case (Cons r rs)
  let ?m = "fst (run r m)" and ?f = "fst (run_all run (r # rs) m)"
  have f: "?f = fst (run_all run rs ?m)" by (simp add: split_beta Let_def)
  have le: "mem_le m ?m" "mem_le ?m ?f" using grows all_grows unfolding f by blast+
  have rd: "M a = m a" if "a \<in> reads r" for a
  proof -
    have "M a = m a \<or> M a = ?f a \<and> (\<forall>j<length (r # rs). a \<notin> writes ((r # rs) ! j))" using Cons(3)[rule_format, of 0 a] that by auto
    moreover have "?f a = m a" if "\<forall>j<length (r # rs). a \<notin> writes ((r # rs) ! j)" 
    proof (rule all_frame)
      show "\<forall>x\<in>set (r # rs). a \<notin> writes x" using that by (metis in_set_conv_nth)
    qed
    ultimately show ?thesis by auto
  qed
  have "run r M = (M, False)" by (rule settles[of r M m]) (use rd mem_leD[OF mem_le_trans[OF le(2) Cons(2)]] in auto)
  moreover have "\<forall>r\<in>set rs. run r M = (M, False)"
  proof (rule Cons(1)[of ?m])
    show "mem_le (fst (run_all run rs ?m)) M" using Cons(2) f by simp
    show "\<forall>i<length rs. \<forall>a\<in>reads (rs ! i). M a = ?m a \<or> M a = fst (run_all run rs ?m) a \<and> (\<forall>j<length rs. i \<le> j \<longrightarrow> a \<notin> writes (rs ! j))"
    proof (intro allI impI ballI)
      fix i a assume i: "i < length rs" "a \<in> reads (rs ! i)"
      then have "M a = m a \<or> M a = ?f a \<and> (\<forall>j<length (r # rs). Suc i \<le> j \<longrightarrow> a \<notin> writes ((r # rs) ! j))" using Cons(3)[rule_format, of "Suc i" a] by auto
      moreover have "M a = m a \<Longrightarrow> M a = ?m a" using mem_squeeze[OF le(1) mem_le_trans[OF le(2) Cons(2)]] by simp
      ultimately show "M a = ?m a \<or> M a = fst (run_all run rs ?m) a \<and> (\<forall>j<length rs. i \<le> j \<longrightarrow> a \<notin> writes (rs ! j))"
        unfolding f by force
    qed
  qed
  ultimately show ?case by simp
qed simp

lemma stable_frame: "run r m = (m, False) \<Longrightarrow> \<forall>a\<in>reads r. m' a = m a \<Longrightarrow> \<forall>a\<in>writes r. tm_SubsetOf (m a) (m' a) \<Longrightarrow> run r m' = (m', False)"
  by (rule settles[of r _ m]) simp_all

end

subsection \<open>The rules of the pass\<close>

fun rule_reads :: "node_rule \<Rightarrow> pred_addr set" where
  "rule_reads (Sssd dst src) = {src}"
| "rule_reads (Generated deduce inputs outputs) = {a. Some a \<in> set inputs}"

fun rule_writes :: "node_rule \<Rightarrow> pred_addr set" where
  "rule_writes (Sssd dst src) = {dst}"
| "rule_writes (Generated deduce inputs outputs) = set outputs"

lemma UpdatePrediction_facts:
  "a \<noteq> dst \<Longrightarrow> fst (UpdatePrediction dst v m) a = m a" "mem_le m (fst (UpdatePrediction dst v m))"
  "snd (UpdatePrediction dst v m) \<longleftrightarrow> fst (UpdatePrediction dst v m) \<noteq> m" "tm_SubsetOf v (fst (UpdatePrediction dst v m) dst)"
  "tm_SubsetOf v (m dst) \<Longrightarrow> UpdatePrediction dst v m = (m, False)"
proof -
  show "a \<noteq> dst \<Longrightarrow> fst (UpdatePrediction dst v m) a = m a" "mem_le m (fst (UpdatePrediction dst v m))" "tm_SubsetOf v (fst (UpdatePrediction dst v m) dst)"
    by (simp_all add: UpdatePrediction_def Let_def mem_le_def)
  show "snd (UpdatePrediction dst v m) \<longleftrightarrow> fst (UpdatePrediction dst v m) \<noteq> m" unfolding UpdatePrediction_def Let_def by (auto simp: fun_upd_idem_iff)
  assume "tm_SubsetOf v (m dst)"
  then have "m dst OR v = m dst" by (simp add: or_absorb)
  then show "UpdatePrediction dst v m = (m, False)" unfolding UpdatePrediction_def Let_def by (simp add: fun_upd_idem_iff)
qed

lemma update_snippet:
  "UpdateTypeMaskForPredictionPropagation dst val (m, c) = (fst (UpdatePrediction dst val m), c \<or> snd (UpdatePrediction dst val m))"
  unfolding UpdateTypeMaskForPredictionPropagation_def UpdatePrediction_def Let_def by auto

definition updates :: "(pred_addr \<times> type_mask) list \<Rightarrow> pred_mem \<times> bool \<Rightarrow> pred_mem \<times> bool" where
  "updates us s = fold (\<lambda>(dst, val). UpdateTypeMaskForPredictionPropagation dst val) us s"

lemma updates_simps:
  "updates [] s = s" "updates ((d, v) # us) (m, c) = updates us (fst (UpdatePrediction d v m), c \<or> snd (UpdatePrediction d v m))"
  by (simp_all add: updates_def update_snippet)

lemma updates_frame: "a \<notin> fst ` set us \<Longrightarrow> fst (updates us (m, c)) a = m a"
proof (induction us arbitrary: m c)
  case (Cons x us)
  obtain d v where x: "x = (d, v)" by (cases x)
  have n: "a \<notin> fst ` set us" "a \<noteq> d" using Cons(2) x by auto
  show ?case unfolding x updates_simps Cons(1)[OF n(1)] using UpdatePrediction_facts(1)[OF n(2)] .
qed (simp add: updates_simps)

lemma updates_grow: "mem_le m (fst (updates us (m, c)))"
proof (induction us arbitrary: m c)
  case (Cons x us)
  obtain d v where x: "x = (d, v)" by (cases x)
  show ?case unfolding x updates_simps by (rule mem_le_trans[OF UpdatePrediction_facts(2) Cons])
qed (simp add: updates_simps)

lemma updates_flag: "snd (updates us (m, c)) \<longleftrightarrow> c \<or> fst (updates us (m, c)) \<noteq> m"
proof (induction us arbitrary: m c)
  case (Cons x us)
  obtain d v where x: "x = (d, v)" by (cases x)
  let ?m = "fst (UpdatePrediction d v m)" and ?c = "c \<or> snd (UpdatePrediction d v m)"
  have "fst (updates us (?m, ?c)) = m \<Longrightarrow> ?m = m" using mem_le_antisym[OF UpdatePrediction_facts(2)] updates_grow[of ?m us ?c] by metis
  then show ?case using Cons[of ?m ?c] UpdatePrediction_facts(3)[of d v m] unfolding x updates_simps by metis
qed (simp add: updates_simps)

lemma updates_reach: "(d, v) \<in> set us \<Longrightarrow> tm_SubsetOf v (fst (updates us (m, c)) d)"
proof (induction us arbitrary: m c)
  case (Cons x us)
  obtain d' v' where x: "x = (d', v')" by (cases x)
  let ?m = "fst (UpdatePrediction d' v' m)" and ?c = "c \<or> snd (UpdatePrediction d' v' m)"
  show ?case
  proof (cases "(d, v) = (d', v')")
    case True
    have "tm_SubsetOf v (?m d)" using UpdatePrediction_facts(4)[of v' d' m] True by simp
    from sub_trans[OF this mem_leD[OF updates_grow[of ?m us ?c], of d]] show ?thesis unfolding x updates_simps .
  next
    case False
    then have "(d, v) \<in> set us" using Cons(2) x by auto
    then show ?thesis unfolding x updates_simps by (rule Cons(1))
  qed
qed simp

lemma updates_quiet: "\<forall>(d, v)\<in>set us. tm_SubsetOf v (m d) \<Longrightarrow> updates us (m, c) = (m, c)"
proof (induction us)
  case (Cons x us)
  obtain d v where x: "x = (d, v)" by (cases x)
  have "UpdatePrediction d v m = (m, False)" using Cons(2) x by (intro UpdatePrediction_facts(5)) simp
  then show ?case using Cons unfolding x updates_simps by simp
qed (simp add: updates_simps)

lemma Generated_Run: "rule_Run (Generated f ins outs) m = updates (zip outs (f (map (map_option m) ins))) (m, False)"
  by (simp add: updates_def)

interpretation gvr: rule_system gv_Run "\<lambda>g. {gv_variablePrediction g}" "\<lambda>g. {gv_prediction g}"
proof
  fix r m m'
  note U = UpdatePrediction_facts
  show "fst (gv_Run r m) a = m a" if "a \<notin> {gv_prediction r}" for a using that by (simp add: gv_Run_def U(1))
  show "mem_le m (fst (gv_Run r m))" "snd (gv_Run r m) \<longleftrightarrow> fst (gv_Run r m) \<noteq> m" by (simp_all add: gv_Run_def U(2,3))
  assume "\<forall>a\<in>{gv_variablePrediction r}. m' a = m a" "\<forall>a\<in>{gv_prediction r}. tm_SubsetOf (fst (gv_Run r m) a) (m' a)"
  then have "tm_SubsetOf (m' (gv_variablePrediction r)) (m' (gv_prediction r))"
    using sub_trans[OF U(4)[of "m (gv_variablePrediction r)" "gv_prediction r" m]] unfolding gv_Run_def by simp
  then show "gv_Run r m' = (m', False)" unfolding gv_Run_def by (rule U(5))
qed

interpretation ndr: rule_system rule_Run rule_reads rule_writes
proof
  fix r m
  note U = UpdatePrediction_facts
  show "fst (rule_Run r m) a = m a" if "a \<notin> rule_writes r" for a
  proof (cases r)
    case (Generated f ins outs)
    have "a \<notin> fst ` set (zip outs (f (map (map_option m) ins)))" using that Generated by (auto dest: set_zip_leftD)
    then show ?thesis unfolding Generated Generated_Run by (rule updates_frame)
  qed (use that in \<open>simp add: U(1)\<close>)
  show "mem_le m (fst (rule_Run r m))" by (cases r) (simp_all add: U(2) Generated_Run updates_grow del: rule_Run.simps(2))
  show "snd (rule_Run r m) \<longleftrightarrow> fst (rule_Run r m) \<noteq> m" by (cases r) (simp_all add: U(3) Generated_Run updates_flag del: rule_Run.simps(2))
  fix m' assume rd: "\<forall>a\<in>rule_reads r. m' a = m a" and le: "\<forall>a\<in>rule_writes r. tm_SubsetOf (fst (rule_Run r m) a) (m' a)"
  show "rule_Run r m' = (m', False)"
  proof (cases r)
    case (Sssd dst src)
    have "tm_SubsetOf (m' src) (m' dst)" using rd le sub_trans[OF U(4)[of "m src" dst m]] by (simp add: Sssd)
    then show ?thesis unfolding Sssd rule_Run.simps by (rule U(5))
  next
    case (Generated f ins outs)
    have "map (map_option m') ins = map (map_option m) ins"
    proof (rule map_cong[OF refl])
      fix x assume "x \<in> set ins"
      then show "map_option m' x = map_option m x" using rd unfolding Generated rule_reads.simps by (cases x rule: option.exhaust) simp_all
    qed
    then have e: "zip outs (f (map (map_option m') ins)) = zip outs (f (map (map_option m) ins))" by (simp only:)
    have "\<forall>(d, v)\<in>set (zip outs (f (map (map_option m') ins))). tm_SubsetOf v (m' d)"
    proof (intro ballI, unfold split_beta)
      fix x assume "x \<in> set (zip outs (f (map (map_option m') ins)))"
      then have "(fst x, snd x) \<in> set (zip outs (f (map (map_option m) ins)))" unfolding e by simp
      from updates_reach[OF this, of m False] show "tm_SubsetOf (snd x) (m' (fst x))"
        using sub_trans le set_zip_leftD[OF \<open>(fst x, snd x) \<in> _\<close>] unfolding Generated Generated_Run rule_writes.simps by blast
    qed
    then show ?thesis unfolding Generated Generated_Run by (rule updates_quiet)
  qed
qed

section \<open>One basic block\<close>

definition vars :: "pred_addr set" where
  "vars = range VarPred \<union> range CapturedVarPred"

text \<open>
  The shape of the rules of a block: \<open>X\<close> are the fields that only this block writes, \<open>C\<close> fields that no block writes. The copies of
  variables are private and written by their rule only; every other rule reads constants, copies, variables that have a copy, or
  private fields that no rule from it on writes.
\<close>

definition bb_wf :: "pred_addr set \<Rightarrow> pred_addr set \<Rightarrow> bb_rules \<Rightarrow> bool" where
  "bb_wf C X bb \<longleftrightarrow> X \<inter> vars = {} \<and> C \<inter> vars = {} \<and> C \<inter> X = {} \<and>
     (\<forall>g\<in>set (br_gvRules bb). gv_variablePrediction g \<in> vars \<and> gv_prediction g \<in> X) \<and>
     distinct (map gv_prediction (br_gvRules bb)) \<and>
     (\<forall>r\<in>set (br_nodeRules bb). rule_writes r \<subseteq> vars \<union> (X - gv_prediction ` set (br_gvRules bb))) \<and>
     (\<forall>i<length (br_nodeRules bb). \<forall>a\<in>rule_reads (br_nodeRules bb ! i).
        a \<in> C \<or> a \<in> gv_prediction ` set (br_gvRules bb) \<or> a \<in> gv_variablePrediction ` set (br_gvRules bb) \<or>
        a \<in> X \<and> (\<forall>j<length (br_nodeRules bb). i \<le> j \<longrightarrow> a \<notin> rule_writes (br_nodeRules bb ! j)))"

text \<open>A copy never exceeds its variable; it is up to date if it also reaches it.\<close>

definition gv_le :: "bb_rules \<Rightarrow> pred_mem \<Rightarrow> bool" where
  "gv_le bb m \<longleftrightarrow> (\<forall>g\<in>set (br_gvRules bb). tm_SubsetOf (m (gv_prediction g)) (m (gv_variablePrediction g)))"

definition gv_stable :: "bb_rules \<Rightarrow> pred_mem \<Rightarrow> bool" where
  "gv_stable bb m \<longleftrightarrow> (\<forall>g\<in>set (br_gvRules bb). gv_Run g m = (m, False))"

definition bb_stable :: "bb_rules \<Rightarrow> pred_mem \<Rightarrow> bool" where
  "bb_stable bb m \<longleftrightarrow> gv_stable bb m \<and> (\<forall>r\<in>set (br_nodeRules bb). rule_Run r m = (m, False))"

definition bb_writes :: "bb_rules \<Rightarrow> pred_addr set" where
  "bb_writes bb = gv_prediction ` set (br_gvRules bb) \<union> \<Union> (rule_writes ` set (br_nodeRules bb))"

lemma gv_Run_quiet: "gv_Run g m = (m, False) \<longleftrightarrow> tm_SubsetOf (m (gv_variablePrediction g)) (m (gv_prediction g))"
proof
  assume "gv_Run g m = (m, False)"
  then show "tm_SubsetOf (m (gv_variablePrediction g)) (m (gv_prediction g))"
    using UpdatePrediction_facts(4)[of "m (gv_variablePrediction g)" "gv_prediction g" m] unfolding gv_Run_def by simp
qed (simp add: gv_Run_def UpdatePrediction_facts(5))

lemma bb_writes_finite: "finite (bb_writes bb)"
proof -
  have "finite (rule_writes r)" for r by (cases r) simp_all
  then show ?thesis by (simp add: bb_writes_def)
qed

lemma bb_wfD:
  assumes "bb_wf C X bb"
  shows "g \<in> set (br_gvRules bb) \<Longrightarrow> gv_variablePrediction g \<in> vars" "g \<in> set (br_gvRules bb) \<Longrightarrow> gv_prediction g \<in> X"
    "distinct (map gv_prediction (br_gvRules bb))" "r \<in> set (br_nodeRules bb) \<Longrightarrow> rule_writes r \<subseteq> vars \<union> (X - gv_prediction ` set (br_gvRules bb))"
    "i < length (br_nodeRules bb) \<Longrightarrow> a \<in> rule_reads (br_nodeRules bb ! i) \<Longrightarrow> a \<in> C \<or> a \<in> gv_prediction ` set (br_gvRules bb) \<or>
      a \<in> gv_variablePrediction ` set (br_gvRules bb) \<or> a \<in> X \<and> (\<forall>j<length (br_nodeRules bb). i \<le> j \<longrightarrow> a \<notin> rule_writes (br_nodeRules bb ! j))"
    "X \<inter> vars = {}" "C \<inter> vars = {}" "C \<inter> X = {}"
  using assms unfolding bb_wf_def by (elim conjE; simp)+

lemma bb_writes_sub: "bb_wf C X bb \<Longrightarrow> bb_writes bb \<subseteq> vars \<union> X"
  using bb_wfD(2)[of C X bb] bb_wfD(4)[of C X bb] unfolding bb_writes_def by blast

lemma gv_keeps_le:
  assumes w: "bb_wf C X bb" and "gv_le bb m" and sub: "set gs \<subseteq> set (br_gvRules bb)"
  shows "gv_le bb (fst (run_all gv_Run gs m))"
  using assms(2,3)
proof (induction gs arbitrary: m)
  case (Cons g gs)
  let ?m = "fst (gv_Run g m)"
  have g: "g \<in> set (br_gvRules bb)" using Cons(3) by simp
  have "tm_SubsetOf (?m (gv_prediction h)) (?m (gv_variablePrediction h))" if h: "h \<in> set (br_gvRules bb)" for h
  proof -
    have v: "?m (gv_variablePrediction h) = m (gv_variablePrediction h)"
      using gvr.frame[of "gv_variablePrediction h" g m] bb_wfD(1)[OF w h] bb_wfD(2)[OF w g] bb_wfD(6)[OF w] by (metis IntI empty_iff singletonD)
    show ?thesis
    proof (cases "gv_prediction h = gv_prediction g")
      case True
      then have "h = g" using bb_wfD(3)[OF w] h g by (auto simp: distinct_map inj_on_def)
      then show ?thesis using Cons(2) h unfolding v gv_le_def by (simp add: gv_Run_def UpdatePrediction_def Let_def or_sub)
    next
      case False
      then show ?thesis using gvr.frame[of "gv_prediction h" g m] Cons(2) h unfolding v gv_le_def by simp
    qed
  qed
  then have "gv_le bb ?m" by (simp add: gv_le_def)
  then show ?case using Cons(1) Cons(3) by (simp add: split_beta Let_def)
qed simp

text \<open>
  A block is covered in a memory if it is stable in every later memory with the same private fields and constants in which its
  copies are up to date.
\<close>

definition covered :: "pred_addr set \<Rightarrow> pred_addr set \<Rightarrow> bb_rules \<Rightarrow> pred_mem \<Rightarrow> bool" where
  "covered C X bb m \<longleftrightarrow> (\<forall>M. mem_le m M \<longrightarrow> (\<forall>a\<in>X \<union> C. M a = m a) \<longrightarrow> gv_stable bb M \<longrightarrow> bb_stable bb M)"

lemma covered_mono:
  assumes "covered C X bb m" "mem_le m m'" "\<forall>a\<in>X \<union> C. m' a = m a"
  shows "covered C X bb m'"
  unfolding covered_def
proof (intro allI impI)
  fix M assume M: "mem_le m' M" "\<forall>a\<in>X \<union> C. M a = m' a" "gv_stable bb M"
  have "mem_le m M" using mem_le_trans[OF assms(2) M(1)] .
  moreover have "\<forall>a\<in>X \<union> C. M a = m a" using M(2) assms(3) by simp
  ultimately show "bb_stable bb M" using assms(1) M(3) unfolding covered_def by blast
qed

lemma gv_le_mono: "gv_le bb m \<Longrightarrow> mem_le m m' \<Longrightarrow> bb_wf C X bb \<Longrightarrow> \<forall>a\<in>gv_prediction ` set (br_gvRules bb). m' a = m a \<Longrightarrow> gv_le bb m'"
  unfolding gv_le_def using sub_trans mem_leD by (metis image_eqI)

text \<open>Running all rules of a block.\<close>

definition bb_full :: "bb_rules \<Rightarrow> pred_mem \<Rightarrow> pred_mem" where
  "bb_full bb m = fst (run_all rule_Run (br_nodeRules bb) (fst (run_all gv_Run (br_gvRules bb) m)))"

lemma bb_full_facts:
  assumes w: "bb_wf C X bb"
  shows "mem_le m (bb_full bb m)" "a \<notin> bb_writes bb \<Longrightarrow> bb_full bb m a = m a"
    "a \<in> C \<Longrightarrow> bb_full bb m a = m a" "gv_le bb m \<Longrightarrow> gv_le bb (bb_full bb m)"
    "a \<in> gv_prediction ` set (br_gvRules bb) \<Longrightarrow> bb_full bb m a = fst (run_all gv_Run (br_gvRules bb) m) a"
proof -
  let ?m = "fst (run_all gv_Run (br_gvRules bb) m)"
  show "mem_le m (bb_full bb m)" unfolding bb_full_def by (rule mem_le_trans[OF gvr.all_grows ndr.all_grows])
  show fr: "bb_full bb m a = m a" if "a \<notin> bb_writes bb" for a
  proof -
    have "\<forall>r\<in>set (br_nodeRules bb). a \<notin> rule_writes r" "\<forall>g\<in>set (br_gvRules bb). a \<notin> {gv_prediction g}" using that by (auto simp: bb_writes_def)
    then show ?thesis unfolding bb_full_def using ndr.all_frame gvr.all_frame by metis
  qed
  show "bb_full bb m a = m a" if "a \<in> C" using fr bb_writes_sub[OF w] bb_wfD(7,8)[OF w] that by blast
  show t: "bb_full bb m a = ?m a" if "a \<in> gv_prediction ` set (br_gvRules bb)" for a
  proof -
    have "a \<in> X" using that bb_wfD(2)[OF w] by blast
    then have "\<forall>r\<in>set (br_nodeRules bb). a \<notin> rule_writes r" using bb_wfD(4)[OF w] bb_wfD(6)[OF w] that by blast
    then show ?thesis unfolding bb_full_def by (rule ndr.all_frame)
  qed
  show "gv_le bb (bb_full bb m)" if "gv_le bb m"
    using gv_le_mono[OF gv_keeps_le[OF w that order_refl] ndr.all_grows w] t unfolding bb_full_def by simp
qed

lemma bb_full_covered:
  assumes w: "bb_wf C X bb" and le: "gv_le bb m"
  shows "covered C X bb (bb_full bb m)"
  unfolding covered_def
proof (intro allI impI)
  let ?m1 = "fst (run_all gv_Run (br_gvRules bb) m)" and ?R = "br_nodeRules bb" and ?m2 = "bb_full bb m"
  fix M assume M: "mem_le ?m2 M" "\<forall>a\<in>X \<union> C. M a = ?m2 a" "gv_stable bb M"
  note B = bb_full_facts[OF w]
  have m2: "?m2 = fst (run_all rule_Run ?R ?m1)" by (simp add: bb_full_def)
  have le1: "gv_le bb ?m1" using gv_keeps_le[OF w le order_refl] .
  have tgt: "M a = ?m1 a" if "a \<in> gv_prediction ` set (br_gvRules bb)" for a
    using that B(5)[OF that] M(2) bb_wfD(2)[OF w] by auto
  have cst: "?m2 a = ?m1 a" if "a \<in> C" for a unfolding m2
    using bb_wfD(4)[OF w] bb_wfD(7,8)[OF w] that by (intro ndr.all_frame) blast
  have src: "M a = ?m1 a" if a: "a \<in> gv_variablePrediction ` set (br_gvRules bb)" for a
  proof -
    obtain g where g: "g \<in> set (br_gvRules bb)" "a = gv_variablePrediction g" using a by (elim imageE)
    have "tm_SubsetOf (M a) (M (gv_prediction g))" using M(3) g by (simp add: gv_stable_def gv_Run_quiet)
    also have "M (gv_prediction g) = ?m1 (gv_prediction g)" using tgt g(1) by blast
    finally have "tm_SubsetOf (M a) (?m1 a)" using le1 g sub_trans unfolding gv_le_def by blast
    moreover have "mem_le ?m1 M" using mem_le_trans[OF _ M(1)] ndr.all_grows unfolding m2 by blast
    ultimately show ?thesis using sub_antisym mem_leD by blast
  qed
  have "\<forall>r\<in>set ?R. rule_Run r M = (M, False)"
  proof (rule ndr.all_settled)
    show "mem_le (fst (run_all rule_Run ?R ?m1)) M" using M(1) unfolding m2 .
    show "\<forall>i<length ?R. \<forall>a\<in>rule_reads (?R ! i). M a = ?m1 a \<or> M a = fst (run_all rule_Run ?R ?m1) a \<and> (\<forall>j<length ?R. i \<le> j \<longrightarrow> a \<notin> rule_writes (?R ! j))"
    proof (intro allI impI ballI)
      fix i a assume i: "i < length ?R" "a \<in> rule_reads (?R ! i)"
      from bb_wfD(5)[OF w i] show "M a = ?m1 a \<or> M a = fst (run_all rule_Run ?R ?m1) a \<and> (\<forall>j<length ?R. i \<le> j \<longrightarrow> a \<notin> rule_writes (?R ! j))"
        using tgt src cst M(2) unfolding m2[symmetric] by auto
    qed
  qed
  then show "bb_stable bb M" using M(3) by (simp add: bb_stable_def)
qed

text \<open>What one call of \<^verbatim>\<open>Run\<close> does.\<close>

lemma bb_Run_cases:
  "bb_Run bb isFirst m = (if \<not> isFirst \<and> gv_stable bb m then (m, False) else (bb_full bb m, bb_full bb m \<noteq> m))"
proof -
  let ?m1 = "fst (run_all gv_Run (br_gvRules bb) m)"
  have q: "gv_stable bb m \<longleftrightarrow> ?m1 = m"
  proof
    assume s: "gv_stable bb m"
    have "fst (run_all gv_Run gs m) = m" if "set gs \<subseteq> set (br_gvRules bb)" for gs
      using that s by (induction gs) (auto simp: gv_stable_def split_beta Let_def)
    then show "?m1 = m" by blast
  next
    assume "?m1 = m"
    then show "gv_stable bb m" using gvr.all_quiet unfolding gv_stable_def by blast
  qed
  have f1: "snd (run_all gv_Run (br_gvRules bb) m) \<longleftrightarrow> ?m1 \<noteq> m" by (rule gvr.all_flag)
  have f2: "snd (run_all rule_Run (br_nodeRules bb) ?m1) \<longleftrightarrow> bb_full bb m \<noteq> ?m1" unfolding bb_full_def by (rule ndr.all_flag)
  have "bb_full bb m = m \<Longrightarrow> ?m1 = m" using mem_le_antisym[OF gvr.all_grows[of m "br_gvRules bb"]] ndr.all_grows[of ?m1 "br_nodeRules bb"] unfolding bb_full_def by metis
  then show ?thesis unfolding bb_Run_def split_beta Let_def q f1 f2 using f1 by (auto simp: bb_full_def)
qed

end
