(* ===== verification/PredFixpoint.thy ===== *)
theory PredFixpoint
  imports PredRules
begin

text \<open>
  The loops that run the rules along a plan end, and leave every basic block stable.
\<close>

unbundle bit_operations_syntax

section \<open>The loop of a component\<close>

definition sys_wf :: "pred_addr set \<Rightarrow> (nat \<Rightarrow> pred_addr set) \<Rightarrow> bb_rules list \<Rightarrow> bool" where
  "sys_wf C X bbs \<longleftrightarrow> (\<forall>b<length bbs. bb_wf C (X b) (bbs ! b)) \<and> (\<forall>b<length bbs. \<forall>b'<length bbs. b \<noteq> b' \<longrightarrow> X b \<inter> X b' = {})"

definition all_le :: "bb_rules list \<Rightarrow> pred_mem \<Rightarrow> bool" where
  "all_le bbs m \<longleftrightarrow> (\<forall>b<length bbs. gv_le (bbs ! b) m)"

lemma sys_wfD: "sys_wf C X bbs \<Longrightarrow> b < length bbs \<Longrightarrow> bb_wf C (X b) (bbs ! b)"
  by (simp add: sys_wf_def)

lemma writes_apart:
  assumes "sys_wf C X bbs" "b < length bbs" "b' < length bbs" "b \<noteq> b'" "a \<in> X b' \<union> C"
  shows "a \<notin> bb_writes (bbs ! b)"
proof -
  note w = sys_wfD[OF assms(1,2)] and w' = sys_wfD[OF assms(1,3)]
  have "X b \<inter> X b' = {}" using assms(1-4) by (simp add: sys_wf_def)
  then show ?thesis using bb_writes_sub[OF w] bb_wfD(7,8)[OF w] bb_wfD(6)[OF w'] assms(5) by blast
qed

lemma bb_full_quiet: "bb_full bb m = m \<Longrightarrow> gv_stable bb m"
proof -
  assume "bb_full bb m = m"
  then have "fst (run_all gv_Run (br_gvRules bb) m) = m"
    using mem_le_antisym[OF gvr.all_grows[of m "br_gvRules bb"]] ndr.all_grows[of "fst (run_all gv_Run (br_gvRules bb) m)" "br_nodeRules bb"]
    unfolding bb_full_def by metis
  then show ?thesis using gvr.all_quiet unfolding gv_stable_def by blast
qed

lemma bb_Run_step:
  fixes f :: bool
  assumes w: "sys_wf C X bbs" and le: "all_le bbs m" and b: "b < length bbs"
  defines "m' \<equiv> fst (bb_Run (bbs ! b) f m)"
  shows "mem_le m m'" "a \<notin> bb_writes (bbs ! b) \<Longrightarrow> m' a = m a" "all_le bbs m'" "snd (bb_Run (bbs ! b) f m) \<longleftrightarrow> m' \<noteq> m"
    "b' < length bbs \<Longrightarrow> covered C (X b') (bbs ! b') m \<Longrightarrow> covered C (X b') (bbs ! b') m'" "f \<Longrightarrow> covered C (X b) (bbs ! b) m'"
    "m' = m \<Longrightarrow> gv_stable (bbs ! b) m"
proof -
  have cs: "m' = (if \<not> f \<and> gv_stable (bbs ! b) m then m else bb_full (bbs ! b) m)" by (simp add: m'_def bb_Run_cases)
  note wb = sys_wfD[OF w b]
  note B = bb_full_facts[OF wb]
  have leb: "gv_le (bbs ! b) m" using le b by (simp add: all_le_def)
  show g: "mem_le m m'" unfolding cs using B(1) by simp
  show fr: "m' a = m a" if "a \<notin> bb_writes (bbs ! b)" for a unfolding cs using B(2)[OF that] by simp
  show "snd (bb_Run (bbs ! b) f m) \<longleftrightarrow> m' \<noteq> m" unfolding cs bb_Run_cases by simp
  have oth: "\<forall>a\<in>X b' \<union> C. m' a = m a" if "b' < length bbs" "b' \<noteq> b" for b'
    using fr writes_apart[OF w b that(1)] that(2) by blast
  show "all_le bbs m'"
    unfolding all_le_def
  proof (intro allI impI)
    fix b' assume b': "b' < length bbs"
    show "gv_le (bbs ! b') m'"
    proof (cases "b' = b")
      case True
      then show ?thesis unfolding cs using B(4)[OF leb] leb by simp
    next
      case False
      have "gv_le (bbs ! b') m" using le b' by (simp add: all_le_def)
      from gv_le_mono[OF this g sys_wfD[OF w b']] show ?thesis using oth[OF b' False] bb_wfD(2)[OF sys_wfD[OF w b']] by blast
    qed
  qed
  show full: "covered C (X b) (bbs ! b) m'" if "f" using that bb_full_covered[OF wb leb] unfolding cs by simp
  show "covered C (X b') (bbs ! b') m'" if "b' < length bbs" "covered C (X b') (bbs ! b') m"
  proof (cases "b' = b")
    case True
    then show ?thesis using that(2) bb_full_covered[OF wb leb] unfolding cs by simp
  next
    case False
    show ?thesis using covered_mono[OF that(2) g oth[OF that(1) False]] .
  qed
  show "gv_stable (bbs ! b) m" if "m' = m" using that bb_full_quiet[of "bbs ! b" m] unfolding cs by (auto split: if_splits)
qed

definition writes_of :: "bb_rules list \<Rightarrow> nat list \<Rightarrow> pred_addr set" where
  "writes_of bbs bs = (\<Union>b\<in>set bs. bb_writes (bbs ! b))"

lemma round_step:
  fixes f :: bool
  assumes w: "sys_wf C X bbs" and le: "all_le bbs m" and bs: "set bs \<subseteq> {..<length bbs}"
  defines "m' \<equiv> fst (run_round bbs bs f m)"
  shows "mem_le m m'" "a \<notin> writes_of bbs bs \<Longrightarrow> m' a = m a" "all_le bbs m'" "snd (run_round bbs bs f m) \<longleftrightarrow> m' \<noteq> m"
    "b < length bbs \<Longrightarrow> covered C (X b) (bbs ! b) m \<Longrightarrow> covered C (X b) (bbs ! b) m'" "f \<Longrightarrow> b \<in> set bs \<Longrightarrow> covered C (X b) (bbs ! b) m'"
    "m' = m \<Longrightarrow> b \<in> set bs \<Longrightarrow> gv_stable (bbs ! b) m"
proof -
  let ?P = "\<lambda>bs m m' c. mem_le m m' \<and> (\<forall>a. a \<notin> writes_of bbs bs \<longrightarrow> m' a = m a) \<and> all_le bbs m' \<and> (c \<longleftrightarrow> m' \<noteq> m) \<and>
    (\<forall>b<length bbs. covered C (X b) (bbs ! b) m \<longrightarrow> covered C (X b) (bbs ! b) m') \<and> (f \<longrightarrow> (\<forall>b\<in>set bs. covered C (X b) (bbs ! b) m')) \<and>
    (m' = m \<longrightarrow> (\<forall>b\<in>set bs. gv_stable (bbs ! b) m))"
  have "?P bs m (fst (run_round bbs bs f m)) (snd (run_round bbs bs f m))" if "all_le bbs m" "set bs \<subseteq> {..<length bbs}" for bs m
    using that
  proof (induction bs arbitrary: m)
    case (Cons b bs)
    have b: "b < length bbs" using Cons(3) by simp
    let ?m = "fst (bb_Run (bbs ! b) f m)" and ?n = "fst (run_round bbs (b # bs) f m)"
    note S = bb_Run_step[where f = f, OF w Cons(2) b]
    have n: "?n = fst (run_round bbs bs f ?m)" "snd (run_round bbs (b # bs) f m) \<longleftrightarrow> snd (bb_Run (bbs ! b) f m) \<or> snd (run_round bbs bs f ?m)"
      by (simp_all add: run_round_def split_beta Let_def)
    have IH: "?P bs ?m ?n (snd (run_round bbs bs f ?m))" unfolding n(1) using Cons(1)[OF S(3)] Cons(3) by simp
    have g: "mem_le m ?n" using mem_le_trans[OF S(1)] IH by blast
    have eq: "?n = m \<Longrightarrow> ?m = m" using mem_le_antisym[OF S(1)] IH by metis
    show ?case
    proof (intro conjI)
      show "mem_le m ?n" by (rule g)
      show "\<forall>a. a \<notin> writes_of bbs (b # bs) \<longrightarrow> ?n a = m a"
      proof (intro allI impI)
        fix a assume "a \<notin> writes_of bbs (b # bs)"
        then have "a \<notin> bb_writes (bbs ! b)" "a \<notin> writes_of bbs bs" by (auto simp: writes_of_def)
        then show "?n a = m a" using S(2)[of a] IH by simp
      qed
      show "all_le bbs ?n" using IH by blast
      show "snd (run_round bbs (b # bs) f m) \<longleftrightarrow> ?n \<noteq> m" unfolding n(2) using S(4) IH eq by metis
      show "\<forall>b<length bbs. covered C (X b) (bbs ! b) m \<longrightarrow> covered C (X b) (bbs ! b) ?n" using S(5) IH by blast
      show "f \<longrightarrow> (\<forall>x\<in>set (b # bs). covered C (X x) (bbs ! x) ?n)" using S(6) IH b by auto
      show "?n = m \<longrightarrow> (\<forall>x\<in>set (b # bs). gv_stable (bbs ! x) m)"
      proof
        assume e: "?n = m"
        then have "?m = m" by (rule eq)
        then have "\<forall>x\<in>set bs. gv_stable (bbs ! x) m" using IH e by simp
        then show "\<forall>x\<in>set (b # bs). gv_stable (bbs ! x) m" using S(7)[OF \<open>?m = m\<close>] by simp
      qed
    qed
  qed (simp add: run_round_def)
  from this[OF le bs]
  show "mem_le m m'" "a \<notin> writes_of bbs bs \<Longrightarrow> m' a = m a" "all_le bbs m'" "snd (run_round bbs bs f m) \<longleftrightarrow> m' \<noteq> m"
    "b < length bbs \<Longrightarrow> covered C (X b) (bbs ! b) m \<Longrightarrow> covered C (X b) (bbs ! b) m'" "f \<Longrightarrow> b \<in> set bs \<Longrightarrow> covered C (X b) (bbs ! b) m'"
    "m' = m \<Longrightarrow> b \<in> set bs \<Longrightarrow> gv_stable (bbs ! b) m"
    unfolding m'_def by blast+
qed

text \<open>Every round that changes something adds bits to the fields that the component writes, so the loop ends.\<close>

definition room :: "pred_addr set \<Rightarrow> pred_mem \<Rightarrow> nat" where
  "room W m = (\<Sum>a\<in>W. 2 ^ 32 - unat (m a))"

lemma room_decreases:
  assumes "finite W" "mem_le m m'" "m' \<noteq> m" "\<And>a. a \<notin> W \<Longrightarrow> m' a = m a"
  shows "room W m' < room W m"
proof -
  obtain a where a: "m' a \<noteq> m a" using assms(3) by blast
  then have "a \<in> W" using assms(4) by blast
  have le: "unat (m x) \<le> unat (m' x)" for x using sub_le[OF mem_leD[OF assms(2)]] by (simp add: word_le_nat_alt)
  have "unat (m a) \<noteq> unat (m' a)" using a by (metis word_unat_eq_iff)
  then have "unat (m a) < unat (m' a)" "unat (m' a) < 2 ^ 32" using le[of a] unsigned_less[of "m' a"] by simp_all
  then have "2 ^ 32 - unat (m' a) < 2 ^ 32 - unat (m a)" by simp
  then show ?thesis unfolding room_def using assms(1) \<open>a \<in> W\<close> le by (intro sum_strict_mono_ex1) (auto intro: diff_le_mono2)
qed

lemma component_total:
  assumes w: "sys_wf C X bbs" and bs: "set bs \<subseteq> {..<length bbs}" and "all_le bbs m" "f \<or> (\<forall>b\<in>set bs. covered C (X b) (bbs ! b) m)"
  shows "\<exists>m'. run_component bbs bs f m = Some m' \<and> mem_le m m' \<and> (\<forall>a. a \<notin> writes_of bbs bs \<longrightarrow> m' a = m a) \<and> all_le bbs m' \<and>
    (\<forall>b\<in>set bs. bb_stable (bbs ! b) m')"
  using assms(3,4)
proof (induction "room (writes_of bbs bs) m" arbitrary: m f rule: less_induct)
  case less
  let ?m = "fst (run_round bbs bs f m)"
  note S = round_step[where f = f, OF w less(2) bs]
  have cov: "\<forall>b\<in>set bs. covered C (X b) (bbs ! b) ?m" using less(3) S(5,6) bs by blast
  show ?case
  proof (cases "?m = m")
    case True
    then have "run_component bbs bs f m = Some m" using S(4) by (subst run_component.simps) (simp add: split_beta Let_def)
    moreover have "bb_stable (bbs ! b) m" if "b \<in> set bs" for b
      using cov[unfolded True] S(7)[OF True that] that unfolding covered_def by auto
    ultimately show ?thesis using less(2) by auto
  next
    case False
    have fin: "finite (writes_of bbs bs)" by (simp add: writes_of_def bb_writes_finite)
    have "room (writes_of bbs bs) ?m < room (writes_of bbs bs) m" by (rule room_decreases[OF fin S(1) False S(2)])
    from less(1)[OF this S(3) disjI2[OF cov], of False] obtain m' where m': "run_component bbs bs False ?m = Some m'" "mem_le ?m m'"
      "\<forall>a. a \<notin> writes_of bbs bs \<longrightarrow> m' a = ?m a" "all_le bbs m'" "\<forall>b\<in>set bs. bb_stable (bbs ! b) m'" by (elim exE conjE)
    have "run_component bbs bs f m = Some m'" using S(4) False m'(1) by (subst run_component.simps) (simp add: split_beta Let_def)
    then show ?thesis using m' mem_le_trans[OF S(1) m'(2)] S(2) by auto
  qed
qed

section \<open>The plan\<close>

text \<open>The node of the order finder that stands for a variable.\<close>

fun var_node :: "nat \<Rightarrow> nat \<Rightarrow> pred_addr \<Rightarrow> nat" where
  "var_node numBBs cvNodeOffset (VarPred i) = numBBs + i"
| "var_node numBBs cvNodeOffset (CapturedVarPred i) = cvNodeOffset + i"
| "var_node numBBs cvNodeOffset _ = 0"

text \<open>The graph has an edge for every variable that a block copies and for every variable that a rule of a block writes.\<close>

definition edges_ok :: "nat \<Rightarrow> nat \<Rightarrow> (nat \<Rightarrow> nat list) \<Rightarrow> bb_rules list \<Rightarrow> bool" where
  "edges_ok n cvo E bbs \<longleftrightarrow> length bbs \<le> cvo \<and> (\<forall>b<length bbs.
     (\<forall>g\<in>set (br_gvRules (bbs ! b)). graph_edge n E (var_node (length bbs) cvo (gv_variablePrediction g)) b) \<and>
     (\<forall>r\<in>set (br_nodeRules (bbs ! b)). \<forall>a\<in>rule_writes r. a \<in> vars \<longrightarrow> graph_edge n E b (var_node (length bbs) cvo a)))"

lemma var_node_block: "a \<in> vars \<Longrightarrow> nb \<le> cvo \<Longrightarrow> nb \<le> var_node nb cvo a"
  by (auto simp: vars_def)

text \<open>A stable block stays stable while nothing that it reads changes.\<close>

definition bb_reads :: "bb_rules \<Rightarrow> pred_addr set" where
  "bb_reads bb = gv_variablePrediction ` set (br_gvRules bb) \<union> \<Union> (rule_reads ` set (br_nodeRules bb))"

lemma bb_stable_frame:
  assumes "bb_stable bb m" "mem_le m m'" "\<forall>a\<in>bb_reads bb. m' a = m a"
  shows "bb_stable bb m'"
proof -
  have "gv_Run g m' = (m', False)" if g: "g \<in> set (br_gvRules bb)" for g
  proof (rule gvr.stable_frame[of g m])
    show "\<forall>a\<in>{gv_variablePrediction g}. m' a = m a" using assms(3) g by (simp add: bb_reads_def)
    show "gv_Run g m = (m, False)" "\<forall>a\<in>{gv_prediction g}. tm_SubsetOf (m a) (m' a)" using assms(1) mem_leD[OF assms(2)] g by (simp_all add: bb_stable_def gv_stable_def)
  qed
  moreover have "rule_Run r m' = (m', False)" if r: "r \<in> set (br_nodeRules bb)" for r
  proof (rule ndr.stable_frame[of r m])
    show "\<forall>a\<in>rule_reads r. m' a = m a" using assms(3) r unfolding bb_reads_def by blast
    show "rule_Run r m = (m, False)" "\<forall>a\<in>rule_writes r. tm_SubsetOf (m a) (m' a)" using assms(1) mem_leD[OF assms(2)] r by (simp_all add: bb_stable_def)
  qed
  ultimately show ?thesis by (simp add: bb_stable_def gv_stable_def)
qed

text \<open>If a block changes what another reads, there is a path from the first to the second.\<close>

lemma interference_path:
  assumes w: "sys_wf C X bbs" and e: "edges_ok n cvo E bbs" and b: "b < length bbs" "b' < length bbs" "b \<noteq> b'"
    and a: "a \<in> bb_writes (bbs ! b)" "a \<in> bb_reads (bbs ! b')"
  shows "graph_edge n E b (var_node (length bbs) cvo a)" "graph_edge n E (var_node (length bbs) cvo a) b'" "(graph_edge n E)\<^sup>*\<^sup>* b b'"
proof -
  note wb = sys_wfD[OF w b(1)] and wb' = sys_wfD[OF w b(2)]
  have "a \<notin> X b' \<union> C" using writes_apart[OF w b] a(1) by blast
  have "a \<in> C \<union> X b' \<or> a \<in> gv_variablePrediction ` set (br_gvRules (bbs ! b'))"
  proof (cases "a \<in> gv_variablePrediction ` set (br_gvRules (bbs ! b'))")
    case False
    then obtain r where r: "r \<in> set (br_nodeRules (bbs ! b'))" "a \<in> rule_reads r" using a(2) by (auto simp: bb_reads_def)
    then obtain i where "i < length (br_nodeRules (bbs ! b'))" "a \<in> rule_reads (br_nodeRules (bbs ! b') ! i)" by (metis in_set_conv_nth)
    from bb_wfD(5)[OF wb' this] show ?thesis using bb_wfD(2)[OF wb'] by blast
  qed simp
  then obtain g where g: "g \<in> set (br_gvRules (bbs ! b'))" "a = gv_variablePrediction g" using \<open>a \<notin> X b' \<union> C\<close> by blast
  have v: "a \<in> vars" using bb_wfD(1)[OF wb' g(1)] g(2) by simp
  have "a \<notin> gv_prediction ` set (br_gvRules (bbs ! b))" using bb_wfD(2,6)[OF wb] v by blast
  then obtain r where r: "r \<in> set (br_nodeRules (bbs ! b))" "a \<in> rule_writes r" using a(1) by (auto simp: bb_writes_def)
  show 1: "graph_edge n E b (var_node (length bbs) cvo a)" using e b(1) r v by (simp add: edges_ok_def)
  show 2: "graph_edge n E (var_node (length bbs) cvo a) b'" using e b(2) g by (simp add: edges_ok_def)
  show "(graph_edge n E)\<^sup>*\<^sup>* b b'" using 1 2 by (meson converse_rtranclp_into_rtranclp r_into_rtranclp)
qed

text \<open>The same for a block that reads what it writes.\<close>

lemma self_interference:
  assumes w: "sys_wf C X bbs" and e: "edges_ok n cvo E bbs" and b: "b < length bbs"
    and g: "g \<in> set (br_gvRules (bbs ! b))" and r: "r \<in> set (br_nodeRules (bbs ! b))" "gv_variablePrediction g \<in> rule_writes r"
  shows "\<exists>v. v \<noteq> b \<and> graph_edge n E b v \<and> graph_edge n E v b"
proof -
  have v: "gv_variablePrediction g \<in> vars" using bb_wfD(1)[OF sys_wfD[OF w b] g] .
  have "var_node (length bbs) cvo (gv_variablePrediction g) \<noteq> b" using var_node_block[OF v, of "length bbs" cvo] e b by (simp add: edges_ok_def)
  then show ?thesis using e b g r v unfolding edges_ok_def by blast
qed

lemma gv_apart: "bb_wf C X bb \<Longrightarrow> h \<in> set (br_gvRules bb) \<Longrightarrow> r \<in> set (br_gvRules bb) \<Longrightarrow> gv_variablePrediction h \<noteq> gv_prediction r"
  using bb_wfD(1)[of C X bb h] bb_wfD(2)[of C X bb r] bb_wfD(6)[of C X bb] by (metis IntI empty_iff)

lemma run_once:
  assumes w: "sys_wf C X bbs" and e: "edges_ok n cvo E bbs" and le: "all_le bbs m" and b: "b < length bbs"
    and no: "\<forall>v. v \<noteq> b \<longrightarrow> graph_edge n E b v \<longrightarrow> \<not> graph_edge n E v b"
  shows "bb_stable (bbs ! b) (fst (bb_Run (bbs ! b) True m))"
proof -
  let ?bb = "bbs ! b" and ?m1 = "fst (run_all gv_Run (br_gvRules (bbs ! b)) m)"
  note wb = sys_wfD[OF w b]
  have leb: "gv_le ?bb m" using le b by (simp add: all_le_def)
  have "gv_Run g (bb_full ?bb m) = (bb_full ?bb m, False)" if g: "g \<in> set (br_gvRules ?bb)" for g
  proof -
    have v: "bb_full ?bb m (gv_variablePrediction g) = ?m1 (gv_variablePrediction g)"
      unfolding bb_full_def using self_interference[OF w e b g] no by (intro ndr.all_frame) blast
    have t: "bb_full ?bb m (gv_prediction g) = ?m1 (gv_prediction g)" using bb_full_facts(5)[OF wb] g by blast
    have "\<forall>g\<in>set (br_gvRules ?bb). gv_Run g ?m1 = (?m1, False)"
    proof (rule gvr.all_settled[where m = m])
      have "?m1 (gv_variablePrediction h) = m (gv_variablePrediction h)" if h: "h \<in> set (br_gvRules ?bb)" for h
      proof (rule gvr.all_frame, rule ballI)
        fix r assume "r \<in> set (br_gvRules ?bb)"
        then show "gv_variablePrediction h \<notin> {gv_prediction r}" using gv_apart[OF wb h] by simp
      qed
      then show "\<forall>i<length (br_gvRules ?bb). \<forall>a\<in>{gv_variablePrediction (br_gvRules ?bb ! i)}. ?m1 a = m a \<or>
        ?m1 a = fst (run_all gv_Run (br_gvRules ?bb) m) a \<and> (\<forall>j<length (br_gvRules ?bb). i \<le> j \<longrightarrow> a \<notin> {gv_prediction (br_gvRules ?bb ! j)})" by simp
    qed simp
    then show ?thesis using g v t by (simp add: gv_Run_quiet)
  qed
  then have "gv_stable ?bb (bb_full ?bb m)" by (simp add: gv_stable_def)
  then have "bb_stable ?bb (bb_full ?bb m)" using bb_full_covered[OF wb leb] unfolding covered_def by simp
  then show ?thesis by (simp add: bb_Run_cases)
qed

lemma item_total:
  assumes w: "sys_wf C X bbs" and e: "edges_ok n cvo E bbs" and le: "all_le bbs m" and bs: "set (pl_range item) \<subseteq> {..<length bbs}"
    and once: "pl_runOnceIsEnough item \<longrightarrow> (\<exists>b. pl_range item = [b] \<and> (\<forall>v. v \<noteq> b \<longrightarrow> graph_edge n E b v \<longrightarrow> \<not> graph_edge n E v b))"
  shows "\<exists>m'. run_item bbs item m = Some m' \<and> mem_le m m' \<and> (\<forall>a. a \<notin> writes_of bbs (pl_range item) \<longrightarrow> m' a = m a) \<and> all_le bbs m' \<and>
    (\<forall>b\<in>set (pl_range item). bb_stable (bbs ! b) m')"
proof (cases "pl_runOnceIsEnough item")
  case True
  then obtain b where b: "pl_range item = [b]" "\<forall>v. v \<noteq> b \<longrightarrow> graph_edge n E b v \<longrightarrow> \<not> graph_edge n E v b" using once by blast
  have bl: "b < length bbs" using bs b(1) by simp
  note S = bb_Run_step[where f = True, OF w le bl]
  let ?m = "fst (bb_Run (bbs ! b) True m)"
  have "run_item bbs item m = Some ?m" using True b(1) by (simp add: run_item_def)
  moreover have "\<forall>a. a \<notin> writes_of bbs (pl_range item) \<longrightarrow> ?m a = m a" using S(2) b(1) by (simp add: writes_of_def)
  moreover have "\<forall>x\<in>set (pl_range item). bb_stable (bbs ! x) ?m" using run_once[OF w e le bl b(2)] b(1) by simp
  ultimately show ?thesis using S(1,3) by blast
next
  case False
  then have "run_item bbs item m = run_component bbs (pl_range item) True m" by (simp add: run_item_def)
  then show ?thesis using component_total[OF w bs le disjI1, of True] by simp
qed

lemma plan_total:
  assumes w: "sys_wf C X bbs" and e: "edges_ok n cvo E bbs" and le: "all_le bbs m" and p: "plan_ok n (length bbs) E plan"
  shows "\<exists>m'. run_plan bbs plan m = Some m' \<and> mem_le m m' \<and> (\<forall>a. (\<forall>b<length bbs. a \<notin> bb_writes (bbs ! b)) \<longrightarrow> m' a = m a) \<and>
    (\<forall>b<length bbs. bb_stable (bbs ! b) m')"
proof -
  let ?Q = "\<lambda>k m'. mem_le m m' \<and> (\<forall>a. (\<forall>b<length bbs. a \<notin> bb_writes (bbs ! b)) \<longrightarrow> m' a = m a) \<and> all_le bbs m' \<and>
    (\<forall>i<k. \<forall>b\<in>set (pl_range (plan ! i)). bb_stable (bbs ! b) m')"
  have dis: "distinct (concat (map pl_range plan))" and all: "set (concat (map pl_range plan)) = {..<length bbs}"
    and srt: "sorted_wrt (\<lambda>a b. \<forall>u\<in>set (pl_range b). \<forall>v\<in>set (pl_range a). \<not> (graph_edge n E)\<^sup>*\<^sup>* u v) plan"
    and once: "\<And>item. item \<in> set plan \<Longrightarrow> pl_runOnceIsEnough item \<longrightarrow> (\<exists>b. pl_range item = [b] \<and> (\<forall>v. v \<noteq> b \<longrightarrow> graph_edge n E b v \<longrightarrow> \<not> graph_edge n E v b))"
    using p unfolding plan_ok_def by blast+
  have "\<exists>m'. fold_opt (run_item bbs) (take k plan) m = Some m' \<and> ?Q k m'" if "k \<le> length plan" for k
    using that
  proof (induction k)
    case 0
    then show ?case using le by simp
  next
    case (Suc k)
    then obtain m1 where m1: "fold_opt (run_item bbs) (take k plan) m = Some m1" "?Q k m1" by auto
    let ?it = "plan ! k"
    have it: "?it \<in> set plan" using Suc(2) by simp
    have bs: "set (pl_range ?it) \<subseteq> {..<length bbs}" using all it by auto
    have le1: "all_le bbs m1" using m1(2) by blast
    from item_total[OF w e le1 bs once[OF it]] obtain m2 where m2: "run_item bbs ?it m1 = Some m2" "mem_le m1 m2"
      "\<forall>a. a \<notin> writes_of bbs (pl_range ?it) \<longrightarrow> m2 a = m1 a" "all_le bbs m2" "\<forall>b\<in>set (pl_range ?it). bb_stable (bbs ! b) m2" by (elim exE conjE)
    have "fold_opt (run_item bbs) (take (Suc k) plan) m = Some m2" using m1(1) m2(1) Suc(2) by (simp add: take_Suc_conv_app_nth fold_opt_append)
    moreover have "mem_le m m2" using mem_le_trans[OF _ m2(2)] m1(2) by blast
    moreover have "\<forall>a. (\<forall>b<length bbs. a \<notin> bb_writes (bbs ! b)) \<longrightarrow> m2 a = m a"
    proof (intro allI impI)
      fix a assume a: "\<forall>b<length bbs. a \<notin> bb_writes (bbs ! b)"
      then have "a \<notin> writes_of bbs (pl_range ?it)" using bs unfolding writes_of_def by blast
      then show "m2 a = m a" using m2(3) m1(2) a by simp
    qed
    moreover have "bb_stable (bbs ! b) m2" if i: "i < Suc k" and b: "b \<in> set (pl_range (plan ! i))" for i b
    proof (cases "i = k")
      case True
      then show ?thesis using m2(5) b by simp
    next
      case False
      then have ik: "i < k" using i by simp
      have st: "bb_stable (bbs ! b) m1" using m1(2) ik b by blast
      have "plan ! i \<in> set plan" using ik Suc(2) by simp
      then have bl: "b < length bbs" using all b by auto
      have "m2 a = m1 a" if a: "a \<in> bb_reads (bbs ! b)" for a
      proof (rule ccontr)
        assume "m2 a \<noteq> m1 a"
        then obtain c where c: "c \<in> set (pl_range ?it)" "a \<in> bb_writes (bbs ! c)" using m2(3) unfolding writes_of_def by blast
        have cl: "c < length bbs" using bs c(1) by auto
        have np: "\<not> (graph_edge n E)\<^sup>*\<^sup>* c b" using sorted_wrt_nth_less[OF srt ik] Suc(2) c(1) b by auto
        then have "c \<noteq> b" by auto
        then show False using interference_path(3)[OF w e cl bl _ c(2) a] np by blast
      qed
      then show ?thesis using bb_stable_frame[OF st m2(2)] by blast
    qed
    ultimately show ?case using m2(4) by blast
  qed
  from this[of "length plan"] obtain m' where m': "run_plan bbs plan m = Some m'" "?Q (length plan) m'" unfolding run_plan_def by auto
  moreover have "bb_stable (bbs ! b) m'" if "b < length bbs" for b
  proof -
    have "b \<in> set (concat (map pl_range plan))" using all that by simp
    then obtain item where "item \<in> set plan" "b \<in> set (pl_range item)" by auto
    then obtain i where "i < length plan" "b \<in> set (pl_range (plan ! i))" by (metis in_set_conv_nth)
    then show ?thesis using m'(2) by blast
  qed
  ultimately show ?thesis by blast
qed

end
