(* ===== verification/PredSetup.thy ===== *)
theory PredSetup
  imports PredFixpoint
begin

text \<open>
  Collecting the rules of a graph in block-local SSA form: the shape of the rules that the propagation relies on, as an invariant that
  processing each kind of node keeps.
\<close>

unbundle bit_operations_syntax

section \<open>Well-formed graphs\<close>

text \<open>The inputs whose predictions the rules of a node read.\<close>

definition used_inputs :: "pp_env \<Rightarrow> dfg_node \<Rightarrow> (nat \<times> nat) set" where
  "used_inputs env n = (case dn_kind n of
      SetLocal lv \<Rightarrow> {dn_inputs n ! 0}
    | CreateCapturedVar cv selfRef \<Rightarrow> if selfRef then {} else {dn_inputs n ! 0}
    | SetCapturedVar cv \<Rightarrow> {dn_inputs n ! 1}
    | GuestLanguageNode bc nsd \<Rightarrow> if dn_hasDirectOutput n \<or> dn_numExtraOutputs n \<noteq> 0
        then {dn_inputs n ! v | v. Some v \<in> set (st_inputOrds (bt_setup (pe_bc env) bc nsd))} else {}
    | _ \<Rightarrow> {})"

definition ordinals_ok :: "dfg_graph \<Rightarrow> node_kind \<Rightarrow> bool" where
  "ordinals_ok g k = (case k of
      GetLocal lv \<Rightarrow> lv < dg_numLogicalVars g
    | SetLocal lv \<Rightarrow> lv < dg_numLogicalVars g
    | CreateCapturedVar cv selfRef \<Rightarrow> cv < dg_numCapturedVars g
    | GetCapturedVar cv \<Rightarrow> cv < dg_numCapturedVars g
    | SetCapturedVar cv \<Rightarrow> cv < dg_numCapturedVars g
    | _ \<Rightarrow> True)"

text \<open>
  Block-local SSA form: no node occurs twice, constant-like nodes are not in blocks, and a node uses constant-like nodes and earlier
  nodes of its own block.
\<close>

definition graph_ok :: "pp_env \<Rightarrow> bool" where
  "graph_ok env \<longleftrightarrow> (let g = pe_graph env in
     distinct (dg_constants g @ concat (dg_blocks g)) \<and>
     (\<forall>c\<in>set (dg_constants g). constant_prediction env (dn_kind (dg_node g c)) \<noteq> None) \<and>
     (\<forall>b<length (dg_blocks g). \<forall>i<length (dg_blocks g ! b).
        let n = dg_node g (dg_blocks g ! b ! i) in
        constant_prediction env (dn_kind n) = None \<and> dn_kind n \<noteq> Phi \<and> ordinals_ok g (dn_kind n) \<and>
        fst ` used_inputs env n \<subseteq> set (dg_constants g) \<union> set (take i (dg_blocks g ! b))) \<and>
     dg_blocks g \<noteq> [] \<and> length (dg_blocks g) + dg_numLogicalVars g + dg_numCapturedVars g < 2 ^ 32)"

section \<open>Collecting the rules\<close>

text \<open>Predictions of processed nodes that never change again, and those that the rules of a block change.\<close>

definition Cs :: "nat set \<Rightarrow> prop_pass \<Rightarrow> pred_addr set" where
  "Cs don s = {NodePred n k | n k. n \<in> don \<and> \<not> pp_referenced s n}"

definition Xs :: "pp_env \<Rightarrow> nat \<Rightarrow> nat set \<Rightarrow> prop_pass \<Rightarrow> pred_addr set" where
  "Xs env b don s = {NodePred n k | n k. n \<in> don \<and> n \<in> set (dg_blocks (pe_graph env) ! b) \<and> pp_referenced s n} \<union> range (GvPred b)"

abbreviation cur_bb :: "prop_pass \<Rightarrow> bb_rules" where
  "cur_bb s \<equiv> \<lparr>br_gvRules = pp_gvRuleBuffer s, br_nodeRules = pp_nodeRuleBuffer s\<rparr>"

definition gv_zero :: "bb_rules \<Rightarrow> pred_mem \<Rightarrow> bool" where
  "gv_zero bb m \<longleftrightarrow> (\<forall>g\<in>set (br_gvRules bb). m (gv_prediction g) = 0)"

definition extra_ok :: "nat set \<Rightarrow> prop_pass \<Rightarrow> bool" where
  "extra_ok don s \<longleftrightarrow> (\<forall>r\<in>set (pp_extraRules s). rule_Run r (pp_mem s) = (pp_mem s, False) \<and> rule_reads r \<subseteq> Cs don s \<and> rule_writes r \<subseteq> vars \<union> Cs don s)"

definition seen_ok :: "pp_env \<Rightarrow> nat \<Rightarrow> prop_pass \<Rightarrow> bool" where
  "seen_ok env b s \<longleftrightarrow> length (pp_cvLogicalOrdSeen s) = dg_numCapturedVars (pe_graph env) \<and>
     (\<forall>c<dg_numCapturedVars (pe_graph env). pp_cvLogicalOrdSeen s ! c \<le> pp_cvLogicalOrdSeenColor s \<and>
        (HasSeenCapturedVar c s \<longleftrightarrow> GvPred b c \<in> gv_prediction ` set (pp_gvRuleBuffer s)) \<and>
        (HasSeenCapturedVar c s \<longrightarrow> CapturedVarPred c \<in> gv_variablePrediction ` set (pp_gvRuleBuffer s)))"

definition edges_in :: "pp_env \<Rightarrow> (nat \<times> nat) list \<Rightarrow> nat \<Rightarrow> bb_rules \<Rightarrow> bool" where
  "edges_in env L b bb \<longleftrightarrow> (let nb = length (dg_blocks (pe_graph env)); cvo = nb + dg_numLogicalVars (pe_graph env) in
     (\<forall>g\<in>set (br_gvRules bb). (var_node nb cvo (gv_variablePrediction g), b) \<in> set L) \<and>
     (\<forall>r\<in>set (br_nodeRules bb). \<forall>a\<in>rule_writes r. a \<in> vars \<longrightarrow> (b, var_node nb cvo a) \<in> set L))"

definition num_graph_nodes :: "pp_env \<Rightarrow> nat" where
  "num_graph_nodes env = length (dg_blocks (pe_graph env)) + dg_numLogicalVars (pe_graph env) + dg_numCapturedVars (pe_graph env)"

definition initial_finder :: "pp_env \<Rightarrow> (u64 \<Rightarrow> u32) \<Rightarrow> prop_finder" where
  "initial_finder env pm = pf_Initialize (pe_fresh env) pm (length (dg_blocks (pe_graph env))) (dg_numLogicalVars (pe_graph env)) (dg_numCapturedVars (pe_graph env))"

definition finder_ok :: "pp_env \<Rightarrow> (u64 \<Rightarrow> u32) \<Rightarrow> (nat \<times> nat) list \<Rightarrow> prop_finder \<Rightarrow> bool" where
  "finder_ok env pm L f \<longleftrightarrow> f = fold (\<lambda>(u, d). AddEdge (pe_fresh env) u d) L (initial_finder env pm) \<and>
     (\<forall>(u, d)\<in>set L. u < num_graph_nodes env \<and> d < num_graph_nodes env)"

definition setup_inv :: "pp_env \<Rightarrow> (u64 \<Rightarrow> u32) \<Rightarrow> nat \<Rightarrow> nat set \<Rightarrow> (nat \<times> nat) list \<Rightarrow> prop_pass \<Rightarrow> bool" where
  "setup_inv env pm b don L s \<longleftrightarrow>
     (\<forall>b'<b. bb_wf (Cs don s) (Xs env b' don s) (pp_bbPropagators s ! b') \<and> gv_zero (pp_bbPropagators s ! b') (pp_mem s) \<and>
        edges_in env L b' (pp_bbPropagators s ! b')) \<and>
     length (pp_bbPropagators s) = length (dg_blocks (pe_graph env)) \<and> extra_ok don s \<and> finder_ok env pm L (pp_planFinder s) \<and>
     (\<forall>c\<in>set (dg_constants (pe_graph env)). c \<in> don \<and> \<not> pp_referenced s c) \<and> finite don \<and> length L \<le> card don"

definition block_inv :: "pp_env \<Rightarrow> nat \<Rightarrow> nat set \<Rightarrow> (nat \<times> nat) list \<Rightarrow> prop_pass \<Rightarrow> bool" where
  "block_inv env b don L s \<longleftrightarrow> bb_wf (Cs don s) (Xs env b don s) (cur_bb s) \<and> gv_zero (cur_bb s) (pp_mem s) \<and> edges_in env L b (cur_bb s) \<and>
     seen_ok env b s \<and> (\<forall>r\<in>set (pp_nodeRuleBuffer s). rule_writes r \<inter> range (GvPred b) = {})"

lemma Cs_Xs_apart: "Cs don s \<inter> vars = {}" "Xs env b don s \<inter> vars = {}" "Cs don s \<inter> Xs env b don s = {}"
  by (auto simp: Cs_def Xs_def vars_def)

lemma Cs_grow: "don \<subseteq> don' \<Longrightarrow> \<forall>n\<in>don. pp_referenced s' n = pp_referenced s n \<Longrightarrow> Cs don s \<subseteq> Cs don' s'"
  by (auto simp: Cs_def)

lemma Xs_grow: "don \<subseteq> don' \<Longrightarrow> \<forall>n\<in>don. pp_referenced s' n = pp_referenced s n \<Longrightarrow> Xs env b don s \<subseteq> Xs env b don' s'"
  by (auto simp: Xs_def)

lemma bb_wf_mono:
  assumes "bb_wf C X bb" "C \<subseteq> C'" "X \<subseteq> X'" "X' \<inter> vars = {}" "C' \<inter> vars = {}" "C' \<inter> X' = {}"
  shows "bb_wf C' X' bb"
  unfolding bb_wf_def
proof (intro conjI)
  show "\<forall>g\<in>set (br_gvRules bb). gv_variablePrediction g \<in> vars \<and> gv_prediction g \<in> X'" using bb_wfD(1,2)[OF assms(1)] assms(3) by blast
  show "\<forall>r\<in>set (br_nodeRules bb). rule_writes r \<subseteq> vars \<union> (X' - gv_prediction ` set (br_gvRules bb))" using bb_wfD(4)[OF assms(1)] assms(3) by blast
  show "\<forall>i<length (br_nodeRules bb). \<forall>a\<in>rule_reads (br_nodeRules bb ! i). a \<in> C' \<or> a \<in> gv_prediction ` set (br_gvRules bb) \<or>
    a \<in> gv_variablePrediction ` set (br_gvRules bb) \<or> a \<in> X' \<and> (\<forall>j<length (br_nodeRules bb). i \<le> j \<longrightarrow> a \<notin> rule_writes (br_nodeRules bb ! j))"
  proof (intro allI impI ballI)
    fix i a assume "i < length (br_nodeRules bb)" "a \<in> rule_reads (br_nodeRules bb ! i)"
    from bb_wfD(5)[OF assms(1) this] show "a \<in> C' \<or> a \<in> gv_prediction ` set (br_gvRules bb) \<or>
      a \<in> gv_variablePrediction ` set (br_gvRules bb) \<or> a \<in> X' \<and> (\<forall>j<length (br_nodeRules bb). i \<le> j \<longrightarrow> a \<notin> rule_writes (br_nodeRules bb ! j))"
      using assms(2,3) by blast
  qed
qed (use assms bb_wfD(3)[OF assms(1)] in auto)

text \<open>Appending a rule for a copy, and a rule for a node, to the rules of a block.\<close>

lemma bb_wf_add_gv:
  assumes w: "bb_wf C X \<lparr>br_gvRules = G, br_nodeRules = R\<rparr>" and g: "gv_variablePrediction g \<in> vars" "gv_prediction g \<in> X" "gv_prediction g \<notin> gv_prediction ` set G"
    and fresh: "\<forall>r\<in>set R. gv_prediction g \<notin> rule_writes r"
  shows "bb_wf C X \<lparr>br_gvRules = G @ [g], br_nodeRules = R\<rparr>"
  unfolding bb_wf_def bb_rules.simps
proof (intro conjI)
  note D = bb_wfD[OF w, unfolded bb_rules.simps]
  show "\<forall>h\<in>set (G @ [g]). gv_variablePrediction h \<in> vars \<and> gv_prediction h \<in> X" using D(1,2) g by auto
  show "distinct (map gv_prediction (G @ [g]))" using D(3) g(3) by simp
  show "\<forall>r\<in>set R. rule_writes r \<subseteq> vars \<union> (X - gv_prediction ` set (G @ [g]))"
  proof
    fix r assume r: "r \<in> set R"
    then show "rule_writes r \<subseteq> vars \<union> (X - gv_prediction ` set (G @ [g]))" using D(4)[OF r] fresh by auto
  qed
  show "\<forall>i<length R. \<forall>a\<in>rule_reads (R ! i). a \<in> C \<or> a \<in> gv_prediction ` set (G @ [g]) \<or> a \<in> gv_variablePrediction ` set (G @ [g]) \<or>
    a \<in> X \<and> (\<forall>j<length R. i \<le> j \<longrightarrow> a \<notin> rule_writes (R ! j))"
  proof (intro allI impI ballI)
    fix i a assume "i < length R" "a \<in> rule_reads (R ! i)"
    from D(5)[OF this] show "a \<in> C \<or> a \<in> gv_prediction ` set (G @ [g]) \<or> a \<in> gv_variablePrediction ` set (G @ [g]) \<or>
      a \<in> X \<and> (\<forall>j<length R. i \<le> j \<longrightarrow> a \<notin> rule_writes (R ! j))" by auto
  qed
qed (use bb_wfD(6-8)[OF w] in auto)

lemma bb_wf_add_rule:
  assumes w: "bb_wf C X \<lparr>br_gvRules = G, br_nodeRules = R\<rparr>" and wr: "rule_writes r \<subseteq> vars \<union> (X - gv_prediction ` set G)"
    and rd: "\<forall>a\<in>rule_reads r. a \<in> C \<or> a \<in> gv_prediction ` set G \<or> a \<in> gv_variablePrediction ` set G \<or> a \<in> X \<and> a \<notin> rule_writes r"
    and fresh: "\<forall>q\<in>set R. \<forall>a\<in>rule_reads q. a \<in> X \<longrightarrow> a \<notin> rule_writes r"
  shows "bb_wf C X \<lparr>br_gvRules = G, br_nodeRules = R @ [r]\<rparr>"
  unfolding bb_wf_def bb_rules.simps
proof (intro conjI)
  note D = bb_wfD[OF w, unfolded bb_rules.simps]
  show "\<forall>q\<in>set (R @ [r]). rule_writes q \<subseteq> vars \<union> (X - gv_prediction ` set G)" using D(4) wr by auto
  show "\<forall>g\<in>set G. gv_variablePrediction g \<in> vars \<and> gv_prediction g \<in> X" using D(1,2) by blast
  show "\<forall>i<length (R @ [r]). \<forall>a\<in>rule_reads ((R @ [r]) ! i). a \<in> C \<or> a \<in> gv_prediction ` set G \<or> a \<in> gv_variablePrediction ` set G \<or>
    a \<in> X \<and> (\<forall>j<length (R @ [r]). i \<le> j \<longrightarrow> a \<notin> rule_writes ((R @ [r]) ! j))"
  proof (intro allI impI ballI)
    fix i a assume i: "i < length (R @ [r])" "a \<in> rule_reads ((R @ [r]) ! i)"
    show "a \<in> C \<or> a \<in> gv_prediction ` set G \<or> a \<in> gv_variablePrediction ` set G \<or>
      a \<in> X \<and> (\<forall>j<length (R @ [r]). i \<le> j \<longrightarrow> a \<notin> rule_writes ((R @ [r]) ! j))"
    proof (cases "i = length R")
      case True
      then have "a \<in> rule_reads r" using i(2) by simp
      then have "a \<in> C \<or> a \<in> gv_prediction ` set G \<or> a \<in> gv_variablePrediction ` set G \<or> a \<in> X \<and> a \<notin> rule_writes r" using rd by blast
      moreover have "(R @ [r]) ! j = r" if "j < length (R @ [r])" "i \<le> j" for j using that True by (simp add: nth_append)
      ultimately show ?thesis by metis
    next
      case False
      then have i': "i < length R" "a \<in> rule_reads (R ! i)" using i by (auto simp: nth_append)
      have "a \<in> X \<longrightarrow> a \<notin> rule_writes r" using fresh i' nth_mem by blast
      with D(5)[OF i'] show ?thesis by (auto simp: nth_append less_Suc_eq)
    qed
  qed
qed (use bb_wfD(3,6-8)[OF w] in auto)

subsection \<open>What processing a node does\<close>

text \<open>
  Processing the node \<open>node\<close> of block \<open>b\<close> changes predictions of that node, lets predictions of variables grow, and may allocate a copy
  of a captured variable; it adds at most one rule of each kind.
\<close>

definition old_kept :: "nat \<Rightarrow> nat \<Rightarrow> prop_pass \<Rightarrow> prop_pass \<Rightarrow> bool" where
  "old_kept b node s s' \<longleftrightarrow> pp_bbPropagators s' = pp_bbPropagators s \<and> (\<forall>n. n \<noteq> node \<longrightarrow> pp_referenced s' n = pp_referenced s n) \<and>
     (\<forall>a\<in>vars. tm_SubsetOf (pp_mem s a) (pp_mem s' a)) \<and>
     (\<forall>a. a \<notin> vars \<longrightarrow> a \<notin> range (NodePred node) \<longrightarrow> pp_mem s' a = pp_mem s a \<or> a \<in> range (GvPred b) \<and> pp_mem s' a = 0)"

definition extra_added :: "nat set \<Rightarrow> nat \<Rightarrow> prop_pass \<Rightarrow> prop_pass \<Rightarrow> bool" where
  "extra_added don node s s' \<longleftrightarrow> (\<exists>Q. pp_extraRules s' = pp_extraRules s @ Q \<and>
     (\<forall>q\<in>set Q. rule_Run q (pp_mem s') = (pp_mem s', False) \<and> rule_reads q \<subseteq> Cs don s \<and>
        rule_writes q \<subseteq> vars \<union> (if pp_referenced s' node then {} else range (NodePred node))))"

definition finder_step :: "pp_env \<Rightarrow> (nat \<times> nat) list \<Rightarrow> prop_pass \<Rightarrow> prop_pass \<Rightarrow> bool" where
  "finder_step env es s s' \<longleftrightarrow> pp_planFinder s' = fold (\<lambda>(u, d). AddEdge (pe_fresh env) u d) es (pp_planFinder s) \<and> length es \<le> 1 \<and>
     (\<forall>(u, d)\<in>set es. u < num_graph_nodes env \<and> d < num_graph_nodes env)"

lemma Cs_step: "old_kept b node s s' \<Longrightarrow> node \<notin> don \<Longrightarrow> Cs don s \<subseteq> Cs (insert node don) s'"
  by (rule Cs_grow) (auto simp: old_kept_def)

lemma Xs_step: "old_kept b node s s' \<Longrightarrow> node \<notin> don \<Longrightarrow> Xs env b' don s \<subseteq> Xs env b' (insert node don) s'"
  by (rule Xs_grow) (auto simp: old_kept_def)

lemma bb_wf_step:
  "bb_wf (Cs don s) (Xs env b' don s) bb \<Longrightarrow> old_kept b node s s' \<Longrightarrow> node \<notin> don \<Longrightarrow>
   bb_wf (Cs (insert node don) s') (Xs env b' (insert node don) s') bb"
  by (rule bb_wf_mono[OF _ Cs_step Xs_step]) (auto simp: Cs_Xs_apart)

lemma edges_in_mono: "edges_in env L b bb \<Longrightarrow> set L \<subseteq> set L' \<Longrightarrow> edges_in env L' b bb"
  unfolding edges_in_def Let_def by blast

lemma Xs_kept:
  assumes "old_kept b node s s'" "node \<notin> don" "a \<in> Xs env b' don s"
  shows "pp_mem s' a = pp_mem s a \<or> b' = b \<and> pp_mem s' a = 0"
proof -
  have "a \<notin> vars" "a \<notin> range (NodePred node)" using assms(2,3) by (auto simp: Xs_def vars_def)
  then have "pp_mem s' a = pp_mem s a \<or> a \<in> range (GvPred b) \<and> pp_mem s' a = 0" using assms(1) by (simp add: old_kept_def)
  then show ?thesis using assms(3) by (auto simp: Xs_def)
qed

lemma Cs_kept: "old_kept b node s s' \<Longrightarrow> node \<notin> don \<Longrightarrow> a \<in> Cs don s \<Longrightarrow> pp_mem s' a = pp_mem s a"
proof -
  assume k: "old_kept b node s s'" and n: "node \<notin> don" and a: "a \<in> Cs don s"
  have "a \<notin> vars" "a \<notin> range (NodePred node)" "a \<notin> range (GvPred b)" using a n by (auto simp: Cs_def vars_def)
  then show ?thesis using k unfolding old_kept_def by blast
qed

lemma gv_zero_step:
  assumes "gv_zero bb (pp_mem s)" "bb_wf (Cs don s) (Xs env b' don s) bb" "old_kept b node s s'" "node \<notin> don"
  shows "gv_zero bb (pp_mem s')"
  unfolding gv_zero_def
proof
  fix g assume g: "g \<in> set (br_gvRules bb)"
  have "pp_mem s (gv_prediction g) = 0" using assms(1) g unfolding gv_zero_def by blast
  then show "pp_mem s' (gv_prediction g) = 0" using Xs_kept[OF assms(3,4) bb_wfD(2)[OF assms(2) g]] by auto
qed

lemma extra_ok_step:
  assumes "extra_ok don s" "old_kept b node s s'" "node \<notin> don" "extra_added don node s s'"
  shows "extra_ok (insert node don) s'"
  unfolding extra_ok_def
proof
  fix r assume r: "r \<in> set (pp_extraRules s')"
  obtain Q where Q: "pp_extraRules s' = pp_extraRules s @ Q" "\<forall>q\<in>set Q. rule_Run q (pp_mem s') = (pp_mem s', False) \<and> rule_reads q \<subseteq> Cs don s \<and>
        rule_writes q \<subseteq> vars \<union> (if pp_referenced s' node then {} else range (NodePred node))"
    using assms(4) unfolding extra_added_def by blast
  note C = Cs_step[OF assms(2,3)]
  have nd: "pp_referenced s' node \<or> range (NodePred node) \<subseteq> Cs (insert node don) s'" by (auto simp: Cs_def)
  show "rule_Run r (pp_mem s') = (pp_mem s', False) \<and> rule_reads r \<subseteq> Cs (insert node don) s' \<and> rule_writes r \<subseteq> vars \<union> Cs (insert node don) s'"
  proof (cases "r \<in> set (pp_extraRules s)")
    case True
    then have o: "rule_Run r (pp_mem s) = (pp_mem s, False)" "rule_reads r \<subseteq> Cs don s" "rule_writes r \<subseteq> vars \<union> Cs don s"
      using assms(1) unfolding extra_ok_def by blast+
    have "tm_SubsetOf (pp_mem s a) (pp_mem s' a)" if "a \<in> rule_writes r" for a
    proof (cases "a \<in> vars")
      case True
      then show ?thesis using assms(2) unfolding old_kept_def by blast
    next
      case False
      then show ?thesis using o(3) that Cs_kept[OF assms(2,3), of a] by auto
    qed
    then have "rule_Run r (pp_mem s') = (pp_mem s', False)" using Cs_kept[OF assms(2,3)] o(2) by (intro ndr.stable_frame[OF o(1)]) blast+
    then show ?thesis using o C by blast
  next
    case False
    then have "r \<in> set Q" using r Q(1) by simp
    from Q(2)[rule_format, OF this] show ?thesis using C nd by (cases "pp_referenced s' node") (simp, blast)+
  qed
qed

lemma setup_inv_step:
  assumes I: "setup_inv env pm b don L s" and k: "old_kept b node s s'" and n: "node \<notin> don" and x: "extra_added don node s s'" and f: "finder_step env es s s'"
  shows "setup_inv env pm b (insert node don) (L @ es) s'"
proof -
  have bs: "bb_wf (Cs (insert node don) s') (Xs env b' (insert node don) s') (pp_bbPropagators s' ! b')" "gv_zero (pp_bbPropagators s' ! b') (pp_mem s')"
    "edges_in env (L @ es) b' (pp_bbPropagators s' ! b')" if b': "b' < b" for b'
  proof -
    have p: "pp_bbPropagators s' = pp_bbPropagators s" using k by (simp add: old_kept_def)
    have o: "bb_wf (Cs don s) (Xs env b' don s) (pp_bbPropagators s ! b')" "gv_zero (pp_bbPropagators s ! b') (pp_mem s)"
      "edges_in env L b' (pp_bbPropagators s ! b')" using I b' unfolding setup_inv_def by blast+
    show "bb_wf (Cs (insert node don) s') (Xs env b' (insert node don) s') (pp_bbPropagators s' ! b')" unfolding p by (rule bb_wf_step[OF o(1) k n])
    show "gv_zero (pp_bbPropagators s' ! b') (pp_mem s')" unfolding p by (rule gv_zero_step[OF o(2,1) k n])
    show "edges_in env (L @ es) b' (pp_bbPropagators s' ! b')" unfolding p by (rule edges_in_mono[OF o(3)]) simp
  qed
  have "length (pp_bbPropagators s') = length (dg_blocks (pe_graph env))" using I k by (simp add: setup_inv_def old_kept_def)
  moreover have "extra_ok (insert node don) s'" using extra_ok_step[OF _ k n x] I unfolding setup_inv_def by blast
  moreover have "finder_ok env pm (L @ es) (pp_planFinder s')" using I f unfolding setup_inv_def finder_ok_def finder_step_def by auto
  moreover have "c \<in> insert node don \<and> \<not> pp_referenced s' c" if "c \<in> set (dg_constants (pe_graph env))" for c
  proof -
    have c: "c \<in> don" "\<not> pp_referenced s c" using I that unfolding setup_inv_def by blast+
    then have "c \<noteq> node" using n by blast
    then show ?thesis using c k unfolding old_kept_def by blast
  qed
  moreover have "finite (insert node don)" "length (L @ es) \<le> card (insert node don)" using I n f by (auto simp: setup_inv_def finder_step_def)
  ultimately show ?thesis using bs unfolding setup_inv_def by blast
qed

text \<open>The buffers of the current block.\<close>

definition gv_added :: "pp_env \<Rightarrow> nat \<Rightarrow> nat \<Rightarrow> (nat \<times> nat) list \<Rightarrow> prop_pass \<Rightarrow> prop_pass \<Rightarrow> gv_rule list \<Rightarrow> bool" where
  "gv_added env b node L' s s' G \<longleftrightarrow> pp_gvRuleBuffer s' = pp_gvRuleBuffer s @ G \<and> length G \<le> 1 \<and>
     (\<forall>g\<in>set G. gv_variablePrediction g \<in> vars \<and> pp_mem s' (gv_prediction g) = 0 \<and>
        (var_node (length (dg_blocks (pe_graph env))) (length (dg_blocks (pe_graph env)) + dg_numLogicalVars (pe_graph env)) (gv_variablePrediction g), b) \<in> set L' \<and>
        (gv_prediction g \<in> range (NodePred node) \<and> pp_referenced s' node \<and> pp_nodeRuleBuffer s' = pp_nodeRuleBuffer s \<or>
         gv_prediction g \<in> range (GvPred b) - gv_prediction ` set (pp_gvRuleBuffer s)))"

definition rule_added :: "pp_env \<Rightarrow> nat \<Rightarrow> nat set \<Rightarrow> nat \<Rightarrow> (nat \<times> nat) list \<Rightarrow> prop_pass \<Rightarrow> prop_pass \<Rightarrow> bool" where
  "rule_added env b don node L' s s' \<longleftrightarrow> (\<exists>R. pp_nodeRuleBuffer s' = pp_nodeRuleBuffer s @ R \<and> length R \<le> 1 \<and>
     (\<forall>r\<in>set R. pp_referenced s' node \<and> rule_writes r \<subseteq> vars \<union> range (NodePred node) \<and>
        rule_reads r \<subseteq> Cs don s \<union> Xs env b don s \<union> gv_variablePrediction ` set (pp_gvRuleBuffer s') \<and>
        (\<forall>a\<in>rule_writes r. a \<in> vars \<longrightarrow>
           (b, var_node (length (dg_blocks (pe_graph env))) (length (dg_blocks (pe_graph env)) + dg_numLogicalVars (pe_graph env)) a) \<in> set L')))"

lemma buffer_addrs:
  assumes w: "bb_wf (Cs don s) (Xs env b don s) (cur_bb s)"
  shows "g \<in> set (pp_gvRuleBuffer s) \<Longrightarrow> gv_prediction g \<in> Xs env b don s"
    "r \<in> set (pp_nodeRuleBuffer s) \<Longrightarrow> rule_writes r \<subseteq> vars \<union> Xs env b don s"
    "r \<in> set (pp_nodeRuleBuffer s) \<Longrightarrow> rule_reads r \<subseteq> Cs don s \<union> Xs env b don s \<union> vars"
proof -
  note D = bb_wfD[OF w, unfolded bb_rules.simps]
  show "g \<in> set (pp_gvRuleBuffer s) \<Longrightarrow> gv_prediction g \<in> Xs env b don s" by (rule D(2))
  show "r \<in> set (pp_nodeRuleBuffer s) \<Longrightarrow> rule_writes r \<subseteq> vars \<union> Xs env b don s" using D(4) by blast
  assume "r \<in> set (pp_nodeRuleBuffer s)"
  then obtain i where i: "i < length (pp_nodeRuleBuffer s)" "r = pp_nodeRuleBuffer s ! i" by (metis in_set_conv_nth)
  show "rule_reads r \<subseteq> Cs don s \<union> Xs env b don s \<union> vars"
  proof
    fix a assume "a \<in> rule_reads r"
    from D(5)[OF i(1) this[unfolded i(2)]] show "a \<in> Cs don s \<union> Xs env b don s \<union> vars" using D(1,2) by blast
  qed
qed

lemma block_wf_step:
  assumes w: "bb_wf (Cs don s) (Xs env b don s) (cur_bb s)" and priv: "\<forall>r\<in>set (pp_nodeRuleBuffer s). rule_writes r \<inter> range (GvPred b) = {}"
    and k: "old_kept b node s s'" and n: "node \<notin> don" "node \<in> set (dg_blocks (pe_graph env) ! b)"
    and g: "gv_added env b node L' s s' G" and r: "rule_added env b don node L' s s'"
  shows "bb_wf (Cs (insert node don) s') (Xs env b (insert node don) s') (cur_bb s')"
proof -
  let ?C = "Cs (insert node don) s'" and ?X = "Xs env b (insert node don) s'"
  note A = buffer_addrs[OF w]
  have nX: "NodePred node i \<notin> Xs env b don s" "NodePred node i \<notin> Cs don s" "NodePred node i \<notin> vars" for i using n(1) by (auto simp: Xs_def Cs_def vars_def)
  have w1: "bb_wf ?C ?X \<lparr>br_gvRules = pp_gvRuleBuffer s, br_nodeRules = pp_nodeRuleBuffer s\<rparr>" by (rule bb_wf_step[OF w k n(1)])
  have G: "pp_gvRuleBuffer s' = pp_gvRuleBuffer s @ G" "length G \<le> 1" using g by (simp_all add: gv_added_def)
  have w2: "bb_wf ?C ?X \<lparr>br_gvRules = pp_gvRuleBuffer s', br_nodeRules = pp_nodeRuleBuffer s\<rparr>"
  proof (cases G)
    case Nil
    then show ?thesis using w1 G(1) by simp
  next
    case (Cons h T)
    then have h: "G = [h]" using G(2) by simp
    have v: "gv_variablePrediction h \<in> vars" and o: "gv_prediction h \<in> range (NodePred node) \<and> pp_referenced s' node \<or>
         gv_prediction h \<in> range (GvPred b) - gv_prediction ` set (pp_gvRuleBuffer s)" using g unfolding gv_added_def h by auto
    have "gv_prediction h \<in> ?X" using o n(2) by (auto simp: Xs_def)
    moreover have "gv_prediction h \<notin> gv_prediction ` set (pp_gvRuleBuffer s)" using o A(1) nX(1) by (metis DiffD2 imageE)
    moreover have "\<forall>r\<in>set (pp_nodeRuleBuffer s). gv_prediction h \<notin> rule_writes r"
    proof
      fix q assume q: "q \<in> set (pp_nodeRuleBuffer s)"
      show "gv_prediction h \<notin> rule_writes q"
      proof (cases "gv_prediction h \<in> range (NodePred node)")
        case True
        then obtain i where "gv_prediction h = NodePred node i" by blast
        then show ?thesis using A(2)[OF q] nX(1,3)[of i] by auto
      next
        case False
        then show ?thesis using o priv q by blast
      qed
    qed
    ultimately show ?thesis unfolding G(1) h by (intro bb_wf_add_gv[OF w1 v])
  qed
  obtain R where R: "pp_nodeRuleBuffer s' = pp_nodeRuleBuffer s @ R" "length R \<le> 1" "\<forall>r\<in>set R. pp_referenced s' node \<and> rule_writes r \<subseteq> vars \<union> range (NodePred node) \<and>
        rule_reads r \<subseteq> Cs don s \<union> Xs env b don s \<union> gv_variablePrediction ` set (pp_gvRuleBuffer s')" using r unfolding rule_added_def by blast
  show ?thesis
  proof (cases R)
    case Nil
    then show ?thesis using w2 R(1) by simp
  next
    case (Cons q T)
    then have q: "R = [q]" using R(2) by simp
    have ref: "pp_referenced s' node" and wr: "rule_writes q \<subseteq> vars \<union> range (NodePred node)"
      and rd: "rule_reads q \<subseteq> Cs don s \<union> Xs env b don s \<union> gv_variablePrediction ` set (pp_gvRuleBuffer s')" using R(3) q by auto
    have gX: "range (NodePred node) \<inter> gv_prediction ` set (pp_gvRuleBuffer s') = {}"
    proof -
      have "pp_nodeRuleBuffer s' \<noteq> pp_nodeRuleBuffer s" using R(1) q by simp
      then have "gv_prediction h \<in> range (GvPred b)" if "h \<in> set G" for h using g that unfolding gv_added_def by blast
      then have G': "gv_prediction ` set (pp_gvRuleBuffer s') \<subseteq> Xs env b don s \<union> range (GvPred b)" using A(1) unfolding G(1) by auto
      have "range (NodePred node) \<inter> (Xs env b don s \<union> range (GvPred b)) = {}" using nX(1) by auto
      then show ?thesis using G' by blast
    qed
    have "range (NodePred node) \<subseteq> ?X" using ref n(2) by (auto simp: Xs_def)
    then have 1: "rule_writes q \<subseteq> vars \<union> (?X - gv_prediction ` set (pp_gvRuleBuffer s'))" using wr gX by blast
    have xw: "a \<notin> rule_writes q" if "a \<in> Xs env b don s" for a using that wr nX(1) Cs_Xs_apart(2)[of env b don s] by blast
    have 2: "\<forall>a\<in>rule_reads q. a \<in> ?C \<or> a \<in> gv_prediction ` set (pp_gvRuleBuffer s') \<or> a \<in> gv_variablePrediction ` set (pp_gvRuleBuffer s') \<or> a \<in> ?X \<and> a \<notin> rule_writes q"
      using rd xw Cs_step[OF k n(1)] Xs_step[OF k n(1), of env b] by blast
    have 3: "\<forall>q'\<in>set (pp_nodeRuleBuffer s). \<forall>a\<in>rule_reads q'. a \<in> ?X \<longrightarrow> a \<notin> rule_writes q"
    proof (intro ballI impI)
      fix q' a assume "q' \<in> set (pp_nodeRuleBuffer s)" "a \<in> rule_reads q'" "a \<in> ?X"
      then have "a \<in> Cs don s \<union> Xs env b don s" "a \<notin> vars" using A(3) Cs_Xs_apart(2)[of env b "insert node don" s'] by blast+
      then show "a \<notin> rule_writes q" using wr nX by blast
    qed
    show ?thesis unfolding R(1) q by (rule bb_wf_add_rule[OF w2 1 2 3])
  qed
qed

lemma block_inv_step:
  assumes I: "block_inv env b don L s" and k: "old_kept b node s s'" and n: "node \<notin> don" "node \<in> set (dg_blocks (pe_graph env) ! b)"
    and g: "gv_added env b node (L @ es) s s' G" and r: "rule_added env b don node (L @ es) s s'" and sn: "seen_ok env b s'"
  shows "block_inv env b (insert node don) (L @ es) s'"
proof -
  have w: "bb_wf (Cs don s) (Xs env b don s) (cur_bb s)" and z: "gv_zero (cur_bb s) (pp_mem s)" and e: "edges_in env L b (cur_bb s)"
    and p: "\<forall>r\<in>set (pp_nodeRuleBuffer s). rule_writes r \<inter> range (GvPred b) = {}" using I unfolding block_inv_def by blast+
  have G: "pp_gvRuleBuffer s' = pp_gvRuleBuffer s @ G" using g by (simp add: gv_added_def)
  obtain R where R: "pp_nodeRuleBuffer s' = pp_nodeRuleBuffer s @ R" "\<forall>r\<in>set R. rule_writes r \<subseteq> vars \<union> range (NodePred node) \<and> (\<forall>a\<in>rule_writes r. a \<in> vars \<longrightarrow>
           (b, var_node (length (dg_blocks (pe_graph env))) (length (dg_blocks (pe_graph env)) + dg_numLogicalVars (pe_graph env)) a) \<in> set (L @ es))"
    using r unfolding rule_added_def by blast
  have "bb_wf (Cs (insert node don) s') (Xs env b (insert node don) s') (cur_bb s')" by (rule block_wf_step[OF w p k n g r])
  moreover have "gv_zero (cur_bb s') (pp_mem s')"
    using gv_zero_step[OF z w k n(1)] g unfolding gv_zero_def G bb_rules.simps set_append gv_added_def by blast
  moreover have "edges_in env (L @ es) b (cur_bb s')"
  proof -
    have "edges_in env (L @ es) b (cur_bb s)" by (rule edges_in_mono[OF e]) simp
    then show ?thesis using g R(2) unfolding edges_in_def Let_def G R(1) bb_rules.simps set_append gv_added_def by blast
  qed
  moreover have "\<forall>r\<in>set (pp_nodeRuleBuffer s'). rule_writes r \<inter> range (GvPred b) = {}"
  proof
    fix q assume q: "q \<in> set (pp_nodeRuleBuffer s')"
    have "(vars \<union> range (NodePred node)) \<inter> range (GvPred b) = {}" by (auto simp: vars_def)
    then show "rule_writes q \<inter> range (GvPred b) = {}" using q p R(2) unfolding R(1) set_append by blast
  qed
  ultimately show ?thesis using sn unfolding block_inv_def by blast
qed

subsection \<open>Processing a node\<close>

definition node_ok :: "pp_env \<Rightarrow> nat \<Rightarrow> nat set \<Rightarrow> nat \<Rightarrow> prop_pass \<Rightarrow> prop_pass \<Rightarrow> bool" where
  "node_ok env b don node s s' \<longleftrightarrow> (\<exists>es G. old_kept b node s s' \<and> extra_added don node s s' \<and> finder_step env es s s' \<and>
     gv_added env b node es s s' G \<and> rule_added env b don node es s s' \<and> seen_ok env b s')"

lemma node_ok_inv:
  assumes I: "setup_inv env pm b don L s" "block_inv env b don L s" and n: "node \<notin> don" "node \<in> set (dg_blocks (pe_graph env) ! b)"
    and k: "node_ok env b don node s s'"
  shows "\<exists>L'. setup_inv env pm b (insert node don) L' s' \<and> block_inv env b (insert node don) L' s'"
proof -
  obtain es G where K: "old_kept b node s s'" "extra_added don node s s'" "finder_step env es s s'" "gv_added env b node es s s' G"
    "rule_added env b don node es s s'" "seen_ok env b s'" using k unfolding node_ok_def by blast
  have g: "gv_added env b node (L @ es) s s' G" using K(4) unfolding gv_added_def set_append by blast
  have r: "rule_added env b don node (L @ es) s s'" using K(5) unfolding rule_added_def set_append by blast
  from setup_inv_step[OF I(1) K(1) n(1) K(2,3)] block_inv_step[OF I(2) K(1) n g r K(6)] show ?thesis by blast
qed

text \<open>The predictions of the node are set first; apart from that and its reference bit, nothing changes.\<close>

definition touched :: "nat \<Rightarrow> prop_pass \<Rightarrow> prop_pass \<Rightarrow> bool" where
  "touched node s0 s \<longleftrightarrow> pp_bbPropagators s = pp_bbPropagators s0 \<and> pp_gvRuleBuffer s = pp_gvRuleBuffer s0 \<and>
     pp_nodeRuleBuffer s = pp_nodeRuleBuffer s0 \<and> pp_extraRules s = pp_extraRules s0 \<and> pp_planFinder s = pp_planFinder s0 \<and>
     pp_cvLogicalOrdSeen s = pp_cvLogicalOrdSeen s0 \<and> pp_cvLogicalOrdSeenColor s = pp_cvLogicalOrdSeenColor s0 \<and>
     \<not> pp_referenced s node \<and> (\<forall>n. n \<noteq> node \<longrightarrow> pp_referenced s n = pp_referenced s0 n) \<and>
     (\<forall>a. a \<notin> range (NodePred node) \<longrightarrow> pp_mem s a = pp_mem s0 a)"

lemma touchedD:
  assumes "touched node s0 s"
  shows "pp_bbPropagators s = pp_bbPropagators s0" "pp_gvRuleBuffer s = pp_gvRuleBuffer s0" "pp_nodeRuleBuffer s = pp_nodeRuleBuffer s0"
    "pp_extraRules s = pp_extraRules s0" "pp_planFinder s = pp_planFinder s0" "pp_cvLogicalOrdSeen s = pp_cvLogicalOrdSeen s0"
    "pp_cvLogicalOrdSeenColor s = pp_cvLogicalOrdSeenColor s0" "\<not> pp_referenced s node" "n \<noteq> node \<Longrightarrow> pp_referenced s n = pp_referenced s0 n"
    "a \<notin> range (NodePred node) \<Longrightarrow> pp_mem s a = pp_mem s0 a"
  using assms unfolding touched_def by (elim conjE; simp)+

lemma touched_start: "touched node s (s\<lparr>pp_referenced := (pp_referenced s)(node := False)\<rparr>)"
  by (simp add: touched_def)

lemma touched_mem:
  assumes "touched node s0 s" "\<forall>a. a \<notin> range (NodePred node) \<longrightarrow> m a = pp_mem s a"
  shows "touched node s0 (s\<lparr>pp_mem := m\<rparr>)" "touched node s0 (s\<lparr>pp_numNodesAssignedPredictions := k, pp_mem := m\<rparr>)"
  using assms by (simp_all add: touched_def)

lemma touched_one: "touched node s0 s \<Longrightarrow> touched node s0 (OneOutputPrediction node p s)"
  unfolding OneOutputPrediction_def by (rule touched_mem(2)) auto

lemma output_addr_range: "output_addr n node k \<in> range (NodePred node)"
  by (simp add: output_addr_def)

lemma outputs_kept: "a \<notin> range (NodePred node) \<Longrightarrow> fold (\<lambda>k m. m(output_addr n node k := f k)) ks m a = m a"
proof (induction ks arbitrary: m)
  case (Cons k ks)
  have "a \<noteq> output_addr n node k" using output_addr_range[of n node k] Cons(2) by blast
  then show ?case using Cons by simp
qed simp

lemma touched_array: "touched node s0 s \<Longrightarrow> touched node s0 (SetupPredictionArrayForNode n node ps s)"
  unfolding SetupPredictionArrayForNode_def by (rule touched_mem(2)) (auto intro: outputs_kept)

lemma seen_ok_same:
  assumes "seen_ok env b s" "pp_cvLogicalOrdSeen s' = pp_cvLogicalOrdSeen s" "pp_cvLogicalOrdSeenColor s' = pp_cvLogicalOrdSeenColor s"
    and "pp_gvRuleBuffer s' = pp_gvRuleBuffer s @ G" "\<forall>g\<in>set G. gv_prediction g \<notin> range (GvPred b)"
  shows "seen_ok env b s'"
proof -
  have "HasSeenCapturedVar c s' = HasSeenCapturedVar c s" for c using assms(2,3) by (simp add: HasSeenCapturedVar_def)
  moreover have "GvPred b c \<in> gv_prediction ` set (pp_gvRuleBuffer s') \<longleftrightarrow> GvPred b c \<in> gv_prediction ` set (pp_gvRuleBuffer s)" for c
  proof -
    have "GvPred b c \<notin> gv_prediction ` set G" using assms(5) by (metis imageE rangeI)
    then show ?thesis unfolding assms(4) by (simp add: image_Un)
  qed
  ultimately show ?thesis using assms(1) unfolding seen_ok_def assms(2,3) assms(4) by auto
qed

lemma run_again: "rule_reads r \<inter> rule_writes r = {} \<Longrightarrow> rule_Run r (fst (rule_Run r m)) = (fst (rule_Run r m), False)"
  by (rule ndr.settles[of r _ m]) (auto intro: ndr.frame)

lemma node_ok_rule:
  assumes t: "touched node s0 s" and n: "node \<notin> don" and wr: "rule_writes r \<subseteq> vars \<union> range (NodePred node)"
    and rd: "rule_reads r \<subseteq> Cs don s0 \<union> Xs env b don s0" "\<not> must \<Longrightarrow> rule_reads r \<subseteq> Cs don s0"
    and es: "length es \<le> 1" "\<forall>(u, d)\<in>set es. u < num_graph_nodes env \<and> d < num_graph_nodes env"
    and e: "\<forall>a\<in>rule_writes r. a \<in> vars \<longrightarrow> (b, var_node (length (dg_blocks (pe_graph env))) (length (dg_blocks (pe_graph env)) + dg_numLogicalVars (pe_graph env)) a) \<in> set es"
    and sn: "seen_ok env b s0"
  shows "node_ok env b don node s0 ((AddOrRunRule node must r s)\<lparr>pp_planFinder := fold (\<lambda>(u, d). AddEdge (pe_fresh env) u d) es (pp_planFinder s)\<rparr>)"
    (is "node_ok env b don node s0 ?s'")
proof -
  note T = touchedD[OF t]
  let ?m = "if must then pp_mem s else fst (rule_Run r (pp_mem s))"
  have f: "pp_mem ?s' = ?m" "pp_bbPropagators ?s' = pp_bbPropagators s" "pp_gvRuleBuffer ?s' = pp_gvRuleBuffer s"
    "pp_nodeRuleBuffer ?s' = pp_nodeRuleBuffer s @ (if must then [r] else [])" "pp_extraRules ?s' = pp_extraRules s @ (if must then [] else [r])"
    "pp_referenced ?s' = (pp_referenced s)(node := must)" "pp_planFinder ?s' = fold (\<lambda>(u, d). AddEdge (pe_fresh env) u d) es (pp_planFinder s)"
    "pp_cvLogicalOrdSeen ?s' = pp_cvLogicalOrdSeen s" "pp_cvLogicalOrdSeenColor ?s' = pp_cvLogicalOrdSeenColor s"
    using T(8) by (auto simp: AddOrRunRule_def fun_eq_iff)
  have up: "mem_le (pp_mem s) ?m" using ndr.grows by simp
  have off: "?m a = pp_mem s0 a" if "a \<notin> vars" "a \<notin> range (NodePred node)" for a
    using that wr ndr.frame[of a r "pp_mem s"] T(10)[OF that(2)] by auto
  have "vars \<inter> range (NodePred node) = {}" by (auto simp: vars_def)
  then have "\<forall>a\<in>vars. tm_SubsetOf (pp_mem s0 a) (?m a)" using up T(10) unfolding mem_le_def by (metis IntI empty_iff)
  then have 1: "old_kept b node s0 ?s'" unfolding old_kept_def f using off T by auto
  have "rule_reads r \<inter> rule_writes r = {}" if "\<not> must"
  proof -
    have "Cs don s0 \<inter> range (NodePred node) = {}" using n by (auto simp: Cs_def)
    then show ?thesis using rd(2)[OF that] wr Cs_Xs_apart(1)[of don s0] by blast
  qed
  then have 2: "extra_added don node s0 ?s'" unfolding extra_added_def f T(4) using run_again[of r "pp_mem s"] rd(2) wr by auto
  have 3: "finder_step env es s0 ?s'" unfolding finder_step_def f T(5) using es by simp
  have 4: "gv_added env b node es s0 ?s' []" unfolding gv_added_def f T(2) by simp
  have 5: "rule_added env b don node es s0 ?s'" unfolding rule_added_def f T(2,3)
    by (rule exI[of _ "if must then [r] else []"]) (use wr rd(1) e in auto)
  have "pp_gvRuleBuffer ?s' = pp_gvRuleBuffer s0 @ []" unfolding f T(2) by simp
  from seen_ok_same[OF sn f(8)[unfolded T(6)] f(9)[unfolded T(7)] this] have 6: "seen_ok env b ?s'" by simp
  from 1 2 3 4 5 6 show ?thesis unfolding node_ok_def by blast
qed

lemma node_ok_touched:
  assumes t: "touched node s0 s" and sn: "seen_ok env b s0"
  shows "node_ok env b don node s0 s"
proof -
  note T = touchedD[OF t]
  have v: "a \<notin> range (NodePred node)" if "a \<in> vars" for a using that by (auto simp: vars_def)
  have 1: "old_kept b node s0 s" unfolding old_kept_def using T(1,9,10) v by auto
  have 2: "extra_added don node s0 s" unfolding extra_added_def T(4) by simp
  have 3: "finder_step env [] s0 s" unfolding finder_step_def T(5) by simp
  have 4: "gv_added env b node [] s0 s []" unfolding gv_added_def T(2) by simp
  have 5: "rule_added env b don node [] s0 s" unfolding rule_added_def T(3) by simp
  have 6: "seen_ok env b s" by (rule seen_ok_same[OF sn, of _ "[]"]) (simp_all add: T)
  from 1 2 3 4 5 6 show ?thesis unfolding node_ok_def by blast
qed

end
