(* ===== verification/PredNodes.thy ===== *)
theory PredNodes
  imports PredSetup
begin

text \<open>
  Processing each kind of node, the nodes of a block, and all blocks keeps the invariant of \<open>PredSetup\<close>.
\<close>

unbundle bit_operations_syntax

definition avail :: "pp_env \<Rightarrow> nat \<Rightarrow> nat set \<Rightarrow> prop_pass \<Rightarrow> nat \<Rightarrow> bool" where
  "avail env b don s m \<longleftrightarrow> m \<in> don \<and> (pp_referenced s m \<longrightarrow> m \<in> set (dg_blocks (pe_graph env) ! b))"

lemma avail_addr: "avail env b don s m \<Longrightarrow> NodePred m k \<in> Cs don s \<union> Xs env b don s" "avail env b don s m \<Longrightarrow> \<not> pp_referenced s m \<Longrightarrow> NodePred m k \<in> Cs don s"
  by (auto simp: avail_def Cs_def Xs_def)

lemma finder_fields:
  assumes "finder_ok env pm L f"
  shows "pf_numBBs f = length (dg_blocks (pe_graph env))" "pf_cvNodeOffset f = length (dg_blocks (pe_graph env)) + dg_numLogicalVars (pe_graph env)"
    "pf_numNodes f = num_graph_nodes env"
  using assms by (simp_all add: finder_ok_def initial_finder_def pf_Initialize_repr num_graph_nodes_def)

lemma node_ok_set_var:
  assumes t: "touched node s0 s" and n: "node \<notin> don" and a: "avail env b don s0 m" and v: "v \<in> vars" and sn: "seen_ok env b s0"
    and bd: "b < num_graph_nodes env" "d < num_graph_nodes env"
    and d: "d = var_node (length (dg_blocks (pe_graph env))) (length (dg_blocks (pe_graph env)) + dg_numLogicalVars (pe_graph env)) v"
  shows "node_ok env b don node s0 ((AddOrRunRule node (pp_referenced s m) (Sssd v (NodePred m k)) s)\<lparr>pp_planFinder := AddEdge (pe_fresh env) b d (pp_planFinder s)\<rparr>)"
proof -
  have m: "pp_referenced s m = pp_referenced s0 m" using touchedD(9)[OF t, of m] a n by (auto simp: avail_def)
  show ?thesis
    using node_ok_rule[OF t n, of "Sssd v (NodePred m k)" env b "pp_referenced s m" "[(b, d)]"] avail_addr[OF a, of k] v sn bd d m by auto
qed

lemma AddOrRunRule_finder: "pp_planFinder (AddOrRunRule node must r s) = pp_planFinder s"
  by (simp add: AddOrRunRule_def)

lemma AddOrRun_OneOutput:
  assumes "v \<in> vars" "m \<noteq> node"
  shows "OneOutputPrediction node p (AddOrRunRule node must (Sssd v (NodePred m k)) s) = AddOrRunRule node must (Sssd v (NodePred m k)) (OneOutputPrediction node p s)"
proof -
  have "v \<noteq> NodePred node 0" using assms(1) by (auto simp: vars_def)
  then have "(fst (UpdatePrediction v (pp_mem s (NodePred m k)) (pp_mem s)))(NodePred node 0 := p) =
    fst (UpdatePrediction v (pp_mem s (NodePred m k)) ((pp_mem s)(NodePred node 0 := p)))" by (simp add: UpdatePrediction_def Let_def fun_upd_twist)
  then show ?thesis using assms(2) by (simp add: OneOutputPrediction_def AddOrRunRule_def)
qed

lemma node_ok_var_grows:
  assumes t: "touched node s0 s" and v: "v \<in> vars" and sn: "seen_ok env b s0" and bd: "b < num_graph_nodes env" "d < num_graph_nodes env"
  shows "node_ok env b don node s0 (s\<lparr>pp_mem := (pp_mem s)(v := pp_mem s v OR x), pp_planFinder := AddEdge (pe_fresh env) b d (pp_planFinder s)\<rparr>)"
    (is "node_ok env b don node s0 ?s'")
proof -
  note T = touchedD[OF t]
  have v': "a \<notin> range (NodePred node)" if "a \<in> vars" for a using that by (auto simp: vars_def)
  have 1: "old_kept b node s0 ?s'" unfolding old_kept_def using T(1,9,10) v' v by auto
  have 2: "extra_added don node s0 ?s'" unfolding extra_added_def using T(4) by simp
  have 3: "finder_step env [(b, d)] s0 ?s'" unfolding finder_step_def using T(5) bd by simp
  have 4: "gv_added env b node [(b, d)] s0 ?s' []" unfolding gv_added_def using T(2) by simp
  have 5: "rule_added env b don node [(b, d)] s0 ?s'" unfolding rule_added_def using T(3) by simp
  have 6: "seen_ok env b ?s'" by (rule seen_ok_same[OF sn, of _ "[]"]) (simp_all add: T)
  from 1 2 3 4 5 6 show ?thesis unfolding node_ok_def by blast
qed

lemma node_ok_GetLocal:
  assumes t: "touched node s0 s" and n: "node \<notin> don" and sn: "seen_ok env b s0" and bd: "b < num_graph_nodes env" "lv < dg_numLogicalVars (pe_graph env)"
    and f: "finder_ok env pm L (pp_planFinder s0)"
  shows "node_ok env b don node s0 (ProcessGetLocal env b node lv s)" (is "node_ok env b don node s0 ?s'")
proof -
  let ?nb = "length (dg_blocks (pe_graph env))" and ?g = "\<lparr>gv_variablePrediction = VarPred lv, gv_prediction = NodePred node 0\<rparr>"
  note T = touchedD[OF t]
  have S: "?s' = (OneOutputPrediction node 0 s)\<lparr>pp_referenced := (pp_referenced s)(node := True), pp_gvRuleBuffer := pp_gvRuleBuffer s0 @ [?g],
    pp_planFinder := AddEdge (pe_fresh env) (?nb + lv) b (pp_planFinder s0)\<rparr>"
    using finder_fields(1)[OF f] T(2,5) by (simp add: ProcessGetLocal_def OneOutputPrediction_def NotifyGetLocal_def Let_def type_mask_values)
  note U = touchedD[OF touched_one[OF t, of 0]]
  have v': "a \<notin> range (NodePred node)" if "a \<in> vars" for a using that by (auto simp: vars_def)
  have 1: "old_kept b node s0 ?s'" unfolding old_kept_def S using U(1,10) T(9) v' by auto
  have 2: "extra_added don node s0 ?s'" unfolding extra_added_def S using U(4) by simp
  have 3: "finder_step env [(?nb + lv, b)] s0 ?s'" unfolding finder_step_def S using bd by (simp add: num_graph_nodes_def)
  have 4: "gv_added env b node [(?nb + lv, b)] s0 ?s' [?g]" unfolding gv_added_def S using U(3)
    by (simp add: vars_def OneOutputPrediction_def)
  have 5: "rule_added env b don node [(?nb + lv, b)] s0 ?s'" unfolding rule_added_def S using U(3) by simp
  have 6: "seen_ok env b ?s'" unfolding S by (rule seen_ok_same[OF sn, of _ "[?g]"]) (auto simp: U)
  from 1 2 3 4 5 6 show ?thesis unfolding node_ok_def by blast
qed

lemma seen_ok_new:
  assumes sn: "seen_ok env b s" and c: "c < dg_numCapturedVars (pe_graph env)"
    and f: "pp_cvLogicalOrdSeen s' = (pp_cvLogicalOrdSeen s)[c := pp_cvLogicalOrdSeenColor s]" "pp_cvLogicalOrdSeenColor s' = pp_cvLogicalOrdSeenColor s"
      "pp_gvRuleBuffer s' = pp_gvRuleBuffer s @ [\<lparr>gv_variablePrediction = CapturedVarPred c, gv_prediction = GvPred b c\<rparr>]"
  shows "seen_ok env b s'"
proof -
  have l: "length (pp_cvLogicalOrdSeen s) = dg_numCapturedVars (pe_graph env)" using sn by (simp add: seen_ok_def)
  have h: "HasSeenCapturedVar d s' \<longleftrightarrow> d = c \<or> HasSeenCapturedVar d s" if "d < dg_numCapturedVars (pe_graph env)" for d
    using that c l by (auto simp: HasSeenCapturedVar_def f nth_list_update)
  have i: "gv_prediction ` set (pp_gvRuleBuffer s') = insert (GvPred b c) (gv_prediction ` set (pp_gvRuleBuffer s))"
    "gv_variablePrediction ` set (pp_gvRuleBuffer s') = insert (CapturedVarPred c) (gv_variablePrediction ` set (pp_gvRuleBuffer s))" unfolding f by auto
  have "pp_cvLogicalOrdSeen s' ! d \<le> pp_cvLogicalOrdSeenColor s'" if "d < dg_numCapturedVars (pe_graph env)" for d
    using sn that c l by (auto simp: seen_ok_def f nth_list_update)
  then show ?thesis unfolding seen_ok_def i using h sn l c by (auto simp: f(1) seen_ok_def)
qed

lemma node_ok_GetCapturedVar:
  assumes t: "touched node s0 s" and n: "node \<notin> don" and sn: "seen_ok env b s0" and bd: "b < num_graph_nodes env" "c < dg_numCapturedVars (pe_graph env)"
    and f: "finder_ok env pm L (pp_planFinder s0)"
  shows "node_ok env b don node s0 (ProcessGetCapturedVar env b node c s)"
proof (cases "HasSeenCapturedVar c s0")
  case True
  note T = touchedD[OF t]
  let ?s = "OneOutputPrediction node (x_typeMaskFor tBottom) s" and ?r = "Sssd (NodePred node 0) (CapturedVarPred c)"
  let ?s' = "AddOrRunRule node True ?r ?s"
  have e: "ProcessGetCapturedVar env b node c s = ?s'" using True T(6,7) by (simp add: ProcessGetCapturedVar_def HasSeenCapturedVar_def Let_def)
  have cv: "CapturedVarPred c \<in> gv_variablePrediction ` set (pp_gvRuleBuffer s0)" using sn True bd(2) by (simp add: seen_ok_def)
  note U = touchedD[OF touched_one[OF t, of "x_typeMaskFor tBottom"]]
  have v': "a \<notin> range (NodePred node)" if "a \<in> vars" for a using that by (auto simp: vars_def)
  have 1: "old_kept b node s0 ?s'" unfolding old_kept_def AddOrRunRule_def using U(1,9,10) v' by auto
  have 2: "extra_added don node s0 ?s'" unfolding extra_added_def AddOrRunRule_def using U(4) by simp
  have 3: "finder_step env [] s0 ?s'" unfolding finder_step_def AddOrRunRule_def using U(5) by simp
  have 4: "gv_added env b node [] s0 ?s' []" unfolding gv_added_def AddOrRunRule_def using U(2) by simp
  have 5: "rule_added env b don node [] s0 ?s'" unfolding rule_added_def AddOrRunRule_def
    by (rule exI[of _ "[?r]"]) (use U(2,3) cv in \<open>auto simp: vars_def\<close>)
  have 6: "seen_ok env b ?s'" by (rule seen_ok_same[OF sn, of _ "[]"]) (simp_all add: U AddOrRunRule_def)
  from 1 2 3 4 5 6 show ?thesis unfolding node_ok_def e by blast
next
  case False
  note T = touchedD[OF t]
  let ?cvo = "length (dg_blocks (pe_graph env)) + dg_numLogicalVars (pe_graph env)"
  let ?g = "\<lparr>gv_variablePrediction = CapturedVarPred c, gv_prediction = GvPred b c\<rparr>" and ?r = "Sssd (NodePred node 0) (CapturedVarPred c)"
  let ?s' = "ProcessGetCapturedVar env b node c s"
  have F: "pp_mem ?s' = (pp_mem s)(GvPred b c := 0, NodePred node 0 := 0)" "pp_gvRuleBuffer ?s' = pp_gvRuleBuffer s0 @ [?g]"
    "pp_nodeRuleBuffer ?s' = pp_nodeRuleBuffer s0 @ [?r]" "pp_referenced ?s' = (pp_referenced s)(node := True)"
    "pp_planFinder ?s' = AddEdge (pe_fresh env) (?cvo + c) b (pp_planFinder s0)" "pp_extraRules ?s' = pp_extraRules s0"
    "pp_bbPropagators ?s' = pp_bbPropagators s0" "pp_cvLogicalOrdSeen ?s' = (pp_cvLogicalOrdSeen s0)[c := pp_cvLogicalOrdSeenColor s0]"
    "pp_cvLogicalOrdSeenColor ?s' = pp_cvLogicalOrdSeenColor s0"
    using False T finder_fields(2)[OF f]
    by (simp_all add: ProcessGetCapturedVar_def HasSeenCapturedVar_def SetSeenCapturedVar_def NotifyGetCapturedVar_def OneOutputPrediction_def
        AddOrRunRule_def Let_def type_mask_values)
  have u: "GvPred b c \<notin> gv_prediction ` set (pp_gvRuleBuffer s0)" using sn False bd(2) by (simp add: seen_ok_def)
  have v': "a \<notin> range (NodePred node)" if "a \<in> vars" for a using that by (auto simp: vars_def)
  have 1: "old_kept b node s0 ?s'" unfolding old_kept_def F using T(9,10) v' by (auto simp: vars_def)
  have 2: "extra_added don node s0 ?s'" unfolding extra_added_def F by simp
  have 3: "finder_step env [(?cvo + c, b)] s0 ?s'" unfolding finder_step_def F using bd by (simp add: num_graph_nodes_def)
  have 4: "gv_added env b node [(?cvo + c, b)] s0 ?s' [?g]" unfolding gv_added_def F using u by (auto simp: vars_def)
  have 5: "rule_added env b don node [(?cvo + c, b)] s0 ?s'" unfolding rule_added_def F
    by (rule exI[of _ "[?r]"]) (auto simp: vars_def)
  have 6: "seen_ok env b ?s'" by (rule seen_ok_new[OF sn bd(2) F(8,9,2)])
  from 1 2 3 4 5 6 show ?thesis unfolding node_ok_def by blast
qed

lemma node_ok_guest:
  assumes t: "touched node s0 s" and n: "node \<notin> don" and sn: "seen_ok env b s0" and p: "pe_noValueProfile env"
    and k: "dn_kind (dg_node (pe_graph env) node) = GuestLanguageNode bc nsd"
    and a: "\<forall>v\<in>used_inputs env (dg_node (pe_graph env) node). avail env b don s0 (fst v)"
  shows "\<exists>s'. ProcessGuestLanguageNode env node bc nsd s = Some s' \<and> node_ok env b don node s0 s'"
proof -
  let ?n = "dg_node (pe_graph env) node" and ?st = "bt_setup (pe_bc env) bc nsd"
  show ?thesis
  proof (cases "dn_hasDirectOutput ?n \<or> dn_numExtraOutputs ?n \<noteq> 0")
    case False
    then show ?thesis using node_ok_touched[OF t sn] by (simp add: ProcessGuestLanguageNode_def)
  next
    case True
    let ?s1 = "SetupPredictionArrayForNode ?n node (st_predictions ?st) s"
    let ?s2 = "?s1\<lparr>pp_mem := fold (\<lambda>ord m. m(output_addr ?n node ord := x_typeMaskFor tBoxedValueTop)) (st_valueProfileOrds ?st) (pp_mem ?s1)\<rparr>"
    let ?ins = "map (map_option (\<lambda>value. dn_inputs ?n ! value)) (st_inputOrds ?st)"
    let ?addrs = "map (map_option GetPredictionAddressForInputOperand) ?ins"
    let ?must = "\<exists>inputVal\<in>set ?ins. case inputVal of None \<Rightarrow> False | Some v \<Rightarrow> pp_referenced ?s1 (fst v)"
    have t1: "touched node s0 ?s1" by (rule touched_array[OF t])
    have t2: "touched node s0 ?s2" by (rule touched_mem(1)[OF t1]) (auto intro: outputs_kept)
    have e: "ProcessGuestLanguageNode env node bc nsd s = (case bt_deduce (pe_bc env) bc of None \<Rightarrow> Some ?s2
      | Some deduce \<Rightarrow> Some (AddOrRunRule node ?must (Generated (deduce nsd) ?addrs (map (output_addr ?n node) [0..<length (st_predictions ?st)])) ?s2))"
    proof -
      have c: "\<not> (\<not> dn_hasDirectOutput ?n \<and> dn_numExtraOutputs ?n = 0)" "\<not> (st_valueProfileOrds ?st \<noteq> [] \<and> \<not> pe_noValueProfile env)" using True p by blast+
      show ?thesis unfolding ProcessGuestLanguageNode_def Let_def if_not_P[OF c(1)] if_not_P[OF c(2)] ..
    qed
    show ?thesis
    proof (cases "bt_deduce (pe_bc env) bc")
      case None
      then show ?thesis using node_ok_touched[OF t2 sn] e by simp
    next
      case (Some deduce)
      let ?r = "Generated (deduce nsd) ?addrs (map (output_addr ?n node) [0..<length (st_predictions ?st)])"
      have wr: "rule_writes ?r \<subseteq> vars \<union> range (NodePred node)" using output_addr_range by auto
      have wv: "rule_writes ?r \<inter> vars = {}" by (auto simp: vars_def output_addr_def)
      have in1: "\<exists>v m k. x = NodePred m k \<and> v \<in> set ?ins \<and> v = Some (m, k) \<and> (m, k) \<in> used_inputs env ?n" if xr: "x \<in> rule_reads ?r" for x
      proof -
        obtain y where y: "y \<in> set (st_inputOrds ?st)" "Some x = map_option GetPredictionAddressForInputOperand (map_option (\<lambda>value. dn_inputs ?n ! value) y)"
          using xr by auto
        obtain w where w: "Some w \<in> set (st_inputOrds ?st)" "x = GetPredictionAddressForInputOperand (dn_inputs ?n ! w)" using y by (cases y rule: option.exhaust) auto
        have "dn_inputs ?n ! w \<in> used_inputs env ?n" using w(1) True k by (auto simp: used_inputs_def)
        moreover have "Some (dn_inputs ?n ! w) \<in> set ?ins" using w(1) by force
        ultimately show ?thesis using w(2) by (metis GetPredictionAddressForInputOperand_def prod.collapse)
      qed
      have rd1: "rule_reads ?r \<subseteq> Cs don s0 \<union> Xs env b don s0"
      proof
        fix x assume "x \<in> rule_reads ?r"
        from in1[OF this] obtain m k where "x = NodePred m k" "(m, k) \<in> used_inputs env ?n" by blast
        then show "x \<in> Cs don s0 \<union> Xs env b don s0" using a avail_addr(1)[of env b don s0 m k] by force
      qed
      have rd2: "rule_reads ?r \<subseteq> Cs don s0" if "\<not> ?must"
      proof
        fix x assume "x \<in> rule_reads ?r"
        from in1[OF this] obtain m k where x: "x = NodePred m k" "Some (m, k) \<in> set ?ins" "(m, k) \<in> used_inputs env ?n" by blast
        have av: "avail env b don s0 m" using a x(3) by force
        have "\<not> pp_referenced ?s1 m"
        proof
          assume "pp_referenced ?s1 m"
          then have "case Some (m, k) of None \<Rightarrow> False | Some v \<Rightarrow> pp_referenced ?s1 (fst v)" by simp
          then have ?must using x(2) by (rule bexI)
          then show False using that by blast
        qed
        then have "\<not> pp_referenced s0 m" using touchedD(9)[OF t1, of m] av n by (auto simp: avail_def)
        then show "x \<in> Cs don s0" using avail_addr(2)[OF av] x(1) by blast
      qed
      have "node_ok env b don node s0 ((AddOrRunRule node ?must ?r ?s2)\<lparr>pp_planFinder := fold (\<lambda>(u, d). AddEdge (pe_fresh env) u d) [] (pp_planFinder ?s2)\<rparr>)"
        by (rule node_ok_rule[OF t2 n wr rd1 rd2 _ _ _ sn]) (use wv in auto)
      moreover have "(AddOrRunRule node ?must ?r ?s2)\<lparr>pp_planFinder := fold (\<lambda>(u, d). AddEdge (pe_fresh env) u d) [] (pp_planFinder ?s2)\<rparr> = AddOrRunRule node ?must ?r ?s2"
        using AddOrRunRule_finder[of node ?must ?r ?s2] by simp
      ultimately show ?thesis using e Some by simp
    qed
  qed
qed

definition node_wf :: "pp_env \<Rightarrow> nat \<Rightarrow> bool" where
  "node_wf env node \<longleftrightarrow> (let n = dg_node (pe_graph env) node in
     constant_prediction env (dn_kind n) = None \<and> dn_kind n \<noteq> Phi \<and> ordinals_ok (pe_graph env) (dn_kind n))"

lemma node_ok_CreateCapturedVar:
  assumes t: "touched node s0 s" and n: "node \<notin> don" and sn: "seen_ok env b s0" and bd: "b < num_graph_nodes env" "c < dg_numCapturedVars (pe_graph env)"
    and f: "finder_ok env pm L (pp_planFinder s0)" and a: "\<not> selfRef \<Longrightarrow> avail env b don s0 (fst (dn_inputs (dg_node (pe_graph env) node) ! 0))"
  shows "node_ok env b don node s0 (ProcessCreateCapturedVar env b node c selfRef s)"
proof -
  let ?v = "CapturedVarPred c" and ?cvo = "length (dg_blocks (pe_graph env)) + dg_numLogicalVars (pe_graph env)"
  have v: "?v \<in> vars" by (simp add: vars_def)
  have d: "?cvo + c < num_graph_nodes env" using bd(2) by (simp add: num_graph_nodes_def)
  let ?s = "OneOutputPrediction node (x_typeMaskFor tOpaque) s"
  have t': "touched node s0 ?s" by (rule touched_one[OF t])
  have F: "pp_planFinder s = pp_planFinder s0" "pp_planFinder ?s = pp_planFinder s0" using touchedD(5)[OF t] touchedD(5)[OF t'] .
  show ?thesis
  proof (cases selfRef)
    case True
    have "ProcessCreateCapturedVar env b node c selfRef s =
      ?s\<lparr>pp_mem := (pp_mem ?s)(?v := pp_mem ?s ?v OR x_typeMaskFor tFunction), pp_planFinder := AddEdge (pe_fresh env) b (?cvo + c) (pp_planFinder ?s)\<rparr>"
      using True finder_fields(2)[OF f] F by (simp add: ProcessCreateCapturedVar_def OneOutputPrediction_def NotifyCreateOrSetCapturedVar_def Let_def fun_upd_twist)
    then show ?thesis using node_ok_var_grows[OF t' v sn bd(1) d] by simp
  next
    case False
    obtain m k where mk: "dn_inputs (dg_node (pe_graph env) node) ! 0 = (m, k)" by force
    have av: "avail env b don s0 m" using a[OF False] mk by simp
    then have mn: "m \<noteq> node" using n by (auto simp: avail_def)
    have "ProcessCreateCapturedVar env b node c selfRef s = (AddOrRunRule node (pp_referenced ?s m) (Sssd ?v (NodePred m k)) ?s)\<lparr>pp_planFinder := AddEdge (pe_fresh env) b (?cvo + c) (pp_planFinder ?s)\<rparr>"
      using False finder_fields(2)[OF f] F mk AddOrRun_OneOutput[OF v mn]
      by (simp add: ProcessCreateCapturedVar_def NotifyCreateOrSetCapturedVar_def GetPredictionAddressForInputOperand_def Let_def AddOrRunRule_finder)
        (simp add: OneOutputPrediction_def)
    then show ?thesis using node_ok_set_var[OF t' n av v sn bd(1) d] by simp
  qed
qed

lemma ProcessNode_ok:
  assumes f: "finder_ok env pm L (pp_planFinder s)" and sn: "seen_ok env b s" and n: "node \<notin> don" "node_wf env node" "b < length (dg_blocks (pe_graph env))"
    and a: "\<forall>v\<in>used_inputs env (dg_node (pe_graph env) node). avail env b don s (fst v)" and p: "pe_noValueProfile env"
  shows "\<exists>s'. ProcessNode env b node s = Some s' \<and> node_ok env b don node s s'"
proof -
  let ?n = "dg_node (pe_graph env) node" and ?s = "s\<lparr>pp_referenced := (pp_referenced s)(node := False)\<rparr>"
  note t = touched_start[of node s]
  have b: "b < num_graph_nodes env" using n(3) by (simp add: num_graph_nodes_def)
  have F: "pp_planFinder ?s = pp_planFinder s" by simp
  have skip: "node_ok env b don node s ?s" by (rule node_ok_touched[OF t sn])
  have one: "node_ok env b don node s (OneOutputPrediction node q ?s)" for q by (rule node_ok_touched[OF touched_one[OF t] sn])
  have o: "ordinals_ok (pe_graph env) (dn_kind ?n)" "constant_prediction env (dn_kind ?n) = None" "dn_kind ?n \<noteq> Phi" using n(2) by (auto simp: node_wf_def Let_def)
  have set_var: "node_ok env b don node s ((AddOrRunRule node (pp_referenced ?s (fst (dn_inputs ?n ! i))) (Sssd v (GetPredictionAddressForInputOperand (dn_inputs ?n ! i))) ?s)
      \<lparr>pp_planFinder := AddEdge (pe_fresh env) b d (pp_planFinder s)\<rparr>)"
    if "avail env b don s (fst (dn_inputs ?n ! i))" "v \<in> vars" "d < num_graph_nodes env"
      "d = var_node (length (dg_blocks (pe_graph env))) (length (dg_blocks (pe_graph env)) + dg_numLogicalVars (pe_graph env)) v" for i v d
    using node_ok_set_var[OF t n(1) that(1,2) sn b that(3,4), of "snd (dn_inputs ?n ! i)"] by (simp add: GetPredictionAddressForInputOperand_def)
  show ?thesis
  proof (cases "dn_kind ?n")
    case (GuestLanguageNode bc nsd)
    then show ?thesis using node_ok_guest[OF t n(1) sn p GuestLanguageNode a] by (simp add: ProcessNode_def)
  next
    case (GetLocal lv)
    then show ?thesis using node_ok_GetLocal[OF t n(1) sn b _ f, of lv] o(1) by (simp add: ProcessNode_def ordinals_ok_def)
  next
    case (SetLocal lv)
    have "ProcessSetLocal env b node lv ?s = (AddOrRunRule node (pp_referenced ?s (fst (dn_inputs ?n ! 0))) (Sssd (VarPred lv) (GetPredictionAddressForInputOperand (dn_inputs ?n ! 0))) ?s)
      \<lparr>pp_planFinder := AddEdge (pe_fresh env) b (length (dg_blocks (pe_graph env)) + lv) (pp_planFinder s)\<rparr>"
      using finder_fields(1)[OF f] by (simp add: ProcessSetLocal_def NotifySetLocal_def Let_def AddOrRunRule_finder)
    moreover have "avail env b don s (fst (dn_inputs ?n ! 0))" using a SetLocal by (simp add: used_inputs_def)
    ultimately show ?thesis using set_var[of 0 "VarPred lv"] o(1) SetLocal by (simp add: ProcessNode_def ordinals_ok_def vars_def num_graph_nodes_def)
  next
    case (CreateCapturedVar c selfRef)
    have "\<not> selfRef \<Longrightarrow> avail env b don s (fst (dn_inputs ?n ! 0))" using a CreateCapturedVar by (simp add: used_inputs_def)
    then show ?thesis using node_ok_CreateCapturedVar[OF t n(1) sn b _ f, of c selfRef] o(1) CreateCapturedVar by (simp add: ProcessNode_def ordinals_ok_def)
  next
    case (GetCapturedVar c)
    then show ?thesis using node_ok_GetCapturedVar[OF t n(1) sn b _ f, of c] o(1) by (simp add: ProcessNode_def ordinals_ok_def)
  next
    case (SetCapturedVar c)
    have "ProcessSetCapturedVar env b node c ?s = (AddOrRunRule node (pp_referenced ?s (fst (dn_inputs ?n ! 1))) (Sssd (CapturedVarPred c) (GetPredictionAddressForInputOperand (dn_inputs ?n ! 1))) ?s)
      \<lparr>pp_planFinder := AddEdge (pe_fresh env) b (length (dg_blocks (pe_graph env)) + dg_numLogicalVars (pe_graph env) + c) (pp_planFinder s)\<rparr>"
      using finder_fields(2)[OF f] by (simp add: ProcessSetCapturedVar_def NotifyCreateOrSetCapturedVar_def Let_def AddOrRunRule_finder)
    moreover have "avail env b don s (fst (dn_inputs ?n ! 1))" using a SetCapturedVar by (simp add: used_inputs_def)
    ultimately show ?thesis using set_var[of 1 "CapturedVarPred c"] o(1) SetCapturedVar by (simp add: ProcessNode_def ordinals_ok_def vars_def num_graph_nodes_def)
  qed (use o skip one in \<open>auto simp: ProcessNode_def constant_prediction_def\<close>)
qed

subsection \<open>Basic blocks\<close>

definition seen_le :: "pp_env \<Rightarrow> prop_pass \<Rightarrow> bool" where
  "seen_le env s \<longleftrightarrow> length (pp_cvLogicalOrdSeen s) = dg_numCapturedVars (pe_graph env) \<and>
     (\<forall>c<dg_numCapturedVars (pe_graph env). pp_cvLogicalOrdSeen s ! c \<le> pp_cvLogicalOrdSeenColor s)"

definition done_at :: "pp_env \<Rightarrow> nat \<Rightarrow> nat set" where
  "done_at env b = set (dg_constants (pe_graph env)) \<union> set (concat (take b (dg_blocks (pe_graph env))))"

lemma graph_okD:
  assumes "graph_ok env"
  shows "distinct (dg_constants (pe_graph env) @ concat (dg_blocks (pe_graph env)))"
    "c \<in> set (dg_constants (pe_graph env)) \<Longrightarrow> constant_prediction env (dn_kind (dg_node (pe_graph env) c)) \<noteq> None"
    "b < length (dg_blocks (pe_graph env)) \<Longrightarrow> i < length (dg_blocks (pe_graph env) ! b) \<Longrightarrow> node_wf env (dg_blocks (pe_graph env) ! b ! i)"
    "b < length (dg_blocks (pe_graph env)) \<Longrightarrow> i < length (dg_blocks (pe_graph env) ! b) \<Longrightarrow>
       v \<in> used_inputs env (dg_node (pe_graph env) (dg_blocks (pe_graph env) ! b ! i)) \<Longrightarrow>
       fst v \<in> set (dg_constants (pe_graph env)) \<union> set (take i (dg_blocks (pe_graph env) ! b))"
    "dg_blocks (pe_graph env) \<noteq> []" "num_graph_nodes env < 2 ^ 32"
  using assms unfolding graph_ok_def node_wf_def Let_def num_graph_nodes_def by blast+

lemma done_at_Suc: "b < length (dg_blocks (pe_graph env)) \<Longrightarrow> done_at env (Suc b) = done_at env b \<union> set (dg_blocks (pe_graph env) ! b)"
  by (auto simp: done_at_def take_Suc_conv_app_nth)

lemma block_apart:
  assumes "graph_ok env" "b < length (dg_blocks (pe_graph env))"
  shows "distinct (dg_blocks (pe_graph env) ! b)" "done_at env b \<inter> set (dg_blocks (pe_graph env) ! b) = {}"
proof -
  let ?B = "dg_blocks (pe_graph env)"
  have "concat ?B = concat (take b ?B) @ ?B ! b @ concat (drop (Suc b) ?B)" using id_take_nth_drop[OF assms(2)] by (metis concat.simps(2) concat_append)
  then have "distinct (dg_constants (pe_graph env) @ concat (take b ?B) @ ?B ! b @ concat (drop (Suc b) ?B))" using graph_okD(1)[OF assms(1)] by simp
  then show "distinct (?B ! b)" "done_at env b \<inter> set (?B ! b) = {}" by (auto simp: done_at_def)
qed

text \<open>
  A property of the state that processing a node keeps: \<open>J\<close> holds while the nodes of a block are processed, \<open>K\<close> between blocks.
\<close>

definition node_keeps :: "pp_env \<Rightarrow> (u64 \<Rightarrow> u32) \<Rightarrow> (nat \<Rightarrow> nat set \<Rightarrow> prop_pass \<Rightarrow> bool) \<Rightarrow> bool" where
  "node_keeps env pm J \<longleftrightarrow> (\<forall>b don L node s s'. b < length (dg_blocks (pe_graph env)) \<longrightarrow> setup_inv env pm b don L s \<longrightarrow> block_inv env b don L s \<longrightarrow> node \<notin> don \<longrightarrow>
     node \<in> set (dg_blocks (pe_graph env) ! b) \<longrightarrow> (\<forall>v\<in>used_inputs env (dg_node (pe_graph env) node). avail env b don s (fst v)) \<longrightarrow>
     ProcessNode env b node s = Some s' \<longrightarrow> node_ok env b don node s s' \<longrightarrow> J b don s \<longrightarrow> J b (insert node don) s')"

definition block_keeps :: "pp_env \<Rightarrow> (nat \<Rightarrow> nat set \<Rightarrow> prop_pass \<Rightarrow> bool) \<Rightarrow> (nat \<Rightarrow> nat set \<Rightarrow> prop_pass \<Rightarrow> bool) \<Rightarrow> bool" where
  "block_keeps env J K \<longleftrightarrow>
     (\<forall>b don s. K b don s \<longrightarrow> J b don (ClearSeenCapturedVars (s\<lparr>pp_gvRuleBuffer := [], pp_nodeRuleBuffer := []\<rparr>))) \<and>
     (\<forall>b don s. b < length (pp_bbPropagators s) \<longrightarrow> J b don s \<longrightarrow> K (Suc b) don (s\<lparr>pp_bbPropagators := (pp_bbPropagators s)[b := cur_bb s]\<rparr>))"

lemma ProcessNodes_ok:
  assumes g: "graph_ok env" "pe_noValueProfile env" "b < length (dg_blocks (pe_graph env))" and J: "node_keeps env pm J"
    and blk: "dg_blocks (pe_graph env) ! b = pre @ ns"
    and I: "setup_inv env pm b (done_at env b \<union> set pre) L s" "block_inv env b (done_at env b \<union> set pre) L s" "J b (done_at env b \<union> set pre) s"
  shows "\<exists>s' L'. fold_opt (ProcessNode env b) ns s = Some s' \<and> setup_inv env pm b (done_at env b \<union> set (pre @ ns)) L' s' \<and>
    block_inv env b (done_at env b \<union> set (pre @ ns)) L' s' \<and> J b (done_at env b \<union> set (pre @ ns)) s'"
  using blk I
proof (induction ns arbitrary: pre s L)
  case (Cons node ns)
  let ?blk = "dg_blocks (pe_graph env) ! b" and ?don = "done_at env b \<union> set pre"
  have i: "length pre < length ?blk" "?blk ! length pre = node" "take (length pre) ?blk = pre" "node \<in> set ?blk" using Cons(2) by simp_all
  have n: "node \<notin> ?don" using block_apart[OF g(1,3)] Cons(2) by auto
  have cst: "c \<in> ?don \<and> \<not> pp_referenced s c" if "c \<in> set (dg_constants (pe_graph env))" for c using Cons(3) that unfolding setup_inv_def by blast
  have a: "\<forall>v\<in>used_inputs env (dg_node (pe_graph env) node). avail env b ?don s (fst v)"
  proof
    fix v assume "v \<in> used_inputs env (dg_node (pe_graph env) node)"
    then have "fst v \<in> set (dg_constants (pe_graph env)) \<union> set pre" using graph_okD(4)[OF g(1,3) i(1), of v] i by simp
    then show "avail env b ?don s (fst v)" using cst Cons(2) by (auto simp: avail_def)
  qed
  have f: "finder_ok env pm L (pp_planFinder s)" and sn: "seen_ok env b s" using Cons(3,4) unfolding setup_inv_def block_inv_def by blast+
  have w: "node_wf env node" using graph_okD(3)[OF g(1,3) i(1)] i(2) by simp
  obtain s1 where s1: "ProcessNode env b node s = Some s1" "node_ok env b ?don node s s1" using ProcessNode_ok[OF f sn n w g(3) a g(2)] by blast
  obtain L1 where L1: "setup_inv env pm b (insert node ?don) L1 s1" "block_inv env b (insert node ?don) L1 s1" using node_ok_inv[OF Cons(3,4) n i(4) s1(2)] by blast
  have J1: "J b (insert node ?don) s1" using J[unfolded node_keeps_def, rule_format, OF g(3) Cons(3,4) n i(4) _ s1 Cons(5)] a by blast
  have e: "insert node ?don = done_at env b \<union> set (pre @ [node])" by auto
  have "?blk = (pre @ [node]) @ ns" using Cons(2) by simp
  from Cons(1)[OF this L1[unfolded e] J1[unfolded e]] show ?case using s1(1) by simp
qed auto

lemma ProcessBasicBlock_ok:
  assumes g: "graph_ok env" "pe_noValueProfile env" "b < length (dg_blocks (pe_graph env))"
    and JK: "node_keeps env pm J" "block_keeps env J K"
    and I: "setup_inv env pm b (done_at env b) L s" and sn: "seen_le env s" and k: "K b (done_at env b) s"
  shows "\<exists>s' L'. ProcessBasicBlock env b s = Some s' \<and> setup_inv env pm (Suc b) (done_at env (Suc b)) L' s' \<and> seen_le env s' \<and> K (Suc b) (done_at env (Suc b)) s'"
proof -
  let ?s = "ClearSeenCapturedVars (s\<lparr>pp_gvRuleBuffer := [], pp_nodeRuleBuffer := []\<rparr>)" and ?blk = "dg_blocks (pe_graph env) ! b"
  have f: "pp_referenced ?s = pp_referenced s" "pp_mem ?s = pp_mem s" "pp_bbPropagators ?s = pp_bbPropagators s" "pp_extraRules ?s = pp_extraRules s"
    "pp_planFinder ?s = pp_planFinder s" by (simp_all add: ClearSeenCapturedVars_def)
  have cx: "Cs don ?s = Cs don s" "Xs env b' don ?s = Xs env b' don s" for don b' by (simp_all add: Cs_def Xs_def f)
  have I0: "setup_inv env pm b (done_at env b \<union> set []) L ?s" using I by (simp add: setup_inv_def extra_ok_def cx f)
  have "bb_wf (Cs (done_at env b) ?s) (Xs env b (done_at env b) ?s) (cur_bb ?s)" unfolding bb_wf_def by (simp add: Cs_Xs_apart ClearSeenCapturedVars_def)
  moreover have "seen_ok env b ?s" using sn by (auto simp: seen_le_def seen_ok_def HasSeenCapturedVar_def ClearSeenCapturedVars_def le_Suc_eq)
  ultimately have B0: "block_inv env b (done_at env b \<union> set []) L ?s" by (simp add: block_inv_def gv_zero_def edges_in_def ClearSeenCapturedVars_def)
  have J0: "J b (done_at env b \<union> set []) ?s" using JK(2) k unfolding block_keeps_def by simp
  obtain s1 L1 where s1: "fold_opt (ProcessNode env b) ?blk ?s = Some s1" "setup_inv env pm b (done_at env b \<union> set ?blk) L1 s1" "block_inv env b (done_at env b \<union> set ?blk) L1 s1" "J b (done_at env b \<union> set ?blk) s1"
    using ProcessNodes_ok[OF g JK(1) _ I0 B0 J0, of ?blk] by auto
  let ?s' = "s1\<lparr>pp_bbPropagators := (pp_bbPropagators s1)[b := cur_bb s1]\<rparr>" and ?don = "done_at env b \<union> set ?blk"
  have e: "ProcessBasicBlock env b s = Some ?s'" using s1(1) by (simp add: ProcessBasicBlock_def Let_def)
  have d: "done_at env (Suc b) = ?don" using done_at_Suc[OF g(3)] .
  have cx': "Cs ?don ?s' = Cs ?don s1" "Xs env b' ?don ?s' = Xs env b' ?don s1" for b' by (simp_all add: Cs_def Xs_def)
  have len: "length (pp_bbPropagators s1) = length (dg_blocks (pe_graph env))" using s1(2) by (simp add: setup_inv_def)
  have bs: "bb_wf (Cs ?don ?s') (Xs env b' ?don ?s') (pp_bbPropagators ?s' ! b') \<and> gv_zero (pp_bbPropagators ?s' ! b') (pp_mem ?s') \<and>
        edges_in env L1 b' (pp_bbPropagators ?s' ! b')" if "b' < Suc b" for b'
  proof (cases "b' = b")
    case True
    then have "pp_bbPropagators ?s' ! b' = cur_bb s1" using len g(3) by simp
    then show ?thesis using s1(3) True unfolding cx' block_inv_def by auto
  next
    case False
    then have "b' < b" "pp_bbPropagators ?s' ! b' = pp_bbPropagators s1 ! b'" using that by simp_all
    then show ?thesis using s1(2) unfolding cx' setup_inv_def by auto
  qed
  have "setup_inv env pm (Suc b) ?don L1 ?s'" unfolding setup_inv_def using bs s1(2) len unfolding setup_inv_def extra_ok_def cx' by auto
  moreover have "seen_le env ?s'" using s1(3) by (simp add: seen_le_def block_inv_def seen_ok_def)
  moreover have "K (Suc b) ?don ?s'" using JK(2) s1(4) len g(3) unfolding block_keeps_def by simp
  ultimately show ?thesis using e d by auto
qed

lemma ProcessBlocks_ok:
  assumes g: "graph_ok env" "pe_noValueProfile env" and JK: "node_keeps env pm J" "block_keeps env J K"
    and I: "setup_inv env pm 0 (done_at env 0) L s" "seen_le env s" "K 0 (done_at env 0) s" and k: "k \<le> length (dg_blocks (pe_graph env))"
  shows "\<exists>s' L'. fold_opt (ProcessBasicBlock env) [0..<k] s = Some s' \<and> setup_inv env pm k (done_at env k) L' s' \<and> seen_le env s' \<and> K k (done_at env k) s'"
  using k
proof (induction k)
  case 0
  then show ?case using I by auto
next
  case (Suc k)
  then obtain s1 L1 where s1: "fold_opt (ProcessBasicBlock env) [0..<k] s = Some s1" "setup_inv env pm k (done_at env k) L1 s1" "seen_le env s1" "K k (done_at env k) s1" by auto
  obtain s2 L2 where "ProcessBasicBlock env k s1 = Some s2" "setup_inv env pm (Suc k) (done_at env (Suc k)) L2 s2" "seen_le env s2" "K (Suc k) (done_at env (Suc k)) s2"
    using ProcessBasicBlock_ok[OF g _ JK s1(2-4)] Suc(2) by auto
  then show ?case using s1(1) by (auto simp: fold_opt_append)
qed

end
