(* ===== verification/PredFlow.thy ===== *)
theory PredFlow
  imports PredNodes
begin

text \<open>
  What the pass is to compute, stated over the graph as a system of flows; every flow has its rule, so that the state in which the
  pass ends solves the system.
\<close>

unbundle bit_operations_syntax

section \<open>The flow of predictions in a graph\<close>

text \<open>
  What the pass is to compute, in terms of the graph: every node adds to some predictions a value that depends on others. A flow is
  the prediction it goes to and the value as a function of all predictions.
\<close>

type_synonym flow = "pred_addr \<times> (pred_mem \<Rightarrow> type_mask)"

definition copy_flow :: "pred_addr \<Rightarrow> pred_addr \<Rightarrow> flow" where
  "copy_flow dst src = (dst, \<lambda>m. m src)"

definition const_flow :: "pred_addr \<Rightarrow> type_mask \<Rightarrow> flow" where
  "const_flow dst v = (dst, \<lambda>m. v)"

definition deduce_value :: "(type_mask option list \<Rightarrow> type_mask list) \<Rightarrow> pred_addr option list \<Rightarrow> nat \<Rightarrow> pred_mem \<Rightarrow> type_mask" where
  "deduce_value f ins i m = (let vs = f (map (map_option m) ins) in if i < length vs then vs ! i else 0)"

definition guest_flows :: "pp_env \<Rightarrow> nat \<Rightarrow> nat \<Rightarrow> nat \<Rightarrow> flow list" where
  "guest_flows env node bc nsd =
     (let n = dg_node (pe_graph env) node; st = bt_setup (pe_bc env) bc nsd;
          ins = map (map_option (\<lambda>v. GetPredictionAddressForInputOperand (dn_inputs n ! v))) (st_inputOrds st) in
      if \<not> dn_hasDirectOutput n \<and> dn_numExtraOutputs n = 0 then []
      else map (\<lambda>k. const_flow (output_addr n node k) (if k \<in> set (st_valueProfileOrds st) then x_typeMaskFor tBoxedValueTop else st_predictions st ! k))
             [0..<length (st_predictions st)] @
           (case bt_deduce (pe_bc env) bc of None \<Rightarrow> []
            | Some deduce \<Rightarrow> map (\<lambda>k. (output_addr n node k, deduce_value (deduce nsd) ins k)) [0..<length (st_predictions st)]))"

definition node_flows :: "pp_env \<Rightarrow> nat \<Rightarrow> flow list" where
  "node_flows env node =
     (let n = dg_node (pe_graph env) node; input = (\<lambda>i. GetPredictionAddressForInputOperand (dn_inputs n ! i));
          out = (\<lambda>v. [const_flow (NodePred node 0) v]) in
      case dn_kind n of
        GetLocal lv \<Rightarrow> [const_flow (NodePred node 0) 0, copy_flow (NodePred node 0) (VarPred lv)]
      | SetLocal lv \<Rightarrow> [copy_flow (VarPred lv) (input 0)]
      | CreateCapturedVar c selfRef \<Rightarrow> out (x_typeMaskFor tOpaque) @
          [if selfRef then const_flow (CapturedVarPred c) (x_typeMaskFor tFunction) else copy_flow (CapturedVarPred c) (input 0)]
      | GetCapturedVar c \<Rightarrow> [const_flow (NodePred node 0) 0, copy_flow (NodePred node 0) (CapturedVarPred c)]
      | SetCapturedVar c \<Rightarrow> [copy_flow (CapturedVarPred c) (input 1)]
      | GetKthVariadicRes \<Rightarrow> out (x_typeMaskFor tBoxedValueTop)
      | GetNumVariadicRes \<Rightarrow> out (x_typeMaskFor tOpaque)
      | I64SubSaturateToZero \<Rightarrow> out (x_typeMaskFor tOpaque)
      | CreateFunctionObject \<Rightarrow> out (x_typeMaskFor tFunction)
      | GetUpvalueImmutable \<Rightarrow> out (x_typeMaskFor tBoxedValueTop)
      | GetUpvalueMutable \<Rightarrow> out (x_typeMaskFor tBoxedValueTop)
      | GuestLanguageNode bc nsd \<Rightarrow> guest_flows env node bc nsd
      | k \<Rightarrow> (case constant_prediction env k of None \<Rightarrow> [] | Some v \<Rightarrow> out v))"

definition graph_nodes :: "pp_env \<Rightarrow> nat list" where
  "graph_nodes env = dg_constants (pe_graph env) @ concat (dg_blocks (pe_graph env))"

text \<open>A memory of predictions that all flows respect.\<close>

definition flows_into :: "pred_mem \<Rightarrow> flow \<Rightarrow> bool" where
  "flows_into m fl \<longleftrightarrow> tm_SubsetOf (snd fl m) (m (fst fl))"

definition solves :: "pp_env \<Rightarrow> pred_mem \<Rightarrow> bool" where
  "solves env m \<longleftrightarrow> (\<forall>node\<in>set (graph_nodes env). \<forall>fl\<in>set (node_flows env node). flows_into m fl)"

subsection \<open>Every flow has its rule\<close>

definition held :: "gv_rule set \<Rightarrow> node_rule set \<Rightarrow> pred_mem \<Rightarrow> flow \<Rightarrow> bool" where
  "held gs rs m fl \<longleftrightarrow> (\<exists>v. fl = const_flow (fst fl) v \<and> tm_SubsetOf v (m (fst fl))) \<or>
     (\<exists>src. fl = copy_flow (fst fl) src \<and> (\<lparr>gv_variablePrediction = src, gv_prediction = fst fl\<rparr> \<in> gs \<or> Sssd (fst fl) src \<in> rs)) \<or>
     (\<exists>f ins outs i. Generated f ins outs \<in> rs \<and> i < length outs \<and> fl = (outs ! i, deduce_value f ins i))"

lemma held_mono:
  assumes "held gs rs m fl" "gs \<subseteq> gs'" "rs \<subseteq> rs'" "tm_SubsetOf (m (fst fl)) (m' (fst fl))"
  shows "held gs' rs' m' fl"
  using assms(1) unfolding held_def
proof (elim disjE exE conjE)
  fix v assume "fl = const_flow (fst fl) v" "tm_SubsetOf v (m (fst fl))"
  then show "(\<exists>v. fl = const_flow (fst fl) v \<and> tm_SubsetOf v (m' (fst fl))) \<or>
     (\<exists>src. fl = copy_flow (fst fl) src \<and> (\<lparr>gv_variablePrediction = src, gv_prediction = fst fl\<rparr> \<in> gs' \<or> Sssd (fst fl) src \<in> rs')) \<or>
     (\<exists>f ins outs i. Generated f ins outs \<in> rs' \<and> i < length outs \<and> fl = (outs ! i, deduce_value f ins i))" using sub_trans[OF _ assms(4)] by blast
qed (use assms(2,3) in blast)+

lemma Sssd_stable: "rule_Run (Sssd dst src) m = (m, False) \<Longrightarrow> tm_SubsetOf (m src) (m dst)"
  using UpdatePrediction_facts(4)[of "m src" dst m] by simp

lemma Generated_stable:
  assumes "rule_Run (Generated f ins outs) m = (m, False)" "i < length outs"
  shows "tm_SubsetOf (deduce_value f ins i m) (m (outs ! i))"
proof (cases "i < length (f (map (map_option m) ins))")
  case True
  then have "(outs ! i, f (map (map_option m) ins) ! i) \<in> set (zip outs (f (map (map_option m) ins)))" using assms(2) by (auto simp: set_zip)
  from updates_reach[OF this, of m False] show ?thesis using assms(1) True unfolding Generated_Run by (simp add: deduce_value_def)
next
  case False
  then show ?thesis by (simp add: deduce_value_def sub_iff)
qed

lemma held_stable:
  assumes "held gs rs m fl" "\<forall>g\<in>gs. gv_Run g M = (M, False)" "\<forall>r\<in>rs. rule_Run r M = (M, False)" "tm_SubsetOf (m (fst fl)) (M (fst fl))"
  shows "flows_into M fl"
  using assms(1) unfolding held_def
proof (elim disjE exE conjE)
  fix v assume v: "fl = const_flow (fst fl) v" "tm_SubsetOf v (m (fst fl))"
  have "snd fl M = v" using v(1) by (metis const_flow_def snd_conv)
  then show ?thesis using sub_trans[OF v(2) assms(4)] by (simp add: flows_into_def)
next
  fix src assume c: "fl = copy_flow (fst fl) src" and r: "\<lparr>gv_variablePrediction = src, gv_prediction = fst fl\<rparr> \<in> gs"
  have s: "snd fl M = M src" using c by (metis copy_flow_def snd_conv)
  have "gv_Run \<lparr>gv_variablePrediction = src, gv_prediction = fst fl\<rparr> M = (M, False)" using assms(2) r by blast
  then show ?thesis using s unfolding gv_Run_quiet flows_into_def by simp
next
  fix src assume c: "fl = copy_flow (fst fl) src" and r: "Sssd (fst fl) src \<in> rs"
  have s: "snd fl M = M src" using c by (metis copy_flow_def snd_conv)
  have "rule_Run (Sssd (fst fl) src) M = (M, False)" using assms(3) r by blast
  then show ?thesis using s Sssd_stable unfolding flows_into_def by metis
next
  fix f ins outs i assume g: "Generated f ins outs \<in> rs" "i < length outs" "fl = (outs ! i, deduce_value f ins i)"
  have "rule_Run (Generated f ins outs) M = (M, False)" using assms(3) g(1) by blast
  from Generated_stable[OF this g(2)] show ?thesis unfolding flows_into_def g(3) by simp
qed

abbreviation new_rules :: "prop_pass \<Rightarrow> node_rule set" where
  "new_rules s \<equiv> set (pp_nodeRuleBuffer s) \<union> set (pp_extraRules s)"

lemma AddOrRunRule_in: "r \<in> new_rules (AddOrRunRule node must r s)" "mem_le (pp_mem s) (pp_mem (AddOrRunRule node must r s))"
  using ndr.grows by (auto simp: AddOrRunRule_def)

lemma held_copy: "Sssd dst src \<in> rs \<Longrightarrow> held gs rs m (copy_flow dst src)"
  unfolding held_def by (auto simp: copy_flow_def)

lemma held_added: "held gs (new_rules (AddOrRunRule node must (Sssd dst src) s)) m (copy_flow dst src)"
  by (rule held_copy[OF AddOrRunRule_in(1)])

lemma held_gv: "\<lparr>gv_variablePrediction = src, gv_prediction = dst\<rparr> \<in> gs \<Longrightarrow> held gs rs m (copy_flow dst src)"
  unfolding held_def by (auto simp: copy_flow_def)

lemma held_const: "tm_SubsetOf v (m dst) \<Longrightarrow> held gs rs m (const_flow dst v)"
  unfolding held_def by (auto simp: const_flow_def)

lemma sub_0 [simp]: "tm_SubsetOf 0 a"
  by (simp add: sub_iff)

lemma outputs_written:
  assumes "\<forall>k\<in>set ks. k < N"
  shows "fold (\<lambda>k m. m(output_addr n node k := f k)) ks m (output_addr n node i) = (if i \<in> set ks then f i else m (output_addr n node i))"
  using assms
proof (induction ks arbitrary: m)
  case (Cons k ks)
  have "output_addr n node k = output_addr n node i \<longleftrightarrow> k = i" by (auto simp: output_addr_def)
  then show ?case using Cons by auto
qed simp

lemma guest_held:
  assumes p: "pe_noValueProfile env" and s': "ProcessGuestLanguageNode env node bc nsd s = Some s'" and fl: "fl \<in> set (guest_flows env node bc nsd)"
  shows "held gs (new_rules s') (pp_mem s') fl"
proof -
  let ?n = "dg_node (pe_graph env) node" and ?st = "bt_setup (pe_bc env) bc nsd"
  let ?s1 = "SetupPredictionArrayForNode ?n node (st_predictions ?st) s"
  let ?s2 = "?s1\<lparr>pp_mem := fold (\<lambda>ord m. m(output_addr ?n node ord := x_typeMaskFor tBoxedValueTop)) (st_valueProfileOrds ?st) (pp_mem ?s1)\<rparr>"
  let ?ins = "map (map_option (\<lambda>value. dn_inputs ?n ! value)) (st_inputOrds ?st)"
  let ?addrs = "map (map_option GetPredictionAddressForInputOperand) ?ins" and ?outs = "map (output_addr ?n node) [0..<length (st_predictions ?st)]"
  let ?must = "\<exists>inputVal\<in>set ?ins. case inputVal of None \<Rightarrow> False | Some v \<Rightarrow> pp_referenced ?s1 (fst v)"
  have c: "\<not> (\<not> dn_hasDirectOutput ?n \<and> dn_numExtraOutputs ?n = 0)" 
  proof
    assume "\<not> dn_hasDirectOutput ?n \<and> dn_numExtraOutputs ?n = 0"
    then have "guest_flows env node bc nsd = []" by (simp add: guest_flows_def)
    then show False using fl by simp
  qed
  have c2: "\<not> (st_valueProfileOrds ?st \<noteq> [] \<and> \<not> pe_noValueProfile env)" using p by blast
  have e: "Some s' = (case bt_deduce (pe_bc env) bc of None \<Rightarrow> Some ?s2 | Some deduce \<Rightarrow> Some (AddOrRunRule node ?must (Generated (deduce nsd) ?addrs ?outs) ?s2))"
    using s' unfolding ProcessGuestLanguageNode_def Let_def if_not_P[OF c] if_not_P[OF c2] by (rule sym)
  have e1: "bt_deduce (pe_bc env) bc = None \<Longrightarrow> s' = ?s2"
    and e2: "bt_deduce (pe_bc env) bc = Some deduce \<Longrightarrow> s' = AddOrRunRule node ?must (Generated (deduce nsd) ?addrs ?outs) ?s2" for deduce
    using e by (simp_all only: option.case option.inject)
  have le: "mem_le (pp_mem ?s2) (pp_mem s')"
  proof (cases "bt_deduce (pe_bc env) bc")
    case None
    show ?thesis unfolding e1[OF None] by (rule mem_le_refl)
  next
    case (Some deduce)
    show ?thesis unfolding e2[OF Some] by (rule AddOrRunRule_in(2))
  qed
  have "\<forall>k\<in>set (st_valueProfileOrds ?st). k < Suc (Max (set (st_valueProfileOrds ?st)))" by (simp add: less_Suc_eq_le)
  from outputs_written[OF this, of ?n node "\<lambda>_. x_typeMaskFor tBoxedValueTop" "pp_mem ?s1"]
  have m2: "pp_mem ?s2 (output_addr ?n node k) = (if k \<in> set (st_valueProfileOrds ?st) then x_typeMaskFor tBoxedValueTop else st_predictions ?st ! k)"
    if "k < length (st_predictions ?st)" for k
    using that outputs_written[of "[0..<length (st_predictions ?st)]" "length (st_predictions ?st)" ?n node "\<lambda>k. st_predictions ?st ! k" "pp_mem s" k]
    by (auto simp: SetupPredictionArrayForNode_def)
  have out: "held gs (new_rules s') (pp_mem s') (const_flow (output_addr ?n node k) (if k \<in> set (st_valueProfileOrds ?st) then x_typeMaskFor tBoxedValueTop else st_predictions ?st ! k))"
    if "k < length (st_predictions ?st)" for k using mem_leD[OF le, of "output_addr ?n node k"] m2[OF that] by (intro held_const) simp
  have ded: "held gs (new_rules s') (pp_mem s') (output_addr ?n node k, deduce_value (deduce nsd) ?addrs k)" if "bt_deduce (pe_bc env) bc = Some deduce" "k < length (st_predictions ?st)" for k deduce
  proof -
    have "Generated (deduce nsd) ?addrs ?outs \<in> new_rules s'" unfolding e2[OF that(1)] by (rule AddOrRunRule_in(1))
    then have "\<exists>f ins outs i. Generated f ins outs \<in> new_rules s' \<and> i < length outs \<and> (output_addr ?n node k, deduce_value (deduce nsd) ?addrs k) = (outs ! i, deduce_value f ins i)"
      using that(2) by (intro exI[of _ "deduce nsd"] exI[of _ ?addrs] exI[of _ ?outs] exI[of _ k]) simp
    then show ?thesis unfolding held_def by blast
  qed
  have ia: "map (map_option (\<lambda>v. GetPredictionAddressForInputOperand (dn_inputs ?n ! v))) (st_inputOrds ?st) = ?addrs" by (simp add: option.map_comp comp_def)
  show ?thesis using fl out ded unfolding guest_flows_def Let_def if_not_P[OF c] ia by (auto split: option.splits)
qed

lemma ProcessNode_held:
  assumes p: "pe_noValueProfile env" and s': "ProcessNode env b node s = Some s'" and fl: "fl \<in> set (node_flows env node)"
  shows "held (set (pp_gvRuleBuffer s')) (new_rules s') (pp_mem s') fl"
proof -
  let ?n = "dg_node (pe_graph env) node"
  show ?thesis
  proof (cases "dn_kind ?n")
    case (GuestLanguageNode bc nsd)
    then show ?thesis using guest_held[OF p, of node bc nsd _ s' fl] s' fl by (auto simp: ProcessNode_def node_flows_def)
  next
    case (GetLocal lv)
    then show ?thesis using s' fl by (auto simp: ProcessNode_def node_flows_def ProcessGetLocal_def Let_def OneOutputPrediction_def intro: held_gv held_const)
  next
    case (SetLocal lv)
    then show ?thesis using s' fl by (auto simp: ProcessNode_def node_flows_def ProcessSetLocal_def Let_def intro!: held_added)
  next
    case (CreateCapturedVar c selfRef)
    then show ?thesis using s' fl
      by (auto simp: ProcessNode_def node_flows_def ProcessCreateCapturedVar_def Let_def OneOutputPrediction_def intro!: held_added held_const split: if_splits)
  next
    case (GetCapturedVar c)
    then show ?thesis using s' fl by (auto simp: ProcessNode_def node_flows_def ProcessGetCapturedVar_def Let_def intro: held_added held_const)
  next
    case (SetCapturedVar c)
    then show ?thesis using s' fl by (auto simp: ProcessNode_def node_flows_def ProcessSetCapturedVar_def Let_def intro!: held_added)
  qed (use s' fl in \<open>auto simp: ProcessNode_def node_flows_def Let_def OneOutputPrediction_def constant_prediction_def intro: held_const\<close>)
qed

lemma flow_target: "fl \<in> set (node_flows env node) \<Longrightarrow> fst fl \<in> vars \<union> range (NodePred node)"
proof -
  have g: "fl \<in> set (guest_flows env node bc nsd) \<Longrightarrow> fst fl \<in> range (NodePred node)" for bc nsd
    using output_addr_range[of "dg_node (pe_graph env) node" node] unfolding guest_flows_def Let_def
    by (cases "dn_hasDirectOutput (dg_node (pe_graph env) node) \<or> dn_numExtraOutputs (dg_node (pe_graph env) node) \<noteq> 0") (auto simp: const_flow_def split: option.splits)
  assume "fl \<in> set (node_flows env node)"
  then show ?thesis using g unfolding node_flows_def Let_def
    by (auto simp: const_flow_def copy_flow_def vars_def split: node_kind.splits option.splits if_splits)
qed

text \<open>Between blocks, and within a block, every flow of a processed node has its rule or is already accounted for.\<close>

definition stored_gvs :: "nat \<Rightarrow> prop_pass \<Rightarrow> gv_rule set" where
  "stored_gvs b s = (\<Union>b'<b. set (br_gvRules (pp_bbPropagators s ! b')))"

definition stored_rules :: "nat \<Rightarrow> prop_pass \<Rightarrow> node_rule set" where
  "stored_rules b s = (\<Union>b'<b. set (br_nodeRules (pp_bbPropagators s ! b'))) \<union> set (pp_extraRules s)"

definition held_between :: "pp_env \<Rightarrow> nat \<Rightarrow> nat set \<Rightarrow> prop_pass \<Rightarrow> bool" where
  "held_between env b don s \<longleftrightarrow> (\<forall>node\<in>don. \<forall>fl\<in>set (node_flows env node). held (stored_gvs b s) (stored_rules b s) (pp_mem s) fl)"

definition held_within :: "pp_env \<Rightarrow> nat \<Rightarrow> nat set \<Rightarrow> prop_pass \<Rightarrow> bool" where
  "held_within env b don s \<longleftrightarrow> (\<forall>node\<in>don. \<forall>fl\<in>set (node_flows env node).
     held (stored_gvs b s \<union> set (pp_gvRuleBuffer s)) (stored_rules b s \<union> set (pp_nodeRuleBuffer s)) (pp_mem s) fl)"

lemma target_grows:
  assumes "old_kept b node s s'" "n \<noteq> node" "fl \<in> set (node_flows env n)"
  shows "tm_SubsetOf (pp_mem s (fst fl)) (pp_mem s' (fst fl))"
proof (cases "fst fl \<in> vars")
  case True
  then show ?thesis using assms(1) unfolding old_kept_def by blast
next
  case False
  then obtain k where k: "fst fl = NodePred n k" using flow_target[OF assms(3)] by blast
  then have "fst fl \<notin> range (NodePred node)" "fst fl \<notin> range (GvPred b)" using assms(2) by auto
  then have "pp_mem s' (fst fl) = pp_mem s (fst fl)" using assms(1) False unfolding old_kept_def by blast
  then show ?thesis by simp
qed

lemma held_node_keeps:
  assumes p: "pe_noValueProfile env"
  shows "node_keeps env pm (held_within env)"
  unfolding node_keeps_def
proof (intro allI impI)
  fix b don L node s s'
  assume n: "node \<notin> don" and s': "ProcessNode env b node s = Some s'" and ok: "node_ok env b don node s s'" and H: "held_within env b don s"
  obtain G R Q where k: "old_kept b node s s'" and B: "pp_gvRuleBuffer s' = pp_gvRuleBuffer s @ G" "pp_nodeRuleBuffer s' = pp_nodeRuleBuffer s @ R" "pp_extraRules s' = pp_extraRules s @ Q"
    using ok unfolding node_ok_def gv_added_def rule_added_def extra_added_def by blast
  have P: "pp_bbPropagators s' = pp_bbPropagators s" using k by (simp add: old_kept_def)
  have sub: "stored_gvs b s \<union> set (pp_gvRuleBuffer s) \<subseteq> stored_gvs b s' \<union> set (pp_gvRuleBuffer s')"
    "stored_rules b s \<union> set (pp_nodeRuleBuffer s) \<subseteq> stored_rules b s' \<union> set (pp_nodeRuleBuffer s')"
    by (auto simp: stored_gvs_def stored_rules_def P B)
  show "held_within env b (insert node don) s'"
    unfolding held_within_def
  proof (intro ballI)
    fix n' fl assume a: "n' \<in> insert node don" "fl \<in> set (node_flows env n')"
    show "held (stored_gvs b s' \<union> set (pp_gvRuleBuffer s')) (stored_rules b s' \<union> set (pp_nodeRuleBuffer s')) (pp_mem s') fl"
    proof (cases "n' = node")
      case True
      show ?thesis by (rule held_mono[OF ProcessNode_held[OF p s' a(2)[unfolded True]]]) (auto simp: stored_rules_def)
    next
      case False
      then have "held (stored_gvs b s \<union> set (pp_gvRuleBuffer s)) (stored_rules b s \<union> set (pp_nodeRuleBuffer s)) (pp_mem s) fl" using H a unfolding held_within_def by blast
      then show ?thesis by (rule held_mono[OF _ sub]) (rule target_grows[OF k False a(2)])
    qed
  qed
qed

lemma held_block_keeps: "block_keeps env (held_within env) (held_between env)"
  unfolding block_keeps_def
proof (intro conjI allI impI)
  fix b don s assume "held_between env b don s"
  then show "held_within env b don (ClearSeenCapturedVars (s\<lparr>pp_gvRuleBuffer := [], pp_nodeRuleBuffer := []\<rparr>))"
    by (simp add: held_between_def held_within_def ClearSeenCapturedVars_def stored_gvs_def stored_rules_def)
next
  fix b :: nat and don s assume b: "b < length (pp_bbPropagators s)" and H: "held_within env b don s"
  let ?s' = "s\<lparr>pp_bbPropagators := (pp_bbPropagators s)[b := cur_bb s]\<rparr>"
  have e: "stored_gvs (Suc b) ?s' = stored_gvs b s \<union> set (pp_gvRuleBuffer s)" "stored_rules (Suc b) ?s' = stored_rules b s \<union> set (pp_nodeRuleBuffer s)"
    using b by (auto simp: stored_gvs_def stored_rules_def lessThan_Suc)
  show "held_between env (Suc b) don ?s'" unfolding held_between_def e using H unfolding held_within_def by simp
qed

subsection \<open>Constant-like nodes\<close>

definition constants_done :: "pp_env \<Rightarrow> prop_pass \<Rightarrow> nat set \<Rightarrow> prop_pass \<Rightarrow> bool" where
  "constants_done env s0 don s \<longleftrightarrow> pp_bbPropagators s = pp_bbPropagators s0 \<and> pp_extraRules s = pp_extraRules s0 \<and> pp_planFinder s = pp_planFinder s0 \<and>
     pp_cvLogicalOrdSeen s = pp_cvLogicalOrdSeen s0 \<and> pp_cvLogicalOrdSeenColor s = pp_cvLogicalOrdSeenColor s0 \<and>
     (\<forall>a. (\<forall>n\<in>don. a \<notin> range (NodePred n)) \<longrightarrow> pp_mem s a = pp_mem s0 a) \<and>
     (\<forall>c\<in>don. \<not> pp_referenced s c \<and> constant_prediction env (dn_kind (dg_node (pe_graph env) c)) = Some (pp_mem s (NodePred c 0)))"

lemma constants_total:
  assumes "\<forall>c\<in>set cs. constant_prediction env (dn_kind (dg_node (pe_graph env) c)) \<noteq> None" "constants_done env s0 don s"
  shows "\<exists>s'. fold_opt (ProcessConstantLikeNode env) cs s = Some s' \<and> constants_done env s0 (don \<union> set cs) s'"
  using assms
proof (induction cs arbitrary: don s)
  case (Cons c cs)
  obtain p where p: "constant_prediction env (dn_kind (dg_node (pe_graph env) c)) = Some p" using Cons(2) by auto
  let ?s = "OneOutputPrediction c p (s\<lparr>pp_referenced := (pp_referenced s)(c := False)\<rparr>)"
  have "constants_done env s0 (insert c don) ?s" using Cons(3) p by (auto simp: constants_done_def OneOutputPrediction_def)
  from Cons(1)[OF _ this] Cons(2) p show ?case by (simp add: ProcessConstantLikeNode_def)
qed auto

lemma SetupPropagation_ok:
  assumes g: "graph_ok env" "pe_noValueProfile env" and JK: "node_keeps env pm J" "block_keeps env J K"
    and k: "\<And>s. constants_done env (pp_new env mem refd pm) (set (dg_constants (pe_graph env))) s \<Longrightarrow> K 0 (set (dg_constants (pe_graph env))) s"
  shows "\<exists>s L. SetupPropagation env (pp_new env mem refd pm) = Some s \<and>
    setup_inv env pm (length (dg_blocks (pe_graph env))) (set (graph_nodes env)) L s \<and> K (length (dg_blocks (pe_graph env))) (set (graph_nodes env)) s"
proof -
  let ?s0 = "pp_new env mem refd pm" and ?cs = "dg_constants (pe_graph env)" and ?nb = "length (dg_blocks (pe_graph env))"
  have "constants_done env ?s0 {} ?s0" by (simp add: constants_done_def)
  from constants_total[OF _ this, of ?cs] obtain s where s: "ProcessAllConstantLikeNodes env ?s0 = Some s" "constants_done env ?s0 (set ?cs) s"
    using graph_okD(2)[OF g(1)] unfolding ProcessAllConstantLikeNodes_def by auto
  have d0: "done_at env 0 = set ?cs" by (simp add: done_at_def)
  have I: "setup_inv env pm 0 (done_at env 0) [] s" using s(2)
    by (simp add: setup_inv_def d0 constants_done_def pp_new_def Let_def extra_ok_def finder_ok_def initial_finder_def)
  have sn: "seen_le env s" using s(2) by (simp add: seen_le_def constants_done_def pp_new_def Let_def)
  have K0: "K 0 (done_at env 0) s" unfolding d0 by (rule k[OF s(2)])
  have dn: "done_at env ?nb = set (graph_nodes env)" by (simp add: done_at_def graph_nodes_def)
  obtain s' L where "fold_opt (ProcessBasicBlock env) [0..<?nb] s = Some s'" "setup_inv env pm ?nb (done_at env ?nb) L s'" "K ?nb (done_at env ?nb) s'"
    using ProcessBlocks_ok[OF g JK I sn K0 order_refl] by blast
  then show ?thesis using s(1) unfolding dn SetupPropagation_def by auto
qed

lemma held_setup:
  assumes "constants_done env s0 don s"
  shows "held_between env 0 don s"
  unfolding held_between_def
proof (intro ballI)
  fix c fl assume a: "c \<in> don" "fl \<in> set (node_flows env c)"
  have c: "constant_prediction env (dn_kind (dg_node (pe_graph env) c)) = Some (pp_mem s (NodePred c 0))" using assms a(1) unfolding constants_done_def by blast
  have "fl = const_flow (NodePred c 0) (pp_mem s (NodePred c 0))" using a(2) c unfolding node_flows_def
    by (cases "dn_kind (dg_node (pe_graph env) c)") (auto simp: constant_prediction_def Let_def)
  then show "held (stored_gvs 0 s) (stored_rules 0 s) (pp_mem s) fl" using held_const[of _ "pp_mem s" "NodePred c 0"] by simp
qed

section \<open>The whole pass\<close>

lemma setup_sys_wf:
  assumes g: "graph_ok env" and I: "setup_inv env pm (length (dg_blocks (pe_graph env))) don L s"
  shows "sys_wf (Cs don s) (\<lambda>b. Xs env b don s) (pp_bbPropagators s)"
proof -
  let ?B = "dg_blocks (pe_graph env)"
  have len: "length (pp_bbPropagators s) = length ?B" using I by (simp add: setup_inv_def)
  have "Xs env b don s \<inter> Xs env b' don s = {}" if "b < length ?B" "b' < length ?B" "b \<noteq> b'" for b b'
  proof -
    have "set (?B ! i) \<inter> set (?B ! j) = {}" if "i < j" "j < length ?B" for i j
    proof -
      have "?B ! i \<in> set (take j ?B)" using that by (auto simp: in_set_conv_nth)
      then have "set (?B ! i) \<subseteq> done_at env j" by (auto simp: done_at_def)
      then show ?thesis using block_apart(2)[OF g that(2)] by blast
    qed
    then have "set (?B ! b) \<inter> set (?B ! b') = {}" using that by (metis Int_commute nat_neq_iff)
    then show ?thesis using that(3) by (auto simp: Xs_def)
  qed
  then show ?thesis using I unfolding sys_wf_def len setup_inv_def by simp
qed

lemma setup_all_le: "setup_inv env pm (length (dg_blocks (pe_graph env))) don L s \<Longrightarrow> all_le (pp_bbPropagators s) (pp_mem s)"
  by (auto simp: all_le_def setup_inv_def gv_le_def gv_zero_def)

lemma setup_edges:
  assumes I: "setup_inv env pm (length (dg_blocks (pe_graph env))) don L s" and E: "\<forall>u d. d \<in> set (E u) \<longleftrightarrow> (u, d) \<in> set L"
  shows "edges_ok (num_graph_nodes env) (length (dg_blocks (pe_graph env)) + dg_numLogicalVars (pe_graph env)) E (pp_bbPropagators s)"
proof -
  let ?nb = "length (dg_blocks (pe_graph env))" and ?cvo = "length (dg_blocks (pe_graph env)) + dg_numLogicalVars (pe_graph env)"
  have len: "length (pp_bbPropagators s) = ?nb" using I by (simp add: setup_inv_def)
  have e: "graph_edge (num_graph_nodes env) E u d" if "(u, d) \<in> set L" for u d
    using that I E by (auto simp: graph_edge_def setup_inv_def finder_ok_def)
  have in_L: "edges_in env L b (pp_bbPropagators s ! b)" if "b < ?nb" for b using I that unfolding setup_inv_def by blast
  show ?thesis unfolding edges_ok_def len using in_L e unfolding edges_in_def Let_def by auto
qed

lemma rules_run_total:
  assumes g: "graph_ok env" and I: "setup_inv env pm (length (dg_blocks (pe_graph env))) (set (graph_nodes env)) L s"
    and K: "packs_ok (pe_fresh env) (num_graph_nodes env + length (graph_nodes env))"
  shows "\<exists>plan m. ComputePlan (pp_planFinder s) = Some plan \<and> run_plan (pp_bbPropagators s) plan (pp_mem s) = Some m \<and> mem_le (pp_mem s) m \<and>
    AssertFixpointIsReached (s\<lparr>pp_mem := m\<rparr>) \<and> (\<forall>item\<in>set plan. pl_range item \<noteq> [] \<and> set (pl_range item) \<subseteq> {..<length (pp_bbPropagators s)})"
proof -
  let ?f = "pp_planFinder s" and ?don = "set (graph_nodes env)" and ?nb = "length (dg_blocks (pe_graph env))" and ?n = "num_graph_nodes env"
  let ?bbs = "pp_bbPropagators s"
  have F: "finder_ok env pm L ?f" and lL: "length L \<le> card ?don" and len: "length ?bbs = ?nb" using I unfolding setup_inv_def by blast+
  note D = finder_fields[OF F]
  have "card ?don = length (graph_nodes env)" using distinct_card[OF graph_okD(1)[OF g]] unfolding graph_nodes_def .
  then have K1: "packs_ok (pe_fresh env) (pf_numPacks (initial_finder env pm) + length L)"
    using packs_ok_less[OF K] lL by (simp add: initial_finder_def pf_Initialize_repr num_graph_nodes_def)
  have bd: "\<forall>(u, d)\<in>set L. u < pf_numNodes (initial_finder env pm) \<and> d < pf_numNodes (initial_finder env pm)"
    using F by (simp add: finder_ok_def initial_finder_def pf_Initialize_repr num_graph_nodes_def)
  have R0: "pf_repr (pe_fresh env) (initial_finder env pm) (\<lambda>v. []) (\<lambda>v. [v])" unfolding initial_finder_def by (rule pf_Initialize_repr)
  obtain E P where R: "pf_repr (pe_fresh env) ?f E P" "\<forall>u d. d \<in> set (E u) \<longleftrightarrow> (u, d) \<in> set L"
    using AddEdges_repr[OF R0 K1 bd] F unfolding finder_ok_def by auto
  have K2: "packs_ok (pe_fresh env) (pf_numPacks ?f)" using packs_ok_less[OF K1] AddEdges_packs[of "pe_fresh env" L "initial_finder env pm"] F by (simp add: finder_ok_def)
  have n: "?nb \<le> ?n" "0 < ?n" "?n < 2 ^ 32" using graph_okD(5,6)[OF g] by (simp_all add: num_graph_nodes_def)
  obtain plan where p: "ComputePlan ?f = Some plan" "plan_ok ?n ?nb E plan" using ComputePlan_ok[OF R(1) K2] n unfolding D by blast
  note W = setup_sys_wf[OF g I]
  obtain m where m: "run_plan ?bbs plan (pp_mem s) = Some m" "mem_le (pp_mem s) m" "\<And>a. \<forall>b<length ?bbs. a \<notin> bb_writes (?bbs ! b) \<Longrightarrow> m a = pp_mem s a"
    "\<forall>b<length ?bbs. bb_stable (?bbs ! b) m" using plan_total[OF W setup_edges[OF I R(2)] setup_all_le[OF I], of plan] p(2) unfolding len by blast
  have "rule_Run r m = (m, False)" if r: "r \<in> set (pp_extraRules s)" for r
  proof -
    have x: "rule_Run r (pp_mem s) = (pp_mem s, False)" "rule_reads r \<subseteq> Cs ?don s" using I r unfolding setup_inv_def extra_ok_def by blast+
    have "m a = pp_mem s a" if "a \<in> rule_reads r" for a
    proof (rule m(3), intro allI impI)
      fix b assume b: "b < length ?bbs"
      note w = sys_wfD[OF W b]
      have "bb_writes (?bbs ! b) \<inter> Cs ?don s = {}" using bb_writes_sub[OF w] bb_wfD(7,8)[OF w] by blast
      then show "a \<notin> bb_writes (?bbs ! b)" using that x(2) by blast
    qed
    then show ?thesis using ndr.stable_frame[OF x(1), of m] mem_leD[OF m(2)] by blast
  qed
  moreover have "bb_stable bb m" if "bb \<in> set ?bbs" for bb using m(4) that by (metis in_set_conv_nth)
  ultimately have "AssertFixpointIsReached (s\<lparr>pp_mem := m\<rparr>)" by (simp add: AssertFixpointIsReached_def bb_stable_def gv_stable_def)
  moreover have "pl_range item \<noteq> [] \<and> set (pl_range item) \<subseteq> {..<length ?bbs}" if "item \<in> set plan" for item
  proof -
    have "set (concat (map pl_range plan)) = {..<?nb}" "pl_range item \<noteq> []" using p(2) that unfolding plan_ok_def by blast+
    then show ?thesis using that len by auto
  qed
  ultimately show ?thesis using p(1) m(1,2) by blast
qed

lemma fixpoint_solves:
  assumes H: "held_between env (length (pp_bbPropagators s)) (set (graph_nodes env)) s" and m: "mem_le (pp_mem s) m" and A: "AssertFixpointIsReached (s\<lparr>pp_mem := m\<rparr>)"
  shows "solves env m"
  unfolding solves_def
proof (intro ballI)
  fix node fl assume a: "node \<in> set (graph_nodes env)" "fl \<in> set (node_flows env node)"
  have h: "held (stored_gvs (length (pp_bbPropagators s)) s) (stored_rules (length (pp_bbPropagators s)) s) (pp_mem s) fl" using H a unfolding held_between_def by blast
  have gs: "\<forall>g\<in>stored_gvs (length (pp_bbPropagators s)) s. gv_Run g m = (m, False)"
    using A by (auto simp: stored_gvs_def AssertFixpointIsReached_def)
  have rs: "\<forall>r\<in>stored_rules (length (pp_bbPropagators s)) s. rule_Run r m = (m, False)"
    using A by (auto simp: stored_rules_def AssertFixpointIsReached_def)
  show "flows_into m fl" by (rule held_stable[OF h gs rs mem_leD[OF m]])
qed

lemma pass_total:
  assumes "graph_ok env" "pe_noValueProfile env" "packs_ok (pe_fresh env) (num_graph_nodes env + length (graph_nodes env))"
  shows "\<exists>s. RunPropagation env (pp_new env mem refd pm) = Some s \<and> AssertFixpointIsReached s \<and> solves env (pp_mem s)"
proof -
  obtain s L where s: "SetupPropagation env (pp_new env mem refd pm) = Some s" "setup_inv env pm (length (dg_blocks (pe_graph env))) (set (graph_nodes env)) L s"
    "held_between env (length (dg_blocks (pe_graph env))) (set (graph_nodes env)) s"
    using SetupPropagation_ok[OF assms(1,2) held_node_keeps[OF assms(2), of pm] held_block_keeps, of mem refd] held_setup by blast
  obtain plan m where m: "ComputePlan (pp_planFinder s) = Some plan" "run_plan (pp_bbPropagators s) plan (pp_mem s) = Some m" "mem_le (pp_mem s) m" "AssertFixpointIsReached (s\<lparr>pp_mem := m\<rparr>)"
    using rules_run_total[OF assms(1) s(2) assms(3)] by blast
  have "length (pp_bbPropagators s) = length (dg_blocks (pe_graph env))" using s(2) by (simp add: setup_inv_def)
  then have "solves env m" using fixpoint_solves[OF _ m(3,4)] s(3) by simp
  moreover have "RunPropagation env (pp_new env mem refd pm) = Some (s\<lparr>pp_mem := m\<rparr>)" using s(1) m(1,2) by (simp add: RunPropagation_def)
  ultimately show ?thesis using m(4) by simp
qed

end
