(* ===== verification/PredLeast.thy ===== *)
theory PredLeast
  imports PredFlow
begin

text \<open>
  Every solution of the flows bounds what the pass computes: the rules keep predictions below it, from the collection of the rules on.
\<close>

unbundle bit_operations_syntax

section \<open>No more than necessary\<close>

text \<open>
  Under the assumption that the generated deduction functions are monotone, every solution of the flows bounds what the pass computes.
\<close>

definition mono_deduce :: "(type_mask option list \<Rightarrow> type_mask list) \<Rightarrow> bool" where
  "mono_deduce f \<longleftrightarrow> (\<forall>xs ys. list_all2 (rel_option tm_SubsetOf) xs ys \<longrightarrow> list_all2 tm_SubsetOf (f xs) (f ys))"

definition monotone_bc :: "pp_env \<Rightarrow> bool" where
  "monotone_bc env \<longleftrightarrow> (\<forall>bc nsd f. bt_deduce (pe_bc env) bc = Some f \<longrightarrow> mono_deduce (f nsd))"

text \<open>The inputs that are used have a prediction: their operand provides that output.\<close>

definition inputs_valid :: "pp_env \<Rightarrow> bool" where
  "inputs_valid env \<longleftrightarrow> (\<forall>node\<in>set (concat (dg_blocks (pe_graph env))). \<forall>v\<in>used_inputs env (dg_node (pe_graph env) node).
     GetPredictionAddressForInputOperand v \<in> fst ` set (node_flows env (fst v)))"

definition allocated :: "pp_env \<Rightarrow> pred_addr \<Rightarrow> bool" where
  "allocated env a \<longleftrightarrow> a \<in> vars \<or> (\<exists>node\<in>set (graph_nodes env). a \<in> fst ` set (node_flows env node))"

definition bound_of :: "pp_env \<Rightarrow> pred_mem \<Rightarrow> pred_mem" where
  "bound_of env M a = (if allocated env a then M a else - 1)"

lemma sub_top [simp]: "tm_SubsetOf a (- 1)"
  by (simp add: tm_SubsetOf_def)

subsection \<open>Rules under a bound\<close>

fun rule_mono :: "node_rule \<Rightarrow> bool" where
  "rule_mono (Sssd dst src) = True"
| "rule_mono (Generated f ins outs) = mono_deduce f"

definition rule_fits :: "pred_mem \<Rightarrow> node_rule \<Rightarrow> bool" where
  "rule_fits M r \<longleftrightarrow> rule_mono r \<and> rule_Run r M = (M, False)"

definition gv_fits :: "pred_mem \<Rightarrow> gv_rule \<Rightarrow> bool" where
  "gv_fits M g \<longleftrightarrow> gv_Run g M = (M, False)"

lemma update_below: "tm_SubsetOf v (M dst) \<Longrightarrow> tm_SubsetOf (m a) (M a) \<Longrightarrow> tm_SubsetOf (fst (UpdatePrediction dst v m) a) (M a)"
  by (auto simp: UpdatePrediction_def Let_def or_sub)

lemma updates_below: "\<forall>(d, v)\<in>set us. tm_SubsetOf v (M d) \<Longrightarrow> tm_SubsetOf (m a) (M a) \<Longrightarrow> tm_SubsetOf (fst (updates us (m, c)) a) (M a)"
proof (induction us arbitrary: m c)
  case (Cons x us)
  obtain d v where x: "x = (d, v)" by (cases x)
  have "tm_SubsetOf (fst (UpdatePrediction d v m) a) (M a)" using Cons(2,3) x by (intro update_below) auto
  then show ?case unfolding x updates_simps using Cons(2) by (intro Cons(1)) auto
qed (simp add: updates_simps)

lemma rule_below:
  assumes "rule_fits M r" "\<forall>a\<in>rule_reads r. tm_SubsetOf (m a) (M a)" "tm_SubsetOf (m a) (M a)"
  shows "tm_SubsetOf (fst (rule_Run r m) a) (M a)"
proof (cases r)
  case (Sssd dst src)
  have "tm_SubsetOf (M src) (M dst)" using assms(1) Sssd_stable unfolding rule_fits_def Sssd by blast
  then have "tm_SubsetOf (m src) (M dst)" using assms(2) sub_trans unfolding Sssd by auto
  then show ?thesis unfolding Sssd rule_Run.simps(1) by (rule update_below) (rule assms(3))
next
  case (Generated f ins outs)
  let ?vs = "f (map (map_option m) ins)" and ?ws = "f (map (map_option M) ins)"
  have st: "rule_Run (Generated f ins outs) M = (M, False)" and mo: "mono_deduce f" using assms(1) unfolding rule_fits_def Generated by auto
  have "list_all2 (rel_option tm_SubsetOf) (map (map_option m) ins) (map (map_option M) ins)"
    using assms(2) unfolding Generated by (auto simp: list_all2_conv_all_nth option_rel_Some1 rel_option_iff split: option.splits) (metis nth_mem)
  then have l: "list_all2 tm_SubsetOf ?vs ?ws" using mo unfolding mono_deduce_def by blast
  have "tm_SubsetOf v (M d)" if z: "(d, v) \<in> set (zip outs ?vs)" for d v
  proof -
    obtain i where i: "i < length outs" "i < length ?vs" "d = outs ! i" "v = ?vs ! i" using z by (auto simp: set_zip)
    have "tm_SubsetOf v (?ws ! i)" "i < length ?ws" using l i by (auto simp: list_all2_conv_all_nth)
    then show ?thesis using Generated_stable[OF st i(1)] i(3) sub_trans by (auto simp: deduce_value_def)
  qed
  then show ?thesis unfolding Generated Generated_Run using assms(3) by (intro updates_below) auto
qed

lemma gv_below: "gv_fits M g \<Longrightarrow> mem_le m M \<Longrightarrow> mem_le (fst (gv_Run g m)) M"
proof -
  assume g: "gv_fits M g" and m: "mem_le m M"
  have "tm_SubsetOf (m (gv_variablePrediction g)) (M (gv_prediction g))" using sub_trans[OF mem_leD[OF m]] g unfolding gv_fits_def gv_Run_quiet by blast
  then have "tm_SubsetOf (fst (gv_Run g m) a) (M a)" for a unfolding gv_Run_def by (rule update_below) (rule mem_leD[OF m])
  then show ?thesis by (simp add: mem_le_def)
qed

subsection \<open>Running the rules\<close>

lemma run_all_below: "(\<And>r m. r \<in> set rs \<Longrightarrow> mem_le m M \<Longrightarrow> mem_le (fst (run r m)) M) \<Longrightarrow> mem_le m M \<Longrightarrow> mem_le (fst (run_all run rs m)) M"
proof (induction rs arbitrary: m)
  case (Cons r rs)
  have "mem_le (fst (run r m)) M" using Cons(2)[of r m] Cons(3) by simp
  from Cons(1)[OF _ this] Cons(2) show ?case by (simp add: split_beta Let_def)
qed simp

definition bb_fits :: "pred_mem \<Rightarrow> bb_rules \<Rightarrow> bool" where
  "bb_fits M bb \<longleftrightarrow> (\<forall>g\<in>set (br_gvRules bb). gv_fits M g) \<and> (\<forall>r\<in>set (br_nodeRules bb). rule_fits M r)"

lemma bb_below:
  assumes f: "bb_fits M bb" and m: "mem_le m M"
  shows "mem_le (fst (bb_Run bb isFirst m)) M"
proof -
  have g: "mem_le (fst (run_all gv_Run (br_gvRules bb) m)) M" using f by (intro run_all_below[OF _ m] gv_below) (auto simp: bb_fits_def)
  have "mem_le (fst (run_all rule_Run (br_nodeRules bb) (fst (run_all gv_Run (br_gvRules bb) m)))) M"
  proof (rule run_all_below[OF _ g])
    fix r m assume "r \<in> set (br_nodeRules bb)" "mem_le m M"
    then show "mem_le (fst (rule_Run r m)) M" using rule_below[of M r m] f unfolding bb_fits_def mem_le_def by blast
  qed
  then show ?thesis using m unfolding bb_Run_cases bb_full_def by simp
qed

lemma round_below: "\<forall>b\<in>set bs. bb_fits M (bbs ! b) \<Longrightarrow> mem_le m M \<Longrightarrow> mem_le (fst (run_round bbs bs f m)) M"
  unfolding run_round_def by (rule run_all_below) (auto intro: bb_below)

lemma component_below:
  assumes "run_component bbs bs f m = Some m'" "\<forall>b\<in>set bs. bb_fits M (bbs ! b)" "mem_le m M"
  shows "mem_le m' M"
proof -
  have "(\<forall>b\<in>set bs. bb_fits M (bbs ! b)) \<longrightarrow> mem_le m M \<longrightarrow> mem_le m' M"
  proof (rule run_component.raw_induct[OF _ assms(1)], intro impI)
    fix rec :: "bb_rules list \<Rightarrow> nat list \<Rightarrow> bool \<Rightarrow> pred_mem \<Rightarrow> pred_mem option" and bbs bs f m m'
    assume IH: "\<And>bbs bs f m m'. rec bbs bs f m = Some m' \<Longrightarrow> (\<forall>b\<in>set bs. bb_fits M (bbs ! b)) \<longrightarrow> mem_le m M \<longrightarrow> mem_le m' M"
      and e: "(let (m, changed) = run_round bbs bs f m in if \<not> changed then Some m else rec bbs bs False m) = Some m'"
      and fit: "\<forall>b\<in>set bs. bb_fits M (bbs ! b)" and m: "mem_le m M"
    have r: "mem_le (fst (run_round bbs bs f m)) M" by (rule round_below[OF fit m])
    show "mem_le m' M"
    proof (cases "snd (run_round bbs bs f m)")
      case True
      then have "rec bbs bs False (fst (run_round bbs bs f m)) = Some m'" using e by (simp add: Let_def split_beta)
      from IH[OF this] show ?thesis using fit r by blast
    next
      case False
      then show ?thesis using e r by (simp add: Let_def split_beta)
    qed
  qed
  then show ?thesis using assms(2,3) by blast
qed

lemma plan_below:
  assumes "\<forall>item\<in>set plan. pl_range item \<noteq> [] \<and> (\<forall>b\<in>set (pl_range item). bb_fits M (bbs ! b))"
  shows "run_plan bbs plan m = Some m' \<Longrightarrow> mem_le m M \<Longrightarrow> mem_le m' M"
  using assms unfolding run_plan_def
proof (induction plan arbitrary: m)
  case (Cons item plan)
  have i: "pl_range item \<noteq> []" "\<forall>b\<in>set (pl_range item). bb_fits M (bbs ! b)" using Cons(4) by auto
  obtain m1 where m1: "run_item bbs item m = Some m1" "fold_opt (run_item bbs) plan m1 = Some m'" using Cons(2) by (auto split: option.splits)
  have "mem_le m1 M"
  proof (cases "pl_runOnceIsEnough item")
    case True
    then show ?thesis using m1(1) bb_below[of M "bbs ! hd (pl_range item)" m True] i Cons(3) by (auto simp: run_item_def)
  next
    case False
    then show ?thesis using m1(1) component_below[OF _ i(2) Cons(3)] by (simp add: run_item_def)
  qed
  from Cons(1)[OF m1(2) this] Cons(4) show ?case by simp
qed simp

subsection \<open>Collecting the rules\<close>

lemma block_node:
  assumes "node \<in> set (concat (dg_blocks (pe_graph env)))"
  obtains b i where "b < length (dg_blocks (pe_graph env))" "i < length (dg_blocks (pe_graph env) ! b)" "node = dg_blocks (pe_graph env) ! b ! i"
  using assms by (auto simp: in_set_conv_nth)

lemma input_allocated:
  assumes g: "graph_ok env" and iv: "inputs_valid env" and n: "node \<in> set (concat (dg_blocks (pe_graph env)))" and v: "v \<in> used_inputs env (dg_node (pe_graph env) node)"
  shows "allocated env (GetPredictionAddressForInputOperand v)"
proof -
  obtain b i where b: "b < length (dg_blocks (pe_graph env))" "i < length (dg_blocks (pe_graph env) ! b)" "node = dg_blocks (pe_graph env) ! b ! i" using n by (rule block_node)
  have "fst v \<in> set (dg_constants (pe_graph env)) \<union> set (dg_blocks (pe_graph env) ! b)" using graph_okD(4)[OF g b(1,2), of v] v unfolding b(3) by (auto dest: in_set_takeD)
  then have "fst v \<in> set (graph_nodes env)" using b(1) by (auto simp: graph_nodes_def)
  then show ?thesis using iv n v unfolding inputs_valid_def allocated_def by blast
qed

lemma flow_depends:
  assumes g: "graph_ok env" and iv: "inputs_valid env" and n: "node \<in> set (graph_nodes env)" and fl: "fl \<in> set (node_flows env node)"
    and e: "\<And>a. allocated env a \<Longrightarrow> m a = m' a"
  shows "snd fl m = snd fl m'"
proof -
  let ?n = "dg_node (pe_graph env) node"
  have inp: "m (GetPredictionAddressForInputOperand v) = m' (GetPredictionAddressForInputOperand v)" if "v \<in> used_inputs env ?n" for v
  proof (cases "node \<in> set (concat (dg_blocks (pe_graph env)))")
    case True
    show ?thesis by (rule e[OF input_allocated[OF g iv True that]])
  next
    case False
    then have "constant_prediction env (dn_kind ?n) \<noteq> None" using n graph_okD(2)[OF g, of node] by (simp add: graph_nodes_def)
    then have "used_inputs env ?n = {}" by (cases "dn_kind ?n") (auto simp: constant_prediction_def used_inputs_def)
    then show ?thesis using that by simp
  qed
  have var: "m a = m' a" if "a \<in> vars" for a using e that by (simp add: allocated_def)
  show ?thesis
  proof (cases "dn_kind ?n")
    case (GuestLanguageNode bc nsd)
    let ?ords = "st_inputOrds (bt_setup (pe_bc env) bc nsd)"
    let ?ins = "map (map_option (\<lambda>v. GetPredictionAddressForInputOperand (dn_inputs ?n ! v))) ?ords"
    have fl': "fl \<in> set (guest_flows env node bc nsd)" using fl GuestLanguageNode by (simp add: node_flows_def)
    have o: "dn_hasDirectOutput ?n \<or> dn_numExtraOutputs ?n \<noteq> 0"
    proof (rule ccontr)
      assume "\<not> (dn_hasDirectOutput ?n \<or> dn_numExtraOutputs ?n \<noteq> 0)"
      then have "guest_flows env node bc nsd = []" by (simp add: guest_flows_def)
      then show False using fl' by simp
    qed
    have "map_option m (map_option (\<lambda>v. GetPredictionAddressForInputOperand (dn_inputs ?n ! v)) x) = map_option m' (map_option (\<lambda>v. GetPredictionAddressForInputOperand (dn_inputs ?n ! v)) x)"
      if x: "x \<in> set ?ords" for x
    proof (cases x)
      case (Some w)
      then have "dn_inputs ?n ! w \<in> used_inputs env ?n" using x o GuestLanguageNode by (auto simp: used_inputs_def)
      then show ?thesis using inp Some by simp
    qed simp
    then have "map (map_option m) ?ins = map (map_option m') ?ins" by (simp add: comp_def)
    then have d: "deduce_value f ?ins k m = deduce_value f ?ins k m'" for f k unfolding deduce_value_def by (simp only:)
    have c: "\<not> (\<not> dn_hasDirectOutput ?n \<and> dn_numExtraOutputs ?n = 0)" using o by blast
    show ?thesis using fl' d unfolding guest_flows_def Let_def if_not_P[OF c] by (auto simp: const_flow_def split: option.splits)
  next
    case (GetLocal lv)
    then show ?thesis using fl var by (auto simp: node_flows_def copy_flow_def const_flow_def vars_def)
  next
    case (SetLocal lv)
    then have "dn_inputs ?n ! 0 \<in> used_inputs env ?n" by (simp add: used_inputs_def)
    then show ?thesis using fl inp SetLocal by (auto simp: node_flows_def Let_def copy_flow_def)
  next
    case (CreateCapturedVar c selfRef)
    then have "selfRef \<or> dn_inputs ?n ! 0 \<in> used_inputs env ?n" by (simp add: used_inputs_def)
    then have "selfRef \<or> m (GetPredictionAddressForInputOperand (dn_inputs ?n ! 0)) = m' (GetPredictionAddressForInputOperand (dn_inputs ?n ! 0))" using inp by blast
    then show ?thesis using fl CreateCapturedVar by (auto simp: node_flows_def Let_def copy_flow_def const_flow_def split: if_splits)
  next
    case (GetCapturedVar c)
    then show ?thesis using fl var by (auto simp: node_flows_def copy_flow_def const_flow_def vars_def)
  next
    case (SetCapturedVar c)
    then have "dn_inputs ?n ! 1 \<in> used_inputs env ?n" by (simp add: used_inputs_def)
    then show ?thesis using fl inp SetCapturedVar by (auto simp: node_flows_def Let_def copy_flow_def)
  qed (use fl in \<open>auto simp: node_flows_def Let_def const_flow_def constant_prediction_def\<close>)
qed

lemma bound_solves:
  assumes "graph_ok env" "inputs_valid env" "solves env M"
  shows "solves env (bound_of env M)"
  unfolding solves_def flows_into_def
proof (intro ballI)
  fix node fl assume a: "node \<in> set (graph_nodes env)" "fl \<in> set (node_flows env node)"
  have "allocated env (fst fl)" using a unfolding allocated_def by blast
  then have "bound_of env M (fst fl) = M (fst fl)" by (simp add: bound_of_def)
  moreover have "snd fl (bound_of env M) = snd fl M" by (rule flow_depends[OF assms(1,2) a]) (simp add: bound_of_def)
  ultimately show "tm_SubsetOf (snd fl (bound_of env M)) (bound_of env M (fst fl))" using assms(3) a unfolding solves_def flows_into_def by simp
qed

lemma bound_free:
  assumes "\<And>k'. NodePred node k' \<in> fst ` set (node_flows env node) \<Longrightarrow> k' \<noteq> k"
  shows "bound_of env M (NodePred node k) = - 1"
proof -
  have "NodePred node k \<notin> fst ` set (node_flows env n)" for n
  proof (cases "n = node")
    case True
    then show ?thesis using assms by blast
  next
    case False
    show ?thesis
    proof
      assume "NodePred node k \<in> fst ` set (node_flows env n)"
      then obtain fl where "fl \<in> set (node_flows env n)" "fst fl = NodePred node k" by force
      then show False using flow_target[of fl env n] False by (auto simp: vars_def)
    qed
  qed
  then have "\<not> allocated env (NodePred node k)" by (auto simp: allocated_def vars_def)
  then show ?thesis by (simp add: bound_of_def)
qed

definition done_addrs :: "nat set \<Rightarrow> pred_addr set" where
  "done_addrs don = {a. \<forall>n k. a = NodePred n k \<longrightarrow> n \<in> don}"

definition mem_below :: "pred_mem \<Rightarrow> nat set \<Rightarrow> prop_pass \<Rightarrow> bool" where
  "mem_below B don s \<longleftrightarrow> (\<forall>a\<in>done_addrs don. tm_SubsetOf (pp_mem s a) (B a))"

definition rules_below :: "pred_mem \<Rightarrow> prop_pass \<Rightarrow> prop_pass \<Rightarrow> bool" where
  "rules_below B s s' \<longleftrightarrow> (\<forall>g\<in>set (pp_gvRuleBuffer s'). g \<in> set (pp_gvRuleBuffer s) \<or> gv_fits B g) \<and>
     (\<forall>r\<in>set (pp_nodeRuleBuffer s'). r \<in> set (pp_nodeRuleBuffer s) \<or> rule_fits B r)"

lemma Sssd_fits: "tm_SubsetOf (B src) (B dst) \<Longrightarrow> rule_fits B (Sssd dst src)"
  unfolding rule_fits_def using UpdatePrediction_facts(5) by simp

lemma Generated_fits:
  assumes "mono_deduce f" "\<And>i. i < length outs \<Longrightarrow> tm_SubsetOf (deduce_value f ins i B) (B (outs ! i))"
  shows "rule_fits B (Generated f ins outs)"
proof -
  let ?vs = "f (map (map_option B) ins)"
  have "tm_SubsetOf v (B d)" if z: "(d, v) \<in> set (zip outs ?vs)" for d v
  proof -
    obtain i where "i < length outs" "i < length ?vs" "d = outs ! i" "v = ?vs ! i" using z by (auto simp: set_zip)
    then show ?thesis using assms(2)[of i] by (simp add: deduce_value_def)
  qed
  then have "updates (zip outs ?vs) (B, False) = (B, False)" by (intro updates_quiet) blast
  then show ?thesis using assms(1) unfolding rule_fits_def Generated_Run by simp
qed

lemma touched_rules: "touched node s0 s \<Longrightarrow> rules_below B s0 s"
  by (simp add: rules_below_def touchedD)

lemma below_touched:
  assumes m: "mem_below (bound_of env M) don s" and t: "touched node s s1"
    and o: "\<forall>k. NodePred node k \<in> fst ` set (node_flows env node) \<longrightarrow> tm_SubsetOf (pp_mem s1 (NodePred node k)) (bound_of env M (NodePred node k))"
  shows "mem_below (bound_of env M) (insert node don) s1"
  unfolding mem_below_def
proof
  fix a assume a: "a \<in> done_addrs (insert node don)"
  show "tm_SubsetOf (pp_mem s1 a) (bound_of env M a)"
  proof (cases "a \<in> range (NodePred node)")
    case True
    then obtain k where k: "a = NodePred node k" by blast
    show ?thesis
    proof (cases "NodePred node k \<in> fst ` set (node_flows env node)")
      case True
      then show ?thesis using o k by blast
    next
      case False
      then have "bound_of env M (NodePred node k) = - 1" by (intro bound_free) blast
      then show ?thesis using k by simp
    qed
  next
    case False
    then have "a \<in> done_addrs don" using a by (auto simp: done_addrs_def)
    then show ?thesis using m touchedD(10)[OF t False] unfolding mem_below_def by simp
  qed
qed

lemma below_added:
  assumes "mem_below B D s" "rule_fits B r" "rule_reads r \<subseteq> done_addrs D"
  shows "mem_below B D (AddOrRunRule node must r s)" "rules_below B s (AddOrRunRule node must r s)"
proof -
  have "\<forall>a\<in>rule_reads r. tm_SubsetOf (pp_mem s a) (B a)" using assms(1,3) unfolding mem_below_def by blast
  from rule_below[OF assms(2) this] show "mem_below B D (AddOrRunRule node must r s)" using assms(1) by (simp add: mem_below_def AddOrRunRule_def)
  show "rules_below B s (AddOrRunRule node must r s)" using assms(2) by (auto simp: rules_below_def AddOrRunRule_def)
qed

lemma rules_below_trans: "rules_below B s s1 \<Longrightarrow> rules_below B s1 s2 \<Longrightarrow> rules_below B s s2"
  unfolding rules_below_def by blast

lemma mem_below_finder [simp]: "mem_below B D (s\<lparr>pp_planFinder := f\<rparr>) = mem_below B D s" "rules_below B s0 (s\<lparr>pp_planFinder := f\<rparr>) = rules_below B s0 s"
  by (simp_all add: mem_below_def rules_below_def)

lemma guest_below:
  assumes p: "pe_noValueProfile env" and mo: "monotone_bc env" and t: "touched node s0 s" and m: "mem_below (bound_of env M) don s0"
    and S: "\<forall>fl\<in>set (guest_flows env node bc nsd). flows_into (bound_of env M) fl" and k: "dn_kind (dg_node (pe_graph env) node) = GuestLanguageNode bc nsd"
    and a: "\<forall>v\<in>used_inputs env (dg_node (pe_graph env) node). fst v \<in> don" and s': "ProcessGuestLanguageNode env node bc nsd s = Some s'"
  shows "mem_below (bound_of env M) (insert node don) s' \<and> rules_below (bound_of env M) s0 s'"
proof -
  let ?n = "dg_node (pe_graph env) node" and ?st = "bt_setup (pe_bc env) bc nsd" and ?B = "bound_of env M"
  show ?thesis
  proof (cases "\<not> dn_hasDirectOutput ?n \<and> dn_numExtraOutputs ?n = 0")
    case True
    then have e: "s' = s" "node_flows env node = []" using s' k by (auto simp: ProcessGuestLanguageNode_def node_flows_def guest_flows_def)
    have "mem_below ?B (insert node don) s" by (rule below_touched[OF m t]) (simp add: e(2))
    then show ?thesis using touched_rules[OF t] e(1) by blast
  next
    case c: False
    let ?s1 = "SetupPredictionArrayForNode ?n node (st_predictions ?st) s"
    let ?s2 = "?s1\<lparr>pp_mem := fold (\<lambda>ord m. m(output_addr ?n node ord := x_typeMaskFor tBoxedValueTop)) (st_valueProfileOrds ?st) (pp_mem ?s1)\<rparr>"
    let ?ins = "map (map_option (\<lambda>value. dn_inputs ?n ! value)) (st_inputOrds ?st)"
    let ?addrs = "map (map_option GetPredictionAddressForInputOperand) ?ins" and ?outs = "map (output_addr ?n node) [0..<length (st_predictions ?st)]"
    let ?must = "\<exists>inputVal\<in>set ?ins. case inputVal of None \<Rightarrow> False | Some v \<Rightarrow> pp_referenced ?s1 (fst v)"
    have c2: "\<not> (st_valueProfileOrds ?st \<noteq> [] \<and> \<not> pe_noValueProfile env)" using p by blast
    have e: "Some s' = (case bt_deduce (pe_bc env) bc of None \<Rightarrow> Some ?s2 | Some deduce \<Rightarrow> Some (AddOrRunRule node ?must (Generated (deduce nsd) ?addrs ?outs) ?s2))"
      using s' unfolding ProcessGuestLanguageNode_def Let_def if_not_P[OF c] if_not_P[OF c2] by (rule sym)
    have e1: "bt_deduce (pe_bc env) bc = None \<Longrightarrow> s' = ?s2"
      and e2: "bt_deduce (pe_bc env) bc = Some deduce \<Longrightarrow> s' = AddOrRunRule node ?must (Generated (deduce nsd) ?addrs ?outs) ?s2" for deduce
      using e by (simp_all only: option.case option.inject)
    have t2: "touched node s0 ?s2" by (rule touched_mem(1)[OF touched_array[OF t]]) (auto intro: outputs_kept)
    have ia: "map (map_option (\<lambda>v. GetPredictionAddressForInputOperand (dn_inputs ?n ! v))) (st_inputOrds ?st) = ?addrs" by (simp add: option.map_comp comp_def)
    note GF = guest_flows_def[of env node bc nsd, unfolded Let_def if_not_P[OF c] ia]
    have outf: "const_flow (output_addr ?n node k) (if k \<in> set (st_valueProfileOrds ?st) then x_typeMaskFor tBoxedValueTop else st_predictions ?st ! k) \<in> set (guest_flows env node bc nsd)"
      if "k < length (st_predictions ?st)" for k using that unfolding GF by auto
    have fr: "\<exists>k<length (st_predictions ?st). x = output_addr ?n node k" if "x \<in> fst ` set (node_flows env node)" for x
      using that k unfolding node_flows_def Let_def by (auto simp: GF const_flow_def split: option.splits)
    have "\<forall>k\<in>set (st_valueProfileOrds ?st). k < Suc (Max (set (st_valueProfileOrds ?st)))" by (simp add: less_Suc_eq_le)
    from outputs_written[OF this, of ?n node "\<lambda>_. x_typeMaskFor tBoxedValueTop" "pp_mem ?s1"]
    have m2: "pp_mem ?s2 (output_addr ?n node k) = (if k \<in> set (st_valueProfileOrds ?st) then x_typeMaskFor tBoxedValueTop else st_predictions ?st ! k)"
      if "k < length (st_predictions ?st)" for k
      using that outputs_written[of "[0..<length (st_predictions ?st)]" "length (st_predictions ?st)" ?n node "\<lambda>k. st_predictions ?st ! k" "pp_mem s" k]
      by (auto simp: SetupPredictionArrayForNode_def)
    have "tm_SubsetOf (pp_mem ?s2 (output_addr ?n node k)) (?B (output_addr ?n node k))" if "k < length (st_predictions ?st)" for k
      using S[rule_format, OF outf[OF that]] m2[OF that] by (simp add: flows_into_def const_flow_def)
    then have b2: "mem_below ?B (insert node don) ?s2" using fr by (intro below_touched[OF m t2]) metis
    note r2 = touched_rules[OF t2, of ?B]
    show ?thesis
    proof (cases "bt_deduce (pe_bc env) bc")
      case None
      show ?thesis unfolding e1[OF None] using b2 r2 by blast
    next
      case (Some deduce)
      let ?r = "Generated (deduce nsd) ?addrs ?outs"
      have "tm_SubsetOf (deduce_value (deduce nsd) ?addrs i ?B) (?B (output_addr ?n node i))" if "i < length (st_predictions ?st)" for i
      proof -
        have "(output_addr ?n node i, deduce_value (deduce nsd) ?addrs i) \<in> set (guest_flows env node bc nsd)" using that Some unfolding GF by auto
        from S[rule_format, OF this] show ?thesis by (simp add: flows_into_def)
      qed
      then have fit: "rule_fits ?B ?r" using mo Some by (intro Generated_fits) (auto simp: monotone_bc_def)
      have "x \<in> done_addrs (insert node don)" if xr: "x \<in> rule_reads ?r" for x
      proof -
        obtain y where y: "y \<in> set (st_inputOrds ?st)" "Some x = map_option GetPredictionAddressForInputOperand (map_option (\<lambda>value. dn_inputs ?n ! value) y)" using xr by auto
        obtain w where w: "Some w \<in> set (st_inputOrds ?st)" "x = GetPredictionAddressForInputOperand (dn_inputs ?n ! w)" using y by (cases y rule: option.exhaust) auto
        have "dn_inputs ?n ! w \<in> used_inputs env ?n" using w(1) c k by (auto simp: used_inputs_def)
        then show ?thesis using a w(2) by (auto simp: done_addrs_def GetPredictionAddressForInputOperand_def)
      qed
      then have rd: "rule_reads ?r \<subseteq> done_addrs (insert node don)" by blast
      show ?thesis unfolding e2[OF Some] using below_added[OF b2 fit rd] rules_below_trans[OF r2] by blast
    qed
  qed
qed

lemma below_one:
  assumes m: "mem_below (bound_of env M) don s0" and t: "touched node s0 s" and p: "tm_SubsetOf p (bound_of env M (NodePred node 0))"
    and f: "\<And>x. x \<in> fst ` set (node_flows env node) \<Longrightarrow> x \<in> vars \<or> x = NodePred node 0"
  shows "mem_below (bound_of env M) (insert node don) (OneOutputPrediction node p s)" "rules_below (bound_of env M) s0 (OneOutputPrediction node p s)"
proof -
  have "k = 0" if "NodePred node k \<in> fst ` set (node_flows env node)" for k using f[OF that] by (auto simp: vars_def)
  then show "mem_below (bound_of env M) (insert node don) (OneOutputPrediction node p s)"
    using p by (intro below_touched[OF m touched_one[OF t]]) (auto simp: OneOutputPrediction_def)
qed (rule touched_rules[OF touched_one[OF t]])

lemma below_none:
  assumes m: "mem_below (bound_of env M) don s0" and t: "touched node s0 s" and f: "\<And>x. x \<in> fst ` set (node_flows env node) \<Longrightarrow> x \<in> vars"
  shows "mem_below (bound_of env M) (insert node don) s" "rules_below (bound_of env M) s0 s"
proof -
  have "NodePred node k \<notin> fst ` set (node_flows env node)" for k using f[of "NodePred node k"] by (auto simp: vars_def)
  then show "mem_below (bound_of env M) (insert node don) s" by (intro below_touched[OF m t]) blast
qed (rule touched_rules[OF t])

lemma mem_below_grow_var:
  assumes "mem_below B D s" "tm_SubsetOf x (B v)" "v \<in> vars"
  shows "mem_below B D (s\<lparr>pp_mem := (pp_mem s)(v := pp_mem s v OR x)\<rparr>)"
proof -
  have "v \<in> done_addrs D" using assms(3) by (auto simp: done_addrs_def vars_def)
  then show ?thesis using assms(1,2) by (auto simp: mem_below_def or_sub)
qed

lemma below_set_var:
  assumes "tm_SubsetOf (B src) (B v)" "src \<in> done_addrs D" "mem_below B D s" "rules_below B s0 s"
  shows "mem_below B D (AddOrRunRule node must (Sssd v src) s) \<and> rules_below B s0 (AddOrRunRule node must (Sssd v src) s)"
proof -
  have "rule_reads (Sssd v src) \<subseteq> done_addrs D" using assms(2) by simp
  from below_added[OF assms(3) Sssd_fits[OF assms(1)] this] rules_below_trans[OF assms(4)] show ?thesis by blast
qed

lemma below_CreateCapturedVar:
  assumes m: "mem_below (bound_of env M) don s0" and t: "touched node s0 s" and n: "node \<notin> don"
    and f: "fst ` set (node_flows env node) \<subseteq> {NodePred node 0, CapturedVarPred c}" and o: "tm_SubsetOf (x_typeMaskFor tOpaque) (bound_of env M (NodePred node 0))"
    and self: "selfRef \<Longrightarrow> tm_SubsetOf (x_typeMaskFor tFunction) (bound_of env M (CapturedVarPred c))"
    and inp: "\<not> selfRef \<Longrightarrow> dn_inputs (dg_node (pe_graph env) node) ! 0 = (n', k) \<and> n' \<in> don \<and> tm_SubsetOf (bound_of env M (NodePred n' k)) (bound_of env M (CapturedVarPred c))"
  shows "mem_below (bound_of env M) (insert node don) (ProcessCreateCapturedVar env b node c selfRef s) \<and>
    rules_below (bound_of env M) s0 (ProcessCreateCapturedVar env b node c selfRef s)"
proof -
  let ?B = "bound_of env M" and ?s1 = "OneOutputPrediction node (x_typeMaskFor tOpaque) s" and ?s' = "ProcessCreateCapturedVar env b node c selfRef s"
  have "x \<in> vars \<or> x = NodePred node 0" if "x \<in> fst ` set (node_flows env node)" for x using f that by (auto simp: vars_def)
  note b1 = below_one[OF m t o this]
  show ?thesis
  proof (cases selfRef)
    case True
    let ?m = "(pp_mem ?s1)(CapturedVarPred c := pp_mem ?s1 (CapturedVarPred c) OR x_typeMaskFor tFunction)"
    have "mem_below ?B (insert node don) (?s1\<lparr>pp_mem := ?m\<rparr>)" using mem_below_grow_var[OF b1(1) self[OF True]] by (simp add: vars_def)
    moreover have "pp_mem ?s' = ?m" "pp_gvRuleBuffer ?s' = pp_gvRuleBuffer ?s1" "pp_nodeRuleBuffer ?s' = pp_nodeRuleBuffer ?s1"
      using True by (simp_all add: ProcessCreateCapturedVar_def Let_def OneOutputPrediction_def fun_upd_twist)
    ultimately show ?thesis using b1(2) by (simp add: mem_below_def rules_below_def)
  next
    case False
    note i = inp[OF False]
    have "NodePred n' k \<in> done_addrs (insert node don)" "n' \<noteq> node" using i n by (auto simp: done_addrs_def)
    then show ?thesis unfolding ProcessCreateCapturedVar_def Let_def GetPredictionAddressForInputOperand_def
      using below_set_var[of ?B "NodePred n' k" "CapturedVarPred c" "insert node don" ?s1 s0, OF _ _ b1] i False AddOrRun_OneOutput[of "CapturedVarPred c" n' node] by (simp add: vars_def)
  qed
qed

lemma below_GetCapturedVar:
  assumes m: "mem_below (bound_of env M) don s0" and t: "touched node s0 s" and f: "fst ` set (node_flows env node) \<subseteq> {NodePred node 0}"
    and v: "tm_SubsetOf (bound_of env M (CapturedVarPred c)) (bound_of env M (NodePred node 0))"
  shows "mem_below (bound_of env M) (insert node don) (ProcessGetCapturedVar env b node c s) \<and> rules_below (bound_of env M) s0 (ProcessGetCapturedVar env b node c s)"
proof -
  let ?r = "Sssd (NodePred node 0) (CapturedVarPred c)" and ?g = "\<lparr>gv_variablePrediction = CapturedVarPred c, gv_prediction = GvPred b c\<rparr>"
  let ?B = "bound_of env M" and ?s' = "ProcessGetCapturedVar env b node c s"
  have b1: "mem_below ?B (insert node don) (OneOutputPrediction node 0 s)" by (rule below_one(1)[OF m t]) (use f in auto)
  have r: "rule_fits ?B ?r" by (rule Sssd_fits[OF v])
  have gb: "?B (GvPred b c) = - 1" using flow_target by (fastforce simp: bound_of_def allocated_def vars_def)
  have g: "gv_fits ?B ?g" unfolding gv_fits_def gv_Run_quiet by (simp add: gb)
  have "\<exists>x. pp_mem ?s' = (pp_mem (OneOutputPrediction node 0 s))(GvPred b c := x)" "set (pp_gvRuleBuffer ?s') \<subseteq> set (pp_gvRuleBuffer s) \<union> {?g}"
    "set (pp_nodeRuleBuffer ?s') = set (pp_nodeRuleBuffer s) \<union> {?r}"
    by (auto simp: ProcessGetCapturedVar_def Let_def OneOutputPrediction_def AddOrRunRule_def SetSeenCapturedVar_def type_mask_values fun_upd_twist intro: exI[of _ "pp_mem s (GvPred b c)"])
  then show ?thesis using b1 r g gb touchedD(2,3)[OF t] unfolding mem_below_def rules_below_def by (auto simp: subset_iff)
qed

lemma ProcessNode_below:
  assumes p: "pe_noValueProfile env" and mo: "monotone_bc env" and n: "node \<in> set (graph_nodes env)" "node \<notin> don" and m: "mem_below (bound_of env M) don s"
    and S: "solves env (bound_of env M)" and a: "\<forall>v\<in>used_inputs env (dg_node (pe_graph env) node). fst v \<in> don" and s': "ProcessNode env b node s = Some s'"
  shows "mem_below (bound_of env M) (insert node don) s' \<and> rules_below (bound_of env M) s s'"
proof -
  let ?n = "dg_node (pe_graph env) node" and ?s = "s\<lparr>pp_referenced := (pp_referenced s)(node := False)\<rparr>" and ?B = "bound_of env M"
  note t = touched_start[of node s]
  have F: "flows_into ?B fl" if "fl \<in> set (node_flows env node)" for fl using S n(1) that unfolding solves_def by blast
  have cf: "tm_SubsetOf v (?B d)" if "const_flow d v \<in> set (node_flows env node)" for d v using F[OF that] by (simp add: flows_into_def const_flow_def)
  have pf: "tm_SubsetOf (?B x) (?B d)" if "copy_flow d x \<in> set (node_flows env node)" for d x using F[OF that] by (simp add: flows_into_def copy_flow_def)
  have vd: "x \<in> done_addrs D" if "x \<in> vars" for x D using that by (auto simp: done_addrs_def vars_def)
  have id: "GetPredictionAddressForInputOperand v \<in> done_addrs (insert node don)" if "v \<in> used_inputs env ?n" for v
    using a that by (auto simp: done_addrs_def GetPredictionAddressForInputOperand_def)
  have one: "mem_below ?B (insert node don) (OneOutputPrediction node q ?s) \<and> rules_below ?B s (OneOutputPrediction node q ?s)"
    if "node_flows env node = [const_flow (NodePred node 0) q]" for q
    using below_one[OF m t, of q] cf[of "NodePred node 0" q] that by (auto simp: const_flow_def)
  note set_var = below_set_var[OF pf id]
  show ?thesis
  proof (cases "dn_kind ?n")
    case (GuestLanguageNode bc nsd)
    have "\<forall>fl\<in>set (guest_flows env node bc nsd). flows_into ?B fl" using F GuestLanguageNode by (simp add: node_flows_def)
    from guest_below[OF p mo t m this GuestLanguageNode a] show ?thesis using s' GuestLanguageNode by (simp add: ProcessNode_def)
  next
    case (GetLocal lv)
    let ?s1 = "OneOutputPrediction node 0 ?s"
    have fl: "node_flows env node = [const_flow (NodePred node 0) 0, copy_flow (NodePred node 0) (VarPred lv)]" using GetLocal by (simp add: node_flows_def)
    have b1: "mem_below ?B (insert node don) ?s1" using below_one(1)[OF m t, of 0] fl by (auto simp: const_flow_def copy_flow_def)
    have g: "gv_fits ?B \<lparr>gv_variablePrediction = VarPred lv, gv_prediction = NodePred node 0\<rparr>" using pf[of "NodePred node 0" "VarPred lv"] fl by (simp add: gv_fits_def gv_Run_quiet)
    have e: "s' = ProcessGetLocal env b node lv ?s" using s' GetLocal by (simp add: ProcessNode_def)
    have "pp_mem s' = pp_mem ?s1" "pp_gvRuleBuffer s' = pp_gvRuleBuffer s @ [\<lparr>gv_variablePrediction = VarPred lv, gv_prediction = NodePred node 0\<rparr>]" "pp_nodeRuleBuffer s' = pp_nodeRuleBuffer s"
      unfolding e by (simp_all add: ProcessGetLocal_def Let_def OneOutputPrediction_def type_mask_values)
    then show ?thesis using b1 g by (auto simp: mem_below_def rules_below_def)
  next
    case (SetLocal lv)
    have fl: "node_flows env node = [copy_flow (VarPred lv) (GetPredictionAddressForInputOperand (dn_inputs ?n ! 0))]" using SetLocal by (simp add: node_flows_def Let_def)
    have b1: "mem_below ?B (insert node don) ?s" "rules_below ?B s ?s" using below_none[OF m t] fl by (auto simp: copy_flow_def vars_def)
    have "dn_inputs ?n ! 0 \<in> used_inputs env ?n" using SetLocal by (simp add: used_inputs_def)
    then show ?thesis using set_var[OF _ _ b1, of "VarPred lv" "dn_inputs ?n ! 0"] fl s' SetLocal by (auto simp: ProcessNode_def ProcessSetLocal_def Let_def)
  next
    case (CreateCapturedVar c selfRef)
    let ?i = "dn_inputs ?n ! 0"
    have fl: "node_flows env node = [const_flow (NodePred node 0) (x_typeMaskFor tOpaque),
      if selfRef then const_flow (CapturedVarPred c) (x_typeMaskFor tFunction) else copy_flow (CapturedVarPred c) (GetPredictionAddressForInputOperand ?i)]"
      using CreateCapturedVar by (simp add: node_flows_def Let_def)
    have f: "fst ` set (node_flows env node) \<subseteq> {NodePred node 0, CapturedVarPred c}" by (simp add: fl const_flow_def copy_flow_def)
    have o: "tm_SubsetOf (x_typeMaskFor tOpaque) (?B (NodePred node 0))" by (rule cf) (simp add: fl)
    have self: "tm_SubsetOf (x_typeMaskFor tFunction) (?B (CapturedVarPred c))" if selfRef using cf that by (simp add: fl)
    have "?i = (fst ?i, snd ?i) \<and> fst ?i \<in> don \<and> tm_SubsetOf (?B (NodePred (fst ?i) (snd ?i))) (?B (CapturedVarPred c))" if "\<not> selfRef"
      using pf[of "CapturedVarPred c" "GetPredictionAddressForInputOperand ?i"] a that CreateCapturedVar by (simp add: fl used_inputs_def GetPredictionAddressForInputOperand_def)
    from below_CreateCapturedVar[OF m t n(2) f o self this, of selfRef b] show ?thesis using s' CreateCapturedVar by (simp add: ProcessNode_def)
  next
    case (GetCapturedVar c)
    have fl: "node_flows env node = [const_flow (NodePred node 0) 0, copy_flow (NodePred node 0) (CapturedVarPred c)]" using GetCapturedVar by (simp add: node_flows_def)
    have "fst ` set (node_flows env node) \<subseteq> {NodePred node 0}" by (simp add: fl const_flow_def copy_flow_def)
    from below_GetCapturedVar[OF m t this, of c b] show ?thesis using pf[of "NodePred node 0" "CapturedVarPred c"] fl s' GetCapturedVar by (simp add: ProcessNode_def)
  next
    case (SetCapturedVar c)
    have fl: "node_flows env node = [copy_flow (CapturedVarPred c) (GetPredictionAddressForInputOperand (dn_inputs ?n ! 1))]" using SetCapturedVar by (simp add: node_flows_def Let_def)
    have b1: "mem_below ?B (insert node don) ?s" "rules_below ?B s ?s" using below_none[OF m t] fl by (auto simp: copy_flow_def vars_def)
    have "dn_inputs ?n ! 1 \<in> used_inputs env ?n" using SetCapturedVar by (simp add: used_inputs_def)
    then show ?thesis using set_var[OF _ _ b1, of "CapturedVarPred c" "dn_inputs ?n ! 1"] fl s' SetCapturedVar by (auto simp: ProcessNode_def ProcessSetCapturedVar_def Let_def)
  qed (use s' one below_none[OF m t] in \<open>auto simp: ProcessNode_def node_flows_def Let_def constant_prediction_def\<close>)
qed

definition below_between :: "pred_mem \<Rightarrow> nat \<Rightarrow> nat set \<Rightarrow> prop_pass \<Rightarrow> bool" where
  "below_between B b don s \<longleftrightarrow> mem_below B don s \<and> (\<forall>b'<b. bb_fits B (pp_bbPropagators s ! b'))"

definition below_within :: "pred_mem \<Rightarrow> nat \<Rightarrow> nat set \<Rightarrow> prop_pass \<Rightarrow> bool" where
  "below_within B b don s \<longleftrightarrow> below_between B b don s \<and> bb_fits B (cur_bb s)"

lemma below_node_keeps:
  assumes "pe_noValueProfile env" "monotone_bc env" "solves env (bound_of env M)"
  shows "node_keeps env pm (below_within (bound_of env M))"
  unfolding node_keeps_def
proof (intro allI impI)
  fix b don L node s s'
  assume b: "b < length (dg_blocks (pe_graph env))" and n: "node \<notin> don" "node \<in> set (dg_blocks (pe_graph env) ! b)"
    and av: "\<forall>v\<in>used_inputs env (dg_node (pe_graph env) node). avail env b don s (fst v)"
    and s': "ProcessNode env b node s = Some s'" and ok: "node_ok env b don node s s'" and I: "below_within (bound_of env M) b don s"
  have a: "\<forall>v\<in>used_inputs env (dg_node (pe_graph env) node). fst v \<in> don" using av unfolding avail_def by blast
  have gn: "node \<in> set (graph_nodes env)" using n(2) b by (auto simp: graph_nodes_def)
  have m: "mem_below (bound_of env M) don s" using I by (simp add: below_within_def below_between_def)
  from ProcessNode_below[OF assms(1,2) gn n(1) m assms(3) a s']
  have r: "mem_below (bound_of env M) (insert node don) s'" "rules_below (bound_of env M) s s'" by blast+
  have "pp_bbPropagators s' = pp_bbPropagators s" using ok by (auto simp: node_ok_def old_kept_def)
  then show "below_within (bound_of env M) b (insert node don) s'" using r I unfolding below_within_def below_between_def bb_fits_def rules_below_def by auto
qed

lemma below_block_keeps: "block_keeps env (below_within B) (below_between B)"
  unfolding block_keeps_def
proof (intro conjI allI impI)
  fix b don s assume "below_between B b don s"
  then show "below_within B b don (ClearSeenCapturedVars (s\<lparr>pp_gvRuleBuffer := [], pp_nodeRuleBuffer := []\<rparr>))"
    by (simp add: below_between_def below_within_def ClearSeenCapturedVars_def mem_below_def bb_fits_def)
next
  fix b :: nat and don s assume "b < length (pp_bbPropagators s)" "below_within B b don s"
  then show "below_between B (Suc b) don (s\<lparr>pp_bbPropagators := (pp_bbPropagators s)[b := cur_bb s]\<rparr>)"
    by (auto simp: below_between_def below_within_def mem_below_def less_Suc_eq)
qed

lemma below_setup:
  assumes g: "graph_ok env" and S: "solves env (bound_of env M)"
    and c: "constants_done env (pp_new env mem refd pm) (set (dg_constants (pe_graph env))) s"
  shows "below_between (bound_of env M) 0 (set (dg_constants (pe_graph env))) s"
proof -
  let ?B = "bound_of env M" and ?cs = "set (dg_constants (pe_graph env))"
  have "tm_SubsetOf (pp_mem s x) (?B x)" if x: "x \<in> done_addrs ?cs" for x
  proof (cases "\<exists>n\<in>?cs. x \<in> range (NodePred n)")
    case True
    then obtain n k where n: "n \<in> ?cs" "x = NodePred n k" by blast
    have p: "constant_prediction env (dn_kind (dg_node (pe_graph env) n)) = Some (pp_mem s (NodePred n 0))" using c n(1) unfolding constants_done_def by blast
    then have fl: "node_flows env n = [const_flow (NodePred n 0) (pp_mem s (NodePred n 0))]"
      by (cases "dn_kind (dg_node (pe_graph env) n)") (auto simp: constant_prediction_def node_flows_def Let_def)
    show ?thesis
    proof (cases "k = 0")
      case True
      have "flows_into ?B (const_flow (NodePred n 0) (pp_mem s (NodePred n 0)))" 
      proof -
        have "n \<in> set (graph_nodes env)" using n(1) by (simp add: graph_nodes_def)
        moreover have "const_flow (NodePred n 0) (pp_mem s (NodePred n 0)) \<in> set (node_flows env n)" by (simp add: fl)
        ultimately show ?thesis using S unfolding solves_def by blast
      qed
      then show ?thesis using n(2) True by (simp add: flows_into_def const_flow_def)
    next
      case False
      then have "?B (NodePred n k) = - 1" using fl by (intro bound_free) (auto simp: const_flow_def)
      then show ?thesis using n(2) by simp
    qed
  next
    case False
    then have m: "pp_mem s x = pp_mem (pp_new env mem refd pm) x" using c unfolding constants_done_def by blast
    show ?thesis
    proof (cases x)
      case (GvPred b k)
      have "?B x = - 1" using flow_target GvPred by (fastforce simp: bound_of_def allocated_def vars_def)
      then show ?thesis by simp
    qed (use m x False in \<open>auto simp: pp_new_def Let_def type_mask_values done_addrs_def\<close>)
  qed
  then show ?thesis by (simp add: below_between_def mem_below_def)
qed

lemma pass_least:
  assumes g: "graph_ok env" "pe_noValueProfile env" "packs_ok (pe_fresh env) (num_graph_nodes env + length (graph_nodes env))"
    and mo: "monotone_bc env" "inputs_valid env" and S: "solves env M" and r: "RunPropagation env (pp_new env mem refd pm) = Some s" and al: "allocated env a"
  shows "tm_SubsetOf (pp_mem s a) (M a)"
proof -
  let ?B = "bound_of env M" and ?nb = "length (dg_blocks (pe_graph env))"
  have SB: "solves env ?B" by (rule bound_solves[OF g(1) mo(2) S])
  obtain s1 L where s1: "SetupPropagation env (pp_new env mem refd pm) = Some s1" "setup_inv env pm ?nb (set (graph_nodes env)) L s1"
    "below_between ?B ?nb (set (graph_nodes env)) s1"
    using SetupPropagation_ok[OF g(1,2) below_node_keeps[OF g(2) mo(1) SB, of pm] below_block_keeps, of mem refd] below_setup[OF g(1) SB] by blast
  obtain plan m where m: "ComputePlan (pp_planFinder s1) = Some plan" "run_plan (pp_bbPropagators s1) plan (pp_mem s1) = Some m"
    and pr: "\<forall>item\<in>set plan. pl_range item \<noteq> [] \<and> set (pl_range item) \<subseteq> {..<length (pp_bbPropagators s1)}"
    using rules_run_total[OF g(1) s1(2) g(3)] by blast
  have len: "length (pp_bbPropagators s1) = ?nb" using s1(2) by (simp add: setup_inv_def)
  have fits: "\<forall>item\<in>set plan. pl_range item \<noteq> [] \<and> (\<forall>b\<in>set (pl_range item). bb_fits ?B (pp_bbPropagators s1 ! b))"
    using pr s1(3) unfolding below_between_def len by blast
  have le: "mem_le (pp_mem s1) ?B"
    unfolding mem_le_def
  proof
    fix x
    show "tm_SubsetOf (pp_mem s1 x) (?B x)"
    proof (cases "x \<in> done_addrs (set (graph_nodes env))")
      case True
      then show ?thesis using s1(3) unfolding below_between_def mem_below_def by blast
    next
      case False
      then obtain n k where n: "x = NodePred n k" "n \<notin> set (graph_nodes env)" by (auto simp: done_addrs_def)
      have "\<not> allocated env x" using n flow_target by (fastforce simp: allocated_def vars_def)
      then show ?thesis by (simp add: bound_of_def)
    qed
  qed
  from plan_below[OF fits m(2) le] have "mem_le m ?B" .
  moreover have "s = s1\<lparr>pp_mem := m\<rparr>" using r s1(1) m by (simp add: RunPropagation_def)
  moreover have "?B a = M a" using al by (simp add: bound_of_def)
  ultimately show ?thesis using mem_leD[of m ?B a] by simp
qed

end
