(* ===== verification/PredProps.thy ===== *)
theory PredProps
  imports PredLeast
begin

text \<open>
  The properties of the prediction propagation, with a small graph on which they are applied.
\<close>

unbundle bit_operations_syntax

section \<open>The properties of the pass\<close>

text \<open>
  Two blocks that form a loop over one local variable: the first stores a constant in it, the second reads it, applies an operation to
  it and stores the result back. The operation yields an integer or what its input is.
\<close>

definition sample_graph2 :: dfg_graph where
  "sample_graph2 = \<lparr>dg_node = (\<lambda>n. if n = 0 then \<lparr>dn_kind = UndefValue, dn_inputs = [], dn_hasDirectOutput = True, dn_numExtraOutputs = 0\<rparr>
       else if n = 1 then \<lparr>dn_kind = SetLocal 0, dn_inputs = [(0, 0)], dn_hasDirectOutput = False, dn_numExtraOutputs = 0\<rparr>
       else if n = 2 then \<lparr>dn_kind = GetLocal 0, dn_inputs = [], dn_hasDirectOutput = True, dn_numExtraOutputs = 0\<rparr>
       else if n = 3 then \<lparr>dn_kind = GuestLanguageNode 5 0, dn_inputs = [(2, 0)], dn_hasDirectOutput = True, dn_numExtraOutputs = 0\<rparr>
       else \<lparr>dn_kind = SetLocal 0, dn_inputs = [(3, 0)], dn_hasDirectOutput = False, dn_numExtraOutputs = 0\<rparr>),
     dg_constants = [0], dg_blocks = [[1], [2, 3, 4]], dg_numLogicalVars = 1, dg_numCapturedVars = 0\<rparr>"

definition sample_deduce :: "nat \<Rightarrow> type_mask option list \<Rightarrow> type_mask list" where
  "sample_deduce nsd ins = (case ins of [Some m] \<Rightarrow> [m OR x_typeMaskFor tInt32] | _ \<Rightarrow> [0])"

definition sample_env :: pp_env where
  "sample_env = \<lparr>pe_graph = sample_graph2,
     pe_bc = \<lparr>bt_setup = (\<lambda>bc nsd. \<lparr>st_inputOrds = [Some 0], st_predictions = [0], st_valueProfileOrds = []\<rparr>), bt_deduce = (\<lambda>bc. Some sample_deduce)\<rparr>,
     pe_fresh = (\<lambda>i. word_of_nat (32 * i)), pe_heapType = (\<lambda>p. HTable), pe_noValueProfile = True\<rparr>"

lemma sample_packs: "packs_ok (pe_fresh sample_env) (num_graph_nodes sample_env + length (graph_nodes sample_env))"
proof -
  have n: "num_graph_nodes sample_env + length (graph_nodes sample_env) = 8" by (simp add: num_graph_nodes_def graph_nodes_def sample_env_def sample_graph2_def)
  show ?thesis unfolding n using consecutive_packs[of 8] by (simp add: sample_env_def)
qed

lemma sample_ok: "graph_ok sample_env" "pe_noValueProfile sample_env" "monotone_bc sample_env" "inputs_valid sample_env"
proof -
  show "graph_ok sample_env"
    by (simp add: graph_ok_def sample_env_def sample_graph2_def constant_prediction_def ordinals_ok_def used_inputs_def All_less_Suc)
  show "pe_noValueProfile sample_env" by (simp add: sample_env_def)
  have "mono_deduce (sample_deduce nsd)" for nsd
    unfolding mono_deduce_def
  proof (intro allI impI)
    fix xs ys :: "type_mask option list" assume "list_all2 (rel_option tm_SubsetOf) xs ys"
    then show "list_all2 tm_SubsetOf (sample_deduce nsd xs) (sample_deduce nsd ys)"
      by (auto simp: sample_deduce_def sub_iff bit_or_iff split: list.splits option.splits elim: option.rel_cases)
  qed
  then show "monotone_bc sample_env" by (simp add: monotone_bc_def sample_env_def)
  show "inputs_valid sample_env"
    by (simp add: inputs_valid_def sample_env_def sample_graph2_def used_inputs_def node_flows_def guest_flows_def constant_prediction_def
        GetPredictionAddressForInputOperand_def const_flow_def copy_flow_def output_addr_def)
qed

text \<open>
  C20. \<^bold>\<open>Prediction propagation ends in a solution.\<close> For a graph in block-local SSA form the pass returns, whatever the predictions and reference
  bits were before; in the end no rule changes anything any more, as \<^verbatim>\<open>AssertFixpointIsReached\<close> checks, and the predictions respect
  every flow of the graph: a variable covers what is stored in it, a read covers its variable, an output covers what the deduction
  function says about the inputs.
\<close>

theorem prediction_propagation_solves:
  assumes "graph_ok env" "pe_noValueProfile env" "packs_ok (pe_fresh env) (num_graph_nodes env + length (graph_nodes env))"
  shows "\<exists>s. RunPropagation env (pp_new env mem refd packMem) = Some s \<and> AssertFixpointIsReached s \<and> solves env (pp_mem s)"
  by (rule pass_total[OF assms])

theorem prediction_propagation_solves_witness:
  "graph_ok sample_env \<and> (\<exists>s. RunPropagation sample_env (pp_new sample_env (\<lambda>a. 7) (\<lambda>n. True) (\<lambda>a. 9)) = Some s \<and>
     AssertFixpointIsReached s \<and> solves sample_env (pp_mem s))"
  using prediction_propagation_solves[OF sample_ok(1,2) sample_packs] sample_ok(1) by blast

text \<open>
  C5. \<^bold>\<open>Prediction propagation computes the least solution.\<close> If the deduction functions are monotone and inputs refer to outputs that exist,
  the run without value profiles returns; the predictions in the end solve the flows of the graph and are contained, for variables and
  outputs alike, in those of every other solution; the result lists them for the logical and the captured variables.
\<close>

theorem prediction_propagation_least:
  assumes "graph_ok env" "pe_noValueProfile env" "packs_ok (pe_fresh env) (num_graph_nodes env + length (graph_nodes env))"
    and "monotone_bc env" "inputs_valid env"
  shows "\<exists>r least. RunPredictionPropagationWithoutValueProfile env mem refd packMem = Some r \<and> solves env least \<and>
    (\<forall>m a. solves env m \<longrightarrow> allocated env a \<longrightarrow> tm_SubsetOf (least a) (m a)) \<and>
    ppr_varPredictions r = map (\<lambda>i. least (VarPred i)) [0..<dg_numLogicalVars (pe_graph env)] \<and>
    ppr_capturedVarPredictions r = map (\<lambda>i. least (CapturedVarPred i)) [0..<dg_numCapturedVars (pe_graph env)]"
proof -
  obtain s where s: "RunPropagation env (pp_new env mem refd packMem) = Some s" "solves env (pp_mem s)" using pass_total[OF assms(1-3), of mem refd packMem] by blast
  have "\<forall>m a. solves env m \<longrightarrow> allocated env a \<longrightarrow> tm_SubsetOf (pp_mem s a) (m a)" using pass_least[OF assms _ s(1)] by blast
  moreover have "env\<lparr>pe_noValueProfile := True\<rparr> = env" using assms(2) by simp
  ultimately show ?thesis using s by (simp add: RunPredictionPropagationWithoutValueProfile_def RunPass_def) blast
qed

text \<open>In the sample the variable holds the undefined value of the first block and integers from the second.\<close>

lemma sample_solution:
  "solves sample_env (\<lambda>a. if a = NodePred 0 0 then 0x400 else 0x410)"
  by (simp add: solves_def flows_into_def graph_nodes_def sample_env_def sample_graph2_def node_flows_def guest_flows_def constant_prediction_def
      GetPredictionAddressForInputOperand_def const_flow_def copy_flow_def output_addr_def deduce_value_def sample_deduce_def type_mask_values tm_SubsetOf_def)

lemma sample_exact:
  assumes "solves sample_env m"
  shows "tm_SubsetOf 0x410 (m (VarPred 0))"
proof -
  have a: "tm_SubsetOf 0x400 (m (NodePred 0 0))" "tm_SubsetOf (m (NodePred 0 0)) (m (VarPred 0))" "tm_SubsetOf (m (NodePred 2 0) OR 0x10) (m (NodePred 3 0))"
    "tm_SubsetOf (m (NodePred 3 0)) (m (VarPred 0))"
    using assms by (simp_all add: solves_def flows_into_def graph_nodes_def sample_env_def sample_graph2_def node_flows_def guest_flows_def constant_prediction_def
      GetPredictionAddressForInputOperand_def const_flow_def copy_flow_def output_addr_def deduce_value_def sample_deduce_def type_mask_values)
  have "tm_SubsetOf 0x10 (m (VarPred 0))" using sub_trans[OF sub_trans[OF sub_or(2) a(3)] a(4)] .
  moreover have "tm_SubsetOf 0x400 (m (VarPred 0))" using sub_trans[OF a(1,2)] .
  ultimately have "tm_SubsetOf (0x400 OR 0x10) (m (VarPred 0))" by (rule or_sub[rotated])
  then show ?thesis by simp
qed

theorem prediction_propagation_least_witness:
  "graph_ok sample_env \<and> monotone_bc sample_env \<and> inputs_valid sample_env \<and>
   (\<exists>r. RunPredictionPropagationWithoutValueProfile sample_env (\<lambda>a. 7) (\<lambda>n. True) (\<lambda>a. 9) = Some r \<and> ppr_varPredictions r = [0x410])"
proof -
  obtain r l where r: "RunPredictionPropagationWithoutValueProfile sample_env (\<lambda>a. 7) (\<lambda>n. True) (\<lambda>a. 9) = Some r" "solves sample_env l"
    "\<forall>m a. solves sample_env m \<longrightarrow> allocated sample_env a \<longrightarrow> tm_SubsetOf (l a) (m a)"
    "ppr_varPredictions r = map (\<lambda>i. l (VarPred i)) [0..<dg_numLogicalVars (pe_graph sample_env)]"
    using prediction_propagation_least[OF sample_ok(1,2) sample_packs sample_ok(3,4)] by blast
  have "allocated sample_env (VarPred 0)" by (simp add: allocated_def vars_def)
  then have "tm_SubsetOf (l (VarPred 0)) 0x410" using r(3)[rule_format, OF sample_solution, of "VarPred 0"] by simp
  then have "l (VarPred 0) = 0x410" using sample_exact[OF r(2)] by (rule sub_antisym)
  then have "ppr_varPredictions r = [0x410]" unfolding r(4) by (simp add: sample_env_def sample_graph2_def)
  then show ?thesis using r(1) sample_ok by blast
qed

end
