(* ===== verification/Spec2Isabelle.thy ===== *)
theory Spec2Isabelle
  imports TableProps TableIterProps StructIter TypeMask TopoSortProps PredProps
begin

text \<open>
  \<^bold>\<open>LuaJIT Remake: hidden classes and tables.\<close>

  LuaJIT Remake is a Lua virtual machine. Every Lua value is a 64-bit word; every table is an object with a
  hidden class, which maps property names to slots, an inline and an outlined property storage, and an array part made of a vector and a
  sparse map. Interpreter, JIT compilers and inline caches all rely on this object model. This development
  models it from the C++ sources under \<^verbatim>\<open>src/\<close> and proves that it implements the tables of the language.

  \<^bold>\<open>The parts and their theories.\<close>

  \<^item> \<^verbatim>\<open>common_utils/misc_math_helper.h\<close> \<rightarrow> \<open>MathHelper\<close>: casts, rounding, checked arithmetic and bit fields at their width.
    \<open>Prelude\<close> holds the lemmas on words, lists and loops that all theories share.
  \<^item> \<^verbatim>\<open>drt/tvalue.h\<close>, \<^verbatim>\<open>drt/heap_object_common.h\<close> \<rightarrow> \<open>TValue\<close> (boxing of doubles, integers, immediate values and pointers in
    one word) and \<open>TypeMask\<close> (type specializations, their checks, the mask lattice).
  \<^item> \<^verbatim>\<open>runtime/array_type.h\<close> \<rightarrow> \<open>ArrayType\<close>; \<^verbatim>\<open>runtime/butterfly.h\<close> \<rightarrow> \<open>Butterfly\<close>.
  \<^item> \<^verbatim>\<open>runtime/structure.h\<close> \<rightarrow> \<open>TransitionTable\<close> (the table of outgoing transitions), \<open>Structure\<close> (structures, inline hash
    tables, anchor hash tables, creation and lookup), \<open>StructureTransition\<close> (adding a property, setting and removing the metatable,
    changing the array type), \<open>StructIter\<close> (the iterator over slots), \<open>Dictionary\<close> (\<^verbatim>\<open>CacheableDictionary\<close>). The theories
    \<open>Probing\<close>, \<open>StructureInv\<close>, \<open>StructureAnchor\<close>, \<open>StructureSetup\<close>, \<open>StructureCreate\<close>, \<open>StructureTree\<close>, \<open>StructureOps\<close> and
    \<open>StructureReach\<close> hold the open-addressing theory, the invariants and the proofs that every operation keeps them.
  \<^item> \<^verbatim>\<open>runtime/table_object.h\<close> \<rightarrow> \<open>SparseMap\<close>, \<open>NumConv\<close> (the conversions between doubles and 64-bit integers on the IEEE bit
    patterns), \<open>Table\<close> (the object and the growth of its butterfly), \<open>TableArray\<close> (access by number), \<open>TableNamed\<close> (access by
    name, metatables, creation, cloning), \<open>TableLength\<close> (the length operator). The proofs are in \<open>TableArrayInv\<close>,
    \<open>TableArrayPut\<close>, \<open>TableInv\<close>, \<open>TablePut\<close>, \<open>TableOps\<close>; \<open>TableWorld\<close> composes all operations to the steps of a virtual machine
    and \<open>TableProps\<close> states what holds in its reachable states.

  \<^bold>\<open>State.\<close> A structure is a record with the fields of the class; the system heap (\<open>sheap\<close>) maps addresses to structures and
  anchor tables and bumps an allocation pointer, so that sharing of structures between tables is explicit. A dictionary and a sparse
  map belong to one table and are stored in it. A table is a record with the fields of \<^verbatim>\<open>TableObject\<close>; its butterfly is a header
  with two arrays. Operations take and return the state; \<open>None\<close> is an abort of the virtual machine at a resource limit, or a
  loop that does not return. Fields of fixed width are words where wrap-around or bit layout matters, and
  natural numbers with the bound as an invariant elsewhere.

  \<^bold>\<open>Parameters.\<close> The hash of a property key, the hash of a number (xxHash) and the pointers of the special keys are
  fields of \<open>vm_env\<close>, about which nothing is assumed but that metatable keys differ from ordinary ones where a lemma says so. Interning of strings is
  outside the model: keys are compared as pointers, as the code does.

  \<^bold>\<open>Interfaces.\<close> \<open>Probing\<close> states linear probing as the locale \<open>probing\<close> over the start and step of the probe sequence; its two
  interpretations are the orders that the code uses, upwards under a mask (transition table, anchor table, dictionary, sparse map) and
  downwards (inline hash table). \<open>child_creator\<close> states what a transition needs of the function that creates the new structure; the
  five kinds of transition interpret it. \<open>keyed_store\<close> states the contract of a store (reading after writing, for
  keys up to a normal form); the sparse map (\<open>sm\<close>), the array part (\<open>arr\<close>) and the named part (\<open>nam\<close>) of a table interpret it.

  \<^bold>\<open>What is shown.\<close>

  \<^item> Hidden classes: in every heap that the operations can produce, lookup terminates and finds exactly the slots that were added;
    every operation leads to a structure with the expected keys, metatable and array type; existing structures never change
    their answers; adding the same property twice gives the same structure.
  \<^item> Dictionaries and sparse maps: put and get, the load bound of the hash tables, when a put aborts, and that the dictionary made
    from a structure answers as the structure did.
  \<^item> Tables: reading after writing by number and by name through all fast and slow paths and representation changes; metatables;
    clones; the array type byte always describes the array part; an inline cache entry stays valid as long as the hidden class is the
    same; operations on one table leave the others alone; the length operator returns a border.
  \<^item> Values and helpers: the type tests partition the words, boxing round-trips, the mask lattice implements sets of
    types, the fast range tests agree with the signed ones, rounding and bit fields.

  \<^bold>\<open>Bounds and loops.\<close> Probing loops run with the table size as fuel, which is enough since every table keeps a free entry;
  the lookup theorems state that a result is returned. The loops of the length operator are partial functions and proved to
  return. The step relation of \<open>TableWorld\<close> creates tables with at most 1000 preallocated array slots: beyond this the slow path
  loses a write (\<open>preallocated_write_lost\<close>). The guards \<open>hc_room\<close>, \<open>put_room\<close>, \<open>setmt_room\<close> and \<open>removemt_room\<close> say that the system heap
  has room for the structures or the dictionary that an operation may allocate, and \<open>arr_limit\<close> is the failure of the user heap.

  \<^bold>\<open>Not modelled.\<close> Uncacheable dictionaries, which the code does not implement either; the mapping of pages and
  segment-relative addressing; string interning; the table iterator and the choice of the initial structure for a capacity
  hint; functions, coroutines, the parser, the bytecode and library semantics (written in an extension of C++ whose meaning is given by
  the generator), the generator itself and the optimizing compiler. Debug assertions appear as invariants or guards.
\<close>

end
